(* ===== verification/KV_Prelude.thy ===== *)
theory KV_Prelude
  imports Main "HOL-Library.Word" "HOL-Library.List_Lexorder"
begin

text \<open>
  The prelude of the development: what the Go sources use of the language and of its standard
  library, and the generic lemmas the components share.

  \<^item> byte slices (\<open>[]byte\<close>) are lists of \<open>8 word\<close>; where the source distinguishes a nil slice
    from an empty one the model uses \<open>bytes option\<close> with \<open>None\<close> for nil;
  \<^item> \<open>bytes_Compare\<close> is \<open>bytes.Compare\<close>, and is shown to decide the lexicographic order;
  \<^item> \<open>PutUint32\<close>, \<open>Uint32\<close>, \<open>PutUint64\<close>, \<open>Uint64\<close> are the little-endian accessors of
    \<open>encoding/binary\<close>;
  \<^item> \<open>res\<close> is the outcome of a Go function that returns a value and an error and may panic.
\<close>

unbundle bit_operations_syntax

named_theorems codec \<open>lengths and round trips of the byte encodings\<close>

type_synonym byte = "8 word"
type_synonym bytes = "byte list"

text \<open>\<open>[]byte(s)\<close> of a string literal or message.\<close>

definition str_bytes :: "string \<Rightarrow> bytes" where
  "str_bytes s = map of_char s"

text \<open>\<open>string(b)\<close> in a message.\<close>

definition bytes_str :: "bytes \<Rightarrow> string" where
  "bytes_str b = map (\<lambda>x. char_of (unat x)) b"

subsection \<open>Outcomes of Go functions\<close>

datatype 'a res = Ok 'a | Err string | Panic

fun res_bind :: "'a res \<Rightarrow> ('a \<Rightarrow> 'b res) \<Rightarrow> 'b res" where
  "res_bind (Ok x) f = f x"
| "res_bind (Err e) f = Err e"
| "res_bind Panic f = Panic"

fun is_Ok :: "'a res \<Rightarrow> bool" where
  "is_Ok (Ok x) = True"
| "is_Ok (Err e) = False"
| "is_Ok Panic = False"

lemma res_bind_Ok_iff: "res_bind m f = Ok y \<longleftrightarrow> (\<exists>x. m = Ok x \<and> f x = Ok y)"
  by (cases m) auto

text \<open>A loop over a slice that returns at the first error.\<close>

fun fold_res :: "('s \<Rightarrow> 'a \<Rightarrow> 's res) \<Rightarrow> 's \<Rightarrow> 'a list \<Rightarrow> 's res" where
  "fold_res f s [] = Ok s"
| "fold_res f s (x # xs) = res_bind (f s x) (\<lambda>s'. fold_res f s' xs)"

lemma res_bind_assoc: "res_bind (res_bind m f) g = res_bind m (\<lambda>x. res_bind (f x) g)"
  by (cases m) auto

lemma res_bind_return [simp]: "res_bind m Ok = m"
  by (cases m) auto

lemma fold_res_append: "fold_res f s (xs @ ys) = res_bind (fold_res f s xs) (\<lambda>s'. fold_res f s' ys)"
  by (induction xs arbitrary: s) (simp_all add: res_bind_assoc)

lemma fold_res_total: "(\<And>s x. f s x = Ok (g s x)) \<Longrightarrow> fold_res f s xs = Ok (foldl g s xs)"
  by (induction xs arbitrary: s) auto

text \<open>A Go slice expression \<open>xs[lo:hi]\<close>: it panics unless \<open>lo \<le> hi \<le> len(xs)\<close> (the buffers
  sliced without a preceding length check have capacity equal to length).\<close>

definition slice :: "'a list \<Rightarrow> nat \<Rightarrow> nat \<Rightarrow> 'a list res" where
  "slice xs lo hi = (if lo \<le> hi \<and> hi \<le> length xs then Ok (take (hi - lo) (drop lo xs)) else Panic)"

lemma slice_Ok: "lo \<le> hi \<Longrightarrow> hi \<le> length xs \<Longrightarrow> slice xs lo hi = Ok (take (hi - lo) (drop lo xs))"
  by (simp add: slice_def)

lemma slice_Panic_iff: "slice xs lo hi = Panic \<longleftrightarrow> hi < lo \<or> length xs < hi"
  by (auto simp: slice_def)

lemma slice_mid: "slice (xs @ ys @ zs) (length xs) (length xs + length ys) = Ok ys"
  by (simp add: slice_def)

lemma slice_at: "length xs = lo \<Longrightarrow> lo + length ys = hi \<Longrightarrow> slice (xs @ ys @ zs) lo hi = Ok ys"
  using slice_mid [of xs ys zs] by simp

subsection \<open>Values that may be nil\<close>

definition val_bytes :: "bytes option \<Rightarrow> bytes" where
  "val_bytes v = (case v of None \<Rightarrow> [] | Some b \<Rightarrow> b)"

text \<open>\<open>val_bytes\<close> is what writing a possibly nil slice writes. An empty value is read back as nil by
  every on-disk format of the program: they store a length and have no way to tell the two apart.\<close>

definition norm_value :: "bytes option \<Rightarrow> bytes option" where
  "norm_value v = (if val_bytes v = [] then None else v)"

lemma norm_value_simps [simp]:
  "norm_value None = None" "norm_value (Some []) = None" "norm_value (Some (b # bs)) = Some (b # bs)"
  "norm_value (norm_value v) = norm_value v"
  by (simp_all add: norm_value_def val_bytes_def)

subsection \<open>Comparing byte slices\<close>

fun bytes_Compare :: "bytes \<Rightarrow> bytes \<Rightarrow> int" where
  "bytes_Compare [] [] = 0"
| "bytes_Compare [] (y # ys) = -1"
| "bytes_Compare (x # xs) [] = 1"
| "bytes_Compare (x # xs) (y # ys) =
     (if x < y then -1 else if y < x then 1 else bytes_Compare xs ys)"

lemma bytes_Compare_cases:
  "(a < b \<longrightarrow> bytes_Compare a b = -1) \<and> (a = b \<longrightarrow> bytes_Compare a b = 0) \<and>
   (b < a \<longrightarrow> bytes_Compare a b = 1)"
  by (induction a b rule: bytes_Compare.induct) auto

lemma bytes_Compare_less [simp]: "bytes_Compare a b < 0 \<longleftrightarrow> a < b"
  using bytes_Compare_cases [of a b] by (cases a b rule: linorder_cases) auto

lemma bytes_Compare_greater [simp]: "bytes_Compare a b > 0 \<longleftrightarrow> b < a"
  using bytes_Compare_cases [of a b] by (cases a b rule: linorder_cases) auto

lemma bytes_Compare_eq [simp]: "bytes_Compare a b = 0 \<longleftrightarrow> a = b"
  using bytes_Compare_cases [of a b] by (cases a b rule: linorder_cases) auto

lemma bytes_Compare_ge [simp]: "bytes_Compare a b \<ge> 0 \<longleftrightarrow> b \<le> a"
  using bytes_Compare_less [of a b] by (auto simp del: bytes_Compare_less simp: not_less [symmetric])

lemma bytes_Compare_le [simp]: "bytes_Compare a b \<le> 0 \<longleftrightarrow> a \<le> b"
  using bytes_Compare_greater [of a b] by (auto simp del: bytes_Compare_greater simp: not_less [symmetric])

subsection \<open>Little-endian integers\<close>

definition PutUint32 :: "32 word \<Rightarrow> bytes" where
  "PutUint32 v = [ucast v, ucast (drop_bit 8 v), ucast (drop_bit 16 v), ucast (drop_bit 24 v)]"

definition Uint32 :: "bytes \<Rightarrow> 32 word" where
  "Uint32 b = ucast (b ! 0) OR push_bit 8 (ucast (b ! 1)) OR
     push_bit 16 (ucast (b ! 2)) OR push_bit 24 (ucast (b ! 3))"

definition PutUint64 :: "64 word \<Rightarrow> bytes" where
  "PutUint64 v = [ucast v, ucast (drop_bit 8 v), ucast (drop_bit 16 v), ucast (drop_bit 24 v),
     ucast (drop_bit 32 v), ucast (drop_bit 40 v), ucast (drop_bit 48 v), ucast (drop_bit 56 v)]"

definition Uint64 :: "bytes \<Rightarrow> 64 word" where
  "Uint64 b = ucast (b ! 0) OR push_bit 8 (ucast (b ! 1)) OR
     push_bit 16 (ucast (b ! 2)) OR push_bit 24 (ucast (b ! 3)) OR
     push_bit 32 (ucast (b ! 4)) OR push_bit 40 (ucast (b ! 5)) OR
     push_bit 48 (ucast (b ! 6)) OR push_bit 56 (ucast (b ! 7))"

lemma length_PutUint32 [simp, codec]: "length (PutUint32 v) = 4"
  by (simp add: PutUint32_def)

lemma length_PutUint64 [simp, codec]: "length (PutUint64 v) = 8"
  by (simp add: PutUint64_def)

lemma bit_byte_at:
  fixes v :: "'a::len word"
  shows "bit (push_bit k (ucast (ucast (drop_bit k v) :: byte)) :: 'a word) n \<longleftrightarrow>
    k \<le> n \<and> n < k + 8 \<and> bit v n"
  using bit_imp_le_length [of v n] by (auto simp: bit_simps)

lemmas bit_byte_at_0 = bit_byte_at [of 0, simplified]

lemma Uint32_PutUint32 [simp, codec]: "Uint32 (PutUint32 v) = v"
proof (rule bit_word_eqI)
  fix n assume n: "n < LENGTH(32)"
  show "bit (Uint32 (PutUint32 v)) n = bit v n"
    using n by (simp add: Uint32_def PutUint32_def bit_or_iff bit_byte_at bit_byte_at_0) arith
qed

lemma Uint64_PutUint64 [simp, codec]: "Uint64 (PutUint64 v) = v"
proof (rule bit_word_eqI)
  fix n assume n: "n < LENGTH(64)"
  show "bit (Uint64 (PutUint64 v)) n = bit v n"
    using n by (simp add: Uint64_def PutUint64_def bit_or_iff bit_byte_at bit_byte_at_0) arith
qed

lemma Uint32_append [simp, codec]: "Uint32 (PutUint32 v @ xs) = v"
proof -
  have "Uint32 (PutUint32 v @ xs) = Uint32 (PutUint32 v)"
    by (simp add: Uint32_def PutUint32_def)
  then show ?thesis by simp
qed

lemma unat_of_nat32 [codec]: "n < 2 ^ 32 \<Longrightarrow> unat (of_nat n :: 32 word) = n"
  by (simp add: unat_of_nat take_bit_nat_eq_self)

lemma unat_add32: "unat a + unat b < 2 ^ 32 \<Longrightarrow> unat (a + b :: 32 word) = unat a + unat b"
  by (simp add: unat_word_ariths)

lemma unat_of_nat64 [codec]: "n < 2 ^ 64 \<Longrightarrow> unat (of_nat n :: 64 word) = n"
  by (simp add: unat_of_nat take_bit_nat_eq_self)

lemma sint_of_nat64 [codec]: "n < 2 ^ 63 \<Longrightarrow> sint (of_nat n :: 64 word) = int n"
  by (simp add: signed_of_nat signed_take_bit_int_eq_self)

lemma xor_cancel_left: "a XOR b = a XOR c \<longleftrightarrow> b = (c :: 'a::len word)"
  by (auto simp: bit_eq_iff bit_simps)

lemma xor_cancel_right: "b XOR a = c XOR a \<longleftrightarrow> b = (c :: 'a::len word)"
  by (auto simp: bit_eq_iff bit_simps)

subsection \<open>Sorted association lists\<close>

lemma sorted_le_last: "sorted_wrt (<) xs \<Longrightarrow> x \<in> set xs \<Longrightarrow> x \<le> (last xs :: 'a :: linorder)"
  by (induction xs) (auto simp: less_imp_le)

text \<open>The reference behaviour of every sorted table of the program: entries with strictly
  increasing keys, an insertion that replaces the entry of its key, lookup by \<open>map_of\<close>.\<close>

type_synonym 'v entries = "(bytes \<times> 'v) list"

definition ksorted :: "'v entries \<Rightarrow> bool" where
  "ksorted es \<longleftrightarrow> sorted_wrt (<) (map fst es)"

definition assoc_put :: "bytes \<Rightarrow> 'v \<Rightarrow> 'v entries \<Rightarrow> 'v entries" where
  "assoc_put k v es = takeWhile (\<lambda>e. fst e < k) es @ (k, v) # dropWhile (\<lambda>e. fst e \<le> k) es"

lemma ksorted_Nil [simp]: "ksorted []"
  by (simp add: ksorted_def)

lemma ksorted_Cons [simp]: "ksorted (e # es) \<longleftrightarrow> (\<forall>x\<in>set es. fst e < fst x) \<and> ksorted es"
  by (auto simp: ksorted_def)

lemma ksorted_append [simp]:
  "ksorted (xs @ ys) \<longleftrightarrow> ksorted xs \<and> ksorted ys \<and> (\<forall>x\<in>set xs. \<forall>y\<in>set ys. fst x < fst y)"
  by (auto simp: ksorted_def sorted_wrt_append)

lemma ksorted_distinct: "ksorted es \<Longrightarrow> distinct (map fst es)"
  by (induction es) auto

lemma assoc_put_Nil [simp]: "assoc_put k v [] = [(k, v)]"
  by (simp add: assoc_put_def)

lemma ksorted_dropWhile_less:
  "ksorted es \<Longrightarrow> \<forall>x\<in>set es. k < fst x \<Longrightarrow> dropWhile (\<lambda>e. fst e \<le> k) es = es"
  by (cases es) auto

lemma assoc_put_Cons:
  "ksorted (e # es) \<Longrightarrow> assoc_put k v (e # es) =
     (if fst e < k then e # assoc_put k v es else if fst e = k then (k, v) # es else (k, v) # e # es)"
  by (auto simp: assoc_put_def ksorted_dropWhile_less dest: order_less_le_trans)

lemma set_assoc_put: "ksorted es \<Longrightarrow> set (map fst (assoc_put k v es)) = insert k (set (map fst es))"
  by (induction es) (auto simp: assoc_put_Cons)

lemma ksorted_assoc_put [simp]: "ksorted es \<Longrightarrow> ksorted (assoc_put k v es)"
proof (induction es)
  case (Cons e es)
  have "\<And>x. x \<in> set (assoc_put k v es) \<Longrightarrow> fst x = k \<or> fst x \<in> fst ` set es"
    using set_assoc_put [of es k v] Cons.prems by (auto simp: image_iff)
  then have "fst e < k \<Longrightarrow> \<forall>x\<in>set (assoc_put k v es). fst e < fst x"
    using Cons.prems by fastforce
  with Cons show ?case by (auto simp: assoc_put_Cons)
qed simp

lemma map_of_assoc_put: "ksorted es \<Longrightarrow> map_of (assoc_put k v es) = (map_of es)(k \<mapsto> v)"
proof (induction es)
  case (Cons e es)
  then show ?case by (cases e) (auto simp: assoc_put_Cons)
qed simp

lemma dropWhile_ksorted:
  "ksorted es \<Longrightarrow> dropWhile (\<lambda>e. fst e < k) es = filter (\<lambda>e. k \<le> fst e) es"
proof (induction es)
  case (Cons e es)
  have "k \<le> fst e \<Longrightarrow> filter (\<lambda>e. k \<le> fst e) es = es"
    using Cons.prems by (intro filter_True) (auto intro: less_imp_le order_le_less_trans)
  then show ?case using Cons by (auto simp: not_less)
qed simp

lemma map_of_ksorted_split:
  assumes "ksorted (xs @ ys)" "\<forall>x\<in>set xs. fst x < k" "\<forall>y\<in>set ys. k \<le> fst y"
  shows "map_of (xs @ ys) k = (case ys of [] \<Rightarrow> None | y # _ \<Rightarrow> if fst y = k then Some (snd y) else None)"
proof -
  have "map_of xs k = None" using assms(2) by (auto simp: map_of_eq_None_iff)
  moreover have "map_of ys k = (case ys of [] \<Rightarrow> None | y # _ \<Rightarrow> if fst y = k then Some (snd y) else None)"
  proof (cases ys)
    case (Cons y ys')
    then have "fst y \<noteq> k \<Longrightarrow> \<forall>z\<in>set ys'. k < fst z" using assms(1,3) by fastforce
    then have "fst y \<noteq> k \<Longrightarrow> map_of ys' k = None" by (auto simp: map_of_eq_None_iff)
    then show ?thesis using Cons by (cases y) auto
  qed simp
  ultimately show ?thesis by (simp add: map_add_def split: option.splits)
qed

lemma ksorted_unique:
  "ksorted xs \<Longrightarrow> ksorted ys \<Longrightarrow> map_of xs = map_of ys \<Longrightarrow> xs = ys"
proof (induction xs arbitrary: ys)
  case Nil
  then show ?case by (metis map_of_eq_empty_iff)
next
  case (Cons x xs)
  from Cons.prems obtain y ys' where ys: "ys = y # ys'"
    by (cases ys) (auto simp: fun_eq_iff dest!: spec [of _ "fst x"])
  have dx: "set (map fst (x # xs)) = set (map fst ys)"
    using Cons.prems(3) by (metis dom_map_of_conv_image_fst set_map)
  have "fst x = fst y"
  proof (rule ccontr)
    assume ne: "fst x \<noteq> fst y"
    from dx ys have "insert (fst x) (fst ` set xs) = insert (fst y) (fst ` set ys')" by simp
    then have "fst x \<in> insert (fst y) (fst ` set ys')" "fst y \<in> insert (fst x) (fst ` set xs)"
      by (metis insertI1)+
    with ne have "fst x \<in> fst ` set ys'" "fst y \<in> fst ` set xs" by auto
    with Cons.prems(1,2) ys have "fst y < fst x" "fst x < fst y" by auto
    then show False by simp
  qed
  moreover have "snd x = snd y"
    using fun_cong [OF Cons.prems(3), of "fst x"] ys \<open>fst x = fst y\<close> by (cases x; cases y) auto
  moreover have "map_of xs = map_of ys'"
  proof
    fix k
    show "map_of xs k = map_of ys' k"
    proof (cases "k = fst x")
      case True
      then have "map_of xs k = None" "map_of ys' k = None"
        using Cons.prems(1,2) ys \<open>fst x = fst y\<close> by (auto simp: map_of_eq_None_iff)
      then show ?thesis by simp
    next
      case False
      then show ?thesis using fun_cong [OF Cons.prems(3), of k] ys \<open>fst x = fst y\<close>
        by (cases x; cases y) auto
    qed
  qed
  ultimately show ?case using Cons.IH [of ys'] Cons.prems ys by (auto simp: prod_eq_iff)
qed

end
