(* ===== verification/Checksum.thy ===== *)
theory Checksum
  imports KV_Prelude
begin

text \<open>
  The checksums and hashes of the Go standard library the store uses: \<open>crc32.ChecksumIEEE\<close> (the
  reflected CRC-32 of polynomial \<open>0xEDB88320\<close>, bit by bit) and the FNV-1a hashes of 32 and 64 bits.
  The lemmas show that the CRC separates two byte strings that differ only within a window of four
  consecutive bytes, which is what the log, the tables and the manifest rely on to notice a
  damaged region.
\<close>

definition crc_poly :: "32 word" where
  "crc_poly = 0xEDB88320"

definition crc_bit :: "32 word \<Rightarrow> 32 word" where
  "crc_bit c = (if bit c 0 then drop_bit 1 c XOR crc_poly else drop_bit 1 c)"

definition crc_byte :: "32 word \<Rightarrow> byte \<Rightarrow> 32 word" where
  "crc_byte c b = (crc_bit ^^ 8) (c XOR ucast b)"

definition ChecksumIEEE :: "bytes \<Rightarrow> 32 word" where
  "ChecksumIEEE bs = NOT (foldl crc_byte (NOT 0) bs)"

definition fnv32a :: "bytes \<Rightarrow> 32 word" where
  "fnv32a bs = foldl (\<lambda>h b. (h XOR ucast b) * 16777619) 2166136261 bs"

definition fnv64a :: "bytes \<Rightarrow> 64 word" where
  "fnv64a bs = foldl (\<lambda>h b. (h XOR ucast b) * 1099511628211) 14695981039346656037 bs"

subsection \<open>The CRC step is linear and injective\<close>

lemma bit_crc_poly_31: "bit crc_poly 31"
  by (simp add: crc_poly_def)

lemma bit_crc_bit_31: "bit (crc_bit c) 31 \<longleftrightarrow> bit c 0"
  using bit_imp_le_length [of c 32] by (auto simp: crc_bit_def bit_simps bit_crc_poly_31)

lemma crc_bit_linear: "crc_bit (a XOR b) = crc_bit a XOR crc_bit b"
  by (auto simp: crc_bit_def bit_simps intro!: bit_word_eqI)

lemma crc_bit_inject: "crc_bit a = crc_bit b \<longleftrightarrow> a = b"
proof
  assume e: "crc_bit a = crc_bit b"
  have b0: "bit a 0 = bit b 0" using e bit_crc_bit_31 by metis
  then have d: "drop_bit 1 a = drop_bit 1 b"
    using e by (auto simp: crc_bit_def xor_cancel_right split: if_splits)
  show "a = b"
  proof (rule bit_word_eqI)
    fix n assume "n < LENGTH(32)"
    show "bit a n = bit b n"
    proof (cases n)
      case (Suc m)
      have "bit (drop_bit 1 a) m = bit (drop_bit 1 b) m" by (simp only: d)
      then show ?thesis using Suc by (simp add: bit_drop_bit_eq)
    qed (use b0 in simp)
  qed
qed simp

lemma crc_bits_inject: "(crc_bit ^^ n) a = (crc_bit ^^ n) b \<longleftrightarrow> a = b"
  by (induction n) (auto simp: crc_bit_inject)

lemma crc_bits_linear: "(crc_bit ^^ n) (a XOR b) = (crc_bit ^^ n) a XOR (crc_bit ^^ n) b"
  by (induction n) (auto simp: crc_bit_linear)

lemma crc_bits_shift: "(\<And>i. i < n \<Longrightarrow> \<not> bit c i) \<Longrightarrow> (crc_bit ^^ n) c = drop_bit n c"
proof (induction n arbitrary: c)
  case (Suc n)
  have z: "\<not> bit c 0" using Suc.prems by simp
  have "(crc_bit ^^ Suc n) c = (crc_bit ^^ n) (crc_bit c)" by (simp add: funpow_swap1)
  also have "crc_bit c = drop_bit 1 c" using z by (simp add: crc_bit_def)
  also have "(crc_bit ^^ n) (drop_bit 1 c) = drop_bit n (drop_bit 1 c)"
    by (rule Suc.IH) (use Suc.prems in \<open>simp add: bit_simps\<close>)
  finally show ?case by (simp add: drop_bit_drop_bit)
qed simp

text \<open>Up to four bytes enter the register as one little-endian word.\<close>

fun le_word :: "bytes \<Rightarrow> 32 word" where
  "le_word [] = 0"
| "le_word (b # bs) = ucast b XOR push_bit 8 (le_word bs)"

lemma le_word_tail: "length bs \<le> 3 \<Longrightarrow> drop_bit 8 (push_bit 8 (le_word bs)) = le_word bs"
proof -
  have bnd: "bit (le_word bs) n \<Longrightarrow> n < 8 * length bs" for n
  proof (induction bs arbitrary: n)
    case (Cons b bs)
    from Cons.prems have "bit b n \<and> n < 8 \<or> 8 \<le> n \<and> bit (le_word bs) (n - 8)"
      using bit_imp_le_length [of b n] by (auto simp: bit_simps)
    then show ?case using Cons.IH [of "n - 8"] by auto
  qed simp
  assume "length bs \<le> 3"
  then show ?thesis using bnd by (auto simp: bit_simps intro!: bit_word_eqI) fastforce
qed

lemma foldl_crc_le_word:
  "length bs \<le> 4 \<Longrightarrow> foldl crc_byte c bs = (crc_bit ^^ (8 * length bs)) (c XOR le_word bs)"
proof (induction bs arbitrary: c)
  case (Cons b bs)
  have l3: "length bs \<le> 3" using Cons.prems by simp
  let ?t = "push_bit 8 (le_word bs) :: 32 word"
  have t: "(crc_bit ^^ 8) ?t = le_word bs"
    using crc_bits_shift [of 8 ?t] le_word_tail [OF l3] by (simp add: bit_simps)
  have e: "8 * length (b # bs) = 8 * length bs + 8" by simp
  have "(crc_bit ^^ (8 * length (b # bs))) (c XOR le_word (b # bs)) =
      (crc_bit ^^ (8 * length bs)) ((crc_bit ^^ 8) ((c XOR ucast b) XOR ?t))"
    unfolding e by (simp only: funpow_add comp_apply le_word.simps xor.assoc)
  also have "(crc_bit ^^ 8) ((c XOR ucast b) XOR ?t) = crc_byte c b XOR le_word bs"
    by (simp only: crc_bits_linear [of 8 "c XOR ucast b" ?t] t crc_byte_def)
  finally show ?case using Cons.IH [of "crc_byte c b"] l3 by simp
qed simp

lemma le_word_inject:
  "length as = length bs \<Longrightarrow> length bs \<le> 4 \<Longrightarrow> le_word as = le_word bs \<Longrightarrow> as = bs"
proof (induction as bs rule: list_induct2)
  case (Cons a as b bs)
  have w: "ucast a XOR push_bit 8 (le_word as) = (ucast b XOR push_bit 8 (le_word bs) :: 32 word)"
    using Cons.prems by simp
  have ab: "a = b"
  proof (rule bit_word_eqI)
    fix n assume n: "n < LENGTH(8)"
    have "bit (ucast a XOR push_bit 8 (le_word as) :: 32 word) n = bit (ucast b XOR push_bit 8 (le_word bs) :: 32 word) n"
      by (simp only: w)
    then show "bit a n = bit b n" using n by (simp add: bit_simps)
  qed
  have "push_bit 8 (le_word as) = (push_bit 8 (le_word bs) :: 32 word)"
    using w unfolding ab by (simp only: xor_cancel_left)
  then have t: "drop_bit 8 (push_bit 8 (le_word as) :: 32 word) = drop_bit 8 (push_bit 8 (le_word bs))"
    by (simp only:)
  have l3: "length as \<le> 3" "length bs \<le> 3" using Cons.hyps Cons.prems(1) by simp_all
  have "le_word as = le_word bs"
    using t by (simp only: le_word_tail [OF l3(1)] le_word_tail [OF l3(2)])
  with Cons.IH Cons.prems(1) ab show ?case by simp
qed simp

lemma foldl_crc_inject: "foldl crc_byte a bs = foldl crc_byte b bs \<longleftrightarrow> a = b"
proof (induction bs arbitrary: a b)
  case (Cons x xs)
  have "crc_byte a x = crc_byte b x \<longleftrightarrow> a = b"
    by (simp only: crc_byte_def crc_bits_inject xor_cancel_right)
  then show ?case by (simp add: Cons.IH)
qed simp

theorem ChecksumIEEE_window:
  assumes "length as = length bs" "length bs \<le> 4" "as \<noteq> bs"
  shows "ChecksumIEEE (xs @ as @ ys) \<noteq> ChecksumIEEE (xs @ bs @ ys)"
proof
  let ?c = "foldl crc_byte (NOT 0) xs"
  assume "ChecksumIEEE (xs @ as @ ys) = ChecksumIEEE (xs @ bs @ ys)"
  then have "foldl crc_byte ?c as = foldl crc_byte ?c bs"
    by (simp add: ChecksumIEEE_def foldl_crc_inject)
  then have "?c XOR le_word as = ?c XOR le_word bs"
    using assms(1,2) by (simp add: foldl_crc_le_word crc_bits_inject)
  then have "le_word as = le_word bs"
    by (simp only: xor_cancel_left)
  with le_word_inject assms show False by blast
qed

subsection \<open>Evaluation\<close>

lemma crc_byte_unfold:
  "crc_byte c b = crc_bit (crc_bit (crc_bit (crc_bit (crc_bit (crc_bit (crc_bit (crc_bit (c XOR ucast b))))))))"
  by (simp add: crc_byte_def eval_nat_numeral)

lemmas crc_eval = ChecksumIEEE_def crc_byte_unfold crc_bit_def crc_poly_def

text \<open>The check value of CRC-32/ISO-HDLC: the checksum of the ASCII digits 1 to 9.\<close>

lemma ChecksumIEEE_check: "ChecksumIEEE [49, 50, 51, 52, 53, 54, 55, 56, 57] = 0xCBF43926"
  by (simp add: crc_eval)

end
