(* ===== verification/Wal.thy ===== *)
theory Wal
  imports Checksum "HOL-Library.AList" "HOL-Library.Sublist"
begin

text \<open>
  The write-ahead log of \<open>wal/wal.go\<close>. The directory is an association list from file names to
  contents; the open file is the one named by \<open>fileID\<close>; \<open>w_pending\<close> is what the \<open>bufio.Writer\<close>
  holds and \<open>w_sticky\<close> its sticky error. Every operating-system call that can fail does so as the
  argument \<open>io\<close> says, so each error return of the source is a branch here.

  The lemmas show that the record format round-trips, that replay of a file returns the records
  written, up to a damaged or truncated tail, that file names and ids correspond, and, in the locale
  \<open>segmented_log\<close> interpreted on the operations, how append, rotate, purge and replay act on the
  sequence of segments the directory holds.
\<close>

subsection \<open>Records\<close>

definition RecordPut :: byte where "RecordPut = 0x01"
definition RecordDelete :: byte where "RecordDelete = 0x02"

record Record =
  r_type :: byte
  r_key :: bytes
  r_value :: "bytes option"

definition record_data :: "Record \<Rightarrow> bytes" where
  "record_data rec =
     r_type rec # PutUint32 (of_nat (length (r_key rec))) @ r_key rec @
     PutUint32 (of_nat (length (val_bytes (r_value rec)))) @ val_bytes (r_value rec)"

definition encodeRecord :: "Record \<Rightarrow> bytes" where
  "encodeRecord rec =
     (let keyLen = length (r_key rec); valLen = length (val_bytes (r_value rec));
          dataSize = 1 + 4 + keyLen + 4 + valLen;
          data = record_data rec
      in PutUint32 (ChecksumIEEE data) @ PutUint32 (of_nat dataSize) @ data)"

definition decodeRecordData :: "bytes \<Rightarrow> Record option" where
  "decodeRecordData data =
     (if length data < 9 then None
      else let typ = data ! 0;
               keyLen = unat (Uint32 (take 4 (drop 1 data)));
               off = 5
           in if off + keyLen > length data then None
              else let key = take keyLen (drop off data);
                       off = off + keyLen
                   in if off + 4 > length data then None
                      else let valLen = unat (Uint32 (take 4 (drop off data)));
                               off = off + 4
                           in if off + valLen > length data then None
                              else Some \<lparr>r_type = typ, r_key = key,
                                         r_value = (if valLen > 0 then Some (take valLen (drop off data)) else None)\<rparr>)"

subsection \<open>Replaying a file\<close>

text \<open>\<open>r\<close> is what is left to read; a break of the loop returns the state reached.\<close>

function replayFile :: "('s \<Rightarrow> Record \<Rightarrow> 's res) \<Rightarrow> 's \<Rightarrow> bytes \<Rightarrow> 's res" where
  "replayFile fn s r =
     (if length r < 8 then Ok s
      else let storedCRC = Uint32 (take 4 r);
               dataLen = unat (Uint32 (take 4 (drop 4 r)));
               r1 = drop 8 r
           in if length r1 < dataLen then Ok s
              else let data = take dataLen r1
                   in if ChecksumIEEE data \<noteq> storedCRC then Ok s
                      else case decodeRecordData data of
                             None \<Rightarrow> Ok s
                           | Some rec \<Rightarrow>
                               (case fn s rec of
                                  Ok s' \<Rightarrow> replayFile fn s' (drop dataLen r1)
                                | Err e \<Rightarrow> Err e
                                | Panic \<Rightarrow> Panic))"
  by pat_completeness auto
termination
  by (relation "measure (\<lambda>(fn, s, r). length r)") auto

declare replayFile.simps [simp del]

subsection \<open>File names\<close>

fun dec_digits :: "nat \<Rightarrow> string" where
  "dec_digits n = (if n < 10 then [char_of (48 + n)] else dec_digits (n div 10) @ [char_of (48 + n mod 10)])"

declare dec_digits.simps [simp del]

text \<open>\<open>fmt.Sprintf("%06d.wal", id)\<close>\<close>

definition walFileName :: "64 word \<Rightarrow> string" where
  "walFileName i = (let s = dec_digits (unat i) in replicate (6 - length s) CHR ''0'' @ s @ ''.wal'')"

definition is_digit :: "char \<Rightarrow> bool" where
  "is_digit c \<longleftrightarrow> 48 \<le> (of_char c :: nat) \<and> (of_char c :: nat) \<le> 57"

definition parse_digits :: "string \<Rightarrow> nat" where
  "parse_digits s = foldl (\<lambda>a c. 10 * a + (of_char c - 48)) 0 s"

text \<open>\<open>strconv.ParseUint(s, 10, 64)\<close>\<close>

definition ParseUint :: "string \<Rightarrow> 64 word option" where
  "ParseUint s =
     (if s = [] \<or> \<not> list_all is_digit s then None
      else if parse_digits s < 2 ^ 64 then Some (of_nat (parse_digits s)) else None)"

definition HasSuffix :: "string \<Rightarrow> string \<Rightarrow> bool" where
  "HasSuffix s t \<longleftrightarrow> length t \<le> length s \<and> drop (length s - length t) s = t"

definition wal_id :: "string \<Rightarrow> 64 word option" where
  "wal_id name = (if HasSuffix name ''.wal'' then ParseUint (take (length name - 4) name) else None)"

type_synonym dir = "(string \<times> bytes) list"

definition findWALFiles :: "dir \<Rightarrow> 64 word list" where
  "findWALFiles d = sort (List.map_filter (\<lambda>(name, _). wal_id name) d)"

subsection \<open>The log\<close>

text \<open>Which calls fail: with \<open>io_room = Some n\<close> the open file cannot grow beyond \<open>n\<close> bytes, and the
  write that would exceed it fails after filling it.\<close>

record io_env =
  io_mkdir :: bool
  io_readdir :: bool
  io_open :: bool
  io_stat :: bool
  io_room :: "nat option"
  io_sync :: bool
  io_close :: bool
  io_remove :: bool

definition io_ok :: io_env where
  "io_ok = \<lparr>io_mkdir = True, io_readdir = True, io_open = True, io_stat = True, io_room = None,
     io_sync = True, io_close = True, io_remove = True\<rparr>"

record WAL =
  fileID :: "64 word"
  w_size :: int
  w_maxSize :: int
  w_pending :: bytes
  w_sticky :: bool
  w_open :: bool

definition wal_defaultMaxSize :: int where
  "wal_defaultMaxSize = 64 * 1024 * 1024"

definition file_of :: "dir \<Rightarrow> string \<Rightarrow> bytes" where
  "file_of d name = (case map_of d name of None \<Rightarrow> [] | Some b \<Rightarrow> b)"

text \<open>\<open>os.File.Write\<close> in append mode, on the open log file: the bytes that fit, and whether all did.\<close>

definition room :: "io_env \<Rightarrow> nat \<Rightarrow> bytes \<Rightarrow> nat" where
  "room io len p = (case io_room io of None \<Rightarrow> length p | Some n \<Rightarrow> min (length p) (n - len))"

definition file_Write :: "io_env \<Rightarrow> dir \<Rightarrow> WAL \<Rightarrow> bytes \<Rightarrow> dir \<times> nat \<times> bool" where
  "file_Write io d w p =
     (if \<not> w_open w then (d, 0, False)
      else let name = walFileName (fileID w); old = file_of d name; n = room io (length old) p
           in (AList.update name (old @ take n p) d, n, n = length p))"

text \<open>\<open>bufio.Writer\<close> with its default buffer of 4096 bytes: \<open>Flush\<close> and \<open>Write\<close>, with the sticky error.\<close>

definition buf_Flush :: "io_env \<Rightarrow> dir \<Rightarrow> WAL \<Rightarrow> dir \<times> WAL \<times> bool" where
  "buf_Flush io d w =
     (if w_sticky w then (d, w, False)
      else if w_pending w = [] then (d, w, True)
      else case file_Write io d w (w_pending w) of
             (d', n, ok) \<Rightarrow>
               if ok then (d', w\<lparr>w_pending := []\<rparr>, True)
               else (d', w\<lparr>w_pending := drop n (w_pending w), w_sticky := True\<rparr>, False))"

definition buf_size :: nat where "buf_size = 4096"

function buf_Write :: "io_env \<Rightarrow> dir \<Rightarrow> WAL \<Rightarrow> bytes \<Rightarrow> dir \<times> WAL \<times> bool" where
  "buf_Write io d w p =
     (if w_sticky w then (d, w, False)
      else if length p \<le> buf_size - length (w_pending w) then (d, w\<lparr>w_pending := w_pending w @ p\<rparr>, True)
      else if w_pending w = [] then
        (case file_Write io d w p of
           (d', n, ok) \<Rightarrow> (d', w\<lparr>w_sticky := \<not> ok\<rparr>, ok))
      else let n = buf_size - length (w_pending w)
           in case buf_Flush io d (w\<lparr>w_pending := w_pending w @ take n p\<rparr>) of
                (d', w', ok) \<Rightarrow> if ok then buf_Write io d' w' (drop n p) else (d', w', False))"
  by pat_completeness auto
termination
  by (relation "measure (\<lambda>(io, d, w, p). length (w_pending w) + length p)")
     (auto simp: buf_Flush_def length_greater_0_conv [symmetric] simp del: length_greater_0_conv
       split: if_splits prod.splits)

declare buf_Write.simps [simp del]

definition openFile :: "io_env \<Rightarrow> dir \<Rightarrow> WAL \<Rightarrow> dir \<times> WAL res" where
  "openFile io d w =
     (if \<not> io_open io then (d, Err ''wal: open file: '')
      else let name = walFileName (fileID w); d' = AList.update name (file_of d name) d
           in if \<not> io_stat io then (d', Err ''wal: stat: '')
              else (d', Ok (w\<lparr>w_size := int (length (file_of d' name)), w_pending := [],
                              w_sticky := False, w_open := True\<rparr>)))"

definition WAL_Open :: "io_env \<Rightarrow> dir \<Rightarrow> int \<Rightarrow> dir \<times> WAL res" where
  "WAL_Open io d ms =
     (if \<not> io_mkdir io then (d, Err ''wal: mkdir: '')
      else let ms' = (if ms \<le> 0 then wal_defaultMaxSize else ms)
           in if \<not> io_readdir io then (d, Err ''wal: readdir: '')
              else let ids = findWALFiles d; fid = (if ids \<noteq> [] then last ids else 1)
                   in openFile io d \<lparr>fileID = fid, w_size = 0, w_maxSize = ms', w_pending = [], w_sticky = False, w_open = False\<rparr>)"

text \<open>The result of a write operation: the directory, the log and the error, if any.\<close>

type_synonym wal_out = "dir \<times> WAL \<times> string option"

definition flush_sync :: "io_env \<Rightarrow> dir \<Rightarrow> WAL \<Rightarrow> wal_out" where
  "flush_sync io d w =
     (case buf_Flush io d w of
        (d', w', ok) \<Rightarrow>
          if \<not> ok then (d', w', Some ''wal: flush: '')
          else if \<not> io_sync io \<or> \<not> w_open w' then (d', w', Some ''wal: sync: '')
          else (d', w', None))"

fun append_all :: "io_env \<Rightarrow> dir \<Rightarrow> WAL \<Rightarrow> Record list \<Rightarrow> dir \<times> WAL \<times> bool" where
  "append_all io d w [] = (d, w, True)"
| "append_all io d w (rec # recs) =
     (let data = encodeRecord rec in
      case buf_Write io d w data of
        (d1, w1, ok) \<Rightarrow>
          if \<not> ok then (d1, w1, False)
          else append_all io d1 (w1\<lparr>w_size := w_size w1 + int (length data)\<rparr>) recs)"

definition WAL_AppendBatch :: "io_env \<Rightarrow> dir \<Rightarrow> WAL \<Rightarrow> Record list \<Rightarrow> wal_out" where
  "WAL_AppendBatch io d w recs =
     (case append_all io d w recs of
        (d1, w1, ok) \<Rightarrow> if ok then flush_sync io d1 w1 else (d1, w1, Some ''wal: write: ''))"

definition WAL_Append :: "io_env \<Rightarrow> dir \<Rightarrow> WAL \<Rightarrow> Record \<Rightarrow> wal_out" where
  "WAL_Append io d w rec =
     (let data = encodeRecord rec in
      case buf_Write io d w data of
        (d1, w1, ok) \<Rightarrow>
          if \<not> ok then (d1, w1, Some ''wal: write: '')
          else flush_sync io d1 (w1\<lparr>w_size := w_size w1 + int (length data)\<rparr>))"

definition WAL_Sync :: "io_env \<Rightarrow> dir \<Rightarrow> WAL \<Rightarrow> wal_out" where
  "WAL_Sync io d w = flush_sync io d w"

text \<open>\<open>Rotate\<close> also returns the old id, 0 on error.\<close>

definition WAL_Rotate :: "io_env \<Rightarrow> dir \<Rightarrow> WAL \<Rightarrow> dir \<times> WAL \<times> (64 word) res" where
  "WAL_Rotate io d w =
     (case flush_sync io d w of
        (d1, w1, Some e) \<Rightarrow> (d1, w1, Err e)
      | (d1, w1, None) \<Rightarrow>
          if \<not> io_close io then (d1, w1\<lparr>w_open := False\<rparr>, Err ''wal: close: '')
          else let oldID = fileID w1; w2 = w1\<lparr>w_open := False, fileID := fileID w1 + 1\<rparr>
               in case openFile io d1 w2 of
                    (d2, Ok w3) \<Rightarrow> (d2, w3, Ok oldID)
                  | (d2, Err e) \<Rightarrow> (d2, w2, Err e)
                  | (d2, Panic) \<Rightarrow> (d2, w2, Panic))"

fun replay_ids :: "io_env \<Rightarrow> dir \<Rightarrow> ('s \<Rightarrow> Record \<Rightarrow> 's res) \<Rightarrow> 's \<Rightarrow> 64 word list \<Rightarrow> 's res" where
  "replay_ids io d fn s [] = Ok s"
| "replay_ids io d fn s (i # ids) =
     (case map_of d (walFileName i) of
        None \<Rightarrow> Err ''wal: open for replay: ''
      | Some content \<Rightarrow>
          if \<not> io_open io then Err ''wal: open for replay: ''
          else res_bind (replayFile fn s content) (\<lambda>s'. replay_ids io d fn s' ids))"

definition WAL_Replay :: "io_env \<Rightarrow> dir \<Rightarrow> ('s \<Rightarrow> Record \<Rightarrow> 's res) \<Rightarrow> 's \<Rightarrow> 's res" where
  "WAL_Replay io d fn s =
     (if \<not> io_readdir io then Err ''wal: readdir: '' else replay_ids io d fn s (findWALFiles d))"

fun purge_ids :: "bool \<Rightarrow> dir \<Rightarrow> 64 word \<Rightarrow> 64 word list \<Rightarrow> dir \<times> string option" where
  "purge_ids ok d fid [] = (d, None)"
| "purge_ids ok d fid (i # ids) =
     (if i \<le> fid then
        if \<not> ok \<and> map_of d (walFileName i) \<noteq> None then (d, Some (''wal: purge '' @ walFileName i))
        else purge_ids ok (AList.delete (walFileName i) d) fid ids
      else purge_ids ok d fid ids)"

definition WAL_PurgeOlderThan :: "io_env \<Rightarrow> dir \<Rightarrow> 64 word \<Rightarrow> dir \<times> string option" where
  "WAL_PurgeOlderThan io d fid =
     (if \<not> io_readdir io then (d, Some ''wal: readdir: '') else purge_ids (io_remove io) d fid (findWALFiles d))"

definition WAL_Close :: "io_env \<Rightarrow> dir \<Rightarrow> WAL \<Rightarrow> wal_out" where
  "WAL_Close io d w =
     (case flush_sync io d w of
        (d1, w1, Some e) \<Rightarrow> (d1, w1, Some e)
      | (d1, w1, None) \<Rightarrow>
          (d1, w1\<lparr>w_open := False\<rparr>, if io_close io then None else Some ''wal: close: ''))"

subsection \<open>The record format\<close>

definition norm_rec :: "Record \<Rightarrow> Record" where
  "norm_rec rec = rec\<lparr>r_value := norm_value (r_value rec)\<rparr>"

definition rec_ok :: "Record \<Rightarrow> bool" where
  "rec_ok rec \<longleftrightarrow> 9 + length (r_key rec) + length (val_bytes (r_value rec)) < 2 ^ 32"

lemma length_record_data [codec]:
  "length (record_data rec) = 9 + length (r_key rec) + length (val_bytes (r_value rec))"
  by (simp add: record_data_def)

lemma encodeRecord_eq:
  "encodeRecord rec = PutUint32 (ChecksumIEEE (record_data rec)) @
     PutUint32 (of_nat (length (record_data rec))) @ record_data rec"
  by (simp add: encodeRecord_def length_record_data Let_def add.assoc)

lemma length_encodeRecord [codec]: "length (encodeRecord rec) = 8 + length (record_data rec)"
  by (simp add: encodeRecord_eq)

lemma record_data_parts:
  fixes rec
  defines "k \<equiv> r_key rec" and "v \<equiv> val_bytes (r_value rec)"
  shows "drop 1 (record_data rec) = PutUint32 (of_nat (length k)) @ k @ PutUint32 (of_nat (length v)) @ v"
    and "drop 5 (record_data rec) = k @ PutUint32 (of_nat (length v)) @ v"
    and "drop (5 + length k) (record_data rec) = PutUint32 (of_nat (length v)) @ v"
    and "drop (9 + length k) (record_data rec) = v"
    and "record_data rec ! 0 = r_type rec"
proof -
  show 1: "drop 1 (record_data rec) = PutUint32 (of_nat (length k)) @ k @ PutUint32 (of_nat (length v)) @ v"
    by (simp add: record_data_def k_def v_def)
  have "drop 5 (record_data rec) = drop 4 (drop 1 (record_data rec))" by (simp only: drop_drop) simp
  then show 2: "drop 5 (record_data rec) = k @ PutUint32 (of_nat (length v)) @ v" by (simp only: 1) simp
  have "drop (5 + length k) (record_data rec) = drop (length k) (drop 5 (record_data rec))"
    by (simp add: add.commute)
  then show 3: "drop (5 + length k) (record_data rec) = PutUint32 (of_nat (length v)) @ v"
    by (simp add: 2 del: drop_drop)
  have "drop (9 + length k) (record_data rec) = drop 4 (drop (5 + length k) (record_data rec))"
    by (simp only: drop_drop) simp
  then show "drop (9 + length k) (record_data rec) = v" by (simp add: 3 del: drop_drop)
  show "record_data rec ! 0 = r_type rec" by (simp add: record_data_def)
qed

lemma decodeRecordData_record_data:
  assumes "rec_ok rec" shows "decodeRecordData (record_data rec) = Some (norm_rec rec)"
proof -
  let ?k = "r_key rec" and ?v = "val_bytes (r_value rec)"
  have l: "unat (of_nat (length ?k) :: 32 word) = length ?k" "unat (of_nat (length ?v) :: 32 word) = length ?v"
    using assms by (auto intro!: unat_of_nat32 simp: rec_ok_def)
  have n: "\<lparr>r_type = r_type rec, r_key = ?k, r_value = (if 0 < length ?v then Some ?v else None)\<rparr> = norm_rec rec"
    by (cases rec) (auto simp: norm_rec_def norm_value_def val_bytes_def split: option.splits)
  note parts = record_data_parts [of rec]
  have 4: "5 + length ?k + 4 = 9 + length ?k" by simp
  show ?thesis
    unfolding decodeRecordData_def Let_def parts
    by (simp only: 4 parts take_append length_PutUint32 l Uint32_append length_record_data
          diff_self_eq_0 take_0 append_Nil2 take_all order_refl n)
       (use n in \<open>auto simp: l split: if_splits\<close>)
qed

subsection \<open>Replay returns what was written\<close>

lemma unat_data_len:
  "rec_ok rec \<Longrightarrow> unat (of_nat (length (record_data rec)) :: 32 word) = length (record_data rec)"
  by (intro unat_of_nat32) (simp add: rec_ok_def length_record_data)

lemma encodeRecord_split:
  assumes "rec_ok rec"
  shows "Uint32 (take 4 (encodeRecord rec @ r)) = ChecksumIEEE (record_data rec)"
    and "unat (Uint32 (take 4 (drop 4 (encodeRecord rec @ r)))) = length (record_data rec)"
    and "drop 8 (encodeRecord rec @ r) = record_data rec @ r"
    and "\<not> length (encodeRecord rec @ r) < 8"
  using assms by (simp_all add: encodeRecord_eq unat_data_len)

lemma replayFile_Cons:
  assumes "rec_ok rec"
  shows "replayFile fn s (encodeRecord rec @ r) = res_bind (fn s (norm_rec rec)) (\<lambda>s'. replayFile fn s' r)"
  by (subst replayFile.simps, simp only: encodeRecord_split [OF assms] Let_def)
     (simp add: decodeRecordData_record_data [OF assms] split: res.split)

lemma replayFile_records:
  "list_all rec_ok recs \<Longrightarrow>
   replayFile fn s (concat (map encodeRecord recs) @ tail) =
     res_bind (fold_res fn s (map norm_rec recs)) (\<lambda>s'. replayFile fn s' tail)"
  by (induction recs arbitrary: s) (simp_all add: replayFile_Cons res_bind_assoc)

lemma replayFile_Nil [simp]: "replayFile fn s [] = Ok s"
  by (simp add: replayFile.simps)

text \<open>What a crash leaves of the record being written.\<close>

definition torn :: "bytes \<Rightarrow> bool" where
  "torn t \<longleftrightarrow> (\<exists>rec n. rec_ok rec \<and> n < length (encodeRecord rec) \<and> t = take n (encodeRecord rec))"

lemma torn_Nil [simp]: "torn []"
  unfolding torn_def
  by (rule exI [of _ "\<lparr>r_type = 0, r_key = [], r_value = None\<rparr>"], rule exI [of _ 0])
     (simp add: rec_ok_def val_bytes_def length_encodeRecord length_record_data)

lemma replayFile_torn:
  assumes "torn t" shows "replayFile fn s t = Ok s"
proof -
  obtain rec n where rec: "rec_ok rec" "n < length (encodeRecord rec)" "t = take n (encodeRecord rec)"
    using assms by (auto simp: torn_def)
  show ?thesis
  proof (cases "n < 8")
    case True
    then show ?thesis by (subst replayFile.simps) (simp add: rec min_less_iff_disj)
  next
    case False
    then obtain m where n: "n = 8 + m" by (metis le_iff_add not_less)
    with rec have m: "m < length (record_data rec)" by (simp add: length_encodeRecord)
    have t: "t = PutUint32 (ChecksumIEEE (record_data rec)) @
       PutUint32 (of_nat (length (record_data rec))) @ take m (record_data rec)"
      by (simp add: n rec encodeRecord_eq)
    show ?thesis using m by (subst replayFile.simps) (simp add: t unat_data_len rec(1) Let_def)
  qed
qed

abbreviation seg_bytes :: "Record list \<Rightarrow> bytes" where
  "seg_bytes recs \<equiv> concat (map encodeRecord recs)"

lemma seg_bytes_prefix:
  assumes "list_all rec_ok recs"
  shows "\<exists>m t. m \<le> length recs \<and> take n (seg_bytes recs) = seg_bytes (take m recs) @ t \<and> torn t"
  using assms
proof (induction recs arbitrary: n)
  case (Cons rec recs)
  show ?case
  proof (cases "n < length (encodeRecord rec)")
    case True
    then have "torn (take n (encodeRecord rec))" using Cons.prems by (auto simp: torn_def)
    then show ?thesis using True by (intro exI [of _ 0]) simp
  next
    case False
    obtain m t where "m \<le> length recs" "torn t"
      "take (n - length (encodeRecord rec)) (seg_bytes recs) = seg_bytes (take m recs) @ t"
      using Cons by fastforce
    then show ?thesis using False by (intro exI [of _ "Suc m"] exI [of _ t]) simp
  qed
qed (simp add: exI [of _ "[]"])

text \<open>Damage confined to four consecutive bytes of a record's payload is detected: replay delivers
  the records before it and nothing of the damaged one.\<close>

lemma replayFile_damaged:
  assumes "rec_ok rec" "record_data rec = pre @ xs @ post" "length ys = length xs" "length xs \<le> 4" "ys \<noteq> xs"
  shows "replayFile fn s (PutUint32 (ChecksumIEEE (record_data rec)) @
           PutUint32 (of_nat (length (record_data rec))) @ (pre @ ys @ post) @ tail) = Ok s"
proof -
  have len: "length (pre @ ys @ post) = length (record_data rec)" using assms by simp
  have crc: "ChecksumIEEE (pre @ ys @ post) \<noteq> ChecksumIEEE (record_data rec)"
    using ChecksumIEEE_window assms by metis
  define data where "data = pre @ ys @ post"
  have t: "length (record_data rec) = length data" using len data_def by simp
  show ?thesis unfolding data_def [symmetric]
    by (subst replayFile.simps) (use crc in \<open>simp add: unat_data_len [OF assms(1), unfolded t] t Let_def data_def [symmetric]\<close>)
qed

subsection \<open>File names and ids\<close>

lemma of_char_digit: "n < 10 \<Longrightarrow> (of_char (char_of (48 + n) :: char) :: nat) = 48 + n"
  by simp

lemma parse_digits_snoc: "parse_digits (s @ [c]) = 10 * parse_digits s + (of_char c - 48)"
  by (simp add: parse_digits_def)

lemma parse_digits_zeros: "parse_digits (replicate n CHR ''0'' @ s) = parse_digits s"
  by (induction n) (simp_all add: parse_digits_def)

lemma dec_digits_nonempty [simp]: "dec_digits n \<noteq> []"
  by (subst dec_digits.simps) simp

lemma is_digit_char_of: "n < 10 \<Longrightarrow> is_digit (char_of (48 + n :: nat))"
  by (simp add: is_digit_def)

lemma dec_digits_all: "list_all is_digit (dec_digits n)"
  by (induction n rule: dec_digits.induct) (subst dec_digits.simps, auto simp: is_digit_char_of)

lemma parse_digits_dec_digits: "parse_digits (dec_digits n) = n"
proof (induction n rule: dec_digits.induct)
  case (1 n)
  show ?case
  proof (cases "n < 10")
    case True
    then show ?thesis by (subst dec_digits.simps) (simp add: parse_digits_def)
  next
    case False
    then show ?thesis using 1
      by (subst dec_digits.simps) (simp add: parse_digits_snoc mult.commute [of 10])
  qed
qed

lemma ParseUint_digits:
  "ParseUint (replicate n CHR ''0'' @ dec_digits (unat (i :: 64 word))) = Some i"
proof -
  have "list_all is_digit (replicate n CHR ''0'')" by (simp add: list_all_iff is_digit_def)
  moreover have "unat i < 2 ^ 64" using unsigned_less [of i] by simp
  ultimately show ?thesis
    by (simp add: ParseUint_def parse_digits_zeros parse_digits_dec_digits dec_digits_all)
qed

lemma wal_id_walFileName [simp]: "wal_id (walFileName i) = Some i"
proof -
  define s where "s = replicate (6 - length (dec_digits (unat i))) CHR ''0'' @ dec_digits (unat i)"
  have "walFileName i = s @ ''.wal''" by (simp add: walFileName_def s_def Let_def)
  moreover have "ParseUint s = Some i" unfolding s_def by (rule ParseUint_digits)
  ultimately show ?thesis by (simp add: wal_id_def HasSuffix_def)
qed

lemma walFileName_inj [simp]: "walFileName i = walFileName j \<longleftrightarrow> i = j"
  by (metis option.inject wal_id_walFileName)

text \<open>A directory whose log file names are canonical.\<close>

definition canonical :: "dir \<Rightarrow> bool" where
  "canonical d \<longleftrightarrow> distinct (map fst d) \<and>
     (\<forall>name\<in>set (map fst d). \<forall>i. wal_id name = Some i \<longrightarrow> name = walFileName i)"

lemma canonical_update: "canonical d \<Longrightarrow> canonical (AList.update (walFileName i) b d)"
  by (auto simp: canonical_def distinct_update dom_update)

lemma canonical_delete: "canonical d \<Longrightarrow> canonical (AList.delete k d)"
  by (auto simp: canonical_def delete_keys distinct_removeAll)

subsection \<open>The buffered writer\<close>

text \<open>What the log will hold once its buffer is flushed.\<close>

definition log_bytes :: "dir \<Rightarrow> WAL \<Rightarrow> bytes" where
  "log_bytes d w = file_of d (walFileName (fileID w)) @ w_pending w"

text \<open>\<open>writes_to d w d' w' p\<close>: the open file alone has changed, and it holds what it held and a prefix
  of what was pending and of \<open>p\<close>.\<close>

definition writes_to :: "dir \<Rightarrow> WAL \<Rightarrow> dir \<Rightarrow> WAL \<Rightarrow> bytes \<Rightarrow> bool" where
  "writes_to d w d' w' p \<longleftrightarrow>
     (canonical d \<longrightarrow> canonical d') \<and> fileID w' = fileID w \<and> w_maxSize w' = w_maxSize w \<and> w_open w' = w_open w \<and>
     (\<forall>name. name \<noteq> walFileName (fileID w) \<longrightarrow> map_of d' name = map_of d name) \<and>
     (\<forall>name. map_of d name \<noteq> None \<longrightarrow> map_of d' name \<noteq> None) \<and>
     prefix (file_of d (walFileName (fileID w))) (file_of d' (walFileName (fileID w))) \<and>
     prefix (file_of d' (walFileName (fileID w))) (log_bytes d w @ p)"

lemma map_of_update: "map_of (AList.update k v d) = (map_of d)(k \<mapsto> v)"
  by (rule update_conv')

lemma file_of_update [simp]: "file_of (AList.update k v d) k' = (if k' = k then v else file_of d k')"
  by (simp add: file_of_def map_of_update)

lemma writes_to_refl: "writes_to d w d (w\<lparr>w_pending := q, w_sticky := b\<rparr>) p"
  by (simp add: writes_to_def log_bytes_def)

lemma writes_to_trans:
  assumes "writes_to d w d1 w1 p" "log_bytes d1 w1 = log_bytes d w @ p" "writes_to d1 w1 d2 w2 q"
  shows "writes_to d w d2 w2 (p @ q)"
  using assms by (auto simp: writes_to_def intro: prefix_order.trans)

lemma writes_to_more: "writes_to d w d' w' p \<Longrightarrow> writes_to d w d' w' (p @ q)"
  by (auto simp: writes_to_def intro: prefix_order.trans)

lemma file_Write_cases:
  assumes "file_Write io d w p = (d', n, ok)"
  obtains "\<not> w_open w" "d' = d" "n = 0" "\<not> ok"
  | "w_open w" "n \<le> length p" "ok \<longleftrightarrow> n = length p" "io_room io = None \<longrightarrow> ok"
    "d' = AList.update (walFileName (fileID w)) (file_of d (walFileName (fileID w)) @ take n p) d"
proof (cases "w_open w")
  case False
  then show ?thesis using assms by (intro that(1)) (simp_all add: file_Write_def)
next
  case True
  have "room io m p \<le> length p" for m by (simp add: room_def split: option.splits)
  moreover have "io_room io = None \<longrightarrow> room io m p = length p" for m by (simp add: room_def)
  ultimately show ?thesis using assms True by (intro that(2)) (auto simp: file_Write_def Let_def)
qed

lemma prefix_take [simp]: "prefix (take n ys) ys" "prefix (take n ys) (ys @ zs)"
  by (simp_all add: take_is_prefix prefix_prefix)

lemma buf_Flush_spec:
  assumes "buf_Flush io d w = (d', w', ok)"
  shows "writes_to d w d' w' []"
    and "ok \<Longrightarrow> log_bytes d' w' = log_bytes d w \<and> w_pending w' = [] \<and> \<not> w_sticky w'"
    and "\<not> w_sticky w \<Longrightarrow> w_open w \<Longrightarrow> io_room io = None \<Longrightarrow> ok"
proof -
  have "writes_to d w d' w' [] \<and> (ok \<longrightarrow> log_bytes d' w' = log_bytes d w \<and> w_pending w' = [] \<and> \<not> w_sticky w') \<and>
    (\<not> w_sticky w \<longrightarrow> w_open w \<longrightarrow> io_room io = None \<longrightarrow> ok)"
  proof (cases "w_sticky w \<or> w_pending w = []")
    case True
    then show ?thesis using assms by (auto simp: buf_Flush_def writes_to_def log_bytes_def split: if_splits)
  next
    case False
    obtain d1 n ok1 where fw: "file_Write io d w (w_pending w) = (d1, n, ok1)" by (metis prod_cases3)
    then show ?thesis
      by (cases rule: file_Write_cases)
         (use assms False fw in \<open>auto simp: buf_Flush_def writes_to_def log_bytes_def map_of_update canonical_update
            split: if_splits\<close>)
  qed
  then show "writes_to d w d' w' []"
    and "ok \<Longrightarrow> log_bytes d' w' = log_bytes d w \<and> w_pending w' = [] \<and> \<not> w_sticky w'"
    and "\<not> w_sticky w \<Longrightarrow> w_open w \<Longrightarrow> io_room io = None \<Longrightarrow> ok" by blast+
qed

lemma buf_Write_spec:
  assumes "buf_Write io d w p = (d', w', ok)"
  shows "writes_to d w d' w' p \<and> (ok \<longrightarrow> log_bytes d' w' = log_bytes d w @ p \<and> \<not> w_sticky w') \<and>
    (\<not> w_sticky w \<longrightarrow> w_open w \<longrightarrow> io_room io = None \<longrightarrow> ok)"
  using assms
proof (induction io d w p arbitrary: d' w' ok rule: buf_Write.induct)
  case (1 io d w p)
  let ?n = "buf_size - length (w_pending w)"
  note eq = "1.prems" [unfolded buf_Write.simps [of io d w p]]
  consider (a) "w_sticky w" | (b) "\<not> w_sticky w" "length p \<le> ?n"
    | (c) "\<not> w_sticky w" "\<not> length p \<le> ?n" "w_pending w = []"
    | (d) "\<not> w_sticky w" "\<not> length p \<le> ?n" "w_pending w \<noteq> []" by blast
  then show ?case
  proof cases
    case a
    then have "d' = d" "w' = w" "\<not> ok" using eq by simp_all
    then show ?thesis using a by (simp add: writes_to_def log_bytes_def)
  next
    case b
    then have "d' = d" "w' = w\<lparr>w_pending := w_pending w @ p\<rparr>" "ok" using eq by simp_all
    then show ?thesis using b by (simp add: writes_to_def log_bytes_def)
  next
    case c
    obtain d1 n ok1 where fw: "file_Write io d w p = (d1, n, ok1)" by (metis prod_cases3)
    then have r: "d' = d1" "w' = w\<lparr>w_sticky := \<not> ok1\<rparr>" "ok = ok1" using eq c by auto
    from fw show ?thesis
      by (cases rule: file_Write_cases) (auto simp: r c writes_to_def log_bytes_def map_of_update canonical_update)
  next
    case d
    define w0 where "w0 = w\<lparr>w_pending := w_pending w @ take ?n p\<rparr>"
    obtain d1 w1 ok1 where fl: "buf_Flush io d w0 = (d1, w1, ok1)" by (metis prod_cases3)
    note fs = buf_Flush_spec [OF fl]
    have w01: "writes_to d w d1 w1 (take ?n p)" and lb: "log_bytes d w0 = log_bytes d w @ take ?n p"
      using fs(1) by (auto simp: writes_to_def w0_def log_bytes_def)
    have res: "(if ok1 then buf_Write io d1 w1 (drop ?n p) else (d1, w1, False)) = (d', w', ok)"
      using eq d fl by (simp add: w0_def Let_def)
    show ?thesis
    proof (cases ok1)
      case False
      then show ?thesis using res fs(3) w01 writes_to_more [OF w01, of "drop ?n p"] by (auto simp: w0_def)
    next
      case True
      with res have b: "buf_Write io d1 w1 (drop ?n p) = (d', w', ok)" by simp
      have ih: "writes_to d1 w1 d' w' (drop ?n p) \<and> (ok \<longrightarrow> log_bytes d' w' = log_bytes d1 w1 @ drop ?n p \<and> \<not> w_sticky w') \<and>
         (\<not> w_sticky w1 \<longrightarrow> w_open w1 \<longrightarrow> io_room io = None \<longrightarrow> ok)"
        using "1.IH" [of ?n d1 "(w1, ok1)" w1 ok1 d' w' ok] d True b fl by (simp add: w0_def)
      show ?thesis using ih fs(2) True lb w01 writes_to_trans [OF w01, of d' w' "drop ?n p"]
        by (auto simp: writes_to_def)
    qed
  qed
qed

lemma append_all_spec:
  assumes "append_all io d w recs = (d', w', ok)"
  shows "writes_to d w d' w' (concat (map encodeRecord recs)) \<and>
    (ok \<longrightarrow> log_bytes d' w' = log_bytes d w @ concat (map encodeRecord recs) \<and> (recs = [] \<or> \<not> w_sticky w')) \<and>
    (\<not> w_sticky w \<longrightarrow> w_open w \<longrightarrow> io_room io = None \<longrightarrow> ok)"
  using assms
proof (induction recs arbitrary: d w)
  case Nil
  then show ?case by (auto simp: writes_to_def log_bytes_def)
next
  case (Cons rec recs)
  obtain d1 w1 ok1 where b: "buf_Write io d w (encodeRecord rec) = (d1, w1, ok1)" by (metis prod_cases3)
  note bs = buf_Write_spec [OF b]
  define w2 where "w2 = w1\<lparr>w_size := w_size w1 + int (length (encodeRecord rec))\<rparr>"
  have w2: "writes_to d w d1 w2 (encodeRecord rec)" "log_bytes d1 w2 = log_bytes d1 w1" "w_sticky w2 = w_sticky w1"
    using bs by (simp_all add: writes_to_def log_bytes_def w2_def)
  show ?case
  proof (cases ok1)
    case False
    then show ?thesis using Cons.prems b bs writes_to_more by (auto simp: Let_def)
  next
    case True
    then have a: "append_all io d1 w2 recs = (d', w', ok)" using Cons.prems b by (simp add: Let_def w2_def)
    note ih = Cons.IH [OF a]
    have st: "recs = [] \<Longrightarrow> w' = w2" using a by simp
    show ?thesis using ih bs True w2 st writes_to_trans [OF w2(1), of d' w' "concat (map encodeRecord recs)"]
      by (auto simp: writes_to_def)
  qed
qed

subsection \<open>The segments of a directory\<close>

text \<open>\<open>dir_rep d segs\<close>: the log files of \<open>d\<close> are those of \<open>segs\<close>, in increasing order of their ids,
  each holding its records and possibly a torn one. \<open>log_rep\<close> adds that the log is open on the last
  segment, that its file ends with a whole record and that nothing is buffered.\<close>

type_synonym segments = "(64 word \<times> Record list) list"

definition file_holds :: "bytes \<Rightarrow> Record list \<Rightarrow> bool" where
  "file_holds b recs \<longleftrightarrow> list_all rec_ok recs \<and> (\<exists>t. torn t \<and> b = seg_bytes recs @ t)"

definition dir_rep :: "dir \<Rightarrow> segments \<Rightarrow> bool" where
  "dir_rep d segs \<longleftrightarrow> canonical d \<and> sorted_wrt (<) (map fst segs) \<and>
     (\<forall>i. rel_option file_holds (map_of d (walFileName i)) (map_of segs i))"

definition log_rep :: "dir \<Rightarrow> WAL \<Rightarrow> segments \<Rightarrow> bool" where
  "log_rep d w segs \<longleftrightarrow> dir_rep d segs \<and> w_open w \<and> \<not> w_sticky w \<and> w_pending w = [] \<and>
     segs \<noteq> [] \<and> fst (last segs) = fileID w \<and>
     file_of d (walFileName (fileID w)) = seg_bytes (snd (last segs))"

lemma file_holds_exact: "file_holds (seg_bytes recs) recs \<longleftrightarrow> list_all rec_ok recs"
  by (auto simp: file_holds_def)

lemma replayFile_holds:
  "file_holds b recs \<Longrightarrow> replayFile fn s b = fold_res fn s (map norm_rec recs)"
  by (auto simp: file_holds_def replayFile_records replayFile_torn)

lemma rel_option_SomeD: "rel_option R x (Some b) \<Longrightarrow> \<exists>a. x = Some a \<and> R a b"
  by (cases x) auto

lemma set_findWALFiles:
  assumes "canonical d"
  shows "i \<in> set (findWALFiles d) \<longleftrightarrow> map_of d (walFileName i) \<noteq> None"
proof -
  have "i \<in> set (findWALFiles d) \<longleftrightarrow> (\<exists>name\<in>set (map fst d). wal_id name = Some i)"
    by (force simp: findWALFiles_def map_filter_def)
  also have "\<dots> \<longleftrightarrow> walFileName i \<in> set (map fst d)"
    using assms by (metis canonical_def wal_id_walFileName)
  also have "\<dots> \<longleftrightarrow> map_of d (walFileName i) \<noteq> None" by (simp add: map_of_eq_None_iff)
  finally show ?thesis .
qed

lemma distinct_findWALFiles:
  assumes "canonical d" shows "distinct (findWALFiles d)"
proof -
  have "findWALFiles d = sort (map (the \<circ> wal_id) (filter (\<lambda>n. wal_id n \<noteq> None) (map fst d)))"
    by (induction d) (auto simp: findWALFiles_def map_filter_def comp_def filter_map split_def)
  moreover have "inj_on (the \<circ> wal_id) (set (filter (\<lambda>n. wal_id n \<noteq> None) (map fst d)))"
  proof (rule inj_onI)
    fix a b assume a: "a \<in> set (filter (\<lambda>n. wal_id n \<noteq> None) (map fst d))"
      and b: "b \<in> set (filter (\<lambda>n. wal_id n \<noteq> None) (map fst d))"
      and eq: "(the \<circ> wal_id) a = (the \<circ> wal_id) b"
    then obtain i where "wal_id a = Some i" "wal_id b = Some i" by force
    then show "a = b" using a b assms unfolding canonical_def by (metis filter_is_subset subsetD)
  qed
  ultimately show ?thesis using assms by (simp add: canonical_def distinct_map del: filter_map)
qed

lemma findWALFiles_eq:
  assumes "canonical d" "sorted_wrt (<) ids" "\<And>i. i \<in> set ids \<longleftrightarrow> map_of d (walFileName i) \<noteq> None"
  shows "findWALFiles d = ids"
proof (rule sorted_distinct_set_unique)
  show "sorted (findWALFiles d)" by (simp add: findWALFiles_def)
  show "set (findWALFiles d) = set ids" using assms set_findWALFiles by blast
qed (use assms distinct_findWALFiles in \<open>auto simp: strict_sorted_iff\<close>)

lemma findWALFiles_rep: "dir_rep d segs \<Longrightarrow> findWALFiles d = map fst segs"
proof (rule findWALFiles_eq)
  fix i assume "dir_rep d segs"
  then have "rel_option file_holds (map_of d (walFileName i)) (map_of segs i)" by (simp add: dir_rep_def)
  then have "map_of d (walFileName i) \<noteq> None \<longleftrightarrow> map_of segs i \<noteq> None"
    by (cases "map_of segs i"; cases "map_of d (walFileName i)") auto
  then show "i \<in> set (map fst segs) \<longleftrightarrow> map_of d (walFileName i) \<noteq> None" by (simp add: map_of_eq_None_iff)
qed (simp_all add: dir_rep_def)

lemma replay_ids_rep:
  assumes "io_open io" "\<forall>seg\<in>set segs. \<exists>b. map_of d (walFileName (fst seg)) = Some b \<and> file_holds b (snd seg)"
  shows "replay_ids io d fn s (map fst segs) = fold_res fn s (map norm_rec (concat (map snd segs)))"
  using assms(2)
proof (induction segs arbitrary: s)
  case (Cons seg segs)
  obtain b where b: "map_of d (walFileName (fst seg)) = Some b" "file_holds b (snd seg)" using Cons.prems by auto
  have "replay_ids io d fn s' (map fst segs) = fold_res fn s' (map norm_rec (concat (map snd segs)))" for s'
    using Cons.IH Cons.prems by simp
  then show ?case using b assms(1) by (simp add: replayFile_holds fold_res_append)
qed simp

lemma dir_rep_Some:
  assumes "dir_rep d segs" "(i, recs) \<in> set segs"
  shows "\<exists>b. map_of d (walFileName i) = Some b \<and> file_holds b recs"
proof -
  have "map_of segs i = Some recs" using assms by (auto simp: dir_rep_def strict_sorted_iff)
  moreover have "rel_option file_holds (map_of d (walFileName i)) (map_of segs i)"
    using assms(1) by (simp add: dir_rep_def)
  ultimately show ?thesis using rel_option_SomeD by metis
qed

lemma WAL_Replay_rep:
  assumes "dir_rep d segs" "io_readdir io" "io_open io"
  shows "WAL_Replay io d fn s = fold_res fn s (map norm_rec (concat (map snd segs)))"
proof -
  have "\<forall>seg\<in>set segs. \<exists>b. map_of d (walFileName (fst seg)) = Some b \<and> file_holds b (snd seg)"
    using dir_rep_Some [OF assms(1)] by simp
  with assms show ?thesis by (simp add: WAL_Replay_def findWALFiles_rep replay_ids_rep)
qed

lemma dir_repD: "dir_rep d segs \<Longrightarrow> rel_option file_holds (map_of d (walFileName i)) (map_of segs i)"
  by (simp add: dir_rep_def)

lemma prefix_between:
  assumes "prefix xs f" "prefix f (xs @ ys)" shows "\<exists>n. f = xs @ take n ys"
proof -
  obtain zs where f: "f = xs @ zs" using assms(1) by (auto simp: prefix_def)
  then have "zs = take (length zs) ys" using assms(2) by (auto simp: prefix_def)
  with f show ?thesis by blast
qed

lemma dir_rep_change_last:
  assumes "dir_rep d (segs @ [(i, recs)])" "canonical d'"
    and "\<forall>name. name \<noteq> walFileName i \<longrightarrow> map_of d' name = map_of d name"
    and "map_of d' (walFileName i) = Some b" "file_holds b recs'"
  shows "dir_rep d' (segs @ [(i, recs')])"
proof -
  have "i \<notin> set (map fst segs)" using assms(1) by (auto simp: dir_rep_def sorted_wrt_append)
  then have n: "map_of segs i = None" by (simp add: map_of_eq_None_iff)
  have r: "rel_option file_holds (map_of d (walFileName j)) (map_of (segs @ [(i, recs)]) j)" for j
    using assms(1) by (simp add: dir_rep_def)
  have "rel_option file_holds (map_of d' (walFileName j)) (map_of (segs @ [(i, recs')]) j)" for j
    using r [of j] assms(3) [rule_format, of "walFileName j"] assms(4,5) n by (cases "j = i") (auto simp: map_add_def split: option.splits)
  then show ?thesis using assms(1,2) by (simp add: dir_rep_def sorted_wrt_append)
qed

text \<open>A batch append, whatever fails: the segment on disk has grown by a prefix of the batch, and
  by all of it when the append reports success.\<close>

lemma WAL_AppendBatch_rep:
  assumes rep: "log_rep d w (segs @ [(i, recs)])" and ok: "list_all rec_ok batch"
    and run: "WAL_AppendBatch io d w batch = (d', w', e)"
  shows "\<exists>m\<le>length batch. dir_rep d' (segs @ [(i, recs @ take m batch)])"
    and "e = None \<Longrightarrow> log_rep d' w' (segs @ [(i, recs @ batch)])"
    and "io_room io = None \<Longrightarrow> io_sync io \<Longrightarrow> e = None"
proof -
  let ?f = "walFileName i"
  have w: "fileID w = i" "file_of d ?f = seg_bytes recs" "w_open w" "\<not> w_sticky w" "w_pending w = []"
    and dr: "dir_rep d (segs @ [(i, recs)])"
    using rep by (auto simp: log_rep_def)
  obtain b where b: "map_of d ?f = Some b" "file_holds b recs" using dir_rep_Some [OF dr, of i recs] by auto
  then have rok: "list_all rec_ok recs" by (simp add: file_holds_def)
  obtain d1 w1 ok1 where a: "append_all io d w batch = (d1, w1, ok1)" by (metis prod_cases3)
  note as = append_all_spec [OF a]
  obtain d2 w2 ok2 where f: "buf_Flush io d1 w1 = (d2, w2, ok2)" by (metis prod_cases3)
  note fs = buf_Flush_spec [OF f]
  have out: "if ok1 then d' = d2 \<and> w' = w2 \<and> (e = None \<longrightarrow> ok2) \<and> (ok2 \<longrightarrow> io_sync io \<longrightarrow> w_open w2 \<longrightarrow> e = None)
             else d' = d1 \<and> w' = w1 \<and> e \<noteq> None"
    using run a f by (auto simp: WAL_AppendBatch_def flush_sync_def split: if_splits)
  have wt: "writes_to d w d' w' (seg_bytes batch)"
    using out as fs(1) writes_to_trans [of d w d1 w1 "seg_bytes batch" d2 w2 "[]"] by (auto split: if_splits)
  then obtain n where n: "file_of d' ?f = seg_bytes recs @ take n (seg_bytes batch)"
    using prefix_between [of "seg_bytes recs" "file_of d' ?f" "seg_bytes batch"] w
    by (auto simp: writes_to_def log_bytes_def)
  obtain b' where b': "map_of d' ?f = Some b'" "b' = file_of d' ?f"
    using wt b by (fastforce simp: writes_to_def file_of_def)
  have other: "canonical d'" "\<forall>name. name \<noteq> ?f \<longrightarrow> map_of d' name = map_of d name"
    using wt dr w by (auto simp: writes_to_def dir_rep_def)
  obtain m t where m: "m \<le> length batch" "take n (seg_bytes batch) = seg_bytes (take m batch) @ t" "torn t"
    using seg_bytes_prefix [OF ok] by blast
  have "list_all rec_ok (recs @ take m batch)" using rok ok by (auto simp: list_all_iff dest: in_set_takeD)
  then have "file_holds b' (recs @ take m batch)" using b' n m by (auto simp: file_holds_def)
  then have "dir_rep d' (segs @ [(i, recs @ take m batch)])" by (rule dir_rep_change_last [OF dr other b'(1)])
  then show "\<exists>m\<le>length batch. dir_rep d' (segs @ [(i, recs @ take m batch)])" using m(1) by blast
  show "log_rep d' w' (segs @ [(i, recs @ batch)])" if "e = None"
  proof -
    have ok12: "ok1" "ok2" "d' = d2" "w' = w2" using out that by (auto split: if_splits)
    then have lb: "log_bytes d' w' = log_bytes d w @ seg_bytes batch" and c: "w_pending w' = []" "\<not> w_sticky w'"
      using as fs(2) by auto
    have fid: "fileID w' = i" "w_open w'" using wt w by (simp_all add: writes_to_def)
    have f': "file_of d' ?f = seg_bytes (recs @ batch)" using lb by (simp add: log_bytes_def fid c w)
    have "file_holds b' (recs @ batch)"
      unfolding b'(2) f' by (simp only: file_holds_exact list_all_append rok ok simp_thms)
    then have "dir_rep d' (segs @ [(i, recs @ batch)])"
      by (rule dir_rep_change_last [OF dr other b'(1)])
    then show ?thesis using c f' fid by (simp add: log_rep_def)
  qed
  show "e = None" if "io_room io = None" "io_sync io"
  proof -
    have "ok1" using as that w(3,4) by simp
    moreover have "w_open w1" "w_open w2" using as fs(1) w by (simp_all add: writes_to_def)
    moreover have "\<not> w_sticky w1"
    proof (cases "batch = []")
      case True
      then show ?thesis using a w(4) by simp
    next
      case False
      then show ?thesis using as \<open>ok1\<close> by blast
    qed
    ultimately have "ok2" using fs(3) that(1) by simp
    then show ?thesis using out \<open>ok1\<close> that(2) \<open>w_open w2\<close> by simp
  qed
qed

lemma WAL_Append_batch: "WAL_Append io d w rec = WAL_AppendBatch io d w [rec]"
  by (simp add: WAL_Append_def WAL_AppendBatch_def Let_def split: prod.splits)

lemma flush_sync_clean:
  "log_rep d w segs \<Longrightarrow> flush_sync io d w = (d, w, if io_sync io then None else Some ''wal: sync: '')"
  by (simp add: flush_sync_def buf_Flush_def log_rep_def)

lemma dir_rep_snoc:
  assumes "dir_rep d segs" "\<forall>j\<in>set (map fst segs). j < i"
  shows "dir_rep (AList.update (walFileName i) [] d) (segs @ [(i, [])])"
proof -
  have "map_of segs i = None" using assms(2) by (auto simp: map_of_eq_None_iff)
  then have "rel_option file_holds (map_of (AList.update (walFileName i) [] d) (walFileName j)) (map_of (segs @ [(i, [])]) j)" for j
    using dir_repD [OF assms(1), of j]
    by (cases "j = i") (auto simp: map_of_update map_add_def file_holds_def split: option.splits)
  then show ?thesis using assms by (simp add: dir_rep_def canonical_update sorted_wrt_append)
qed

lemma dir_rep_new:
  assumes "dir_rep d segs" "\<forall>j\<in>set (map fst segs). j < i" shows "map_of d (walFileName i) = None"
proof -
  have "map_of segs i = None" using assms(2) by (auto simp: map_of_eq_None_iff)
  then show ?thesis using assms(1) by (auto simp: dir_rep_def dest: spec [of _ i])
qed

lemma WAL_Rotate_rep:
  assumes rep: "log_rep d w segs" and nowrap: "fileID w < fileID w + 1"
    and run: "WAL_Rotate io d w = (d', w', r)"
  shows "r = Ok old \<Longrightarrow> old = fileID w \<and> fileID w' = fileID w + 1 \<and> log_rep d' w' (segs @ [(fileID w + 1, [])])"
    and "dir_rep d' segs \<or> dir_rep d' (segs @ [(fileID w + 1, [])])"
    and "io_sync io \<Longrightarrow> io_close io \<Longrightarrow> io_open io \<Longrightarrow> io_stat io \<Longrightarrow> r = Ok (fileID w)"
proof -
  let ?i = "fileID w + 1"
  have dr: "dir_rep d segs" using rep by (simp add: log_rep_def)
  have lt: "\<forall>j\<in>set (map fst segs). j < ?i"
  proof
    fix j assume "j \<in> set (map fst segs)"
    then have "j \<le> last (map fst segs)" using dr sorted_le_last [of "map fst segs" j] by (simp add: dir_rep_def)
    also have "last (map fst segs) = fileID w" using rep by (simp add: log_rep_def last_map)
    finally show "j < ?i" using nowrap by simp
  qed
  note new = dir_rep_new [OF dr lt] and snoc = dir_rep_snoc [OF dr lt]
  have f: "file_of d (walFileName ?i) = []" using new by (simp add: file_of_def)
  show "r = Ok old \<Longrightarrow> old = fileID w \<and> fileID w' = fileID w + 1 \<and> log_rep d' w' (segs @ [(fileID w + 1, [])])"
    using run snoc f by (auto simp: WAL_Rotate_def flush_sync_clean [OF rep] openFile_def Let_def log_rep_def split: if_splits)
  show "dir_rep d' segs \<or> dir_rep d' (segs @ [(fileID w + 1, [])])"
    using run snoc f dr by (auto simp: WAL_Rotate_def flush_sync_clean [OF rep] openFile_def Let_def split: if_splits)
  show "io_sync io \<Longrightarrow> io_close io \<Longrightarrow> io_open io \<Longrightarrow> io_stat io \<Longrightarrow> r = Ok (fileID w)"
    using run by (auto simp: WAL_Rotate_def flush_sync_clean [OF rep] openFile_def Let_def)
qed

lemma purge_ids_map_of:
  "purge_ids ok d fid ids = (d', None) \<Longrightarrow>
   (canonical d \<longrightarrow> canonical d') \<and>
   (\<forall>name. map_of d' name = (if \<exists>i\<in>set ids. i \<le> fid \<and> name = walFileName i then None else map_of d name))"
proof (induction ids arbitrary: d)
  case (Cons i ids)
  show ?case
  proof (cases "i \<le> fid")
    case True
    then have "purge_ids ok (AList.delete (walFileName i) d) fid ids = (d', None)" using Cons.prems by (simp split: if_splits)
    from Cons.IH [OF this] show ?thesis using True by (auto simp: canonical_delete delete_conv')
  next
    case False
    then show ?thesis using Cons by auto
  qed
qed simp

lemma map_of_filter_fst: "map_of (filter (\<lambda>e. P (fst e)) xs) k = (if P k then map_of xs k else None)"
  by (induction xs) auto

lemma WAL_PurgeOlderThan_rep:
  assumes rep: "dir_rep d segs" and run: "WAL_PurgeOlderThan io d fid = (d', None)"
  shows "dir_rep d' (filter (\<lambda>seg. \<not> fst seg \<le> fid) segs)"
proof -
  note fw = findWALFiles_rep [OF rep]
  have p: "purge_ids (io_remove io) d fid (map fst segs) = (d', None)"
    using run by (simp add: WAL_PurgeOlderThan_def fw split: if_splits)
  note pm = purge_ids_map_of [OF p]
  have "rel_option file_holds (map_of d' (walFileName j)) (map_of (filter (\<lambda>seg. \<not> fst seg \<le> fid) segs) j)" for j
  proof -
    have "map_of d' (walFileName j) = (if j \<in> set (map fst segs) \<and> j \<le> fid then None else map_of d (walFileName j))"
      using pm by auto
    moreover have "map_of d (walFileName j) = None \<or> j \<in> set (map fst segs)"
      using dir_repD [OF rep, of j] by (cases "map_of segs j") (auto simp: rev_image_eqI dest!: map_of_SomeD)
    ultimately show ?thesis using dir_repD [OF rep, of j] map_of_filter_fst [of "\<lambda>i. \<not> i \<le> fid" segs j] by auto
  qed
  then show ?thesis using rep pm by (simp add: dir_rep_def sorted_wrt_map sorted_wrt_filter)
qed

lemma WAL_PurgeOlderThan_ok:
  "io_readdir io \<Longrightarrow> io_remove io \<Longrightarrow> \<exists>d'. WAL_PurgeOlderThan io d fid = (d', None)"
proof -
  have "\<exists>d'. purge_ids True d fid ids = (d', None)" for ids d by (induction ids arbitrary: d) auto
  then show "io_readdir io \<Longrightarrow> io_remove io \<Longrightarrow> \<exists>d'. WAL_PurgeOlderThan io d fid = (d', None)"
    by (simp add: WAL_PurgeOlderThan_def)
qed

lemma AList_update_same: "map_of d k = Some v \<Longrightarrow> map_of (AList.update k v d) = map_of d"
  by (auto simp: map_of_update)

lemma WAL_Open_rep:
  assumes rep: "dir_rep d segs" and run: "WAL_Open io d ms = (d', Ok w)"
  shows "dir_rep d' (if segs = [] then [(1, [])] else segs)"
    and "fileID w = (if segs = [] then 1 else fst (last segs))"
    and "segs = [] \<or> map_of d (walFileName (fst (last segs))) = Some (seg_bytes (snd (last segs))) \<Longrightarrow>
         log_rep d' w (if segs = [] then [(1, [])] else segs)"
proof -
  note fw = findWALFiles_rep [OF rep]
  have d': "d' = AList.update (walFileName (fileID w)) (file_of d (walFileName (fileID w))) d"
    and w: "w_open w" "\<not> w_sticky w" "w_pending w = []"
    and fid: "fileID w = (if segs = [] then 1 else fst (last segs))"
    using run by (auto simp: WAL_Open_def openFile_def fw Let_def last_map split: if_splits)
  show "fileID w = (if segs = [] then 1 else fst (last segs))" by (rule fid)
  show dr: "dir_rep d' (if segs = [] then [(1, [])] else segs)"
  proof (cases "segs = []")
    case True
    then have "map_of d (walFileName 1) = None" using dir_rep_new [OF rep, of 1] by simp
    then show ?thesis using dir_rep_snoc [OF rep, of 1] True d' fid by (simp add: file_of_def)
  next
    case False
    then have "(fileID w, snd (last segs)) \<in> set segs" using fid by simp
    then obtain b where "map_of d (walFileName (fileID w)) = Some b" using dir_rep_Some [OF rep] by blast
    then have "map_of d' = map_of d" using d' AList_update_same by (simp add: file_of_def)
    then show ?thesis using rep d' False by (simp add: dir_rep_def canonical_update)
  qed
  show "log_rep d' w (if segs = [] then [(1, [])] else segs)"
    if "segs = [] \<or> map_of d (walFileName (fst (last segs))) = Some (seg_bytes (snd (last segs)))"
  proof (cases "segs = []")
    case True
    then have "map_of d (walFileName 1) = None" using dir_rep_new [OF rep, of 1] by simp
    then show ?thesis using dr w fid d' True by (simp add: log_rep_def file_of_def map_of_update)
  next
    case False
    then show ?thesis using dr w fid d' that by (simp add: log_rep_def file_of_def map_of_update)
  qed
qed

subsection \<open>The log as an abstract sequence of segments\<close>

text \<open>What a client of the log relies on. A segmented log is a list of segments, each a number and
  its records; appends go to the last segment, rotation opens a new one, purging drops the segments
  up to a number, and replay folds over all records. The client's lemma: after any sequence of
  operations that succeed, replay delivers exactly the records of the segments not purged.\<close>

datatype 'r log_op = Append_batch "'r list" | Rotate_log | Purge_upto "64 word"

fun abs_step :: "(64 word \<times> 'r list) list \<Rightarrow> 'r log_op \<Rightarrow> (64 word \<times> 'r list) list" where
  "abs_step segs (Append_batch rs) = butlast segs @ [(fst (last segs), snd (last segs) @ rs)]"
| "abs_step segs Rotate_log = segs @ [(fst (last segs) + 1, [])]"
| "abs_step segs (Purge_upto i) = filter (\<lambda>seg. \<not> fst seg \<le> i) segs"

fun op_ok :: "('r \<Rightarrow> bool) \<Rightarrow> (64 word \<times> 'r list) list \<Rightarrow> 'r log_op \<Rightarrow> bool" where
  "op_ok ok segs (Append_batch rs) = list_all ok rs"
| "op_ok ok segs Rotate_log = (fst (last segs) < fst (last segs) + 1)"
| "op_ok ok segs (Purge_upto i) = (i < fst (last segs))"

fun ops_ok :: "('r \<Rightarrow> bool) \<Rightarrow> (64 word \<times> 'r list) list \<Rightarrow> 'r log_op list \<Rightarrow> bool" where
  "ops_ok ok segs [] = True"
| "ops_ok ok segs (p # ps) = (op_ok ok segs p \<and> ops_ok ok (abs_step segs p) ps)"

locale segmented_log =
  fixes log_step :: "'l \<Rightarrow> 'r log_op \<Rightarrow> 'l"
    and log_is :: "'l \<Rightarrow> (64 word \<times> 'r list) list \<Rightarrow> bool"
    and valid :: "'r \<Rightarrow> bool"
    and log_replay :: "('s \<Rightarrow> 'r \<Rightarrow> 's res) \<Rightarrow> 's \<Rightarrow> 'l \<Rightarrow> 's res"
    and canon :: "'r \<Rightarrow> 'r"
  assumes log_step: "log_is l segs \<Longrightarrow> op_ok valid segs p \<Longrightarrow> log_is (log_step l p) (abs_step segs p)"
    and log_replay: "log_is l segs \<Longrightarrow> log_replay fn s l = fold_res fn s (map canon (concat (map snd segs)))"
begin

lemma run_ops:
  "log_is l segs \<Longrightarrow> ops_ok valid segs ps \<Longrightarrow> log_is (foldl log_step l ps) (foldl abs_step segs ps)"
  by (induction ps arbitrary: l segs) (auto simp: log_step)

lemma replay_after:
  assumes "log_is l segs" "ops_ok valid segs ps"
  shows "log_replay fn s (foldl log_step l ps) =
    fold_res fn s (map canon (concat (map snd (foldl abs_step segs ps))))"
  using log_replay [OF run_ops [OF assms]] .

end

text \<open>The model's log as such a log, when no call fails.\<close>

fun wal_step :: "dir \<times> WAL \<Rightarrow> Record log_op \<Rightarrow> dir \<times> WAL" where
  "wal_step (d, w) (Append_batch rs) = (case WAL_AppendBatch io_ok d w rs of (d', w', e) \<Rightarrow> (d', w'))"
| "wal_step (d, w) Rotate_log = (case WAL_Rotate io_ok d w of (d', w', r) \<Rightarrow> (d', w'))"
| "wal_step (d, w) (Purge_upto i) = (case WAL_PurgeOlderThan io_ok d i of (d', e) \<Rightarrow> (d', w))"

definition wal_is :: "dir \<times> WAL \<Rightarrow> segments \<Rightarrow> bool" where
  "wal_is l segs = log_rep (fst l) (snd l) segs"

lemma wal_step_rep:
  assumes "wal_is l segs" "op_ok rec_ok segs p" shows "wal_is (wal_step l p) (abs_step segs p)"
proof -
  obtain d w where l: "l = (d, w)" by (cases l)
  then have rep: "log_rep d w segs" using assms(1) by (simp add: wal_is_def)
  then have ne: "segs \<noteq> []" and fid: "fst (last segs) = fileID w" by (simp_all add: log_rep_def)
  obtain ss i rs where segs: "segs = ss @ [(i, rs)]" using ne by (metis append_butlast_last_id surj_pair)
  show ?thesis
  proof (cases p)
    case (Append_batch b)
    obtain d' w' e where r: "WAL_AppendBatch io_ok d w b = (d', w', e)" by (metis prod_cases3)
    have "log_rep d' w' (ss @ [(i, rs @ b)])"
      using WAL_AppendBatch_rep [OF rep [unfolded segs] _ r] assms(2) Append_batch by (simp add: io_ok_def)
    then show ?thesis using Append_batch r by (simp add: l segs wal_is_def)
  next
    case Rotate_log
    obtain d' w' r where r: "WAL_Rotate io_ok d w = (d', w', r)" by (metis prod_cases3)
    have nw: "fileID w < fileID w + 1" using assms(2) Rotate_log fid by simp
    have "r = Ok (fileID w)" using WAL_Rotate_rep(3) [OF rep nw r] by (simp add: io_ok_def)
    then show ?thesis using WAL_Rotate_rep(1) [OF rep nw r] Rotate_log r by (simp add: l wal_is_def fid)
  next
    case (Purge_upto j)
    obtain d' where r: "WAL_PurgeOlderThan io_ok d j = (d', None)"
      using WAL_PurgeOlderThan_ok [of io_ok d j] by (auto simp: io_ok_def)
    have j: "j < i" using assms(2) Purge_upto segs by simp
    have "dir_rep d' (filter (\<lambda>seg. \<not> fst seg \<le> j) segs)"
      using WAL_PurgeOlderThan_rep [OF _ r] rep by (simp add: log_rep_def)
    moreover have "file_of d' (walFileName i) = file_of d (walFileName i)"
      using r j purge_ids_map_of [of True d j "findWALFiles d" d']
      by (auto simp: WAL_PurgeOlderThan_def io_ok_def file_of_def)
    ultimately show ?thesis using rep j Purge_upto r by (auto simp: l segs wal_is_def log_rep_def)
  qed
qed

interpretation wal: segmented_log wal_step wal_is rec_ok "\<lambda>fn s l. WAL_Replay io_ok (fst l) fn s" norm_rec
proof
  fix l segs p assume "wal_is l segs" "op_ok rec_ok segs p"
  then show "wal_is (wal_step l p) (abs_step segs p)" by (rule wal_step_rep)
next
  fix l segs fn s assume "wal_is l segs"
  then show "WAL_Replay io_ok (fst l) fn s = fold_res fn s (map norm_rec (concat (map snd segs)))"
    by (intro WAL_Replay_rep) (auto simp: wal_is_def log_rep_def io_ok_def)
qed

subsection \<open>Properties\<close>

lemma Uint32_shifted:
  "drop_bit 8 (Uint32 [c, ucast v, ucast (drop_bit 8 v), ucast (drop_bit 16 v)]) = take_bit 24 (v :: 32 word)"
proof (rule bit_word_eqI)
  fix n assume "n < LENGTH(32)"
  then show "bit (drop_bit 8 (Uint32 [c, ucast v, ucast (drop_bit 8 v), ucast (drop_bit 16 v)])) n \<longleftrightarrow> bit (take_bit 24 v) n"
    using bit_imp_le_length [of c "8 + n"]
    by (cases "n < 8"; cases "n < 16"; cases "n < 24") (auto simp: Uint32_def bit_simps)
qed

text \<open>One stray byte before a record: the header read is then out of step with the one written, and
  the length it gives exceeds what is left of the file.\<close>

lemma replayFile_misaligned:
  assumes "length (record_data rec) < 2 ^ 24"
  shows "replayFile fn s (x # encodeRecord rec) = Ok s"
proof -
  define L where "L = length (record_data rec)"
  define v :: "32 word" where "v = of_nat L"
  have L: "9 \<le> L" "L < 2 ^ 24" using assms by (simp_all add: L_def length_record_data)
  have v: "unat v = L" using L by (simp add: v_def unat_of_nat32)
  obtain c where h: "take 4 (drop 4 (x # encodeRecord rec)) = [c, ucast v, ucast (drop_bit 8 v), ucast (drop_bit 16 v)]"
    by (simp add: encodeRecord_eq PutUint32_def v_def L_def)
  have "unat (drop_bit 8 (Uint32 (take 4 (drop 4 (x # encodeRecord rec))))) = L"
    unfolding h Uint32_shifted using v L by (simp add: unsigned_take_bit_eq take_bit_nat_eq_self)
  then have "unat (Uint32 (take 4 (drop 4 (x # encodeRecord rec)))) div 256 = L"
    by (simp only: unat_drop_bit_eq) (simp add: drop_bit_eq_div)
  then have "L * 256 \<le> unat (Uint32 (take 4 (drop 4 (x # encodeRecord rec))))"
    by (metis div_times_less_eq_dividend)
  moreover have "length (drop 8 (x # encodeRecord rec)) = L + 1" by (simp add: length_encodeRecord L_def)
  ultimately have "length (drop 8 (x # encodeRecord rec)) < unat (Uint32 (take 4 (drop 4 (x # encodeRecord rec))))"
    using L by linarith
  then show ?thesis by (subst replayFile.simps) (simp only: Let_def if_True if_cancel)
qed

definition sample_put :: "bytes \<Rightarrow> bytes \<Rightarrow> Record" where
  "sample_put k v = \<lparr>r_type = RecordPut, r_key = k, r_value = Some v\<rparr>"

text \<open>C26. Opening a log in an empty directory and running any sequence of successful batch appends,
  rotations and purges, a replay delivers, in order and once each, exactly the records of the
  segments that were not purged, an empty value being delivered as nil.\<close>

theorem wal_refines_segments:
  assumes "WAL_Open io_ok [] ms = (d, Ok w)" "ops_ok rec_ok [(1, [])] ps"
  shows "WAL_Replay io_ok (fst (foldl wal_step (d, w) ps)) fn s =
    fold_res fn s (map norm_rec (concat (map snd (foldl abs_step [(1, [])] ps))))"
proof -
  have "dir_rep [] []" by (simp add: dir_rep_def canonical_def)
  then have "wal_is (d, w) [(1, [])]" using WAL_Open_rep(3) [OF _ assms(1)] by (simp add: wal_is_def)
  then show ?thesis using assms(2) by (rule wal.replay_after)
qed

theorem wal_refines_segments_witness:
  "WAL_Replay io_ok (fst (foldl wal_step
      ([(walFileName 1, [])], \<lparr>fileID = 1, w_size = 0, w_maxSize = 67108864, w_pending = [], w_sticky = False, w_open = True\<rparr>)
      [Append_batch [sample_put [1] [2]], Rotate_log, Append_batch [sample_put [3] []], Purge_upto 1]))
      (\<lambda>acc r. Ok (acc @ [r])) [] = Ok [\<lparr>r_type = RecordPut, r_key = [3], r_value = None\<rparr>]"
proof -
  have "WAL_Open io_ok [] 0 = ([(walFileName 1, [])],
      Ok \<lparr>fileID = 1, w_size = 0, w_maxSize = 67108864, w_pending = [], w_sticky = False, w_open = True\<rparr>)"
    by (simp add: WAL_Open_def io_ok_def findWALFiles_def map_filter_def openFile_def file_of_def Let_def wal_defaultMaxSize_def)
  moreover have "ops_ok rec_ok [(1, [])] [Append_batch [sample_put [1] [2]], Rotate_log, Append_batch [sample_put [3] []], Purge_upto 1]"
    by (simp add: rec_ok_def sample_put_def val_bytes_def)
  ultimately show ?thesis
    by (simp only: wal_refines_segments) (simp add: sample_put_def norm_rec_def word_le_nat_alt)
qed

text \<open>C27. Whatever fails while a batch is appended (a write cut short anywhere, the flush, the sync),
  a later replay of the directory delivers all records that were there before and then a prefix of
  the batch; when the append reports success it is the whole batch, and it does report success
  unless a write or the sync fails.\<close>

theorem wal_append_crash:
  assumes rep: "log_rep d w (segs @ [(i, recs)])" and ok: "list_all rec_ok batch"
    and run: "WAL_AppendBatch io d w batch = (d', w', e)"
  shows "\<exists>m\<le>length batch. (e = None \<longrightarrow> m = length batch) \<and>
    (io_room io = None \<longrightarrow> io_sync io \<longrightarrow> e = None) \<and>
    WAL_Replay io_ok d' (\<lambda>rs r. Ok (rs @ [r])) [] =
      Ok (map norm_rec (concat (map snd segs) @ recs @ take m batch))"
proof -
  note r = WAL_AppendBatch_rep [OF rep ok run]
  have fold: "fold_res (\<lambda>rs r. Ok (rs @ [r])) rs xs = Ok (rs @ xs)" for rs :: "Record list" and xs
    by (induction xs arbitrary: rs) auto
  have "\<exists>m\<le>length batch. (e = None \<longrightarrow> m = length batch) \<and> dir_rep d' (segs @ [(i, recs @ take m batch)])"
  proof (cases "e = None")
    case True
    then have "dir_rep d' (segs @ [(i, recs @ take (length batch) batch)])" using r(2) by (auto simp: log_rep_def)
    then show ?thesis by (intro exI [of _ "length batch"]) simp
  next
    case False
    then show ?thesis using r(1) by (simp only: simp_thms)
  qed
  then obtain m where m: "m \<le> length batch" "e = None \<longrightarrow> m = length batch"
    and dr: "dir_rep d' (segs @ [(i, recs @ take m batch)])" by blast
  have "WAL_Replay io_ok d' (\<lambda>rs r. Ok (rs @ [r])) [] =
      Ok (map norm_rec (concat (map snd segs) @ recs @ take m batch))"
    using WAL_Replay_rep [OF dr, of io_ok "\<lambda>rs r. Ok (rs @ [r])" "[]"] by (simp add: io_ok_def fold)
  moreover have "io_room io = None \<longrightarrow> io_sync io \<longrightarrow> e = None" by (intro impI r(3))
  ultimately show ?thesis using m by (intro exI [of _ m] conjI)
qed

theorem wal_append_crash_witness:
  "\<exists>m\<le>1. WAL_Replay io_ok (fst (WAL_AppendBatch (io_ok\<lparr>io_room := Some 5\<rparr>) [(walFileName 1, [])]
      \<lparr>fileID = 1, w_size = 0, w_maxSize = 9, w_pending = [], w_sticky = False, w_open = True\<rparr> [sample_put [1] [2]]))
      (\<lambda>rs r. Ok (rs @ [r])) [] = Ok (map norm_rec (take m [sample_put [1] [2]]))"
proof -
  let ?w = "\<lparr>fileID = 1, w_size = 0, w_maxSize = 9, w_pending = [], w_sticky = False, w_open = True\<rparr>"
  have "log_rep [(walFileName 1, [])] ?w ([] @ [(1, [])])"
    by (simp add: log_rep_def dir_rep_def canonical_def file_of_def file_holds_def)
  moreover have "list_all rec_ok [sample_put [1] [2]]" by (simp add: rec_ok_def sample_put_def val_bytes_def)
  ultimately show ?thesis
    using wal_append_crash [of "[(walFileName 1, [])]" ?w "[]" 1 "[]" "[sample_put [1] [2]]" "io_ok\<lparr>io_room := Some 5\<rparr>"]
    by (cases "WAL_AppendBatch (io_ok\<lparr>io_room := Some 5\<rparr>) [(walFileName 1, [])] ?w [sample_put [1] [2]]") auto
qed

text \<open>C28. Damage confined to four consecutive bytes of a record's payload is never mistaken for a
  record: replay delivers the records before the damaged one and stops there, without an error.\<close>

theorem wal_damage_detected:
  assumes "list_all rec_ok recs" "rec_ok rec" "encodeRecord rec = hdr @ pre @ xs @ post" "length hdr = 8"
    and "length ys = length xs" "length xs \<le> 4" "ys \<noteq> xs"
  shows "replayFile fn s (seg_bytes recs @ hdr @ pre @ ys @ post @ tail) = fold_res fn s (map norm_rec recs)"
proof -
  define H where "H = PutUint32 (ChecksumIEEE (record_data rec)) @ PutUint32 (of_nat (length (record_data rec)))"
  have "hdr @ (pre @ xs @ post) = H @ record_data rec" using assms(3) by (simp add: encodeRecord_eq H_def)
  moreover have "length hdr = length H" using assms(4) by (simp add: H_def)
  ultimately have h: "hdr = H" and d: "record_data rec = pre @ xs @ post" by simp_all
  show ?thesis
    using replayFile_damaged [OF assms(2) d assms(5-7), of fn _ tail]
    by (simp add: replayFile_records [OF assms(1)] h H_def)
qed

theorem wal_damage_detected_witness:
  "replayFile (\<lambda>rs r. Ok (rs @ [r])) [] (seg_bytes [sample_put [1] [2]] @ take 8 (encodeRecord (sample_put [3] [4])) @
     take 10 (record_data (sample_put [3] [4])) @ [5] @ []) = Ok [sample_put [1] [2]]"
proof -
  have e: "encodeRecord (sample_put [3] [4]) = take 8 (encodeRecord (sample_put [3] [4])) @
      take 10 (record_data (sample_put [3] [4])) @ [4] @ []"
    by (simp add: encodeRecord_eq) (simp add: record_data_def sample_put_def val_bytes_def PutUint32_def)
  have "length (take 8 (encodeRecord (sample_put [3] [4]))) = 8"
    by (simp add: length_encodeRecord length_record_data)
  then show ?thesis
    using wal_damage_detected [OF _ _ e, of "[sample_put [1] [2]]" "[5]" "\<lambda>rs r. Ok (rs @ [r])" "[]" "[]"]
    by (simp add: rec_ok_def sample_put_def val_bytes_def norm_rec_def)
qed

text \<open>C29. The converse side of crash recovery. \<open>Open\<close> goes on writing to the newest file without
  cutting a torn record off. If a crash left one byte of a record at its end, then a record appended
  after reopening is acknowledged, and the next replay delivers the old records but not that one.\<close>

theorem wal_torn_tail_loses_append:
  assumes d: "d = [(walFileName 1, seg_bytes recs @ [x])]" and ok: "list_all rec_ok recs"
    and len: "length (record_data rec) < 2 ^ 24"
    and run: "WAL_Open io_ok d ms = (d1, Ok w)" "WAL_Append io_ok d1 w rec = (d2, w2, e)"
  shows "e = None \<and> WAL_Replay io_ok d2 fn s = fold_res fn s (map norm_rec recs)"
proof -
  have ids: "findWALFiles [(walFileName 1, b)] = [1]" for b by (simp add: findWALFiles_def map_filter_def)
  have w: "d1 = d" "fileID w = 1" "w_open w" "\<not> w_sticky w" "w_pending w = []"
    using run(1) by (auto simp: d WAL_Open_def io_ok_def openFile_def ids file_of_def Let_def)
  obtain da wa ok where a: "append_all io_ok d1 w [rec] = (da, wa, ok)" by (metis prod_cases3)
  obtain df wf okf where f: "buf_Flush io_ok da wa = (df, wf, okf)" by (metis prod_cases3)
  have ok: "ok" "writes_to d1 w da wa (encodeRecord rec)" "log_bytes da wa = log_bytes d1 w @ encodeRecord rec" "\<not> w_sticky wa"
    using append_all_spec [OF a] w by (auto simp: io_ok_def)
  have wa: "w_open wa" "fileID wa = 1" using ok(2) w by (simp_all add: writes_to_def)
  have okf: "okf" "log_bytes df wf = log_bytes da wa" "w_pending wf = []" "writes_to da wa df wf []"
    using buf_Flush_spec [OF f] ok(4) wa by (auto simp: io_ok_def)
  have out: "d2 = df" "w2 = wf" "e = None"
    using run(2) a f ok(1) okf wa by (auto simp: WAL_Append_batch WAL_AppendBatch_def flush_sync_def io_ok_def writes_to_def)
  have "file_of df (walFileName 1) = seg_bytes recs @ x # encodeRecord rec"
    using ok(3) okf w wa by (simp add: log_bytes_def writes_to_def d file_of_def)
  moreover have c: "canonical df" "\<And>name. map_of df name = None \<longleftrightarrow> name \<noteq> walFileName 1"
  proof -
    have wt: "writes_to d1 w df wf (encodeRecord rec)" using writes_to_trans [OF ok(2,3) okf(4)] by simp
    then show "canonical df" using w(1) by (simp add: writes_to_def d canonical_def)
    show "map_of df name = None \<longleftrightarrow> name \<noteq> walFileName 1" for name
      using wt w(1,2) unfolding writes_to_def d by (cases "name = walFileName 1") auto
  qed
  ultimately have m: "map_of df (walFileName 1) = Some (seg_bytes recs @ x # encodeRecord rec)"
    by (auto simp: file_of_def split: option.splits)
  have "findWALFiles df = [1]" using c by (intro findWALFiles_eq) auto
  then show ?thesis
    using m out by (simp add: WAL_Replay_def io_ok_def replayFile_records [OF assms(2)] replayFile_misaligned [OF len])
qed

theorem wal_torn_tail_loses_append_witness:
  "WAL_Replay io_ok (fst (WAL_Append io_ok [(walFileName 1, [7])]
      \<lparr>fileID = 1, w_size = 1, w_maxSize = 67108864, w_pending = [], w_sticky = False, w_open = True\<rparr> (sample_put [1] [2])))
     (\<lambda>rs r. Ok (rs @ [r])) [] = Ok []"
proof -
  let ?w = "\<lparr>fileID = 1, w_size = 1, w_maxSize = 67108864, w_pending = [], w_sticky = False, w_open = True\<rparr>"
  have "WAL_Open io_ok [(walFileName 1, [7])] 0 = ([(walFileName 1, [7])], Ok ?w)"
    by (simp add: WAL_Open_def io_ok_def findWALFiles_def map_filter_def openFile_def file_of_def Let_def wal_defaultMaxSize_def)
  then show ?thesis
    using wal_torn_tail_loses_append [of "[(walFileName 1, [7])]" "[]" 7 "sample_put [1] [2]" 0 "[(walFileName 1, [7])]" ?w
        _ _ _ "\<lambda>rs r. Ok (rs @ [r])" "[]"]
    by (cases "WAL_Append io_ok [(walFileName 1, [7])] ?w (sample_put [1] [2])")
       (auto simp: length_record_data sample_put_def val_bytes_def)
qed

end
