(* ===== verification/Framing.thy ===== *)
theory Framing
  imports Checksum
begin

text \<open>
  Files that are a sequence of self-delimiting records, read from the start until a record cannot
  be read: the engine's \<open>MANIFEST\<close> and the Raft log. The locales state what the record codec and the
  reading loop have to satisfy, and derive once what replaying a file yields, also when a crash cut
  its last record short.
\<close>

text \<open>\<open>io.ReadFull\<close> of \<open>n\<close> bytes from what is left of a file.\<close>

definition ReadFull :: "nat \<Rightarrow> bytes \<Rightarrow> (bytes \<times> bytes) res" where
  "ReadFull n d = (if length d < n then Err ''EOF'' else Ok (take n d, drop n d))"

lemma ReadFull_append: "length x = n \<Longrightarrow> ReadFull n (x @ d) = Ok (x, d)"
  by (simp add: ReadFull_def)

lemma ReadFull_mono: "ReadFull n d = Ok (x, r) \<Longrightarrow> ReadFull n (d @ q) = Ok (x, r @ q)"
  by (auto simp: ReadFull_def split: if_splits)

lemma ReadFull_length: "ReadFull n d = Ok (x, r) \<Longrightarrow> length d = n + length r \<and> length x = n"
  by (auto simp: ReadFull_def split: if_splits)

lemma bind_ReadFull:
  "res_bind (ReadFull n d) (\<lambda>(x, r). f x r) = Ok y \<longleftrightarrow> (\<exists>x r. ReadFull n d = Ok (x, r) \<and> f x r = Ok y)"
  by (cases "ReadFull n d") auto

locale framed =
  fixes enc :: "'r \<Rightarrow> bytes"
    and dec :: "bytes \<Rightarrow> ('r \<times> bytes) res"
    and rok :: "'r \<Rightarrow> bool"
  assumes dec_enc: "rok r \<Longrightarrow> dec (enc r @ d) = Ok (r, d)"
    and dec_mono: "dec d = Ok (r, rest) \<Longrightarrow> dec (d @ q) = Ok (r, rest @ q)"
    and dec_Nil: "\<not> is_Ok (dec [])"
begin

lemma dec_torn:
  assumes "rok r" "n < length (enc r)" shows "\<not> is_Ok (dec (take n (enc r)))"
proof
  assume "is_Ok (dec (take n (enc r)))"
  then obtain r' rest where "dec (take n (enc r)) = Ok (r', rest)"
    by (cases "dec (take n (enc r))") auto
  then have "dec (take n (enc r) @ drop n (enc r)) = Ok (r', rest @ drop n (enc r))" by (rule dec_mono)
  then have "rest @ drop n (enc r) = []" using dec_enc [OF assms(1), of "[]"] by simp
  with assms(2) show False by simp
qed

lemma enc_inject:
  assumes "rok r" "rok r'" "enc r @ d = enc r' @ d'" shows "r = r' \<and> d = d'"
proof -
  have "Ok (r, d) = Ok (r', d')"
    unfolding dec_enc [OF assms(1), symmetric] dec_enc [OF assms(2), symmetric] assms(3) by (rule refl)
  then show ?thesis by simp
qed

end

locale framed_replay = framed enc dec rok
  for enc :: "'r \<Rightarrow> bytes" and dec and rok +
  fixes replay :: "'s \<Rightarrow> bytes \<Rightarrow> 's"
    and app :: "'s \<Rightarrow> 'r \<Rightarrow> 's"
  assumes replay_stop: "\<not> is_Ok (dec d) \<Longrightarrow> replay s d = s"
    and replay_step: "dec d = Ok (r, rest) \<Longrightarrow> replay s d = replay (app s r) rest"
begin

lemma replay_records:
  "list_all rok rs \<Longrightarrow> replay s (concat (map enc rs) @ t) = replay (foldl app s rs) t"
  by (induction rs arbitrary: s) (simp_all add: replay_step [OF dec_enc])

lemma replay_torn: "rok r \<Longrightarrow> n < length (enc r) \<Longrightarrow> replay s (take n (enc r)) = s"
  by (rule replay_stop [OF dec_torn])

lemma replay_all: "list_all rok rs \<Longrightarrow> replay s (concat (map enc rs)) = foldl app s rs"
  using replay_records [of rs s "[]"] replay_stop [OF dec_Nil] by simp

lemma replay_prefix:
  assumes "list_all rok rs"
  shows "\<exists>m\<le>length rs. \<forall>s. replay s (take n (concat (map enc rs))) = foldl app s (take m rs)"
  using assms
proof (induction rs arbitrary: n)
  case Nil
  then show ?case using replay_stop [OF dec_Nil] by simp
next
  case (Cons r rs)
  show ?case
  proof (cases "n < length (enc r)")
    case True
    then show ?thesis using Cons.prems replay_torn [of r n] by (intro exI [of _ 0]) simp
  next
    case False
    obtain m where m: "m \<le> length rs" "\<forall>s. replay s (take (n - length (enc r)) (concat (map enc rs))) = foldl app s (take m rs)"
      using Cons by fastforce
    then show ?thesis using False Cons.prems replay_records [of "[r]"]
      by (intro exI [of _ "Suc m"]) simp
  qed
qed

end

end
