(* ===== verification/Manifest.thy ===== *)
theory Manifest
  imports Framing
begin

text \<open>
  \<open>engine/manifest.go\<close>: the append-only record of which table files exist at which level. The file
  is its bytes, written at its end; \<open>mf_write\<close> says how much of a write reaches it when it fails.
  Keys are byte strings (a nil key and an empty one are written and compared alike).

  The lemmas show that reading a record undoes writing it, that the levels kept in memory are the
  ones a reopened manifest rebuilds, and that a record cut short by a crash is ignored.
\<close>

definition recordAddFile :: byte where "recordAddFile = 0x01"
definition recordRemoveFile :: byte where "recordRemoveFile = 0x02"

record FileMetadata =
  FileNum :: "64 word"
  Level :: int
  fm_Size :: "64 word"
  fm_MinKey :: bytes
  fm_MaxKey :: bytes

record manifestRecord =
  mr_typ :: byte
  mr_fileNum :: "64 word"
  mr_level :: int
  mr_size :: "64 word"
  mr_minKey :: bytes
  mr_maxKey :: bytes

record Manifest =
  mf_file :: bytes
  mf_levels :: "FileMetadata list list"

record mf_env =
  mf_mkdir :: bool
  mf_open :: bool
  mf_seek :: bool
  mf_write :: "nat option"
  mf_writeCRC :: "nat option"
  mf_sync :: bool

definition mf_ok :: mf_env where
  "mf_ok = \<lparr>mf_mkdir = True, mf_open = True, mf_seek = True, mf_write = None, mf_writeCRC = None, mf_sync = True\<rparr>"

subsection \<open>Records\<close>

definition encodeManifestRecordPayload :: "byte \<Rightarrow> 64 word \<Rightarrow> int \<Rightarrow> 64 word \<Rightarrow> bytes \<Rightarrow> bytes \<Rightarrow> bytes" where
  "encodeManifestRecordPayload typ fileNum level sz minKey maxKey =
     typ # PutUint64 fileNum @ PutUint32 (of_int level) @ PutUint64 sz @
     PutUint32 (of_nat (length minKey)) @ minKey @ PutUint32 (of_nat (length maxKey)) @ maxKey"

definition readRecord :: "bytes \<Rightarrow> (manifestRecord \<times> bytes) res" where
  "readRecord d0 =
     res_bind (ReadFull 1 d0) (\<lambda>(typBuf, d1).
     res_bind (ReadFull 20 d1) (\<lambda>(fixed, d2).
     let typ = typBuf ! 0;
         fileNum = Uint64 (take 8 fixed);
         level = uint (Uint32 (take 4 (drop 8 fixed)));
         sz = Uint64 (take 8 (drop 12 fixed))
     in res_bind (ReadFull 4 d2) (\<lambda>(mkLenBuf, d3).
     res_bind (ReadFull (unat (Uint32 mkLenBuf)) d3) (\<lambda>(minKey, d4).
     res_bind (ReadFull 4 d4) (\<lambda>(mxLenBuf, d5).
     res_bind (ReadFull (unat (Uint32 mxLenBuf)) d5) (\<lambda>(maxKey, d6).
     res_bind (ReadFull 4 d6) (\<lambda>(crcBuf, d7).
     let data = encodeManifestRecordPayload typ fileNum level sz minKey maxKey
     in if ChecksumIEEE data \<noteq> Uint32 crcBuf then Err ''manifest: CRC mismatch''
        else Ok (\<lparr>mr_typ = typ, mr_fileNum = fileNum, mr_level = level, mr_size = sz,
                  mr_minKey = minKey, mr_maxKey = maxKey\<rparr>, d7))))))))"

fun removeFileNum :: "64 word \<Rightarrow> FileMetadata list \<Rightarrow> FileMetadata list" where
  "removeFileNum n [] = []"
| "removeFileNum n (f # fs) = (if FileNum f = n then fs else f # removeFileNum n fs)"

definition applyRecord :: "FileMetadata list list \<Rightarrow> manifestRecord \<Rightarrow> FileMetadata list list" where
  "applyRecord levels rec =
     (let level = mr_level rec in
      if level < 0 \<or> level \<ge> int (length levels) then levels
      else let l = nat level in
           if mr_typ rec = recordAddFile then
             levels[l := levels ! l @ [\<lparr>FileNum = mr_fileNum rec, Level = mr_level rec, fm_Size = mr_size rec,
                                        fm_MinKey = mr_minKey rec, fm_MaxKey = mr_maxKey rec\<rparr>]]
           else if mr_typ rec = recordRemoveFile then levels[l := removeFileNum (mr_fileNum rec) (levels ! l)]
           else levels)"

lemma readRecord_shrinks: "readRecord d = Ok (rec, d') \<Longrightarrow> length d' < length d"
  by (auto simp: readRecord_def res_bind_Ok_iff Let_def split: prod.splits if_splits dest!: ReadFull_length)

function manifest_replay :: "FileMetadata list list \<Rightarrow> bytes \<Rightarrow> FileMetadata list list" where
  "manifest_replay levels d =
     (case readRecord d of
        Ok (rec, d') \<Rightarrow> manifest_replay (applyRecord levels rec) d'
      | Err e \<Rightarrow> levels
      | Panic \<Rightarrow> levels)"
  by pat_completeness auto
termination
  by (relation "measure (\<lambda>(levels, d). length d)") (auto dest: readRecord_shrinks)

declare manifest_replay.simps [simp del]

subsection \<open>Operations\<close>

definition OpenManifest :: "mf_env \<Rightarrow> bytes \<Rightarrow> nat \<Rightarrow> Manifest res" where
  "OpenManifest io content maxLevels =
     (if \<not> mf_mkdir io then Err ''manifest: mkdir: ''
      else if \<not> mf_open io then Err ''manifest: open: ''
      else if \<not> mf_seek io then Err ''manifest: seek: ''
      else Ok \<lparr>mf_file = content, mf_levels = manifest_replay (replicate maxLevels []) content\<rparr>)"

definition write_bytes :: "nat option \<Rightarrow> bytes \<Rightarrow> bytes \<Rightarrow> bytes \<times> bool" where
  "write_bytes lim content p = (case lim of None \<Rightarrow> (content @ p, True) | Some n \<Rightarrow> (content @ take n p, False))"

definition writeRecord :: "mf_env \<Rightarrow> Manifest \<Rightarrow> byte \<Rightarrow> FileMetadata \<Rightarrow> Manifest \<times> string option" where
  "writeRecord io m typ meta =
     (let payload = encodeManifestRecordPayload typ (FileNum meta) (Level meta) (fm_Size meta) (fm_MinKey meta) (fm_MaxKey meta);
          crcBuf = PutUint32 (ChecksumIEEE payload)
      in case write_bytes (mf_write io) (mf_file m) payload of
           (c1, ok1) \<Rightarrow>
             if \<not> ok1 then (m\<lparr>mf_file := c1\<rparr>, Some ''manifest: write: '')
             else case write_bytes (mf_writeCRC io) c1 crcBuf of
                    (c2, ok2) \<Rightarrow>
                      if \<not> ok2 then (m\<lparr>mf_file := c2\<rparr>, Some ''manifest: write crc: '')
                      else if \<not> mf_sync io then (m\<lparr>mf_file := c2\<rparr>, Some ''manifest: sync: '')
                      else (m\<lparr>mf_file := c2\<rparr>, None))"

definition AddFile :: "mf_env \<Rightarrow> Manifest \<Rightarrow> FileMetadata \<Rightarrow> Manifest \<times> string option" where
  "AddFile io m meta =
     (case writeRecord io m recordAddFile meta of
        (m1, Some e) \<Rightarrow> (m1, Some e)
      | (m1, None) \<Rightarrow>
          (if Level meta \<ge> 0 \<and> Level meta < int (length (mf_levels m1))
           then m1\<lparr>mf_levels := (mf_levels m1)[nat (Level meta) := mf_levels m1 ! nat (Level meta) @ [meta]]\<rparr>
           else m1, None))"

definition RemoveFile :: "mf_env \<Rightarrow> Manifest \<Rightarrow> 64 word \<Rightarrow> int \<Rightarrow> Manifest \<times> string option" where
  "RemoveFile io m fileNum level =
     (case writeRecord io m recordRemoveFile \<lparr>FileNum = fileNum, Level = level, fm_Size = 0, fm_MinKey = [], fm_MaxKey = []\<rparr> of
        (m1, Some e) \<Rightarrow> (m1, Some e)
      | (m1, None) \<Rightarrow>
          (if level \<ge> 0 \<and> level < int (length (mf_levels m1))
           then m1\<lparr>mf_levels := (mf_levels m1)[nat level := removeFileNum fileNum (mf_levels m1 ! nat level)]\<rparr>
           else m1, None))"

definition GetLevel :: "Manifest \<Rightarrow> int \<Rightarrow> FileMetadata list" where
  "GetLevel m level = (if level < 0 \<or> level \<ge> int (length (mf_levels m)) then [] else mf_levels m ! nat level)"

definition GetAllLevels :: "Manifest \<Rightarrow> FileMetadata list list" where
  "GetAllLevels m = mf_levels m"

definition Manifest_Close :: "bool \<Rightarrow> Manifest \<Rightarrow> string option" where
  "Manifest_Close closeOk m = (if closeOk then None else Some ''close'')"

subsection \<open>The record format\<close>

definition encodeManifestRecord :: "manifestRecord \<Rightarrow> bytes" where
  "encodeManifestRecord rec =
     (let p = encodeManifestRecordPayload (mr_typ rec) (mr_fileNum rec) (mr_level rec) (mr_size rec) (mr_minKey rec) (mr_maxKey rec)
      in p @ PutUint32 (ChecksumIEEE p))"

definition mrec_ok :: "manifestRecord \<Rightarrow> bool" where
  "mrec_ok rec \<longleftrightarrow> 0 \<le> mr_level rec \<and> mr_level rec < 2 ^ 32 \<and>
     length (mr_minKey rec) < 2 ^ 32 \<and> length (mr_maxKey rec) < 2 ^ 32"

lemma uint_of_int32: "0 \<le> x \<Longrightarrow> x < 2 ^ 32 \<Longrightarrow> uint (of_int x :: 32 word) = x"
  by (simp add: uint_word_of_int take_bit_int_eq_self)

lemma readRecord_encode:
  assumes "mrec_ok rec" shows "readRecord (encodeManifestRecord rec @ d) = Ok (rec, d)"
proof -
  let ?mk = "mr_minKey rec" and ?mx = "mr_maxKey rec"
  let ?fixed = "PutUint64 (mr_fileNum rec) @ PutUint32 (of_int (mr_level rec)) @ PutUint64 (mr_size rec)"
  define c where "c = PutUint32 (ChecksumIEEE (encodeManifestRecordPayload (mr_typ rec) (mr_fileNum rec) (mr_level rec) (mr_size rec) ?mk ?mx))"
  have e: "encodeManifestRecord rec @ d = [mr_typ rec] @ ?fixed @ PutUint32 (of_nat (length ?mk)) @ ?mk @
      PutUint32 (of_nat (length ?mx)) @ ?mx @ c @ d"
    by (simp add: encodeManifestRecord_def c_def encodeManifestRecordPayload_def Let_def)
  have l: "unat (of_nat (length ?mk) :: 32 word) = length ?mk" "unat (of_nat (length ?mx) :: 32 word) = length ?mx"
    "uint (of_int (mr_level rec) :: 32 word) = mr_level rec"
    using assms by (simp_all add: mrec_ok_def unat_of_nat32 uint_of_int32)
  have f: "ReadFull 20 (?fixed @ r) = Ok (?fixed, r)" for r by (rule ReadFull_append) simp
  have c: "ReadFull 4 (c @ d) = Ok (c, d)" by (rule ReadFull_append) (simp add: c_def)
  have f1: "ReadFull 1 ([mr_typ rec] @ r) = Ok ([mr_typ rec], r)" for r by (rule ReadFull_append) simp
  have f4: "ReadFull 4 (PutUint32 v @ r) = Ok (PutUint32 v, r)" for v r by (rule ReadFull_append) simp
  show ?thesis
    unfolding readRecord_def e f1 res_bind.simps prod.case f f4 Let_def Uint32_PutUint32 l
    by (simp add: ReadFull_append c f4 l) (simp add: c_def l)
qed

lemma readRecord_mono:
  assumes "readRecord d = Ok (rec, rest)" shows "readRecord (d @ q) = Ok (rec, rest @ q)"
  using assms unfolding readRecord_def Let_def bind_ReadFull
  by (elim exE conjE) (intro exI conjI; (erule ReadFull_mono)?; simp split: if_splits)

interpretation mf: framed_replay encodeManifestRecord readRecord mrec_ok manifest_replay applyRecord
proof
  show "\<not> is_Ok (readRecord [])" by (simp add: readRecord_def ReadFull_def)
next
  fix d s assume "\<not> is_Ok (readRecord d)"
  then show "manifest_replay s d = s" by (subst manifest_replay.simps) (auto split: res.split)
next
  fix d r rest s assume "readRecord d = Ok (r, rest)"
  then show "manifest_replay s d = manifest_replay (applyRecord s r) rest" by (subst manifest_replay.simps) simp
qed (simp_all add: readRecord_encode readRecord_mono)

subsection \<open>Memory and disk agree\<close>

datatype manifest_op = Add_op FileMetadata | Remove_op "64 word" int

definition mf_run :: "mf_env \<Rightarrow> Manifest \<Rightarrow> manifest_op \<Rightarrow> Manifest \<times> string option" where
  "mf_run io m p = (case p of Add_op meta \<Rightarrow> AddFile io m meta | Remove_op n l \<Rightarrow> RemoveFile io m n l)"

definition op_record :: "manifest_op \<Rightarrow> manifestRecord" where
  "op_record p = (case p of
     Add_op meta \<Rightarrow> \<lparr>mr_typ = recordAddFile, mr_fileNum = FileNum meta, mr_level = Level meta, mr_size = fm_Size meta,
                     mr_minKey = fm_MinKey meta, mr_maxKey = fm_MaxKey meta\<rparr>
   | Remove_op n l \<Rightarrow> \<lparr>mr_typ = recordRemoveFile, mr_fileNum = n, mr_level = l, mr_size = 0, mr_minKey = [], mr_maxKey = []\<rparr>)"

lemma writeRecord_spec:
  assumes "writeRecord io m typ meta = (m', e)"
    and "rec = \<lparr>mr_typ = typ, mr_fileNum = FileNum meta, mr_level = Level meta, mr_size = fm_Size meta,
                mr_minKey = fm_MinKey meta, mr_maxKey = fm_MaxKey meta\<rparr>"
  shows "mf_levels m' = mf_levels m" "\<exists>n. mf_file m' = mf_file m @ take n (encodeManifestRecord rec)"
    "e = None \<Longrightarrow> mf_file m' = mf_file m @ encodeManifestRecord rec" "io = mf_ok \<Longrightarrow> e = None"
proof -
  define p where "p = encodeManifestRecordPayload typ (FileNum meta) (Level meta) (fm_Size meta) (fm_MinKey meta) (fm_MaxKey meta)"
  have enc: "encodeManifestRecord rec = p @ PutUint32 (ChecksumIEEE p)" by (simp add: encodeManifestRecord_def assms(2) p_def Let_def)
  note w = assms(1) [unfolded writeRecord_def Let_def, folded p_def]
  show "mf_levels m' = mf_levels m" using w by (auto split: prod.splits if_splits)
  show "e = None \<Longrightarrow> mf_file m' = mf_file m @ encodeManifestRecord rec"
    using w by (auto simp: enc write_bytes_def split: prod.splits if_splits option.splits)
  show "io = mf_ok \<Longrightarrow> e = None" using w by (auto simp: mf_ok_def write_bytes_def)
  show "\<exists>n. mf_file m' = mf_file m @ take n (encodeManifestRecord rec)"
  proof (cases "mf_write io")
    case (Some n)
    then have "mf_file m' = mf_file m @ take (min n (length p)) (encodeManifestRecord rec)"
      using w by (auto simp: enc write_bytes_def min_def)
    then show ?thesis by blast
  next
    case None
    show ?thesis
    proof (cases "mf_writeCRC io")
      case (Some n)
      then have "mf_file m' = mf_file m @ take (length p + n) (encodeManifestRecord rec)"
        using w None by (auto simp: enc write_bytes_def)
      then show ?thesis by blast
    next
      case no: None
      then have "mf_file m' = mf_file m @ take (length (encodeManifestRecord rec)) (encodeManifestRecord rec)"
        using w None by (auto simp: enc write_bytes_def split: if_splits)
      then show ?thesis by blast
    qed
  qed
qed

lemma mf_run_spec:
  assumes "mf_run io m p = (m', e)"
  shows "\<exists>n. mf_file m' = mf_file m @ take n (encodeManifestRecord (op_record p))"
    and "e = None \<Longrightarrow> mf_file m' = mf_file m @ encodeManifestRecord (op_record p) \<and> mf_levels m' = applyRecord (mf_levels m) (op_record p)"
    and "e \<noteq> None \<Longrightarrow> mf_levels m' = mf_levels m" and "io = mf_ok \<Longrightarrow> e = None"
proof -
  have ty: "recordAddFile \<noteq> recordRemoveFile" "recordRemoveFile \<noteq> recordAddFile"
    by (simp_all add: recordAddFile_def recordRemoveFile_def)
  define t0 m0 where "t0 = (case p of Add_op _ \<Rightarrow> recordAddFile | Remove_op _ _ \<Rightarrow> recordRemoveFile)"
    and "m0 = (case p of Add_op mt \<Rightarrow> mt | Remove_op n l \<Rightarrow> \<lparr>FileNum = n, Level = l, fm_Size = 0, fm_MinKey = [], fm_MaxKey = []\<rparr>)"
  obtain m1 e1 where w: "writeRecord io m t0 m0 = (m1, e1)" by (cases "writeRecord io m t0 m0")
  have rec: "op_record p = \<lparr>mr_typ = t0, mr_fileNum = FileNum m0, mr_level = Level m0, mr_size = fm_Size m0,
                mr_minKey = fm_MinKey m0, mr_maxKey = fm_MaxKey m0\<rparr>"
    by (cases p) (simp_all add: op_record_def t0_def m0_def)
  note ws = writeRecord_spec [OF w rec]
  have e: "e = e1" and f: "mf_file m' = mf_file m1" and l: "e1 \<noteq> None \<Longrightarrow> mf_levels m' = mf_levels m1"
    using assms w by (cases p; cases e1; auto simp: mf_run_def AddFile_def RemoveFile_def t0_def m0_def)+
  show "\<exists>n. mf_file m' = mf_file m @ take n (encodeManifestRecord (op_record p))" using ws(2) f by simp
  show "e \<noteq> None \<Longrightarrow> mf_levels m' = mf_levels m" using l ws(1) e by simp
  show "io = mf_ok \<Longrightarrow> e = None" using ws(4) e by simp
  assume n: "e = None"
  have mt: "\<lparr>FileNum = FileNum mt, Level = Level mt, fm_Size = fm_Size mt, fm_MinKey = fm_MinKey mt, fm_MaxKey = fm_MaxKey mt\<rparr> = mt" for mt
    by simp
  have "mf_levels m' = applyRecord (mf_levels m) (op_record p)"
    using assms w e n ws(1)
    by (cases p) (auto simp: mf_run_def AddFile_def RemoveFile_def t0_def m0_def op_record_def applyRecord_def Let_def ty mt not_le not_less)
  then show "mf_file m' = mf_file m @ encodeManifestRecord (op_record p) \<and> mf_levels m' = applyRecord (mf_levels m) (op_record p)"
    using ws(3) e n f by simp
qed

text \<open>\<open>manifest_is m n rs\<close>: the file holds the records \<open>rs\<close>, and memory holds the levels they make.\<close>

definition manifest_is :: "Manifest \<Rightarrow> nat \<Rightarrow> manifestRecord list \<Rightarrow> bool" where
  "manifest_is m n rs \<longleftrightarrow> mf_file m = concat (map encodeManifestRecord rs) \<and> list_all mrec_ok rs \<and>
     mf_levels m = foldl applyRecord (replicate n []) rs"

lemma mf_run_is:
  assumes "manifest_is m n rs" "mf_run io m p = (m', None)" "mrec_ok (op_record p)"
  shows "manifest_is m' n (rs @ [op_record p])"
  using mf_run_spec(2) [OF assms(2)] assms by (simp add: manifest_is_def)

lemma OpenManifest_is:
  assumes "manifest_is m n rs" shows "OpenManifest mf_ok (mf_file m) n = Ok m"
  using assms mf.replay_all [of rs "replicate n []"] by (cases m) (simp add: OpenManifest_def mf_ok_def manifest_is_def)

lemma manifest_is_empty: "OpenManifest mf_ok [] n = Ok m \<Longrightarrow> manifest_is m n []"
  using mf.replay_all [of "[]" "replicate n []"] by (auto simp: OpenManifest_def mf_ok_def manifest_is_def)

fun mf_runs :: "Manifest \<Rightarrow> manifest_op list \<Rightarrow> Manifest" where
  "mf_runs m [] = m"
| "mf_runs m (p # ps) = mf_runs (fst (mf_run mf_ok m p)) ps"

lemma mf_runs_is:
  "manifest_is m n rs \<Longrightarrow> list_all (\<lambda>p. mrec_ok (op_record p)) ps \<Longrightarrow> manifest_is (mf_runs m ps) n (rs @ map op_record ps)"
proof (induction ps arbitrary: m rs)
  case (Cons p ps)
  obtain m' e where r: "mf_run mf_ok m p = (m', e)" by (cases "mf_run mf_ok m p")
  then have "e = None" using mf_run_spec(4) [OF r] by simp
  then have "manifest_is m' n (rs @ [op_record p])" using mf_run_is Cons.prems r by simp
  from Cons.IH [OF this] show ?case using Cons.prems r by simp
qed simp

subsection \<open>Properties\<close>

text \<open>C25. The manifest survives restarts and crashes. After any sequence of file additions and
  removals on a new manifest, and then one more that may fail at any point of its write, a reopened
  manifest has either the levels from before that last operation or those from after it; when the
  operation reported success, it has the levels held in memory.\<close>

theorem manifest_reopen:
  assumes "OpenManifest mf_ok [] n = Ok m" "list_all (\<lambda>p. mrec_ok (op_record p)) (ps @ [p])"
    and "mf_run io (mf_runs m ps) p = (m', e)"
  shows "\<exists>m2. OpenManifest mf_ok (mf_file m') n = Ok m2 \<and>
    (mf_levels m2 = mf_levels (mf_runs m ps) \<or> mf_levels m2 = applyRecord (mf_levels (mf_runs m ps)) (op_record p)) \<and>
    (e = None \<longrightarrow> mf_levels m2 = mf_levels m')"
proof -
  let ?rs = "map op_record ps"
  have i: "manifest_is (mf_runs m ps) n ?rs"
    using mf_runs_is [OF manifest_is_empty [OF assms(1)], of ps] assms(2) by simp
  then have rs: "list_all mrec_ok ?rs" "mf_file (mf_runs m ps) = concat (map encodeManifestRecord ?rs)"
    "mf_levels (mf_runs m ps) = foldl applyRecord (replicate n []) ?rs" by (simp_all add: manifest_is_def)
  obtain k where k: "mf_file m' = concat (map encodeManifestRecord ?rs) @ take k (encodeManifestRecord (op_record p))"
    using mf_run_spec(1) [OF assms(3)] rs by auto
  obtain j where j: "j \<le> 1" "\<forall>s. manifest_replay s (take k (concat (map encodeManifestRecord [op_record p]))) = foldl applyRecord s (take j [op_record p])"
    using mf.replay_prefix [of "[op_record p]" k] assms(2) by auto
  define lv where "lv = manifest_replay (replicate n []) (mf_file m')"
  have lv: "lv = foldl applyRecord (mf_levels (mf_runs m ps)) (take j [op_record p])"
    using mf.replay_records [OF rs(1)] j(2) rs(3) by (simp add: lv_def k)
  have o: "OpenManifest mf_ok (mf_file m') n = Ok \<lparr>mf_file = mf_file m', mf_levels = lv\<rparr>"
    by (simp add: OpenManifest_def mf_ok_def lv_def)
  have "lv = mf_levels (mf_runs m ps) \<or> lv = applyRecord (mf_levels (mf_runs m ps)) (op_record p)"
    using lv j(1) by (cases j) auto
  moreover have "lv = mf_levels m'" if "e = None"
    using OpenManifest_is [OF mf_run_is [OF i assms(3) [unfolded that]]] assms(2) o by (cases m') simp
  ultimately show ?thesis using o by auto
qed

theorem manifest_reopen_witness:
  "\<exists>m2. OpenManifest mf_ok (mf_file (fst (mf_run (mf_ok\<lparr>mf_writeCRC := Some 2\<rparr>) \<lparr>mf_file = [], mf_levels = [[], []]\<rparr>
       (Add_op \<lparr>FileNum = 1, Level = 0, fm_Size = 9, fm_MinKey = [1], fm_MaxKey = [2]\<rparr>)))) 2 = Ok m2 \<and>
     (mf_levels m2 = [[], []] \<or> mf_levels m2 = [[\<lparr>FileNum = 1, Level = 0, fm_Size = 9, fm_MinKey = [1], fm_MaxKey = [2]\<rparr>], []])"
proof -
  let ?m = "\<lparr>mf_file = [], mf_levels = [[], []]\<rparr> :: Manifest"
  let ?p = "Add_op \<lparr>FileNum = 1, Level = 0, fm_Size = 9, fm_MinKey = [1], fm_MaxKey = [2]\<rparr>"
  have o: "OpenManifest mf_ok [] 2 = Ok ?m"
    using mf.replay_all [of "[]" "replicate 2 []"] by (simp add: OpenManifest_def mf_ok_def numeral_2_eq_2)
  obtain m' e where r: "mf_run (mf_ok\<lparr>mf_writeCRC := Some 2\<rparr>) (mf_runs ?m []) ?p = (m', e)"
    by (cases "mf_run (mf_ok\<lparr>mf_writeCRC := Some 2\<rparr>) (mf_runs ?m []) ?p")
  have "list_all (\<lambda>p. mrec_ok (op_record p)) ([] @ [?p])" by (simp add: mrec_ok_def op_record_def)
  from manifest_reopen [OF o this r] r show ?thesis
    by (auto simp: applyRecord_def op_record_def recordAddFile_def Let_def)
qed

end
