(* ===== verification/Skiplist.thy ===== *)
theory Skiplist
  imports KV_Prelude
begin

text \<open>
  The skip list of \<open>memtable/skiplist.go\<close>, over an explicit store: a node is an entry of the list
  \<open>sl_heap\<close> and a pointer is its index, the head being node 0. \<open>None\<close> as a result is a nil
  dereference, an index out of range or a loop that does not end; the lemmas show that none of
  these happens on a list built by the operations, that \<open>Get\<close>, \<open>Put\<close>, \<open>Delete\<close> and the iterator
  behave like those of a sorted association list, and that the size accounting is exact.
\<close>

subsection \<open>Data\<close>

record node =
  key :: bytes
  val :: "bytes option"
  forward :: "nat option list"

record SkipList =
  sl_heap :: "node list"
  sl_level :: nat
  sl_count :: nat
  sl_size :: int

type_synonym heap = "node list"

definition maxLevel :: nat where
  "maxLevel = 20"

definition NewSkipList :: SkipList where
  "NewSkipList = \<lparr>sl_heap = [\<lparr>key = [], val = None, forward = replicate maxLevel None\<rparr>],
     sl_level = 0, sl_count = 0, sl_size = 0\<rparr>"

text \<open>\<open>coins i\<close> tells whether the draw \<open>rng.Float64()\<close> made at level \<open>i\<close> is below \<open>pFactor\<close>.\<close>

type_synonym coins = "nat \<Rightarrow> bool"

function randomLevel_from :: "coins \<Rightarrow> nat \<Rightarrow> nat" where
  "randomLevel_from c lvl = (if lvl < maxLevel \<and> c lvl then randomLevel_from c (lvl + 1) else lvl)"
  by pat_completeness auto
termination
  by (relation "measure (\<lambda>(c, lvl). maxLevel - lvl)") auto

declare randomLevel_from.simps [simp del]

definition randomLevel :: "coins \<Rightarrow> nat" where
  "randomLevel c = randomLevel_from c 1"

subsection \<open>Operations\<close>

text \<open>\<open>current.forward[i]\<close>, with the index check.\<close>

definition fwd :: "heap \<Rightarrow> nat \<Rightarrow> nat \<Rightarrow> nat option option" where
  "fwd h a i = (if a < length h \<and> i < length (forward (h ! a)) then Some (forward (h ! a) ! i) else None)"

definition set_fwd :: "heap \<Rightarrow> nat \<Rightarrow> nat \<Rightarrow> nat option \<Rightarrow> heap" where
  "set_fwd h a i p = h[a := (h ! a)\<lparr>forward := (forward (h ! a))[i := p]\<rparr>]"

text \<open>The inner loop of the searches: move right at level \<open>i\<close> while the next key is smaller.\<close>

partial_function (option) advance :: "heap \<Rightarrow> nat \<Rightarrow> bytes \<Rightarrow> nat \<Rightarrow> nat option" where
  "advance h i k cur =
     (case fwd h cur i of
        None \<Rightarrow> None
      | Some None \<Rightarrow> Some cur
      | Some (Some nx) \<Rightarrow>
          if nx < length h then
            if bytes_Compare (key (h ! nx)) k < 0 then advance h i k nx else Some cur
          else None)"

text \<open>The outer loop of \<open>Put\<close>, from level \<open>n - 1\<close> down to 0, recording \<open>update\<close>.\<close>

fun descend_update :: "heap \<Rightarrow> nat \<Rightarrow> bytes \<Rightarrow> nat \<Rightarrow> nat option list \<Rightarrow> (nat \<times> nat option list) option" where
  "descend_update h 0 k cur upd = Some (cur, upd)"
| "descend_update h (Suc i) k cur upd =
     (case advance h i k cur of
        None \<Rightarrow> None
      | Some c \<Rightarrow> descend_update h i k c (upd[i := Some c]))"

text \<open>The outer loop of \<open>Get\<close> and \<open>Seek\<close>.\<close>

fun descend :: "heap \<Rightarrow> nat \<Rightarrow> bytes \<Rightarrow> nat \<Rightarrow> nat option" where
  "descend h 0 k cur = Some cur"
| "descend h (Suc i) k cur =
     (case advance h i k cur of None \<Rightarrow> None | Some c \<Rightarrow> descend h i k c)"

text \<open>The loop that splices the new node in at levels \<open>0..lvl-1\<close>.\<close>

fun link :: "nat \<Rightarrow> nat option list \<Rightarrow> nat list \<Rightarrow> heap \<Rightarrow> heap option" where
  "link n upd [] h = Some h"
| "link n upd (i # is) h =
     (if i < length upd then
        case upd ! i of
          None \<Rightarrow> None
        | Some u \<Rightarrow>
            (case fwd h u i of
               None \<Rightarrow> None
             | Some p \<Rightarrow> link n upd is (set_fwd (set_fwd h n i p) u i (Some n)))
      else None)"

text \<open>The loop \<open>for i := sl.level; i < lvl; i++ { update[i] = sl.head }\<close>.\<close>

definition raise_update :: "nat \<Rightarrow> nat \<Rightarrow> nat option list \<Rightarrow> nat option list" where
  "raise_update level lvl upd = fold (\<lambda>i u. u[i := Some 0]) [level..<lvl] upd"

definition vlen :: "bytes option \<Rightarrow> int" where
  "vlen v = (case v of None \<Rightarrow> 0 | Some b \<Rightarrow> int (length b))"

definition copyBytes :: "bytes option \<Rightarrow> bytes option" where
  "copyBytes b = (case b of None \<Rightarrow> None | Some xs \<Rightarrow> Some xs)"

text \<open>The part of \<open>Put\<close> that inserts a new node, after the search.\<close>

definition SkipList_insert :: "coins \<Rightarrow> SkipList \<Rightarrow> bytes \<Rightarrow> bytes option \<Rightarrow> nat option list \<Rightarrow> SkipList option" where
  "SkipList_insert c sl k v upd =
     (let lvl = randomLevel c;
          upd' = (if lvl > sl_level sl then raise_update (sl_level sl) lvl upd else upd);
          level' = (if lvl > sl_level sl then lvl else sl_level sl);
          n = length (sl_heap sl);
          newNode = \<lparr>key = k, val = copyBytes v, forward = replicate lvl None\<rparr>
      in case link n upd' [0..<lvl] (sl_heap sl @ [newNode]) of
           None \<Rightarrow> None
         | Some h' \<Rightarrow>
             Some (sl\<lparr>sl_heap := h', sl_level := level', sl_count := sl_count sl + 1,
                      sl_size := sl_size sl + int (length k) + vlen v + int lvl * 8 + 64\<rparr>))"

definition SkipList_Put :: "coins \<Rightarrow> SkipList \<Rightarrow> bytes \<Rightarrow> bytes option \<Rightarrow> SkipList option" where
  "SkipList_Put c sl k v =
     (let h = sl_heap sl in
      case descend_update h (sl_level sl) k 0 (replicate maxLevel None) of
        None \<Rightarrow> None
      | Some (cur, upd) \<Rightarrow>
          (case fwd h cur 0 of
             None \<Rightarrow> None
           | Some None \<Rightarrow> SkipList_insert c sl k v upd
           | Some (Some t) \<Rightarrow>
               if key (h ! t) = k then
                 Some (sl\<lparr>sl_size := sl_size sl + (vlen v - vlen (val (h ! t))),
                          sl_heap := h[t := (h ! t)\<lparr>val := copyBytes v\<rparr>]\<rparr>)
               else SkipList_insert c sl k v upd))"

definition SkipList_Get :: "SkipList \<Rightarrow> bytes \<Rightarrow> (bytes option \<times> bool) option" where
  "SkipList_Get sl k =
     (let h = sl_heap sl in
      case descend h (sl_level sl) k 0 of
        None \<Rightarrow> None
      | Some cur \<Rightarrow>
          (case fwd h cur 0 of
             None \<Rightarrow> None
           | Some None \<Rightarrow> Some (None, False)
           | Some (Some t) \<Rightarrow>
               if key (h ! t) = k then Some (val (h ! t), True) else Some (None, False)))"

definition SkipList_Delete :: "coins \<Rightarrow> SkipList \<Rightarrow> bytes \<Rightarrow> SkipList option" where
  "SkipList_Delete c sl k = SkipList_Put c sl k None"

definition SkipList_Len :: "SkipList \<Rightarrow> nat" where
  "SkipList_Len sl = sl_count sl"

definition SkipList_Size :: "SkipList \<Rightarrow> int" where
  "SkipList_Size sl = sl_size sl"

subsection \<open>Iterator\<close>

record SLIterator =
  it_list :: SkipList
  it_current :: "nat option"

definition SkipList_NewIterator :: "SkipList \<Rightarrow> SLIterator" where
  "SkipList_NewIterator sl = \<lparr>it_list = sl, it_current = None\<rparr>"

definition SLIterator_SeekToFirst :: "SLIterator \<Rightarrow> SLIterator option" where
  "SLIterator_SeekToFirst it =
     (case fwd (sl_heap (it_list it)) 0 0 of None \<Rightarrow> None | Some p \<Rightarrow> Some (it\<lparr>it_current := p\<rparr>))"

definition SLIterator_Seek :: "SLIterator \<Rightarrow> bytes \<Rightarrow> SLIterator option" where
  "SLIterator_Seek it target =
     (case descend (sl_heap (it_list it)) (sl_level (it_list it)) target 0 of
        None \<Rightarrow> None
      | Some cur \<Rightarrow>
          (case fwd (sl_heap (it_list it)) cur 0 of
             None \<Rightarrow> None | Some p \<Rightarrow> Some (it\<lparr>it_current := p\<rparr>)))"

definition SLIterator_Next :: "SLIterator \<Rightarrow> SLIterator option" where
  "SLIterator_Next it =
     (case it_current it of
        None \<Rightarrow> Some it
      | Some a \<Rightarrow>
          (case fwd (sl_heap (it_list it)) a 0 of
             None \<Rightarrow> None | Some p \<Rightarrow> Some (it\<lparr>it_current := p\<rparr>)))"

definition SLIterator_Valid :: "SLIterator \<Rightarrow> bool" where
  "SLIterator_Valid it \<longleftrightarrow> it_current it \<noteq> None"

definition SLIterator_Key :: "SLIterator \<Rightarrow> bytes option" where
  "SLIterator_Key it =
     (case it_current it of None \<Rightarrow> None | Some a \<Rightarrow> Some (key (sl_heap (it_list it) ! a)))"

definition SLIterator_Value :: "SLIterator \<Rightarrow> bytes option" where
  "SLIterator_Value it =
     (case it_current it of None \<Rightarrow> None | Some a \<Rightarrow> val (sl_heap (it_list it) ! a))"

definition SLIterator_IsTombstone :: "SLIterator \<Rightarrow> bool" where
  "SLIterator_IsTombstone it =
     (case it_current it of None \<Rightarrow> False | Some a \<Rightarrow> val (sl_heap (it_list it) ! a) = None)"

subsection \<open>The invariant and the abstraction\<close>

abbreviation height :: "heap \<Rightarrow> nat \<Rightarrow> nat" where
  "height h a \<equiv> length (forward (h ! a))"

abbreviation nkey :: "heap \<Rightarrow> nat \<Rightarrow> bytes" where
  "nkey h a \<equiv> key (h ! a)"

text \<open>\<open>linked h as\<close>: each node's level-\<open>i\<close> pointer leads to the next node of height above \<open>i\<close>.\<close>

fun linked :: "heap \<Rightarrow> nat list \<Rightarrow> bool" where
  "linked h [] = True"
| "linked h (a # as) \<longleftrightarrow>
     a < length h \<and> (\<forall>i<height h a. forward (h ! a) ! i = find (\<lambda>b. i < height h b) as) \<and> linked h as"

definition node_size :: "node \<Rightarrow> int" where
  "node_size nd = int (length (key nd)) + vlen (val nd) + int (length (forward nd)) * 8 + 64"

definition sl_rep :: "SkipList \<Rightarrow> nat list \<Rightarrow> bool" where
  "sl_rep sl ns \<longleftrightarrow>
     0 < length (sl_heap sl) \<and> distinct ns \<and> set ns = {1..<length (sl_heap sl)} \<and>
     linked (sl_heap sl) (0 # ns) \<and> sorted_wrt (<) (map (nkey (sl_heap sl)) ns) \<and>
     height (sl_heap sl) 0 = maxLevel \<and> sl_level sl \<le> maxLevel \<and>
     (\<forall>a\<in>set ns. 1 \<le> height (sl_heap sl) a \<and> height (sl_heap sl) a \<le> sl_level sl) \<and>
     sl_count sl = length ns \<and> sl_size sl = (\<Sum>a\<leftarrow>ns. node_size (sl_heap sl ! a))"

text \<open>The nodes of the list, by walking the bottom level from the head.\<close>

fun walk :: "heap \<Rightarrow> nat \<Rightarrow> nat option \<Rightarrow> nat list" where
  "walk h 0 p = []"
| "walk h (Suc f) None = []"
| "walk h (Suc f) (Some a) = a # walk h f (forward (h ! a) ! 0)"

definition sl_nodes :: "SkipList \<Rightarrow> nat list" where
  "sl_nodes sl = walk (sl_heap sl) (length (sl_heap sl)) (forward (sl_heap sl ! 0) ! 0)"

definition sl_entries :: "SkipList \<Rightarrow> bytes option entries" where
  "sl_entries sl = map (\<lambda>a. (nkey (sl_heap sl) a, val (sl_heap sl ! a))) (sl_nodes sl)"

definition sl_inv :: "SkipList \<Rightarrow> bool" where
  "sl_inv sl \<longleftrightarrow> sl_rep sl (sl_nodes sl)"

subsection \<open>Level generation\<close>

lemma randomLevel_from_bounds:
  "lvl \<le> maxLevel \<Longrightarrow> lvl \<le> randomLevel_from c lvl \<and> randomLevel_from c lvl \<le> maxLevel"
proof (induction c lvl rule: randomLevel_from.induct)
  case (1 c lvl)
  then show ?case by (auto simp: randomLevel_from.simps [of c lvl])
qed

lemma randomLevel_bounds: "1 \<le> randomLevel c" "randomLevel c \<le> maxLevel"
  using randomLevel_from_bounds [of 1 c] by (simp_all add: randomLevel_def maxLevel_def)

subsection \<open>Searching\<close>

lemma linked_append: "linked h (xs @ ys) \<Longrightarrow> linked h ys"
  by (induction xs) auto

lemma linked_bound: "linked h as \<Longrightarrow> a \<in> set as \<Longrightarrow> a < length h"
  by (induction as) auto

lemma linked_fwd:
  "linked h (xs @ a # ys) \<Longrightarrow> i < height h a \<Longrightarrow> fwd h a i = Some (find (\<lambda>b. i < height h b) ys)"
  by (auto simp: fwd_def dest: linked_append)

lemma find_Some_split:
  "find P ys = Some y \<Longrightarrow> \<exists>ys1 ys2. ys = ys1 @ y # ys2 \<and> (\<forall>x\<in>set ys1. \<not> P x) \<and> P y"
proof (induction ys)
  case (Cons z zs)
  show ?case
  proof (cases "P z")
    case True
    with Cons.prems have "z # zs = [] @ y # zs \<and> (\<forall>x\<in>set []. \<not> P x) \<and> P y" by simp
    then show ?thesis by blast
  next
    case False
    with Cons obtain ys1 ys2 where "zs = ys1 @ y # ys2" "\<forall>x\<in>set ys1. \<not> P x" "P y" by auto
    with False have "z # zs = (z # ys1) @ y # ys2 \<and> (\<forall>x\<in>set (z # ys1). \<not> P x) \<and> P y" by simp
    then show ?thesis by blast
  qed
qed simp

lemma find_None_filter: "find P ys = None \<longleftrightarrow> filter P ys = []"
  by (induction ys) auto

lemma last_filter_append:
  "P x \<Longrightarrow> last (filter P (xs @ x # ys)) = last (filter P (x # ys))"
  by (induction xs) auto

text \<open>The inner loop stops at the last node before \<open>k\<close> that is tall enough.\<close>

lemma advance_spec:
  assumes "linked h (xs @ cur # ys)" "i < height h cur" "sorted_wrt (<) (map (nkey h) ys)"
  shows "advance h i k cur = Some (last (filter (\<lambda>b. i < height h b) (cur # takeWhile (\<lambda>b. nkey h b < k) ys)))"
  using assms
proof (induction "length ys" arbitrary: xs cur ys rule: less_induct)
  case less
  let ?P = "\<lambda>b. i < height h b" and ?L = "\<lambda>b. nkey h b < k"
  note f = linked_fwd [OF less.prems(1,2)]
  show ?case
  proof (cases "find ?P ys")
    case None
    then have "filter ?P (takeWhile ?L ys) = []"
      by (auto simp: find_None_filter filter_empty_conv dest: set_takeWhileD)
    then show ?thesis using f None less.prems(2) by (simp add: advance.simps [of h i k cur])
  next
    case (Some nx)
    then obtain ys1 ys2 where ys: "ys = ys1 @ nx # ys2" and n1: "\<forall>x\<in>set ys1. \<not> ?P x" and pn: "?P nx"
      using find_Some_split [OF Some] by blast
    have nxl: "nx < length h" using less.prems(1) ys by (auto dest: linked_bound)
    show ?thesis
    proof (cases "?L nx")
      case True
      have all1: "\<forall>b\<in>set ys1. ?L b" using less.prems(3) ys True by (auto simp: sorted_wrt_append)
      then have tw: "takeWhile ?L ys = ys1 @ nx # takeWhile ?L ys2"
        using ys True by (simp add: takeWhile_append2)
      have "advance h i k nx = Some (last (filter ?P (nx # takeWhile ?L ys2)))"
        by (rule less.hyps [of ys2 "xs @ cur # ys1"]) (use less.prems ys pn in \<open>auto simp: sorted_wrt_append\<close>)
      moreover have "advance h i k cur = advance h i k nx"
        using f Some nxl True by (subst advance.simps) simp
      moreover have "last (filter ?P ((cur # ys1) @ nx # takeWhile ?L ys2)) = last (filter ?P (nx # takeWhile ?L ys2))"
        by (rule last_filter_append) (rule pn)
      ultimately show ?thesis using tw by simp
    next
      case False
      have "set (takeWhile ?L ys) \<subseteq> set ys1" using ys False
        by (auto simp: takeWhile_append split: if_splits dest: set_takeWhileD)
      then have "filter ?P (takeWhile ?L ys) = []" using n1 by (auto simp: filter_empty_conv)
      then show ?thesis using f Some nxl False less.prems(2) by (subst advance.simps) simp
    qed
  qed
qed

text \<open>The nodes before \<open>k\<close>, the nodes from \<open>k\<close> on, and the rightmost node before \<open>k\<close> of height
  above \<open>i\<close>.\<close>

abbreviation pre_k :: "heap \<Rightarrow> bytes \<Rightarrow> nat list \<Rightarrow> nat list" where
  "pre_k h k ns \<equiv> takeWhile (\<lambda>b. nkey h b < k) ns"

abbreviation post_k :: "heap \<Rightarrow> bytes \<Rightarrow> nat list \<Rightarrow> nat list" where
  "post_k h k ns \<equiv> dropWhile (\<lambda>b. nkey h b < k) ns"

abbreviation rightmost :: "heap \<Rightarrow> nat \<Rightarrow> nat list \<Rightarrow> nat" where
  "rightmost h i as \<equiv> last (filter (\<lambda>b. i < height h b) as)"

lemma rightmost_in:
  assumes "a \<in> set as" "i < height h a"
  shows "rightmost h i as \<in> set as" "i < height h (rightmost h i as)"
proof -
  have "filter (\<lambda>b. i < height h b) as \<noteq> []" using assms by (auto simp: filter_empty_conv)
  then have "rightmost h i as \<in> set (filter (\<lambda>b. i < height h b) as)" by (rule last_in_set)
  then show "rightmost h i as \<in> set as" "i < height h (rightmost h i as)" by auto
qed

lemma takeWhile_dropWhile_same: "takeWhile P (dropWhile P xs) = []"
  by (induction xs) auto

lemma advance_from:
  assumes l: "linked h (0 # ns)" and s: "sorted_wrt (<) (map (nkey h) ns)"
    and c: "cur \<in> set (0 # pre_k h k ns)" and i: "i < height h cur"
  shows "advance h i k cur = Some (rightmost h i (0 # pre_k h k ns))"
proof -
  let ?L = "\<lambda>b. nkey h b < k"
  obtain xs ys where sp: "0 # pre_k h k ns = xs @ cur # ys" using c by (meson split_list)
  then have all: "0 # ns = xs @ cur # (ys @ post_k h k ns)"
    by (metis append_Cons append_assoc takeWhile_dropWhile_id)
  have ysL: "\<forall>b\<in>set ys. ?L b"
  proof
    fix b assume "b \<in> set ys"
    then have "b \<in> set (pre_k h k ns)" using sp by (cases xs) auto
    then show "?L b" by (rule set_takeWhileD [THEN conjunct2])
  qed
  have tw: "takeWhile ?L (ys @ post_k h k ns) = ys" using ysL by (simp add: takeWhile_append2 takeWhile_dropWhile_same)
  have srt: "sorted_wrt (<) (map (nkey h) (ys @ post_k h k ns))"
  proof (cases xs)
    case Nil
    with all have "ns = ys @ post_k h k ns" by simp
    with s show ?thesis by simp
  next
    case (Cons x xs')
    with all have "ns = xs' @ cur # (ys @ post_k h k ns)" by simp
    then have "sorted_wrt (<) (map (nkey h) (xs' @ cur # (ys @ post_k h k ns)))" using s by metis
    then show ?thesis by (simp add: sorted_wrt_append)
  qed
  have "advance h i k cur = Some (rightmost h i (cur # takeWhile ?L (ys @ post_k h k ns)))"
    by (rule advance_spec [of h xs]) (use l all i srt in auto)
  also have "\<dots> = Some (rightmost h i (xs @ cur # ys))"
    using tw last_filter_append [of "\<lambda>b. i < height h b" cur xs ys] i by simp
  finally show ?thesis by (simp only: sp)
qed

lemma descend_spec:
  assumes l: "linked h (0 # ns)" and s: "sorted_wrt (<) (map (nkey h) ns)"
    and "cur \<in> set (0 # pre_k h k ns)" "n \<le> height h cur"
  shows "descend h n k cur = Some (if n = 0 then cur else rightmost h 0 (0 # pre_k h k ns))"
  using assms(3,4)
proof (induction n arbitrary: cur)
  case (Suc n)
  let ?r = "rightmost h n (0 # pre_k h k ns)"
  have a: "advance h n k cur = Some ?r"
    by (rule advance_from [OF l s]) (use Suc.prems in auto)
  have r: "?r \<in> set (0 # pre_k h k ns)" "n < height h ?r"
    using rightmost_in [of cur "0 # pre_k h k ns" n h] Suc.prems by auto
  have "descend h n k ?r = Some (if n = 0 then ?r else rightmost h 0 (0 # pre_k h k ns))"
    by (rule Suc.IH) (use r in auto)
  then show ?case using a by simp
qed simp

lemma descend_update_spec:
  assumes l: "linked h (0 # ns)" and s: "sorted_wrt (<) (map (nkey h) ns)"
    and "cur \<in> set (0 # pre_k h k ns)" "n \<le> height h cur" "n \<le> length upd"
  shows "\<exists>upd'. descend_update h n k cur upd =
           Some (if n = 0 then cur else rightmost h 0 (0 # pre_k h k ns), upd') \<and>
         length upd' = length upd \<and>
         (\<forall>i<length upd. upd' ! i = (if i < n then Some (rightmost h i (0 # pre_k h k ns)) else upd ! i))"
  using assms(3-5)
proof (induction n arbitrary: cur upd)
  case (Suc n)
  let ?r = "rightmost h n (0 # pre_k h k ns)"
  have a: "advance h n k cur = Some ?r"
    by (rule advance_from [OF l s]) (use Suc.prems in auto)
  have r: "?r \<in> set (0 # pre_k h k ns)" "n < height h ?r"
    using rightmost_in [of cur "0 # pre_k h k ns" n h] Suc.prems by auto
  obtain upd' where u: "descend_update h n k ?r (upd[n := Some ?r]) =
       Some (if n = 0 then ?r else rightmost h 0 (0 # pre_k h k ns), upd')"
     "length upd' = length upd"
     "\<forall>i<length upd. upd' ! i = (if i < n then Some (rightmost h i (0 # pre_k h k ns)) else upd[n := Some ?r] ! i)"
    using Suc.IH [of ?r "upd[n := Some ?r]"] r Suc.prems(3) by auto
  have "\<forall>i<length upd. upd' ! i = (if i < Suc n then Some (rightmost h i (0 # pre_k h k ns)) else upd ! i)"
    using u(3) Suc.prems(3) by (auto simp: nth_list_update less_Suc_eq)
  then show ?case using a u(1,2) by auto
qed auto

lemma last_pre_tall:
  assumes "\<forall>a\<in>set ns. 1 \<le> height h a" "0 < height h 0"
  shows "rightmost h 0 (0 # pre_k h k ns) = last (0 # pre_k h k ns)"
proof -
  have "\<forall>a\<in>set (0 # pre_k h k ns). 0 < height h a"
    using assms by (auto dest!: set_takeWhileD)
  then have "filter (\<lambda>b. 0 < height h b) (0 # pre_k h k ns) = 0 # pre_k h k ns"
    by (simp add: filter_id_conv)
  then show ?thesis by simp
qed

lemma level0_nodes: "sl_rep sl ns \<Longrightarrow> sl_level sl = 0 \<Longrightarrow> ns = []"
  by (cases ns) (auto simp: sl_rep_def)

lemma sl_rep_levels: "sl_rep sl ns \<Longrightarrow> a \<in> set ns \<Longrightarrow> 1 \<le> height (sl_heap sl) a \<and> height (sl_heap sl) a \<le> sl_level sl"
  unfolding sl_rep_def by blast

text \<open>The search of \<open>Get\<close> and \<open>Seek\<close> ends at the last node before \<open>k\<close>, and the pointer read from
  there is the first node from \<open>k\<close> on.\<close>

lemma search_spec:
  assumes r: "sl_rep sl ns"
  defines "h \<equiv> sl_heap sl"
  shows "descend h (sl_level sl) k 0 = Some (last (0 # pre_k h k ns))"
    and "\<exists>upd. descend_update h (sl_level sl) k 0 (replicate maxLevel None) = Some (last (0 # pre_k h k ns), upd) \<and>
           length upd = maxLevel \<and>
           (\<forall>i < sl_level sl. upd ! i = Some (rightmost h i (0 # pre_k h k ns)))"
    and "fwd h (last (0 # pre_k h k ns)) 0 =
           Some (case post_k h k ns of [] \<Rightarrow> None | t # _ \<Rightarrow> Some t)"
proof -
  have l: "linked h (0 # ns)" and s: "sorted_wrt (<) (map (nkey h) ns)"
    and t: "\<forall>a\<in>set ns. 1 \<le> height h a" and h0: "height h 0 = maxLevel" and lv: "sl_level sl \<le> maxLevel"
    using r by (auto simp: sl_rep_def h_def)
  have z: "0 < height h 0" using h0 by (simp add: maxLevel_def)
  note rl = last_pre_tall [OF t z, of k]
  have z0: "sl_level sl = 0 \<Longrightarrow> pre_k h k ns = []" using level0_nodes [OF r] by simp
  have lst: "(if sl_level sl = 0 then 0 else rightmost h 0 (0 # pre_k h k ns)) = last (0 # pre_k h k ns)"
    by (cases "sl_level sl = 0") (simp add: z0, simp only: rl if_False)
  have d: "descend h (sl_level sl) k 0 = Some (if sl_level sl = 0 then 0 else rightmost h 0 (0 # pre_k h k ns))"
    by (rule descend_spec [OF l s]) (simp_all add: h0 lv)
  show "descend h (sl_level sl) k 0 = Some (last (0 # pre_k h k ns))"
    using d by (simp only: lst)
  obtain upd where u: "descend_update h (sl_level sl) k 0 (replicate maxLevel None) =
       Some (if sl_level sl = 0 then 0 else rightmost h 0 (0 # pre_k h k ns), upd)"
     "length upd = maxLevel"
     "\<forall>i<maxLevel. upd ! i = (if i < sl_level sl then Some (rightmost h i (0 # pre_k h k ns)) else replicate maxLevel None ! i)"
    using descend_update_spec [OF l s, of 0 k "sl_level sl" "replicate maxLevel None"] h0 lv by auto
  have "descend_update h (sl_level sl) k 0 (replicate maxLevel None) = Some (last (0 # pre_k h k ns), upd)"
    using u(1) by (simp only: lst)
  moreover have "\<forall>i < sl_level sl. upd ! i = Some (rightmost h i (0 # pre_k h k ns))"
    using u(3) lv by simp
  ultimately show "\<exists>upd. descend_update h (sl_level sl) k 0 (replicate maxLevel None) = Some (last (0 # pre_k h k ns), upd) \<and>
       length upd = maxLevel \<and> (\<forall>i < sl_level sl. upd ! i = Some (rightmost h i (0 # pre_k h k ns)))"
    using u(2) by blast
  have sp: "0 # ns = butlast (0 # pre_k h k ns) @ last (0 # pre_k h k ns) # post_k h k ns"
    by (metis append.assoc append_Cons append_Nil append_butlast_last_id list.distinct(1) takeWhile_dropWhile_id)
  have "0 < height h (last (0 # pre_k h k ns))"
  proof -
    have "last (0 # pre_k h k ns) \<in> set (0 # pre_k h k ns)" by (rule last_in_set) simp
    then have "last (0 # pre_k h k ns) = 0 \<or> last (0 # pre_k h k ns) \<in> set ns"
      by (auto dest: set_takeWhileD)
    then show ?thesis
    proof
      assume "last (0 # pre_k h k ns) = 0"
      then show ?thesis by (simp only: z)
    next
      assume "last (0 # pre_k h k ns) \<in> set ns"
      with t have "1 \<le> height h (last (0 # pre_k h k ns))" by (rule bspec)
      then show ?thesis by linarith
    qed
  qed
  with linked_fwd [of h "butlast (0 # pre_k h k ns)"] l sp
  have f: "fwd h (last (0 # pre_k h k ns)) 0 = Some (find (\<lambda>b. 0 < height h b) (post_k h k ns))" by metis
  moreover have "find (\<lambda>b. 0 < height h b) (post_k h k ns) = (case post_k h k ns of [] \<Rightarrow> None | t # _ \<Rightarrow> Some t)"
  proof (cases "post_k h k ns")
    case (Cons a as)
    then have "a \<in> set ns" by (metis list.set_intros(1) set_dropWhileD)
    with t have "0 < height h a" by fastforce
    with Cons show ?thesis by simp
  next
    case Nil
    then show ?thesis by (simp only: find.simps list.case)
  qed
  ultimately show "fwd h (last (0 # pre_k h k ns)) 0 = Some (case post_k h k ns of [] \<Rightarrow> None | t # _ \<Rightarrow> Some t)"
    by metis
qed

subsection \<open>The abstraction\<close>

lemma find_first: "\<forall>a\<in>set ns. 1 \<le> height h a \<Longrightarrow>
   find (\<lambda>b. 0 < height h b) ns = (case ns of [] \<Rightarrow> None | t # _ \<Rightarrow> Some t)"
  by (cases ns) auto

lemma walk_linked:
  "linked h ns \<Longrightarrow> \<forall>a\<in>set ns. 1 \<le> height h a \<Longrightarrow> length ns \<le> f \<Longrightarrow>
   walk h f (case ns of [] \<Rightarrow> None | t # _ \<Rightarrow> Some t) = ns"
proof (induction ns arbitrary: f)
  case Nil
  then show ?case by (cases f) auto
next
  case (Cons a as)
  then obtain f' where f: "f = Suc f'" by (cases f) auto
  have "forward (h ! a) ! 0 = (case as of [] \<Rightarrow> None | t # _ \<Rightarrow> Some t)"
    using Cons.prems find_first [of as h] by (auto simp: Suc_le_eq)
  with Cons f show ?case by simp
qed

lemma sl_rep_nodes:
  assumes r: "sl_rep sl ns" shows "sl_nodes sl = ns"
proof -
  let ?h = "sl_heap sl"
  have "distinct ns" "set ns = {1..<length ?h}" using r by (auto simp: sl_rep_def)
  then have "length ns \<le> length ?h" using distinct_card [of ns] by simp
  moreover have "forward (?h ! 0) ! 0 = (case ns of [] \<Rightarrow> None | t # _ \<Rightarrow> Some t)"
    using r find_first [of ns ?h] by (auto simp: sl_rep_def maxLevel_def)
  ultimately show ?thesis
    using walk_linked [of ?h ns "length ?h"] r by (auto simp: sl_nodes_def sl_rep_def)
qed

lemma sl_inv_iff: "sl_inv sl \<longleftrightarrow> (\<exists>ns. sl_rep sl ns)"
  by (auto simp: sl_inv_def sl_rep_nodes)

lemma sl_entries_rep:
  "sl_rep sl ns \<Longrightarrow> sl_entries sl = map (\<lambda>a. (nkey (sl_heap sl) a, val (sl_heap sl ! a))) ns"
  by (simp add: sl_entries_def sl_rep_nodes)

lemma ksorted_entries: "sl_inv sl \<Longrightarrow> ksorted (sl_entries sl)"
proof -
  assume "sl_inv sl"
  then obtain ns where r: "sl_rep sl ns" by (auto simp: sl_inv_iff)
  then have "sorted_wrt (<) (map (nkey (sl_heap sl)) ns)" by (simp add: sl_rep_def)
  with sl_entries_rep [OF r] show ?thesis by (simp add: ksorted_def comp_def)
qed

lemma NewSkipList_rep: "sl_rep NewSkipList []"
  by (simp add: sl_rep_def NewSkipList_def maxLevel_def)

lemma NewSkipList_inv [simp]: "sl_inv NewSkipList"
  using NewSkipList_rep by (auto simp: sl_inv_iff)

lemma NewSkipList_entries [simp]: "sl_entries NewSkipList = []"
  using NewSkipList_rep by (simp add: sl_entries_rep)

subsection \<open>Lookup\<close>

lemma post_ge:
  assumes "sorted_wrt (<) (map (nkey h) ns)" "a \<in> set (post_k h k ns)"
  shows "k \<le> nkey h a"
proof -
  obtain t ts where p: "post_k h k ns = t # ts" using assms(2) by (cases "post_k h k ns") auto
  then have "\<not> nkey h t < k" by (simp add: dropWhile_eq_Cons_conv)
  moreover have "sorted_wrt (<) (map (nkey h) (pre_k h k ns @ t # ts))"
    using assms(1) p by (metis takeWhile_dropWhile_id)
  then have "\<forall>b\<in>set ts. nkey h t < nkey h b" by (simp add: sorted_wrt_append)
  ultimately show ?thesis using assms(2) p by fastforce
qed

lemma SkipList_Get_spec:
  assumes "sl_inv sl"
  shows "SkipList_Get sl k =
    Some (case map_of (sl_entries sl) k of None \<Rightarrow> (None, False) | Some v \<Rightarrow> (v, True))"
proof -
  obtain ns where r: "sl_rep sl ns" using assms by (auto simp: sl_inv_iff)
  let ?h = "sl_heap sl" and ?f = "\<lambda>a. (nkey (sl_heap sl) a, val (sl_heap sl ! a))"
  have es: "sl_entries sl = map ?f (pre_k ?h k ns) @ map ?f (post_k ?h k ns)"
    using sl_entries_rep [OF r] by (simp flip: map_append)
  have s: "sorted_wrt (<) (map (nkey ?h) ns)" using r by (simp add: sl_rep_def)
  have "map_of (sl_entries sl) k = (case map ?f (post_k ?h k ns) of [] \<Rightarrow> None | y # _ \<Rightarrow> if fst y = k then Some (snd y) else None)"
    unfolding es
    by (rule map_of_ksorted_split)
       (use ksorted_entries [OF assms] es post_ge [OF s] in \<open>auto dest: set_takeWhileD\<close>)
  then show ?thesis
    unfolding SkipList_Get_def Let_def
    using search_spec(1,3) [OF r, of k] by (cases "post_k ?h k ns") auto
qed

subsection \<open>Insertion\<close>

lemma linked_iff:
  "linked h as \<longleftrightarrow> (\<forall>xs a ys. as = xs @ a # ys \<longrightarrow>
     a < length h \<and> (\<forall>i<height h a. forward (h ! a) ! i = find (\<lambda>b. i < height h b) ys))"
proof (induction as)
  case (Cons b bs)
  show ?case
  proof
    assume l: "linked h (b # bs)"
    show "\<forall>xs a ys. b # bs = xs @ a # ys \<longrightarrow>
       a < length h \<and> (\<forall>i<height h a. forward (h ! a) ! i = find (\<lambda>b. i < height h b) ys)"
    proof (intro allI impI)
      fix xs a ys assume e: "b # bs = xs @ a # ys"
      have "linked h (a # ys)" using l unfolding e by (rule linked_append)
      then show "a < length h \<and> (\<forall>i<height h a. forward (h ! a) ! i = find (\<lambda>b. i < height h b) ys)" by simp
    qed
  next
    assume A: "\<forall>xs a ys. b # bs = xs @ a # ys \<longrightarrow>
       a < length h \<and> (\<forall>i<height h a. forward (h ! a) ! i = find (\<lambda>b. i < height h b) ys)"
    have "b # bs = [] @ b # bs" by simp
    with A have hd: "b < length h \<and> (\<forall>i<height h b. forward (h ! b) ! i = find (\<lambda>c. i < height h c) bs)" by blast
    have "linked h bs" unfolding Cons.IH
    proof (intro allI impI)
      fix xs a ys assume "bs = xs @ a # ys"
      then have "b # bs = (b # xs) @ a # ys" by simp
      with A show "a < length h \<and> (\<forall>i<height h a. forward (h ! a) ! i = find (\<lambda>b. i < height h b) ys)" by blast
    qed
    with hd show "linked h (b # bs)" by simp
  qed
qed simp

lemma rightmost_split:
  assumes "i < height h a" "distinct (xs @ a # ys)"
  shows "rightmost h i (xs @ a # ys) = a \<longleftrightarrow> (\<forall>b\<in>set ys. \<not> i < height h b)"
proof -
  have e: "rightmost h i (xs @ a # ys) = rightmost h i (a # ys)"
    by (rule last_filter_append) (rule assms(1))
  show ?thesis
  proof (cases "filter (\<lambda>b. i < height h b) ys = []")
    case True
    then show ?thesis using e assms(1) by (auto simp: filter_empty_conv)
  next
    case False
    then have "rightmost h i ys \<in> set ys" using last_in_set [OF False] by simp
    then have "rightmost h i ys \<noteq> a" using assms(2) by auto
    then show ?thesis using e False assms(1) by (auto simp: filter_empty_conv)
  qed
qed

lemma raise_update_spec:
  "length (raise_update l m upd) = length upd \<and>
   (\<forall>i<length upd. raise_update l m upd ! i = (if l \<le> i \<and> i < m then Some 0 else upd ! i))"
proof (induction m)
  case (Suc m)
  show ?case
  proof (cases "l \<le> m")
    case True
    then have "raise_update l (Suc m) upd = (raise_update l m upd)[m := Some 0]"
      by (simp add: raise_update_def)
    with Suc True show ?thesis by (auto simp: nth_list_update less_Suc_eq)
  qed (auto simp: raise_update_def)
qed (simp add: raise_update_def)

lemma set_fwd_simps:
  "length (set_fwd h a i p) = length h"
  "b < length h \<Longrightarrow> key (set_fwd h a i p ! b) = key (h ! b)"
  "b < length h \<Longrightarrow> val (set_fwd h a i p ! b) = val (h ! b)"
  "b < length h \<Longrightarrow> length (forward (set_fwd h a i p ! b)) = length (forward (h ! b))"
  "b < length h \<Longrightarrow> j < length (forward (h ! b)) \<Longrightarrow>
     forward (set_fwd h a i p ! b) ! j = (if b = a \<and> j = i then p else forward (h ! b) ! j)"
  by (simp add: set_fwd_def) (cases "b = a"; simp add: set_fwd_def)+

text \<open>What the splice loop writes: at level \<open>i\<close> the new node \<open>n\<close> takes over the pointer of \<open>U i\<close>,
  which then points to \<open>n\<close>; everything else is kept.\<close>

lemma link_spec:
  assumes "distinct is" "n < length h"
    and "\<forall>i\<in>set is. i < length upd \<and> upd ! i = Some (U i) \<and> U i < n \<and> i < height h (U i) \<and> i < height h n"
  shows "\<exists>h'. link n upd is h = Some h' \<and> length h' = length h \<and>
    (\<forall>b<length h. key (h' ! b) = key (h ! b) \<and> val (h' ! b) = val (h ! b) \<and> height h' b = height h b \<and>
       (\<forall>j<height h b. forward (h' ! b) ! j =
          (if j \<in> set is then (if b = n then forward (h ! U j) ! j else if b = U j then Some n else forward (h ! b) ! j)
           else forward (h ! b) ! j)))"
  using assms
proof (induction "is" arbitrary: h)
  case (Cons i "is")
  let ?p = "forward (h ! U i) ! i"
  let ?h1 = "set_fwd (set_fwd h n i ?p) (U i) i (Some n)"
  have i: "i < length upd" "upd ! i = Some (U i)" "U i < n" "i < height h (U i)" "i < height h n"
    using Cons.prems(3) by auto
  have len: "length ?h1 = length h" by (simp add: set_fwd_simps)
  have same: "b < length h \<Longrightarrow> key (?h1 ! b) = key (h ! b) \<and> val (?h1 ! b) = val (h ! b) \<and> height ?h1 b = height h b" for b
    by (simp add: set_fwd_simps)
  have fw: "b < length h \<Longrightarrow> j < height h b \<Longrightarrow> forward (?h1 ! b) ! j =
      (if j = i then (if b = U i then Some n else if b = n then ?p else forward (h ! b) ! j) else forward (h ! b) ! j)" for b j
    by (simp add: set_fwd_simps)
  have U: "\<And>j. j \<in> set is \<Longrightarrow> U j < length h" using Cons.prems(2,3) by fastforce
  have "\<exists>h'. link n upd is ?h1 = Some h' \<and> length h' = length ?h1 \<and>
    (\<forall>b<length ?h1. key (h' ! b) = key (?h1 ! b) \<and> val (h' ! b) = val (?h1 ! b) \<and> height h' b = height ?h1 b \<and>
       (\<forall>j<height ?h1 b. forward (h' ! b) ! j =
          (if j \<in> set is then (if b = n then forward (?h1 ! U j) ! j else if b = U j then Some n else forward (?h1 ! b) ! j)
           else forward (?h1 ! b) ! j)))"
  proof (rule Cons.IH)
    show "\<forall>j\<in>set is. j < length upd \<and> upd ! j = Some (U j) \<and> U j < n \<and> j < height ?h1 (U j) \<and> j < height ?h1 n"
      using Cons.prems(2,3) same U by auto
  qed (use Cons.prems len in auto)
  then obtain h' where h': "link n upd is ?h1 = Some h'" "length h' = length h"
    "\<And>b. b < length h \<Longrightarrow> key (h' ! b) = key (?h1 ! b) \<and> val (h' ! b) = val (?h1 ! b) \<and> height h' b = height ?h1 b"
    "\<And>b j. b < length h \<Longrightarrow> j < height ?h1 b \<Longrightarrow> forward (h' ! b) ! j =
          (if j \<in> set is then (if b = n then forward (?h1 ! U j) ! j else if b = U j then Some n else forward (?h1 ! b) ! j)
           else forward (?h1 ! b) ! j)"
    unfolding len by blast
  have "fwd h (U i) i = Some ?p" using i Cons.prems(2) by (simp add: fwd_def)
  then have lk: "link n upd (i # is) h = Some h'" using i h'(1) by simp
  have ni: "i \<notin> set is" using Cons.prems(1) by simp
  have "forward (h' ! b) ! j = (if j \<in> set (i # is) then (if b = n then forward (h ! U j) ! j else if b = U j then Some n else forward (h ! b) ! j)
           else forward (h ! b) ! j)" if b: "b < length h" and j: "j < height h b" for b j
  proof (cases "j = i")
    case True
    then have "forward (h' ! b) ! j = forward (?h1 ! b) ! j" using h'(4) [OF b] same [OF b] j ni by simp
    then show ?thesis using fw [OF b j] True i(3) by auto
  next
    case False
    have "forward (h' ! b) ! j =
          (if j \<in> set is then (if b = n then forward (?h1 ! U j) ! j else if b = U j then Some n else forward (?h1 ! b) ! j)
           else forward (?h1 ! b) ! j)"
      using h'(4) [OF b] same [OF b] j by simp
    moreover have "forward (?h1 ! b) ! j = forward (h ! b) ! j" using fw [OF b j] False by simp
    moreover have "j \<in> set is \<Longrightarrow> forward (?h1 ! U j) ! j = forward (h ! U j) ! j"
      using fw [of "U j" j] U Cons.prems(3) False by simp
    ultimately show ?thesis using False by simp
  qed
  then show ?case using lk h'(2,3) same by auto
qed auto

lemma find_cong_heights:
  "\<forall>b\<in>set ys. height h' b = height h b \<Longrightarrow> find (\<lambda>b. i < height h' b) ys = find (\<lambda>b. i < height h b) ys"
  by (induction ys) auto

lemma find_append: "find P (xs @ ys) = (case find P xs of None \<Rightarrow> find P ys | Some x \<Rightarrow> Some x)"
  by (induction xs) auto

lemma find_none_iff: "find P xs = None \<longleftrightarrow> (\<forall>x\<in>set xs. \<not> P x)"
  by (auto simp: find_None_iff)

text \<open>Splicing a node between \<open>as\<close> (which starts with the head) and \<open>bs\<close> keeps the list linked.\<close>

lemma linked_insert:
  assumes l: "linked h (as @ bs)" and d: "distinct (as @ bs)" and bd: "set (as @ bs) \<subseteq> {..<n}"
    and n: "length h = n" "length h' = Suc n" "height h' n = lvl"
    and hts: "\<And>b. b < n \<Longrightarrow> height h' b = height h b"
    and U: "\<And>i. i < lvl \<Longrightarrow> U i = rightmost h i as \<and> U i \<in> set as \<and> i < height h (U i)"
    and new: "\<And>i. i < lvl \<Longrightarrow> forward (h' ! n) ! i = forward (h ! U i) ! i"
    and old: "\<And>b i. b < n \<Longrightarrow> i < height h b \<Longrightarrow>
       forward (h' ! b) ! i = (if i < lvl \<and> b = U i then Some n else forward (h ! b) ! i)"
  shows "linked h' (as @ n # bs)"
proof -
  have find_same: "set ys \<subseteq> {..<n} \<Longrightarrow> find (\<lambda>b. i < height h' b) ys = find (\<lambda>b. i < height h b) ys" for i ys
    by (rule find_cong_heights) (auto simp: hts)
  have lk: "as @ bs = xs @ a # ys \<Longrightarrow> i < height h a \<Longrightarrow> forward (h ! a) ! i = find (\<lambda>b. i < height h b) ys" for xs a ys i
    using l unfolding linked_iff by blast
  have "linked h' bs" unfolding linked_iff
  proof (intro allI impI)
    fix xs a ys assume e: "bs = xs @ a # ys"
    have a: "a < n" "a \<notin> set as" "set ys \<subseteq> {..<n}" using e bd d by auto
    have "forward (h' ! a) ! i = find (\<lambda>b. i < height h' b) ys" if i: "i < height h' a" for i
    proof -
      have i': "i < height h a" using i hts [OF a(1)] by simp
      have "\<not> (i < lvl \<and> a = U i)" using U [of i] a(2) by auto
      then have "forward (h' ! a) ! i = forward (h ! a) ! i" using old [OF a(1) i'] by metis
      also have "\<dots> = find (\<lambda>b. i < height h b) ys" using lk [of "as @ xs" a ys i] e i' by simp
      finally show ?thesis using find_same [OF a(3)] by simp
    qed
    then show "a < length h' \<and> (\<forall>i<height h' a. forward (h' ! a) ! i = find (\<lambda>b. i < height h' b) ys)"
      using a(1) n by simp
  qed
  moreover have "forward (h' ! n) ! i = find (\<lambda>b. i < height h' b) bs" if i: "i < lvl" for i
  proof -
    have u: "U i = rightmost h i as" "U i \<in> set as" "i < height h (U i)" using U [OF i] by auto
    obtain xs ys where e: "as = xs @ U i # ys" using u(2) by (meson split_list)
    have "distinct as" using d by simp
    then have "distinct (xs @ U i # ys)" using e by metis
    moreover have "rightmost h i (xs @ U i # ys) = U i" using u(1) e by metis
    ultimately have "\<forall>b\<in>set ys. \<not> i < height h b" using rightmost_split [OF u(3)] by blast
    then have "find (\<lambda>b. i < height h b) ys = None" by (simp add: find_none_iff)
    then have "forward (h ! U i) ! i = find (\<lambda>b. i < height h b) bs"
      using lk [of xs "U i" "ys @ bs" i] e u(3) by (simp add: find_append)
    then show ?thesis using new [OF i] find_same [of bs i] bd by simp
  qed
  ultimately have base: "linked h' (n # bs)" using n by simp
  have "linked h' (zs @ n # bs)" if "as = xs @ zs" for xs zs
    using that
  proof (induction zs arbitrary: xs)
    case (Cons a zs)
    have "linked h' (zs @ n # bs)" by (rule Cons.IH [of "xs @ [a]"]) (use Cons.prems in simp)
    moreover have a: "a < n" using Cons.prems bd by auto
    have zn: "set (zs @ bs) \<subseteq> {..<n}" using Cons.prems bd by auto
    have "forward (h' ! a) ! i = find (\<lambda>b. i < height h' b) (zs @ n # bs)" if i: "i < height h' a" for i
    proof -
      have i': "i < height h a" using i hts [OF a] by simp
      have o: "forward (h ! a) ! i = find (\<lambda>b. i < height h b) (zs @ bs)"
        using lk [of xs a "zs @ bs" i] Cons.prems i' by simp
      have rs: "rightmost h i as = a \<longleftrightarrow> (\<forall>b\<in>set zs. \<not> i < height h b)"
        unfolding Cons.prems by (rule rightmost_split [OF i']) (use Cons.prems d in auto)
      have fz: "find (\<lambda>b. i < height h' b) zs = find (\<lambda>b. i < height h b) zs"
        "find (\<lambda>b. i < height h' b) bs = find (\<lambda>b. i < height h b) bs"
        using find_same zn by auto
      show ?thesis
      proof (cases "i < lvl \<and> a = U i")
        case True
        then have "find (\<lambda>b. i < height h b) zs = None" using rs U [of i] by (simp add: find_none_iff)
        then show ?thesis using True old [OF a i'] fz n by (simp add: find_append)
      next
        case False
        then have "forward (h' ! a) ! i = find (\<lambda>b. i < height h b) (zs @ bs)" using old [OF a i'] o by auto
        moreover have "i < lvl \<Longrightarrow> find (\<lambda>b. i < height h b) zs \<noteq> None"
          using False rs U [of i] by (auto simp: find_none_iff)
        ultimately show ?thesis using fz n by (auto simp: find_append split: option.splits)
      qed
    qed
    then show ?case using \<open>linked h' (zs @ n # bs)\<close> a n by simp
  qed (use base in simp)
  then show ?thesis by (metis append_Nil)
qed

lemma takeWhile_entries: "takeWhile (\<lambda>e. fst e < k) (map (\<lambda>a. (f a, g a)) ns) = map (\<lambda>a. (f a, g a)) (takeWhile (\<lambda>a. f a < k) ns)"
  by (simp add: takeWhile_map comp_def)

lemma post_split:
  assumes "sorted_wrt (<) (map (nkey h) ns)"
  shows "dropWhile (\<lambda>a. nkey h a \<le> k) ns =
     (case post_k h k ns of [] \<Rightarrow> [] | t # ts \<Rightarrow> if nkey h t = k then ts else t # ts)"
  using assms
proof (induction ns)
  case (Cons a as)
  show ?case
  proof (cases "nkey h a < k")
    case False
    have "\<forall>b\<in>set as. nkey h a < nkey h b" using Cons.prems by simp
    then have "nkey h a = k \<Longrightarrow> dropWhile (\<lambda>a. nkey h a \<le> k) as = as" by (cases as) auto
    with False show ?thesis by auto
  next
    case True
    then have "nkey h a \<le> k" by simp
    with True Cons show ?thesis by simp
  qed
qed simp

lemma put_entries_eq:
  assumes r: "sl_rep sl ns"
  shows "assoc_put k v (sl_entries sl) =
     map (\<lambda>a. (nkey (sl_heap sl) a, val (sl_heap sl ! a))) (pre_k (sl_heap sl) k ns) @ (k, v) #
     map (\<lambda>a. (nkey (sl_heap sl) a, val (sl_heap sl ! a)))
       (case post_k (sl_heap sl) k ns of [] \<Rightarrow> [] | t # ts \<Rightarrow> if nkey (sl_heap sl) t = k then ts else t # ts)"
proof -
  have "sorted_wrt (<) (map (nkey (sl_heap sl)) ns)" using r by (simp add: sl_rep_def)
  from post_split [OF this, of k] show ?thesis
    by (simp add: assoc_put_def sl_entries_rep [OF r] takeWhile_entries dropWhile_map comp_def)
qed

text \<open>Overwriting the value of a node.\<close>

lemma linked_set_val: "linked (h[t := (h ! t)\<lparr>val := v\<rparr>]) as = linked h as"
proof -
  have f: "forward (h[t := (h ! t)\<lparr>val := v\<rparr>] ! a) = forward (h ! a)" for a
    by (cases "a = t"; cases "t < length h") (auto simp: nth_list_update list_update_beyond)
  show ?thesis by (induction as) (simp_all add: f)
qed

lemma sum_list_update_one:
  "distinct (xs @ t # ys) \<Longrightarrow> (\<And>a. a \<noteq> t \<Longrightarrow> f a = g a) \<Longrightarrow>
   (\<Sum>a\<leftarrow>xs @ t # ys. f a) = (\<Sum>a\<leftarrow>xs @ t # ys. g a) + (f t - g t :: int)"
proof -
  assume d: "distinct (xs @ t # ys)" and e: "\<And>a. a \<noteq> t \<Longrightarrow> f a = g a"
  have "map f xs = map g xs" "map f ys = map g ys" using d by (auto intro!: map_cong e)
  then show ?thesis by (simp only: map_append list.map sum_list_append sum_list.Cons)
qed

lemma SkipList_update_rep:
  assumes r: "sl_rep sl ns" and t: "t \<in> set ns"
    and sl'_def: "sl' = sl\<lparr>sl_size := sl_size sl + (vlen v - vlen (val (sl_heap sl ! t))),
                     sl_heap := (sl_heap sl)[t := (sl_heap sl ! t)\<lparr>val := v\<rparr>]\<rparr>"
  shows "sl_rep sl' ns"
proof -
  let ?h = "sl_heap sl" and ?h' = "sl_heap sl'"
  have tl: "t < length ?h" using r t by (auto simp: sl_rep_def)
  have h': "?h' = ?h[t := (?h ! t)\<lparr>val := v\<rparr>]" by (simp add: sl'_def)
  have kf: "key (?h' ! a) = key (?h ! a)" "forward (?h' ! a) = forward (?h ! a)" for a
    using tl h' by (cases "a = t"; simp)+
  obtain xs ys where sp: "ns = xs @ t # ys" using t by (meson split_list)
  have d: "distinct ns" using r by (simp add: sl_rep_def)
  have "(\<Sum>a\<leftarrow>ns. node_size (?h' ! a)) = (\<Sum>a\<leftarrow>ns. node_size (?h ! a)) + (node_size (?h' ! t) - node_size (?h ! t))"
    unfolding sp by (rule sum_list_update_one) (use d sp h' in auto)
  also have "node_size (?h' ! t) - node_size (?h ! t) = vlen v - vlen (val (?h ! t))"
    using tl h' by (simp add: node_size_def)
  finally have sz: "sl_size sl' = (\<Sum>a\<leftarrow>ns. node_size (?h' ! a))" using r by (simp add: sl_rep_def sl'_def)
  have "linked ?h' (0 # ns)" using r unfolding h' linked_set_val by (simp add: sl_rep_def)
  moreover have "length ?h' = length ?h" "sl_level sl' = sl_level sl" "sl_count sl' = sl_count sl"
    by (simp_all add: sl'_def)
  ultimately show ?thesis using r sz by (simp add: sl_rep_def kf)
qed

lemma sorted_map_insert:
  fixes f f' :: "nat \<Rightarrow> bytes"
  assumes "sorted_wrt (<) (map f (ps @ bs))" "map f' ps = map f ps" "map f' bs = map f bs"
    "\<forall>a\<in>set ps. f a < k" "\<forall>a\<in>set bs. k < f a" "f' n = k"
  shows "sorted_wrt (<) (map f' (ps @ n # bs))"
proof -
  have "map f' (ps @ n # bs) = map f ps @ k # map f bs"
    unfolding map_append list.map assms(2,3,6) ..
  then show ?thesis using assms(1,4,5) by (simp only:) (fastforce simp: sorted_wrt_append)
qed

text \<open>The three parts of an insertion between \<open>ps\<close> (keys below \<open>k\<close>) and \<open>bs\<close> (keys above): the
  \<open>update\<close> array after it has been extended, the heap after the splice, the representation.\<close>

lemma insert_update:
  assumes r: "sl_rep sl (ps @ bs)" and lvl: "lvl \<le> maxLevel" and ul: "length upd = maxLevel"
    and uv: "\<forall>i < sl_level sl. upd ! i = Some (rightmost (sl_heap sl) i (0 # ps))"
    and i: "i < lvl"
  shows "i < length (if lvl > sl_level sl then raise_update (sl_level sl) lvl upd else upd) \<and>
    (if lvl > sl_level sl then raise_update (sl_level sl) lvl upd else upd) ! i =
      Some (rightmost (sl_heap sl) i (0 # ps))"
proof (cases "i < sl_level sl")
  case True
  then show ?thesis using uv raise_update_spec [of "sl_level sl" lvl upd] ul i lvl by auto
next
  case False
  then have "filter (\<lambda>b. i < height (sl_heap sl) b) ps = []"
  proof -
    have "height (sl_heap sl) a \<le> sl_level sl" if "a \<in> set ps" for a
      using sl_rep_levels [OF r, of a] that by simp
    with False show ?thesis unfolding filter_empty_conv by (meson less_le_trans)
  qed
  then have "rightmost (sl_heap sl) i (0 # ps) = 0" using r lvl i by (simp add: sl_rep_def)
  then show ?thesis using False raise_update_spec [of "sl_level sl" lvl upd] ul i lvl by auto
qed

lemma insert_heap:
  assumes r: "sl_rep sl (ps @ bs)" and lvl: "lvl \<le> maxLevel"
    and u: "\<And>i. i < lvl \<Longrightarrow> i < length upd \<and> upd ! i = Some (rightmost (sl_heap sl) i (0 # ps))"
  defines "h \<equiv> sl_heap sl"
  defines "n \<equiv> length h"
  shows "\<exists>h'. link n upd [0..<lvl] (h @ [\<lparr>key = k, val = v, forward = replicate lvl None\<rparr>]) = Some h' \<and>
    length h' = Suc n \<and> linked h' (0 # ps @ n # bs) \<and>
    (\<forall>b<n. key (h' ! b) = key (h ! b) \<and> val (h' ! b) = val (h ! b) \<and> height h' b = height h b) \<and>
    key (h' ! n) = k \<and> val (h' ! n) = v \<and> height h' n = lvl"
proof -
  define as where "as = 0 # ps"
  define h0 where "h0 = h @ [\<lparr>key = k, val = v, forward = replicate lvl None :: nat option list\<rparr>]"
  have R: "0 < n" "distinct (ps @ bs)" "set (ps @ bs) = {1..<n}" "linked h (as @ bs)" "height h 0 = maxLevel"
    using r unfolding sl_rep_def h_def n_def as_def by auto
  have u': "i < length upd" "upd ! i = Some (rightmost h i as)" if "i < lvl" for i
    using u [OF that] by (simp_all only: h_def as_def)
  have rt: "rightmost h i as \<in> set as" "i < height h (rightmost h i as)" "rightmost h i as < n" if i: "i < lvl" for i
  proof -
    have "0 \<in> set as" "i < height h 0" using R(5) lvl i by (auto simp: as_def)
    note m = rightmost_in [OF this]
    show "rightmost h i as \<in> set as" "i < height h (rightmost h i as)" by (rule m)+
    have "set as \<subseteq> {..<n}" using R(1,3) by (auto simp: as_def)
    with m(1) show "rightmost h i as < n" by blast
  qed
  have h0: "length h0 = Suc n" "\<And>b. b < n \<Longrightarrow> h0 ! b = h ! b"
    "h0 ! n = \<lparr>key = k, val = v, forward = replicate lvl None\<rparr>"
    by (simp_all add: h0_def n_def nth_append)
  have pre: "\<forall>i\<in>set [0..<lvl]. i < length upd \<and> upd ! i = Some (rightmost h i as) \<and> rightmost h i as < n \<and>
      i < height h0 (rightmost h i as) \<and> i < height h0 n"
    using u' rt h0 by simp
  obtain h' where lk: "link n upd [0..<lvl] h0 = Some h'" "length h' = Suc n"
    and same: "\<And>b. b < Suc n \<Longrightarrow> key (h' ! b) = key (h0 ! b) \<and> val (h' ! b) = val (h0 ! b) \<and> height h' b = height h0 b"
    and fw: "\<And>b j. b < Suc n \<Longrightarrow> j < height h0 b \<Longrightarrow> forward (h' ! b) ! j =
          (if j \<in> set [0..<lvl] then (if b = n then forward (h0 ! rightmost h j as) ! j else if b = rightmost h j as then Some n else forward (h0 ! b) ! j)
           else forward (h0 ! b) ! j)"
    using link_spec [OF distinct_upt _ pre] unfolding h0(1) by blast
  have "linked h' (as @ n # bs)"
  proof (rule linked_insert [where h = h and lvl = lvl and U = "\<lambda>i. rightmost h i as"])
    show "distinct (as @ bs)" "set (as @ bs) \<subseteq> {..<n}" using R(1-3) by (auto simp: as_def)
    show "forward (h' ! n) ! i = forward (h ! rightmost h i as) ! i" if "i < lvl" for i
      using fw [of n i] that rt(3) [OF that] h0(2,3) by simp
    show "forward (h' ! b) ! i = (if i < lvl \<and> b = rightmost h i as then Some n else forward (h ! b) ! i)"
      if "b < n" "i < height h b" for b i
      using fw [of b i] that h0(2) by simp
    show "height h' b = height h b" if "b < n" for b using same [of b] that h0(2) by simp
    show "rightmost h i as = rightmost h i as \<and> rightmost h i as \<in> set as \<and> i < height h (rightmost h i as)"
      if "i < lvl" for i using rt(1,2) [OF that] by blast
  qed (use R(4) lk(2) same [of n] h0(3) n_def in simp_all)
  then show ?thesis using lk same h0 unfolding h0_def as_def by auto
qed

lemma insert_rep:
  assumes r: "sl_rep sl (ps @ bs)" and n: "n = length (sl_heap sl)"
    and ps: "\<forall>a\<in>set ps. nkey (sl_heap sl) a < k" and bs: "\<forall>a\<in>set bs. k < nkey (sl_heap sl) a"
    and h': "length h' = Suc n" "linked h' (0 # ps @ n # bs)"
    and o: "\<And>b. b < n \<Longrightarrow> key (h' ! b) = key (sl_heap sl ! b) \<and> val (h' ! b) = val (sl_heap sl ! b) \<and>
               height h' b = height (sl_heap sl) b"
    and new: "key (h' ! n) = k" "val (h' ! n) = v" "height h' n = lvl" "1 \<le> lvl" "lvl \<le> maxLevel"
    and sl'_def: "sl' = sl\<lparr>sl_heap := h', sl_level := (if lvl > sl_level sl then lvl else sl_level sl),
       sl_count := sl_count sl + 1, sl_size := sl_size sl + int (length k) + vlen v + int lvl * 8 + 64\<rparr>"
  shows "sl_rep sl' (ps @ n # bs)"
proof -
  define h where "h = sl_heap sl"
  have R: "0 < n" "distinct (ps @ bs)" "set (ps @ bs) = {1..<n}" "sorted_wrt (<) (map (nkey h) (ps @ bs))"
    "height h 0 = maxLevel" "sl_level sl \<le> maxLevel"
    "\<forall>a\<in>set (ps @ bs). 1 \<le> height h a \<and> height h a \<le> sl_level sl"
    "sl_count sl = length (ps @ bs)" "sl_size sl = (\<Sum>a\<leftarrow>ps @ bs. node_size (h ! a))"
    using r unfolding sl_rep_def h_def n by auto
  have sub: "a \<in> set ps \<or> a \<in> set bs \<Longrightarrow> a < n" for a using R(3) by auto
  have mk: "map (nkey h') ps = map (nkey h) ps" "map (nkey h') bs = map (nkey h) bs"
    "map (\<lambda>a. node_size (h' ! a)) ps = map (\<lambda>a. node_size (h ! a)) ps"
    "map (\<lambda>a. node_size (h' ! a)) bs = map (\<lambda>a. node_size (h ! a)) bs"
    using o sub by (auto simp: node_size_def h_def)
  have srt: "sorted_wrt (<) (map (nkey h') (ps @ n # bs))"
    using R(4) mk(1,2) ps bs new(1) unfolding h_def by (rule sorted_map_insert)
  have sz: "(\<Sum>a\<leftarrow>ps @ n # bs. node_size (h' ! a)) = sl_size sl + int (length k) + vlen v + int lvl * 8 + 64"
    unfolding map_append list.map mk(3,4) R(9) sum_list_append sum_list.Cons
    using new(1-3) by (simp add: node_size_def)
  have ht: "\<forall>a\<in>set (ps @ n # bs). 1 \<le> height h' a \<and> height h' a \<le> sl_level sl'"
  proof
    fix a assume "a \<in> set (ps @ n # bs)"
    then consider "a = n" | "a \<in> set (ps @ bs)" "a < n" using sub by auto
    then show "1 \<le> height h' a \<and> height h' a \<le> sl_level sl'"
    proof cases
      case 2
      then have "height h' a = height h a" using o by (simp add: h_def)
      moreover have "1 \<le> height h a" "height h a \<le> sl_level sl" using 2 R(7) by blast+
      ultimately show ?thesis by (simp add: sl'_def)
    qed (use new in \<open>simp add: sl'_def\<close>)
  qed
  have fld: "sl_heap sl' = h'" "sl_count sl' = sl_count sl + 1" "sl_level sl' \<le> maxLevel"
    "sl_size sl' = sl_size sl + int (length k) + vlen v + int lvl * 8 + 64"
    using new(5) R(6) by (auto simp: sl'_def)
  have nn: "n \<notin> set (ps @ bs)" using R(3) by simp
  show ?thesis
    unfolding sl_rep_def fld(1) h'(1)
  proof (intro conjI)
    show "distinct (ps @ n # bs)" using nn R(2) by simp
    have "set (ps @ n # bs) = insert n (set (ps @ bs))" by auto
    also have "\<dots> = {1..<Suc n}" using R(1) unfolding R(3) by auto
    finally show "set (ps @ n # bs) = {1..<Suc n}" .
    show "height h' 0 = maxLevel" using o [of 0] R(1,5) by (simp add: h_def)
    show "sl_count sl' = length (ps @ n # bs)" using fld(2) R(8) by simp
    show "sl_size sl' = (\<Sum>a\<leftarrow>ps @ n # bs. node_size (h' ! a))" by (simp only: sz fld(4))
  qed (fact srt ht fld(3) h'(2) zero_less_Suc)+
qed

lemma SkipList_insert_rep:
  assumes r: "sl_rep sl (ps @ bs)"
    and ps: "\<forall>a\<in>set ps. nkey (sl_heap sl) a < k" and bs: "\<forall>a\<in>set bs. k < nkey (sl_heap sl) a"
    and ul: "length upd = maxLevel"
    and uv: "\<forall>i < sl_level sl. upd ! i = Some (rightmost (sl_heap sl) i (0 # ps))"
  shows "\<exists>sl'. SkipList_insert c sl k v upd = Some sl' \<and>
    sl_rep sl' (ps @ length (sl_heap sl) # bs) \<and>
    (\<forall>a<length (sl_heap sl). key (sl_heap sl' ! a) = key (sl_heap sl ! a) \<and> val (sl_heap sl' ! a) = val (sl_heap sl ! a)) \<and>
    key (sl_heap sl' ! length (sl_heap sl)) = k \<and> val (sl_heap sl' ! length (sl_heap sl)) = v"
proof -
  define lvl where "lvl = randomLevel c"
  have lvl: "1 \<le> lvl" "lvl \<le> maxLevel" using randomLevel_bounds by (auto simp: lvl_def)
  have cp: "copyBytes v = v" by (simp add: copyBytes_def split: option.splits)
  note u = insert_update [OF r lvl(2) ul uv]
  obtain h' where h': "link (length (sl_heap sl)) (if lvl > sl_level sl then raise_update (sl_level sl) lvl upd else upd)
      [0..<lvl] (sl_heap sl @ [\<lparr>key = k, val = v, forward = replicate lvl None\<rparr>]) = Some h'"
    "length h' = Suc (length (sl_heap sl))" "linked h' (0 # ps @ length (sl_heap sl) # bs)"
    "\<And>b. b < length (sl_heap sl) \<Longrightarrow> key (h' ! b) = key (sl_heap sl ! b) \<and> val (h' ! b) = val (sl_heap sl ! b) \<and>
       height h' b = height (sl_heap sl) b"
    "key (h' ! length (sl_heap sl)) = k" "val (h' ! length (sl_heap sl)) = v" "height h' (length (sl_heap sl)) = lvl"
    using insert_heap [OF r lvl(2) u, of k v] by blast
  define sl' where "sl' = sl\<lparr>sl_heap := h', sl_level := (if lvl > sl_level sl then lvl else sl_level sl),
     sl_count := sl_count sl + 1, sl_size := sl_size sl + int (length k) + vlen v + int lvl * 8 + 64\<rparr>"
  have "SkipList_insert c sl k v upd = Some sl'"
    unfolding SkipList_insert_def Let_def lvl_def [symmetric] cp h'(1) sl'_def by simp
  moreover have "sl_rep sl' (ps @ length (sl_heap sl) # bs)"
    by (rule insert_rep [OF r refl ps bs h'(2-7) lvl sl'_def])
  ultimately show ?thesis using h'(4-6) by (simp add: sl'_def)
qed

theorem SkipList_Put_spec:
  assumes "sl_inv sl"
  shows "\<exists>sl'. SkipList_Put c sl k v = Some sl' \<and> sl_inv sl' \<and>
           sl_entries sl' = assoc_put k v (sl_entries sl)"
proof -
  obtain ns where r: "sl_rep sl ns" using assms by (auto simp: sl_inv_iff)
  define h where "h = sl_heap sl"
  obtain upd where u: "descend_update h (sl_level sl) k 0 (replicate maxLevel None) = Some (last (0 # pre_k h k ns), upd)"
    "length upd = maxLevel" "\<forall>i < sl_level sl. upd ! i = Some (rightmost h i (0 # pre_k h k ns))"
    using search_spec(2) [OF r, of k] unfolding h_def by blast
  note f = search_spec(3) [OF r, of k, folded h_def]
  have srt: "sorted_wrt (<) (map (nkey h) ns)" and sn: "set ns = {1..<length h}"
    using r by (simp_all add: sl_rep_def h_def)
  have nsp: "pre_k h k ns @ post_k h k ns = ns" by simp
  show ?thesis
  proof (cases "\<exists>t ts. post_k h k ns = t # ts \<and> nkey h t = k")
    case True
    then obtain t ts where t: "post_k h k ns = t # ts" "nkey h t = k" by blast
    define sl' where "sl' = sl\<lparr>sl_size := sl_size sl + (vlen v - vlen (val (sl_heap sl ! t))),
                          sl_heap := (sl_heap sl)[t := (sl_heap sl ! t)\<lparr>val := v\<rparr>]\<rparr>"
    have tn: "t \<in> set ns" using t(1) by (metis list.set_intros(1) set_dropWhileD)
    have cp: "copyBytes v = v" by (simp add: copyBytes_def split: option.splits)
    have "SkipList_Put c sl k v = Some sl'"
      using u(1) f t unfolding SkipList_Put_def Let_def h_def sl'_def cp by simp
    moreover have r': "sl_rep sl' ns" by (rule SkipList_update_rep [OF r tn sl'_def])
    moreover have "sl_entries sl' = assoc_put k v (sl_entries sl)"
    proof -
      have tl: "t < length h" using tn sn by simp
      have dns: "t \<notin> set (pre_k h k ns) \<union> set ts"
        using r nsp t(1) by (metis (no_types, lifting) Un_iff disjoint_iff distinct.simps(2) distinct_append list.set_intros(1) sl_rep_def)
      have h': "sl_heap sl' = h[t := (h ! t)\<lparr>val := v\<rparr>]" by (simp add: sl'_def h_def)
      have oth: "a \<noteq> t \<Longrightarrow> sl_heap sl' ! a = h ! a" for a by (simp add: h')
      have "sl_entries sl' = map (\<lambda>a. (nkey (sl_heap sl') a, val (sl_heap sl' ! a))) (pre_k h k ns @ t # ts)"
        using sl_entries_rep [OF r'] nsp t(1) by simp
      also have "\<dots> = map (\<lambda>a. (nkey h a, val (h ! a))) (pre_k h k ns) @ (k, v) # map (\<lambda>a. (nkey h a, val (h ! a))) ts"
      proof -
        have "x \<in> set (pre_k h k ns) \<union> set ts \<Longrightarrow> sl_heap sl' ! x = h ! x" for x
          by (rule oth) (use dns in blast)
        then have "map (\<lambda>a. (nkey (sl_heap sl') a, val (sl_heap sl' ! a))) (pre_k h k ns) = map (\<lambda>a. (nkey h a, val (h ! a))) (pre_k h k ns)"
          "map (\<lambda>a. (nkey (sl_heap sl') a, val (sl_heap sl' ! a))) ts = map (\<lambda>a. (nkey h a, val (h ! a))) ts"
          by simp_all
        moreover have "nkey (sl_heap sl') t = k" "val (sl_heap sl' ! t) = v" using tl t(2) h' by simp_all
        ultimately show ?thesis by (simp only: map_append list.map)
      qed
      finally show ?thesis using put_entries_eq [OF r, of k v] t by (simp add: h_def)
    qed
    ultimately show ?thesis by (auto simp: sl_inv_iff)
  next
    case False
    have fr: "k \<notin> nkey h ` set ns"
    proof
      assume "k \<in> nkey h ` set ns"
      then obtain a where a: "a \<in> set ns" "nkey h a = k" by blast
      then have "a \<in> set (post_k h k ns)" using nsp
        by (metis Un_iff less_irrefl set_append set_takeWhileD)
      then obtain t ts where t: "post_k h k ns = t # ts" by (cases "post_k h k ns") auto
      have "sorted_wrt (<) (map (nkey h) (pre_k h k ns @ t # ts))" using srt nsp t by metis
      then have "\<forall>b\<in>set ts. nkey h t < nkey h b" by (simp add: sorted_wrt_append)
      moreover have "k \<le> nkey h t" using post_ge [OF srt, of t k] t by simp
      ultimately have "a = t" using a \<open>a \<in> set (post_k h k ns)\<close> t by fastforce
      with a(2) t False show False by blast
    qed
    let ?n = "length h"
    have kp: "\<forall>a\<in>set (pre_k h k ns). nkey h a < k" by (auto dest: set_takeWhileD)
    have kb: "\<forall>a\<in>set (post_k h k ns). k < nkey h a"
    proof
      fix a assume a: "a \<in> set (post_k h k ns)"
      then have "nkey h a \<noteq> k" using fr set_dropWhileD [OF a] by blast
      with post_ge [OF srt a] show "k < nkey h a" by simp
    qed
    have r2: "sl_rep sl (pre_k h k ns @ post_k h k ns)" using r by (simp only: nsp)
    obtain sl' where i: "SkipList_insert c sl k v upd = Some sl'"
      "sl_rep sl' (pre_k h k ns @ ?n # post_k h k ns)"
      "\<forall>a<?n. key (sl_heap sl' ! a) = key (h ! a) \<and> val (sl_heap sl' ! a) = val (h ! a)"
      "key (sl_heap sl' ! ?n) = k" "val (sl_heap sl' ! ?n) = v"
      using SkipList_insert_rep [OF r2 [unfolded h_def] kp [unfolded h_def] kb [unfolded h_def] u(2,3) [unfolded h_def], of c v]
      unfolding h_def by blast
    have "SkipList_Put c sl k v = SkipList_insert c sl k v upd"
      using u(1) f False unfolding SkipList_Put_def Let_def h_def
      by (cases "post_k (sl_heap sl) k ns") auto
    moreover have "sl_entries sl' = assoc_put k v (sl_entries sl)"
    proof -
      have m: "map (\<lambda>a. (nkey (sl_heap sl') a, val (sl_heap sl' ! a))) xs = map (\<lambda>a. (nkey h a, val (h ! a))) xs"
        if "set xs \<subseteq> set ns" for xs using that i(3) sn by auto
      have "set (pre_k h k ns) \<subseteq> set ns" "set (post_k h k ns) \<subseteq> set ns"
        by (auto dest: set_takeWhileD set_dropWhileD)
      note mm = m [OF this(1)] m [OF this(2)]
      have "sl_entries sl' = map (\<lambda>a. (nkey h a, val (h ! a))) (pre_k h k ns) @ (k, v) # map (\<lambda>a. (nkey h a, val (h ! a))) (post_k h k ns)"
        unfolding sl_entries_rep [OF i(2)] map_append list.map mm i(4,5) ..
      moreover have "(case post_k h k ns of [] \<Rightarrow> [] | t # ts \<Rightarrow> if nkey h t = k then ts else t # ts) = post_k h k ns"
      proof (cases "post_k h k ns")
        case Nil
        then show ?thesis by (simp only: list.case)
      qed (use False in auto)
      ultimately show ?thesis using put_entries_eq [OF r, of k v] unfolding h_def by simp
    qed
    ultimately show ?thesis using i(1,2) by (auto simp: sl_inv_iff)
  qed
qed

lemma SkipList_Delete_spec:
  assumes "sl_inv sl"
  shows "\<exists>sl'. SkipList_Delete c sl k = Some sl' \<and> sl_inv sl' \<and>
           sl_entries sl' = assoc_put k None (sl_entries sl)"
  unfolding SkipList_Delete_def by (rule SkipList_Put_spec [OF assms])

lemma SkipList_Len_entries: "sl_inv sl \<Longrightarrow> SkipList_Len sl = length (sl_entries sl)"
  by (auto simp: sl_inv_def sl_rep_def SkipList_Len_def sl_entries_def)

lemma vlen_nonneg [simp]: "0 \<le> vlen v"
  by (simp add: vlen_def split: option.splits)

lemma node_size_pos: "64 \<le> node_size nd"
  by (simp add: node_size_def)

text \<open>The approximate size is at least 64 bytes per entry, so a non-empty list has positive size.\<close>

lemma SkipList_Size_lower:
  assumes "sl_inv sl" shows "64 * int (length (sl_entries sl)) \<le> SkipList_Size sl"
proof -
  have "64 * int (length ns) \<le> (\<Sum>a\<leftarrow>ns. node_size (h ! a))" for ns :: "nat list" and h
    by (induction ns) (use node_size_pos in \<open>auto simp: algebra_simps add_mono\<close>)
  then show ?thesis using assms
    by (simp add: sl_inv_def sl_rep_def SkipList_Size_def sl_entries_def)
qed

subsection \<open>The iterator\<close>

text \<open>The entries the iterator has still to deliver, the current one first.\<close>

definition sli_rest :: "SLIterator \<Rightarrow> bytes option entries" where
  "sli_rest it =
     map (\<lambda>a. (nkey (sl_heap (it_list it)) a, val (sl_heap (it_list it) ! a)))
       (case it_current it of
          None \<Rightarrow> []
        | Some a \<Rightarrow> dropWhile (\<lambda>b. b \<noteq> a) (sl_nodes (it_list it)))"

definition sli_inv :: "SLIterator \<Rightarrow> bool" where
  "sli_inv it \<longleftrightarrow> sl_inv (it_list it) \<and>
     (case it_current it of None \<Rightarrow> True | Some a \<Rightarrow> a \<in> set (sl_nodes (it_list it)))"

lemma dropWhile_neq: "distinct (xs @ a # ys) \<Longrightarrow> dropWhile (\<lambda>b. b \<noteq> a) (xs @ a # ys) = a # ys"
  by (induction xs) auto

lemma sli_rest_at:
  assumes "sl_rep (it_list it) (xs @ ys)" "it_current it = (case ys of [] \<Rightarrow> None | a # _ \<Rightarrow> Some a)"
  shows "sli_inv it \<and>
    sli_rest it = map (\<lambda>a. (nkey (sl_heap (it_list it)) a, val (sl_heap (it_list it) ! a))) ys"
proof (cases ys)
  case Nil
  then show ?thesis using assms by (auto simp: sli_inv_def sli_rest_def sl_inv_iff)
next
  case (Cons a as)
  have "distinct (xs @ a # as)" using assms(1) Cons by (simp add: sl_rep_def)
  note dw = dropWhile_neq [OF this]
  show ?thesis
    using assms Cons dw by (auto simp: sli_inv_def sli_rest_def sl_rep_nodes sl_inv_iff)
qed

lemma sli_inv_split:
  assumes "sli_inv it"
  obtains xs ys where "sl_rep (it_list it) (xs @ ys)" "it_current it = (case ys of [] \<Rightarrow> None | a # _ \<Rightarrow> Some a)"
proof (cases "it_current it")
  case None
  then show ?thesis using assms that [of "sl_nodes (it_list it)" "[]"] by (simp add: sli_inv_def sl_inv_def)
next
  case (Some a)
  then obtain xs ys where "sl_nodes (it_list it) = xs @ a # ys"
    using assms split_list [of a "sl_nodes (it_list it)"] by (auto simp: sli_inv_def)
  then show ?thesis using assms Some that [of xs "a # ys"] by (simp add: sli_inv_def sl_inv_def)
qed

lemma sli_NewIterator: "sl_inv sl \<Longrightarrow> sli_inv (SkipList_NewIterator sl) \<and> sli_rest (SkipList_NewIterator sl) = []"
  by (simp add: sli_inv_def sli_rest_def SkipList_NewIterator_def)

lemma SLIterator_SeekToFirst_spec:
  assumes "sli_inv it"
  shows "\<exists>it'. SLIterator_SeekToFirst it = Some it' \<and> sli_inv it' \<and> it_list it' = it_list it \<and>
           sli_rest it' = sl_entries (it_list it)"
proof -
  obtain ns where r: "sl_rep (it_list it) ns" using assms by (auto simp: sli_inv_def sl_inv_iff)
  have "fwd (sl_heap (it_list it)) 0 0 = Some (find (\<lambda>b. 0 < height (sl_heap (it_list it)) b) ns)"
    by (rule linked_fwd [of _ "[]"]) (use r in \<open>simp_all add: sl_rep_def maxLevel_def\<close>)
  also have "find (\<lambda>b. 0 < height (sl_heap (it_list it)) b) ns = (case ns of [] \<Rightarrow> None | t # _ \<Rightarrow> Some t)"
    by (rule find_first) (use r in \<open>auto simp: sl_rep_def\<close>)
  finally show ?thesis
    using sli_rest_at [of "it\<lparr>it_current := (case ns of [] \<Rightarrow> None | t # _ \<Rightarrow> Some t)\<rparr>" "[]" ns] r
    by (simp add: SLIterator_SeekToFirst_def sl_entries_rep [OF r])
qed

lemma SLIterator_Seek_spec:
  assumes "sli_inv it"
  shows "\<exists>it'. SLIterator_Seek it k = Some it' \<and> sli_inv it' \<and> it_list it' = it_list it \<and>
           sli_rest it' = dropWhile (\<lambda>e. fst e < k) (sl_entries (it_list it))"
proof -
  obtain ns where r: "sl_rep (it_list it) ns" using assms by (auto simp: sli_inv_def sl_inv_iff)
  let ?h = "sl_heap (it_list it)"
  have r2: "sl_rep (it_list it) (pre_k ?h k ns @ post_k ?h k ns)" using r by simp
  show ?thesis
    using search_spec(1,3) [OF r, of k]
      sli_rest_at [of "it\<lparr>it_current := (case post_k ?h k ns of [] \<Rightarrow> None | t # _ \<Rightarrow> Some t)\<rparr>"
        "pre_k ?h k ns" "post_k ?h k ns"] r2
    by (auto simp: SLIterator_Seek_def sl_entries_rep [OF r] dropWhile_map comp_def simp del: takeWhile_dropWhile_id)
qed

lemma SLIterator_Next_spec:
  assumes "sli_inv it"
  shows "\<exists>it'. SLIterator_Next it = Some it' \<and> sli_inv it' \<and> it_list it' = it_list it \<and>
           sli_rest it' = tl (sli_rest it)"
proof -
  obtain xs ys where r: "sl_rep (it_list it) (xs @ ys)"
    and c: "it_current it = (case ys of [] \<Rightarrow> None | a # _ \<Rightarrow> Some a)"
    using assms by (rule sli_inv_split)
  note rest = sli_rest_at [OF r c]
  show ?thesis
  proof (cases ys)
    case Nil
    then show ?thesis using c rest by (simp add: SLIterator_Next_def)
  next
    case (Cons a as)
    let ?h = "sl_heap (it_list it)"
    have l: "linked ?h ((0 # xs) @ a # as)" and t: "\<forall>b\<in>set (xs @ a # as). 1 \<le> height ?h b"
      using r Cons by (auto simp: sl_rep_def simp del: linked.simps)
    have "0 < height ?h a" using bspec [OF t, of a] by (simp add: Suc_le_eq)
    from linked_fwd [OF l this] have "fwd ?h a 0 = Some (case as of [] \<Rightarrow> None | t # _ \<Rightarrow> Some t)"
      using find_first [of as ?h] t by simp
    then show ?thesis
      using Cons c rest r sli_rest_at [of "it\<lparr>it_current := (case as of [] \<Rightarrow> None | t # _ \<Rightarrow> Some t)\<rparr>" "xs @ [a]" as]
      by (simp add: SLIterator_Next_def)
  qed
qed

lemma SLIterator_observers:
  assumes "sli_inv it"
  shows "SLIterator_Valid it \<longleftrightarrow> sli_rest it \<noteq> []"
    and "sli_rest it = (k, v) # es \<Longrightarrow>
           SLIterator_Key it = Some k \<and> SLIterator_Value it = v \<and> (SLIterator_IsTombstone it \<longleftrightarrow> v = None)"
proof -
  obtain xs ys where r: "sl_rep (it_list it) (xs @ ys)"
    and c: "it_current it = (case ys of [] \<Rightarrow> None | a # _ \<Rightarrow> Some a)"
    using assms by (rule sli_inv_split)
  note rest = sli_rest_at [OF r c]
  show "SLIterator_Valid it \<longleftrightarrow> sli_rest it \<noteq> []"
    using rest c by (cases ys) (simp_all add: SLIterator_Valid_def)
  show "sli_rest it = (k, v) # es \<Longrightarrow>
           SLIterator_Key it = Some k \<and> SLIterator_Value it = v \<and> (SLIterator_IsTombstone it \<longleftrightarrow> v = None)"
    using rest c by (cases ys) (auto simp: SLIterator_Key_def SLIterator_Value_def SLIterator_IsTombstone_def)
qed

text \<open>The loop \<open>for it.Valid() { ...; it.Next() }\<close>, bounded by \<open>n\<close> rounds.\<close>

fun sli_collect :: "nat \<Rightarrow> SLIterator \<Rightarrow> (bytes option \<times> bytes option) list option" where
  "sli_collect 0 it = (if SLIterator_Valid it then None else Some [])"
| "sli_collect (Suc n) it =
     (if \<not> SLIterator_Valid it then Some []
      else case SLIterator_Next it of
             None \<Rightarrow> None
           | Some it' \<Rightarrow> map_option ((#) (SLIterator_Key it, SLIterator_Value it)) (sli_collect n it'))"

lemma sli_collect_rest:
  "sli_inv it \<Longrightarrow> length (sli_rest it) \<le> n \<Longrightarrow>
   sli_collect n it = Some (map (\<lambda>(k, v). (Some k, v)) (sli_rest it))"
proof (induction n arbitrary: it)
  case 0
  then show ?case using SLIterator_observers(1) [of it] by simp
next
  case (Suc n)
  show ?case
  proof (cases "sli_rest it")
    case Nil
    then show ?thesis using SLIterator_observers(1) [of it] Suc.prems by simp
  next
    case (Cons e es)
    obtain k v where e: "e = (k, v)" by (cases e)
    obtain it' where it': "SLIterator_Next it = Some it'" "sli_inv it'" "sli_rest it' = es"
      using SLIterator_Next_spec [OF Suc.prems(1)] Cons by auto
    have "sli_collect n it' = Some (map (\<lambda>(k, v). (Some k, v)) es)"
      using Suc.IH [OF it'(2)] Suc.prems it' Cons by simp
    then show ?thesis using it' Cons e SLIterator_observers [OF Suc.prems(1)] by simp
  qed
qed

subsection \<open>Properties\<close>

text \<open>C31. On a list that satisfies the invariant, seeking to a key and iterating to the end visits
  exactly the entries with keys not below it, in strictly increasing order of keys, in at most
  \<open>Len\<close> steps and without a nil dereference.\<close>

theorem skiplist_seek_scan:
  assumes "sl_inv s"
  shows "\<exists>it. SLIterator_Seek (SkipList_NewIterator s) k = Some it \<and>
    sli_collect (SkipList_Len s) it = Some (map (\<lambda>(k, v). (Some k, v)) (filter (\<lambda>e. k \<le> fst e) (sl_entries s))) \<and>
    ksorted (sl_entries s)"
proof -
  obtain it where it: "SLIterator_Seek (SkipList_NewIterator s) k = Some it" "sli_inv it"
    "sli_rest it = dropWhile (\<lambda>e. fst e < k) (sl_entries s)"
    using SLIterator_Seek_spec [of "SkipList_NewIterator s" k] sli_NewIterator [OF assms]
    by (auto simp: SkipList_NewIterator_def)
  have srt: "ksorted (sl_entries s)" by (rule ksorted_entries [OF assms])
  have "sli_rest it = filter (\<lambda>e. k \<le> fst e) (sl_entries s)" using it(3) dropWhile_ksorted [OF srt] by simp
  moreover from this have "length (sli_rest it) \<le> SkipList_Len s"
    by (simp add: SkipList_Len_entries [OF assms])
  ultimately show ?thesis using sli_collect_rest [OF it(2)] it(1) srt by auto
qed

theorem skiplist_seek_scan_witness:
  "\<exists>s it. SkipList_Put (\<lambda>_. True) NewSkipList [1] (Some [2]) = Some s \<and>
     SLIterator_Seek (SkipList_NewIterator s) [0] = Some it \<and>
     sli_collect (SkipList_Len s) it = Some [(Some [1], Some [2])]"
proof -
  obtain s where s: "SkipList_Put (\<lambda>_. True) NewSkipList [1] (Some [2]) = Some s" "sl_inv s" "sl_entries s = [([1], Some [2])]"
    using SkipList_Put_spec [OF NewSkipList_inv, of "\<lambda>_. True" "[1]" "Some [2]"] by auto
  then show ?thesis using skiplist_seek_scan [of s "[0]"] by auto
qed

end
