(* ===== verification/Memtable.thy ===== *)
theory Memtable
  imports Skiplist
begin

text \<open>
  \<open>memtable/memtable.go\<close>: the skip list behind a frozen flag and a size threshold. The mutex makes
  each operation atomic, so an operation is a function on the record. The locale
  \<open>memtable_spec\<close> is the contract the engine relies on; it is interpreted on the operations below.
\<close>

record Memtable =
  sl :: SkipList
  maxSize :: int
  frozen :: bool

definition defaultMaxSize :: int where
  "defaultMaxSize = 4 * 1024 * 1024"

definition ErrFrozen :: string where
  "ErrFrozen = ''memtable is frozen''"

definition NewMemtable :: "int \<Rightarrow> Memtable" where
  "NewMemtable ms = \<lparr>sl = NewSkipList, maxSize = (if ms \<le> 0 then defaultMaxSize else ms), frozen = False\<rparr>"

definition Memtable_Put :: "coins \<Rightarrow> Memtable \<Rightarrow> bytes \<Rightarrow> bytes option \<Rightarrow> Memtable res" where
  "Memtable_Put c m k v =
     (if frozen m then Err ErrFrozen
      else case SkipList_Put c (sl m) k v of None \<Rightarrow> Panic | Some s \<Rightarrow> Ok (m\<lparr>sl := s\<rparr>))"

text \<open>The triple \<open>(value, found, tombstone)\<close>.\<close>

definition Memtable_Get :: "Memtable \<Rightarrow> bytes \<Rightarrow> (bytes option \<times> bool \<times> bool) res" where
  "Memtable_Get m k =
     (case SkipList_Get (sl m) k of
        None \<Rightarrow> Panic
      | Some (v, ok) \<Rightarrow> if \<not> ok then Ok (None, False, False) else Ok (v, True, v = None))"

definition Memtable_Delete :: "coins \<Rightarrow> Memtable \<Rightarrow> bytes \<Rightarrow> Memtable res" where
  "Memtable_Delete c m k =
     (if frozen m then Err ErrFrozen
      else case SkipList_Delete c (sl m) k of None \<Rightarrow> Panic | Some s \<Rightarrow> Ok (m\<lparr>sl := s\<rparr>))"

definition Memtable_ShouldFlush :: "Memtable \<Rightarrow> bool" where
  "Memtable_ShouldFlush m \<longleftrightarrow> SkipList_Size (sl m) \<ge> maxSize m"

definition Memtable_Freeze :: "Memtable \<Rightarrow> Memtable" where
  "Memtable_Freeze m = m\<lparr>frozen := True\<rparr>"

definition Memtable_IsFrozen :: "Memtable \<Rightarrow> bool" where
  "Memtable_IsFrozen m = frozen m"

definition Memtable_NewIterator :: "Memtable \<Rightarrow> SLIterator" where
  "Memtable_NewIterator m = SkipList_NewIterator (sl m)"

definition Memtable_ApproximateSize :: "Memtable \<Rightarrow> int" where
  "Memtable_ApproximateSize m = SkipList_Size (sl m)"

subsection \<open>Invariant and abstraction\<close>

definition mem_inv :: "Memtable \<Rightarrow> bool" where
  "mem_inv m \<longleftrightarrow> sl_inv (sl m) \<and> 0 < maxSize m"

definition mem_entries :: "Memtable \<Rightarrow> bytes option entries" where
  "mem_entries m = sl_entries (sl m)"

text \<open>A loop over writes, the value \<open>None\<close> standing for a deletion; the \<open>i\<close>-th write draws its level
  from \<open>rs i\<close>.\<close>

fun apply_writes :: "(coins \<Rightarrow> 'm \<Rightarrow> bytes \<Rightarrow> bytes option \<Rightarrow> 'm res) \<Rightarrow> (coins \<Rightarrow> 'm \<Rightarrow> bytes \<Rightarrow> 'm res) \<Rightarrow>
    (nat \<Rightarrow> coins) \<Rightarrow> 'm \<Rightarrow> (bytes \<times> bytes option) list \<Rightarrow> 'm res" where
  "apply_writes put del rs m [] = Ok m"
| "apply_writes put del rs m ((k, v) # ws) =
     res_bind (case v of None \<Rightarrow> del (rs 0) m k | Some b \<Rightarrow> put (rs 0) m k v)
       (\<lambda>m'. apply_writes put del (\<lambda>i. rs (Suc i)) m' ws)"

subsection \<open>The contract\<close>

locale memtable_spec =
  fixes put :: "coins \<Rightarrow> 'm \<Rightarrow> bytes \<Rightarrow> bytes option \<Rightarrow> 'm res"
    and get :: "'m \<Rightarrow> bytes \<Rightarrow> (bytes option \<times> bool \<times> bool) res"
    and del :: "coins \<Rightarrow> 'm \<Rightarrow> bytes \<Rightarrow> 'm res"
    and freeze :: "'m \<Rightarrow> 'm"
    and is_frozen :: "'m \<Rightarrow> bool"
    and inv :: "'m \<Rightarrow> bool"
    and ents :: "'m \<Rightarrow> bytes option entries"
  assumes put_frozen: "is_frozen m \<Longrightarrow> put c m k v = Err ErrFrozen"
    and put_ok: "inv m \<Longrightarrow> \<not> is_frozen m \<Longrightarrow>
      \<exists>m'. put c m k v = Ok m' \<and> inv m' \<and> \<not> is_frozen m' \<and> ents m' = assoc_put k v (ents m)"
    and del_put: "del c m k = put c m k None"
    and get_ok: "inv m \<Longrightarrow> get m k =
      Ok (case map_of (ents m) k of None \<Rightarrow> (None, False, False) | Some v \<Rightarrow> (v, True, v = None))"
    and ents_sorted: "inv m \<Longrightarrow> ksorted (ents m)"
    and freeze_ok: "inv m \<Longrightarrow> inv (freeze m) \<and> is_frozen (freeze m) \<and> ents (freeze m) = ents m"
begin

lemma apply_writes_ok:
  assumes "inv m" "\<not> is_frozen m"
  shows "\<exists>m'. apply_writes put del rs m ws = Ok m' \<and> inv m' \<and> \<not> is_frozen m' \<and>
    ents m' = fold (\<lambda>(k, v). assoc_put k v) ws (ents m)"
  using assms
proof (induction ws arbitrary: rs m)
  case (Cons w ws)
  obtain k v where w: "w = (k, v)" by (cases w)
  obtain m1 where m1: "put (rs 0) m k v = Ok m1" "inv m1" "\<not> is_frozen m1" "ents m1 = assoc_put k v (ents m)"
    using put_ok [OF Cons.prems, of "rs 0" k v] by blast
  have "(case v of None \<Rightarrow> del (rs 0) m k | Some b \<Rightarrow> put (rs 0) m k v) = Ok m1"
    using m1(1) by (cases v) (simp_all add: del_put)
  with Cons.IH [OF m1(2,3), of "\<lambda>i. rs (Suc i)"] m1(4) w show ?case by auto
qed simp

lemma get_after_put:
  assumes "inv m" "put c m k v = Ok m'"
  shows "get m' k' = (if k' = k then Ok (v, True, v = None) else get m k')"
proof -
  have nf: "\<not> is_frozen m" using assms(2) put_frozen by fastforce
  obtain m1 where "put c m k v = Ok m1" "inv m1" "ents m1 = assoc_put k v (ents m)"
    using put_ok [OF assms(1) nf, of c k v] by blast
  with assms show ?thesis by (simp add: get_ok map_of_assoc_put [OF ents_sorted])
qed

end

lemma map_of_fold_assoc_put:
  "ksorted es \<Longrightarrow> ksorted (fold (\<lambda>(k, v). assoc_put k v) ws es) \<and>
   map_of (fold (\<lambda>(k, v). assoc_put k v) ws es) = map_of es ++ map_of (rev ws)"
  by (induction ws arbitrary: es) (auto simp: map_of_assoc_put)

interpretation mem: memtable_spec Memtable_Put Memtable_Get Memtable_Delete Memtable_Freeze
    Memtable_IsFrozen mem_inv mem_entries
proof
  fix c m k v assume "mem_inv m" "\<not> Memtable_IsFrozen m"
  then show "\<exists>m'. Memtable_Put c m k v = Ok m' \<and> mem_inv m' \<and> \<not> Memtable_IsFrozen m' \<and>
      mem_entries m' = assoc_put k v (mem_entries m)"
    using SkipList_Put_spec [of "sl m" c k v]
    by (auto simp: Memtable_Put_def mem_inv_def mem_entries_def Memtable_IsFrozen_def)
next
  fix m k assume "mem_inv m"
  then show "Memtable_Get m k =
      Ok (case map_of (mem_entries m) k of None \<Rightarrow> (None, False, False) | Some v \<Rightarrow> (v, True, v = None))"
    by (simp add: Memtable_Get_def mem_inv_def mem_entries_def SkipList_Get_spec split: option.splits)
qed (auto simp: Memtable_Put_def Memtable_Delete_def Memtable_IsFrozen_def Memtable_Freeze_def
      SkipList_Delete_def mem_inv_def mem_entries_def ksorted_entries)

lemma NewMemtable_inv [simp]:
  "mem_inv (NewMemtable ms)" "mem_entries (NewMemtable ms) = []" "\<not> frozen (NewMemtable ms)"
  by (simp_all add: NewMemtable_def mem_inv_def mem_entries_def defaultMaxSize_def)

lemma mem_put_keeps: "Memtable_Put c m k v = Ok m' \<Longrightarrow> maxSize m' = maxSize m"
  by (auto simp: Memtable_Put_def split: if_splits option.splits)

subsection \<open>Properties\<close>

text \<open>C30. Any sequence of writes (a put, or a deletion where the value is nil) to a fresh memtable
  succeeds, whatever levels the random generator draws, and then \<open>Get\<close> returns for every key its last
  write: the value, or found with the tombstone flag, or not found when it was never written.\<close>

theorem memtable_refines_map:
  "\<exists>m. apply_writes Memtable_Put Memtable_Delete rs (NewMemtable ms) ws = Ok m \<and>
     (\<forall>k. Memtable_Get m k = Ok (case map_of (rev ws) k of
            None \<Rightarrow> (None, False, False) | Some v \<Rightarrow> (v, True, v = None)))"
proof -
  obtain m where m: "apply_writes Memtable_Put Memtable_Delete rs (NewMemtable ms) ws = Ok m" "mem_inv m"
    "mem_entries m = fold (\<lambda>(k, v). assoc_put k v) ws []"
    using mem.apply_writes_ok [of "NewMemtable ms" rs ws] by (auto simp: Memtable_IsFrozen_def)
  have "map_of (mem_entries m) = map_of (rev ws)"
    using map_of_fold_assoc_put [of "[]" ws] m(3) by simp
  then show ?thesis using m(1) mem.get_ok [OF m(2)] by auto
qed

end
