(* ===== verification/Bloom.thy ===== *)
theory Bloom
  imports Checksum
begin

text \<open>
  The Bloom filter of \<open>sstable/bloom.go\<close>, with its 32-bit arithmetic: the bit index wraps as in the
  source, a division by zero and an index out of range are panics. The lemmas show that a filter
  made by \<open>NewBloomFilter\<close> never panics and never denies a key that was added, and that it survives
  encoding and decoding.
\<close>

record BloomFilter =
  bf_bits :: bytes
  bf_m :: "32 word"
  bf_k :: "32 word"

text \<open>\<open>uint32(float64(bitsPerKey) * 0.693)\<close>: exact for every count below 1000, and larger ones are
  clamped to 30 in any case.\<close>

definition bloom_k :: "int \<Rightarrow> 32 word" where
  "bloom_k bitsPerKey =
     (let k = bitsPerKey * 693 div 1000 in if k < 1 then 1 else if k > 30 then 30 else of_int k)"

definition bloom_numBytes :: "32 word \<Rightarrow> 32 word" where
  "bloom_numBytes m = (m + 7) div 8"

definition NewBloomFilter :: "int \<Rightarrow> int \<Rightarrow> BloomFilter" where
  "NewBloomFilter numKeys bitsPerKey =
     (let b = (if bitsPerKey \<le> 0 then 10 else bitsPerKey);
          n = (if numKeys < 1 then 1 else numKeys);
          m0 = (of_int (n * b) :: 32 word);
          m = (if m0 < 8 then 8 else m0)
      in \<lparr>bf_bits = replicate (unat (bloom_numBytes m)) 0, bf_m = m, bf_k = bloom_k b\<rparr>)"

definition bloomHashes :: "bytes \<Rightarrow> 32 word \<times> 32 word" where
  "bloomHashes k = (fnv32a k, ucast (drop_bit 32 (fnv64a k)))"

text \<open>One round of the loop of \<open>Add\<close>.\<close>

definition bloom_set :: "32 word \<Rightarrow> 32 word \<Rightarrow> BloomFilter \<Rightarrow> nat \<Rightarrow> BloomFilter res" where
  "bloom_set h1 h2 bf i =
     (if bf_m bf = 0 then Panic
      else let b = (h1 + of_nat i * h2) mod bf_m bf; j = unat (b div 8)
           in if j < length (bf_bits bf)
              then Ok (bf\<lparr>bf_bits := (bf_bits bf)[j := bf_bits bf ! j OR push_bit (unat (b mod 8)) 1]\<rparr>)
              else Panic)"

definition BloomFilter_Add :: "BloomFilter \<Rightarrow> bytes \<Rightarrow> BloomFilter res" where
  "BloomFilter_Add bf k =
     (case bloomHashes k of (h1, h2) \<Rightarrow> fold_res (bloom_set h1 h2) bf [0..<unat (bf_k bf)])"

text \<open>The loop of \<open>MayContain\<close>, which returns at the first bit that is clear.\<close>

fun bloom_test :: "32 word \<Rightarrow> 32 word \<Rightarrow> BloomFilter \<Rightarrow> nat list \<Rightarrow> bool res" where
  "bloom_test h1 h2 bf [] = Ok True"
| "bloom_test h1 h2 bf (i # is) =
     (if bf_m bf = 0 then Panic
      else let b = (h1 + of_nat i * h2) mod bf_m bf; j = unat (b div 8)
           in if j < length (bf_bits bf)
              then if bf_bits bf ! j AND push_bit (unat (b mod 8)) 1 = 0 then Ok False
                   else bloom_test h1 h2 bf is
              else Panic)"

definition BloomFilter_MayContain :: "BloomFilter \<Rightarrow> bytes \<Rightarrow> bool res" where
  "BloomFilter_MayContain bf k =
     (case bloomHashes k of (h1, h2) \<Rightarrow> bloom_test h1 h2 bf [0..<unat (bf_k bf)])"

definition BloomFilter_Encode :: "BloomFilter \<Rightarrow> bytes" where
  "BloomFilter_Encode bf = PutUint32 (bf_m bf) @ PutUint32 (bf_k bf) @ bf_bits bf"

definition DecodeBloomFilter :: "bytes \<Rightarrow> BloomFilter res" where
  "DecodeBloomFilter data =
     (if length data < 8 then Err ''bloom filter data too short''
      else let m = Uint32 (take 4 data); k = Uint32 (take 4 (drop 4 data));
               numBytes = bloom_numBytes m
           in if (of_nat (length data - 8) :: 32 word) < numBytes then Err ''bloom filter data truncated''
              else res_bind (slice data 8 (8 + unat numBytes))
                     (\<lambda>b. Ok \<lparr>bf_bits = b, bf_m = m, bf_k = k\<rparr>))"

subsection \<open>Well-formed filters\<close>

definition bloom_wf :: "BloomFilter \<Rightarrow> bool" where
  "bloom_wf bf \<longleftrightarrow> bf_m bf \<noteq> 0 \<and> unat (bf_m bf) + 7 < 2 ^ 32 \<and>
     length (bf_bits bf) = unat (bloom_numBytes (bf_m bf))"

lemma unat_numBytes: "unat m + 7 < 2 ^ 32 \<Longrightarrow> unat (bloom_numBytes m) = (unat m + 7) div 8"
proof -
  assume "unat m + 7 < 2 ^ 32"
  then have "unat (m + 7) = unat m + 7" by (subst unat_add_lem [THEN iffD1]) auto
  then show ?thesis by (simp add: bloom_numBytes_def unat_div)
qed

lemma bloom_index:
  assumes "bloom_wf bf" shows "unat ((h mod bf_m bf) div 8) < length (bf_bits bf)"
proof -
  have "0 < unat (bf_m bf)" using assms by (simp add: bloom_wf_def unat_gt_0)
  then have "unat (h mod bf_m bf) < unat (bf_m bf)" by (simp add: unat_mod)
  then have "unat (h mod bf_m bf) div 8 < (unat (bf_m bf) + 7) div 8" by linarith
  then show ?thesis using assms by (simp add: bloom_wf_def unat_numBytes unat_div)
qed

lemma NewBloomFilter_wf:
  assumes "0 \<le> n" "0 < b" "n * b + b + 7 < 2 ^ 32" shows "bloom_wf (NewBloomFilter n b)"
proof -
  define x where "x = (if n < 1 then 1 else n) * b"
  have x: "0 < x" "x + 7 < 2 ^ 32"
    using assms by (auto simp: x_def) (smt (verit) mult_nonneg_nonneg)
  then have "unat (of_int x :: 32 word) = nat x"
    by (simp add: unat_eq_nat_uint uint_word_of_int take_bit_int_eq_self)
  then have m: "unat (if (of_int x :: 32 word) < 8 then 8 else of_int x :: 32 word) = (if x < 8 then 8 else nat x)"
    by (auto simp: word_less_nat_alt)
  have "(if (of_int x :: 32 word) < 8 then 8 else of_int x :: 32 word) \<noteq> 0" by (auto simp: word_less_nat_alt)
  then show ?thesis using m x assms by (auto simp: bloom_wf_def NewBloomFilter_def Let_def x_def)
qed

subsection \<open>No false negatives\<close>

definition bloom_has :: "BloomFilter \<Rightarrow> 32 word \<Rightarrow> bool" where
  "bloom_has bf b \<longleftrightarrow> bit (bf_bits bf ! unat (b div 8)) (unat (b mod 8))"

lemma bloom_set_spec:
  assumes "bloom_wf bf"
  shows "\<exists>bf'. bloom_set h1 h2 bf i = Ok bf' \<and> bloom_wf bf' \<and> bf_m bf' = bf_m bf \<and> bf_k bf' = bf_k bf \<and>
    bloom_has bf' ((h1 + of_nat i * h2) mod bf_m bf) \<and> (\<forall>b. bloom_has bf (b mod bf_m bf) \<longrightarrow> bloom_has bf' (b mod bf_m bf))"
proof -
  let ?b = "(h1 + of_nat i * h2) mod bf_m bf"
  note idx = bloom_index [OF assms]
  have lt8: "unat (b mod 8) < 8" for b :: "32 word" by (simp add: unat_mod)
  show ?thesis using assms idx [of "h1 + of_nat i * h2"] lt8 [of ?b] idx
    by (auto simp: bloom_set_def bloom_wf_def bloom_has_def Let_def bit_simps nth_list_update)
qed

lemma bloom_sets_spec:
  assumes "bloom_wf bf"
  shows "\<exists>bf'. fold_res (bloom_set h1 h2) bf is = Ok bf' \<and> bloom_wf bf' \<and> bf_m bf' = bf_m bf \<and> bf_k bf' = bf_k bf \<and>
    (\<forall>i\<in>set is. bloom_has bf' ((h1 + of_nat i * h2) mod bf_m bf)) \<and>
    (\<forall>b. bloom_has bf (b mod bf_m bf) \<longrightarrow> bloom_has bf' (b mod bf_m bf))"
  using assms
proof (induction "is" arbitrary: bf)
  case (Cons i "is")
  obtain bf1 where b1: "bloom_set h1 h2 bf i = Ok bf1" "bloom_wf bf1" "bf_m bf1 = bf_m bf" "bf_k bf1 = bf_k bf"
    "bloom_has bf1 ((h1 + of_nat i * h2) mod bf_m bf)" "\<forall>b. bloom_has bf (b mod bf_m bf) \<longrightarrow> bloom_has bf1 (b mod bf_m bf)"
    using bloom_set_spec [OF Cons.prems] by blast
  show ?case using Cons.IH [OF b1(2)] b1 by auto
qed simp

lemma bloom_test_spec:
  assumes "bloom_wf bf"
  shows "bloom_test h1 h2 bf is = Ok (\<forall>i\<in>set is. bloom_has bf ((h1 + of_nat i * h2) mod bf_m bf))"
  using assms
proof (induction "is")
  case (Cons i "is")
  have "x AND push_bit n 1 = 0 \<longleftrightarrow> \<not> bit x n" for x :: byte and n
    by (simp add: bit_iff_and_push_bit_not_eq_0)
  then show ?case using Cons bloom_index [OF assms]
    by (auto simp: bloom_wf_def bloom_has_def Let_def unat_mod)
qed simp

lemma MayContain_total: "bloom_wf bf \<Longrightarrow> \<exists>b. BloomFilter_MayContain bf k = Ok b"
  by (simp add: BloomFilter_MayContain_def bloomHashes_def bloom_test_spec)

lemma Add_spec:
  assumes "bloom_wf bf"
  shows "\<exists>bf'. BloomFilter_Add bf k = Ok bf' \<and> bloom_wf bf' \<and> bf_m bf' = bf_m bf \<and> bf_k bf' = bf_k bf \<and>
    BloomFilter_MayContain bf' k = Ok True \<and>
    (\<forall>k'. BloomFilter_MayContain bf k' = Ok True \<longrightarrow> BloomFilter_MayContain bf' k' = Ok True)"
  using bloom_sets_spec [OF assms, of "fnv32a k" "ucast (drop_bit 32 (fnv64a k))" "[0..<unat (bf_k bf)]"] assms
  by (auto simp: BloomFilter_Add_def BloomFilter_MayContain_def bloomHashes_def bloom_test_spec)

lemma Add_all_spec:
  assumes "bloom_wf bf"
  shows "\<exists>bf'. fold_res BloomFilter_Add bf ks = Ok bf' \<and> bloom_wf bf' \<and> bf_m bf' = bf_m bf \<and> bf_k bf' = bf_k bf \<and>
    (\<forall>k\<in>set ks. BloomFilter_MayContain bf' k = Ok True) \<and>
    (\<forall>k. BloomFilter_MayContain bf k = Ok True \<longrightarrow> BloomFilter_MayContain bf' k = Ok True)"
  using assms
proof (induction ks arbitrary: bf)
  case (Cons k ks)
  obtain bf1 where b1: "BloomFilter_Add bf k = Ok bf1" "bloom_wf bf1" "bf_m bf1 = bf_m bf" "bf_k bf1 = bf_k bf"
    "BloomFilter_MayContain bf1 k = Ok True"
    "\<forall>k'. BloomFilter_MayContain bf k' = Ok True \<longrightarrow> BloomFilter_MayContain bf1 k' = Ok True"
    using Add_spec [OF Cons.prems] by blast
  show ?case using Cons.IH [OF b1(2)] b1 by auto
qed simp

subsection \<open>Encoding\<close>

lemma length_Encode [codec]: "length (BloomFilter_Encode bf) = 8 + length (bf_bits bf)"
  by (simp add: BloomFilter_Encode_def)

lemma Decode_Encode:
  assumes "bloom_wf bf" shows "DecodeBloomFilter (BloomFilter_Encode bf) = Ok bf"
proof -
  have n: "length (bf_bits bf) = unat (bloom_numBytes (bf_m bf))" using assms by (simp add: bloom_wf_def)
  then have "(of_nat (length (bf_bits bf)) :: 32 word) = bloom_numBytes (bf_m bf)" by simp
  then show ?thesis
    by (simp add: DecodeBloomFilter_def BloomFilter_Encode_def Let_def slice_def n)
qed

end
