(* ===== verification/SSTable_Writer.thy ===== *)
theory SSTable_Writer
  imports Bloom
begin

text \<open>
  \<open>sstable/writer.go\<close>: building a sorted string table. \<open>sw_out\<close> is what the writer has given to its
  buffered file. The outcome of the file operations is the argument \<open>io\<close>: \<open>sst_write n\<close> tells whether
  the write that brings the output to \<open>n\<close> bytes succeeds. A writer whose operation fails is abandoned
  by its callers, so an error carries no state.

  The lemmas show that a table that \<open>Finish\<close> reports as written consists of blocks that partition
  the entries in the order they were added, of the index of those blocks, of a Bloom filter of all
  keys and of the footer.
\<close>

subsection \<open>Data\<close>

definition defaultBlockSize :: int where "defaultBlockSize = 4096"
definition magicNumber :: "64 word" where "magicNumber = 0x4B56535354424C00"
definition version :: "32 word" where "version = 1"
definition footerSize :: nat where "footerSize = 48"
definition entryTypeValue :: byte where "entryTypeValue = 0x01"
definition entryTypeTombstone :: byte where "entryTypeTombstone = 0x02"

record indexEntry =
  lastKey :: bytes
  ie_offset :: "64 word"
  ie_blockSize :: "64 word"

record Writer =
  sw_out :: bytes
  blockBuf :: bytes
  blockEntries :: nat
  indexEntries :: "indexEntry list"
  sw_keys :: "bytes list"
  sw_offset :: "64 word"
  entryCount :: nat
  sw_minKey :: "bytes option"
  sw_maxKey :: "bytes option"
  sw_blockSize :: int

record sst_env =
  sst_create :: bool
  sst_write :: "nat \<Rightarrow> bool"
  sst_flush :: bool
  sst_sync :: bool
  sst_close :: bool

definition sst_ok :: sst_env where
  "sst_ok = \<lparr>sst_create = True, sst_write = (\<lambda>n. True), sst_flush = True, sst_sync = True, sst_close = True\<rparr>"

subsection \<open>Operations\<close>

definition NewWriter :: "sst_env \<Rightarrow> int \<Rightarrow> Writer res" where
  "NewWriter io bs =
     (let bs' = (if bs \<le> 0 then defaultBlockSize else bs)
      in if \<not> sst_create io then Err ''create''
         else Ok \<lparr>sw_out = [], blockBuf = [], blockEntries = 0, indexEntries = [], sw_keys = [], sw_offset = 0,
                  entryCount = 0, sw_minKey = None, sw_maxKey = None, sw_blockSize = bs'\<rparr>)"

definition sw_Write :: "sst_env \<Rightarrow> Writer \<Rightarrow> bytes \<Rightarrow> Writer res" where
  "sw_Write io w data =
     (if sst_write io (length (sw_out w) + length data) then Ok (w\<lparr>sw_out := sw_out w @ data\<rparr>) else Err ''write'')"

definition flushBlock :: "sst_env \<Rightarrow> Writer \<Rightarrow> Writer res" where
  "flushBlock io w =
     (if blockEntries w = 0 then Ok w
      else let entryData = blockBuf w; dataCRC = ChecksumIEEE entryData;
               trailer = PutUint32 (of_nat (blockEntries w)) @ PutUint32 dataCRC
           in res_bind (sw_Write io w entryData) (\<lambda>w1.
              res_bind (sw_Write io w1 trailer) (\<lambda>w2.
              if sw_keys w2 = [] then Panic
              else let blockTotal = of_nat (length entryData + length trailer)
                   in Ok (w2\<lparr>indexEntries := indexEntries w2 @
                                [\<lparr>lastKey = last (sw_keys w2), ie_offset = sw_offset w2, ie_blockSize = blockTotal\<rparr>],
                             sw_offset := sw_offset w2 + blockTotal,
                             blockBuf := [], blockEntries := 0\<rparr>))))"

definition encodeEntry :: "bytes \<Rightarrow> bytes option \<Rightarrow> bool \<Rightarrow> bytes" where
  "encodeEntry k v t =
     PutUint32 (of_nat (length k)) @
     (if t then PutUint32 0 @ [entryTypeTombstone]
      else PutUint32 (of_nat (length (val_bytes v))) @ [entryTypeValue]) @
     k @ (if t then [] else val_bytes v)"

definition Writer_Add :: "sst_env \<Rightarrow> Writer \<Rightarrow> bytes \<Rightarrow> bytes option \<Rightarrow> bool \<Rightarrow> Writer res" where
  "Writer_Add io w k v t =
     (let w1 = w\<lparr>sw_minKey := (if entryCount w = 0 then Some k else sw_minKey w), sw_maxKey := Some k,
                 sw_keys := sw_keys w @ [k], entryCount := entryCount w + 1,
                 blockBuf := blockBuf w @ encodeEntry k v t, blockEntries := blockEntries w + 1\<rparr>
      in if int (length (blockBuf w1)) \<ge> sw_blockSize w1 then flushBlock io w1 else Ok w1)"

definition encodeIndexEntry :: "indexEntry \<Rightarrow> bytes" where
  "encodeIndexEntry ie =
     PutUint32 (of_nat (length (lastKey ie))) @ lastKey ie @ PutUint64 (ie_offset ie) @ PutUint32 (ucast (ie_blockSize ie))"

definition footer_head :: "64 word \<Rightarrow> 32 word \<Rightarrow> 64 word \<Rightarrow> 32 word \<Rightarrow> bytes" where
  "footer_head indexOffset indexSize bloomOffset bloomSize =
     PutUint64 indexOffset @ PutUint32 indexSize @ PutUint64 bloomOffset @ PutUint32 bloomSize @
     replicate 8 0 @ PutUint64 magicNumber @ PutUint32 version"

text \<open>The three parts of \<open>Finish\<close> after the last block: index block, Bloom filter block, footer.\<close>

definition writeIndex :: "sst_env \<Rightarrow> Writer \<Rightarrow> Writer res" where
  "writeIndex io w =
     (let indexData = concat (map encodeIndexEntry (indexEntries w));
          indexCRC = ChecksumIEEE indexData;
          indexTrailer = PutUint32 (of_nat (length (indexEntries w))) @ PutUint32 indexCRC
      in res_bind (sw_Write io w indexData) (\<lambda>w1.
         res_bind (sw_Write io (w1\<lparr>sw_offset := sw_offset w1 + of_nat (length indexData)\<rparr>) indexTrailer) (\<lambda>w2.
         Ok (w2\<lparr>sw_offset := sw_offset w2 + of_nat (length indexTrailer)\<rparr>))))"

definition writeBloom :: "sst_env \<Rightarrow> Writer \<Rightarrow> Writer res" where
  "writeBloom io w =
     (let numKeys = (if length (sw_keys w) < 1 then 1 else length (sw_keys w))
      in res_bind (fold_res BloomFilter_Add (NewBloomFilter (int numKeys) 10) (sw_keys w)) (\<lambda>bf.
         let bloomData = BloomFilter_Encode bf; bloomTrailer = PutUint32 (ChecksumIEEE bloomData)
         in res_bind (sw_Write io w bloomData) (\<lambda>w1.
            res_bind (sw_Write io (w1\<lparr>sw_offset := sw_offset w1 + of_nat (length bloomData)\<rparr>) bloomTrailer) (\<lambda>w2.
            Ok (w2\<lparr>sw_offset := sw_offset w2 + of_nat (length bloomTrailer)\<rparr>)))))"

definition writeFooter :: "sst_env \<Rightarrow> Writer \<Rightarrow> 64 word \<Rightarrow> 32 word \<Rightarrow> 64 word \<Rightarrow> 32 word \<Rightarrow> bytes res" where
  "writeFooter io w indexOffset indexSize bloomOffset bloomSize =
     (let head = footer_head indexOffset indexSize bloomOffset bloomSize
      in res_bind (sw_Write io w (head @ PutUint32 (ChecksumIEEE head))) (\<lambda>w1.
         if \<not> sst_flush io then Err ''flush''
         else if \<not> sst_sync io then Err ''sync''
         else if \<not> sst_close io then Err ''close''
         else Ok (sw_out w1)))"

text \<open>\<open>Finish\<close> returns the bytes of the file it has synced and closed.\<close>

definition Writer_Finish :: "sst_env \<Rightarrow> Writer \<Rightarrow> bytes res" where
  "Writer_Finish io w =
     res_bind (flushBlock io w) (\<lambda>w1.
     let indexOffset = sw_offset w1
     in res_bind (writeIndex io w1) (\<lambda>w2.
     let indexSize = ucast (sw_offset w2 - indexOffset);
         bloomOffset = sw_offset w2
     in res_bind (writeBloom io w2) (\<lambda>w3.
     let bloomSize = ucast (sw_offset w3 - bloomOffset)
     in writeFooter io w3 indexOffset indexSize bloomOffset bloomSize)))"

definition EntryCount :: "Writer \<Rightarrow> nat" where
  "EntryCount w = entryCount w"

text \<open>The callers' loop: add the entries one by one, then finish.\<close>

type_synonym sst_entry = "bytes \<times> bytes option \<times> bool"

fun write_all :: "sst_env \<Rightarrow> Writer \<Rightarrow> sst_entry list \<Rightarrow> Writer res" where
  "write_all io w [] = Ok w"
| "write_all io w ((k, v, t) # es) = res_bind (Writer_Add io w k v t) (\<lambda>w'. write_all io w' es)"

definition write_table :: "sst_env \<Rightarrow> int \<Rightarrow> sst_entry list \<Rightarrow> bytes res" where
  "write_table io bs es =
     res_bind (NewWriter io bs) (\<lambda>w. res_bind (write_all io w es) (\<lambda>w'. Writer_Finish io w'))"

subsection \<open>What is written\<close>

definition ents_bytes :: "sst_entry list \<Rightarrow> bytes" where
  "ents_bytes es = concat (map (\<lambda>(k, v, t). encodeEntry k v t) es)"

definition block_bytes :: "sst_entry list \<Rightarrow> bytes" where
  "block_bytes b = ents_bytes b @ PutUint32 (of_nat (length b)) @ PutUint32 (ChecksumIEEE (ents_bytes b))"

fun index_of :: "nat \<Rightarrow> sst_entry list list \<Rightarrow> indexEntry list" where
  "index_of off [] = []"
| "index_of off (b # bs) =
     \<lparr>lastKey = fst (last b), ie_offset = of_nat off, ie_blockSize = of_nat (length (block_bytes b))\<rparr> #
     index_of (off + length (block_bytes b)) bs"

definition index_bytes :: "sst_entry list list \<Rightarrow> bytes" where
  "index_bytes bs = concat (map encodeIndexEntry (index_of 0 bs))"

definition data_bytes :: "sst_entry list list \<Rightarrow> bytes" where
  "data_bytes bs = concat (map block_bytes bs)"

definition index_block :: "sst_entry list list \<Rightarrow> bytes" where
  "index_block bs = index_bytes bs @ PutUint32 (of_nat (length bs)) @ PutUint32 (ChecksumIEEE (index_bytes bs))"

definition bloom_block :: "BloomFilter \<Rightarrow> bytes" where
  "bloom_block bf = BloomFilter_Encode bf @ PutUint32 (ChecksumIEEE (BloomFilter_Encode bf))"

definition footer_bytes :: "nat \<Rightarrow> nat \<Rightarrow> nat \<Rightarrow> nat \<Rightarrow> bytes" where
  "footer_bytes io isz bo bsz =
     (let h = footer_head (of_nat io) (of_nat isz) (of_nat bo) (of_nat bsz) in h @ PutUint32 (ChecksumIEEE h))"

definition table_bytes :: "sst_entry list list \<Rightarrow> BloomFilter \<Rightarrow> bytes" where
  "table_bytes bs bf =
     data_bytes bs @ index_block bs @ bloom_block bf @
     footer_bytes (length (data_bytes bs)) (length (index_block bs))
       (length (data_bytes bs) + length (index_block bs)) (length (bloom_block bf))"

definition writer_inv :: "Writer \<Rightarrow> sst_entry list list \<Rightarrow> sst_entry list \<Rightarrow> bool" where
  "writer_inv w bs cur \<longleftrightarrow>
     sw_out w = data_bytes bs \<and> blockBuf w = ents_bytes cur \<and> blockEntries w = length cur \<and>
     sw_keys w = map fst (concat bs @ cur) \<and> indexEntries w = index_of 0 bs \<and>
     sw_offset w = of_nat (length (data_bytes bs)) \<and> (\<forall>b\<in>set bs. b \<noteq> [])"

lemma index_of_snoc:
  "index_of off (bs @ [b]) = index_of off bs @
     [\<lparr>lastKey = fst (last b), ie_offset = of_nat (off + length (data_bytes bs)), ie_blockSize = of_nat (length (block_bytes b))\<rparr>]"
  by (induction bs arbitrary: off) (simp_all add: data_bytes_def add.assoc)

lemma length_index_of [simp]: "length (index_of off bs) = length bs"
  by (induction bs arbitrary: off) auto

lemma writer_invD:
  assumes "writer_inv w bs cur"
  shows "sw_keys w = map fst (concat bs @ cur)" "sw_out w = data_bytes bs" "indexEntries w = index_of 0 bs"
    "sw_offset w = of_nat (length (data_bytes bs))" "b \<in> set bs \<Longrightarrow> b \<noteq> []"
  using assms by (simp_all add: writer_inv_def)

lemma ucast_of_nat_64 [simp]: "(ucast (of_nat n :: 64 word) :: 32 word) = of_nat n"
  by (rule bit_word_eqI) (simp add: bit_simps)

lemma sw_Write_Ok: "sw_Write io w d = Ok w' \<longleftrightarrow> sst_write io (length (sw_out w) + length d) \<and> w' = w\<lparr>sw_out := sw_out w @ d\<rparr>"
  by (auto simp: sw_Write_def)

lemma flushBlock_inv:
  assumes "writer_inv w bs cur" "flushBlock io w = Ok w'"
  shows "writer_inv w' (if cur = [] then bs else bs @ [cur]) []"
proof (cases "cur = []")
  case True
  then show ?thesis using assms by (simp add: flushBlock_def writer_inv_def)
next
  case False
  then have "last (map fst (concat bs @ cur)) = fst (last cur)" by (simp add: last_map)
  then show ?thesis using assms False
    by (auto simp: flushBlock_def writer_inv_def Let_def res_bind_Ok_iff sw_Write_Ok index_of_snoc
        data_bytes_def block_bytes_def ents_bytes_def split: if_splits)
qed

lemma Writer_Add_inv:
  assumes "writer_inv w bs cur" "Writer_Add io w k v t = Ok w'"
  shows "\<exists>bs' cur'. writer_inv w' bs' cur' \<and> concat bs' @ cur' = concat bs @ cur @ [(k, v, t)]"
proof -
  define w1 where "w1 = w\<lparr>sw_minKey := (if entryCount w = 0 then Some k else sw_minKey w), sw_maxKey := Some k,
                 sw_keys := sw_keys w @ [k], entryCount := entryCount w + 1,
                 blockBuf := blockBuf w @ encodeEntry k v t, blockEntries := blockEntries w + 1\<rparr>"
  have w1: "writer_inv w1 bs (cur @ [(k, v, t)])"
    using assms(1) by (simp add: writer_inv_def w1_def ents_bytes_def)
  have r: "(if int (length (blockBuf w1)) \<ge> sw_blockSize w1 then flushBlock io w1 else Ok w1) = Ok w'"
    using assms(2) by (simp only: Writer_Add_def Let_def flip: w1_def)
  show ?thesis
  proof (cases "int (length (blockBuf w1)) \<ge> sw_blockSize w1")
    case True
    then have "writer_inv w' (bs @ [cur @ [(k, v, t)]]) []" using flushBlock_inv [OF w1] r by simp
    then show ?thesis by (intro exI [of _ "bs @ [cur @ [(k, v, t)]]"] exI [of _ "[]"]) simp
  next
    case False
    then show ?thesis using w1 r by (intro exI [of _ bs] exI [of _ "cur @ [(k, v, t)]"]) simp
  qed
qed

lemma write_all_inv:
  "writer_inv w bs cur \<Longrightarrow> write_all io w es = Ok w' \<Longrightarrow>
   \<exists>bs' cur'. writer_inv w' bs' cur' \<and> concat bs' @ cur' = concat bs @ cur @ es"
proof (induction es arbitrary: w bs cur)
  case (Cons e es)
  obtain k v t where e: "e = (k, v, t)" by (cases e)
  obtain w1 where w1: "Writer_Add io w k v t = Ok w1" "write_all io w1 es = Ok w'"
    using Cons.prems(2) by (auto simp: e res_bind_Ok_iff)
  obtain bs1 cur1 where i1: "writer_inv w1 bs1 cur1" "concat bs1 @ cur1 = concat bs @ cur @ [(k, v, t)]"
    using Writer_Add_inv [OF Cons.prems(1) w1(1)] by blast
  obtain bs' cur' where "writer_inv w' bs' cur'" "concat bs' @ cur' = concat bs1 @ cur1 @ es"
    using Cons.IH [OF i1(1) w1(2)] by blast
  moreover have "concat bs1 @ cur1 @ es = concat bs @ cur @ e # es"
    using i1(2) by (simp add: e flip: append_assoc)
  ultimately show ?case by metis
qed auto

lemma NewWriter_inv: "NewWriter io bs = Ok w \<Longrightarrow> writer_inv w [] []"
  by (auto simp: NewWriter_def writer_inv_def data_bytes_def ents_bytes_def Let_def split: if_splits)

lemma writeIndex_Ok:
  assumes "writer_inv w bs []" "writeIndex io w = Ok w'"
  shows "sw_out w' = data_bytes bs @ index_block bs" "sw_keys w' = sw_keys w"
    "sw_offset w' = of_nat (length (data_bytes bs) + length (index_block bs))"
  using assms by (auto simp: writeIndex_def writer_inv_def res_bind_Ok_iff sw_Write_Ok Let_def index_block_def index_bytes_def)

lemma writeBloom_Ok:
  assumes "writeBloom io w = Ok w'"
  obtains bf where "fold_res BloomFilter_Add (NewBloomFilter (max 1 (int (length (sw_keys w)))) 10) (sw_keys w) = Ok bf"
    "sw_out w' = sw_out w @ bloom_block bf" "sw_offset w' = sw_offset w + of_nat (length (bloom_block bf))"
proof -
  have n: "int (if length (sw_keys w) < 1 then 1 else length (sw_keys w)) = max 1 (int (length (sw_keys w)))"
    by (cases "sw_keys w") auto
  obtain bf where bf: "fold_res BloomFilter_Add (NewBloomFilter (max 1 (int (length (sw_keys w)))) 10) (sw_keys w) = Ok bf"
    using assms unfolding writeBloom_def Let_def n by (auto simp: res_bind_Ok_iff)
  show ?thesis using assms bf unfolding writeBloom_def Let_def n
    by (intro that [OF bf]) (auto simp: res_bind_Ok_iff sw_Write_Ok bloom_block_def)
qed

lemma writeFooter_Ok:
  "writeFooter io w a b c d = Ok file \<Longrightarrow>
   file = sw_out w @ footer_head a b c d @ PutUint32 (ChecksumIEEE (footer_head a b c d))"
  by (simp add: writeFooter_def Let_def sw_Write_def split: if_splits)

lemma Writer_Finish_bytes:
  assumes "writer_inv w bs cur" "Writer_Finish io w = Ok file"
  shows "\<exists>bs' bf. concat bs' = concat bs @ cur \<and> (\<forall>b\<in>set bs'. b \<noteq> []) \<and> file = table_bytes bs' bf \<and>
    fold_res BloomFilter_Add (NewBloomFilter (max 1 (int (length (concat bs @ cur)))) 10) (map fst (concat bs @ cur)) = Ok bf"
proof -
  define BS where "BS = (if cur = [] then bs else bs @ [cur])"
  have cBS: "concat BS = concat bs @ cur" by (simp add: BS_def)
  let ?keys = "map fst (concat bs @ cur)"
  obtain w1 w2 w3 where f: "flushBlock io w = Ok w1" and x: "writeIndex io w1 = Ok w2" and b: "writeBloom io w2 = Ok w3"
    and ft: "writeFooter io w3 (sw_offset w1) (ucast (sw_offset w2 - sw_offset w1)) (sw_offset w2)
       (ucast (sw_offset w3 - sw_offset w2)) = Ok file"
    using assms(2) by (auto simp: Writer_Finish_def res_bind_Ok_iff Let_def)
  have i: "writer_inv w1 BS []" unfolding BS_def by (rule flushBlock_inv [OF assms(1) f])
  note x = writeIndex_Ok [OF i x] and wi = writer_invD [OF i]
  have keys: "sw_keys w2 = ?keys" using wi(1) x(2) cBS by simp
  obtain bf where bf: "fold_res BloomFilter_Add (NewBloomFilter (max 1 (int (length ?keys))) 10) ?keys = Ok bf"
    "sw_out w3 = sw_out w2 @ bloom_block bf" "sw_offset w3 = sw_offset w2 + of_nat (length (bloom_block bf))"
    using writeBloom_Ok [OF b] unfolding keys by blast
  have o: "sw_offset w2 - sw_offset w1 = of_nat (length (index_block BS))"
    "sw_offset w3 - sw_offset w2 = of_nat (length (bloom_block bf))"
    by (simp_all add: x wi(4) bf(3))
  have "file = table_bytes BS bf"
    using writeFooter_Ok [OF ft] unfolding o unfolding x(3) wi(4)
    by (simp add: table_bytes_def footer_bytes_def Let_def x(1) bf(2))
  then show ?thesis using bf(1) cBS wi(5) by (intro exI [of _ BS] exI [of _ bf]) simp
qed

lemma write_table_bytes:
  assumes "write_table io bsz es = Ok file"
  shows "\<exists>bs bf. concat bs = es \<and> (\<forall>b\<in>set bs. b \<noteq> []) \<and> file = table_bytes bs bf \<and>
    fold_res BloomFilter_Add (NewBloomFilter (max 1 (int (length es))) 10) (map fst es) = Ok bf"
proof -
  obtain w w' where w: "NewWriter io bsz = Ok w" "write_all io w es = Ok w'" "Writer_Finish io w' = Ok file"
    using assms by (auto simp: write_table_def res_bind_Ok_iff)
  obtain bs cur where "writer_inv w' bs cur" "concat bs @ cur = es"
    using write_all_inv [OF NewWriter_inv [OF w(1)] w(2)] by auto
  then show ?thesis using Writer_Finish_bytes w(3) by metis
qed

subsection \<open>Writing succeeds\<close>

lemma sst_ok_simps [simp]: "sst_create sst_ok" "sst_flush sst_ok" "sst_sync sst_ok" "sst_close sst_ok"
  by (simp_all add: sst_ok_def)

lemma sw_Write_ok [simp]: "sw_Write sst_ok w d = Ok (w\<lparr>sw_out := sw_out w @ d\<rparr>)"
  by (simp add: sw_Write_def sst_ok_def)

lemma flushBlock_ok: "writer_inv w bs cur \<Longrightarrow> \<exists>w'. flushBlock sst_ok w = Ok w'"
  by (cases "cur = []") (auto simp: flushBlock_def writer_inv_def Let_def)

lemma Writer_Add_ok:
  assumes "writer_inv w bs cur" shows "\<exists>w'. Writer_Add sst_ok w k v t = Ok w'"
proof -
  have "writer_inv (w\<lparr>sw_minKey := mk, sw_maxKey := Some k, sw_keys := sw_keys w @ [k], entryCount := entryCount w + 1,
      blockBuf := blockBuf w @ encodeEntry k v t, blockEntries := blockEntries w + 1\<rparr>) bs (cur @ [(k, v, t)])" for mk
    using assms by (simp add: writer_inv_def ents_bytes_def)
  then show ?thesis using flushBlock_ok unfolding Writer_Add_def Let_def by metis
qed

lemma write_all_ok: "writer_inv w bs cur \<Longrightarrow> \<exists>w'. write_all sst_ok w es = Ok w'"
proof (induction es arbitrary: w bs cur)
  case (Cons e es)
  obtain k v t where e: "e = (k, v, t)" by (cases e)
  obtain w1 where w1: "Writer_Add sst_ok w k v t = Ok w1" using Writer_Add_ok [OF Cons.prems] by blast
  then show ?case using Cons.IH Writer_Add_inv [OF Cons.prems w1] by (auto simp: e)
qed simp

lemma writeIndex_ok: "\<exists>w'. writeIndex sst_ok w = Ok w' \<and> sw_keys w' = sw_keys w"
  by (simp add: writeIndex_def Let_def)

lemma writeBloom_ok:
  "fold_res BloomFilter_Add (NewBloomFilter (int (if length (sw_keys w) < 1 then 1 else length (sw_keys w))) 10) (sw_keys w) = Ok bf \<Longrightarrow>
   \<exists>w'. writeBloom sst_ok w = Ok w'"
  unfolding writeBloom_def Let_def by simp

lemma writeFooter_ok: "\<exists>file. writeFooter sst_ok w a b c d = Ok file"
  by (simp add: writeFooter_def Let_def)

lemma write_table_ok:
  assumes "10 * length es + 20 < 2 ^ 32" shows "\<exists>file. write_table sst_ok bsz es = Ok file"
proof -
  obtain w where w: "NewWriter sst_ok bsz = Ok w" by (simp add: NewWriter_def Let_def)
  obtain w1 where w1: "write_all sst_ok w es = Ok w1" using write_all_ok [OF NewWriter_inv [OF w]] by blast
  obtain bs cur where i1: "writer_inv w1 bs cur" "concat bs @ cur = es"
    using write_all_inv [OF NewWriter_inv [OF w] w1] by auto
  obtain w2 where w2: "flushBlock sst_ok w1 = Ok w2" using flushBlock_ok [OF i1(1)] by blast
  have "sw_keys w2 = map fst (concat (if cur = [] then bs else bs @ [cur]) @ [])"
    by (rule writer_invD(1) [OF flushBlock_inv [OF i1(1) w2]])
  then have k: "sw_keys w2 = map fst es" using i1(2) by (auto split: if_splits)
  obtain w3 where w3: "writeIndex sst_ok w2 = Ok w3" "sw_keys w3 = map fst es"
    using writeIndex_ok [of w2] k by metis
  have "bloom_wf (NewBloomFilter (int (if length (sw_keys w3) < 1 then 1 else length (sw_keys w3))) 10)"
    using assms by (intro NewBloomFilter_wf) (auto simp: w3)
  then obtain bf where "fold_res BloomFilter_Add (NewBloomFilter (int (if length (sw_keys w3) < 1 then 1 else length (sw_keys w3))) 10) (sw_keys w3) = Ok bf"
    using Add_all_spec by blast
  then obtain w4 where "writeBloom sst_ok w3 = Ok w4" using writeBloom_ok by blast
  then show ?thesis using writeFooter_ok
    by (auto simp: write_table_def w w1 Writer_Finish_def w2 w3 Let_def)
qed

end
