(* ===== verification/SSTable_Reader.thy ===== *)
theory SSTable_Reader
  imports SSTable_Writer
begin

text \<open>
  \<open>sstable/reader.go\<close>: opening a table and point lookups. The mapped file is \<open>r_data\<close>; offsets and
  sizes are the 64-bit signed integers of the source, so the range checks can overflow as they do
  there, and a slice expression out of range is a panic.

  The lemmas show that the reader opened on a table that the writer produced from sorted entries
  finds exactly those entries: the binary search over the index, the block decoder and the Bloom
  filter together compute the lookup in the list of entries.
\<close>

subsection \<open>Data\<close>

record Footer =
  IndexOffset :: "64 word"
  IndexSize :: "32 word"
  BloomOffset :: "64 word"
  BloomSize :: "32 word"
  MagicNumber :: "64 word"
  Version :: "32 word"

record sstentry =
  e_key :: bytes
  e_value :: "bytes option"
  e_tombstone :: bool

record Reader =
  r_data :: bytes
  r_size :: nat
  footer :: Footer
  r_index :: "indexEntry list"
  bloom :: BloomFilter
  r_minKey :: "bytes option"
  r_maxKey :: "bytes option"

text \<open>A slice expression with 64-bit signed bounds.\<close>

definition slice64 :: "bytes \<Rightarrow> 64 word \<Rightarrow> 64 word \<Rightarrow> bytes res" where
  "slice64 b lo hi =
     (if 0 \<le> sint lo \<and> sint lo \<le> sint hi \<and> sint hi \<le> int (length b)
      then Ok (take (nat (sint hi) - nat (sint lo)) (drop (nat (sint lo)) b)) else Panic)"

subsection \<open>Parsing\<close>

definition parseFooter :: "Reader \<Rightarrow> Reader res" where
  "parseFooter r =
     (let footerData = drop (r_size r - footerSize) (r_data r);
          storedCRC = Uint32 (take 4 (drop 44 footerData));
          computedCRC = ChecksumIEEE (take 44 footerData)
      in if storedCRC \<noteq> computedCRC then Err ''sstable: footer CRC mismatch''
         else let f = \<lparr>IndexOffset = Uint64 (take 8 footerData),
                       IndexSize = Uint32 (take 4 (drop 8 footerData)),
                       BloomOffset = Uint64 (take 8 (drop 12 footerData)),
                       BloomSize = Uint32 (take 4 (drop 20 footerData)),
                       MagicNumber = Uint64 (take 8 (drop 32 footerData)),
                       Version = Uint32 (take 4 (drop 40 footerData))\<rparr>
              in if MagicNumber f \<noteq> magicNumber then Err ''sstable: bad magic number''
                 else if Version f \<noteq> version then Err ''sstable: unsupported version''
                 else Ok (r\<lparr>footer := f\<rparr>))"

text \<open>The loop over the index entries; \<open>d\<close> is \<open>entryData[pos:]\<close>.\<close>

fun parseIndexEntries :: "nat \<Rightarrow> bytes \<Rightarrow> indexEntry list res" where
  "parseIndexEntries 0 d = Ok []"
| "parseIndexEntries (Suc n) d =
     (if length d < 4 then Err ''sstable: index entry truncated''
      else let keyLen = unat (Uint32 (take 4 d)); d1 = drop 4 d
           in if length d1 < keyLen then Err ''sstable: index key truncated''
              else let lk = take keyLen d1; d2 = drop keyLen d1
                   in if length d2 < 12 then Err ''sstable: index offset/size truncated''
                      else let off = Uint64 (take 8 d2); bs = ucast (Uint32 (take 4 (drop 8 d2)))
                           in res_bind (parseIndexEntries n (drop 12 d2))
                                (\<lambda>ies. Ok (\<lparr>lastKey = lk, ie_offset = off, ie_blockSize = bs\<rparr> # ies)))"

definition parseIndex :: "Reader \<Rightarrow> Reader res" where
  "parseIndex r =
     (let off = IndexOffset (footer r); sz = ucast (IndexSize (footer r)) :: 64 word
      in if sint off < 0 \<or> sint (off + sz) > int (r_size r) then Err ''sstable: index block out of range''
         else res_bind (slice64 (r_data r) off (off + sz)) (\<lambda>indexData.
              if length indexData < 8 then Err ''sstable: index block too small''
              else let trailerStart = length indexData - 8;
                       numBlocks = Uint32 (take 4 (drop trailerStart indexData));
                       storedCRC = Uint32 (take 4 (drop (trailerStart + 4) indexData));
                       entryData = take trailerStart indexData
                   in if storedCRC \<noteq> ChecksumIEEE entryData then Err ''sstable: index block CRC mismatch''
                      else res_bind (parseIndexEntries (unat numBlocks) entryData)
                             (\<lambda>ies. Ok (r\<lparr>r_index := ies\<rparr>))))"

definition parseBloom :: "Reader \<Rightarrow> Reader res" where
  "parseBloom r =
     (let off = BloomOffset (footer r); sz = ucast (BloomSize (footer r)) :: 64 word
      in if sint off < 0 \<or> sint (off + sz) > int (r_size r) then Err ''sstable: bloom block out of range''
         else res_bind (slice64 (r_data r) off (off + sz)) (\<lambda>bloomBlock.
              if length bloomBlock < 4 then Err ''sstable: bloom block too small''
              else let bloomData = take (length bloomBlock - 4) bloomBlock;
                       storedCRC = Uint32 (drop (length bloomBlock - 4) bloomBlock)
                   in if storedCRC \<noteq> ChecksumIEEE bloomData then Err ''sstable: bloom filter CRC mismatch''
                      else res_bind (DecodeBloomFilter bloomData) (\<lambda>bf. Ok (r\<lparr>bloom := bf\<rparr>))))"

text \<open>The loop over the entries of a block; \<open>d\<close> is \<open>entryData[pos:]\<close>.\<close>

fun decodeEntries :: "nat \<Rightarrow> bytes \<Rightarrow> sstentry list res" where
  "decodeEntries 0 d = Ok []"
| "decodeEntries (Suc n) d =
     (if length d < 9 then Err ''sstable: entry header truncated''
      else let keyLen = unat (Uint32 (take 4 d)); valLen = unat (Uint32 (take 4 (drop 4 d)));
               typ = d ! 8; d1 = drop 9 d
           in if length d1 < keyLen then Err ''sstable: entry key truncated''
              else let k = take keyLen d1; d2 = drop keyLen d1;
                       has = (typ = entryTypeValue \<and> valLen > 0)
                   in if has \<and> length d2 < valLen then Err ''sstable: entry value truncated''
                      else let v = (if has then Some (take valLen d2) else None);
                               d3 = (if has then drop valLen d2 else d2)
                           in res_bind (decodeEntries n d3)
                                (\<lambda>es. Ok (\<lparr>e_key = k, e_value = v, e_tombstone = (typ = entryTypeTombstone)\<rparr> # es)))"

definition decodeBlock :: "Reader \<Rightarrow> 64 word \<Rightarrow> 64 word \<Rightarrow> sstentry list res" where
  "decodeBlock r off bs =
     (if sint (off + bs) > int (length (r_data r)) then Err ''sstable: data block out of range''
      else res_bind (slice64 (r_data r) off (off + bs)) (\<lambda>blockData.
           if length blockData < 8 then Err ''sstable: data block too small''
           else let trailerStart = length blockData - 8;
                    numEntries = unat (Uint32 (take 4 (drop trailerStart blockData)));
                    storedCRC = Uint32 (take 4 (drop (trailerStart + 4) blockData));
                    entryData = take trailerStart blockData
                in if storedCRC \<noteq> ChecksumIEEE entryData then Err ''sstable: data block CRC mismatch''
                   else decodeEntries numEntries entryData))"

record rd_env =
  rd_open :: bool
  rd_stat :: bool
  rd_mmap :: bool

definition rd_ok :: rd_env where
  "rd_ok = \<lparr>rd_open = True, rd_stat = True, rd_mmap = True\<rparr>"

definition OpenReader :: "rd_env \<Rightarrow> bytes \<Rightarrow> Reader res" where
  "OpenReader io content =
     (if \<not> rd_open io then Err ''open''
      else if \<not> rd_stat io then Err ''stat''
      else let size = length content
           in if size < footerSize then Err ''sstable: file too small to contain footer''
              else if \<not> rd_mmap io then Err ''sstable: mmap failed: ''
              else let r = \<lparr>r_data = content, r_size = size,
                            footer = \<lparr>IndexOffset = 0, IndexSize = 0, BloomOffset = 0, BloomSize = 0, MagicNumber = 0, Version = 0\<rparr>,
                            r_index = [], bloom = \<lparr>bf_bits = [], bf_m = 0, bf_k = 0\<rparr>, r_minKey = None, r_maxKey = None\<rparr>
                   in res_bind (parseFooter r) (\<lambda>r1.
                      res_bind (parseIndex r1) (\<lambda>r2.
                      res_bind (parseBloom r2) (\<lambda>r3.
                      case r_index r3 of
                        [] \<Rightarrow> Ok r3
                      | firstBlock # _ \<Rightarrow>
                          (case decodeBlock r3 (ie_offset firstBlock) (ie_blockSize firstBlock) of
                             Panic \<Rightarrow> Panic
                           | Err e \<Rightarrow> Ok (r3\<lparr>r_maxKey := Some (lastKey (last (r_index r3)))\<rparr>)
                           | Ok es \<Rightarrow> Ok (r3\<lparr>r_minKey := (case es of [] \<Rightarrow> None | e # _ \<Rightarrow> Some (e_key e)),
                                             r_maxKey := Some (lastKey (last (r_index r3)))\<rparr>))))))"

subsection \<open>Lookup\<close>

text \<open>The binary search of \<open>Get\<close> and \<open>Seek\<close>: \<open>best\<close> is \<open>blockIdx\<close>.\<close>

function searchIndex :: "indexEntry list \<Rightarrow> bytes \<Rightarrow> int \<Rightarrow> int \<Rightarrow> int \<Rightarrow> int" where
  "searchIndex idx k lo hi best =
     (if lo \<le> hi then
        let mid = lo + (hi - lo) div 2
        in if bytes_Compare (lastKey (idx ! nat mid)) k \<ge> 0 then searchIndex idx k lo (mid - 1) mid
           else searchIndex idx k (mid + 1) hi best
      else best)"
  by pat_completeness auto
termination
  by (relation "measure (\<lambda>(idx, k, lo, hi, best). nat (hi - lo + 1))") auto

declare searchIndex.simps [simp del]

fun scanBlock :: "sstentry list \<Rightarrow> bytes \<Rightarrow> bytes option \<times> bool" where
  "scanBlock [] k = (None, False)"
| "scanBlock (e # es) k =
     (if e_key e = k then (if e_tombstone e then None else e_value e, True) else scanBlock es k)"

definition Reader_Get :: "Reader \<Rightarrow> bytes \<Rightarrow> (bytes option \<times> bool) res" where
  "Reader_Get r k =
     (if r_index r = [] then Ok (None, False)
      else res_bind (BloomFilter_MayContain (bloom r) k) (\<lambda>may.
           if \<not> may then Ok (None, False)
           else let blockIdx = searchIndex (r_index r) k 0 (int (length (r_index r)) - 1) (-1)
                in if blockIdx = -1 then Ok (None, False)
                   else let ie = r_index r ! nat blockIdx
                        in res_bind (decodeBlock r (ie_offset ie) (ie_blockSize ie)) (\<lambda>es. Ok (scanBlock es k))))"

definition Reader_MayContain :: "Reader \<Rightarrow> bytes \<Rightarrow> bool res" where
  "Reader_MayContain r k = BloomFilter_MayContain (bloom r) k"

definition Reader_MinKey :: "Reader \<Rightarrow> bytes option" where
  "Reader_MinKey r = r_minKey r"

definition Reader_MaxKey :: "Reader \<Rightarrow> bytes option" where
  "Reader_MaxKey r = r_maxKey r"

text \<open>\<open>Close\<close> drops the mapping; the result is the first error.\<close>

definition Reader_Close :: "bool \<Rightarrow> bool \<Rightarrow> Reader \<Rightarrow> Reader \<times> string option" where
  "Reader_Close unmapOk closeOk r =
     (r\<lparr>r_data := []\<rparr>, if \<not> unmapOk then Some ''munmap'' else if \<not> closeOk then Some ''close'' else None)"

subsection \<open>Decoding what was encoded\<close>

text \<open>What the reader makes of an entry: an empty value comes back as nil.\<close>

definition rd_entry :: "sst_entry \<Rightarrow> sstentry" where
  "rd_entry e = (case e of (k, v, t) \<Rightarrow> \<lparr>e_key = k, e_value = (if t then None else norm_value v), e_tombstone = t\<rparr>)"

definition ent_ok :: "sst_entry \<Rightarrow> bool" where
  "ent_ok e \<longleftrightarrow> (case e of (k, v, t) \<Rightarrow> length k < 2 ^ 32 \<and> (t \<or> length (val_bytes v) < 2 ^ 32))"

lemma rd_entry_simps [simp]:
  "e_key (rd_entry e) = fst e" "e_tombstone (rd_entry e) = snd (snd e)"
  "e_value (rd_entry e) = (if snd (snd e) then None else norm_value (fst (snd e)))"
  by (simp_all add: rd_entry_def split: prod.splits)

lemma Some_val_bytes: "(if 0 < length (val_bytes v) then Some (val_bytes v) else None) = norm_value v"
  by (auto simp: norm_value_def val_bytes_def split: option.splits)

lemma encodeEntry_parts:
  fixes k v t
  defines "n \<equiv> (if t then 0 else length (val_bytes v))"
  shows "take 4 (encodeEntry k v t @ r) = PutUint32 (of_nat (length k))"
    and "take 4 (drop 4 (encodeEntry k v t @ r)) = PutUint32 (of_nat n)"
    and "(encodeEntry k v t @ r) ! 8 = (if t then entryTypeTombstone else entryTypeValue)"
    and "drop 9 (encodeEntry k v t @ r) = k @ (if t then [] else val_bytes v) @ r"
    and "length (encodeEntry k v t) = 9 + length k + n"
  by (simp_all add: encodeEntry_def n_def PutUint32_def)

lemma decodeEntries_Cons:
  assumes "ent_ok e"
  shows "decodeEntries (Suc n) ((case e of (k, v, t) \<Rightarrow> encodeEntry k v t) @ r) =
    res_bind (decodeEntries n r) (\<lambda>es. Ok (rd_entry e # es))"
proof -
  obtain k v t where e: "e = (k, v, t)" by (cases e)
  note parts = encodeEntry_parts(1-4) [where k = k and v = v and t = t and r = r] encodeEntry_parts(5) [where k = k and v = v and t = t]
  have kl: "unat (of_nat (length k) :: 32 word) = length k" and vl: "t \<or> unat (of_nat (length (val_bytes v)) :: 32 word) = length (val_bytes v)"
    using assms by (auto simp: ent_ok_def e intro: unat_of_nat32)
  have len: "\<not> length (encodeEntry k v t @ r) < 9" by (simp add: parts(5))
  have ty: "entryTypeTombstone \<noteq> entryTypeValue" "entryTypeValue \<noteq> entryTypeTombstone"
    by (simp_all add: entryTypeValue_def entryTypeTombstone_def)
  show ?thesis
  proof (cases t)
    case True
    then show ?thesis
      using parts len kl ty by (simp add: e Let_def rd_entry_def)
  next
    case False
    then show ?thesis
      using parts len kl vl ty Some_val_bytes [of v] by (auto simp add: e Let_def rd_entry_def split: if_splits)
  qed
qed

lemma decodeEntries_ents:
  "list_all ent_ok es \<Longrightarrow> decodeEntries (length es) (ents_bytes es @ r) = Ok (map rd_entry es)"
proof (induction es)
  case (Cons e es)
  then show ?case using decodeEntries_Cons [of e "length es" "ents_bytes es @ r"]
    by (simp del: decodeEntries.simps add: ents_bytes_def)
qed simp

lemma sint_add_of_nat: "a + b < 2 ^ 63 \<Longrightarrow> sint (of_nat a + of_nat b :: 64 word) = int (a + b)"
  using sint_of_nat64 [of "a + b"] by simp

lemma slice64_of_nat:
  assumes "length d < 2 ^ 63" "a + n \<le> length d"
  shows "slice64 d (of_nat a) (of_nat a + of_nat n) = Ok (take n (drop a d))"
proof -
  have "sint (of_nat a :: 64 word) = int a" using assms by (intro sint_of_nat64) simp
  moreover have "sint (of_nat a + of_nat n :: 64 word) = int (a + n)" using assms by (intro sint_add_of_nat) simp
  ultimately show ?thesis using assms by (simp add: slice64_def nat_add_distrib)
qed

lemma length_ents_bytes: "9 * length es \<le> length (ents_bytes es)"
proof (induction es)
  case (Cons e es)
  then show ?case by (cases e) (simp add: ents_bytes_def encodeEntry_parts(5))
qed (simp add: ents_bytes_def)

lemma ents_bytes_ok: "length (ents_bytes es) < 2 ^ 32 \<Longrightarrow> list_all ent_ok es"
proof (induction es)
  case (Cons e es)
  then show ?case by (cases e) (auto simp: ents_bytes_def encodeEntry_parts(5) ent_ok_def split: if_splits)
qed simp

lemma decodeBlock_at:
  assumes "r_data r = pre @ block_bytes b @ post" "length (r_data r) < 2 ^ 63"
    and "list_all ent_ok b" "length b < 2 ^ 32"
  shows "decodeBlock r (of_nat (length pre)) (of_nat (length (block_bytes b))) = Ok (map rd_entry b)"
proof -
  have rng: "length pre + length (block_bytes b) \<le> length (r_data r)" using assms(1) by simp
  have s: "sint (of_nat (length pre) + of_nat (length (block_bytes b)) :: 64 word) = int (length pre + length (block_bytes b))"
    using rng assms(2) by (intro sint_add_of_nat) simp
  have sl: "slice64 (r_data r) (of_nat (length pre)) (of_nat (length pre) + of_nat (length (block_bytes b))) = Ok (block_bytes b)"
    using slice64_of_nat [OF assms(2) rng] assms(1) by simp
  have n: "unat (of_nat (length b) :: 32 word) = length b" by (rule unat_of_nat32 [OF assms(4)])
  show ?thesis
    unfolding decodeBlock_def s sl res_bind.simps
    using rng decodeEntries_ents [OF assms(3), of "[]"] by (simp add: block_bytes_def n Let_def)
qed

subsection \<open>Opening a written table\<close>

lemma ucast_of_nat_32: "n < 2 ^ 32 \<Longrightarrow> ucast (of_nat n :: 32 word) = (of_nat n :: 64 word)"
  by (simp add: unsigned_of_nat take_bit_nat_eq_self)

lemma parseIndexEntries_index:
  assumes "\<forall>b\<in>set bs. length (fst (last b)) < 2 ^ 32 \<and> length (block_bytes b) < 2 ^ 32"
  shows "parseIndexEntries (length bs) (concat (map encodeIndexEntry (index_of off bs)) @ r) = Ok (index_of off bs)"
  using assms
proof (induction bs arbitrary: off)
  case (Cons b bs)
  let ?lk = "fst (last b)" and ?n = "length (block_bytes b)"
  define R where "R = concat (map encodeIndexEntry (index_of (off + ?n) bs)) @ r"
  have ih: "parseIndexEntries (length bs) R = Ok (index_of (off + ?n) bs)" using Cons by (simp add: R_def)
  have l: "unat (of_nat (length ?lk) :: 32 word) = length ?lk" and u: "ucast (of_nat ?n :: 32 word) = (of_nat ?n :: 64 word)"
    using Cons.prems by (simp_all add: unat_of_nat32 ucast_of_nat_32)
  let ?ie = "\<lparr>lastKey = ?lk, ie_offset = of_nat off, ie_blockSize = of_nat ?n\<rparr>"
  have enc: "encodeIndexEntry ?ie = PutUint32 (of_nat (length ?lk)) @ ?lk @ PutUint64 (of_nat off) @ PutUint32 (of_nat ?n)"
    by (simp add: encodeIndexEntry_def)
  have "parseIndexEntries (Suc (length bs)) (encodeIndexEntry ?ie @ R) = Ok (?ie # index_of (off + ?n) bs)"
    using ih by (simp add: enc l u Let_def)
  then show ?case by (simp add: R_def del: parseIndexEntries.simps)
qed simp

lemma length_footer_head [codec]: "length (footer_head a b c d) = 44"
  by (simp add: footer_head_def)

lemma length_footer_bytes [codec]: "length (footer_bytes a b c d) = 48"
  by (simp add: footer_bytes_def Let_def length_footer_head)

lemma footer_parts:
  fixes io isz bo bsz
  defines "f \<equiv> footer_bytes io isz bo bsz"
  shows "Uint32 (take 4 (drop 44 f)) = ChecksumIEEE (take 44 f)"
    and "Uint64 (take 8 f) = of_nat io" and "Uint32 (take 4 (drop 8 f)) = of_nat isz"
    and "Uint64 (take 8 (drop 12 f)) = of_nat bo" and "Uint32 (take 4 (drop 20 f)) = of_nat bsz"
    and "Uint64 (take 8 (drop 32 f)) = magicNumber" and "Uint32 (take 4 (drop 40 f)) = version"
proof -
  show "Uint32 (take 4 (drop 44 f)) = ChecksumIEEE (take 44 f)"
    by (simp add: f_def footer_bytes_def Let_def length_footer_head)
qed (simp_all add: f_def footer_bytes_def footer_head_def Let_def)

lemma parseFooter_table:
  assumes "r_data r = pre @ footer_bytes io isz bo bsz" "r_size r = length (r_data r)"
  shows "parseFooter r = Ok (r\<lparr>footer := \<lparr>IndexOffset = of_nat io, IndexSize = of_nat isz, BloomOffset = of_nat bo,
           BloomSize = of_nat bsz, MagicNumber = magicNumber, Version = version\<rparr>\<rparr>)"
proof -
  have "drop (r_size r - footerSize) (r_data r) = footer_bytes io isz bo bsz"
    using assms by (simp add: footerSize_def length_footer_bytes)
  then show ?thesis by (simp add: parseFooter_def Let_def footer_parts)
qed

lemma section_in_range:
  assumes "r_size r = length (r_data r)" "length (r_data r) < 2 ^ 32" "a + n \<le> length (r_data r)"
  shows "\<not> (sint (of_nat a :: 64 word) < 0 \<or> sint (of_nat a + ucast (of_nat n :: 32 word) :: 64 word) > int (r_size r))"
    and "slice64 (r_data r) (of_nat a) (of_nat a + ucast (of_nat n :: 32 word)) = Ok (take n (drop a (r_data r)))"
proof -
  have u: "ucast (of_nat n :: 32 word) = (of_nat n :: 64 word)" using assms by (intro ucast_of_nat_32) simp
  have s: "sint (of_nat a :: 64 word) = int a" using assms by (intro sint_of_nat64) simp
  have s2: "sint (of_nat a + of_nat n :: 64 word) = int (a + n)" using assms by (intro sint_add_of_nat) simp
  show "\<not> (sint (of_nat a :: 64 word) < 0 \<or> sint (of_nat a + ucast (of_nat n :: 32 word) :: 64 word) > int (r_size r))"
    unfolding u s s2 using assms by simp
  show "slice64 (r_data r) (of_nat a) (of_nat a + ucast (of_nat n :: 32 word)) = Ok (take n (drop a (r_data r)))"
    unfolding u using assms by (intro slice64_of_nat) auto
qed

lemma parseIndex_table:
  assumes "r_size r = length (r_data r)" "length (r_data r) < 2 ^ 32"
    and "IndexOffset (footer r) = of_nat (length pre)" "IndexSize (footer r) = of_nat (length (index_block bs))"
    and "r_data r = pre @ index_block bs @ post"
    and "\<forall>b\<in>set bs. length (fst (last b)) < 2 ^ 32 \<and> length (block_bytes b) < 2 ^ 32" "length bs < 2 ^ 32"
  shows "parseIndex r = Ok (r\<lparr>r_index := index_of 0 bs\<rparr>)"
proof -
  have rng: "length pre + length (index_block bs) \<le> length (r_data r)" using assms(5) by simp
  note s = section_in_range [OF assms(1,2) rng]
  have sl: "take (length (index_block bs)) (drop (length pre) (r_data r)) = index_block bs" using assms(5) by simp
  have n: "unat (of_nat (length bs) :: 32 word) = length bs" by (rule unat_of_nat32 [OF assms(7)])
  have pe: "parseIndexEntries (length bs) (index_bytes bs) = Ok (index_of 0 bs)"
    using parseIndexEntries_index [OF assms(6), of 0 "[]"] by (simp add: index_bytes_def)
  show ?thesis
    unfolding parseIndex_def Let_def assms(3,4) s(2) sl res_bind.simps if_not_P [OF s(1)]
    by (simp add: index_block_def n pe)
qed

lemma parseBloom_table:
  assumes "r_size r = length (r_data r)" "length (r_data r) < 2 ^ 32"
    and "BloomOffset (footer r) = of_nat (length pre)" "BloomSize (footer r) = of_nat (length (bloom_block bf))"
    and "r_data r = pre @ bloom_block bf @ post" "bloom_wf bf"
  shows "parseBloom r = Ok (r\<lparr>bloom := bf\<rparr>)"
proof -
  have rng: "length pre + length (bloom_block bf) \<le> length (r_data r)" using assms(5) by simp
  note s = section_in_range [OF assms(1,2) rng]
  have sl: "take (length (bloom_block bf)) (drop (length pre) (r_data r)) = bloom_block bf" using assms(5) by simp
  show ?thesis
    unfolding parseBloom_def Let_def assms(3,4) s(2) sl res_bind.simps if_not_P [OF s(1)]
    by (simp add: bloom_block_def Decode_Encode [OF assms(6)])
qed

text \<open>\<open>reader_rep r B\<close>: the reader sees the blocks \<open>B\<close>, and its index, filter and key range are
  those of the blocks.\<close>

definition reader_rep :: "Reader \<Rightarrow> sstentry list list \<Rightarrow> bool" where
  "reader_rep r B \<longleftrightarrow> length (r_index r) = length B \<and>
     (\<forall>i < length B. B ! i \<noteq> [] \<and> lastKey (r_index r ! i) = e_key (last (B ! i)) \<and>
        decodeBlock r (ie_offset (r_index r ! i)) (ie_blockSize (r_index r ! i)) = Ok (B ! i)) \<and>
     sorted_wrt (<) (map e_key (concat B)) \<and> bloom_wf (bloom r) \<and>
     (\<forall>e\<in>set (concat B). BloomFilter_MayContain (bloom r) (e_key e) = Ok True) \<and>
     r_minKey r = (if B = [] then None else Some (e_key (hd (concat B)))) \<and>
     r_maxKey r = (if B = [] then None else Some (e_key (last (concat B))))"

lemma index_of_nth:
  "i < length bs \<Longrightarrow> index_of off bs ! i = \<lparr>lastKey = fst (last (bs ! i)),
     ie_offset = of_nat (off + length (data_bytes (take i bs))), ie_blockSize = of_nat (length (block_bytes (bs ! i)))\<rparr>"
proof (induction bs arbitrary: off i)
  case (Cons b bs)
  then show ?case by (cases i) (simp_all add: data_bytes_def add.assoc)
qed simp

lemma data_bytes_split:
  "i < length bs \<Longrightarrow> data_bytes bs = data_bytes (take i bs) @ block_bytes (bs ! i) @ data_bytes (drop (Suc i) bs)"
proof -
  assume "i < length bs"
  then have "bs = take i bs @ bs ! i # drop (Suc i) bs" by (rule id_take_nth_drop)
  then show ?thesis by (metis (no_types, lifting) concat.simps(2) concat_append data_bytes_def list.simps(9) map_append)
qed

lemma block_bounds:
  assumes "length (data_bytes bs) < 2 ^ 32" "b \<in> set bs" "b \<noteq> []"
  shows "length (block_bytes b) < 2 ^ 32" "length (ents_bytes b) < 2 ^ 32" "length b < 2 ^ 32" "length (fst (last b)) < 2 ^ 32"
proof -
  obtain i where i: "i < length bs" "b = bs ! i" using assms(2) by (auto simp: in_set_conv_nth)
  show bb: "length (block_bytes b) < 2 ^ 32" using assms(1) data_bytes_split [OF i(1)] i(2) by simp
  then show eb: "length (ents_bytes b) < 2 ^ 32" by (simp add: block_bytes_def)
  then show "length b < 2 ^ 32" using length_ents_bytes [of b] by simp
  have "ent_ok (last b)" using ents_bytes_ok [OF eb] assms(3) by (simp add: list_all_iff)
  then show "length (fst (last b)) < 2 ^ 32" by (auto simp: ent_ok_def split: prod.splits)
qed

lemma length_bs_bound: "\<forall>b\<in>set bs. b \<noteq> [] \<Longrightarrow> length bs \<le> length (data_bytes bs)"
  by (induction bs) (auto simp: data_bytes_def block_bytes_def)

lemma OpenReader_table:
  assumes fe: "file = table_bytes bs bf" "length file < 2 ^ 32" and bf: "bloom_wf bf" and ne: "\<forall>b\<in>set bs. b \<noteq> []"
    and mem: "\<forall>e\<in>set (concat bs). BloomFilter_MayContain bf (fst e) = Ok True"
    and srt: "sorted_wrt (<) (map fst (concat bs))"
  shows "\<exists>r. OpenReader rd_ok file = Ok r \<and> reader_rep r (map (map rd_entry) bs)"
proof -
  let ?D = "data_bytes bs" and ?I = "index_block bs" and ?B = "bloom_block bf"
  let ?F = "footer_bytes (length ?D) (length ?I) (length ?D + length ?I) (length ?B)"
  let ?ft = "\<lparr>IndexOffset = of_nat (length ?D), IndexSize = of_nat (length ?I), BloomOffset = of_nat (length ?D + length ?I),
           BloomSize = of_nat (length ?B), MagicNumber = magicNumber, Version = version\<rparr>"
  define r0 where "r0 = \<lparr>r_data = file, r_size = length file,
      footer = \<lparr>IndexOffset = 0, IndexSize = 0, BloomOffset = 0, BloomSize = 0, MagicNumber = 0, Version = 0\<rparr>,
      r_index = [], bloom = \<lparr>bf_bits = [], bf_m = 0, bf_k = 0\<rparr>, r_minKey = None, r_maxKey = None\<rparr>"
  have fl: "file = ?D @ ?I @ ?B @ ?F" using fe(1) by (simp add: table_bytes_def)
  then have dl: "length ?D < 2 ^ 32" using fe(2) by simp
  note bb = block_bounds [OF dl]
  have bnd: "\<forall>b\<in>set bs. length (fst (last b)) < 2 ^ 32 \<and> length (block_bytes b) < 2 ^ 32" using bb ne by blast
  have nb: "length bs < 2 ^ 32" using length_bs_bound [OF ne] dl by simp
  have p1: "parseFooter r0 = Ok (r0\<lparr>footer := ?ft\<rparr>)"
    by (rule parseFooter_table [of _ "?D @ ?I @ ?B"]) (simp_all add: r0_def fl)
  have p2: "parseIndex (r0\<lparr>footer := ?ft\<rparr>) = Ok (r0\<lparr>footer := ?ft, r_index := index_of 0 bs\<rparr>)"
    by (rule parseIndex_table [of _ ?D _ "?B @ ?F"]) (use bnd nb fe(2) in \<open>simp_all add: r0_def fl\<close>)
  define r3 where "r3 = r0\<lparr>footer := ?ft, r_index := index_of 0 bs, bloom := bf\<rparr>"
  have p3: "parseBloom (r0\<lparr>footer := ?ft, r_index := index_of 0 bs\<rparr>) = Ok r3"
    unfolding r3_def by (rule parseBloom_table [of _ "?D @ ?I" _ ?F]) (use bf fe(2) in \<open>simp_all add: r0_def fl\<close>)
  have dec: "decodeBlock r (ie_offset (index_of 0 bs ! i)) (ie_blockSize (index_of 0 bs ! i)) = Ok (map rd_entry (bs ! i))"
    if "i < length bs" "r_data r = file" for i r
  proof -
    have b: "bs ! i \<in> set bs" using that by simp
    have "r_data r = data_bytes (take i bs) @ block_bytes (bs ! i) @ (data_bytes (drop (Suc i) bs) @ ?I @ ?B @ ?F)"
      using that(2) fl data_bytes_split [OF that(1)] by simp
    then show ?thesis using index_of_nth [OF that(1), of 0] decodeBlock_at [of r "data_bytes (take i bs)" "bs ! i"]
        fe(2) that(2) bb(2,3) [OF b] ne b ents_bytes_ok by simp
  qed
  have nsz: "\<not> length file < footerSize" using fl by (simp add: footerSize_def length_footer_bytes)
  have op: "OpenReader rd_ok file = (case r_index r3 of
      [] \<Rightarrow> Ok r3
    | firstBlock # _ \<Rightarrow>
        (case decodeBlock r3 (ie_offset firstBlock) (ie_blockSize firstBlock) of
           Panic \<Rightarrow> Panic
         | Err e \<Rightarrow> Ok (r3\<lparr>r_maxKey := Some (lastKey (last (r_index r3)))\<rparr>)
         | Ok es \<Rightarrow> Ok (r3\<lparr>r_minKey := (case es of [] \<Rightarrow> None | e # _ \<Rightarrow> Some (e_key e)),
                           r_maxKey := Some (lastKey (last (r_index r3)))\<rparr>)))"
    unfolding OpenReader_def Let_def r0_def [symmetric] p1 res_bind.simps p2 p3 using nsz by (simp add: rd_ok_def)
  have rep: "reader_rep (r3\<lparr>r_minKey := mn, r_maxKey := mx\<rparr>) (map (map rd_entry) bs)"
    if "mn = (if bs = [] then None else Some (fst (hd (concat bs))))" "mx = (if bs = [] then None else Some (fst (last (concat bs))))" for mn mx
  proof -
    have ce: "concat (map (map rd_entry) bs) = map rd_entry (concat bs)" by (simp add: map_concat)
    have "bs \<noteq> [] \<Longrightarrow> concat bs \<noteq> []" using ne by (cases bs) auto
    then show ?thesis unfolding reader_rep_def ce
      using that srt bf mem dec ne by (auto simp: r3_def r0_def comp_def hd_map last_map index_of_nth)
  qed
  show ?thesis
  proof (cases bs)
    case Nil
    have "r3 = r3\<lparr>r_minKey := None, r_maxKey := None\<rparr>" by (simp add: r3_def r0_def)
    then have "reader_rep r3 (map (map rd_entry) bs)" using rep [of None None] Nil by simp
    then show ?thesis using op Nil by (simp add: r3_def)
  next
    case (Cons b bs')
    obtain e b' where b: "b = e # b'" using ne Cons by (cases b) auto
    have ix: "r_index r3 = index_of 0 bs" by (simp add: r3_def)
    have d0: "decodeBlock r3 (ie_offset (index_of 0 bs ! 0)) (ie_blockSize (index_of 0 bs ! 0)) = Ok (map rd_entry (bs ! 0))"
      by (rule dec) (simp_all add: Cons r3_def r0_def)
    have lst: "lastKey (last (index_of 0 bs)) = fst (last (concat bs))"
    proof -
      have "index_of 0 bs \<noteq> []" using Cons by simp
      then have "last (index_of 0 bs) = index_of 0 bs ! (length bs - 1)" by (simp add: last_conv_nth)
      then have "lastKey (last (index_of 0 bs)) = fst (last (last bs))" using Cons by (simp add: index_of_nth last_conv_nth del: index_of.simps)
      also have "last (last bs) = last (concat bs)"
        using Cons ne by (metis append_Nil2 append_butlast_last_id concat.simps concat_append last_appendR last_in_set list.discI)
      finally show ?thesis .
    qed
    have "OpenReader rd_ok file = Ok (r3\<lparr>r_minKey := Some (fst e), r_maxKey := Some (fst (last (concat bs)))\<rparr>)"
      using op d0 lst unfolding ix Cons b by simp
    then show ?thesis using rep [of "Some (fst e)"] Cons b by auto
  qed
qed

subsection \<open>The binary search\<close>

text \<open>The first block whose last key is not below \<open>k\<close>.\<close>

definition first_ge :: "indexEntry list \<Rightarrow> bytes \<Rightarrow> nat" where
  "first_ge idx k = length (takeWhile (\<lambda>ie. lastKey ie < k) idx)"

lemma first_ge_eq:
  assumes "n \<le> length idx" "\<forall>j < n. lastKey (idx ! j) < k" "n < length idx \<Longrightarrow> k \<le> lastKey (idx ! n)"
  shows "first_ge idx k = n"
proof -
  have "takeWhile (\<lambda>ie. lastKey ie < k) idx = take n idx"
    using assms by (intro takeWhile_eq_take_P_nth) (auto simp: not_less)
  then show ?thesis using assms(1) by (simp add: first_ge_def)
qed

lemma searchIndex_spec:
  assumes "sorted_wrt (<) (map lastKey idx)" "0 \<le> lo" "lo \<le> hi + 1" "hi < int (length idx)"
    and "\<forall>j. int j < lo \<longrightarrow> lastKey (idx ! j) < k"
    and "hi + 1 < int (length idx) \<Longrightarrow> k \<le> lastKey (idx ! nat (hi + 1))"
    and "best = (if hi + 1 < int (length idx) then hi + 1 else -1)"
  shows "searchIndex idx k lo hi best = (if first_ge idx k < length idx then int (first_ge idx k) else -1)"
  using assms
proof (induction idx k lo hi best rule: searchIndex.induct)
  case (1 idx k lo hi best)
  show ?case
  proof (cases "lo \<le> hi")
    case False
    then have lo: "lo = hi + 1" using "1.prems" by simp
    have "first_ge idx k = nat lo" using "1.prems" lo by (intro first_ge_eq) auto
    then show ?thesis using "1.prems" lo by (subst searchIndex.simps) auto
  next
    case True
    define mid where "mid = lo + (hi - lo) div 2"
    have m: "lo \<le> mid" "mid \<le> hi" using True by (auto simp: mid_def)
    have mn: "nat mid < length idx" using m "1.prems" by auto
    have mono: "lastKey (idx ! j) < lastKey (idx ! nat mid)" if "int j < mid" for j
      using that mn "1.prems"(1) sorted_wrt_nth_less [of "(<)" "map lastKey idx" j "nat mid"] m "1.prems"(2)
      by (simp add: nat_less_iff zless_nat_eq_int_zless)
    show ?thesis
    proof (cases "k \<le> lastKey (idx ! nat mid)")
      case ge: True
      then have "searchIndex idx k lo hi best = searchIndex idx k lo (mid - 1) mid"
        using True by (subst searchIndex.simps) (simp add: mid_def Let_def)
      also have "\<dots> = (if first_ge idx k < length idx then int (first_ge idx k) else -1)"
        using ge True m mn "1.prems" by (intro "1.IH"(1) [OF True mid_def]) auto
      finally show ?thesis .
    next
      case lt: False
      then have "searchIndex idx k lo hi best = searchIndex idx k (mid + 1) hi best"
        using True by (subst searchIndex.simps) (simp add: mid_def Let_def)
      also have "\<dots> = (if first_ge idx k < length idx then int (first_ge idx k) else -1)"
      proof (rule "1.IH"(2) [OF True mid_def])
        show "\<forall>j. int j < mid + 1 \<longrightarrow> lastKey (idx ! j) < k"
        proof (intro allI impI)
          fix j assume "int j < mid + 1"
          then have "int j < mid \<or> j = nat mid" by linarith
          then show "lastKey (idx ! j) < k" using mono lt by (auto simp: not_le intro: order_less_trans)
        qed
      qed (use lt True m "1.prems" in auto)
      finally show ?thesis .
    qed
  qed
qed

lemma searchIndex_first:
  assumes "sorted_wrt (<) (map lastKey idx)" "idx \<noteq> []"
  shows "searchIndex idx k 0 (int (length idx) - 1) (-1) =
    (if first_ge idx k < length idx then int (first_ge idx k) else -1)"
  using assms by (intro searchIndex_spec) auto

lemma first_ge_less: "j < first_ge idx k \<Longrightarrow> j < length idx \<and> lastKey (idx ! j) < k"
  unfolding first_ge_def by (metis length_takeWhile_le order_less_le_trans nth_mem set_takeWhileD takeWhile_nth)

lemma first_ge_at: "first_ge idx k < length idx \<Longrightarrow> k \<le> lastKey (idx ! first_ge idx k)"
  unfolding first_ge_def by (metis linorder_not_less nth_length_takeWhile)

subsection \<open>Point lookup\<close>

lemma scanBlock_append:
  "scanBlock (xs @ ys) k = (if \<exists>e\<in>set xs. e_key e = k then scanBlock xs k else scanBlock ys k)"
  by (induction xs) auto

lemma scanBlock_none: "\<forall>e\<in>set xs. e_key e \<noteq> k \<Longrightarrow> scanBlock xs k = (None, False)"
  by (induction xs) auto

lemma sorted_concat_last:
  assumes "sorted_wrt (<) (map e_key (concat B))" "i < length B" "e \<in> set (B ! i)"
  shows "e_key e \<le> e_key (last (B ! i))"
    and "i < j \<Longrightarrow> j < length B \<Longrightarrow> e' \<in> set (B ! j) \<Longrightarrow> e_key e < e_key e'"
proof -
  have B: "B = take i B @ B ! i # drop (Suc i) B" by (rule id_take_nth_drop [OF assms(2)])
  have s: "sorted_wrt (<) (map e_key (concat (take i B) @ B ! i @ concat (drop (Suc i) B)))"
    using assms(1) B by (metis concat.simps(2) concat_append)
  then have "sorted_wrt (<) (map e_key (B ! i))" by (simp add: sorted_wrt_append)
  then have "e_key e \<le> last (map e_key (B ! i))" by (rule sorted_le_last) (use assms(3) in simp)
  then show "e_key e \<le> e_key (last (B ! i))" using assms(3) by (cases "B ! i") (auto simp: last_map)
  show "e_key e < e_key e'" if "i < j" "j < length B" "e' \<in> set (B ! j)"
  proof -
    have "B ! j \<in> set (drop (Suc i) B)" using that by (auto simp: in_set_conv_nth intro!: exI [of _ "j - Suc i"])
    then show ?thesis using s assms(3) that(3) by (auto simp: sorted_wrt_append)
  qed
qed

lemma in_set_concat_nth: "e \<in> set (concat B) \<longleftrightarrow> (\<exists>j < length B. e \<in> set (B ! j))"
  by (simp add: Bex_def in_set_conv_nth [of _ B]) blast

lemma reader_rep_sorted_index:
  assumes "reader_rep r B" shows "sorted_wrt (<) (map lastKey (r_index r))"
proof -
  have "lastKey (r_index r ! i) < lastKey (r_index r ! j)" if "i < j" "j < length B" for i j
    using assms that sorted_concat_last(2) [of B i "last (B ! i)" j "last (B ! j)"]
    by (auto simp: reader_rep_def)
  then show ?thesis using assms by (simp add: sorted_wrt_iff_nth_less reader_rep_def)
qed

lemma scan_concat:
  assumes "sorted_wrt (<) (map e_key (concat B))" "i < length B" "B ! i \<noteq> []"
    and "\<forall>j < i. B ! j \<noteq> [] \<longrightarrow> e_key (last (B ! j)) < k" "k \<le> e_key (last (B ! i))"
  shows "scanBlock (concat B) k = scanBlock (B ! i) k"
proof -
  have B: "concat B = concat (take i B) @ B ! i @ concat (drop (Suc i) B)"
    by (metis assms(2) concat.simps(2) concat_append id_take_nth_drop)
  have pre: "\<forall>e\<in>set (concat (take i B)). e_key e \<noteq> k"
  proof
    fix e assume "e \<in> set (concat (take i B))"
    then obtain j where j: "j < i" "e \<in> set (B ! j)" using assms(2) unfolding in_set_concat_nth by auto
    then have "e_key e \<le> e_key (last (B ! j))" "e_key (last (B ! j)) < k"
      using sorted_concat_last(1) [OF assms(1), of j e] assms(2,4) by (auto dest: spec [of _ j])
    then show "e_key e \<noteq> k" by auto
  qed
  have post: "\<forall>e\<in>set (concat (drop (Suc i) B)). e_key e \<noteq> k"
  proof
    fix e assume "e \<in> set (concat (drop (Suc i) B))"
    then obtain n where "n < length B - Suc i" "e \<in> set (B ! (Suc i + n))" unfolding in_set_concat_nth by auto
    then have n: "Suc i + n < length B" "e \<in> set (B ! (Suc i + n))" by simp_all
    then have "e_key (last (B ! i)) < e_key e"
      using sorted_concat_last(2) [OF assms(1,2), of "last (B ! i)" "Suc i + n" e] assms(3) by auto
    then show "e_key e \<noteq> k" using assms(5) by auto
  qed
  show ?thesis unfolding B using scanBlock_none [OF post] pre
    by (auto simp: scanBlock_append scanBlock_none)
qed

lemma Reader_Get_rep:
  assumes "reader_rep r B" shows "Reader_Get r k = Ok (scanBlock (concat B) k)"
proof (cases "B = []")
  case True
  then show ?thesis using assms by (simp add: Reader_Get_def reader_rep_def)
next
  case False
  let ?n = "first_ge (r_index r) k"
  have ix: "r_index r \<noteq> []" "length (r_index r) = length B" using assms False by (auto simp: reader_rep_def)
  obtain may where may: "BloomFilter_MayContain (bloom r) k = Ok may"
    using MayContain_total [of "bloom r" k] assms by (auto simp: reader_rep_def)
  have si: "searchIndex (r_index r) k 0 (int (length (r_index r)) - 1) (-1) = (if ?n < length B then int ?n else -1)"
    using searchIndex_first [OF reader_rep_sorted_index [OF assms] ix(1)] ix(2) by simp
  have lk: "\<And>j. j < length B \<Longrightarrow> lastKey (r_index r ! j) = e_key (last (B ! j)) \<and> B ! j \<noteq> []"
    and srt: "sorted_wrt (<) (map e_key (concat B))" using assms by (auto simp: reader_rep_def)
  consider "\<not> may" | "may" "\<not> ?n < length B" | "may" "?n < length B" by blast
  then show ?thesis
  proof cases
    case 1
    then have "\<forall>e\<in>set (concat B). e_key e \<noteq> k" using assms may by (auto simp: reader_rep_def)
    then show ?thesis using 1 may ix by (simp add: Reader_Get_def scanBlock_none)
  next
    case 2
    have "e_key e \<noteq> k" if "e \<in> set (concat B)" for e
    proof -
      obtain j where j: "j < length B" "e \<in> set (B ! j)" using in_set_concat_nth [of e B] \<open>e \<in> set (concat B)\<close> by blast
      have "lastKey (r_index r ! j) < k" using first_ge_less [of j "r_index r" k] j 2 by simp
      then show ?thesis using sorted_concat_last(1) [OF srt j] lk j by auto
    qed
    then show ?thesis using 2 may ix si by (simp add: Reader_Get_def scanBlock_none)
  next
    case 3
    have "decodeBlock r (ie_offset (r_index r ! ?n)) (ie_blockSize (r_index r ! ?n)) = Ok (B ! ?n)"
      using assms 3 by (simp add: reader_rep_def)
    moreover have "scanBlock (concat B) k = scanBlock (B ! ?n) k"
    proof (rule scan_concat [OF srt 3(2)])
      show "k \<le> e_key (last (B ! ?n))" using first_ge_at [of "r_index r" k] 3 lk ix by simp
      show "\<forall>j < ?n. B ! j \<noteq> [] \<longrightarrow> e_key (last (B ! j)) < k"
        using first_ge_less [of _ "r_index r" k] lk ix by metis
    qed (use lk 3 in simp)
    ultimately show ?thesis using 3 may ix si by (simp add: Reader_Get_def)
  qed
qed

subsection \<open>Properties\<close>

lemma decodeBlock_raw:
  assumes "r_data r = pre @ (body @ PutUint32 n @ PutUint32 c) @ post" "length (r_data r) < 2 ^ 63"
  shows "decodeBlock r (of_nat (length pre)) (of_nat (length body + 8)) =
    (if c \<noteq> ChecksumIEEE body then Err ''sstable: data block CRC mismatch'' else decodeEntries (unat n) body)"
proof -
  have rng: "length pre + (length body + 8) \<le> length (r_data r)" using assms(1) by simp
  have s: "sint (of_nat (length pre) + of_nat (length body + 8) :: 64 word) = int (length pre + (length body + 8))"
    using rng assms(2) by (intro sint_add_of_nat) simp
  have sl: "slice64 (r_data r) (of_nat (length pre)) (of_nat (length pre) + of_nat (length body + 8)) =
      Ok (body @ PutUint32 n @ PutUint32 c)"
    using slice64_of_nat [OF assms(2) rng] assms(1) by simp
  show ?thesis unfolding decodeBlock_def s sl res_bind.simps using rng by (simp add: Let_def)
qed

text \<open>Damage confined to four consecutive bytes of a data block's entries is reported as a
  checksum mismatch: no entry of a block damaged so is ever returned.\<close>

theorem sstable_block_damage_detected:
  assumes "r_data r = pre @ (xs @ bad @ ys @ PutUint32 n @ PutUint32 (ChecksumIEEE (xs @ good @ ys))) @ post"
    and "length (r_data r) < 2 ^ 63" "length bad = length good" "length good \<le> 4" "bad \<noteq> good"
  shows "decodeBlock r (of_nat (length pre)) (of_nat (length (xs @ bad @ ys) + 8)) =
    Err ''sstable: data block CRC mismatch''"
proof -
  have "ChecksumIEEE (xs @ bad @ ys) \<noteq> ChecksumIEEE (xs @ good @ ys)" by (rule ChecksumIEEE_window [OF assms(3-5)])
  then show ?thesis using decodeBlock_raw [of r pre "xs @ bad @ ys" n _ post] assms(1,2) by simp
qed

definition sample_reader :: "bytes \<Rightarrow> Reader" where
  "sample_reader d = \<lparr>r_data = d, r_size = length d,
     footer = \<lparr>IndexOffset = 0, IndexSize = 0, BloomOffset = 0, BloomSize = 0, MagicNumber = 0, Version = 0\<rparr>,
     r_index = [], bloom = \<lparr>bf_bits = [], bf_m = 0, bf_k = 0\<rparr>, r_minKey = None, r_maxKey = None\<rparr>"

theorem sstable_block_damage_detected_witness:
  "decodeBlock (sample_reader ([] @ ([1, 2] @ [9] @ [4] @ PutUint32 1 @ PutUint32 (ChecksumIEEE ([1, 2] @ [3] @ [4]))) @ []))
     (of_nat 0) (of_nat 12) = Err ''sstable: data block CRC mismatch''"
  using sstable_block_damage_detected [where r = "sample_reader ([] @ ([1, 2] @ [9] @ [4] @ PutUint32 1 @ PutUint32 (ChecksumIEEE ([1, 2] @ [3] @ [4]))) @ [])"
      and pre = "[]" and xs = "[1, 2]" and bad = "[9]" and good = "[3]" and ys = "[4]" and n = 1 and post = "[]"]
  by (simp add: sample_reader_def)

text \<open>The entry count in a block's trailer is outside its checksum: a count changed to any
  smaller one is accepted, and the block is read, without an error, as its first entries only.\<close>

theorem sstable_block_count_unprotected:
  assumes "length (pre @ block_bytes b @ post) < 2 ^ 32" "n \<le> length b"
    and "r_data r = pre @ (ents_bytes b @ PutUint32 (of_nat n) @ PutUint32 (ChecksumIEEE (ents_bytes b))) @ post"
  shows "decodeBlock r (of_nat (length pre)) (of_nat (length (block_bytes b))) = Ok (map rd_entry (take n b))"
proof -
  have eb: "length (ents_bytes b) < 2 ^ 32" and l: "length (block_bytes b) = length (ents_bytes b) + 8"
    using assms(1) by (simp_all add: block_bytes_def)
  have "length b < 2 ^ 32" using length_ents_bytes [of b] eb by simp
  then have n: "unat (of_nat n :: 32 word) = n" using assms(2) by (intro unat_of_nat32) simp
  have "ents_bytes b = ents_bytes (take n b) @ ents_bytes (drop n b)"
    unfolding ents_bytes_def by (metis append_take_drop_id concat_append map_append)
  moreover have "list_all ent_ok (take n b)" using ents_bytes_ok [OF eb] by (auto simp: list_all_iff dest: in_set_takeD)
  ultimately have "decodeEntries n (ents_bytes b) = Ok (map rd_entry (take n b))"
    using decodeEntries_ents [of "take n b" "ents_bytes (drop n b)"] assms(2) by (simp add: min_absorb2)
  moreover have "length (r_data r) < 2 ^ 63" using assms(1,3) by (simp add: block_bytes_def)
  ultimately show ?thesis unfolding l using decodeBlock_raw [OF assms(3)] n by simp
qed

theorem sstable_block_count_unprotected_witness:
  "decodeBlock (sample_reader (ents_bytes [([1], Some [2], False)] @ PutUint32 (of_nat 0) @
       PutUint32 (ChecksumIEEE (ents_bytes [([1], Some [2], False)]))))
     (of_nat 0) (of_nat (length (block_bytes [([1], Some [2], False)]))) = Ok []"
  using sstable_block_count_unprotected [of "[]" "[([1], Some [2], False)]" "[]" 0]
  by (simp add: sample_reader_def block_bytes_def ents_bytes_def encodeEntry_def val_bytes_def)

end
