(* ===== verification/SSTable_Iterator.thy ===== *)
theory SSTable_Iterator
  imports SSTable_Reader
begin

text \<open>
  \<open>sstable/iterator.go\<close>: iteration over a table, block by block. The lemmas give the iterator's
  position as the list of entries it has still to visit and show how every operation acts on it.
\<close>

record SSTIterator =
  si_reader :: Reader
  si_blockIdx :: int
  si_entries :: "sstentry list"
  si_entryIdx :: int
  si_valid :: bool

definition Reader_NewIterator :: "Reader \<Rightarrow> SSTIterator" where
  "Reader_NewIterator r = \<lparr>si_reader = r, si_blockIdx = -1, si_entries = [], si_entryIdx = -1, si_valid = False\<rparr>"

definition loadBlock :: "SSTIterator \<Rightarrow> int \<Rightarrow> SSTIterator res" where
  "loadBlock it idx =
     (if idx < 0 \<or> idx \<ge> int (length (r_index (si_reader it))) then Panic
      else let ie = r_index (si_reader it) ! nat idx
           in res_bind (decodeBlock (si_reader it) (ie_offset ie) (ie_blockSize ie))
                (\<lambda>es. Ok (it\<lparr>si_blockIdx := idx, si_entries := es\<rparr>)))"

definition SSTIterator_SeekToFirst :: "SSTIterator \<Rightarrow> SSTIterator res" where
  "SSTIterator_SeekToFirst it =
     (if r_index (si_reader it) = [] then Ok (it\<lparr>si_valid := False\<rparr>)
      else case loadBlock it 0 of
             Panic \<Rightarrow> Panic
           | Err e \<Rightarrow> Ok (it\<lparr>si_valid := False\<rparr>)
           | Ok it1 \<Rightarrow> Ok (it1\<lparr>si_entryIdx := 0, si_valid := (length (si_entries it1) > 0)\<rparr>))"

definition SSTIterator_Next :: "SSTIterator \<Rightarrow> SSTIterator res" where
  "SSTIterator_Next it =
     (if \<not> si_valid it then Ok it
      else let it1 = it\<lparr>si_entryIdx := si_entryIdx it + 1\<rparr>
           in if si_entryIdx it1 \<ge> int (length (si_entries it1)) then
                let nextBlock = si_blockIdx it1 + 1
                in if nextBlock \<ge> int (length (r_index (si_reader it1))) then Ok (it1\<lparr>si_valid := False\<rparr>)
                   else case loadBlock it1 nextBlock of
                          Panic \<Rightarrow> Panic
                        | Err e \<Rightarrow> Ok (it1\<lparr>si_valid := False\<rparr>)
                        | Ok it2 \<Rightarrow> Ok (it2\<lparr>si_entryIdx := 0,
                                             si_valid := (if length (si_entries it2) = 0 then False else si_valid it2)\<rparr>)
              else Ok it1)"

text \<open>The linear scan of \<open>Seek\<close>: the index of the first entry whose key is not below the target.\<close>

fun scanSeek :: "sstentry list \<Rightarrow> bytes \<Rightarrow> nat \<Rightarrow> nat option" where
  "scanSeek [] t i = None"
| "scanSeek (e # es) t i = (if bytes_Compare (e_key e) t \<ge> 0 then Some i else scanSeek es t (i + 1))"

definition SSTIterator_Seek :: "SSTIterator \<Rightarrow> bytes \<Rightarrow> SSTIterator res" where
  "SSTIterator_Seek it target =
     (let idx = r_index (si_reader it) in
      if idx = [] then Ok (it\<lparr>si_valid := False\<rparr>)
      else let blockIdx = searchIndex idx target 0 (int (length idx) - 1) (-1)
           in if blockIdx = -1 then Ok (it\<lparr>si_valid := False\<rparr>)
              else case loadBlock it blockIdx of
                     Panic \<Rightarrow> Panic
                   | Err e \<Rightarrow> Ok (it\<lparr>si_valid := False\<rparr>)
                   | Ok it1 \<Rightarrow>
                       (case scanSeek (si_entries it1) target 0 of
                          Some i \<Rightarrow> Ok (it1\<lparr>si_entryIdx := int i, si_valid := True\<rparr>)
                        | None \<Rightarrow> SSTIterator_Next (it1\<lparr>si_blockIdx := blockIdx,
                                    si_entryIdx := int (length (si_entries it1)), si_valid := True\<rparr>)))"

definition SSTIterator_Valid :: "SSTIterator \<Rightarrow> bool" where
  "SSTIterator_Valid it = si_valid it"

text \<open>The current entry; the index expression panics when it is out of range.\<close>

definition si_current :: "SSTIterator \<Rightarrow> sstentry res" where
  "si_current it =
     (if 0 \<le> si_entryIdx it \<and> si_entryIdx it < int (length (si_entries it))
      then Ok (si_entries it ! nat (si_entryIdx it)) else Panic)"

definition SSTIterator_Key :: "SSTIterator \<Rightarrow> bytes option res" where
  "SSTIterator_Key it = (if \<not> si_valid it then Ok None else res_bind (si_current it) (\<lambda>e. Ok (Some (e_key e))))"

definition SSTIterator_Value :: "SSTIterator \<Rightarrow> bytes option res" where
  "SSTIterator_Value it = (if \<not> si_valid it then Ok None else res_bind (si_current it) (\<lambda>e. Ok (e_value e)))"

definition SSTIterator_IsTombstone :: "SSTIterator \<Rightarrow> bool res" where
  "SSTIterator_IsTombstone it = (if \<not> si_valid it then Ok False else res_bind (si_current it) (\<lambda>e. Ok (e_tombstone e)))"

subsection \<open>The position as what is left to visit\<close>

definition si_inv :: "SSTIterator \<Rightarrow> sstentry list list \<Rightarrow> bool" where
  "si_inv it B \<longleftrightarrow> reader_rep (si_reader it) B \<and>
     (si_valid it \<longrightarrow> 0 \<le> si_blockIdx it \<and> si_blockIdx it < int (length B) \<and> si_entries it = B ! nat (si_blockIdx it) \<and>
        0 \<le> si_entryIdx it \<and> si_entryIdx it < int (length (si_entries it)))"

definition si_rest :: "SSTIterator \<Rightarrow> sstentry list list \<Rightarrow> sstentry list" where
  "si_rest it B =
     (if si_valid it then drop (nat (si_entryIdx it)) (si_entries it) @ concat (drop (nat (si_blockIdx it) + 1) B) else [])"

lemma loadBlock_rep:
  assumes "reader_rep (si_reader it) B" "i < length B"
  shows "loadBlock it (int i) = Ok (it\<lparr>si_blockIdx := int i, si_entries := B ! i\<rparr>)"
  using assms by (simp add: loadBlock_def reader_rep_def Let_def)

lemma concat_drop: "i < length B \<Longrightarrow> concat (drop i B) = B ! i @ concat (drop (Suc i) B)"
  by (metis Cons_nth_drop_Suc concat.simps(2))

lemma SeekToFirst_rep:
  assumes "reader_rep (si_reader it) B"
  shows "\<exists>it'. SSTIterator_SeekToFirst it = Ok it' \<and> si_reader it' = si_reader it \<and> si_inv it' B \<and> si_rest it' B = concat B"
proof (cases "B = []")
  case True
  then show ?thesis using assms by (simp add: SSTIterator_SeekToFirst_def reader_rep_def si_inv_def si_rest_def)
next
  case False
  then have n: "B ! 0 \<noteq> []" "r_index (si_reader it) \<noteq> []" using assms by (auto simp: reader_rep_def)
  have l: "loadBlock it 0 = Ok (it\<lparr>si_blockIdx := 0, si_entries := B ! 0\<rparr>)"
    using loadBlock_rep [OF assms, of 0] False by simp
  show ?thesis using assms False n concat_drop [of 0 B]
    by (simp add: SSTIterator_SeekToFirst_def l si_inv_def si_rest_def)
qed

lemma Next_rep:
  assumes "si_inv it B"
  shows "\<exists>it'. SSTIterator_Next it = Ok it' \<and> si_reader it' = si_reader it \<and> si_inv it' B \<and> si_rest it' B = tl (si_rest it B)"
proof (cases "si_valid it")
  case False
  then show ?thesis using assms by (simp add: SSTIterator_Next_def si_rest_def)
next
  case True
  define i j where "i = nat (si_blockIdx it)" and "j = nat (si_entryIdx it)"
  have ij: "si_blockIdx it = int i" "si_entryIdx it = int j" "i < length B" "si_entries it = B ! i" "j < length (B ! i)"
    and rep: "reader_rep (si_reader it) B"
    using assms True by (auto simp: si_inv_def i_def j_def)
  have len: "length (r_index (si_reader it)) = length B" using rep by (simp add: reader_rep_def)
  have rest: "si_rest it B = B ! i ! j # drop (Suc j) (B ! i) @ concat (drop (Suc i) B)"
    using True ij by (simp add: si_rest_def Cons_nth_drop_Suc)
  consider (same) "Suc j < length (B ! i)" | (last) "Suc j = length (B ! i)" "Suc i = length B"
    | (next_block) "Suc j = length (B ! i)" "Suc i < length B" using ij by linarith
  then show ?thesis
  proof cases
    case same
    then show ?thesis using True ij rep rest
      by (simp add: SSTIterator_Next_def Let_def si_inv_def si_rest_def nat_add_distrib)
  next
    case last
    then show ?thesis using True ij rep rest len
      by (simp add: SSTIterator_Next_def Let_def si_inv_def si_rest_def)
  next
    case next_block
    let ?it1 = "it\<lparr>si_entryIdx := si_entryIdx it + 1\<rparr>"
    have "loadBlock ?it1 (int (Suc i)) = Ok (?it1\<lparr>si_blockIdx := int (Suc i), si_entries := B ! Suc i\<rparr>)"
      by (rule loadBlock_rep) (use rep next_block in simp_all)
    then have l: "loadBlock ?it1 (int i + 1) = Ok (?it1\<lparr>si_blockIdx := int (Suc i), si_entries := B ! Suc i\<rparr>)"
      by (simp add: add.commute)
    have "B ! Suc i \<noteq> []" using rep next_block by (simp add: reader_rep_def)
    then show ?thesis using True ij rep rest len next_block l concat_drop [OF next_block(2)]
      by (simp add: SSTIterator_Next_def Let_def si_inv_def si_rest_def nat_add_distrib)
  qed
qed

lemma scanSeek_takeWhile:
  "scanSeek es t i =
     (if length (takeWhile (\<lambda>e. e_key e < t) es) < length es then Some (i + length (takeWhile (\<lambda>e. e_key e < t) es)) else None)"
  by (induction es arbitrary: i) (auto simp: not_less)

lemma dropWhile_drop: "dropWhile P xs = drop (length (takeWhile P xs)) xs"
  by (induction xs) auto

lemma dropWhile_concat:
  assumes "sorted_wrt (<) (map e_key (concat B))" "n \<le> length B"
    and "\<And>j. j < n \<Longrightarrow> B ! j \<noteq> [] \<and> e_key (last (B ! j)) < k"
    and "n < length B \<Longrightarrow> B ! n \<noteq> [] \<and> k \<le> e_key (last (B ! n))"
  shows "dropWhile (\<lambda>e. e_key e < k) (concat B) =
    (if n < length B then dropWhile (\<lambda>e. e_key e < k) (B ! n) @ concat (drop (Suc n) B) else [])"
proof -
  have pre: "e_key e < k" if e: "e \<in> set (concat (take n B))" for e
  proof -
    obtain j where j: "j < n" "e \<in> set (B ! j)" using e assms(2) unfolding in_set_concat_nth by auto
    have "e_key e \<le> e_key (last (B ! j))" using sorted_concat_last(1) [OF assms(1) _ j(2)] j assms(2) by simp
    then show ?thesis using assms(3) [OF j(1)] by auto
  qed
  have "concat B = concat (take n B) @ concat (drop n B)" by (metis append_take_drop_id concat_append)
  then have eq: "dropWhile (\<lambda>e. e_key e < k) (concat B) = dropWhile (\<lambda>e. e_key e < k) (concat (drop n B))"
    by (simp only: dropWhile_append2 pre)
  show ?thesis
  proof (cases "n < length B")
    case True
    then have "last (B ! n) \<in> set (B ! n)" "\<not> e_key (last (B ! n)) < k" using assms(4) by auto
    then have "dropWhile (\<lambda>e. e_key e < k) (B ! n @ concat (drop (Suc n) B)) =
        dropWhile (\<lambda>e. e_key e < k) (B ! n) @ concat (drop (Suc n) B)" by (rule dropWhile_append1)
    then show ?thesis unfolding eq concat_drop [OF True] using True by simp
  next
    case False
    then show ?thesis using eq by simp
  qed
qed

lemma Seek_rep:
  assumes "reader_rep (si_reader it) B"
  shows "\<exists>it'. SSTIterator_Seek it k = Ok it' \<and> si_reader it' = si_reader it \<and> si_inv it' B \<and>
    si_rest it' B = dropWhile (\<lambda>e. e_key e < k) (concat B)"
proof (cases "B = []")
  case True
  then show ?thesis using assms by (simp add: SSTIterator_Seek_def reader_rep_def si_inv_def si_rest_def)
next
  case False
  let ?idx = "r_index (si_reader it)"
  let ?n = "first_ge ?idx k"
  have ix: "?idx \<noteq> []" "length ?idx = length B" using assms False by (auto simp: reader_rep_def)
  have si: "searchIndex ?idx k 0 (int (length ?idx) - 1) (-1) = (if ?n < length B then int ?n else -1)"
    using searchIndex_first [OF reader_rep_sorted_index [OF assms] ix(1)] ix(2) by simp
  have lk: "\<And>j. j < length B \<Longrightarrow> lastKey (?idx ! j) = e_key (last (B ! j)) \<and> B ! j \<noteq> []"
    and srt: "sorted_wrt (<) (map e_key (concat B))" using assms by (auto simp: reader_rep_def)
  have nle: "?n \<le> length B" using ix(2) by (simp add: first_ge_def length_takeWhile_le flip: ix(2))
  have lo: "\<And>j. j < ?n \<Longrightarrow> B ! j \<noteq> [] \<and> e_key (last (B ! j)) < k" using first_ge_less [of _ ?idx k] lk ix by metis
  have hi: "?n < length B \<Longrightarrow> B ! ?n \<noteq> [] \<and> k \<le> e_key (last (B ! ?n))" using first_ge_at [of ?idx k] lk ix by simp
  note dw = dropWhile_concat [OF srt nle lo hi]
  show ?thesis
  proof (cases "?n < length B")
    case out: False
    then have z: "dropWhile (\<lambda>e. e_key e < k) (concat B) = []" using dw by (simp only: if_False)
    show ?thesis unfolding z using out assms ix si by (simp add: SSTIterator_Seek_def si_inv_def si_rest_def)
  next
    case True
    define b m where "b = B ! ?n" and "m = length (takeWhile (\<lambda>e. e_key e < k) b)"
    have "\<not> (\<forall>e\<in>set b. e_key e < k)" using hi [OF True] by (auto simp: b_def not_less intro!: bexI [of _ "last (B ! ?n)"])
    then have "takeWhile (\<lambda>e. e_key e < k) b \<noteq> b" by (auto simp: takeWhile_eq_all_conv)
    then have m: "m < length b" unfolding m_def
      by (metis length_takeWhile_le order_le_imp_less_or_eq takeWhile_eq_take take_all order_refl)
    have l: "loadBlock it (int ?n) = Ok (it\<lparr>si_blockIdx := int ?n, si_entries := b\<rparr>)"
      unfolding b_def by (rule loadBlock_rep [OF assms True])
    have "SSTIterator_Seek it k = Ok (it\<lparr>si_blockIdx := int ?n, si_entries := b, si_entryIdx := int m, si_valid := True\<rparr>)"
      using True ix si l m by (simp add: SSTIterator_Seek_def scanSeek_takeWhile m_def)
    then show ?thesis using dw assms True m
      by (simp add: si_inv_def si_rest_def b_def [symmetric] dropWhile_drop [of _ b] m_def [symmetric])
  qed
qed

lemma si_observers:
  assumes "si_inv it B"
  shows "SSTIterator_Valid it \<longleftrightarrow> si_rest it B \<noteq> []"
    and "si_rest it B = e # es \<Longrightarrow> SSTIterator_Key it = Ok (Some (e_key e)) \<and> SSTIterator_Value it = Ok (e_value e) \<and>
           SSTIterator_IsTombstone it = Ok (e_tombstone e)"
proof -
  show "SSTIterator_Valid it \<longleftrightarrow> si_rest it B \<noteq> []"
    using assms by (auto simp: SSTIterator_Valid_def si_inv_def si_rest_def)
  assume r: "si_rest it B = e # es"
  then have v: "si_valid it" by (auto simp: si_rest_def split: if_splits)
  then have "0 \<le> si_entryIdx it \<and> si_entryIdx it < int (length (si_entries it))" using assms by (auto simp: si_inv_def)
  moreover from this have "si_entries it ! nat (si_entryIdx it) = e"
    using r v by (simp add: si_rest_def) (metis Cons_nth_drop_Suc append_Cons list.inject nat_less_iff)
  ultimately have "si_current it = Ok e" by (simp add: si_current_def)
  then show "SSTIterator_Key it = Ok (Some (e_key e)) \<and> SSTIterator_Value it = Ok (e_value e) \<and>
           SSTIterator_IsTombstone it = Ok (e_tombstone e)"
    using v by (simp add: SSTIterator_Key_def SSTIterator_Value_def SSTIterator_IsTombstone_def)
qed

subsection \<open>The size of a table\<close>

text \<open>A bound on the size of the file in terms of the entries alone, so that the 32-bit limits of the
  format become a condition on the input.\<close>

definition entry_size :: "sst_entry \<Rightarrow> nat" where
  "entry_size e = 9 + length (fst e) + length (val_bytes (fst (snd e)))"

definition sst_bound :: "sst_entry list \<Rightarrow> nat" where
  "sst_bound es = (\<Sum>e\<leftarrow>es. 2 * entry_size e + 40) + 150"

lemma ents_bytes_size: "length (ents_bytes es) \<le> (\<Sum>e\<leftarrow>es. entry_size e)"
proof (induction es)
  case (Cons e es)
  then show ?case by (cases e) (auto simp: ents_bytes_def encodeEntry_parts(5) entry_size_def)
qed (simp add: ents_bytes_def)

lemma data_bytes_size: "length (data_bytes bs) \<le> (\<Sum>e\<leftarrow>concat bs. entry_size e) + 8 * length bs"
proof (induction bs)
  case (Cons b bs)
  then show ?case using ents_bytes_size [of b] by (simp add: data_bytes_def block_bytes_def)
qed (simp add: data_bytes_def)

lemma key_le_sum: "e \<in> set es \<Longrightarrow> length (fst e) \<le> (\<Sum>e\<leftarrow>es. entry_size e)"
  by (induction es) (auto simp: entry_size_def)

lemma length_encodeIndexEntry [codec]: "length (encodeIndexEntry ie) = 16 + length (lastKey ie)"
  by (simp add: encodeIndexEntry_def)

lemma index_size:
  assumes "\<forall>b\<in>set bs. b \<noteq> []"
  shows "length (concat (map encodeIndexEntry (index_of off bs))) \<le> (\<Sum>e\<leftarrow>concat bs. entry_size e) + 16 * length bs"
  using assms
proof (induction bs arbitrary: off)
  case (Cons b bs)
  have "length (concat (map encodeIndexEntry (index_of (off + length (block_bytes b)) bs))) \<le> (\<Sum>e\<leftarrow>concat bs. entry_size e) + 16 * length bs"
    using Cons by simp
  moreover have "length (fst (last b)) \<le> (\<Sum>e\<leftarrow>b. entry_size e)" using Cons.prems by (intro key_le_sum) simp
  ultimately show ?case by (simp add: length_encodeIndexEntry)
qed simp

lemma blocks_le_entries: "\<forall>b\<in>set bs. b \<noteq> [] \<Longrightarrow> length bs \<le> length (concat bs)"
proof (induction bs)
  case (Cons b bs)
  then have "1 \<le> length b" by (cases b) auto
  then show ?case using Cons by simp
qed simp

lemma sum_entry_bound: "sst_bound es = 2 * (\<Sum>e\<leftarrow>es. entry_size e) + 40 * length es + 150"
  unfolding sst_bound_def by (induction es) auto

lemma bloom_bits_size:
  assumes "bloom_wf bf" "unat (bf_m bf) \<le> 10 * n + 18" shows "length (bf_bits bf) \<le> 10 * n + 25"
proof -
  have "length (bf_bits bf) = (unat (bf_m bf) + 7) div 8" using assms(1) by (simp add: bloom_wf_def unat_numBytes)
  also have "\<dots> \<le> unat (bf_m bf) + 7" by simp
  finally show ?thesis using assms(2) by simp
qed

lemma NewBloomFilter_m:
  assumes "10 * n + 20 < 2 ^ 32" shows "unat (bf_m (NewBloomFilter (max 1 (int n)) 10)) \<le> 10 * n + 18"
proof -
  define x where "x = 10 * max 1 n"
  have g: "(if max 1 (int n) < 1 then 1 else max 1 (int n)) * (if (10::int) \<le> 0 then 10 else 10) = int x"
    by (simp add: x_def max_def)
  have m: "bf_m (NewBloomFilter (max 1 (int n)) 10) = (if (of_nat x :: 32 word) < 8 then 8 else of_nat x)"
    unfolding NewBloomFilter_def Let_def g by simp
  have "unat (of_nat x :: 32 word) = x" using assms by (intro unat_of_nat32) (auto simp: x_def max_def)
  then show ?thesis unfolding m by (auto simp: x_def max_def)
qed

lemma table_size:
  assumes "\<forall>b\<in>set bs. b \<noteq> []" "bloom_wf bf" "unat (bf_m bf) \<le> 10 * length (concat bs) + 18"
  shows "length (table_bytes bs bf) \<le> sst_bound (concat bs)"
proof -
  have "length (index_bytes bs) \<le> (\<Sum>e\<leftarrow>concat bs. entry_size e) + 16 * length bs"
    unfolding index_bytes_def by (rule index_size [OF assms(1)])
  then show ?thesis
    using data_bytes_size [of bs] blocks_le_entries [OF assms(1)] bloom_bits_size [OF assms(2,3)]
    by (simp add: table_bytes_def index_block_def bloom_block_def length_Encode length_footer_bytes sum_entry_bound)
qed

subsection \<open>Tables as maps\<close>

text \<open>Whatever table the writer reports as written opens, and the reader represents its entries.\<close>

lemma write_table_opens:
  assumes "write_table io bsz es = Ok content" "sorted_wrt (<) (map fst es)" "sst_bound es < 2 ^ 32"
  shows "\<exists>r B. OpenReader rd_ok content = Ok r \<and> reader_rep r B \<and> concat B = map rd_entry es"
proof -
  obtain bs bf where b: "concat bs = es" "\<forall>b\<in>set bs. b \<noteq> []" "content = table_bytes bs bf"
    "fold_res BloomFilter_Add (NewBloomFilter (max 1 (int (length es))) 10) (map fst es) = Ok bf"
    using write_table_bytes [OF assms(1)] by blast
  have n: "10 * length es + 20 < 2 ^ 32" using assms(3) by (simp add: sum_entry_bound)
  then have "bloom_wf (NewBloomFilter (max 1 (int (length es))) 10)" by (intro NewBloomFilter_wf) auto
  then obtain bf' where "fold_res BloomFilter_Add (NewBloomFilter (max 1 (int (length es))) 10) (map fst es) = Ok bf'"
    "bloom_wf bf'" "\<forall>k\<in>set (map fst es). BloomFilter_MayContain bf' k = Ok True"
    "bf_m bf' = bf_m (NewBloomFilter (max 1 (int (length es))) 10)"
    using Add_all_spec [of _ "map fst es"] by blast
  then have bf: "bloom_wf bf" "\<forall>e\<in>set (concat bs). BloomFilter_MayContain bf (fst e) = Ok True"
    "unat (bf_m bf) \<le> 10 * length (concat bs) + 18" using b NewBloomFilter_m [OF n] by auto
  have "length content < 2 ^ 32" using table_size [OF b(2) bf(1,3)] assms(3) b by simp
  then obtain r where "OpenReader rd_ok content = Ok r" "reader_rep r (map (map rd_entry) bs)"
    using OpenReader_table [OF b(3) _ bf(1) b(2) bf(2)] assms(2) b(1) by blast
  moreover have "concat (map (map rd_entry) bs) = map rd_entry es" unfolding b(1) [symmetric] by (simp add: map_concat)
  ultimately show ?thesis by blast
qed

lemma write_table_succeeds: "sst_bound es < 2 ^ 32 \<Longrightarrow> \<exists>content. write_table sst_ok bsz es = Ok content"
  by (rule write_table_ok) (simp add: sum_entry_bound)

lemma scanBlock_map_of:
  "scanBlock (map rd_entry es) k =
     (case map_of es k of None \<Rightarrow> (None, False) | Some (v, t) \<Rightarrow> (if t then None else norm_value v, True))"
  by (induction es) (auto split: prod.splits)

subsection \<open>Properties\<close>

text \<open>C23. A table written from entries in strictly increasing key order, whatever the block size and
  with any file operations that report success, opens, and a lookup returns exactly what was
  written: the value, with an empty one read as nil, or nil and found for a tombstone, or not found.
  The bound is that of the format's 32-bit sizes. When no file operation fails, writing succeeds.\<close>

theorem sstable_roundtrip:
  assumes "sorted_wrt (<) (map fst es)" "sst_bound es < 2 ^ 32"
  shows "is_Ok (write_table sst_ok bsz es) \<and>
    (write_table io bsz es = Ok content \<longrightarrow>
      (\<exists>r. OpenReader rd_ok content = Ok r \<and>
        (\<forall>k. Reader_Get r k = Ok (case map_of es k of
            None \<Rightarrow> (None, False) | Some (v, t) \<Rightarrow> (if t then None else norm_value v, True)))))"
proof (intro conjI impI)
  show "is_Ok (write_table sst_ok bsz es)" using write_table_succeeds [OF assms(2), of bsz] by auto
next
  assume "write_table io bsz es = Ok content"
  then obtain r B where r: "OpenReader rd_ok content = Ok r" "reader_rep r B" "concat B = map rd_entry es"
    using write_table_opens assms by blast
  then show "\<exists>r. OpenReader rd_ok content = Ok r \<and>
        (\<forall>k. Reader_Get r k = Ok (case map_of es k of
            None \<Rightarrow> (None, False) | Some (v, t) \<Rightarrow> (if t then None else norm_value v, True)))"
    using Reader_Get_rep [OF r(2)] by (simp add: scanBlock_map_of)
qed

theorem sstable_roundtrip_witness:
  "\<exists>content r. write_table sst_ok 1 [([1], Some [10], False), ([2], None, True), ([3], Some [], False)] = Ok content \<and>
     OpenReader rd_ok content = Ok r \<and> Reader_Get r [1] = Ok (Some [10], True) \<and>
     Reader_Get r [2] = Ok (None, True) \<and> Reader_Get r [3] = Ok (None, True) \<and> Reader_Get r [4] = Ok (None, False)"
proof -
  let ?es = "[([1], Some [10], False), ([2], None, True), ([3], Some [], False)] :: sst_entry list"
  have h: "sorted_wrt (<) (map fst ?es)" "sst_bound ?es < 2 ^ 32" by (simp_all add: sst_bound_def entry_size_def val_bytes_def)
  obtain content where c: "write_table sst_ok 1 ?es = Ok content"
    using sstable_roundtrip [OF h, of 1 sst_ok] by (cases "write_table sst_ok 1 ?es") auto
  then show ?thesis using sstable_roundtrip [OF h, of 1 sst_ok content] by auto
qed

end
