(* ===== verification/Heap.thy ===== *)
theory Heap
  imports Main "HOL-Library.Multiset"
begin

text \<open>
  The binary heap of Go's \<open>container/heap\<close> as the merge iterator uses it: \<open>Init\<close>, \<open>Push\<close>, \<open>Pop\<close> over a
  slice, with the comparison \<open>lt\<close> as an argument. The locale \<open>heap_order\<close> fixes an order behind the
  comparison; it proves that the operations keep the heap property and the multiset of elements. The
  locale \<open>priority_queue\<close> is the contract a client needs, interpreted on the operations.
\<close>

definition swap_at :: "'a list \<Rightarrow> nat \<Rightarrow> nat \<Rightarrow> 'a list" where
  "swap_at xs i j = xs[i := xs ! j, j := xs ! i]"

function heap_down :: "('a \<Rightarrow> 'a \<Rightarrow> bool) \<Rightarrow> 'a list \<Rightarrow> nat \<Rightarrow> nat \<Rightarrow> 'a list" where
  "heap_down lt xs i n =
     (let j1 = 2 * i + 1 in
      if j1 \<ge> n then xs
      else let j2 = j1 + 1; j = (if j2 < n \<and> lt (xs ! j2) (xs ! j1) then j2 else j1)
           in if \<not> lt (xs ! j) (xs ! i) then xs else heap_down lt (swap_at xs i j) j n)"
  by pat_completeness auto
termination
  by (relation "measure (\<lambda>(lt, xs, i, n). n - i)") (auto simp: Let_def split: if_splits)

function heap_up :: "('a \<Rightarrow> 'a \<Rightarrow> bool) \<Rightarrow> 'a list \<Rightarrow> nat \<Rightarrow> 'a list" where
  "heap_up lt xs j =
     (let i = (j - 1) div 2 in
      if i = j \<or> \<not> lt (xs ! j) (xs ! i) then xs else heap_up lt (swap_at xs i j) i)"
  by pat_completeness auto
termination
  by (relation "measure (\<lambda>(lt, xs, j). j)") auto

declare heap_down.simps [simp del] heap_up.simps [simp del]

definition heap_Init :: "('a \<Rightarrow> 'a \<Rightarrow> bool) \<Rightarrow> 'a list \<Rightarrow> 'a list" where
  "heap_Init lt xs = fold (\<lambda>i h. heap_down lt h i (length xs)) (rev [0..<length xs div 2]) xs"

definition heap_Push :: "('a \<Rightarrow> 'a \<Rightarrow> bool) \<Rightarrow> 'a list \<Rightarrow> 'a \<Rightarrow> 'a list" where
  "heap_Push lt xs x = heap_up lt (xs @ [x]) (length xs)"

definition heap_Pop :: "('a \<Rightarrow> 'a \<Rightarrow> bool) \<Rightarrow> 'a list \<Rightarrow> 'a \<times> 'a list" where
  "heap_Pop lt xs =
     (let n = length xs - 1; ys = heap_down lt (swap_at xs 0 n) 0 n in (ys ! n, take n ys))"

subsection \<open>Multiset and length\<close>

lemma length_swap_at [simp]: "length (swap_at xs i j) = length xs"
  by (simp add: swap_at_def)

lemma mset_swap_at [simp]: "i < length xs \<Longrightarrow> j < length xs \<Longrightarrow> mset (swap_at xs i j) = mset xs"
  unfolding swap_at_def by (simp add: mset_swap)

lemma swap_at_nth:
  "i < length xs \<Longrightarrow> j < length xs \<Longrightarrow> k < length xs \<Longrightarrow>
   swap_at xs i j ! k = (if k = j then xs ! i else if k = i then xs ! j else xs ! k)"
  by (auto simp: swap_at_def nth_list_update)

lemma heap_down_mset [simp]:
  "i < n \<or> n = 0 \<Longrightarrow> n \<le> length xs \<Longrightarrow> length (heap_down lt xs i n) = length xs \<and> mset (heap_down lt xs i n) = mset xs"
proof (induction lt xs i n rule: heap_down.induct)
  case (1 lt xs i n)
  define j where "j = (if 2 * i + 1 + 1 < n \<and> lt (xs ! (2 * i + 1 + 1)) (xs ! (2 * i + 1)) then 2 * i + 1 + 1 else 2 * i + 1)"
  show ?case
  proof (cases "2 * i + 1 \<ge> n \<or> \<not> lt (xs ! j) (xs ! i)")
    case True
    then show ?thesis by (subst (1 2) heap_down.simps) (auto simp: Let_def j_def)
  next
    case False
    then have eq: "heap_down lt xs i n = heap_down lt (swap_at xs i j) j n"
      by (subst heap_down.simps) (auto simp: Let_def j_def)
    have j: "j < n" "i < n" using False "1.prems" by (auto simp: j_def)
    have "length (heap_down lt (swap_at xs i j) j n) = length (swap_at xs i j) \<and>
        mset (heap_down lt (swap_at xs i j) j n) = mset (swap_at xs i j)"
      using False "1.prems" j by (intro "1.IH" [OF refl _ refl]) (auto simp: j_def)
    then show ?thesis using eq j "1.prems" by simp
  qed
qed

lemma heap_down_keeps:
  "n \<le> length xs \<Longrightarrow> i < n \<or> n = 0 \<Longrightarrow> k < i \<or> n \<le> k \<Longrightarrow> k < length xs \<Longrightarrow> heap_down lt xs i n ! k = xs ! k"
proof (induction lt xs i n rule: heap_down.induct)
  case (1 lt xs i n)
  define j where "j = (if 2 * i + 1 + 1 < n \<and> lt (xs ! (2 * i + 1 + 1)) (xs ! (2 * i + 1)) then 2 * i + 1 + 1 else 2 * i + 1)"
  show ?case
  proof (cases "2 * i + 1 \<ge> n \<or> \<not> lt (xs ! j) (xs ! i)")
    case True
    then show ?thesis by (subst heap_down.simps) (auto simp: Let_def j_def)
  next
    case False
    then have eq: "heap_down lt xs i n = heap_down lt (swap_at xs i j) j n"
      by (subst heap_down.simps) (auto simp: Let_def j_def)
    have j: "j < n" "i < j" "i < n" using False "1.prems" by (auto simp: j_def)
    have "heap_down lt (swap_at xs i j) j n ! k = swap_at xs i j ! k"
      using False "1.prems" j by (intro "1.IH" [OF refl _ refl]) (auto simp: j_def)
    then show ?thesis using eq j "1.prems" by (auto simp: swap_at_nth)
  qed
qed

lemma heap_up_mset [simp]:
  "j < length xs \<Longrightarrow> length (heap_up lt xs j) = length xs \<and> mset (heap_up lt xs j) = mset xs"
proof (induction lt xs j rule: heap_up.induct)
  case (1 lt xs j)
  show ?case
  proof (cases "(j - 1) div 2 = j \<or> \<not> lt (xs ! j) (xs ! ((j - 1) div 2))")
    case True
    then show ?thesis by (subst (1 2) heap_up.simps) (auto simp: Let_def)
  next
    case False
    have i: "(j - 1) div 2 < length xs" using "1.prems" by linarith
    have "heap_up lt xs j = heap_up lt (swap_at xs ((j - 1) div 2) j) ((j - 1) div 2)"
      using False by (subst heap_up.simps) (auto simp: Let_def)
    then show ?thesis using "1.IH" [OF refl False] "1.prems" i by simp
  qed
qed

subsection \<open>The heap property\<close>

definition heap_below :: "('a \<Rightarrow> 'k::linorder) \<Rightarrow> 'a list \<Rightarrow> nat \<Rightarrow> nat \<Rightarrow> bool" where
  "heap_below f xs n a \<longleftrightarrow> (\<forall>k < n. 0 < k \<and> a \<le> (k - 1) div 2 \<longrightarrow> f (xs ! ((k - 1) div 2)) \<le> f (xs ! k))"

definition is_heap :: "('a \<Rightarrow> 'k::linorder) \<Rightarrow> 'a list \<Rightarrow> bool" where
  "is_heap f xs \<longleftrightarrow> heap_below f xs (length xs) 0"

lemma parent_iff: "0 < k \<Longrightarrow> (k - 1) div 2 = i \<longleftrightarrow> k = 2 * i + 1 \<or> k = 2 * i + 2" for k i :: nat
  by linarith

lemma heap_root_min:
  assumes "is_heap f xs" "k < length xs" shows "f (xs ! 0) \<le> f (xs ! k)"
  using assms(2)
proof (induction k rule: less_induct)
  case (less k)
  show ?case
  proof (cases "k = 0")
    case False
    then have "(k - 1) div 2 < k" "f (xs ! ((k - 1) div 2)) \<le> f (xs ! k)"
      using assms(1) less.prems by (auto simp: is_heap_def heap_below_def)
    then show ?thesis using less.IH [of "(k - 1) div 2"] less.prems by force
  qed simp
qed

locale heap_order =
  fixes lt :: "'a \<Rightarrow> 'a \<Rightarrow> bool" and f :: "'a \<Rightarrow> 'k::linorder"
  assumes lt_iff: "lt a b \<longleftrightarrow> f a < f b"
begin

lemma heap_down_heap:
  assumes "n \<le> length xs" "i < n" "a \<le> i"
    and "\<forall>k < n. 0 < k \<and> a \<le> (k - 1) div 2 \<and> (k - 1) div 2 \<noteq> i \<longrightarrow> f (xs ! ((k - 1) div 2)) \<le> f (xs ! k)"
    and "0 < i \<and> a \<le> (i - 1) div 2 \<longrightarrow> (\<forall>k < n. k = 2 * i + 1 \<or> k = 2 * i + 2 \<longrightarrow> f (xs ! ((i - 1) div 2)) \<le> f (xs ! k))"
  shows "heap_below f (heap_down lt xs i n) n a"
  using assms
proof (induction "n - i" arbitrary: xs i rule: less_induct)
  case less
  note prems = less.prems
  define j where "j = (if 2 * i + 1 + 1 < n \<and> lt (xs ! (2 * i + 1 + 1)) (xs ! (2 * i + 1)) then 2 * i + 1 + 1 else 2 * i + 1)"
  have small: "f (xs ! j) \<le> f (xs ! k)" if "k < n" "k = 2 * i + 1 \<or> k = 2 * i + 2" for k
    using that by (auto simp: j_def lt_iff)
  show ?case
  proof (cases "2 * i + 1 \<ge> n \<or> \<not> lt (xs ! j) (xs ! i)")
    case True
    then have eq: "heap_down lt xs i n = xs" by (subst heap_down.simps) (auto simp: Let_def j_def)
    have "f (xs ! i) \<le> f (xs ! k)" if "k < n" "0 < k" "(k - 1) div 2 = i" for k
      using True small [of k] that parent_iff [of k i] by (force simp: lt_iff not_less)
    then show ?thesis using prems(4) unfolding heap_below_def eq by blast
  next
    case False
    then have j: "j < n" "i < j" "j = 2 * i + 1 \<or> j = 2 * i + 2" and up: "f (xs ! j) < f (xs ! i)"
      by (auto simp: j_def lt_iff)
    let ?ys = "swap_at xs i j"
    have eq: "heap_down lt xs i n = heap_down lt ?ys j n" using False by (subst heap_down.simps) (auto simp: Let_def j_def)
    have ys: "?ys ! k = (if k = j then xs ! i else if k = i then xs ! j else xs ! k)" if "k < n" for k
      using that j prems by (intro swap_at_nth) auto
    have A: "f (?ys ! ((k - 1) div 2)) \<le> f (?ys ! k)" if k: "k < n" "0 < k" "a \<le> (k - 1) div 2" "(k - 1) div 2 \<noteq> j" for k
    proof -
      have p: "(k - 1) div 2 < n" using k by linarith
      consider "(k - 1) div 2 = i" | "k = i" "(k - 1) div 2 \<noteq> i" | "k \<noteq> i" "k \<noteq> j" "(k - 1) div 2 \<noteq> i"
        using j parent_iff [of j i] by force
      then show ?thesis
      proof cases
        case 1
        then show ?thesis using small [of k] up k parent_iff [of k i] ys [of k] ys [of i] j by auto
      next
        case 2
        then have "f (xs ! ((i - 1) div 2)) \<le> f (xs ! j)" using prems(5) k j by blast
        then show ?thesis using 2 ys [of k] ys [OF p] k j by auto
      next
        case 3
        then show ?thesis using prems(4) k ys [of k] ys [OF p] by auto
      qed
    qed
    have B: "\<forall>k < n. k = 2 * j + 1 \<or> k = 2 * j + 2 \<longrightarrow> f (?ys ! ((j - 1) div 2)) \<le> f (?ys ! k)"
    proof (intro allI impI)
      fix k assume k: "k < n" "k = 2 * j + 1 \<or> k = 2 * j + 2"
      then have p: "(k - 1) div 2 = j" "0 < k" by auto
      have "f (xs ! j) \<le> f (xs ! k)" using prems(3,4) k(1) p j by (metis less_or_eq_imp_le order.strict_trans1 order_less_imp_le nat_neq_iff)
      moreover have "(j - 1) div 2 = i" using j(3) by auto
      ultimately show "f (?ys ! ((j - 1) div 2)) \<le> f (?ys ! k)" using ys [of i] ys [OF k(1)] k j prems(2) by auto
    qed
    show ?thesis unfolding eq
      by (rule less.hyps) (use A B j prems in auto)
  qed
qed

lemma heap_up_heap:
  assumes "j < length xs"
    and "\<forall>k < length xs. 0 < k \<and> k \<noteq> j \<longrightarrow> f (xs ! ((k - 1) div 2)) \<le> f (xs ! k)"
    and "0 < j \<longrightarrow> (\<forall>k < length xs. k = 2 * j + 1 \<or> k = 2 * j + 2 \<longrightarrow> f (xs ! ((j - 1) div 2)) \<le> f (xs ! k))"
  shows "is_heap f (heap_up lt xs j)"
  using assms
proof (induction j arbitrary: xs rule: less_induct)
  case (less j)
  note prems = less.prems
  let ?i = "(j - 1) div 2"
  show ?case
  proof (cases "?i = j \<or> \<not> lt (xs ! j) (xs ! ?i)")
    case True
    then have eq: "heap_up lt xs j = xs" by (subst heap_up.simps) (auto simp: Let_def)
    have "f (xs ! ?i) \<le> f (xs ! j)" if "0 < j" using True that by (auto simp: lt_iff not_less)
    then show ?thesis using prems(2) unfolding is_heap_def heap_below_def eq by metis
  next
    case False
    then have i: "?i < j" "0 < j" and up: "f (xs ! j) < f (xs ! ?i)" by (auto simp: lt_iff)
    let ?ys = "swap_at xs ?i j"
    have eq: "heap_up lt xs j = heap_up lt ?ys ?i" using False by (subst heap_up.simps) (auto simp: Let_def)
    have ys: "?ys ! k = (if k = j then xs ! ?i else if k = ?i then xs ! j else xs ! k)" if "k < length xs" for k
      using that i prems(1) by (intro swap_at_nth) auto
    have A: "f (?ys ! ((k - 1) div 2)) \<le> f (?ys ! k)" if k: "k < length xs" "0 < k" "k \<noteq> ?i" for k
    proof -
      have p: "(k - 1) div 2 < length xs" using k by linarith
      consider "k = j" | "k \<noteq> j" "(k - 1) div 2 = j" | "k \<noteq> j" "(k - 1) div 2 = ?i" | "k \<noteq> j" "(k - 1) div 2 \<noteq> j" "(k - 1) div 2 \<noteq> ?i" by blast
      then show ?thesis
      proof cases
        case 1
        then show ?thesis using up ys [OF k(1)] ys [OF p] i k by auto
      next
        case 2
        then have "f (xs ! ?i) \<le> f (xs ! k)" using prems(3) k i parent_iff [of k j] by auto
        then show ?thesis using 2 ys [OF k(1)] ys [OF p] k by auto
      next
        case 3
        then have "f (xs ! ?i) \<le> f (xs ! k)" using prems(2) k by metis
        then show ?thesis using 3 ys [OF k(1)] ys [OF p] k up i by auto
      next
        case 4
        then have "f (xs ! ((k - 1) div 2)) \<le> f (xs ! k)" using prems(2) k by blast
        then show ?thesis using 4 ys [OF k(1)] ys [OF p] k by auto
      qed
    qed
    have B: "0 < ?i \<longrightarrow> (\<forall>k < length xs. k = 2 * ?i + 1 \<or> k = 2 * ?i + 2 \<longrightarrow> f (?ys ! ((?i - 1) div 2)) \<le> f (?ys ! k))"
    proof (intro impI allI)
      fix k assume i0: "0 < ?i" and k: "k < length xs" "k = 2 * ?i + 1 \<or> k = 2 * ?i + 2"
      have ni: "?i < length xs" "?i \<noteq> j" using i prems(1) by auto
      have gp: "f (xs ! ((?i - 1) div 2)) \<le> f (xs ! ?i)" using prems(2) i0 ni by blast
      have pk: "(k - 1) div 2 = ?i" "0 < k" using k parent_iff [of k ?i] by auto
      have le: "k \<noteq> j \<Longrightarrow> f (xs ! ?i) \<le> f (xs ! k)" using prems(2) k(1) pk by metis
      have q: "(?i - 1) div 2 < ?i" "(?i - 1) div 2 < length xs" using i0 ni by linarith+
      have kk: "k \<noteq> ?i" using k(2) by linarith
      have "f (?ys ! ((?i - 1) div 2)) = f (xs ! ((?i - 1) div 2))" using ys [OF q(2)] q(1) i by simp
      moreover have "f (xs ! ?i) \<le> f (?ys ! k)" using ys [OF k(1)] kk le by simp
      ultimately show "f (?ys ! ((?i - 1) div 2)) \<le> f (?ys ! k)" using gp by simp
    qed
    show ?thesis unfolding eq
      by (rule less.IH [OF i(1)]) (use A B i prems(1) in simp_all)
  qed
qed

lemma heap_Init_aux:
  assumes "m \<le> length xs div 2" "heap_below f xs (length xs) m"
  shows "heap_below f (fold (\<lambda>i h. heap_down lt h i (length xs)) (rev [0..<m]) xs) (length xs) 0 \<and>
    length (fold (\<lambda>i h. heap_down lt h i (length xs)) (rev [0..<m]) xs) = length xs \<and>
    mset (fold (\<lambda>i h. heap_down lt h i (length xs)) (rev [0..<m]) xs) = mset xs"
  using assms
proof (induction m arbitrary: xs)
  case (Suc m)
  let ?ys = "heap_down lt xs m (length xs)"
  have m: "m < length xs" using Suc.prems by simp
  have l: "length ?ys = length xs" "mset ?ys = mset xs" using m by simp_all
  have "heap_below f ?ys (length xs) m"
  proof (rule heap_down_heap)
    show "\<forall>k < length xs. 0 < k \<and> m \<le> (k - 1) div 2 \<and> (k - 1) div 2 \<noteq> m \<longrightarrow> f (xs ! ((k - 1) div 2)) \<le> f (xs ! k)"
      using Suc.prems(2) unfolding heap_below_def by (metis Suc_leI le_neq_implies_less)
    show "0 < m \<and> m \<le> (m - 1) div 2 \<longrightarrow>
        (\<forall>k < length xs. k = 2 * m + 1 \<or> k = 2 * m + 2 \<longrightarrow> f (xs ! ((m - 1) div 2)) \<le> f (xs ! k))" by linarith
  qed (use m in auto)
  then show ?case using Suc.IH [of ?ys] Suc.prems(1) l by simp
qed simp

lemma heap_Init_spec: "is_heap f (heap_Init lt xs) \<and> mset (heap_Init lt xs) = mset xs"
proof -
  have "heap_below f xs (length xs) (length xs div 2)" by (auto simp: heap_below_def)
  from heap_Init_aux [OF order_refl this] show ?thesis by (simp add: heap_Init_def is_heap_def)
qed

lemma heap_Push_spec:
  assumes "is_heap f h" shows "is_heap f (heap_Push lt h x) \<and> mset (heap_Push lt h x) = add_mset x (mset h)"
proof -
  have "is_heap f (heap_up lt (h @ [x]) (length h))"
  proof (rule heap_up_heap)
    show "\<forall>k < length (h @ [x]). 0 < k \<and> k \<noteq> length h \<longrightarrow> f ((h @ [x]) ! ((k - 1) div 2)) \<le> f ((h @ [x]) ! k)"
      using assms by (auto simp: is_heap_def heap_below_def nth_append)
  qed auto
  then show ?thesis by (simp add: heap_Push_def)
qed

lemma heap_Pop_spec:
  assumes "is_heap f h" "h \<noteq> []" "heap_Pop lt h = (x, h')"
  shows "is_heap f h' \<and> mset h = add_mset x (mset h') \<and> x = h ! 0 \<and> (\<forall>y\<in>set h. f x \<le> f y)"
proof -
  define n where "n = length h - 1"
  define xs where "xs = swap_at h 0 n"
  define ys where "ys = heap_down lt xs 0 n"
  have n: "length h = Suc n" using assms(2) by (simp add: n_def)
  have xs: "length xs = Suc n" "mset xs = mset h" using n by (simp_all add: xs_def)
  have xsn: "xs ! k = (if k = n then h ! 0 else if k = 0 then h ! n else h ! k)" if "k \<le> n" for k
    using that n by (simp add: xs_def swap_at_nth)
  have ys: "length ys = Suc n" "mset ys = mset h" using heap_down_mset [of 0 n xs lt] xs unfolding ys_def by (metis Suc_n_not_le_n nat_le_linear not_gr_zero)+
  have yn: "ys ! n = h ! 0" using heap_down_keeps [of n xs 0 n lt] xs xsn [of n] by (auto simp: ys_def)
  have x: "x = h ! 0" "h' = take n ys" using assms(3) yn by (auto simp: heap_Pop_def Let_def ys_def xs_def n_def)
  have "heap_below f ys n 0"
  proof (cases "n = 0")
    case False
    have "heap_below f (heap_down lt xs 0 n) n 0"
    proof (rule heap_down_heap)
      show "\<forall>k < n. 0 < k \<and> 0 \<le> (k - 1) div 2 \<and> (k - 1) div 2 \<noteq> 0 \<longrightarrow> f (xs ! ((k - 1) div 2)) \<le> f (xs ! k)"
      proof (intro allI impI)
        fix k assume k: "k < n" "0 < k \<and> 0 \<le> (k - 1) div 2 \<and> (k - 1) div 2 \<noteq> 0"
        then have "(k - 1) div 2 < n" by linarith
        then show "f (xs ! ((k - 1) div 2)) \<le> f (xs ! k)"
          using k assms(1) n xsn [of k] xsn [of "(k - 1) div 2"] by (simp add: is_heap_def heap_below_def)
      qed
    qed (use False xs in auto)
    then show ?thesis by (simp add: ys_def)
  qed (simp add: heap_below_def)
  then have "is_heap f h'" using x ys by (auto simp: is_heap_def heap_below_def)
  moreover have "mset h = add_mset x (mset h')"
  proof -
    have "ys = take n ys @ [ys ! n]" using ys by (metis lessI take_Suc_conv_app_nth take_all order_refl)
    then have "mset ys = add_mset (ys ! n) (mset (take n ys))" by (metis mset_append mset_single_iff_right union_mset_add_mset_right add_mset_add_single mset.simps)
    then show ?thesis using ys(2) yn x by simp
  qed
  moreover have "\<forall>y\<in>set h. f x \<le> f y" using heap_root_min [OF assms(1)] x(1) by (auto simp: in_set_conv_nth)
  ultimately show ?thesis using x(1) by blast
qed

end

subsection \<open>The contract\<close>

text \<open>Popping \<open>n\<close> elements one after another.\<close>

fun drain :: "('a list \<Rightarrow> 'a \<times> 'a list) \<Rightarrow> nat \<Rightarrow> 'a list \<Rightarrow> 'a list" where
  "drain pop 0 h = []"
| "drain pop (Suc n) h = (if h = [] then [] else case pop h of (x, h') \<Rightarrow> x # drain pop n h')"

locale priority_queue =
  fixes init :: "'a list \<Rightarrow> 'a list"
    and push :: "'a list \<Rightarrow> 'a \<Rightarrow> 'a list"
    and pop :: "'a list \<Rightarrow> 'a \<times> 'a list"
    and ok :: "'a list \<Rightarrow> bool"
    and rank :: "'a \<Rightarrow> 'k::linorder"
  assumes init_ok: "ok (init xs)" "mset (init xs) = mset xs"
    and push_ok: "ok h \<Longrightarrow> ok (push h x)" "ok h \<Longrightarrow> mset (push h x) = add_mset x (mset h)"
    and pop_ok: "ok h \<Longrightarrow> h \<noteq> [] \<Longrightarrow> pop h = (x, h') \<Longrightarrow> ok h' \<and> mset h = add_mset x (mset h') \<and> x = h ! 0 \<and> (\<forall>y\<in>set h. rank x \<le> rank y)"
begin

lemma drain_sorted:
  assumes "ok h" shows "sorted (map rank (drain pop (length h) h)) \<and> mset (drain pop (length h) h) = mset h"
  using assms
proof (induction "length h" arbitrary: h)
  case (Suc n)
  obtain x h' where p: "pop h = (x, h')" by (cases "pop h")
  have ne: "h \<noteq> []" using Suc.hyps(2) by auto
  note po = pop_ok [OF Suc.prems ne p]
  have n: "n = length h'" using po Suc.hyps(2) by (metis nat.inject size_add_mset size_mset)
  have ih: "sorted (map rank (drain pop (length h') h'))" "mset (drain pop (length h') h') = mset h'"
    using Suc.hyps(1) [OF n] po by auto
  have "\<forall>y\<in>set (drain pop (length h') h'). rank x \<le> rank y"
  proof
    fix y assume "y \<in> set (drain pop (length h') h')"
    then have "y \<in> set h" using ih(2) po by (metis in_multiset_in_set insert_iff set_mset_add_mset_insert)
    then show "rank x \<le> rank y" using po by blast
  qed
  then show ?case using ih po p ne n by (simp flip: Suc.hyps(2))
qed simp

lemma init_sorts: "sorted (map rank (drain pop (length xs) (init xs))) \<and> mset (drain pop (length xs) (init xs)) = mset xs"
  using drain_sorted [OF init_ok(1)] init_ok(2) [of xs] by (metis size_mset)

end

sublocale heap_order \<subseteq> pq: priority_queue "heap_Init lt" "heap_Push lt" "heap_Pop lt" "is_heap f" f
  by unfold_locales (use heap_Init_spec heap_Push_spec heap_Pop_spec in blast)+

end
