(* ===== verification/Merge_Iterator.thy ===== *)
theory Merge_Iterator
  imports Memtable SSTable_Iterator Heap "HOL-Library.Product_Lexorder"
begin

text \<open>
  \<open>engine/merge_iterator.go\<close>: the iterator interface, its two adapters and the merge of several
  sorted iterators through a heap. As in the source, the heap and the current item hold references
  to the iterators: the heap is a list of indices into \<open>mi_iters\<close>, and advancing an iterator is seen
  through every reference. \<open>None\<close> as a result is a panic or a loop that does not end.

  The locale \<open>sorted_iterator\<close> is the contract of the interface. It is interpreted on the iterators behind the
  two adapters, of skip lists and of tables, and on the merge iterator itself, whose content is shown
  to be the merge of its inputs where the lowest priority wins.
\<close>

subsection \<open>The interface and its adapters\<close>

datatype engine_iter = MemIter SLIterator | SSTIter SSTIterator

fun res_opt :: "'a res \<Rightarrow> 'a option" where
  "res_opt (Ok x) = Some x"
| "res_opt (Err e) = None"
| "res_opt Panic = None"

fun Iter_SeekToFirst :: "engine_iter \<Rightarrow> engine_iter option" where
  "Iter_SeekToFirst (MemIter it) = map_option MemIter (SLIterator_SeekToFirst it)"
| "Iter_SeekToFirst (SSTIter it) = map_option SSTIter (res_opt (SSTIterator_SeekToFirst it))"

fun Iter_Seek :: "engine_iter \<Rightarrow> bytes \<Rightarrow> engine_iter option" where
  "Iter_Seek (MemIter it) k = map_option MemIter (SLIterator_Seek it k)"
| "Iter_Seek (SSTIter it) k = map_option SSTIter (res_opt (SSTIterator_Seek it k))"

fun Iter_Next :: "engine_iter \<Rightarrow> engine_iter option" where
  "Iter_Next (MemIter it) = map_option MemIter (SLIterator_Next it)"
| "Iter_Next (SSTIter it) = map_option SSTIter (res_opt (SSTIterator_Next it))"

fun Iter_Valid :: "engine_iter \<Rightarrow> bool" where
  "Iter_Valid (MemIter it) = SLIterator_Valid it"
| "Iter_Valid (SSTIter it) = SSTIterator_Valid it"

text \<open>A nil key compares as an empty one. The table iterator's index expressions cannot panic on a
  position its operations produced (\<open>si_observers\<close>), so the observers are total here.\<close>

fun Iter_Key :: "engine_iter \<Rightarrow> bytes" where
  "Iter_Key (MemIter it) = val_bytes (SLIterator_Key it)"
| "Iter_Key (SSTIter it) = (case SSTIterator_Key it of Ok (Some k) \<Rightarrow> k | _ \<Rightarrow> [])"

fun Iter_Value :: "engine_iter \<Rightarrow> bytes option" where
  "Iter_Value (MemIter it) = SLIterator_Value it"
| "Iter_Value (SSTIter it) = (case SSTIterator_Value it of Ok v \<Rightarrow> v | _ \<Rightarrow> None)"

fun Iter_IsTombstone :: "engine_iter \<Rightarrow> bool" where
  "Iter_IsTombstone (MemIter it) = SLIterator_IsTombstone it"
| "Iter_IsTombstone (SSTIter it) = (SSTIterator_IsTombstone it = Ok True)"

subsection \<open>The merge iterator\<close>

record MergeIterator =
  mi_iters :: "engine_iter list"
  mi_prio :: "int list"
  mi_h :: "nat list"
  mi_cur :: "nat option"

definition mergeLess :: "engine_iter list \<Rightarrow> int list \<Rightarrow> nat \<Rightarrow> nat \<Rightarrow> bool" where
  "mergeLess its ps i j =
     (let cmp = bytes_Compare (Iter_Key (its ! i)) (Iter_Key (its ! j))
      in if cmp \<noteq> 0 then cmp < 0 else ps ! i < ps ! j)"

definition NewMergeIterator :: "engine_iter list \<Rightarrow> int list \<Rightarrow> MergeIterator option" where
  "NewMergeIterator its ps =
     (if length ps < length its then None
      else Some \<lparr>mi_iters = its, mi_prio = take (length its) ps, mi_h = [], mi_cur = None\<rparr>)"

definition buildHeap :: "MergeIterator \<Rightarrow> MergeIterator" where
  "buildHeap m =
     m\<lparr>mi_h := heap_Init (mergeLess (mi_iters m) (mi_prio m))
               (filter (\<lambda>i. Iter_Valid (mi_iters m ! i)) [0..<length (mi_iters m)])\<rparr>"

text \<open>The loop that skips the other iterators at the winner's key.\<close>

partial_function (option) skipDups :: "MergeIterator \<Rightarrow> bytes \<Rightarrow> MergeIterator option" where
  "skipDups m winKey =
     (if mi_h m \<noteq> [] \<and> Iter_Key (mi_iters m ! (mi_h m ! 0)) = winKey then
        (case heap_Pop (mergeLess (mi_iters m) (mi_prio m)) (mi_h m) of
           (d, h') \<Rightarrow>
             (case Iter_Next (mi_iters m ! d) of
                None \<Rightarrow> None
              | Some it' \<Rightarrow>
                  let its' = (mi_iters m)[d := it']
                  in skipDups (m\<lparr>mi_iters := its',
                                 mi_h := (if Iter_Valid it' then heap_Push (mergeLess its' (mi_prio m)) h' d else h')\<rparr>)
                       winKey))
      else Some m)"

definition MergeIterator_advance :: "MergeIterator \<Rightarrow> MergeIterator option" where
  "MergeIterator_advance m =
     (if mi_h m = [] then Some (m\<lparr>mi_cur := None\<rparr>)
      else case heap_Pop (mergeLess (mi_iters m) (mi_prio m)) (mi_h m) of
             (w, h') \<Rightarrow> skipDups (m\<lparr>mi_h := h', mi_cur := Some w\<rparr>) (Iter_Key (mi_iters m ! w)))"

fun map_opt :: "('a \<Rightarrow> 'b option) \<Rightarrow> 'a list \<Rightarrow> 'b list option" where
  "map_opt f [] = Some []"
| "map_opt f (x # xs) =
     (case f x of None \<Rightarrow> None | Some y \<Rightarrow> map_option ((#) y) (map_opt f xs))"

definition MergeIterator_SeekToFirst :: "MergeIterator \<Rightarrow> MergeIterator option" where
  "MergeIterator_SeekToFirst m =
     (case map_opt Iter_SeekToFirst (mi_iters m) of
        None \<Rightarrow> None
      | Some its \<Rightarrow> MergeIterator_advance (buildHeap (m\<lparr>mi_iters := its\<rparr>)))"

definition MergeIterator_Seek :: "MergeIterator \<Rightarrow> bytes \<Rightarrow> MergeIterator option" where
  "MergeIterator_Seek m k =
     (case map_opt (\<lambda>it. Iter_Seek it k) (mi_iters m) of
        None \<Rightarrow> None
      | Some its \<Rightarrow> MergeIterator_advance (buildHeap (m\<lparr>mi_iters := its\<rparr>)))"

definition MergeIterator_Next :: "MergeIterator \<Rightarrow> MergeIterator option" where
  "MergeIterator_Next m =
     (case mi_cur m of
        None \<Rightarrow> Some m
      | Some c \<Rightarrow>
          (case Iter_Next (mi_iters m ! c) of
             None \<Rightarrow> None
           | Some it' \<Rightarrow>
               let its' = (mi_iters m)[c := it']
               in MergeIterator_advance
                    (m\<lparr>mi_iters := its',
                       mi_h := (if Iter_Valid it' then heap_Push (mergeLess its' (mi_prio m)) (mi_h m) c else mi_h m)\<rparr>)))"

definition MergeIterator_Valid :: "MergeIterator \<Rightarrow> bool" where
  "MergeIterator_Valid m \<longleftrightarrow> mi_cur m \<noteq> None"

definition MergeIterator_Key :: "MergeIterator \<Rightarrow> bytes" where
  "MergeIterator_Key m = (case mi_cur m of None \<Rightarrow> [] | Some c \<Rightarrow> Iter_Key (mi_iters m ! c))"

definition MergeIterator_Value :: "MergeIterator \<Rightarrow> bytes option" where
  "MergeIterator_Value m = (case mi_cur m of None \<Rightarrow> None | Some c \<Rightarrow> Iter_Value (mi_iters m ! c))"

definition MergeIterator_IsTombstone :: "MergeIterator \<Rightarrow> bool" where
  "MergeIterator_IsTombstone m = (case mi_cur m of None \<Rightarrow> False | Some c \<Rightarrow> Iter_IsTombstone (mi_iters m ! c))"

subsection \<open>The contract of an iterator\<close>

text \<open>\<open>it_all\<close> is the content, \<open>it_rest\<close> what is still to be visited: key, value and tombstone flag.\<close>

text \<open>The usual loop over an iterator, bounded by \<open>n\<close> rounds.\<close>

fun iter_collect :: "('i \<Rightarrow> 'i option) \<Rightarrow> ('i \<Rightarrow> bool) \<Rightarrow> ('i \<Rightarrow> bytes) \<Rightarrow> ('i \<Rightarrow> bytes option) \<Rightarrow> ('i \<Rightarrow> bool) \<Rightarrow>
    nat \<Rightarrow> 'i \<Rightarrow> sst_entry list option" where
  "iter_collect nxt vld ky vl tb 0 i = (if vld i then None else Some [])"
| "iter_collect nxt vld ky vl tb (Suc n) i =
     (if \<not> vld i then Some []
      else case nxt i of
             None \<Rightarrow> None
           | Some i' \<Rightarrow> map_option ((#) (ky i, vl i, tb i)) (iter_collect nxt vld ky vl tb n i'))"

locale sorted_iterator =
  fixes it_first :: "'i \<Rightarrow> 'i option"
    and it_seek :: "'i \<Rightarrow> bytes \<Rightarrow> 'i option"
    and it_next :: "'i \<Rightarrow> 'i option"
    and it_valid :: "'i \<Rightarrow> bool"
    and it_key :: "'i \<Rightarrow> bytes"
    and it_value :: "'i \<Rightarrow> bytes option"
    and it_tomb :: "'i \<Rightarrow> bool"
    and it_inv :: "'i \<Rightarrow> bool"
    and it_all :: "'i \<Rightarrow> sst_entry list"
    and it_rest :: "'i \<Rightarrow> sst_entry list"
  assumes first: "it_inv i \<Longrightarrow> \<exists>i'. it_first i = Some i' \<and> it_inv i' \<and> it_all i' = it_all i \<and> it_rest i' = it_all i"
    and seek: "it_inv i \<Longrightarrow> \<exists>i'. it_seek i k = Some i' \<and> it_inv i' \<and> it_all i' = it_all i \<and>
                 it_rest i' = dropWhile (\<lambda>e. fst e < k) (it_all i)"
    and nxt: "it_inv i \<Longrightarrow> \<exists>i'. it_next i = Some i' \<and> it_inv i' \<and> it_all i' = it_all i \<and> it_rest i' = tl (it_rest i)"
    and valid: "it_inv i \<Longrightarrow> it_valid i \<longleftrightarrow> it_rest i \<noteq> []"
    and obs: "it_inv i \<Longrightarrow> it_rest i = (k, v, t) # es \<Longrightarrow> it_key i = k \<and> it_value i = v \<and> it_tomb i = t"
    and sorted: "it_inv i \<Longrightarrow> ksorted (it_all i) \<and> ksorted (it_rest i)"
begin

lemma collect_rest:
  "it_inv i \<Longrightarrow> length (it_rest i) \<le> n \<Longrightarrow> iter_collect it_next it_valid it_key it_value it_tomb n i = Some (it_rest i)"
proof (induction n arbitrary: i)
  case 0
  then show ?case using valid by simp
next
  case (Suc n)
  show ?case
  proof (cases "it_rest i")
    case Nil
    then show ?thesis using valid Suc.prems by simp
  next
    case (Cons e es)
    obtain k v t where e: "e = (k, v, t)" by (cases e)
    obtain i' where i': "it_next i = Some i'" "it_inv i'" "it_rest i' = es" using nxt [OF Suc.prems(1)] Cons by auto
    have "iter_collect it_next it_valid it_key it_value it_tomb n i' = Some es" using Suc.IH [OF i'(2)] Suc.prems i' Cons by simp
    then show ?thesis using i' Cons e obs [OF Suc.prems(1)] valid [OF Suc.prems(1)] by simp
  qed
qed

end

subsection \<open>The adapters satisfy it\<close>

text \<open>The content of a memtable as iterator entries, and its position.\<close>

definition mem_ient :: "bytes option entries \<Rightarrow> sst_entry list" where
  "mem_ient es = map (\<lambda>(k, v). (k, v, v = None)) es"

definition sst_ient :: "sstentry list \<Rightarrow> sst_entry list" where
  "sst_ient es = map (\<lambda>e. (e_key e, e_value e, e_tombstone e)) es"

text \<open>The blocks a reader sees.\<close>

definition reader_blocks :: "Reader \<Rightarrow> sstentry list list" where
  "reader_blocks r = map (\<lambda>ie. case decodeBlock r (ie_offset ie) (ie_blockSize ie) of Ok es \<Rightarrow> es | _ \<Rightarrow> []) (r_index r)"

definition reader_entries :: "Reader \<Rightarrow> sst_entry list" where
  "reader_entries r = sst_ient (concat (reader_blocks r))"

definition reader_ok :: "Reader \<Rightarrow> bool" where
  "reader_ok r \<longleftrightarrow> reader_rep r (reader_blocks r)"

lemma reader_rep_blocks: "reader_rep r B \<Longrightarrow> B = reader_blocks r"
  by (rule nth_equalityI) (auto simp: reader_rep_def reader_blocks_def)

lemma reader_rep_ok: "reader_rep r B \<Longrightarrow> reader_ok r"
  using reader_rep_blocks by (auto simp: reader_ok_def)

lemma dropWhile_mem_ient: "dropWhile (\<lambda>e. fst e < k) (mem_ient es) = mem_ient (dropWhile (\<lambda>e. fst e < k) es)"
  by (induction es) (auto simp: mem_ient_def)

lemma dropWhile_sst_ient: "dropWhile (\<lambda>e. fst e < k) (sst_ient es) = sst_ient (dropWhile (\<lambda>e. e_key e < k) es)"
  by (induction es) (auto simp: sst_ient_def)

lemma ksorted_mem_ient [simp]: "ksorted (mem_ient es) = ksorted es"
  by (simp add: ksorted_def mem_ient_def comp_def split_def)

lemma ksorted_sst_ient: "ksorted (sst_ient es) = sorted_wrt (<) (map e_key es)"
  by (simp add: ksorted_def sst_ient_def comp_def)

lemma ksorted_tl: "ksorted es \<Longrightarrow> ksorted (tl es)"
  by (cases es) auto

lemma sli_rest_sorted: "sli_inv it \<Longrightarrow> ksorted (sli_rest it)"
proof -
  assume i: "sli_inv it"
  obtain xs ys where r: "sl_rep (it_list it) (xs @ ys)"
    and c: "it_current it = (case ys of [] \<Rightarrow> None | a # _ \<Rightarrow> Some a)" using i by (rule sli_inv_split)
  have "sl_entries (it_list it) = map (\<lambda>a. (nkey (sl_heap (it_list it)) a, val (sl_heap (it_list it) ! a))) xs @ sli_rest it"
    using sl_entries_rep [OF r] sli_rest_at [OF r c] by simp
  then show ?thesis using ksorted_entries [of "it_list it"] i by (simp add: sli_inv_def)
qed

lemma si_rest_sorted: "si_inv it B \<Longrightarrow> sorted_wrt (<) (map e_key (si_rest it B))"
proof (cases "si_valid it")
  case True
  assume i: "si_inv it B"
  define n where "n = nat (si_blockIdx it)"
  have n: "n < length B" "si_entries it = B ! n" "reader_rep (si_reader it) B" using i True by (auto simp: si_inv_def n_def)
  have "concat B = concat (take n B) @ B ! n @ concat (drop (Suc n) B)"
    by (metis n(1) concat.simps(2) concat_append id_take_nth_drop)
  also have "\<dots> = (concat (take n B) @ take (nat (si_entryIdx it)) (B ! n)) @ si_rest it B"
    using True n by (simp add: si_rest_def n_def [symmetric])
  finally show ?thesis using n(3) by (simp add: reader_rep_def sorted_wrt_append)
qed (simp add: si_rest_def)

fun Iter_inv :: "engine_iter \<Rightarrow> bool" where
  "Iter_inv (MemIter it) = sli_inv it"
| "Iter_inv (SSTIter it) = si_inv it (reader_blocks (si_reader it))"

fun Iter_all :: "engine_iter \<Rightarrow> sst_entry list" where
  "Iter_all (MemIter it) = mem_ient (sl_entries (it_list it))"
| "Iter_all (SSTIter it) = reader_entries (si_reader it)"

fun Iter_rest :: "engine_iter \<Rightarrow> sst_entry list" where
  "Iter_rest (MemIter it) = mem_ient (sli_rest it)"
| "Iter_rest (SSTIter it) = sst_ient (si_rest it (reader_blocks (si_reader it)))"

lemma map_tl': "map f (tl xs) = tl (map f xs)"
  by (cases xs) auto

lemma SST_ops:
  assumes "si_inv it (reader_blocks (si_reader it))"
  defines "B \<equiv> reader_blocks (si_reader it)"
  shows "\<exists>it'. SSTIterator_SeekToFirst it = Ok it' \<and> si_reader it' = si_reader it \<and> si_inv it' B \<and> si_rest it' B = concat B"
    and "\<exists>it'. SSTIterator_Seek it k = Ok it' \<and> si_reader it' = si_reader it \<and> si_inv it' B \<and> si_rest it' B = dropWhile (\<lambda>e. e_key e < k) (concat B)"
    and "\<exists>it'. SSTIterator_Next it = Ok it' \<and> si_reader it' = si_reader it \<and> si_inv it' B \<and> si_rest it' B = tl (si_rest it B)"
  using assms SeekToFirst_rep [of it B] Seek_rep [of it B k] Next_rep [of it B] by (auto simp: si_inv_def)

interpretation iter: sorted_iterator Iter_SeekToFirst Iter_Seek Iter_Next Iter_Valid Iter_Key Iter_Value
    Iter_IsTombstone Iter_inv Iter_all Iter_rest
proof
  fix i assume inv: "Iter_inv i"
  show "\<exists>i'. Iter_SeekToFirst i = Some i' \<and> Iter_inv i' \<and> Iter_all i' = Iter_all i \<and> Iter_rest i' = Iter_all i"
  proof (cases i)
    case (MemIter it)
    then show ?thesis using SLIterator_SeekToFirst_spec [of it] inv by auto
  next
    case (SSTIter it)
    then obtain it' where "SSTIterator_SeekToFirst it = Ok it'" "si_reader it' = si_reader it"
      "si_inv it' (reader_blocks (si_reader it))" "si_rest it' (reader_blocks (si_reader it)) = concat (reader_blocks (si_reader it))"
      using SST_ops(1) [of it] inv by auto
    then show ?thesis using SSTIter by (simp add: reader_entries_def)
  qed
  show "\<exists>i'. Iter_Next i = Some i' \<and> Iter_inv i' \<and> Iter_all i' = Iter_all i \<and> Iter_rest i' = tl (Iter_rest i)"
  proof (cases i)
    case (MemIter it)
    then show ?thesis using SLIterator_Next_spec [of it] inv by (auto simp: mem_ient_def map_tl')
  next
    case (SSTIter it)
    then obtain it' where "SSTIterator_Next it = Ok it'" "si_reader it' = si_reader it"
      "si_inv it' (reader_blocks (si_reader it))" "si_rest it' (reader_blocks (si_reader it)) = tl (si_rest it (reader_blocks (si_reader it)))"
      using SST_ops(3) [of it] inv by auto
    then show ?thesis using SSTIter by (simp add: sst_ient_def map_tl')
  qed
  show "Iter_Valid i \<longleftrightarrow> Iter_rest i \<noteq> []"
    using inv SLIterator_observers(1) si_observers(1) by (cases i) (auto simp: mem_ient_def sst_ient_def)
  show "ksorted (Iter_all i) \<and> ksorted (Iter_rest i)"
    using inv sli_rest_sorted si_rest_sorted ksorted_entries
    by (cases i) (auto simp: reader_entries_def ksorted_sst_ient sli_inv_def si_inv_def reader_rep_def)
next
  fix i k assume inv: "Iter_inv i"
  show "\<exists>i'. Iter_Seek i k = Some i' \<and> Iter_inv i' \<and> Iter_all i' = Iter_all i \<and> Iter_rest i' = dropWhile (\<lambda>e. fst e < k) (Iter_all i)"
  proof (cases i)
    case (MemIter it)
    then show ?thesis using SLIterator_Seek_spec [of it k] inv by (auto simp: dropWhile_mem_ient)
  next
    case (SSTIter it)
    then obtain it' where "SSTIterator_Seek it k = Ok it'" "si_reader it' = si_reader it" "si_inv it' (reader_blocks (si_reader it))"
      "si_rest it' (reader_blocks (si_reader it)) = dropWhile (\<lambda>e. e_key e < k) (concat (reader_blocks (si_reader it)))"
      using SST_ops(2) [of it k] inv by auto
    then show ?thesis using SSTIter by (simp add: reader_entries_def dropWhile_sst_ient)
  qed
next
  fix i k v t es assume inv: "Iter_inv i" and r: "Iter_rest i = (k, v, t) # es"
  show "Iter_Key i = k \<and> Iter_Value i = v \<and> Iter_IsTombstone i = t"
  proof (cases i)
    case (MemIter it)
    then obtain es' where "sli_rest it = (k, v) # es'" "t = (v = None)" using r by (auto simp: mem_ient_def map_eq_Cons_conv)
    then show ?thesis using SLIterator_observers(2) [of it k v es'] inv MemIter by (simp add: val_bytes_def)
  next
    case (SSTIter it)
    then obtain e es' where "si_rest it (reader_blocks (si_reader it)) = e # es'" "k = e_key e" "v = e_value e" "t = e_tombstone e"
      using r by (auto simp: sst_ient_def map_eq_Cons_conv)
    then show ?thesis using si_observers(2) [of it "reader_blocks (si_reader it)" e es'] inv SSTIter by simp
  qed
qed

subsection \<open>Merging sorted lists\<close>

type_synonym streams = "(int \<times> sst_entry list) list"

fun first_some :: "'a option list \<Rightarrow> 'a option" where
  "first_some [] = None"
| "first_some (x # xs) = (case x of None \<Rightarrow> first_some xs | Some v \<Rightarrow> Some v)"

text \<open>The value of a key in a merge: that of the stream of lowest priority that has it.\<close>

definition merge_val :: "streams \<Rightarrow> bytes \<Rightarrow> (bytes option \<times> bool) option" where
  "merge_val ss k = first_some (map (\<lambda>(p, es). map_of es k) (sort_key fst ss))"

definition merge_list :: "streams \<Rightarrow> sst_entry list" where
  "merge_list ss = map (\<lambda>k. (k, the (merge_val ss k))) (sort (remdups (map fst (concat (map snd ss)))))"

lemma first_some_None: "first_some xs = None \<longleftrightarrow> (\<forall>x\<in>set xs. x = None)"
  by (induction xs) (auto split: option.splits)

lemma first_some_append: "first_some (xs @ ys) = (case first_some xs of None \<Rightarrow> first_some ys | Some v \<Rightarrow> Some v)"
  by (induction xs) (auto split: option.splits)

lemma merge_val_None: "merge_val ss k = None \<longleftrightarrow> (\<forall>s\<in>set ss. map_of (snd s) k = None)"
  by (auto simp: merge_val_def first_some_None)

lemma merge_val_None_nth: "merge_val ss k = None \<longleftrightarrow> (\<forall>i < length ss. map_of (snd (ss ! i)) k = None)"
  unfolding merge_val_None by (simp add: all_set_conv_all_nth)

lemma merge_val_Some:
  assumes "i < length ss" "map_of (snd (ss ! i)) k = Some v"
    and "\<And>j. j < length ss \<Longrightarrow> j \<noteq> i \<Longrightarrow> map_of (snd (ss ! j)) k \<noteq> None \<Longrightarrow> fst (ss ! i) < fst (ss ! j)"
  shows "merge_val ss k = Some v"
proof -
  let ?f = "\<lambda>(p, es). map_of es k"
  have "ss ! i \<in> set (sort_key fst ss)" using assms(1) by simp
  then obtain xs ys where sp: "sort_key fst ss = xs @ ss ! i # ys" and fresh: "ss ! i \<notin> set xs" by (meson split_list_first)
  have srt: "sorted (map fst (xs @ ss ! i # ys))" using sorted_sort_key [of fst ss] sp by simp
  have "?f x = None" if x: "x \<in> set xs" for x
  proof (rule ccontr)
    assume n: "?f x \<noteq> None"
    have "x \<in> set (sort_key fst ss)" using x sp by simp
    then have "x \<in> set ss" by simp
    then obtain j where j: "j < length ss" "x = ss ! j" by (auto simp: in_set_conv_nth)
    then have "fst (ss ! i) < fst x" using assms(3) [of j] n fresh x by (cases "j = i") (auto simp: split_def)
    moreover have "fst x \<le> fst (ss ! i)" using srt x by (auto simp: sorted_append)
    ultimately show False by simp
  qed
  then have "first_some (map ?f xs) = None" by (auto simp: first_some_None)
  then show ?thesis using assms(2) sp by (simp add: merge_val_def first_some_append split_def)
qed

lemma merge_val_obtain:
  assumes "merge_val ss k = Some v" "distinct (map fst ss)"
  obtains i where "i < length ss" "map_of (snd (ss ! i)) k = Some v"
    "\<And>j. j < length ss \<Longrightarrow> j \<noteq> i \<Longrightarrow> map_of (snd (ss ! j)) k \<noteq> None \<Longrightarrow> fst (ss ! i) < fst (ss ! j)"
proof -
  define A where "A = {i. i < length ss \<and> map_of (snd (ss ! i)) k \<noteq> None}"
  have "A \<noteq> {}" using assms(1) merge_val_None_nth [of ss k] by (auto simp: A_def)
  moreover have fin: "finite A" by (simp add: A_def)
  ultimately obtain i where i: "i \<in> A" "\<forall>j\<in>A. fst (ss ! i) \<le> fst (ss ! j)"
    using arg_min_if_finite(1) [of A "\<lambda>i. fst (ss ! i)"] arg_min_least [of A _ "\<lambda>i. fst (ss ! i)"] by blast
  have lt: "fst (ss ! i) < fst (ss ! j)" if "j < length ss" "j \<noteq> i" "map_of (snd (ss ! j)) k \<noteq> None" for j
  proof -
    have "fst (ss ! i) \<noteq> fst (ss ! j)" using that i(1) assms(2) nth_eq_iff_index_eq [OF assms(2), of i j] by (auto simp: A_def)
    moreover have "fst (ss ! i) \<le> fst (ss ! j)" using that i(2) by (auto simp: A_def)
    ultimately show ?thesis by simp
  qed
  obtain w where w: "map_of (snd (ss ! i)) k = Some w" using i(1) by (auto simp: A_def)
  then have "merge_val ss k = Some w" using i(1) lt by (intro merge_val_Some) (auto simp: A_def)
  then show thesis using that [of i] w i(1) lt assms(1) by (auto simp: A_def)
qed

lemma ksorted_merge_list: "ksorted (merge_list ss)"
proof -
  have "map fst (merge_list ss) = sort (remdups (map fst (concat (map snd ss))))"
    by (simp add: merge_list_def comp_def)
  then show ?thesis by (simp add: ksorted_def strict_sorted_iff)
qed

lemma map_of_merge_list: "map_of (merge_list ss) = merge_val ss"
proof
  fix k
  have m: "map_of (map (\<lambda>k. (k, g k)) ks) k = (if k \<in> set ks then Some (g k) else None)" for g :: "bytes \<Rightarrow> bytes option \<times> bool" and ks
    by (induction ks) auto
  have "k \<in> set (map fst (concat (map snd ss))) \<longleftrightarrow> merge_val ss k \<noteq> None"
    unfolding merge_val_None by (force simp: map_of_eq_None_iff)
  then show "map_of (merge_list ss) k = merge_val ss k" unfolding merge_list_def m
    by (cases "merge_val ss k") auto
qed

lemma merge_list_cong: "merge_val ss = merge_val ss' \<Longrightarrow> merge_list ss = merge_list ss'"
  by (rule ksorted_unique) (simp_all only: ksorted_merge_list map_of_merge_list)

lemma merge_list_Nil: "merge_list ss = [] \<longleftrightarrow> (\<forall>s\<in>set ss. snd s = [])"
proof -
  have "sort (remdups xs) = [] \<longleftrightarrow> xs = []" for xs :: "bytes list"
    by (metis length_0_conv length_sort remdups_eq_nil_iff)
  then have "merge_list ss = [] \<longleftrightarrow> concat (map snd ss) = []"
    unfolding merge_list_def map_is_Nil_conv by simp
  then show ?thesis by auto
qed

lemma merge_val_cong:
  assumes "distinct (map fst ss)" "length ss' = length ss"
    and "\<And>i. i < length ss \<Longrightarrow> fst (ss' ! i) = fst (ss ! i) \<and> map_of (snd (ss' ! i)) k = map_of (snd (ss ! i)) k"
  shows "merge_val ss' k = merge_val ss k"
proof (cases "merge_val ss k")
  case None
  then have "merge_val ss' k = None" using assms(2,3) by (simp add: merge_val_None_nth)
  then show ?thesis using None by simp
next
  case (Some v)
  then obtain w where w: "w < length ss" "map_of (snd (ss ! w)) k = Some v"
    "\<And>m. m < length ss \<Longrightarrow> m \<noteq> w \<Longrightarrow> map_of (snd (ss ! m)) k \<noteq> None \<Longrightarrow> fst (ss ! w) < fst (ss ! m)"
    using merge_val_obtain [OF Some assms(1)] by blast
  have "merge_val ss' k = Some v" by (rule merge_val_Some [of w]) (use w assms(2,3) in auto)
  then show ?thesis using Some by simp
qed

text \<open>Dropping the entry of a key that a stream of lower priority also has changes nothing.\<close>

lemma merge_drop_dup:
  assumes "distinct (map fst ss)" "j < length ss" "ss ! j = (p, e # es)" "ksorted (e # es)"
    and "i < length ss" "i \<noteq> j" "fst (ss ! i) < p" "map_of (snd (ss ! i)) (fst e) \<noteq> None"
  shows "merge_val (ss[j := (p, es)]) = merge_val ss"
proof
  fix k
  let ?ss = "ss[j := (p, es)]"
  have nd: "map_of es (fst e) = None" using assms(4) by (auto simp: map_of_eq_None_iff)
  have same: "map_of (snd (?ss ! m)) k = map_of (snd (ss ! m)) k" if "m < length ss" "m \<noteq> j \<or> k \<noteq> fst e" for m
    using that assms(2,3) by (cases e) (auto simp: nth_list_update)
  have fsts: "fst (?ss ! m) = fst (ss ! m)" if "m < length ss" for m using that assms(2,3) by (auto simp: nth_list_update)
  show "merge_val ?ss k = merge_val ss k"
  proof (cases "merge_val ss k")
    case None
    have "map_of (snd (?ss ! m)) k = None" if "m < length ss" for m
    proof -
      have "map_of (snd (ss ! m)) k = None" using None that by (simp add: merge_val_None_nth)
      then show ?thesis using same [OF that] nd that assms(2) by (cases "m = j \<and> k = fst e") auto
    qed
    then have "merge_val ?ss k = None" by (simp add: merge_val_None_nth)
    then show ?thesis using None by simp
  next
    case (Some v)
    then obtain w where w: "w < length ss" "map_of (snd (ss ! w)) k = Some v"
      "\<And>m. m < length ss \<Longrightarrow> m \<noteq> w \<Longrightarrow> map_of (snd (ss ! m)) k \<noteq> None \<Longrightarrow> fst (ss ! w) < fst (ss ! m)"
      using merge_val_obtain [OF Some assms(1)] by blast
    have wj: "w \<noteq> j \<or> k \<noteq> fst e"
    proof (rule ccontr)
      assume "\<not> (w \<noteq> j \<or> k \<noteq> fst e)"
      then have "fst (ss ! j) < fst (ss ! i)" using w(3) [of i] assms by auto
      then show False using assms(3,7) by simp
    qed
    have "merge_val ?ss k = Some v"
    proof (rule merge_val_Some)
      show "map_of (snd (?ss ! w)) k = Some v" using same [OF w(1) wj] w(2) by simp
      fix m assume m: "m < length ?ss" "m \<noteq> w" "map_of (snd (?ss ! m)) k \<noteq> None"
      then have "map_of (snd (ss ! m)) k \<noteq> None" using same [of m] nd assms(2) by (cases "m = j \<and> k = fst e") auto
      then show "fst (?ss ! w) < fst (?ss ! m)" using w(3) [of m] m fsts w(1) by simp
    qed (use w in simp)
    then show ?thesis using Some by simp
  qed
qed

text \<open>Dropping the entry of the least key, held by one stream only, is taking the tail.\<close>

lemma merge_drop_win:
  assumes "j < length ss" "ss ! j = (p, e # es)" "ksorted (e # es)" "distinct (map fst ss)"
    and "\<And>i. i < length ss \<Longrightarrow> i \<noteq> j \<Longrightarrow> \<forall>x\<in>set (snd (ss ! i)). fst e < fst x"
  shows "merge_list ss = e # merge_list (ss[j := (p, es)])"
proof (rule ksorted_unique [OF ksorted_merge_list])
  let ?ss = "ss[j := (p, es)]"
  have other: "map_of (snd (ss ! i)) (fst e) = None" if "i < length ss" "i \<noteq> j" for i
    using assms(5) [OF that] by (auto simp: map_of_eq_None_iff)
  have nd: "map_of es (fst e) = None" using assms(3) by (auto simp: map_of_eq_None_iff)
  have less: "fst e < fst x" if "x \<in> set (merge_list ?ss)" for x
  proof -
    have "map_of (merge_list ?ss) (fst x) \<noteq> None" using that by (auto simp: map_of_eq_None_iff)
    then obtain s where s: "s \<in> set ?ss" "map_of (snd s) (fst x) \<noteq> None" unfolding map_of_merge_list merge_val_None by blast
    then obtain y where y: "y \<in> set (snd s)" "fst y = fst x" by (auto simp: map_of_eq_None_iff)
    obtain i where i: "i < length ss" "s = ?ss ! i" using s(1) by (auto simp: in_set_conv_nth)
    show ?thesis
    proof (cases "i = j")
      case True
      then show ?thesis using i y assms(1,3) by auto
    next
      case False
      then show ?thesis using assms(5) [OF i(1)] i y by auto
    qed
  qed
  then show "ksorted (e # merge_list ?ss)" by (simp add: ksorted_merge_list)
  have ke: "merge_val ss (fst e) = Some (snd e)"
    by (rule merge_val_Some [of j]) (use assms(1,2) other in \<open>auto split: if_splits\<close>)
  have "merge_val ss k = merge_val ?ss k" if "k \<noteq> fst e" for k
    by (rule merge_val_cong [OF assms(4), symmetric]) (use that assms(1,2) in \<open>auto simp: nth_list_update split: prod.splits\<close>)
  then show "map_of (merge_list ss) = map_of (e # merge_list ?ss)"
    using ke by (cases e) (auto simp: map_of_merge_list fun_eq_iff)
qed

subsection \<open>The merge iterator merges\<close>

definition mergeRank :: "engine_iter list \<Rightarrow> int list \<Rightarrow> nat \<Rightarrow> bytes \<times> int" where
  "mergeRank its ps i = (Iter_Key (its ! i), ps ! i)"

interpretation mh: heap_order "mergeLess its ps" "mergeRank its ps" for its ps
proof
  fix a b
  show "mergeLess its ps a b \<longleftrightarrow> mergeRank its ps a < mergeRank its ps b"
    by (auto simp: mergeLess_def mergeRank_def Let_def less_prod_def less_le)
qed

definition mi_streams :: "engine_iter list \<Rightarrow> int list \<Rightarrow> streams" where
  "mi_streams its ps = map (\<lambda>i. (ps ! i, Iter_rest (its ! i))) [0..<length its]"

definition mi_rest :: "MergeIterator \<Rightarrow> sst_entry list" where
  "mi_rest m = merge_list (mi_streams (mi_iters m) (mi_prio m))"

definition mi_all :: "MergeIterator \<Rightarrow> sst_entry list" where
  "mi_all m = merge_list (map (\<lambda>i. (mi_prio m ! i, Iter_all (mi_iters m ! i))) [0..<length (mi_iters m)])"

definition live :: "engine_iter list \<Rightarrow> nat set" where
  "live its = {i. i < length its \<and> Iter_rest (its ! i) \<noteq> []}"

definition mi_wf :: "engine_iter list \<Rightarrow> int list \<Rightarrow> nat list \<Rightarrow> bool" where
  "mi_wf its ps h \<longleftrightarrow> length ps = length its \<and> distinct ps \<and> (\<forall>it\<in>set its. Iter_inv it) \<and>
     is_heap (mergeRank its ps) h \<and> distinct h"

definition mi_inv :: "MergeIterator \<Rightarrow> bool" where
  "mi_inv m \<longleftrightarrow> mi_wf (mi_iters m) (mi_prio m) (mi_h m) \<and>
     (case mi_cur m of
        None \<Rightarrow> mi_h m = [] \<and> live (mi_iters m) = {}
      | Some c \<Rightarrow> c \<notin> set (mi_h m) \<and> insert c (set (mi_h m)) = live (mi_iters m) \<and>
                  (\<forall>j\<in>set (mi_h m). Iter_Key (mi_iters m ! c) < Iter_Key (mi_iters m ! j)))"

lemma heap_Pop_set:
  assumes "is_heap (mergeRank its ps) h" "h \<noteq> []" "heap_Pop (mergeLess its ps) h = (x, h')" "distinct h"
  shows "is_heap (mergeRank its ps) h'" "distinct h'" "set h = insert x (set h')" "x \<notin> set h'" "x = h ! 0"
    "\<forall>y\<in>set h. mergeRank its ps x \<le> mergeRank its ps y"
proof -
  note p = mh.pq.pop_ok [OF assms(1-3)]
  then show "is_heap (mergeRank its ps) h'" "x = h ! 0" "\<forall>y\<in>set h. mergeRank its ps x \<le> mergeRank its ps y" by auto
  have m: "mset h = mset (x # h')" using p by simp
  then show "set h = insert x (set h')" by (metis list.simps(15) set_mset_mset)
  have "distinct (x # h')" using m assms(4) by (metis mset_eq_imp_distinct_iff)
  then show "distinct h'" "x \<notin> set h'" by auto
qed

lemma is_heap_cong:
  assumes "\<And>x. x \<in> set h \<Longrightarrow> f x = g x" shows "is_heap f h = is_heap g h"
proof -
  have "f (h ! ((k - 1) div 2)) = g (h ! ((k - 1) div 2)) \<and> f (h ! k) = g (h ! k)" if "k < length h" for k
  proof -
    have "(k - 1) div 2 < length h" using that by linarith
    then show ?thesis using assms that by simp
  qed
  then show ?thesis unfolding is_heap_def heap_below_def by auto
qed

lemma heap_Push_set:
  assumes "is_heap (mergeRank its ps) h" "distinct h" "x \<notin> set h"
  shows "is_heap (mergeRank its ps) (heap_Push (mergeLess its ps) h x)" "distinct (heap_Push (mergeLess its ps) h x)"
    "set (heap_Push (mergeLess its ps) h x) = insert x (set h)"
proof -
  show "is_heap (mergeRank its ps) (heap_Push (mergeLess its ps) h x)" by (rule mh.pq.push_ok(1) [OF assms(1)])
  have m: "mset (heap_Push (mergeLess its ps) h x) = mset (x # h)" using mh.pq.push_ok(2) [OF assms(1)] by simp
  then show "set (heap_Push (mergeLess its ps) h x) = insert x (set h)" by (metis list.simps(15) set_mset_mset)
  show "distinct (heap_Push (mergeLess its ps) h x)" using m assms(2,3) by (metis distinct.simps(2) mset_eq_imp_distinct_iff)
qed

lemma Iter_rest_key:
  assumes "Iter_inv it" "Iter_rest it \<noteq> []"
  obtains v t es where "Iter_rest it = (Iter_Key it, v, t) # es"
proof -
  obtain k v t es where r: "Iter_rest it = (k, v, t) # es" using assms(2) by (cases "Iter_rest it") auto
  have "Iter_Key it = k" using iter.obs [OF assms(1) r] by simp
  then show thesis using r by (intro that) simp
qed

text \<open>Advancing iterator \<open>d\<close>, which is not in the heap, and putting it back if it is still valid.\<close>

lemma next_and_push:
  assumes wf: "mi_wf its ps h" and d: "d < length its" "d \<notin> set h" "Iter_rest (its ! d) \<noteq> []"
  shows "\<exists>it'. Iter_Next (its ! d) = Some it' \<and> Iter_rest it' = tl (Iter_rest (its ! d)) \<and> Iter_all it' = Iter_all (its ! d) \<and>
    (let its' = its[d := it']; h' = (if Iter_Valid it' then heap_Push (mergeLess its' ps) h d else h)
     in mi_wf its' ps h' \<and> set h' = (if Iter_rest it' = [] then set h else insert d (set h)) \<and>
        (\<forall>j\<in>set h'. (j = d \<and> Iter_Key (its ! d) < Iter_Key (its' ! d)) \<or> (j \<in> set h \<and> Iter_Key (its' ! j) = Iter_Key (its ! j))))"
proof -
  have inv: "Iter_inv (its ! d)" using wf d by (auto simp: mi_wf_def)
  obtain it' where n: "Iter_Next (its ! d) = Some it'" "Iter_inv it'" "Iter_all it' = Iter_all (its ! d)" "Iter_rest it' = tl (Iter_rest (its ! d))"
    using iter.nxt [OF inv] by blast
  let ?its = "its[d := it']"
  have invs: "\<forall>it\<in>set ?its. Iter_inv it" using wf n(2) by (auto simp: mi_wf_def dest!: set_update_subset_insert [THEN subsetD])
  have rk: "mergeRank ?its ps x = mergeRank its ps x" if "x \<in> set h" for x
    using that d by (cases "x = d") (auto simp: mergeRank_def)
  have hp: "is_heap (mergeRank ?its ps) h" using wf is_heap_cong [of h "mergeRank ?its ps" "mergeRank its ps"] rk by (auto simp: mi_wf_def)
  have dh: "distinct h" using wf by (simp add: mi_wf_def)
  note push = heap_Push_set [OF hp dh d(2)]
  have v: "Iter_Valid it' \<longleftrightarrow> Iter_rest it' \<noteq> []" by (rule iter.valid [OF n(2)])
  have key: "Iter_Key (its ! d) < Iter_Key it'" if ne: "Iter_rest it' \<noteq> []"
  proof -
    obtain v t es where r: "Iter_rest (its ! d) = (Iter_Key (its ! d), v, t) # es" using Iter_rest_key [OF inv d(3)] .
    obtain v' t' es' where r': "Iter_rest it' = (Iter_Key it', v', t') # es'" using Iter_rest_key [OF n(2) ne] .
    then have "es = (Iter_Key it', v', t') # es'" using r n(4) by simp
    then show ?thesis using iter.sorted [OF inv] r by simp
  qed
  have other: "Iter_Key (?its ! j) = Iter_Key (its ! j)" if "j \<in> set h" for j using that d by (cases "j = d") auto
  have "mi_wf ?its ps (if Iter_Valid it' then heap_Push (mergeLess ?its ps) h d else h)"
    using wf invs hp dh push by (simp add: mi_wf_def)
  then show ?thesis using n push v key other d by (intro exI [of _ it']) (auto simp: Let_def)
qed

lemma live_update: "d < length its \<Longrightarrow> live (its[d := it']) = (if Iter_rest it' = [] then live its - {d} else insert d (live its))"
  by (auto simp: live_def nth_list_update)

lemma length_mi_streams [simp]: "length (mi_streams its ps) = length its"
  by (simp add: mi_streams_def)

lemma mi_streams_nth: "i < length its \<Longrightarrow> mi_streams its ps ! i = (ps ! i, Iter_rest (its ! i))"
  by (simp add: mi_streams_def)

lemma mi_streams_update: "d < length its \<Longrightarrow> mi_streams (its[d := it']) ps = (mi_streams its ps)[d := (ps ! d, Iter_rest it')]"
  by (rule nth_equalityI) (auto simp: mi_streams_nth nth_list_update)

lemma distinct_mi_streams: "length ps = length its \<Longrightarrow> distinct ps \<Longrightarrow> distinct (map fst (mi_streams its ps))"
proof -
  assume a: "length ps = length its" "distinct ps"
  have "map fst (mi_streams its ps) = map (\<lambda>i. ps ! i) [0..<length its]" by (simp add: mi_streams_def comp_def)
  also have "\<dots> = ps" using a(1) by (metis map_nth)
  finally show ?thesis using a(2) by simp
qed

lemma sum_list_update_nat:
  "d < length xs \<Longrightarrow> (\<Sum>x\<leftarrow>xs[d := y]. g x) + g (xs ! d) = (\<Sum>x\<leftarrow>xs. g x) + (g y :: nat)"
proof (induction xs arbitrary: d)
  case (Cons x xs)
  then show ?case by (cases d) auto
qed simp

lemma skipDups_spec:
  assumes wf: "mi_wf (mi_iters m) (mi_prio m) (mi_h m)" and cur: "mi_cur m = Some w"
    and w: "w \<notin> set (mi_h m)" "insert w (set (mi_h m)) = live (mi_iters m)"
    and min: "\<forall>j\<in>set (mi_h m). mergeRank (mi_iters m) (mi_prio m) w \<le> mergeRank (mi_iters m) (mi_prio m) j"
  shows "\<exists>m'. skipDups m (Iter_Key (mi_iters m ! w)) = Some m' \<and> mi_inv m' \<and> mi_rest m' = mi_rest m \<and>
    length (mi_iters m') = length (mi_iters m) \<and> mi_prio m' = mi_prio m \<and> map Iter_all (mi_iters m') = map Iter_all (mi_iters m)"
  using assms
proof (induction "\<Sum>it\<leftarrow>mi_iters m. length (Iter_rest it)" arbitrary: m rule: less_induct)
  case less
  note wf = less.prems(1) and cur = less.prems(2) and w = less.prems(3,4) and min = less.prems(5)
  let ?its = "mi_iters m" and ?ps = "mi_prio m" and ?h = "mi_h m"
  let ?k = "Iter_Key (?its ! w)"
  have heap: "is_heap (mergeRank ?its ?ps) ?h" "distinct ?h" using wf by (auto simp: mi_wf_def)
  have wl: "w < length ?its" "Iter_rest (?its ! w) \<noteq> []" using w by (auto simp: live_def)
  show ?case
  proof (cases "?h \<noteq> [] \<and> Iter_Key (?its ! (?h ! 0)) = ?k")
    case False
    have stop: "skipDups m ?k = Some m" using False by (subst skipDups.simps) auto
    have "?k < Iter_Key (?its ! j)" if j: "j \<in> set ?h" for j
    proof -
      have "mergeRank ?its ?ps (?h ! 0) \<le> mergeRank ?its ?ps j"
        using heap_root_min [OF heap(1)] j by (auto simp: in_set_conv_nth)
      then have "Iter_Key (?its ! (?h ! 0)) \<le> Iter_Key (?its ! j)" by (auto simp: mergeRank_def less_eq_prod_def)
      moreover have "?k \<le> Iter_Key (?its ! (?h ! 0))" using min j by (cases ?h) (auto simp: mergeRank_def less_eq_prod_def)
      moreover have "Iter_Key (?its ! (?h ! 0)) \<noteq> ?k" using False j by auto
      ultimately show ?thesis by auto
    qed
    then have "mi_inv m" using wf cur w by (simp add: mi_inv_def)
    then show ?thesis using stop by blast
  next
    case True
    obtain d h' where pop: "heap_Pop (mergeLess ?its ?ps) ?h = (d, h')" by (cases "heap_Pop (mergeLess ?its ?ps) ?h")
    note p = heap_Pop_set [OF heap(1) _ pop heap(2)]
    have ph: "is_heap (mergeRank ?its ?ps) h'" "distinct h'" "set ?h = insert d (set h')" "d \<notin> set h'" "d = ?h ! 0" using p True by auto
    have dl: "d < length ?its" "Iter_rest (?its ! d) \<noteq> []" "d \<noteq> w" using ph w by (auto simp: live_def)
    have wf': "mi_wf ?its ?ps h'" using wf ph by (simp add: mi_wf_def)
    obtain it' where n: "Iter_Next (?its ! d) = Some it'" "Iter_rest it' = tl (Iter_rest (?its ! d))" "Iter_all it' = Iter_all (?its ! d)"
      and rest: "let its' = ?its[d := it']; h'' = (if Iter_Valid it' then heap_Push (mergeLess its' ?ps) h' d else h')
        in mi_wf its' ?ps h'' \<and> set h'' = (if Iter_rest it' = [] then set h' else insert d (set h')) \<and>
        (\<forall>j\<in>set h''. (j = d \<and> Iter_Key (?its ! d) < Iter_Key (its' ! d)) \<or> (j \<in> set h' \<and> Iter_Key (its' ! j) = Iter_Key (?its ! j)))"
      using next_and_push [OF wf' dl(1) ph(4) dl(2)] by blast
    define its' h'' where "its' = ?its[d := it']" and "h'' = (if Iter_Valid it' then heap_Push (mergeLess its' ?ps) h' d else h')"
    have wf2: "mi_wf its' ?ps h''" and set2: "set h'' = (if Iter_rest it' = [] then set h' else insert d (set h'))"
      and keys: "\<forall>j\<in>set h''. (j = d \<and> Iter_Key (?its ! d) < Iter_Key (its' ! d)) \<or> (j \<in> set h' \<and> Iter_Key (its' ! j) = Iter_Key (?its ! j))"
      using rest unfolding Let_def its'_def h''_def by blast+
    define m2 where "m2 = m\<lparr>mi_iters := its', mi_h := h''\<rparr>"
    have step: "skipDups m ?k = skipDups m2 ?k"
      using True pop n by (subst skipDups.simps) (simp add: m2_def its'_def h''_def Let_def)
    have kw: "Iter_Key (its' ! w) = ?k" using dl by (simp add: its'_def)
    have kd: "Iter_Key (?its ! d) = ?k" using True ph(5) by simp
    have dist: "length ?ps = length ?its" "distinct ?ps" using wf by (auto simp: mi_wf_def)
    have pr: "?ps ! w < ?ps ! d"
    proof -
      have "?ps ! w \<le> ?ps ! d" using min ph(3) kd by (auto simp: mergeRank_def less_eq_prod_def)
      moreover have "?ps ! w \<noteq> ?ps ! d" using dist dl wl by (simp add: nth_eq_iff_index_eq)
      ultimately show ?thesis by simp
    qed
    have "mi_rest m2 = mi_rest m"
    proof -
      have inv: "Iter_inv (?its ! d)" "Iter_inv (?its ! w)" using wf dl wl by (auto simp: mi_wf_def)
      obtain v t es where rd: "Iter_rest (?its ! d) = (Iter_Key (?its ! d), v, t) # es" using Iter_rest_key [OF inv(1) dl(2)] .
      obtain v' t' es' where rw: "Iter_rest (?its ! w) = (?k, v', t') # es'" using Iter_rest_key [OF inv(2) wl(2)] .
      have "merge_val ((mi_streams ?its ?ps)[d := (?ps ! d, es)]) = merge_val (mi_streams ?its ?ps)"
        by (rule merge_drop_dup [where e = "(Iter_Key (?its ! d), v, t)" and i = w])
           (use dl wl dist rd rw pr kd iter.sorted [OF inv(1)] in \<open>auto simp: mi_streams_nth distinct_mi_streams\<close>)
      then show ?thesis using rd n(2) dl
        by (simp add: mi_rest_def m2_def its'_def mi_streams_update cong: merge_list_cong)
    qed
    moreover have "\<exists>m'. skipDups m2 (Iter_Key (mi_iters m2 ! w)) = Some m' \<and> mi_inv m' \<and> mi_rest m' = mi_rest m2 \<and>
      length (mi_iters m') = length (mi_iters m2) \<and> mi_prio m' = mi_prio m2 \<and> map Iter_all (mi_iters m') = map Iter_all (mi_iters m2)"
    proof (rule less.hyps)
      show "(\<Sum>it\<leftarrow>mi_iters m2. length (Iter_rest it)) < (\<Sum>it\<leftarrow>?its. length (Iter_rest it))"
        using sum_list_update_nat [OF dl(1), of "\<lambda>it. length (Iter_rest it)" it'] n(2) dl(2)
        by (cases "Iter_rest (?its ! d)") (auto simp: m2_def its'_def)
      show "mi_wf (mi_iters m2) (mi_prio m2) (mi_h m2)" using wf2 by (simp add: m2_def)
      show "mi_cur m2 = Some w" using cur by (simp add: m2_def)
      show "w \<notin> set (mi_h m2)" using set2 w(1) ph dl by (auto simp: m2_def)
      show "insert w (set (mi_h m2)) = live (mi_iters m2)"
        using set2 w(2) ph dl live_update [OF dl(1), of it'] by (auto simp: m2_def its'_def)
      show "\<forall>j\<in>set (mi_h m2). mergeRank (mi_iters m2) (mi_prio m2) w \<le> mergeRank (mi_iters m2) (mi_prio m2) j"
      proof
        fix j assume "j \<in> set (mi_h m2)"
        then consider "j = d" "?k < Iter_Key (its' ! d)" | "j \<in> set h'" "Iter_Key (its' ! j) = Iter_Key (?its ! j)"
          using keys kd by (auto simp: m2_def)
        then show "mergeRank (mi_iters m2) (mi_prio m2) w \<le> mergeRank (mi_iters m2) (mi_prio m2) j"
        proof cases
          case 1
          then show ?thesis using kw by (simp add: m2_def mergeRank_def less_eq_prod_def)
        next
          case 2
          then have "mergeRank ?its ?ps w \<le> mergeRank ?its ?ps j" using min ph(3) by simp
          then show ?thesis using kw 2 by (simp add: m2_def mergeRank_def)
        qed
      qed
    qed
    ultimately show ?thesis using step kw n(3) dl
      by (auto simp: m2_def its'_def map_update list_update_same_conv)
  qed
qed

lemma advance_merge:
  assumes wf: "mi_wf (mi_iters m) (mi_prio m) (mi_h m)" and h: "set (mi_h m) = live (mi_iters m)"
  shows "\<exists>m'. MergeIterator_advance m = Some m' \<and> mi_inv m' \<and> mi_rest m' = mi_rest m \<and>
    length (mi_iters m') = length (mi_iters m) \<and> mi_prio m' = mi_prio m \<and> map Iter_all (mi_iters m') = map Iter_all (mi_iters m)"
proof (cases "mi_h m = []")
  case True
  then show ?thesis using assms by (simp add: MergeIterator_advance_def mi_inv_def mi_rest_def)
next
  case False
  let ?its = "mi_iters m" and ?ps = "mi_prio m"
  obtain w h' where pop: "heap_Pop (mergeLess ?its ?ps) (mi_h m) = (w, h')" by (cases "heap_Pop (mergeLess ?its ?ps) (mi_h m)")
  have hd: "is_heap (mergeRank ?its ?ps) (mi_h m)" "distinct (mi_h m)" using wf by (auto simp: mi_wf_def)
  note p = heap_Pop_set [OF hd(1) False pop hd(2)]
  let ?m = "m\<lparr>mi_h := h', mi_cur := Some w\<rparr>"
  have "\<exists>m'. skipDups ?m (Iter_Key (mi_iters ?m ! w)) = Some m' \<and> mi_inv m' \<and> mi_rest m' = mi_rest ?m \<and>
    length (mi_iters m') = length (mi_iters ?m) \<and> mi_prio m' = mi_prio ?m \<and> map Iter_all (mi_iters m') = map Iter_all (mi_iters ?m)"
    by (rule skipDups_spec) (use wf p h in \<open>auto simp: mi_wf_def\<close>)
  then show ?thesis using False pop by (simp add: MergeIterator_advance_def mi_rest_def)
qed

lemma buildHeap_ready:
  assumes "length ps = length its" "distinct ps" "\<forall>it\<in>set its. Iter_inv it" "mi_iters m = its" "mi_prio m = ps"
  shows "mi_wf (mi_iters (buildHeap m)) (mi_prio (buildHeap m)) (mi_h (buildHeap m))"
    and "set (mi_h (buildHeap m)) = live (mi_iters (buildHeap m))"
    and "mi_iters (buildHeap m) = its" "mi_prio (buildHeap m) = ps"
proof -
  let ?l = "filter (\<lambda>i. Iter_Valid (its ! i)) [0..<length its]"
  have i: "is_heap (mergeRank its ps) (heap_Init (mergeLess its ps) ?l)" "mset (heap_Init (mergeLess its ps) ?l) = mset ?l"
    by (rule mh.pq.init_ok)+
  have d: "distinct (heap_Init (mergeLess its ps) ?l)" "set (heap_Init (mergeLess its ps) ?l) = set ?l"
    using i(2) by (metis distinct_filter distinct_upt mset_eq_imp_distinct_iff, metis mset_eq_setD)
  have "set ?l = live its" using assms(3) iter.valid by (auto simp: live_def)
  then show "mi_wf (mi_iters (buildHeap m)) (mi_prio (buildHeap m)) (mi_h (buildHeap m))"
    and "set (mi_h (buildHeap m)) = live (mi_iters (buildHeap m))"
    and "mi_iters (buildHeap m) = its" "mi_prio (buildHeap m) = ps"
    using assms i d by (auto simp: buildHeap_def mi_wf_def)
qed

lemma map_opt_Some:
  assumes "\<forall>x\<in>set xs. \<exists>y. f x = Some y \<and> P x y" shows "\<exists>ys. map_opt f xs = Some ys \<and> list_all2 P xs ys"
  using assms by (induction xs) fastforce+

lemma mi_all_eq: "map Iter_all (mi_iters m') = map Iter_all (mi_iters m) \<Longrightarrow> mi_prio m' = mi_prio m \<Longrightarrow> mi_all m' = mi_all m"
proof -
  assume a: "map Iter_all (mi_iters m') = map Iter_all (mi_iters m)" and p: "mi_prio m' = mi_prio m"
  have l: "length (mi_iters m') = length (mi_iters m)" using a by (metis length_map)
  have "Iter_all (mi_iters m' ! i) = Iter_all (mi_iters m ! i)" if "i < length (mi_iters m)" for i
    using a that l by (metis nth_map)
  then have "map (\<lambda>i. (mi_prio m' ! i, Iter_all (mi_iters m' ! i))) [0..<length (mi_iters m')] =
    map (\<lambda>i. (mi_prio m ! i, Iter_all (mi_iters m ! i))) [0..<length (mi_iters m)]"
    using l p by (intro map_cong) auto
  then show ?thesis by (simp only: mi_all_def)
qed

text \<open>Repositioning every input by \<open>f\<close>, which makes \<open>g\<close> of its content what is left of it.\<close>

lemma reposition:
  assumes inv: "mi_inv m"
    and f: "\<And>it. Iter_inv it \<Longrightarrow> \<exists>it'. f it = Some it' \<and> Iter_inv it' \<and> Iter_all it' = Iter_all it \<and> Iter_rest it' = g (Iter_all it)"
  shows "\<exists>m'. (case map_opt f (mi_iters m) of None \<Rightarrow> None | Some its \<Rightarrow> MergeIterator_advance (buildHeap (m\<lparr>mi_iters := its\<rparr>))) = Some m' \<and>
    mi_inv m' \<and> mi_all m' = mi_all m \<and>
    mi_rest m' = merge_list (map (\<lambda>i. (mi_prio m ! i, g (Iter_all (mi_iters m ! i)))) [0..<length (mi_iters m)])"
proof -
  have wf: "length (mi_prio m) = length (mi_iters m)" "distinct (mi_prio m)" "\<forall>it\<in>set (mi_iters m). Iter_inv it"
    using inv by (auto simp: mi_inv_def mi_wf_def)
  obtain its where its: "map_opt f (mi_iters m) = Some its"
    "list_all2 (\<lambda>it it'. Iter_inv it' \<and> Iter_all it' = Iter_all it \<and> Iter_rest it' = g (Iter_all it)) (mi_iters m) its"
    using map_opt_Some [of "mi_iters m" f "\<lambda>it it'. Iter_inv it' \<and> Iter_all it' = Iter_all it \<and> Iter_rest it' = g (Iter_all it)"] f wf(3) by blast
  have len: "length its = length (mi_iters m)" using its(2) by (simp add: list_all2_lengthD)
  have nth: "Iter_inv (its ! i) \<and> Iter_all (its ! i) = Iter_all (mi_iters m ! i) \<and> Iter_rest (its ! i) = g (Iter_all (mi_iters m ! i))"
    if "i < length its" for i using its(2) that len by (simp add: list_all2_conv_all_nth)
  have invs: "\<forall>it\<in>set its. Iter_inv it" using nth by (auto simp: in_set_conv_nth)
  let ?b = "buildHeap (m\<lparr>mi_iters := its\<rparr>)"
  have bh: "mi_wf (mi_iters ?b) (mi_prio ?b) (mi_h ?b)" "set (mi_h ?b) = live (mi_iters ?b)" "mi_iters ?b = its" "mi_prio ?b = mi_prio m"
    using buildHeap_ready [of "mi_prio m" its "m\<lparr>mi_iters := its\<rparr>"] wf len invs by auto
  obtain m' where m': "MergeIterator_advance ?b = Some m'" "mi_inv m'" "mi_rest m' = mi_rest ?b" "length (mi_iters m') = length its"
    "mi_prio m' = mi_prio m" "map Iter_all (mi_iters m') = map Iter_all its"
    using advance_merge [OF bh(1,2)] unfolding bh(3,4) by blast
  have "map Iter_all its = map Iter_all (mi_iters m)" using nth len by (intro nth_equalityI) auto
  then have "mi_all m' = mi_all m" using m' mi_all_eq by metis
  moreover have "mi_rest ?b = merge_list (map (\<lambda>i. (mi_prio m ! i, g (Iter_all (mi_iters m ! i)))) [0..<length (mi_iters m)])"
  proof -
    have "mi_streams its (mi_prio m) = map (\<lambda>i. (mi_prio m ! i, g (Iter_all (mi_iters m ! i)))) [0..<length (mi_iters m)]"
      unfolding mi_streams_def using nth len by (intro map_cong) auto
    then show ?thesis unfolding mi_rest_def bh(3,4) by (rule arg_cong)
  qed
  ultimately show ?thesis using its(1) m' by auto
qed

lemma map_of_filter_ge: "map_of (filter (\<lambda>e. k \<le> fst e) es) x = (if k \<le> x then map_of es x else None)"
  by (induction es) (auto split: prod.splits)

lemma merge_list_from:
  assumes d: "distinct (map fst ss)" and len: "length ss' = length ss"
    and ss': "\<And>i. i < length ss \<Longrightarrow> ksorted (snd (ss ! i)) \<and> ss' ! i = (fst (ss ! i), dropWhile (\<lambda>e. fst e < k) (snd (ss ! i)))"
  shows "merge_list ss' = dropWhile (\<lambda>e. fst e < k) (merge_list ss)"
proof (rule ksorted_unique [OF ksorted_merge_list])
  note dw = dropWhile_ksorted [OF ksorted_merge_list, of k ss]
  show "ksorted (dropWhile (\<lambda>e. fst e < k) (merge_list ss))"
    unfolding dw using ksorted_merge_list [of ss] by (simp add: ksorted_def sorted_wrt_map sorted_wrt_filter)
  show "map_of (merge_list ss') = map_of (dropWhile (\<lambda>e. fst e < k) (merge_list ss))"
  proof
    fix x
    have nth: "map_of (snd (ss' ! i)) x = (if k \<le> x then map_of (snd (ss ! i)) x else None)" if "i < length ss" for i
      using ss' [OF that] by (simp add: dropWhile_ksorted map_of_filter_ge)
    have "merge_val ss' x = (if k \<le> x then merge_val ss x else None)"
    proof (cases "k \<le> x")
      case True
      then show ?thesis using merge_val_cong [OF d len, of x] nth ss' by simp
    next
      case False
      then show ?thesis using nth len by (simp add: merge_val_None_nth)
    qed
    then show "map_of (merge_list ss') x = map_of (dropWhile (\<lambda>e. fst e < k) (merge_list ss)) x"
      unfolding dw map_of_filter_ge map_of_merge_list .
  qed
qed

lemma mi_Seek_rep:
  assumes "mi_inv m"
  shows "\<exists>m'. MergeIterator_Seek m k = Some m' \<and> mi_inv m' \<and> mi_all m' = mi_all m \<and>
    mi_rest m' = dropWhile (\<lambda>e. fst e < k) (mi_all m)"
proof -
  have wf: "length (mi_prio m) = length (mi_iters m)" "distinct (mi_prio m)" "\<forall>it\<in>set (mi_iters m). Iter_inv it"
    using assms by (auto simp: mi_inv_def mi_wf_def)
  let ?s = "\<lambda>f. map (\<lambda>i. (mi_prio m ! i, f (Iter_all (mi_iters m ! i)))) [0..<length (mi_iters m)]"
  have "map fst (?s id) = mi_prio m" using wf(1) by (auto simp: comp_def intro!: nth_equalityI)
  then have "merge_list (?s (dropWhile (\<lambda>e. fst e < k))) = dropWhile (\<lambda>e. fst e < k) (merge_list (?s id))"
    by (intro merge_list_from) (use wf iter.sorted in \<open>auto simp: nth_append\<close>)
  then have eq: "merge_list (?s (dropWhile (\<lambda>e. fst e < k))) = dropWhile (\<lambda>e. fst e < k) (mi_all m)" by (simp add: mi_all_def)
  show ?thesis unfolding MergeIterator_Seek_def
    using reposition [OF assms, of "\<lambda>it. Iter_Seek it k" "dropWhile (\<lambda>e. fst e < k)"] iter.seek unfolding eq by blast
qed

lemma mi_SeekToFirst_rep:
  assumes "mi_inv m"
  shows "\<exists>m'. MergeIterator_SeekToFirst m = Some m' \<and> mi_inv m' \<and> mi_all m' = mi_all m \<and> mi_rest m' = mi_all m"
  unfolding MergeIterator_SeekToFirst_def
  using reposition [OF assms, of Iter_SeekToFirst "\<lambda>es. es"] iter.first by (auto simp: mi_all_def)

lemma mi_others_greater:
  assumes "mi_inv m" "mi_cur m = Some c" "i < length (mi_iters m)" "i \<noteq> c" "x \<in> set (Iter_rest (mi_iters m ! i))"
  shows "Iter_Key (mi_iters m ! c) < fst x"
proof -
  have i: "i \<in> set (mi_h m)" "Iter_inv (mi_iters m ! i)" "Iter_rest (mi_iters m ! i) \<noteq> []"
    using assms by (auto simp: mi_inv_def mi_wf_def live_def)
  have less: "Iter_Key (mi_iters m ! c) < Iter_Key (mi_iters m ! i)" using assms(1,2) i(1) by (simp add: mi_inv_def)
  obtain v t es where r: "Iter_rest (mi_iters m ! i) = (Iter_Key (mi_iters m ! i), v, t) # es" using Iter_rest_key [OF i(2,3)] .
  then have "Iter_Key (mi_iters m ! i) \<le> fst x" using iter.sorted [OF i(2)] assms(5) by auto
  then show ?thesis using less by simp
qed

lemma mi_current:
  assumes inv: "mi_inv m" and c: "mi_cur m = Some c"
  obtains v t es where "Iter_rest (mi_iters m ! c) = (Iter_Key (mi_iters m ! c), v, t) # es" "c < length (mi_iters m)"
    "Iter_inv (mi_iters m ! c)" "c \<notin> set (mi_h m)"
    "mi_rest m = (Iter_Key (mi_iters m ! c), v, t) # merge_list ((mi_streams (mi_iters m) (mi_prio m))[c := (mi_prio m ! c, es)])"
proof -
  have wf: "length (mi_prio m) = length (mi_iters m)" "distinct (mi_prio m)" "\<forall>it\<in>set (mi_iters m). Iter_inv it"
    and lv: "insert c (set (mi_h m)) = live (mi_iters m)" "c \<notin> set (mi_h m)"
    using inv c by (auto simp: mi_inv_def mi_wf_def)
  have "c \<in> live (mi_iters m)" using lv(1) by blast
  then have c': "c < length (mi_iters m)" "Iter_rest (mi_iters m ! c) \<noteq> []" "Iter_inv (mi_iters m ! c)" "c \<notin> set (mi_h m)"
    using wf(3) lv(2) by (auto simp: live_def)
  obtain v t es where r: "Iter_rest (mi_iters m ! c) = (Iter_Key (mi_iters m ! c), v, t) # es" using Iter_rest_key [OF c'(3,2)] .
  have "mi_rest m = (Iter_Key (mi_iters m ! c), v, t) # merge_list ((mi_streams (mi_iters m) (mi_prio m))[c := (mi_prio m ! c, es)])"
    unfolding mi_rest_def
  proof (rule merge_drop_win)
    show "ksorted ((Iter_Key (mi_iters m ! c), v, t) # es)" using iter.sorted [OF c'(3)] r by simp
    show "\<forall>x\<in>set (snd (mi_streams (mi_iters m) (mi_prio m) ! i)). fst (Iter_Key (mi_iters m ! c), v, t) < fst x"
      if "i < length (mi_streams (mi_iters m) (mi_prio m))" "i \<noteq> c" for i
      using mi_others_greater [OF inv c] that by (auto simp: mi_streams_nth)
  qed (use c' r wf in \<open>auto simp: mi_streams_nth distinct_mi_streams\<close>)
  then show thesis using r c' by (intro that)
qed

lemma mi_exhausted: "mi_inv m \<Longrightarrow> mi_cur m = None \<Longrightarrow> mi_rest m = []"
  by (auto simp: mi_inv_def mi_rest_def merge_list_Nil mi_streams_def live_def)

lemma mi_Next_rep:
  assumes inv: "mi_inv m"
  shows "\<exists>m'. MergeIterator_Next m = Some m' \<and> mi_inv m' \<and> mi_all m' = mi_all m \<and> mi_rest m' = tl (mi_rest m)"
proof (cases "mi_cur m")
  case None
  then show ?thesis using mi_exhausted [OF inv] inv by (simp add: MergeIterator_Next_def)
next
  case (Some c)
  obtain v t es where r: "Iter_rest (mi_iters m ! c) = (Iter_Key (mi_iters m ! c), v, t) # es" "c < length (mi_iters m)"
    "Iter_inv (mi_iters m ! c)" "c \<notin> set (mi_h m)"
    "mi_rest m = (Iter_Key (mi_iters m ! c), v, t) # merge_list ((mi_streams (mi_iters m) (mi_prio m))[c := (mi_prio m ! c, es)])"
    using mi_current [OF inv Some] .
  have wf: "mi_wf (mi_iters m) (mi_prio m) (mi_h m)" and lv: "insert c (set (mi_h m)) = live (mi_iters m)"
    using inv Some by (auto simp: mi_inv_def)
  have ne: "Iter_rest (mi_iters m ! c) \<noteq> []" using r by simp
  obtain it' where n: "Iter_Next (mi_iters m ! c) = Some it'" "Iter_rest it' = es" "Iter_all it' = Iter_all (mi_iters m ! c)"
    and rest: "let its' = (mi_iters m)[c := it']; h'' = (if Iter_Valid it' then heap_Push (mergeLess its' (mi_prio m)) (mi_h m) c else mi_h m)
        in mi_wf its' (mi_prio m) h'' \<and> set h'' = (if Iter_rest it' = [] then set (mi_h m) else insert c (set (mi_h m)))"
    using next_and_push [OF wf r(2,4) ne] r(1) unfolding Let_def by auto
  define its' h'' where "its' = (mi_iters m)[c := it']" and "h'' = (if Iter_Valid it' then heap_Push (mergeLess its' (mi_prio m)) (mi_h m) c else mi_h m)"
  have wf2: "mi_wf its' (mi_prio m) h''" and set2: "set h'' = (if Iter_rest it' = [] then set (mi_h m) else insert c (set (mi_h m)))"
    using rest unfolding Let_def its'_def h''_def by blast+
  let ?m = "m\<lparr>mi_iters := its', mi_h := h''\<rparr>"
  have "set (mi_h ?m) = live (mi_iters ?m)" using set2 lv r(2,4) live_update [OF r(2), of it'] by (auto simp: its'_def)
  then obtain m' where m': "MergeIterator_advance ?m = Some m'" "mi_inv m'" "mi_rest m' = mi_rest ?m"
    "mi_prio m' = mi_prio m" "map Iter_all (mi_iters m') = map Iter_all its'"
    using advance_merge [of ?m] wf2 by auto
  have "map Iter_all its' = map Iter_all (mi_iters m)" using n(3) r(2) by (simp add: its'_def map_update list_update_same_conv)
  then have "mi_all m' = mi_all m" using m' mi_all_eq by metis
  moreover have "mi_rest ?m = tl (mi_rest m)" using r(2) unfolding r(5) by (simp add: mi_rest_def its'_def mi_streams_update n(2))
  moreover have "MergeIterator_Next m = MergeIterator_advance ?m" using Some n(1) by (simp add: MergeIterator_Next_def Let_def its'_def h''_def)
  ultimately show ?thesis using m' by auto
qed

interpretation merge: sorted_iterator MergeIterator_SeekToFirst MergeIterator_Seek MergeIterator_Next MergeIterator_Valid
  MergeIterator_Key MergeIterator_Value MergeIterator_IsTombstone mi_inv mi_all mi_rest
proof
  fix m k v t es
  assume inv: "mi_inv m"
  show "MergeIterator_Valid m \<longleftrightarrow> mi_rest m \<noteq> []"
  proof (cases "mi_cur m")
    case None
    then show ?thesis using mi_exhausted [OF inv] by (simp add: MergeIterator_Valid_def)
  next
    case (Some c)
    then show ?thesis using mi_current [OF inv Some] by (metis MergeIterator_Valid_def list.distinct(1) option.distinct(1))
  qed
  assume rest: "mi_rest m = (k, v, t) # es"
  obtain c where c: "mi_cur m = Some c" using mi_exhausted [OF inv] rest by (cases "mi_cur m") auto
  obtain v' t' es' where r: "Iter_rest (mi_iters m ! c) = (Iter_Key (mi_iters m ! c), v', t') # es'" "Iter_inv (mi_iters m ! c)"
    "mi_rest m = (Iter_Key (mi_iters m ! c), v', t') # merge_list ((mi_streams (mi_iters m) (mi_prio m))[c := (mi_prio m ! c, es')])"
    using mi_current [OF inv c] by metis
  show "MergeIterator_Key m = k \<and> MergeIterator_Value m = v \<and> MergeIterator_IsTombstone m = t"
    using iter.obs [OF r(2,1)] r(3) rest c by (simp add: MergeIterator_Key_def MergeIterator_Value_def MergeIterator_IsTombstone_def)
qed (use mi_SeekToFirst_rep mi_Seek_rep mi_Next_rep ksorted_merge_list in \<open>auto simp: mi_all_def mi_rest_def\<close>)

subsection \<open>Merging sources in their order\<close>

text \<open>Every use of the merge iterator numbers its sources from 0 in the order it lists them.\<close>

definition by_order :: "'a list \<Rightarrow> (int \<times> 'a) list" where
  "by_order xs = map (\<lambda>i. (int i, xs ! i)) [0..<length xs]"

lemma sort_by_order: "sort_key fst (by_order xs) = by_order xs"
  by (rule sort_key_id_if_sorted) (simp add: by_order_def comp_def sorted_wrt_iff_nth_less)

lemma merge_val_by_order: "merge_val (by_order ss) k = first_some (map (\<lambda>es. map_of es k) ss)"
proof -
  have "map (\<lambda>(p, es). map_of es k) (by_order ss) = map (\<lambda>es. map_of es k) ss"
    by (rule nth_equalityI) (auto simp: by_order_def)
  then show ?thesis by (simp add: merge_val_def sort_by_order)
qed

lemma NewMergeIterator_rep:
  assumes "\<forall>it\<in>set its. Iter_inv it \<and> Iter_rest it = []"
  shows "\<exists>m. NewMergeIterator its (map int [0..<length its]) = Some m \<and> mi_inv m \<and> mi_all m = merge_list (by_order (map Iter_all its))"
proof -
  have "live its = {}" using assms by (auto simp: live_def)
  moreover have "distinct (map int [0..<length its])" by (simp add: distinct_map)
  moreover have "map (\<lambda>i. (map int [0..<length its] ! i, Iter_all (its ! i))) [0..<length its] = by_order (map Iter_all its)"
    by (rule nth_equalityI) (auto simp: by_order_def)
  ultimately show ?thesis using assms
    by (auto simp: NewMergeIterator_def mi_inv_def mi_wf_def mi_all_def is_heap_def heap_below_def)
qed

lemma fresh_iterators:
  "mem_inv m \<Longrightarrow> Iter_inv (MemIter (Memtable_NewIterator m)) \<and> Iter_rest (MemIter (Memtable_NewIterator m)) = [] \<and>
     Iter_all (MemIter (Memtable_NewIterator m)) = mem_ient (mem_entries m)"
  "reader_ok r \<Longrightarrow> Iter_inv (SSTIter (Reader_NewIterator r)) \<and> Iter_rest (SSTIter (Reader_NewIterator r)) = [] \<and>
     Iter_all (SSTIter (Reader_NewIterator r)) = reader_entries r"
  by (simp_all add: Memtable_NewIterator_def SkipList_NewIterator_def sli_inv_def sli_rest_def mem_inv_def mem_entries_def mem_ient_def
      Reader_NewIterator_def si_inv_def si_rest_def reader_ok_def sst_ient_def)

text \<open>The sources of a range read: memtables, then tables.\<close>

definition source_iters :: "Memtable list \<Rightarrow> Reader list \<Rightarrow> engine_iter list" where
  "source_iters ms rs = map (\<lambda>m. MemIter (Memtable_NewIterator m)) ms @ map (\<lambda>r. SSTIter (Reader_NewIterator r)) rs"

definition source_ents :: "Memtable list \<Rightarrow> Reader list \<Rightarrow> sst_entry list list" where
  "source_ents ms rs = map (\<lambda>m. mem_ient (mem_entries m)) ms @ map reader_entries rs"

lemma source_merge:
  assumes "\<forall>m\<in>set ms. mem_inv m" "\<forall>r\<in>set rs. reader_ok r"
  shows "\<exists>mi. NewMergeIterator (source_iters ms rs) (map int [0..<length (source_iters ms rs)]) = Some mi \<and> mi_inv mi \<and>
    mi_all mi = merge_list (by_order (source_ents ms rs))"
proof -
  have "\<forall>it\<in>set (source_iters ms rs). Iter_inv it \<and> Iter_rest it = []"
    using assms fresh_iterators by (auto simp: source_iters_def simp del: Iter_inv.simps Iter_rest.simps)
  moreover have "map Iter_all (source_iters ms rs) = source_ents ms rs"
    using assms fresh_iterators by (auto simp: source_iters_def source_ents_def simp del: Iter_all.simps)
  ultimately show ?thesis using NewMergeIterator_rep [of "source_iters ms rs"] by simp
qed

subsection \<open>Properties\<close>

text \<open>C24. The merge iterator over any memtables and tables, numbered in their order, positioned by
  \<open>Seek\<close> and stepped with \<open>Next\<close> to the end (a number of steps that the content bounds), yields
  keys in strictly increasing order, every key from the start key on that some source holds exactly
  once, with the value and the tombstone flag of the first source that holds it, and no other key.\<close>

theorem merge_iterator_scan:
  assumes "\<forall>m\<in>set ms. mem_inv m" "\<forall>r\<in>set rs. reader_ok r"
    and "sum_list (map length (source_ents ms rs)) \<le> n"
  shows "\<exists>mi mi' es. NewMergeIterator (source_iters ms rs) (map int [0..<length (source_iters ms rs)]) = Some mi \<and>
    MergeIterator_Seek mi start = Some mi' \<and>
    iter_collect MergeIterator_Next MergeIterator_Valid MergeIterator_Key MergeIterator_Value MergeIterator_IsTombstone n mi' = Some es \<and>
    sorted_wrt (<) (map fst es) \<and>
    (\<forall>k. map_of es k = (if start \<le> k then first_some (map (\<lambda>s. map_of s k) (source_ents ms rs)) else None))"
proof -
  obtain mi where mi: "NewMergeIterator (source_iters ms rs) (map int [0..<length (source_iters ms rs)]) = Some mi" "mi_inv mi"
    "mi_all mi = merge_list (by_order (source_ents ms rs))" using source_merge [OF assms(1,2)] by blast
  obtain mi' where mi': "MergeIterator_Seek mi start = Some mi'" "mi_inv mi'" "mi_rest mi' = dropWhile (\<lambda>e. fst e < start) (mi_all mi)"
    using merge.seek [OF mi(2), of start] by blast
  have "length (mi_rest mi') \<le> length (mi_all mi)" using mi'(3) by (simp add: length_dropWhile_le)
  also have "\<dots> \<le> sum_list (map length (source_ents ms rs))"
  proof -
    have "map snd (by_order (source_ents ms rs)) = source_ents ms rs" by (rule nth_equalityI) (auto simp: by_order_def)
    then show ?thesis using length_remdups_leq [of "map fst (concat (source_ents ms rs))"] mi(3)
      by (simp add: merge_list_def length_concat)
  qed
  finally have c: "iter_collect MergeIterator_Next MergeIterator_Valid MergeIterator_Key MergeIterator_Value MergeIterator_IsTombstone n mi' =
    Some (mi_rest mi')" using merge.collect_rest [OF mi'(2)] assms(3) by simp
  have "map_of (mi_rest mi') k = (if start \<le> k then first_some (map (\<lambda>s. map_of s k) (source_ents ms rs)) else None)" for k
    unfolding mi'(3) mi(3) dropWhile_ksorted [OF ksorted_merge_list] map_of_filter_ge map_of_merge_list merge_val_by_order ..
  moreover have "sorted_wrt (<) (map fst (mi_rest mi'))" using merge.sorted [OF mi'(2)] by (simp add: ksorted_def)
  ultimately show ?thesis using mi(1) mi'(1) c by blast
qed

theorem merge_iterator_scan_witness:
  "\<exists>m1 m2 mi mi' es. Memtable_Put (\<lambda>_. False) (NewMemtable 0) [1] (Some [10]) = Ok m1 \<and>
    Memtable_Put (\<lambda>_. False) (NewMemtable 0) [1] None = Ok m2 \<and>
    NewMergeIterator (source_iters [m1, m2] []) (map int [0..<2]) = Some mi \<and> MergeIterator_Seek mi [0] = Some mi' \<and>
    iter_collect MergeIterator_Next MergeIterator_Valid MergeIterator_Key MergeIterator_Value MergeIterator_IsTombstone 2 mi' = Some es \<and>
    map_of es [1] = Some (Some [10], False)"
proof -
  obtain m1 where m1: "Memtable_Put (\<lambda>_. False) (NewMemtable 0) [1] (Some [10]) = Ok m1" "mem_inv m1" "mem_entries m1 = [([1], Some [10])]"
    using mem.put_ok [of "NewMemtable 0" "\<lambda>_. False" "[1]" "Some [10]"] by (auto simp: Memtable_IsFrozen_def)
  obtain m2 where m2: "Memtable_Put (\<lambda>_. False) (NewMemtable 0) [1] None = Ok m2" "mem_inv m2" "mem_entries m2 = [([1], None)]"
    using mem.put_ok [of "NewMemtable 0" "\<lambda>_. False" "[1]" None] by (auto simp: Memtable_IsFrozen_def)
  have src: "source_ents [m1, m2] [] = [[([1], Some [10], False)], [([1], None, True)]]" by (simp add: source_ents_def m1 m2 mem_ient_def)
  have len: "length (source_iters [m1, m2] []) = 2" by (simp add: source_iters_def)
  show ?thesis using merge_iterator_scan [of "[m1, m2]" "[]" 2 "[0]"] m1 m2 unfolding src len by fastforce
qed

end
