(* ===== verification/Engine.thy ===== *)
theory Engine
  imports Wal Manifest Merge_Iterator
begin

text \<open>
  \<open>engine/engine.go\<close>: the LSM engine. One record holds the engine and the disk it works on: the
  log directory, the table files and, inside the manifest, the manifest file. Memtables and readers
  are compared by pointer in the source, so they carry an address. Operations that hold the engine's
  lock are functions on the record; \<open>flushMemtable\<close>, which takes the lock several times, is the
  composition of its phases, so that \<open>Engine_Steps\<close> can interleave them with the other operations.
  \<open>None\<close> as an outcome is a call that does not return. Which system calls fail is in the environment
  records.

  The lemmas show that under the invariant \<open>eng_inv\<close> the four-stage lookup of \<open>Get\<close> and the merge
  of \<open>ReadRange\<close> both compute \<open>engine_view\<close>, the newest entry of a key over all sources. What the
  operations do to the view is in \<open>Engine_Ops\<close>.
\<close>

subsection \<open>Data\<close>

definition ErrNotFound :: string where "ErrNotFound = ''key not found''"

record KVPair =
  kv_Key :: bytes
  kv_Value :: "bytes option"

record Options =
  MemtableSize :: int
  L0CompactTrigger :: int
  MaxLevels :: int
  BlockSize :: int

definition applyDefaults :: "Options \<Rightarrow> Options" where
  "applyDefaults opts =
     opts\<lparr>MemtableSize := (if MemtableSize opts \<le> 0 then 4 * 1024 * 1024 else MemtableSize opts),
          L0CompactTrigger := (if L0CompactTrigger opts \<le> 0 then 4 else L0CompactTrigger opts),
          MaxLevels := (if MaxLevels opts \<le> 0 then 7 else MaxLevels opts),
          BlockSize := (if BlockSize opts \<le> 0 then 4096 else BlockSize opts)\<rparr>"

text \<open>A pointer is its address and what it points to.\<close>

type_synonym memptr = "nat \<times> Memtable"
type_synonym rdptr = "nat \<times> Reader"

record flushTask =
  ft_mem :: memptr
  ft_walID :: "64 word"

record Engine =
  e_opts :: Options
  e_wal :: WAL
  e_waldir :: dir
  e_files :: "string \<Rightarrow> bytes option"
  e_memtable :: memptr
  immutableMems :: "memptr list"
  e_levels :: "rdptr list list"
  e_manifest :: Manifest
  flushCh :: "flushTask list"
  compactCh :: bool
  nextFileNum :: "64 word"
  e_closed :: bool
  e_nextptr :: nat

text \<open>\<open>fmt.Sprintf("%06d.sst", fileNum)\<close>, relative to the engine's directory.\<close>

definition sstPath :: "64 word \<Rightarrow> string" where
  "sstPath n = (let s = dec_digits (unat n) in replicate (6 - length s) CHR ''0'' @ s @ ''.sst'')"

definition allocFileNum :: "Engine \<Rightarrow> 64 word \<times> Engine" where
  "allocFileNum e = (nextFileNum e, e\<lparr>nextFileNum := nextFileNum e + 1\<rparr>)"

subsection \<open>Opening\<close>

record open_env =
  oe_mkdir :: bool
  oe_mf :: mf_env
  oe_rd :: "64 word \<Rightarrow> rd_env"
  oe_wal :: io_env
  oe_coins :: "nat \<Rightarrow> coins"

definition open_ok :: "(nat \<Rightarrow> coins) \<Rightarrow> open_env" where
  "open_ok c = \<lparr>oe_mkdir = True, oe_mf = mf_ok, oe_rd = (\<lambda>_. rd_ok), oe_wal = io_ok, oe_coins = c\<rparr>"

definition maxFileNum :: "FileMetadata list list \<Rightarrow> 64 word" where
  "maxFileNum lv = fold (\<lambda>meta m. if FileNum meta > m then FileNum meta else m) (concat lv) 0"

text \<open>Opening the readers of a level, numbering them from the given address.\<close>

fun openLevel :: "open_env \<Rightarrow> (string \<Rightarrow> bytes option) \<Rightarrow> nat \<Rightarrow> FileMetadata list \<Rightarrow> rdptr list res" where
  "openLevel io files p [] = Ok []"
| "openLevel io files p (meta # metas) =
     (case files (sstPath (FileNum meta)) of
        None \<Rightarrow> Err ''engine: open sstable: ''
      | Some content \<Rightarrow>
          (case OpenReader (oe_rd io (FileNum meta)) content of
             Ok r \<Rightarrow> res_bind (openLevel io files (Suc p) metas) (\<lambda>rs. Ok ((p, r) # rs))
           | Err e \<Rightarrow> Err ''engine: open sstable: ''
           | Panic \<Rightarrow> Panic))"

fun openLevels :: "open_env \<Rightarrow> (string \<Rightarrow> bytes option) \<Rightarrow> nat \<Rightarrow> FileMetadata list list \<Rightarrow> rdptr list list res" where
  "openLevels io files p [] = Ok []"
| "openLevels io files p (metas # rest) =
     res_bind (openLevel io files p metas) (\<lambda>rs.
     res_bind (openLevels io files (p + length rs) rest) (\<lambda>rss. Ok (rs # rss)))"

text \<open>The replay callback. The counter selects the random levels.\<close>

definition replayRecord :: "(nat \<Rightarrow> coins) \<Rightarrow> nat \<times> Memtable \<Rightarrow> Record \<Rightarrow> (nat \<times> Memtable) res" where
  "replayRecord c s rec = (case s of (i, m) \<Rightarrow>
     if r_type rec = RecordPut then res_bind (Memtable_Put (c i) m (r_key rec) (r_value rec)) (\<lambda>m'. Ok (Suc i, m'))
     else if r_type rec = RecordDelete then res_bind (Memtable_Delete (c i) m (r_key rec)) (\<lambda>m'. Ok (Suc i, m'))
     else Ok (i, m))"

text \<open>The result also has the log directory, which a failed \<open>Open\<close> may have changed.\<close>

definition Engine_Open :: "open_env \<Rightarrow> Options \<Rightarrow> dir \<Rightarrow> (string \<Rightarrow> bytes option) \<Rightarrow> bytes \<Rightarrow> dir \<times> Engine res" where
  "Engine_Open io opts0 waldir files mfile =
     (let opts = applyDefaults opts0 in
      if \<not> oe_mkdir io then (waldir, Err ''engine: mkdir: '')
      else case OpenManifest (oe_mf io) mfile (nat (MaxLevels opts)) of
             Panic \<Rightarrow> (waldir, Panic)
           | Err e \<Rightarrow> (waldir, Err ''engine: open manifest: '')
           | Ok manifest \<Rightarrow>
               let allLevels = GetAllLevels manifest in
               case openLevels io files 0 allLevels of
                 Panic \<Rightarrow> (waldir, Panic)
               | Err e \<Rightarrow> (waldir, Err e)
               | Ok lv \<Rightarrow>
                   (case WAL_Open (oe_wal io) waldir 0 of
                      (d1, Panic) \<Rightarrow> (d1, Panic)
                    | (d1, Err e) \<Rightarrow> (d1, Err ''engine: open wal: '')
                    | (d1, Ok w) \<Rightarrow>
                        (case WAL_Replay (oe_wal io) d1 (replayRecord (oe_coins io)) (0, NewMemtable (MemtableSize opts)) of
                           Panic \<Rightarrow> (d1, Panic)
                         | Err e \<Rightarrow> (d1, Err ''engine: replay wal: '')
                         | Ok (i, mem) \<Rightarrow>
                             (d1, Ok \<lparr>e_opts = opts, e_wal = w, e_waldir = d1, e_files = files,
                                      e_memtable = (0, mem), immutableMems = [], e_levels = lv, e_manifest = manifest,
                                      flushCh = [], compactCh = False, nextFileNum = maxFileNum allLevels + 1,
                                      e_closed = False, e_nextptr = Suc (length (concat lv))\<rparr>))))"

subsection \<open>Writing\<close>

record write_env =
  we_append :: io_env
  we_rotate :: io_env
  we_coins :: "nat \<Rightarrow> coins"

definition write_ok :: "(nat \<Rightarrow> coins) \<Rightarrow> write_env" where
  "write_ok c = \<lparr>we_append = io_ok, we_rotate = io_ok, we_coins = c\<rparr>"

definition flushCap :: nat where "flushCap = 16"

definition maybeScheduleFlush :: "io_env \<Rightarrow> Engine \<Rightarrow> Engine" where
  "maybeScheduleFlush io e =
     (if \<not> Memtable_ShouldFlush (snd (e_memtable e)) then e
      else let frozen = (fst (e_memtable e), Memtable_Freeze (snd (e_memtable e)))
           in case WAL_Rotate io (e_waldir e) (e_wal e) of
                (d', w', r) \<Rightarrow>
                  let oldWALID = (case r of Ok i \<Rightarrow> i | Err _ \<Rightarrow> 0 | Panic \<Rightarrow> 0)
                  in e\<lparr>e_waldir := d', e_wal := w',
                       immutableMems := frozen # immutableMems e,
                       e_memtable := (e_nextptr e, NewMemtable (MemtableSize (e_opts e))),
                       e_nextptr := Suc (e_nextptr e),
                       flushCh := (if length (flushCh e) < flushCap
                                   then flushCh e @ [\<lparr>ft_mem = frozen, ft_walID = oldWALID\<rparr>] else flushCh e)\<rparr>)"

definition Engine_Put :: "write_env \<Rightarrow> Engine \<Rightarrow> bytes \<Rightarrow> bytes option \<Rightarrow> Engine \<times> unit res" where
  "Engine_Put io e k v =
     (case WAL_Append (we_append io) (e_waldir e) (e_wal e) \<lparr>r_type = RecordPut, r_key = k, r_value = v\<rparr> of
        (d', w', err) \<Rightarrow>
          let e1 = e\<lparr>e_waldir := d', e_wal := w'\<rparr>
          in if err \<noteq> None then (e1, Err ''engine: wal append: '')
             else case Memtable_Put (we_coins io 0) (snd (e_memtable e1)) k v of
                    Panic \<Rightarrow> (e1, Panic)
                  | Err _ \<Rightarrow> (e1, Err ''engine: memtable put: '')
                  | Ok m \<Rightarrow> (maybeScheduleFlush (we_rotate io) (e1\<lparr>e_memtable := (fst (e_memtable e1), m)\<rparr>), Ok ()))"

definition Engine_Delete :: "write_env \<Rightarrow> Engine \<Rightarrow> bytes \<Rightarrow> Engine \<times> unit res" where
  "Engine_Delete io e k =
     (case WAL_Append (we_append io) (e_waldir e) (e_wal e) \<lparr>r_type = RecordDelete, r_key = k, r_value = None\<rparr> of
        (d', w', err) \<Rightarrow>
          let e1 = e\<lparr>e_waldir := d', e_wal := w'\<rparr>
          in if err \<noteq> None then (e1, Err ''engine: wal append: '')
             else case Memtable_Delete (we_coins io 0) (snd (e_memtable e1)) k of
                    Panic \<Rightarrow> (e1, Panic)
                  | Err _ \<Rightarrow> (e1, Err ''engine: memtable delete: '')
                  | Ok m \<Rightarrow> (maybeScheduleFlush (we_rotate io) (e1\<lparr>e_memtable := (fst (e_memtable e1), m)\<rparr>), Ok ()))"

definition batchRecord :: "bytes \<times> bytes option \<Rightarrow> Record" where
  "batchRecord kv = (case kv of (k, v) \<Rightarrow>
     if v = None then \<lparr>r_type = RecordDelete, r_key = k, r_value = None\<rparr>
     else \<lparr>r_type = RecordPut, r_key = k, r_value = v\<rparr>)"

text \<open>The loop over the batch; an error in the middle leaves the writes before it in place.\<close>

fun batchApply :: "(nat \<Rightarrow> coins) \<Rightarrow> Memtable \<Rightarrow> (bytes \<times> bytes option) list \<Rightarrow> Memtable \<times> unit res" where
  "batchApply c m [] = (m, Ok ())"
| "batchApply c m ((k, v) # kvs) =
     (case v of
        None \<Rightarrow>
          (case Memtable_Delete (c 0) m k of
             Panic \<Rightarrow> (m, Panic)
           | Err _ \<Rightarrow> (m, Err ''engine: memtable delete: '')
           | Ok m' \<Rightarrow> batchApply (\<lambda>i. c (Suc i)) m' kvs)
      | Some b \<Rightarrow>
          (case Memtable_Put (c 0) m k v of
             Panic \<Rightarrow> (m, Panic)
           | Err _ \<Rightarrow> (m, Err ''engine: memtable put: '')
           | Ok m' \<Rightarrow> batchApply (\<lambda>i. c (Suc i)) m' kvs))"

definition Engine_BatchPut :: "write_env \<Rightarrow> Engine \<Rightarrow> bytes list \<Rightarrow> bytes option list \<Rightarrow> Engine \<times> unit res" where
  "Engine_BatchPut io e keys values =
     (if length keys \<noteq> length values then (e, Err ''engine: keys and values length mismatch'')
      else let recs = map batchRecord (zip keys values) in
           case WAL_AppendBatch (we_append io) (e_waldir e) (e_wal e) recs of
             (d', w', err) \<Rightarrow>
               let e1 = e\<lparr>e_waldir := d', e_wal := w'\<rparr>
               in if err \<noteq> None then (e1, Err ''engine: wal batch: '')
                  else case batchApply (we_coins io) (snd (e_memtable e1)) (zip keys values) of
                         (m, r) \<Rightarrow>
                           let e2 = e1\<lparr>e_memtable := (fst (e_memtable e1), m)\<rparr>
                           in (case r of Ok _ \<Rightarrow> (maybeScheduleFlush (we_rotate io) e2, Ok ()) | Err s \<Rightarrow> (e2, Err s) | Panic \<Rightarrow> (e2, Panic)))"

subsection \<open>Reading\<close>

fun getMems :: "Memtable list \<Rightarrow> bytes \<Rightarrow> bytes option res option" where
  "getMems [] k = None"
| "getMems (m # ms) k =
     (case Memtable_Get m k of
        Ok (v, found, tomb) \<Rightarrow>
          if found then Some (if tomb then Err ErrNotFound else Ok v) else getMems ms k
      | Err _ \<Rightarrow> Some Panic
      | Panic \<Rightarrow> Some Panic)"

text \<open>One table: skipped, or its answer.\<close>

definition getTable :: "Reader \<Rightarrow> bytes \<Rightarrow> bytes option res option" where
  "getTable r k =
     (case Reader_MayContain r k of
        Ok may \<Rightarrow>
          if \<not> may then None
          else (case Reader_Get r k of
                  Ok (v, found) \<Rightarrow>
                    if found then Some (if v = None then Err ErrNotFound else Ok v) else None
                | Err _ \<Rightarrow> Some (Err ''engine: sstable get: '')
                | Panic \<Rightarrow> Some Panic)
      | Err _ \<Rightarrow> Some Panic
      | Panic \<Rightarrow> Some Panic)"

text \<open>\<open>sort.Search\<close>: the binary search for the first index in \<open>[i, j)\<close> where \<open>f\<close> holds.\<close>

function sort_Search :: "(nat \<Rightarrow> bool) \<Rightarrow> nat \<Rightarrow> nat \<Rightarrow> nat" where
  "sort_Search f i j =
     (if i < j then
        let h = (i + j) div 2 in if \<not> f h then sort_Search f (h + 1) j else sort_Search f i h
      else i)"
  by pat_completeness auto
termination
  by (relation "measure (\<lambda>(f, i, j). j - i)") auto

declare sort_Search.simps [simp del]

definition has_range :: "bytes \<Rightarrow> bytes \<Rightarrow> rdptr \<Rightarrow> bool" where
  "has_range lo hi r \<longleftrightarrow> Reader_MinKey (snd r) = Some lo \<and> Reader_MaxKey (snd r) = Some hi"

definition covers :: "bytes \<Rightarrow> rdptr \<Rightarrow> bool" where
  "covers k r \<longleftrightarrow> (case (Reader_MinKey (snd r), Reader_MaxKey (snd r)) of
     (Some lo, Some hi) \<Rightarrow> bytes_Compare k lo \<ge> 0 \<and> bytes_Compare k hi \<le> 0 | _ \<Rightarrow> False)"

text \<open>\<open>sort.Slice\<close> is a sort by the minimal key (the minimal keys of a level are distinct under the
  invariant, so that stability does not matter).\<close>

definition findSSTableForKey :: "Engine \<Rightarrow> nat \<Rightarrow> bytes \<Rightarrow> rdptr option" where
  "findSSTableForKey e level k =
     (let readers = e_levels e ! level in
      if readers = [] then None
      else let metas = sort_key fm_MinKey (GetLevel (e_manifest e) (int level)) in
           if metas = [] then None
           else let n = sort_Search (\<lambda>i. bytes_Compare (fm_MinKey (metas ! i)) k > 0) 0 (length metas) in
                if n = 0 then None
                else let rMeta = metas ! (n - 1) in
                     if bytes_Compare k (fm_MaxKey rMeta) > 0 then None
                     else case find (has_range (fm_MinKey rMeta) (fm_MaxKey rMeta)) readers of
                            Some r \<Rightarrow> Some r
                          | None \<Rightarrow> find (covers k) readers)"

fun getL0 :: "Reader list \<Rightarrow> bytes \<Rightarrow> bytes option res option" where
  "getL0 [] k = None"
| "getL0 (r # rs) k = (case getTable r k of Some x \<Rightarrow> Some x | None \<Rightarrow> getL0 rs k)"

fun getDeep :: "Engine \<Rightarrow> nat list \<Rightarrow> bytes \<Rightarrow> bytes option res option" where
  "getDeep e [] k = None"
| "getDeep e (level # ls) k =
     (case findSSTableForKey e level k of
        None \<Rightarrow> getDeep e ls k
      | Some r \<Rightarrow> (case getTable (snd r) k of Some x \<Rightarrow> Some x | None \<Rightarrow> getDeep e ls k))"

definition Engine_Get :: "Engine \<Rightarrow> bytes \<Rightarrow> bytes option res" where
  "Engine_Get e k =
     (case getMems (snd (e_memtable e) # map snd (immutableMems e)) k of
        Some x \<Rightarrow> x
      | None \<Rightarrow>
          if e_levels e = [] then Panic
          else (case getL0 (rev (map snd (e_levels e ! 0))) k of
                  Some x \<Rightarrow> x
                | None \<Rightarrow>
                    (case getDeep e [1..<length (e_levels e)] k of
                       Some x \<Rightarrow> x
                     | None \<Rightarrow> Err ErrNotFound)))"

text \<open>The loop of \<open>ReadRange\<close>. Copying an empty value with \<open>append\<close> gives nil.\<close>

partial_function (option) readLoop :: "MergeIterator \<Rightarrow> bytes \<Rightarrow> KVPair list \<Rightarrow> KVPair list option" where
  "readLoop mi endKey results =
     (if \<not> MergeIterator_Valid mi then Some results
      else let k = MergeIterator_Key mi in
           if bytes_Compare k endKey > 0 then Some results
           else let results' = (if \<not> MergeIterator_IsTombstone mi
                                then results @ [\<lparr>kv_Key = k, kv_Value = norm_value (MergeIterator_Value mi)\<rparr>] else results)
                in (case MergeIterator_Next mi of None \<Rightarrow> None | Some mi' \<Rightarrow> readLoop mi' endKey results'))"

definition ReadRange :: "Engine \<Rightarrow> bytes \<Rightarrow> bytes \<Rightarrow> KVPair list option" where
  "ReadRange e startKey endKey =
     (if e_levels e = [] then None
      else let iters = source_iters (snd (e_memtable e) # map snd (immutableMems e))
                         (rev (map snd (e_levels e ! 0)) @ map snd (concat (tl (e_levels e))));
               priorities = map int [0..<length iters]
           in case NewMergeIterator iters priorities of
                None \<Rightarrow> None
              | Some mi \<Rightarrow>
                  (case MergeIterator_Seek mi startKey of
                     None \<Rightarrow> None
                   | Some mi' \<Rightarrow> readLoop mi' endKey []))"

record EngineStats =
  st_MemtableSize :: int
  st_ImmutableCount :: nat
  st_LevelFileCounts :: "nat list"
  st_TotalSSTables :: nat
  st_MemoryBytes :: int

definition Engine_Stats :: "Engine \<Rightarrow> EngineStats" where
  "Engine_Stats e =
     \<lparr>st_MemtableSize = Memtable_ApproximateSize (snd (e_memtable e)),
      st_ImmutableCount = length (immutableMems e),
      st_LevelFileCounts = map length (e_levels e),
      st_TotalSSTables = foldl (\<lambda>n lvl. n + length lvl) 0 (e_levels e),
      st_MemoryBytes = foldl (\<lambda>n imm. n + Memtable_ApproximateSize (snd imm))
        (Memtable_ApproximateSize (snd (e_memtable e))) (immutableMems e)\<rparr>"

subsection \<open>Flushing\<close>

record flush_env =
  fe_sst :: sst_env
  fe_rd :: rd_env
  fe_stat :: bool
  fe_remove :: bool
  fe_left :: bytes
  fe_mf :: mf_env
  fe_purge :: io_env

definition flush_ok :: flush_env where
  "flush_ok = \<lparr>fe_sst = sst_ok, fe_rd = rd_ok, fe_stat = True, fe_remove = True, fe_left = [], fe_mf = mf_ok, fe_purge = io_ok\<rparr>"

text \<open>The loop that adds an iterator's entries to a table.\<close>

partial_function (option) writeEntries :: "sst_env \<Rightarrow> Writer \<Rightarrow> engine_iter \<Rightarrow> Writer res option" where
  "writeEntries io w it =
     (if \<not> Iter_Valid it then Some (Ok w)
      else case Writer_Add io w (Iter_Key it) (Iter_Value it) (Iter_IsTombstone it) of
             Panic \<Rightarrow> Some Panic
           | Err s \<Rightarrow> Some (Err s)
           | Ok w' \<Rightarrow> (case Iter_Next it of None \<Rightarrow> None | Some it' \<Rightarrow> writeEntries io w' it'))"

definition os_Remove :: "bool \<Rightarrow> (string \<Rightarrow> bytes option) \<Rightarrow> string \<Rightarrow> string \<Rightarrow> bytes option" where
  "os_Remove ok files path = (if ok then files(path := None) else files)"

text \<open>Finishing a table file: the end of \<open>flushMemtable\<close> and of \<open>finishCurrent\<close>. \<open>fe_left\<close> is what a
  failed write leaves in the file.\<close>

definition finishTable :: "flush_env \<Rightarrow> (string \<Rightarrow> bytes option) \<Rightarrow> string \<Rightarrow> 64 word \<Rightarrow> int \<Rightarrow> Writer \<Rightarrow>
    (string \<Rightarrow> bytes option) \<times> (FileMetadata \<times> Reader) res" where
  "finishTable io files path fileNum level w =
     (case Writer_Finish (fe_sst io) w of
        Panic \<Rightarrow> (files, Panic)
      | Err s \<Rightarrow> (os_Remove (fe_remove io) (files(path \<mapsto> fe_left io)) path, Err s)
      | Ok content \<Rightarrow>
          let files1 = files(path \<mapsto> content) in
          (case OpenReader (fe_rd io) content of
             Panic \<Rightarrow> (files1, Panic)
           | Err s \<Rightarrow> (os_Remove (fe_remove io) files1 path, Err s)
           | Ok r \<Rightarrow>
               (files1, Ok (\<lparr>FileNum = fileNum, Level = level, fm_Size = (if fe_stat io then of_nat (length content) else 0),
                             fm_MinKey = val_bytes (Reader_MinKey r), fm_MaxKey = val_bytes (Reader_MaxKey r)\<rparr>, r))))"

text \<open>The first phase of \<open>flushMemtable\<close>: up to the manifest record, without the engine's lock.\<close>

datatype flush_result = FlushFailed | FlushEmpty | FlushBuilt rdptr

definition flushBuild :: "flush_env \<Rightarrow> Engine \<Rightarrow> flushTask \<Rightarrow> (Engine \<times> flush_result) option" where
  "flushBuild io e task =
     (case allocFileNum e of
        (fileNum, e1) \<Rightarrow>
          let path = sstPath fileNum in
          (case NewWriter (fe_sst io) (BlockSize (e_opts e1)) of
             Panic \<Rightarrow> None
           | Err _ \<Rightarrow> Some (e1, FlushFailed)
           | Ok w \<Rightarrow>
               (case Iter_SeekToFirst (MemIter (Memtable_NewIterator (snd (ft_mem task)))) of
                  None \<Rightarrow> None
                | Some it \<Rightarrow>
                    (case writeEntries (fe_sst io) w it of
                       None \<Rightarrow> None
                     | Some Panic \<Rightarrow> None
                     | Some (Err _) \<Rightarrow> Some (e1\<lparr>e_files := (e_files e1)(path \<mapsto> fe_left io)\<rparr>, FlushFailed)
                     | Some (Ok w') \<Rightarrow>
                         if EntryCount w' = 0 then
                           Some (e1\<lparr>e_files := os_Remove (fe_remove io) ((e_files e1)(path \<mapsto> [])) path\<rparr>, FlushEmpty)
                         else
                           (case finishTable io (e_files e1) path fileNum 0 w' of
                              (files, Panic) \<Rightarrow> None
                            | (files, Err _) \<Rightarrow> Some (e1\<lparr>e_files := files\<rparr>, FlushFailed)
                            | (files, Ok (meta, reader)) \<Rightarrow>
                                (case AddFile (fe_mf io) (e_manifest e1) meta of
                                   (m', Some _) \<Rightarrow>
                                     Some (e1\<lparr>e_manifest := m', e_files := os_Remove (fe_remove io) files path\<rparr>, FlushFailed)
                                 | (m', None) \<Rightarrow>
                                     Some (e1\<lparr>e_manifest := m', e_files := files, e_nextptr := Suc (e_nextptr e1)\<rparr>,
                                           FlushBuilt (e_nextptr e1, reader))))))))"

definition flushInstall :: "Engine \<Rightarrow> rdptr \<Rightarrow> Engine" where
  "flushInstall e r = e\<lparr>e_levels := (e_levels e)[0 := e_levels e ! 0 @ [r]]\<rparr>"

fun remove_ptr :: "nat \<Rightarrow> (nat \<times> 'a) list \<Rightarrow> (nat \<times> 'a) list" where
  "remove_ptr p [] = []"
| "remove_ptr p (x # xs) = (if fst x = p then xs else x # remove_ptr p xs)"

definition removeImmutable :: "Engine \<Rightarrow> memptr \<Rightarrow> Engine" where
  "removeImmutable e mem = e\<lparr>immutableMems := remove_ptr (fst mem) (immutableMems e)\<rparr>"

definition flushPurge :: "flush_env \<Rightarrow> Engine \<Rightarrow> flushTask \<Rightarrow> Engine" where
  "flushPurge io e task =
     (if ft_walID task > 0 then e\<lparr>e_waldir := fst (WAL_PurgeOlderThan (fe_purge io) (e_waldir e) (ft_walID task))\<rparr> else e)"

definition signalCompaction :: "Engine \<Rightarrow> Engine" where
  "signalCompaction e = e\<lparr>compactCh := True\<rparr>"

definition flushMemtable :: "flush_env \<Rightarrow> Engine \<Rightarrow> flushTask \<Rightarrow> Engine option" where
  "flushMemtable io e task =
     (case flushBuild io e task of
        None \<Rightarrow> None
      | Some (e1, FlushFailed) \<Rightarrow> Some e1
      | Some (e1, FlushEmpty) \<Rightarrow> Some (removeImmutable e1 (ft_mem task))
      | Some (e1, FlushBuilt r) \<Rightarrow>
          Some (signalCompaction (flushPurge io (removeImmutable (flushInstall e1 r) (ft_mem task)) task)))"

subsection \<open>Closing\<close>

text \<open>The flush loop drains the channel when the engine is closed.\<close>

fun drainTasks :: "(nat \<Rightarrow> flush_env) \<Rightarrow> Engine \<Rightarrow> flushTask list \<Rightarrow> Engine option" where
  "drainTasks io e [] = Some e"
| "drainTasks io e (t # ts) =
     (case flushMemtable (io 0) e t of None \<Rightarrow> None | Some e' \<Rightarrow> drainTasks (\<lambda>i. io (Suc i)) e' ts)"

text \<open>The loop over the remaining immutable memtables, oldest first. It goes on for as long as the
  flush of the oldest one fails.\<close>

partial_function (option) flushRest :: "(nat \<Rightarrow> flush_env) \<Rightarrow> Engine \<Rightarrow> Engine option" where
  "flushRest io e =
     (if immutableMems e = [] then Some e
      else case flushMemtable (io 0) e \<lparr>ft_mem = last (immutableMems e), ft_walID = 0\<rparr> of
             None \<Rightarrow> None
           | Some e' \<Rightarrow> flushRest (\<lambda>i. io (Suc i)) e')"

record close_env =
  ce_drain :: "nat \<Rightarrow> flush_env"
  ce_active :: flush_env
  ce_rest :: "nat \<Rightarrow> flush_env"
  ce_wal :: io_env
  ce_manifest :: bool

text \<open>\<open>Close\<close>, with the compaction loop idle.\<close>

definition Engine_Close :: "close_env \<Rightarrow> Engine \<Rightarrow> (Engine \<times> string option) option" where
  "Engine_Close io e =
     (if e_closed e then Some (e, None)
      else case drainTasks (ce_drain io) (e\<lparr>e_closed := True, flushCh := []\<rparr>) (flushCh e) of
             None \<Rightarrow> None
           | Some e1 \<Rightarrow>
               let active =
                 (if Memtable_ApproximateSize (snd (e_memtable e1)) > 0
                  then let mem = (fst (e_memtable e1), Memtable_Freeze (snd (e_memtable e1)))
                       in flushMemtable (ce_active io) (e1\<lparr>e_memtable := mem\<rparr>) \<lparr>ft_mem = mem, ft_walID = 0\<rparr>
                  else Some e1)
               in (case active of
                     None \<Rightarrow> None
                   | Some e2 \<Rightarrow>
                       (case flushRest (ce_rest io) e2 of
                          None \<Rightarrow> None
                        | Some e3 \<Rightarrow>
                            (case WAL_Close (ce_wal io) (e_waldir e3) (e_wal e3) of
                               (d', w', err) \<Rightarrow>
                                 Some (e3\<lparr>e_waldir := d', e_wal := w'\<rparr>,
                                       case err of Some s \<Rightarrow> Some s | None \<Rightarrow> Manifest_Close (ce_manifest io) (e_manifest e3))))))"

subsection \<open>The view and the invariant\<close>

definition e_mems :: "Engine \<Rightarrow> Memtable list" where
  "e_mems e = snd (e_memtable e) # map snd (immutableMems e)"

definition e_tables :: "Engine \<Rightarrow> Reader list" where
  "e_tables e = rev (map snd (e_levels e ! 0)) @ map snd (concat (tl (e_levels e)))"

text \<open>What the first of several sources that has a key says of it.\<close>

definition stack_view :: "sst_entry list list \<Rightarrow> bytes \<Rightarrow> (bytes option \<times> bool) option" where
  "stack_view ss k = first_some (map (\<lambda>s. map_of s k) ss)"

definition engine_view :: "Engine \<Rightarrow> bytes \<Rightarrow> (bytes option \<times> bool) option" where
  "engine_view e = stack_view (source_ents (e_mems e) (e_tables e))"

text \<open>What an entry means to a client: a value, possibly empty, or nothing. A nil value that is not a tombstone is an empty one.\<close>

definition user_value :: "(bytes option \<times> bool) option \<Rightarrow> bytes option" where
  "user_value x = (case x of Some (v, False) \<Rightarrow> Some (val_bytes v) | _ \<Rightarrow> None)"

definition kv_view :: "Engine \<Rightarrow> bytes \<Rightarrow> bytes option" where
  "kv_view e = (\<lambda>k. user_value (engine_view e k))"

text \<open>The log and the tables store an empty value as nothing, so it may get lost: \<open>view_as a v\<close> says that the view \<open>v\<close> is the
  map \<open>a\<close>, except that a key whose value is empty in \<open>a\<close> may be missing in \<open>v\<close>.\<close>

definition value_as :: "bytes option \<Rightarrow> bytes option \<Rightarrow> bool" where
  "value_as a x \<longleftrightarrow> x = a \<or> a = Some [] \<and> x = None"

definition view_as :: "(bytes \<Rightarrow> bytes option) \<Rightarrow> (bytes \<Rightarrow> bytes option) \<Rightarrow> bool" where
  "view_as a v \<longleftrightarrow> (\<forall>k. value_as (a k) (v k))"

lemma value_as_simps [simp]:
  "value_as a a" "value_as None x \<longleftrightarrow> x = None" "value_as (Some (b # bs)) x \<longleftrightarrow> x = Some (b # bs)" "value_as a (Some v) \<longleftrightarrow> a = Some v"
  by (auto simp: value_as_def)

lemma value_as_trans: "value_as a x \<Longrightarrow> value_as x y \<Longrightarrow> value_as a y"
  by (auto simp: value_as_def)

lemma view_as_refl [simp]: "view_as a a"
  by (simp add: view_as_def)

lemma view_as_trans: "view_as a v \<Longrightarrow> view_as v w \<Longrightarrow> view_as a w"
  unfolding view_as_def by (blast intro: value_as_trans)

lemma value_as_norm: "value_as v (norm_value v)"
  by (auto simp: value_as_def norm_value_def val_bytes_def split: option.splits)

definition rd_wf :: "Reader \<Rightarrow> bool" where
  "rd_wf r \<longleftrightarrow> reader_ok r \<and> reader_entries r \<noteq> []"

definition meta_for :: "FileMetadata \<Rightarrow> rdptr \<Rightarrow> bool" where
  "meta_for meta r \<longleftrightarrow> Reader_MinKey (snd r) = Some (fm_MinKey meta) \<and> Reader_MaxKey (snd r) = Some (fm_MaxKey meta)"

definition disjoint_ranges :: "FileMetadata list \<Rightarrow> bool" where
  "disjoint_ranges ms \<longleftrightarrow> (\<forall>i < length ms. \<forall>j < length ms. i \<noteq> j \<longrightarrow>
     fm_MaxKey (ms ! i) < fm_MinKey (ms ! j) \<or> fm_MaxKey (ms ! j) < fm_MinKey (ms ! i))"

definition level_ok :: "FileMetadata list \<Rightarrow> rdptr list \<Rightarrow> bool" where
  "level_ok ms rs \<longleftrightarrow> list_all2 meta_for ms rs \<and> disjoint_ranges ms \<and> (\<forall>r\<in>set rs. rd_wf (snd r))"

definition eng_inv :: "Engine \<Rightarrow> bool" where
  "eng_inv e \<longleftrightarrow> mem_inv (snd (e_memtable e)) \<and> \<not> frozen (snd (e_memtable e)) \<and>
     (\<forall>m\<in>set (immutableMems e). mem_inv (snd m)) \<and>
     e_levels e \<noteq> [] \<and> length (mf_levels (e_manifest e)) = length (e_levels e) \<and>
     (\<forall>r\<in>set (e_levels e ! 0). reader_ok (snd r)) \<and>
     (\<forall>l. 1 \<le> l \<longrightarrow> l < length (e_levels e) \<longrightarrow> level_ok (mf_levels (e_manifest e) ! l) (e_levels e ! l))"

lemma stack_view_simps [simp]:
  "stack_view [] k = None"
  "stack_view (s # ss) k = (case map_of s k of None \<Rightarrow> stack_view ss k | Some x \<Rightarrow> Some x)"
  "stack_view (ss @ ts) k = (case stack_view ss k of None \<Rightarrow> stack_view ts k | Some x \<Rightarrow> Some x)"
  unfolding stack_view_def by (simp_all add: first_some_append)

lemma stack_view_None: "stack_view ss k = None \<longleftrightarrow> (\<forall>s\<in>set ss. map_of s k = None)"
  by (simp add: stack_view_def first_some_None)

lemma source_ents_Cons: "source_ents (m # ms) rs = mem_ient (mem_entries m) # source_ents ms rs"
  by (simp add: source_ents_def)

lemma first_some_unique:
  assumes "r \<in> set rs" "\<And>r'. r' \<in> set rs \<Longrightarrow> f r' \<noteq> None \<Longrightarrow> r' = r"
  shows "first_some (map f rs) = f r"
  using assms
proof (induction rs)
  case (Cons x rs)
  show ?case
  proof (cases "f x")
    case None
    show ?thesis
    proof (cases "r \<in> set rs")
      case True
      then show ?thesis using Cons.IH Cons.prems(2) None by simp
    next
      case False
      then have rx: "r = x" using Cons.prems(1) by simp
      have "\<forall>y\<in>set rs. f y = None" using Cons.prems(2) False by (metis list.set_intros(2))
      then show ?thesis using None rx by (simp add: first_some_None)
    qed
  next
    case (Some v)
    then show ?thesis using Cons.prems(2) [of x] by auto
  qed
qed simp

subsection \<open>Point lookups\<close>

definition answer :: "bytes option \<times> bool \<Rightarrow> bytes option res" where
  "answer x = (case x of (v, t) \<Rightarrow> if t \<or> v = None then Err ErrNotFound else Ok v)"

lemma map_of_mem_ient: "map_of (mem_ient es) k = map_option (\<lambda>v. (v, v = None)) (map_of es k)"
  by (induction es) (auto simp: mem_ient_def)

lemma getMems_view:
  "\<forall>m\<in>set ms. mem_inv m \<Longrightarrow> getMems ms k = map_option answer (stack_view (source_ents ms []) k)"
proof (induction ms)
  case (Cons m ms)
  then have "Memtable_Get m k = Ok (case map_of (mem_entries m) k of None \<Rightarrow> (None, False, False) | Some v \<Rightarrow> (v, True, v = None))"
    using mem.get_ok by simp
  then show ?case using Cons by (auto simp: source_ents_Cons map_of_mem_ient answer_def split: option.splits)
qed (simp add: source_ents_def)

lemma scanBlock_ient:
  "scanBlock es k = (case map_of (sst_ient es) k of None \<Rightarrow> (None, False) | Some (v, t) \<Rightarrow> (if t then None else v, True))"
  by (induction es) (auto simp: sst_ient_def)

lemma Reader_Get_ok:
  "reader_ok r \<Longrightarrow> Reader_Get r k =
     Ok (case map_of (reader_entries r) k of None \<Rightarrow> (None, False) | Some (v, t) \<Rightarrow> (if t then None else v, True))"
  by (simp add: reader_ok_def Reader_Get_rep scanBlock_ient reader_entries_def)

lemma reader_key_entry:
  assumes "map_of (reader_entries r) k \<noteq> None"
  obtains e where "e \<in> set (concat (reader_blocks r))" "e_key e = k"
proof -
  have "k \<in> fst ` set (reader_entries r)" using assms by (metis map_of_eq_None_iff)
  then have "k \<in> e_key ` set (concat (reader_blocks r))" by (simp add: reader_entries_def sst_ient_def image_image)
  then show thesis using that by blast
qed

lemma MayContain_ok:
  assumes "reader_ok r"
  shows "\<exists>b. Reader_MayContain r k = Ok b \<and> (map_of (reader_entries r) k \<noteq> None \<longrightarrow> b)"
proof -
  have rep: "reader_rep r (reader_blocks r)" using assms by (simp add: reader_ok_def)
  obtain b where b: "Reader_MayContain r k = Ok b"
    using MayContain_total [of "bloom r" k] rep by (auto simp: reader_rep_def Reader_MayContain_def)
  have "b" if h: "map_of (reader_entries r) k \<noteq> None"
  proof -
    obtain e where "e \<in> set (concat (reader_blocks r))" "e_key e = k" using reader_key_entry [OF h] .
    then have "BloomFilter_MayContain (bloom r) k = Ok True" using rep by (auto simp: reader_rep_def)
    then show ?thesis using b by (simp add: Reader_MayContain_def)
  qed
  then show ?thesis using b by blast
qed

lemma getTable_view: "reader_ok r \<Longrightarrow> getTable r k = map_option answer (map_of (reader_entries r) k)"
  using MayContain_ok [of r k] by (auto simp: getTable_def Reader_Get_ok answer_def split: option.splits)

lemma getL0_view:
  "\<forall>r\<in>set rs. reader_ok r \<Longrightarrow> getL0 rs k = map_option answer (stack_view (map reader_entries rs) k)"
  by (induction rs) (auto simp: getTable_view split: option.splits)

text \<open>A table only has keys in its range.\<close>

lemma entries_covered:
  assumes "rd_wf (snd r)" "map_of (reader_entries (snd r)) k \<noteq> None"
  shows "covers k r"
proof -
  let ?es = "concat (reader_blocks (snd r))"
  have rep: "reader_rep (snd r) (reader_blocks (snd r))" using assms(1) by (simp add: rd_wf_def reader_ok_def)
  have ne: "?es \<noteq> []" using assms(1) by (auto simp: rd_wf_def reader_entries_def sst_ient_def)
  then have b: "reader_blocks (snd r) \<noteq> []" by auto
  obtain e where e: "e \<in> set ?es" "e_key e = k" using reader_key_entry [OF assms(2)] .
  have srt: "sorted_wrt (<) (map e_key ?es)" using rep by (simp add: reader_rep_def)
  have "e_key e \<le> last (map e_key ?es)" by (rule sorted_le_last [OF srt]) (use e in auto)
  moreover have "e_key (hd ?es) \<le> e_key e" using srt e ne by (cases ?es) auto
  ultimately show ?thesis using rep b ne e(2) by (simp add: covers_def Reader_MinKey_def Reader_MaxKey_def reader_rep_def last_map)
qed

lemma sort_Search_spec:
  assumes "i \<le> j"
  shows "i \<le> sort_Search f i j \<and> sort_Search f i j \<le> j \<and> (sort_Search f i j < j \<longrightarrow> f (sort_Search f i j)) \<and>
    (i < sort_Search f i j \<longrightarrow> \<not> f (sort_Search f i j - 1))"
  using assms
proof (induction f i j rule: sort_Search.induct)
  case (1 f i j)
  show ?case
  proof (cases "i < j")
    case False
    then show ?thesis using 1(3) by (subst (1 2 3 4 5 6) sort_Search.simps) auto
  next
    case True
    define h where "h = (i + j) div 2"
    have h: "i \<le> h" "h < j" using True by (auto simp: h_def)
    show ?thesis
    proof (cases "f h")
      case T: True
      then have "sort_Search f i j = sort_Search f i h" using True by (subst sort_Search.simps) (simp add: h_def Let_def)
      then show ?thesis using 1(2) [OF True h_def] T h by (auto simp: le_less)
    next
      case F: False
      then have "sort_Search f i j = sort_Search f (h + 1) j" using True by (subst sort_Search.simps) (simp add: h_def Let_def)
      moreover have "h + 1 \<le> j" using h by simp
      ultimately show ?thesis using 1(1) [OF True h_def] F h by (cases "sort_Search f (h + 1) j = h + 1") auto
    qed
  qed
qed

lemma covers_unique:
  assumes "level_ok ms rs" "r \<in> set rs" "r' \<in> set rs" "covers k r" "covers k r'"
  shows "r = r'"
proof -
  have l2: "list_all2 meta_for ms rs" and dj: "disjoint_ranges ms" using assms(1) by (auto simp: level_ok_def)
  obtain i j where ij: "i < length rs" "rs ! i = r" "j < length rs" "rs ! j = r'" using assms(2,3) by (auto simp: in_set_conv_nth)
  have m: "meta_for (ms ! i) r" "meta_for (ms ! j) r'" "length ms = length rs" using l2 ij by (auto simp: list_all2_conv_all_nth)
  have k: "fm_MinKey (ms ! i) \<le> k" "k \<le> fm_MaxKey (ms ! i)" "fm_MinKey (ms ! j) \<le> k" "k \<le> fm_MaxKey (ms ! j)"
    using m assms(4,5) by (auto simp: meta_for_def covers_def)
  have "i = j"
  proof (rule ccontr)
    assume "i \<noteq> j"
    then have "fm_MaxKey (ms ! i) < fm_MinKey (ms ! j) \<or> fm_MaxKey (ms ! j) < fm_MinKey (ms ! i)"
      using dj ij m(3) by (simp add: disjoint_ranges_def)
    then show False using k by auto
  qed
  then show ?thesis using ij by simp
qed

lemma covers_meta:
  "level_ok ms rs \<Longrightarrow> r \<in> set rs \<Longrightarrow> covers k r \<Longrightarrow> \<exists>m\<in>set ms. fm_MinKey m \<le> k \<and> k \<le> fm_MaxKey m"
  unfolding level_ok_def list_all2_conv_all_nth
  by (auto simp: in_set_conv_nth [of r] meta_for_def covers_def intro!: bexI [of _ "ms ! _"])

lemma meta_reader:
  "level_ok ms rs \<Longrightarrow> m \<in> set ms \<Longrightarrow> \<exists>r\<in>set rs. has_range (fm_MinKey m) (fm_MaxKey m) r"
  unfolding level_ok_def list_all2_conv_all_nth
  by (auto simp: in_set_conv_nth [of m] meta_for_def has_range_def intro!: bexI [of _ "rs ! _"])

lemma rd_wf_range:
  assumes "rd_wf r" shows "\<exists>lo hi. Reader_MinKey r = Some lo \<and> Reader_MaxKey r = Some hi \<and> lo \<le> hi"
proof -
  let ?es = "concat (reader_blocks r)"
  have rep: "reader_rep r (reader_blocks r)" and ne: "?es \<noteq> []"
    using assms by (auto simp: rd_wf_def reader_ok_def reader_entries_def sst_ient_def)
  have srt: "sorted_wrt (<) (map e_key ?es)" using rep by (simp add: reader_rep_def)
  have "e_key (hd ?es) \<le> last (map e_key ?es)" by (rule sorted_le_last [OF srt]) (simp add: hd_in_set [OF ne] del: set_concat)
  moreover have "reader_blocks r \<noteq> []" using ne by auto
  ultimately show ?thesis using rep ne by (simp add: Reader_MinKey_def Reader_MaxKey_def reader_rep_def last_map)
qed

lemma meta_range: "level_ok ms rs \<Longrightarrow> m \<in> set ms \<Longrightarrow> fm_MinKey m \<le> fm_MaxKey m"
proof -
  assume lv: "level_ok ms rs" and m: "m \<in> set ms"
  then obtain r where r: "r \<in> set rs" "has_range (fm_MinKey m) (fm_MaxKey m) r" using meta_reader by blast
  then show ?thesis using rd_wf_range [of "snd r"] lv by (auto simp: level_ok_def has_range_def)
qed

lemma disjoint_min_le:
  assumes "disjoint_ranges ms" "m \<in> set ms" "m' \<in> set ms" "fm_MinKey m \<le> fm_MinKey m'" "fm_MinKey m \<le> k" "k \<le> fm_MaxKey m"
    "fm_MinKey m' \<le> k" "fm_MinKey m' \<le> fm_MaxKey m'"
  shows "k \<le> fm_MaxKey m'"
proof (rule ccontr)
  assume k: "\<not> k \<le> fm_MaxKey m'"
  obtain i j where ij: "i < length ms" "ms ! i = m" "j < length ms" "ms ! j = m'" using assms(2,3) by (auto simp: in_set_conv_nth)
  have "i \<noteq> j" using k assms(6) ij by auto
  then have "fm_MaxKey m < fm_MinKey m' \<or> fm_MaxKey m' < fm_MinKey m" using assms(1) ij by (auto simp: disjoint_ranges_def)
  then show False using assms(4,6,7,8) by (meson leD le_less_trans less_le_trans)
qed

text \<open>The binary search over the sorted metadata finds the table that covers the key, if there is one.\<close>

lemma findSSTableForKey_spec:
  assumes lv: "level_ok (mf_levels (e_manifest e) ! l) (e_levels e ! l)" and l: "l < length (mf_levels (e_manifest e))"
  shows "case findSSTableForKey e l k of None \<Rightarrow> \<forall>r\<in>set (e_levels e ! l). \<not> covers k r
         | Some r \<Rightarrow> r \<in> set (e_levels e ! l) \<and> covers k r"
proof -
  define ms rs S where "ms = mf_levels (e_manifest e) ! l" and "rs = e_levels e ! l" and "S = sort_key fm_MinKey ms"
  define n where "n = sort_Search (\<lambda>i. bytes_Compare (fm_MinKey (S ! i)) k > 0) 0 (length S)"
  have lvo: "level_ok ms rs" using lv by (simp add: ms_def rs_def)
  have dj: "disjoint_ranges ms" using lvo by (simp add: level_ok_def)
  have GL: "GetLevel (e_manifest e) (int l) = ms" using l by (simp add: GetLevel_def ms_def)
  have setS: "set S = set ms" by (simp add: S_def)
  have n: "n \<le> length S" "n < length S \<longrightarrow> k < fm_MinKey (S ! n)" "0 < n \<longrightarrow> fm_MinKey (S ! (n - 1)) \<le> k"
    using sort_Search_spec [of 0 "length S" "\<lambda>i. bytes_Compare (fm_MinKey (S ! i)) k > 0"] unfolding n_def [symmetric] by auto
  have srt: "fm_MinKey (S ! i) \<le> fm_MinKey (S ! j)" if "i \<le> j" "j < length S" for i j
    using that sorted_nth_mono [of "map fm_MinKey S" i j] by (simp add: S_def)
  have below: "i < n" if "i < length S" "fm_MinKey (S ! i) \<le> k" for i
    using that srt [of n i] n(2) by (cases "i < n") auto
  have none: "\<forall>r\<in>set rs. \<not> covers k r" if "\<forall>m\<in>set ms. \<not> (fm_MinKey m \<le> k \<and> k \<le> fm_MaxKey m)"
    using covers_meta [OF lvo] that by blast
  show ?thesis
  proof (cases "rs = [] \<or> S = [] \<or> n = 0")
    case True
    have "\<forall>r\<in>set rs. \<not> covers k r"
    proof (cases "rs = []")
      case False
      then have nz: "S = [] \<or> n = 0" using True by simp
      show ?thesis by (rule none) (use nz below in \<open>auto simp: in_set_conv_nth setS [symmetric]\<close>)
    qed simp
    moreover have "findSSTableForKey e l k = None"
      using True unfolding findSSTableForKey_def Let_def GL rs_def [symmetric] S_def [symmetric] n_def [symmetric] by auto
    ultimately show ?thesis by (simp add: rs_def)
  next
    case False
    define m where "m = S ! (n - 1)"
    have mS: "m \<in> set ms" using False n(1) by (auto simp: m_def setS [symmetric])
    have mk: "fm_MinKey m \<le> k" using n(3) False by (simp add: m_def)
    have fnd: "findSSTableForKey e l k = (if k > fm_MaxKey m then None else
        case find (has_range (fm_MinKey m) (fm_MaxKey m)) rs of Some r \<Rightarrow> Some r | None \<Rightarrow> find (covers k) rs)"
      using False unfolding findSSTableForKey_def Let_def GL rs_def [symmetric] S_def [symmetric] n_def [symmetric] m_def by auto
    show ?thesis
    proof (cases "k > fm_MaxKey m")
      case True
      have "\<not> (fm_MinKey m' \<le> k \<and> k \<le> fm_MaxKey m')" if m': "m' \<in> set ms" for m'
      proof
        assume c: "fm_MinKey m' \<le> k \<and> k \<le> fm_MaxKey m'"
        obtain i where i: "i < length S" "S ! i = m'" using m' by (auto simp: in_set_conv_nth setS [symmetric])
        then have "i < n" using below c by auto
        then have "fm_MinKey m' \<le> fm_MinKey m" using srt [of i "n - 1"] i False n(1) by (auto simp: m_def)
        then have "k \<le> fm_MaxKey m" using disjoint_min_le [OF dj m' mS] c mk meta_range [OF lvo mS] by blast
        then show False using True by simp
      qed
      then show ?thesis using none True by (simp add: fnd rs_def [symmetric])
    next
      case in_range: False
      obtain r where r: "find (has_range (fm_MinKey m) (fm_MaxKey m)) rs = Some r"
        using meta_reader [OF lvo mS] by (cases "find (has_range (fm_MinKey m) (fm_MaxKey m)) rs") (auto simp: find_None_iff)
      then have "r \<in> set rs" "has_range (fm_MinKey m) (fm_MaxKey m) r" by (auto simp: find_Some_iff)
      then show ?thesis using r in_range mk by (simp add: fnd rs_def [symmetric] has_range_def covers_def)
    qed
  qed
qed

lemma level_lookup:
  assumes "level_ok (mf_levels (e_manifest e) ! l) (e_levels e ! l)" "l < length (mf_levels (e_manifest e))"
  shows "stack_view (map (\<lambda>r. reader_entries (snd r)) (e_levels e ! l)) k =
    (case findSSTableForKey e l k of None \<Rightarrow> None | Some r \<Rightarrow> map_of (reader_entries (snd r)) k)"
proof -
  let ?f = "\<lambda>r. map_of (reader_entries (snd r)) k"
  have cov: "?f r \<noteq> None \<Longrightarrow> covers k r" if "r \<in> set (e_levels e ! l)" for r
    using entries_covered [of r k] assms(1) that by (auto simp: level_ok_def)
  have sv: "stack_view (map (\<lambda>r. reader_entries (snd r)) (e_levels e ! l)) k = first_some (map ?f (e_levels e ! l))"
    by (simp add: stack_view_def comp_def)
  show ?thesis
  proof (cases "findSSTableForKey e l k")
    case None
    have "?f r = None" if r: "r \<in> set (e_levels e ! l)" for r
      using findSSTableForKey_spec [OF assms, of k] cov [OF r] None r by (cases "?f r") auto
    then show ?thesis using None by (simp add: sv first_some_None)
  next
    case (Some r)
    then have r: "r \<in> set (e_levels e ! l)" "covers k r" using findSSTableForKey_spec [OF assms, of k] by auto
    have "first_some (map ?f (e_levels e ! l)) = ?f r"
    proof (rule first_some_unique [OF r(1)])
      fix r' assume r': "r' \<in> set (e_levels e ! l)" "?f r' \<noteq> None"
      show "r' = r" by (rule covers_unique [OF assms(1) r'(1) r(1) cov [OF r'] r(2)])
    qed
    then show ?thesis using Some by (simp add: sv)
  qed
qed

lemma getDeep_view:
  assumes "\<forall>l\<in>set ls. level_ok (mf_levels (e_manifest e) ! l) (e_levels e ! l) \<and> l < length (mf_levels (e_manifest e))"
  shows "getDeep e ls k = map_option answer (stack_view (concat (map (\<lambda>l. map (\<lambda>r. reader_entries (snd r)) (e_levels e ! l)) ls)) k)"
  using assms
proof (induction ls)
  case (Cons l ls)
  have lv: "level_ok (mf_levels (e_manifest e) ! l) (e_levels e ! l)" "l < length (mf_levels (e_manifest e))" using Cons.prems by auto
  note look = level_lookup [OF lv, of k]
  show ?case
  proof (cases "findSSTableForKey e l k")
    case None
    then show ?thesis using Cons look by simp
  next
    case (Some r)
    then have "reader_ok (snd r)" using findSSTableForKey_spec [OF lv, of k] lv(1) by (auto simp: level_ok_def rd_wf_def)
    then show ?thesis using Cons look Some by (simp add: getTable_view split: option.splits)
  qed
qed simp

lemma e_tables_levels:
  "e_levels e \<noteq> [] \<Longrightarrow> map reader_entries (e_tables e) = map reader_entries (rev (map snd (e_levels e ! 0))) @
     concat (map (\<lambda>l. map (\<lambda>r. reader_entries (snd r)) (e_levels e ! l)) [1..<length (e_levels e)])"
proof -
  assume ne: "e_levels e \<noteq> []"
  have "tl (e_levels e) = map (\<lambda>l. e_levels e ! l) [1..<length (e_levels e)]"
    by (rule nth_equalityI) (auto simp: nth_tl)
  then have "map (\<lambda>x. reader_entries (snd x)) (concat (tl (e_levels e))) =
    concat (map (\<lambda>l. map (\<lambda>r. reader_entries (snd r)) (e_levels e ! l)) [1..<length (e_levels e)])"
    by (simp add: map_concat comp_def)
  then show ?thesis by (simp add: e_tables_def comp_def)
qed

lemma source_ents_split: "source_ents ms rs = source_ents ms [] @ map reader_entries rs"
  by (simp add: source_ents_def)

lemma Engine_Get_view:
  assumes "eng_inv e"
  shows "Engine_Get e k = (case engine_view e k of None \<Rightarrow> Err ErrNotFound | Some x \<Rightarrow> answer x)"
proof -
  have inv: "\<forall>m\<in>set (e_mems e). mem_inv m" "e_levels e \<noteq> []" "\<forall>r\<in>set (rev (map snd (e_levels e ! 0))). reader_ok r"
    "\<forall>l\<in>set [1..<length (e_levels e)]. level_ok (mf_levels (e_manifest e) ! l) (e_levels e ! l) \<and> l < length (mf_levels (e_manifest e))"
    using assms by (auto simp: eng_inv_def e_mems_def)
  show ?thesis
    unfolding Engine_Get_def e_mems_def [symmetric] getMems_view [OF inv(1)] getL0_view [OF inv(3)] getDeep_view [OF inv(4)]
      engine_view_def source_ents_split [of _ "e_tables e"] e_tables_levels [OF inv(2)]
    using inv(2) by (simp split: option.splits)
qed

subsection \<open>Range reads\<close>

definition kv_pairs :: "bytes \<Rightarrow> sst_entry list \<Rightarrow> KVPair list" where
  "kv_pairs endKey es = map (\<lambda>(k, v, t). \<lparr>kv_Key = k, kv_Value = norm_value v\<rparr>)
     (filter (\<lambda>(k, v, t). \<not> t) (takeWhile (\<lambda>e. fst e \<le> endKey) es))"

lemma readLoop_spec: "mi_inv mi \<Longrightarrow> readLoop mi endKey results = Some (results @ kv_pairs endKey (mi_rest mi))"
proof (induction "length (mi_rest mi)" arbitrary: mi results)
  case 0
  then show ?case using merge.valid [of mi] by (subst readLoop.simps) (simp add: kv_pairs_def)
next
  case (Suc n)
  obtain k v t es where r: "mi_rest mi = (k, v, t) # es" using Suc.hyps(2) by (cases "mi_rest mi") auto
  note o = merge.obs [OF Suc.prems r]
  obtain mi' where n: "MergeIterator_Next mi = Some mi'" "mi_inv mi'" "mi_rest mi' = es" using merge.nxt [OF Suc.prems] r by auto
  have v: "MergeIterator_Valid mi" using merge.valid [OF Suc.prems] r by simp
  have IH: "readLoop mi' endKey results' = Some (results' @ kv_pairs endKey es)" for results'
    using Suc.hyps(1) [of mi'] n r Suc.hyps(2) by simp
  show ?case using o n v r by (subst readLoop.simps) (auto simp: IH kv_pairs_def Let_def)
qed

lemma eng_inv_tables:
  assumes "eng_inv e" "r \<in> set (e_tables e)" shows "reader_ok r"
proof -
  consider "r \<in> snd ` set (e_levels e ! 0)" | lv where "lv \<in> set (tl (e_levels e))" "r \<in> snd ` set lv"
    using assms(2) unfolding e_tables_def by auto
  then show ?thesis
  proof cases
    case 1
    then show ?thesis using assms(1) by (auto simp: eng_inv_def)
  next
    case 2
    obtain i where i: "i < length (tl (e_levels e))" "tl (e_levels e) ! i = lv" using 2(1) by (auto simp: in_set_conv_nth)
    then have "level_ok (mf_levels (e_manifest e) ! Suc i) lv" using assms(1) by (auto simp: eng_inv_def nth_tl)
    then show ?thesis using 2(2) by (auto simp: level_ok_def rd_wf_def)
  qed
qed

lemma ReadRange_merge:
  assumes "eng_inv e"
  shows "ReadRange e startKey endKey =
    Some (kv_pairs endKey (dropWhile (\<lambda>x. fst x < startKey) (merge_list (by_order (source_ents (e_mems e) (e_tables e))))))"
proof -
  have "\<forall>r\<in>set (e_tables e). reader_ok r" using eng_inv_tables [OF assms] by blast
  moreover have "\<forall>m\<in>set (e_mems e). mem_inv m" "e_levels e \<noteq> []" using assms by (auto simp: eng_inv_def e_mems_def)
  ultimately obtain mi where mi: "NewMergeIterator (source_iters (e_mems e) (e_tables e)) (map int [0..<length (source_iters (e_mems e) (e_tables e))]) = Some mi"
    "mi_inv mi" "mi_all mi = merge_list (by_order (source_ents (e_mems e) (e_tables e)))" using source_merge by blast
  obtain mi' where mi': "MergeIterator_Seek mi startKey = Some mi'" "mi_inv mi'" "mi_rest mi' = dropWhile (\<lambda>x. fst x < startKey) (mi_all mi)"
    using merge.seek [OF mi(2), of startKey] by blast
  show ?thesis using \<open>e_levels e \<noteq> []\<close> mi mi' readLoop_spec [OF mi'(2)]
    by (simp add: ReadRange_def Let_def e_mems_def e_tables_def)
qed

lemma map_of_kv_pairs:
  "ksorted es \<Longrightarrow> map_of (map (\<lambda>p. (kv_Key p, kv_Value p)) (kv_pairs hi es)) k =
     (if k \<le> hi then (case map_of es k of Some (v, False) \<Rightarrow> Some (norm_value v) | _ \<Rightarrow> None) else None)"
proof (induction es)
  case (Cons e es)
  obtain x v t where e: "e = (x, v, t)" by (cases e)
  show ?case
  proof (cases "x \<le> hi")
    case True
    have "k = x \<Longrightarrow> map_of es k = None" using Cons.prems e by (auto simp: map_of_eq_None_iff)
    then show ?thesis using Cons True e by (auto simp: kv_pairs_def split: option.splits)
  next
    case False
    then have "k \<le> hi \<Longrightarrow> map_of (e # es) k = None" using Cons.prems e by (auto simp: map_of_eq_None_iff)
    then show ?thesis using False e by (simp add: kv_pairs_def)
  qed
qed (simp add: kv_pairs_def)

lemma sorted_kv_pairs: "ksorted es \<Longrightarrow> sorted_wrt (<) (map kv_Key (kv_pairs hi es))"
proof -
  assume "ksorted es"
  then have "sorted_wrt (\<lambda>x y. fst x < fst y) (filter (\<lambda>(k, v, t). \<not> t) (takeWhile (\<lambda>e. fst e \<le> hi) es))"
    by (intro sorted_wrt_filter sorted_wrt_takeWhile) (simp add: ksorted_def sorted_wrt_map)
  then show ?thesis by (simp add: kv_pairs_def sorted_wrt_map split_def)
qed

lemma merge_list_view: "map_of (merge_list (by_order ss)) = stack_view ss"
  by (simp add: fun_eq_iff map_of_merge_list merge_val_by_order stack_view_def)

lemma ReadRange_view:
  assumes "eng_inv e"
  shows "\<exists>kvs. ReadRange e lo hi = Some kvs \<and> sorted_wrt (<) (map kv_Key kvs) \<and>
    (\<forall>k. map_of (map (\<lambda>p. (kv_Key p, kv_Value p)) kvs) k =
      (if lo \<le> k \<and> k \<le> hi then (case engine_view e k of Some (v, False) \<Rightarrow> Some (norm_value v) | _ \<Rightarrow> None) else None))"
proof -
  let ?m = "merge_list (by_order (source_ents (e_mems e) (e_tables e)))"
  have d: "dropWhile (\<lambda>x. fst x < lo) ?m = filter (\<lambda>x. lo \<le> fst x) ?m" by (rule dropWhile_ksorted [OF ksorted_merge_list])
  have s: "ksorted (filter (\<lambda>x. lo \<le> fst x) ?m)"
    using ksorted_merge_list [of "by_order (source_ents (e_mems e) (e_tables e))"] by (simp add: ksorted_def sorted_wrt_map sorted_wrt_filter)
  have v: "map_of (filter (\<lambda>x. lo \<le> fst x) ?m) k = (if lo \<le> k then engine_view e k else None)" for k
    by (simp add: map_of_filter_ge merge_list_view engine_view_def)
  show ?thesis unfolding ReadRange_merge [OF assms] d
    using map_of_kv_pairs [OF s, of hi] sorted_kv_pairs [OF s, of hi] unfolding v by auto
qed

end
