(* ===== verification/Engine_Ops.thy ===== *)
theory Engine_Ops
  imports Engine
begin

text \<open>
  What the operations of \<open>engine/engine.go\<close> do to the invariant and to the view of \<open>Engine\<close>: the
  writes, the phases of a flush, and opening an engine on a disk. The last part has the properties of
  single operations; runs of them are the subject of \<open>Engine_Steps\<close>.
\<close>

subsection \<open>Writes\<close>

lemma maybeScheduleFlush_view:
  assumes "eng_inv e"
  shows "eng_inv (maybeScheduleFlush io e)" "engine_view (maybeScheduleFlush io e) = engine_view e"
proof -
  obtain d w r where rot: "WAL_Rotate io (e_waldir e) (e_wal e) = (d, w, r)" by (metis prod_cases3)
  have inv: "mem_inv (Memtable_Freeze (snd (e_memtable e)))" using assms mem.freeze_ok by (simp add: eng_inv_def)
  have ents: "mem_entries (Memtable_Freeze (snd (e_memtable e))) = mem_entries (snd (e_memtable e))"
    using assms mem.freeze_ok by (simp add: eng_inv_def)
  show "eng_inv (maybeScheduleFlush io e)"
    using assms inv by (auto simp: maybeScheduleFlush_def rot Let_def eng_inv_def)
  show "engine_view (maybeScheduleFlush io e) = engine_view e"
    by (rule ext) (auto simp: maybeScheduleFlush_def rot Let_def engine_view_def e_mems_def e_tables_def source_ents_Cons ents
        map_of_mem_ient)
qed

text \<open>Installing a memtable that has taken some writes.\<close>

lemma set_memtable_view:
  assumes "eng_inv e" "mem_inv m" "\<not> frozen m" "e' = e\<lparr>e_waldir := d, e_wal := w, e_memtable := (p, m)\<rparr>"
    and "\<And>k. map_of (mem_entries m) k = (case ws k of None \<Rightarrow> map_of (mem_entries (snd (e_memtable e))) k | Some v \<Rightarrow> Some v)"
  shows "eng_inv e'" "engine_view e' k = (case ws k of None \<Rightarrow> engine_view e k | Some v \<Rightarrow> Some (v, v = None))"
  using assms by (auto simp: eng_inv_def engine_view_def e_mems_def e_tables_def source_ents_Cons map_of_mem_ient split: option.splits)

lemma batchApply_writes:
  "apply_writes Memtable_Put Memtable_Delete c m kvs = Ok m' \<Longrightarrow> batchApply c m kvs = (m', Ok ())"
proof (induction kvs arbitrary: c m)
  case (Cons kv kvs)
  obtain k v where kv: "kv = (k, v)" by (cases kv)
  then show ?case using Cons by (cases v) (auto simp: res_bind_Ok_iff)
qed simp

lemma batchApply_spec:
  assumes "mem_inv m" "\<not> frozen m"
  shows "\<exists>m'. batchApply c m kvs = (m', Ok ()) \<and> mem_inv m' \<and> \<not> frozen m' \<and>
    map_of (mem_entries m') = map_of (mem_entries m) ++ map_of (rev kvs)"
proof -
  obtain m' where m': "apply_writes Memtable_Put Memtable_Delete c m kvs = Ok m'" "mem_inv m'" "\<not> frozen m'"
    "mem_entries m' = fold (\<lambda>(k, v). assoc_put k v) kvs (mem_entries m)"
    using mem.apply_writes_ok [OF assms(1), of c kvs] assms(2) by (auto simp: Memtable_IsFrozen_def)
  have "map_of (mem_entries m') = map_of (mem_entries m) ++ map_of (rev kvs)"
    unfolding m'(4) using map_of_fold_assoc_put [OF mem.ents_sorted [OF assms(1)], of kvs] by simp
  then show ?thesis using m' batchApply_writes [of c m kvs] by blast
qed

text \<open>The three write operations are one: a batch of records and its effect on the memtable.\<close>

lemma Engine_Put_batch:
  assumes "mem_inv (snd (e_memtable e))" "\<not> frozen (snd (e_memtable e))"
  shows "snd (Engine_Put io e k (Some v)) = Ok () \<longleftrightarrow> snd (Engine_BatchPut io e [k] [Some v]) = Ok ()"
    and "fst (Engine_Put io e k (Some v)) = fst (Engine_BatchPut io e [k] [Some v])"
    and "snd (Engine_Delete io e k) = Ok () \<longleftrightarrow> snd (Engine_BatchPut io e [k] [None]) = Ok ()"
    and "fst (Engine_Delete io e k) = fst (Engine_BatchPut io e [k] [None])"
proof -
  obtain m1 where m1: "Memtable_Put (we_coins io 0) (snd (e_memtable e)) k (Some v) = Ok m1"
    using mem.put_ok [OF assms(1)] assms(2) by (metis Memtable_IsFrozen_def)
  obtain m2 where m2: "Memtable_Put (we_coins io 0) (snd (e_memtable e)) k None = Ok m2"
    using mem.put_ok [OF assms(1)] assms(2) by (metis Memtable_IsFrozen_def)
  show "snd (Engine_Put io e k (Some v)) = Ok () \<longleftrightarrow> snd (Engine_BatchPut io e [k] [Some v]) = Ok ()"
    "fst (Engine_Put io e k (Some v)) = fst (Engine_BatchPut io e [k] [Some v])"
    "snd (Engine_Delete io e k) = Ok () \<longleftrightarrow> snd (Engine_BatchPut io e [k] [None]) = Ok ()"
    "fst (Engine_Delete io e k) = fst (Engine_BatchPut io e [k] [None])"
    using m1 m2 by (simp_all add: Engine_Put_def Engine_Delete_def Engine_BatchPut_def WAL_Append_batch batchRecord_def Let_def
        mem.del_put split: prod.splits)
qed

lemma Engine_BatchPut_view:
  assumes inv: "eng_inv e" and len: "length keys = length vs" and run: "Engine_BatchPut io e keys vs = (e', r)"
  shows "eng_inv e'" "r = Ok () \<Longrightarrow> engine_view e' k = (case map_of (rev (zip keys vs)) k of None \<Rightarrow> engine_view e k | Some v \<Rightarrow> Some (v, v = None))"
    and "r \<noteq> Ok () \<Longrightarrow> engine_view e' = engine_view e"
    and "r = Ok () \<longleftrightarrow> snd (snd (WAL_AppendBatch (we_append io) (e_waldir e) (e_wal e) (map batchRecord (zip keys vs)))) = None"
proof -
  obtain d w err where a: "WAL_AppendBatch (we_append io) (e_waldir e) (e_wal e) (map batchRecord (zip keys vs)) = (d, w, err)"
    by (metis prod_cases3)
  have mi: "mem_inv (snd (e_memtable e))" "\<not> frozen (snd (e_memtable e))" using inv by (auto simp: eng_inv_def)
  obtain m where m: "batchApply (we_coins io) (snd (e_memtable e)) (zip keys vs) = (m, Ok ())" "mem_inv m" "\<not> frozen m"
    "map_of (mem_entries m) = map_of (mem_entries (snd (e_memtable e))) ++ map_of (rev (zip keys vs))"
    using batchApply_spec [OF mi] by blast
  define e1 where "e1 = e\<lparr>e_waldir := d, e_wal := w, e_memtable := (fst (e_memtable e), m)\<rparr>"
  have e1: "eng_inv e1" "engine_view e1 k = (case map_of (rev (zip keys vs)) k of None \<Rightarrow> engine_view e k | Some v \<Rightarrow> Some (v, v = None))" for k
    using set_memtable_view [OF inv m(2,3) e1_def, of "map_of (rev (zip keys vs))"] m(4) by (auto simp: map_add_def)
  have res: "(e', r) = (if err \<noteq> None then (e\<lparr>e_waldir := d, e_wal := w\<rparr>, Err ''engine: wal batch: '') else (maybeScheduleFlush (we_rotate io) e1, Ok ()))"
    using run m(1) by (cases err) (simp_all add: Engine_BatchPut_def len a Let_def e1_def)
  have "eng_inv (e\<lparr>e_waldir := d, e_wal := w\<rparr>)" "engine_view (e\<lparr>e_waldir := d, e_wal := w\<rparr>) = engine_view e"
    using inv by (auto simp: eng_inv_def engine_view_def e_mems_def e_tables_def fun_eq_iff)
  then show "eng_inv e'" "r = Ok () \<Longrightarrow> engine_view e' k = (case map_of (rev (zip keys vs)) k of None \<Rightarrow> engine_view e k | Some v \<Rightarrow> Some (v, v = None))"
    "r \<noteq> Ok () \<Longrightarrow> engine_view e' = engine_view e"
    "r = Ok () \<longleftrightarrow> snd (snd (WAL_AppendBatch (we_append io) (e_waldir e) (e_wal e) (map batchRecord (zip keys vs)))) = None"
    using res maybeScheduleFlush_view [OF e1(1)] e1(2) by (auto simp: a split: if_splits)
qed

subsection \<open>Flushes\<close>

lemma writeEntries_spec: "Iter_inv it \<Longrightarrow> writeEntries io w it = Some (write_all io w (Iter_rest it))"
proof (induction "length (Iter_rest it)" arbitrary: it w)
  case 0
  then show ?case using iter.valid [of it] by (subst writeEntries.simps) simp
next
  case (Suc n)
  obtain k v t es where r: "Iter_rest it = (k, v, t) # es" using Suc.hyps(2) by (cases "Iter_rest it") auto
  note o = iter.obs [OF Suc.prems r]
  obtain it' where n: "Iter_Next it = Some it'" "Iter_inv it'" "Iter_rest it' = es" using iter.nxt [OF Suc.prems] r by auto
  have "writeEntries io w' it' = Some (write_all io w' es)" for w' using Suc.hyps(1) [of it' w'] n r Suc.hyps(2) by simp
  then show ?case using iter.valid [OF Suc.prems] o n r
    by (subst writeEntries.simps) (simp split: res.splits)
qed

text \<open>What a table holds of a memtable.\<close>

definition table_of :: "bytes option entries \<Rightarrow> sst_entry list" where
  "table_of es = map (\<lambda>(k, v). (k, norm_value v, v = None)) es"

lemma map_of_table_of: "map_of (table_of es) k = map_option (\<lambda>v. (norm_value v, v = None)) (map_of es k)"
  by (induction es) (auto simp: table_of_def)

lemma sst_ient_table_of: "sst_ient (map rd_entry (mem_ient es)) = table_of es"
  by (auto simp: sst_ient_def mem_ient_def table_of_def)

lemma user_value_simps [simp]:
  "user_value None = None" "user_value (Some (v, True)) = None" "user_value (Some (v, False)) = Some (val_bytes v)"
  "user_value (Some (v, v = None)) = v" "user_value (Some (norm_value v, v = None)) = v"
  by (auto simp: user_value_def norm_value_def val_bytes_def split: bool.splits option.splits)

lemma OpenReader_env: "OpenReader io content = Ok r \<Longrightarrow> OpenReader rd_ok content = Ok r"
  by (auto simp: OpenReader_def rd_ok_def Let_def split: if_splits)

lemma write_all_count: "write_all io w es = Ok w' \<Longrightarrow> entryCount w' = entryCount w + length es"
proof (induction es arbitrary: w)
  case (Cons e es)
  obtain k v t where e: "e = (k, v, t)" by (cases e)
  obtain w1 where w1: "Writer_Add io w k v t = Ok w1" "write_all io w1 es = Ok w'" using Cons.prems e by (auto simp: res_bind_Ok_iff)
  have "entryCount w1 = entryCount w + 1" using w1(1)
    by (auto simp: Writer_Add_def flushBlock_def sw_Write_def Let_def res_bind_Ok_iff split: if_splits)
  then show ?case using Cons.IH [OF w1(2)] by simp
qed simp

definition mem_fits :: "Memtable \<Rightarrow> bool" where
  "mem_fits m \<longleftrightarrow> sst_bound (mem_ient (mem_entries m)) < 2 ^ 32"

text \<open>A table file whose entries came from \<open>es\<close>: the end of every flush and of every compaction output.\<close>

lemma finishTable_spec:
  assumes w: "NewWriter (fe_sst io) bsz = Ok w0" "write_all (fe_sst io) w0 es = Ok w"
    and es: "sorted_wrt (<) (map fst es)" "sst_bound es < 2 ^ 32"
    and run: "finishTable io files path n l w = (files', Ok (meta, r))"
  shows "\<exists>content. files' = files(path \<mapsto> content) \<and> OpenReader rd_ok content = Ok r" "reader_ok r" "reader_entries r = sst_ient (map rd_entry es)"
    "FileNum meta = n" "Level meta = l" "fm_MinKey meta = val_bytes (Reader_MinKey r)" "fm_MaxKey meta = val_bytes (Reader_MaxKey r)"
proof -
  obtain content where c: "Writer_Finish (fe_sst io) w = Ok content" "files' = files(path \<mapsto> content)" "OpenReader (fe_rd io) content = Ok r"
    and m: "FileNum meta = n" "Level meta = l" "fm_MinKey meta = val_bytes (Reader_MinKey r)" "fm_MaxKey meta = val_bytes (Reader_MaxKey r)"
    using run by (auto simp: finishTable_def Let_def split: res.splits)
  have "write_table (fe_sst io) bsz es = Ok content" using w c(1) by (simp add: write_table_def)
  then obtain r' B where r': "OpenReader rd_ok content = Ok r'" "reader_rep r' B" "concat B = map rd_entry es"
    using write_table_opens es by blast
  then have "r' = r" using OpenReader_env [OF c(3)] by simp
  then show "\<exists>content. files' = files(path \<mapsto> content) \<and> OpenReader rd_ok content = Ok r" "reader_ok r" "reader_entries r = sst_ient (map rd_entry es)"
    "FileNum meta = n" "Level meta = l" "fm_MinKey meta = val_bytes (Reader_MinKey r)" "fm_MaxKey meta = val_bytes (Reader_MaxKey r)"
    using c r' m reader_rep_ok reader_rep_blocks by (auto simp: reader_entries_def)
qed

lemma flush_iterator:
  assumes "mem_inv m"
  shows "\<exists>it. Iter_SeekToFirst (MemIter (Memtable_NewIterator m)) = Some it \<and> writeEntries io w it = Some (write_all io w (mem_ient (mem_entries m)))"
proof -
  have f: "Iter_inv (MemIter (Memtable_NewIterator m))" "Iter_all (MemIter (Memtable_NewIterator m)) = mem_ient (mem_entries m)"
    using fresh_iterators(1) [OF assms] by blast+
  obtain it where "Iter_SeekToFirst (MemIter (Memtable_NewIterator m)) = Some it" "Iter_inv it" "Iter_rest it = mem_ient (mem_entries m)"
    using iter.first [OF f(1)] f(2) by metis
  then show ?thesis using writeEntries_spec by metis
qed

lemma mem_ient_sorted: "mem_inv m \<Longrightarrow> sorted_wrt (<) (map fst (mem_ient (mem_entries m)))"
  using mem.ents_sorted [of m] ksorted_mem_ient [of "mem_entries m"] by (simp add: ksorted_def)

lemma flushBuild_Built:
  assumes mi: "mem_inv (snd (ft_mem task))" "mem_fits (snd (ft_mem task))"
    and run: "flushBuild io e task = Some (e', FlushBuilt pr)"
  shows "\<exists>content meta m'. e' = e\<lparr>nextFileNum := nextFileNum e + 1, e_manifest := m',
      e_files := (e_files e)(sstPath (nextFileNum e) \<mapsto> content), e_nextptr := Suc (e_nextptr e)\<rparr> \<and>
    AddFile (fe_mf io) (e_manifest e) meta = (m', None) \<and> OpenReader rd_ok content = Ok (snd pr) \<and> fst pr = e_nextptr e \<and>
    reader_ok (snd pr) \<and> reader_entries (snd pr) = table_of (mem_entries (snd (ft_mem task))) \<and>
    FileNum meta = nextFileNum e \<and> Level meta = 0 \<and> fm_MinKey meta = val_bytes (Reader_MinKey (snd pr)) \<and> fm_MaxKey meta = val_bytes (Reader_MaxKey (snd pr))"
proof -
  let ?es = "mem_ient (mem_entries (snd (ft_mem task)))"
  obtain w0 where w0: "NewWriter (fe_sst io) (BlockSize (e_opts e)) = Ok w0"
    using run by (auto simp: flushBuild_def allocFileNum_def Let_def split: res.splits)
  obtain it where it: "Iter_SeekToFirst (MemIter (Memtable_NewIterator (snd (ft_mem task)))) = Some it"
    "writeEntries (fe_sst io) w0 it = Some (write_all (fe_sst io) w0 ?es)" using flush_iterator [OF mi(1)] by blast
  obtain w where w: "write_all (fe_sst io) w0 ?es = Ok w" "EntryCount w \<noteq> 0"
    using run w0 it by (auto simp: flushBuild_def allocFileNum_def Let_def split: res.splits if_splits)
  obtain files meta r where f: "finishTable io (e_files e) (sstPath (nextFileNum e)) (nextFileNum e) 0 w = (files, Ok (meta, r))"
    using run w0 it w by (auto simp: flushBuild_def allocFileNum_def Let_def split: res.splits prod.splits)
  obtain m' where a: "AddFile (fe_mf io) (e_manifest e) meta = (m', None)"
    using run w0 it w f by (auto simp: flushBuild_def allocFileNum_def Let_def split: option.splits prod.splits)
  have res: "e' = e\<lparr>nextFileNum := nextFileNum e + 1, e_manifest := m', e_files := files, e_nextptr := Suc (e_nextptr e)\<rparr>" "pr = (e_nextptr e, r)"
    using run w0 it w f a by (auto simp: flushBuild_def allocFileNum_def Let_def)
  note fs = finishTable_spec [OF w0 w(1) mem_ient_sorted [OF mi(1)] mi(2) [unfolded mem_fits_def] f]
  obtain content where "files = (e_files e)(sstPath (nextFileNum e) \<mapsto> content)" "OpenReader rd_ok content = Ok r" using fs(1) by blast
  then show ?thesis using res a fs(2-) by (auto simp: sst_ient_table_of)
qed

lemma AddFile_levels:
  "AddFile io m meta = (m', None) \<Longrightarrow> 0 \<le> Level meta \<Longrightarrow> Level meta < int (length (mf_levels m)) \<Longrightarrow>
     mf_levels m' = (mf_levels m)[nat (Level meta) := mf_levels m ! nat (Level meta) @ [meta]]"
  "AddFile io m meta = (m', Some err) \<Longrightarrow> mf_levels m' = mf_levels m"
  by (auto simp: AddFile_def writeRecord_def Let_def write_bytes_def split: prod.splits option.splits if_splits)

lemma flushBuild_Built_inv:
  assumes inv: "eng_inv e" and mi: "mem_inv (snd (ft_mem task))" "mem_fits (snd (ft_mem task))"
    and run: "flushBuild io e task = Some (e', FlushBuilt pr)"
  shows "eng_inv e'" "engine_view e' = engine_view e"
proof -
  obtain content meta m' where e': "e' = e\<lparr>nextFileNum := nextFileNum e + 1, e_manifest := m',
      e_files := (e_files e)(sstPath (nextFileNum e) \<mapsto> content), e_nextptr := Suc (e_nextptr e)\<rparr>"
    "AddFile (fe_mf io) (e_manifest e) meta = (m', None)" "Level meta = 0"
    using flushBuild_Built [OF mi run] by blast
  have "mf_levels (e_manifest e) \<noteq> []" using inv by (metis eng_inv_def length_0_conv)
  then have "mf_levels m' = (mf_levels (e_manifest e))[0 := mf_levels (e_manifest e) ! 0 @ [meta]]"
    using AddFile_levels(1) [OF e'(2)] e'(3) by simp
  then show "eng_inv e'" using inv unfolding e'(1) by (simp add: eng_inv_def)
  show "engine_view e' = engine_view e" unfolding e'(1) by (simp add: engine_view_def e_mems_def e_tables_def)
qed

lemma flushBuild_other:
  assumes "flushBuild io e task = Some (e', res)" "res = FlushFailed \<or> res = FlushEmpty"
  shows "e_memtable e' = e_memtable e" "immutableMems e' = immutableMems e" "e_levels e' = e_levels e"
    "mf_levels (e_manifest e') = mf_levels (e_manifest e)"
  using assms AddFile_levels(2) by (auto simp: flushBuild_def allocFileNum_def Let_def split: res.splits option.splits prod.splits if_splits)

lemma eng_same:
  assumes "eng_inv e" "e_memtable e' = e_memtable e" "immutableMems e' = immutableMems e" "e_levels e' = e_levels e"
    "mf_levels (e_manifest e') = mf_levels (e_manifest e)"
  shows "eng_inv e'" "engine_view e' = engine_view e"
  using assms by (simp_all add: eng_inv_def engine_view_def e_mems_def e_tables_def)

lemma flushBuild_ok:
  assumes "mem_inv (snd (ft_mem task))" "mem_fits (snd (ft_mem task))" "mem_entries (snd (ft_mem task)) \<noteq> []"
  shows "\<exists>e' pr. flushBuild flush_ok e task = Some (e', FlushBuilt pr)"
proof -
  let ?es = "mem_ient (mem_entries (snd (ft_mem task)))" and ?bs = "BlockSize (e_opts e)"
  have es: "sorted_wrt (<) (map fst ?es)" "sst_bound ?es < 2 ^ 32" using mem_ient_sorted assms by (auto simp: mem_fits_def)
  obtain content where c: "write_table sst_ok ?bs ?es = Ok content" using write_table_succeeds [OF es(2)] by blast
  obtain w0 w where w: "NewWriter sst_ok ?bs = Ok w0" "write_all sst_ok w0 ?es = Ok w" "Writer_Finish sst_ok w = Ok content"
    using c by (auto simp: write_table_def res_bind_Ok_iff)
  have "entryCount w0 = 0" using w(1) by (auto simp: NewWriter_def Let_def split: if_splits)
  then have cnt: "EntryCount w \<noteq> 0" using write_all_count [OF w(2)] assms(3) by (simp add: EntryCount_def mem_ient_def)
  obtain r where r: "OpenReader rd_ok content = Ok r" using write_table_opens [OF c es] by blast
  obtain it where it: "Iter_SeekToFirst (MemIter (Memtable_NewIterator (snd (ft_mem task)))) = Some it"
    "writeEntries sst_ok w0 it = Some (write_all sst_ok w0 ?es)" using flush_iterator [OF assms(1)] by blast
  have add: "\<exists>m'. AddFile mf_ok m meta = (m', None)" for m meta
    by (simp add: AddFile_def writeRecord_def mf_ok_def write_bytes_def Let_def)
  have fe: "fe_sst flush_ok = sst_ok" "fe_rd flush_ok = rd_ok" "fe_mf flush_ok = mf_ok" by (simp_all add: flush_ok_def)
  obtain meta where f: "finishTable flush_ok (e_files e) (sstPath (nextFileNum e)) (nextFileNum e) 0 w =
    ((e_files e)(sstPath (nextFileNum e) \<mapsto> content), Ok (meta, r))"
    using w(3) r by (simp add: finishTable_def fe Let_def)
  obtain m' where "AddFile mf_ok (e_manifest e) meta = (m', None)" using add by blast
  then show ?thesis using w(1) it w(2) cnt f by (simp add: flushBuild_def allocFileNum_def fe Let_def del: Iter_SeekToFirst.simps)
qed

text \<open>Installing a table whose keys an immutable memtable still has changes nothing.\<close>

lemma flushInstall_view:
  assumes inv: "eng_inv e" and r: "reader_ok (snd pr)" "reader_entries (snd pr) = table_of (mem_entries m)" and m: "m \<in> snd ` set (immutableMems e)"
  shows "eng_inv (flushInstall e pr)" "engine_view (flushInstall e pr) = engine_view e"
proof -
  have ne: "e_levels e \<noteq> []" using inv by (simp add: eng_inv_def)
  show "eng_inv (flushInstall e pr)" using inv r(1) by (auto simp: eng_inv_def flushInstall_def nth_list_update)
  have tabs: "e_tables (flushInstall e pr) = snd pr # e_tables e"
    using ne by (cases "e_levels e") (auto simp: e_tables_def flushInstall_def)
  have mems: "e_mems (flushInstall e pr) = e_mems e" by (simp add: e_mems_def flushInstall_def)
  show "engine_view (flushInstall e pr) = engine_view e"
  proof
    fix k
    have shadow: "stack_view (source_ents (e_mems e) []) k \<noteq> None" if h: "map_of (reader_entries (snd pr)) k \<noteq> None"
    proof -
      have "map_of (mem_ient (mem_entries m)) k \<noteq> None" using h by (simp add: r(2) map_of_table_of map_of_mem_ient)
      moreover have "mem_ient (mem_entries m) \<in> set (source_ents (e_mems e) [])" using m by (auto simp: source_ents_def e_mems_def)
      ultimately show ?thesis unfolding stack_view_None by (intro notI) simp
    qed
    have split: "engine_view (flushInstall e pr) k = stack_view (source_ents (e_mems e) [] @ reader_entries (snd pr) # map reader_entries (e_tables e)) k"
      "engine_view e k = stack_view (source_ents (e_mems e) [] @ map reader_entries (e_tables e)) k"
      unfolding engine_view_def tabs mems source_ents_def by simp_all
    show "engine_view (flushInstall e pr) k = engine_view e k"
    proof (cases "stack_view (source_ents (e_mems e) []) k")
      case None
      then have "map_of (reader_entries (snd pr)) k = None" using shadow by blast
      then show ?thesis unfolding split using None by simp
    next
      case (Some x)
      then show ?thesis unfolding split by simp
    qed
  qed
qed

lemma remove_ptr_last: "p \<notin> fst ` set xs \<Longrightarrow> remove_ptr p (xs @ [(p, m)]) = xs"
  by (induction xs) auto

lemma removeImmutable_keeps: "eng_inv e \<Longrightarrow> eng_inv (removeImmutable e mp)"
proof -
  have "set (remove_ptr p xs) \<subseteq> set xs" for p and xs :: "memptr list" by (induction xs) auto
  then show "eng_inv e \<Longrightarrow> eng_inv (removeImmutable e mp)" by (auto simp: eng_inv_def removeImmutable_def)
qed

text \<open>What the tables alone say of a key, and when they hold all of a memtable.\<close>

definition tables_view :: "Engine \<Rightarrow> bytes \<Rightarrow> (bytes option \<times> bool) option" where
  "tables_view e = stack_view (map reader_entries (e_tables e))"

definition tables_cover :: "Engine \<Rightarrow> Memtable \<Rightarrow> bool" where
  "tables_cover e m \<longleftrightarrow> (\<forall>k v. map_of (mem_entries m) k = Some v \<longrightarrow> tables_view e k = Some (norm_value v, v = None))"

lemma engine_view_tables:
  "engine_view e k = (case stack_view (source_ents (e_mems e) []) k of None \<Rightarrow> tables_view e k | Some x \<Rightarrow> Some x)"
  unfolding engine_view_def tables_view_def source_ents_split [of _ "e_tables e"] by simp

lemma newest_covers:
  assumes "e_levels e ! 0 = L @ [pr]" "reader_entries (snd pr) = table_of (mem_entries m)" shows "tables_cover e m"
  using assms by (simp add: tables_cover_def tables_view_def e_tables_def map_of_table_of)

text \<open>Dropping the oldest immutable memtable once the tables hold its entries.\<close>

lemma removeImmutable_view:
  assumes inv: "eng_inv e" and im: "immutableMems e = ims @ [(p, m)]" "p \<notin> fst ` set ims" and cov: "tables_cover e m"
  shows "kv_view (removeImmutable e (p, m)) = kv_view e"
proof
  fix k
  have mems: "e_mems e = e_mems (removeImmutable e (p, m)) @ [m]" by (simp add: e_mems_def removeImmutable_def im remove_ptr_last)
  have tabs: "tables_view (removeImmutable e (p, m)) = tables_view e" by (simp add: tables_view_def e_tables_def removeImmutable_def)
  show "kv_view (removeImmutable e (p, m)) k = kv_view e k"
    using cov unfolding kv_view_def engine_view_tables mems tabs tables_cover_def
    by (auto simp: source_ents_def map_of_mem_ient split: option.splits)
qed

subsection \<open>Opening\<close>

definition rec_writes :: "Record \<Rightarrow> (bytes \<times> bytes option) list" where
  "rec_writes rec = (if r_type rec = RecordPut then [(r_key rec, r_value rec)]
     else if r_type rec = RecordDelete then [(r_key rec, None)] else [])"

text \<open>What a sequence of records says of a key once it has been through the log.\<close>

definition recs_map :: "Record list \<Rightarrow> bytes \<Rightarrow> bytes option option" where
  "recs_map recs = map_of (rev (concat (map rec_writes (map norm_rec recs))))"

lemma recs_map_append: "recs_map (rs @ rs') = recs_map rs ++ recs_map rs'"
  by (simp add: recs_map_def)

lemma recs_map_batch: "recs_map (map batchRecord kvs) = map_of (rev (map (\<lambda>(k, v). (k, norm_value v)) kvs))"
proof -
  have "rec_writes (norm_rec (batchRecord (k, v))) = [(k, norm_value v)]" for k v
    by (simp add: rec_writes_def norm_rec_def batchRecord_def RecordPut_def RecordDelete_def)
  then have "concat (map rec_writes (map norm_rec (map batchRecord kvs))) = map (\<lambda>(k, v). (k, norm_value v)) kvs"
    by (induction kvs) auto
  then show ?thesis by (simp add: recs_map_def)
qed

lemma map_of_norm: "map_of (rev (map (\<lambda>(k, v). (k, norm_value v)) kvs)) k = map_option norm_value (map_of (rev kvs) k)"
  by (simp add: rev_map map_of_map)

text \<open>A memtable that was rebuilt by a replay: it holds what the records say, and it is untouched if
  they say nothing.\<close>

lemma replay_memtable:
  assumes "mem_inv m" "\<not> frozen m"
  shows "\<exists>i' m'. fold_res (replayRecord c) (i, m) recs = Ok (i', m') \<and> mem_inv m' \<and> \<not> frozen m' \<and>
    map_of (mem_entries m') = map_of (mem_entries m) ++ map_of (rev (concat (map rec_writes recs))) \<and>
    (mem_entries m' = [] \<longrightarrow> m' = m)"
  using assms
proof (induction recs arbitrary: i m)
  case (Cons rec recs)
  show ?case
  proof (cases "rec_writes rec")
    case Nil
    then have "replayRecord c (i, m) rec = Ok (i, m)" by (simp add: replayRecord_def rec_writes_def split: if_splits)
    then show ?thesis using Cons.IH [OF Cons.prems, of i] Nil by simp
  next
    case (Cons kv more)
    obtain k v where kv: "kv = (k, v)" by (cases kv)
    have kv': "rec_writes rec = [(k, v)]" using Cons kv by (auto simp: rec_writes_def split: if_splits)
    obtain m1 where m1: "Memtable_Put (c i) m k v = Ok m1" "mem_inv m1" "\<not> frozen m1" "mem_entries m1 = assoc_put k v (mem_entries m)"
      using mem.put_ok [OF Cons.prems(1)] Cons.prems(2) by (metis Memtable_IsFrozen_def)
    have step: "replayRecord c (i, m) rec = Ok (Suc i, m1)"
      using kv' m1(1) by (auto simp: replayRecord_def rec_writes_def mem.del_put split: if_splits)
    have ne: "mem_entries m1 \<noteq> []" using m1(4) by (simp add: assoc_put_def)
    have mp: "map_of (mem_entries m1) = (map_of (mem_entries m))(k \<mapsto> v)"
      using m1(4) map_of_assoc_put [OF mem.ents_sorted [OF Cons.prems(1)]] by (simp add: fun_eq_iff)
    obtain i' m' where IH: "fold_res (replayRecord c) (Suc i, m1) recs = Ok (i', m')" "mem_inv m'" "\<not> frozen m'"
      "map_of (mem_entries m') = map_of (mem_entries m1) ++ map_of (rev (concat (map rec_writes recs)))" "mem_entries m' = [] \<longrightarrow> m' = m1"
      using Cons.IH [OF m1(2,3), of "Suc i"] by blast
    then show ?thesis using step mp ne kv' by auto
  qed
qed simp

text \<open>\<open>disk_levels\<close>: the files the metadata names exist and open as the given readers.\<close>

definition opens_as :: "(string \<Rightarrow> bytes option) \<Rightarrow> FileMetadata \<Rightarrow> Reader \<Rightarrow> bool" where
  "opens_as files meta r \<longleftrightarrow> (\<exists>c. files (sstPath (FileNum meta)) = Some c \<and> OpenReader rd_ok c = Ok r)"

definition disk_levels :: "(string \<Rightarrow> bytes option) \<Rightarrow> FileMetadata list list \<Rightarrow> Reader list list \<Rightarrow> bool" where
  "disk_levels files = list_all2 (list_all2 (opens_as files))"

lemma sstPath_inj [simp]: "sstPath i = sstPath j \<longleftrightarrow> i = j"
proof
  assume "sstPath i = sstPath j"
  then have "walFileName i = walFileName j" by (simp add: sstPath_def walFileName_def Let_def)
  then show "i = j" by simp
qed simp

lemma opens_as_new_file:
  "disk_levels files lvls rss \<Longrightarrow> \<forall>meta\<in>set (concat lvls). FileNum meta \<noteq> n \<Longrightarrow> disk_levels (files(sstPath n \<mapsto> c)) lvls rss"
  unfolding disk_levels_def
  by (rule list.rel_mono_strong, assumption, rule list.rel_mono_strong, assumption) (auto simp: opens_as_def)

lemma openLevel_ok:
  "list_all2 (opens_as files) metas rs \<Longrightarrow> \<exists>lv. openLevel (open_ok c) files p metas = Ok lv \<and> map snd lv = rs"
proof (induction metas rs arbitrary: p rule: list_all2_induct)
  case (Cons meta metas r rs)
  obtain lv where "openLevel (open_ok c) files (Suc p) metas = Ok lv" "map snd lv = rs" using Cons.IH [of "Suc p"] by blast
  then show ?case using Cons.hyps(1) by (auto simp: opens_as_def open_ok_def)
qed simp

lemma openLevels_ok:
  "disk_levels files lvls rss \<Longrightarrow> \<exists>lv. openLevels (open_ok c) files p lvls = Ok lv \<and> map (map snd) lv = rss"
  unfolding disk_levels_def
proof (induction lvls rss arbitrary: p rule: list_all2_induct)
  case (Cons metas lvls rs rss)
  obtain l where l: "openLevel (open_ok c) files p metas = Ok l" "map snd l = rs" using openLevel_ok [OF Cons.hyps(1)] by blast
  obtain lv where "openLevels (open_ok c) files (p + length l) lvls = Ok lv" "map (map snd) lv = rss" using Cons.IH by blast
  then show ?case using l by auto
qed simp

text \<open>The addresses of the readers are counted up.\<close>

lemma openLevel_ptrs: "openLevel io files p metas = Ok lv \<Longrightarrow> map fst lv = [p..<p + length lv]"
proof (induction metas arbitrary: p lv)
  case (Cons meta metas)
  then obtain r rs where "openLevel io files (Suc p) metas = Ok rs" "lv = (p, r) # rs"
    by (auto simp: res_bind_Ok_iff split: option.splits res.splits)
  moreover have "[p..<p + Suc n] = p # [Suc p..<Suc p + n]" for n by (simp add: upt_conv_Cons del: upt_Suc)
  ultimately show ?case using Cons.IH [of "Suc p" rs] by (simp del: upt_Suc)
qed simp

lemma openLevels_ptrs:
  "openLevels io files p lvls = Ok lv \<Longrightarrow> rs \<in> set lv \<Longrightarrow> distinct (map fst rs) \<and> (\<forall>r\<in>set rs. fst r < p + length (concat lv))"
proof (induction lvls arbitrary: p lv)
  case (Cons metas lvls)
  then obtain l1 l2 where l: "openLevel io files p metas = Ok l1" "openLevels io files (p + length l1) lvls = Ok l2" "lv = l1 # l2"
    by (auto simp: res_bind_Ok_iff)
  have ptr: "distinct (map fst l1)" "\<forall>x\<in>set (map fst l1). x < p + length l1" unfolding openLevel_ptrs [OF l(1)] by simp_all
  show ?case
  proof (cases "rs = l1")
    case True
    then show ?thesis using ptr by (auto simp: l(3))
  next
    case False
    then show ?thesis using Cons.IH [OF l(2)] Cons.prems(2) by (simp add: l(3) add.assoc)
  qed
qed simp

lemma Engine_Open_ptrs:
  assumes "Engine_Open io opts d files mfile = (d', Ok e)" "i < length (e_levels e)"
  shows "distinct (map fst (e_levels e ! i)) \<and> (\<forall>r\<in>set (e_levels e ! i). fst r < e_nextptr e)"
proof -
  obtain lvls where "openLevels io files 0 lvls = Ok (e_levels e)" "e_nextptr e = Suc (length (concat (e_levels e)))"
    using assms(1) by (auto simp: Engine_Open_def Let_def split: if_splits res.splits prod.splits)
  then show ?thesis using openLevels_ptrs [of io files 0 lvls "e_levels e", OF _ nth_mem [OF assms(2)]] by auto
qed

lemma applyDefaults_idem [simp]: "applyDefaults (applyDefaults opts) = applyDefaults opts"
  by (simp add: applyDefaults_def)

lemma Engine_Open_ok:
  assumes wal: "dir_rep d segs" and mf: "OpenManifest mf_ok mfile (nat (MaxLevels (applyDefaults opts))) = Ok mf"
    and lv: "disk_levels files (mf_levels mf) rss"
  shows "\<exists>d' w e. Engine_Open (open_ok c) opts d files mfile = (d', Ok e) \<and> WAL_Open io_ok d 0 = (d', Ok w) \<and>
    e_opts e = applyDefaults opts \<and> e_wal e = w \<and> e_waldir e = d' \<and> e_files e = files \<and> immutableMems e = [] \<and>
    map (map snd) (e_levels e) = rss \<and> e_manifest e = mf \<and> flushCh e = [] \<and> nextFileNum e = maxFileNum (mf_levels mf) + 1 \<and>
    fst (e_memtable e) < e_nextptr e \<and> mem_inv (snd (e_memtable e)) \<and> \<not> frozen (snd (e_memtable e)) \<and>
    map_of (mem_entries (snd (e_memtable e))) = recs_map (concat (map snd segs)) \<and>
    (mem_entries (snd (e_memtable e)) = [] \<longrightarrow> snd (e_memtable e) = NewMemtable (MemtableSize (applyDefaults opts)))"
proof -
  obtain d' w where w: "WAL_Open io_ok d 0 = (d', Ok w)" by (auto simp: WAL_Open_def openFile_def io_ok_def Let_def)
  have d': "dir_rep d' (if segs = [] then [(1, [])] else segs)" by (rule WAL_Open_rep(1) [OF wal w])
  let ?m0 = "NewMemtable (MemtableSize (applyDefaults opts))"
  have rp: "WAL_Replay io_ok d' (replayRecord c) (0, ?m0) = fold_res (replayRecord c) (0, ?m0) (map norm_rec (concat (map snd segs)))"
    using WAL_Replay_rep [OF d', of io_ok "replayRecord c" "(0, ?m0)"] by (auto simp: io_ok_def)
  obtain i m where m: "fold_res (replayRecord c) (0, ?m0) (map norm_rec (concat (map snd segs))) = Ok (i, m)" "mem_inv m" "\<not> frozen m"
    "map_of (mem_entries m) = recs_map (concat (map snd segs))" "mem_entries m = [] \<longrightarrow> m = ?m0"
    using replay_memtable [of ?m0 c 0 "map norm_rec (concat (map snd segs))"] by (auto simp: recs_map_def)
  obtain l where l: "openLevels (open_ok c) files 0 (mf_levels mf) = Ok l" "map (map snd) l = rss" using openLevels_ok [OF lv] by blast
  have env: "oe_mkdir (open_ok c)" "oe_mf (open_ok c) = mf_ok" "oe_wal (open_ok c) = io_ok" "oe_coins (open_ok c) = c"
    by (simp_all add: open_ok_def)
  show ?thesis using w rp m l mf by (simp add: Engine_Open_def env Let_def GetAllLevels_def)
qed

subsection \<open>A fresh engine\<close>

lemma open_empty_manifest: "OpenManifest mf_ok [] n = Ok \<lparr>mf_file = [], mf_levels = replicate n []\<rparr>"
  using mf.replay_all [of "[]" "replicate n []"] by (simp add: OpenManifest_def mf_ok_def)

lemma Engine_Open_fresh:
  "\<exists>d e. Engine_Open (open_ok c) opts [] (\<lambda>_. None) [] = (d, Ok e) \<and> eng_inv e \<and> immutableMems e = [] \<and>
     (\<forall>k. engine_view e k = None) \<and> log_rep (e_waldir e) (e_wal e) [(1, [])]"
proof -
  let ?n = "nat (MaxLevels (applyDefaults opts))"
  have n: "0 < ?n" by (simp add: applyDefaults_def)
  have d0: "dir_rep [] []" by (simp add: dir_rep_def canonical_def)
  have lv: "disk_levels (\<lambda>_. None) (replicate ?n []) (replicate ?n [])"
    by (simp add: disk_levels_def list_all2_conv_all_nth)
  obtain d' w e where e: "Engine_Open (open_ok c) opts [] (\<lambda>_. None) [] = (d', Ok e)" "WAL_Open io_ok [] 0 = (d', Ok w)"
    "e_wal e = w" "e_waldir e = d'" "immutableMems e = []" "map (map snd) (e_levels e) = replicate ?n []"
    "e_manifest e = \<lparr>mf_file = [], mf_levels = replicate ?n []\<rparr>" "mem_inv (snd (e_memtable e))" "\<not> frozen (snd (e_memtable e))"
    "map_of (mem_entries (snd (e_memtable e))) = recs_map (concat (map snd ([] :: segments)))"
    using Engine_Open_ok [OF d0 open_empty_manifest, where opts = opts and files = "\<lambda>_. None" and rss = "replicate ?n []" and c = c] lv by auto
  have log: "log_rep d' w [(1, [])]" using WAL_Open_rep(3) [OF d0 e(2)] by simp
  have lvl: "e_levels e = replicate ?n []"
    using e(6) n by (auto simp: list_eq_iff_nth_eq)
  have "eng_inv e" using e n by (simp add: eng_inv_def lvl level_ok_def disjoint_ranges_def)
  moreover have "engine_view e k = None" for k
    using e(10) n by (simp add: engine_view_def e_mems_def e_tables_def e(5) lvl source_ents_def map_of_mem_ient recs_map_def fun_eq_iff)
  ultimately show ?thesis using e log by auto
qed

subsection \<open>Properties\<close>

text \<open>C15. Whatever fails during a batch write (any part of the log append, the rotation), the engine's
  invariant is kept, and afterwards \<open>Get\<close> answers every key as before when an error was reported,
  and when success was reported with the last value the batch has for the key, not found where that
  is a deletion, and as before for the keys not in the batch.\<close>

theorem engine_batch_read:
  assumes "eng_inv e" "length keys = length vs" "Engine_BatchPut io e keys vs = (e', r)"
  shows "eng_inv e' \<and> (\<forall>k. Engine_Get e' k =
    (if r = Ok () then (case map_of (rev (zip keys vs)) k of
        None \<Rightarrow> Engine_Get e k | Some None \<Rightarrow> Err ErrNotFound | Some (Some v) \<Rightarrow> Ok (Some v))
     else Engine_Get e k))"
proof -
  note b = Engine_BatchPut_view [OF assms]
  show ?thesis using b(1,3) b(2) [of k for k]
    by (auto simp: Engine_Get_view assms(1) answer_def split: option.splits)
qed

theorem engine_batch_read_witness:
  "\<exists>d e e'. Engine_Open (open_ok (\<lambda>_ _. False)) \<lparr>MemtableSize = 1, L0CompactTrigger = 0, MaxLevels = 2, BlockSize = 0\<rparr> [] (\<lambda>_. None) [] = (d, Ok e) \<and>
     Engine_BatchPut (write_ok (\<lambda>_ _. False)) e [[1], [2], [1]] [Some [10], None, Some [30]] = (e', Ok ()) \<and>
     Engine_Get e' [1] = Ok (Some [30]) \<and> Engine_Get e' [2] = Err ErrNotFound \<and> Engine_Get e' [3] = Err ErrNotFound"
proof -
  let ?o = "\<lparr>MemtableSize = 1, L0CompactTrigger = 0, MaxLevels = 2, BlockSize = 0\<rparr>"
  obtain d e where e: "Engine_Open (open_ok (\<lambda>_ _. False)) ?o [] (\<lambda>_. None) [] = (d, Ok e)" "eng_inv e" "\<forall>k. engine_view e k = None"
    "log_rep (e_waldir e) (e_wal e) [(1, [])]" using Engine_Open_fresh by blast
  let ?ks = "[[1], [2], [1]] :: bytes list" and ?vs = "[Some [10], None, Some [30]] :: bytes option list"
  obtain e' r where r: "Engine_BatchPut (write_ok (\<lambda>_ _. False)) e ?ks ?vs = (e', r)"
    by (cases "Engine_BatchPut (write_ok (\<lambda>_ _. False)) e ?ks ?vs")
  obtain d' w' err where a: "WAL_AppendBatch io_ok (e_waldir e) (e_wal e) (map batchRecord (zip ?ks ?vs)) = (d', w', err)" by (metis prod_cases3)
  have "list_all rec_ok (map batchRecord (zip ?ks ?vs))" by (simp add: batchRecord_def rec_ok_def val_bytes_def)
  then have "err = None" using WAL_AppendBatch_rep(3) [of _ _ "[]" 1 "[]", OF _ _ a] e(4) by (simp add: io_ok_def)
  then have ok: "r = Ok ()" using Engine_BatchPut_view(4) [OF e(2) _ r] a by (simp add: write_ok_def)
  have g: "Engine_Get e k = Err ErrNotFound" for k using Engine_Get_view [OF e(2), of k] e(3) by simp
  show ?thesis using engine_batch_read [OF e(2) _ r] e(1) r ok g by (intro exI [of _ d] exI [of _ e] exI [of _ e']) simp
qed

text \<open>A list of pairs is what a map has between two bounds.\<close>

definition pairs_as :: "(bytes \<Rightarrow> bytes option) \<Rightarrow> bytes \<Rightarrow> bytes \<Rightarrow> (bytes \<times> bytes) list \<Rightarrow> bool" where
  "pairs_as a lo hi ps \<longleftrightarrow> sorted_wrt (<) (map fst ps) \<and>
     view_as (\<lambda>k. if lo \<le> k \<and> k \<le> hi then a k else None) (map_of ps)"

definition kv_pair :: "KVPair \<Rightarrow> bytes \<times> bytes" where
  "kv_pair p = (kv_Key p, val_bytes (kv_Value p))"

lemma ReadRange_pairs:
  assumes "eng_inv e"
  shows "\<exists>kvs. ReadRange e lo hi = Some kvs \<and> sorted_wrt (<) (map kv_Key kvs) \<and>
    map_of (map kv_pair kvs) = (\<lambda>k. if lo \<le> k \<and> k \<le> hi then kv_view e k else None)"
proof -
  obtain kvs where r: "ReadRange e lo hi = Some kvs" and s: "sorted_wrt (<) (map kv_Key kvs)"
    and m: "\<And>k. map_of (map (\<lambda>p. (kv_Key p, kv_Value p)) kvs) k =
      (if lo \<le> k \<and> k \<le> hi then (case engine_view e k of Some (v, False) \<Rightarrow> Some (norm_value v) | _ \<Rightarrow> None) else None)"
    using ReadRange_view [OF assms, of lo hi] by blast
  have "map_of (map kv_pair kvs) k = map_option val_bytes (map_of (map (\<lambda>p. (kv_Key p, kv_Value p)) kvs) k)" for k
    by (induction kvs) (auto simp: kv_pair_def)
  then have "map_of (map kv_pair kvs) k = (if lo \<le> k \<and> k \<le> hi then kv_view e k else None)" for k
    by (auto simp: m kv_view_def user_value_def norm_value_def val_bytes_def split: option.splits bool.splits)
  then show ?thesis using r s by blast
qed

lemma ReadRange_reads:
  assumes "eng_inv e" "view_as a (kv_view e)"
  shows "\<exists>kvs. ReadRange e lo hi = Some kvs \<and> pairs_as a lo hi (map kv_pair kvs)"
proof -
  obtain kvs where r: "ReadRange e lo hi = Some kvs" "sorted_wrt (<) (map kv_Key kvs)"
    "map_of (map kv_pair kvs) = (\<lambda>k. if lo \<le> k \<and> k \<le> hi then kv_view e k else None)" using ReadRange_pairs [OF assms(1)] by blast
  have f: "map fst (map kv_pair kvs) = map kv_Key kvs" by (simp add: kv_pair_def comp_def)
  have "pairs_as a lo hi (map kv_pair kvs)" unfolding pairs_as_def f r(3) using r(2) assms(2) by (simp add: view_as_def)
  then show ?thesis using r(1) by blast
qed

text \<open>C16. A range read returns, in strictly increasing order, exactly the keys within the inclusive bounds whose newest entry,
  over the memtables and the tables from the newest to the oldest, is not a tombstone, each with the value
  of that entry. So it agrees with \<open>Get\<close>: a deleted or missing key is not listed and a value that \<open>Get\<close>
  returns is; only a key with an empty value, which \<open>Get\<close> does not find in a table, is listed although
  \<open>Get\<close> does not find it.\<close>

theorem engine_range_read:
  assumes "eng_inv e"
  shows "\<exists>kvs. ReadRange e lo hi = Some kvs \<and> sorted_wrt (<) (map kv_Key kvs) \<and>
    (\<forall>k v. (k, v) \<in> set (map kv_pair kvs) \<longleftrightarrow> lo \<le> k \<and> k \<le> hi \<and> (\<exists>w. engine_view e k = Some (w, False) \<and> v = val_bytes w)) \<and>
    (\<forall>k. Engine_Get e k = (case engine_view e k of Some (Some v, False) \<Rightarrow> Ok (Some v) | _ \<Rightarrow> Err ErrNotFound))"
proof -
  obtain kvs where r: "ReadRange e lo hi = Some kvs" "sorted_wrt (<) (map kv_Key kvs)"
    "map_of (map kv_pair kvs) = (\<lambda>k. if lo \<le> k \<and> k \<le> hi then kv_view e k else None)" using ReadRange_pairs [OF assms] by blast
  have f: "map fst (map kv_pair kvs) = map kv_Key kvs" by (simp add: kv_pair_def comp_def)
  then have "distinct (map fst (map kv_pair kvs))" using r(2) by (simp only: strict_sorted_iff)
  then have mem: "(k, v) \<in> set (map kv_pair kvs) \<longleftrightarrow> map_of (map kv_pair kvs) k = Some v" for k v by (simp only: map_of_eq_Some_iff)
  have "(k, v) \<in> set (map kv_pair kvs) \<longleftrightarrow> lo \<le> k \<and> k \<le> hi \<and> (\<exists>w. engine_view e k = Some (w, False) \<and> v = val_bytes w)" for k v
    unfolding mem r(3) by (auto simp: kv_view_def user_value_def split: option.splits bool.splits)
  moreover have "Engine_Get e k = (case engine_view e k of Some (Some v, False) \<Rightarrow> Ok (Some v) | _ \<Rightarrow> Err ErrNotFound)" for k
    by (auto simp: Engine_Get_view [OF assms] answer_def split: option.splits bool.splits)
  ultimately show ?thesis using r(1,2) by blast
qed

text \<open>An engine with a key, a deleted key and an empty value: the range has the first and the last.\<close>

theorem engine_range_read_witness:
  "\<exists>d e e' kvs. Engine_Open (open_ok (\<lambda>_ _. False)) \<lparr>MemtableSize = 1, L0CompactTrigger = 0, MaxLevels = 2, BlockSize = 0\<rparr> [] (\<lambda>_. None) [] = (d, Ok e) \<and>
     Engine_BatchPut (write_ok (\<lambda>_ _. False)) e [[1], [2], [3], [2], [5]] [Some [10], Some [20], Some [], None, Some [50]] = (e', Ok ()) \<and>
     ReadRange e' [1] [4] = Some kvs \<and> set (map kv_pair kvs) = {([1], [10]), ([3], [])}"
proof -
  obtain d e where e: "Engine_Open (open_ok (\<lambda>_ _. False)) \<lparr>MemtableSize = 1, L0CompactTrigger = 0, MaxLevels = 2, BlockSize = 0\<rparr> [] (\<lambda>_. None) [] = (d, Ok e)"
    "eng_inv e" "\<forall>k. engine_view e k = None" "log_rep (e_waldir e) (e_wal e) [(1, [])]" using Engine_Open_fresh by blast
  let ?ks = "[[1], [2], [3], [2], [5]] :: bytes list" and ?vs = "[Some [10], Some [20], Some [], None, Some [50]] :: bytes option list"
  obtain e' r where r: "Engine_BatchPut (write_ok (\<lambda>_ _. False)) e ?ks ?vs = (e', r)" by (metis prod.exhaust)
  obtain d' w' err where a: "WAL_AppendBatch io_ok (e_waldir e) (e_wal e) (map batchRecord (zip ?ks ?vs)) = (d', w', err)" by (metis prod_cases3)
  have "list_all rec_ok (map batchRecord (zip ?ks ?vs))" by (simp add: batchRecord_def rec_ok_def val_bytes_def)
  then have "err = None" using WAL_AppendBatch_rep(3) [of _ _ "[]" 1 "[]", OF _ _ a] e(4) by (simp add: io_ok_def)
  then have ok: "r = Ok ()" using Engine_BatchPut_view(4) [OF e(2) _ r] a by (simp add: write_ok_def)
  note b = Engine_BatchPut_view [OF e(2) _ r]
  have v: "engine_view e' k = (if k = [5] then Some (Some [50], False) else if k = [2] then Some (None, True) else if k = [3] then Some (Some [], False)
      else if k = [1] then Some (Some [10], False) else None)" for k
    using b(2) ok e(3) by simp
  obtain kvs where kvs: "ReadRange e' [1] [4] = Some kvs"
    "\<forall>k v. (k, v) \<in> set (map kv_pair kvs) \<longleftrightarrow> [1] \<le> k \<and> k \<le> [4] \<and> (\<exists>w. engine_view e' k = Some (w, False) \<and> v = val_bytes w)"
    using engine_range_read [OF b(1), of "[1]" "[4]"] by auto
  have "set (map kv_pair kvs) = {p. (fst p, snd p) \<in> set (map kv_pair kvs)}" by simp
  also have "\<dots> = {([1], [10]), ([3], [])}" unfolding kvs(2) [rule_format] v by (auto simp: val_bytes_def split: if_splits)
  finally have "set (map kv_pair kvs) = {([1], [10]), ([3], [])}" .
  then show ?thesis using e(1) r ok kvs(1) by blast
qed

text \<open>C32. Flushes out of order serve stale data. When an older memtable is still waiting in memory (its
  flush failed, or its task was dropped because the channel was full) and a newer one is flushed
  successfully, the newer value, now in a table, is hidden behind the older memtable: \<open>Get\<close> goes back
  to the overwritten value.\<close>

theorem engine_stale_read:
  assumes "eng_inv e" "immutableMems e = [(p2, m2), (p1, m1)]" "p1 \<noteq> p2" "mem_fits m2"
    and "map_of (mem_entries (snd (e_memtable e))) k = None"
    and "map_of (mem_entries m2) k = Some (Some new)" "map_of (mem_entries m1) k = Some (Some old)"
  shows "Engine_Get e k = Ok (Some new) \<and>
    (\<exists>e'. flushMemtable flush_ok e \<lparr>ft_mem = (p2, m2), ft_walID = i\<rparr> = Some e' \<and> Engine_Get e' k = Ok (Some old))"
proof -
  let ?t = "\<lparr>ft_mem = (p2, m2), ft_walID = i\<rparr>"
  have mi: "mem_inv (snd (ft_mem ?t))" "mem_fits (snd (ft_mem ?t))" using assms by (auto simp: eng_inv_def)
  have ne: "mem_entries (snd (ft_mem ?t)) \<noteq> []" using assms(6) by auto
  obtain e1 pr where b: "flushBuild flush_ok e ?t = Some (e1, FlushBuilt pr)" using flushBuild_ok [OF mi ne] by blast
  have inv1: "eng_inv e1" by (rule flushBuild_Built_inv(1) [OF assms(1) mi b])
  have s1: "immutableMems e1 = immutableMems e" "e_memtable e1 = e_memtable e"
    and rd: "reader_ok (snd pr)" "reader_entries (snd pr) = table_of (mem_entries m2)"
    using flushBuild_Built [OF mi b] by auto
  have inv2: "eng_inv (flushInstall e1 pr)" using flushInstall_view(1) [OF inv1 rd, unfolded s1] assms(2) by auto
  let ?e3 = "removeImmutable (flushInstall e1 pr) (p2, m2)"
  have s3: "immutableMems ?e3 = [(p1, m1)]" "e_memtable ?e3 = e_memtable e"
    using assms(2,3) by (simp_all add: removeImmutable_def flushInstall_def s1)
  define e' where "e' = signalCompaction (flushPurge flush_ok ?e3 ?t)"
  have f: "e_memtable e' = e_memtable ?e3" "immutableMems e' = immutableMems ?e3" "e_levels e' = e_levels ?e3"
    "mf_levels (e_manifest e') = mf_levels (e_manifest ?e3)" by (simp_all add: e'_def signalCompaction_def flushPurge_def)
  have "eng_inv e'" by (rule eng_same(1) [OF removeImmutable_keeps [OF inv2] f])
  moreover have "engine_view e' k = Some (Some old, False)"
    unfolding engine_view_def e_mems_def f s3 using assms(5,7) by (simp add: source_ents_def map_of_mem_ient)
  moreover have "engine_view e k = Some (Some new, False)"
    unfolding engine_view_def e_mems_def using assms(2,5,6) by (simp add: source_ents_def map_of_mem_ient)
  moreover have "flushMemtable flush_ok e ?t = Some e'" using b by (simp add: flushMemtable_def e'_def)
  ultimately show ?thesis using assms(1) by (simp add: Engine_Get_view answer_def)
qed

theorem engine_stale_read_witness:
  "\<exists>e e'. Engine_Get e [1] = Ok (Some [20]) \<and>
     flushMemtable flush_ok e \<lparr>ft_mem = hd (immutableMems e), ft_walID = 2\<rparr> = Some e' \<and> Engine_Get e' [1] = Ok (Some [10])"
proof -
  obtain m1 where m1: "Memtable_Put (\<lambda>_. False) (NewMemtable 0) [1] (Some [10]) = Ok m1" "mem_inv m1" "mem_entries m1 = [([1], Some [10])]"
    using mem.put_ok [of "NewMemtable 0" "\<lambda>_. False" "[1]" "Some [10]"] by (auto simp: Memtable_IsFrozen_def)
  obtain m2 where m2: "Memtable_Put (\<lambda>_. False) (NewMemtable 0) [1] (Some [20]) = Ok m2" "mem_inv m2" "mem_entries m2 = [([1], Some [20])]"
    using mem.put_ok [of "NewMemtable 0" "\<lambda>_. False" "[1]" "Some [20]"] by (auto simp: Memtable_IsFrozen_def)
  obtain d e0 where e0: "Engine_Open (open_ok (\<lambda>_ _. False)) \<lparr>MemtableSize = 1, L0CompactTrigger = 0, MaxLevels = 2, BlockSize = 0\<rparr> [] (\<lambda>_. None) [] = (d, Ok e0)"
    "eng_inv e0" using Engine_Open_fresh by blast
  let ?e = "e0\<lparr>e_memtable := (2, NewMemtable 0), immutableMems := [(1, m2), (0, m1)]\<rparr>"
  have "eng_inv ?e" using e0(2) m1 m2 by (simp add: eng_inv_def)
  then have "Engine_Get ?e [1] = Ok (Some [20]) \<and>
    (\<exists>e'. flushMemtable flush_ok ?e \<lparr>ft_mem = (1, m2), ft_walID = 2\<rparr> = Some e' \<and> Engine_Get e' [1] = Ok (Some [10]))"
    by (rule engine_stale_read [of ?e 1 m2 0 m1]) (use m1 m2 in \<open>simp_all add: mem_fits_def sst_bound_def entry_size_def mem_ient_def val_bytes_def\<close>)
  then show ?thesis by - (rule exI [of _ ?e], simp)
qed

end
