(* ===== verification/Compaction.thy ===== *)
theory Compaction
  imports Engine_Ops
begin

text \<open>
  \<open>engine/compaction.go\<close>: merging level 0 into level 1 and one table of a deeper level into the next.
  The outputs are written while the engine's lock is free and installed under it; here a compaction
  is the composition of these phases. \<open>None\<close> is a panic of the goroutine, which ends the process.

  The lemmas show what a compaction does to the levels, to the manifest and to the view: nothing a
  reader can see as long as no key is in two tables of level 0. \<open>Engine_Steps\<close> puts them in the step
  system of the engine; the properties at the end are the cases where the code loses data.
\<close>

subsection \<open>Sizes\<close>

definition l1TargetSize :: "64 word" where "l1TargetSize = 10 * 1024 * 1024"

definition targetFileSize :: int where "targetFileSize = 2 * 1024 * 1024"

text \<open>\<open>int64\<close> multiplication wraps around.\<close>

definition levelTargetSize :: "nat \<Rightarrow> 64 word" where
  "levelTargetSize level = fold (\<lambda>_ sz. sz * 10) [1..<level] l1TargetSize"

definition needsCompaction :: "Engine \<Rightarrow> nat \<Rightarrow> bool" where
  "needsCompaction e level =
     (if level = 0 then int (length (e_levels e ! 0)) \<ge> L0CompactTrigger (e_opts e)
      else sint (foldl (\<lambda>t m. t + fm_Size m) 0 (GetLevel (e_manifest e) (int level))) > sint (levelTargetSize level))"

subsection \<open>Choosing the inputs\<close>

text \<open>\<open>bytes.Equal\<close> does not tell a nil key from an empty one.\<close>

definition range_is :: "FileMetadata \<Rightarrow> rdptr \<Rightarrow> bool" where
  "range_is meta r \<longleftrightarrow> val_bytes (Reader_MinKey (snd r)) = fm_MinKey meta \<and> val_bytes (Reader_MaxKey (snd r)) = fm_MaxKey meta"

definition findOverlapping :: "Engine \<Rightarrow> nat \<Rightarrow> bytes option \<Rightarrow> bytes option \<Rightarrow> rdptr list \<times> FileMetadata list" where
  "findOverlapping e level minKey maxKey =
     (let found = List.map_filter (\<lambda>meta.
            if bytes_Compare (fm_MinKey meta) (val_bytes maxKey) > 0 \<or> bytes_Compare (fm_MaxKey meta) (val_bytes minKey) < 0 then None
            else map_option (\<lambda>r. (r, meta)) (find (range_is meta) (e_levels e ! level)))
          (GetLevel (e_manifest e) (int level))
      in (map fst found, map snd found))"

definition findMetaForReader :: "Engine \<Rightarrow> nat \<Rightarrow> rdptr \<Rightarrow> FileMetadata option" where
  "findMetaForReader e level r = find (\<lambda>meta. range_is meta r) (GetLevel (e_manifest e) (int level))"

text \<open>The key range of the tables of level 0.\<close>

definition widen :: "rdptr \<Rightarrow> bytes option \<times> bytes option \<Rightarrow> bytes option \<times> bytes option" where
  "widen r mm = (case mm of (minKey, maxKey) \<Rightarrow>
     if Reader_MinKey (snd r) = None then (minKey, maxKey)
     else (if minKey = None \<or> bytes_Compare (val_bytes (Reader_MinKey (snd r))) (val_bytes minKey) < 0 then Reader_MinKey (snd r) else minKey,
           if maxKey = None \<or> bytes_Compare (val_bytes (Reader_MaxKey (snd r))) (val_bytes maxKey) > 0 then Reader_MaxKey (snd r) else maxKey))"

definition l0Range :: "rdptr list \<Rightarrow> bytes option \<times> bytes option" where
  "l0Range rs = fold widen rs (None, None)"

subsection \<open>Writing the outputs\<close>

record cmp_env =
  co_table :: "nat \<Rightarrow> flush_env"
  co_mf :: "nat \<Rightarrow> mf_env"
  co_remove :: "nat \<Rightarrow> bool"

definition cmp_ok :: cmp_env where
  "cmp_ok = \<lparr>co_table = (\<lambda>_. flush_ok), co_mf = (\<lambda>_. mf_ok), co_remove = (\<lambda>_. True)\<rparr>"

text \<open>The variables of \<open>writeCompactionOutput\<close>: the engine, what is finished, the open table with its
  number, and the size written to it.\<close>

record cout =
  cu_eng :: Engine
  cu_metas :: "FileMetadata list"
  cu_readers :: "rdptr list"
  cu_writer :: "(64 word \<times> Writer) option"
  cu_size :: int

definition cu_env :: "cmp_env \<Rightarrow> cout \<Rightarrow> flush_env" where
  "cu_env io s = co_table io (length (cu_metas s))"

definition finishCurrent :: "cmp_env \<Rightarrow> int \<Rightarrow> cout \<Rightarrow> (cout \<times> string option) option" where
  "finishCurrent io level s =
     (case cu_writer s of
        None \<Rightarrow> Some (s, None)
      | Some (n, w) \<Rightarrow>
          let e = cu_eng s in
          if EntryCount w = 0 then
            Some (s\<lparr>cu_eng := e\<lparr>e_files := os_Remove (fe_remove (cu_env io s)) ((e_files e)(sstPath n \<mapsto> [])) (sstPath n)\<rparr>, cu_writer := None\<rparr>, None)
          else
            (case finishTable (cu_env io s) (e_files e) (sstPath n) n level w of
               (files, Panic) \<Rightarrow> None
             | (files, Err err) \<Rightarrow> Some (s\<lparr>cu_eng := e\<lparr>e_files := files\<rparr>\<rparr>, Some err)
             | (files, Ok (meta, r)) \<Rightarrow>
                 Some (s\<lparr>cu_eng := e\<lparr>e_files := files, e_nextptr := Suc (e_nextptr e)\<rparr>, cu_metas := cu_metas s @ [meta],
                         cu_readers := cu_readers s @ [(e_nextptr e, r)], cu_writer := None\<rparr>, None)))"

definition openCurrent :: "cmp_env \<Rightarrow> cout \<Rightarrow> cout \<times> (64 word \<times> Writer) res" where
  "openCurrent io s =
     (case cu_writer s of
        Some nw \<Rightarrow> (s, Ok nw)
      | None \<Rightarrow>
          (case allocFileNum (cu_eng s) of
             (n, e1) \<Rightarrow> (s\<lparr>cu_eng := e1, cu_size := 0\<rparr>,
               res_bind (NewWriter (fe_sst (cu_env io s)) (BlockSize (e_opts e1))) (\<lambda>w. Ok (n, w)))))"

partial_function (option) writeOutput :: "cmp_env \<Rightarrow> int \<Rightarrow> MergeIterator \<Rightarrow> cout \<Rightarrow> (cout \<times> string option) option" where
  "writeOutput io level mi s =
     (if \<not> MergeIterator_Valid mi then finishCurrent io level s
      else case openCurrent io s of
             (s1, Panic) \<Rightarrow> None
           | (s1, Err _) \<Rightarrow> Some (s1, Some ''engine: new sstable writer: '')
           | (s1, Ok (n, w)) \<Rightarrow>
               let k = MergeIterator_Key mi; v = MergeIterator_Value mi in
               (case Writer_Add (fe_sst (cu_env io s1)) w k v (MergeIterator_IsTombstone mi) of
                  Panic \<Rightarrow> None
                | Err _ \<Rightarrow> Some (s1\<lparr>cu_eng := (cu_eng s1)\<lparr>e_files := (e_files (cu_eng s1))(sstPath n \<mapsto> fe_left (cu_env io s1))\<rparr>\<rparr>,
                                Some ''engine: sstable add: '')
                | Ok w' \<Rightarrow>
                    let s2 = s1\<lparr>cu_writer := Some (n, w'), cu_size := cu_size s1 + int (length k + length (val_bytes v) + 9)\<rparr> in
                    (case MergeIterator_Next mi of
                       None \<Rightarrow> None
                     | Some mi' \<Rightarrow>
                         if cu_size s2 \<ge> targetFileSize then
                           (case finishCurrent io level s2 of
                              None \<Rightarrow> None
                            | Some (s3, err) \<Rightarrow> if err \<noteq> None then Some (s3, err) else writeOutput io level mi' s3)
                         else writeOutput io level mi' s2)))"

definition writeCompactionOutput :: "cmp_env \<Rightarrow> Engine \<Rightarrow> MergeIterator \<Rightarrow> int \<Rightarrow> (Engine \<times> (FileMetadata list \<times> rdptr list) res) option" where
  "writeCompactionOutput io e mi level =
     (case writeOutput io level mi \<lparr>cu_eng = e, cu_metas = [], cu_readers = [], cu_writer = None, cu_size = 0\<rparr> of
        None \<Rightarrow> None
      | Some (s, Some err) \<Rightarrow> Some (cu_eng s, Err err)
      | Some (s, None) \<Rightarrow> Some (cu_eng s, Ok (cu_metas s, cu_readers s)))"

subsection \<open>Installing the outputs\<close>

definition removeReaders :: "rdptr list \<Rightarrow> rdptr list \<Rightarrow> rdptr list" where
  "removeReaders src toRemove = filter (\<lambda>r. fst r \<notin> fst ` set toRemove) src"

fun removeMetas :: "(nat \<Rightarrow> mf_env) \<Rightarrow> Manifest \<Rightarrow> int \<Rightarrow> FileMetadata list \<Rightarrow> Manifest \<times> string option" where
  "removeMetas io m level [] = (m, None)"
| "removeMetas io m level (meta # metas) =
     (case RemoveFile (io 0) m (FileNum meta) level of
        (m', Some err) \<Rightarrow> (m', Some err)
      | (m', None) \<Rightarrow> removeMetas (\<lambda>i. io (Suc i)) m' level metas)"

fun addMetas :: "(nat \<Rightarrow> mf_env) \<Rightarrow> Manifest \<Rightarrow> FileMetadata list \<Rightarrow> Manifest \<times> string option" where
  "addMetas io m [] = (m, None)"
| "addMetas io m (meta # metas) =
     (case AddFile (io 0) m meta of
        (m', Some err) \<Rightarrow> (m', Some err)
      | (m', None) \<Rightarrow> addMetas (\<lambda>i. io (Suc i)) m' metas)"

fun removeFiles :: "(nat \<Rightarrow> bool) \<Rightarrow> (string \<Rightarrow> bytes option) \<Rightarrow> FileMetadata list \<Rightarrow> string \<Rightarrow> bytes option" where
  "removeFiles io files [] = files"
| "removeFiles io files (meta # metas) = removeFiles (\<lambda>i. io (Suc i)) (os_Remove (io 0) files (sstPath (FileNum meta))) metas"

text \<open>The manifest records of an installation, each one written and synced on its own: the removals
  first, then the additions.\<close>

definition installRecords :: "(nat \<Rightarrow> mf_env) \<Rightarrow> Manifest \<Rightarrow> nat \<Rightarrow> FileMetadata list \<Rightarrow> FileMetadata list \<Rightarrow> FileMetadata list \<Rightarrow> Manifest \<times> string option" where
  "installRecords io m level srcMetas targetMetas newMetas =
     (case removeMetas io m (int level) srcMetas of
        (m1, Some err) \<Rightarrow> (m1, Some err)
      | (m1, None) \<Rightarrow>
          (case removeMetas (\<lambda>i. io (length srcMetas + i)) m1 (int level + 1) targetMetas of
             (m2, Some err) \<Rightarrow> (m2, Some err)
           | (m2, None) \<Rightarrow> addMetas (\<lambda>i. io (length srcMetas + length targetMetas + i)) m2 newMetas))"

text \<open>The closed readers are no longer reachable from the engine.\<close>

definition compactInstall :: "cmp_env \<Rightarrow> Engine \<Rightarrow> nat \<Rightarrow> rdptr list \<times> FileMetadata list \<Rightarrow> rdptr list \<times> FileMetadata list \<Rightarrow>
    FileMetadata list \<times> rdptr list \<Rightarrow> (Engine \<times> string option) option" where
  "compactInstall io e level src target new =
     (case installRecords (co_mf io) (e_manifest e) level (snd src) (snd target) (fst new) of
        (m, Some err) \<Rightarrow> Some (e\<lparr>e_manifest := m\<rparr>, Some err)
      | (m, None) \<Rightarrow>
          if length (e_levels e) \<le> Suc level then None
          else Some (e\<lparr>e_manifest := m,
                       e_levels := (e_levels e)[level := removeReaders (e_levels e ! level) (fst src),
                                                Suc level := removeReaders (e_levels e ! Suc level) (fst target) @ snd new],
                       e_files := removeFiles (co_remove io) (e_files e) (snd src @ snd target)\<rparr>, None))"

subsection \<open>Compactions\<close>

text \<open>The iterators of level 0 are listed newest first, with the position in the level as priority.\<close>

definition compactL0_merge :: "rdptr list \<Rightarrow> rdptr list \<Rightarrow> MergeIterator option" where
  "compactL0_merge l0Readers l1Readers =
     NewMergeIterator (source_iters [] (map snd (rev l0Readers @ l1Readers)))
       (map int (rev [0..<length l0Readers]) @ map (\<lambda>i. int (length l0Readers + i)) [0..<length l1Readers])"

definition compactL0 :: "cmp_env \<Rightarrow> Engine \<Rightarrow> (Engine \<times> string option) option" where
  "compactL0 io e =
     (let l0Readers = e_levels e ! 0; l0Metas = GetLevel (e_manifest e) 0 in
      if l0Readers = [] then Some (e, None)
      else case l0Range l0Readers of (minKey, maxKey) \<Rightarrow>
           case findOverlapping e 1 minKey maxKey of (l1Readers, l1Metas) \<Rightarrow>
             (case compactL0_merge l0Readers l1Readers of
                None \<Rightarrow> None
              | Some mi0 \<Rightarrow>
                  (case MergeIterator_SeekToFirst mi0 of
                     None \<Rightarrow> None
                   | Some mi \<Rightarrow>
                       (case writeCompactionOutput io e mi 1 of
                          None \<Rightarrow> None
                        | Some (e1, Panic) \<Rightarrow> None
                        | Some (e1, Err err) \<Rightarrow> Some (e1, Some err)
                        | Some (e1, Ok new) \<Rightarrow> compactInstall io e1 0 (l0Readers, l0Metas) (l1Readers, l1Metas) new))))"

definition compactLevel :: "cmp_env \<Rightarrow> Engine \<Rightarrow> nat \<Rightarrow> (Engine \<times> string option) option" where
  "compactLevel io e level =
     (if level \<ge> length (e_levels e) then None
      else case e_levels e ! level of
        [] \<Rightarrow> Some (e, None)
      | srcReader # _ \<Rightarrow>
          (case findOverlapping e (Suc level) (Reader_MinKey (snd srcReader)) (Reader_MaxKey (snd srcReader)) of
             (targetReaders, targetMetas) \<Rightarrow>
               (case findMetaForReader e level srcReader of
                  None \<Rightarrow> Some (e, None)
                | Some srcMeta \<Rightarrow>
                    (case NewMergeIterator (source_iters [] (map snd (srcReader # targetReaders))) (map int [0..<Suc (length targetReaders)]) of
                       None \<Rightarrow> None
                     | Some mi0 \<Rightarrow>
                         (case MergeIterator_SeekToFirst mi0 of
                            None \<Rightarrow> None
                          | Some mi \<Rightarrow>
                              (case writeCompactionOutput io e mi (int (Suc level)) of
                                 None \<Rightarrow> None
                               | Some (e1, Panic) \<Rightarrow> None
                               | Some (e1, Err err) \<Rightarrow> Some (e1, Some err)
                               | Some (e1, Ok new) \<Rightarrow> compactInstall io e1 level ([srcReader], [srcMeta]) (targetReaders, targetMetas) new))))))"

fun compactLevels :: "(nat \<Rightarrow> cmp_env) \<Rightarrow> Engine \<Rightarrow> nat list \<Rightarrow> Engine option" where
  "compactLevels io e [] = Some e"
| "compactLevels io e (l # ls) =
     (if needsCompaction e l
      then (case compactLevel (io l) e l of None \<Rightarrow> None | Some (e', _) \<Rightarrow> compactLevels io e' ls)
      else compactLevels io e ls)"

definition runCompaction :: "(nat \<Rightarrow> cmp_env) \<Rightarrow> Engine \<Rightarrow> Engine option" where
  "runCompaction io e =
     (case (if int (length (e_levels e ! 0)) \<ge> L0CompactTrigger (e_opts e) then map_option fst (compactL0 (io 0) e) else Some e) of
        None \<Rightarrow> None
      | Some e1 \<Rightarrow> compactLevels io e1 [1..<nat (MaxLevels (e_opts e) - 1)])"

text \<open>One turn of the compaction goroutine.\<close>

definition compactionLoop :: "(nat \<Rightarrow> cmp_env) \<Rightarrow> Engine \<Rightarrow> Engine option" where
  "compactionLoop io e = (if compactCh e then runCompaction io (e\<lparr>compactCh := False\<rparr>) else Some e)"

subsection \<open>What the outputs hold\<close>

lemma write_all_append: "write_all io w (xs @ ys) = res_bind (write_all io w xs) (\<lambda>w'. write_all io w' ys)"
proof (induction xs arbitrary: w)
  case (Cons x xs)
  obtain k v t where x: "x = (k, v, t)" by (cases x)
  show ?case unfolding x using Cons.IH by (cases "Writer_Add io w k v t") simp_all
qed simp

text \<open>An open output table holding \<open>cur\<close>. The size the loop counts bounds the size of the file.\<close>

definition writing :: "cout \<Rightarrow> sst_entry list \<Rightarrow> bool" where
  "writing s cur \<longleftrightarrow> (case cu_writer s of
     None \<Rightarrow> cur = []
   | Some (n, w) \<Rightarrow> cur \<noteq> [] \<and> n < nextFileNum (cu_eng s) \<and> int (sst_bound cur) \<le> 7 * cu_size s + 150 \<and>
       (\<exists>w0. NewWriter sst_ok (BlockSize (e_opts (cu_eng s))) = Ok w0 \<and> write_all sst_ok w0 cur = Ok w))"

definition table_files :: "cmp_env \<Rightarrow> bool" where
  "table_files io \<longleftrightarrow> (\<forall>i. co_table io i = flush_ok)"

lemma cu_env_ok: "table_files io \<Longrightarrow> cu_env io s = flush_ok"
  by (simp add: cu_env_def table_files_def)

lemma finishTable_ok:
  assumes "NewWriter sst_ok bsz = Ok w0" "write_all sst_ok w0 es = Ok w" "sorted_wrt (<) (map fst es)" "sst_bound es < 2 ^ 32"
  shows "\<exists>content meta r. finishTable flush_ok files path n l w = (files(path \<mapsto> content), Ok (meta, r))"
proof -
  obtain content where c: "write_table sst_ok bsz es = Ok content" using write_table_succeeds [OF assms(4)] by blast
  then have "Writer_Finish sst_ok w = Ok content" using assms(1,2) by (simp add: write_table_def)
  moreover obtain r where "OpenReader rd_ok content = Ok r" using write_table_opens [OF c assms(3,4)] by blast
  ultimately show ?thesis by (auto simp: finishTable_def flush_ok_def Let_def)
qed

lemma NewWriter_ok: "\<exists>w0. NewWriter sst_ok bsz = Ok w0"
  using write_table_succeeds [of "[]" bsz] by (auto simp: sst_bound_def write_table_def res_bind_Ok_iff)

text \<open>A finished table and its metadata.\<close>

definition table_pair :: "(string \<Rightarrow> bytes option) \<Rightarrow> int \<Rightarrow> FileMetadata \<Rightarrow> rdptr \<Rightarrow> bool" where
  "table_pair files level meta r \<longleftrightarrow> meta_for meta r \<and> rd_wf (snd r) \<and> Level meta = level \<and> opens_as files meta (snd r)"

lemma finishCurrent_spec:
  assumes io: "table_files io" and wr: "writing s cur" "cu_writer s = Some (n, w)"
    and es: "sorted_wrt (<) (map fst cur)" "sst_bound cur < 2 ^ 32"
  shows "\<exists>content meta r. finishCurrent io level s =
      Some (s\<lparr>cu_eng := (cu_eng s)\<lparr>e_files := (e_files (cu_eng s))(sstPath n \<mapsto> content), e_nextptr := Suc (e_nextptr (cu_eng s))\<rparr>,
              cu_metas := cu_metas s @ [meta], cu_readers := cu_readers s @ [(e_nextptr (cu_eng s), r)], cu_writer := None\<rparr>, None) \<and>
    FileNum meta = n \<and> table_pair ((e_files (cu_eng s))(sstPath n \<mapsto> content)) level meta (e_nextptr (cu_eng s), r) \<and>
    reader_entries r = sst_ient (map rd_entry cur)"
proof -
  obtain w0 where w0: "NewWriter sst_ok (BlockSize (e_opts (cu_eng s))) = Ok w0" "write_all sst_ok w0 cur = Ok w" and ne: "cur \<noteq> []"
    using wr by (auto simp: writing_def)
  obtain content meta r where f: "finishTable flush_ok (e_files (cu_eng s)) (sstPath n) n level w =
      ((e_files (cu_eng s))(sstPath n \<mapsto> content), Ok (meta, r))" using finishTable_ok [OF w0 es] by blast
  have sst: "fe_sst flush_ok = sst_ok" by (simp add: flush_ok_def)
  note fs = finishTable_spec [OF w0 [folded sst] es f]
  obtain c' where "(e_files (cu_eng s))(sstPath n \<mapsto> content) = (e_files (cu_eng s))(sstPath n \<mapsto> c')" "OpenReader rd_ok c' = Ok r"
    using fs(1) by blast
  then have o: "OpenReader rd_ok content = Ok r" by (metis fun_upd_same option.inject)
  have wf: "rd_wf r" using fs(2,3) ne by (simp add: rd_wf_def sst_ient_def)
  have "table_pair ((e_files (cu_eng s))(sstPath n \<mapsto> content)) level meta (e_nextptr (cu_eng s), r)"
    using rd_wf_range [OF wf] fs(4-7) o wf by (auto simp: table_pair_def meta_for_def opens_as_def val_bytes_def)
  moreover have "entryCount w0 = 0" using w0(1) by (auto simp: NewWriter_def Let_def split: if_splits)
  then have "EntryCount w \<noteq> 0" using write_all_count [OF w0(2)] ne by (simp add: EntryCount_def)
  ultimately show ?thesis using wr(2) f fs(3,4) by (auto simp: finishCurrent_def cu_env_ok [OF io] Let_def)
qed

text \<open>What a run of the output loop adds to the finished tables: pairs of metadata and reader, under file
  numbers that are new (or the one of the table open at the start).\<close>

definition outputs :: "int \<Rightarrow> Engine \<Rightarrow> Engine \<Rightarrow> 64 word set \<Rightarrow> FileMetadata list \<Rightarrow> rdptr list \<Rightarrow> bool" where
  "outputs level e e' ns ms rs \<longleftrightarrow> list_all2 (table_pair (e_files e') level) ms rs \<and> distinct (map FileNum ms) \<and>
     (\<forall>m\<in>set ms. FileNum m \<in> ns \<or> nextFileNum e \<le> FileNum m \<and> FileNum m < nextFileNum e') \<and> nextFileNum e \<le> nextFileNum e' \<and>
     (\<forall>p. p \<notin> sstPath ` FileNum ` set ms \<longrightarrow> e_files e' p = e_files e p) \<and>
     map fst rs = [e_nextptr e..<e_nextptr e'] \<and> e_nextptr e \<le> e_nextptr e' \<and>
     e' = e\<lparr>e_files := e_files e', nextFileNum := nextFileNum e', e_nextptr := e_nextptr e'\<rparr>"

lemma outputs_Nil: "outputs level e e ns [] []"
  by (simp add: outputs_def)

lemma table_pair_other:
  "table_pair files level meta r \<Longrightarrow> files' (sstPath (FileNum meta)) = files (sstPath (FileNum meta)) \<Longrightarrow> table_pair files' level meta r"
  by (auto simp: table_pair_def opens_as_def)

lemma outputs_Cons:
  assumes t: "table_pair (e_files e1) level meta r" "FileNum meta = n" "n \<in> ns" "n < nextFileNum e"
    and e1: "e1 = e\<lparr>e_files := (e_files e)(sstPath n \<mapsto> content), e_nextptr := Suc (e_nextptr e)\<rparr>" "fst r = e_nextptr e"
    and o: "outputs level e1 e' {} ms rs"
  shows "outputs level e e' ns (meta # ms) (r # rs)"
proof -
  have fresh: "n \<notin> FileNum ` set ms" using o t(4) by (auto simp: outputs_def e1(1))
  then have "sstPath n \<notin> sstPath ` FileNum ` set ms" by auto
  then have "e_files e' (sstPath n) = e_files e1 (sstPath n)" using o by (simp add: outputs_def)
  then have "table_pair (e_files e') level meta r" using table_pair_other t(1,2) by simp
  moreover have "\<forall>p. p \<notin> sstPath ` FileNum ` set (meta # ms) \<longrightarrow> e_files e' p = e_files e p"
    using o t(2) by (auto simp: outputs_def e1(1))
  moreover have "[e_nextptr e..<e_nextptr e'] = e_nextptr e # map fst rs"
    using o by (simp add: outputs_def e1(1) upt_conv_Cons)
  moreover have "e' = e\<lparr>e_files := e_files e', nextFileNum := nextFileNum e', e_nextptr := e_nextptr e'\<rparr>"
    using o unfolding outputs_def e1(1) by (elim conjE) (erule trans, simp)
  ultimately show ?thesis using o fresh t(2,3) e1(2) by (auto simp: outputs_def e1(1))
qed

lemma outputs_start:
  assumes o: "outputs level (e\<lparr>nextFileNum := nextFileNum e + 1\<rparr>) e' {nextFileNum e} ms rs" and n: "nextFileNum e < nextFileNum e + 1"
  shows "outputs level e e' ns ms rs"
proof -
  have le: "nextFileNum e + 1 \<le> nextFileNum e'" using o by (simp add: outputs_def)
  have "e' = e\<lparr>e_files := e_files e', nextFileNum := nextFileNum e', e_nextptr := e_nextptr e'\<rparr>"
    using o unfolding outputs_def by (elim conjE) (erule trans, simp)
  moreover have "nextFileNum e \<le> x \<and> x < nextFileNum e'" if "x = nextFileNum e \<or> nextFileNum e + 1 \<le> x \<and> x < nextFileNum e'" for x
    using le n that by auto
  ultimately show ?thesis using o le n by (auto simp: outputs_def)
qed

definition open_num :: "cout \<Rightarrow> 64 word set" where
  "open_num s = (case cu_writer s of None \<Rightarrow> {} | Some (n, w) \<Rightarrow> {n})"

text \<open>The output loop, or the rest of it, ends without an error and has written \<open>es\<close>.\<close>

definition completes :: "int \<Rightarrow> cout \<Rightarrow> (cout \<times> string option) option \<Rightarrow> sst_entry list \<Rightarrow> bool" where
  "completes level s run es \<longleftrightarrow> (\<exists>s' ms rs. run = Some (s', None) \<and> cu_metas s' = cu_metas s @ ms \<and> cu_readers s' = cu_readers s @ rs \<and>
     outputs level (cu_eng s) (cu_eng s') (open_num s) ms rs \<and> concat (map (\<lambda>r. reader_entries (snd r)) rs) = sst_ient (map rd_entry es))"

lemma finish_completes:
  assumes io: "table_files io" and wr: "writing s cur" "cu_writer s = Some (n, w)"
    and es: "sorted_wrt (<) (map fst cur)" "sst_bound cur < 2 ^ 32"
    and cont: "\<And>s3. cu_writer s3 = None \<Longrightarrow> nextFileNum (cu_eng s3) = nextFileNum (cu_eng s) \<Longrightarrow> completes level s3 (K s3) es"
  shows "completes level s (case finishCurrent io level s of None \<Rightarrow> None | Some (s3, err) \<Rightarrow> if err \<noteq> None then Some (s3, err) else K s3) (cur @ es)"
proof -
  let ?e = "cu_eng s"
  obtain content meta r where f: "finishCurrent io level s =
      Some (s\<lparr>cu_eng := ?e\<lparr>e_files := (e_files ?e)(sstPath n \<mapsto> content), e_nextptr := Suc (e_nextptr ?e)\<rparr>,
              cu_metas := cu_metas s @ [meta], cu_readers := cu_readers s @ [(e_nextptr ?e, r)], cu_writer := None\<rparr>, None)"
    and t: "FileNum meta = n" "table_pair ((e_files ?e)(sstPath n \<mapsto> content)) level meta (e_nextptr ?e, r)" "reader_entries r = sst_ient (map rd_entry cur)"
    using finishCurrent_spec [OF io wr es] by blast
  define e1 where "e1 = ?e\<lparr>e_files := (e_files ?e)(sstPath n \<mapsto> content), e_nextptr := Suc (e_nextptr ?e)\<rparr>"
  define s3 where "s3 = s\<lparr>cu_eng := e1, cu_metas := cu_metas s @ [meta], cu_readers := cu_readers s @ [(e_nextptr ?e, r)], cu_writer := None\<rparr>"
  have s3: "cu_writer s3 = None" "nextFileNum (cu_eng s3) = nextFileNum ?e" "cu_eng s3 = e1" "open_num s3 = {}"
    by (simp_all add: s3_def e1_def open_num_def)
  obtain s' ms rs where k: "K s3 = Some (s', None)" "cu_metas s' = cu_metas s3 @ ms" "cu_readers s' = cu_readers s3 @ rs"
    "outputs level e1 (cu_eng s') {} ms rs" "concat (map (\<lambda>r. reader_entries (snd r)) rs) = sst_ient (map rd_entry es)"
    using cont [OF s3(1,2)] unfolding completes_def s3(3,4) by blast
  have n: "n < nextFileNum ?e" "n \<in> open_num s" using wr by (auto simp: writing_def open_num_def)
  have "outputs level ?e (cu_eng s') (open_num s) (meta # ms) ((e_nextptr ?e, r) # rs)"
    by (rule outputs_Cons [OF _ t(1) n(2,1) e1_def _ k(4)]) (simp_all add: t(2) e1_def)
  moreover have "finishCurrent io level s = Some (s3, None)" using f by (simp add: s3_def e1_def)
  ultimately show ?thesis using k t(3) unfolding completes_def
    by (intro exI [of _ s'] exI [of _ "meta # ms"] exI [of _ "(e_nextptr ?e, r) # rs"]) (simp add: s3_def sst_ient_def)
qed

lemma unat_Suc64: "unat (n :: 64 word) + 1 < 2 ^ 64 \<Longrightarrow> n < n + 1 \<and> unat (n + 1) = unat n + 1"
  by (simp add: word_less_nat_alt unat_word_ariths(1))

lemma openCurrent_spec:
  assumes io: "table_files io" and wr: "writing s cur" and n: "unat (nextFileNum (cu_eng s)) + 1 < 2 ^ 64"
  obtains s1 m w w0 where "openCurrent io s = (s1, Ok (m, w))" "NewWriter sst_ok (BlockSize (e_opts (cu_eng s1))) = Ok w0" "write_all sst_ok w0 cur = Ok w"
    "m < nextFileNum (cu_eng s1)" "cu_metas s1 = cu_metas s" "cu_readers s1 = cu_readers s"
    "unat (nextFileNum (cu_eng s1)) \<le> unat (nextFileNum (cu_eng s)) + 1" "int (sst_bound cur) \<le> 7 * cu_size s1 + 150"
    "cu_size s1 = (if cu_writer s = None then 0 else cu_size s)"
    "\<forall>level e' ms rs. outputs level (cu_eng s1) e' {m} ms rs \<longrightarrow> outputs level (cu_eng s) e' (open_num s) ms rs"
proof (cases "cu_writer s")
  case (Some nw)
  then obtain w0 where "NewWriter sst_ok (BlockSize (e_opts (cu_eng s))) = Ok w0" "write_all sst_ok w0 cur = Ok (snd nw)"
    "fst nw < nextFileNum (cu_eng s)" "int (sst_bound cur) \<le> 7 * cu_size s + 150" using wr by (auto simp: writing_def)
  then show ?thesis using Some by (intro that [of s "fst nw" "snd nw" w0]) (auto simp: openCurrent_def open_num_def split_beta)
next
  case None
  let ?e = "(cu_eng s)\<lparr>nextFileNum := nextFileNum (cu_eng s) + 1\<rparr>"
  obtain w0 where w0: "NewWriter sst_ok (BlockSize (e_opts ?e)) = Ok w0" using NewWriter_ok by blast
  have nn: "nextFileNum (cu_eng s) < nextFileNum (cu_eng s) + 1" "unat (nextFileNum (cu_eng s) + 1) = unat (nextFileNum (cu_eng s)) + 1"
    using unat_Suc64 [OF n] by blast+
  have "cur = []" using wr None by (simp add: writing_def)
  moreover have "fe_sst flush_ok = sst_ok" by (simp add: flush_ok_def)
  ultimately show ?thesis using None w0 nn outputs_start
    by (intro that [of "s\<lparr>cu_eng := ?e, cu_size := 0\<rparr>" "nextFileNum (cu_eng s)" w0 w0])
      (simp_all add: openCurrent_def allocFileNum_def cu_env_ok [OF io] sst_bound_def)
qed

lemma write_all_snoc:
  assumes "NewWriter sst_ok bsz = Ok w0" "write_all sst_ok w0 cur = Ok w" "sst_bound (cur @ [(k, v, t)]) < 2 ^ 32"
  shows "\<exists>w'. Writer_Add sst_ok w k v t = Ok w' \<and> write_all sst_ok w0 (cur @ [(k, v, t)]) = Ok w'"
  using write_table_succeeds [OF assms(3), of bsz] assms(1,2) by (auto simp: write_table_def write_all_append res_bind_Ok_iff)

lemma writeOutput_spec:
  assumes io: "table_files io"
  shows "mi_inv mi \<Longrightarrow> writing s cur \<Longrightarrow> sorted_wrt (<) (map fst (cur @ mi_rest mi)) \<Longrightarrow> \<forall>x\<in>set (mi_rest mi). entry_size x < 2 ^ 30 \<Longrightarrow>
    (cu_writer s \<noteq> None \<longrightarrow> cu_size s < targetFileSize) \<Longrightarrow> unat (nextFileNum (cu_eng s)) + length (mi_rest mi) < 2 ^ 64 \<Longrightarrow> completes level s (writeOutput io level mi s) (cur @ mi_rest mi)"
proof (induction "length (mi_rest mi)" arbitrary: mi s cur)
  case 0
  have r: "mi_rest mi = []" "writeOutput io level mi s = finishCurrent io level s"
    using 0(1) merge.valid [OF 0(2)] by (simp_all add: writeOutput.simps)
  show ?case
  proof (cases "cu_writer s")
    case None
    then show ?thesis using 0(3) outputs_Nil by (auto simp: r completes_def writing_def finishCurrent_def sst_ient_def)
  next
    case (Some nw)
    have f: "(case finishCurrent io level s of None \<Rightarrow> None | Some (s3, err) \<Rightarrow> if err \<noteq> None then Some (s3, err) else Some (s3, None)) =
        finishCurrent io level s" by (auto split: option.splits)
    have "completes level s3 (Some (s3, None)) []" for s3 using outputs_Nil by (auto simp: completes_def sst_ient_def)
    moreover have "sst_bound cur < 2 ^ 32" using 0(3,6) Some by (auto simp: writing_def targetFileSize_def)
    ultimately show ?thesis using finish_completes [OF io 0(3), where n = "fst nw" and w = "snd nw" and es = "[]" and K = "\<lambda>s3. Some (s3, None)" and level = level] 0(4) Some
      unfolding r f by simp
  qed
next
  case (Suc len)
  obtain k v t es where r: "mi_rest mi = (k, v, t) # es" using Suc.hyps(2) by (cases "mi_rest mi") auto
  note o = merge.obs [OF Suc.prems(1) r]
  obtain mi' where n: "MergeIterator_Next mi = Some mi'" "mi_inv mi'" "mi_rest mi' = es" using merge.nxt [OF Suc.prems(1)] r by auto
  have nf: "unat (nextFileNum (cu_eng s)) + 1 < 2 ^ 64" using Suc.prems(6) r by simp
  obtain s1 m w w0 where s1: "openCurrent io s = (s1, Ok (m, w))" "NewWriter sst_ok (BlockSize (e_opts (cu_eng s1))) = Ok w0" "write_all sst_ok w0 cur = Ok w"
    "m < nextFileNum (cu_eng s1)" "cu_metas s1 = cu_metas s" "cu_readers s1 = cu_readers s"
    "unat (nextFileNum (cu_eng s1)) \<le> unat (nextFileNum (cu_eng s)) + 1" "int (sst_bound cur) \<le> 7 * cu_size s1 + 150"
    "cu_size s1 = (if cu_writer s = None then 0 else cu_size s)"
    "\<forall>level e' ms rs. outputs level (cu_eng s1) e' {m} ms rs \<longrightarrow> outputs level (cu_eng s) e' (open_num s) ms rs"
    using openCurrent_spec [OF io Suc.prems(2) nf] .
  have spl: "cur @ mi_rest mi = (cur @ [(k, v, t)]) @ es" by (simp add: r)
  note srt = Suc.prems(3) [unfolded spl]
  have sz: "entry_size (k, v, t) = length k + length (val_bytes v) + 9" by (simp add: entry_size_def)
  have "cu_size s1 \<le> targetFileSize" using s1(9) Suc.prems(5) by (simp add: targetFileSize_def split: if_splits)
  then have bnd: "sst_bound (cur @ [(k, v, t)]) < 2 ^ 32" "int (sst_bound (cur @ [(k, v, t)])) \<le> 7 * (cu_size s1 + int (length k + length (val_bytes v) + 9)) + 150"
    using s1(8) Suc.prems(4) r sz by (simp_all add: sst_bound_def targetFileSize_def)
  obtain w' where w': "Writer_Add sst_ok w k v t = Ok w'" "write_all sst_ok w0 (cur @ [(k, v, t)]) = Ok w'"
    using write_all_snoc [OF s1(2,3) bnd(1)] by blast
  define s2 where "s2 = s1\<lparr>cu_writer := Some (m, w'), cu_size := cu_size s1 + int (length k + length (val_bytes v) + 9)\<rparr>"
  have wr2: "writing s2 (cur @ [(k, v, t)])" "cu_writer s2 = Some (m, w')" "open_num s2 = {m}" "cu_eng s2 = cu_eng s1"
    using s1(2,4) w' bnd(2) by (auto simp: s2_def writing_def open_num_def)
  have num: "unat (nextFileNum (cu_eng s1)) + length es < 2 ^ 64" using s1(7) Suc.prems(6) r by simp
  have len: "len = length (mi_rest mi')" using Suc.hyps(2) r n(3) by simp
  have cont: "completes level s3 (writeOutput io level mi' s3) es" if "cu_writer s3 = None" "nextFileNum (cu_eng s3) = nextFileNum (cu_eng s2)" for s3
    using Suc.hyps(1) [OF len n(2), of s3 "[]"] that num srt Suc.prems(4) wr2(4)
    by (simp add: n(3) r writing_def sorted_wrt_append)
  have step: "writeOutput io level mi s = (if cu_size s2 \<ge> targetFileSize
      then (case finishCurrent io level s2 of None \<Rightarrow> None | Some (s3, err) \<Rightarrow> if err \<noteq> None then Some (s3, err) else writeOutput io level mi' s3)
      else writeOutput io level mi' s2)"
    using merge.valid [OF Suc.prems(1)] r o s1(1) w'(1) n(1)
    by (subst writeOutput.simps) (simp add: cu_env_ok [OF io] flush_ok_def s2_def Let_def)
  have "completes level s2 (writeOutput io level mi s) (cur @ mi_rest mi)"
  proof (cases "cu_size s2 \<ge> targetFileSize")
    case True
    have "sorted_wrt (<) (map fst (cur @ [(k, v, t)]))" using srt by (simp add: sorted_wrt_append)
    from finish_completes [OF io wr2(1,2) this bnd(1) cont] True show ?thesis unfolding step spl by simp
  next
    case False
    then show ?thesis using Suc.hyps(1) [OF len n(2) wr2(1)] num srt Suc.prems(4) wr2(4) unfolding step spl by (simp add: n(3) r)
  qed
  then show ?case using s1(5,6,10) unfolding completes_def wr2(3,4) by (simp add: s2_def) blast
qed

subsection \<open>Reading back what was read\<close>

text \<open>What a reader decodes survives another round of writing and reading unchanged.\<close>

lemma decodeEntries_clean: "decodeEntries n d = Ok es \<Longrightarrow> map rd_entry (sst_ient es) = es"
proof (induction n arbitrary: d es)
  case (Suc n)
  define kl vl where "kl = unat (Uint32 (take 4 d))" and "vl = unat (Uint32 (take 4 (drop 4 d)))"
  define has where "has = (drop 8 d ! 0 = entryTypeValue \<and> vl > 0)"
  have l: "9 \<le> length d" using Suc.prems by (auto split: if_splits)
  then have d8: "drop 8 d ! 0 = d ! 8" by simp
  define d2 where "d2 = drop kl (drop 9 d)"
  obtain es' d3 where e: "decodeEntries n d3 = Ok es'" "has \<longrightarrow> vl \<le> length d2"
    "es = \<lparr>e_key = take kl (drop 9 d), e_value = (if has then Some (take vl d2) else None), e_tombstone = (d ! 8 = entryTypeTombstone)\<rparr> # es'"
    using Suc.prems l unfolding has_def d8 kl_def vl_def d2_def
    by (auto simp: Let_def res_bind_Ok_iff split: if_splits simp del: drop_drop)
  have "take vl d2 \<noteq> []" "d ! 8 \<noteq> entryTypeTombstone" if "has"
    using that e(2) d8 by (auto simp: has_def entryTypeValue_def entryTypeTombstone_def)
  then show ?case using Suc.IH [OF e(1)] unfolding e(3) sst_ient_def by (auto simp: rd_entry_def norm_value_def val_bytes_def)
qed (simp add: sst_ient_def)

lemma decodeBlock_clean: "decodeBlock r off bs = Ok es \<Longrightarrow> map rd_entry (sst_ient es) = es"
  using decodeEntries_clean by (auto simp: decodeBlock_def res_bind_Ok_iff Let_def split: if_splits)

lemma sst_ient_append [simp]: "sst_ient (xs @ ys) = sst_ient xs @ sst_ient ys"
  by (simp add: sst_ient_def)

definition clean :: "sst_entry \<Rightarrow> bool" where
  "clean x \<longleftrightarrow> sst_ient [rd_entry x] = [x]"

lemma clean_list: "\<forall>x\<in>set es. clean x \<Longrightarrow> sst_ient (map rd_entry es) = es"
  by (induction es) (auto simp: clean_def sst_ient_def)

lemma reader_clean:
  assumes "x \<in> set (reader_entries r)" shows "clean x"
proof -
  obtain B e where B: "B \<in> set (reader_blocks r)" "e \<in> set B" and x: "x = (e_key e, e_value e, e_tombstone e)"
    using assms by (auto simp: reader_entries_def sst_ient_def)
  obtain ie :: indexEntry where "B = (case decodeBlock r (ie_offset ie) (ie_blockSize ie) of Ok es \<Rightarrow> es | _ \<Rightarrow> [])"
    using B(1) unfolding reader_blocks_def set_map by blast
  then obtain es where es: "decodeBlock r (ie_offset ie) (ie_blockSize ie) = Ok es" "e \<in> set es" using B(2) by (cases "decodeBlock r (ie_offset ie) (ie_blockSize ie)") auto
  have "rd_entry (e_key e', e_value e', e_tombstone e') = e'" if "e' \<in> set es" for e'
    using decodeBlock_clean [OF es(1)] that unfolding sst_ient_def map_map comp_def by (metis (mono_tags, lifting) map_eq_conv list.map_ident)
  then show ?thesis using es(2) by (simp add: clean_def sst_ient_def x)
qed

lemma map_of_concat: "map_of (concat xss) k = stack_view xss k"
  by (induction xss) (auto simp: map_add_def split: option.splits)

lemma stack_view_clean:
  assumes "stack_view (map reader_entries rs) k = Some x" shows "clean (k, x)"
proof -
  have "map_of (concat (map reader_entries rs)) k = Some x" using assms by (simp add: map_of_concat)
  then have "(k, x) \<in> set (concat (map reader_entries rs))" by (rule map_of_SomeD)
  then obtain r where "(k, x) \<in> set (reader_entries r)" by auto
  then show ?thesis by (rule reader_clean)
qed

subsection \<open>The records of an installation\<close>

fun mf_try :: "(nat \<Rightarrow> mf_env) \<Rightarrow> Manifest \<Rightarrow> manifest_op list \<Rightarrow> Manifest \<times> string option" where
  "mf_try io m [] = (m, None)"
| "mf_try io m (p # ps) =
     (case mf_run (io 0) m p of (m', Some err) \<Rightarrow> (m', Some err) | (m', None) \<Rightarrow> mf_try (\<lambda>i. io (Suc i)) m' ps)"

lemma mf_try_append:
  "mf_try io m (ps @ qs) = (case mf_try io m ps of (m', Some err) \<Rightarrow> (m', Some err) | (m', None) \<Rightarrow> mf_try (\<lambda>i. io (length ps + i)) m' qs)"
  by (induction ps arbitrary: io m) (auto split: prod.splits option.splits)

definition install_ops :: "nat \<Rightarrow> FileMetadata list \<Rightarrow> FileMetadata list \<Rightarrow> FileMetadata list \<Rightarrow> manifest_op list" where
  "install_ops level sms tms nms = map (\<lambda>x. Remove_op (FileNum x) (int level)) sms @
     map (\<lambda>x. Remove_op (FileNum x) (int level + 1)) tms @ map Add_op nms"

lemma removeMetas_try: "removeMetas io m l ms = mf_try io m (map (\<lambda>x. Remove_op (FileNum x) l) ms)"
  by (induction ms arbitrary: io m) (auto simp: mf_run_def split: prod.splits option.splits)

lemma addMetas_try: "addMetas io m ms = mf_try io m (map Add_op ms)"
  by (induction ms arbitrary: io m) (auto simp: mf_run_def split: prod.splits option.splits)

lemma installRecords_try: "installRecords io m level sms tms nms = mf_try io m (install_ops level sms tms nms)"
  by (simp add: installRecords_def install_ops_def removeMetas_try addMetas_try mf_try_append add.assoc split: prod.splits option.splits)

lemma mf_try_ok: "\<forall>i. io i = mf_ok \<Longrightarrow> mf_try io m ps = (mf_runs m ps, None)"
proof (induction ps arbitrary: io m)
  case (Cons p ps)
  obtain m' err where r: "mf_run mf_ok m p = (m', err)" by (cases "mf_run mf_ok m p")
  then show ?case using mf_run_spec(4) [OF r] Cons by simp
qed simp

lemma mf_runs_levels: "mf_levels (mf_runs m ps) = foldl applyRecord (mf_levels m) (map op_record ps)"
proof (induction ps arbitrary: m)
  case (Cons p ps)
  obtain m' err where r: "mf_run mf_ok m p = (m', err)" by (cases "mf_run mf_ok m p")
  then have "mf_levels m' = applyRecord (mf_levels m) (op_record p)" using mf_run_spec(2,4) [OF r] by simp
  then show ?case using Cons.IH r by simp
qed simp

lemma removeFileNum_filter: "distinct (map FileNum fs) \<Longrightarrow> removeFileNum n fs = filter (\<lambda>f. FileNum f \<noteq> n) fs"
proof (induction fs)
  case (Cons f fs)
  have "fs = filter (\<lambda>f'. FileNum f' \<noteq> FileNum f) fs" using Cons.prems by (intro filter_True [symmetric]) (auto simp: rev_image_eqI)
  then show ?case using Cons by auto
qed simp

lemma distinct_map_filter': "distinct (map f xs) \<Longrightarrow> distinct (map f (filter P xs))"
  by (induction xs) auto

lemma remove_records:
  assumes "l < length lv" "distinct (map FileNum (lv ! l))"
  shows "foldl applyRecord lv (map (\<lambda>x. op_record (Remove_op (FileNum x) (int l))) ms) = lv[l := filter (\<lambda>f. FileNum f \<notin> FileNum ` set ms) (lv ! l)]"
  using assms
proof (induction ms arbitrary: lv)
  case (Cons x ms)
  let ?lv = "lv[l := filter (\<lambda>f. FileNum f \<noteq> FileNum x) (lv ! l)]"
  have a: "applyRecord lv (op_record (Remove_op (FileNum x) (int l))) = ?lv"
    using Cons.prems by (simp add: applyRecord_def op_record_def removeFileNum_filter recordAddFile_def recordRemoveFile_def Let_def)
  show ?case using Cons.IH [of ?lv] Cons.prems by (simp add: a distinct_map_filter' conj_commute)
qed simp

lemma add_records:
  assumes "l < length lv" "\<forall>m\<in>set ms. Level m = int l"
  shows "foldl applyRecord lv (map (\<lambda>x. op_record (Add_op x)) ms) = lv[l := lv ! l @ ms]"
  using assms
proof (induction ms arbitrary: lv)
  case (Cons x ms)
  let ?lv = "lv[l := lv ! l @ [x]]"
  have x: "\<lparr>FileNum = FileNum x, Level = int l, fm_Size = fm_Size x, fm_MinKey = fm_MinKey x, fm_MaxKey = fm_MaxKey x\<rparr> = x"
    using Cons.prems by (cases x) simp
  have a: "applyRecord lv (op_record (Add_op x)) = ?lv"
    using Cons.prems unfolding applyRecord_def op_record_def by (simp add: recordAddFile_def Let_def x)
  show ?case using Cons.IH [of ?lv] Cons.prems by (simp add: a)
qed simp

lemma install_levels:
  assumes "Suc l < length (mf_levels m)" "distinct (map FileNum (mf_levels m ! l))" "distinct (map FileNum (mf_levels m ! Suc l))"
    and "\<forall>x\<in>set nms. Level x = int (Suc l)"
  shows "mf_levels (mf_runs m (install_ops l sms tms nms)) =
    (mf_levels m)[l := filter (\<lambda>f. FileNum f \<notin> FileNum ` set sms) (mf_levels m ! l),
      Suc l := filter (\<lambda>f. FileNum f \<notin> FileNum ` set tms) (mf_levels m ! Suc l) @ nms]"
proof -
  have s: "int l + 1 = int (Suc l)" by simp
  show ?thesis using assms unfolding mf_runs_levels install_ops_def map_append foldl_append map_map comp_def s
    by (simp add: remove_records add_records del: of_nat_Suc)
qed

subsection \<open>Levels as lists of pairs\<close>

text \<open>A level pairs the metadata of the manifest with the readers of the engine.\<close>

type_synonym table = "FileMetadata \<times> rdptr"

definition apart :: "FileMetadata \<Rightarrow> FileMetadata \<Rightarrow> bool" where
  "apart m m' \<longleftrightarrow> fm_MaxKey m < fm_MinKey m' \<or> fm_MaxKey m' < fm_MinKey m"

definition tables_ok :: "table list \<Rightarrow> bool" where
  "tables_ok ps \<longleftrightarrow> (\<forall>p\<in>set ps. meta_for (fst p) (snd p) \<and> rd_wf (snd (snd p))) \<and> sorted_wrt (\<lambda>p p'. apart (fst p) (fst p')) ps"

lemma disjoint_ranges_sorted: "disjoint_ranges ms \<longleftrightarrow> sorted_wrt apart ms"
proof
  show "disjoint_ranges ms \<Longrightarrow> sorted_wrt apart ms" by (auto simp: disjoint_ranges_def sorted_wrt_iff_nth_less apart_def)
next
  assume s: "sorted_wrt apart ms"
  show "disjoint_ranges ms" unfolding disjoint_ranges_def
  proof (intro allI impI)
    fix i j assume ij: "i < length ms" "j < length ms" "i \<noteq> j"
    then consider "i < j" | "j < i" by linarith
    then show "fm_MaxKey (ms ! i) < fm_MinKey (ms ! j) \<or> fm_MaxKey (ms ! j) < fm_MinKey (ms ! i)"
      by cases (use s ij in \<open>auto simp: sorted_wrt_iff_nth_less apart_def\<close>)
  qed
qed

lemma level_ok_tables: "level_ok (map fst ps) (map snd ps) \<longleftrightarrow> tables_ok ps"
  by (auto simp: level_ok_def tables_ok_def disjoint_ranges_sorted sorted_wrt_map list.rel_map list.rel_refl_strong list_all2_same)

lemma level_ok_zip: "level_ok ms rs \<Longrightarrow> tables_ok (zip ms rs) \<and> map fst (zip ms rs) = ms \<and> map snd (zip ms rs) = rs"
proof -
  assume l: "level_ok ms rs"
  then have "length ms = length rs" by (auto simp: level_ok_def dest: list_all2_lengthD)
  then show ?thesis using l level_ok_tables [of "zip ms rs"] by simp
qed

lemma tables_ok_filter: "tables_ok ps \<Longrightarrow> tables_ok (filter Q ps)"
  by (auto simp: tables_ok_def sorted_wrt_filter)

lemma filter_out:
  assumes "distinct (map g ps)" shows "filter (\<lambda>p. g p \<notin> g ` set (filter Q ps)) ps = filter (\<lambda>p. \<not> Q p) ps"
proof (rule filter_cong [OF refl])
  fix p assume "p \<in> set ps"
  then show "g p \<notin> g ` set (filter Q ps) \<longleftrightarrow> \<not> Q p" using assms by (auto simp: distinct_map inj_on_def)
qed

lemma removed_metas:
  assumes "distinct (map (\<lambda>p. FileNum (fst p)) ps)"
  shows "filter (\<lambda>f. FileNum f \<notin> FileNum ` set (map fst (filter Q ps))) (map fst ps) = map fst (filter (\<lambda>p. \<not> Q p) ps)"
  using filter_out [OF assms, of Q] by (simp add: filter_map comp_def image_image)

lemma removed_readers:
  assumes "distinct (map (\<lambda>p. fst (snd p)) ps)"
  shows "removeReaders (map snd ps) (map snd (filter Q ps)) = map snd (filter (\<lambda>p. \<not> Q p) ps)"
  using filter_out [OF assms, of Q] by (simp add: removeReaders_def filter_map comp_def image_image)

subsection \<open>Overlapping tables\<close>

definition overlaps :: "bytes \<Rightarrow> bytes \<Rightarrow> table \<Rightarrow> bool" where
  "overlaps lo hi p \<longleftrightarrow> fm_MinKey (fst p) \<le> hi \<and> lo \<le> fm_MaxKey (fst p)"

lemma rd_wf_ends:
  assumes "rd_wf r"
  shows "\<exists>lo hi. Reader_MinKey r = Some lo \<and> Reader_MaxKey r = Some hi \<and> lo \<in> fst ` set (reader_entries r) \<and> hi \<in> fst ` set (reader_entries r) \<and> lo \<le> hi"
proof -
  let ?es = "concat (reader_blocks r)"
  have rep: "reader_rep r (reader_blocks r)" and ne: "?es \<noteq> []"
    using assms by (auto simp: rd_wf_def reader_ok_def reader_entries_def sst_ient_def)
  have keys: "fst ` set (reader_entries r) = e_key ` set ?es" by (simp add: reader_entries_def sst_ient_def image_image)
  have "hd ?es \<in> set ?es" "last ?es \<in> set ?es" using ne by (simp_all del: set_concat)
  moreover have "reader_blocks r \<noteq> []" using ne by auto
  ultimately show ?thesis using rd_wf_range [OF assms] rep unfolding keys reader_rep_def Reader_MinKey_def Reader_MaxKey_def
    by (metis image_eqI option.inject)
qed

lemma table_entry_range:
  assumes "meta_for (fst p) (snd p)" "rd_wf (snd (snd p))" "k \<in> fst ` set (reader_entries (snd (snd p)))"
  shows "fm_MinKey (fst p) \<le> k \<and> k \<le> fm_MaxKey (fst p)"
proof -
  have "map_of (reader_entries (snd (snd p))) k \<noteq> None" using assms(3) by (metis map_of_eq_None_iff)
  then show ?thesis using entries_covered [OF assms(2)] assms(1) by (auto simp: covers_def meta_for_def)
qed

lemma find_range:
  assumes t: "tables_ok ps" and p: "p \<in> set ps"
  shows "find (range_is (fst p)) (map snd ps) = Some (snd p)" "find (\<lambda>meta. range_is meta (snd p)) (map fst ps) = Some (fst p)"
proof -
  have mf: "meta_for (fst q) (snd q) \<and> fm_MinKey (fst q) \<le> fm_MaxKey (fst q)" if "q \<in> set ps" for q
    using t that rd_wf_ends [of "snd (snd q)"] by (auto simp: tables_ok_def meta_for_def)
  have r: "range_is (fst q) (snd q')" "fm_MinKey (fst q) = fm_MinKey (fst q')" if "q \<in> set ps" "q' \<in> set ps" "range_is (fst q) (snd q') \<or> q = q'" for q q'
    using mf [OF that(1)] mf [OF that(2)] that(3) by (auto simp: range_is_def meta_for_def val_bytes_def)
  have u: "\<not> range_is (fst q) (snd q')" if "q \<in> set ps" "q' \<in> set ps" "apart (fst q) (fst q')" for q q'
    using mf [OF that(1)] mf [OF that(2)] that(3) by (auto simp: range_is_def meta_for_def val_bytes_def apart_def)
  obtain xs ys where ps: "ps = xs @ p # ys" using p by (metis split_list)
  have ap: "\<forall>x\<in>set xs. apart (fst x) (fst p)" "\<forall>x\<in>set xs. apart (fst p) (fst x)"
    using t by (auto simp: tables_ok_def ps sorted_wrt_append apart_def)
  have "find (range_is (fst p)) (map snd xs) = None" "find (\<lambda>meta. range_is meta (snd p)) (map fst xs) = None"
    using u ap p ps by (auto simp: find_None_iff)
  moreover have "range_is (fst p) (snd p)" using r(1) p by blast
  ultimately show "find (range_is (fst p)) (map snd ps) = Some (snd p)" "find (\<lambda>meta. range_is meta (snd p)) (map fst ps) = Some (fst p)"
    unfolding ps by (simp_all add: find_append)
qed

lemma map_filter_zip:
  assumes "\<And>p. p \<in> set ps \<Longrightarrow> f (fst p) = (if Q p then Some (snd p, fst p) else None)"
  shows "List.map_filter f (map fst ps) = map (\<lambda>p. (snd p, fst p)) (filter Q ps)"
  using assms by (induction ps) (auto simp: List.map_filter_def)

lemma findOverlapping_spec:
  assumes "l < length (mf_levels (e_manifest e))" "mf_levels (e_manifest e) ! l = map fst ps" "e_levels e ! l = map snd ps" "tables_ok ps"
  shows "findOverlapping e l (Some lo) (Some hi) = (map snd (filter (overlaps lo hi) ps), map fst (filter (overlaps lo hi) ps))"
proof -
  let ?f = "\<lambda>meta. if bytes_Compare (fm_MinKey meta) (val_bytes (Some hi)) > 0 \<or> bytes_Compare (fm_MaxKey meta) (val_bytes (Some lo)) < 0 then None
            else map_option (\<lambda>r. (r, meta)) (find (range_is meta) (e_levels e ! l))"
  have "List.map_filter ?f (map fst ps) = map (\<lambda>p. (snd p, fst p)) (filter (overlaps lo hi) ps)"
    by (rule map_filter_zip) (use assms(3) find_range(1) [OF assms(4)] in \<open>auto simp: overlaps_def val_bytes_def\<close>)
  then show ?thesis using assms(1,2) by (simp add: findOverlapping_def GetLevel_def Let_def comp_def)
qed

text \<open>Outputs cut from one sorted run do not overlap.\<close>

lemma outputs_tables:
  assumes "list_all2 (table_pair files level) nms nrs" "sorted_wrt (<) (map fst (concat (map (\<lambda>r. reader_entries (snd r)) nrs)))"
  shows "tables_ok (zip nms nrs)"
  using assms
proof (induction nms nrs rule: list_all2_induct)
  case (Cons m ms r rs)
  have t: "tables_ok (zip ms rs)" using Cons by (simp add: sorted_wrt_append)
  have mr: "meta_for m r" "rd_wf (snd r)" using Cons.hyps by (auto simp: table_pair_def)
  have "apart m (fst q)" if q: "q \<in> set (zip ms rs)" for q
  proof -
    have q': "meta_for (fst q) (snd q)" "rd_wf (snd (snd q))" using t q by (auto simp: tables_ok_def)
    obtain hi where hi: "Reader_MaxKey (snd r) = Some hi" "hi \<in> fst ` set (reader_entries (snd r))" using rd_wf_ends [OF mr(2)] by blast
    obtain lo where lo: "Reader_MinKey (snd (snd q)) = Some lo" "lo \<in> fst ` set (reader_entries (snd (snd q)))" using rd_wf_ends [OF q'(2)] by blast
    have "snd q \<in> set rs" using q by (metis prod.collapse set_zip_rightD)
    then have "hi < lo" using Cons.prems hi(2) lo(2) by (force simp: sorted_wrt_append)
    then show ?thesis using mr(1) q'(1) hi lo by (simp add: apart_def meta_for_def)
  qed
  then show ?case using t mr by (simp add: tables_ok_def)
qed (simp add: tables_ok_def)

text \<open>The tables of the target level that do not overlap the source range stay apart from the outputs,
  whose keys come from the source range and from the overlapping tables.\<close>

lemma kept_apart:
  assumes ps: "tables_ok ps" and p: "p \<in> set ps" "\<not> overlaps lo hi p"
    and q: "meta_for (fst q) (snd q)" "rd_wf (snd (snd q))"
    and keys: "\<And>k. k \<in> fst ` set (reader_entries (snd (snd q))) \<Longrightarrow>
      (lo \<le> k \<and> k \<le> hi) \<or> (\<exists>p'\<in>set ps. overlaps lo hi p' \<and> k \<in> fst ` set (reader_entries (snd (snd p'))))"
    and lohi: "lo \<le> hi"
  shows "apart (fst p) (fst q)"
proof -
  have mm: "fm_MinKey (fst p') \<le> fm_MaxKey (fst p')" if "p' \<in> set ps" for p'
    using ps that rd_wf_ends [of "snd (snd p')"] by (auto simp: tables_ok_def meta_for_def)
  have side: "(fm_MaxKey (fst p) < lo \<longrightarrow> fm_MaxKey (fst p) < k) \<and> (hi < fm_MinKey (fst p) \<longrightarrow> k < fm_MinKey (fst p))"
    if k: "k \<in> fst ` set (reader_entries (snd (snd q)))" for k
    using keys [OF k]
  proof
    assume "\<exists>p'\<in>set ps. overlaps lo hi p' \<and> k \<in> fst ` set (reader_entries (snd (snd p')))"
    then obtain p' where p': "p' \<in> set ps" "overlaps lo hi p'" "k \<in> fst ` set (reader_entries (snd (snd p')))" by blast
    have r: "fm_MinKey (fst p') \<le> k" "k \<le> fm_MaxKey (fst p')"
      using table_entry_range [of p' k] ps p'(1,3) by (auto simp: tables_ok_def)
    have "apart (fst p) (fst p') \<or> apart (fst p') (fst p)"
    proof -
      have "p \<noteq> p'" using p(2) p'(2) by blast
      then show ?thesis using ps p(1) p'(1) unfolding tables_ok_def sorted_wrt_iff_nth_less in_set_conv_nth by (metis linorder_neqE_nat)
    qed
    then show ?thesis using r p'(2) mm [OF p(1)] mm [OF p'(1)] unfolding apart_def overlaps_def
      by (intro conjI impI; elim disjE conjE; order)
  qed (use lohi in auto)
  obtain mn mx where m: "Reader_MinKey (snd (snd q)) = Some mn" "Reader_MaxKey (snd (snd q)) = Some mx"
    "mn \<in> fst ` set (reader_entries (snd (snd q)))" "mx \<in> fst ` set (reader_entries (snd (snd q)))" using rd_wf_ends [OF q(2)] by blast
  then show ?thesis using side [OF m(3)] side [OF m(4)] p(2) q(1) by (auto simp: apart_def overlaps_def meta_for_def not_le)
qed

text \<open>The target level after an installation.\<close>

lemma target_tables:
  assumes ps: "tables_ok ps" and new: "tables_ok qs" and lohi: "lo \<le> hi"
    and keys: "\<And>q k. q \<in> set qs \<Longrightarrow> k \<in> fst ` set (reader_entries (snd (snd q))) \<Longrightarrow>
      (lo \<le> k \<and> k \<le> hi) \<or> (\<exists>p'\<in>set ps. overlaps lo hi p' \<and> k \<in> fst ` set (reader_entries (snd (snd p'))))"
  shows "tables_ok (filter (\<lambda>p. \<not> overlaps lo hi p) ps @ qs)"
  using tables_ok_filter [OF ps] new kept_apart [OF ps _ _ _ _ keys lohi]
  by (auto simp: tables_ok_def sorted_wrt_append)

text \<open>At most one table of a level has a key, so their order does not matter.\<close>

lemma tables_lookup:
  assumes "tables_ok ps" "p \<in> set ps" "map_of (reader_entries (snd (snd p))) k = Some x"
  shows "stack_view (map (\<lambda>p. reader_entries (snd (snd p))) ps) k = Some x"
    and "\<And>p'. p' \<in> set ps \<Longrightarrow> map_of (reader_entries (snd (snd p'))) k \<noteq> None \<Longrightarrow> p' = p"
proof -
  show u: "p' = p" if "p' \<in> set ps" "map_of (reader_entries (snd (snd p'))) k \<noteq> None" for p'
  proof (rule ccontr)
    assume ne: "p' \<noteq> p"
    have r: "fm_MinKey (fst q) \<le> k \<and> k \<le> fm_MaxKey (fst q)" if "q \<in> set ps" "map_of (reader_entries (snd (snd q))) k \<noteq> None" for q
      using table_entry_range [of q k] assms(1) that by (auto simp: tables_ok_def map_of_eq_None_iff)
    have "apart (fst p) (fst p') \<or> apart (fst p') (fst p)"
      using ne assms(1,2) that(1) unfolding tables_ok_def sorted_wrt_iff_nth_less in_set_conv_nth by (metis linorder_neqE_nat)
    then show False using r [OF assms(2)] r [OF that] assms(3) by (auto simp: apart_def)
  qed
  show "stack_view (map (\<lambda>p. reader_entries (snd (snd p))) ps) k = Some x"
    using first_some_unique [OF assms(2), of "\<lambda>p. map_of (reader_entries (snd (snd p))) k"] u assms(3)
    by (simp add: stack_view_def comp_def)
qed

subsection \<open>Installing\<close>

text \<open>The tables on disk: those of the engine, and those the manifest has and the engine not yet.\<close>

definition disk_tables :: "Engine \<Rightarrow> Reader list \<Rightarrow> Reader list list" where
  "disk_tables e extra = (map (map snd) (e_levels e))[0 := map snd (e_levels e ! 0) @ extra]"

definition disk_ok :: "Engine \<Rightarrow> Reader list \<Rightarrow> bool" where
  "disk_ok e extra \<longleftrightarrow> (\<exists>rs. manifest_is (e_manifest e) (length (e_levels e)) rs) \<and>
     disk_levels (e_files e) (mf_levels (e_manifest e)) (disk_tables e extra) \<and>
     (\<forall>meta\<in>set (concat (mf_levels (e_manifest e))). FileNum meta < nextFileNum e) \<and>
     nat (MaxLevels (e_opts e)) = length (e_levels e) \<and> applyDefaults (e_opts e) = e_opts e"

text \<open>File numbers name one table of the whole manifest, pointers one reader of a level.\<close>

definition ids_ok :: "Engine \<Rightarrow> bool" where
  "ids_ok e \<longleftrightarrow> (\<forall>i < length (e_levels e). distinct (map FileNum (mf_levels (e_manifest e) ! i)) \<and> distinct (map fst (e_levels e ! i)) \<and>
       (\<forall>r\<in>set (e_levels e ! i). fst r < e_nextptr e)) \<and>
     (\<forall>i < length (e_levels e). \<forall>j < length (e_levels e). i \<noteq> j \<longrightarrow>
       FileNum ` set (mf_levels (e_manifest e) ! i) \<inter> FileNum ` set (mf_levels (e_manifest e) ! j) = {})"

text \<open>The engine after an installation: the source level keeps \<open>keepm\<close> and \<open>keepr\<close>, the target level
  has the tables \<open>qs\<close>.\<close>

definition installed :: "Engine \<Rightarrow> Engine \<Rightarrow> nat \<Rightarrow> FileMetadata list \<Rightarrow> rdptr list \<Rightarrow> table list \<Rightarrow> bool" where
  "installed e e' l keepm keepr qs \<longleftrightarrow>
     e_levels e' = (e_levels e)[l := keepr, Suc l := map snd qs] \<and>
     mf_levels (e_manifest e') = (mf_levels (e_manifest e))[l := keepm, Suc l := map fst qs] \<and>
     e_memtable e' = e_memtable e \<and> immutableMems e' = immutableMems e"

lemma installed_inv:
  assumes inv: "eng_inv e" and l: "Suc l < length (e_levels e)" and i: "installed e e' l keepm keepr qs" and qs: "tables_ok qs"
    and src: "l = 0 \<Longrightarrow> set keepr \<subseteq> set (e_levels e ! 0)" "0 < l \<Longrightarrow> level_ok keepm keepr"
  shows "eng_inv e'"
proof -
  have len: "length (mf_levels (e_manifest e)) = length (e_levels e)" using inv by (simp add: eng_inv_def)
  have lv: "level_ok (mf_levels (e_manifest e') ! i) (e_levels e' ! i)" if "1 \<le> i" "i < length (e_levels e)" for i
  proof (cases "i = l \<or> i = Suc l")
    case True
    then show ?thesis using i l len src(2) qs that by (auto simp: installed_def level_ok_tables nth_list_update)
  next
    case False
    then show ?thesis using inv i that by (simp add: eng_inv_def installed_def)
  qed
  have "\<forall>r\<in>set (e_levels e' ! 0). reader_ok (snd r)"
    using inv i l src(1) by (cases l) (auto simp: eng_inv_def installed_def)
  then show ?thesis using inv i l lv by (auto simp: eng_inv_def installed_def)
qed

text \<open>The tables a reader visits, level by level.\<close>

lemma stack_view_mid: "stack_view ys k = stack_view ys' k \<Longrightarrow> stack_view (xs @ ys @ zs) k = stack_view (xs @ ys' @ zs) k"
  by (simp only: stack_view_simps(3))

lemma levels_view_cong:
  assumes l: "1 \<le> l" "Suc l < n" and same: "\<And>i. i \<noteq> l \<Longrightarrow> i \<noteq> Suc l \<Longrightarrow> f' i = f i"
    and two: "stack_view (f' l @ f' (Suc l)) k = stack_view (f l @ f (Suc l)) k"
  shows "stack_view (concat (map f' [1..<n])) k = stack_view (concat (map f [1..<n])) k"
proof -
  have sp: "[1..<n] = [1..<l] @ l # Suc l # [Suc (Suc l)..<n]"
    using l upt_add_eq_append [of 1 l "n - l"] by (simp add: upt_conv_Cons)
  have eq: "map f' [1..<l] = map f [1..<l]" "map f' [Suc (Suc l)..<n] = map f [Suc (Suc l)..<n]" using same by auto
  have c: "concat (map f' [1..<n]) = concat (map f [1..<l]) @ (f' l @ f' (Suc l)) @ concat (map f [Suc (Suc l)..<n])"
    "concat (map f [1..<n]) = concat (map f [1..<l]) @ (f l @ f (Suc l)) @ concat (map f [Suc (Suc l)..<n])"
    by (simp_all only: sp eq map_append list.map concat_append concat.simps append_assoc)
  show ?thesis unfolding c by (rule stack_view_mid [OF two])
qed

definition level_tables :: "Engine \<Rightarrow> nat \<Rightarrow> sst_entry list list" where
  "level_tables e l = map (\<lambda>r. reader_entries (snd r)) (e_levels e ! l)"

lemma tables_view_levels:
  assumes "e_levels e \<noteq> []"
  shows "tables_view e k = stack_view (rev (level_tables e 0) @ concat (map (level_tables e) [1..<length (e_levels e)])) k"
  unfolding tables_view_def e_tables_levels [OF assms]
  by (simp add: rev_map level_tables_def [abs_def] comp_def)

lemma installed_view:
  assumes l: "Suc l < length (e_levels e)" and i: "installed e e' l keepm keepr qs"
    and two: "stack_view ((if l = 0 then rev (map (\<lambda>r. reader_entries (snd r)) keepr) else map (\<lambda>r. reader_entries (snd r)) keepr) @
        map (\<lambda>q. reader_entries (snd (snd q))) qs) k =
      stack_view ((if l = 0 then rev (level_tables e 0) else level_tables e l) @ level_tables e (Suc l)) k"
  shows "tables_view e' k = tables_view e k"
proof -
  have ne: "e_levels e \<noteq> []" "e_levels e' \<noteq> []" "length (e_levels e') = length (e_levels e)"
    using l i by (auto simp: installed_def)
  have same: "level_tables e' j = level_tables e j" if "j \<noteq> l" "j \<noteq> Suc l" for j using i that by (simp add: installed_def level_tables_def)
  have new: "level_tables e' l = map (\<lambda>r. reader_entries (snd r)) keepr" "level_tables e' (Suc l) = map (\<lambda>q. reader_entries (snd (snd q))) qs"
    using i l by (simp_all add: installed_def level_tables_def comp_def)
  have "stack_view (rev (level_tables e' 0) @ concat (map (level_tables e') [1..<length (e_levels e)])) k =
    stack_view (rev (level_tables e 0) @ concat (map (level_tables e) [1..<length (e_levels e)])) k"
  proof (cases l)
    case 0
    have sp: "[1..<length (e_levels e)] = 1 # [Suc (Suc 0)..<length (e_levels e)]" using l 0 by (simp add: upt_conv_Cons)
    have eq: "map (level_tables e') [Suc (Suc 0)..<length (e_levels e)] = map (level_tables e) [Suc (Suc 0)..<length (e_levels e)]" using same 0 by auto
    have "stack_view (rev (level_tables e' 0) @ level_tables e' 1) k = stack_view (rev (level_tables e 0) @ level_tables e 1) k"
      using two new unfolding 0 by simp
    from stack_view_mid [OF this, of "[]"] show ?thesis by (simp only: sp eq list.map concat.simps append_assoc append_Nil)
  next
    case (Suc l')
    then have "stack_view (concat (map (level_tables e') [1..<length (e_levels e)])) k = stack_view (concat (map (level_tables e) [1..<length (e_levels e)])) k"
      using two new by (intro levels_view_cong [OF _ l same]) simp_all
    moreover have "level_tables e' 0 = level_tables e 0" using same [of 0] Suc by simp
    ultimately show ?thesis by (simp only: stack_view_simps(3))
  qed
  then show ?thesis unfolding tables_view_levels [OF ne(1)] tables_view_levels [OF ne(2)] ne(3) .
qed

text \<open>The view of the target level: the source's entries are in front of what was there.\<close>

lemma target_view:
  assumes ps: "tables_ok ps" and sr: "\<And>x. S = Some x \<Longrightarrow> lo \<le> k \<and> k \<le> hi"
    and new: "stack_view (map (\<lambda>q. reader_entries (snd (snd q))) qs) k =
      (case S of Some x \<Rightarrow> Some x | None \<Rightarrow> stack_view (map (\<lambda>p. reader_entries (snd (snd p))) (filter (overlaps lo hi) ps)) k)"
  shows "stack_view (map (\<lambda>q. reader_entries (snd (snd q))) (filter (\<lambda>p. \<not> overlaps lo hi p) ps @ qs)) k =
    (case S of Some x \<Rightarrow> Some x | None \<Rightarrow> stack_view (map (\<lambda>p. reader_entries (snd (snd p))) ps) k)"
proof (cases S)
  case (Some x)
  have "map_of (reader_entries (snd (snd p))) k = None" if p: "p \<in> set ps" "\<not> overlaps lo hi p" for p
  proof (rule ccontr)
    assume "map_of (reader_entries (snd (snd p))) k \<noteq> None"
    then have "fm_MinKey (fst p) \<le> k \<and> k \<le> fm_MaxKey (fst p)"
      using table_entry_range [of p k] ps p(1) by (auto simp: tables_ok_def map_of_eq_None_iff)
    then show False using sr [OF Some] p(2) by (auto simp: overlaps_def)
  qed
  then have "stack_view (map (\<lambda>q. reader_entries (snd (snd q))) (filter (\<lambda>p. \<not> overlaps lo hi p) ps)) k = None"
    by (auto simp: stack_view_None)
  then show ?thesis using new Some by simp
next
  case None
  show ?thesis
  proof (cases "\<exists>p\<in>set ps. map_of (reader_entries (snd (snd p))) k \<noteq> None")
    case False
    then have "\<forall>p\<in>set ps. map_of (reader_entries (snd (snd p))) k = None" by blast
    then have "stack_view (map (\<lambda>q. reader_entries (snd (snd q))) (filter Q ps)) k = None" "stack_view (map (\<lambda>q. reader_entries (snd (snd q))) ps) k = None" for Q
      by (auto simp: stack_view_None)
    then show ?thesis using new None by simp
  next
    case True
    then obtain p x where p: "p \<in> set ps" "map_of (reader_entries (snd (snd p))) k = Some x" by auto
    note all = tables_lookup [OF ps p]
    show ?thesis
    proof (cases "overlaps lo hi p")
      case True
      have "stack_view (map (\<lambda>p. reader_entries (snd (snd p))) (filter (overlaps lo hi) ps)) k = Some x"
        using tables_lookup(1) [OF tables_ok_filter [OF ps], of p] p True by simp
      moreover have "stack_view (map (\<lambda>p. reader_entries (snd (snd p))) (filter (\<lambda>p. \<not> overlaps lo hi p) ps)) k = None"
        unfolding stack_view_None set_map set_filter using all(2) True by blast
      ultimately show ?thesis using new None all(1) by simp
    next
      case False
      have "stack_view (map (\<lambda>p. reader_entries (snd (snd p))) (filter (\<lambda>p. \<not> overlaps lo hi p) ps)) k = Some x"
        using tables_lookup(1) [OF tables_ok_filter [OF ps], of p] p False by simp
      then show ?thesis using None all(1) by simp
    qed
  qed
qed

lemma removeFiles_other: "p \<notin> sstPath ` FileNum ` set ms \<Longrightarrow> removeFiles io files ms p = files p"
  by (induction ms arbitrary: io files) (auto simp: os_Remove_def)

text \<open>One compaction: \<open>sms\<close> and \<open>srs\<close> leave level \<open>l\<close>, which keeps \<open>keepm\<close> and \<open>keepr\<close>, the
  overlapping tables of \<open>tp\<close> leave level \<open>Suc l\<close>, and \<open>nms\<close> and \<open>nrs\<close> come in.\<close>

definition gone :: "bytes \<times> bytes \<Rightarrow> table list \<Rightarrow> table list" where
  "gone rng tp = filter (overlaps (fst rng) (snd rng)) tp"

definition stay :: "bytes \<times> bytes \<Rightarrow> table list \<Rightarrow> table list" where
  "stay rng tp = filter (\<lambda>p. \<not> overlaps (fst rng) (snd rng) p) tp"

definition install_from :: "Engine \<Rightarrow> Engine \<Rightarrow> nat \<Rightarrow> FileMetadata list \<Rightarrow> rdptr list \<Rightarrow> FileMetadata list \<Rightarrow> rdptr list \<Rightarrow> table list \<Rightarrow>
    FileMetadata list \<Rightarrow> rdptr list \<Rightarrow> bool" where
  "install_from e e1 l sms srs keepm keepr tp nms nrs \<longleftrightarrow>
     eng_inv e \<and> ids_ok e \<and> Suc l < length (e_levels e) \<and> outputs (int (Suc l)) e e1 {} nms nrs \<and>
     tables_ok tp \<and> mf_levels (e_manifest e) ! Suc l = map fst tp \<and> e_levels e ! Suc l = map snd tp \<and>
     set sms \<subseteq> set (mf_levels (e_manifest e) ! l) \<and> filter (\<lambda>f. FileNum f \<notin> FileNum ` set sms) (mf_levels (e_manifest e) ! l) = keepm \<and>
     removeReaders (e_levels e ! l) srs = keepr"

lemma outputs_same:
  assumes "outputs level e e1 ns nms nrs"
  shows "e_levels e1 = e_levels e" "e_manifest e1 = e_manifest e" "e_memtable e1 = e_memtable e" "immutableMems e1 = immutableMems e"
    "e_opts e1 = e_opts e" "e_waldir e1 = e_waldir e" "e_wal e1 = e_wal e" "flushCh e1 = flushCh e"
proof -
  obtain a b c where "e1 = e\<lparr>e_files := a, nextFileNum := b, e_nextptr := c\<rparr>" using assms unfolding outputs_def by blast
  then show "e_levels e1 = e_levels e" "e_manifest e1 = e_manifest e" "e_memtable e1 = e_memtable e" "immutableMems e1 = immutableMems e"
    "e_opts e1 = e_opts e" "e_waldir e1 = e_waldir e" "e_wal e1 = e_wal e" "flushCh e1 = flushCh e" by simp_all
qed

lemma new_pairs:
  assumes "outputs level e e1 ns nms nrs"
  shows "length nms = length nrs" "\<And>m. m \<in> set nms \<Longrightarrow> Level m = level"
proof -
  have l2: "list_all2 (table_pair (e_files e1) level) nms nrs" using assms by (simp add: outputs_def)
  then show "length nms = length nrs" by (rule list_all2_lengthD)
  show "\<And>m. m \<in> set nms \<Longrightarrow> Level m = level" using l2 by (auto simp: list_all2_conv_all_nth in_set_conv_nth table_pair_def)
qed

lemma install_nums:
  assumes "install_from e e1 l sms srs keepm keepr tp nms nrs"
  shows "filter (\<lambda>f. FileNum f \<notin> FileNum ` set (map fst (gone rng tp))) (map fst tp) = map fst (stay rng tp)"
    "removeReaders (map snd tp) (map snd (gone rng tp)) = map snd (stay rng tp)"
proof -
  have "distinct (map (\<lambda>p. FileNum (fst p)) tp)" "distinct (map (\<lambda>p. fst (snd p)) tp)"
    using assms by (auto simp: install_from_def ids_ok_def comp_def)
  then show "filter (\<lambda>f. FileNum f \<notin> FileNum ` set (map fst (gone rng tp))) (map fst tp) = map fst (stay rng tp)"
    "removeReaders (map snd tp) (map snd (gone rng tp)) = map snd (stay rng tp)"
    by (simp_all only: gone_def stay_def removed_metas removed_readers)
qed

lemma compactInstall_spec:
  assumes fr: "install_from e e1 l sms srs keepm keepr tp nms nrs" and io: "\<And>i. co_mf io i = mf_ok"
  obtains e2 where "compactInstall io e1 l (srs, sms) (map snd (gone rng tp), map fst (gone rng tp)) (nms, nrs) = Some (e2, None)"
    "e2 = e1\<lparr>e_manifest := mf_runs (e_manifest e) (install_ops l sms (map fst (gone rng tp)) nms),
       e_levels := (e_levels e)[l := keepr, Suc l := map snd (stay rng tp @ zip nms nrs)],
       e_files := removeFiles (co_remove io) (e_files e1) (sms @ map fst (gone rng tp))\<rparr>"
    "installed e e2 l keepm keepr (stay rng tp @ zip nms nrs)"
proof -
  let ?m = "mf_runs (e_manifest e) (install_ops l sms (map fst (gone rng tp)) nms)"
  let ?e2 = "e1\<lparr>e_manifest := ?m, e_levels := (e_levels e)[l := keepr, Suc l := map snd (stay rng tp @ zip nms nrs)],
       e_files := removeFiles (co_remove io) (e_files e1) (sms @ map fst (gone rng tp))\<rparr>"
  have out: "outputs (int (Suc l)) e e1 {} nms nrs" and l: "Suc l < length (e_levels e)" "length (mf_levels (e_manifest e)) = length (e_levels e)"
    and tp: "mf_levels (e_manifest e) ! Suc l = map fst tp" "e_levels e ! Suc l = map snd tp"
    and src: "filter (\<lambda>f. FileNum f \<notin> FileNum ` set sms) (mf_levels (e_manifest e) ! l) = keepm" "removeReaders (e_levels e ! l) srs = keepr"
    using fr by (auto simp: install_from_def eng_inv_def)
  note same = outputs_same [OF out] and np = new_pairs [OF out] and nums = install_nums [OF fr, of rng]
  have run: "compactInstall io e1 l (srs, sms) (map snd (gone rng tp), map fst (gone rng tp)) (nms, nrs) = Some (?e2, None)"
    using l(1) src(2) tp(2) nums(2) np(1) by (simp add: compactInstall_def installRecords_try mf_try_ok io same)
  have "mf_levels ?m = (mf_levels (e_manifest e))[l := filter (\<lambda>f. FileNum f \<notin> FileNum ` set sms) (mf_levels (e_manifest e) ! l),
      Suc l := filter (\<lambda>f. FileNum f \<notin> FileNum ` set (map fst (gone rng tp))) (mf_levels (e_manifest e) ! Suc l) @ nms]"
    by (rule install_levels) (use fr l np(2) in \<open>auto simp: install_from_def ids_ok_def\<close>)
  then have "mf_levels ?m = (mf_levels (e_manifest e))[l := keepm, Suc l := map fst (stay rng tp @ zip nms nrs)]"
    using nums(1) src(1) tp(1) np(1) by simp
  then show ?thesis using run same by (intro that [of ?e2]) (simp_all add: installed_def)
qed

text \<open>Tables that stay keep their files.\<close>

lemma install_stays:
  assumes fr: "install_from e e1 l sms srs keepm keepr tp nms nrs" and i: "i < length (e_levels e)"
    and inst: "installed e e2 l keepm keepr (stay rng tp @ zip nms nrs)" and m: "m \<in> set (mf_levels (e_manifest e2) ! i)" "m \<notin> set nms"
  shows "m \<in> set (mf_levels (e_manifest e) ! i)" "FileNum m \<notin> FileNum ` set (sms @ map fst (gone rng tp))"
proof -
  have l: "Suc l < length (e_levels e)" "length (mf_levels (e_manifest e)) = length (e_levels e)" and tp: "mf_levels (e_manifest e) ! Suc l = map fst tp"
    and sms: "set sms \<subseteq> set (mf_levels (e_manifest e) ! l)" "keepm = filter (\<lambda>f. FileNum f \<notin> FileNum ` set sms) (mf_levels (e_manifest e) ! l)"
    using fr by (auto simp: install_from_def eng_inv_def)
  have lv: "mf_levels (e_manifest e2) ! i = (if i = Suc l then map fst (stay rng tp @ zip nms nrs) else if i = l then keepm else mf_levels (e_manifest e) ! i)"
    using inst l i by (simp add: installed_def nth_list_update)
  have st: "m \<in> set (map fst (stay rng tp))" if "i = Suc l" using m that unfolding lv by (auto dest: set_zip_leftD)
  show m': "m \<in> set (mf_levels (e_manifest e) ! i)"
  proof (cases "i = Suc l")
    case True
    then show ?thesis using st tp by (auto simp: stay_def)
  next
    case False
    then show ?thesis using m(1) sms(2) unfolding lv by (auto split: if_splits)
  qed
  have cross: "FileNum m \<notin> FileNum ` set (mf_levels (e_manifest e) ! j)" if "j \<noteq> i" "j < length (e_levels e)" for j
    using fr m' i that unfolding install_from_def ids_ok_def by blast
  have "FileNum m \<notin> FileNum ` set sms"
  proof (cases "i = l")
    case True
    then show ?thesis using m sms(2) unfolding lv by simp
  next
    case False
    then show ?thesis using cross [of l] sms(1) l by auto
  qed
  moreover have "FileNum m \<notin> FileNum ` set (map fst (gone rng tp))"
  proof (cases "i = Suc l")
    case True
    then show ?thesis using st install_nums(1) [OF fr, of rng] by (metis (mono_tags, lifting) mem_Collect_eq set_filter)
  next
    case False
    then show ?thesis using cross [of "Suc l"] tp l(1) by (auto simp: gone_def)
  qed
  ultimately show "FileNum m \<notin> FileNum ` set (sms @ map fst (gone rng tp))" by auto
qed

lemma install_files:
  assumes fr: "install_from e e1 l sms srs keepm keepr tp nms nrs"
    and low: "\<forall>meta\<in>set (concat (mf_levels (e_manifest e))). FileNum meta < nextFileNum e"
    and f2: "e_files e2 = removeFiles io (e_files e1) (sms @ map fst (gone rng tp))"
  shows "n < nextFileNum e \<Longrightarrow> n \<notin> FileNum ` set (sms @ map fst (gone rng tp)) \<Longrightarrow> e_files e2 (sstPath n) = e_files e (sstPath n)"
    "m \<in> set nms \<Longrightarrow> e_files e2 (sstPath (FileNum m)) = e_files e1 (sstPath (FileNum m)) \<and> nextFileNum e \<le> FileNum m \<and> FileNum m < nextFileNum e1"
proof -
  have out: "\<And>m. m \<in> set nms \<Longrightarrow> nextFileNum e \<le> FileNum m \<and> FileNum m < nextFileNum e1"
    "\<And>p. p \<notin> sstPath ` FileNum ` set nms \<Longrightarrow> e_files e1 p = e_files e p" using fr by (auto simp: install_from_def outputs_def)
  have l: "Suc l < length (mf_levels (e_manifest e))" and tp: "mf_levels (e_manifest e) ! Suc l = map fst tp"
    and sms: "set sms \<subseteq> set (mf_levels (e_manifest e) ! l)" using fr by (auto simp: install_from_def eng_inv_def)
  have "set (sms @ map fst (gone rng tp)) \<subseteq> set (mf_levels (e_manifest e) ! l) \<union> set (mf_levels (e_manifest e) ! Suc l)"
    using sms tp by (auto simp: gone_def)
  also have "\<dots> \<subseteq> set (concat (mf_levels (e_manifest e)))" using nth_mem [of l "mf_levels (e_manifest e)"] nth_mem [OF l] l by force
  finally have old: "FileNum m < nextFileNum e" if "m \<in> set (sms @ map fst (gone rng tp))" for m using low that by blast
  show "e_files e2 (sstPath n) = e_files e (sstPath n)" if "n < nextFileNum e" "n \<notin> FileNum ` set (sms @ map fst (gone rng tp))"
  proof -
    have "n \<notin> FileNum ` set nms" using out(1) that(1) by force
    then have "sstPath n \<notin> sstPath ` FileNum ` set nms" "sstPath n \<notin> sstPath ` FileNum ` set (sms @ map fst (gone rng tp))"
      using that(2) unfolding image_iff sstPath_inj by blast+
    then show ?thesis unfolding f2 using out(2) removeFiles_other by metis
  qed
  show "e_files e2 (sstPath (FileNum m)) = e_files e1 (sstPath (FileNum m)) \<and> nextFileNum e \<le> FileNum m \<and> FileNum m < nextFileNum e1" if "m \<in> set nms"
  proof -
    have "FileNum m \<notin> FileNum ` set (sms @ map fst (gone rng tp))" using old out(1) [OF that] by (force simp: not_less [symmetric])
    then have "sstPath (FileNum m) \<notin> sstPath ` FileNum ` set (sms @ map fst (gone rng tp))" unfolding image_iff sstPath_inj by blast
    then show ?thesis unfolding f2 using removeFiles_other out(1) [OF that] by metis
  qed
qed

lemma opens_as_files: "opens_as files m r \<Longrightarrow> files' (sstPath (FileNum m)) = files (sstPath (FileNum m)) \<Longrightarrow> opens_as files' m r"
  by (simp add: opens_as_def)

lemma list_all2_filter_zip:
  "list_all2 P xs ys \<Longrightarrow> list_all2 P (map fst (filter Q (zip xs ys))) (map snd (filter Q (zip xs ys)))"
  by (induction xs ys rule: list_all2_induct) auto

lemma disk_tables_nth:
  "i < length (e_levels e) \<Longrightarrow> disk_tables e extra ! i = (if i = 0 then map snd (e_levels e ! 0) @ extra else map snd (e_levels e ! i))"
  by (auto simp: disk_tables_def nth_list_update)

lemma disk_level_nth:
  assumes "disk_levels files (mf_levels (e_manifest e)) (disk_tables e extra)" "i < length (e_levels e)"
  shows "list_all2 (opens_as files) (mf_levels (e_manifest e) ! i) (disk_tables e extra ! i)"
  using assms unfolding disk_levels_def list_all2_conv_all_nth [of "list_all2 (opens_as files)"] by (simp add: disk_tables_def)

lemma install_disk_levels:
  assumes fr: "install_from e e1 l sms srs keepm keepr tp nms nrs" and inst: "installed e e2 l keepm keepr (stay rng tp @ zip nms nrs)"
    and dk: "disk_levels (e_files e) (mf_levels (e_manifest e)) (disk_tables e extra)"
    and low: "\<forall>meta\<in>set (concat (mf_levels (e_manifest e))). FileNum meta < nextFileNum e"
    and f2: "e_files e2 = removeFiles io (e_files e1) (sms @ map fst (gone rng tp))"
    and src: "l = 0 \<Longrightarrow> keepr = [] \<and> keepm = []" "0 < l \<Longrightarrow> list_all2 (opens_as (e_files e)) keepm (map snd keepr)"
  shows "disk_levels (e_files e2) (mf_levels (e_manifest e2)) (disk_tables e2 (if l = 0 then [] else extra))"
proof -
  note fs = install_files [OF fr low f2]
  have l: "Suc l < length (e_levels e)" "length (mf_levels (e_manifest e)) = length (e_levels e)"
    and tp: "mf_levels (e_manifest e) ! Suc l = map fst tp" "e_levels e ! Suc l = map snd tp"
    and out: "list_all2 (table_pair (e_files e1) (int (Suc l))) nms nrs" using fr by (auto simp: install_from_def eng_inv_def outputs_def)
  have lens: "length nms = length nrs" using out by (rule list_all2_lengthD)
  have len2: "length (e_levels e2) = length (e_levels e)" "length (mf_levels (e_manifest e2)) = length (e_levels e)"
    using inst l(2) by (simp_all add: installed_def)
  have old: "list_all2 (opens_as (e_files e)) (mf_levels (e_manifest e) ! i) (disk_tables e extra ! i)" if "i < length (e_levels e)" for i
    by (rule disk_level_nth [OF dk that])
  have low': "FileNum m < nextFileNum e" if "m \<in> set (mf_levels (e_manifest e) ! i)" "i < length (e_levels e)" for m i
    using low that l(2) by (metis UN_I nth_mem set_concat)
  have keep: "list_all2 (opens_as (e_files e2)) ms rs"
    if "list_all2 (opens_as (e_files e)) ms rs" "set ms \<subseteq> set (mf_levels (e_manifest e) ! i)" "set ms \<subseteq> set (mf_levels (e_manifest e2) ! i)"
      "i < length (e_levels e)" for ms rs i
  proof (rule list.rel_mono_strong [OF that(1)])
    fix m r assume m: "m \<in> set ms" and o: "opens_as (e_files e) m r"
    have lt: "FileNum m < nextFileNum e" using low' that(2,4) m by blast
    then have "m \<notin> set nms" using fs(2) by (metis leD)
    then have "FileNum m \<notin> FileNum ` set (sms @ map fst (gone rng tp))" using install_stays(2) [OF fr that(4) inst] that(3) m by blast
    then show "opens_as (e_files e2) m r" using opens_as_files [OF o] fs(1) lt by blast
  qed
  have mf2: "mf_levels (e_manifest e2) ! i = (if i = Suc l then map fst (stay rng tp @ zip nms nrs) else if i = l then keepm else mf_levels (e_manifest e) ! i)"
    and dt2: "disk_tables e2 (if l = 0 then [] else extra) ! i = (if i = Suc l then map snd (map snd (stay rng tp @ zip nms nrs)) else if i = l then map snd keepr else disk_tables e extra ! i)"
    if "i < length (e_levels e)" for i
    using inst l that src(1) by (auto simp: installed_def nth_list_update disk_tables_nth len2)
  have "list_all2 (opens_as (e_files e2)) (mf_levels (e_manifest e2) ! i) (disk_tables e2 (if l = 0 then [] else extra) ! i)" if i: "i < length (e_levels e)" for i
  proof -
    consider "i = Suc l" | "i = l" "l = 0" | "i = l" "0 < l" | "i \<noteq> l" "i \<noteq> Suc l" by blast
    then show ?thesis
    proof cases
      case 1
      have zt: "zip (map fst tp) (map snd (map snd tp)) = map (\<lambda>p. (fst p, snd (snd p))) tp" by (induction tp) auto
      have "list_all2 (opens_as (e_files e)) (map fst tp) (map snd (map snd tp))" using old [OF l(1)] tp by (simp add: disk_tables_nth l(1))
      from list_all2_filter_zip [OF this, where Q = "\<lambda>(m, r). \<not> (fm_MinKey m \<le> snd rng \<and> fst rng \<le> fm_MaxKey m)"]
      have st: "list_all2 (opens_as (e_files e)) (map fst (stay rng tp)) (map snd (map snd (stay rng tp)))"
        unfolding zt filter_map comp_def stay_def overlaps_def by (simp add: comp_def)
      have "list_all2 (opens_as (e_files e2)) (map fst (stay rng tp)) (map snd (map snd (stay rng tp)))"
        by (rule keep [OF st _ _ i]) (use 1 tp mf2 [OF i] in \<open>auto simp: stay_def\<close>)
      moreover have "list_all2 (opens_as (e_files e2)) nms (map snd nrs)"
        unfolding list.rel_map
        by (rule list.rel_mono_strong [OF out]) (use fs(2) opens_as_files in \<open>auto simp: table_pair_def\<close>)
      ultimately show ?thesis using mf2 [OF i] dt2 [OF i] 1 lens by (simp add: list_all2_appendI)
    next
      case 2
      then show ?thesis using mf2 [OF i] dt2 [OF i] src(1) by simp
    next
      case 3
      have "set keepm \<subseteq> set (mf_levels (e_manifest e) ! i)" using fr 3 by (auto simp: install_from_def)
      then show ?thesis using keep [OF src(2) [OF 3(2)] _ _ i] mf2 [OF i] dt2 [OF i] 3 by simp
    next
      case 4
      then show ?thesis using keep [OF old [OF i] _ _ i] mf2 [OF i] dt2 [OF i] by simp
    qed
  qed
  then show ?thesis unfolding disk_levels_def list_all2_conv_all_nth [of "list_all2 (opens_as (e_files e2))"]
    by (simp add: len2 disk_tables_def)
qed

lemma install_disk:
  assumes fr: "install_from e e1 l sms srs keepm keepr tp nms nrs" and dk: "disk_ok e extra"
    and e2: "e2 = e1\<lparr>e_manifest := mf_runs (e_manifest e) (install_ops l sms (map fst (gone rng tp)) nms),
       e_levels := (e_levels e)[l := keepr, Suc l := map snd (stay rng tp @ zip nms nrs)],
       e_files := removeFiles io (e_files e1) (sms @ map fst (gone rng tp))\<rparr>"
    and inst: "installed e e2 l keepm keepr (stay rng tp @ zip nms nrs)"
    and src: "l = 0 \<Longrightarrow> keepr = [] \<and> keepm = []" "0 < l \<Longrightarrow> list_all2 (opens_as (e_files e)) keepm (map snd keepr)"
    and fits: "Suc l < 2 ^ 32" "\<forall>m\<in>set nms. length (fm_MinKey m) < 2 ^ 32 \<and> length (fm_MaxKey m) < 2 ^ 32"
  shows "disk_ok e2 (if l = 0 then [] else extra)"
proof -
  have low: "\<forall>meta\<in>set (concat (mf_levels (e_manifest e))). FileNum meta < nextFileNum e" using dk by (simp add: disk_ok_def)
  have f2: "e_files e2 = removeFiles io (e_files e1) (sms @ map fst (gone rng tp))" by (simp add: e2)
  note fs = install_files [OF fr low f2]
  have out: "outputs (int (Suc l)) e e1 {} nms nrs" and len: "length (mf_levels (e_manifest e)) = length (e_levels e)"
    using fr by (auto simp: install_from_def eng_inv_def)
  obtain rs where rs: "manifest_is (e_manifest e) (length (e_levels e)) rs" using dk by (auto simp: disk_ok_def)
  have "list_all (\<lambda>p. mrec_ok (op_record p)) (install_ops l sms (map fst (gone rng tp)) nms)"
    using fits new_pairs(2) [OF out] by (auto simp: install_ops_def list_all_iff mrec_ok_def op_record_def)
  then have mi: "\<exists>rs. manifest_is (e_manifest e2) (length (e_levels e2)) rs" using mf_runs_is [OF rs] by (auto simp: e2)
  have dl: "disk_levels (e_files e2) (mf_levels (e_manifest e2)) (disk_tables e2 (if l = 0 then [] else extra))"
    by (rule install_disk_levels [OF fr inst _ low f2 src]) (use dk in \<open>simp_all add: disk_ok_def\<close>)
  have "FileNum m < nextFileNum e2" if m: "m \<in> set (concat (mf_levels (e_manifest e2)))" for m
  proof (cases "m \<in> set nms")
    case True
    then show ?thesis using fs(2) by (simp add: e2)
  next
    case False
    obtain i where i: "i < length (mf_levels (e_manifest e2))" "m \<in> set (mf_levels (e_manifest e2) ! i)" using m by (auto simp: in_set_conv_nth [of _ "mf_levels (e_manifest e2)"])
    then have i': "i < length (e_levels e)" using inst len by (simp add: installed_def)
    then have "m \<in> set (concat (mf_levels (e_manifest e)))" using install_stays(1) [OF fr i' inst i(2) False] len by (metis UN_I nth_mem set_concat)
    then have "FileNum m < nextFileNum e" using low by blast
    also have "\<dots> \<le> nextFileNum e2" using out by (simp add: e2 outputs_def)
    finally show ?thesis .
  qed
  then show ?thesis using mi dl dk outputs_same(5) [OF out] by (simp add: disk_ok_def e2)
qed

lemma install_ids:
  assumes fr: "install_from e e1 l sms srs keepm keepr tp nms nrs"
    and low: "\<forall>meta\<in>set (concat (mf_levels (e_manifest e))). FileNum meta < nextFileNum e"
    and inst: "installed e e2 l keepm keepr (stay rng tp @ zip nms nrs)" and ptr: "e_nextptr e2 = e_nextptr e1"
  shows "ids_ok e2"
proof -
  have l: "Suc l < length (e_levels e)" and len: "length (mf_levels (e_manifest e)) = length (e_levels e)" and ids: "ids_ok e"
    and tp: "mf_levels (e_manifest e) ! Suc l = map fst tp" "e_levels e ! Suc l = map snd tp"
    and out: "outputs (int (Suc l)) e e1 {} nms nrs"
    and keep: "keepm = filter (\<lambda>f. FileNum f \<notin> FileNum ` set sms) (mf_levels (e_manifest e) ! l)" "keepr = removeReaders (e_levels e ! l) srs"
    using fr by (auto simp: install_from_def eng_inv_def)
  have new: "\<And>m. m \<in> set nms \<Longrightarrow> nextFileNum e \<le> FileNum m" "distinct (map FileNum nms)" "map fst nrs = [e_nextptr e..<e_nextptr e1]" "e_nextptr e \<le> e_nextptr e1"
    using out by (auto simp: outputs_def)
  have lens: "length nms = length nrs" by (rule new_pairs(1) [OF out])
  have low': "FileNum m < nextFileNum e" if "m \<in> set (mf_levels (e_manifest e) ! i)" "i < length (e_levels e)" for m i
    using low that len by (metis UN_I nth_mem set_concat)
  have mf2: "mf_levels (e_manifest e2) ! i = (if i = Suc l then map fst (stay rng tp) @ nms else if i = l then keepm else mf_levels (e_manifest e) ! i)"
    and lv2: "e_levels e2 ! i = (if i = Suc l then map snd (stay rng tp) @ nrs else if i = l then keepr else e_levels e ! i)"
    if "i < length (e_levels e)" for i
    using inst l len that lens by (auto simp: installed_def nth_list_update)
  have old: "m \<in> set (mf_levels (e_manifest e) ! i)" if "m \<in> set (mf_levels (e_manifest e2) ! i)" "m \<notin> set nms" "i < length (e_levels e)" for m i
    using install_stays(1) [OF fr that(3) inst that(1,2)] .
  have ids0: "distinct (map FileNum (mf_levels (e_manifest e) ! i))" "distinct (map fst (e_levels e ! i))" "\<forall>r\<in>set (e_levels e ! i). fst r < e_nextptr e"
    if "i < length (e_levels e)" for i using ids that by (simp_all add: ids_ok_def)
  have st: "distinct (map FileNum (map fst (stay rng tp)))" "distinct (map fst (map snd (stay rng tp)))"
    using ids0(1,2) [OF l] tp distinct_map_filter' [of "FileNum \<circ> fst" tp] distinct_map_filter' [of "fst \<circ> snd" tp] by (simp_all add: stay_def)
  have stn: "FileNum m < nextFileNum e" if "m \<in> set (map fst (stay rng tp))" for m
    by (rule low' [OF _ l]) (use that tp in \<open>auto simp: stay_def\<close>)
  have stp: "fst r < e_nextptr e" if "r \<in> set (map snd (stay rng tp))" for r
    using ids0(3) [OF l] that tp(2) by (auto simp: stay_def)
  have nrp: "r \<in> set nrs \<Longrightarrow> e_nextptr e \<le> fst r \<and> fst r < e_nextptr e1" for r
    using new(3) by (metis (no_types, lifting) atLeastLessThan_iff image_eqI set_map set_upt)
  have "distinct (map FileNum (mf_levels (e_manifest e2) ! i)) \<and> distinct (map fst (e_levels e2 ! i)) \<and> (\<forall>r\<in>set (e_levels e2 ! i). fst r < e_nextptr e2)"
    if i: "i < length (e_levels e)" for i
  proof (cases "i = Suc l")
    case True
    have "FileNum ` set (map fst (stay rng tp)) \<inter> FileNum ` set nms = {}" using stn new(1) by force
    moreover have "fst ` set (map snd (stay rng tp)) \<inter> fst ` set nrs = {}" using stp nrp by force
    ultimately have "distinct (map FileNum (map fst (stay rng tp) @ nms))" "distinct (map fst (map snd (stay rng tp) @ nrs))"
      using st new(2,3) unfolding map_append distinct_append set_map by (simp_all add: image_image)
    then show ?thesis using mf2 [OF i] lv2 [OF i] True stp nrp new(4) unfolding ptr by (auto simp del: map_map intro: less_le_trans)
  next
    case False
    then show ?thesis using mf2 [OF i] lv2 [OF i] ids0 [OF i] new(4)
      by (auto simp: keep ptr removeReaders_def intro: less_le_trans intro!: distinct_map_filter')
  qed
  moreover have "FileNum ` set (mf_levels (e_manifest e2) ! i) \<inter> FileNum ` set (mf_levels (e_manifest e2) ! j) = {}"
    if ij: "i < length (e_levels e)" "j < length (e_levels e)" "i \<noteq> j" for i j
  proof -
    have "FileNum m \<noteq> FileNum m'" if m: "m \<in> set (mf_levels (e_manifest e2) ! i)" "m' \<in> set (mf_levels (e_manifest e2) ! j)" for m m'
    proof -
      have c: "x \<in> set (mf_levels (e_manifest e) ! n) \<or> x \<in> set nms \<and> n = Suc l" if "x \<in> set (mf_levels (e_manifest e2) ! n)" "n < length (e_levels e)" for x n
      proof (cases "x \<in> set nms")
        case True
        then show ?thesis using mf2 [OF that(2)] that(1) keep(1) by (auto split: if_splits)
      next
        case False
        then show ?thesis using old that by blast
      qed
      have "FileNum m \<noteq> FileNum m'" if "m \<in> set (mf_levels (e_manifest e) ! i)" "m' \<in> set (mf_levels (e_manifest e) ! j)"
        using ids ij that unfolding ids_ok_def by blast
      then show ?thesis using c [OF m(1) ij(1)] c [OF m(2) ij(2)] low' ij new(1) by (metis leD)
    qed
    then show ?thesis by blast
  qed
  moreover have "length (e_levels e2) = length (e_levels e)" using inst by (simp add: installed_def)
  ultimately show ?thesis by (simp add: ids_ok_def)
qed

subsection \<open>Compactions keep the view\<close>

lemma writeCompactionOutput_ok:
  assumes io: "table_files io" and mi0: "mi_inv mi0" "map_of (mi_all mi0) = stack_view (map reader_entries rs)"
    and fits: "\<forall>r\<in>set rs. \<forall>x\<in>set (reader_entries r). entry_size x < 2 ^ 30" "unat (nextFileNum e) + length (mi_all mi0) < 2 ^ 64"
  obtains mi e1 nms nrs where "MergeIterator_SeekToFirst mi0 = Some mi" "writeCompactionOutput io e mi level = Some (e1, Ok (nms, nrs))"
    "outputs level e e1 {} nms nrs" "concat (map (\<lambda>r. reader_entries (snd r)) nrs) = mi_all mi0" "tables_ok (zip nms nrs)"
    "\<forall>x\<in>set (mi_all mi0). entry_size x < 2 ^ 30"
proof -
  obtain mi where mi: "MergeIterator_SeekToFirst mi0 = Some mi" "mi_inv mi" "mi_rest mi = mi_all mi0" using merge.first [OF mi0(1)] by blast
  have srt: "sorted_wrt (<) (map fst (mi_all mi0))" using merge.sorted [OF mi(2)] mi(3) by (simp add: ksorted_def)
  have elem: "\<exists>r\<in>set rs. x \<in> set (reader_entries r)" if "x \<in> set (mi_all mi0)" for x
  proof -
    have "map_of (mi_all mi0) (fst x) = Some (snd x)" using srt that by (intro map_of_is_SomeI) (auto simp: strict_sorted_iff)
    then have "map_of (concat (map reader_entries rs)) (fst x) = Some (snd x)" unfolding mi0(2) map_of_concat .
    then have "x \<in> set (concat (map reader_entries rs))" by (metis map_of_SomeD prod.collapse)
    then show ?thesis by auto
  qed
  let ?s = "\<lparr>cu_eng = e, cu_metas = [], cu_readers = [], cu_writer = None, cu_size = 0\<rparr> :: cout"
  have small: "\<forall>x\<in>set (mi_all mi0). entry_size x < 2 ^ 30" using elem fits(1) by blast
  have "completes level ?s (writeOutput io level mi ?s) ([] @ mi_rest mi)"
    by (rule writeOutput_spec [OF io mi(2)]) (use mi(3) srt small fits(2) in \<open>simp_all add: writing_def\<close>)
  then obtain s' nms nrs where s': "writeOutput io level mi ?s = Some (s', None)" "cu_metas s' = nms" "cu_readers s' = nrs"
    "outputs level e (cu_eng s') {} nms nrs" "concat (map (\<lambda>r. reader_entries (snd r)) nrs) = sst_ient (map rd_entry (mi_all mi0))"
    using mi(3) by (auto simp: completes_def open_num_def)
  have "\<forall>x\<in>set (mi_all mi0). clean x" using elem reader_clean by blast
  then have cc: "concat (map (\<lambda>r. reader_entries (snd r)) nrs) = mi_all mi0" using s'(5) clean_list by simp
  have l2: "list_all2 (table_pair (e_files (cu_eng s')) level) nms nrs" using s'(4) by (simp add: outputs_def)
  have "tables_ok (zip nms nrs)" by (rule outputs_tables [OF l2]) (simp add: cc srt)
  then show ?thesis using mi(1) s' cc small by (intro that [of mi "cu_eng s'" nms nrs]) (simp_all add: writeCompactionOutput_def)
qed

text \<open>What a compaction does not touch.\<close>

definition frame :: "Engine \<Rightarrow> Engine \<Rightarrow> bool" where
  "frame e e' \<longleftrightarrow> e_memtable e' = e_memtable e \<and> immutableMems e' = immutableMems e \<and> e_opts e' = e_opts e \<and> e_waldir e' = e_waldir e \<and>
     e_wal e' = e_wal e \<and> flushCh e' = flushCh e \<and> e_nextptr e \<le> e_nextptr e' \<and> length (e_levels e') = length (e_levels e)"

lemma frame_view:
  assumes "frame e e'" "tables_view e' = tables_view e" shows "engine_view e' = engine_view e"
proof -
  have "e_mems e' = e_mems e" using assms(1) by (simp add: frame_def e_mems_def)
  then show ?thesis unfolding fun_eq_iff engine_view_tables assms(2) by simp
qed

lemma meta_for_keys:
  assumes "table_pair files level m r" "\<forall>x\<in>set (reader_entries (snd r)). entry_size x < 2 ^ 30"
  shows "length (fm_MinKey m) < 2 ^ 32 \<and> length (fm_MaxKey m) < 2 ^ 32"
proof -
  have r: "meta_for m r" "rd_wf (snd r)" using assms(1) by (auto simp: table_pair_def)
  have "length k < 2 ^ 32" if k: "k \<in> fst ` set (reader_entries (snd r))" for k
    using assms(2) k by (auto simp: entry_size_def)
  then show ?thesis using rd_wf_ends [OF r(2)] r(1) by (auto simp: meta_for_def)
qed

lemma compaction_step:
  assumes inv: "eng_inv e" "ids_ok e" "disk_ok e extra" and l: "Suc l < length (e_levels e)" "Suc l < 2 ^ 32"
    and io: "table_files io" "\<And>i. co_mf io i = mf_ok"
    and tp: "tables_ok tp" "mf_levels (e_manifest e) ! Suc l = map fst tp" "e_levels e ! Suc l = map snd tp"
    and src: "set sms \<subseteq> set (mf_levels (e_manifest e) ! l)" "filter (\<lambda>f. FileNum f \<notin> FileNum ` set sms) (mf_levels (e_manifest e) ! l) = keepm"
      "removeReaders (e_levels e ! l) srs = keepr"
    and keep: "l = 0 \<Longrightarrow> keepr = [] \<and> keepm = []" "0 < l \<Longrightarrow> list_all2 (opens_as (e_files e)) keepm (map snd keepr) \<and> level_ok keepm keepr"
    and rng: "fst rng \<le> snd rng" "\<forall>r\<in>set srl. \<forall>k\<in>fst ` set (reader_entries r). fst rng \<le> k \<and> k \<le> snd rng"
    and mi0: "mi_inv mi0" "map_of (mi_all mi0) = stack_view (map reader_entries (srl @ map (\<lambda>p. snd (snd p)) (gone rng tp)))"
    and fits: "\<forall>r\<in>set (srl @ map (\<lambda>p. snd (snd p)) (gone rng tp)). \<forall>x\<in>set (reader_entries r). entry_size x < 2 ^ 30"
      "unat (nextFileNum e) + length (mi_all mi0) < 2 ^ 64"
  obtains mi e1 new e2 where "MergeIterator_SeekToFirst mi0 = Some mi" "writeCompactionOutput io e mi (int (Suc l)) = Some (e1, Ok new)"
    "compactInstall io e1 l (srs, sms) (map snd (gone rng tp), map fst (gone rng tp)) new = Some (e2, None)"
    "eng_inv e2" "ids_ok e2" "disk_ok e2 (if l = 0 then [] else extra)" "frame e e2" "e_levels e2 ! 0 = (if l = 0 then [] else e_levels e ! 0)"
    "\<forall>k. stack_view (map (\<lambda>r. reader_entries (snd r)) keepr @ map reader_entries srl) k =
      stack_view (if l = 0 then rev (level_tables e 0) else level_tables e l) k \<longrightarrow> tables_view e2 k = tables_view e k"
    "\<forall>k x. l = 0 \<longrightarrow> stack_view (map reader_entries srl) k = Some x \<longrightarrow> tables_view e2 k = Some x"
proof -
  obtain mi e1 nms nrs where w: "MergeIterator_SeekToFirst mi0 = Some mi" "writeCompactionOutput io e mi (int (Suc l)) = Some (e1, Ok (nms, nrs))"
    and out: "outputs (int (Suc l)) e e1 {} nms nrs" and cc: "concat (map (\<lambda>r. reader_entries (snd r)) nrs) = mi_all mi0" and new: "tables_ok (zip nms nrs)"
    and small: "\<forall>x\<in>set (mi_all mi0). entry_size x < 2 ^ 30"
    using writeCompactionOutput_ok [OF io(1) mi0 fits] by metis
  have fr: "install_from e e1 l sms srs keepm keepr tp nms nrs" using inv(1,2) l(1) out tp src by (simp add: install_from_def)
  obtain e2 where run: "compactInstall io e1 l (srs, sms) (map snd (gone rng tp), map fst (gone rng tp)) (nms, nrs) = Some (e2, None)"
    and e2: "e2 = e1\<lparr>e_manifest := mf_runs (e_manifest e) (install_ops l sms (map fst (gone rng tp)) nms),
       e_levels := (e_levels e)[l := keepr, Suc l := map snd (stay rng tp @ zip nms nrs)],
       e_files := removeFiles (co_remove io) (e_files e1) (sms @ map fst (gone rng tp))\<rparr>"
    and inst: "installed e e2 l keepm keepr (stay rng tp @ zip nms nrs)"
    using compactInstall_spec [OF fr io(2), of rng] .
  have lens: "length nms = length nrs" by (rule new_pairs(1) [OF out])
  have low: "\<forall>meta\<in>set (concat (mf_levels (e_manifest e))). FileNum meta < nextFileNum e" using inv(3) by (simp add: disk_ok_def)
  have ents: "map (\<lambda>q. reader_entries (snd (snd q))) (zip nms nrs) = map (\<lambda>r. reader_entries (snd r)) nrs"
    using lens by (metis (no_types, lifting) map_map comp_def map_snd_zip map_eq_conv)
  have nv: "stack_view (map (\<lambda>q. reader_entries (snd (snd q))) (zip nms nrs)) k =
    (case stack_view (map reader_entries srl) k of Some x \<Rightarrow> Some x | None \<Rightarrow> stack_view (map (\<lambda>p. reader_entries (snd (snd p))) (gone rng tp)) k)" for k
  proof -
    have "stack_view (map (\<lambda>q. reader_entries (snd (snd q))) (zip nms nrs)) k = map_of (mi_all mi0) k"
      unfolding ents map_of_concat [symmetric] cc ..
    then show ?thesis unfolding mi0(2) by (simp add: comp_def split: option.splits)
  qed
  have srl: "\<exists>r\<in>set srl. k \<in> fst ` set (reader_entries r)" if "stack_view (map reader_entries srl) k \<noteq> None" for k
    using that unfolding stack_view_None by (force simp: map_of_eq_None_iff)
  have qs: "tables_ok (stay rng tp @ zip nms nrs)" unfolding stay_def
  proof (rule target_tables [OF tp(1) new rng(1)])
    fix q k assume q: "q \<in> set (zip nms nrs)" "k \<in> fst ` set (reader_entries (snd (snd q)))"
    have "stack_view (map (\<lambda>q. reader_entries (snd (snd q))) (zip nms nrs)) k \<noteq> None"
      unfolding stack_view_None using q by (metis (no_types, lifting) image_eqI list.set_map map_of_eq_None_iff)
    then have "stack_view (map reader_entries srl) k \<noteq> None \<or> stack_view (map (\<lambda>p. reader_entries (snd (snd p))) (gone rng tp)) k \<noteq> None"
      unfolding nv by (auto split: option.splits)
    then show "fst rng \<le> k \<and> k \<le> snd rng \<or> (\<exists>p'\<in>set tp. overlaps (fst rng) (snd rng) p' \<and> k \<in> fst ` set (reader_entries (snd (snd p'))))"
    proof
      assume "stack_view (map (\<lambda>p. reader_entries (snd (snd p))) (gone rng tp)) k \<noteq> None"
      then obtain p' where "p' \<in> set tp" "overlaps (fst rng) (snd rng) p'" "map_of (reader_entries (snd (snd p'))) k \<noteq> None"
        unfolding stack_view_None gone_def set_map set_filter by blast
      then show ?thesis unfolding map_of_eq_None_iff by blast
    qed (use srl rng(2) in blast)
  qed
  have t: "stack_view (map (\<lambda>q. reader_entries (snd (snd q))) (stay rng tp @ zip nms nrs)) k =
      (case stack_view (map reader_entries srl) k of Some x \<Rightarrow> Some x | None \<Rightarrow> stack_view (level_tables e (Suc l)) k)" for k
  proof -
    have lt: "map (\<lambda>p. reader_entries (snd (snd p))) tp = level_tables e (Suc l)" by (simp add: level_tables_def tp(3))
    have "fst rng \<le> k \<and> k \<le> snd rng" if "stack_view (map reader_entries srl) k = Some x" for x using srl [of k] rng(2) that by blast
    from target_view [OF tp(1) this nv [of k, unfolded gone_def]] show ?thesis unfolding stay_def lt .
  qed
  have view: "tables_view e2 k = tables_view e k"
    if front: "stack_view (map (\<lambda>r. reader_entries (snd r)) keepr @ map reader_entries srl) k = stack_view (if l = 0 then rev (level_tables e 0) else level_tables e l) k" for k
  proof (rule installed_view [OF l(1) inst])
    have "rev (map (\<lambda>r. reader_entries (snd r)) keepr) = map (\<lambda>r. reader_entries (snd r)) keepr" if "l = 0" using keep(1) [OF that] by simp
    then show "stack_view ((if l = 0 then rev (map (\<lambda>r. reader_entries (snd r)) keepr) else map (\<lambda>r. reader_entries (snd r)) keepr) @
        map (\<lambda>q. reader_entries (snd (snd q))) (stay rng tp @ zip nms nrs)) k =
      stack_view ((if l = 0 then rev (level_tables e 0) else level_tables e l) @ level_tables e (Suc l)) k"
      unfolding stack_view_simps(3) t front [symmetric] by (simp split: option.splits)
  qed
  have first: "tables_view e2 k = Some x" if "l = 0" "stack_view (map reader_entries srl) k = Some x" for k x
  proof -
    have lv: "e_levels e2 \<noteq> []" "level_tables e2 0 = []" "level_tables e2 1 = map (\<lambda>q. reader_entries (snd (snd q))) (stay rng tp @ zip nms nrs)"
      and len: "length (e_levels e2) = length (e_levels e)"
      using inst l(1) that(1) keep(1) by (cases "e_levels e"; auto simp: installed_def level_tables_def comp_def)+
    have up: "[1..<length (e_levels e2)] = 1 # [2..<length (e_levels e2)]" using l(1) that(1) len by (simp add: upt_conv_Cons numeral_2_eq_2)
    have "stack_view (level_tables e2 1) k = Some x" unfolding lv(3) t that(2) by simp
    then show ?thesis unfolding tables_view_levels [OF lv(1)] lv(2) up list.map concat.simps rev.simps append_Nil stack_view_simps(3) by simp
  qed
  have keys: "\<forall>m\<in>set nms. length (fm_MinKey m) < 2 ^ 32 \<and> length (fm_MaxKey m) < 2 ^ 32"
  proof
    fix m assume "m \<in> set nms"
    then obtain r where r: "r \<in> set nrs" "table_pair (e_files e1) (int (Suc l)) m r"
      using out lens unfolding outputs_def list_all2_conv_all_nth in_set_conv_nth by metis
    have "set (reader_entries (snd r)) \<subseteq> set (mi_all mi0)" unfolding cc [symmetric] using r(1) by auto
    then show "length (fm_MinKey m) < 2 ^ 32 \<and> length (fm_MaxKey m) < 2 ^ 32" using meta_for_keys [OF r(2)] small by blast
  qed
  have disk: "disk_ok e2 (if l = 0 then [] else extra)" by (rule install_disk [OF fr inv(3) e2 inst _ _ l(2) keys]) (use keep in auto)
  have ids: "ids_ok e2" by (rule install_ids [OF fr low inst]) (simp add: e2)
  have inv2: "eng_inv e2" by (rule installed_inv [OF inv(1) l(1) inst qs]) (use keep in auto)
  have "frame e e2" using outputs_same [OF out] out by (simp add: frame_def e2 outputs_def)
  moreover have "e_levels e2 ! 0 = (if l = 0 then [] else e_levels e ! 0)" using keep(1) l(1) by (auto simp: e2 nth_list_update)
  ultimately show ?thesis using w run disk ids inv2 view first by (intro that [of mi e1 "(nms, nrs)" e2]) blast+
qed

text \<open>Sizes within the formats' fields: entries below a gigabyte (the outputs are then below 4 GB), file
  numbers and the number of levels.\<close>

definition cmp_fits :: "Engine \<Rightarrow> nat \<Rightarrow> bool" where
  "cmp_fits e l \<longleftrightarrow> Suc l < 2 ^ 32 \<and> (\<forall>es\<in>set (level_tables e l @ level_tables e (Suc l)). \<forall>x\<in>set es. entry_size x < 2 ^ 30) \<and>
     unat (nextFileNum e) + sum_list (map length (level_tables e l @ level_tables e (Suc l))) < 2 ^ 64"

lemma length_merge_list: "length (merge_list ss) \<le> sum_list (map (\<lambda>s. length (snd s)) ss)"
  using length_remdups_leq [of "map fst (concat (map snd ss))"] by (simp add: merge_list_def length_concat comp_def)

lemma length_merge_by_order: "length (merge_list (by_order ss)) \<le> sum_list (map length ss)"
proof -
  have "map (\<lambda>s. length (snd s)) (by_order ss) = map length ss" by (rule nth_equalityI) (auto simp: by_order_def)
  then show ?thesis using length_merge_list [of "by_order ss"] by metis
qed

lemma level_pairs:
  assumes "eng_inv e" "1 \<le> l" "l < length (e_levels e)"
  obtains ps where "tables_ok ps" "mf_levels (e_manifest e) ! l = map fst ps" "e_levels e ! l = map snd ps"
  using level_ok_zip [of "mf_levels (e_manifest e) ! l" "e_levels e ! l"] assms that by (metis eng_inv_def)

lemma level_range:
  assumes "meta_for (fst p) (snd p)" "rd_wf (snd (snd p))"
  obtains lo hi where "Reader_MinKey (snd (snd p)) = Some lo" "Reader_MaxKey (snd (snd p)) = Some hi" "lo \<le> hi"
    "\<forall>k\<in>fst ` set (reader_entries (snd (snd p))). lo \<le> k \<and> k \<le> hi"
proof -
  obtain lo hi where r: "Reader_MinKey (snd (snd p)) = Some lo" "Reader_MaxKey (snd (snd p)) = Some hi" "lo \<le> hi" using rd_wf_range [OF assms(2)] by blast
  have "\<forall>k\<in>fst ` set (reader_entries (snd (snd p))). lo \<le> k \<and> k \<le> hi"
    using table_entry_range [OF assms] assms(1) r by (simp add: meta_for_def)
  then show ?thesis using r that by blast
qed

lemma tables_front:
  assumes "tables_ok (p # ps)"
  shows "stack_view (map (\<lambda>q. reader_entries (snd (snd q))) (ps @ [p])) k = stack_view (map (\<lambda>q. reader_entries (snd (snd q))) (p # ps)) k"
proof (cases "map_of (reader_entries (snd (snd p))) k")
  case None
  then show ?thesis by (simp split: option.splits)
next
  case (Some x)
  have "p \<notin> set ps" using assms rd_wf_range [of "snd (snd p)"] by (auto simp: tables_ok_def apart_def meta_for_def)
  then have "\<forall>q\<in>set ps. map_of (reader_entries (snd (snd q))) k = None" using tables_lookup(2) [OF assms _ Some] by (metis list.set_intros)
  then have "stack_view (map (\<lambda>q. reader_entries (snd (snd q))) ps) k = None" by (simp add: stack_view_None)
  then show ?thesis using Some by simp
qed

lemma filter_ne: "g p \<notin> g ` set ps \<Longrightarrow> filter (\<lambda>x. g x \<noteq> g p) ps = ps"
  by (induction ps) auto

lemma compactLevel_ok:
  assumes inv: "eng_inv e" "ids_ok e" "disk_ok e extra" and l: "1 \<le> l" "Suc l < length (e_levels e)" and fits: "cmp_fits e l"
    and io: "table_files io" "\<And>i. co_mf io i = mf_ok"
  shows "\<exists>e'. compactLevel io e l = Some (e', None) \<and> eng_inv e' \<and> ids_ok e' \<and> disk_ok e' extra \<and> tables_view e' = tables_view e \<and> frame e e' \<and>
    e_levels e' ! 0 = e_levels e ! 0"
proof -
  obtain sp where sp: "tables_ok sp" "mf_levels (e_manifest e) ! l = map fst sp" "e_levels e ! l = map snd sp"
    using level_pairs [OF inv(1) l(1)] l(2) by auto
  obtain tp where tp: "tables_ok tp" "mf_levels (e_manifest e) ! Suc l = map fst tp" "e_levels e ! Suc l = map snd tp"
    using level_pairs [OF inv(1) _ l(2)] by auto
  have len: "length (mf_levels (e_manifest e)) = length (e_levels e)" using inv(1) by (simp add: eng_inv_def)
  show ?thesis
  proof (cases sp)
    case Nil
    then show ?thesis using inv l sp(3) by (auto simp: compactLevel_def frame_def)
  next
    case (Cons p ps)
    have p: "meta_for (fst p) (snd p)" "rd_wf (snd (snd p))" using sp(1) Cons by (auto simp: tables_ok_def)
    obtain lo hi where r: "Reader_MinKey (snd (snd p)) = Some lo" "Reader_MaxKey (snd (snd p)) = Some hi" "lo \<le> hi"
      "\<forall>k\<in>fst ` set (reader_entries (snd (snd p))). lo \<le> k \<and> k \<le> hi" using level_range [OF p] .
    let ?rs = "snd (snd p) # map (\<lambda>p. snd (snd p)) (gone (lo, hi) tp)"
    have ok: "\<forall>r\<in>set ?rs. reader_ok r" using p(2) tp(1) by (auto simp: tables_ok_def rd_wf_def gone_def)
    obtain mi0 where mi0: "NewMergeIterator (source_iters [] ?rs) (map int [0..<length (source_iters [] ?rs)]) = Some mi0" "mi_inv mi0"
      "mi_all mi0 = merge_list (by_order (source_ents [] ?rs))" using source_merge [of "[]" ?rs] ok by auto
    have view: "map_of (mi_all mi0) = stack_view (map reader_entries ([snd (snd p)] @ map (\<lambda>p. snd (snd p)) (gone (lo, hi) tp)))"
      by (simp add: mi0(3) merge_list_view source_ents_def)
    have sub: "\<forall>r\<in>set ([snd (snd p)] @ map (\<lambda>p. snd (snd p)) (gone (lo, hi) tp)). reader_entries r \<in> set (level_tables e l @ level_tables e (Suc l))"
      by (auto simp: level_tables_def sp(3) tp(3) Cons gone_def)
    have "length (mi_all mi0) \<le> sum_list (map length (level_tables e l @ level_tables e (Suc l)))"
    proof -
      have "length (mi_all mi0) \<le> sum_list (map length (source_ents [] ?rs))" unfolding mi0(3) by (rule length_merge_by_order)
      also have "\<dots> \<le> sum_list (map length (level_tables e l @ level_tables e (Suc l)))"
        using sum_list_filter_le_nat [of "\<lambda>q. length (reader_entries (snd (snd q)))" "overlaps lo hi" tp]
        by (simp add: source_ents_def level_tables_def sp(3) tp(3) Cons gone_def comp_def)
      finally show ?thesis .
    qed
    then have num: "unat (nextFileNum e) + length (mi_all mi0) < 2 ^ 64" using fits by (simp add: cmp_fits_def)
    have ids: "distinct (map (\<lambda>q. FileNum (fst q)) sp)" "distinct (map (\<lambda>q. fst (snd q)) sp)"
      using inv(2) l(2) sp by (auto simp: ids_ok_def comp_def dest!: spec [of _ l])
    have keepm: "filter (\<lambda>f. FileNum f \<notin> FileNum ` set [fst p]) (mf_levels (e_manifest e) ! l) = map fst ps"
      using ids(1) filter_ne [of "\<lambda>q. FileNum (fst q)" p ps] by (simp add: sp(2) Cons filter_map comp_def)
    have keepr: "removeReaders (e_levels e ! l) [snd p] = map snd ps"
      using ids(2) filter_ne [of "\<lambda>q. fst (snd q)" p ps] by (simp add: sp(3) Cons removeReaders_def filter_map comp_def)
    have "list_all2 (opens_as (e_files e)) (mf_levels (e_manifest e) ! l) (disk_tables e extra ! l)"
      using inv(3) l(2) by (intro disk_level_nth) (simp_all add: disk_ok_def)
    then have opens: "list_all2 (opens_as (e_files e)) (map fst ps) (map snd (map snd ps))"
      using l by (simp add: disk_tables_nth sp Cons)
    have front: "stack_view (map (\<lambda>r. reader_entries (snd r)) (map snd ps) @ map reader_entries [snd (snd p)]) k =
      stack_view (if l = 0 then rev (level_tables e 0) else level_tables e l) k" for k
      using tables_front [OF sp(1) [unfolded Cons], of k] l(1) by (simp add: level_tables_def sp(3) Cons comp_def)
    have tlok: "level_ok (map fst ps) (map snd ps)" using sp(1) by (simp add: level_ok_tables Cons tables_ok_def)
    obtain mi e1 new e2 where step: "MergeIterator_SeekToFirst mi0 = Some mi" "writeCompactionOutput io e mi (int (Suc l)) = Some (e1, Ok new)"
      "compactInstall io e1 l ([snd p], [fst p]) (map snd (gone (lo, hi) tp), map fst (gone (lo, hi) tp)) new = Some (e2, None)"
      "eng_inv e2" "ids_ok e2" "disk_ok e2 (if l = 0 then [] else extra)" "frame e e2" "e_levels e2 ! 0 = (if l = 0 then [] else e_levels e ! 0)"
      "\<forall>k. stack_view (map (\<lambda>r. reader_entries (snd r)) (map snd ps) @ map reader_entries [snd (snd p)]) k =
        stack_view (if l = 0 then rev (level_tables e 0) else level_tables e l) k \<longrightarrow> tables_view e2 k = tables_view e k"
    proof (rule compaction_step [OF inv l(2) _ io tp, where sms = "[fst p]" and srs = "[snd p]" and keepm = "map fst ps" and keepr = "map snd ps"
          and srl = "[snd (snd p)]" and rng = "(lo, hi)", OF _ _ keepm keepr _ _ _ _ mi0(2) view _ num])
      show "Suc l < 2 ^ 32" using fits by (simp add: cmp_fits_def)
      show "set [fst p] \<subseteq> set (mf_levels (e_manifest e) ! l)" by (simp add: sp(2) Cons)
      show "\<forall>r\<in>set ([snd (snd p)] @ map (\<lambda>p. snd (snd p)) (gone (lo, hi) tp)). \<forall>x\<in>set (reader_entries r). entry_size x < 2 ^ 30"
        using sub fits unfolding cmp_fits_def by blast
    qed (use l(1) opens tlok r(3,4) in simp_all)
    have fo: "findOverlapping e (Suc l) (Some lo) (Some hi) = (map snd (gone (lo, hi) tp), map fst (gone (lo, hi) tp))"
      using findOverlapping_spec [OF _ tp(2,3,1), of lo hi] l(2) len by (simp add: gone_def)
    have fm: "findMetaForReader e l (snd p) = Some (fst p)"
      using find_range(2) [OF sp(1), of p] l(2) len by (simp add: findMetaForReader_def GetLevel_def sp(2) Cons)
    have it: "length (source_iters [] ?rs) = Suc (length (map snd (gone (lo, hi) tp)))" by (simp add: source_iters_def)
    have "compactLevel io e l = Some (e2, None)"
      unfolding compactLevel_def using l(2) sp(3) Cons r(1,2) fo fm mi0(1) [unfolded it] step(1-3) by (simp add: comp_def del: upt_Suc)
    moreover have "tables_view e2 = tables_view e" using step(9) front by (simp add: fun_eq_iff)
    ultimately show ?thesis using step(4-8) l(1) by auto
  qed
qed

subsection \<open>Level 0\<close>

text \<open>The iterators of level 0 come in reverse, but with the priorities of their positions: the merge
  prefers the tables in the order of the slice, the oldest first.\<close>

lemma filter_key_eq: "distinct (map f xs) \<Longrightarrow> x \<in> set xs \<Longrightarrow> filter (\<lambda>y. f x = f y) xs = [x]"
  by (induction xs) (auto simp: filter_empty_conv image_iff)

lemma sort_key_perm:
  assumes "mset xs = mset ys" "distinct (map f xs)" shows "sort_key f xs = sort_key f ys"
proof (rule properties_for_sort_key)
  have d: "distinct (map f (sort_key f ys))" using assms by (metis distinct_map mset_eq_setD mset_sort mset_eq_imp_distinct_iff)
  show "filter (\<lambda>x. f k = f x) (sort_key f ys) = filter (\<lambda>x. f k = f x) xs" if "k \<in> set (sort_key f ys)" for k
    using filter_key_eq [OF d that] filter_key_eq [OF assms(2), of k] that assms(1) by (metis mset_eq_setD mset_sort)
qed (use assms(1) in simp_all)

lemma l0_streams:
  "mset (zip (map int (rev [0..<length A]) @ map (\<lambda>i. int (length A + i)) [0..<length B]) (rev A @ B)) = mset (by_order (A @ B))"
proof -
  have "zip (map int (rev [0..<length A])) (rev A) = rev (by_order A)"
    by (rule nth_equalityI) (auto simp: by_order_def rev_nth nth_upt less_imp_diff_less)
  moreover have "zip (map (\<lambda>i. int (length A + i)) [0..<length B]) B = map (\<lambda>i. (int (length A + i), B ! i)) [0..<length B]"
    by (rule nth_equalityI) simp_all
  moreover have "by_order (A @ B) = by_order A @ map (\<lambda>i. (int (length A + i), B ! i)) [0..<length B]"
    by (rule nth_equalityI) (auto simp: by_order_def nth_append)
  ultimately show ?thesis by simp
qed

lemma NewMergeIterator_prio:
  assumes "\<forall>it\<in>set its. Iter_inv it \<and> Iter_rest it = []" "length ps = length its" "distinct ps"
  shows "\<exists>m. NewMergeIterator its ps = Some m \<and> mi_inv m \<and> mi_all m = merge_list (zip ps (map Iter_all its))"
proof -
  have "live its = {}" using assms by (auto simp: live_def)
  moreover have "map (\<lambda>i. (ps ! i, Iter_all (its ! i))) [0..<length its] = zip ps (map Iter_all its)"
    using assms(2) by (intro nth_equalityI) simp_all
  ultimately show ?thesis using assms
    by (auto simp: NewMergeIterator_def mi_inv_def mi_wf_def mi_all_def is_heap_def heap_below_def)
qed

lemma compactL0_merge_ok:
  assumes "\<forall>r\<in>set (rs @ ts). reader_ok (snd r)"
  shows "\<exists>mi. compactL0_merge rs ts = Some mi \<and> mi_inv mi \<and> map_of (mi_all mi) = stack_view (map (\<lambda>r. reader_entries (snd r)) (rs @ ts)) \<and>
    length (mi_all mi) \<le> sum_list (map (\<lambda>r. length (reader_entries (snd r))) (rs @ ts))"
proof -
  let ?its = "source_iters [] (map snd (rev rs @ ts))" and ?A = "map (\<lambda>r. reader_entries (snd r)) rs" and ?B = "map (\<lambda>r. reader_entries (snd r)) ts"
  let ?ps = "map int (rev [0..<length rs]) @ map (\<lambda>i. int (length rs + i)) [0..<length ts]"
  have i: "\<forall>it\<in>set ?its. Iter_inv it \<and> Iter_rest it = []"
    using assms fresh_iterators(2) by (auto simp: source_iters_def simp del: Iter_inv.simps Iter_rest.simps)
  have a: "map Iter_all ?its = rev ?A @ ?B"
    using assms fresh_iterators(2) by (simp add: source_iters_def comp_def rev_map [symmetric] del: Iter_all.simps)
  have d: "distinct ?ps" "length ?ps = length ?its" by (auto simp: source_iters_def distinct_map inj_on_def)
  obtain mi where mi: "NewMergeIterator ?its ?ps = Some mi" "mi_inv mi" "mi_all mi = merge_list (zip ?ps (rev ?A @ ?B))"
    using NewMergeIterator_prio [OF i d(2,1)] unfolding a by blast
  let ?z = "zip ?ps (rev ?A @ ?B)"
  have ms: "mset ?z = mset (by_order (?A @ ?B))" using l0_streams [of ?A ?B] by simp
  have "distinct (map fst ?z)" using d by (simp add: source_iters_def)
  then have "sort_key fst ?z = sort_key fst (by_order (?A @ ?B))" by (rule sort_key_perm [OF ms])
  then have "merge_val ?z = merge_val (by_order (?A @ ?B))" by (simp add: merge_val_def fun_eq_iff)
  then have v: "map_of (mi_all mi) = stack_view (?A @ ?B)"
    by (simp add: fun_eq_iff mi(3) map_of_merge_list merge_val_by_order stack_view_def)
  have "length (mi_all mi) \<le> sum_list (map (\<lambda>s. length (snd s)) ?z)" unfolding mi(3) by (rule length_merge_list)
  also have "map (\<lambda>s. length (snd s)) ?z = map length (map snd ?z)" unfolding map_map comp_def ..
  also have "map snd ?z = rev ?A @ ?B" by simp
  also have "sum_list (map length (rev ?A @ ?B)) = sum_list (map (\<lambda>r. length (reader_entries (snd r))) (rs @ ts))"
    by (simp add: comp_def rev_map [symmetric] sum_list_rev)
  finally show ?thesis using mi(1,2) v by (auto simp: compactL0_merge_def)
qed

lemma l0Range_spec:
  assumes "\<forall>r\<in>set rs. rd_wf (snd r)" "rs \<noteq> []"
  shows "\<exists>lo hi. l0Range rs = (Some lo, Some hi) \<and> lo \<le> hi \<and> (\<forall>r\<in>set rs. \<forall>k\<in>fst ` set (reader_entries (snd r)). lo \<le> k \<and> k \<le> hi)"
  using assms
proof (induction rs rule: rev_induct)
  case (snoc r rs)
  have wf: "rd_wf (snd r)" using snoc.prems by simp
  obtain a b where ab: "Reader_MinKey (snd r) = Some a" "Reader_MaxKey (snd r) = Some b" "a \<le> b" using rd_wf_range [OF wf] by blast
  have rk: "\<forall>k\<in>fst ` set (reader_entries (snd r)). a \<le> k \<and> k \<le> b"
    using entries_covered [OF wf] ab by (auto simp: covers_def map_of_eq_None_iff)
  show ?case
  proof (cases "rs = []")
    case True
    then show ?thesis using ab rk by (auto simp: l0Range_def widen_def)
  next
    case False
    then obtain lo hi where l: "l0Range rs = (Some lo, Some hi)" "lo \<le> hi" "\<forall>r\<in>set rs. \<forall>k\<in>fst ` set (reader_entries (snd r)). lo \<le> k \<and> k \<le> hi"
      using snoc by auto
    have "l0Range (rs @ [r]) = (Some (min a lo), Some (max b hi))"
      using l(1) ab by (auto simp: l0Range_def widen_def val_bytes_def min_def max_def)
    moreover have "\<forall>r'\<in>set (rs @ [r]). \<forall>k\<in>fst ` set (reader_entries (snd r')). min a lo \<le> k \<and> k \<le> max b hi"
      using l(3) rk by (auto simp: min_le_iff_disj le_max_iff_disj)
    moreover have "min a lo \<le> max b hi" using ab(3) by (simp add: min_le_iff_disj le_max_iff_disj)
    ultimately show ?thesis by blast
  qed
qed simp

text \<open>No key is in two tables of level 0.\<close>

definition l0_apart :: "Engine \<Rightarrow> bool" where
  "l0_apart e \<longleftrightarrow> sorted_wrt (\<lambda>es es'. fst ` set es \<inter> fst ` set es' = {}) (level_tables e 0)"

definition l0_wf :: "Engine \<Rightarrow> bool" where
  "l0_wf e \<longleftrightarrow> (\<forall>r\<in>set (e_levels e ! 0). rd_wf (snd r))"

lemma stack_view_rev:
  assumes "sorted_wrt (\<lambda>es es'. fst ` set es \<inter> fst ` set es' = {}) ss" shows "stack_view (rev ss) k = stack_view ss k"
  using assms
proof (induction ss)
  case (Cons s ss)
  show ?case
  proof (cases "map_of s k")
    case None
    then show ?thesis using Cons by (simp split: option.splits)
  next
    case (Some x)
    then have "k \<in> fst ` set s" by (metis map_of_eq_None_iff option.distinct(1))
    then have "stack_view ss k = None" using Cons.prems unfolding stack_view_None by (auto simp: map_of_eq_None_iff)
    then show ?thesis using Cons Some by simp
  qed
qed simp

lemma compactL0_ok:
  assumes inv: "eng_inv e" "ids_ok e" "disk_ok e extra" and l: "1 < length (e_levels e)" and fits: "cmp_fits e 0"
    and l0: "l0_wf e" "e_levels e ! 0 \<noteq> []" and io: "table_files io" "\<And>i. co_mf io i = mf_ok"
  shows "\<exists>e'. compactL0 io e = Some (e', None) \<and> eng_inv e' \<and> ids_ok e' \<and> disk_ok e' [] \<and> frame e e' \<and> e_levels e' ! 0 = [] \<and>
    (l0_apart e \<longrightarrow> tables_view e' = tables_view e) \<and> (\<forall>k x. stack_view (level_tables e 0) k = Some x \<longrightarrow> tables_view e' k = Some x) \<and>
    (\<forall>k. tables_view e k = None \<longrightarrow> tables_view e' k = None)"
proof -
  let ?rs = "e_levels e ! 0"
  have l': "Suc 0 < length (e_levels e)" using l by simp
  obtain tp where tp: "tables_ok tp" "mf_levels (e_manifest e) ! Suc 0 = map fst tp" "e_levels e ! Suc 0 = map snd tp"
    using level_pairs [OF inv(1) _ l'] by auto
  have len: "length (mf_levels (e_manifest e)) = length (e_levels e)" using inv(1) by (simp add: eng_inv_def)
  obtain lo hi where r: "l0Range ?rs = (Some lo, Some hi)" "lo \<le> hi" "\<forall>r\<in>set ?rs. \<forall>k\<in>fst ` set (reader_entries (snd r)). lo \<le> k \<and> k \<le> hi"
    using l0Range_spec [OF _ l0(2)] l0(1) by (auto simp: l0_wf_def)
  let ?ts = "map snd (gone (lo, hi) tp)"
  have ok: "\<forall>r\<in>set (?rs @ ?ts). reader_ok (snd r)" using inv(1) tp(1) by (auto simp: eng_inv_def tables_ok_def rd_wf_def gone_def)
  obtain mi0 where mi0: "compactL0_merge ?rs ?ts = Some mi0" "mi_inv mi0"
    "map_of (mi_all mi0) = stack_view (map (\<lambda>r. reader_entries (snd r)) (?rs @ ?ts))"
    "length (mi_all mi0) \<le> sum_list (map (\<lambda>r. length (reader_entries (snd r))) (?rs @ ?ts))" using compactL0_merge_ok [OF ok] by blast
  have view: "map_of (mi_all mi0) = stack_view (map reader_entries (map snd ?rs @ map (\<lambda>p. snd (snd p)) (gone (lo, hi) tp)))"
    by (simp add: mi0(3) comp_def)
  have "sum_list (map (\<lambda>r. length (reader_entries (snd r))) (?rs @ ?ts)) \<le> sum_list (map length (level_tables e 0 @ level_tables e (Suc 0)))"
    using sum_list_filter_le_nat [of "\<lambda>q. length (reader_entries (snd (snd q)))" "overlaps lo hi" tp]
    by (simp add: level_tables_def tp(3) gone_def comp_def)
  then have num: "unat (nextFileNum e) + length (mi_all mi0) < 2 ^ 64" using fits mi0(4) by (simp add: cmp_fits_def)
  have keepm: "filter (\<lambda>f. FileNum f \<notin> FileNum ` set (mf_levels (e_manifest e) ! 0)) (mf_levels (e_manifest e) ! 0) = []" by (simp add: filter_empty_conv)
  have keepr: "removeReaders (e_levels e ! 0) ?rs = []" by (simp add: removeReaders_def filter_empty_conv)
  have front: "stack_view (map (\<lambda>r. reader_entries (snd r)) [] @ map reader_entries (map snd ?rs)) k =
      stack_view (if (0::nat) = 0 then rev (level_tables e 0) else level_tables e 0) k" if "l0_apart e" for k
    using stack_view_rev [of "level_tables e 0" k] that by (simp add: l0_apart_def level_tables_def comp_def)
  have sub: "\<forall>r\<in>set (map snd ?rs @ map (\<lambda>p. snd (snd p)) (gone (lo, hi) tp)). reader_entries r \<in> set (level_tables e 0 @ level_tables e (Suc 0))"
    by (auto simp: level_tables_def tp(3) gone_def)
  obtain mi e1 new e2 where step: "MergeIterator_SeekToFirst mi0 = Some mi" "writeCompactionOutput io e mi (int (Suc 0)) = Some (e1, Ok new)"
    "compactInstall io e1 0 (?rs, mf_levels (e_manifest e) ! 0) (map snd (gone (lo, hi) tp), map fst (gone (lo, hi) tp)) new = Some (e2, None)"
    "eng_inv e2" "ids_ok e2" "disk_ok e2 (if (0::nat) = 0 then [] else extra)" "frame e e2" "e_levels e2 ! 0 = (if (0::nat) = 0 then [] else e_levels e ! 0)"
    "\<forall>k. stack_view (map (\<lambda>r. reader_entries (snd r)) [] @ map reader_entries (map snd ?rs)) k =
      stack_view (if (0::nat) = 0 then rev (level_tables e 0) else level_tables e 0) k \<longrightarrow> tables_view e2 k = tables_view e k"
    "\<forall>k x. (0::nat) = 0 \<longrightarrow> stack_view (map reader_entries (map snd ?rs)) k = Some x \<longrightarrow> tables_view e2 k = Some x"
  proof (rule compaction_step [OF inv l' _ io tp, where sms = "mf_levels (e_manifest e) ! 0" and srs = "?rs" and keepm = "[]" and keepr = "[]"
        and srl = "map snd ?rs" and rng = "(lo, hi)", OF _ _ keepm keepr _ _ _ _ mi0(2) view _ num])
    show "Suc 0 < 2 ^ 32" by simp
    show "\<forall>r\<in>set (map snd ?rs @ map (\<lambda>p. snd (snd p)) (gone (lo, hi) tp)). \<forall>x\<in>set (reader_entries r). entry_size x < 2 ^ 30"
      using sub fits unfolding cmp_fits_def by blast
  qed (use r(2,3) in auto)
  have fo: "findOverlapping e 1 (Some lo) (Some hi) = (map snd (gone (lo, hi) tp), map fst (gone (lo, hi) tp))"
    using findOverlapping_spec [OF _ tp(2,3,1), of lo hi] l' len by (simp add: gone_def)
  have gl: "GetLevel (e_manifest e) 0 = mf_levels (e_manifest e) ! 0" using l len by (auto simp: GetLevel_def)
  have "compactL0 io e = Some (e2, None)"
    unfolding compactL0_def using l0(2) r(1) fo gl mi0(1) step(1-3) by (simp add: Let_def)
  moreover have "tables_view e2 = tables_view e" if "l0_apart e" using step(9) front [OF that] by (simp add: fun_eq_iff)
  moreover have "tables_view e2 k = Some x" if "stack_view (level_tables e 0) k = Some x" for k x
    using step(10) that by (cases x) (simp add: level_tables_def comp_def)
  moreover have "tables_view e2 k = None" if n: "tables_view e k = None" for k
  proof -
    have "e_levels e \<noteq> []" using l by auto
    then have "stack_view (rev (level_tables e 0)) k = None" using n by (simp add: tables_view_levels split: option.splits)
    moreover from this have "stack_view (level_tables e 0) k = None" by (simp add: stack_view_None)
    ultimately show ?thesis using step(9) n by (simp add: level_tables_def comp_def)
  qed
  ultimately show ?thesis using step(4-8) by auto
qed

lemma compactL0_empty: "e_levels e ! 0 = [] \<Longrightarrow> compactL0 io e = Some (e, None)"
  by (simp add: compactL0_def)

end
