(* ===== verification/Engine_Steps.thy ===== *)
theory Engine_Steps
  imports Compaction
begin

text \<open>
  The engine as a step system: client writes, the flush goroutine one phase at a time, compactions, and
  restarts from the disk. A state has the engine, the program counter of the flush
  goroutine and a ghost, the map of the last value written to each key. An empty value does not survive a restart or a
  flush, so a key with an empty value may be found empty or not be found. No system call fails in these runs, the flush channel never fills, and the sizes stay within
  the formats' fields; what happens otherwise is the subject of other properties. A compaction is one
  step, so that no crash falls inside of it. One of level 0 is taken only when no key is in two tables of level 0 and the flush goroutine
  is not between its manifest record and the installation of its table: the other cases are the
  properties \<open>compaction_resurrects\<close> and \<open>compaction_race_loses\<close> of \<open>Compaction_Faults\<close>.

  The invariant relates log, memtables and tables: each frozen memtable that still waits has its own
  group of log segments, and purging removes exactly the segments whose records a table holds. It
  gives that reads always see the ghost map and that a restart at any moment finds it again.
\<close>

subsection \<open>The system\<close>

datatype flush_pc = FlIdle | FlBuild flushTask | FlInstall flushTask rdptr | FlRemove flushTask | FlPurge flushTask | FlSignal

record sys =
  s_eng :: Engine
  s_pc :: flush_pc
  s_abs :: "bytes \<Rightarrow> bytes option"

definition abs_write :: "(bytes \<Rightarrow> bytes option) \<Rightarrow> (bytes \<times> bytes option) list \<Rightarrow> bytes \<Rightarrow> bytes option" where
  "abs_write a kvs k = (case map_of (rev kvs) k of None \<Rightarrow> a k | Some v \<Rightarrow> v)"

definition write_fits :: "(nat \<Rightarrow> coins) \<Rightarrow> Engine \<Rightarrow> (bytes \<times> bytes option) list \<Rightarrow> bool" where
  "write_fits c e kvs \<longleftrightarrow> list_all rec_ok (map batchRecord kvs) \<and> length (flushCh e) < flushCap \<and>
     fileID (e_wal e) < fileID (e_wal e) + 1 \<and> mem_fits (fst (batchApply c (snd (e_memtable e)) kvs))"

inductive eng_step :: "sys \<Rightarrow> sys \<Rightarrow> bool" where
  Put: "Engine_Put (write_ok c) (s_eng s) k (Some v) = (e', r) \<Longrightarrow> write_fits c (s_eng s) [(k, Some v)] \<Longrightarrow>
    eng_step s (s\<lparr>s_eng := e', s_abs := abs_write (s_abs s) [(k, Some v)]\<rparr>)"
| Delete: "Engine_Delete (write_ok c) (s_eng s) k = (e', r) \<Longrightarrow> write_fits c (s_eng s) [(k, None)] \<Longrightarrow>
    eng_step s (s\<lparr>s_eng := e', s_abs := abs_write (s_abs s) [(k, None)]\<rparr>)"
| BatchPut: "length keys = length vs \<Longrightarrow> Engine_BatchPut (write_ok c) (s_eng s) keys vs = (e', r) \<Longrightarrow>
    write_fits c (s_eng s) (zip keys vs) \<Longrightarrow>
    eng_step s (s\<lparr>s_eng := e', s_abs := abs_write (s_abs s) (zip keys vs)\<rparr>)"
| Take: "s_pc s = FlIdle \<Longrightarrow> flushCh (s_eng s) = t # ts \<Longrightarrow>
    eng_step s (s\<lparr>s_eng := (s_eng s)\<lparr>flushCh := ts\<rparr>, s_pc := FlBuild t\<rparr>)"
| Build: "s_pc s = FlBuild t \<Longrightarrow> flushBuild flush_ok (s_eng s) t = Some (e', FlushBuilt pr) \<Longrightarrow>
    nextFileNum (s_eng s) < nextFileNum (s_eng s) + 1 \<Longrightarrow> eng_step s (s\<lparr>s_eng := e', s_pc := FlInstall t pr\<rparr>)"
| Install: "s_pc s = FlInstall t pr \<Longrightarrow> eng_step s (s\<lparr>s_eng := flushInstall (s_eng s) pr, s_pc := FlRemove t\<rparr>)"
| Remove: "s_pc s = FlRemove t \<Longrightarrow> eng_step s (s\<lparr>s_eng := removeImmutable (s_eng s) (ft_mem t), s_pc := FlPurge t\<rparr>)"
| Purge: "s_pc s = FlPurge t \<Longrightarrow> eng_step s (s\<lparr>s_eng := flushPurge flush_ok (s_eng s) t, s_pc := FlSignal\<rparr>)"
| Signal: "s_pc s = FlSignal \<Longrightarrow> eng_step s (s\<lparr>s_eng := signalCompaction (s_eng s), s_pc := FlIdle\<rparr>)"
| Restart: "Engine_Open (open_ok c) (e_opts (s_eng s)) (e_waldir (s_eng s)) (e_files (s_eng s)) (mf_file (e_manifest (s_eng s))) = (d, Ok e') \<Longrightarrow>
    mem_fits (snd (e_memtable e')) \<Longrightarrow> eng_step s (s\<lparr>s_eng := e', s_pc := FlIdle\<rparr>)"
| CompactL0: "(\<And>t pr. s_pc s \<noteq> FlInstall t pr) \<Longrightarrow> 1 < length (e_levels (s_eng s)) \<Longrightarrow> cmp_fits (s_eng s) 0 \<Longrightarrow> l0_apart (s_eng s) \<Longrightarrow>
    compactL0 cmp_ok (s_eng s) = Some (e', r) \<Longrightarrow> eng_step s (s\<lparr>s_eng := e'\<rparr>)"
| CompactLevel: "1 \<le> l \<Longrightarrow> Suc l < length (e_levels (s_eng s)) \<Longrightarrow> cmp_fits (s_eng s) l \<Longrightarrow>
    compactLevel cmp_ok (s_eng s) l = Some (e', r) \<Longrightarrow> eng_step s (s\<lparr>s_eng := e'\<rparr>)"

inductive eng_reach :: "sys \<Rightarrow> bool" where
  Fresh: "Engine_Open (open_ok c) opts [] (\<lambda>_. None) [] = (d, Ok e) \<Longrightarrow> eng_reach \<lparr>s_eng = e, s_pc = FlIdle, s_abs = (\<lambda>_. None)\<rparr>"
| Step: "eng_reach s \<Longrightarrow> eng_step s s' \<Longrightarrow> eng_reach s'"

subsection \<open>The invariant\<close>

definition mems_ok :: "Engine \<Rightarrow> bool" where
  "mems_ok e \<longleftrightarrow> distinct (map fst (e_memtable e # immutableMems e)) \<and>
     (\<forall>mp\<in>set (e_memtable e # immutableMems e). fst mp < e_nextptr e \<and> mem_fits (snd mp)) \<and>
     (\<forall>mp\<in>set (immutableMems e). mem_entries (snd mp) \<noteq> []) \<and>
     (mem_entries (snd (e_memtable e)) = [] \<longrightarrow> \<not> Memtable_ShouldFlush (snd (e_memtable e)))"

fun pending :: "flush_pc \<Rightarrow> flushTask list" where
  "pending (FlBuild t) = [t]"
| "pending (FlInstall t pr) = [t]"
| "pending (FlRemove t) = [t]"
| "pending _ = []"

fun pc_extra :: "flush_pc \<Rightarrow> Reader list" where
  "pc_extra (FlInstall t pr) = [snd pr]"
| "pc_extra _ = []"

definition table_for :: "flushTask \<Rightarrow> Reader \<Rightarrow> bool" where
  "table_for t r \<longleftrightarrow> reader_ok r \<and> reader_entries r = table_of (mem_entries (snd (ft_mem t)))"

fun pc_ok :: "Engine \<Rightarrow> flush_pc \<Rightarrow> bool" where
  "pc_ok e (FlInstall t pr) = table_for t (snd pr)"
| "pc_ok e (FlRemove t) = tables_cover e (snd (ft_mem t))"
| "pc_ok e (FlPurge t) = tables_cover e (snd (ft_mem t))"
| "pc_ok e _ = True"

text \<open>The identities of tables, and of the table under way.\<close>

definition tabs_ok :: "Engine \<Rightarrow> flush_pc \<Rightarrow> bool" where
  "tabs_ok e pc \<longleftrightarrow> ids_ok e \<and> l0_wf e \<and>
     (case pc of FlInstall t pr \<Rightarrow> rd_wf (snd pr) \<and> fst pr < e_nextptr e \<and> fst pr \<notin> fst ` set (e_levels e ! 0) | _ \<Rightarrow> True)"

definition queue_ok :: "Engine \<Rightarrow> flush_pc \<Rightarrow> bool" where
  "queue_ok e pc \<longleftrightarrow> map ft_mem (pending pc @ flushCh e) = rev (immutableMems e)"

text \<open>A group of log segments has the records of a memtable.\<close>

definition holds :: "segments \<Rightarrow> Memtable \<Rightarrow> bool" where
  "holds g m \<longleftrightarrow> (\<forall>k. recs_map (concat (map snd g)) k = map_option norm_value (map_of (mem_entries m) k))"

definition group_for :: "segments \<Rightarrow> flushTask \<Rightarrow> bool" where
  "group_for g t \<longleftrightarrow> g \<noteq> [] \<and> fst (last g) = ft_walID t \<and> holds g (snd (ft_mem t))"

fun old_ok :: "flush_pc \<Rightarrow> segments \<Rightarrow> bool" where
  "old_ok (FlPurge t) old = group_for old t"
| "old_ok _ old = (old = [])"

definition wal_ok :: "Engine \<Rightarrow> flush_pc \<Rightarrow> segments \<Rightarrow> segments list \<Rightarrow> segments \<Rightarrow> bool" where
  "wal_ok e pc old groups act \<longleftrightarrow> log_rep (e_waldir e) (e_wal e) (old @ concat groups @ act) \<and> act \<noteq> [] \<and>
     (\<forall>seg\<in>set (old @ concat groups @ act). 0 < fst seg) \<and>
     list_all2 group_for groups (pending pc @ flushCh e) \<and> holds act (snd (e_memtable e)) \<and> old_ok pc old"

definition sys_inv :: "sys \<Rightarrow> bool" where
  "sys_inv s \<longleftrightarrow> eng_inv (s_eng s) \<and> mems_ok (s_eng s) \<and> disk_ok (s_eng s) (pc_extra (s_pc s)) \<and> pc_ok (s_eng s) (s_pc s) \<and>
     queue_ok (s_eng s) (s_pc s) \<and> (\<exists>old groups act. wal_ok (s_eng s) (s_pc s) old groups act) \<and> view_as (s_abs s) (kv_view (s_eng s))"

lemma pc_ok_view: "tables_view e' = tables_view e \<Longrightarrow> pc_ok e' pc = pc_ok e pc"
  by (cases pc) (simp_all add: tables_cover_def)

lemma pc_ok_cong: "e_levels e' = e_levels e \<Longrightarrow> pc_ok e' pc = pc_ok e pc"
  by (rule pc_ok_view) (simp add: tables_view_def e_tables_def)

subsection \<open>Writes\<close>

lemma holds_append:
  assumes "holds act m" "act = ss @ [(i, recs)]"
    and "\<And>k. map_of (mem_entries m') k = (case map_of (rev kvs) k of None \<Rightarrow> map_of (mem_entries m) k | Some v \<Rightarrow> Some v)"
  shows "holds (ss @ [(i, recs @ map batchRecord kvs)]) m'"
proof -
  have r: "recs_map (concat (map snd (ss @ [(i, recs @ map batchRecord kvs)]))) = recs_map (concat (map snd act)) ++ recs_map (map batchRecord kvs)"
    by (simp add: assms(2) recs_map_append [symmetric])
  show ?thesis unfolding holds_def
  proof
    fix k
    show "recs_map (concat (map snd (ss @ [(i, recs @ map batchRecord kvs)]))) k = map_option norm_value (map_of (mem_entries m') k)"
      unfolding r recs_map_batch using assms(1) assms(3) [of k]
      by (simp add: holds_def map_add_def map_of_norm split: option.splits)
  qed
qed

lemma NewMemtable_small: "\<not> Memtable_ShouldFlush (NewMemtable n)"
  by (simp add: Memtable_ShouldFlush_def NewMemtable_def SkipList_Size_def NewSkipList_def defaultMaxSize_def)

text \<open>The log append and the memtable update of a write, before the memtable may be frozen.\<close>

lemma append_keeps:
  assumes inv: "sys_inv s" and fits: "write_fits c (s_eng s) kvs"
    and app: "WAL_AppendBatch io_ok (e_waldir (s_eng s)) (e_wal (s_eng s)) (map batchRecord kvs) = (d, w, err)"
    and m: "batchApply c (snd (e_memtable (s_eng s))) kvs = (m, r)"
  shows "err = None" "r = Ok ()"
    "sys_inv (s\<lparr>s_eng := (s_eng s)\<lparr>e_waldir := d, e_wal := w, e_memtable := (fst (e_memtable (s_eng s)), m)\<rparr>, s_abs := abs_write (s_abs s) kvs\<rparr>)"
    "fileID w = fileID (e_wal (s_eng s))"
proof -
  let ?e = "s_eng s"
  have ei: "eng_inv ?e" and mo: "mems_ok ?e" and "queue_ok ?e (s_pc s)" and kv: "view_as (s_abs s) (kv_view ?e)" using inv by (auto simp: sys_inv_def)
  have mi: "mem_inv (snd (e_memtable ?e))" "\<not> frozen (snd (e_memtable ?e))" using ei by (auto simp: eng_inv_def)
  have ok: "list_all rec_ok (map batchRecord kvs)" "mem_fits m" using fits m by (auto simp: write_fits_def)
  obtain m0 where m0: "batchApply c (snd (e_memtable ?e)) kvs = (m0, Ok ())" "mem_inv m0" "\<not> frozen m0"
    "map_of (mem_entries m0) = map_of (mem_entries (snd (e_memtable ?e))) ++ map_of (rev kvs)" using batchApply_spec [OF mi] by blast
  then show "r = Ok ()" using m by simp
  have m': "mem_inv m" "\<not> frozen m" "map_of (mem_entries m) = map_of (mem_entries (snd (e_memtable ?e))) ++ map_of (rev kvs)" using m m0 by auto
  obtain old groups act where wo: "wal_ok ?e (s_pc s) old groups act" using inv by (auto simp: sys_inv_def)
  obtain ss i recs where act: "act = ss @ [(i, recs)]" using wo by (metis append_butlast_last_id surj_pair wal_ok_def)
  have rep: "log_rep (e_waldir ?e) (e_wal ?e) ((old @ concat groups @ ss) @ [(i, recs)])" using wo act by (simp add: wal_ok_def)
  note ap = WAL_AppendBatch_rep [OF rep ok(1) app]
  show err: "err = None" using ap(3) by (simp add: io_ok_def)
  have rep': "log_rep d w ((old @ concat groups @ ss) @ [(i, recs @ map batchRecord kvs)])" using ap(2) err by simp
  show "fileID w = fileID (e_wal ?e)" using rep rep' by (simp add: log_rep_def)
  let ?e1 = "?e\<lparr>e_waldir := d, e_wal := w, e_memtable := (fst (e_memtable ?e), m)\<rparr>"
  have upd: "map_of (mem_entries m) k = (case map_of (rev kvs) k of None \<Rightarrow> map_of (mem_entries (snd (e_memtable ?e))) k | Some v \<Rightarrow> Some v)" for k
    using m'(3) by (simp add: map_add_def)
  have "holds (ss @ [(i, recs @ map batchRecord kvs)]) m" using holds_append [OF _ act upd] wo by (simp add: wal_ok_def)
  then have "wal_ok ?e1 (s_pc s) old groups (ss @ [(i, recs @ map batchRecord kvs)])" using wo rep' act by (simp add: wal_ok_def)
  moreover have "eng_inv ?e1" "view_as (abs_write (s_abs s) kvs) (kv_view ?e1)"
    using set_memtable_view [OF ei m'(1,2) refl upd] kv by (auto simp: view_as_def kv_view_def abs_write_def split: option.splits)
  moreover have "mems_ok ?e1"
  proof -
    have "\<not> Memtable_ShouldFlush m" if "mem_entries m = []"
    proof -
      have "kvs = []" using that m'(3) by (cases kvs rule: rev_cases) (auto simp: fun_eq_iff split: if_splits)
      then have "m = snd (e_memtable ?e)" using m by simp
      then show ?thesis using mo that by (simp add: mems_ok_def)
    qed
    then show ?thesis using mo ok(2) by (auto simp: mems_ok_def)
  qed
  moreover have "disk_ok ?e1 (pc_extra (s_pc s))" "queue_ok ?e1 (s_pc s)" using inv by (auto simp: sys_inv_def disk_ok_def disk_tables_def queue_ok_def)
  moreover have "pc_ok ?e1 (s_pc s)" using inv pc_ok_cong [of ?e1 ?e] by (simp add: sys_inv_def)
  ultimately show "sys_inv (s\<lparr>s_eng := ?e1, s_abs := abs_write (s_abs s) kvs\<rparr>)" unfolding sys_inv_def by auto
qed

text \<open>Freezing the memtable: its segments become a group of their own.\<close>

lemma schedule_keeps:
  assumes inv: "sys_inv s" and ch: "length (flushCh (s_eng s)) < flushCap" and nw: "fileID (e_wal (s_eng s)) < fileID (e_wal (s_eng s)) + 1"
  shows "sys_inv (s\<lparr>s_eng := maybeScheduleFlush io_ok (s_eng s)\<rparr>)"
proof (cases "Memtable_ShouldFlush (snd (e_memtable (s_eng s)))")
  case False
  then show ?thesis using inv by (simp add: maybeScheduleFlush_def)
next
  case True
  let ?e = "s_eng s"
  obtain old groups act where wo: "wal_ok ?e (s_pc s) old groups act" using inv by (auto simp: sys_inv_def)
  obtain d w r where rot: "WAL_Rotate io_ok (e_waldir ?e) (e_wal ?e) = (d, w, r)" by (metis prod_cases3)
  have rep: "log_rep (e_waldir ?e) (e_wal ?e) (old @ concat groups @ act)" and ane: "act \<noteq> []" using wo by (auto simp: wal_ok_def)
  note rr = WAL_Rotate_rep [OF rep nw rot]
  have r: "r = Ok (fileID (e_wal ?e))" using rr(3) by (simp add: io_ok_def)
  have rep': "log_rep d w ((old @ concat groups @ act) @ [(fileID (e_wal ?e) + 1, [])])" using rr(1) [OF r] by simp
  define fz where "fz = (fst (e_memtable ?e), Memtable_Freeze (snd (e_memtable ?e)))"
  define t where "t = \<lparr>ft_mem = fz, ft_walID = fileID (e_wal ?e)\<rparr>"
  define e' where "e' = ?e\<lparr>e_waldir := d, e_wal := w, immutableMems := fz # immutableMems ?e,
     e_memtable := (e_nextptr ?e, NewMemtable (MemtableSize (e_opts ?e))), e_nextptr := Suc (e_nextptr ?e), flushCh := flushCh ?e @ [t]\<rparr>"
  have e': "maybeScheduleFlush io_ok ?e = e'"
    using True rot ch r by (simp add: maybeScheduleFlush_def e'_def fz_def t_def Let_def)
  have ei: "eng_inv ?e" and mo: "mems_ok ?e" using inv by (auto simp: sys_inv_def)
  have ents: "mem_entries (snd fz) = mem_entries (snd (e_memtable ?e))" using mem.freeze_ok ei by (simp add: fz_def eng_inv_def)
  have last: "fst (last act) = fileID (e_wal ?e)" using rep ane by (simp add: log_rep_def)
  have "group_for act t" using wo ane last by (simp add: group_for_def t_def wal_ok_def holds_def ents)
  moreover have "0 < fileID (e_wal ?e) + 1" using nw by (metis le_less_trans word_zero_le)
  moreover have "holds [(fileID (e_wal ?e) + 1, [])] (NewMemtable n)" for n by (simp add: holds_def recs_map_def)
  ultimately have "wal_ok e' (s_pc s) old (groups @ [act]) [(fileID (e_wal ?e) + 1, [])]"
    using wo rep' by (auto simp: wal_ok_def e'_def list_all2_appendI simp flip: append_assoc)
  moreover have "mems_ok e'"
  proof -
    have "mem_fits (NewMemtable n)" for n by (simp add: mem_fits_def mem_ient_def sst_bound_def)
    moreover have "mem_entries (snd fz) \<noteq> []" using mo True ents by (auto simp: mems_ok_def)
    moreover have "mem_fits (snd fz)" using mo ents by (simp add: mems_ok_def mem_fits_def)
    ultimately show ?thesis using mo by (auto simp: mems_ok_def e'_def NewMemtable_small fz_def)
  qed
  moreover have "queue_ok e' (s_pc s)" using inv by (simp add: sys_inv_def queue_ok_def e'_def t_def)
  moreover have "disk_ok e' (pc_extra (s_pc s))" using inv by (auto simp: sys_inv_def disk_ok_def disk_tables_def e'_def)
  moreover have "pc_ok e' (s_pc s)" using inv pc_ok_cong [of e' ?e] by (simp add: sys_inv_def e'_def)
  moreover have "eng_inv e'" "view_as (s_abs s) (kv_view e')"
    using maybeScheduleFlush_view [OF ei, of io_ok] inv by (auto simp: e' sys_inv_def kv_view_def fun_eq_iff)
  ultimately show ?thesis unfolding e' sys_inv_def by auto
qed

lemma batch_keeps:
  assumes inv: "sys_inv s" and fits: "write_fits c (s_eng s) (zip keys vs)" and len: "length keys = length vs"
    and run: "Engine_BatchPut (write_ok c) (s_eng s) keys vs = (e', r)"
  shows "r = Ok () \<and> sys_inv (s\<lparr>s_eng := e', s_abs := abs_write (s_abs s) (zip keys vs)\<rparr>)"
proof -
  let ?e = "s_eng s" and ?kvs = "zip keys vs"
  obtain d w err where app: "WAL_AppendBatch io_ok (e_waldir ?e) (e_wal ?e) (map batchRecord ?kvs) = (d, w, err)" by (metis prod_cases3)
  obtain m rm where m: "batchApply c (snd (e_memtable ?e)) ?kvs = (m, rm)" by (metis prod.exhaust)
  note ap = append_keeps [OF inv fits app m]
  define s1 where "s1 = s\<lparr>s_eng := ?e\<lparr>e_waldir := d, e_wal := w, e_memtable := (fst (e_memtable ?e), m)\<rparr>, s_abs := abs_write (s_abs s) ?kvs\<rparr>"
  have "sys_inv s1" using ap(3) by (simp add: s1_def)
  moreover have "length (flushCh (s_eng s1)) < flushCap" "fileID (e_wal (s_eng s1)) < fileID (e_wal (s_eng s1)) + 1"
    using fits ap(4) by (auto simp: s1_def write_fits_def)
  ultimately have "sys_inv (s1\<lparr>s_eng := maybeScheduleFlush io_ok (s_eng s1)\<rparr>)" by (rule schedule_keeps)
  moreover have "e' = maybeScheduleFlush io_ok (s_eng s1)" "r = Ok ()"
    using run app m ap(1,2) len by (simp_all add: Engine_BatchPut_def write_ok_def Let_def s1_def)
  ultimately show ?thesis by (simp add: s1_def sys_inv_def)
qed

subsection \<open>Flush phases\<close>

lemma take_keeps:
  assumes "sys_inv s" "s_pc s = FlIdle" "flushCh (s_eng s) = t # ts"
  shows "sys_inv (s\<lparr>s_eng := (s_eng s)\<lparr>flushCh := ts\<rparr>, s_pc := FlBuild t\<rparr>)"
proof -
  let ?e = "s_eng s" and ?e' = "(s_eng s)\<lparr>flushCh := ts\<rparr>"
  have "eng_inv ?e'" "engine_view ?e' = engine_view ?e" using eng_same [of ?e ?e'] assms(1) by (auto simp: sys_inv_def)
  then show ?thesis using assms
    by (auto simp: sys_inv_def mems_ok_def disk_ok_def disk_tables_def queue_ok_def wal_ok_def kv_view_def fun_eq_iff)
qed

lemma first_pending:
  assumes "sys_inv s" "pending (s_pc s) = [t]"
  obtains ims where "immutableMems (s_eng s) = ims @ [ft_mem t]" "fst (ft_mem t) \<notin> fst ` set ims"
    "mem_inv (snd (ft_mem t))" "mem_fits (snd (ft_mem t))" "mem_entries (snd (ft_mem t)) \<noteq> []"
proof -
  have "rev (immutableMems (s_eng s)) = ft_mem t # map ft_mem (flushCh (s_eng s))" using assms by (simp add: sys_inv_def queue_ok_def)
  then have im: "immutableMems (s_eng s) = rev (map ft_mem (flushCh (s_eng s))) @ [ft_mem t]" by (metis rev.simps(2) rev_rev_ident)
  then show thesis using assms(1)
    by (intro that [of "rev (map ft_mem (flushCh (s_eng s)))"]) (auto simp: sys_inv_def mems_ok_def eng_inv_def)
qed

lemma sst_keys_bound: "e \<in> set es \<Longrightarrow> sst_bound es < 2 ^ 32 \<Longrightarrow> length (fst e) < 2 ^ 32"
proof -
  assume e: "e \<in> set es" and b: "sst_bound es < 2 ^ 32"
  have "entry_size e \<le> (\<Sum>x\<leftarrow>es. 2 * entry_size x + 40)" using e by (induction es) auto
  then show ?thesis using b by (simp add: sst_bound_def entry_size_def)
qed

text \<open>The range of a table is made of keys of the memtable it was built from.\<close>

lemma table_range_keys:
  assumes "reader_ok r" "reader_entries r = table_of es" "es \<noteq> []"
  shows "\<exists>lo hi. Reader_MinKey r = Some lo \<and> Reader_MaxKey r = Some hi \<and> lo \<in> fst ` set es \<and> hi \<in> fst ` set es"
proof -
  let ?c = "concat (reader_blocks r)"
  have rep: "reader_rep r (reader_blocks r)" using assms(1) by (simp add: reader_ok_def)
  have keys: "map e_key ?c = map fst es"
  proof -
    have "map fst (sst_ient ?c) = map fst (table_of es)" using assms(2) by (simp add: reader_entries_def)
    then show ?thesis by (simp add: sst_ient_def table_of_def comp_def split_def)
  qed
  then have ne: "?c \<noteq> []" using assms(3) by (metis map_is_Nil_conv)
  then have "e_key (hd ?c) \<in> set (map e_key ?c)" "e_key (last ?c) \<in> set (map e_key ?c)"
    by (metis hd_in_set image_eqI set_map, metis last_in_set image_eqI set_map)
  moreover have "reader_blocks r \<noteq> []" using ne by auto
  ultimately show ?thesis using rep unfolding keys by (simp add: Reader_MinKey_def Reader_MaxKey_def reader_rep_def)
qed

lemma disk_tables_Nil: "e_levels e \<noteq> [] \<Longrightarrow> disk_tables e [] = map (map snd) (e_levels e)"
  by (cases "e_levels e") (simp_all add: disk_tables_def)

lemma disk_tables_length [simp]: "length (disk_tables e extra) = length (e_levels e)"
  by (simp add: disk_tables_def)

text \<open>A manifest record for a new table file and the file itself extend the disk's first level.\<close>

lemma disk_add_L0:
  assumes d: "disk_ok e []" and ne: "e_levels e \<noteq> []" and len: "length (mf_levels (e_manifest e)) = length (e_levels e)"
    and add: "AddFile mf_ok (e_manifest e) meta = (m', None)"
    and meta: "FileNum meta = nextFileNum e" "Level meta = 0" "length (fm_MinKey meta) < 2 ^ 32" "length (fm_MaxKey meta) < 2 ^ 32"
    and op: "OpenReader rd_ok c = Ok r" and nw: "nextFileNum e < nextFileNum e + 1"
    and e': "e' = e\<lparr>nextFileNum := nextFileNum e + 1, e_manifest := m', e_files := (e_files e)(sstPath (nextFileNum e) \<mapsto> c), e_nextptr := p\<rparr>"
  shows "disk_ok e' [r]"
proof -
  let ?L = "mf_levels (e_manifest e)" and ?n = "nextFileNum e" and ?f = "(e_files e)(sstPath (nextFileNum e) \<mapsto> c)"
  have run: "mf_run mf_ok (e_manifest e) (Add_op meta) = (m', None)" using add by (simp add: mf_run_def)
  obtain rs where rs: "manifest_is (e_manifest e) (length (e_levels e)) rs" using d by (auto simp: disk_ok_def)
  have "mrec_ok (op_record (Add_op meta))" using meta by (simp add: mrec_ok_def op_record_def)
  then have 1: "manifest_is m' (length (e_levels e)) (rs @ [op_record (Add_op meta)])" using mf_run_is [OF rs run] by simp
  have L: "mf_levels m' = ?L[0 := ?L ! 0 @ [meta]]" using AddFile_levels(1) [OF add] meta(2) ne len by (cases "?L") auto
  have fn: "\<forall>x\<in>set (concat ?L). FileNum x < ?n" using d by (simp add: disk_ok_def)
  then have fresh: "\<forall>x\<in>set (concat ?L). FileNum x \<noteq> ?n" by (metis less_irrefl)
  have dl: "disk_levels ?f ?L (map (map snd) (e_levels e))"
    using opens_as_new_file [OF _ fresh] d ne by (cases "e_levels e") (auto simp: disk_ok_def disk_tables_def)
  have new: "opens_as ?f meta r" using op meta(1) by (simp add: opens_as_def)
  obtain x xs y ys where xy: "?L = x # xs" "map (map snd) (e_levels e) = y # ys" using ne len by (metis length_0_conv list.exhaust map_is_Nil_conv)
  have "disk_levels ?f (?L[0 := ?L ! 0 @ [meta]]) ((map (map snd) (e_levels e))[0 := y @ [r]])"
    using dl new unfolding xy by (simp add: disk_levels_def list_all2_appendI)
  moreover have "map snd (e_levels e ! 0) = y" using xy(2) by (cases "e_levels e") auto
  ultimately have 2: "disk_levels ?f (mf_levels m') (disk_tables e' [r])" by (simp add: L disk_tables_def e')
  have 3: "\<forall>x\<in>set (concat (mf_levels m')). FileNum x < ?n + 1"
  proof -
    have "set (concat (mf_levels m')) \<subseteq> insert meta (set (concat ?L))" unfolding L xy(1) by auto
    then have "x = meta \<or> x \<in> set (concat ?L)" if "x \<in> set (concat (mf_levels m'))" for x using that by blast
    then show ?thesis using fn nw meta(1) less_trans [OF _ nw] by (metis (no_types))
  qed
  show ?thesis using 1 2 3 d by (auto simp: disk_ok_def e')
qed

lemma build_keeps:
  assumes inv: "sys_inv s" and pc: "s_pc s = FlBuild t" and run: "flushBuild flush_ok (s_eng s) t = Some (e', FlushBuilt pr)"
    and nw: "nextFileNum (s_eng s) < nextFileNum (s_eng s) + 1"
  shows "sys_inv (s\<lparr>s_eng := e', s_pc := FlInstall t pr\<rparr>)"
proof -
  let ?e = "s_eng s"
  have pe: "pending (s_pc s) = [t]" using pc by simp
  have t: "mem_inv (snd (ft_mem t))" "mem_fits (snd (ft_mem t))" "mem_entries (snd (ft_mem t)) \<noteq> []"
    using first_pending [OF inv pe] by auto
  have ei: "eng_inv ?e" and dk: "disk_ok ?e []" using inv pc by (auto simp: sys_inv_def)
  obtain c meta m' where e': "e' = ?e\<lparr>nextFileNum := nextFileNum ?e + 1, e_manifest := m',
      e_files := (e_files ?e)(sstPath (nextFileNum ?e) \<mapsto> c), e_nextptr := Suc (e_nextptr ?e)\<rparr>"
    and b: "AddFile mf_ok (e_manifest ?e) meta = (m', None)" "OpenReader rd_ok c = Ok (snd pr)"
    "reader_ok (snd pr)" "reader_entries (snd pr) = table_of (mem_entries (snd (ft_mem t)))"
    "FileNum meta = nextFileNum ?e" "Level meta = 0" "fm_MinKey meta = val_bytes (Reader_MinKey (snd pr))" "fm_MaxKey meta = val_bytes (Reader_MaxKey (snd pr))"
    using flushBuild_Built [OF t(1,2) run] by (auto simp: flush_ok_def)
  have kl: "length k < 2 ^ 32" if k: "k \<in> fst ` set (mem_entries (snd (ft_mem t)))" for k
  proof -
    have "fst ` set (mem_ient (mem_entries (snd (ft_mem t)))) = fst ` set (mem_entries (snd (ft_mem t)))"
      by (simp add: mem_ient_def image_image split_def)
    then obtain x where x: "x \<in> set (mem_ient (mem_entries (snd (ft_mem t))))" "k = fst x" using k by blast
    then show ?thesis using sst_keys_bound [OF x(1)] t(2) by (simp add: mem_fits_def)
  qed
  obtain lo hi where lh: "Reader_MinKey (snd pr) = Some lo" "Reader_MaxKey (snd pr) = Some hi" "length lo < 2 ^ 32" "length hi < 2 ^ 32"
    using table_range_keys [OF b(3,4) t(3)] kl by blast
  have "disk_ok e' [snd pr]"
  proof (rule disk_add_L0 [OF dk _ _ b(1,5,6) _ _ b(2) nw e'])
    show "length (fm_MinKey meta) < 2 ^ 32" "length (fm_MaxKey meta) < 2 ^ 32"
      using lh by (simp_all add: b(7,8) val_bytes_def)
  qed (use ei in \<open>auto simp: eng_inv_def\<close>)
  moreover have "eng_inv e'" "engine_view e' = engine_view ?e" using flushBuild_Built_inv [OF ei t(1,2) run] by auto
  moreover have "mems_ok e'" using inv by (auto simp: sys_inv_def mems_ok_def e')
  moreover have "queue_ok e' (FlInstall t pr)" "pc_ok e' (FlInstall t pr)" using inv pc b by (auto simp: sys_inv_def queue_ok_def e' table_for_def)
  moreover have "wal_ok e' (FlInstall t pr) old groups act = wal_ok ?e (FlBuild t) old groups act" for old groups act
    by (simp add: wal_ok_def e')
  ultimately show ?thesis using inv pc by (auto simp: sys_inv_def kv_view_def fun_eq_iff)
qed

lemma install_keeps:
  assumes inv: "sys_inv s" and pc: "s_pc s = FlInstall t pr"
  shows "sys_inv (s\<lparr>s_eng := flushInstall (s_eng s) pr, s_pc := FlRemove t\<rparr>)"
proof -
  let ?e = "s_eng s" and ?e' = "flushInstall (s_eng s) pr"
  have pe: "pending (s_pc s) = [t]" using pc by simp
  obtain ims where im: "immutableMems ?e = ims @ [ft_mem t]" using first_pending [OF inv pe] .
  have ei: "eng_inv ?e" and tf: "table_for t (snd pr)" and ne: "e_levels ?e \<noteq> []" using inv pc by (auto simp: sys_inv_def eng_inv_def)
  have "eng_inv ?e'" "engine_view ?e' = engine_view ?e"
    using flushInstall_view [OF ei, of pr "snd (ft_mem t)"] tf im by (auto simp: table_for_def)
  moreover have "disk_tables ?e' [] = disk_tables ?e [snd pr]"
    using ne by (cases "e_levels ?e") (auto simp: disk_tables_def flushInstall_def)
  then have "disk_ok ?e' []" using inv pc by (auto simp: sys_inv_def disk_ok_def flushInstall_def)
  moreover have "pc_ok ?e' (FlRemove t)" using tf ne newest_covers [of ?e' "e_levels ?e ! 0" pr] by (simp add: flushInstall_def table_for_def)
  moreover have "mems_ok ?e'" "queue_ok ?e' (FlRemove t)" using inv pc by (auto simp: sys_inv_def mems_ok_def queue_ok_def flushInstall_def)
  moreover have "wal_ok ?e' (FlRemove t) old groups act = wal_ok ?e (FlInstall t pr) old groups act" for old groups act
    by (simp add: wal_ok_def flushInstall_def)
  ultimately show ?thesis using inv pc by (auto simp: sys_inv_def kv_view_def fun_eq_iff)
qed

lemma remove_keeps:
  assumes inv: "sys_inv s" and pc: "s_pc s = FlRemove t"
  shows "sys_inv (s\<lparr>s_eng := removeImmutable (s_eng s) (ft_mem t), s_pc := FlPurge t\<rparr>)"
proof -
  let ?e = "s_eng s" and ?e' = "removeImmutable (s_eng s) (ft_mem t)"
  obtain p m where pm: "ft_mem t = (p, m)" by (cases "ft_mem t")
  have pe: "pending (s_pc s) = [t]" using pc by simp
  obtain ims where im: "immutableMems ?e = ims @ [ft_mem t]" "fst (ft_mem t) \<notin> fst ` set ims" using first_pending [OF inv pe] .
  have ei: "eng_inv ?e" using inv by (simp add: sys_inv_def)
  have cov: "tables_cover ?e (snd (ft_mem t))" using inv pc by (simp add: sys_inv_def)
  have kv: "kv_view ?e' = kv_view ?e"
    using removeImmutable_view [OF ei im(1) [unfolded pm]] cov im(2) by (simp add: pm)
  have im': "immutableMems ?e' = ims" using im by (simp add: removeImmutable_def pm remove_ptr_last)
  have "eng_inv ?e'" by (rule removeImmutable_keeps [OF ei])
  moreover have "mems_ok ?e'"
  proof -
    have "e_memtable ?e' = e_memtable ?e" "e_nextptr ?e' = e_nextptr ?e" by (simp_all add: removeImmutable_def)
    moreover have "mems_ok ?e" using inv by (simp add: sys_inv_def)
    ultimately show ?thesis unfolding mems_ok_def im' im(1) by simp
  qed
  moreover have "disk_ok ?e' []" using inv pc by (auto simp: sys_inv_def disk_ok_def disk_tables_def removeImmutable_def)
  moreover have "pc_ok ?e' (FlPurge t)" using pc_ok_cong [of ?e' ?e "FlPurge t"] cov by (simp add: removeImmutable_def)
  moreover have "queue_ok ?e' (FlPurge t)" using inv pc im(1) by (auto simp: sys_inv_def queue_ok_def im') (auto simp: removeImmutable_def)
  moreover have "\<exists>old groups act. wal_ok ?e' (FlPurge t) old groups act"
  proof -
    obtain old groups act where wo: "wal_ok ?e (FlRemove t) old groups act" using inv pc by (auto simp: sys_inv_def)
    then obtain g gs where g: "groups = g # gs" "group_for g t" "list_all2 group_for gs (flushCh ?e)" "old = []"
      by (auto simp: wal_ok_def list_all2_Cons2)
    then have "wal_ok ?e' (FlPurge t) g gs act" using wo by (simp add: wal_ok_def removeImmutable_def)
    then show ?thesis by blast
  qed
  ultimately show ?thesis using inv kv by (simp add: sys_inv_def)
qed

lemma filter_purge:
  assumes "sorted_wrt (<) (map fst (xs @ ys))" "xs \<noteq> []" "fst (last xs) = (i :: 64 word)"
  shows "filter (\<lambda>seg. \<not> fst seg \<le> i) (xs @ ys) = ys"
proof -
  have x: "fst seg \<le> i" if "seg \<in> set xs" for seg
    using that assms sorted_le_last [of "map fst xs" "fst seg"] by (simp add: sorted_wrt_append last_map)
  have "fst (last xs) < fst seg" if "seg \<in> set ys" for seg
    using that assms(1,2) by (simp add: sorted_wrt_append)
  then have "\<not> fst seg \<le> i" if "seg \<in> set ys" for seg using that unfolding assms(3) by (simp add: not_le)
  then show ?thesis using x by simp
qed

lemma purge_keeps:
  assumes inv: "sys_inv s" and pc: "s_pc s = FlPurge t"
  shows "sys_inv (s\<lparr>s_eng := flushPurge flush_ok (s_eng s) t, s_pc := FlSignal\<rparr>)"
proof -
  let ?e = "s_eng s" and ?e' = "flushPurge flush_ok (s_eng s) t"
  obtain old groups act where wo: "wal_ok ?e (FlPurge t) old groups act" using inv pc by (auto simp: sys_inv_def)
  let ?segs = "old @ concat groups @ act"
  have rep: "log_rep (e_waldir ?e) (e_wal ?e) ?segs" and ane: "act \<noteq> []" and old: "old \<noteq> []" "fst (last old) = ft_walID t"
    and pos: "\<forall>seg\<in>set ?segs. 0 < fst seg"
    using wo by (auto simp: wal_ok_def group_for_def)
  have srt: "sorted_wrt (<) (map fst ?segs)" using rep by (simp add: log_rep_def dir_rep_def)
  have w: "0 < ft_walID t" using pos old by (metis Un_iff last_in_set set_append)
  have less: "ft_walID t < fst (last ?segs)"
  proof -
    have "fst (last old) < fst (last act)" using srt old(1) ane by (simp add: sorted_wrt_append)
    then show ?thesis using ane old(2) by simp
  qed
  obtain d err where p: "WAL_PurgeOlderThan io_ok (e_waldir ?e) (ft_walID t) = (d, err)" by (metis prod.exhaust)
  have "wal_is (wal_step (e_waldir ?e, e_wal ?e) (Purge_upto (ft_walID t))) (abs_step ?segs (Purge_upto (ft_walID t)))"
    by (rule wal_step_rep) (use rep less in \<open>simp_all add: wal_is_def\<close>)
  then have "log_rep d (e_wal ?e) (concat groups @ act)" using p filter_purge [OF srt old] by (simp add: wal_is_def)
  moreover have e': "?e' = ?e\<lparr>e_waldir := d\<rparr>" using w p by (simp add: flushPurge_def flush_ok_def)
  ultimately have "wal_ok ?e' FlSignal [] groups act" using wo by (simp add: wal_ok_def)
  moreover have "eng_inv ?e'" "engine_view ?e' = engine_view ?e" using eng_same [of ?e ?e'] inv by (auto simp: sys_inv_def e')
  moreover have "mems_ok ?e'" "disk_ok ?e' []" "queue_ok ?e' FlSignal"
    using inv pc by (auto simp: sys_inv_def mems_ok_def disk_ok_def disk_tables_def queue_ok_def e')
  ultimately show ?thesis using inv by (auto simp: sys_inv_def kv_view_def fun_eq_iff)
qed

lemma signal_keeps:
  assumes "sys_inv s" "s_pc s = FlSignal"
  shows "sys_inv (s\<lparr>s_eng := signalCompaction (s_eng s), s_pc := FlIdle\<rparr>)"
proof -
  let ?e = "s_eng s" and ?e' = "signalCompaction (s_eng s)"
  have "eng_inv ?e'" "engine_view ?e' = engine_view ?e"
    using eng_same [of ?e ?e'] assms(1) by (auto simp: sys_inv_def signalCompaction_def)
  then show ?thesis using assms
    by (auto simp: sys_inv_def mems_ok_def disk_ok_def disk_tables_def queue_ok_def wal_ok_def kv_view_def fun_eq_iff signalCompaction_def)
qed

subsection \<open>Restarts\<close>

text \<open>What the log says is what the memtables say.\<close>

lemma groups_view:
  "list_all2 group_for gs ts \<Longrightarrow> recs_map (concat (map snd (concat gs))) k =
     map_option norm_value (first_some (map (\<lambda>m. map_of (mem_entries (snd m)) k) (rev (map ft_mem ts))))"
proof (induction gs ts rule: list_all2_induct)
  case (Cons g gs t ts)
  then show ?case by (simp add: recs_map_append map_add_def first_some_append group_for_def holds_def split: option.splits)
qed (simp add: recs_map_def)

lemma stack_mems:
  "stack_view (source_ents ms []) k = map_option (\<lambda>v. (v, v = None)) (first_some (map (\<lambda>m. map_of (mem_entries m) k) ms))"
  by (induction ms) (simp_all add: source_ents_def map_of_mem_ient split: option.splits)

lemma wal_view:
  assumes q: "queue_ok e pc" and wo: "wal_ok e pc old groups act"
  shows "recs_map (concat (map snd (concat groups @ act))) k =
    map_option norm_value (first_some (map (\<lambda>m. map_of (mem_entries m) k) (e_mems e)))"
proof -
  have im: "rev (map ft_mem (pending pc @ flushCh e)) = immutableMems e" using q by (simp add: queue_ok_def)
  have g: "recs_map (concat (map snd (concat groups))) k =
    map_option norm_value (first_some (map (\<lambda>m. map_of (mem_entries (snd m)) k) (immutableMems e)))"
    using groups_view [of groups "pending pc @ flushCh e" k] wo unfolding im by (simp add: wal_ok_def)
  have a: "recs_map (concat (map snd act)) k = map_option norm_value (map_of (mem_entries (snd (e_memtable e))) k)"
    using wo by (simp add: wal_ok_def holds_def)
  show ?thesis using g a by (simp add: recs_map_append map_add_def e_mems_def comp_def split: option.splits)
qed

text \<open>The tables of an engine that was opened on the disk.\<close>

definition flat_tables :: "Reader list list \<Rightarrow> Reader list" where
  "flat_tables rss = rev (hd rss) @ concat (tl rss)"

lemma e_tables_flat: "e_levels e \<noteq> [] \<Longrightarrow> e_tables e = flat_tables (map (map snd) (e_levels e))"
  by (cases "e_levels e") (simp_all add: e_tables_def flat_tables_def map_concat)

lemma flat_disk_tables: "e_levels e \<noteq> [] \<Longrightarrow> flat_tables (disk_tables e extra) = rev extra @ e_tables e"
  by (cases "e_levels e") (simp_all add: disk_tables_def flat_tables_def e_tables_def map_concat)

text \<open>Replaying the whole log on top of the tables on disk gives what clients see.\<close>

lemma recovered_view:
  assumes inv: "sys_inv s" and wo: "wal_ok (s_eng s) (s_pc s) old groups act"
  shows "value_as (kv_view (s_eng s) k) (case recs_map (concat (map snd (old @ concat groups @ act))) k of Some v \<Rightarrow> v
      | None \<Rightarrow> user_value (stack_view (map reader_entries (flat_tables (disk_tables (s_eng s) (pc_extra (s_pc s))))) k))"
proof -
  let ?e = "s_eng s" and ?pc = "s_pc s"
  let ?M = "first_some (map (\<lambda>m. map_of (mem_entries m) k) (e_mems ?e))"
  have ne: "e_levels ?e \<noteq> []" and q: "queue_ok ?e ?pc" and pco: "pc_ok ?e ?pc" using inv by (auto simp: sys_inv_def eng_inv_def)
  have kv: "kv_view ?e k = (case ?M of Some v \<Rightarrow> v | None \<Rightarrow> user_value (stack_view (map reader_entries (e_tables ?e)) k))"
    by (simp add: kv_view_def engine_view_def source_ents_split [of _ "e_tables ?e"] stack_mems split: option.splits)
  have rm: "recs_map (concat (map snd (old @ concat groups @ act))) k =
    (case ?M of Some v \<Rightarrow> Some (norm_value v) | None \<Rightarrow> recs_map (concat (map snd old)) k)"
    using wal_view [OF q wo, of k] by (simp add: recs_map_append map_add_def split: option.splits)
  show ?thesis
  proof (cases ?M)
    case (Some v)
    then show ?thesis unfolding kv rm by (simp add: value_as_norm)
  next
    case None
    have dt: "stack_view (map reader_entries (flat_tables (disk_tables ?e (pc_extra ?pc)))) k = stack_view (map reader_entries (e_tables ?e)) k"
    proof (cases "\<exists>t pr. ?pc = FlInstall t pr")
      case True
      then obtain t pr where pc: "?pc = FlInstall t pr" by blast
      have "ft_mem t \<in> set (immutableMems ?e)" using q pc by (metis queue_ok_def append_Cons in_set_conv_decomp list.simps(9) pending.simps(2) self_append_conv2 set_rev)
      then have "map_of (mem_entries (snd (ft_mem t))) k \<in> set (map (\<lambda>m. map_of (mem_entries m) k) (e_mems ?e))"
        by (force simp: e_mems_def)
      then have "map_of (mem_entries (snd (ft_mem t))) k = None" using None by (simp only: first_some_None)
      then have "map_of (reader_entries (snd pr)) k = None" using pco pc by (simp add: table_for_def map_of_table_of)
      then show ?thesis using pc by (simp add: flat_disk_tables [OF ne])
    next
      case False
      then have "pc_extra ?pc = []" by (cases ?pc) auto
      then show ?thesis by (simp add: flat_disk_tables [OF ne])
    qed
    show ?thesis
    proof (cases "\<exists>t. ?pc = FlPurge t")
      case False
      then have "old = []" using wo by (cases ?pc) (auto simp: wal_ok_def)
      then show ?thesis unfolding kv rm using None dt by (simp add: recs_map_def)
    next
      case True
      then obtain t where pc: "?pc = FlPurge t" by blast
      have h: "recs_map (concat (map snd old)) k = map_option norm_value (map_of (mem_entries (snd (ft_mem t))) k)"
        using wo pc by (simp add: wal_ok_def group_for_def holds_def)
      have "tables_cover ?e (snd (ft_mem t))" using pco pc by simp
      then show ?thesis unfolding kv rm using None dt h by (auto simp: tables_cover_def tables_view_def value_as_norm split: option.splits)
    qed
  qed
qed

lemma level_ok_cong: "map snd rs = map snd rs' \<Longrightarrow> level_ok ms rs = level_ok ms rs'"
proof -
  assume m: "map snd rs = map snd rs'"
  have l: "length rs = length rs'" using m by (metis length_map)
  have "snd (rs ! i) = snd (rs' ! i)" if "i < length rs" for i using m l that by (metis nth_map)
  then have "list_all2 meta_for ms rs = list_all2 meta_for ms rs'" using l by (auto simp: list_all2_conv_all_nth meta_for_def)
  moreover have "(\<forall>r\<in>set rs. rd_wf (snd r)) = (\<forall>r\<in>set rs'. rd_wf (snd r))" using m by (metis (mono_tags) image_iff set_map)
  ultimately show ?thesis by (simp add: level_ok_def)
qed

lemma recs_map_norm: "map_option norm_value (recs_map rs k) = recs_map rs k"
proof (induction rs rule: rev_induct)
  case (snoc r rs)
  have "map_option norm_value (recs_map [r] k) = recs_map [r] k"
    by (auto simp: recs_map_def rec_writes_def norm_rec_def)
  then show ?case using snoc by (auto simp: recs_map_append map_add_def split: option.splits)
qed (simp add: recs_map_def)

lemma less_Suc_word: "(x :: 64 word) < n \<Longrightarrow> x < x + 1"
  by unat_arith

lemma maxFileNum_less:
  assumes "\<forall>meta\<in>set (concat lv). FileNum meta < n"
  shows "\<forall>meta\<in>set (concat lv). FileNum meta < maxFileNum lv + 1"
proof -
  let ?f = "\<lambda>meta m. if FileNum meta > m then FileNum meta else m"
  have mono: "m \<le> fold ?f xs m \<and> (\<forall>x\<in>set xs. FileNum x \<le> fold ?f xs m) \<and> (m < n \<longrightarrow> (\<forall>x\<in>set xs. FileNum x < n) \<longrightarrow> fold ?f xs m < n)" for xs m
  proof (induction xs arbitrary: m)
    case (Cons x xs)
    show ?case using Cons [of "?f x m"] by (auto intro: order_trans less_imp_le)
  qed simp
  show ?thesis
  proof (cases "concat lv = []")
    case False
    then have "0 < n" using assms by (metis hd_in_set le_less_trans word_zero_le)
    then have "maxFileNum lv < n" using mono [of 0 "concat lv"] assms by (simp add: maxFileNum_def)
    then have "maxFileNum lv < maxFileNum lv + 1" by (rule less_Suc_word)
    then show ?thesis using mono [of 0 "concat lv"] by (auto simp: maxFileNum_def intro: le_less_trans)
  next
    case True
    show ?thesis unfolding True by simp
  qed
qed

text \<open>An engine opened on the tables of a state and on some log.\<close>

lemma opened_engine:
  assumes ei: "eng_inv e" and exok: "\<forall>r\<in>set extra. reader_ok r"
    and o: "immutableMems e' = []" "map (map snd) (e_levels e') = disk_tables e extra" "e_manifest e' = e_manifest e"
      "mem_inv (snd (e_memtable e'))" "\<not> frozen (snd (e_memtable e'))" "map_of (mem_entries (snd (e_memtable e'))) = recs_map recs"
  shows "eng_inv e'" "length (e_levels e') = length (e_levels e)" "e_levels e' \<noteq> []"
    "kv_view e' k = (case recs_map recs k of Some v \<Rightarrow> v
        | None \<Rightarrow> user_value (stack_view (map reader_entries (flat_tables (disk_tables e extra))) k))"
proof -
  let ?rss = "disk_tables e extra"
  have ne: "e_levels e \<noteq> []" using ei by (simp add: eng_inv_def)
  show len: "length (e_levels e') = length (e_levels e)" using o(2) by (metis disk_tables_length length_map)
  show ne': "e_levels e' \<noteq> []" using len ne by (metis length_0_conv)
  have lvl: "map snd (e_levels e' ! l) = ?rss ! l" if "l < length (e_levels e')" for l using o(2) that by (metis nth_map)
  show "eng_inv e'"
  proof -
    have "\<forall>r\<in>set (?rss ! 0). reader_ok r" using ei exok ne by (auto simp: disk_tables_def eng_inv_def)
    then have "\<forall>r\<in>set (e_levels e' ! 0). reader_ok (snd r)" using lvl [of 0] ne' by (metis image_eqI length_greater_0_conv set_map)
    moreover have "level_ok (mf_levels (e_manifest e) ! l) (e_levels e' ! l)" if "1 \<le> l" "l < length (e_levels e')" for l
    proof -
      have "map snd (e_levels e' ! l) = map snd (e_levels e ! l)" using lvl [of l] that len by (simp add: disk_tables_def)
      then have "level_ok (mf_levels (e_manifest e) ! l) (e_levels e' ! l) = level_ok (mf_levels (e_manifest e) ! l) (e_levels e ! l)"
        by (rule level_ok_cong)
      then show ?thesis using ei that len by (simp add: eng_inv_def)
    qed
    ultimately show ?thesis using o ei ne' len by (simp add: eng_inv_def)
  qed
  show "kv_view e' k = (case recs_map recs k of Some v \<Rightarrow> v
        | None \<Rightarrow> user_value (stack_view (map reader_entries (flat_tables ?rss)) k))"
    unfolding kv_view_def engine_view_def e_mems_def e_tables_flat [OF ne'] o(1,2)
    by (simp add: source_ents_def map_of_mem_ient o(6) split: option.splits)
qed

lemma sys_inv_eng: "sys_inv s \<Longrightarrow> eng_inv (s_eng s)"
  by (simp add: sys_inv_def)

lemma pc_extra_ok: "sys_inv s \<Longrightarrow> \<forall>r\<in>set (pc_extra (s_pc s)). reader_ok r"
  by (cases "s_pc s") (auto simp: sys_inv_def table_for_def)

text \<open>Opening the disk of an engine with any log directory.\<close>

lemma reopen_disk:
  assumes ei: "eng_inv e" "\<forall>r\<in>set extra. reader_ok r" and dk: "disk_ok e extra" and dr: "dir_rep d segs"
  shows "\<exists>d' e'. Engine_Open (open_ok c) (e_opts e) d (e_files e) (mf_file (e_manifest e)) = (d', Ok e') \<and> eng_inv e' \<and>
    (\<forall>k. kv_view e' k = (case recs_map (concat (map snd segs)) k of Some v \<Rightarrow> v
        | None \<Rightarrow> user_value (stack_view (map reader_entries (flat_tables (disk_tables e extra))) k)))"
proof -
  obtain rs where mf: "manifest_is (e_manifest e) (length (e_levels e)) rs" using dk by (auto simp: disk_ok_def)
  have om: "OpenManifest mf_ok (mf_file (e_manifest e)) (nat (MaxLevels (applyDefaults (e_opts e)))) = Ok (e_manifest e)"
    using OpenManifest_is [OF mf] dk by (simp add: disk_ok_def)
  have dl: "disk_levels (e_files e) (mf_levels (e_manifest e)) (disk_tables e extra)" using dk by (simp add: disk_ok_def)
  obtain d' e' where o: "Engine_Open (open_ok c) (e_opts e) d (e_files e) (mf_file (e_manifest e)) = (d', Ok e')"
    "immutableMems e' = []" "map (map snd) (e_levels e') = disk_tables e extra" "e_manifest e' = e_manifest e"
    "mem_inv (snd (e_memtable e'))" "\<not> frozen (snd (e_memtable e'))" "map_of (mem_entries (snd (e_memtable e'))) = recs_map (concat (map snd segs))"
    using Engine_Open_ok [OF dr om dl, of c] by blast
  show ?thesis using o(1) opened_engine [OF ei o(2-7)] by blast
qed

lemma reopen_view:
  assumes inv: "sys_inv s" and dr: "dir_rep d segs"
  shows "\<exists>d' e'. Engine_Open (open_ok c) (e_opts (s_eng s)) d (e_files (s_eng s)) (mf_file (e_manifest (s_eng s))) = (d', Ok e') \<and> eng_inv e' \<and>
    (\<forall>k. kv_view e' k = (case recs_map (concat (map snd segs)) k of Some v \<Rightarrow> v
        | None \<Rightarrow> user_value (stack_view (map reader_entries (flat_tables (disk_tables (s_eng s) (pc_extra (s_pc s))))) k)))"
  by (rule reopen_disk [OF _ pc_extra_ok [OF inv] _ dr]) (use inv in \<open>simp_all add: sys_inv_def\<close>)

text \<open>The log after a batch write in which anything may have failed: a prefix of the batch is in it.\<close>

lemma batch_log:
  assumes inv: "sys_inv s" and len: "length keys = length vs" and ok: "list_all rec_ok (map batchRecord (zip keys vs))"
    and nw: "fileID (e_wal (s_eng s)) < fileID (e_wal (s_eng s)) + 1"
    and run: "Engine_BatchPut io (s_eng s) keys vs = (e', r)" and wo: "wal_ok (s_eng s) (s_pc s) old groups act"
  shows "\<exists>m\<le>length keys. \<exists>segs. (r = Ok () \<longrightarrow> m = length keys) \<and> dir_rep (e_waldir e') segs \<and>
    recs_map (concat (map snd segs)) = recs_map (concat (map snd (old @ concat groups @ act))) ++ recs_map (map batchRecord (take m (zip keys vs)))"
    and "e_opts e' = e_opts (s_eng s)" "e_files e' = e_files (s_eng s)" "e_manifest e' = e_manifest (s_eng s)"
proof -
  let ?e = "s_eng s" and ?kvs = "zip keys vs"
  obtain d w err where app: "WAL_AppendBatch (we_append io) (e_waldir ?e) (e_wal ?e) (map batchRecord ?kvs) = (d, w, err)" by (metis prod_cases3)
  have mi: "mem_inv (snd (e_memtable ?e))" "\<not> frozen (snd (e_memtable ?e))" using inv by (auto simp: sys_inv_def eng_inv_def)
  obtain m where m: "batchApply (we_coins io) (snd (e_memtable ?e)) ?kvs = (m, Ok ())" using batchApply_spec [OF mi] by blast
  define e1 where "e1 = ?e\<lparr>e_waldir := d, e_wal := w, e_memtable := (fst (e_memtable ?e), m)\<rparr>"
  have res: "(e', r) = (if err \<noteq> None then (?e\<lparr>e_waldir := d, e_wal := w\<rparr>, Err ''engine: wal batch: '') else (maybeScheduleFlush (we_rotate io) e1, Ok ()))"
    using run m by (cases err) (simp_all add: Engine_BatchPut_def len app Let_def e1_def)
  have sched: "e_opts (maybeScheduleFlush io' e1) = e_opts ?e" "e_files (maybeScheduleFlush io' e1) = e_files ?e" "e_manifest (maybeScheduleFlush io' e1) = e_manifest ?e" for io'
    by (auto simp: maybeScheduleFlush_def e1_def Let_def split: prod.splits)
  show "e_opts e' = e_opts ?e" "e_files e' = e_files ?e" "e_manifest e' = e_manifest ?e" using res sched by (auto split: if_splits)
  obtain ss i recs where act: "act = ss @ [(i, recs)]" using wo by (metis append_butlast_last_id surj_pair wal_ok_def)
  define pre where "pre = old @ concat groups @ ss"
  have all: "old @ concat groups @ act = pre @ [(i, recs)]" by (simp add: pre_def act)
  have rep: "log_rep (e_waldir ?e) (e_wal ?e) (pre @ [(i, recs)])" using wo unfolding wal_ok_def all by simp
  note ap = WAL_AppendBatch_rep [OF rep ok app]
  have rm: "recs_map (concat (map snd (pre @ [(i, recs @ x)]))) = recs_map (concat (map snd (old @ concat groups @ act))) ++ recs_map x" for x
    unfolding all by (simp add: recs_map_append)
  show "\<exists>m\<le>length keys. \<exists>segs. (r = Ok () \<longrightarrow> m = length keys) \<and> dir_rep (e_waldir e') segs \<and>
    recs_map (concat (map snd segs)) = recs_map (concat (map snd (old @ concat groups @ act))) ++ recs_map (map batchRecord (take m (zip keys vs)))"
  proof (cases err)
    case (Some x)
    then have e': "e_waldir e' = d" "r \<noteq> Ok ()" using res by auto
    obtain n where n: "n \<le> length keys" "dir_rep d (pre @ [(i, recs @ map batchRecord (take n ?kvs))])"
      using ap(1) len by (auto simp: take_map)
    then show ?thesis using e' rm [of "map batchRecord (take n ?kvs)"] by metis
  next
    case None
    have rep': "log_rep d w (pre @ [(i, recs @ map batchRecord ?kvs)])" using ap(2) None by simp
    have dr': "dir_rep d (pre @ [(i, recs @ map batchRecord ?kvs)])" using rep' unfolding log_rep_def by blast
    have fid: "fileID w = fileID (e_wal ?e)" using rep rep' by (simp add: log_rep_def)
    obtain d2 w2 r2 where rot: "WAL_Rotate (we_rotate io) d w = (d2, w2, r2)" by (metis prod_cases3)
    have "e_waldir e' = d \<or> e_waldir e' = d2" using res None by (auto simp: maybeScheduleFlush_def e1_def rot Let_def)
    then have "\<exists>segs. dir_rep (e_waldir e') segs \<and> concat (map snd segs) = concat (map snd (pre @ [(i, recs @ map batchRecord ?kvs)]))"
      using dr' WAL_Rotate_rep(2) [OF rep' _ rot] nw fid by fastforce
    then show ?thesis using rm [of "map batchRecord ?kvs"] len by (intro exI [of _ "length keys"]) auto
  qed
qed

text \<open>A restart at any moment finds the same map.\<close>

lemma restart_ok:
  assumes inv: "sys_inv s"
  shows "\<exists>d e'. Engine_Open (open_ok c) (e_opts (s_eng s)) (e_waldir (s_eng s)) (e_files (s_eng s)) (mf_file (e_manifest (s_eng s))) = (d, Ok e') \<and>
    eng_inv e' \<and> view_as (kv_view (s_eng s)) (kv_view e') \<and> (mem_fits (snd (e_memtable e')) \<longrightarrow> sys_inv (s\<lparr>s_eng := e', s_pc := FlIdle\<rparr>))"
proof -
  let ?e = "s_eng s" and ?pc = "s_pc s"
  obtain old groups act where wo: "wal_ok ?e ?pc old groups act" using inv by (auto simp: sys_inv_def)
  define segs where "segs = old @ concat groups @ act"
  let ?rss = "disk_tables ?e (pc_extra ?pc)"
  have rep: "log_rep (e_waldir ?e) (e_wal ?e) segs" and ane: "segs \<noteq> []" and pos: "\<forall>seg\<in>set segs. 0 < fst seg"
    using wo by (auto simp: wal_ok_def segs_def)
  have dr: "dir_rep (e_waldir ?e) segs" using rep by (simp add: log_rep_def)
  have dk: "disk_ok ?e (pc_extra ?pc)" using inv by (simp add: sys_inv_def)
  obtain rs where mf: "manifest_is (e_manifest ?e) (length (e_levels ?e)) rs" using dk by (auto simp: disk_ok_def)
  have opts: "applyDefaults (e_opts ?e) = e_opts ?e" "nat (MaxLevels (e_opts ?e)) = length (e_levels ?e)" using dk by (auto simp: disk_ok_def)
  have om: "OpenManifest mf_ok (mf_file (e_manifest ?e)) (nat (MaxLevels (applyDefaults (e_opts ?e)))) = Ok (e_manifest ?e)"
    using OpenManifest_is [OF mf] opts by simp
  have dl: "disk_levels (e_files ?e) (mf_levels (e_manifest ?e)) ?rss" using dk by (simp add: disk_ok_def)
  obtain d' w e' where o: "Engine_Open (open_ok c) (e_opts ?e) (e_waldir ?e) (e_files ?e) (mf_file (e_manifest ?e)) = (d', Ok e')"
    "WAL_Open io_ok (e_waldir ?e) 0 = (d', Ok w)" "e_opts e' = e_opts ?e" "e_wal e' = w" "e_waldir e' = d'" "e_files e' = e_files ?e"
    "immutableMems e' = []" "map (map snd) (e_levels e') = ?rss" "e_manifest e' = e_manifest ?e" "flushCh e' = []"
    "nextFileNum e' = maxFileNum (mf_levels (e_manifest ?e)) + 1" "fst (e_memtable e') < e_nextptr e'" "mem_inv (snd (e_memtable e'))"
    "\<not> frozen (snd (e_memtable e'))" "map_of (mem_entries (snd (e_memtable e'))) = recs_map (concat (map snd segs))"
    "mem_entries (snd (e_memtable e')) = [] \<longrightarrow> snd (e_memtable e') = NewMemtable (MemtableSize (e_opts ?e))"
    using Engine_Open_ok [OF dr om dl, of c] unfolding opts(1) by blast
  note oe = opened_engine [OF sys_inv_eng [OF inv] pc_extra_ok [OF inv] o(7,8,9,13,14,15)]
  have ei': "eng_inv e'" and len: "length (e_levels e') = length (e_levels ?e)" and ne': "e_levels e' \<noteq> []" using oe(1-3) by auto
  have kv: "view_as (kv_view ?e) (kv_view e')" using oe(4) recovered_view [OF inv wo] by (simp add: view_as_def segs_def)
  have "sys_inv (s\<lparr>s_eng := e', s_pc := FlIdle\<rparr>)" if fits: "mem_fits (snd (e_memtable e'))"
  proof -
    have "(fst (last segs), snd (last segs)) \<in> set segs" using ane by simp
    then obtain b where "map_of (e_waldir ?e) (walFileName (fst (last segs))) = Some b" using dir_rep_Some [OF dr] by blast
    then have last: "map_of (e_waldir ?e) (walFileName (fst (last segs))) = Some (seg_bytes (snd (last segs)))"
      using rep by (simp add: log_rep_def file_of_def)
    have "log_rep d' w segs" using WAL_Open_rep(3) [OF dr o(2)] last ane by auto
    moreover have "holds segs (snd (e_memtable e'))" unfolding holds_def o(15) recs_map_norm by simp
    ultimately have "wal_ok e' FlIdle [] [] segs" using o(4,5,10) ane pos by (simp add: wal_ok_def)
    moreover have "mems_ok e'" using fits o(12,16) by (auto simp: mems_ok_def o(7) NewMemtable_small)
    moreover have "disk_ok e' []"
    proof -
      have "disk_tables e' [] = ?rss" by (simp only: disk_tables_Nil [OF ne'] o(8))
      moreover have "\<forall>meta\<in>set (concat (mf_levels (e_manifest ?e))). FileNum meta < maxFileNum (mf_levels (e_manifest ?e)) + 1"
        using maxFileNum_less dk by (auto simp: disk_ok_def)
      ultimately show ?thesis using dk mf len by (auto simp: disk_ok_def o(3,6,9,11))
    qed
    moreover have "queue_ok e' FlIdle" by (simp add: queue_ok_def o(7,10))
    moreover have "view_as (s_abs s) (kv_view e')" using view_as_trans [OF _ kv] inv by (simp add: sys_inv_def)
    ultimately show ?thesis using ei' by (auto simp: sys_inv_def)
  qed
  then show ?thesis using o(1) ei' kv by blast
qed

subsection \<open>Runs\<close>

lemma sys_inv_fresh:
  assumes "Engine_Open (open_ok c) opts [] (\<lambda>_. None) [] = (d, Ok e)"
  shows "sys_inv \<lparr>s_eng = e, s_pc = FlIdle, s_abs = (\<lambda>_. None)\<rparr>"
proof -
  let ?n = "nat (MaxLevels (applyDefaults opts))"
  have n: "0 < ?n" by (simp add: applyDefaults_def)
  have d0: "dir_rep [] []" by (simp add: dir_rep_def canonical_def)
  have lv: "disk_levels (\<lambda>_. None) (replicate ?n []) (replicate ?n [])" by (simp add: disk_levels_def list_all2_conv_all_nth)
  obtain w where e: "WAL_Open io_ok [] 0 = (d, Ok w)" "e_opts e = applyDefaults opts" "e_wal e = w" "e_waldir e = d" "e_files e = (\<lambda>_. None)"
    "immutableMems e = []" "map (map snd) (e_levels e) = replicate ?n []" "e_manifest e = \<lparr>mf_file = [], mf_levels = replicate ?n []\<rparr>"
    "flushCh e = []" "fst (e_memtable e) < e_nextptr e" "map_of (mem_entries (snd (e_memtable e))) = recs_map []"
    "mem_entries (snd (e_memtable e)) = [] \<longrightarrow> snd (e_memtable e) = NewMemtable (MemtableSize (applyDefaults opts))"
    using Engine_Open_ok [OF d0 open_empty_manifest, where opts = opts and files = "\<lambda>_. None" and rss = "replicate ?n []" and c = c] lv assms by auto
  have ents: "mem_entries (snd (e_memtable e)) = []" using e(11) by (simp add: recs_map_def)
  have lvl: "e_levels e = replicate ?n []" using e(7) n by (auto simp: list_eq_iff_nth_eq)
  have "eng_inv e" "kv_view e = (\<lambda>_. None)"
    using Engine_Open_fresh [of c opts] assms by (auto simp: kv_view_def fun_eq_iff)
  moreover have "mems_ok e"
    using e ents NewMemtable_small by (simp add: mems_ok_def mem_fits_def mem_ient_def sst_bound_def)
  moreover have "disk_ok e []"
    unfolding disk_ok_def
  proof (intro conjI)
    show "\<exists>rs. manifest_is (e_manifest e) (length (e_levels e)) rs" by (rule exI [of _ "[]"]) (simp add: manifest_is_def e(8) lvl)
    show "disk_levels (e_files e) (mf_levels (e_manifest e)) (disk_tables e [])"
      using lv n by (simp add: e(5,8) lvl disk_tables_Nil)
  qed (auto simp: e(2,8) lvl)
  moreover have "wal_ok e FlIdle [] [] [(1, [])]"
    using WAL_Open_rep(3) [OF d0 e(1)] by (simp add: wal_ok_def e(3,4,9) holds_def ents recs_map_def)
  ultimately show ?thesis using e(6,9) by (auto simp: sys_inv_def queue_ok_def)
qed

text \<open>Compactions.\<close>

lemma cmp_ok_works: "table_files cmp_ok" "co_mf cmp_ok i = mf_ok"
  by (simp_all add: table_files_def cmp_ok_def)

lemma compaction_keeps:
  assumes inv: "sys_inv s" and e': "eng_inv e'" "disk_ok e' (pc_extra (s_pc s))" "tables_view e' = tables_view (s_eng s)" "frame (s_eng s) e'"
  shows "sys_inv (s\<lparr>s_eng := e'\<rparr>)"
proof -
  have "mems_ok e'" using inv e'(4) by (auto simp: sys_inv_def mems_ok_def frame_def intro: less_le_trans)
  moreover have "pc_ok e' (s_pc s)" using inv pc_ok_view [OF e'(3)] by (simp add: sys_inv_def)
  moreover have "queue_ok e' (s_pc s)" "\<And>old groups act. wal_ok e' (s_pc s) old groups act = wal_ok (s_eng s) (s_pc s) old groups act"
    using inv e'(4) by (auto simp: sys_inv_def queue_ok_def wal_ok_def frame_def)
  moreover have "view_as (s_abs s) (kv_view e')" using inv frame_view [OF e'(4,3)] by (auto simp: sys_inv_def kv_view_def fun_eq_iff)
  ultimately show ?thesis using inv e'(1,2) by (simp add: sys_inv_def)
qed

lemma compactL0_keeps:
  assumes inv: "sys_inv s" "tabs_ok (s_eng s) (s_pc s)" and pc: "\<And>t pr. s_pc s \<noteq> FlInstall t pr" and l: "1 < length (e_levels (s_eng s))"
    and fits: "cmp_fits (s_eng s) 0" "l0_apart (s_eng s)" and run: "compactL0 cmp_ok (s_eng s) = Some (e', r)"
  shows "sys_inv (s\<lparr>s_eng := e'\<rparr>) \<and> tabs_ok e' (s_pc s)"
proof -
  have ex: "pc_extra (s_pc s) = []" using pc by (cases "s_pc s") auto
  have h: "eng_inv (s_eng s)" "ids_ok (s_eng s)" "disk_ok (s_eng s) []" "l0_wf (s_eng s)" using inv ex by (auto simp: sys_inv_def tabs_ok_def)
  have "eng_inv e' \<and> ids_ok e' \<and> disk_ok e' [] \<and> tables_view e' = tables_view (s_eng s) \<and> frame (s_eng s) e' \<and>
      (e_levels e' ! 0 = e_levels (s_eng s) ! 0 \<or> e_levels e' ! 0 = [])"
  proof (cases "e_levels (s_eng s) ! 0 = []")
    case True
    then have "e' = s_eng s" using run compactL0_empty by simp
    then show ?thesis using h by (simp add: frame_def)
  next
    case False
    then show ?thesis using compactL0_ok [OF h(1-3) l fits(1) h(4) False cmp_ok_works] run fits(2) by auto
  qed
  then have ok: "eng_inv e'" "ids_ok e'" "disk_ok e' []" "tables_view e' = tables_view (s_eng s)" "frame (s_eng s) e'"
    "e_levels e' ! 0 = e_levels (s_eng s) ! 0 \<or> e_levels e' ! 0 = []" by blast+
  have "l0_wf e'" using ok(6) h(4) by (auto simp: l0_wf_def)
  then have "tabs_ok e' (s_pc s)" using ok(2) pc by (cases "s_pc s") (auto simp: tabs_ok_def)
  then show ?thesis using compaction_keeps [OF inv(1)] ok ex by simp
qed

lemma compactLevel_keeps:
  assumes inv: "sys_inv s" "tabs_ok (s_eng s) (s_pc s)" and l: "1 \<le> l" "Suc l < length (e_levels (s_eng s))"
    and fits: "cmp_fits (s_eng s) l" and run: "compactLevel cmp_ok (s_eng s) l = Some (e', r)"
  shows "sys_inv (s\<lparr>s_eng := e'\<rparr>) \<and> tabs_ok e' (s_pc s)"
proof -
  have h: "eng_inv (s_eng s)" "ids_ok (s_eng s)" "disk_ok (s_eng s) (pc_extra (s_pc s))" using inv by (auto simp: sys_inv_def tabs_ok_def)
  have ok: "eng_inv e'" "ids_ok e'" "disk_ok e' (pc_extra (s_pc s))" "tables_view e' = tables_view (s_eng s)" "frame (s_eng s) e'"
    "e_levels e' ! 0 = e_levels (s_eng s) ! 0"
    using compactLevel_ok [OF h l fits cmp_ok_works] run by auto
  have "e_nextptr (s_eng s) \<le> e_nextptr e'" using ok(5) by (simp add: frame_def)
  then have "tabs_ok e' (s_pc s)" using inv(2) ok(2,6) by (cases "s_pc s") (simp_all add: tabs_ok_def l0_wf_def)
  then show ?thesis using compaction_keeps [OF inv(1)] ok by simp
qed

text \<open>The identities of the tables.\<close>

lemma tabs_same:
  assumes "tabs_ok e pc" "e_levels e' = e_levels e" "mf_levels (e_manifest e') = mf_levels (e_manifest e)" "e_nextptr e \<le> e_nextptr e'"
    and "pc' = pc \<or> (\<forall>t pr. pc' \<noteq> FlInstall t pr)"
  shows "tabs_ok e' pc'"
proof -
  have "ids_ok e'" "l0_wf e'" using assms(1-4) by (auto simp: tabs_ok_def ids_ok_def l0_wf_def intro: less_le_trans)
  then show ?thesis using assms by (cases pc') (auto simp: tabs_ok_def)
qed

lemma batch_same:
  assumes "Engine_BatchPut io e keys vs = (e', r)"
  shows "e_levels e' = e_levels e" "e_manifest e' = e_manifest e" "e_nextptr e \<le> e_nextptr e'"
  using assms by (auto simp: Engine_BatchPut_def maybeScheduleFlush_def Let_def split: if_splits prod.splits res.splits)

lemma tabs_write: "tabs_ok e pc \<Longrightarrow> tabs_ok (fst (Engine_BatchPut io e keys vs)) pc"
proof -
  assume t: "tabs_ok e pc"
  obtain e' r where b: "Engine_BatchPut io e keys vs = (e', r)" by (cases "Engine_BatchPut io e keys vs")
  then show ?thesis using tabs_same [OF t, of e' pc] batch_same [OF b] by simp
qed

lemma tabs_build:
  assumes inv: "sys_inv s" "tabs_ok (s_eng s) (s_pc s)" and pc: "s_pc s = FlBuild t" and run: "flushBuild flush_ok (s_eng s) t = Some (e', FlushBuilt pr)"
  shows "tabs_ok e' (FlInstall t pr)"
proof -
  let ?e = "s_eng s"
  have pe: "pending (s_pc s) = [t]" using pc by simp
  have t: "mem_inv (snd (ft_mem t))" "mem_fits (snd (ft_mem t))" "mem_entries (snd (ft_mem t)) \<noteq> []" using first_pending [OF inv(1) pe] by auto
  obtain c meta m' where e': "e' = ?e\<lparr>nextFileNum := nextFileNum ?e + 1, e_manifest := m',
      e_files := (e_files ?e)(sstPath (nextFileNum ?e) \<mapsto> c), e_nextptr := Suc (e_nextptr ?e)\<rparr>"
    and b: "AddFile mf_ok (e_manifest ?e) meta = (m', None)" "fst pr = e_nextptr ?e" "reader_ok (snd pr)"
    "reader_entries (snd pr) = table_of (mem_entries (snd (ft_mem t)))" "FileNum meta = nextFileNum ?e" "Level meta = 0"
    using flushBuild_Built [OF t(1,2) run] by (auto simp: flush_ok_def)
  let ?L = "mf_levels (e_manifest ?e)"
  have len: "length ?L = length (e_levels ?e)" "0 < length (e_levels ?e)" using inv(1) by (auto simp: sys_inv_def eng_inv_def)
  have L: "mf_levels m' = ?L[0 := ?L ! 0 @ [meta]]" using AddFile_levels(1) [OF b(1)] b(6) len by simp
  have ids: "ids_ok ?e" "l0_wf ?e" using inv(2) by (auto simp: tabs_ok_def)
  have low: "FileNum m < nextFileNum ?e" if "m \<in> set (?L ! i)" "i < length (e_levels ?e)" for m i
    using inv(1) that len nth_mem [of i ?L] by (auto simp: sys_inv_def disk_ok_def)
  have fresh: "FileNum meta \<notin> FileNum ` set (?L ! i)" if "i < length (e_levels ?e)" for i using low [OF _ that] b(5) by force
  have nth: "mf_levels m' ! i = (if i = 0 then ?L ! 0 @ [meta] else ?L ! i)" if "i < length (e_levels ?e)" for i
    using that len by (simp add: L nth_list_update)
  have "ids_ok e'" unfolding ids_ok_def
  proof (intro conjI allI impI)
    fix i assume i: "i < length (e_levels e')"
    then have i': "i < length (e_levels ?e)" by (simp add: e')
    have d: "distinct (map FileNum (?L ! i))" "distinct (map fst (e_levels ?e ! i))" "\<forall>r\<in>set (e_levels ?e ! i). fst r < e_nextptr ?e"
      using ids(1) i' by (simp_all add: ids_ok_def)
    show "distinct (map fst (e_levels e' ! i))" "\<forall>r\<in>set (e_levels e' ! i). fst r < e_nextptr e'"
      using d(2,3) by (simp_all add: e' less_Suc_eq)
    show "distinct (map FileNum (mf_levels (e_manifest e') ! i))"
    proof (cases "i = 0")
      case True
      then show ?thesis using d(1) fresh [OF i'] nth [OF i'] by (simp add: e')
    next
      case False
      then show ?thesis using d(1) nth [OF i'] by (simp add: e')
    qed
    fix j assume j: "j < length (e_levels e')" "i \<noteq> j"
    then have j': "j < length (e_levels ?e)" by (simp add: e')
    have "FileNum ` set (?L ! i) \<inter> FileNum ` set (?L ! j) = {}" using ids(1) i' j' j(2) by (simp add: ids_ok_def)
    then show "FileNum ` set (mf_levels (e_manifest e') ! i) \<inter> FileNum ` set (mf_levels (e_manifest e') ! j) = {}"
      using nth [OF i'] nth [OF j'] fresh [OF i'] fresh [OF j'] j(2) by (cases "i = 0"; cases "j = 0") (simp_all add: e')
  qed
  moreover have "rd_wf (snd pr)" using b(3,4) t(3) by (simp add: rd_wf_def table_of_def)
  moreover have "\<forall>r\<in>set (e_levels ?e ! 0). fst r < fst pr" using ids(1) len(2) unfolding b(2) ids_ok_def by blast
  then have "fst pr \<notin> fst ` set (e_levels ?e ! 0)" by force
  ultimately show ?thesis using ids(2) b(2) by (simp add: tabs_ok_def e' l0_wf_def)
qed

lemma tabs_install:
  assumes inv: "sys_inv s" "tabs_ok (s_eng s) (s_pc s)" and pc: "s_pc s = FlInstall t pr"
  shows "tabs_ok (flushInstall (s_eng s) pr) (FlRemove t)"
proof -
  have "0 < length (e_levels (s_eng s))" using inv(1) by (auto simp: sys_inv_def eng_inv_def)
  then show ?thesis using inv(2) pc by (auto simp: tabs_ok_def ids_ok_def l0_wf_def flushInstall_def nth_list_update)
qed

lemma tabs_restart:
  assumes inv: "sys_inv s" "tabs_ok (s_eng s) (s_pc s)"
    and run: "Engine_Open (open_ok c) (e_opts (s_eng s)) (e_waldir (s_eng s)) (e_files (s_eng s)) (mf_file (e_manifest (s_eng s))) = (d, Ok e')"
  shows "tabs_ok e' FlIdle"
proof -
  let ?e = "s_eng s"
  obtain old groups act where wo: "wal_ok ?e (s_pc s) old groups act" using inv(1) by (auto simp: sys_inv_def)
  then have dr: "dir_rep (e_waldir ?e) (old @ concat groups @ act)" by (simp add: wal_ok_def log_rep_def)
  have dk: "disk_ok ?e (pc_extra (s_pc s))" using inv(1) by (simp add: sys_inv_def)
  obtain rs where mf: "manifest_is (e_manifest ?e) (length (e_levels ?e)) rs" using dk by (auto simp: disk_ok_def)
  have om: "OpenManifest mf_ok (mf_file (e_manifest ?e)) (nat (MaxLevels (applyDefaults (e_opts ?e)))) = Ok (e_manifest ?e)"
    using OpenManifest_is [OF mf] dk by (simp add: disk_ok_def)
  have dl: "disk_levels (e_files ?e) (mf_levels (e_manifest ?e)) (disk_tables ?e (pc_extra (s_pc s)))" using dk by (simp add: disk_ok_def)
  have e': "map (map snd) (e_levels e') = disk_tables ?e (pc_extra (s_pc s))" "e_manifest e' = e_manifest ?e"
    using Engine_Open_ok [OF dr om dl, of c] run by auto
  have len: "length (e_levels e') = length (e_levels ?e)" using e'(1) by (metis disk_tables_length length_map)
  have ne: "0 < length (e_levels ?e)" using inv(1) by (auto simp: sys_inv_def eng_inv_def)
  have "ids_ok e'" using inv(2) Engine_Open_ptrs [OF run] by (auto simp: tabs_ok_def ids_ok_def e'(2) len)
  moreover have "map snd (e_levels e' ! 0) = map snd (e_levels ?e ! 0) @ pc_extra (s_pc s)"
    using arg_cong [OF e'(1), of "\<lambda>x. x ! 0"] len ne by (simp add: disk_tables_nth)
  then have "snd ` set (e_levels e' ! 0) = snd ` set (e_levels ?e ! 0) \<union> set (pc_extra (s_pc s))" by (metis set_append set_map)
  moreover have "\<forall>r\<in>snd ` set (e_levels ?e ! 0) \<union> set (pc_extra (s_pc s)). rd_wf r"
    using inv(2) by (cases "s_pc s") (auto simp: tabs_ok_def l0_wf_def)
  ultimately show ?thesis by (auto simp: tabs_ok_def l0_wf_def)
qed

lemma tabs_fresh:
  assumes "Engine_Open (open_ok c) opts [] (\<lambda>_. None) [] = (d, Ok e)" shows "tabs_ok e FlIdle"
proof -
  have d0: "dir_rep [] []" by (simp add: dir_rep_def canonical_def)
  let ?n = "nat (MaxLevels (applyDefaults opts))"
  have lv: "disk_levels (\<lambda>_. None) (replicate ?n []) (replicate ?n [])" by (simp add: disk_levels_def list_all2_conv_all_nth)
  have e: "map (map snd) (e_levels e) = replicate ?n []" "e_manifest e = \<lparr>mf_file = [], mf_levels = replicate ?n []\<rparr>"
    using Engine_Open_ok [OF d0 open_empty_manifest, where opts = opts and files = "\<lambda>_. None" and rss = "replicate ?n []" and c = c] lv assms by auto
  from e(1) have "e_levels e = replicate ?n []" by (auto simp: list_eq_iff_nth_eq)
  moreover have "0 < ?n" by (simp add: applyDefaults_def)
  ultimately show ?thesis by (auto simp: tabs_ok_def ids_ok_def l0_wf_def e(2))
qed

lemma tabs_step: "eng_step s s' \<Longrightarrow> sys_inv s \<Longrightarrow> tabs_ok (s_eng s) (s_pc s) \<Longrightarrow> tabs_ok (s_eng s') (s_pc s')"
proof (induction rule: eng_step.induct)
  case (Put c s k v e' r)
  have m: "mem_inv (snd (e_memtable (s_eng s)))" "\<not> frozen (snd (e_memtable (s_eng s)))" using Put.prems by (auto simp: sys_inv_def eng_inv_def)
  have "fst (Engine_BatchPut (write_ok c) (s_eng s) [k] [Some v]) = e'" using Engine_Put_batch(2) [OF m, of "write_ok c" k v] Put.hyps(1) by simp
  then show ?case using tabs_write [OF Put.prems(2), of "write_ok c" "[k]" "[Some v]"] by simp
next
  case (Delete c s k e' r)
  have m: "mem_inv (snd (e_memtable (s_eng s)))" "\<not> frozen (snd (e_memtable (s_eng s)))" using Delete.prems by (auto simp: sys_inv_def eng_inv_def)
  have "fst (Engine_BatchPut (write_ok c) (s_eng s) [k] [None]) = e'" using Engine_Put_batch(4) [OF m, of "write_ok c" k] Delete.hyps(1) by simp
  then show ?case using tabs_write [OF Delete.prems(2), of "write_ok c" "[k]" "[None]"] by simp
next
  case (BatchPut keys vs c s e' r)
  then show ?case using tabs_write [OF BatchPut.prems(2), of "write_ok c" keys vs] by simp
next
  case (Restart c s d e')
  then show ?case using tabs_restart [OF Restart.prems Restart.hyps(1)] by simp
next
  case (CompactL0 s e' r)
  then show ?case using compactL0_keeps [OF CompactL0.prems CompactL0.hyps] by simp
next
  case (CompactLevel l s e' r)
  then show ?case using compactLevel_keeps [OF CompactLevel.prems CompactLevel.hyps] by simp
next
  case (Build s t e' pr)
  then show ?case using tabs_build [OF Build.prems Build.hyps(1,2)] by simp
next
  case (Install s t pr)
  then show ?case using tabs_install [OF Install.prems Install.hyps] by simp
qed (use tabs_same in \<open>auto simp: removeImmutable_def flushPurge_def signalCompaction_def\<close>)

lemma sys_inv_step: "eng_step s s' \<Longrightarrow> sys_inv s \<Longrightarrow> tabs_ok (s_eng s) (s_pc s) \<Longrightarrow> sys_inv s'"
proof (induction rule: eng_step.induct)
  case (Put c s k v e' r)
  have m: "mem_inv (snd (e_memtable (s_eng s)))" "\<not> frozen (snd (e_memtable (s_eng s)))" using Put.prems(1) by (auto simp: sys_inv_def eng_inv_def)
  obtain e1 r1 where b: "Engine_BatchPut (write_ok c) (s_eng s) [k] [Some v] = (e1, r1)" by (metis prod.exhaust)
  have "e1 = e'" using Engine_Put_batch(2) [OF m, of "write_ok c" k v] Put.hyps(1) b by simp
  then show ?case using batch_keeps [OF Put.prems(1) _ _ b] Put.hyps(2) by simp
next
  case (Delete c s k e' r)
  have m: "mem_inv (snd (e_memtable (s_eng s)))" "\<not> frozen (snd (e_memtable (s_eng s)))" using Delete.prems by (auto simp: sys_inv_def eng_inv_def)
  obtain e1 r1 where b: "Engine_BatchPut (write_ok c) (s_eng s) [k] [None] = (e1, r1)" by (metis prod.exhaust)
  have "e1 = e'" using Engine_Put_batch(4) [OF m, of "write_ok c" k] Delete.hyps(1) b by simp
  then show ?case using batch_keeps [OF Delete.prems(1) _ _ b] Delete.hyps(2) by simp
next
  case (Restart c s d e')
  then show ?case using restart_ok [OF Restart.prems(1), of c] by auto
next
  case (BatchPut keys vs c s e' r)
  then show ?case using batch_keeps [OF BatchPut.prems(1) BatchPut.hyps(3,1,2)] by blast
next
  case (CompactL0 s e' r)
  then show ?case using compactL0_keeps [OF CompactL0.prems CompactL0.hyps] by blast
next
  case (CompactLevel l s e' r)
  then show ?case using compactLevel_keeps [OF CompactLevel.prems CompactLevel.hyps] by blast
qed (simp_all only: take_keeps build_keeps install_keeps remove_keeps purge_keeps signal_keeps)

lemma sys_reach: "eng_reach s \<Longrightarrow> sys_inv s \<and> tabs_ok (s_eng s) (s_pc s)"
proof (induction rule: eng_reach.induct)
  case (Fresh c opts d e)
  then show ?case using sys_inv_fresh tabs_fresh by simp
next
  case (Step s s')
  then show ?case using sys_inv_step tabs_step by blast
qed

lemma sys_inv_reach: "eng_reach s \<Longrightarrow> sys_inv s"
  using sys_reach by blast

text \<open>What a client sees of a map. A value comes back exactly, a key that is not in the map is not found; only a key with
  an empty value may be found empty or not be found.\<close>

definition reads_as :: "Engine \<Rightarrow> (bytes \<Rightarrow> bytes option) \<Rightarrow> bool" where
  "reads_as e a \<longleftrightarrow> (\<forall>k. case a k of None \<Rightarrow> Engine_Get e k = Err ErrNotFound
                       | Some v \<Rightarrow> Engine_Get e k = Ok (Some v) \<or> v = [] \<and> Engine_Get e k = Err ErrNotFound)"

lemma reads_as_view:
  assumes "eng_inv e" "view_as a (kv_view e)" shows "reads_as e a"
  unfolding reads_as_def
proof
  fix k
  have v: "value_as (a k) (user_value (engine_view e k))" using assms(2) by (simp add: view_as_def kv_view_def)
  show "case a k of None \<Rightarrow> Engine_Get e k = Err ErrNotFound | Some v \<Rightarrow> Engine_Get e k = Ok (Some v) \<or> v = [] \<and> Engine_Get e k = Err ErrNotFound"
  proof (cases "engine_view e k")
    case None
    then show ?thesis using v by (auto simp: Engine_Get_view [OF assms(1)] value_as_def split: option.splits)
  next
    case (Some x)
    obtain w t where x: "x = (w, t)" by (cases x)
    then show ?thesis using v Some
      by (cases t; cases w) (auto simp: Engine_Get_view [OF assms(1)] answer_def value_as_def val_bytes_def split: option.splits)
  qed
qed

lemma reads_as_key:
  assumes "reads_as e a"
  shows "case a k of None \<Rightarrow> Engine_Get e k = Err ErrNotFound
     | Some v \<Rightarrow> Engine_Get e k = Ok (Some v) \<or> v = [] \<and> Engine_Get e k = Err ErrNotFound"
    and "a k = Some v \<Longrightarrow> v \<noteq> [] \<Longrightarrow> Engine_Get e k = Ok (Some v)"
    and "a k = None \<Longrightarrow> Engine_Get e k = Err ErrNotFound"
  using spec [OF assms [unfolded reads_as_def], of k] by auto

lemma restart_reads:
  assumes "sys_inv s"
  shows "\<exists>d e'. Engine_Open (open_ok c) (e_opts (s_eng s)) (e_waldir (s_eng s)) (e_files (s_eng s)) (mf_file (e_manifest (s_eng s))) = (d, Ok e') \<and>
    reads_as e' (s_abs s)"
proof -
  obtain d e' where o: "Engine_Open (open_ok c) (e_opts (s_eng s)) (e_waldir (s_eng s)) (e_files (s_eng s)) (mf_file (e_manifest (s_eng s))) = (d, Ok e')"
    "eng_inv e'" "view_as (kv_view (s_eng s)) (kv_view e')" using restart_ok [OF assms, of c] by blast
  have "view_as (s_abs s) (kv_view e')" using view_as_trans [OF _ o(3)] assms by (simp add: sys_inv_def)
  then show ?thesis using o(1) reads_as_view [OF o(2)] by blast
qed

lemma reach_reads_as: "eng_reach s \<Longrightarrow> reads_as (s_eng s) (s_abs s)"
  using sys_inv_reach reads_as_view by (simp add: sys_inv_def)

lemma abs_write_Nil [simp]: "abs_write a [] = a"
  by (simp add: abs_write_def fun_eq_iff)

subsection \<open>Properties\<close>

text \<open>C1. The engine implements a map. In every state that \<open>eng_step\<close> reaches, \<open>Get\<close> returns for every key the last
  value written to it, and \<open>ErrNotFound\<close> if there is none or if the key was deleted; a key whose last value is empty may be found
  empty or not be found. The steps are puts, deletes and batches that fit and find room in the flush channel, the phases of a
  flush, compactions and restarts, without failing calls; a compaction is one step, and one of level 0 is
  taken only while no key is in two tables of level 0 and no flushed table waits between its manifest record and its
  installation (otherwise it loses data: \<open>compaction_resurrects\<close>, \<open>compaction_race_loses\<close>; a task that the full channel drops
  leads to \<open>engine_stale_read\<close>).\<close>

theorem engine_refines_map:
  assumes "eng_reach s"
  shows "reads_as (s_eng s) (s_abs s)"
  using sys_inv_reach [OF assms] reads_as_view by (simp add: sys_inv_def)

text \<open>One write, used by the witnesses below.\<close>

definition sample_sys :: "sys \<Rightarrow> Engine \<Rightarrow> bool" where
  "sample_sys s e \<longleftrightarrow> (\<exists>d. Engine_Open (open_ok (\<lambda>_ _. False)) \<lparr>MemtableSize = 1, L0CompactTrigger = 0, MaxLevels = 2, BlockSize = 0\<rparr> [] (\<lambda>_. None) [] = (d, Ok e)) \<and>
     s = \<lparr>s_eng = e, s_pc = FlIdle, s_abs = (\<lambda>_. None)\<rparr>"

lemma sample_reach:
  obtains s e where "sample_sys s e" "eng_reach s" "s_eng s = e" "s_abs s = (\<lambda>_. None)" "fileID (e_wal e) = 1" "flushCh e = []"
    "log_rep (e_waldir e) (e_wal e) [(1, [])]" "mem_entries (snd (e_memtable e)) = []" "eng_inv e"
proof -
  let ?o = "\<lparr>MemtableSize = 1, L0CompactTrigger = 0, MaxLevels = 2, BlockSize = 0\<rparr>"
  obtain d e where e: "Engine_Open (open_ok (\<lambda>_ _. False)) ?o [] (\<lambda>_. None) [] = (d, Ok e)" "eng_inv e" "\<forall>k. engine_view e k = None"
    "log_rep (e_waldir e) (e_wal e) [(1, [])]" "immutableMems e = []" using Engine_Open_fresh by blast
  let ?s = "\<lparr>s_eng = e, s_pc = FlIdle, s_abs = (\<lambda>_. None)\<rparr>"
  have r: "eng_reach ?s" by (rule eng_reach.Fresh [OF e(1)])
  have "flushCh e = []" using sys_inv_reach [OF r] e(5) by (simp add: sys_inv_def queue_ok_def)
  moreover have "map_of (mem_entries (snd (e_memtable e))) k = None" for k
    using e(3) by (auto simp: engine_view_def e_mems_def source_ents_Cons map_of_mem_ient dest!: spec [of _ k] split: option.splits)
  then have "mem_entries (snd (e_memtable e)) = []" by (metis map_of_eq_None_iff map_of_eq_empty_iff ext)
  ultimately show thesis using that [of ?s e] e r by (auto simp: sample_sys_def log_rep_def)
qed

lemma sample_put:
  assumes "eng_inv e" "mem_entries (snd (e_memtable e)) = []"
  shows "mem_fits (fst (batchApply (\<lambda>_ _. False) (snd (e_memtable e)) [([1], Some [b])]))"
proof -
  have mi: "mem_inv (snd (e_memtable e))" "\<not> Memtable_IsFrozen (snd (e_memtable e))" using assms(1) by (auto simp: eng_inv_def Memtable_IsFrozen_def)
  obtain m where "Memtable_Put (\<lambda>_. False) (snd (e_memtable e)) [1] (Some [b]) = Ok m" "mem_entries m = [([1], Some [b])]"
    using mem.put_ok [OF mi, of "\<lambda>_. False" "[1]" "Some [b]"] assms(2) by auto
  then show ?thesis by (simp add: mem_fits_def sst_bound_def entry_size_def mem_ient_def val_bytes_def)
qed

lemma sample_write:
  obtains s e e' where "sample_sys s e" "s_eng s = e" "s_pc s = FlIdle" "s_abs s = (\<lambda>_. None)" "Engine_Put (write_ok (\<lambda>_ _. False)) e [1] (Some [10]) = (e', Ok ())"
    "eng_reach (s\<lparr>s_eng := e', s_abs := [[1] \<mapsto> [10]]\<rparr>)"
proof -
  obtain s e where s: "sample_sys s e" "eng_reach s" "s_eng s = e" "s_abs s = (\<lambda>_. None)" "fileID (e_wal e) = 1" "flushCh e = []"
    "mem_entries (snd (e_memtable e)) = []" "eng_inv e" using sample_reach by metis
  obtain e' r where p: "Engine_Put (write_ok (\<lambda>_ _. False)) e [1] (Some [10]) = (e', r)" by (metis prod.exhaust)
  have f: "write_fits (\<lambda>_ _. False) e [([1], Some [10])]"
    using sample_put [OF s(8,7)] s(5,6) by (simp add: write_fits_def flushCap_def batchRecord_def rec_ok_def val_bytes_def)
  have "abs_write (s_abs s) [([1], Some [10])] = [[1] \<mapsto> [10]]" by (simp add: abs_write_def s(4) fun_eq_iff)
  then have "eng_reach (s\<lparr>s_eng := e', s_abs := [[1] \<mapsto> [10]]\<rparr>)" using eng_reach.Step [OF s(2) eng_step.Put] p f s(3) by metis
  moreover have "r = Ok ()"
  proof -
    have m: "mem_inv (snd (e_memtable e))" "\<not> frozen (snd (e_memtable e))" using s(8) by (auto simp: eng_inv_def)
    obtain e1 r1 where b: "Engine_BatchPut (write_ok (\<lambda>_ _. False)) e [[1]] [Some [10]] = (e1, r1)" by (metis prod.exhaust)
    have "r1 = Ok ()" using batch_keeps [OF sys_inv_reach [OF s(2)], of _ "[[1]]" "[Some [10]]"] f b s(3) by simp
    then show ?thesis using Engine_Put_batch(1) [OF m, of "write_ok (\<lambda>_ _. False)" "[1]" "[10]"] p b by simp
  qed
  ultimately show thesis using that [of s e e'] s(1,3,4) p by (simp add: sample_sys_def)
qed

theorem engine_refines_map_witness:
  "\<exists>s e e'. sample_sys s e \<and> Engine_Put (write_ok (\<lambda>_ _. False)) e [1] (Some [10]) = (e', Ok ()) \<and>
     Engine_Get e' [1] = Ok (Some [10]) \<and> Engine_Get e' [7] = Err ErrNotFound"
proof -
  obtain s e e' where s: "sample_sys s e" "Engine_Put (write_ok (\<lambda>_ _. False)) e [1] (Some [10]) = (e', Ok ())"
    "eng_reach (s\<lparr>s_eng := e', s_abs := [[1] \<mapsto> [10]]\<rparr>)" using sample_write by metis
  have "reads_as e' [[1] \<mapsto> [10]]" using engine_refines_map [OF s(3)] by simp
  then have "Engine_Get e' [1] = Ok (Some [10])" "Engine_Get e' [7] = Err ErrNotFound" by (auto intro: reads_as_key)
  then show ?thesis using s(1,2) by blast
qed

text \<open>C2. The engine survives crashes. From the disk of every state that \<open>eng_step\<close> reaches, between two operations and in whatever phase the flush
  goroutine is, an engine opens without an error and reads as the same map, a key with an empty value
  found empty or not at all. The states are those of \<open>engine_refines_map\<close>: crashes inside a write are the next property, crashes inside
  a compaction are not covered, and neither are disks after a level-0 compaction that \<open>eng_step\<close> excludes.\<close>

theorem engine_recovers:
  assumes "eng_reach s"
  shows "\<exists>d e'. Engine_Open (open_ok c) (e_opts (s_eng s)) (e_waldir (s_eng s)) (e_files (s_eng s)) (mf_file (e_manifest (s_eng s))) = (d, Ok e') \<and>
    reads_as e' (s_abs s)"
  by (rule restart_reads [OF sys_inv_reach [OF assms]])

theorem engine_recovers_witness:
  "\<exists>s e e' d e2. sample_sys s e \<and> Engine_Put (write_ok (\<lambda>_ _. False)) e [1] (Some [10]) = (e', Ok ()) \<and>
     Engine_Open (open_ok (\<lambda>_ _. True)) (e_opts e') (e_waldir e') (e_files e') (mf_file (e_manifest e')) = (d, Ok e2) \<and>
     Engine_Get e2 [1] = Ok (Some [10]) \<and> Engine_Get e2 [7] = Err ErrNotFound"
proof -
  obtain s e e' where s: "sample_sys s e" "Engine_Put (write_ok (\<lambda>_ _. False)) e [1] (Some [10]) = (e', Ok ())"
    "eng_reach (s\<lparr>s_eng := e', s_abs := [[1] \<mapsto> [10]]\<rparr>)" using sample_write by metis
  obtain d e2 where o: "Engine_Open (open_ok (\<lambda>_ _. True)) (e_opts e') (e_waldir e') (e_files e') (mf_file (e_manifest e')) = (d, Ok e2)" "reads_as e2 [[1] \<mapsto> [10]]"
    using engine_recovers [OF s(3), of "\<lambda>_ _. True"] by auto
  then have "Engine_Get e2 [1] = Ok (Some [10])" "Engine_Get e2 [7] = Err ErrNotFound" by (auto intro: reads_as_key)
  then show ?thesis using s(1,2) o(1) by blast
qed

text \<open>An empty value does not survive a restart, against the README: the log has no way to tell it from nil, and a replayed
  put of nil is a deletion.\<close>

theorem engine_empty_value_lost:
  assumes "eng_reach s" "first_some (map (\<lambda>m. map_of (mem_entries m) k) (e_mems (s_eng s))) = Some (Some [])"
  shows "Engine_Get (s_eng s) k = Ok (Some []) \<and>
    (\<exists>d e'. Engine_Open (open_ok c) (e_opts (s_eng s)) (e_waldir (s_eng s)) (e_files (s_eng s)) (mf_file (e_manifest (s_eng s))) = (d, Ok e') \<and>
      Engine_Get e' k = Err ErrNotFound)"
proof -
  note inv = sys_inv_reach [OF assms(1)]
  obtain old groups act where wo: "wal_ok (s_eng s) (s_pc s) old groups act" using inv by (auto simp: sys_inv_def)
  then have dr: "dir_rep (e_waldir (s_eng s)) (old @ concat groups @ act)" by (simp add: wal_ok_def log_rep_def)
  have "recs_map (concat (map snd (concat groups @ act))) k = Some None" using wal_view [OF _ wo] inv assms(2) by (simp add: sys_inv_def)
  then have rm: "recs_map (concat (map snd (old @ concat groups @ act))) k = Some None" by (simp add: recs_map_append map_add_def split: option.splits)
  obtain d e' where o: "Engine_Open (open_ok c) (e_opts (s_eng s)) (e_waldir (s_eng s)) (e_files (s_eng s)) (mf_file (e_manifest (s_eng s))) = (d, Ok e')"
    "eng_inv e'" "kv_view e' k = None" using reopen_view [OF inv dr, of c] rm by auto
  have "reads_as e' (kv_view e')" by (rule reads_as_view [OF o(2)]) simp
  then have "Engine_Get e' k = Err ErrNotFound" using o(3) by (rule reads_as_key(3))
  moreover have "engine_view (s_eng s) k = Some (Some [], False)"
    using assms(2) by (simp add: engine_view_def source_ents_split [of _ "e_tables (s_eng s)"] stack_mems)
  then have "Engine_Get (s_eng s) k = Ok (Some [])" using Engine_Get_view inv by (simp add: sys_inv_def answer_def)
  ultimately show ?thesis using o(1) by blast
qed

text \<open>C3. A crash during a write. Whatever fails in a batch write on a reachable state, the engine that
  reopens from the disk reads as the map with a prefix of the batch applied: all of it when the write
  reported success.\<close>

theorem engine_write_crash:
  assumes "eng_reach s" "length keys = length vs" "list_all rec_ok (map batchRecord (zip keys vs))"
    and "fileID (e_wal (s_eng s)) < fileID (e_wal (s_eng s)) + 1"
    and "Engine_BatchPut io (s_eng s) keys vs = (e', r)"
  shows "\<exists>m\<le>length keys. (r = Ok () \<longrightarrow> m = length keys) \<and>
    (\<exists>d e2. Engine_Open (open_ok c) (e_opts e') (e_waldir e') (e_files e') (mf_file (e_manifest e')) = (d, Ok e2) \<and>
      reads_as e2 (abs_write (s_abs s) (take m (zip keys vs))))"
proof -
  note inv = sys_inv_reach [OF assms(1)]
  obtain old groups act where wo: "wal_ok (s_eng s) (s_pc s) old groups act" using inv by (auto simp: sys_inv_def)
  note b = batch_log [OF inv assms(2-5) wo]
  obtain m segs where m: "m \<le> length keys" "r = Ok () \<longrightarrow> m = length keys" and dr: "dir_rep (e_waldir e') segs"
    and rm: "recs_map (concat (map snd segs)) = recs_map (concat (map snd (old @ concat groups @ act))) ++ recs_map (map batchRecord (take m (zip keys vs)))"
    using b(1) by blast
  obtain d e2 where o: "Engine_Open (open_ok c) (e_opts e') (e_waldir e') (e_files e') (mf_file (e_manifest e')) = (d, Ok e2)" "eng_inv e2"
    "\<forall>k. kv_view e2 k = (case recs_map (concat (map snd segs)) k of Some v \<Rightarrow> v
        | None \<Rightarrow> user_value (stack_view (map reader_entries (flat_tables (disk_tables (s_eng s) (pc_extra (s_pc s))))) k))"
    using reopen_view [OF inv dr, of c] unfolding b(2-4) by blast
  have "value_as (abs_write (s_abs s) (take m (zip keys vs)) k) (kv_view e2 k)" for k
  proof -
    have "value_as (s_abs s k) (kv_view (s_eng s) k)" using inv by (simp add: sys_inv_def view_as_def)
    then show ?thesis using o(3) [rule_format, of k] value_as_trans [OF _ recovered_view [OF inv wo, of k]] unfolding rm recs_map_batch
      by (auto simp: abs_write_def map_add_def map_of_norm value_as_norm split: option.splits)
  qed
  then have "view_as (abs_write (s_abs s) (take m (zip keys vs))) (kv_view e2)" by (simp add: view_as_def)
  then have "reads_as e2 (abs_write (s_abs s) (take m (zip keys vs)))" using reads_as_view [OF o(2)] by blast
  then show ?thesis using m o(1) by blast
qed

theorem engine_write_crash_witness:
  "\<exists>s e e' r. sample_sys s e \<and> Engine_BatchPut ((write_ok (\<lambda>_ _. False))\<lparr>we_append := io_ok\<lparr>io_room := Some 5\<rparr>\<rparr>) e [[1], [2]] [Some [10], None] = (e', r) \<and>
     (\<exists>m\<le>2. \<exists>d e2. Engine_Open (open_ok (\<lambda>_ _. False)) (e_opts e') (e_waldir e') (e_files e') (mf_file (e_manifest e')) = (d, Ok e2) \<and>
       reads_as e2 (abs_write (\<lambda>_. None) (take m [([1], Some [10]), ([2], None)])))"
proof -
  obtain s e where s: "sample_sys s e" "eng_reach s" "s_eng s = e" "s_abs s = (\<lambda>_. None)" "fileID (e_wal e) = 1" using sample_reach by metis
  let ?io = "(write_ok (\<lambda>_ _. False))\<lparr>we_append := io_ok\<lparr>io_room := Some 5\<rparr>\<rparr>"
  obtain e' r where b: "Engine_BatchPut ?io (s_eng s) [[1], [2]] [Some [10], None] = (e', r)" by (metis prod.exhaust)
  have "list_all rec_ok (map batchRecord (zip [[1], [2]] [Some [10], None]))" by (simp add: batchRecord_def rec_ok_def val_bytes_def)
  moreover have "fileID (e_wal (s_eng s)) < fileID (e_wal (s_eng s)) + 1" using s(3,5) by simp
  ultimately obtain m d e2 where m: "m \<le> length [[1], [2 :: byte]]"
    "Engine_Open (open_ok (\<lambda>_ _. False)) (e_opts e') (e_waldir e') (e_files e') (mf_file (e_manifest e')) = (d, Ok e2)"
    "reads_as e2 (abs_write (s_abs s) (take m (zip [[1], [2]] [Some [10], None])))"
    using engine_write_crash [OF s(2) _ _ _ b, of "\<lambda>_ _. False"] by auto
  have "m \<le> 2" using m(1) by simp
  moreover have "reads_as e2 (abs_write (\<lambda>_. None) (take m [([1], Some [10]), ([2], None)]))" using m(3) unfolding s(4) by simp
  ultimately show ?thesis using s(1) b m(2) unfolding s(3) by blast
qed

text \<open>A batch is not atomic across a crash, against the comment on \<open>BatchPut\<close>: when the disk takes
  the first of two records and then the write fails, the reopened engine has the first key of the
  batch and not the second.\<close>

theorem engine_batch_not_atomic:
  "\<exists>s e e' err d e2. sample_sys s e \<and>
     Engine_BatchPut ((write_ok (\<lambda>_ _. False))\<lparr>we_append := io_ok\<lparr>io_room := Some 19\<rparr>\<rparr>) e [[1], [2]] [Some [10], Some [20]] = (e', Err err) \<and>
     Engine_Open (open_ok (\<lambda>_ _. False)) (e_opts e') (e_waldir e') (e_files e') (mf_file (e_manifest e')) = (d, Ok e2) \<and>
     Engine_Get e2 [1] = Ok (Some [10]) \<and> Engine_Get e2 [2] = Err ErrNotFound"
proof -
  obtain s e where s: "sample_sys s e" "eng_reach s" "s_eng s = e" "mem_entries (snd (e_memtable e)) = []" "flushCh e = []" "s_abs s = (\<lambda>_. None)"
    using sample_reach by metis
  let ?w = "\<lparr>fileID = 1, w_size = 0, w_maxSize = 67108864, w_pending = [], w_sticky = False, w_open = True\<rparr>"
  let ?io = "(write_ok (\<lambda>_ _. False))\<lparr>we_append := io_ok\<lparr>io_room := Some 19\<rparr>\<rparr>"
  let ?r1 = "\<lparr>r_type = RecordPut, r_key = [1], r_value = Some [10]\<rparr>" and ?r2 = "\<lparr>r_type = RecordPut, r_key = [2], r_value = Some [20]\<rparr>"
  have wo: "WAL_Open io_ok [] 0 = ([(walFileName 1, [])], Ok ?w)"
    by (simp add: WAL_Open_def io_ok_def findWALFiles_def map_filter_def openFile_def file_of_def Let_def wal_defaultMaxSize_def)
  have inv: "sys_inv s" by (rule sys_inv_reach [OF s(2)])
  have wal: "e_waldir e = [(walFileName 1, [])]" "e_wal e = ?w"
    using s(1) wo by (auto simp: sample_sys_def Engine_Open_def open_ok_def Let_def split: if_splits res.splits prod.splits)
  have len: "length (encodeRecord ?r1) = 19" "length (encodeRecord ?r2) = 19"
    by (simp_all add: length_encodeRecord length_record_data val_bytes_def)
  then have ne: "encodeRecord ?r1 \<noteq> []" "encodeRecord ?r2 \<noteq> []" by (metis list.size(3) zero_neq_numeral)+
  obtain w' err where app: "WAL_AppendBatch (io_ok\<lparr>io_room := Some 19\<rparr>) [(walFileName 1, [])] ?w [?r1, ?r2] = ([(walFileName 1, encodeRecord ?r1)], w', Some err)"
    using len ne by (simp add: WAL_AppendBatch_def buf_Write.simps flush_sync_def buf_Flush_def file_Write_def room_def buf_size_def file_of_def Let_def io_ok_def)
  let ?e' = "e\<lparr>e_waldir := [(walFileName 1, encodeRecord ?r1)], e_wal := w'\<rparr>"
  have run: "Engine_BatchPut ?io e [[1], [2]] [Some [10], Some [20]] = (?e', Err ''engine: wal batch: '')"
    using app by (simp add: Engine_BatchPut_def wal batchRecord_def write_ok_def Let_def)
  have dr: "dir_rep [(walFileName 1, encodeRecord ?r1)] [(1, [?r1])]"
  proof -
    have "file_holds (seg_bytes [?r1]) [?r1]" unfolding file_holds_exact by (simp add: rec_ok_def val_bytes_def)
    then show ?thesis by (simp add: dir_rep_def canonical_def)
  qed
  obtain d e2 where o: "Engine_Open (open_ok (\<lambda>_ _. False)) (e_opts e) [(walFileName 1, encodeRecord ?r1)] (e_files e) (mf_file (e_manifest e)) = (d, Ok e2)" "eng_inv e2"
    "\<forall>k. kv_view e2 k = (case recs_map (concat (map snd [(1 :: 64 word, [?r1])])) k of Some v \<Rightarrow> v
        | None \<Rightarrow> user_value (stack_view (map reader_entries (flat_tables (disk_tables (s_eng s) (pc_extra (s_pc s))))) k))"
    using reopen_view [OF inv dr, of "\<lambda>_ _. False"] unfolding s(3) by blast
  have rm: "recs_map [?r1] = [[1] \<mapsto> Some [10]]" by (simp add: recs_map_def rec_writes_def norm_rec_def)
  have pc: "s_pc s = FlIdle" using s(1) by (auto simp: sample_sys_def)
  have im: "immutableMems e = []" using inv s(3,5) pc by (simp add: sys_inv_def queue_ok_def)
  have "e_levels e \<noteq> []" using inv s(3) by (simp add: sys_inv_def eng_inv_def)
  then have "user_value (stack_view (map reader_entries (flat_tables (disk_tables (s_eng s) (pc_extra (s_pc s))))) k) = kv_view e k" for k
    using im s(4) by (simp add: s(3) pc flat_disk_tables kv_view_def engine_view_def e_mems_def source_ents_def mem_ient_def)
  moreover have "kv_view e k = None" for k using inv s(3,6) by (simp add: sys_inv_def view_as_def)
  ultimately have "kv_view e2 = [[1] \<mapsto> [10]]" using o(3) rm by (auto simp: fun_eq_iff)
  then have "reads_as e2 [[1] \<mapsto> [10]]" using reads_as_view [OF o(2)] by simp
  then have "Engine_Get e2 [1] = Ok (Some [10]) \<and> Engine_Get e2 [2] = Err ErrNotFound" by (auto intro: reads_as_key)
  moreover have "Engine_Open (open_ok (\<lambda>_ _. False)) (e_opts ?e') (e_waldir ?e') (e_files ?e') (mf_file (e_manifest ?e')) = (d, Ok e2)" using o(1) by simp
  ultimately show ?thesis using s(1) run by blast
qed

end
