(* ===== verification/Compaction_Faults.thy ===== *)
theory Compaction_Faults
  imports Engine_Steps
begin

text \<open>
  Compactions on the reachable states of \<open>Engine_Steps\<close>: that they return and change no answer when no
  key is in two tables of level 0, and what goes wrong otherwise. The merge of level 0 prefers the oldest
  table, a table between its manifest record and its installation is deleted, and the manifest
  records of an installation are not written as one. The runs of the witnesses are put together from
  \<open>cycle\<close>, a write and its flush.
\<close>

subsection \<open>A write and its flush\<close>

text \<open>States with nothing to flush, in which a write fills the memtable.\<close>

definition quiet :: "sys \<Rightarrow> nat \<Rightarrow> nat \<Rightarrow> bool" where
  "quiet s n i \<longleftrightarrow> eng_reach s \<and> s_pc s = FlIdle \<and> flushCh (s_eng s) = [] \<and> mem_entries (snd (e_memtable (s_eng s))) = [] \<and>
     maxSize (snd (e_memtable (s_eng s))) = 1 \<and> MemtableSize (e_opts (s_eng s)) = 1 \<and>
     unat (nextFileNum (s_eng s)) = n \<and> unat (fileID (e_wal (s_eng s))) = i"

text \<open>The phases of a flush in a row.\<close>

lemma flush_phases:
  assumes r: "eng_reach s" and pc: "s_pc s = FlIdle" and ch: "flushCh (s_eng s) = [t]" and nw: "nextFileNum (s_eng s) < nextFileNum (s_eng s) + 1"
  obtains s1 s' pr where "eng_reach s1" "s_pc s1 = FlInstall t pr" "s_abs s1 = s_abs s" "e_levels (s_eng s1) = e_levels (s_eng s)" "flushCh (s_eng s1) = []"
    "e_memtable (s_eng s1) = e_memtable (s_eng s)" "nextFileNum (s_eng s1) = nextFileNum (s_eng s) + 1"
    "eng_reach s'" "s_pc s' = FlIdle" "flushCh (s_eng s') = []" "s_abs s' = s_abs s" "e_memtable (s_eng s') = e_memtable (s_eng s)"
    "e_opts (s_eng s') = e_opts (s_eng s)" "nextFileNum (s_eng s') = nextFileNum (s_eng s) + 1" "e_wal (s_eng s') = e_wal (s_eng s)"
    "e_levels (s_eng s') = (e_levels (s_eng s))[0 := e_levels (s_eng s) ! 0 @ [pr]]"
    "reader_entries (snd pr) = table_of (mem_entries (snd (ft_mem t)))"
    "s' = \<lparr>s_eng = signalCompaction (flushPurge flush_ok (removeImmutable (flushInstall (s_eng s1) pr) (ft_mem t)) t), s_pc = FlIdle, s_abs = s_abs s\<rparr>"
proof -
  define sB where "sB = s\<lparr>s_eng := (s_eng s)\<lparr>flushCh := []\<rparr>, s_pc := FlBuild t\<rparr>"
  have B: "eng_reach sB" unfolding sB_def by (rule eng_reach.Step [OF r eng_step.Take [OF pc ch]])
  have pB: "s_pc sB = FlBuild t" "pending (s_pc sB) = [t]" by (simp_all add: sB_def)
  have t: "mem_inv (snd (ft_mem t))" "mem_fits (snd (ft_mem t))" "mem_entries (snd (ft_mem t)) \<noteq> []"
    using first_pending [OF sys_inv_reach [OF B] pB(2)] by auto
  obtain e1 pr where e1: "flushBuild flush_ok (s_eng sB) t = Some (e1, FlushBuilt pr)" using flushBuild_ok [OF t] by blast
  note b = flushBuild_Built [OF t(1,2) e1]
  have nwB: "nextFileNum (s_eng sB) < nextFileNum (s_eng sB) + 1" using nw by (simp add: sB_def)
  define s1 where "s1 = sB\<lparr>s_eng := e1, s_pc := FlInstall t pr\<rparr>"
  have r1: "eng_reach s1" unfolding s1_def by (rule eng_reach.Step [OF B eng_step.Build [OF pB(1) e1 nwB]])
  have p1: "s_pc s1 = FlInstall t pr" "s_eng s1 = e1" by (simp_all add: s1_def)
  define s2 where "s2 = s1\<lparr>s_eng := flushInstall (s_eng s1) pr, s_pc := FlRemove t\<rparr>"
  have r2: "eng_reach s2" unfolding s2_def by (rule eng_reach.Step [OF r1 eng_step.Install [OF p1(1)]])
  define s3 where "s3 = s2\<lparr>s_eng := removeImmutable (s_eng s2) (ft_mem t), s_pc := FlPurge t\<rparr>"
  have "s_pc s2 = FlRemove t" by (simp add: s2_def)
  then have r3: "eng_reach s3" unfolding s3_def by (rule eng_reach.Step [OF r2 eng_step.Remove])
  define s4 where "s4 = s3\<lparr>s_eng := flushPurge flush_ok (s_eng s3) t, s_pc := FlSignal\<rparr>"
  have "s_pc s3 = FlPurge t" by (simp add: s3_def)
  then have r4: "eng_reach s4" unfolding s4_def by (rule eng_reach.Step [OF r3 eng_step.Purge])
  define s5 where "s5 = s4\<lparr>s_eng := signalCompaction (s_eng s4), s_pc := FlIdle\<rparr>"
  have "s_pc s4 = FlSignal" by (simp add: s4_def)
  then have r5: "eng_reach s5" unfolding s5_def by (rule eng_reach.Step [OF r4 eng_step.Signal])
  have f1: "e_levels e1 = e_levels (s_eng s)" "flushCh e1 = []" "e_memtable e1 = e_memtable (s_eng s)" "e_opts e1 = e_opts (s_eng s)"
    "nextFileNum e1 = nextFileNum (s_eng s) + 1" "e_wal e1 = e_wal (s_eng s)" and ents: "reader_entries (snd pr) = table_of (mem_entries (snd (ft_mem t)))"
    using b by (auto simp: sB_def)
  have s5: "s5 = \<lparr>s_eng = signalCompaction (flushPurge flush_ok (removeImmutable (flushInstall (s_eng s1) pr) (ft_mem t)) t), s_pc = FlIdle, s_abs = s_abs s\<rparr>"
    by (simp add: s5_def s4_def s3_def s2_def s1_def sB_def)
  show ?thesis
    by (rule that [OF r1 p1(1) _ _ _ _ _ r5 _ _ _ _ _ _ _ _ ents s5])
      (simp_all add: s5_def s4_def s3_def s2_def s1_def sB_def f1 flushInstall_def removeImmutable_def flushPurge_def signalCompaction_def)
qed

text \<open>A write that fills the memtable, up to its flush task.\<close>

lemma full_write:
  assumes q: "quiet s n i" and i: "i + 1 < 2 ^ 64" and v: "v = None \<or> v = Some [b]"
  obtains s1 t where "eng_reach s1" "s_pc s1 = FlIdle" "flushCh (s_eng s1) = [t]" "s_abs s1 = abs_write (s_abs s) [([a], v)]"
    "mem_entries (snd (ft_mem t)) = [([a], v)]" "e_memtable (s_eng s1) = (e_nextptr (s_eng s), NewMemtable 1)" "e_opts (s_eng s1) = e_opts (s_eng s)"
    "nextFileNum (s_eng s1) = nextFileNum (s_eng s)" "unat (fileID (e_wal (s_eng s1))) = i + 1" "e_levels (s_eng s1) = e_levels (s_eng s)"
proof -
  let ?e = "s_eng s" and ?c = "\<lambda>_ _. False" and ?kv = "[([a], v)]"
  have r: "eng_reach s" and st: "s_pc s = FlIdle" "flushCh ?e = []" "mem_entries (snd (e_memtable ?e)) = []" "maxSize (snd (e_memtable ?e)) = 1"
    "MemtableSize (e_opts ?e) = 1" "unat (fileID (e_wal ?e)) = i" using q by (auto simp: quiet_def)
  have inv: "sys_inv s" by (rule sys_inv_reach [OF r])
  have mi: "mem_inv (snd (e_memtable ?e))" "\<not> Memtable_IsFrozen (snd (e_memtable ?e))"
    using inv by (auto simp: sys_inv_def eng_inv_def Memtable_IsFrozen_def)
  obtain m where m: "Memtable_Put (\<lambda>_. False) (snd (e_memtable ?e)) [a] v = Ok m" "mem_inv m" "mem_entries m = [([a], v)]"
    using mem.put_ok [OF mi, of "\<lambda>_. False" "[a]" v] st(3) by auto
  have ba: "batchApply ?c (snd (e_memtable ?e)) ?kv = (m, Ok ())" using m(1) v by (auto simp: mem.del_put)
  have nw: "fileID (e_wal ?e) < fileID (e_wal ?e) + 1" "unat (fileID (e_wal ?e) + 1) = i + 1" using unat_Suc64 [of "fileID (e_wal ?e)"] st(6) i by auto
  have fits: "write_fits ?c ?e ?kv"
    using st(2) nw(1) ba v m(3) by (auto simp: write_fits_def flushCap_def batchRecord_def rec_ok_def val_bytes_def mem_fits_def sst_bound_def entry_size_def mem_ient_def)
  obtain d w err where app: "WAL_AppendBatch io_ok (e_waldir ?e) (e_wal ?e) (map batchRecord ?kv) = (d, w, err)" by (metis prod_cases3)
  note ak = append_keeps [OF inv fits app ba]
  define e1 where "e1 = ?e\<lparr>e_waldir := d, e_wal := w, e_memtable := (fst (e_memtable ?e), m)\<rparr>"
  define s0 where "s0 = s\<lparr>s_eng := e1, s_abs := abs_write (s_abs s) ?kv\<rparr>"
  have inv0: "sys_inv s0" using ak(3) by (simp add: s0_def e1_def)
  obtain e2 where e2: "Engine_BatchPut (write_ok ?c) ?e [[a]] [v] = (e2, Ok ())" "e2 = maybeScheduleFlush io_ok e1"
    using app ak(1) ba by (simp add: Engine_BatchPut_def write_ok_def Let_def e1_def)
  have "maxSize m = 1" using m(1) st(4) by (auto simp: Memtable_Put_def split: if_splits option.splits)
  moreover have "64 \<le> SkipList_Size (sl m)" using SkipList_Size_lower [of "sl m"] m(2,3) by (simp add: mem_inv_def mem_entries_def)
  ultimately have sf: "Memtable_ShouldFlush (snd (e_memtable e1))" by (simp add: e1_def Memtable_ShouldFlush_def)
  obtain old groups act where wo: "wal_ok e1 (s_pc s0) old groups act" using inv0 by (auto simp: sys_inv_def s0_def)
  obtain d2 w2 r2 where rot: "WAL_Rotate io_ok (e_waldir e1) (e_wal e1) = (d2, w2, r2)" by (metis prod_cases3)
  have fid: "fileID (e_wal e1) = fileID (e_wal ?e)" using ak(4) by (simp add: e1_def)
  have rep: "log_rep (e_waldir e1) (e_wal e1) (old @ concat groups @ act)" using wo by (simp add: wal_ok_def)
  note rr = WAL_Rotate_rep [OF rep _ rot]
  have r2: "r2 = Ok (fileID (e_wal e1))" using rr(3) nw(1) fid by (simp add: io_ok_def)
  then have w2: "fileID w2 = fileID (e_wal ?e) + 1" using rr(1) nw(1) fid by simp
  let ?t = "\<lparr>ft_mem = (fst (e_memtable ?e), Memtable_Freeze m), ft_walID = fileID (e_wal e1)\<rparr>"
  have e2': "e2 = e1\<lparr>e_waldir := d2, e_wal := w2, immutableMems := (fst (e_memtable ?e), Memtable_Freeze m) # immutableMems ?e,
      e_memtable := (e_nextptr ?e, NewMemtable 1), e_nextptr := Suc (e_nextptr ?e), flushCh := [?t]\<rparr>"
    using sf rot r2 st(2,5) by (simp add: e2(2) maybeScheduleFlush_def e1_def flushCap_def Let_def)
  have "eng_step s (s\<lparr>s_eng := e2, s_abs := abs_write (s_abs s) (zip [[a]] [v])\<rparr>)"
    by (rule eng_step.BatchPut [OF _ e2(1)]) (use fits in simp_all)
  then have rs: "eng_reach (s\<lparr>s_eng := e2, s_abs := abs_write (s_abs s) ?kv\<rparr>)" using eng_reach.Step [OF r] by simp
  have "mem_entries (Memtable_Freeze m) = [([a], v)]" using mem.freeze_ok [OF m(2)] m(3) by simp
  then show ?thesis using st nw w2 by (intro that [OF rs, of ?t]) (simp_all add: e2' e1_def)
qed

lemma cycle:
  assumes q: "quiet s n i" and n: "n + 1 < 2 ^ 64" "i + 1 < 2 ^ 64" and v: "v = None \<or> v = Some [b]"
  obtains s' pr where "quiet s' (n + 1) (i + 1)" "s_abs s' = abs_write (s_abs s) [([a], v)]"
    "e_levels (s_eng s') = (e_levels (s_eng s))[0 := e_levels (s_eng s) ! 0 @ [pr]]" "reader_entries (snd pr) = [([a], v, v = None)]"
proof -
  obtain s1 t where s1: "eng_reach s1" "s_pc s1 = FlIdle" "flushCh (s_eng s1) = [t]" "s_abs s1 = abs_write (s_abs s) [([a], v)]"
    "mem_entries (snd (ft_mem t)) = [([a], v)]" "e_memtable (s_eng s1) = (e_nextptr (s_eng s), NewMemtable 1)" "e_opts (s_eng s1) = e_opts (s_eng s)"
    "nextFileNum (s_eng s1) = nextFileNum (s_eng s)" "unat (fileID (e_wal (s_eng s1))) = i + 1" "e_levels (s_eng s1) = e_levels (s_eng s)"
    using full_write [OF q n(2) v] .
  have nw: "nextFileNum (s_eng s1) < nextFileNum (s_eng s1) + 1" "unat (nextFileNum (s_eng s1) + 1) = n + 1"
    using unat_Suc64 [of "nextFileNum (s_eng s1)"] q n(1) s1(8) by (auto simp: quiet_def)
  obtain s' pr where s': "eng_reach s'" "s_pc s' = FlIdle" "flushCh (s_eng s') = []" "s_abs s' = s_abs s1" "e_memtable (s_eng s') = e_memtable (s_eng s1)"
    "e_opts (s_eng s') = e_opts (s_eng s1)" "nextFileNum (s_eng s') = nextFileNum (s_eng s1) + 1" "e_wal (s_eng s') = e_wal (s_eng s1)"
    "e_levels (s_eng s') = (e_levels (s_eng s1))[0 := e_levels (s_eng s1) ! 0 @ [pr]]"
    "reader_entries (snd pr) = table_of (mem_entries (snd (ft_mem t)))" using flush_phases [OF s1(1-3) nw(1)] by metis
  have "quiet s' (n + 1) (i + 1)" using s' s1 nw(2) q by (simp add: quiet_def NewMemtable_def mem_entries_def)
  then show ?thesis using s' s1(4,5,10) v by (intro that [of s' pr]) (auto simp: table_of_def)
qed

lemma sample_quiet:
  obtains s where "quiet s 1 1" "e_levels (s_eng s) = [[], []]" "s_abs s = (\<lambda>_. None)"
proof -
  let ?o = "\<lparr>MemtableSize = 1, L0CompactTrigger = 0, MaxLevels = 2, BlockSize = 0\<rparr>"
  have d0: "dir_rep [] []" by (simp add: dir_rep_def canonical_def)
  have o: "nat (MaxLevels (applyDefaults ?o)) = 2" "MemtableSize (applyDefaults ?o) = 1" by (simp_all add: applyDefaults_def)
  have lv: "disk_levels (\<lambda>_. None) (replicate 2 []) (replicate 2 [])" by (simp add: disk_levels_def list_all2_conv_all_nth)
  have om: "OpenManifest mf_ok [] (nat (MaxLevels (applyDefaults ?o))) = Ok \<lparr>mf_file = [], mf_levels = replicate 2 []\<rparr>"
    unfolding o(1) by (rule open_empty_manifest)
  obtain d w e where e: "Engine_Open (open_ok (\<lambda>_ _. False)) ?o [] (\<lambda>_. None) [] = (d, Ok e)" "WAL_Open io_ok [] 0 = (d, Ok w)"
    "e_opts e = applyDefaults ?o" "e_wal e = w" "map (map snd) (e_levels e) = replicate 2 []" "flushCh e = []"
    "nextFileNum e = maxFileNum (mf_levels \<lparr>mf_file = [], mf_levels = replicate 2 []\<rparr>) + 1"
    "map_of (mem_entries (snd (e_memtable e))) = recs_map (concat (map snd ([] :: segments)))"
    "mem_entries (snd (e_memtable e)) = [] \<longrightarrow> snd (e_memtable e) = NewMemtable (MemtableSize (applyDefaults ?o))"
    using Engine_Open_ok [OF d0 om, of "\<lambda>_. None" "replicate 2 []" "\<lambda>_ _. False"] lv by auto
  have ents: "mem_entries (snd (e_memtable e)) = []" using e(8) by (simp add: recs_map_def)
  have lvl: "e_levels e = [[], []]" using e(5) by (auto simp: numeral_2_eq_2)
  have "fileID w = 1" using WAL_Open_rep(3) [OF d0 e(2)] by (simp add: log_rep_def)
  moreover have "eng_reach \<lparr>s_eng = e, s_pc = FlIdle, s_abs = (\<lambda>_. None)\<rparr>" by (rule eng_reach.Fresh [OF e(1)])
  ultimately show ?thesis using e(3,4,6,7,9) ents o lvl
    by (intro that [of "\<lparr>s_eng = e, s_pc = FlIdle, s_abs = (\<lambda>_. None)\<rparr>"])
      (simp_all add: quiet_def NewMemtable_def maxFileNum_def numeral_2_eq_2)
qed

text \<open>The runs of the witnesses: one write, and two writes to one key.\<close>

lemma NewMemtable_entries: "mem_entries (NewMemtable n) = []"
  by (simp add: NewMemtable_def mem_entries_def)

lemma quiet_mems: assumes "quiet s n i" shows "\<forall>m\<in>set (e_mems (s_eng s)). map_of (mem_entries m) k = None"
proof -
  have "sys_inv s" using assms sys_inv_reach by (simp add: quiet_def)
  then have "immutableMems (s_eng s) = []" using assms by (simp add: sys_inv_def queue_ok_def quiet_def)
  then show ?thesis using assms by (simp add: e_mems_def quiet_def)
qed

lemma sample_one:
  assumes "v = None \<or> v = Some [b]"
  obtains s p where "quiet s 2 2" "e_levels (s_eng s) = [[p], []]" "reader_entries (snd p) = [([a], v, v = None)]"
    "s_abs s = abs_write (\<lambda>_. None) [([a], v)]"
proof -
  obtain s0 where s0: "quiet s0 1 1" "e_levels (s_eng s0) = [[], []]" "s_abs s0 = (\<lambda>_. None)" using sample_quiet .
  obtain s p where "quiet s (1 + 1) (1 + 1)" "s_abs s = abs_write (s_abs s0) [([a], v)]"
    "e_levels (s_eng s) = (e_levels (s_eng s0))[0 := e_levels (s_eng s0) ! 0 @ [p]]" "reader_entries (snd p) = [([a], v, v = None)]"
    by (rule cycle [OF s0(1) _ _ assms, of a]) simp_all
  then show ?thesis using s0(2,3) by (intro that [of s p]) (simp_all add: numeral_2_eq_2)
qed

lemma sample_two:
  assumes "v = None \<or> v = Some [c]"
  obtains s p p' where "quiet s 3 3" "e_levels (s_eng s) = [[p, p'], []]" "reader_entries (snd p) = [([a], Some [b], False)]"
    "reader_entries (snd p') = [([a'], v, v = None)]" "s_abs s = abs_write (abs_write (\<lambda>_. None) [([a], Some [b])]) [([a'], v)]"
proof -
  obtain s1 p where s1: "quiet s1 2 2" "e_levels (s_eng s1) = [[p], []]" "reader_entries (snd p) = [([a], Some [b], Some [b] = None)]"
    "s_abs s1 = abs_write (\<lambda>_. None) [([a], Some [b])]" by (rule sample_one [of "Some [b]" b a]) simp_all
  obtain s p' where "quiet s (2 + 1) (2 + 1)" "s_abs s = abs_write (s_abs s1) [([a'], v)]"
    "e_levels (s_eng s) = (e_levels (s_eng s1))[0 := e_levels (s_eng s1) ! 0 @ [p']]" "reader_entries (snd p') = [([a'], v, v = None)]"
    by (rule cycle [OF s1(1) _ _ assms, of a']) simp_all
  then show ?thesis using s1(2-4) by (intro that [of s p p']) (simp_all add: numeral_3_eq_3)
qed

lemma cmp_fits_two:
  assumes "quiet s n i" "e_levels (s_eng s) = [rs, []]" "\<forall>r\<in>set rs. \<forall>x\<in>set (reader_entries (snd r)). entry_size x < 2 ^ 30"
    and "n + sum_list (map (\<lambda>r. length (reader_entries (snd r))) rs) < 2 ^ 64"
  shows "cmp_fits (s_eng s) 0"
  using assms by (simp add: cmp_fits_def level_tables_def quiet_def comp_def)

subsection \<open>Properties\<close>

lemma reach_invs:
  assumes "eng_reach s"
  shows "eng_inv (s_eng s)" "ids_ok (s_eng s)" "disk_ok (s_eng s) (pc_extra (s_pc s))" "l0_wf (s_eng s)"
  using sys_reach [OF assms] by (auto simp: sys_inv_def tabs_ok_def)

lemma same_reads: "eng_inv e \<Longrightarrow> eng_inv e' \<Longrightarrow> engine_view e' k = engine_view e k \<Longrightarrow> Engine_Get e' k = Engine_Get e k"
  by (simp add: Engine_Get_view)

lemma first_some_in: "first_some xs = Some v \<Longrightarrow> Some v \<in> set xs"
  by (induction xs) (auto split: option.splits)

lemma frame_tables: "frame e e' \<Longrightarrow> stack_view (source_ents (e_mems e) []) k = None \<Longrightarrow> engine_view e' k = tables_view e' k"
  by (simp add: engine_view_tables frame_def e_mems_def)

text \<open>C17. Compactions end and are invisible. On every reachable state (for level 0: when no key is in two
  of its tables and no flushed table waits for its installation), with sizes within the formats and
  no failing call, a compaction returns without an error, keeps the invariant, and \<open>Get\<close> answers
  every key exactly as before.\<close>

theorem compaction_invisible:
  assumes "eng_reach s" "Suc l < length (e_levels (s_eng s))" "cmp_fits (s_eng s) l"
    and "l = 0 \<longrightarrow> l0_apart (s_eng s) \<and> (\<forall>t pr. s_pc s \<noteq> FlInstall t pr)"
  shows "\<exists>e'. (if l = 0 then compactL0 cmp_ok (s_eng s) else compactLevel cmp_ok (s_eng s) l) = Some (e', None) \<and> eng_inv e' \<and>
    (\<forall>k. Engine_Get e' k = Engine_Get (s_eng s) k)"
proof -
  note inv = reach_invs [OF assms(1)]
  have "\<exists>e'. (if l = 0 then compactL0 cmp_ok (s_eng s) else compactLevel cmp_ok (s_eng s) l) = Some (e', None) \<and> eng_inv e' \<and> engine_view e' = engine_view (s_eng s)"
  proof (cases "l = 0")
    case True
    show ?thesis
    proof (cases "e_levels (s_eng s) ! 0 = []")
      case True
      then show ?thesis using \<open>l = 0\<close> inv(1) compactL0_empty by auto
    next
      case False
      then show ?thesis using compactL0_ok [OF inv(1-3) _ _ inv(4) False cmp_ok_works] assms(2-4) \<open>l = 0\<close> frame_view by fastforce
    qed
  next
    case False
    then show ?thesis using compactLevel_ok [OF inv(1-3) _ assms(2,3) cmp_ok_works] frame_view by fastforce
  qed
  then show ?thesis using same_reads [OF inv(1)] by metis
qed

text \<open>C36. The compaction of level 0 brings overwritten values back. When a key is in two tables of level 0
  and not in memory, \<open>Get\<close> returns the newer value before the compaction and the older one after it:
  \<open>compactL0\<close> gives the tables their position as priority, and the merge prefers the lowest.\<close>

theorem compaction_resurrects:
  assumes "eng_reach s" "1 < length (e_levels (s_eng s))" "cmp_fits (s_eng s) 0" "e_levels (s_eng s) ! 0 = [r_old, r_new]"
    and "\<forall>m\<in>set (e_mems (s_eng s)). map_of (mem_entries m) k = None"
    and "map_of (reader_entries (snd r_old)) k = Some (Some old, False)" "map_of (reader_entries (snd r_new)) k = Some (Some new, False)"
  shows "Engine_Get (s_eng s) k = Ok (Some new) \<and> (\<exists>e'. compactL0 cmp_ok (s_eng s) = Some (e', None) \<and> Engine_Get e' k = Ok (Some old))"
proof -
  note inv = reach_invs [OF assms(1)]
  have ne: "e_levels (s_eng s) ! 0 \<noteq> []" "e_levels (s_eng s) \<noteq> []" using assms(2,4) by auto
  obtain e' where e': "compactL0 cmp_ok (s_eng s) = Some (e', None)" "eng_inv e'" "frame (s_eng s) e'"
    "\<forall>k x. stack_view (level_tables (s_eng s) 0) k = Some x \<longrightarrow> tables_view e' k = Some x"
    using compactL0_ok [OF inv(1-3) assms(2,3) inv(4) ne(1) cmp_ok_works] by auto
  have lt: "level_tables (s_eng s) 0 = [reader_entries (snd r_old), reader_entries (snd r_new)]" by (simp add: level_tables_def assms(4))
  have mems: "stack_view (source_ents (e_mems (s_eng s)) []) k = None" using assms(5) by (simp add: stack_mems first_some_None)
  have "tables_view (s_eng s) k = Some (Some new, False)" using assms(7) by (simp add: tables_view_levels [OF ne(2)] lt)
  then have "engine_view (s_eng s) k = Some (Some new, False)" using mems by (simp add: engine_view_tables)
  moreover have "engine_view e' k = Some (Some old, False)"
    using frame_tables [OF e'(3) mems] e'(4) assms(6) by (simp add: lt)
  ultimately show ?thesis using e'(1) by (auto simp: Engine_Get_view inv(1) e'(2) answer_def)
qed

theorem compaction_resurrects_witness:
  "\<exists>s e'. eng_reach s \<and> s_abs s [7] = Some [20] \<and> Engine_Get (s_eng s) [7] = Ok (Some [20]) \<and>
     compactL0 cmp_ok (s_eng s) = Some (e', None) \<and> Engine_Get e' [7] = Ok (Some [10])"
proof -
  obtain s p1 p2 where s: "quiet s 3 3" "e_levels (s_eng s) = [[p1, p2], []]" "reader_entries (snd p1) = [([7], Some [10], False)]"
    "reader_entries (snd p2) = [([7], Some [20], Some [20 :: byte] = None)]" "s_abs s = abs_write (abs_write (\<lambda>_. None) [([7], Some [10])]) [([7], Some [20])]"
    by (rule sample_two [of "Some [20]" 20 7 10 7]) simp_all
  have fits: "cmp_fits (s_eng s) 0" by (rule cmp_fits_two [OF s(1,2)]) (simp_all add: s(3,4) entry_size_def val_bytes_def)
  have r: "eng_reach s" using s(1) by (simp add: quiet_def)
  have "1 < length (e_levels (s_eng s))" "e_levels (s_eng s) ! 0 = [p1, p2]" by (simp_all add: s(2))
  from compaction_resurrects [OF r this(1) fits this(2), of "[7]" "[10]" "[20]"]
  show ?thesis using r s(3-5) quiet_mems [OF s(1)] by (auto simp: abs_write_def)
qed

text \<open>Tombstones are never dropped, against the README. A tombstone that level 0 has for a key is in a
  table of the deepest level after its compaction into that level.\<close>

theorem compaction_keeps_tombstones:
  assumes "eng_reach s" "length (e_levels (s_eng s)) = 2" "cmp_fits (s_eng s) 0"
    and "stack_view (level_tables (s_eng s) 0) k = Some (None, True)"
  shows "\<exists>e'. compactL0 cmp_ok (s_eng s) = Some (e', None) \<and> e_levels e' ! 0 = [] \<and>
    (\<exists>r\<in>set (e_levels e' ! 1). map_of (reader_entries (snd r)) k = Some (None, True))"
proof -
  note inv = reach_invs [OF assms(1)]
  have l: "1 < length (e_levels (s_eng s))" and ne: "e_levels (s_eng s) ! 0 \<noteq> []" using assms(2,4) by (auto simp: level_tables_def)
  obtain e' where e': "compactL0 cmp_ok (s_eng s) = Some (e', None)" "eng_inv e'" "frame (s_eng s) e'" "e_levels e' ! 0 = []"
    "\<forall>k x. stack_view (level_tables (s_eng s) 0) k = Some x \<longrightarrow> tables_view e' k = Some x"
    using compactL0_ok [OF inv(1-3) l assms(3) inv(4) ne cmp_ok_works] by auto
  have len: "length (e_levels e') = 2" "e_levels e' \<noteq> []" using e'(3) assms(2) by (auto simp: frame_def)
  have "stack_view (level_tables e' 1) k = Some (None, True)"
    using e'(4,5) assms(4) tables_view_levels [OF len(2), of k] len(1) by (simp add: level_tables_def [of _ 0] numeral_2_eq_2)
  then have "\<exists>r\<in>set (e_levels e' ! 1). map_of (reader_entries (snd r)) k = Some (None, True)"
    by (force simp: level_tables_def stack_view_def comp_def dest: first_some_in)
  then show ?thesis using e'(1,4) by blast
qed

theorem compaction_keeps_tombstones_witness:
  "\<exists>s e'. eng_reach s \<and> s_abs s [7] = None \<and> compactL0 cmp_ok (s_eng s) = Some (e', None) \<and>
     (\<exists>r\<in>set (e_levels e' ! 1). map_of (reader_entries (snd r)) [7] = Some (None, True))"
proof -
  obtain s p where s: "quiet s 2 2" "e_levels (s_eng s) = [[p], []]" "reader_entries (snd p) = [([7], None, (None :: bytes option) = None)]"
    "s_abs s = abs_write (\<lambda>_. None) [([7], None)]" by (rule sample_one [of None 0 7]) simp_all
  have fits: "cmp_fits (s_eng s) 0" by (rule cmp_fits_two [OF s(1,2)]) (simp_all add: s(3) entry_size_def val_bytes_def)
  have r: "eng_reach s" "s_abs s [7] = None" using s(1,4) by (simp_all add: quiet_def abs_write_def)
  have "length (e_levels (s_eng s)) = 2" "stack_view (level_tables (s_eng s) 0) [7] = Some (None, True)"
    by (simp_all add: s(2,3) level_tables_def)
  from compaction_keeps_tombstones [OF r(1) this(1) fits this(2)] show ?thesis using r by blast
qed

text \<open>The log after the rest of a flush: the compaction does not touch it.\<close>

lemma purged_log:
  assumes "eng_reach s" "s_pc s = FlInstall t pr" "flushCh (s_eng s) = []" "frame (s_eng s) e'"
  shows "\<exists>segs. dir_rep (e_waldir (flushPurge flush_ok (removeImmutable (flushInstall e' pr) (ft_mem t)) t)) segs \<and>
    recs_map (concat (map snd segs)) k = map_option norm_value (map_of (mem_entries (snd (e_memtable (s_eng s)))) k)"
proof -
  define s2 where "s2 = s\<lparr>s_eng := flushInstall (s_eng s) pr, s_pc := FlRemove t\<rparr>"
  have r2: "eng_reach s2" unfolding s2_def by (rule eng_reach.Step [OF assms(1) eng_step.Install [OF assms(2)]])
  define s3 where "s3 = s2\<lparr>s_eng := removeImmutable (s_eng s2) (ft_mem t), s_pc := FlPurge t\<rparr>"
  have r3: "eng_reach s3" unfolding s3_def by (rule eng_reach.Step [OF r2 eng_step.Remove]) (simp add: s2_def)
  define s4 where "s4 = s3\<lparr>s_eng := flushPurge flush_ok (s_eng s3) t, s_pc := FlSignal\<rparr>"
  have r4: "eng_reach s4" unfolding s4_def by (rule eng_reach.Step [OF r3 eng_step.Purge]) (simp add: s3_def)
  have wd: "e_waldir (s_eng s4) = e_waldir (flushPurge flush_ok (removeImmutable (flushInstall e' pr) (ft_mem t)) t)"
    using assms(4) by (simp add: s4_def s3_def s2_def flushPurge_def removeImmutable_def flushInstall_def frame_def)
  have same: "flushCh (s_eng s4) = []" "e_memtable (s_eng s4) = e_memtable (s_eng s)" "s_pc s4 = FlSignal"
    using assms(3) by (simp_all add: s4_def s3_def s2_def flushPurge_def removeImmutable_def flushInstall_def)
  have inv: "sys_inv s4" by (rule sys_inv_reach [OF r4])
  then obtain old groups act where wo: "wal_ok (s_eng s4) FlSignal old groups act" by (auto simp: sys_inv_def same)
  then have segs: "groups = []" "old = []" "log_rep (e_waldir (s_eng s4)) (e_wal (s_eng s4)) act" "holds act (snd (e_memtable (s_eng s)))"
    by (auto simp: wal_ok_def same)
  then have "dir_rep (e_waldir (s_eng s4)) act" by (simp add: log_rep_def)
  then show ?thesis using segs(4) unfolding wd holds_def by blast
qed

text \<open>C37. A table between its manifest record and its installation is lost to a compaction. When level 0 is
  compacted after \<open>flushMemtable\<close> has added its table to the manifest and before it has added it to the
  level, the compaction takes the readers of the level and the records of the manifest: the record and the
  file of the new table go, its data is in no output. Once the flush has purged the log, a restart does
  not find the key any more.\<close>

theorem compaction_race_loses:
  assumes "eng_reach s" "s_pc s = FlInstall t pr" "flushCh (s_eng s) = []" "1 < length (e_levels (s_eng s))" "cmp_fits (s_eng s) 0"
    and "e_levels (s_eng s) ! 0 \<noteq> []" "map_of (mem_entries (snd (ft_mem t))) k = Some (Some v)"
    and "map_of (mem_entries (snd (e_memtable (s_eng s)))) k = None" "tables_view (s_eng s) k = None"
  shows "Engine_Get (s_eng s) k = Ok (Some v) \<and>
    (\<exists>e' e2 d e3. compactL0 cmp_ok (s_eng s) = Some (e', None) \<and>
      e2 = flushPurge flush_ok (removeImmutable (flushInstall e' pr) (ft_mem t)) t \<and>
      Engine_Open (open_ok c) (e_opts e2) (e_waldir e2) (e_files e2) (mf_file (e_manifest e2)) = (d, Ok e3) \<and>
      Engine_Get e3 k = Err ErrNotFound)"
proof -
  let ?e = "s_eng s"
  note inv = reach_invs [OF assms(1)]
  have sinv: "sys_inv s" by (rule sys_inv_reach [OF assms(1)])
  have im: "immutableMems ?e = [ft_mem t]" using sinv assms(2,3) by (simp add: sys_inv_def queue_ok_def)
  have "engine_view ?e k = Some (Some v, False)" using assms(7,8) by (simp add: engine_view_tables stack_mems e_mems_def im)
  then have get: "Engine_Get ?e k = Ok (Some v)" by (simp add: Engine_Get_view inv(1) answer_def)
  obtain e' where e': "compactL0 cmp_ok ?e = Some (e', None)" "eng_inv e'" "disk_ok e' []" "frame ?e e'" "\<forall>k. tables_view ?e k = None \<longrightarrow> tables_view e' k = None"
    using compactL0_ok [OF inv(1-3) assms(4,5) inv(4) assms(6) cmp_ok_works] by auto
  define e2 where "e2 = flushPurge flush_ok (removeImmutable (flushInstall e' pr) (ft_mem t)) t"
  obtain segs where segs: "dir_rep (e_waldir e2) segs" "recs_map (concat (map snd segs)) k = None"
    using purged_log [OF assms(1-3) e'(4), of k] assms(8) by (auto simp: e2_def)
  have same: "e_opts e2 = e_opts e'" "e_files e2 = e_files e'" "e_manifest e2 = e_manifest e'"
    by (simp_all add: e2_def flushPurge_def removeImmutable_def flushInstall_def)
  obtain d e3 where e3: "Engine_Open (open_ok c) (e_opts e2) (e_waldir e2) (e_files e2) (mf_file (e_manifest e2)) = (d, Ok e3)" "eng_inv e3"
    "kv_view e3 k = user_value (stack_view (map reader_entries (flat_tables (disk_tables e' []))) k)"
    using reopen_disk [OF e'(2) _ e'(3) segs(1), of c] segs(2) unfolding same by auto
  have "e_levels e' \<noteq> []" using e'(2) by (simp add: eng_inv_def)
  then have "kv_view e3 k = None" using e3(3) e'(5) assms(9) by (simp add: flat_disk_tables tables_view_def)
  then have "Engine_Get e3 k = Err ErrNotFound" using reads_as_key(3) [OF reads_as_view [OF e3(2) view_as_refl]] by simp
  then show ?thesis using get e'(1) e3(1) unfolding e2_def by blast
qed

theorem compaction_race_loses_witness:
  "\<exists>s t pr e' e2 d e3. eng_reach s \<and> s_pc s = FlInstall t pr \<and> s_abs s [9] = Some [20] \<and> Engine_Get (s_eng s) [9] = Ok (Some [20]) \<and>
     compactL0 cmp_ok (s_eng s) = Some (e', None) \<and> e2 = flushPurge flush_ok (removeImmutable (flushInstall e' pr) (ft_mem t)) t \<and>
     Engine_Open (open_ok (\<lambda>_ _. False)) (e_opts e2) (e_waldir e2) (e_files e2) (mf_file (e_manifest e2)) = (d, Ok e3) \<and>
     Engine_Get e3 [9] = Err ErrNotFound"
proof -
  obtain s0 p where s0: "quiet s0 2 2" "e_levels (s_eng s0) = [[p], []]" "reader_entries (snd p) = [([7], Some [10], Some [10 :: byte] = None)]"
    by (rule sample_one [of "Some [10]" 10 7]) simp_all
  obtain s1 t where s1: "eng_reach s1" "s_pc s1 = FlIdle" "flushCh (s_eng s1) = [t]" "s_abs s1 = abs_write (s_abs s0) [([9], Some [20])]"
    "mem_entries (snd (ft_mem t)) = [([9], Some [20])]" "e_memtable (s_eng s1) = (e_nextptr (s_eng s0), NewMemtable 1)"
    "nextFileNum (s_eng s1) = nextFileNum (s_eng s0)" "e_levels (s_eng s1) = e_levels (s_eng s0)"
    by (rule full_write [OF s0(1), of "Some [20]" 20 9]) simp_all
  have n: "unat (nextFileNum (s_eng s1)) = 2" using s0(1) s1(7) by (simp add: quiet_def)
  have nw: "nextFileNum (s_eng s1) < nextFileNum (s_eng s1) + 1" "unat (nextFileNum (s_eng s1) + 1) = 3" using unat_Suc64 [of "nextFileNum (s_eng s1)"] n by simp_all
  obtain s pr where s: "eng_reach s" "s_pc s = FlInstall t pr" "s_abs s = s_abs s1" "e_levels (s_eng s) = e_levels (s_eng s1)" "flushCh (s_eng s) = []"
    "e_memtable (s_eng s) = e_memtable (s_eng s1)" "nextFileNum (s_eng s) = nextFileNum (s_eng s1) + 1" by (rule flush_phases [OF s1(1-3) nw(1)])
  have lv: "e_levels (s_eng s) = [[p], []]" using s(4) s1(8) s0(2) by simp
  have fits: "cmp_fits (s_eng s) 0" using nw(2) by (simp add: cmp_fits_def level_tables_def lv s0(3) s(7) entry_size_def val_bytes_def)
  have h: "1 < length (e_levels (s_eng s))" "e_levels (s_eng s) ! 0 \<noteq> []" "map_of (mem_entries (snd (ft_mem t))) [9] = Some (Some [20])"
    "map_of (mem_entries (snd (e_memtable (s_eng s)))) [9] = None" "tables_view (s_eng s) [9] = None"
    by (simp_all add: lv s1(5,6) s(6) NewMemtable_entries tables_view_def e_tables_def s0(3))
  note lost = compaction_race_loses [OF s(1,2,5) h(1) fits h(2-5), of "\<lambda>_ _. False"]
  have g: "s_abs s [9] = Some [20]" by (simp add: s(3) s1(4) abs_write_def)
  show ?thesis using lost s(1,2) g by blast
qed

theorem compaction_invisible_witness:
  "\<exists>s e'. eng_reach s \<and> s_abs s [7] = Some [10] \<and> compactL0 cmp_ok (s_eng s) = Some (e', None) \<and> eng_inv e' \<and> Engine_Get e' [7] = Ok (Some [10])"
proof -
  obtain s p where s: "quiet s 2 2" "e_levels (s_eng s) = [[p], []]" "reader_entries (snd p) = [([7], Some [10], Some [10 :: byte] = None)]"
    "s_abs s = abs_write (\<lambda>_. None) [([7], Some [10])]" by (rule sample_one [of "Some [10]" 10 7]) simp_all
  have fits: "cmp_fits (s_eng s) 0" by (rule cmp_fits_two [OF s(1,2)]) (simp_all add: s(3) entry_size_def val_bytes_def)
  have r: "eng_reach s" "s_abs s [7] = Some [10]" "s_pc s = FlIdle" using s(1,4) by (simp_all add: quiet_def abs_write_def)
  have h: "Suc 0 < length (e_levels (s_eng s))" "l0_apart (s_eng s)" by (simp_all add: s(2) l0_apart_def level_tables_def)
  have "engine_view (s_eng s) [7] = Some (Some [10], False)"
  proof -
    have "first_some (map (\<lambda>m. map_of (mem_entries m) [7]) (e_mems (s_eng s))) = None" using quiet_mems [OF s(1)] by (simp add: first_some_None)
    then show ?thesis by (simp add: engine_view_tables stack_mems tables_view_def e_tables_def s(2,3))
  qed
  then have "Engine_Get (s_eng s) [7] = Ok (Some [10])" using reach_invs(1) [OF r(1)] by (simp add: Engine_Get_view answer_def)
  then show ?thesis using compaction_invisible [OF r(1) h(1) fits] h(2) r by auto
qed

lemma sum_sizes: "(\<Sum>m\<leftarrow>ms. uint (fm_Size m)) < 2 ^ 63 \<Longrightarrow> sint (foldl (\<lambda>t m. t + fm_Size m) 0 ms) = (\<Sum>m\<leftarrow>ms. uint (fm_Size m))"
proof -
  have u: "uint (foldl (\<lambda>t m. t + fm_Size m) a ms) = uint a + (\<Sum>m\<leftarrow>ms. uint (fm_Size m))" if "uint a + (\<Sum>m\<leftarrow>ms. uint (fm_Size m)) < 2 ^ 63" for a
    using that
  proof (induction ms arbitrary: a)
    case (Cons m ms)
    have nn: "0 \<le> (\<Sum>m\<leftarrow>ms. uint (fm_Size m))" by (rule sum_list_nonneg) auto
    then have "uint (a + fm_Size m) = uint a + uint (fm_Size m)" using Cons.prems by (simp add: uint_word_ariths)
    then show ?case using Cons by simp
  qed simp
  assume "(\<Sum>m\<leftarrow>ms. uint (fm_Size m)) < 2 ^ 63"
  moreover have "0 \<le> (\<Sum>m\<leftarrow>ms. uint (fm_Size m))" by (rule sum_list_nonneg) auto
  ultimately show ?thesis using u [of 0] by (simp add: sint_uint signed_take_bit_int_eq_self)
qed

lemma level_target: "1 \<le> l \<Longrightarrow> l \<le> 12 \<Longrightarrow> sint (levelTargetSize l) = 10485760 * 10 ^ (l - 1)" "sint (levelTargetSize 13) < 0"
proof -
  have "l = 1 \<or> l = 2 \<or> l = 3 \<or> l = 4 \<or> l = 5 \<or> l = 6 \<or> l = 7 \<or> l = 8 \<or> l = 9 \<or> l = 10 \<or> l = 11 \<or> l = 12" if "1 \<le> l" "l \<le> 12" using that by arith
  then show "sint (levelTargetSize l) = 10485760 * 10 ^ (l - 1)" if "1 \<le> l" "l \<le> 12"
    using that by (elim disjE meta_impE; simp add: levelTargetSize_def l1TargetSize_def upt_rec)
  show "sint (levelTargetSize 13) < 0" by (simp add: levelTargetSize_def l1TargetSize_def upt_rec)
qed

text \<open>C40. When a level is over its target. Up to level 12 a compaction is due exactly when the tables of the
  level are larger than ten megabytes times a power of ten. The product of level 13 does not fit
  \<open>int64\<close> and is negative: there a compaction is always due, on an empty level too.\<close>

theorem level_targets:
  assumes "1 \<le> l" "l \<le> 13" "(\<Sum>m\<leftarrow>GetLevel (e_manifest e) (int l). uint (fm_Size m)) < 2 ^ 63"
  shows "needsCompaction e l \<longleftrightarrow> l = 13 \<or> 10485760 * 10 ^ (l - 1) < (\<Sum>m\<leftarrow>GetLevel (e_manifest e) (int l). uint (fm_Size m))"
proof (cases "l = 13")
  case True
  have "0 \<le> (\<Sum>m\<leftarrow>GetLevel (e_manifest e) (int l). uint (fm_Size m))" by (rule sum_list_nonneg) auto
  then have "sint (levelTargetSize l) < (\<Sum>m\<leftarrow>GetLevel (e_manifest e) (int l). uint (fm_Size m))" using level_target(2) True by simp
  then show ?thesis using True sum_sizes [OF assms(3)] by (simp add: needsCompaction_def)
next
  case False
  then have "sint (levelTargetSize l) = 10485760 * 10 ^ (l - 1)" using level_target(1) assms by simp
  then show ?thesis using False assms(1) sum_sizes [OF assms(3)] by (simp add: needsCompaction_def)
qed

theorem level_targets_witness:
  "\<exists>e. map length (mf_levels (e_manifest e)) = [0, 0, 1, 0, 0, 0, 0, 0, 0, 0, 0, 0, 0, 0, 0] \<and> needsCompaction e 2 \<and> needsCompaction e 13"
proof -
  let ?m = "\<lparr>FileNum = 7, Level = 2, fm_Size = 104857601, fm_MinKey = [1], fm_MaxKey = [2]\<rparr>"
  let ?e = "(undefined :: Engine)\<lparr>e_manifest := \<lparr>mf_file = [], mf_levels = [[], []] @ [[?m]] @ replicate 12 []\<rparr>\<rparr>"
  have "GetLevel (e_manifest ?e) 2 = [?m]" "GetLevel (e_manifest ?e) 13 = []" by (simp_all add: GetLevel_def)
  then have "needsCompaction ?e 2" "needsCompaction ?e 13" using level_targets [of 2 ?e] level_targets [of 13 ?e] by simp_all
  moreover have "map length (mf_levels (e_manifest ?e)) = [0, 0, 1, 0, 0, 0, 0, 0, 0, 0, 0, 0, 0, 0, 0]" by (simp add: numeral_eq_Suc)
  ultimately show ?thesis by (intro exI [of _ ?e] conjI)
qed

end
