(* ===== verification/Raft_Log.thy ===== *)
theory Raft_Log
  imports Framing
begin

text \<open>
  \<open>raft/log.go\<close>: the commands that are replicated and the persistent log of a Raft node. The file is
  its bytes and the position of its descriptor: a write goes to the position. \<open>lo_room\<close> says how many
  bytes the disk still takes before a write fails, \<open>lo_read\<close> where a read fails. A slice expression
  within the capacity of a slice but beyond its length is not modelled; the index invariant rules
  such an access out.

  The lemmas show that the log behaves as a list with indices from 1, that it is found again by
  \<open>OpenLog\<close>, and what a failed write leaves behind.
\<close>

subsection \<open>Commands\<close>

definition CmdRaftPut :: byte where "CmdRaftPut = 0x01"
definition CmdRaftDelete :: byte where "CmdRaftDelete = 0x02"
definition CmdRaftBatchPut :: byte where "CmdRaftBatchPut = 0x03"

definition EncodePutCommand :: "bytes \<Rightarrow> bytes \<Rightarrow> bytes" where
  "EncodePutCommand k v = PutUint32 (of_nat (length k)) @ k @ PutUint32 (of_nat (length v)) @ v"

text \<open>The sums are in \<open>uint32\<close> and wrap around.\<close>

definition DecodePutCommand :: "bytes \<Rightarrow> (bytes \<times> bytes) res" where
  "DecodePutCommand data =
     res_bind (slice data 0 4) (\<lambda>kl. let keyLen = Uint32 kl in
     res_bind (slice data 4 (unat (4 + keyLen))) (\<lambda>k.
     res_bind (slice data (unat (4 + keyLen)) (unat (8 + keyLen))) (\<lambda>vl. let valLen = Uint32 vl in
     res_bind (slice data (unat (8 + keyLen)) (unat (8 + keyLen + valLen))) (\<lambda>v. Ok (k, v)))))"

definition EncodeDeleteCommand :: "bytes \<Rightarrow> bytes" where
  "EncodeDeleteCommand k = PutUint32 (of_nat (length k)) @ k"

definition DecodeDeleteCommand :: "bytes \<Rightarrow> bytes res" where
  "DecodeDeleteCommand data = res_bind (slice data 0 4) (\<lambda>kl. slice data 4 (unat (4 + Uint32 kl)))"

text \<open>\<open>values[i]\<close> panics when there are fewer values than keys.\<close>

definition EncodeBatchPutCommand :: "bytes list \<Rightarrow> bytes list \<Rightarrow> bytes res" where
  "EncodeBatchPutCommand keys vs =
     (if length vs < length keys then Panic
      else Ok (PutUint32 (of_nat (length keys)) @ concat (map (\<lambda>(k, v). EncodePutCommand k v) (zip keys vs))))"

fun decodeBatch :: "nat \<Rightarrow> bytes \<Rightarrow> nat \<Rightarrow> (bytes list \<times> bytes list) res" where
  "decodeBatch 0 data off = Ok ([], [])"
| "decodeBatch (Suc n) data off =
     res_bind (slice data off (off + 4)) (\<lambda>kl. let keyLen = unat (Uint32 kl) in
     res_bind (slice data (off + 4) (off + 4 + keyLen)) (\<lambda>k.
     res_bind (slice data (off + 4 + keyLen) (off + 8 + keyLen)) (\<lambda>vl. let valLen = unat (Uint32 vl) in
     res_bind (slice data (off + 8 + keyLen) (off + 8 + keyLen + valLen)) (\<lambda>v.
     res_bind (decodeBatch n data (off + 8 + keyLen + valLen)) (\<lambda>(ks, vs). Ok (k # ks, v # vs))))))"

definition DecodeBatchPutCommand :: "bytes \<Rightarrow> (bytes list \<times> bytes list) res" where
  "DecodeBatchPutCommand data = res_bind (slice data 0 4) (\<lambda>c. decodeBatch (unat (Uint32 c)) data 4)"

subsection \<open>The log\<close>

record LogEntry =
  le_Term :: "64 word"
  le_Index :: "64 word"
  le_CmdType :: byte
  le_Data :: bytes

record Log =
  l_entries :: "LogEntry list"
  l_file :: bytes
  l_pos :: nat
  l_open :: bool

record log_env =
  lo_mkdir :: bool
  lo_open :: bool
  lo_read :: "nat option"
  lo_create :: bool
  lo_room :: "nat option"
  lo_sync :: bool

definition log_ok :: log_env where
  "log_ok = \<lparr>lo_mkdir = True, lo_open = True, lo_read = None, lo_create = True, lo_room = None, lo_sync = True\<rparr>"

definition entry_header :: "LogEntry \<Rightarrow> bytes" where
  "entry_header en = PutUint64 (le_Term en) @ PutUint64 (le_Index en) @ le_CmdType en # PutUint32 (of_nat (length (le_Data en)))"

definition readEntry :: "bytes \<Rightarrow> (LogEntry \<times> bytes) res" where
  "readEntry d =
     res_bind (ReadFull 21 d) (\<lambda>(header, d1).
     let dataLen = Uint32 (take 4 (drop 17 header)) in
     res_bind (ReadFull (unat dataLen) d1) (\<lambda>(data, d2).
     Ok (\<lparr>le_Term = Uint64 (take 8 header), le_Index = Uint64 (take 8 (drop 8 header)), le_CmdType = header ! 16, le_Data = data\<rparr>, d2)))"

lemma readEntry_shrinks: "readEntry d = Ok (en, d') \<Longrightarrow> length d' < length d"
  by (auto simp: readEntry_def res_bind_Ok_iff Let_def split: prod.splits dest!: ReadFull_length)

function log_replay :: "LogEntry list \<Rightarrow> bytes \<Rightarrow> LogEntry list" where
  "log_replay es d = (case readEntry d of Ok (en, d') \<Rightarrow> log_replay (es @ [en]) d' | Err e \<Rightarrow> es | Panic \<Rightarrow> es)"
  by pat_completeness auto
termination
  by (relation "measure (\<lambda>(es, d). length d)") (auto dest: readEntry_shrinks)

declare log_replay.simps [simp del]

text \<open>Reading moves the position to the end of what was read.\<close>

definition OpenLog :: "log_env \<Rightarrow> bytes \<Rightarrow> Log res" where
  "OpenLog io content =
     (if \<not> lo_mkdir io then Err ''mkdir''
      else if \<not> lo_open io then Err ''open''
      else let seen = (case lo_read io of None \<Rightarrow> content | Some n \<Rightarrow> take n content)
           in Ok \<lparr>l_entries = log_replay [] seen, l_file = content, l_pos = length seen, l_open = True\<rparr>)"

definition log_write :: "nat option \<Rightarrow> Log \<Rightarrow> bytes \<Rightarrow> Log \<times> nat option \<times> bool" where
  "log_write room l p =
     (if \<not> l_open l then (l, room, False)
      else let q = (case room of None \<Rightarrow> p | Some n \<Rightarrow> take n p)
           in (l\<lparr>l_file := take (l_pos l) (l_file l) @ q @ drop (l_pos l + length q) (l_file l), l_pos := l_pos l + length q\<rparr>,
               map_option (\<lambda>n. n - length q) room, length q = length p))"

definition writeEntry :: "nat option \<Rightarrow> Log \<Rightarrow> LogEntry \<Rightarrow> Log \<times> nat option \<times> bool" where
  "writeEntry room l en =
     (case log_write room l (entry_header en) of
        (l1, room1, ok1) \<Rightarrow>
          if \<not> ok1 then (l1, room1, False)
          else if le_Data en = [] then (l1, room1, True)
          else log_write room1 l1 (le_Data en))"

fun appendEntries :: "nat option \<Rightarrow> Log \<Rightarrow> LogEntry list \<Rightarrow> Log \<times> nat option \<times> bool" where
  "appendEntries room l [] = (l, room, True)"
| "appendEntries room l (en # ens) =
     (case writeEntry room l en of
        (l1, room1, ok1) \<Rightarrow>
          if \<not> ok1 then (l1, room1, False)
          else appendEntries room1 (l1\<lparr>l_entries := l_entries l1 @ [en]\<rparr>) ens)"

definition Log_Append :: "log_env \<Rightarrow> Log \<Rightarrow> LogEntry list \<Rightarrow> Log \<times> string option" where
  "Log_Append io l ens =
     (case appendEntries (lo_room io) l ens of
        (l', _, ok) \<Rightarrow>
          if \<not> ok then (l', Some ''raft log: write entry: '')
          else if \<not> lo_sync io \<or> \<not> l_open l' then (l', Some ''sync'')
          else (l', None))"

definition GetEntry :: "Log \<Rightarrow> 64 word \<Rightarrow> LogEntry option res" where
  "GetEntry l index =
     (if index = 0 \<or> l_entries l = [] then Ok None
      else let firstIdx = le_Index (l_entries l ! 0) in
           if index < firstIdx \<or> index > le_Index (last (l_entries l)) then Ok None
           else let pos = unat (index - firstIdx) in
                if length (l_entries l) \<le> pos then Panic else Ok (Some (l_entries l ! pos)))"

definition LastIndex :: "Log \<Rightarrow> 64 word" where
  "LastIndex l = (if l_entries l = [] then 0 else le_Index (last (l_entries l)))"

definition LastTerm :: "Log \<Rightarrow> 64 word" where
  "LastTerm l = (if l_entries l = [] then 0 else le_Term (last (l_entries l)))"

definition GetEntriesFrom :: "Log \<Rightarrow> 64 word \<Rightarrow> LogEntry list res" where
  "GetEntriesFrom l index0 =
     (if l_entries l = [] \<or> index0 = 0 then Ok []
      else let firstIdx = le_Index (l_entries l ! 0);
               index = (if index0 < firstIdx then firstIdx else index0) in
           if index > le_Index (last (l_entries l)) then Ok []
           else let pos = unat (index - firstIdx) in
                if length (l_entries l) < pos then Panic else Ok (drop pos (l_entries l)))"

fun writeEntries_log :: "nat option \<Rightarrow> Log \<Rightarrow> LogEntry list \<Rightarrow> Log \<times> nat option \<times> bool" where
  "writeEntries_log room l [] = (l, room, True)"
| "writeEntries_log room l (en # ens) =
     (case writeEntry room l en of
        (l1, room1, ok1) \<Rightarrow> if \<not> ok1 then (l1, room1, False) else writeEntries_log room1 l1 ens)"

text \<open>When \<open>os.Create\<close> fails, the descriptor of the log stays closed and the file as it was.\<close>

definition rewriteFile :: "log_env \<Rightarrow> Log \<Rightarrow> Log \<times> string option" where
  "rewriteFile io l =
     (if \<not> lo_create io then (l\<lparr>l_open := False\<rparr>, Some ''create'')
      else case writeEntries_log (lo_room io) (l\<lparr>l_file := [], l_pos := 0, l_open := True\<rparr>) (l_entries l) of
             (l', _, ok) \<Rightarrow>
               if \<not> ok then (l', Some ''write'')
               else if \<not> lo_sync io then (l', Some ''sync'')
               else (l', None))"

definition TruncateFrom :: "log_env \<Rightarrow> Log \<Rightarrow> 64 word \<Rightarrow> (Log \<times> string option) res" where
  "TruncateFrom io l index =
     (if l_entries l = [] \<or> index = 0 then Ok (l, None)
      else let firstIdx = le_Index (l_entries l ! 0) in
           if index < firstIdx then Ok (rewriteFile io (l\<lparr>l_entries := []\<rparr>))
           else if index \<le> le_Index (last (l_entries l)) then
             let pos = unat (index - firstIdx) in
             if length (l_entries l) < pos then Panic
             else Ok (rewriteFile io (l\<lparr>l_entries := take pos (l_entries l)\<rparr>))
           else Ok (l, None))"

definition Log_Close :: "bool \<Rightarrow> Log \<Rightarrow> Log \<times> string option" where
  "Log_Close closeOk l = (l\<lparr>l_open := False\<rparr>, if l_open l \<and> closeOk then None else Some ''close'')"

subsection \<open>The entry format\<close>

definition encodeEntry_log :: "LogEntry \<Rightarrow> bytes" where
  "encodeEntry_log en = entry_header en @ le_Data en"

definition lentry_ok :: "LogEntry \<Rightarrow> bool" where
  "lentry_ok en \<longleftrightarrow> length (le_Data en) < 2 ^ 32"

lemma length_entry_header [simp]: "length (entry_header en) = 21"
  by (simp add: entry_header_def)

lemma readEntry_encode:
  assumes "lentry_ok en" shows "readEntry (encodeEntry_log en @ d) = Ok (en, d)"
proof -
  let ?n = "of_nat (length (le_Data en)) :: 32 word"
  have h: "take 4 (drop 17 (entry_header en)) = PutUint32 ?n" "take 8 (entry_header en) = PutUint64 (le_Term en)"
    "take 8 (drop 8 (entry_header en)) = PutUint64 (le_Index en)" "entry_header en ! 16 = le_CmdType en"
    by (simp_all add: entry_header_def nth_append)
  have "ReadFull 21 (entry_header en @ le_Data en @ d) = Ok (entry_header en, le_Data en @ d)" by (rule ReadFull_append) simp
  moreover have "ReadFull (unat ?n) (le_Data en @ d) = Ok (le_Data en, d)"
    by (rule ReadFull_append) (use assms in \<open>simp add: lentry_ok_def unat_of_nat32\<close>)
  ultimately show ?thesis by (simp add: readEntry_def encodeEntry_log_def h Let_def)
qed

lemma readEntry_mono:
  assumes "readEntry d = Ok (en, rest)" shows "readEntry (d @ q) = Ok (en, rest @ q)"
  using assms unfolding readEntry_def Let_def bind_ReadFull
  by (elim exE conjE) (intro exI conjI; (erule ReadFull_mono)?; simp)

interpretation rl: framed_replay encodeEntry_log readEntry lentry_ok log_replay "\<lambda>es en. es @ [en]"
proof
  show "\<not> is_Ok (readEntry [])" by (simp add: readEntry_def ReadFull_def)
next
  fix d s assume "\<not> is_Ok (readEntry d)"
  then show "log_replay s d = s" by (subst log_replay.simps) (auto split: res.split)
next
  fix d r rest s assume "readEntry d = Ok (r, rest)"
  then show "log_replay s d = log_replay (s @ [r]) rest" by (subst log_replay.simps) simp
qed (simp_all add: readEntry_encode readEntry_mono)

subsection \<open>Memory and disk agree\<close>

definition log_bytes :: "LogEntry list \<Rightarrow> bytes" where
  "log_bytes es = concat (map encodeEntry_log es)"

definition log_is :: "Log \<Rightarrow> bool" where
  "log_is l \<longleftrightarrow> l_open l \<and> l_file l = log_bytes (l_entries l) \<and> l_pos l = length (l_file l) \<and> list_all lentry_ok (l_entries l)"

lemma log_bytes_simps [simp]: "log_bytes [] = []" "log_bytes (en # es) = encodeEntry_log en @ log_bytes es"
  "log_bytes (xs @ ys) = log_bytes xs @ log_bytes ys"
  by (simp_all add: log_bytes_def)

lemma foldl_snoc: "foldl (\<lambda>es en. es @ [en]) s es = s @ es"
  by (induction es arbitrary: s) simp_all

lemma log_replay_bytes: "list_all lentry_ok es \<Longrightarrow> log_replay [] (log_bytes es @ t) = log_replay es t"
  using rl.replay_records [of es "[]" t] by (simp add: log_bytes_def foldl_snoc)

lemma log_replay_prefix:
  assumes "list_all lentry_ok es" "list_all lentry_ok new"
  shows "\<exists>m\<le>length new. log_replay [] (log_bytes es @ take n (log_bytes new)) = es @ take m new"
  using rl.replay_prefix [OF assms(2), of n] unfolding log_replay_bytes [OF assms(1)] log_bytes_def [of new] foldl_snoc by blast

lemma OpenLog_is: "log_is l \<Longrightarrow> OpenLog log_ok (l_file l) = Ok l"
  using log_replay_bytes [of "l_entries l" "[]"] rl.replay_all [of "[]" "l_entries l"]
  by (cases l) (simp add: OpenLog_def log_ok_def log_is_def Let_def)

text \<open>Writing at the end of the file: everything, or a proper prefix.\<close>

definition at_end :: "Log \<Rightarrow> bool" where
  "at_end l \<longleftrightarrow> l_open l \<and> l_pos l = length (l_file l)"

definition wrote :: "Log \<Rightarrow> bytes \<Rightarrow> bool \<Rightarrow> Log \<Rightarrow> bool" where
  "wrote l p ok l' \<longleftrightarrow> at_end l' \<and> (\<exists>n. l_file l' = l_file l @ take n p \<and> (if ok then length p \<le> n else n < length p))"

lemma log_write_end:
  assumes "at_end l" "log_write room l p = (l', room', ok)"
  shows "wrote l p ok l'" "l_entries l' = l_entries l" "room = None \<Longrightarrow> ok \<and> room' = None"
proof -
  show "l_entries l' = l_entries l" "room = None \<Longrightarrow> ok \<and> room' = None"
    using assms by (auto simp: at_end_def log_write_def Let_def)
  show "wrote l p ok l'"
  proof (cases room)
    case None
    then show ?thesis using assms by (auto simp: wrote_def at_end_def log_write_def Let_def intro!: exI [of _ "length p"])
  next
    case (Some n)
    then show ?thesis using assms
      by (auto simp: wrote_def at_end_def log_write_def Let_def min_def intro!: exI [of _ n] split: if_splits)
  qed
qed

lemma wrote_trans:
  assumes "wrote l p True l1" "wrote l1 q ok l2" shows "wrote l (p @ q) ok l2"
proof -
  obtain n where "l_file l1 = l_file l @ p" "at_end l2" "l_file l2 = l_file l1 @ take n q" "if ok then length q \<le> n else n < length q"
    using assms by (auto simp: wrote_def)
  then show ?thesis unfolding wrote_def by (auto intro!: exI [of _ "length p + n"] split: if_splits)
qed

lemma wrote_more:
  assumes "wrote l p False l'" shows "wrote l (p @ q) False l'"
proof -
  obtain n where "at_end l'" "l_file l' = l_file l @ take n p" "n < length p" using assms by (auto simp: wrote_def)
  then show ?thesis unfolding wrote_def by (auto intro!: exI [of _ n])
qed

lemma wrote_Nil: "at_end l \<Longrightarrow> wrote l [] True l"
  by (simp add: wrote_def)

lemma wrote_end: "wrote l p ok l' \<Longrightarrow> at_end l'"
  by (simp add: wrote_def)

lemma writeEntry_end:
  assumes "at_end l" "writeEntry room l en = (l', room', ok)"
  shows "wrote l (encodeEntry_log en) ok l'" "l_entries l' = l_entries l" "room = None \<Longrightarrow> ok \<and> room' = None"
proof -
  obtain l1 room1 ok1 where w: "log_write room l (entry_header en) = (l1, room1, ok1)" by (metis prod_cases3)
  note h = log_write_end [OF assms(1) w]
  have "wrote l (encodeEntry_log en) ok l' \<and> l_entries l' = l_entries l \<and> (room = None \<longrightarrow> ok \<and> room' = None)"
  proof (cases "ok1 \<and> le_Data en \<noteq> []")
    case True
    then have w2: "log_write room1 l1 (le_Data en) = (l', room', ok)" using assms(2) w by (simp add: writeEntry_def)
    show ?thesis using True h log_write_end [OF wrote_end [OF h(1)] w2] wrote_trans [of l "entry_header en" l1] by (auto simp: encodeEntry_log_def)
  next
    case False
    then show ?thesis using assms(2) w h wrote_more by (cases ok1) (auto simp: writeEntry_def encodeEntry_log_def)
  qed
  then show "wrote l (encodeEntry_log en) ok l'" "l_entries l' = l_entries l" "room = None \<Longrightarrow> ok \<and> room' = None" by auto
qed

lemma wrote_entries: "wrote (l\<lparr>l_entries := es\<rparr>) p ok l' = wrote l p ok l'" "at_end (l\<lparr>l_entries := es\<rparr>) = at_end l"
  by (simp_all add: wrote_def at_end_def)

lemma appendEntries_end:
  "at_end l \<Longrightarrow> appendEntries room l ens = (l', room', ok) \<Longrightarrow>
    wrote l (log_bytes ens) ok l' \<and> (\<exists>m. l_entries l' = l_entries l @ take m ens \<and> (if ok then m = length ens else m < length ens)) \<and> (room = None \<longrightarrow> ok)"
proof (induction ens arbitrary: room l)
  case Nil
  then show ?case by (simp add: wrote_Nil)
next
  case (Cons en ens)
  obtain l1 room1 ok1 where w: "writeEntry room l en = (l1, room1, ok1)" by (metis prod_cases3)
  note h = writeEntry_end [OF Cons.prems(1) w]
  show ?case
  proof (cases ok1)
    case True
    let ?l1 = "l1\<lparr>l_entries := l_entries l1 @ [en]\<rparr>"
    have e1: "at_end ?l1" using wrote_end [OF h(1)] by (simp add: wrote_entries)
    have "appendEntries room1 ?l1 ens = (l', room', ok)" using Cons.prems(2) w True by simp
    from Cons.IH [OF e1 this] obtain m where m: "wrote ?l1 (log_bytes ens) ok l'" "l_entries l' = l_entries l1 @ [en] @ take m ens"
      "if ok then m = length ens else m < length ens" "room1 = None \<longrightarrow> ok" by auto
    have "wrote l (log_bytes (en # ens)) ok l'" using wrote_trans [of l "encodeEntry_log en" l1 "log_bytes ens"] h(1) True m(1) by (simp add: wrote_entries)
    then show ?thesis using m h by (auto intro!: exI [of _ "Suc m"] split: if_splits)
  next
    case False
    then have r: "l' = l1" "\<not> ok" "room \<noteq> None" using Cons.prems w h(3) by auto
    then have "\<exists>m. l_entries l' = l_entries l @ take m (en # ens) \<and> m < length (en # ens)" using h(2) by (intro exI [of _ 0]) simp
    then show ?thesis using False r wrote_more h(1) by simp
  qed
qed

lemma writeEntries_log_end:
  "at_end l \<Longrightarrow> writeEntries_log room l ens = (l', room', ok) \<Longrightarrow>
    wrote l (log_bytes ens) ok l' \<and> l_entries l' = l_entries l \<and> (room = None \<longrightarrow> ok)"
proof (induction ens arbitrary: room l)
  case Nil
  then show ?case by (simp add: wrote_Nil)
next
  case (Cons en ens)
  obtain l1 room1 ok1 where w: "writeEntry room l en = (l1, room1, ok1)" by (metis prod_cases3)
  note h = writeEntry_end [OF Cons.prems(1) w]
  show ?case
  proof (cases ok1)
    case True
    then have "writeEntries_log room1 l1 ens = (l', room', ok)" using Cons.prems(2) w by simp
    from Cons.IH [OF wrote_end [OF h(1)] this] show ?thesis using wrote_trans [of l "encodeEntry_log en" l1 "log_bytes ens"] h True by auto
  next
    case False
    then have "l' = l1" "\<not> ok" "room \<noteq> None" using Cons.prems w h(3) by auto
    then show ?thesis using False wrote_more h(1,2) by simp
  qed
qed

lemma log_is_end: "log_is l \<Longrightarrow> at_end l"
  by (simp add: log_is_def at_end_def)

lemma wrote_True: "wrote l p True l' \<Longrightarrow> l_file l' = l_file l @ p"
  by (auto simp: wrote_def)

lemma wrote_is:
  assumes "wrote l p True l'" "l_file l @ p = log_bytes es" "l_entries l' = es" "list_all lentry_ok es" shows "log_is l'"
  using wrote_True [OF assms(1)] wrote_end [OF assms(1)] assms(2-4) by (simp add: log_is_def at_end_def)

lemma log_is_replay: "log_is l \<Longrightarrow> log_replay [] (l_file l) = l_entries l"
  using log_replay_bytes [of "l_entries l" "[]"] rl.replay_all [of "[]" "l_entries l"] by (simp add: log_is_def)

lemma Log_Append_spec:
  assumes "log_is l" "list_all lentry_ok ens" "Log_Append io l ens = (l', err)"
  shows "err = None \<Longrightarrow> log_is l' \<and> l_entries l' = l_entries l @ ens"
    "\<exists>m\<le>length ens. log_replay [] (l_file l') = l_entries l @ take m ens \<and> (err = None \<longrightarrow> m = length ens)"
    "\<exists>m\<le>length ens. l_entries l' = l_entries l @ take m ens" "io = log_ok \<Longrightarrow> err = None"
proof -
  obtain l1 room1 ok1 where a: "appendEntries (lo_room io) l ens = (l1, room1, ok1)" by (metis prod_cases3)
  obtain m where m: "wrote l (log_bytes ens) ok1 l1" "l_entries l1 = l_entries l @ take m ens" "if ok1 then m = length ens else m < length ens" "lo_room io = None \<longrightarrow> ok1"
    using appendEntries_end [OF log_is_end [OF assms(1)] a] by (elim conjE exE) simp
  have l': "l' = l1" "err = None \<Longrightarrow> ok1" using assms(3) a by (auto simp: Log_Append_def split: if_splits)
  obtain n where n: "l_file l1 = l_file l @ take n (log_bytes ens)" using m(1) by (auto simp: wrote_def)
  have b: "l_file l = log_bytes (l_entries l)" "list_all lentry_ok (l_entries l)" using assms(1) by (auto simp: log_is_def)
  show s: "err = None \<Longrightarrow> log_is l' \<and> l_entries l' = l_entries l @ ens"
  proof -
    assume "err = None"
    then have ok: "wrote l (log_bytes ens) True l'" "l_entries l' = l_entries l @ ens" using l' m by auto
    have "log_is l'" by (rule wrote_is [OF ok(1) _ ok(2)]) (use b assms(2) in simp_all)
    then show ?thesis using ok(2) by blast
  qed
  show "\<exists>m\<le>length ens. l_entries l' = l_entries l @ take m ens" using m(2,3) l'(1) by (metis less_or_eq_imp_le)
  show "io = log_ok \<Longrightarrow> err = None" using assms(3) a m(1,4) by (auto simp: Log_Append_def log_ok_def wrote_def at_end_def)
  show "\<exists>m\<le>length ens. log_replay [] (l_file l') = l_entries l @ take m ens \<and> (err = None \<longrightarrow> m = length ens)"
  proof (cases "err = None")
    case True
    then have "log_is l'" "l_entries l' = l_entries l @ ens" using s by auto
    then show ?thesis using log_is_replay [of l'] by (intro exI [of _ "length ens"]) simp
  next
    case False
    moreover have "l_file l' = log_bytes (l_entries l) @ take n (log_bytes ens)" using n b(1) l'(1) by simp
    ultimately show ?thesis using log_replay_prefix [OF b(2) assms(2), of n] by auto
  qed
qed

lemma rewriteFile_spec:
  assumes "list_all lentry_ok (l_entries l)" "rewriteFile io l = (l', err)"
  shows "l_entries l' = l_entries l" "err = None \<Longrightarrow> log_is l'" "io = log_ok \<Longrightarrow> err = None"
    "lo_create io \<Longrightarrow> \<exists>m\<le>length (l_entries l). log_replay [] (l_file l') = take m (l_entries l)"
proof -
  let ?l0 = "l\<lparr>l_file := [], l_pos := 0, l_open := True\<rparr>"
  obtain l1 room1 ok1 where a: "writeEntries_log (lo_room io) ?l0 (l_entries l) = (l1, room1, ok1)" by (metis prod_cases3)
  have "at_end ?l0" by (simp add: at_end_def)
  then have w: "wrote ?l0 (log_bytes (l_entries l)) ok1 l1" "l_entries l1 = l_entries l" "lo_room io = None \<longrightarrow> ok1" using writeEntries_log_end [OF _ a] by auto
  show "l_entries l' = l_entries l" "io = log_ok \<Longrightarrow> err = None" using assms(2) a w by (auto simp: rewriteFile_def log_ok_def split: if_splits)
  show "log_is l'" if "err = None"
  proof -
    have r: "l' = l1" "ok1" using that assms(2) a by (auto simp: rewriteFile_def split: if_splits)
    show ?thesis by (rule wrote_is [of ?l0 "log_bytes (l_entries l)" l' "l_entries l"]) (use w r assms(1) in simp_all)
  qed
  assume "lo_create io"
  then have "l' = l1" using assms(2) a by (auto simp: rewriteFile_def split: if_splits)
  then obtain n where "l_file l' = take n (log_bytes (l_entries l))" using w(1) by (auto simp: wrote_def)
  then show "\<exists>m\<le>length (l_entries l). log_replay [] (l_file l') = take m (l_entries l)"
    using log_replay_prefix [of "[]" "l_entries l" n] assms(1) by simp
qed

subsection \<open>Indices\<close>

text \<open>The entries are numbered from 1.\<close>

definition indexed :: "LogEntry list \<Rightarrow> bool" where
  "indexed es \<longleftrightarrow> (\<forall>i < length es. unat (le_Index (es ! i)) = Suc i)"

lemma indexed_bound: assumes "indexed es" shows "length es < 2 ^ 64"
proof (cases es rule: rev_cases)
  case (snoc ys y)
  have "unat (le_Index (es ! length ys)) = Suc (length ys)" using assms snoc unfolding indexed_def by (metis length_append_singleton lessI)
  then show ?thesis using unsigned_less [where 'a = nat, of "le_Index (es ! length ys)"] snoc by simp
qed simp

lemma indexed_append: "indexed (xs @ ys) \<longleftrightarrow> indexed xs \<and> (\<forall>i < length ys. unat (le_Index (ys ! i)) = Suc (length xs + i))"
proof
  assume a: "indexed (xs @ ys)"
  have "indexed xs" unfolding indexed_def using a unfolding indexed_def by (metis length_append nth_append trans_less_add1)
  moreover have "unat (le_Index (ys ! i)) = Suc (length xs + i)" if "i < length ys" for i
    using a that unfolding indexed_def by (metis length_append nat_add_left_cancel_less nth_append_length_plus)
  ultimately show "indexed xs \<and> (\<forall>i < length ys. unat (le_Index (ys ! i)) = Suc (length xs + i))" by blast
next
  assume a: "indexed xs \<and> (\<forall>i < length ys. unat (le_Index (ys ! i)) = Suc (length xs + i))"
  then show "indexed (xs @ ys)" by (auto simp: indexed_def nth_append)
qed

lemma indexed_take: "indexed es \<Longrightarrow> indexed (take n es)"
  by (simp add: indexed_def)

lemma LastIndex_indexed: "indexed (l_entries l) \<Longrightarrow> unat (LastIndex l) = length (l_entries l)"
  by (cases "l_entries l" rule: rev_cases) (auto simp: LastIndex_def indexed_def nth_append)

lemma indexed_ends:
  assumes "indexed es" "es \<noteq> []"
  shows "le_Index (es ! 0) = 1" "unat (le_Index (last es)) = length es"
proof -
  have "unat (le_Index (es ! 0)) = unat (1 :: 64 word)" using assms by (simp add: indexed_def)
  then show "le_Index (es ! 0) = 1" by (metis word_unat_eq_iff)
  show "unat (le_Index (last es)) = length es" using assms by (simp add: indexed_def last_conv_nth)
qed

lemma unat_minus_1: "(i :: 64 word) \<noteq> 0 \<Longrightarrow> unat (i - 1) = unat i - 1"
  by (simp add: unat_minus_one)

lemma GetEntry_indexed:
  assumes "indexed (l_entries l)"
  shows "GetEntry l i = Ok (if i = 0 \<or> length (l_entries l) < unat i then None else Some (l_entries l ! (unat i - 1)))"
proof (cases "i = 0 \<or> l_entries l = []")
  case True
  then show ?thesis by (auto simp: GetEntry_def unat_eq_zero)
next
  case False
  have "unat i > 0" using False by (simp add: unat_gt_0)
  then show ?thesis using False indexed_ends [OF assms] unat_minus_1 [of i]
    by (auto simp: GetEntry_def Let_def word_less_nat_alt unat_eq_zero)
qed

lemma GetEntriesFrom_indexed:
  assumes "indexed (l_entries l)"
  shows "GetEntriesFrom l i = Ok (if i = 0 then [] else drop (unat i - 1) (l_entries l))"
proof (cases "i = 0 \<or> l_entries l = []")
  case True
  then show ?thesis by (auto simp: GetEntriesFrom_def)
next
  case False
  have "unat i > 0" using False by (simp add: unat_gt_0)
  then show ?thesis using False indexed_ends [OF assms] unat_minus_1 [of i]
    by (auto simp: GetEntriesFrom_def Let_def word_less_nat_alt unat_eq_zero)
qed

lemma TruncateFrom_indexed:
  assumes "indexed (l_entries l)"
  shows "TruncateFrom io l i = Ok (if i = 0 \<or> length (l_entries l) < unat i then (l, None)
     else rewriteFile io (l\<lparr>l_entries := take (unat i - 1) (l_entries l)\<rparr>))"
proof (cases "i = 0 \<or> l_entries l = []")
  case True
  then show ?thesis by (auto simp: TruncateFrom_def unat_eq_zero)
next
  case False
  have "unat i > 0" using False by (simp add: unat_gt_0)
  then show ?thesis using False indexed_ends [OF assms] unat_minus_1 [of i]
    by (auto simp: TruncateFrom_def Let_def word_less_nat_alt word_le_nat_alt unat_eq_zero)
qed

subsection \<open>Commands round trip\<close>

lemma DecodePut_Encode:
  assumes "8 + length k + length v < 2 ^ 32" shows "DecodePutCommand (EncodePutCommand k v) = Ok (k, v)"
proof -
  let ?kl = "PutUint32 (of_nat (length k))" and ?vl = "PutUint32 (of_nat (length v))"
  have k: "unat (of_nat (length k) :: 32 word) = length k" "unat (of_nat (length v) :: 32 word) = length v"
    using assms by (simp_all add: unat_of_nat32)
  have s: "unat (4 + of_nat (length k) :: 32 word) = 4 + length k" "unat (8 + of_nat (length k) :: 32 word) = 8 + length k"
    "unat (8 + of_nat (length k) + of_nat (length v) :: 32 word) = 8 + length k + length v"
    using assms k by (simp_all add: unat_add32)
  have "slice (EncodePutCommand k v) 0 4 = Ok ?kl" using slice_at [of "[]" 0 ?kl 4] by (simp add: EncodePutCommand_def)
  moreover have "slice (EncodePutCommand k v) 4 (4 + length k) = Ok k" using slice_at [of ?kl 4 k _ "?vl @ v"] by (simp add: EncodePutCommand_def)
  moreover have "slice (EncodePutCommand k v) (4 + length k) (8 + length k) = Ok ?vl" using slice_at [of "?kl @ k" _ ?vl _ v] by (simp add: EncodePutCommand_def)
  moreover have "slice (EncodePutCommand k v) (8 + length k) (8 + length k + length v) = Ok v"
    using slice_at [of "?kl @ k @ ?vl" _ v _ "[]"] by (simp add: EncodePutCommand_def)
  ultimately show ?thesis by (simp add: DecodePutCommand_def s k)
qed

lemma DecodeDelete_Encode:
  assumes "4 + length k < 2 ^ 32" shows "DecodeDeleteCommand (EncodeDeleteCommand k) = Ok k"
proof -
  let ?kl = "PutUint32 (of_nat (length k))"
  have "unat (4 + of_nat (length k) :: 32 word) = 4 + length k" using assms by (simp add: unat_add32 unat_of_nat32)
  moreover have "slice (EncodeDeleteCommand k) 0 4 = Ok ?kl" using slice_at [of "[]" 0 ?kl 4 k] by (simp add: EncodeDeleteCommand_def)
  moreover have "slice (EncodeDeleteCommand k) 4 (4 + length k) = Ok k" using slice_at [of ?kl 4 k _ "[]"] by (simp add: EncodeDeleteCommand_def)
  ultimately show ?thesis by (simp add: DecodeDeleteCommand_def)
qed

lemma decodeBatch_encode:
  "list_all (\<lambda>(k, v). length k < 2 ^ 32 \<and> length v < 2 ^ 32) kvs \<Longrightarrow>
    decodeBatch (length kvs) (pre @ concat (map (\<lambda>(k, v). EncodePutCommand k v) kvs)) (length pre) = Ok (map fst kvs, map snd kvs)"
proof (induction kvs arbitrary: pre)
  case (Cons kv kvs)
  obtain k v where kv: "kv = (k, v)" by (cases kv)
  let ?kl = "PutUint32 (of_nat (length k))" and ?vl = "PutUint32 (of_nat (length v))"
  let ?rest = "concat (map (\<lambda>(k, v). EncodePutCommand k v) kvs)"
  let ?d = "pre @ EncodePutCommand k v @ ?rest"
  have l: "unat (of_nat (length k) :: 32 word) = length k" "unat (of_nat (length v) :: 32 word) = length v"
    using Cons.prems kv by (simp_all add: unat_of_nat32)
  have "slice ?d (length pre) (length pre + 4) = Ok ?kl" using slice_at [of pre _ ?kl] by (simp add: EncodePutCommand_def)
  moreover have "slice ?d (length pre + 4) (length pre + 4 + length k) = Ok k" using slice_at [of "pre @ ?kl" _ k] by (simp add: EncodePutCommand_def)
  moreover have "slice ?d (length pre + 4 + length k) (length pre + 8 + length k) = Ok ?vl"
    using slice_at [of "pre @ ?kl @ k" _ ?vl] by (simp add: EncodePutCommand_def)
  moreover have "slice ?d (length pre + 8 + length k) (length pre + 8 + length k + length v) = Ok v"
    using slice_at [of "pre @ ?kl @ k @ ?vl" _ v] by (simp add: EncodePutCommand_def)
  moreover have "decodeBatch (length kvs) ?d (length pre + 8 + length k + length v) = Ok (map fst kvs, map snd kvs)"
    using Cons.IH [of "pre @ EncodePutCommand k v"] Cons.prems by (simp add: EncodePutCommand_def add.assoc)
  ultimately show ?case by (simp add: kv l)
qed simp

lemma DecodeBatch_Encode:
  assumes "length keys = length vs" "length keys < 2 ^ 32" "\<forall>b\<in>set (keys @ vs). length b < 2 ^ 32"
  shows "res_bind (EncodeBatchPutCommand keys vs) DecodeBatchPutCommand = Ok (keys, vs)"
proof -
  let ?c = "PutUint32 (of_nat (length keys))" and ?r = "concat (map (\<lambda>(k, v). EncodePutCommand k v) (zip keys vs))"
  have "list_all (\<lambda>(k, v). length k < 2 ^ 32 \<and> length v < 2 ^ 32) (zip keys vs)"
    using assms(3) by (auto simp: list_all_iff dest: set_zip_leftD set_zip_rightD)
  from decodeBatch_encode [OF this, of ?c] have "decodeBatch (length keys) (?c @ ?r) 4 = Ok (keys, vs)" using assms(1) by simp
  moreover have "slice (?c @ ?r) 0 4 = Ok ?c" using slice_at [of "[]" 0 ?c 4 ?r] by simp
  ultimately show ?thesis using assms(1,2) by (simp add: EncodeBatchPutCommand_def DecodeBatchPutCommand_def unat_of_nat32)
qed

subsection \<open>Properties\<close>

text \<open>The commands of the log survive encoding: what a leader proposes is what every node applies, for
  keys and values within the length fields.\<close>

theorem raft_command_roundtrip:
  assumes "8 + length k + length v < 2 ^ 32" "length keys = length vs" "length keys < 2 ^ 32" "\<forall>b\<in>set (keys @ vs). length b < 2 ^ 32"
  shows "DecodePutCommand (EncodePutCommand k v) = Ok (k, v) \<and> DecodeDeleteCommand (EncodeDeleteCommand k) = Ok k \<and>
    res_bind (EncodeBatchPutCommand keys vs) DecodeBatchPutCommand = Ok (keys, vs)"
  using DecodePut_Encode [OF assms(1)] DecodeDelete_Encode [of k] DecodeBatch_Encode [OF assms(2-4)] assms(1) by simp

theorem raft_command_roundtrip_witness:
  "DecodePutCommand (EncodePutCommand [1, 2] []) = Ok ([1, 2], []) \<and> res_bind (EncodeBatchPutCommand [[1], []] [[2, 3], [4]]) DecodeBatchPutCommand = Ok ([[1], []], [[2, 3], [4]])"
  using raft_command_roundtrip [of "[1, 2]" "[]" "[[1], []]" "[[2, 3], [4]]"] by simp

text \<open>Sequences of operations on the log, and on a list.\<close>

datatype log_op = LAppend "LogEntry list" | LTruncate "64 word"

fun log_run :: "Log \<Rightarrow> log_op list \<Rightarrow> Log res" where
  "log_run l [] = Ok l"
| "log_run l (LAppend ens # ops) = log_run (fst (Log_Append log_ok l ens)) ops"
| "log_run l (LTruncate i # ops) = res_bind (TruncateFrom log_ok l i) (\<lambda>r. log_run (fst r) ops)"

fun list_run :: "LogEntry list \<Rightarrow> log_op list \<Rightarrow> LogEntry list" where
  "list_run es [] = es"
| "list_run es (LAppend ens # ops) = list_run (es @ ens) ops"
| "list_run es (LTruncate i # ops) = list_run (if i = 0 then es else take (unat i - 1) es) ops"

fun ops_ok :: "LogEntry list \<Rightarrow> log_op list \<Rightarrow> bool" where
  "ops_ok es [] = True"
| "ops_ok es (LAppend ens # ops) = (indexed (es @ ens) \<and> list_all lentry_ok ens \<and> ops_ok (es @ ens) ops)"
| "ops_ok es (LTruncate i # ops) = ops_ok (if i = 0 then es else take (unat i - 1) es) ops"

lemma Log_Append_ok:
  assumes "log_is l" "list_all lentry_ok ens" shows "\<exists>l'. Log_Append log_ok l ens = (l', None) \<and> log_is l' \<and> l_entries l' = l_entries l @ ens"
proof -
  obtain l' err where a: "Log_Append log_ok l ens = (l', err)" by (metis prod.exhaust)
  then have "err = None" using Log_Append_spec(4) [OF assms] by simp
  then show ?thesis using Log_Append_spec(1) [OF assms a] a by simp
qed

lemma TruncateFrom_ok:
  assumes "log_is l" "indexed (l_entries l)"
  shows "\<exists>l'. TruncateFrom log_ok l i = Ok (l', None) \<and> log_is l' \<and> l_entries l' = (if i = 0 then l_entries l else take (unat i - 1) (l_entries l))"
proof (cases "i = 0 \<or> length (l_entries l) < unat i")
  case True
  then show ?thesis using assms by (auto simp: TruncateFrom_indexed)
next
  case False
  let ?l = "l\<lparr>l_entries := take (unat i - 1) (l_entries l)\<rparr>"
  obtain l' err where r: "rewriteFile log_ok ?l = (l', err)" by (metis prod.exhaust)
  have ok: "list_all lentry_ok (l_entries ?l)" using assms(1) by (auto simp: log_is_def list_all_iff dest: in_set_takeD)
  note rw = rewriteFile_spec [OF ok r]
  show ?thesis using False rw r by (simp add: TruncateFrom_indexed [OF assms(2)])
qed

lemma log_run_list:
  "log_is l \<Longrightarrow> indexed (l_entries l) \<Longrightarrow> ops_ok (l_entries l) ops \<Longrightarrow>
    \<exists>l'. log_run l ops = Ok l' \<and> log_is l' \<and> indexed (l_entries l') \<and> l_entries l' = list_run (l_entries l) ops"
proof (induction ops arbitrary: l)
  case (Cons p ops)
  show ?case
  proof (cases p)
    case (LAppend ens)
    then have o: "indexed (l_entries l @ ens)" "list_all lentry_ok ens" "ops_ok (l_entries l @ ens) ops" using Cons.prems by simp_all
    then show ?thesis using Log_Append_ok [OF Cons.prems(1) o(2)] Cons.IH LAppend by fastforce
  next
    case (LTruncate i)
    obtain l' where l': "TruncateFrom log_ok l i = Ok (l', None)" "log_is l'" "l_entries l' = (if i = 0 then l_entries l else take (unat i - 1) (l_entries l))"
      using TruncateFrom_ok [OF Cons.prems(1,2)] by blast
    then have "indexed (l_entries l')" "ops_ok (l_entries l') ops" using Cons.prems LTruncate indexed_take by auto
    then show ?thesis using Cons.IH [OF l'(2)] l' LTruncate by simp
  qed
qed simp

text \<open>C33. The log is a list of entries numbered from 1. After any sequence of appends that continue the
  numbering and truncations, without failing calls, the reads of the log are those of the list, and a
  reopened log has the same entries.\<close>

theorem raft_log_refines_list:
  assumes "OpenLog log_ok [] = Ok l0" "ops_ok [] ops"
  shows "\<exists>l. log_run l0 ops = Ok l \<and> (let es = list_run [] ops in
    (\<forall>i. GetEntry l i = Ok (if i = 0 \<or> length es < unat i then None else Some (es ! (unat i - 1)))) \<and>
    (\<forall>i. GetEntriesFrom l i = Ok (if i = 0 then [] else drop (unat i - 1) es)) \<and>
    unat (LastIndex l) = length es \<and> (\<exists>l'. OpenLog log_ok (l_file l) = Ok l' \<and> l_entries l' = es))"
proof -
  have "log_is l0" "l_entries l0 = []" using assms(1) rl.replay_all [of "[]" "[]"] by (auto simp: OpenLog_def log_ok_def log_is_def Let_def)
  then obtain l where l: "log_run l0 ops = Ok l" "log_is l" "indexed (l_entries l)" "l_entries l = list_run [] ops"
    using log_run_list [of l0 ops] assms(2) by (auto simp: indexed_def)
  show ?thesis using l(1) GetEntry_indexed [OF l(3)] GetEntriesFrom_indexed [OF l(3)] LastIndex_indexed [OF l(3)] OpenLog_is [OF l(2)]
    by (simp add: l(4) Let_def)
qed

theorem raft_log_refines_list_witness:
  "\<exists>l0 l. OpenLog log_ok [] = Ok l0 \<and>
     log_run l0 [LAppend [\<lparr>le_Term = 1, le_Index = 1, le_CmdType = 1, le_Data = [5]\<rparr>, \<lparr>le_Term = 1, le_Index = 2, le_CmdType = 2, le_Data = []\<rparr>], LTruncate 2] = Ok l \<and>
     GetEntry l 1 = Ok (Some \<lparr>le_Term = 1, le_Index = 1, le_CmdType = 1, le_Data = [5]\<rparr>) \<and> GetEntry l 2 = Ok None"
proof -
  let ?a = "\<lparr>le_Term = 1, le_Index = 1, le_CmdType = 1, le_Data = [5]\<rparr>" and ?b = "\<lparr>le_Term = 1, le_Index = 2, le_CmdType = 2, le_Data = []\<rparr>"
  obtain l0 where l0: "OpenLog log_ok [] = Ok l0" by (simp add: OpenLog_def log_ok_def Let_def)
  have "indexed [?a, ?b]" by (auto simp: indexed_def less_Suc_eq)
  then have "ops_ok [] [LAppend [?a, ?b], LTruncate 2]" by (simp add: lentry_ok_def)
  from raft_log_refines_list [OF l0 this] show ?thesis using l0 by (auto simp: Let_def)
qed

text \<open>C34. A crash while entries are appended. Whatever fails in an append, the log reopened from the file has
  the old entries and a prefix of the new ones, all of them when the append reported success.\<close>

theorem raft_log_append_crash:
  assumes "log_is l" "list_all lentry_ok ens" "Log_Append io l ens = (l', err)"
  shows "\<exists>m\<le>length ens. (err = None \<longrightarrow> m = length ens) \<and> (\<exists>l2. OpenLog log_ok (l_file l') = Ok l2 \<and> l_entries l2 = l_entries l @ take m ens)"
  using Log_Append_spec(2) [OF assms] by (auto simp: OpenLog_def log_ok_def Let_def)

theorem raft_log_append_crash_witness:
  "\<exists>l l' err m l2. OpenLog log_ok [] = Ok l \<and> Log_Append (log_ok\<lparr>lo_room := Some 30\<rparr>) l [\<lparr>le_Term = 1, le_Index = 1, le_CmdType = 1, le_Data = [5]\<rparr>, \<lparr>le_Term = 1, le_Index = 2, le_CmdType = 1, le_Data = [6]\<rparr>] = (l', err) \<and>
     m \<le> 2 \<and> OpenLog log_ok (l_file l') = Ok l2 \<and> length (l_entries l2) = m"
proof -
  let ?es = "[\<lparr>le_Term = 1, le_Index = 1, le_CmdType = 1, le_Data = [5]\<rparr>, \<lparr>le_Term = 1, le_Index = 2, le_CmdType = 1, le_Data = [6]\<rparr>]"
  obtain l where l: "OpenLog log_ok [] = Ok l" "log_is l" "l_entries l = []"
    using rl.replay_all [of "[]" "[]"] by (auto simp: OpenLog_def log_ok_def log_is_def Let_def)
  obtain l' err where a: "Log_Append (log_ok\<lparr>lo_room := Some 30\<rparr>) l ?es = (l', err)" by (metis prod.exhaust)
  have "list_all lentry_ok ?es" by (simp add: lentry_ok_def)
  from raft_log_append_crash [OF l(2) this a] obtain m l2 where m: "m \<le> length ?es" "OpenLog log_ok (l_file l') = Ok l2" "l_entries l2 = [] @ take m ?es"
    unfolding l(3) by blast
  then have "m \<le> 2" "length (l_entries l2) = m" by simp_all
  then show ?thesis using l(1) a m(2) by blast
qed

text \<open>C35. Truncation is not safe against crashes. \<open>rewriteFile\<close> empties the file before it writes the
  entries that stay: when it fails there, the reopened log is empty, although the entries before the
  index were synced and may be committed.\<close>

theorem raft_log_truncate_crash:
  assumes "log_is l" "indexed (l_entries l)" "1 < unat i" "unat i \<le> length (l_entries l)"
  shows "\<exists>l' e l2. TruncateFrom (log_ok\<lparr>lo_room := Some 0\<rparr>) l i = Ok (l', Some e) \<and> l_entries l' \<noteq> [] \<and>
    OpenLog log_ok (l_file l') = Ok l2 \<and> l_entries l2 = []"
proof -
  let ?io = "log_ok\<lparr>lo_room := Some 0\<rparr>" and ?l = "l\<lparr>l_entries := take (unat i - 1) (l_entries l)\<rparr>"
  have ne: "l_entries ?l \<noteq> []" using assms(3,4) by auto
  then obtain en ens where es: "l_entries ?l = en # ens" by (cases "l_entries ?l") auto
  obtain l' err where r: "rewriteFile ?io ?l = (l', err)" by (metis prod.exhaust)
  have "entry_header en \<noteq> []" by (metis length_entry_header list.size(3) zero_neq_numeral)
  then have "l_file l' = [] \<and> err = Some ''write'' \<and> l_entries l' = l_entries ?l"
    using r es by (auto simp: rewriteFile_def writeEntry_def log_write_def log_ok_def Let_def)
  moreover have "i \<noteq> 0" using assms(3) by auto
  moreover have "log_replay [] [] = []" using rl.replay_all [of "[]" "[]"] by simp
  ultimately show ?thesis using assms(4) r ne by (auto simp: TruncateFrom_indexed [OF assms(2)] OpenLog_def log_ok_def Let_def)
qed

theorem raft_log_truncate_crash_witness:
  "\<exists>l l' e l2. l_entries l = [\<lparr>le_Term = 1, le_Index = 1, le_CmdType = 1, le_Data = [5]\<rparr>, \<lparr>le_Term = 1, le_Index = 2, le_CmdType = 1, le_Data = [6]\<rparr>] \<and>
     TruncateFrom (log_ok\<lparr>lo_room := Some 0\<rparr>) l 2 = Ok (l', Some e) \<and> OpenLog log_ok (l_file l') = Ok l2 \<and> l_entries l2 = []"
proof -
  let ?es = "[\<lparr>le_Term = 1, le_Index = 1, le_CmdType = 1, le_Data = [5]\<rparr>, \<lparr>le_Term = 1, le_Index = 2, le_CmdType = 1, le_Data = [6]\<rparr>]"
  let ?l = "\<lparr>l_entries = ?es, l_file = log_bytes ?es, l_pos = length (log_bytes ?es), l_open = True\<rparr>"
  have lg: "log_is ?l" "indexed (l_entries ?l)" by (auto simp: log_is_def lentry_ok_def indexed_def less_Suc_eq)
  have n: "1 < unat (2 :: 64 word)" "unat (2 :: 64 word) \<le> length (l_entries ?l)" by simp_all
  obtain l' e l2 where "TruncateFrom (log_ok\<lparr>lo_room := Some 0\<rparr>) ?l 2 = Ok (l', Some e)" "OpenLog log_ok (l_file l') = Ok l2" "l_entries l2 = []"
    using raft_log_truncate_crash [OF lg n] by blast
  moreover have "l_entries ?l = ?es" by simp
  ultimately show ?thesis by blast
qed

end
