(* ===== verification/Raft.thy ===== *)
theory Raft
  imports Raft_Log
begin

text \<open>
  \<open>raft/raft.go\<close> and the message types of \<open>raft/transport.go\<close>: one Raft node. The record holds the
  fields of \<open>Raft\<close>; what a method does under the lock \<open>mu\<close> is one function on the record. Node ids and
  addresses are Go strings, that is bytes, and the empty string means none. The maps \<open>nextIndex\<close> and
  \<open>matchIndex\<close> are functions, with 0 for a missing key. Timers are left out: an election may start at
  any time. \<open>doneCh\<close> of a proposal holds at most one result, and \<open>commitCh\<close> at most one signal.

  The methods that release the lock to call a peer come in parts: \<open>startElection\<close> and its replies
  \<open>voteReply\<close>, \<open>countVote\<close> and \<open>electionWon\<close>, \<open>replicateTo\<close> up to the call, \<open>replicateReply\<close> after it.
\<close>

type_synonym gostring = bytes

definition ErrNotLeader :: string where "ErrNotLeader = ''raft: not the leader''"
definition ErrProposalTimeout :: string where "ErrProposalTimeout = ''raft: proposal timeout''"
definition ErrStopped :: string where "ErrStopped = ''raft: node stopped''"

datatype State = Follower | Candidate | Leader

fun State_String :: "State \<Rightarrow> string" where
  "State_String Follower = ''Follower''"
| "State_String Candidate = ''Candidate''"
| "State_String Leader = ''Leader''"

record RequestVoteArgs =
  rv_Term :: "64 word"
  rv_CandidateID :: gostring
  rv_LastLogIndex :: "64 word"
  rv_LastLogTerm :: "64 word"

record RequestVoteReply =
  rvr_Term :: "64 word"
  rvr_VoteGranted :: bool

record AppendEntriesArgs =
  ae_Term :: "64 word"
  ae_LeaderID :: gostring
  ae_PrevLogIndex :: "64 word"
  ae_PrevLogTerm :: "64 word"
  ae_Entries :: "LogEntry list"
  ae_LeaderCommit :: "64 word"

record AppendEntriesReply =
  aer_Term :: "64 word"
  aer_Success :: bool

text \<open>Durations are \<open>int64\<close> nanoseconds.\<close>

record Config =
  ElectionTimeoutMin :: "64 word"
  ElectionTimeoutMax :: "64 word"
  HeartbeatInterval :: "64 word"
  ProposalTimeout :: "64 word"

definition DefaultConfig :: Config where
  "DefaultConfig = \<lparr>ElectionTimeoutMin = 300 * 1000000, ElectionTimeoutMax = 500 * 1000000, HeartbeatInterval = 100 * 1000000,
     ProposalTimeout = 5 * 1000000000\<rparr>"

text \<open>\<open>rand.Int63n\<close> panics unless its argument is positive; \<open>rnd\<close> is what it returns.\<close>

definition randomElectionTimeout :: "Config \<Rightarrow> 64 word \<Rightarrow> 64 word res" where
  "randomElectionTimeout cfg rnd =
     (let delta = ElectionTimeoutMax cfg - ElectionTimeoutMin cfg
      in if sint delta \<le> 0 then Panic else Ok (ElectionTimeoutMin cfg + rnd))"

record proposal =
  p_index :: "64 word"
  p_id :: nat

record Raft =
  currentTerm :: "64 word"
  votedFor :: gostring
  r_log :: Log
  r_state :: State
  commitIndex :: "64 word"
  lastApplied :: "64 word"
  leaderID :: gostring
  nextIndex :: "gostring \<Rightarrow> 64 word"
  matchIndex :: "gostring \<Rightarrow> 64 word"
  nodeID :: gostring
  peers :: "gostring list"
  r_addr :: gostring
  applyCh :: "LogEntry list"
  commitCh :: bool
  proposals :: "proposal list"
  doneCh :: "nat \<Rightarrow> string option option"
  stateFile :: "bytes option"

record raft_env =
  re_state :: bool
  re_room :: "nat option"
  re_truncate :: log_env
  re_append :: log_env

definition raft_ok :: raft_env where
  "raft_ok = \<lparr>re_state = True, re_room = None, re_truncate = log_ok, re_append = log_ok\<rparr>"

lemma unat_pred_less: "c < (n :: 64 word) \<Longrightarrow> unat (n - 1) < unat n"
  by (rule measure_unat) auto

lemma unat_Suc_word: "(n :: 64 word) + 1 \<noteq> 0 \<Longrightarrow> unat (n + 1) = Suc (unat n)"
  using unatSuc [of n] by (simp add: add.commute)

subsection \<open>Persistence\<close>

text \<open>An error of \<open>os.WriteFile\<close> is ignored: it left the file as it was, or a prefix of the content.\<close>

definition persistState :: "raft_env \<Rightarrow> Raft \<Rightarrow> Raft" where
  "persistState io r =
     (let buf = PutUint64 (currentTerm r) @ PutUint32 (of_nat (length (votedFor r))) @ votedFor r
      in if \<not> re_state io then r
         else r\<lparr>stateFile := Some (case re_room io of None \<Rightarrow> buf | Some n \<Rightarrow> take n buf)\<rparr>)"

definition loadState :: "bool \<Rightarrow> Raft \<Rightarrow> Raft res" where
  "loadState readOk r =
     (case stateFile r of
        None \<Rightarrow> Ok r
      | Some data \<Rightarrow>
          if \<not> readOk then Err ''read''
          else if length data < 12 then Ok r
          else let r1 = r\<lparr>currentTerm := Uint64 (take 8 data)\<rparr>;
                   vfLen = Uint32 (take 4 (drop 8 data))
               in if length data \<ge> 12 + unat vfLen
                  then res_bind (slice data 12 (unat (12 + vfLen))) (\<lambda>vf. Ok (r1\<lparr>votedFor := vf\<rparr>))
                  else Ok r1)"

subsection \<open>Roles\<close>

definition becomeFollowerLocked :: "raft_env \<Rightarrow> Raft \<Rightarrow> 64 word \<Rightarrow> gostring \<Rightarrow> Raft" where
  "becomeFollowerLocked io r term leader =
     persistState io (r\<lparr>r_state := Follower, currentTerm := term, votedFor := [], leaderID := (if leader \<noteq> [] then leader else leaderID r)\<rparr>)"

definition becomeLeaderLocked :: "Raft \<Rightarrow> Raft" where
  "becomeLeaderLocked r =
     (let lastIdx = LastIndex (r_log r)
      in r\<lparr>r_state := Leader, leaderID := r_addr r,
           nextIndex := (\<lambda>p. if p \<in> set (peers r) then lastIdx + 1 else 0),
           matchIndex := (\<lambda>p. 0)(r_addr r := lastIdx)\<rparr>)"

subsection \<open>Elections\<close>

definition startElection :: "raft_env \<Rightarrow> Raft \<Rightarrow> Raft \<times> RequestVoteArgs" where
  "startElection io r =
     (let r1 = r\<lparr>r_state := Candidate, currentTerm := currentTerm r + 1, votedFor := nodeID r, leaderID := []\<rparr>
      in (persistState io r1,
          \<lparr>rv_Term = currentTerm r1, rv_CandidateID = nodeID r1, rv_LastLogIndex = LastIndex (r_log r1), rv_LastLogTerm = LastTerm (r_log r1)\<rparr>))"

definition majority :: "Raft \<Rightarrow> nat" where
  "majority r = (length (peers r) + 1) div 2 + 1"

text \<open>A goroutine that got a reply: first it looks at the term, then it counts a granted vote, then, if
  there are enough, it takes the lock again. The result of \<open>voteReply\<close> says whether it goes on.\<close>

definition voteReply :: "raft_env \<Rightarrow> Raft \<Rightarrow> RequestVoteReply \<Rightarrow> Raft \<times> bool" where
  "voteReply io r reply =
     (if rvr_Term reply > currentTerm r then (becomeFollowerLocked io r (rvr_Term reply) [], False)
      else (r, rvr_VoteGranted reply))"

definition countVote :: "Raft \<Rightarrow> nat \<Rightarrow> nat \<times> bool" where
  "countVote r votes = (Suc votes, Suc votes \<ge> majority r)"

definition electionWon :: "Raft \<Rightarrow> 64 word \<Rightarrow> Raft" where
  "electionWon r term = (if r_state r = Candidate \<and> currentTerm r = term then becomeLeaderLocked r else r)"

subsection \<open>Replication\<close>

definition replicateTo :: "Raft \<Rightarrow> gostring \<Rightarrow> AppendEntriesArgs option res" where
  "replicateTo r peer =
     (if r_state r \<noteq> Leader then Ok None
      else let nextIdx = nextIndex r peer in
           res_bind (if nextIdx > 1
                     then res_bind (GetEntry (r_log r) (nextIdx - 1)) (\<lambda>en. Ok (nextIdx - 1, case en of None \<Rightarrow> 0 | Some x \<Rightarrow> le_Term x))
                     else Ok (0, 0))
             (\<lambda>(prevLogIndex, prevLogTerm).
           res_bind (GetEntriesFrom (r_log r) nextIdx)
             (\<lambda>entries. Ok (Some \<lparr>ae_Term = currentTerm r, ae_LeaderID = r_addr r, ae_PrevLogIndex = prevLogIndex, ae_PrevLogTerm = prevLogTerm,
                               ae_Entries = entries, ae_LeaderCommit = commitIndex r\<rparr>))))"

definition send_done :: "(nat \<Rightarrow> string option option) \<Rightarrow> nat \<Rightarrow> string option \<Rightarrow> nat \<Rightarrow> string option option" where
  "send_done ch i v = (if ch i = None then ch(i := Some v) else ch)"

definition resolveProposalsLocked :: "Raft \<Rightarrow> Raft" where
  "resolveProposalsLocked r =
     r\<lparr>doneCh := fold (\<lambda>p ch. if p_index p \<le> commitIndex r then send_done ch (p_id p) None else ch) (proposals r) (doneCh r),
       proposals := filter (\<lambda>p. \<not> p_index p \<le> commitIndex r) (proposals r)\<rparr>"

text \<open>The loop of \<open>advanceCommitIndexLocked\<close>, down from the last index.\<close>

definition matched :: "Raft \<Rightarrow> 64 word \<Rightarrow> bool" where
  "matched r n \<longleftrightarrow> 1 + length (filter (\<lambda>p. matchIndex r p \<ge> n) (peers r)) > (length (peers r) + 1) div 2"

function advanceFrom :: "Raft \<Rightarrow> 64 word \<Rightarrow> Raft res" where
  "advanceFrom r n =
     (if n > commitIndex r
      then (case GetEntry (r_log r) n of
              Panic \<Rightarrow> Panic
            | Err e \<Rightarrow> Err e
            | Ok None \<Rightarrow> advanceFrom r (n - 1)
            | Ok (Some x) \<Rightarrow>
                if le_Term x \<noteq> currentTerm r then advanceFrom r (n - 1)
                else if matched r n then Ok (resolveProposalsLocked (r\<lparr>commitIndex := n, commitCh := True\<rparr>))
                else advanceFrom r (n - 1))
      else Ok r)"
  by pat_completeness auto
termination
  by (relation "measure (\<lambda>(r, n). unat n)") (simp_all add: unat_pred_less)

declare advanceFrom.simps [simp del]

definition advanceCommitIndexLocked :: "Raft \<Rightarrow> Raft res" where
  "advanceCommitIndexLocked r = advanceFrom r (LastIndex (r_log r))"

definition replicateReply :: "raft_env \<Rightarrow> Raft \<Rightarrow> gostring \<Rightarrow> AppendEntriesArgs \<Rightarrow> AppendEntriesReply \<Rightarrow> Raft res" where
  "replicateReply io r peer args reply =
     (if aer_Term reply > currentTerm r then Ok (becomeFollowerLocked io r (aer_Term reply) [])
      else if r_state r \<noteq> Leader \<or> currentTerm r \<noteq> ae_Term args then Ok r
      else if aer_Success reply then
        advanceCommitIndexLocked
          (if ae_Entries args \<noteq> []
           then r\<lparr>nextIndex := (nextIndex r)(peer := le_Index (last (ae_Entries args)) + 1),
                  matchIndex := (matchIndex r)(peer := le_Index (last (ae_Entries args)))\<rparr>
           else r)
      else Ok (if nextIndex r peer > 1 then r\<lparr>nextIndex := (nextIndex r)(peer := nextIndex r peer - 1)\<rparr> else r))"

subsection \<open>Proposals\<close>

text \<open>The part of \<open>Propose\<close> under the lock; \<open>id\<close> names the proposal and its channel.\<close>

definition Propose :: "raft_env \<Rightarrow> Raft \<Rightarrow> byte \<Rightarrow> bytes \<Rightarrow> nat \<Rightarrow> Raft \<times> unit res" where
  "Propose io r cmdType data i =
     (if r_state r \<noteq> Leader then (r, Err ErrNotLeader)
      else let en = \<lparr>le_Term = currentTerm r, le_Index = LastIndex (r_log r) + 1, le_CmdType = cmdType, le_Data = data\<rparr>
           in case Log_Append (re_append io) (r_log r) [en] of
                (l, Some e) \<Rightarrow> (r\<lparr>r_log := l\<rparr>, Err e)
              | (l, None) \<Rightarrow> (r\<lparr>r_log := l, proposals := proposals r @ [\<lparr>p_index = le_Index en, p_id = i\<rparr>],
                                 matchIndex := (matchIndex r)(r_addr r := le_Index en)\<rparr>, Ok ()))"

text \<open>What ends the wait of a proposal: its channel, the timeout or the shutdown.\<close>

datatype wakeup = Done | TimedOut | Closed

definition awaitProposal :: "Raft \<Rightarrow> nat \<Rightarrow> wakeup \<Rightarrow> unit res option" where
  "awaitProposal r i w = (case w of
     Done \<Rightarrow> (case doneCh r i of None \<Rightarrow> None | Some None \<Rightarrow> Some (Ok ()) | Some (Some e) \<Rightarrow> Some (Err e))
   | TimedOut \<Rightarrow> Some (Err ErrProposalTimeout)
   | Closed \<Rightarrow> Some (Err ErrStopped))"

subsection \<open>Applying\<close>

text \<open>The apply goroutine takes a signal, reads under the lock where it is and how far it may go, and then
  delivers one entry after the other, without the lock in between. \<open>applyNext\<close> is one turn of its loop;
  the result says whether the loop goes on. \<open>applyCh\<close> lists everything sent since the node was started;
  the channel holds what its consumer has not taken yet, at most \<open>applyCap\<close> entries.\<close>

definition applyCap :: nat where
  "applyCap = 256"

definition applyTake :: "Raft \<Rightarrow> (Raft \<times> 64 word \<times> 64 word) option" where
  "applyTake r = (if commitCh r then Some (r\<lparr>commitCh := False\<rparr>, lastApplied r + 1, commitIndex r) else None)"

definition applyNext :: "Raft \<Rightarrow> 64 word \<Rightarrow> 64 word \<Rightarrow> (Raft \<times> bool) res" where
  "applyNext r idx commit =
     (if idx \<le> commit
      then (case GetEntry (r_log r) idx of
              Panic \<Rightarrow> Panic
            | Err e \<Rightarrow> Err e
            | Ok None \<Rightarrow> Ok (r, False)
            | Ok (Some x) \<Rightarrow> Ok (r\<lparr>applyCh := applyCh r @ [x], lastApplied := idx\<rparr>, True))
      else Ok (r, False))"

subsection \<open>Handlers\<close>

definition handleRequestVote :: "raft_env \<Rightarrow> Raft \<Rightarrow> RequestVoteArgs \<Rightarrow> Raft \<times> RequestVoteReply" where
  "handleRequestVote io r args =
     (if rv_Term args < currentTerm r then (r, \<lparr>rvr_Term = currentTerm r, rvr_VoteGranted = False\<rparr>)
      else let r1 = (if rv_Term args > currentTerm r then becomeFollowerLocked io r (rv_Term args) [] else r);
               no = \<lparr>rvr_Term = currentTerm r1, rvr_VoteGranted = False\<rparr>
           in if votedFor r1 \<noteq> [] \<and> votedFor r1 \<noteq> rv_CandidateID args then (r1, no)
              else let lastTerm = LastTerm (r_log r1); lastIndex = LastIndex (r_log r1) in
                   if rv_LastLogTerm args < lastTerm then (r1, no)
                   else if rv_LastLogTerm args = lastTerm \<and> rv_LastLogIndex args < lastIndex then (r1, no)
                   else (persistState io (r1\<lparr>votedFor := rv_CandidateID args\<rparr>), \<lparr>rvr_Term = currentTerm r1, rvr_VoteGranted = True\<rparr>))"

text \<open>The loop over the new entries; errors of the log are ignored.\<close>

fun appendNew :: "raft_env \<Rightarrow> Log \<Rightarrow> LogEntry list \<Rightarrow> Log res" where
  "appendNew io l [] = Ok l"
| "appendNew io l (new # rest) =
     res_bind (GetEntry l (le_Index new)) (\<lambda>existing.
       case existing of
         None \<Rightarrow> Ok (fst (Log_Append (re_append io) l (new # rest)))
       | Some x \<Rightarrow>
           if le_Term x \<noteq> le_Term new
           then res_bind (TruncateFrom (re_truncate io) l (le_Index new)) (\<lambda>(l', _). Ok (fst (Log_Append (re_append io) l' (new # rest))))
           else appendNew io l rest)"

definition handleAppendEntries :: "raft_env \<Rightarrow> Raft \<Rightarrow> AppendEntriesArgs \<Rightarrow> (Raft \<times> AppendEntriesReply) res" where
  "handleAppendEntries io r args =
     (if ae_Term args < currentTerm r then Ok (r, \<lparr>aer_Term = currentTerm r, aer_Success = False\<rparr>)
      else let r1 = (if ae_Term args > currentTerm r \<or> r_state r \<noteq> Follower
                     then becomeFollowerLocked io r (ae_Term args) (ae_LeaderID args)
                     else r\<lparr>leaderID := ae_LeaderID args\<rparr>);
               no = \<lparr>aer_Term = currentTerm r1, aer_Success = False\<rparr>;
               accept = res_bind (appendNew io (r_log r1) (ae_Entries args)) (\<lambda>l.
                 let r2 = r1\<lparr>r_log := l\<rparr>;
                     r3 = (if ae_LeaderCommit args > commitIndex r2
                           then r2\<lparr>commitIndex := (if ae_LeaderCommit args < LastIndex l then ae_LeaderCommit args else LastIndex l), commitCh := True\<rparr>
                           else r2)
                 in Ok (r3, \<lparr>aer_Term = currentTerm r1, aer_Success = True\<rparr>))
           in if ae_PrevLogIndex args > 0
              then res_bind (GetEntry (r_log r1) (ae_PrevLogIndex args)) (\<lambda>en.
                     case en of
                       None \<Rightarrow> Ok (r1, no)
                     | Some x \<Rightarrow>
                         if le_Term x \<noteq> ae_PrevLogTerm args
                         then res_bind (TruncateFrom (re_truncate io) (r_log r1) (ae_PrevLogIndex args)) (\<lambda>(l, _). Ok (r1\<lparr>r_log := l\<rparr>, no))
                         else accept)
              else accept)"

subsection \<open>Life cycle\<close>

record new_env =
  ne_mkdir :: bool
  ne_log :: log_env
  ne_listen :: bool
  ne_read :: bool

definition new_ok :: new_env where
  "new_ok = \<lparr>ne_mkdir = True, ne_log = log_ok, ne_listen = True, ne_read = True\<rparr>"

text \<open>The node on the files \<open>logContent\<close> and \<open>state\<close> of its directory.\<close>

definition NewRaftWithConfig :: "new_env \<Rightarrow> gostring \<Rightarrow> gostring list \<Rightarrow> gostring \<Rightarrow> bytes \<Rightarrow> bytes option \<Rightarrow> Raft res" where
  "NewRaftWithConfig io i ps ad logContent state =
     (if \<not> ne_mkdir io then Err ''mkdir''
      else case OpenLog (ne_log io) logContent of
        Panic \<Rightarrow> Panic
      | Err e \<Rightarrow> Err ''raft: open log: ''
      | Ok l \<Rightarrow>
          if \<not> ne_listen io then Err ''raft: create transport: ''
          else (case loadState (ne_read io)
                  \<lparr>currentTerm = 0, votedFor = [], r_log = l, r_state = Follower, commitIndex = 0, lastApplied = 0, leaderID = [],
                   nextIndex = (\<lambda>_. 0), matchIndex = (\<lambda>_. 0), nodeID = i, peers = ps, r_addr = ad, applyCh = [], commitCh = False,
                   proposals = [], doneCh = (\<lambda>_. None), stateFile = state\<rparr> of
                  Panic \<Rightarrow> Panic
                | Err e \<Rightarrow> Err ''raft: load state: ''
                | Ok r \<Rightarrow> Ok r))"

definition Raft_Stop :: "bool \<Rightarrow> Raft \<Rightarrow> Raft" where
  "Raft_Stop closeOk r =
     r\<lparr>doneCh := fold (\<lambda>p ch. send_done ch (p_id p) (Some ErrStopped)) (proposals r) (doneCh r), proposals := [],
       r_log := fst (Log_Close closeOk (r_log r))\<rparr>"

definition IsLeader :: "Raft \<Rightarrow> bool" where
  "IsLeader r \<longleftrightarrow> r_state r = Leader"

record RaftStatus =
  rs_NodeID :: gostring
  rs_State :: string
  rs_Term :: "64 word"
  rs_CommitIndex :: "64 word"
  rs_LastApplied :: "64 word"
  rs_LogLength :: "64 word"
  rs_LeaderID :: gostring
  rs_Peers :: "gostring list"

definition Raft_Status :: "Raft \<Rightarrow> RaftStatus" where
  "Raft_Status r =
     \<lparr>rs_NodeID = nodeID r, rs_State = State_String (r_state r), rs_Term = currentTerm r, rs_CommitIndex = commitIndex r,
      rs_LastApplied = lastApplied r, rs_LogLength = LastIndex (r_log r), rs_LeaderID = leaderID r, rs_Peers = peers r\<rparr>"

subsection \<open>What the handlers do to roles, terms and votes\<close>

text \<open>The identity of a node, which nothing changes, and its role.\<close>

definition ident :: "Raft \<Rightarrow> gostring \<times> gostring \<times> gostring list" where
  "ident r = (nodeID r, r_addr r, peers r)"

definition vote_bytes :: "64 word \<Rightarrow> gostring \<Rightarrow> bytes" where
  "vote_bytes t v = PutUint64 t @ PutUint32 (of_nat (length v)) @ v"

text \<open>The state file has the term and the vote, or there was neither yet.\<close>

definition saved :: "Raft \<Rightarrow> bool" where
  "saved r \<longleftrightarrow> length (votedFor r) + 12 < 2 ^ 32 \<and>
     (stateFile r = Some (vote_bytes (currentTerm r) (votedFor r)) \<or> stateFile r = None \<and> currentTerm r = 0 \<and> votedFor r = [])"

lemma persistState_ok: "persistState raft_ok r = r\<lparr>stateFile := Some (vote_bytes (currentTerm r) (votedFor r))\<rparr>"
  by (simp add: persistState_def raft_ok_def vote_bytes_def Let_def)

lemma loadState_saved:
  assumes "stateFile r0 = stateFile r" "saved r" "currentTerm r0 = 0" "votedFor r0 = []"
  shows "loadState True r0 = Ok (r0\<lparr>currentTerm := currentTerm r, votedFor := votedFor r\<rparr>)"
proof (cases "stateFile r")
  case None
  then show ?thesis using assms by (cases r0) (simp add: loadState_def saved_def)
next
  case (Some data)
  let ?v = "votedFor r"
  have d: "data = vote_bytes (currentTerm r) ?v" and b: "length ?v + 12 < 2 ^ 32" using assms(2) Some by (auto simp: saved_def)
  have n: "unat (of_nat (length ?v) :: 32 word) = length ?v" "unat (12 + of_nat (length ?v) :: 32 word) = 12 + length ?v"
    using b by (simp_all add: unat_of_nat32 unat_add32)
  have "take 8 data = PutUint64 (currentTerm r)" "take 4 (drop 8 data) = PutUint32 (of_nat (length ?v))" "length data = 12 + length ?v"
    by (simp_all add: d vote_bytes_def)
  moreover have "slice data 12 (12 + length ?v) = Ok ?v"
    using slice_at [of "PutUint64 (currentTerm r) @ PutUint32 (of_nat (length ?v))" 12 ?v _ "[]"] by (simp add: d vote_bytes_def)
  ultimately show ?thesis using assms(1) Some n by (simp add: loadState_def Let_def)
qed

lemmas role_defs = becomeFollowerLocked_def persistState_ok ident_def

lemma startElection_ok:
  assumes "startElection raft_ok r = (r', args)"
  shows "r' = r\<lparr>r_state := Candidate, currentTerm := currentTerm r + 1, votedFor := nodeID r, leaderID := [],
      stateFile := Some (vote_bytes (currentTerm r + 1) (nodeID r))\<rparr>"
    "args = \<lparr>rv_Term = currentTerm r + 1, rv_CandidateID = nodeID r, rv_LastLogIndex = LastIndex (r_log r), rv_LastLogTerm = LastTerm (r_log r)\<rparr>"
  using assms by (auto simp: startElection_def persistState_ok Let_def)

lemma follower_ok:
  "becomeFollowerLocked raft_ok r t ld = r\<lparr>r_state := Follower, currentTerm := t, votedFor := [],
     leaderID := (if ld \<noteq> [] then ld else leaderID r), stateFile := Some (vote_bytes t [])\<rparr>"
  by (simp add: becomeFollowerLocked_def persistState_ok)

lemma handleRequestVote_ok:
  assumes "handleRequestVote raft_ok r args = (r', reply)"
  shows "rvr_VoteGranted reply \<Longrightarrow> currentTerm r' = rv_Term args \<and> votedFor r' = rv_CandidateID args \<and>
      (if rv_Term args > currentTerm r then r_state r' = Follower
       else rv_Term args = currentTerm r \<and> r_state r' = r_state r \<and> (votedFor r = [] \<or> votedFor r = rv_CandidateID args)) \<and>
      \<not> rv_LastLogTerm args < LastTerm (r_log r) \<and> (rv_LastLogTerm args = LastTerm (r_log r) \<longrightarrow> \<not> rv_LastLogIndex args < LastIndex (r_log r))"
    "\<not> rvr_VoteGranted reply \<Longrightarrow> r' = r \<or> currentTerm r < rv_Term args \<and> r' = becomeFollowerLocked raft_ok r (rv_Term args) []"
    "ident r' = ident r" "r_log r' = r_log r" "commitIndex r' = commitIndex r" "lastApplied r' = lastApplied r" "applyCh r' = applyCh r"
    "nextIndex r' = nextIndex r" "matchIndex r' = matchIndex r"
  using assms by (auto simp: handleRequestVote_def persistState_ok follower_ok Let_def ident_def split: if_splits)

lemma handleRequestVote_saved:
  assumes "handleRequestVote raft_ok r args = (r', reply)" "saved r" "length (rv_CandidateID args) + 12 < 2 ^ 32"
  shows "saved r'"
  using assms by (auto simp: handleRequestVote_def persistState_ok follower_ok Let_def saved_def split: if_splits)

text \<open>What an append request changes: after the role, only the log and the commit index.\<close>

definition heard :: "Raft \<Rightarrow> AppendEntriesArgs \<Rightarrow> Raft" where
  "heard r args = (if ae_Term args > currentTerm r \<or> r_state r \<noteq> Follower
     then becomeFollowerLocked raft_ok r (ae_Term args) (ae_LeaderID args) else r\<lparr>leaderID := ae_LeaderID args\<rparr>)"

lemma handleAppendEntries_effect:
  assumes "handleAppendEntries raft_ok r args = Ok (r', reply)" "\<not> ae_Term args < currentTerm r"
  shows "\<exists>l c ch. r' = (heard r args)\<lparr>r_log := l, commitIndex := c, commitCh := ch\<rparr> \<and> (c = commitIndex (heard r args) \<and> ch = commitCh (heard r args) \<or> ch \<and> commitIndex (heard r args) < ae_LeaderCommit args)"
proof -
  let ?r1 = "heard r args"
  have same: "?r1 = ?r1\<lparr>r_log := r_log ?r1, commitIndex := commitIndex ?r1, commitCh := commitCh ?r1\<rparr>" by simp
  have acc: "\<exists>l c ch. x = ?r1\<lparr>r_log := l, commitIndex := c, commitCh := ch\<rparr> \<and> (c = commitIndex (heard r args) \<and> ch = commitCh (heard r args) \<or> ch \<and> commitIndex (heard r args) < ae_LeaderCommit args)"
    if run: "res_bind (appendNew raft_ok (r_log ?r1) (ae_Entries args)) (\<lambda>l.
                 let r2 = ?r1\<lparr>r_log := l\<rparr>;
                     r3 = (if ae_LeaderCommit args > commitIndex r2
                           then r2\<lparr>commitIndex := (if ae_LeaderCommit args < LastIndex l then ae_LeaderCommit args else LastIndex l), commitCh := True\<rparr>
                           else r2)
                 in Ok (r3, rep)) = Ok (x, y)" for x y rep
  proof -
    obtain l where "appendNew raft_ok (r_log ?r1) (ae_Entries args) = Ok l" using run by (auto simp: res_bind_Ok_iff)
    then have l: "x = (if ae_LeaderCommit args > commitIndex ?r1
         then ?r1\<lparr>r_log := l, commitIndex := (if ae_LeaderCommit args < LastIndex l then ae_LeaderCommit args else LastIndex l), commitCh := True\<rparr>
         else ?r1\<lparr>r_log := l\<rparr>)" using run by (simp add: Let_def)
    show ?thesis
    proof (cases "ae_LeaderCommit args > commitIndex ?r1")
      case True
      then show ?thesis using l by (auto simp: Let_def)
    next
      case False
      then have "x = ?r1\<lparr>r_log := l, commitIndex := commitIndex ?r1, commitCh := commitCh ?r1\<rparr>" using l by (simp add: Let_def)
      then show ?thesis by blast
    qed
  qed
  note h = assms(1) [unfolded handleAppendEntries_def Let_def, folded heard_def] assms(2)
  show ?thesis
  proof (cases "ae_PrevLogIndex args > 0")
    case False
    then show ?thesis using h acc by (auto simp: Let_def)
  next
    case True
    then obtain en where en: "GetEntry (r_log ?r1) (ae_PrevLogIndex args) = Ok en" using h by (auto simp: res_bind_Ok_iff)
    show ?thesis
    proof (cases en)
      case None
      then have "r' = ?r1" using h True en by simp
      then show ?thesis using same by blast
    next
      case (Some x)
      show ?thesis
      proof (cases "le_Term x = ae_PrevLogTerm args")
        case yes: True
        then show ?thesis using h True en Some acc by (auto simp: Let_def)
      next
        case no: False
        then obtain l where "r' = ?r1\<lparr>r_log := l\<rparr>" using h True en Some by (auto simp: res_bind_Ok_iff)
        then have "r' = ?r1\<lparr>r_log := l, commitIndex := commitIndex ?r1, commitCh := commitCh ?r1\<rparr>" by simp
        then show ?thesis by blast
      qed
    qed
  qed
qed

lemma handleAppendEntries_heard:
  assumes "handleAppendEntries raft_ok r args = Ok (r', reply)" "\<not> ae_Term args < currentTerm r"
  shows "\<exists>l c ch. r' = (heard r args)\<lparr>r_log := l, commitIndex := c, commitCh := ch\<rparr>"
  using handleAppendEntries_effect [OF assms] by blast

lemma handleAppendEntries_role:
  assumes "handleAppendEntries raft_ok r args = Ok (r', reply)"
  shows "if ae_Term args < currentTerm r then r' = r \<and> \<not> aer_Success reply
    else currentTerm r' = ae_Term args \<and> r_state r' = Follower \<and>
      votedFor r' = (if ae_Term args > currentTerm r \<or> r_state r \<noteq> Follower then [] else votedFor r) \<and>
      stateFile r' = (if ae_Term args > currentTerm r \<or> r_state r \<noteq> Follower then Some (vote_bytes (ae_Term args) []) else stateFile r)"
    "ident r' = ident r" "lastApplied r' = lastApplied r" "applyCh r' = applyCh r" "nextIndex r' = nextIndex r" "matchIndex r' = matchIndex r"
proof -
  have "ae_Term args < currentTerm r \<Longrightarrow> r' = r \<and> \<not> aer_Success reply" using assms by (auto simp: handleAppendEntries_def)
  moreover have "\<not> ae_Term args < currentTerm r \<Longrightarrow> \<exists>l c ch. r' = (heard r args)\<lparr>r_log := l, commitIndex := c, commitCh := ch\<rparr>"
    by (rule handleAppendEntries_heard [OF assms])
  ultimately show "if ae_Term args < currentTerm r then r' = r \<and> \<not> aer_Success reply
    else currentTerm r' = ae_Term args \<and> r_state r' = Follower \<and>
      votedFor r' = (if ae_Term args > currentTerm r \<or> r_state r \<noteq> Follower then [] else votedFor r) \<and>
      stateFile r' = (if ae_Term args > currentTerm r \<or> r_state r \<noteq> Follower then Some (vote_bytes (ae_Term args) []) else stateFile r)"
    "ident r' = ident r" "lastApplied r' = lastApplied r" "applyCh r' = applyCh r" "nextIndex r' = nextIndex r" "matchIndex r' = matchIndex r"
    by (cases "ae_Term args < currentTerm r"; auto simp: heard_def follower_ok ident_def)+
qed

lemma resolve_frame:
  "ident (resolveProposalsLocked r) = ident r" "currentTerm (resolveProposalsLocked r) = currentTerm r" "votedFor (resolveProposalsLocked r) = votedFor r"
  "r_state (resolveProposalsLocked r) = r_state r" "stateFile (resolveProposalsLocked r) = stateFile r" "r_log (resolveProposalsLocked r) = r_log r"
  "nextIndex (resolveProposalsLocked r) = nextIndex r" "matchIndex (resolveProposalsLocked r) = matchIndex r"
  "lastApplied (resolveProposalsLocked r) = lastApplied r" "applyCh (resolveProposalsLocked r) = applyCh r" "commitIndex (resolveProposalsLocked r) = commitIndex r"
  by (simp_all add: resolveProposalsLocked_def ident_def)

lemma advanceFrom_frame:
  "advanceFrom r n = Ok r' \<Longrightarrow> ident r' = ident r \<and> currentTerm r' = currentTerm r \<and> votedFor r' = votedFor r \<and> r_state r' = r_state r \<and>
     stateFile r' = stateFile r \<and> r_log r' = r_log r \<and> nextIndex r' = nextIndex r \<and> matchIndex r' = matchIndex r \<and> lastApplied r' = lastApplied r \<and> applyCh r' = applyCh r"
proof (induction r n rule: advanceFrom.induct)
  case (1 r n)
  have "ident (r\<lparr>commitIndex := n, commitCh := True\<rparr>) = ident r" by (simp add: ident_def)
  then show ?case using 1(4)
    by (subst (asm) advanceFrom.simps) (auto simp: resolve_frame split: if_splits res.splits option.splits dest: 1(1-3))
qed

lemma applyTake_frame:
  "applyTake r = Some (r', idx, commit) \<Longrightarrow> commitCh r \<and> r' = r\<lparr>commitCh := False\<rparr> \<and> idx = lastApplied r + 1 \<and> commit = commitIndex r"
  by (simp add: applyTake_def split: if_splits)

lemma applyNext_frame:
  "applyNext r idx commit = Ok (r', go) \<Longrightarrow> ident r' = ident r \<and> currentTerm r' = currentTerm r \<and> votedFor r' = votedFor r \<and> r_state r' = r_state r \<and>
     stateFile r' = stateFile r \<and> r_log r' = r_log r \<and> nextIndex r' = nextIndex r \<and> matchIndex r' = matchIndex r \<and> commitIndex r' = commitIndex r \<and> commitCh r' = commitCh r"
  by (auto simp: applyNext_def ident_def split: if_splits res.splits option.splits)

end
