(* ===== verification/Transport.thy ===== *)
theory Transport
  imports Raft
begin

text \<open>
  The connections of a Raft node to its peers (\<open>raft/transport.go\<close>): the cache of RPC clients, which the goroutines that
  send share, and the end of the transport. The network and \<open>net/rpc\<close> are outcomes of the steps: whether a
  dial succeeds and what a call returns.

  A send is a program of five places between which other goroutines run; what it does between two of
  them is under the mutex or changes no shared state. The invariant says where the open
  connections are: cached, one per peer, or in the hands of a goroutine that has just dialled.
\<close>

subsection \<open>The transport\<close>

text \<open>RPC clients are numbered in the order of their creation; \<open>tr_shut\<close> has those that \<open>Close\<close> was called on.
  \<open>tr_ended\<close> says that \<open>Close\<close> of the transport has returned.\<close>

record Transport =
  tr_listening :: bool
  tr_registered :: bool
  tr_accepting :: bool
  tr_peers :: "gostring \<rightharpoonup> nat"
  tr_made :: nat
  tr_shut :: "nat set"
  tr_closeCh :: bool
  tr_ended :: bool

definition NewTransport :: "bool \<Rightarrow> Transport res" where
  "NewTransport listened =
     (if \<not> listened then Err ''transport: listen: ''
      else Ok \<lparr>tr_listening = True, tr_registered = False, tr_accepting = False, tr_peers = (\<lambda>_. None), tr_made = 0, tr_shut = {}, tr_closeCh = False, tr_ended = False\<rparr>)"

text \<open>A name is registered once with an RPC server.\<close>

definition Transport_Start :: "Transport \<Rightarrow> Transport res" where
  "Transport_Start t =
     (if tr_registered t then Err ''transport: register: ''
      else Ok (t\<lparr>tr_registered := True, tr_accepting := True\<rparr>))"

text \<open>A turn of the loop that accepts, where \<open>accepted\<close> is whether a connection came in: the loop ends after an error on a
  closing transport, and goes on otherwise.\<close>

definition acceptTurn :: "bool \<Rightarrow> Transport \<Rightarrow> Transport" where
  "acceptTurn accepted t = (if \<not> (accepted \<and> tr_listening t) \<and> tr_closeCh t then t\<lparr>tr_accepting := False\<rparr> else t)"

definition client_Close :: "nat \<Rightarrow> Transport \<Rightarrow> Transport" where
  "client_Close c t = t\<lparr>tr_shut := insert c (tr_shut t)\<rparr>"

text \<open>The two critical sections of \<open>getClient\<close>, and the dial between them.\<close>

definition newClient :: "Transport \<Rightarrow> Transport \<times> nat" where
  "newClient t = (t\<lparr>tr_made := Suc (tr_made t)\<rparr>, tr_made t)"

definition storeClient :: "gostring \<Rightarrow> nat \<Rightarrow> Transport \<Rightarrow> Transport \<times> nat" where
  "storeClient peer c t =
     (case tr_peers t peer of
        Some existing \<Rightarrow> (client_Close c t, existing)
      | None \<Rightarrow> (t\<lparr>tr_peers := (tr_peers t)(peer \<mapsto> c)\<rparr>, c))"

definition removeClient :: "gostring \<Rightarrow> Transport \<Rightarrow> Transport" where
  "removeClient peer t =
     (case tr_peers t peer of
        Some c \<Rightarrow> (client_Close c t)\<lparr>tr_peers := (tr_peers t)(peer := None)\<rparr>
      | None \<Rightarrow> t)"

text \<open>\<open>Close\<close> up to its wait for the loop that accepts, and after it.\<close>

definition closeStart :: "Transport \<Rightarrow> Transport res" where
  "closeStart t = (if tr_closeCh t then Panic else Ok (t\<lparr>tr_closeCh := True, tr_listening := False\<rparr>))"

definition closePeers :: "Transport \<Rightarrow> Transport" where
  "closePeers t = t\<lparr>tr_shut := tr_shut t \<union> ran (tr_peers t), tr_peers := (\<lambda>_. None), tr_ended := True\<rparr>"

subsection \<open>The service\<close>

text \<open>What a call runs at the peer.\<close>

definition RPCService_RequestVote :: "raft_env \<Rightarrow> Raft \<Rightarrow> RequestVoteArgs \<Rightarrow> (Raft \<times> RequestVoteReply) res" where
  "RPCService_RequestVote io r args = Ok (handleRequestVote io r args)"

definition RPCService_AppendEntries :: "raft_env \<Rightarrow> Raft \<Rightarrow> AppendEntriesArgs \<Rightarrow> (Raft \<times> AppendEntriesReply) res" where
  "RPCService_AppendEntries io r args = handleAppendEntries io r args"

subsection \<open>A send\<close>

text \<open>Where a send is: before the lookup, while it dials, with a client it has dialled, in the call, before the removal of a
  client whose call failed, and at its end, with the reply if there is one.\<close>

datatype 'r send_pc = Lookup | Dialling | Storing nat | Calling nat | Removing | Returned "'r option"

text \<open>The outcomes of a turn: whether the dial succeeded and the reply of the call.\<close>

record 'r send_out =
  so_dial :: bool
  so_reply :: "'r option"

fun send_turn :: "'r send_out \<Rightarrow> gostring \<Rightarrow> Transport \<Rightarrow> 'r send_pc \<Rightarrow> Transport \<times> 'r send_pc" where
  "send_turn out peer t Lookup = (t, case tr_peers t peer of Some c \<Rightarrow> Calling c | None \<Rightarrow> Dialling)"
| "send_turn out peer t Dialling = (if so_dial out then case newClient t of (t', c) \<Rightarrow> (t', Storing c) else (t, Returned None))"
| "send_turn out peer t (Storing c) = (case storeClient peer c t of (t', c') \<Rightarrow> (t', Calling c'))"
| "send_turn out peer t (Calling c) = (t, case so_reply out of Some r \<Rightarrow> Returned (Some r) | None \<Rightarrow> Removing)"
| "send_turn out peer t Removing = (removeClient peer t, Returned None)"
| "send_turn out peer t (Returned r) = (t, Returned r)"

text \<open>A whole send: its turns, each with its outcomes and with what other goroutines do to the transport before it.\<close>

fun send_run :: "((Transport \<Rightarrow> Transport) \<times> 'r send_out) list \<Rightarrow> gostring \<Rightarrow> Transport \<Rightarrow> 'r send_pc \<Rightarrow> Transport \<times> 'r send_pc" where
  "send_run [] peer t pc = (t, pc)"
| "send_run ((others, out) # turns) peer t pc = (case send_turn out peer (others t) pc of (t', pc') \<Rightarrow> send_run turns peer t' pc')"

definition SendRequestVote :: "((Transport \<Rightarrow> Transport) \<times> RequestVoteReply send_out) list \<Rightarrow> gostring \<Rightarrow> Transport \<Rightarrow> Transport \<times> RequestVoteReply send_pc" where
  "SendRequestVote turns peer t = send_run turns peer t Lookup"

definition SendAppendEntries :: "((Transport \<Rightarrow> Transport) \<times> AppendEntriesReply send_out) list \<Rightarrow> gostring \<Rightarrow> Transport \<Rightarrow> Transport \<times> AppendEntriesReply send_pc" where
  "SendAppendEntries turns peer t = send_run turns peer t Lookup"

subsection \<open>The goroutines of a node\<close>

text \<open>The sends of both kinds, by the number of their goroutine, and the loop and the end of the transport.\<close>

type_synonym 'r tr_sys = "Transport \<times> (nat \<rightharpoonup> gostring \<times> 'r send_pc)"

inductive tr_step :: "'r tr_sys \<Rightarrow> 'r tr_sys \<Rightarrow> bool" where
  Send: "pcs i = None \<Longrightarrow> tr_step (t, pcs) (t, pcs(i \<mapsto> (peer, Lookup)))"
| Turn: "pcs i = Some (peer, pc) \<Longrightarrow> send_turn out peer t pc = (t', pc') \<Longrightarrow> tr_step (t, pcs) (t', pcs(i \<mapsto> (peer, pc')))"
| Accept: "tr_accepting t \<Longrightarrow> tr_step (t, pcs) (acceptTurn accepted t, pcs)"
| CloseStart: "closeStart t = Ok t' \<Longrightarrow> tr_step (t, pcs) (t', pcs)"
| ClosePeers: "tr_closeCh t \<Longrightarrow> \<not> tr_accepting t \<Longrightarrow> \<not> tr_ended t \<Longrightarrow> tr_step (t, pcs) (closePeers t, pcs)"

inductive tr_reach :: "'r tr_sys \<Rightarrow> bool" where
  Init: "NewTransport listened = Ok t \<Longrightarrow> Transport_Start t = Ok t' \<Longrightarrow> tr_reach (t', \<lambda>_. None)"
| Step: "tr_reach s \<Longrightarrow> tr_step s s' \<Longrightarrow> tr_reach s'"

subsection \<open>Every send returns\<close>

fun turns_left :: "'r send_pc \<Rightarrow> nat" where
  "turns_left Lookup = 5"
| "turns_left Dialling = 4"
| "turns_left (Storing c) = 3"
| "turns_left (Calling c) = 2"
| "turns_left Removing = 1"
| "turns_left (Returned r) = 0"

lemma turns_left_turn: "send_turn out peer t pc = (t', pc') \<Longrightarrow> turns_left pc' \<le> turns_left pc - 1"
  by (cases pc) (auto split: option.splits prod.splits if_splits)

lemma send_run_left: "turns_left (snd (send_run turns peer t pc)) \<le> turns_left pc - length turns"
proof (induction turns arbitrary: t pc)
  case (Cons x turns)
  obtain others out where x: "x = (others, out)" by (cases x)
  obtain t' pc' where s: "send_turn out peer (others t) pc = (t', pc')" by fastforce
  then show ?case using Cons.IH [of t' pc'] turns_left_turn [OF s] x by simp
qed simp

lemma turns_left_0: "turns_left pc = 0 \<longleftrightarrow> (\<exists>r. pc = Returned r)"
  by (cases pc) auto

lemma send_returns: "5 \<le> length turns \<Longrightarrow> \<exists>t' r. send_run turns peer t Lookup = (t', Returned r)"
  using send_run_left [of turns peer t Lookup] turns_left_0 [of "snd (send_run turns peer t Lookup)"] by (cases "send_run turns peer t Lookup") auto

subsection \<open>Where the open connections are\<close>

definition open_clients :: "Transport \<Rightarrow> nat set" where
  "open_clients t = {..<tr_made t} - tr_shut t"

definition storing :: "(nat \<rightharpoonup> gostring \<times> 'r send_pc) \<Rightarrow> nat set" where
  "storing pcs = {c. \<exists>i peer. pcs i = Some (peer, Storing c)}"

definition one_each :: "(nat \<rightharpoonup> gostring \<times> 'r send_pc) \<Rightarrow> bool" where
  "one_each pcs \<longleftrightarrow> (\<forall>i j p q c. pcs i = Some (p, Storing c) \<longrightarrow> pcs j = Some (q, Storing c) \<longrightarrow> i = j)"

definition tr_inv :: "'r tr_sys \<Rightarrow> bool" where
  "tr_inv s \<longleftrightarrow> (case s of (t, pcs) \<Rightarrow>
     open_clients t = ran (tr_peers t) \<union> storing pcs \<and> ran (tr_peers t) \<inter> storing pcs = {} \<and>
     inj_on (tr_peers t) (dom (tr_peers t)) \<and> one_each pcs \<and> tr_shut t \<subseteq> {..<tr_made t})"

lemma storing_same:
  assumes "\<And>c. pc' \<noteq> Storing c" "\<And>q c. pcs i \<noteq> Some (q, Storing c)"
  shows "storing (pcs(i \<mapsto> (p, pc'))) = storing pcs" "one_each (pcs(i \<mapsto> (p, pc'))) = one_each pcs"
  using assms by (auto simp: storing_def one_each_def split: if_splits) metis+

lemma storing_new:
  assumes "\<And>q d. pcs i \<noteq> Some (q, Storing d)" "c \<notin> storing pcs" "one_each pcs"
  shows "storing (pcs(i \<mapsto> (p, Storing c))) = insert c (storing pcs)" "one_each (pcs(i \<mapsto> (p, Storing c)))"
  using assms by (auto simp: storing_def one_each_def split: if_splits) metis

lemma storing_done:
  assumes "pcs i = Some (p, Storing c)" "one_each pcs" "\<And>d. pc' \<noteq> Storing d"
  shows "storing (pcs(i \<mapsto> (p, pc'))) = storing pcs - {c}" "one_each (pcs(i \<mapsto> (p, pc')))"
  using assms by (auto simp: storing_def one_each_def split: if_splits) (metis option.inject prod.inject send_pc.inject(1))

lemma inj_peers:
  "inj_on m (dom m) \<Longrightarrow> m p = None \<Longrightarrow> c \<notin> ran m \<Longrightarrow> inj_on (m(p \<mapsto> c)) (dom (m(p \<mapsto> c)))"
  "inj_on m (dom m) \<Longrightarrow> inj_on (m(p := None)) (dom (m(p := None)))"
  "inj_on m (dom m) \<Longrightarrow> m p = Some c \<Longrightarrow> ran (m(p := None)) = ran m - {c}"
  by (auto simp: inj_on_def ran_def split: if_splits) (metis domI option.inject)+

lemma turn_keeps:
  assumes "tr_inv (t, pcs)" "pcs i = Some (peer, pc)" "send_turn out peer t pc = (t', pc')"
  shows "tr_inv (t', pcs(i \<mapsto> (peer, pc')))"
proof (cases pc)
  case Lookup
  then show ?thesis using assms storing_same [of pc' pcs i peer] by (auto simp: tr_inv_def split: option.splits)
next
  case Dialling
  show ?thesis
  proof (cases "so_dial out")
    case True
    have c: "tr_made t \<notin> storing pcs" "tr_made t \<notin> tr_shut t" using assms(1) by (auto simp: tr_inv_def open_clients_def)
    have t': "t' = t\<lparr>tr_made := Suc (tr_made t)\<rparr>" "pc' = Storing (tr_made t)" using assms(3) Dialling True by (auto simp: newClient_def)
    have o: "open_clients t' = insert (tr_made t) (open_clients t)" using c(2) t'(1) by (auto simp: open_clients_def)
    have "tr_made t \<notin> ran (tr_peers t)" using assms(1) by (auto simp: tr_inv_def open_clients_def)
    moreover have "storing (pcs(i \<mapsto> (peer, pc'))) = insert (tr_made t) (storing pcs)" "one_each (pcs(i \<mapsto> (peer, pc')))"
      using storing_new [of pcs i "tr_made t" peer] c(1) t'(2) assms(1,2) Dialling by (simp_all add: tr_inv_def)
    ultimately show ?thesis using assms(1) o t'(1) by (simp add: tr_inv_def) auto
  next
    case False
    then show ?thesis using assms Dialling storing_same [of pc' pcs i peer] by (auto simp: tr_inv_def)
  qed
next
  case (Storing c)
  have c: "c \<in> storing pcs" "c \<notin> ran (tr_peers t)" "c < tr_made t" "one_each pcs"
    using assms(1,2) Storing by (auto simp: tr_inv_def storing_def open_clients_def)
  have "\<And>d. pc' \<noteq> Storing d" using assms(3) Storing by (auto split: prod.splits)
  then have st: "storing (pcs(i \<mapsto> (peer, pc'))) = storing pcs - {c}" "one_each (pcs(i \<mapsto> (peer, pc')))"
    using storing_done [of pcs i peer c pc'] assms(2) Storing c(4) by simp_all
  show ?thesis
  proof (cases "tr_peers t peer")
    case None
    then have t': "t' = t\<lparr>tr_peers := (tr_peers t)(peer \<mapsto> c)\<rparr>" "pc' = Calling c" using assms(3) Storing by (auto simp: storeClient_def)
    have "open_clients t' = open_clients t" using t'(1) by (simp add: open_clients_def)
    then show ?thesis using assms(1) c(1,2) st t' inj_peers(1) [of "tr_peers t" peer c] None by (simp add: tr_inv_def) blast
  next
    case (Some d)
    then have t': "t' = client_Close c t" "pc' = Calling d" using assms(3) Storing by (auto simp: storeClient_def)
    have "open_clients t' = open_clients t - {c}" using t'(1) by (auto simp: open_clients_def client_Close_def)
    then show ?thesis using assms(1) c(2,3) st t' by (simp add: tr_inv_def client_Close_def) blast
  qed
next
  case (Calling c)
  then show ?thesis using assms storing_same [of pc' pcs i peer] by (auto simp: tr_inv_def split: option.splits)
next
  case Removing
  have pcs: "storing (pcs(i \<mapsto> (peer, pc'))) = storing pcs" "one_each (pcs(i \<mapsto> (peer, pc'))) = one_each pcs"
    using storing_same [of pc' pcs i peer] assms(2,3) Removing by auto
  show ?thesis
  proof (cases "tr_peers t peer")
    case None
    then show ?thesis using assms(1,3) Removing pcs by (auto simp: tr_inv_def removeClient_def)
  next
    case (Some c)
    then have t': "t' = (client_Close c t)\<lparr>tr_peers := (tr_peers t)(peer := None)\<rparr>" using assms(3) Removing by (auto simp: removeClient_def)
    have o: "open_clients t' = open_clients t - {c}" using t' by (auto simp: open_clients_def client_Close_def)
    have c: "c \<in> ran (tr_peers t)" using Some by (auto simp: ran_def)
    then have "c < tr_made t" "c \<notin> storing pcs" using assms(1) by (auto simp: tr_inv_def open_clients_def)
    then show ?thesis using assms(1) o t' pcs inj_peers(2) [of "tr_peers t" peer] inj_peers(3) [of "tr_peers t" peer c] Some
      by (simp add: tr_inv_def client_Close_def) blast
  qed
next
  case (Returned r)
  then show ?thesis using assms storing_same [of pc' pcs i peer] by (auto simp: tr_inv_def)
qed

lemma tr_inv_step: "tr_step s s' \<Longrightarrow> tr_inv s \<Longrightarrow> tr_inv s'"
proof (induction rule: tr_step.induct)
  case (Send pcs i t peer)
  then show ?case using storing_same [of Lookup pcs i peer] by (auto simp: tr_inv_def)
next
  case (Turn pcs i peer pc out t t' pc')
  then show ?case by (blast intro: turn_keeps)
next
  case (Accept t pcs accepted)
  then show ?case by (auto simp: tr_inv_def acceptTurn_def open_clients_def)
next
  case (CloseStart t t' pcs)
  then show ?case by (auto simp: tr_inv_def closeStart_def open_clients_def split: if_splits)
next
  case (ClosePeers t pcs)
  then show ?case by (auto simp: tr_inv_def closePeers_def open_clients_def)
qed

lemma tr_inv_reach: "tr_reach s \<Longrightarrow> tr_inv s"
proof (induction rule: tr_reach.induct)
  case (Init listened t t')
  then show ?case by (auto simp: tr_inv_def NewTransport_def Transport_Start_def open_clients_def storing_def one_each_def split: if_splits)
qed (rule tr_inv_step)

text \<open>C14. No connection is lost while the transport works. In every reachable state, whatever dials and calls fail, the open
  connections are the cached ones, one per peer, and those a goroutine has dialled and not yet stored; the end of \<open>Close\<close> leaves
  open exactly the latter. Every send returns within five turns of its goroutine, whatever the others do in between; a
  dial and an RPC call are one turn each, which returns (the code sets no timeout on the call).\<close>

theorem transport_connections:
  assumes "tr_reach (t, pcs)"
  shows "open_clients t = ran (tr_peers t) \<union> storing pcs \<and> inj_on (tr_peers t) (dom (tr_peers t)) \<and> open_clients (closePeers t) = storing pcs \<and>
    (\<forall>turns peer. 5 \<le> length turns \<longrightarrow> (\<exists>t' reply. SendRequestVote turns peer t = (t', Returned reply)))"
proof -
  note inv = tr_inv_reach [OF assms]
  then have "open_clients (closePeers t) = storing pcs" by (auto simp: tr_inv_def closePeers_def open_clients_def)
  then show ?thesis using inv send_returns unfolding SendRequestVote_def by (simp add: tr_inv_def) blast
qed

subsection \<open>Two interleavings\<close>

text \<open>Executions of the system, to evaluate.\<close>

datatype 'r tr_action = ASend nat gostring | ATurn nat "'r send_out" | AAccept bool | ACloseStart | AClosePeers

fun tr_do :: "'r tr_action \<Rightarrow> 'r tr_sys \<Rightarrow> 'r tr_sys option" where
  "tr_do (ASend i peer) (t, pcs) = (if pcs i = None then Some (t, pcs(i \<mapsto> (peer, Lookup))) else None)"
| "tr_do (ATurn i out) (t, pcs) =
     (case pcs i of None \<Rightarrow> None | Some (peer, pc) \<Rightarrow> (case send_turn out peer t pc of (t', pc') \<Rightarrow> Some (t', pcs(i \<mapsto> (peer, pc')))))"
| "tr_do (AAccept accepted) (t, pcs) = (if tr_accepting t then Some (acceptTurn accepted t, pcs) else None)"
| "tr_do ACloseStart (t, pcs) = (case closeStart t of Ok t' \<Rightarrow> Some (t', pcs) | _ \<Rightarrow> None)"
| "tr_do AClosePeers (t, pcs) = (if tr_closeCh t \<and> \<not> tr_accepting t \<and> \<not> tr_ended t then Some (closePeers t, pcs) else None)"

fun tr_all :: "'r tr_action list \<Rightarrow> 'r tr_sys \<Rightarrow> 'r tr_sys option" where
  "tr_all [] s = Some s"
| "tr_all (a # as) s = (case tr_do a s of None \<Rightarrow> None | Some s' \<Rightarrow> tr_all as s')"

lemma tr_do_step: "tr_do a s = Some s' \<Longrightarrow> tr_step s s'"
  by (cases "(a, s)" rule: tr_do.cases) (auto intro: tr_step.intros split: if_splits option.splits prod.splits res.splits)

lemma tr_all_reach: "tr_reach s \<Longrightarrow> tr_all as s = Some s' \<Longrightarrow> tr_reach s'"
proof (induction as arbitrary: s)
  case (Cons a as)
  then obtain s1 where "tr_do a s = Some s1" "tr_all as s1 = Some s'" by (auto split: option.splits)
  then show ?case using Cons.IH [of s1] Cons.prems(1) tr_do_step tr_reach.Step by blast
qed simp

definition tr_started :: "'r tr_sys" where
  "tr_started = (\<lparr>tr_listening = True, tr_registered = True, tr_accepting = True, tr_peers = (\<lambda>_. None), tr_made = 0, tr_shut = {}, tr_closeCh = False, tr_ended = False\<rparr>, \<lambda>_. None)"

lemma tr_started_reach: "tr_reach tr_started"
  unfolding tr_started_def by (rule tr_reach.Init [of True], simp add: NewTransport_def, simp add: Transport_Start_def)

lemmas tr_run_simps = tr_started_def newClient_def storeClient_def removeClient_def client_Close_def closeStart_def closePeers_def acceptTurn_def

definition dial_ok :: "'r send_out" where "dial_ok = \<lparr>so_dial = True, so_reply = None\<rparr>"

theorem transport_connections_witness:
  "\<exists>t pcs. tr_all [ASend 0 [1], ATurn 0 dial_ok, ATurn 0 dial_ok, ATurn 0 dial_ok, ASend 1 [2], ATurn 1 dial_ok, ATurn 1 dial_ok] (tr_started :: RequestVoteReply tr_sys) = Some (t, pcs) \<and>
     tr_peers t [1] = Some 0 \<and> open_clients (closePeers t) = {1}"
proof -
  let ?as = "[ASend 0 [1], ATurn 0 dial_ok, ATurn 0 dial_ok, ATurn 0 dial_ok, ASend 1 [2], ATurn 1 dial_ok, ATurn 1 dial_ok]"
  let ?pcs = "[0 \<mapsto> ([1], Calling 0), 1 \<mapsto> ([2], Storing 1)] :: nat \<rightharpoonup> gostring \<times> RequestVoteReply send_pc"
  obtain t where r: "tr_all ?as tr_started = Some (t, ?pcs)" "tr_peers t [1] = Some 0"
    by (simp add: tr_run_simps dial_ok_def fun_upd_twist)
  have "storing ?pcs = {1}" by (auto simp: storing_def split: if_splits)
  then show ?thesis using transport_connections [OF tr_all_reach [OF tr_started_reach r(1)]] r by auto
qed

text \<open>A send that has dialled when \<open>Close\<close> empties the cache stores its client afterwards: the connection stays open when
  \<open>Close\<close> and the send have returned.\<close>

theorem transport_close_leaks:
  "\<exists>t pcs. tr_reach (t, pcs) \<and> tr_ended t \<and> (\<forall>i peer pc. pcs i = Some (peer, pc) \<longrightarrow> pc = Returned (Some r)) \<and> open_clients t = {0}"
proof -
  let ?as = "[ASend 0 [1], ATurn 0 dial_ok, ATurn 0 dial_ok, ACloseStart, AAccept False, AClosePeers, ATurn 0 dial_ok, ATurn 0 \<lparr>so_dial = True, so_reply = Some r\<rparr>]"
  obtain t where t: "tr_all ?as tr_started = Some (t, [0 \<mapsto> ([1], Returned (Some r))])" "tr_ended t" "tr_made t = 1" "tr_shut t = {}"
    by (simp add: tr_run_simps dial_ok_def)
  have "\<forall>i peer pc. [0 \<mapsto> ([1], Returned (Some r))] i = Some (peer, pc) \<longrightarrow> pc = Returned (Some r)" by (auto split: if_splits)
  moreover have "open_clients t = {0}" using t(3,4) by (auto simp: open_clients_def)
  ultimately show ?thesis using tr_all_reach [OF tr_started_reach t(1)] t(2) by blast
qed

text \<open>\<open>removeClient\<close> closes whatever client is cached: of two sends whose calls failed on client 0, the second removes client 1,
  which a third send has dialled since and is calling.\<close>

theorem transport_removes_other:
  "\<exists>t pcs. tr_reach (t, pcs) \<and> pcs 2 = Some ([1], Calling 1) \<and> 1 \<in> tr_shut t \<and> tr_peers t [1] = None"
proof -
  let ?as = "[ASend 0 [1], ATurn 0 dial_ok, ATurn 0 dial_ok, ATurn 0 dial_ok, ASend 1 [1], ATurn 1 dial_ok, ATurn 0 dial_ok, ATurn 1 dial_ok, ATurn 0 dial_ok,
    ASend 2 [1], ATurn 2 dial_ok, ATurn 2 dial_ok, ATurn 2 dial_ok, ATurn 1 dial_ok] :: 'a tr_action list"
  obtain t pcs where "tr_all ?as tr_started = Some (t, pcs)" "pcs 2 = Some ([1], Calling 1)" "1 \<in> tr_shut t" "tr_peers t [1] = None"
    by (auto simp: tr_run_simps dial_ok_def)
  then show ?thesis using tr_all_reach [OF tr_started_reach] by blast
qed

end
