(* ===== verification/Protocol.thy ===== *)
theory Protocol
  imports Framing "HOL-Library.Sublist"
begin

text \<open>
  The wire protocol (\<open>server/protocol.go\<close>): request and response frames, and the payloads of the five
  commands. Writing goes through a \<open>bufio.Writer\<close> over a connection that may fail after any byte;
  reading consumes the bytes that have arrived.
\<close>

subsection \<open>Commands and statuses\<close>

definition CmdPut :: byte where "CmdPut = 0x01"
definition CmdGet :: byte where "CmdGet = 0x02"
definition CmdDelete :: byte where "CmdDelete = 0x03"
definition CmdBatchPut :: byte where "CmdBatchPut = 0x04"
definition CmdGetRange :: byte where "CmdGetRange = 0x05"

definition StatusOK :: byte where "StatusOK = 0x00"
definition StatusNotFound :: byte where "StatusNotFound = 0x01"
definition StatusError :: byte where "StatusError = 0x02"

subsection \<open>The buffered writer of a connection\<close>

text \<open>\<open>bw_sent\<close> are the bytes the connection took, \<open>bw_room\<close> how many it takes in all before a write fails
  (\<open>None\<close>: it never fails), \<open>bw_buf\<close> the buffered bytes and \<open>bw_err\<close> the sticky error.\<close>

record Writer_Buf =
  bw_sent :: bytes
  bw_room :: "nat option"
  bw_buf :: bytes
  bw_err :: bool

definition bufio_NewWriter :: "nat option \<Rightarrow> Writer_Buf" where
  "bufio_NewWriter r = \<lparr>bw_sent = [], bw_room = r, bw_buf = [], bw_err = False\<rparr>"

definition bw_size :: nat where "bw_size = 4096"

definition conn_Write :: "Writer_Buf \<Rightarrow> bytes \<Rightarrow> Writer_Buf \<times> nat \<times> bool" where
  "conn_Write w p =
     (let n = (case bw_room w of None \<Rightarrow> length p | Some r \<Rightarrow> min (length p) (r - length (bw_sent w)))
      in (w\<lparr>bw_sent := bw_sent w @ take n p\<rparr>, n, n = length p))"

definition bw_Flush :: "Writer_Buf \<Rightarrow> Writer_Buf \<times> bool" where
  "bw_Flush w =
     (if bw_err w then (w, False)
      else if bw_buf w = [] then (w, True)
      else case conn_Write w (bw_buf w) of
             (w', n, ok) \<Rightarrow>
               if ok then (w'\<lparr>bw_buf := []\<rparr>, True)
               else (w'\<lparr>bw_buf := drop n (bw_buf w), bw_err := True\<rparr>, False))"

function bw_Write :: "Writer_Buf \<Rightarrow> bytes \<Rightarrow> Writer_Buf \<times> bool" where
  "bw_Write w p =
     (if bw_err w then (w, False)
      else if length p \<le> bw_size - length (bw_buf w) then (w\<lparr>bw_buf := bw_buf w @ p\<rparr>, True)
      else if bw_buf w = [] then
        (case conn_Write w p of (w', n, ok) \<Rightarrow> (w'\<lparr>bw_err := \<not> ok\<rparr>, ok))
      else let n = bw_size - length (bw_buf w)
           in case bw_Flush (w\<lparr>bw_buf := bw_buf w @ take n p\<rparr>) of
                (w', ok) \<Rightarrow> if ok then bw_Write w' (drop n p) else (w', False))"
  by pat_completeness auto
termination
  by (relation "measure (\<lambda>(w, p). length (bw_buf w) + length p)")
     (auto simp: bw_Flush_def conn_Write_def length_greater_0_conv [symmetric] simp del: length_greater_0_conv
       split: if_splits prod.splits)

declare bw_Write.simps [simp del]

definition bw_WriteByte :: "Writer_Buf \<Rightarrow> byte \<Rightarrow> Writer_Buf \<times> bool" where
  "bw_WriteByte w c =
     (if bw_err w then (w, False)
      else if bw_size \<le> length (bw_buf w)
      then (case bw_Flush w of (w', ok) \<Rightarrow> if ok then (w'\<lparr>bw_buf := bw_buf w' @ [c]\<rparr>, True) else (w', False))
      else (w\<lparr>bw_buf := bw_buf w @ [c]\<rparr>, True))"

subsection \<open>Frames\<close>

definition ReadFrame :: "bytes \<Rightarrow> ((byte \<times> bytes) \<times> bytes) res" where
  "ReadFrame d =
     res_bind (ReadFull 4 d) (\<lambda>(lenBuf, d1). let len = Uint32 lenBuf in
     if len < 1 then Err ''protocol: frame too short''
     else res_bind (ReadFull (unat len) d1) (\<lambda>(frame, d2).
       Ok ((frame ! 0, drop 1 frame), d2)))"

definition WriteResponse :: "Writer_Buf \<Rightarrow> byte \<Rightarrow> bytes \<Rightarrow> Writer_Buf \<times> bool" where
  "WriteResponse w status payload =
     (let lenBuf = PutUint32 (of_nat (1 + length payload)) in
      case bw_Write w lenBuf of (w1, ok1) \<Rightarrow>
      if \<not> ok1 then (w1, False)
      else case bw_WriteByte w1 status of (w2, ok2) \<Rightarrow>
      if \<not> ok2 then (w2, False)
      else if length payload > 0
           then (case bw_Write w2 payload of (w3, ok3) \<Rightarrow> if \<not> ok3 then (w3, False) else bw_Flush w3)
           else bw_Flush w2)"

definition WriteRequest :: "Writer_Buf \<Rightarrow> byte \<Rightarrow> bytes \<Rightarrow> Writer_Buf \<times> bool" where
  "WriteRequest w cmd payload =
     (let lenBuf = PutUint32 (of_nat (1 + length payload)) in
      case bw_Write w lenBuf of (w1, ok1) \<Rightarrow>
      if \<not> ok1 then (w1, False)
      else case bw_WriteByte w1 cmd of (w2, ok2) \<Rightarrow>
      if \<not> ok2 then (w2, False)
      else if length payload > 0
           then (case bw_Write w2 payload of (w3, ok3) \<Rightarrow> if \<not> ok3 then (w3, False) else bw_Flush w3)
           else bw_Flush w2)"

definition ReadResponse :: "bytes \<Rightarrow> ((byte \<times> bytes) \<times> bytes) res" where
  "ReadResponse d =
     res_bind (ReadFull 4 d) (\<lambda>(lenBuf, d1). let len = Uint32 lenBuf in
     if len < 1 then Err ''protocol: response frame too short''
     else res_bind (ReadFull (unat len) d1) (\<lambda>(frame, d2).
       Ok ((frame ! 0, drop 1 frame), d2)))"

subsection \<open>Payloads\<close>

text \<open>The sums with a decoded length are in \<open>uint32\<close> and wrap around; those of the batch are in \<open>int\<close>.\<close>

definition EncodePut :: "bytes \<Rightarrow> bytes \<Rightarrow> bytes" where
  "EncodePut key value = PutUint32 (of_nat (length key)) @ key @ PutUint32 (of_nat (length value)) @ value"

definition DecodePut :: "bytes \<Rightarrow> (bytes \<times> bytes) res" where
  "DecodePut payload =
     (if length payload < 4 then Err ''protocol: put payload too short''
      else let keyLen = Uint32 (take 4 payload) in
      if length payload < unat (4 + keyLen + 4) then Err ''protocol: put payload too short for key''
      else res_bind (slice payload 4 (unat (4 + keyLen))) (\<lambda>key.
           res_bind (slice payload (unat (4 + keyLen)) (unat (8 + keyLen))) (\<lambda>vl. let valLen = Uint32 vl in
           if length payload < unat (8 + keyLen + valLen) then Err ''protocol: put payload too short for value''
           else res_bind (slice payload (unat (8 + keyLen)) (unat (8 + keyLen + valLen))) (\<lambda>value.
             Ok (key, value)))))"

definition EncodeKey :: "bytes \<Rightarrow> bytes" where
  "EncodeKey key = PutUint32 (of_nat (length key)) @ key"

definition DecodeKey :: "bytes \<Rightarrow> bytes res" where
  "DecodeKey payload =
     (if length payload < 4 then Err ''protocol: key payload too short''
      else let keyLen = Uint32 (take 4 payload) in
      if length payload < unat (4 + keyLen) then Err ''protocol: key payload too short for key data''
      else slice payload 4 (unat (4 + keyLen)))"

text \<open>\<open>values[i]\<close> panics when there are fewer values than keys.\<close>

definition EncodeBatchPut :: "bytes list \<Rightarrow> bytes list \<Rightarrow> bytes res" where
  "EncodeBatchPut keys values =
     (if length values < length keys then Panic
      else Ok (PutUint32 (of_nat (length keys)) @
        concat (map (\<lambda>(key, value). PutUint32 (of_nat (length key)) @ key @ PutUint32 (of_nat (length value)) @ value)
          (zip keys values))))"

fun decodeBatchFrom :: "nat \<Rightarrow> bytes \<Rightarrow> nat \<Rightarrow> bytes list \<Rightarrow> bytes list \<Rightarrow> (bytes list \<times> bytes list) res" where
  "decodeBatchFrom 0 payload off keys values = Ok (keys, values)"
| "decodeBatchFrom (Suc n) payload off keys values =
     (if off + 4 > length payload then Err ''protocol: batch payload truncated at key len''
      else res_bind (slice payload off (off + 4)) (\<lambda>kl. let keyLen = unat (Uint32 kl); off1 = off + 4 in
      if off1 + keyLen > length payload then Err ''protocol: batch payload truncated at key''
      else res_bind (slice payload off1 (off1 + keyLen)) (\<lambda>key. let off2 = off1 + keyLen in
      if off2 + 4 > length payload then Err ''protocol: batch payload truncated at val len''
      else res_bind (slice payload off2 (off2 + 4)) (\<lambda>vl. let valLen = unat (Uint32 vl); off3 = off2 + 4 in
      if off3 + valLen > length payload then Err ''protocol: batch payload truncated at val''
      else res_bind (slice payload off3 (off3 + valLen)) (\<lambda>value.
        decodeBatchFrom n payload (off3 + valLen) (keys @ [key]) (values @ [value]))))))"

definition DecodeBatchPut :: "bytes \<Rightarrow> (bytes list \<times> bytes list) res" where
  "DecodeBatchPut payload =
     (if length payload < 4 then Err ''protocol: batch payload too short''
      else decodeBatchFrom (unat (Uint32 (take 4 payload))) payload 4 [] [])"

definition EncodeRange :: "bytes \<Rightarrow> bytes \<Rightarrow> bytes" where
  "EncodeRange startKey endKey =
     PutUint32 (of_nat (length startKey)) @ startKey @ PutUint32 (of_nat (length endKey)) @ endKey"

definition DecodeRange :: "bytes \<Rightarrow> (bytes \<times> bytes) res" where
  "DecodeRange payload =
     (if length payload < 4 then Err ''protocol: range payload too short''
      else let startLen = Uint32 (take 4 payload) in
      if length payload < unat (4 + startLen + 4) then Err ''protocol: range payload too short for start key''
      else res_bind (slice payload 4 (unat (4 + startLen))) (\<lambda>startKey. let off = 4 + startLen in
           res_bind (slice payload (unat off) (unat (off + 4))) (\<lambda>el. let endLen = Uint32 el in
           if length payload < unat (off + 4 + endLen) then Err ''protocol: range payload too short for end key''
           else res_bind (slice payload (unat (off + 4)) (unat (off + 4 + endLen))) (\<lambda>endKey.
             Ok (startKey, endKey)))))"

definition EncodeValue :: "bytes \<Rightarrow> bytes" where
  "EncodeValue value = PutUint32 (of_nat (length value)) @ value"

definition DecodeValue :: "bytes \<Rightarrow> bytes res" where
  "DecodeValue payload =
     (if length payload < 4 then Err ''protocol: value payload too short''
      else let valLen = Uint32 (take 4 payload) in
      if length payload < unat (4 + valLen) then Err ''protocol: value payload too short for data''
      else slice payload 4 (unat (4 + valLen)))"

definition EncodeKVPairs :: "bytes list \<Rightarrow> bytes list \<Rightarrow> bytes res" where
  "EncodeKVPairs keys values = EncodeBatchPut keys values"

definition DecodeKVPairs :: "bytes \<Rightarrow> (bytes list \<times> bytes list) res" where
  "DecodeKVPairs payload = DecodeBatchPut payload"


subsection \<open>What a buffered writer sends\<close>

text \<open>Writing \<open>p\<close> either extends the stream of sent and buffered bytes by \<open>p\<close>, or sends a proper prefix of it
  and leaves the writer failed for good.\<close>

definition bw_adds :: "Writer_Buf \<Rightarrow> bytes \<Rightarrow> Writer_Buf \<Rightarrow> bool \<Rightarrow> bool" where
  "bw_adds w p w' ok \<longleftrightarrow> bw_room w' = bw_room w \<and> prefix (bw_sent w) (bw_sent w') \<and> (bw_room w = None \<longrightarrow> ok) \<and>
     bw_err w' = (\<not> ok) \<and>
     (if ok then bw_sent w' @ bw_buf w' = bw_sent w @ bw_buf w @ p else strict_prefix (bw_sent w') (bw_sent w @ bw_buf w @ p))"

lemma bw_adds_trans:
  assumes "bw_adds w p w1 True" "bw_adds w1 q w2 ok" shows "bw_adds w (p @ q) w2 ok"
proof -
  have eq: "bw_sent w1 @ bw_buf w1 @ q = bw_sent w @ bw_buf w @ p @ q" using assms(1) by (simp add: bw_adds_def flip: append_assoc)
  show ?thesis using assms unfolding bw_adds_def eq by (cases ok) auto
qed

lemma bw_adds_fail:
  assumes "bw_adds w p w' False" shows "bw_adds w (p @ q) w' False"
  using assms prefix_order.less_le_trans [of "bw_sent w'" "bw_sent w @ bw_buf w @ p" "bw_sent w @ bw_buf w @ p @ q"]
  by (auto simp: bw_adds_def)

lemma conn_Write_cases:
  assumes "conn_Write w p = (w', n, ok)"
  shows "w' = w\<lparr>bw_sent := bw_sent w @ take n p\<rparr>" "n \<le> length p" "ok \<longleftrightarrow> n = length p" "bw_room w = None \<Longrightarrow> ok"
  using assms by (auto simp: conn_Write_def Let_def split: option.splits)

lemma strict_prefix_take: "n < length p \<Longrightarrow> strict_prefix (xs @ take n p) (xs @ p @ q)"
  by (metis append_take_drop_id append_assoc same_append_eq drop_eq_Nil linorder_not_less prefixI strict_prefixI self_append_conv append_is_Nil_conv)

lemma bw_Flush_adds:
  assumes "bw_Flush w = (w', ok)" "\<not> bw_err w" shows "bw_adds w [] w' ok" "ok \<Longrightarrow> bw_buf w' = []"
proof -
  obtain w1 n ok1 where c: "conn_Write w (bw_buf w) = (w1, n, ok1)" by (metis prod.exhaust)
  note cw = conn_Write_cases [OF c]
  show "bw_adds w [] w' ok" "ok \<Longrightarrow> bw_buf w' = []"
    using assms c cw strict_prefix_take [of n "bw_buf w" "bw_sent w" "[]"] by (auto simp: bw_Flush_def bw_adds_def split: if_splits)
qed

lemma bw_Write_adds:
  assumes "bw_Write w p = (w', ok)" "\<not> bw_err w" shows "bw_adds w p w' ok"
  using assms
proof (induction w p arbitrary: w' ok rule: bw_Write.induct)
  case (1 w p)
  consider "length p \<le> bw_size - length (bw_buf w)" | "\<not> length p \<le> bw_size - length (bw_buf w)" "bw_buf w = []"
    | "\<not> length p \<le> bw_size - length (bw_buf w)" "bw_buf w \<noteq> []" by blast
  then show ?case
  proof cases
    case 1
    then show ?thesis using "1.prems" by (auto simp: bw_Write.simps [of w p] bw_adds_def)
  next
    case 2
    obtain w1 n ok1 where c: "conn_Write w p = (w1, n, ok1)" by (metis prod.exhaust)
    then show ?thesis using 2 "1.prems" conn_Write_cases [OF c] strict_prefix_take [of n p "bw_sent w" "[]"]
      by (auto simp: bw_Write.simps [of w p] bw_adds_def)
  next
    case 3
    let ?n = "bw_size - length (bw_buf w)"
    let ?w = "w\<lparr>bw_buf := bw_buf w @ take ?n p\<rparr>"
    obtain w1 ok1 where f: "bw_Flush ?w = (w1, ok1)" by (metis prod.exhaust)
    have a: "bw_adds w (take ?n p) w1 ok1" using bw_Flush_adds(1) [OF f] "1.prems"(2) by (cases ok1) (simp_all add: bw_adds_def)
    show ?thesis
    proof (cases ok1)
      case True
      have "bw_Write w1 (drop ?n p) = (w', ok)" using "1.prems" 3 f True by (simp add: bw_Write.simps [of w p] Let_def)
      then have "bw_adds w1 (drop ?n p) w' ok" using "1.IH" [OF "1.prems"(2) 3 refl f [symmetric]] True a by (simp add: bw_adds_def)
      then show ?thesis using bw_adds_trans [of w "take ?n p" w1 "drop ?n p" w' ok] a True by simp
    next
      case False
      then show ?thesis using "1.prems" 3 f bw_adds_fail [of w "take ?n p" w1 "drop ?n p"] a by (simp add: bw_Write.simps [of w p] Let_def)
    qed
  qed
qed

lemma bw_WriteByte_adds:
  assumes "bw_WriteByte w c = (w', ok)" "\<not> bw_err w" shows "bw_adds w [c] w' ok"
proof -
  obtain w1 ok1 where f: "bw_Flush w = (w1, ok1)" by (metis prod.exhaust)
  note fl = bw_Flush_adds [OF f assms(2)]
  show ?thesis using assms f fl bw_adds_fail [of w "[]" w1 "[c]"]
    by (cases ok1) (auto simp: bw_WriteByte_def bw_adds_def split: if_splits)
qed

text \<open>The bytes of a frame.\<close>

definition wire_frame :: "byte \<times> bytes \<Rightarrow> bytes" where
  "wire_frame f = PutUint32 (of_nat (1 + length (snd f))) @ fst f # snd f"

definition frame_ok :: "byte \<times> bytes \<Rightarrow> bool" where
  "frame_ok f \<longleftrightarrow> 1 + length (snd f) < 2 ^ 32"

definition bw_idle :: "Writer_Buf \<Rightarrow> bool" where
  "bw_idle w \<longleftrightarrow> bw_buf w = [] \<and> \<not> bw_err w"

lemma WriteResponse_adds:
  assumes "WriteResponse w s p = (w', ok)" "\<not> bw_err w"
  shows "bw_adds w (wire_frame (s, p)) w' ok" "ok \<Longrightarrow> bw_buf w' = []"
proof -
  let ?l = "PutUint32 (of_nat (1 + length p))"
  obtain w1 ok1 where 1: "bw_Write w ?l = (w1, ok1)" by (metis prod.exhaust)
  obtain w2 ok2 where 2: "bw_WriteByte w1 s = (w2, ok2)" by (metis prod.exhaust)
  obtain w3 ok3 where 3: "bw_Write w2 p = (w3, ok3)" by (metis prod.exhaust)
  note a1 = bw_Write_adds [OF 1 assms(2)]
  have "bw_adds w (wire_frame (s, p)) w' ok \<and> (ok \<longrightarrow> bw_buf w' = [])"
  proof (cases ok1)
    case False
    then show ?thesis using assms(1) 1 bw_adds_fail [of w ?l w1 "s # p"] a1 by (simp add: WriteResponse_def wire_frame_def)
  next
    case t1: True
    then have e1: "\<not> bw_err w1" using a1 by (simp add: bw_adds_def)
    have a2: "bw_adds w (?l @ [s]) w2 ok2" using bw_adds_trans [OF _ bw_WriteByte_adds [OF 2 e1]] a1 t1 by simp
    show ?thesis
    proof (cases ok2)
      case False
      then show ?thesis using assms(1) 1 2 t1 bw_adds_fail [of w "?l @ [s]" w2 p] a2 by (simp add: WriteResponse_def wire_frame_def)
    next
      case t2: True
      then have e2: "\<not> bw_err w2" using a2 by (simp add: bw_adds_def)
      have p0: "bw_Write w2 [] = (w2, True)" using e2 by (simp add: bw_Write.simps)
      have a3: "bw_adds w (wire_frame (s, p)) w3 ok3" using bw_adds_trans [OF _ bw_Write_adds [OF 3 e2]] a2 t2 by (fastforce simp: wire_frame_def)
      show ?thesis
      proof (cases ok3)
        case False
        then show ?thesis using assms(1) 1 2 3 t1 t2 p0 a3 by (cases "p = []") (auto simp: WriteResponse_def wire_frame_def)
      next
        case t3: True
        then have e3: "\<not> bw_err w3" using a3 by (simp add: bw_adds_def)
        have f: "bw_Flush w3 = (w', ok)" using assms(1) 1 2 3 t1 t2 t3 p0 by (cases "p = []") (auto simp: WriteResponse_def)
        show ?thesis using bw_adds_trans [OF _ bw_Flush_adds(1) [OF f e3]] a3 t3 bw_Flush_adds(2) [OF f e3] by fastforce
      qed
    qed
  qed
  then show "bw_adds w (wire_frame (s, p)) w' ok" "ok \<Longrightarrow> bw_buf w' = []" by simp_all
qed

lemma WriteRequest_frame: "WriteRequest w c p = WriteResponse w c p"
  by (simp add: WriteRequest_def WriteResponse_def)

subsection \<open>Frames are self-delimiting\<close>

lemma ReadFrame_frame: "frame_ok f \<Longrightarrow> ReadFrame (wire_frame f @ d) = Ok (f, d)"
proof -
  assume ok: "frame_ok f"
  have u: "unat (of_nat (Suc (length (snd f))) :: 32 word) = Suc (length (snd f))" using ok by (simp add: frame_ok_def unat_of_nat32 del: of_nat_Suc)
  then have "\<not> (of_nat (Suc (length (snd f))) :: 32 word) < 1" by (metis Suc_le_mono le0 linorder_not_less unat_1 word_less_nat_alt One_nat_def)
  then show "ReadFrame (wire_frame f @ d) = Ok (f, d)" using u
    by (simp add: ReadFrame_def wire_frame_def ReadFull_def Let_def codec del: of_nat_Suc)
qed

lemma ReadFrame_eq:
  "ReadFrame d = (let n = unat (Uint32 (take 4 d)) in
     if length d < 4 then Err ''EOF'' else if n = 0 then Err ''protocol: frame too short''
     else if length d < 4 + n then Err ''EOF'' else Ok ((d ! 4, take (n - 1) (drop 5 d)), drop (4 + n) d))"
proof -
  have z: "Uint32 (take 4 d) < 1 \<longleftrightarrow> unat (Uint32 (take 4 d)) = 0" by (simp add: word_less_nat_alt)
  show ?thesis
    by (auto simp: ReadFrame_def ReadFull_def Let_def z drop_take add.commute unat_gt_0)
qed

lemma ReadFrame_mono: "ReadFrame d = Ok (f, rest) \<Longrightarrow> ReadFrame (d @ q) = Ok (f, rest @ q)"
  by (auto simp: ReadFrame_eq Let_def nth_append split: if_splits)

lemma ReadFrame_shrinks: "ReadFrame d = Ok (f, rest) \<Longrightarrow> length rest < length d"
  by (auto simp: ReadFrame_eq Let_def split: if_splits)

lemma ReadFrame_short_mono: "ReadFrame d = Err e \<Longrightarrow> e \<noteq> ''EOF'' \<Longrightarrow> ReadFrame (d @ q) = Err e"
  by (auto simp: ReadFrame_eq Let_def split: if_splits)

lemma ReadFrame_no_Panic: "ReadFrame d \<noteq> Panic"
  by (simp add: ReadFrame_eq Let_def)

lemma ReadResponse_ReadFrame:
  "ReadResponse d = (case ReadFrame d of Ok x \<Rightarrow> Ok x | Panic \<Rightarrow> Panic
     | Err e \<Rightarrow> Err (if e = ''EOF'' then e else ''protocol: response frame too short''))"
  by (auto simp: ReadFrame_def ReadResponse_def ReadFull_def Let_def)

lemma ReadFrame_Nil: "ReadFrame [] = Err ''EOF''"
  by (simp add: ReadFrame_def ReadFull_def)

interpretation req: framed wire_frame ReadFrame frame_ok
  by unfold_locales (auto simp: ReadFrame_frame ReadFrame_Nil intro: ReadFrame_mono)

interpretation rsp: framed wire_frame ReadResponse frame_ok
  by unfold_locales (auto simp: ReadResponse_ReadFrame ReadFrame_frame ReadFrame_Nil ReadFrame_mono split: res.splits)

subsection \<open>Payload codecs\<close>

text \<open>\<open>DecodeKey\<close> and \<open>DecodeValue\<close>, and \<open>DecodePut\<close> and \<open>DecodeRange\<close>, differ in their messages only.\<close>

definition decodeOne :: "string \<Rightarrow> string \<Rightarrow> bytes \<Rightarrow> bytes res" where
  "decodeOne e1 e2 p =
     (if length p < 4 then Err e1
      else if length p < unat (4 + Uint32 (take 4 p)) then Err e2 else slice p 4 (unat (4 + Uint32 (take 4 p))))"

definition decodePair :: "string \<Rightarrow> string \<Rightarrow> string \<Rightarrow> bytes \<Rightarrow> (bytes \<times> bytes) res" where
  "decodePair e1 e2 e3 p =
     (if length p < 4 then Err e1
      else let a = Uint32 (take 4 p) in
      if length p < unat (8 + a) then Err e2
      else res_bind (slice p 4 (unat (4 + a))) (\<lambda>k.
           res_bind (slice p (unat (4 + a)) (unat (8 + a))) (\<lambda>l. let b = Uint32 l in
           if length p < unat (8 + a + b) then Err e3
           else res_bind (slice p (unat (8 + a)) (unat (8 + a + b))) (\<lambda>v. Ok (k, v)))))"

lemmas decodeOne_uses = DecodeKey_def [unfolded Let_def, folded decodeOne_def] DecodeValue_def [unfolded Let_def, folded decodeOne_def]

lemma decodePair_uses:
  "DecodePut p = decodePair ''protocol: put payload too short'' ''protocol: put payload too short for key'' ''protocol: put payload too short for value'' p"
  "DecodeRange p = decodePair ''protocol: range payload too short'' ''protocol: range payload too short for start key'' ''protocol: range payload too short for end key'' p"
proof -
  have w: "4 + a + 4 = 8 + a" for a :: "32 word" by simp
  show "DecodePut p = decodePair ''protocol: put payload too short'' ''protocol: put payload too short for key'' ''protocol: put payload too short for value'' p"
    "DecodeRange p = decodePair ''protocol: range payload too short'' ''protocol: range payload too short for start key'' ''protocol: range payload too short for end key'' p"
    by (simp_all only: DecodePut_def DecodeRange_def decodePair_def Let_def w)
qed

definition lenpref :: "bytes \<Rightarrow> bytes" where
  "lenpref b = PutUint32 (of_nat (length b)) @ b"

lemma encode_lenpref:
  "EncodeKey k = lenpref k" "EncodeValue k = lenpref k" "EncodePut k v = lenpref k @ lenpref v" "EncodeRange k v = lenpref k @ lenpref v"
  by (simp_all add: EncodeKey_def EncodeValue_def EncodePut_def EncodeRange_def lenpref_def)

lemma length_lenpref [simp]: "length (lenpref b) = 4 + length b"
  by (simp add: lenpref_def)

lemma take_lenpref [simp]: "take 4 (lenpref b @ c) = PutUint32 (of_nat (length b))" "take 4 (lenpref b) = PutUint32 (of_nat (length b))"
  by (simp_all add: lenpref_def)

lemma decodeOne_lenpref:
  assumes "4 + length b < 2 ^ 32" shows "decodeOne e1 e2 (lenpref b) = Ok b"
proof -
  have "unat (4 + of_nat (length b) :: 32 word) = 4 + length b" using assms by (simp add: unat_add32 unat_of_nat32)
  then show ?thesis using slice_at [of "PutUint32 (of_nat (length b))" 4 b "4 + length b" "[]"]
    by (simp add: decodeOne_def codec) (simp add: lenpref_def)
qed

lemma decodePair_lenpref:
  assumes "8 + length k + length v < 2 ^ 32" shows "decodePair e1 e2 e3 (lenpref k @ lenpref v) = Ok (k, v)"
proof -
  let ?kl = "PutUint32 (of_nat (length k))" and ?vl = "PutUint32 (of_nat (length v))"
  have l: "unat (of_nat (length k) :: 32 word) = length k" "unat (of_nat (length v) :: 32 word) = length v"
    using assms by (simp_all add: unat_of_nat32)
  have u: "unat (4 + of_nat (length k) :: 32 word) = 4 + length k" "unat (8 + of_nat (length k) :: 32 word) = 8 + length k"
    "unat (8 + of_nat (length k) + of_nat (length v) :: 32 word) = 8 + length k + length v"
    using assms l by (simp_all add: unat_add32)
  have "slice (lenpref k @ lenpref v) 4 (4 + length k) = Ok k" using slice_at [of ?kl 4 k _ "?vl @ v"] by (simp add: lenpref_def)
  moreover have "slice (lenpref k @ lenpref v) (4 + length k) (8 + length k) = Ok ?vl" using slice_at [of "?kl @ k" _ ?vl _ v] by (simp add: lenpref_def)
  moreover have "slice (lenpref k @ lenpref v) (8 + length k) (8 + length k + length v) = Ok v"
    using slice_at [of "?kl @ k @ ?vl" _ v _ "[]"] by (simp add: lenpref_def)
  ultimately show ?thesis by (simp add: decodePair_def Let_def u codec)
qed

lemma decodeBatchFrom_enc:
  "list_all (\<lambda>(k, v). length k < 2 ^ 32 \<and> length v < 2 ^ 32) kvs \<Longrightarrow>
    decodeBatchFrom (length kvs) (pre @ concat (map (\<lambda>(k, v). lenpref k @ lenpref v) kvs)) (length pre) ks vs = Ok (ks @ map fst kvs, vs @ map snd kvs)"
proof (induction kvs arbitrary: pre ks vs)
  case (Cons kv kvs)
  obtain k v where kv: "kv = (k, v)" by (cases kv)
  let ?kl = "PutUint32 (of_nat (length k))" and ?vl = "PutUint32 (of_nat (length v))"
  let ?rest = "concat (map (\<lambda>(k, v). lenpref k @ lenpref v) kvs)"
  let ?d = "pre @ lenpref k @ lenpref v @ ?rest"
  have l: "unat (of_nat (length k) :: 32 word) = length k" "unat (of_nat (length v) :: 32 word) = length v"
    using Cons.prems kv by (simp_all add: unat_of_nat32)
  have "slice ?d (length pre) (length pre + 4) = Ok ?kl" using slice_at [of pre _ ?kl] by (simp add: lenpref_def)
  moreover have "slice ?d (length pre + 4) (length pre + 4 + length k) = Ok k" using slice_at [of "pre @ ?kl" _ k] by (simp add: lenpref_def)
  moreover have "slice ?d (length pre + 4 + length k) (length pre + 4 + length k + 4) = Ok ?vl"
    using slice_at [of "pre @ ?kl @ k" _ ?vl] by (simp add: lenpref_def)
  moreover have "slice ?d (length pre + 4 + length k + 4) (length pre + 4 + length k + 4 + length v) = Ok v"
    using slice_at [of "pre @ ?kl @ k @ ?vl" _ v] by (simp add: lenpref_def)
  moreover have "decodeBatchFrom (length kvs) ?d (length pre + 4 + length k + 4 + length v) (ks @ [k]) (vs @ [v]) = Ok (ks @ k # map fst kvs, vs @ v # map snd kvs)"
    using Cons.IH [of "pre @ lenpref k @ lenpref v" "ks @ [k]" "vs @ [v]"] Cons.prems by (simp add: add.assoc)
  ultimately show ?case by (simp add: kv l Let_def codec)
qed simp

lemma DecodeBatchPut_Encode:
  assumes "length keys = length vs" "length keys < 2 ^ 32" "\<forall>b\<in>set (keys @ vs). length b < 2 ^ 32"
  shows "res_bind (EncodeBatchPut keys vs) DecodeBatchPut = Ok (keys, vs)"
proof -
  let ?c = "PutUint32 (of_nat (length keys))" and ?r = "concat (map (\<lambda>(k, v). lenpref k @ lenpref v) (zip keys vs))"
  have "list_all (\<lambda>(k, v). length k < 2 ^ 32 \<and> length v < 2 ^ 32) (zip keys vs)"
    using assms(3) by (auto simp: list_all_iff dest: set_zip_leftD set_zip_rightD)
  from decodeBatchFrom_enc [OF this, of ?c] have "decodeBatchFrom (length keys) (?c @ ?r) 4 [] [] = Ok (keys, vs)" using assms(1) by simp
  moreover have "EncodeBatchPut keys vs = Ok (?c @ ?r)" using assms(1) by (simp add: EncodeBatchPut_def lenpref_def)
  ultimately show ?thesis using assms(2) by (simp add: DecodeBatchPut_def unat_of_nat32 codec)
qed

subsection \<open>Malformed payloads\<close>

lemma unat_add32_mod: "unat (a + b :: 32 word) = (unat a + unat b) mod 2 ^ 32"
  by (simp add: unat_word_ariths)

lemma decodeOne_Panic:
  "decodeOne e1 e2 p = Panic \<longleftrightarrow> 4 \<le> length p \<and> 2 ^ 32 - 4 \<le> unat (Uint32 (take 4 p))"
proof -
  have "unat (Uint32 (take 4 p)) < 2 ^ 32" using unsigned_less [of "Uint32 (take 4 p)"] by simp
  then show ?thesis unfolding decodeOne_def
    by (auto simp: unat_add32_mod slice_def not_less mod_if)
qed

lemma decodePair_Panic:
  assumes "length p < 2 ^ 32 - 4"
  shows "decodePair e1 e2 e3 p = Panic \<longleftrightarrow> 4 \<le> length p \<and> (let a = unat (Uint32 (take 4 p)) in
    2 ^ 32 \<le> 8 + a \<and> 8 + a - 2 ^ 32 \<le> length p \<or>
    8 + a \<le> length p \<and> 2 ^ 32 \<le> 8 + a + unat (Uint32 (take 4 (drop (4 + a) p))))"
proof (cases "length p < 4")
  case True
  then show ?thesis by (simp add: decodePair_def)
next
  case False
  let ?w = "Uint32 (take 4 p)" and ?l = "Uint32 (take 4 (drop (4 + unat (Uint32 (take 4 p))) p))"
  have b: "unat ?w < 2 ^ 32" "unat ?l < 2 ^ 32" using unsigned_less [of ?w] unsigned_less [of ?l] by simp_all
  consider "2 ^ 32 \<le> 8 + unat ?w" | "8 + unat ?w < 2 ^ 32" "length p < 8 + unat ?w" | "8 + unat ?w \<le> length p" by linarith
  then show ?thesis
  proof cases
    case 1
    then have m: "unat (8 + ?w) = 8 + unat ?w - 2 ^ 32" using b by (simp add: unat_add32_mod mod_if)
    have "unat (4 + ?w) < 4 \<or> length p < unat (4 + ?w)" using 1 b(1) assms by (simp add: unat_add32_mod mod_if) linarith
    then have "slice p 4 (unat (4 + ?w)) = Panic" by (auto simp: slice_Panic_iff)
    then show ?thesis using 1 m False by (simp add: decodePair_def Let_def not_less) linarith
  next
    case 2
    then show ?thesis using False by (simp add: decodePair_def Let_def unat_add32)
  next
    case 3
    then have u: "unat (4 + ?w) = 4 + unat ?w" "unat (8 + ?w) = 8 + unat ?w" using assms by (simp_all add: unat_add32)
    have v: "unat (8 + ?w + ?l) = (8 + unat ?w + unat ?l) mod 2 ^ 32" unfolding unat_add32_mod [of "8 + ?w"] u ..
    have s: "slice p 4 (4 + unat ?w) = Ok (take (unat ?w) (drop 4 p))" "slice p (4 + unat ?w) (8 + unat ?w) = Ok (take 4 (drop (4 + unat ?w) p))"
      using 3 by (simp_all add: slice_def)
    show ?thesis
    proof (cases "2 ^ 32 \<le> 8 + unat ?w + unat ?l")
      case True
      then have "unat (8 + ?w + ?l) = 8 + unat ?w + unat ?l - 2 ^ 32" using b 3 assms unfolding v by (simp add: mod_if)
      then have "unat (8 + ?w + ?l) < 8 + unat ?w" using b by linarith
      then show ?thesis using False 3 True u s by (simp add: decodePair_def Let_def slice_def)
    next
      case no: False
      then have "unat (8 + ?w + ?l) = 8 + unat ?w + unat ?l" unfolding v by simp
      then show ?thesis using False 3 no u s by (simp add: decodePair_def Let_def slice_def)
    qed
  qed
qed

lemma decodeBatchFrom_no_Panic: "decodeBatchFrom n p off ks vs \<noteq> Panic"
  by (induction n arbitrary: off ks vs) (auto simp: Let_def slice_Ok)

lemma decodeBatchFrom_lengths:
  "decodeBatchFrom n p off ks vs = Ok (ks', vs') \<Longrightarrow> length ks' = length ks + n \<and> length vs' = length vs + n"
  by (induction n arbitrary: off ks vs) (fastforce simp: Let_def slice_Ok split: if_splits)+

lemma DecodeBatchPut_lengths: "DecodeBatchPut p = Ok (ks, vs) \<Longrightarrow> length ks = length vs"
  by (auto simp: DecodeBatchPut_def split: if_splits dest: decodeBatchFrom_lengths)

subsection \<open>Properties\<close>

text \<open>C22. The payloads of the protocol survive encoding and frames survive the wire: for keys and values within the
  length fields every decoder returns what its encoder was given, and a frame that was written in full
  is read back with exactly the bytes behind it left over.\<close>

theorem protocol_roundtrip:
  assumes "8 + length k + length v < 2 ^ 32" "length keys = length vs" "length keys < 2 ^ 32" "\<forall>b\<in>set (keys @ vs). length b < 2 ^ 32"
    and "bw_idle w" "1 + length payload < 2 ^ 32" "WriteRequest w c payload = (w', True)" "bw_sent w' = bw_sent w @ d"
  shows "DecodePut (EncodePut k v) = Ok (k, v) \<and> DecodeRange (EncodeRange k v) = Ok (k, v) \<and> DecodeKey (EncodeKey k) = Ok k \<and>
    DecodeValue (EncodeValue v) = Ok v \<and> res_bind (EncodeKVPairs keys vs) DecodeKVPairs = Ok (keys, vs) \<and>
    ReadFrame (d @ rest) = Ok ((c, payload), rest) \<and> ReadResponse (d @ rest) = Ok ((c, payload), rest) \<and> bw_idle w'"
proof -
  have ok: "frame_ok (c, payload)" using assms(6) by (simp add: frame_ok_def)
  note ad = WriteResponse_adds [OF assms(7) [unfolded WriteRequest_frame]]
  have w: "\<not> bw_err w" "bw_buf w = []" using assms(5) by (simp_all add: bw_idle_def)
  have "bw_sent w' = bw_sent w @ wire_frame (c, payload)" "bw_idle w'" using ad [OF w(1)] w(2) by (simp_all add: bw_adds_def bw_idle_def)
  then have d: "d = wire_frame (c, payload)" and i: "bw_idle w'" using assms(8) by simp_all
  have "DecodePut (EncodePut k v) = Ok (k, v)" "DecodeRange (EncodeRange k v) = Ok (k, v)"
    using decodePair_lenpref [OF assms(1)] by (simp_all add: decodePair_uses encode_lenpref)
  moreover have "DecodeKey (EncodeKey k) = Ok k" "DecodeValue (EncodeValue v) = Ok v"
    using assms(1) by (simp_all add: decodeOne_uses encode_lenpref decodeOne_lenpref)
  moreover have "EncodeKVPairs keys vs = EncodeBatchPut keys vs" "DecodeKVPairs = DecodeBatchPut" by (simp_all add: EncodeKVPairs_def DecodeKVPairs_def fun_eq_iff)
  ultimately show ?thesis using DecodeBatchPut_Encode [OF assms(2-4)] req.dec_enc [OF ok, of rest] rsp.dec_enc [OF ok, of rest] i d by simp
qed

theorem protocol_roundtrip_witness:
  "DecodePut (EncodePut [1] [2]) = Ok ([1], [2]) \<and> ReadFrame ([3, 0, 0, 0, CmdGet, 8, 9] @ [7]) = Ok ((CmdGet, [8, 9]), [7])"
proof -
  have "WriteRequest (bufio_NewWriter None) CmdGet [8, 9] = (\<lparr>bw_sent = [3, 0, 0, 0, CmdGet, 8, 9], bw_room = None, bw_buf = [], bw_err = False\<rparr>, True)"
    by (simp add: WriteRequest_def bufio_NewWriter_def bw_Write.simps bw_WriteByte_def bw_Flush_def conn_Write_def bw_size_def PutUint32_def Let_def)
  from protocol_roundtrip [OF _ _ _ _ _ _ this, of "[1]" "[2]" "[]" "[]" "[3, 0, 0, 0, CmdGet, 8, 9]" "[7]"] show ?thesis
    by (simp add: bufio_NewWriter_def bw_idle_def)
qed

text \<open>C21. Which payloads crash the server. The batch decoder rejects every malformed payload; the others
  check a length computed in 32 bits, and panic exactly when that length wraps around, as for the
  four bytes \<open>FC FF FF FF\<close> of a get.\<close>

theorem protocol_decode_panics:
  assumes "length p < 2 ^ 32 - 4"
  shows "(DecodeKey p = Panic \<longleftrightarrow> 4 \<le> length p \<and> 2 ^ 32 - 4 \<le> unat (Uint32 (take 4 p))) \<and>
    (DecodeValue p = Panic \<longleftrightarrow> DecodeKey p = Panic) \<and>
    (DecodePut p = Panic \<longleftrightarrow> 4 \<le> length p \<and> (let a = unat (Uint32 (take 4 p)) in
       2 ^ 32 \<le> 8 + a \<and> 8 + a - 2 ^ 32 \<le> length p \<or>
       8 + a \<le> length p \<and> 2 ^ 32 \<le> 8 + a + unat (Uint32 (take 4 (drop (4 + a) p))))) \<and>
    (DecodeRange p = Panic \<longleftrightarrow> DecodePut p = Panic) \<and> DecodeBatchPut p \<noteq> Panic"
  using decodePair_Panic [OF assms] by (simp add: decodeOne_uses decodePair_uses decodeOne_Panic DecodeBatchPut_def decodeBatchFrom_no_Panic)

theorem protocol_decode_panics_witness:
  "DecodeKey [252, 255, 255, 255] = Panic \<and> DecodeBatchPut [252, 255, 255, 255] \<noteq> Panic"
  using protocol_decode_panics [of "[252, 255, 255, 255]"] by (simp add: Uint32_def)

end
