(* ===== verification/Tcp_Server.thy ===== *)
theory Tcp_Server
  imports Protocol Engine_Steps
begin

text \<open>
  The TCP server (\<open>server/tcp.go\<close>): the handlers of the five commands, the loop of a connection and the
  life cycle of the listener. A handler works on the shared engine and on the connection's buffered
  writer, and ignores the errors of the latter; a panic in any of them ends the process. \<open>Panic\<close> also stands for a
  range scan that does not come back.
\<close>

subsection \<open>Handlers\<close>

definition handlePut :: "write_env \<Rightarrow> Engine \<Rightarrow> Writer_Buf \<Rightarrow> bytes \<Rightarrow> (Engine \<times> Writer_Buf) res" where
  "handlePut io e w payload =
     (case DecodePut payload of
        Panic \<Rightarrow> Panic
      | Err err \<Rightarrow> Ok (e, fst (WriteResponse w StatusError (str_bytes err)))
      | Ok (k, v) \<Rightarrow>
          (case Engine_Put io e k (Some v) of
             (e', Panic) \<Rightarrow> Panic
           | (e', Err err) \<Rightarrow> Ok (e', fst (WriteResponse w StatusError (str_bytes err)))
           | (e', Ok _) \<Rightarrow> Ok (e', fst (WriteResponse w StatusOK []))))"

definition handleGet :: "Engine \<Rightarrow> Writer_Buf \<Rightarrow> bytes \<Rightarrow> (Engine \<times> Writer_Buf) res" where
  "handleGet e w payload =
     (case DecodeKey payload of
        Panic \<Rightarrow> Panic
      | Err err \<Rightarrow> Ok (e, fst (WriteResponse w StatusError (str_bytes err)))
      | Ok k \<Rightarrow>
          (case Engine_Get e k of
             Panic \<Rightarrow> Panic
           | Err err \<Rightarrow>
               if err = ErrNotFound then Ok (e, fst (WriteResponse w StatusNotFound []))
               else Ok (e, fst (WriteResponse w StatusError (str_bytes err)))
           | Ok value \<Rightarrow> Ok (e, fst (WriteResponse w StatusOK (EncodeValue (val_bytes value))))))"

definition handleDelete :: "write_env \<Rightarrow> Engine \<Rightarrow> Writer_Buf \<Rightarrow> bytes \<Rightarrow> (Engine \<times> Writer_Buf) res" where
  "handleDelete io e w payload =
     (case DecodeKey payload of
        Panic \<Rightarrow> Panic
      | Err err \<Rightarrow> Ok (e, fst (WriteResponse w StatusError (str_bytes err)))
      | Ok k \<Rightarrow>
          (case Engine_Delete io e k of
             (e', Panic) \<Rightarrow> Panic
           | (e', Err err) \<Rightarrow> Ok (e', fst (WriteResponse w StatusError (str_bytes err)))
           | (e', Ok _) \<Rightarrow> Ok (e', fst (WriteResponse w StatusOK []))))"

text \<open>The decoded values are slices of the payload: empty ones, but never nil.\<close>

definition handleBatchPut :: "write_env \<Rightarrow> Engine \<Rightarrow> Writer_Buf \<Rightarrow> bytes \<Rightarrow> (Engine \<times> Writer_Buf) res" where
  "handleBatchPut io e w payload =
     (case DecodeBatchPut payload of
        Panic \<Rightarrow> Panic
      | Err err \<Rightarrow> Ok (e, fst (WriteResponse w StatusError (str_bytes err)))
      | Ok (keys, values) \<Rightarrow>
          (case Engine_BatchPut io e keys (map Some values) of
             (e', Panic) \<Rightarrow> Panic
           | (e', Err err) \<Rightarrow> Ok (e', fst (WriteResponse w StatusError (str_bytes err)))
           | (e', Ok _) \<Rightarrow> Ok (e', fst (WriteResponse w StatusOK []))))"

definition handleGetRange :: "Engine \<Rightarrow> Writer_Buf \<Rightarrow> bytes \<Rightarrow> (Engine \<times> Writer_Buf) res" where
  "handleGetRange e w payload =
     (case DecodeRange payload of
        Panic \<Rightarrow> Panic
      | Err err \<Rightarrow> Ok (e, fst (WriteResponse w StatusError (str_bytes err)))
      | Ok (startKey, endKey) \<Rightarrow>
          (case ReadRange e startKey endKey of
             None \<Rightarrow> Panic
           | Some pairs \<Rightarrow>
               res_bind (EncodeKVPairs (map kv_Key pairs) (map (\<lambda>p. val_bytes (kv_Value p)) pairs)) (\<lambda>payload'.
                 Ok (e, fst (WriteResponse w StatusOK payload')))))"

text \<open>The \<open>switch\<close> of the connection loop.\<close>

definition dispatch :: "write_env \<Rightarrow> Engine \<Rightarrow> Writer_Buf \<Rightarrow> byte \<Rightarrow> bytes \<Rightarrow> (Engine \<times> Writer_Buf) res" where
  "dispatch io e w cmd payload =
     (if cmd = CmdPut then handlePut io e w payload
      else if cmd = CmdGet then handleGet e w payload
      else if cmd = CmdDelete then handleDelete io e w payload
      else if cmd = CmdBatchPut then handleBatchPut io e w payload
      else if cmd = CmdGetRange then handleGetRange e w payload
      else Ok (e, fst (WriteResponse w StatusError (str_bytes ''unknown command''))))"

subsection \<open>A connection\<close>

text \<open>\<open>ss_in\<close> are the bytes that have arrived and are not read, \<open>ss_eof\<close> that the peer has closed its side, \<open>ss_iter\<close> the
  number of iterations done and \<open>ss_done\<close> that the loop has returned. The environment says at which
  iterations \<open>closeCh\<close> is found closed, and what the file system does for each write.\<close>

record Session =
  ss_in :: bytes
  ss_eof :: bool
  ss_w :: Writer_Buf
  ss_iter :: nat
  ss_done :: bool

record conn_env =
  ce_closed :: "nat \<Rightarrow> bool"
  ce_write :: "nat \<Rightarrow> write_env"

definition new_session :: "nat option \<Rightarrow> Session" where
  "new_session r = \<lparr>ss_in = [], ss_eof = False, ss_w = bufio_NewWriter r, ss_iter = 0, ss_done = False\<rparr>"

text \<open>The loop, as far as the bytes that have arrived let it run: it handles every complete frame, and
  returns, or waits for more. Every error of \<open>ReadFrame\<close> makes it return; running out of bytes is an error
  only once the peer has closed.\<close>

function handleConn :: "conn_env \<Rightarrow> Engine \<Rightarrow> Session \<Rightarrow> (Engine \<times> Session) res" where
  "handleConn env e s =
     (if ss_done s then Ok (e, s)
      else if ce_closed env (ss_iter s) then Ok (e, s\<lparr>ss_done := True\<rparr>)
      else (case ReadFrame (ss_in s) of
              Panic \<Rightarrow> Panic
            | Err err \<Rightarrow> Ok (e, if err = ''EOF'' \<and> \<not> ss_eof s then s else s\<lparr>ss_done := True\<rparr>)
            | Ok ((cmd, payload), rest) \<Rightarrow>
                (case dispatch (ce_write env (ss_iter s)) e (ss_w s) cmd payload of
                   Panic \<Rightarrow> Panic
                 | Err err \<Rightarrow> Err err
                 | Ok (e', w') \<Rightarrow> handleConn env e' (s\<lparr>ss_in := rest, ss_w := w', ss_iter := Suc (ss_iter s)\<rparr>))))"
  by pat_completeness auto
termination
  by (relation "measure (\<lambda>(env, e, s). length (ss_in s))") (auto dest: ReadFrame_shrinks)

declare handleConn.simps [simp del]

definition feed :: "Session \<Rightarrow> bytes \<Rightarrow> Session" where
  "feed s d = s\<lparr>ss_in := ss_in s @ d\<rparr>"

subsection \<open>The listener\<close>

record TCPServer =
  ts_addr :: string
  ts_listener :: "string option"
  ts_closeCh :: bool
  ts_sessions :: "Session list"
  ts_accepting :: bool

definition NewTCPServer :: "string \<Rightarrow> TCPServer" where
  "NewTCPServer addr = \<lparr>ts_addr = addr, ts_listener = None, ts_closeCh = False, ts_sessions = [], ts_accepting = False\<rparr>"

text \<open>\<open>ln\<close> is the address \<open>net.Listen\<close> bound, or \<open>None\<close> when it failed.\<close>

definition TCPServer_Start :: "string option \<Rightarrow> TCPServer \<Rightarrow> TCPServer \<times> bool" where
  "TCPServer_Start ln s =
     (case ln of None \<Rightarrow> (s, False) | Some a \<Rightarrow> (s\<lparr>ts_listener := Some a, ts_accepting := True\<rparr>, True))"

definition TCPServer_Addr :: "TCPServer \<Rightarrow> string" where
  "TCPServer_Addr s = (case ts_listener s of None \<Rightarrow> ts_addr s | Some a \<Rightarrow> a)"

text \<open>The accept loop over what \<open>Accept\<close> returns, in turn: a connection, or an error.\<close>

fun acceptLoop :: "TCPServer \<Rightarrow> nat option option list \<Rightarrow> TCPServer" where
  "acceptLoop s [] = s"
| "acceptLoop s (None # as) = (if ts_closeCh s then s\<lparr>ts_accepting := False\<rparr> else acceptLoop s as)"
| "acceptLoop s (Some r # as) = acceptLoop (s\<lparr>ts_sessions := ts_sessions s @ [new_session r]\<rparr>) as"

text \<open>\<open>Stop\<close> up to \<open>wg.Wait\<close>, which returns once the accept loop and every connection have: \<open>Panic\<close> for closing \<open>closeCh\<close>
  again or for a listener that was never opened.\<close>

definition TCPServer_Stop :: "TCPServer \<Rightarrow> TCPServer res" where
  "TCPServer_Stop s =
     (if ts_closeCh s then Panic
      else if ts_listener s = None then Panic
      else Ok (s\<lparr>ts_closeCh := True\<rparr>))"

definition wg_done :: "TCPServer \<Rightarrow> bool" where
  "wg_done s \<longleftrightarrow> \<not> ts_accepting s \<and> list_all ss_done (ts_sessions s)"

subsection \<open>Responses\<close>

text \<open>What a handler answers, apart from the writing of it.\<close>

definition failed :: "Engine \<Rightarrow> string \<Rightarrow> Engine \<times> byte \<times> bytes" where
  "failed e m = (e, StatusError, str_bytes m)"

definition write_answer :: "Engine \<times> unit res \<Rightarrow> (Engine \<times> byte \<times> bytes) res" where
  "write_answer x = (case x of (e', Panic) \<Rightarrow> Panic | (e', Err m) \<Rightarrow> Ok (failed e' m) | (e', Ok _) \<Rightarrow> Ok (e', StatusOK, []))"

definition decoded :: "Engine \<Rightarrow> 'a res \<Rightarrow> ('a \<Rightarrow> (Engine \<times> byte \<times> bytes) res) \<Rightarrow> (Engine \<times> byte \<times> bytes) res" where
  "decoded e r f = (case r of Panic \<Rightarrow> Panic | Err m \<Rightarrow> Ok (failed e m) | Ok x \<Rightarrow> f x)"

definition get_answer :: "Engine \<Rightarrow> bytes \<Rightarrow> (Engine \<times> byte \<times> bytes) res" where
  "get_answer e k = (case Engine_Get e k of Panic \<Rightarrow> Panic
     | Err m \<Rightarrow> Ok (if m = ErrNotFound then (e, StatusNotFound, []) else failed e m)
     | Ok v \<Rightarrow> Ok (e, StatusOK, EncodeValue (val_bytes v)))"

definition pairs_bytes :: "KVPair list \<Rightarrow> bytes" where
  "pairs_bytes ps = PutUint32 (of_nat (length ps)) @ concat (map (\<lambda>p. lenpref (kv_Key p) @ lenpref (val_bytes (kv_Value p))) ps)"

definition range_answer :: "Engine \<Rightarrow> bytes \<Rightarrow> bytes \<Rightarrow> (Engine \<times> byte \<times> bytes) res" where
  "range_answer e lo hi = (case ReadRange e lo hi of None \<Rightarrow> Panic | Some ps \<Rightarrow> Ok (e, StatusOK, pairs_bytes ps))"

definition respond :: "write_env \<Rightarrow> Engine \<Rightarrow> byte \<times> bytes \<Rightarrow> (Engine \<times> byte \<times> bytes) res" where
  "respond io e f = (let cmd = fst f; p = snd f in
     if cmd = CmdPut then decoded e (DecodePut p) (\<lambda>(k, v). write_answer (Engine_Put io e k (Some v)))
     else if cmd = CmdGet then decoded e (DecodeKey p) (get_answer e)
     else if cmd = CmdDelete then decoded e (DecodeKey p) (\<lambda>k. write_answer (Engine_Delete io e k))
     else if cmd = CmdBatchPut then decoded e (DecodeBatchPut p) (\<lambda>(ks, vs). write_answer (Engine_BatchPut io e ks (map Some vs)))
     else if cmd = CmdGetRange then decoded e (DecodeRange p) (\<lambda>(lo, hi). range_answer e lo hi)
     else Ok (failed e ''unknown command''))"

lemma EncodeKVPairs_pairs: "EncodeKVPairs (map kv_Key ps) (map (\<lambda>p. val_bytes (kv_Value p)) ps) = Ok (pairs_bytes ps)"
  by (simp add: EncodeKVPairs_def EncodeBatchPut_def pairs_bytes_def lenpref_def zip_map_map comp_def zip_same_conv_map)

lemma dispatch_respond:
  "dispatch io e w cmd p = res_bind (respond io e (cmd, p)) (\<lambda>(e', st, b). Ok (e', fst (WriteResponse w st b)))"
proof -
  have "handlePut io e w p = res_bind (decoded e (DecodePut p) (\<lambda>(k, v). write_answer (Engine_Put io e k (Some v)))) (\<lambda>(e', st, b). Ok (e', fst (WriteResponse w st b)))"
    by (simp add: handlePut_def decoded_def write_answer_def failed_def split: res.splits prod.splits)
  moreover have "handleGet e w p = res_bind (decoded e (DecodeKey p) (get_answer e)) (\<lambda>(e', st, b). Ok (e', fst (WriteResponse w st b)))"
    by (simp add: handleGet_def decoded_def get_answer_def failed_def split: res.splits)
  moreover have "handleDelete io e w p = res_bind (decoded e (DecodeKey p) (\<lambda>k. write_answer (Engine_Delete io e k))) (\<lambda>(e', st, b). Ok (e', fst (WriteResponse w st b)))"
    by (simp add: handleDelete_def decoded_def write_answer_def failed_def split: res.splits prod.splits)
  moreover have "handleBatchPut io e w p = res_bind (decoded e (DecodeBatchPut p) (\<lambda>(ks, vs). write_answer (Engine_BatchPut io e ks (map Some vs)))) (\<lambda>(e', st, b). Ok (e', fst (WriteResponse w st b)))"
    by (simp add: handleBatchPut_def decoded_def write_answer_def failed_def split: res.splits prod.splits)
  moreover have "handleGetRange e w p = res_bind (decoded e (DecodeRange p) (\<lambda>(lo, hi). range_answer e lo hi)) (\<lambda>(e', st, b). Ok (e', fst (WriteResponse w st b)))"
    by (simp add: handleGetRange_def decoded_def range_answer_def failed_def EncodeKVPairs_pairs split: res.splits option.splits prod.splits)
  ultimately show ?thesis by (simp add: dispatch_def respond_def failed_def Let_def)
qed

subsection \<open>Segmentation\<close>

lemma feed_simps [simp]:
  "ss_in (feed s d) = ss_in s @ d" "ss_eof (feed s d) = ss_eof s" "ss_w (feed s d) = ss_w s" "ss_iter (feed s d) = ss_iter s"
  "ss_done (feed s d) = ss_done s" "feed (feed s a) b = feed s (a @ b)"
  by (simp_all add: feed_def)

lemma handleConn_done [simp]: "ss_done s \<Longrightarrow> handleConn env e s = Ok (e, s)"
  by (simp add: handleConn.simps)

lemma handleConn_closed: "ce_closed env (ss_iter s) \<Longrightarrow> handleConn env e s = Ok (e, s\<lparr>ss_done := True\<rparr>)"
  by (cases "ss_done s") (simp_all add: handleConn.simps)

lemma handleConn_short:
  "ReadFrame (ss_in s) = Err m \<Longrightarrow> m \<noteq> ''EOF'' \<or> ss_eof s \<Longrightarrow> handleConn env e s = Ok (e, s\<lparr>ss_done := True\<rparr>)"
  by (cases "ss_done s") (auto simp: handleConn.simps)

lemma handleConn_wait:
  "\<not> ce_closed env (ss_iter s) \<Longrightarrow> \<not> ss_eof s \<Longrightarrow> ReadFrame (ss_in s) = Err ''EOF'' \<Longrightarrow> handleConn env e s = Ok (e, s)"
  by (cases "ss_done s") (simp_all add: handleConn.simps)

lemma handleConn_next:
  "\<not> ss_done s \<Longrightarrow> \<not> ce_closed env (ss_iter s) \<Longrightarrow> ReadFrame (ss_in s) = Ok ((cmd, p), rest) \<Longrightarrow>
    dispatch (ce_write env (ss_iter s)) e (ss_w s) cmd p = Ok (e', w') \<Longrightarrow>
    handleConn env e s = handleConn env e' (s\<lparr>ss_in := rest, ss_w := w', ss_iter := Suc (ss_iter s)\<rparr>)"
  by (simp add: handleConn.simps [of env e s])

lemma handleConn_feed:
  assumes "\<not> ss_eof s"
  shows "handleConn env e (feed s d) = res_bind (handleConn env e s) (\<lambda>(e', s'). handleConn env e' (feed s' d))"
  using assms
proof (induction env e s rule: handleConn.induct)
  case (1 env e s)
  show ?case
  proof (cases "ss_done s \<or> ce_closed env (ss_iter s)")
    case True
    then show ?thesis by (cases "ss_done s") (simp_all add: handleConn_closed feed_def)
  next
    case go: False
    show ?thesis
    proof (cases "ReadFrame (ss_in s)")
      case Panic
      then show ?thesis using ReadFrame_no_Panic by blast
    next
      case (Err m)
      then show ?thesis using go 1(2) ReadFrame_short_mono [OF Err, of d]
        by (cases "m = ''EOF''") (simp_all add: handleConn_wait handleConn_short feed_def)
    next
      case (Ok x)
      obtain cmd p rest where x: "x = ((cmd, p), rest)" by (metis prod.exhaust)
      let ?r = "dispatch (ce_write env (ss_iter s)) e (ss_w s) cmd p"
      have R: "ReadFrame (ss_in s @ d) = Ok ((cmd, p), rest @ d)" using ReadFrame_mono Ok x by blast
      show ?thesis
      proof (cases ?r)
        case (Ok y)
        obtain e' w' where y: "y = (e', w')" by (cases y)
        let ?s = "s\<lparr>ss_in := rest, ss_w := w', ss_iter := Suc (ss_iter s)\<rparr>"
        have "handleConn env e s = handleConn env e' ?s" using handleConn_next go Ok y \<open>ReadFrame (ss_in s) = Ok x\<close> x by simp
        moreover have "handleConn env e (feed s d) = handleConn env e' (feed ?s d)" using handleConn_next [of "feed s d" env cmd p "rest @ d" e e' w'] go Ok y R by (cases s) (simp add: feed_def)
        moreover have "handleConn env e' (feed ?s d) = res_bind (handleConn env e' ?s) (\<lambda>(e', s'). handleConn env e' (feed s' d))"
          using "1.IH" go Ok y x \<open>ReadFrame (ss_in s) = Ok x\<close> 1(2) by simp
        ultimately show ?thesis by simp
      qed (use go R Ok x in \<open>simp_all add: handleConn.simps [of env e s] handleConn.simps [of env e "feed s d"]\<close>)
    qed
  qed
qed

text \<open>C20. TCP may cut the stream of requests anywhere: the engine, the responses and the state of the connection
  after the bytes \<open>a\<close> and later \<open>b\<close> have arrived are those after \<open>a @ b\<close> has arrived at once.\<close>

theorem tcp_segmentation:
  assumes "\<not> ss_eof s"
  shows "handleConn env e (feed s (a @ b)) = res_bind (handleConn env e (feed s a)) (\<lambda>(e', s'). handleConn env e' (feed s' b))"
  using handleConn_feed [of "feed s a" env e b] assms by simp

theorem tcp_segmentation_witness:
  "\<forall>env e. handleConn env e (feed (new_session None) ([5, 0, 0] @ [0, 2, 1, 0, 0, 0])) =
     res_bind (handleConn env e (feed (new_session None) [5, 0, 0])) (\<lambda>(e', s'). handleConn env e' (feed s' [0, 2, 1, 0, 0, 0]))"
  using tcp_segmentation [of "new_session None" _ _ "[5, 0, 0]" "[0, 2, 1, 0, 0, 0]"] by (simp add: new_session_def)

text \<open>\<open>Stop\<close> waits for every connection, and a connection that waits for a frame does not see it: with one idle client
  \<open>wg.Wait\<close> does not return, however long the accept loop and the handler run.\<close>

lemma tcp_stop_waits:
  assumes "TCPServer_Stop (acceptLoop (fst (TCPServer_Start (Some a) (NewTCPServer addr))) [Some r]) = Ok s" "\<not> ce_closed env 0"
  shows "ts_sessions (acceptLoop s [None]) = [new_session r]" "handleConn env e (new_session r) = Ok (e, new_session r)" "\<not> wg_done (acceptLoop s [None])"
  using assms by (auto simp: TCPServer_Stop_def TCPServer_Start_def NewTCPServer_def wg_done_def new_session_def handleConn_wait ReadFrame_Nil)

text \<open>Nine bytes end the process, whatever the state of the engine: a get whose key length is \<open>2 ^ 32 - 4\<close>.\<close>

lemma tcp_crash:
  assumes "\<not> ss_done s" "\<not> ce_closed env (ss_iter s)" "ss_in s = []"
  shows "handleConn env e (feed s [5, 0, 0, 0, 2, 252, 255, 255, 255]) = Panic"
proof -
  have "ReadFrame [5, 0, 0, 0, 2, 252, 255, 255, 255] = Ok ((2, [252, 255, 255, 255]), [])" by (simp add: ReadFrame_eq Uint32_def Let_def)
  moreover have "DecodeKey [252, 255, 255, 255] = Panic" by (simp add: decodeOne_uses decodeOne_Panic Uint32_def)
  ultimately show ?thesis using assms
    by (simp add: handleConn.simps [of env e "feed s _"] dispatch_def handleGet_def CmdPut_def CmdGet_def)
qed

end
