(* ===== verification/Client.thy ===== *)
theory Client
  imports Tcp_Server
begin

text \<open>
  The Go client (\<open>client/client.go\<close>) and its composition with the server. A client is one connection: its
  buffered writer and the bytes received and not read. The other end is a parameter: \<open>net s d\<close> is the
  state of the peer and the bytes it sends back once the bytes \<open>d\<close> have reached it. The locale \<open>kv_peer\<close>
  states what the client relies on, a peer that answers each frame by one frame, and is
  interpreted on the TCP server.
\<close>

definition Client_ErrNotFound :: string where "Client_ErrNotFound = ''key not found''"

record Client =
  c_in :: bytes
  c_w :: Writer_Buf

text \<open>\<open>conn\<close> is the connection \<open>net.Dial\<close> returned, by the number of bytes it takes before it fails.\<close>

definition Client_Connect :: "nat option option \<Rightarrow> Client res" where
  "Client_Connect conn =
     (case conn of None \<Rightarrow> Err ''client: connect: '' | Some r \<Rightarrow> Ok \<lparr>c_in = [], c_w = bufio_NewWriter r\<rparr>)"

definition checkStatus :: "byte \<Rightarrow> bytes \<Rightarrow> unit res" where
  "checkStatus status payload =
     (if status = StatusOK then Ok ()
      else if status = StatusNotFound then Err Client_ErrNotFound
      else if status = StatusError then Err (''client: server error: '' @ bytes_str payload)
      else Err (''client: unknown status: '' @ dec_digits (unat status)))"

text \<open>Writing a request, with what it makes the peer do, and reading a response. What a failed read
  consumed is gone. \<open>ReadResponse\<close> fails with \<open>''EOF''\<close> when no more bytes come, that is when the peer has closed the connection.\<close>

definition send :: "('s \<Rightarrow> bytes \<Rightarrow> 's \<times> bytes) \<Rightarrow> 's \<Rightarrow> Client \<Rightarrow> byte \<Rightarrow> bytes \<Rightarrow> 's \<times> Client \<times> bool" where
  "send net s c cmd payload =
     (case WriteRequest (c_w c) cmd payload of (w', ok) \<Rightarrow>
      case net s (drop (length (bw_sent (c_w c))) (bw_sent w')) of (s', d) \<Rightarrow>
      (s', \<lparr>c_in = c_in c @ d, c_w = w'\<rparr>, ok))"

definition receive :: "Client \<Rightarrow> Client \<times> (byte \<times> bytes) res" where
  "receive c =
     (case ReadResponse (c_in c) of
        Ok (f, rest) \<Rightarrow> (c\<lparr>c_in := rest\<rparr>, Ok f)
      | Err err \<Rightarrow> (c\<lparr>c_in := (if err = ''EOF'' then [] else drop 4 (c_in c))\<rparr>, Err err)
      | Panic \<Rightarrow> (c, Panic))"

definition Client_Put :: "('s \<Rightarrow> bytes \<Rightarrow> 's \<times> bytes) \<Rightarrow> 's \<Rightarrow> Client \<Rightarrow> bytes \<Rightarrow> bytes \<Rightarrow> 's \<times> Client \<times> unit res" where
  "Client_Put net s c k v =
     (case send net s c CmdPut (EncodePut k v) of (s', c1, ok) \<Rightarrow>
      if \<not> ok then (s', c1, Err ''client: put write: '')
      else case receive c1 of
             (c2, Panic) \<Rightarrow> (s', c2, Panic)
           | (c2, Err err) \<Rightarrow> (s', c2, Err (''client: put read: '' @ err))
           | (c2, Ok (status, resp)) \<Rightarrow> (s', c2, checkStatus status resp))"

definition Client_Get :: "('s \<Rightarrow> bytes \<Rightarrow> 's \<times> bytes) \<Rightarrow> 's \<Rightarrow> Client \<Rightarrow> bytes \<Rightarrow> 's \<times> Client \<times> bytes res" where
  "Client_Get net s c k =
     (case send net s c CmdGet (EncodeKey k) of (s', c1, ok) \<Rightarrow>
      if \<not> ok then (s', c1, Err ''client: get write: '')
      else case receive c1 of
             (c2, Panic) \<Rightarrow> (s', c2, Panic)
           | (c2, Err err) \<Rightarrow> (s', c2, Err (''client: get read: '' @ err))
           | (c2, Ok (status, resp)) \<Rightarrow>
               (s', c2,
                if status = StatusNotFound then Err Client_ErrNotFound
                else if status \<noteq> StatusOK then Err (''client: server error: '' @ bytes_str resp)
                else case DecodeValue resp of
                       Ok v \<Rightarrow> Ok v
                     | Err err \<Rightarrow> Err (''client: get decode: '' @ err)
                     | Panic \<Rightarrow> Panic))"

definition Client_Delete :: "('s \<Rightarrow> bytes \<Rightarrow> 's \<times> bytes) \<Rightarrow> 's \<Rightarrow> Client \<Rightarrow> bytes \<Rightarrow> 's \<times> Client \<times> unit res" where
  "Client_Delete net s c k =
     (case send net s c CmdDelete (EncodeKey k) of (s', c1, ok) \<Rightarrow>
      if \<not> ok then (s', c1, Err ''client: delete write: '')
      else case receive c1 of
             (c2, Panic) \<Rightarrow> (s', c2, Panic)
           | (c2, Err err) \<Rightarrow> (s', c2, Err (''client: delete read: '' @ err))
           | (c2, Ok (status, resp)) \<Rightarrow> (s', c2, checkStatus status resp))"

definition Client_BatchPut :: "('s \<Rightarrow> bytes \<Rightarrow> 's \<times> bytes) \<Rightarrow> 's \<Rightarrow> Client \<Rightarrow> bytes list \<Rightarrow> bytes list \<Rightarrow> 's \<times> Client \<times> unit res" where
  "Client_BatchPut net s c keys vs =
     (case EncodeBatchPut keys vs of
        Panic \<Rightarrow> (s, c, Panic)
      | Err err \<Rightarrow> (s, c, Err err)
      | Ok payload \<Rightarrow>
          (case send net s c CmdBatchPut payload of (s', c1, ok) \<Rightarrow>
           if \<not> ok then (s', c1, Err ''client: batch write: '')
           else case receive c1 of
                  (c2, Panic) \<Rightarrow> (s', c2, Panic)
                | (c2, Err err) \<Rightarrow> (s', c2, Err (''client: batch read: '' @ err))
                | (c2, Ok (status, resp)) \<Rightarrow> (s', c2, checkStatus status resp)))"

definition Client_GetRange :: "('s \<Rightarrow> bytes \<Rightarrow> 's \<times> bytes) \<Rightarrow> 's \<Rightarrow> Client \<Rightarrow> bytes \<Rightarrow> bytes \<Rightarrow> 's \<times> Client \<times> KVPair list res" where
  "Client_GetRange net s c startKey endKey =
     (case send net s c CmdGetRange (EncodeRange startKey endKey) of (s', c1, ok) \<Rightarrow>
      if \<not> ok then (s', c1, Err ''client: range write: '')
      else case receive c1 of
             (c2, Panic) \<Rightarrow> (s', c2, Panic)
           | (c2, Err err) \<Rightarrow> (s', c2, Err (''client: range read: '' @ err))
           | (c2, Ok (status, resp)) \<Rightarrow>
               (s', c2,
                if status = StatusNotFound then Ok []
                else if status \<noteq> StatusOK then Err (''client: server error: '' @ bytes_str resp)
                else case DecodeKVPairs resp of
                       Panic \<Rightarrow> Panic
                     | Err err \<Rightarrow> Err (''client: range decode: '' @ err)
                     | Ok (keys, vs) \<Rightarrow> Ok (map (\<lambda>(k, v). \<lparr>kv_Key = k, kv_Value = Some v\<rparr>) (zip keys vs))))"

subsection \<open>A peer that answers frame by frame\<close>

definition c_idle :: "Client \<Rightarrow> bool" where
  "c_idle c \<longleftrightarrow> c_in c = [] \<and> bw_idle (c_w c) \<and> bw_room (c_w c) = None"

lemma WriteRequest_idle:
  assumes "bw_idle w" "bw_room w = None"
  obtains w' where "WriteRequest w cmd p = (w', True)" "bw_idle w'" "bw_room w' = None" "bw_sent w' = bw_sent w @ wire_frame (cmd, p)"
proof -
  obtain w' ok where w: "WriteResponse w cmd p = (w', ok)" by (metis prod.exhaust)
  have i: "\<not> bw_err w" "bw_buf w = []" using assms(1) by (simp_all add: bw_idle_def)
  note a = WriteResponse_adds [OF w i(1)]
  show thesis using that [of w'] a w i assms(2) by (auto simp: WriteRequest_frame bw_adds_def bw_idle_def)
qed

text \<open>\<open>serve s f\<close> is the state and the response frame of the peer for the request frame \<open>f\<close>.\<close>

locale kv_peer =
  fixes net :: "'s \<Rightarrow> bytes \<Rightarrow> 's \<times> bytes"
    and serve :: "'s \<Rightarrow> byte \<times> bytes \<Rightarrow> ('s \<times> byte \<times> bytes) option"
    and ready :: "'s \<Rightarrow> bool"
  assumes net_serve: "ready s \<Longrightarrow> frame_ok f \<Longrightarrow> serve s f = Some (s', r) \<Longrightarrow> ready s' \<and> net s (wire_frame f) = (s', wire_frame r)"
begin

lemma exchange:
  assumes "c_idle c" "ready s" "frame_ok (cmd, p)" "serve s (cmd, p) = Some (s', r)" "frame_ok r"
  obtains c1 c2 where "send net s c cmd p = (s', c1, True)" "receive c1 = (c2, Ok r)" "c_idle c2" "ready s'"
proof -
  obtain w' where w: "WriteRequest (c_w c) cmd p = (w', True)" "bw_idle w'" "bw_room w' = None" "bw_sent w' = bw_sent (c_w c) @ wire_frame (cmd, p)"
    using WriteRequest_idle [of "c_w c" cmd p] assms(1) by (auto simp: c_idle_def)
  note n = net_serve [OF assms(2,3,4)]
  have "ReadResponse (wire_frame r) = Ok (r, [])" using rsp.dec_enc [OF assms(5), of "[]"] by simp
  then show thesis using that [of "\<lparr>c_in = wire_frame r, c_w = w'\<rparr>" "\<lparr>c_in = [], c_w = w'\<rparr>"] w n assms(1)
    by (simp add: send_def receive_def c_idle_def)
qed

lemma put:
  assumes "c_idle c" "ready s" "frame_ok (CmdPut, EncodePut k v)" "serve s (CmdPut, EncodePut k v) = Some (s', st, b)" "frame_ok (st, b)"
  shows "\<exists>c'. Client_Put net s c k v = (s', c', checkStatus st b) \<and> c_idle c' \<and> ready s'"
proof -
  obtain c1 c2 where "send net s c CmdPut (EncodePut k v) = (s', c1, True)" "receive c1 = (c2, Ok (st, b))" "c_idle c2" "ready s'"
    using exchange [OF assms] by blast
  then show ?thesis by (simp add: Client_Put_def)
qed

lemma delete:
  assumes "c_idle c" "ready s" "frame_ok (CmdDelete, EncodeKey k)" "serve s (CmdDelete, EncodeKey k) = Some (s', st, b)" "frame_ok (st, b)"
  shows "\<exists>c'. Client_Delete net s c k = (s', c', checkStatus st b) \<and> c_idle c' \<and> ready s'"
proof -
  obtain c1 c2 where "send net s c CmdDelete (EncodeKey k) = (s', c1, True)" "receive c1 = (c2, Ok (st, b))" "c_idle c2" "ready s'"
    using exchange [OF assms] by blast
  then show ?thesis by (simp add: Client_Delete_def)
qed

lemma batch:
  assumes "c_idle c" "ready s" "EncodeBatchPut ks vs = Ok p" "frame_ok (CmdBatchPut, p)" "serve s (CmdBatchPut, p) = Some (s', st, b)" "frame_ok (st, b)"
  shows "\<exists>c'. Client_BatchPut net s c ks vs = (s', c', checkStatus st b) \<and> c_idle c' \<and> ready s'"
proof -
  obtain c1 c2 where "send net s c CmdBatchPut p = (s', c1, True)" "receive c1 = (c2, Ok (st, b))" "c_idle c2" "ready s'"
    using exchange [OF assms(1,2,4-6)] by blast
  then show ?thesis using assms(3) by (simp add: Client_BatchPut_def)
qed

lemma get:
  assumes "c_idle c" "ready s" "frame_ok (CmdGet, EncodeKey k)" "serve s (CmdGet, EncodeKey k) = Some (s', st, b)" "frame_ok (st, b)"
  shows "\<exists>c' r. Client_Get net s c k = (s', c', r) \<and> c_idle c' \<and> ready s' \<and> (st = StatusNotFound \<longrightarrow> r = Err Client_ErrNotFound) \<and>
    (st = StatusOK \<longrightarrow> (\<forall>v. DecodeValue b = Ok v \<longrightarrow> r = Ok v))"
proof -
  obtain c1 c2 where "send net s c CmdGet (EncodeKey k) = (s', c1, True)" "receive c1 = (c2, Ok (st, b))" "c_idle c2" "ready s'"
    using exchange [OF assms] by blast
  then show ?thesis by (simp add: Client_Get_def StatusOK_def StatusNotFound_def)
qed

lemma range:
  assumes "c_idle c" "ready s" "frame_ok (CmdGetRange, EncodeRange lo hi)" "serve s (CmdGetRange, EncodeRange lo hi) = Some (s', StatusOK, b)"
    "frame_ok (StatusOK, b)" "DecodeKVPairs b = Ok (ks, vs)"
  shows "\<exists>c'. Client_GetRange net s c lo hi = (s', c', Ok (map (\<lambda>(k, v). \<lparr>kv_Key = k, kv_Value = Some v\<rparr>) (zip ks vs))) \<and> c_idle c' \<and> ready s'"
proof -
  obtain c1 c2 where "send net s c CmdGetRange (EncodeRange lo hi) = (s', c1, True)" "receive c1 = (c2, Ok (StatusOK, b))" "c_idle c2" "ready s'"
    using exchange [OF assms(1-5)] by blast
  then show ?thesis using assms(6) by (simp add: Client_GetRange_def StatusOK_def StatusNotFound_def)
qed

end

subsection \<open>The TCP server as the peer\<close>

text \<open>The server's end of one connection, with the engine; \<open>None\<close> once the process has crashed.\<close>

definition tcp_net :: "conn_env \<Rightarrow> (Engine \<times> Session) option \<Rightarrow> bytes \<Rightarrow> (Engine \<times> Session) option \<times> bytes" where
  "tcp_net env st d =
     (case st of
        None \<Rightarrow> (None, [])
      | Some (e, s) \<Rightarrow>
          (case handleConn env e (feed s d) of
             Ok (e', s') \<Rightarrow> (Some (e', s'), drop (length (bw_sent (ss_w s))) (bw_sent (ss_w s')))
           | Err _ \<Rightarrow> (None, [])
           | Panic \<Rightarrow> (None, [])))"

definition answered :: "Session \<Rightarrow> byte \<times> bytes \<Rightarrow> Session" where
  "answered s r = s\<lparr>ss_w := fst (WriteResponse (ss_w s) (fst r) (snd r)), ss_iter := Suc (ss_iter s)\<rparr>"

definition tcp_serve :: "conn_env \<Rightarrow> (Engine \<times> Session) option \<Rightarrow> byte \<times> bytes \<Rightarrow> ((Engine \<times> Session) option \<times> byte \<times> bytes) option" where
  "tcp_serve env st f =
     (case st of
        None \<Rightarrow> None
      | Some (e, s) \<Rightarrow> (case respond (ce_write env (ss_iter s)) e f of Ok (e', r) \<Rightarrow> Some (Some (e', answered s r), r) | Err _ \<Rightarrow> None | Panic \<Rightarrow> None))"

definition s_idle :: "Session \<Rightarrow> bool" where
  "s_idle s \<longleftrightarrow> ss_in s = [] \<and> \<not> ss_eof s \<and> \<not> ss_done s \<and> bw_idle (ss_w s) \<and> bw_room (ss_w s) = None"

definition tcp_ready :: "conn_env \<Rightarrow> (Engine \<times> Session) option \<Rightarrow> bool" where
  "tcp_ready env st \<longleftrightarrow> (\<exists>e s. st = Some (e, s) \<and> s_idle s) \<and> (\<forall>i. \<not> ce_closed env i)"

lemma serve_frame:
  assumes "s_idle s" "\<forall>i. \<not> ce_closed env i" "frame_ok (cmd, p)" "respond (ce_write env (ss_iter s)) e (cmd, p) = Ok (e', r)"
  shows "handleConn env e (feed s (wire_frame (cmd, p))) = Ok (e', answered s r)" "s_idle (answered s r)"
    "bw_sent (ss_w (answered s r)) = bw_sent (ss_w s) @ wire_frame r"
proof -
  obtain st b where r: "r = (st, b)" by (cases r)
  obtain w' where w: "WriteResponse (ss_w s) st b = (w', True)" "bw_idle w'" "bw_room w' = None" "bw_sent w' = bw_sent (ss_w s) @ wire_frame (st, b)"
    using WriteRequest_idle [of "ss_w s" st b] assms(1) by (auto simp: s_idle_def WriteRequest_frame)
  have a: "answered s r = s\<lparr>ss_w := w', ss_iter := Suc (ss_iter s)\<rparr>" by (simp add: answered_def r w(1))
  have i: "ss_in s = []" "\<not> ss_done s" "\<not> ss_eof s" using assms(1) by (auto simp: s_idle_def)
  have "ReadFrame (wire_frame (cmd, p)) = Ok ((cmd, p), [])" using req.dec_enc [OF assms(3), of "[]"] by simp
  moreover have "dispatch (ce_write env (ss_iter s)) e (ss_w s) cmd p = Ok (e', w')" using assms(4) r w(1) by (simp add: dispatch_respond)
  ultimately have "handleConn env e (feed s (wire_frame (cmd, p))) = handleConn env e' ((feed s (wire_frame (cmd, p)))\<lparr>ss_in := [], ss_w := w', ss_iter := Suc (ss_iter s)\<rparr>)"
    using handleConn_next [of "feed s (wire_frame (cmd, p))" env cmd p "[]" e e' w'] assms(2) i by simp
  also have "(feed s (wire_frame (cmd, p)))\<lparr>ss_in := [], ss_w := w', ss_iter := Suc (ss_iter s)\<rparr> = answered s r" using i(1) unfolding a by (cases s) (simp add: feed_def)
  also have "handleConn env e' (answered s r) = Ok (e', answered s r)" using i assms(2) by (simp add: a handleConn_wait ReadFrame_Nil)
  finally show "handleConn env e (feed s (wire_frame (cmd, p))) = Ok (e', answered s r)" .
  show "s_idle (answered s r)" "bw_sent (ss_w (answered s r)) = bw_sent (ss_w s) @ wire_frame r" using assms(1) w(2-4) by (simp_all only: a) (simp_all add: s_idle_def r)
qed

interpretation tcp: kv_peer "tcp_net env" "tcp_serve env" "tcp_ready env" for env
proof
  fix st f st' r assume "tcp_ready env st" and f: "frame_ok f" and v: "tcp_serve env st f = Some (st', r)"
  then obtain e s where st: "st = Some (e, s)" "s_idle s" "\<forall>i. \<not> ce_closed env i" by (auto simp: tcp_ready_def)
  obtain cmd p where c: "f = (cmd, p)" by (cases f)
  obtain e' where "respond (ce_write env (ss_iter s)) e (cmd, p) = Ok (e', r)" "st' = Some (e', answered s r)"
    using v st(1) c by (auto simp: tcp_serve_def split: res.splits)
  then show "tcp_ready env st' \<and> tcp_net env st (wire_frame f) = (st', wire_frame r)"
    using serve_frame [OF st(2,3), of cmd p] f c st by (simp add: tcp_net_def tcp_ready_def)
qed

subsection \<open>Client, server and engine\<close>

datatype client_op = CPut bytes bytes | CGet bytes | CDelete bytes | CBatch "bytes list" "bytes list" | CRange bytes bytes

datatype client_ans = AnsUnit "unit res" | AnsValue "bytes res" | AnsPairs "KVPair list res"

fun client_call :: "conn_env \<Rightarrow> (Engine \<times> Session) option \<Rightarrow> Client \<Rightarrow> client_op \<Rightarrow> (Engine \<times> Session) option \<times> Client \<times> client_ans" where
  "client_call env st c (CPut k v) = (case Client_Put (tcp_net env) st c k v of (st', c', r) \<Rightarrow> (st', c', AnsUnit r))"
| "client_call env st c (CGet k) = (case Client_Get (tcp_net env) st c k of (st', c', r) \<Rightarrow> (st', c', AnsValue r))"
| "client_call env st c (CDelete k) = (case Client_Delete (tcp_net env) st c k of (st', c', r) \<Rightarrow> (st', c', AnsUnit r))"
| "client_call env st c (CBatch ks vs) = (case Client_BatchPut (tcp_net env) st c ks vs of (st', c', r) \<Rightarrow> (st', c', AnsUnit r))"
| "client_call env st c (CRange lo hi) = (case Client_GetRange (tcp_net env) st c lo hi of (st', c', r) \<Rightarrow> (st', c', AnsPairs r))"

text \<open>A batch of the client never deletes: a nil value arrives as an empty one.\<close>

fun op_writes :: "client_op \<Rightarrow> (bytes \<times> bytes option) list" where
  "op_writes (CPut k v) = [(k, Some v)]"
| "op_writes (CDelete k) = [(k, None)]"
| "op_writes (CBatch ks vs) = zip ks (map Some vs)"
| "op_writes (CGet k) = []"
| "op_writes (CRange lo hi) = []"

text \<open>Requests and responses fit into a frame, and writes into the log and a table.\<close>

fun op_fits :: "(nat \<Rightarrow> coins) \<Rightarrow> Engine \<Rightarrow> client_op \<Rightarrow> bool" where
  "op_fits co e (CPut k v) = (9 + length k + length v < 2 ^ 32 \<and> write_fits co e [(k, Some v)])"
| "op_fits co e (CDelete k) = (5 + length k < 2 ^ 32 \<and> write_fits co e [(k, None)])"
| "op_fits co e (CBatch ks vs) = (length ks = length vs \<and> length ks < 2 ^ 32 \<and> list_all (\<lambda>b. length b < 2 ^ 32) (ks @ vs) \<and>
     (case EncodeBatchPut ks vs of Ok p \<Rightarrow> 1 + length p < 2 ^ 32 | _ \<Rightarrow> False) \<and> write_fits co e (zip ks (map Some vs)))"
| "op_fits co e (CGet k) = (5 + length k < 2 ^ 32 \<and> (case Engine_Get e k of Ok v \<Rightarrow> 5 + length (val_bytes v) < 2 ^ 32 | _ \<Rightarrow> True))"
| "op_fits co e (CRange lo hi) = (9 + length lo + length hi < 2 ^ 32 \<and>
     (case ReadRange e lo hi of Some ps \<Rightarrow> 1 + length (pairs_bytes ps) < 2 ^ 32 | None \<Rightarrow> True))"

text \<open>A key that is absent from the map is not found, and a range has exactly the pairs of the map between its bounds; only a
  key whose value is empty may be found empty or not be found at all.\<close>

fun op_answer :: "(bytes \<Rightarrow> bytes option) \<Rightarrow> client_op \<Rightarrow> client_ans \<Rightarrow> bool" where
  "op_answer a (CGet k) ans = (case a k of None \<Rightarrow> ans = AnsValue (Err Client_ErrNotFound)
     | Some v \<Rightarrow> ans = AnsValue (Ok v) \<or> v = [] \<and> ans = AnsValue (Err Client_ErrNotFound))"
| "op_answer a (CRange lo hi) ans = (\<exists>ps. ans = AnsPairs (Ok ps) \<and> pairs_as a lo hi (map kv_pair ps))"
| "op_answer a (CPut k v) ans = (ans = AnsUnit (Ok ()))"
| "op_answer a (CDelete k) ans = (ans = AnsUnit (Ok ()))"
| "op_answer a (CBatch ks vs) ans = (ans = AnsUnit (Ok ()))"

lemma put_runs:
  assumes "eng_reach s" "write_fits co (s_eng s) [(k, Some v)]" "Engine_Put (write_ok co) (s_eng s) k (Some v) = (e', r)"
  shows "r = Ok ()" "eng_reach (s\<lparr>s_eng := e', s_abs := abs_write (s_abs s) [(k, Some v)]\<rparr>)"
proof -
  note inv = sys_inv_reach [OF assms(1)]
  then have m: "mem_inv (snd (e_memtable (s_eng s)))" "\<not> frozen (snd (e_memtable (s_eng s)))" by (auto simp: sys_inv_def eng_inv_def)
  obtain e1 r1 where b: "Engine_BatchPut (write_ok co) (s_eng s) [k] [Some v] = (e1, r1)" by (metis prod.exhaust)
  have "r1 = Ok ()" using batch_keeps [OF inv _ _ b] assms(2) by simp
  then show "r = Ok ()" using Engine_Put_batch(1) [OF m, of "write_ok co" k v] assms(3) b by simp
  show "eng_reach (s\<lparr>s_eng := e', s_abs := abs_write (s_abs s) [(k, Some v)]\<rparr>)" by (rule eng_reach.Step [OF assms(1) eng_step.Put [OF assms(3,2)]])
qed

lemma delete_runs:
  assumes "eng_reach s" "write_fits co (s_eng s) [(k, None)]" "Engine_Delete (write_ok co) (s_eng s) k = (e', r)"
  shows "r = Ok ()" "eng_reach (s\<lparr>s_eng := e', s_abs := abs_write (s_abs s) [(k, None)]\<rparr>)"
proof -
  note inv = sys_inv_reach [OF assms(1)]
  then have m: "mem_inv (snd (e_memtable (s_eng s)))" "\<not> frozen (snd (e_memtable (s_eng s)))" by (auto simp: sys_inv_def eng_inv_def)
  obtain e1 r1 where b: "Engine_BatchPut (write_ok co) (s_eng s) [k] [None] = (e1, r1)" by (metis prod.exhaust)
  have "r1 = Ok ()" using batch_keeps [OF inv _ _ b] assms(2) by simp
  then show "r = Ok ()" using Engine_Put_batch(3) [OF m, of "write_ok co" k] assms(3) b by simp
  show "eng_reach (s\<lparr>s_eng := e', s_abs := abs_write (s_abs s) [(k, None)]\<rparr>)" by (rule eng_reach.Step [OF assms(1) eng_step.Delete [OF assms(3,2)]])
qed

lemma batch_runs:
  assumes "eng_reach s" "write_fits co (s_eng s) (zip ks vs)" "length ks = length vs" "Engine_BatchPut (write_ok co) (s_eng s) ks vs = (e', r)"
  shows "r = Ok ()" "eng_reach (s\<lparr>s_eng := e', s_abs := abs_write (s_abs s) (zip ks vs)\<rparr>)"
  using batch_keeps [OF sys_inv_reach [OF assms(1)] assms(2,3,4)] eng_reach.Step [OF assms(1) eng_step.BatchPut [OF assms(3,4,2)]] by simp_all

text \<open>What the server answers to each request of the client.\<close>

lemma pair_answers:
  assumes "9 + length k + length v < 2 ^ 32"
  shows "respond io e (CmdPut, EncodePut k v) = write_answer (Engine_Put io e k (Some v))"
    "respond io e (CmdGetRange, EncodeRange k v) = range_answer e k v"
  using decodePair_lenpref [of k v] assms
  by (simp_all add: respond_def decoded_def encode_lenpref decodePair_uses CmdPut_def CmdGet_def CmdDelete_def CmdBatchPut_def CmdGetRange_def)

lemma key_answers:
  assumes "5 + length k < 2 ^ 32"
  shows "respond io e (CmdDelete, EncodeKey k) = write_answer (Engine_Delete io e k)" "respond io e (CmdGet, EncodeKey k) = get_answer e k"
  using decodeOne_lenpref [of k] assms
  by (simp_all add: respond_def decoded_def encode_lenpref decodeOne_uses CmdPut_def CmdGet_def CmdDelete_def CmdBatchPut_def CmdGetRange_def)

lemma batch_answer:
  assumes "DecodeBatchPut p = Ok (ks, vs)"
  shows "respond io e (CmdBatchPut, p) = write_answer (Engine_BatchPut io e ks (map Some vs))"
  using assms by (simp add: respond_def decoded_def CmdPut_def CmdGet_def CmdDelete_def CmdBatchPut_def CmdGetRange_def)

lemma request_ok: "9 + length k + length v < 2 ^ 32 \<Longrightarrow> frame_ok (c, EncodePut k v) \<and> frame_ok (c, EncodeRange k v)"
  by (simp add: frame_ok_def encode_lenpref)

lemma key_ok: "5 + length k < 2 ^ 32 \<Longrightarrow> frame_ok (c, EncodeKey k) \<and> frame_ok (c, EncodeValue k)"
  by (simp add: frame_ok_def encode_lenpref)

lemma DecodeKVPairs_pairs:
  assumes "1 + length (pairs_bytes ps) < 2 ^ 32"
  shows "DecodeKVPairs (pairs_bytes ps) = Ok (map kv_Key ps, map (\<lambda>p. val_bytes (kv_Value p)) ps)"
proof -
  let ?kvs = "map (\<lambda>p. (kv_Key p, val_bytes (kv_Value p))) ps"
  let ?c = "concat (map (\<lambda>(k, v). lenpref k @ lenpref v) ?kvs)"
  have b: "pairs_bytes ps = PutUint32 (of_nat (length ps)) @ ?c" by (simp add: pairs_bytes_def comp_def)
  have l: "length ps \<le> length (concat (map (\<lambda>(k, v). lenpref k @ lenpref v) ?kvs))" by (induction ps) auto
  have m: "length (kv_Key p) + length (val_bytes (kv_Value p)) \<le> length ?c" if "p \<in> set ps" for p
    using that by (induction ps) auto
  have s: "list_all (\<lambda>(k, v). length k < 2 ^ 32 \<and> length v < 2 ^ 32) ?kvs" using m assms by (fastforce simp: list_all_iff b)
  have n: "unat (of_nat (length ps) :: 32 word) = length ps" using l assms by (intro unat_of_nat32) (simp add: b)
  from decodeBatchFrom_enc [OF s, of "PutUint32 (of_nat (length ps))" "[]" "[]"] show ?thesis
    by (simp add: DecodeKVPairs_def DecodeBatchPut_def b n codec comp_def)
qed

lemma serve_ready:
  assumes "s_idle ses" "\<forall>i. \<not> ce_closed env i" "ce_write env = (\<lambda>_. write_ok co)" "respond (write_ok co) e f = Ok (e', r)"
  shows "tcp_ready env (Some (e, ses))" "tcp_serve env (Some (e, ses)) f = Some (Some (e', answered ses r), r)"
  using assms by (simp_all add: tcp_ready_def tcp_serve_def)

lemma short_ok: "frame_ok (st, [])"
  by (simp add: frame_ok_def)

lemma ready_idle: "tcp_ready env (Some (e, ses)) \<Longrightarrow> s_idle ses"
  by (simp add: tcp_ready_def)

lemma client_put_runs:
  assumes "eng_reach s" "s_idle ses" "c_idle c" "\<forall>i. \<not> ce_closed env i" "ce_write env = (\<lambda>_. write_ok co)" "op_fits co (s_eng s) (CPut k v)"
  shows "\<exists>e' ses' c'. Client_Put (tcp_net env) (Some (s_eng s, ses)) c k v = (Some (e', ses'), c', Ok ()) \<and> s_idle ses' \<and> c_idle c' \<and>
    eng_reach (s\<lparr>s_eng := e', s_abs := abs_write (s_abs s) [(k, Some v)]\<rparr>)"
proof -
  obtain e' r where p: "Engine_Put (write_ok co) (s_eng s) k (Some v) = (e', r)" by (metis prod.exhaust)
  have fits: "9 + length k + length v < 2 ^ 32" "write_fits co (s_eng s) [(k, Some v)]" using assms(6) by simp_all
  note run = put_runs [OF assms(1) fits(2) p]
  have "respond (write_ok co) (s_eng s) (CmdPut, EncodePut k v) = Ok (e', StatusOK, [])"
    using pair_answers(1) [OF fits(1)] p run(1) by (simp add: write_answer_def)
  note sv = serve_ready [OF assms(2,4,5) this]
  from tcp.put [OF assms(3) sv(1) _ sv(2) short_ok] request_ok [OF fits(1)] obtain c' where
    "Client_Put (tcp_net env) (Some (s_eng s, ses)) c k v = (Some (e', answered ses (StatusOK, [])), c', checkStatus StatusOK [])" "c_idle c'"
    "tcp_ready env (Some (e', answered ses (StatusOK, [])))" by blast
  then show ?thesis using run(2) ready_idle by (auto simp: checkStatus_def)
qed

lemma client_delete_runs:
  assumes "eng_reach s" "s_idle ses" "c_idle c" "\<forall>i. \<not> ce_closed env i" "ce_write env = (\<lambda>_. write_ok co)" "op_fits co (s_eng s) (CDelete k)"
  shows "\<exists>e' ses' c'. Client_Delete (tcp_net env) (Some (s_eng s, ses)) c k = (Some (e', ses'), c', Ok ()) \<and> s_idle ses' \<and> c_idle c' \<and>
    eng_reach (s\<lparr>s_eng := e', s_abs := abs_write (s_abs s) [(k, None)]\<rparr>)"
proof -
  obtain e' r where p: "Engine_Delete (write_ok co) (s_eng s) k = (e', r)" by (metis prod.exhaust)
  have fits: "5 + length k < 2 ^ 32" "write_fits co (s_eng s) [(k, None)]" using assms(6) by simp_all
  note run = delete_runs [OF assms(1) fits(2) p]
  have "respond (write_ok co) (s_eng s) (CmdDelete, EncodeKey k) = Ok (e', StatusOK, [])"
    using key_answers(1) [OF fits(1)] p run(1) by (simp add: write_answer_def)
  note sv = serve_ready [OF assms(2,4,5) this]
  from tcp.delete [OF assms(3) sv(1) _ sv(2) short_ok] key_ok [OF fits(1)] obtain c' where
    "Client_Delete (tcp_net env) (Some (s_eng s, ses)) c k = (Some (e', answered ses (StatusOK, [])), c', checkStatus StatusOK [])" "c_idle c'"
    "tcp_ready env (Some (e', answered ses (StatusOK, [])))" by blast
  then show ?thesis using run(2) ready_idle by (auto simp: checkStatus_def)
qed

lemma client_batch_runs:
  assumes "eng_reach s" "s_idle ses" "c_idle c" "\<forall>i. \<not> ce_closed env i" "ce_write env = (\<lambda>_. write_ok co)" "op_fits co (s_eng s) (CBatch ks vs)"
  shows "\<exists>e' ses' c'. Client_BatchPut (tcp_net env) (Some (s_eng s, ses)) c ks vs = (Some (e', ses'), c', Ok ()) \<and> s_idle ses' \<and> c_idle c' \<and>
    eng_reach (s\<lparr>s_eng := e', s_abs := abs_write (s_abs s) (zip ks (map Some vs))\<rparr>)"
proof -
  obtain e' r where p: "Engine_BatchPut (write_ok co) (s_eng s) ks (map Some vs) = (e', r)" by (metis prod.exhaust)
  obtain pl where pl: "EncodeBatchPut ks vs = Ok pl" using assms(6) by (simp split: res.splits)
  have fits: "length ks = length vs" "length ks < 2 ^ 32" "\<forall>b\<in>set (ks @ vs). length b < 2 ^ 32" "frame_ok (CmdBatchPut, pl)" "write_fits co (s_eng s) (zip ks (map Some vs))"
    using assms(6) pl by (simp_all add: list_all_iff frame_ok_def ball_Un)
  note run = batch_runs [OF assms(1) fits(5) _ p]
  have "DecodeBatchPut pl = Ok (ks, vs)" using DecodeBatchPut_Encode [OF fits(1-3)] pl by simp
  then have "respond (write_ok co) (s_eng s) (CmdBatchPut, pl) = Ok (e', StatusOK, [])"
    using batch_answer p run(1) fits(1) by (simp add: write_answer_def)
  note sv = serve_ready [OF assms(2,4,5) this]
  from tcp.batch [OF assms(3) sv(1) pl fits(4) sv(2) short_ok] obtain c' where
    "Client_BatchPut (tcp_net env) (Some (s_eng s, ses)) c ks vs = (Some (e', answered ses (StatusOK, [])), c', checkStatus StatusOK [])" "c_idle c'"
    "tcp_ready env (Some (e', answered ses (StatusOK, [])))" by blast
  then show ?thesis using run(2) fits(1) ready_idle by (auto simp: checkStatus_def)
qed

lemma client_get_runs:
  assumes "eng_reach s" "s_idle ses" "c_idle c" "\<forall>i. \<not> ce_closed env i" "ce_write env = (\<lambda>_. write_ok co)" "op_fits co (s_eng s) (CGet k)"
  shows "\<exists>ses' c' r. Client_Get (tcp_net env) (Some (s_eng s, ses)) c k = (Some (s_eng s, ses'), c', r) \<and> s_idle ses' \<and> c_idle c' \<and>
    op_answer (s_abs s) (CGet k) (AnsValue r)"
proof -
  have fits: "5 + length k < 2 ^ 32" "\<And>v. Engine_Get (s_eng s) k = Ok v \<Longrightarrow> 5 + length (val_bytes v) < 2 ^ 32" using assms(6) by simp_all
  note reads = reads_as_key(1) [OF reach_reads_as [OF assms(1)], of k]
  have go: "\<exists>ses' c' r. Client_Get (tcp_net env) (Some (s_eng s, ses)) c k = (Some (s_eng s, ses'), c', r) \<and> s_idle ses' \<and> c_idle c' \<and>
      (st = StatusNotFound \<longrightarrow> r = Err Client_ErrNotFound) \<and> (st = StatusOK \<longrightarrow> (\<forall>v. DecodeValue b = Ok v \<longrightarrow> r = Ok v))"
    if "get_answer (s_eng s) k = Ok (s_eng s, st, b)" "frame_ok (st, b)" for st b
  proof -
    have "respond (write_ok co) (s_eng s) (CmdGet, EncodeKey k) = Ok (s_eng s, st, b)" using key_answers(2) [OF fits(1)] that(1) by simp
    note sv = serve_ready [OF assms(2,4,5) this]
    show ?thesis using tcp.get [OF assms(3) sv(1) _ sv(2) that(2)] key_ok [OF fits(1)] ready_idle by blast
  qed
  show ?thesis
  proof (cases "Engine_Get (s_eng s) k")
    case (Ok v)
    obtain b where v: "v = Some b" using reads Ok by (auto split: option.splits)
    have "DecodeValue (EncodeValue b) = Ok b" using fits(2) [OF Ok] v by (simp add: decodeOne_uses encode_lenpref decodeOne_lenpref val_bytes_def)
    moreover have "frame_ok (StatusOK, EncodeValue b)" using fits(2) [OF Ok] v key_ok by (simp add: val_bytes_def)
    ultimately have "\<exists>ses' c'. Client_Get (tcp_net env) (Some (s_eng s, ses)) c k = (Some (s_eng s, ses'), c', Ok b) \<and> s_idle ses' \<and> c_idle c'"
      using go [of StatusOK "EncodeValue b"] Ok v by (fastforce simp: get_answer_def val_bytes_def StatusOK_def StatusNotFound_def)
    then show ?thesis using reads Ok v by (auto split: option.splits)
  next
    case (Err m)
    then have m: "m = ErrNotFound" "s_abs s k = None \<or> s_abs s k = Some []" using reads by (auto split: option.splits)
    then have "\<exists>ses' c'. Client_Get (tcp_net env) (Some (s_eng s, ses)) c k = (Some (s_eng s, ses'), c', Err Client_ErrNotFound) \<and> s_idle ses' \<and> c_idle c'"
      using go [of StatusNotFound "[]"] Err short_ok by (fastforce simp: get_answer_def)
    then show ?thesis using m(2) by auto
  next
    case Panic
    then show ?thesis using reads by (auto split: option.splits)
  qed
qed

lemma client_range_runs:
  assumes "eng_reach s" "s_idle ses" "c_idle c" "\<forall>i. \<not> ce_closed env i" "ce_write env = (\<lambda>_. write_ok co)" "op_fits co (s_eng s) (CRange lo hi)"
  shows "\<exists>ses' c' r. Client_GetRange (tcp_net env) (Some (s_eng s, ses)) c lo hi = (Some (s_eng s, ses'), c', r) \<and> s_idle ses' \<and> c_idle c' \<and>
    op_answer (s_abs s) (CRange lo hi) (AnsPairs r)"
proof -
  let ?e = "s_eng s" and ?f = "\<lambda>p. \<lparr>kv_Key = kv_Key p, kv_Value = Some (val_bytes (kv_Value p))\<rparr>"
  have inv: "eng_inv ?e" using sys_inv_reach [OF assms(1)] by (simp add: sys_inv_def)
  obtain ps where r: "ReadRange ?e lo hi = Some ps" "pairs_as (s_abs s) lo hi (map kv_pair ps)"
    using ReadRange_reads [OF inv] sys_inv_reach [OF assms(1)] unfolding sys_inv_def by blast
  have fits: "9 + length lo + length hi < 2 ^ 32" "1 + length (pairs_bytes ps) < 2 ^ 32" using assms(6) r(1) by simp_all
  have "respond (write_ok co) ?e (CmdGetRange, EncodeRange lo hi) = Ok (?e, StatusOK, pairs_bytes ps)"
    using pair_answers(2) [OF fits(1)] r(1) by (simp add: range_answer_def)
  note sv = serve_ready [OF assms(2,4,5) this]
  from tcp.range [OF assms(3) sv(1) _ sv(2) _ DecodeKVPairs_pairs [OF fits(2)]] request_ok [OF fits(1)] fits(2) obtain c' where
    c: "Client_GetRange (tcp_net env) (Some (?e, ses)) c lo hi = (Some (?e, answered ses (StatusOK, pairs_bytes ps)), c', Ok (map ?f ps))" "c_idle c'"
    "tcp_ready env (Some (?e, answered ses (StatusOK, pairs_bytes ps)))" by (auto simp: frame_ok_def zip_map_map zip_same_conv_map comp_def)
  have same: "map kv_pair (map ?f ps) = map kv_pair ps" by (simp add: kv_pair_def val_bytes_def)
  have "op_answer (s_abs s) (CRange lo hi) (AnsPairs (Ok (map ?f ps)))"
    unfolding op_answer.simps using r(2) by (intro exI [of _ "map ?f ps"] conjI refl) (simp only: same)
  then show ?thesis using c ready_idle by blast
qed

lemma client_call_runs:
  assumes "eng_reach s" "s_idle ses" "c_idle c" "\<forall>i. \<not> ce_closed env i" "ce_write env = (\<lambda>_. write_ok co)" "op_fits co (s_eng s) op"
  shows "\<exists>e' ses' c' ans. client_call env (Some (s_eng s, ses)) c op = (Some (e', ses'), c', ans) \<and> s_idle ses' \<and> c_idle c' \<and>
    eng_reach (s\<lparr>s_eng := e', s_abs := abs_write (s_abs s) (op_writes op)\<rparr>) \<and> op_answer (s_abs s) op ans"
proof (cases op)
  case (CPut k v)
  then show ?thesis using client_put_runs [OF assms(1-5)] assms(6) by fastforce
next
  case (CGet k)
  then show ?thesis using client_get_runs [OF assms(1-5)] assms(1,6) by fastforce
next
  case (CDelete k)
  then show ?thesis using client_delete_runs [OF assms(1-5)] assms(6) by fastforce
next
  case (CBatch ks vs)
  then show ?thesis using client_batch_runs [OF assms(1-5)] assms(6) by fastforce
next
  case (CRange lo hi)
  then show ?thesis using client_range_runs [OF assms(1-5)] assms(1,6) by fastforce
qed

text \<open>C18. A client and the server together are the map. In every state the engine reaches by \<open>eng_step\<close>, also by the
  writes of other connections, each call of the client over a connection that works, and whose request and answer fit, returns what
  the abstract map answers and takes the engine to a reachable state of the updated map with the connection
  ready for the next call. A get of an absent or deleted key is answered with \<open>ErrNotFound\<close>; a range answers exactly the pairs of the map
  between its bounds, in order. A key whose value is empty may be found empty or not be found.\<close>

theorem client_refines_map:
  assumes "eng_reach s" "s_idle ses" "c_idle c" "\<forall>i. \<not> ce_closed env i" "ce_write env = (\<lambda>_. write_ok co)" "op_fits co (s_eng s) op"
  shows "\<exists>e' ses' c' ans. client_call env (Some (s_eng s, ses)) c op = (Some (e', ses'), c', ans) \<and> s_idle ses' \<and> c_idle c' \<and>
    eng_reach (s\<lparr>s_eng := e', s_abs := abs_write (s_abs s) (op_writes op)\<rparr>) \<and> op_answer (s_abs s) op ans"
  by (rule client_call_runs [OF assms])

theorem client_refines_map_witness:
  "\<exists>s e st c st1 c1 st2 c2. sample_sys s e \<and>
     client_call \<lparr>ce_closed = \<lambda>_. False, ce_write = \<lambda>_. write_ok (\<lambda>_ _. False)\<rparr> (Some (e, new_session None)) \<lparr>c_in = [], c_w = bufio_NewWriter None\<rparr> (CPut [1] [10]) =
       (st, c, AnsUnit (Ok ())) \<and>
     client_call \<lparr>ce_closed = \<lambda>_. False, ce_write = \<lambda>_. write_ok (\<lambda>_ _. False)\<rparr> st c (CGet [1]) = (st1, c1, AnsValue (Ok [10])) \<and>
     client_call \<lparr>ce_closed = \<lambda>_. False, ce_write = \<lambda>_. write_ok (\<lambda>_ _. False)\<rparr> st1 c1 (CGet [7]) = (st2, c2, AnsValue (Err Client_ErrNotFound))"
proof -
  let ?co = "\<lambda>_ _. False" and ?c0 = "\<lparr>c_in = [], c_w = bufio_NewWriter None\<rparr>"
  let ?env = "\<lparr>ce_closed = \<lambda>_. False, ce_write = \<lambda>_. write_ok (\<lambda>_ _. False)\<rparr>"
  have env: "\<forall>i. \<not> ce_closed ?env i" "ce_write ?env = (\<lambda>_. write_ok ?co)" by simp_all
  obtain s e where s: "sample_sys s e" "eng_reach s" "s_eng s = e" "s_abs s = (\<lambda>_. None)" "fileID (e_wal e) = 1" "flushCh e = []"
    "mem_entries (snd (e_memtable e)) = []" "eng_inv e" using sample_reach by metis
  have "write_fits (\<lambda>_ _. False) e [([1], Some [10])]"
    using sample_put [OF s(8,7)] s(5,6) by (simp add: write_fits_def flushCap_def batchRecord_def rec_ok_def val_bytes_def)
  then have f: "op_fits ?co (s_eng s) (CPut [1] [10])" using s(3) by simp
  have i: "s_idle (new_session None)" "c_idle ?c0" by (simp_all add: s_idle_def c_idle_def new_session_def bufio_NewWriter_def bw_idle_def)
  have a: "abs_write (s_abs s) (op_writes (CPut [1] [10])) = [[1] \<mapsto> [10]]" by (simp add: abs_write_def s(4) fun_eq_iff)
  obtain e1 q1 c1 where p: "client_call ?env (Some (e, new_session None)) ?c0 (CPut [1] [10]) = (Some (e1, q1), c1, AnsUnit (Ok ()))"
    "s_idle q1" "c_idle c1" "eng_reach (s\<lparr>s_eng := e1, s_abs := [[1] \<mapsto> [10]]\<rparr>)" (is "eng_reach ?s1")
    using client_refines_map [OF s(2) i env f] unfolding a s(3) by auto
  have g: "Engine_Get e1 [1] = Ok (Some [10])" "Engine_Get e1 [7] = Err ErrNotFound"
    using reads_as_key(2) [OF reach_reads_as [OF p(4)], of "[1]" "[10]"] reads_as_key(3) [OF reach_reads_as [OF p(4)], of "[7]"] by simp_all
  have f1: "op_fits ?co (s_eng ?s1) (CGet [1])" using g(1) by (simp add: val_bytes_def)
  obtain e2 q2 c2 where p2: "client_call ?env (Some (e1, q1)) c1 (CGet [1]) = (Some (e2, q2), c2, AnsValue (Ok [10]))" "s_idle q2" "c_idle c2"
    "eng_reach (s\<lparr>s_eng := e2, s_abs := [[1] \<mapsto> [10]]\<rparr>)" (is "eng_reach ?s2") using client_refines_map [OF p(4,2,3) env f1] by auto
  have "Engine_Get e2 [7] = Err ErrNotFound" using reads_as_key(3) [OF reach_reads_as [OF p2(4)], of "[7]"] by simp
  then have f2: "op_fits ?co (s_eng ?s2) (CGet [7])" by simp
  obtain st c3 where "client_call ?env (Some (e2, q2)) c2 (CGet [7]) = (st, c3, AnsValue (Err Client_ErrNotFound))"
    using client_refines_map [OF p2(4,2,3) env f2] by auto
  then show ?thesis using s(1) p(1) p2(1) by blast
qed

end
