(* ===== verification/Cli.thy ===== *)
theory Cli
  imports Client
begin

text \<open>
  The command-line client (\<open>cmd/client/main.go\<close>): the arguments after the flags, the call they ask for, and the exit code
  with the standard output; what goes to the standard error is left out. A panic of the program is the
  exit code 2. The lemmas put two runs of the program together: what \<open>put\<close> has stored, \<open>get\<close> prints.
\<close>

definition cli_line :: "bytes \<Rightarrow> bytes" where "cli_line b = b @ [10]"

text \<open>The outcome of a call that returns only an error.\<close>

fun cli_unit :: "'s \<times> Client \<times> unit res \<Rightarrow> 's \<times> nat \<times> bytes" where
  "cli_unit (s, c, Ok _) = (s, 0, cli_line (str_bytes ''OK''))"
| "cli_unit (s, c, Err _) = (s, 1, [])"
| "cli_unit (s, c, Panic) = (s, 2, [])"

fun cli_value :: "'s \<times> Client \<times> bytes res \<Rightarrow> 's \<times> nat \<times> bytes" where
  "cli_value (s, c, Ok v) = (s, 0, cli_line v)"
| "cli_value (s, c, Err _) = (s, 1, [])"
| "cli_value (s, c, Panic) = (s, 2, [])"

fun cli_scan :: "'s \<times> Client \<times> KVPair list res \<Rightarrow> 's \<times> nat \<times> bytes" where
  "cli_scan (s, c, Ok ps) = (s, 0, concat (map (\<lambda>p. cli_line (kv_Key p @ str_bytes '' = '' @ val_bytes (kv_Value p))) ps))"
| "cli_scan (s, c, Err _) = (s, 1, [])"
| "cli_scan (s, c, Panic) = (s, 2, [])"

text \<open>The connection is made before the arguments are looked at; \<open>conn\<close> is what the dial returned.\<close>

definition cli_main :: "('s \<Rightarrow> bytes \<Rightarrow> 's \<times> bytes) \<Rightarrow> nat option option \<Rightarrow> bytes list \<Rightarrow> 's \<Rightarrow> 's \<times> nat \<times> bytes" where
  "cli_main net conn args s =
     (if length args < 1 then (s, 1, [])
      else case Client_Connect conn of
        Panic \<Rightarrow> (s, 2, [])
      | Err _ \<Rightarrow> (s, 1, [])
      | Ok c \<Rightarrow>
          if args ! 0 = str_bytes ''put''
          then if length args \<noteq> 3 then (s, 1, []) else cli_unit (Client_Put net s c (args ! 1) (args ! 2))
          else if args ! 0 = str_bytes ''get''
          then if length args \<noteq> 2 then (s, 1, []) else cli_value (Client_Get net s c (args ! 1))
          else if args ! 0 = str_bytes ''delete''
          then if length args \<noteq> 2 then (s, 1, []) else cli_unit (Client_Delete net s c (args ! 1))
          else if args ! 0 = str_bytes ''scan''
          then if length args \<noteq> 3 then (s, 1, []) else cli_scan (Client_GetRange net s c (args ! 1) (args ! 2))
          else if args ! 0 = str_bytes ''batch''
          then if length args < 3 \<or> length args mod 2 \<noteq> 1 then (s, 1, [])
               else let n = (length args - 1) div 2 in
                    cli_unit (Client_BatchPut net s c (map (\<lambda>i. args ! (1 + 2 * i)) [0..<n]) (map (\<lambda>i. args ! (2 + 2 * i)) [0..<n]))
          else (s, 1, []))"

subsection \<open>Two runs of the program\<close>

lemma new_idle: "s_idle (new_session None)" "c_idle \<lparr>c_in = [], c_w = bufio_NewWriter None\<rparr>"
  by (simp_all add: s_idle_def c_idle_def new_session_def bufio_NewWriter_def bw_idle_def)

lemma cli_words: "str_bytes ''get'' \<noteq> str_bytes ''put''"
  by (simp add: str_bytes_def)

lemma cli_put_runs:
  assumes "eng_reach s" "\<forall>i. \<not> ce_closed env i" "ce_write env = (\<lambda>_. write_ok co)" "op_fits co (s_eng s) (CPut k v)"
  shows "\<exists>e' ses'. cli_main (tcp_net env) (Some None) [str_bytes ''put'', k, v] (Some (s_eng s, new_session None)) = (Some (e', ses'), 0, cli_line (str_bytes ''OK'')) \<and>
    eng_reach (s\<lparr>s_eng := e', s_abs := abs_write (s_abs s) [(k, Some v)]\<rparr>)"
proof -
  obtain e' ses' c' where "Client_Put (tcp_net env) (Some (s_eng s, new_session None)) \<lparr>c_in = [], c_w = bufio_NewWriter None\<rparr> k v = (Some (e', ses'), c', Ok ())"
    "eng_reach (s\<lparr>s_eng := e', s_abs := abs_write (s_abs s) [(k, Some v)]\<rparr>)"
    using client_put_runs [OF assms(1) new_idle assms(2-4)] by blast
  then show ?thesis by (simp add: cli_main_def Client_Connect_def)
qed

lemma cli_get_runs:
  assumes "eng_reach s" "\<forall>i. \<not> ce_closed env i" "ce_write env = (\<lambda>_. write_ok co)" "op_fits co (s_eng s) (CGet k)" "s_abs s k = Some v" "v \<noteq> []"
  shows "\<exists>ses'. cli_main (tcp_net env) (Some None) [str_bytes ''get'', k] (Some (s_eng s, new_session None)) = (Some (s_eng s, ses'), 0, cli_line v)"
proof -
  obtain ses' c' r where "Client_Get (tcp_net env) (Some (s_eng s, new_session None)) \<lparr>c_in = [], c_w = bufio_NewWriter None\<rparr> k = (Some (s_eng s, ses'), c', r)"
    "op_answer (s_abs s) (CGet k) (AnsValue r)" using client_get_runs [OF assms(1) new_idle assms(2-4)] by blast
  then show ?thesis using assms(5,6) cli_words by (simp add: cli_main_def Client_Connect_def)
qed

text \<open>What one run has put, the next one prints, from any reachable state of the engine.\<close>

theorem cli_put_get:
  assumes "eng_reach s" "\<forall>i. \<not> ce_closed env i" "ce_write env = (\<lambda>_. write_ok co)" "op_fits co (s_eng s) (CPut k v)" "v \<noteq> []"
  shows "\<exists>e' ses' ses2. cli_main (tcp_net env) (Some None) [str_bytes ''put'', k, v] (Some (s_eng s, new_session None)) = (Some (e', ses'), 0, cli_line (str_bytes ''OK'')) \<and>
    cli_main (tcp_net env) (Some None) [str_bytes ''get'', k] (Some (e', new_session None)) = (Some (e', ses2), 0, cli_line v)"
proof -
  obtain e' ses' where p: "cli_main (tcp_net env) (Some None) [str_bytes ''put'', k, v] (Some (s_eng s, new_session None)) = (Some (e', ses'), 0, cli_line (str_bytes ''OK''))"
    "eng_reach (s\<lparr>s_eng := e', s_abs := abs_write (s_abs s) [(k, Some v)]\<rparr>)" using cli_put_runs [OF assms(1-4)] by blast
  let ?s = "s\<lparr>s_eng := e', s_abs := abs_write (s_abs s) [(k, Some v)]\<rparr>"
  have a: "s_abs ?s k = Some v" using assms(5) by (cases v) (simp_all add: abs_write_def)
  then have "Engine_Get e' k = Ok (Some v)" using reads_as_key(2) [OF reach_reads_as [OF p(2)], of k v] assms(5) by simp
  then have "op_fits co (s_eng ?s) (CGet k)" using assms(4) by (simp add: val_bytes_def)
  from cli_get_runs [OF p(2) assms(2,3) this a assms(5)] show ?thesis using p(1) by auto
qed

end
