(* ===== verification/Raft_Net.thy ===== *)
theory Raft_Net
  imports Raft
begin

text \<open>
  A cluster of Raft nodes as a step system: elections, votes, replication, proposals, applying and
  restarts, in any order and with any delay or loss of messages. Each step is what a node does under
  its lock in one go. \<open>net/rpc\<close> answers a call at most once, so the life of a vote request is a state
  of its call; append requests and their replies may also be repeated. A restart builds the node anew
  from its two files. No system call fails in these runs, and terms and log indices do not wrap
  around.

  The fields \<open>g_\<close> are history: who voted for whom and with which log, who led which term and with which
  log, and who acknowledged how much of it; \<open>g_ids\<close> numbers the proposals, so that each has a channel of its own as in the source. The steps do
  not read the others.

  The theory shows that a term has at most one leader, although \<open>becomeFollowerLocked\<close> forgets the vote
  when a candidate hears of the leader of its own term: such a node may vote a second time, but it
  cannot win the term any more.
\<close>

subsection \<open>The system\<close>

datatype vote_call = NoCall | Sent RequestVoteArgs | Replied RequestVoteReply | Agreed | Winning | Counted | CallOver

record net =
  nodes :: "gostring \<Rightarrow> Raft"
  calls :: "gostring \<Rightarrow> 64 word \<Rightarrow> gostring \<Rightarrow> vote_call"
  votes :: "gostring \<Rightarrow> 64 word \<Rightarrow> nat"
  appends :: "(gostring \<times> gostring \<times> AppendEntriesArgs) set"
  replies :: "(gostring \<times> gostring \<times> AppendEntriesArgs \<times> AppendEntriesReply) set"
  applying :: "gostring \<Rightarrow> (64 word \<times> 64 word) option"
  g_votes :: "(gostring \<times> 64 word \<times> gostring) set"
  g_vlog :: "gostring \<Rightarrow> 64 word \<Rightarrow> LogEntry list"
  g_clog :: "gostring \<Rightarrow> 64 word \<Rightarrow> LogEntry list"
  g_led :: "64 word \<Rightarrow> gostring set"
  g_log :: "64 word \<Rightarrow> LogEntry list"
  g_base :: "64 word \<Rightarrow> nat"
  g_acks :: "(gostring \<times> 64 word \<times> nat) set"
  g_ids :: nat

definition set_node :: "net \<Rightarrow> gostring \<Rightarrow> Raft \<Rightarrow> net" where
  "set_node s n r = s\<lparr>nodes := (nodes s)(n := r)\<rparr>"

definition set_call :: "net \<Rightarrow> gostring \<Rightarrow> 64 word \<Rightarrow> gostring \<Rightarrow> vote_call \<Rightarrow> net" where
  "set_call s c t p x = s\<lparr>calls := (calls s)(c := (calls s c)(t := (calls s c t)(p := x)))\<rparr>"

definition ents :: "Raft \<Rightarrow> LogEntry list" where
  "ents r = l_entries (r_log r)"

text \<open>The configuration \<open>StartWithNodes\<close> builds: addresses and node ids, the peers of a node are the
  other addresses.\<close>

type_synonym conf = "(gostring \<times> gostring) list"

definition conf_ok :: "conf \<Rightarrow> bool" where
  "conf_ok conf \<longleftrightarrow> distinct (map fst conf) \<and> distinct (map snd conf) \<and> (\<forall>x\<in>set conf. snd x \<noteq> [] \<and> length (snd x) + 12 < 2 ^ 32)"

definition idof :: "conf \<Rightarrow> gostring \<Rightarrow> gostring" where
  "idof conf a = (case map_of conf a of None \<Rightarrow> [] | Some i \<Rightarrow> i)"

definition members :: "conf \<Rightarrow> gostring set" where
  "members conf = fst ` set conf"

definition others :: "conf \<Rightarrow> gostring \<Rightarrow> gostring list" where
  "others conf a = filter (\<lambda>b. b \<noteq> a) (map fst conf)"

inductive net_step :: "conf \<Rightarrow> net \<Rightarrow> net \<Rightarrow> bool" for conf where
  Start: "n \<in> members conf \<Longrightarrow> currentTerm (nodes s n) + 1 \<noteq> 0 \<Longrightarrow> startElection raft_ok (nodes s n) = (r', args) \<Longrightarrow>
    net_step conf s ((set_node s n r')\<lparr>
      calls := (calls s)(n := (calls s n)(rv_Term args := (\<lambda>p. if p \<in> set (peers r') then Sent args else NoCall))),
      votes := (votes s)(n := (votes s n)(rv_Term args := 1)),
      g_clog := (g_clog s)(n := (g_clog s n)(rv_Term args := ents r'))\<rparr>)"
| Vote: "p \<in> members conf \<Longrightarrow> calls s c t p = Sent args \<Longrightarrow> handleRequestVote raft_ok (nodes s p) args = (r', reply) \<Longrightarrow>
    net_step conf s ((set_call (set_node s p r') c t p (Replied reply))\<lparr>
      g_votes := (if rvr_VoteGranted reply then insert (p, t, c) (g_votes s) else g_votes s),
      g_vlog := (if rvr_VoteGranted reply then (g_vlog s)(p := (g_vlog s p)(t := ents r')) else g_vlog s)\<rparr>)"
| VoteReply: "calls s c t p = Replied reply \<Longrightarrow> voteReply raft_ok (nodes s c) reply = (r', go) \<Longrightarrow>
    net_step conf s (set_call (set_node s c r') c t p (if go then Agreed else CallOver))"
| CountVote: "calls s c t p = Agreed \<Longrightarrow> countVote (nodes s c) (votes s c t) = (v', won) \<Longrightarrow>
    net_step conf s ((set_call s c t p (if won then Winning else Counted))\<lparr>votes := (votes s)(c := (votes s c)(t := v'))\<rparr>)"
| Win: "calls s c t p = Winning \<Longrightarrow> electionWon (nodes s c) t = r' \<Longrightarrow>
    net_step conf s (set_call ((set_node s c r')\<lparr>
      g_led := (if r_state r' = Leader \<and> r_state (nodes s c) \<noteq> Leader then (g_led s)(t := insert c (g_led s t)) else g_led s),
      g_log := (if r_state r' = Leader \<and> r_state (nodes s c) \<noteq> Leader then (g_log s)(t := ents r') else g_log s),
      g_base := (if r_state r' = Leader \<and> r_state (nodes s c) \<noteq> Leader then (g_base s)(t := length (ents r')) else g_base s)\<rparr>) c t p Counted)"
| Replicate: "n \<in> members conf \<Longrightarrow> p \<in> set (peers (nodes s n)) \<Longrightarrow> replicateTo (nodes s n) p = Ok (Some args) \<Longrightarrow>
    net_step conf s (s\<lparr>appends := insert (n, p, args) (appends s)\<rparr>)"
| Append: "(n, p, args) \<in> appends s \<Longrightarrow> handleAppendEntries raft_ok (nodes s p) args = Ok (r', reply) \<Longrightarrow>
    net_step conf s ((set_node s p r')\<lparr>
      replies := insert (n, p, args, reply) (replies s),
      g_acks := (if aer_Success reply then insert (p, ae_Term args, unat (ae_PrevLogIndex args) + length (ae_Entries args)) (g_acks s) else g_acks s)\<rparr>)"
| AppendReply: "(n, p, args, reply) \<in> replies s \<Longrightarrow> replicateReply raft_ok (nodes s n) p args reply = Ok r' \<Longrightarrow>
    net_step conf s (set_node s n r')"
| Propose: "n \<in> members conf \<Longrightarrow> length data < 2 ^ 32 \<Longrightarrow> unat (LastIndex (r_log (nodes s n))) + 2 < 2 ^ 64 \<Longrightarrow>
    Propose raft_ok (nodes s n) cmd data (g_ids s) = (r', res) \<Longrightarrow>
    net_step conf s ((set_node s n r')\<lparr>
      g_log := (if res = Ok () then (g_log s)(currentTerm r' := ents r') else g_log s),
      g_acks := (if res = Ok () then insert (n, currentTerm r', length (ents r')) (g_acks s) else g_acks s),
      g_ids := Suc (g_ids s)\<rparr>)"
| ApplyTake: "n \<in> members conf \<Longrightarrow> applying s n = None \<Longrightarrow> applyTake (nodes s n) = Some (r', idx, commit) \<Longrightarrow>
    net_step conf s ((set_node s n r')\<lparr>applying := (applying s)(n := Some (idx, commit))\<rparr>)"
| ApplyNext: "n \<in> members conf \<Longrightarrow> applying s n = Some (idx, commit) \<Longrightarrow> applyNext (nodes s n) idx commit = Ok (r', go) \<Longrightarrow>
    net_step conf s ((set_node s n r')\<lparr>applying := (applying s)(n := (if go then Some (idx + 1, commit) else None))\<rparr>)"
| Restart: "n \<in> members conf \<Longrightarrow>
    NewRaftWithConfig new_ok (idof conf n) (others conf n) n (l_file (r_log (nodes s n))) (stateFile (nodes s n)) = Ok r' \<Longrightarrow>
    net_step conf s ((set_node s n r')\<lparr>applying := (applying s)(n := None)\<rparr>)"

definition net_init :: "conf \<Rightarrow> net \<Rightarrow> bool" where
  "net_init conf s \<longleftrightarrow> conf_ok conf \<and> (\<forall>n\<in>members conf. NewRaftWithConfig new_ok (idof conf n) (others conf n) n [] None = Ok (nodes s n)) \<and>
     calls s = (\<lambda>_ _ _. NoCall) \<and> votes s = (\<lambda>_ _. 0) \<and> appends s = {} \<and> replies s = {} \<and> applying s = (\<lambda>_. None) \<and>
     g_votes s = {} \<and> g_led s = (\<lambda>_. {}) \<and> g_log s = (\<lambda>_. []) \<and> g_base s = (\<lambda>_. 0) \<and> g_acks s = {} \<and> g_ids s = 0"

inductive net_reach :: "conf \<Rightarrow> net \<Rightarrow> bool" for conf where
  Init: "net_init conf s \<Longrightarrow> net_reach conf s"
| Step: "net_reach conf s \<Longrightarrow> net_step conf s s' \<Longrightarrow> net_reach conf s'"

subsection \<open>Majorities\<close>

lemma finite_members [simp]: "finite (members conf)"
  by (simp add: members_def)

lemma set_others: "a \<in> members conf \<Longrightarrow> set (others conf a) = members conf - {a}"
  by (auto simp: others_def members_def)

lemma length_others: "conf_ok conf \<Longrightarrow> a \<in> members conf \<Longrightarrow> length (others conf a) + 1 = card (members conf)"
proof -
  assume c: "conf_ok conf" "a \<in> members conf"
  have "distinct (others conf a)" using c(1) by (simp add: others_def conf_ok_def)
  then have "length (others conf a) = card (members conf - {a})" using set_others [OF c(2)] distinct_card by metis
  then show ?thesis using c(2) card_Suc_Diff1 [of "members conf" a] by simp
qed

lemma idof_inj: "conf_ok conf \<Longrightarrow> a \<in> members conf \<Longrightarrow> b \<in> members conf \<Longrightarrow> idof conf a = idof conf b \<Longrightarrow> a = b"
proof -
  assume c: "conf_ok conf" and a: "a \<in> members conf" "b \<in> members conf" "idof conf a = idof conf b"
  obtain i j where "(a, i) \<in> set conf" "(b, j) \<in> set conf" "i = j"
    using c a by (auto simp: members_def idof_def conf_ok_def)
  then show "a = b" using c by (metis conf_ok_def distinct_map inj_on_def prod.inject snd_conv)
qed

lemma idof_ok: "conf_ok conf \<Longrightarrow> a \<in> members conf \<Longrightarrow> idof conf a \<noteq> [] \<and> length (idof conf a) + 12 < 2 ^ 32"
  by (auto simp: members_def idof_def conf_ok_def)

lemma majorities_meet:
  assumes "finite N" "A \<subseteq> N" "B \<subseteq> N" "card N < 2 * card A" "card N < 2 * card B"
  shows "A \<inter> B \<noteq> {}"
proof
  assume "A \<inter> B = {}"
  then have "card (A \<union> B) = card A + card B" using assms by (meson card_Un_disjoint finite_subset)
  moreover have "card (A \<union> B) \<le> card N" using assms by (simp add: card_mono)
  ultimately show False using assms by simp
qed

subsection \<open>The election invariant\<close>

definition nodes_ok :: "conf \<Rightarrow> net \<Rightarrow> bool" where
  "nodes_ok conf s \<longleftrightarrow> conf_ok conf \<and> (\<forall>n\<in>members conf. ident (nodes s n) = (idof conf n, n, others conf n) \<and> saved (nodes s n) \<and>
     (r_state (nodes s n) \<noteq> Follower \<longrightarrow> votedFor (nodes s n) = idof conf n))"

fun granting :: "vote_call \<Rightarrow> bool" where
  "granting (Replied r) = rvr_VoteGranted r"
| "granting Agreed = True"
| "granting Winning = True"
| "granting Counted = True"
| "granting _ = False"

definition counted :: "net \<Rightarrow> gostring \<Rightarrow> 64 word \<Rightarrow> gostring set" where
  "counted s c t = {p. calls s c t p = Winning \<or> calls s c t p = Counted}"

definition calls_ok :: "conf \<Rightarrow> net \<Rightarrow> bool" where
  "calls_ok conf s \<longleftrightarrow> (\<forall>c t p. calls s c t p \<noteq> NoCall \<longrightarrow> c \<in> members conf \<and> p \<in> members conf \<and> p \<noteq> c \<and> t \<le> currentTerm (nodes s c) \<and>
     (\<forall>args. calls s c t p = Sent args \<longrightarrow> rv_Term args = t \<and> rv_CandidateID args = idof conf c) \<and>
     (granting (calls s c t p) \<longrightarrow> (p, t, c) \<in> g_votes s))"

definition votes_ok :: "conf \<Rightarrow> net \<Rightarrow> bool" where
  "votes_ok conf s \<longleftrightarrow> (\<forall>v t c. (v, t, c) \<in> g_votes s \<longrightarrow> v \<in> members conf \<and> c \<in> members conf \<and> v \<noteq> c \<and> t \<le> currentTerm (nodes s v) \<and>
     (t = currentTerm (nodes s v) \<longrightarrow> r_state (nodes s v) = Follower \<and> votedFor (nodes s v) = idof conf c) \<and>
     (\<forall>c'. (v, t, c') \<in> g_votes s \<longrightarrow> c' = c))"

definition tally_ok :: "conf \<Rightarrow> net \<Rightarrow> bool" where
  "tally_ok conf s \<longleftrightarrow> (\<forall>c\<in>members conf. \<forall>t. votes s c t \<le> 1 + card (counted s c t) \<and>
     (\<forall>p. calls s c t p = Winning \<longrightarrow> card (members conf) div 2 + 1 \<le> votes s c t))"

definition led_ok :: "conf \<Rightarrow> net \<Rightarrow> bool" where
  "led_ok conf s \<longleftrightarrow> (\<forall>t c. c \<in> g_led s t \<longrightarrow> c \<in> members conf \<and> t \<le> currentTerm (nodes s c) \<and>
       (t = currentTerm (nodes s c) \<longrightarrow> votedFor (nodes s c) = idof conf c) \<and> (\<forall>c'. (c, t, c') \<notin> g_votes s) \<and>
       card (members conf) < 2 * (1 + card {p. (p, t, c) \<in> g_votes s}) \<and> (\<forall>c'\<in>g_led s t. c' = c)) \<and>
     (\<forall>n\<in>members conf. r_state (nodes s n) = Leader \<longrightarrow> n \<in> g_led s (currentTerm (nodes s n)))"

definition msgs_ok :: "conf \<Rightarrow> net \<Rightarrow> bool" where
  "msgs_ok conf s \<longleftrightarrow> (\<forall>a b args. (a, b, args) \<in> appends s \<longrightarrow> a \<in> members conf \<and> b \<in> members conf \<and> a \<noteq> b \<and> a \<in> g_led s (ae_Term args)) \<and>
     (\<forall>a b args rep. (a, b, args, rep) \<in> replies s \<longrightarrow> (a, b, args) \<in> appends s)"

definition elec_inv :: "conf \<Rightarrow> net \<Rightarrow> bool" where
  "elec_inv conf s \<longleftrightarrow> nodes_ok conf s \<and> calls_ok conf s \<and> votes_ok conf s \<and> tally_ok conf s \<and> led_ok conf s \<and> msgs_ok conf s"

lemma elec_invD:
  assumes "elec_inv conf s"
  shows "nodes_ok conf s" "calls_ok conf s" "votes_ok conf s" "tally_ok conf s" "led_ok conf s" "msgs_ok conf s" "conf_ok conf"
  using assms by (simp_all add: elec_inv_def nodes_ok_def)

lemma elec_inv_applying: "elec_inv conf (s\<lparr>applying := x\<rparr>) \<longleftrightarrow> elec_inv conf s"
  by (simp add: elec_inv_def nodes_ok_def calls_ok_def votes_ok_def tally_ok_def led_ok_def msgs_ok_def counted_def)

text \<open>Changes of a node that cast no vote and win no election; \<open>lead\<close> says that it has led its term.\<close>

definition quiet_change :: "bool \<Rightarrow> Raft \<Rightarrow> Raft \<Rightarrow> bool" where
  "quiet_change lead r r' \<longleftrightarrow> ident r' = ident r \<and> saved r' \<and> currentTerm r \<le> currentTerm r' \<and>
     (r_state r' \<noteq> Follower \<longrightarrow> votedFor r' = nodeID r) \<and> (r_state r' = Leader \<longrightarrow> r_state r = Leader \<and> currentTerm r' = currentTerm r) \<and>
     (currentTerm r' = currentTerm r \<longrightarrow> (r_state r = Follower \<longrightarrow> r_state r' = Follower \<and> votedFor r' = votedFor r) \<and>
       (lead \<longrightarrow> votedFor r' = votedFor r))"

lemma set_node_simps [simp]:
  "nodes (set_node s n r) = (nodes s)(n := r)" "calls (set_node s n r) = calls s" "votes (set_node s n r) = votes s"
  "applying (set_node s n r) = applying s" "appends (set_node s n r) = appends s" "replies (set_node s n r) = replies s" "g_votes (set_node s n r) = g_votes s"
  "g_vlog (set_node s n r) = g_vlog s" "g_clog (set_node s n r) = g_clog s" "g_led (set_node s n r) = g_led s"
  "g_log (set_node s n r) = g_log s" "g_base (set_node s n r) = g_base s" "g_acks (set_node s n r) = g_acks s"
  by (simp_all add: set_node_def)

lemma set_call_simps [simp]:
  "nodes (set_call s c t p x) = nodes s" "votes (set_call s c t p x) = votes s"
  "applying (set_call s c t p x) = applying s" "appends (set_call s c t p x) = appends s" "replies (set_call s c t p x) = replies s" "g_votes (set_call s c t p x) = g_votes s"
  "g_vlog (set_call s c t p x) = g_vlog s" "g_clog (set_call s c t p x) = g_clog s" "g_led (set_call s c t p x) = g_led s"
  "g_log (set_call s c t p x) = g_log s" "g_base (set_call s c t p x) = g_base s" "g_acks (set_call s c t p x) = g_acks s"
  by (simp_all add: set_call_def)

lemma calls_set_call: "calls (set_call s c t p x) c' t' p' = (if c' = c \<and> t' = t \<and> p' = p then x else calls s c' t' p')"
  by (simp add: set_call_def)

lemma quiet_keeps:
  assumes inv: "elec_inv conf s" and n: "n \<in> members conf" and q: "quiet_change (n \<in> g_led s (currentTerm (nodes s n))) (nodes s n) r'"
  shows "elec_inv conf (set_node s n r')"
proof -
  note i = elec_invD [OF inv]
  have id: "ident (nodes s n) = (idof conf n, n, others conf n)" using i(1) n by (simp add: nodes_ok_def)
  have tm: "currentTerm (nodes s n) \<le> currentTerm r'" using q by (simp add: quiet_change_def)
  have "nodes_ok conf (set_node s n r')" using i(1) q id by (auto simp: nodes_ok_def quiet_change_def ident_def)
  moreover have "calls_ok conf (set_node s n r')" using i(2) tm by (force simp: calls_ok_def)
  moreover have "votes_ok conf (set_node s n r')"
    unfolding votes_ok_def
  proof (intro allI impI)
    fix v t c assume "(v, t, c) \<in> g_votes (set_node s n r')"
    then have g: "(v, t, c) \<in> g_votes s" by simp
    have o: "v \<in> members conf" "c \<in> members conf" "v \<noteq> c" "t \<le> currentTerm (nodes s v)" "\<forall>c'. (v, t, c') \<in> g_votes s \<longrightarrow> c' = c"
      and e: "t = currentTerm (nodes s v) \<Longrightarrow> r_state (nodes s v) = Follower \<and> votedFor (nodes s v) = idof conf c"
      using i(3) g unfolding votes_ok_def by blast+
    have le: "t \<le> currentTerm (nodes (set_node s n r') v)" using o(4) tm by (cases "v = n") auto
    have "r_state (nodes (set_node s n r') v) = Follower \<and> votedFor (nodes (set_node s n r') v) = idof conf c" if t: "t = currentTerm (nodes (set_node s n r') v)"
    proof (cases "v = n")
      case True
      then have "t = currentTerm r'" "t = currentTerm (nodes s n)" using t o(4) tm by auto
      then show ?thesis using True e q by (simp add: quiet_change_def)
    next
      case False
      then show ?thesis using t e by simp
    qed
    then show "v \<in> members conf \<and> c \<in> members conf \<and> v \<noteq> c \<and> t \<le> currentTerm (nodes (set_node s n r') v) \<and>
     (t = currentTerm (nodes (set_node s n r') v) \<longrightarrow> r_state (nodes (set_node s n r') v) = Follower \<and> votedFor (nodes (set_node s n r') v) = idof conf c) \<and>
     (\<forall>c'. (v, t, c') \<in> g_votes (set_node s n r') \<longrightarrow> c' = c)"
      using o(1-3,5) le by simp
  qed
  moreover have "tally_ok conf (set_node s n r')" using i(4) by (simp add: tally_ok_def counted_def)
  moreover have "led_ok conf (set_node s n r')"
    unfolding led_ok_def
  proof (intro conjI allI impI)
    fix t c assume "c \<in> g_led (set_node s n r') t"
    then have g: "c \<in> g_led s t" by simp
    have o: "c \<in> members conf" "t \<le> currentTerm (nodes s c)" "\<forall>c'. (c, t, c') \<notin> g_votes s"
      "card (members conf) < 2 * (1 + card {p. (p, t, c) \<in> g_votes s})" "\<forall>c'\<in>g_led s t. c' = c"
      and e: "t = currentTerm (nodes s c) \<Longrightarrow> votedFor (nodes s c) = idof conf c"
      using i(5) g unfolding led_ok_def by blast+
    show "c \<in> members conf" "\<forall>c'\<in>g_led (set_node s n r') t. c' = c"
      "card (members conf) < 2 * (1 + card {p. (p, t, c) \<in> g_votes (set_node s n r')})" using o(1,4,5) by simp_all
    show "t \<le> currentTerm (nodes (set_node s n r') c)" using o(2) tm by (cases "c = n") auto
    show "(c, t, c') \<notin> g_votes (set_node s n r')" for c' using o(3) by simp
    assume t: "t = currentTerm (nodes (set_node s n r') c)"
    show "votedFor (nodes (set_node s n r') c) = idof conf c"
    proof (cases "c = n")
      case True
      then have "t = currentTerm (nodes s n)" "t = currentTerm r'" using t o(2) tm by auto
      then show ?thesis using True e g q by (simp add: quiet_change_def)
    next
      case False
      then show ?thesis using t e by simp
    qed
  next
    show "\<forall>na\<in>members conf. r_state (nodes (set_node s n r') na) = Leader \<longrightarrow> na \<in> g_led (set_node s n r') (currentTerm (nodes (set_node s n r') na))"
      using i(5) q by (auto simp: led_ok_def quiet_change_def)
  qed
  moreover have "msgs_ok conf (set_node s n r')" using i(6) by (simp add: msgs_ok_def)
  ultimately show ?thesis by (simp add: elec_inv_def)
qed

text \<open>Each method, on a node that satisfies the invariant.\<close>

lemma quiet_same:
  assumes "saved r" "r_state r \<noteq> Follower \<longrightarrow> votedFor r = nodeID r"
    and "ident r' = ident r" "currentTerm r' = currentTerm r" "votedFor r' = votedFor r" "r_state r' = r_state r" "stateFile r' = stateFile r"
  shows "quiet_change lead r r'"
  using assms by (simp add: quiet_change_def saved_def)

lemma quiet_follower:
  assumes "currentTerm r < t" shows "quiet_change lead r (becomeFollowerLocked raft_ok r t ld)"
  using assms by (auto simp: quiet_change_def follower_ok ident_def saved_def)

lemma node_facts:
  assumes "elec_inv conf s" "n \<in> members conf"
  shows "saved (nodes s n)" "r_state (nodes s n) \<noteq> Follower \<longrightarrow> votedFor (nodes s n) = nodeID (nodes s n)" "nodeID (nodes s n) = idof conf n"
    "r_addr (nodes s n) = n" "peers (nodes s n) = others conf n"
  using assms by (auto simp: elec_inv_def nodes_ok_def ident_def)

lemma quiet_start:
  assumes "saved r" "currentTerm r + 1 \<noteq> 0" "startElection raft_ok r = (r', args)" "length (nodeID r) + 12 < 2 ^ 32"
  shows "quiet_change lead r r'"
proof -
  have "currentTerm r < currentTerm r + 1" using unat_Suc_word [OF assms(2)] by (simp add: word_less_nat_alt)
  then show ?thesis using startElection_ok(1) [OF assms(3)] assms(4) by (simp add: quiet_change_def ident_def saved_def)
qed

lemma quiet_voteReply:
  assumes "saved r" "r_state r \<noteq> Follower \<longrightarrow> votedFor r = nodeID r" "voteReply raft_ok r reply = (r', go)"
  shows "quiet_change lead r r'"
  using assms quiet_follower quiet_same by (auto simp: voteReply_def split: if_splits)

lemma quiet_replicateReply:
  assumes "saved r" "r_state r \<noteq> Follower \<longrightarrow> votedFor r = nodeID r" "replicateReply raft_ok r p args reply = Ok r'"
  shows "quiet_change lead r r'"
proof (cases "aer_Term reply > currentTerm r")
  case True
  then show ?thesis using assms(3) quiet_follower by (auto simp: replicateReply_def)
next
  case False
  have "ident r' = ident r \<and> currentTerm r' = currentTerm r \<and> votedFor r' = votedFor r \<and> r_state r' = r_state r \<and> stateFile r' = stateFile r"
    using assms(3) False advanceFrom_frame
    by (auto simp: replicateReply_def advanceCommitIndexLocked_def split: if_splits) (auto simp: ident_def dest!: advanceFrom_frame)
  then show ?thesis using quiet_same [OF assms(1,2)] by simp
qed

lemma quiet_Propose:
  assumes "saved r" "r_state r \<noteq> Follower \<longrightarrow> votedFor r = nodeID r" "Propose raft_ok r cmd data i = (r', res)"
  shows "quiet_change lead r r'"
proof -
  have "ident r' = ident r \<and> currentTerm r' = currentTerm r \<and> votedFor r' = votedFor r \<and> r_state r' = r_state r \<and> stateFile r' = stateFile r"
    using assms(3) by (auto simp: Propose_def Let_def ident_def split: if_splits prod.splits option.splits)
  then show ?thesis using quiet_same [OF assms(1,2)] by simp
qed

lemma node_restart_ok:
  assumes "saved r" "NewRaftWithConfig new_ok i ps ad content (stateFile r) = Ok r'"
  shows "ident r' = (i, ad, ps)" "currentTerm r' = currentTerm r" "votedFor r' = votedFor r" "r_state r' = Follower" "stateFile r' = stateFile r"
    "OpenLog log_ok content = Ok (r_log r')" "commitIndex r' = 0" "lastApplied r' = 0" "applyCh r' = []" "nextIndex r' = (\<lambda>_. 0)" "matchIndex r' = (\<lambda>_. 0)"
proof -
  obtain l where l: "OpenLog log_ok content = Ok l" using assms(2) by (auto simp: NewRaftWithConfig_def new_ok_def split: res.splits)
  let ?r0 = "\<lparr>currentTerm = 0, votedFor = [], r_log = l, r_state = Follower, commitIndex = 0, lastApplied = 0, leaderID = [],
                   nextIndex = (\<lambda>_. 0), matchIndex = (\<lambda>_. 0), nodeID = i, peers = ps, r_addr = ad, applyCh = [], commitCh = False,
                   proposals = [], doneCh = (\<lambda>_. None), stateFile = stateFile r\<rparr>"
  have "loadState True ?r0 = Ok (?r0\<lparr>currentTerm := currentTerm r, votedFor := votedFor r\<rparr>)" by (rule loadState_saved) (use assms(1) in simp_all)
  then have r': "r' = ?r0\<lparr>currentTerm := currentTerm r, votedFor := votedFor r\<rparr>" using assms(2) l by (simp add: NewRaftWithConfig_def new_ok_def)
  show "ident r' = (i, ad, ps)" "currentTerm r' = currentTerm r" "votedFor r' = votedFor r" "r_state r' = Follower" "stateFile r' = stateFile r"
    "OpenLog log_ok content = Ok (r_log r')" "commitIndex r' = 0" "lastApplied r' = 0" "applyCh r' = []" "nextIndex r' = (\<lambda>_. 0)" "matchIndex r' = (\<lambda>_. 0)"
    using l by (simp_all add: r' ident_def)
qed

lemma quiet_restart:
  assumes "elec_inv conf s" "n \<in> members conf" "NewRaftWithConfig new_ok (idof conf n) (others conf n) n content (stateFile (nodes s n)) = Ok r'"
  shows "quiet_change lead (nodes s n) r'"
proof -
  note sv = node_facts [OF assms(1,2)]
  note r = node_restart_ok [OF sv(1) assms(3)]
  have "ident (nodes s n) = (idof conf n, n, others conf n)" using sv by (simp add: ident_def)
  then show ?thesis using r sv(1) by (simp add: quiet_change_def saved_def)
qed

text \<open>The leader of a term does not hear from another leader of it.\<close>

lemma quiet_append:
  assumes inv: "elec_inv conf s" and m: "(a, n, args) \<in> appends s" and h: "handleAppendEntries raft_ok (nodes s n) args = Ok (r', reply)"
  shows "n \<in> members conf" "quiet_change (n \<in> g_led s (currentTerm (nodes s n))) (nodes s n) r'"
proof -
  note i = elec_invD [OF inv]
  have a: "n \<in> members conf" "a \<noteq> n" "a \<in> g_led s (ae_Term args)" using i(6) m by (auto simp: msgs_ok_def)
  then show "n \<in> members conf" by simp
  note sv = node_facts [OF inv a(1)] and r = handleAppendEntries_role [OF h]
  show "quiet_change (n \<in> g_led s (currentTerm (nodes s n))) (nodes s n) r'"
  proof (cases "ae_Term args < currentTerm (nodes s n)")
    case True
    then show ?thesis using r sv quiet_same by auto
  next
    case False
    have "n \<notin> g_led s (currentTerm (nodes s n))" if "ae_Term args = currentTerm (nodes s n)"
      using i(5) a(2,3) that unfolding led_ok_def by metis
    then show ?thesis using False r sv(1) by (auto simp: quiet_change_def saved_def split: if_splits)
  qed
qed

lemma quiet_novote:
  assumes "saved r" "r_state r \<noteq> Follower \<longrightarrow> votedFor r = nodeID r" "handleRequestVote raft_ok r args = (r', reply)" "\<not> rvr_VoteGranted reply"
  shows "quiet_change lead r r'"
  using handleRequestVote_ok(2) [OF assms(3,4)] quiet_follower [of r] quiet_same [OF assms(1,2), of r] by auto

text \<open>The life of a call.\<close>

definition is_count :: "vote_call \<Rightarrow> bool" where
  "is_count x \<longleftrightarrow> x = Winning \<or> x = Counted"

lemma call_keeps:
  assumes inv: "elec_inv conf s" and c: "calls s c t p \<noteq> NoCall" and x: "granting x \<longrightarrow> granting (calls s c t p)" "\<forall>args. x \<noteq> Sent args"
    "is_count x = is_count (calls s c t p)" "x = Winning \<longrightarrow> calls s c t p = Winning"
  shows "elec_inv conf (set_call s c t p x)"
proof -
  note i = elec_invD [OF inv]
  have co: "counted (set_call s c t p x) c' t' = counted s c' t'" for c' t'
    using x(3) by (auto simp: counted_def calls_set_call is_count_def)
  have "calls_ok conf (set_call s c t p x)" using i(2) c x unfolding calls_ok_def calls_set_call by simp
  moreover have "tally_ok conf (set_call s c t p x)" using i(4) x(4) unfolding tally_ok_def calls_set_call co by auto
  ultimately show ?thesis using i by (simp add: elec_inv_def nodes_ok_def votes_ok_def led_ok_def msgs_ok_def)
qed

lemma call_facts:
  assumes "elec_inv conf s" "calls s c t p = x" "x \<noteq> NoCall"
  shows "c \<in> members conf" "p \<in> members conf" "p \<noteq> c" "t \<le> currentTerm (nodes s c)" "granting x \<Longrightarrow> (p, t, c) \<in> g_votes s"
    "x = Sent args \<Longrightarrow> rv_Term args = t" "x = Sent args \<Longrightarrow> rv_CandidateID args = idof conf c"
  using elec_invD(2) [OF assms(1)] assms(3) unfolding calls_ok_def assms(2) [symmetric] by blast+

lemma calls_ok_change:
  assumes "elec_inv conf s" "calls s' = calls (set_call s c t p x)" "g_votes s \<subseteq> g_votes s'" "\<And>n. currentTerm (nodes s n) \<le> currentTerm (nodes s' n)"
    and "calls s c t p \<noteq> NoCall" "granting x \<longrightarrow> (p, t, c) \<in> g_votes s'" "\<forall>args. x \<noteq> Sent args"
  shows "calls_ok conf s'"
  unfolding calls_ok_def
proof (intro allI impI)
  fix c1 t1 p1 assume n: "calls s' c1 t1 p1 \<noteq> NoCall"
  have o: "calls s c1 t1 p1 \<noteq> NoCall" using n assms(2,5) by (auto simp: calls_set_call split: if_splits)
  note f = call_facts [OF assms(1) refl o]
  have t: "t1 \<le> currentTerm (nodes s' c1)" using f(4) assms(4) order_trans by blast
  show "c1 \<in> members conf \<and> p1 \<in> members conf \<and> p1 \<noteq> c1 \<and> t1 \<le> currentTerm (nodes s' c1) \<and>
     (\<forall>args. calls s' c1 t1 p1 = Sent args \<longrightarrow> rv_Term args = t1 \<and> rv_CandidateID args = idof conf c1) \<and> (granting (calls s' c1 t1 p1) \<longrightarrow> (p1, t1, c1) \<in> g_votes s')"
    using f t assms(2,3,6,7) by (cases "c1 = c \<and> t1 = t \<and> p1 = p") (auto simp: calls_set_call)
qed

lemma counted_finite: "elec_inv conf s \<Longrightarrow> counted s c t \<subseteq> members conf" "elec_inv conf s \<Longrightarrow> finite (counted s c t)"
proof -
  assume i: "elec_inv conf s"
  show "counted s c t \<subseteq> members conf" unfolding counted_def by (auto dest: call_facts(2) [OF i])
  then show "finite (counted s c t)" by (rule finite_subset) simp
qed

lemma count_keeps:
  assumes inv: "elec_inv conf s" and c: "calls s c t p = Agreed" and v: "countVote (nodes s c) (votes s c t) = (v', won)"
  shows "elec_inv conf ((set_call s c t p (if won then Winning else Counted))\<lparr>votes := (votes s)(c := (votes s c)(t := v'))\<rparr>)" (is "elec_inv conf ?s")
proof -
  note i = elec_invD [OF inv]
  have cm: "c \<in> members conf" "(p, t, c) \<in> g_votes s" using call_facts [OF inv c] by auto
  have maj: "v' = Suc (votes s c t)" "won \<longleftrightarrow> v' \<ge> card (members conf) div 2 + 1"
    using v node_facts(5) [OF inv cm(1)] length_others [OF i(7) cm(1)] by (auto simp: countVote_def majority_def)
  have co: "counted ?s c' t' = (if c' = c \<and> t' = t then insert p (counted s c t) else counted s c' t')" for c' t'
    by (auto simp: counted_def calls_set_call)
  have "p \<notin> counted s c t" using c by (simp add: counted_def)
  then have cd: "card (insert p (counted s c t)) = Suc (card (counted s c t))" using counted_finite [OF inv] by simp
  have "tally_ok conf ?s"
    unfolding tally_ok_def
  proof (intro ballI allI)
    fix c1 t1 assume "c1 \<in> members conf"
    then have o: "votes s c1 t1 \<le> 1 + card (counted s c1 t1)" "\<forall>p. calls s c1 t1 p = Winning \<longrightarrow> card (members conf) div 2 + 1 \<le> votes s c1 t1"
      using i(4) unfolding tally_ok_def by blast+
    show "votes ?s c1 t1 \<le> 1 + card (counted ?s c1 t1) \<and> (\<forall>p. calls ?s c1 t1 p = Winning \<longrightarrow> card (members conf) div 2 + 1 \<le> votes ?s c1 t1)"
    proof (cases "c1 = c \<and> t1 = t")
      case True
      then show ?thesis using o maj cd unfolding co by (auto simp: calls_set_call split: if_splits)
    next
      case False
      then show ?thesis using o unfolding co by (auto simp: calls_set_call)
    qed
  qed
  moreover have "calls_ok conf ?s" by (rule calls_ok_change [OF inv, of _ c t p]) (use c cm(2) in \<open>auto split: if_splits\<close>)
  ultimately show ?thesis using i by (simp add: elec_inv_def nodes_ok_def votes_ok_def led_ok_def msgs_ok_def)
qed

lemma voters_finite: assumes "elec_inv conf s" shows "{p. (p, t, c) \<in> g_votes s} \<subseteq> members conf" "finite {p. (p, t, c) \<in> g_votes s}"
proof -
  show "{p. (p, t, c) \<in> g_votes s} \<subseteq> members conf" using elec_invD(3) [OF assms] unfolding votes_ok_def by blast
  then show "finite {p. (p, t, c) \<in> g_votes s}" by (rule finite_subset) simp
qed

lemma more_votes: "n < 2 * (1 + a) \<Longrightarrow> a \<le> b \<Longrightarrow> n < 2 * (1 + (b :: nat))"
  by simp

lemma enough_votes: "n div 2 + 1 \<le> v \<Longrightarrow> v \<le> 1 + a \<Longrightarrow> a \<le> b \<Longrightarrow> n < 2 * (1 + (b :: nat))"
  by simp

lemma finite_insert_voters: "finite {q. (q, t', c') \<in> V} \<Longrightarrow> finite {q. (q, t', c') \<in> insert (p, t, c) V}"
  by (rule finite_subset [of _ "insert p {q. (q, t', c') \<in> V}"]) auto

lemma grant_keeps:
  assumes inv: "elec_inv conf s" and c: "calls s c t p = Sent args" and h: "handleRequestVote raft_ok (nodes s p) args = (r', reply)" "rvr_VoteGranted reply"
  shows "elec_inv conf ((set_call (set_node s p r') c t p (Replied reply))\<lparr>g_votes := insert (p, t, c) (g_votes s), g_vlog := vl\<rparr>)" (is "elec_inv conf ?s")
proof -
  note i = elec_invD [OF inv]
  have cm: "c \<in> members conf" "p \<in> members conf" "p \<noteq> c" "rv_Term args = t" "rv_CandidateID args = idof conf c"
    using call_facts [OF inv c] by auto
  note sv = node_facts [OF inv cm(2)]
  have ids: "idof conf p \<noteq> idof conf c" "idof conf p \<noteq> []" "length (idof conf c) + 12 < 2 ^ 32"
    using idof_inj [OF i(7) cm(2,1)] cm(3) idof_ok [OF i(7)] cm by auto
  note g = handleRequestVote_ok(1) [OF h] handleRequestVote_ok(3) [OF h(1)]
  have r': "currentTerm r' = t" "votedFor r' = idof conf c" "currentTerm (nodes s p) \<le> t" using g cm by (auto split: if_splits)
  have fo: "r_state r' = Follower" using g(1) sv ids cm by (auto split: if_splits)
  have new: "c' = c" if "(p, t, c') \<in> g_votes s" for c'
  proof -
    have "c' \<in> members conf" "t \<le> currentTerm (nodes s p)" "t = currentTerm (nodes s p) \<Longrightarrow> votedFor (nodes s p) = idof conf c'"
      using i(3) that unfolding votes_ok_def by blast+
    then have "idof conf c' = idof conf c" using g(1) cm(4,5) idof_ok [OF i(7), of c'] r'(3) by (auto split: if_splits)
    then show ?thesis using idof_inj [OF i(7)] \<open>c' \<in> members conf\<close> cm(1) by blast
  qed
  have notled: "p \<notin> g_led s t"
  proof
    assume l: "p \<in> g_led s t"
    then have "t \<le> currentTerm (nodes s p)" "t = currentTerm (nodes s p) \<longrightarrow> votedFor (nodes s p) = idof conf p" using i(5) unfolding led_ok_def by blast+
    then show False using g(1) cm(4,5) ids r'(3) by (auto split: if_splits)
  qed
  have svd: "saved r'" by (rule handleRequestVote_saved [OF h(1) sv(1)]) (use cm ids in simp)
  have "nodes_ok conf ?s" using i(1) g(2) svd fo by (auto simp: nodes_ok_def)
  moreover have "calls_ok conf ?s" by (rule calls_ok_change [OF inv, of _ c t p "Replied reply"]) (use c r' in \<open>auto simp: set_call_def\<close>)
  moreover have "votes_ok conf ?s"
    unfolding votes_ok_def
  proof (intro allI impI)
    fix v t' c1 assume "(v, t', c1) \<in> g_votes ?s"
    then have "(v, t', c1) = (p, t, c) \<or> (v, t', c1) \<in> g_votes s" by auto
    moreover have u: "\<forall>c'. (v, t', c') \<in> g_votes ?s \<longrightarrow> c' = c1"
    proof (intro allI impI)
      fix c' assume "(v, t', c') \<in> g_votes ?s"
      then have "(v, t', c') = (p, t, c) \<or> (v, t', c') \<in> g_votes s" by auto
      then show "c' = c1" using calculation new i(3) unfolding votes_ok_def by blast
    qed
    ultimately show "v \<in> members conf \<and> c1 \<in> members conf \<and> v \<noteq> c1 \<and> t' \<le> currentTerm (nodes ?s v) \<and>
     (t' = currentTerm (nodes ?s v) \<longrightarrow> r_state (nodes ?s v) = Follower \<and> votedFor (nodes ?s v) = idof conf c1) \<and> (\<forall>c'. (v, t', c') \<in> g_votes ?s \<longrightarrow> c' = c1)"
    proof (elim disjE)
      assume "(v, t', c1) = (p, t, c)"
      then show ?thesis using u cm r' fo by simp
    next
      assume o: "(v, t', c1) \<in> g_votes s"
      then have f: "v \<in> members conf" "c1 \<in> members conf" "v \<noteq> c1" "t' \<le> currentTerm (nodes s v)"
        "t' = currentTerm (nodes s v) \<longrightarrow> r_state (nodes s v) = Follower \<and> votedFor (nodes s v) = idof conf c1" using i(3) unfolding votes_ok_def by blast+
      show ?thesis
      proof (cases "v = p")
        case True
        then have "t' = t \<Longrightarrow> c1 = c" using new o by simp
        then show ?thesis using True u f cm r' fo by (auto intro: order_trans)
      next
        case False
        then show ?thesis using u f by simp
      qed
    qed
  qed
  moreover have "tally_ok conf ?s"
  proof -
    have co: "counted ?s c' t' = counted s c' t'" for c' t' using c by (auto simp: counted_def calls_set_call)
    have wi: "calls ?s c1 t1 p1 = Winning \<Longrightarrow> calls s c1 t1 p1 = Winning" for c1 t1 p1 by (auto simp: calls_set_call split: if_splits)
    have vo: "votes ?s = votes s" by simp
    show ?thesis using i(4) wi unfolding tally_ok_def co vo by blast
  qed
  moreover have "led_ok conf ?s"
    unfolding led_ok_def
  proof (intro conjI allI impI)
    fix t' c1 assume "c1 \<in> g_led ?s t'"
    then have l: "c1 \<in> g_led s t'" by simp
    then have o: "c1 \<in> members conf" "t' \<le> currentTerm (nodes s c1)" "\<forall>c'. (c1, t', c') \<notin> g_votes s"
      "card (members conf) < 2 * (1 + card {p. (p, t', c1) \<in> g_votes s})" "\<forall>c'\<in>g_led s t'. c' = c1"
      and e: "t' = currentTerm (nodes s c1) \<Longrightarrow> votedFor (nodes s c1) = idof conf c1"
      using i(5) unfolding led_ok_def by blast+
    show "c1 \<in> members conf" "\<forall>c'\<in>g_led ?s t'. c' = c1" using o(1,5) by simp_all
    show "t' \<le> currentTerm (nodes ?s c1)" using o(2) r' by (cases "c1 = p") auto
    show "(c1, t', c') \<notin> g_votes ?s" for c' using o(3) l notled by auto
    have "finite {p. (p, t', c1) \<in> g_votes ?s}" using finite_insert_voters [OF voters_finite(2) [OF inv]] by simp
    then have "card {p. (p, t', c1) \<in> g_votes s} \<le> card {p. (p, t', c1) \<in> g_votes ?s}" by (rule card_mono) auto
    then show "card (members conf) < 2 * (1 + card {p. (p, t', c1) \<in> g_votes ?s})" by (rule more_votes [OF o(4)])
    assume "t' = currentTerm (nodes ?s c1)"
    then show "votedFor (nodes ?s c1) = idof conf c1" using e l notled r' o(2) by (cases "c1 = p") auto
  next
    show "\<forall>n\<in>members conf. r_state (nodes ?s n) = Leader \<longrightarrow> n \<in> g_led ?s (currentTerm (nodes ?s n))" using i(5) fo by (auto simp: led_ok_def)
  qed
  moreover have "msgs_ok conf ?s" using i(6) by (simp add: msgs_ok_def)
  ultimately show ?thesis by (simp add: elec_inv_def)
qed

lemma win_keeps:
  assumes inv: "elec_inv conf s" and c: "calls s c t p = Winning" and w: "r_state (nodes s c) = Candidate" "currentTerm (nodes s c) = t"
  shows "elec_inv conf ((set_node s c (becomeLeaderLocked (nodes s c)))\<lparr>g_led := (g_led s)(t := insert c (g_led s t)), g_log := gl, g_base := gb\<rparr>)" (is "elec_inv conf ?s")
proof -
  note i = elec_invD [OF inv]
  have cm: "c \<in> members conf" using call_facts [OF inv c] by auto
  note sv = node_facts [OF inv cm]
  let ?r = "becomeLeaderLocked (nodes s c)"
  have r: "ident ?r = ident (nodes s c)" "currentTerm ?r = t" "votedFor ?r = idof conf c" "r_state ?r = Leader" "saved ?r = saved (nodes s c)"
    using sv w by (simp_all add: becomeLeaderLocked_def Let_def ident_def saved_def)
  have sub: "counted s c t \<subseteq> {q. (q, t, c) \<in> g_votes s}" using call_facts(5) [OF inv] by (auto simp: counted_def)
  have "card (members conf) div 2 + 1 \<le> votes s c t" "votes s c t \<le> 1 + card (counted s c t)" using i(4) cm c unfolding tally_ok_def by blast+
  then have quorum: "card (members conf) < 2 * (1 + card {q. (q, t, c) \<in> g_votes s})"
    by (rule enough_votes) (rule card_mono [OF voters_finite(2) [OF inv] sub])
  have novote: "(c, t, c') \<notin> g_votes s" for c'
  proof
    assume "(c, t, c') \<in> g_votes s"
    then have "t = currentTerm (nodes s c) \<longrightarrow> r_state (nodes s c) = Follower" using i(3) unfolding votes_ok_def by blast
    then show False using w by simp
  qed
  have one: "c' = c" if l: "c' \<in> g_led s t" for c'
  proof (rule ccontr)
    assume ne: "c' \<noteq> c"
    have o: "c' \<in> members conf" "\<forall>d. (c', t, d) \<notin> g_votes s" "card (members conf) < 2 * (1 + card {q. (q, t, c') \<in> g_votes s})"
      using i(5) l unfolding led_ok_def by blast+
    let ?A = "insert c {q. (q, t, c) \<in> g_votes s}" and ?B = "insert c' {q. (q, t, c') \<in> g_votes s}"
    have "card ?A = 1 + card {q. (q, t, c) \<in> g_votes s}" "card ?B = 1 + card {q. (q, t, c') \<in> g_votes s}"
      using voters_finite(2) [OF inv] novote o(2) by simp_all
    then have "?A \<inter> ?B \<noteq> {}"
      using quorum o(1,3) cm voters_finite(1) [OF inv] by (intro majorities_meet [of "members conf"]) simp_all
    then obtain q where q: "q \<in> ?A" "q \<in> ?B" by blast
    have "(q, t, c) \<in> g_votes s" "(q, t, c') \<in> g_votes s" using q ne novote o(2) by auto
    then show False using i(3) ne unfolding votes_ok_def by blast
  qed
  have "nodes_ok conf ?s" using i(1) r sv by (auto simp: nodes_ok_def)
  moreover have "calls_ok conf ?s"
  proof -
    have "currentTerm (nodes ?s n) = currentTerm (nodes s n)" for n using r(2) w(2) by simp
    moreover have "calls ?s = calls s" "g_votes ?s = g_votes s" by simp_all
    ultimately show ?thesis using i(2) unfolding calls_ok_def by (simp only:)
  qed
  moreover have "votes_ok conf ?s"
    unfolding votes_ok_def
  proof (intro allI impI)
    fix v t' c1 assume "(v, t', c1) \<in> g_votes ?s"
    then have g: "(v, t', c1) \<in> g_votes s" by simp
    then have o: "v \<in> members conf" "c1 \<in> members conf" "v \<noteq> c1" "t' \<le> currentTerm (nodes s v)" "\<forall>c'. (v, t', c') \<in> g_votes s \<longrightarrow> c' = c1"
      "t' = currentTerm (nodes s v) \<longrightarrow> r_state (nodes s v) = Follower \<and> votedFor (nodes s v) = idof conf c1" using i(3) unfolding votes_ok_def by blast+
    have "v = c \<Longrightarrow> t' \<noteq> t" using g novote by auto
    then show "v \<in> members conf \<and> c1 \<in> members conf \<and> v \<noteq> c1 \<and> t' \<le> currentTerm (nodes ?s v) \<and>
     (t' = currentTerm (nodes ?s v) \<longrightarrow> r_state (nodes ?s v) = Follower \<and> votedFor (nodes ?s v) = idof conf c1) \<and> (\<forall>c'. (v, t', c') \<in> g_votes ?s \<longrightarrow> c' = c1)"
      using o r(2) w(2) by (cases "v = c") simp_all
  qed
  moreover have "tally_ok conf ?s" using i(4) by (simp add: tally_ok_def counted_def)
  moreover have "led_ok conf ?s"
    unfolding led_ok_def
  proof (intro conjI allI impI)
    fix t' c1 assume l: "c1 \<in> g_led ?s t'"
    have "(c1 \<in> members conf \<and> t' \<le> currentTerm (nodes ?s c1) \<and> (\<forall>c'. (c1, t', c') \<notin> g_votes s) \<and> card (members conf) < 2 * (1 + card {p. (p, t', c1) \<in> g_votes s})) \<and>
      (\<forall>c'\<in>g_led ?s t'. c' = c1) \<and> (t' = currentTerm (nodes ?s c1) \<longrightarrow> votedFor (nodes ?s c1) = idof conf c1)"
    proof (cases "t' = t")
      case True
      then have "c1 = c" using l one by auto
      then show ?thesis using True cm r novote quorum one by simp
    next
      case False
      then have l': "c1 \<in> g_led s t'" using l by simp
      have o: "c1 \<in> members conf" "t' \<le> currentTerm (nodes s c1)" "\<forall>c'. (c1, t', c') \<notin> g_votes s"
        "card (members conf) < 2 * (1 + card {p. (p, t', c1) \<in> g_votes s})" "\<forall>c'\<in>g_led s t'. c' = c1"
        and e: "t' = currentTerm (nodes s c1) \<Longrightarrow> votedFor (nodes s c1) = idof conf c1"
        using i(5) l' unfolding led_ok_def by blast+
      have "g_led ?s t' = g_led s t'" using False by simp
      moreover have "t' \<le> currentTerm (nodes ?s c1) \<and> (t' = currentTerm (nodes ?s c1) \<longrightarrow> votedFor (nodes ?s c1) = idof conf c1)"
        using o(2) e r(2,3) w(2) by (cases "c1 = c") simp_all
      ultimately show ?thesis using o(1,3-5) by metis
    qed
    then show "c1 \<in> members conf" "\<forall>c'\<in>g_led ?s t'. c' = c1" "t' \<le> currentTerm (nodes ?s c1)" "card (members conf) < 2 * (1 + card {p. (p, t', c1) \<in> g_votes ?s})"
      "t' = currentTerm (nodes ?s c1) \<Longrightarrow> votedFor (nodes ?s c1) = idof conf c1" "\<And>c'. (c1, t', c') \<notin> g_votes ?s"
      by simp_all
  next
    show "\<forall>n\<in>members conf. r_state (nodes ?s n) = Leader \<longrightarrow> n \<in> g_led ?s (currentTerm (nodes ?s n))" using i(5) r(2) by (auto simp: led_ok_def)
  qed
  moreover have "msgs_ok conf ?s" using i(6) by (auto simp: msgs_ok_def)
  ultimately show ?thesis by (simp add: elec_inv_def)
qed

lemma start_keeps:
  assumes inv: "elec_inv conf s" and n: "n \<in> members conf" "currentTerm (nodes s n) + 1 \<noteq> 0" and st: "startElection raft_ok (nodes s n) = (r', args)"
  shows "elec_inv conf ((set_node s n r')\<lparr>
      calls := (calls s)(n := (calls s n)(rv_Term args := (\<lambda>p. if p \<in> set (peers r') then Sent args else NoCall))),
      votes := (votes s)(n := (votes s n)(rv_Term args := 1)), g_clog := gc\<rparr>)" (is "elec_inv conf ?s")
proof -
  note sv = node_facts [OF inv n(1)] and so = startElection_ok [OF st]
  have cf: "conf_ok conf" by (rule elec_invD(7) [OF inv])
  have q: "elec_inv conf (set_node s n r')"
    by (rule quiet_keeps [OF inv n(1) quiet_start [OF sv(1) n(2) st]]) (use idof_ok [OF cf n(1)] sv(3) in simp)
  note i = elec_invD [OF q]
  have ps: "set (peers r') = members conf - {n}" using so(1) sv(5) set_others [OF n(1)] by simp
  have args: "rv_Term args = currentTerm r'" "rv_CandidateID args = idof conf n" using so sv(3) by simp_all
  let ?t = "rv_Term args"
  have new: "calls s n ?t p = NoCall" for p
  proof (rule ccontr)
    assume "calls s n ?t p \<noteq> NoCall"
    then have "?t \<le> currentTerm (nodes s n)" using call_facts(4) [OF inv refl] by blast
    then show False using so(2) unat_Suc_word [OF n(2)] by (simp add: word_le_nat_alt)
  qed
  have ca: "calls ?s c t p = (if c = n \<and> t = ?t then if p \<in> members conf - {n} then Sent args else NoCall else calls s c t p)" for c t p
    by (simp add: ps)
  have "calls_ok conf ?s"
    unfolding calls_ok_def
  proof (intro allI impI)
    fix c t p assume nc: "calls ?s c t p \<noteq> NoCall"
    show "c \<in> members conf \<and> p \<in> members conf \<and> p \<noteq> c \<and> t \<le> currentTerm (nodes ?s c) \<and>
     (\<forall>args. calls ?s c t p = Sent args \<longrightarrow> rv_Term args = t \<and> rv_CandidateID args = idof conf c) \<and> (granting (calls ?s c t p) \<longrightarrow> (p, t, c) \<in> g_votes ?s)"
    proof (cases "c = n \<and> t = ?t")
      case True
      then show ?thesis using nc n(1) args unfolding ca by (simp split: if_splits)
    next
      case False
      then have "calls (set_node s n r') c t p \<noteq> NoCall" using nc unfolding ca by (auto split: if_splits)
      from call_facts [OF q refl this] show ?thesis using False unfolding ca by auto
    qed
  qed
  moreover have "tally_ok conf ?s"
    unfolding tally_ok_def
  proof (intro ballI allI)
    fix c t assume c: "c \<in> members conf"
    show "votes ?s c t \<le> 1 + card (counted ?s c t) \<and> (\<forall>p. calls ?s c t p = Winning \<longrightarrow> card (members conf) div 2 + 1 \<le> votes ?s c t)"
    proof (cases "c = n \<and> t = ?t")
      case True
      then show ?thesis unfolding ca by (auto split: if_splits)
    next
      case False
      then have e: "calls ?s c t = calls s c t" "votes ?s c t = votes s c t" by (auto simp: ca)
      then have "counted ?s c t = counted s c t" by (simp add: counted_def)
      then show ?thesis using elec_invD(4) [OF inv] c unfolding tally_ok_def e by simp
    qed
  qed
  ultimately show ?thesis using i by (simp add: elec_inv_def nodes_ok_def votes_ok_def led_ok_def msgs_ok_def)
qed

lemma elec_inv_step: assumes "net_step conf s s'" "elec_inv conf s" shows "elec_inv conf s'"
  using assms
proof (induction rule: net_step.induct)
  case (Start n s r' args)
  then show ?case using start_keeps by blast
next
  case (Vote p s c t args r' reply)
  note f = node_facts [OF Vote.prems Vote.hyps(1)]
  show ?case
  proof (cases "rvr_VoteGranted reply")
    case True
    then show ?thesis using grant_keeps [OF Vote.prems Vote.hyps(2,3)] by simp
  next
    case False
    have "elec_inv conf (set_node s p r')" by (rule quiet_keeps [OF Vote.prems Vote.hyps(1) quiet_novote [OF f(1,2) Vote.hyps(3) False]])
    then have "elec_inv conf (set_call (set_node s p r') c t p (Replied reply))"
      by (rule call_keeps) (use Vote.hyps(2) False in \<open>simp_all add: is_count_def\<close>)
    then show ?thesis using False by (simp add: elec_inv_def nodes_ok_def calls_ok_def votes_ok_def tally_ok_def led_ok_def msgs_ok_def counted_def)
  qed
next
  case (VoteReply s c t p reply r' go)
  have c: "c \<in> members conf" using call_facts [OF VoteReply.prems VoteReply.hyps(1)] by simp
  note f = node_facts [OF VoteReply.prems c]
  have "elec_inv conf (set_node s c r')" by (rule quiet_keeps [OF VoteReply.prems c quiet_voteReply [OF f(1,2) VoteReply.hyps(2)]])
  then show ?case by (rule call_keeps) (use VoteReply.hyps in \<open>auto simp: is_count_def voteReply_def split: if_splits\<close>)
next
  case (CountVote s c t p v' won)
  then show ?case using count_keeps by blast
next
  case (Win s c t p r')
  have "elec_inv conf ((set_node s c r')\<lparr>
      g_led := (if r_state r' = Leader \<and> r_state (nodes s c) \<noteq> Leader then (g_led s)(t := insert c (g_led s t)) else g_led s),
      g_log := (if r_state r' = Leader \<and> r_state (nodes s c) \<noteq> Leader then (g_log s)(t := ents r') else g_log s),
      g_base := (if r_state r' = Leader \<and> r_state (nodes s c) \<noteq> Leader then (g_base s)(t := length (ents r')) else g_base s)\<rparr>)" (is "elec_inv conf ?s")
  proof (cases "r_state (nodes s c) = Candidate \<and> currentTerm (nodes s c) = t")
    case True
    then have "r' = becomeLeaderLocked (nodes s c)" "r_state r' = Leader" "r_state (nodes s c) \<noteq> Leader" using Win.hyps(2) by (auto simp: electionWon_def becomeLeaderLocked_def Let_def)
    then show ?thesis using win_keeps [OF Win.prems Win.hyps(1)] True by simp
  next
    case False
    then have "r' = nodes s c" using Win.hyps(2) by (auto simp: electionWon_def)
    moreover have "\<not> (r_state r' = Leader \<and> r_state (nodes s c) \<noteq> Leader)" using calculation by simp
    ultimately show ?thesis using Win.prems by (simp add: set_node_def)
  qed
  then show ?case by (rule call_keeps) (use Win.hyps(1) in \<open>simp_all add: is_count_def\<close>)
next
  case (Replicate n p s args)
  note f = node_facts [OF Replicate.prems Replicate.hyps(1)] and i = elec_invD [OF Replicate.prems]
  have "r_state (nodes s n) = Leader" "ae_Term args = currentTerm (nodes s n)"
    using Replicate.hyps(3) by (auto simp: replicateTo_def res_bind_Ok_iff Let_def split: if_splits)
  moreover have "p \<in> members conf" "p \<noteq> n" using Replicate.hyps(1,2) f(5) set_others [of n conf] by auto
  ultimately have "msgs_ok conf (s\<lparr>appends := insert (n, p, args) (appends s)\<rparr>)" using i(5,6) Replicate.hyps(1) by (auto simp: msgs_ok_def led_ok_def)
  then show ?case using i by (simp add: elec_inv_def nodes_ok_def calls_ok_def votes_ok_def tally_ok_def led_ok_def counted_def)
next
  case (Append n p args s r' reply)
  have q: "elec_inv conf (set_node s p r')" by (rule quiet_keeps [OF Append.prems quiet_append [OF Append.prems Append.hyps]])
  note i = elec_invD [OF q]
  have "msgs_ok conf ((set_node s p r')\<lparr>replies := insert (n, p, args, reply) (replies s), g_acks := ga\<rparr>)" for ga using i(6) Append.hyps(1) by (auto simp: msgs_ok_def)
  then show ?case using i by (simp add: elec_inv_def nodes_ok_def calls_ok_def votes_ok_def tally_ok_def led_ok_def counted_def)
next
  case (AppendReply n p args reply s r')
  have n: "n \<in> members conf" using elec_invD(6) [OF AppendReply.prems] AppendReply.hyps(1) unfolding msgs_ok_def by blast
  note f = node_facts [OF AppendReply.prems n]
  show ?case by (rule quiet_keeps [OF AppendReply.prems n quiet_replicateReply [OF f(1,2) AppendReply.hyps(2)]])
next
  case (Propose n data s cmd r' res)
  note f = node_facts [OF Propose.prems Propose.hyps(1)]
  have "elec_inv conf (set_node s n r')" by (rule quiet_keeps [OF Propose.prems Propose.hyps(1) quiet_Propose [OF f(1,2) Propose.hyps(4)]])
  then show ?case by (simp add: elec_inv_def nodes_ok_def calls_ok_def votes_ok_def tally_ok_def led_ok_def msgs_ok_def counted_def)
next
  case (ApplyTake n s r' idx commit)
  note f = node_facts [OF ApplyTake.prems ApplyTake.hyps(1)]
  have "quiet_change lead (nodes s n) r'" for lead
    using quiet_same [OF f(1,2), of r'] applyTake_frame [OF ApplyTake.hyps(3)] by (simp add: ident_def)
  from quiet_keeps [OF ApplyTake.prems ApplyTake.hyps(1) this] show ?case by (simp add: elec_inv_applying)
next
  case (ApplyNext n s idx commit r' go)
  note f = node_facts [OF ApplyNext.prems ApplyNext.hyps(1)]
  have "quiet_change lead (nodes s n) r'" for lead using quiet_same [OF f(1,2), of r'] applyNext_frame [OF ApplyNext.hyps(3)] by blast
  from quiet_keeps [OF ApplyNext.prems ApplyNext.hyps(1) this] show ?case by (simp add: elec_inv_applying)
next
  case (Restart n s r')
  from quiet_keeps [OF Restart.prems Restart.hyps(1) quiet_restart [OF Restart.prems Restart.hyps]] show ?case by (simp add: elec_inv_applying)
qed

lemma elec_inv_init: "net_init conf s \<Longrightarrow> elec_inv conf s"
proof -
  assume i: "net_init conf s"
  have n: "ident (nodes s n) = (idof conf n, n, others conf n) \<and> saved (nodes s n) \<and> r_state (nodes s n) = Follower" if "n \<in> members conf" for n
  proof -
    let ?r0 = "undefined\<lparr>currentTerm := 0, votedFor := [], stateFile := None\<rparr>"
    have sv: "saved ?r0" by (simp add: saved_def)
    have "NewRaftWithConfig new_ok (idof conf n) (others conf n) n [] (stateFile ?r0) = Ok (nodes s n)" using i that by (simp add: net_init_def)
    from node_restart_ok(1-5) [OF sv this] show ?thesis using sv by (simp add: saved_def)
  qed
  then show ?thesis using i by (simp add: net_init_def elec_inv_def nodes_ok_def calls_ok_def votes_ok_def tally_ok_def led_ok_def msgs_ok_def)
qed

lemma elec_inv_reach: "net_reach conf s \<Longrightarrow> elec_inv conf s"
  by (induction rule: net_reach.induct) (auto intro: elec_inv_init elec_inv_step)

subsection \<open>Properties\<close>

text \<open>C6. Election safety. In every reachable state of a cluster, whatever messages are lost, delayed or
  reordered and whichever nodes restart, two leaders of the same term are the same node.\<close>

theorem raft_election_safety:
  assumes "net_reach conf s" "a \<in> members conf" "b \<in> members conf"
    and "r_state (nodes s a) = Leader" "r_state (nodes s b) = Leader" "currentTerm (nodes s a) = currentTerm (nodes s b)"
  shows "a = b"
  using elec_invD(5) [OF elec_inv_reach [OF assms(1)]] assms(2-6) unfolding led_ok_def by metis

end
