(* ===== verification/Raft_Run.thy ===== *)
theory Raft_Run
  imports Raft_Net
begin

text \<open>
  Runs of a cluster, a few steps at a time: an election that is won by one vote, one replication to a
  peer with its reply, a proposal, applying, a restart. Each lemma gives the nodes after the steps from
  the nodes before them, so that a run of a concrete cluster is followed by evaluating the methods on
  the nodes. Such runs are the instances at which the theorems on reachable states are used.
\<close>

lemma fresh_log: "log_replay [] [] = []"
  using rl.replay_all [of "[]" "[]"] by simp

text \<open>A log of given entries, with its file.\<close>

definition log_of :: "LogEntry list \<Rightarrow> Log" where
  "log_of es = \<lparr>l_entries = es, l_file = log_bytes es, l_pos = length (log_bytes es), l_open = True\<rparr>"

lemma log_of_entries [simp]: "l_entries (log_of es) = es"
  by (simp add: log_of_def)

lemma log_of_is: "list_all lentry_ok es \<Longrightarrow> log_is (log_of es)" "log_is l \<Longrightarrow> l = log_of (l_entries l)"
  by (auto simp: log_is_def log_of_def)

lemma log_of_append: "list_all lentry_ok (es @ ens) \<Longrightarrow> Log_Append log_ok (log_of es) ens = (log_of (es @ ens), None)"
  using Log_Append_ok [of "log_of es" ens] log_of_is by (metis list_all_append log_of_entries)

lemma log_of_truncate:
  assumes "list_all lentry_ok es" "indexed es" "i \<noteq> 0" "unat i \<le> length es"
  shows "TruncateFrom log_ok (log_of es) i = Ok (log_of (take (unat i - 1) es), None)"
proof -
  obtain l where l: "TruncateFrom log_ok (log_of es) i = Ok (l, None)" "log_is l" "l_entries l = (if i = 0 then es else take (unat i - 1) es)"
    using TruncateFrom_ok [OF log_of_is(1) [OF assms(1)], of i] assms(2) by auto
  then show ?thesis using log_of_is(2) [OF l(2)] assms(3) by simp
qed

definition fresh_node :: "conf \<Rightarrow> gostring \<Rightarrow> Raft" where
  "fresh_node conf n =
     \<lparr>currentTerm = 0, votedFor = [], r_log = log_of [], r_state = Follower, commitIndex = 0, lastApplied = 0,
      leaderID = [], nextIndex = (\<lambda>_. 0), matchIndex = (\<lambda>_. 0), nodeID = idof conf n, peers = others conf n, r_addr = n, applyCh = [],
      commitCh = False, proposals = [], doneCh = (\<lambda>_. None), stateFile = None\<rparr>"

definition fresh_net :: "conf \<Rightarrow> net" where
  "fresh_net conf =
     \<lparr>nodes = fresh_node conf, calls = (\<lambda>_ _ _. NoCall), votes = (\<lambda>_ _. 0), appends = {}, replies = {}, applying = (\<lambda>_. None), g_votes = {}, g_vlog = (\<lambda>_ _. []),
      g_clog = (\<lambda>_ _. []), g_led = (\<lambda>_. {}), g_log = (\<lambda>_. []), g_base = (\<lambda>_. 0), g_acks = {}, g_ids = 0\<rparr>"

lemma fresh_reach: "conf_ok conf \<Longrightarrow> net_reach conf (fresh_net conf)"
  by (rule net_reach.Init)
    (simp add: net_init_def fresh_net_def fresh_node_def NewRaftWithConfig_def new_ok_def OpenLog_def log_ok_def loadState_def fresh_log log_of_def)

lemma reach_star: "rtranclp (net_step conf) s s' \<Longrightarrow> net_reach conf s \<Longrightarrow> net_reach conf s'"
  by (induction rule: rtranclp_induct) (auto intro: net_reach.Step)

lemma run_election:
  assumes "c \<in> members conf" "p \<in> members conf" "p \<in> set (peers (nodes s c))" "p \<noteq> c" "currentTerm (nodes s c) + 1 \<noteq> 0"
    and "startElection raft_ok (nodes s c) = (r1, args)" "handleRequestVote raft_ok (nodes s p) args = (r2, reply)"
    and "voteReply raft_ok r1 reply = (r1, True)" "countVote r1 1 = (2, True)"
  shows "\<exists>s'. rtranclp (net_step conf) s s' \<and> nodes s' = (nodes s)(p := r2, c := electionWon r1 (rv_Term args))"
proof -
  let ?t = "rv_Term args" and ?R = "rtranclp (net_step conf)"
  note so = startElection_ok [OF assms(6)]
  obtain s1 where s1: "net_step conf s s1" "nodes s1 = (nodes s)(c := r1)" "calls s1 c ?t p = Sent args" "votes s1 c ?t = 1"
    by (rule that [OF net_step.Start [OF assms(1,5,6)]]) (use assms(3) so(1) in auto)
  have v: "handleRequestVote raft_ok (nodes s1 p) args = (r2, reply)" using assms(4,7) s1(2) by simp
  obtain s2 where s2: "net_step conf s1 s2" "nodes s2 = (nodes s1)(p := r2)" "calls s2 c ?t p = Replied reply" "votes s2 c ?t = 1"
    by (rule that [OF net_step.Vote [OF assms(2) s1(3) v]]) (use s1(4) in \<open>auto simp: set_call_def\<close>)
  have n2: "nodes s2 c = r1" using s2(2) s1(2) assms(4) by simp
  obtain s3 where s3: "net_step conf s2 s3" "nodes s3 = nodes s2" "calls s3 c ?t p = Agreed" "votes s3 c ?t = 1"
    by (rule that [OF net_step.VoteReply [OF s2(3), of r1 True]]) (use assms(8) n2 s2(4) in \<open>auto simp: set_call_def\<close>)
  obtain s4 where s4: "net_step conf s3 s4" "nodes s4 = nodes s2" "calls s4 c ?t p = Winning"
    by (rule that [OF net_step.CountVote [OF s3(3), of 2 True]]) (use assms(9) n2 s3(2,4) in \<open>auto simp: set_call_def\<close>)
  obtain s5 where s5: "net_step conf s4 s5" "nodes s5 = (nodes s4)(c := electionWon (nodes s4 c) ?t)"
    by (rule that [OF net_step.Win [OF s4(3) refl]]) (auto simp: set_call_def)
  have "?R s s5" using s1(1) s2(1) s3(1) s4(1) s5(1) by (meson converse_rtranclp_into_rtranclp rtranclp.rtrancl_refl)
  then show ?thesis using s5(2) s4(2) n2 s2(2) s1(2) assms(4) by (auto simp: fun_upd_twist)
qed

lemma run_replication:
  assumes "n \<in> members conf" "p \<in> set (peers (nodes s n))" "p \<noteq> n"
    and "replicateTo (nodes s n) p = Ok (Some args)" "handleAppendEntries raft_ok (nodes s p) args = Ok (r1, reply)"
    and "replicateReply raft_ok (nodes s n) p args reply = Ok r2"
  shows "\<exists>s'. rtranclp (net_step conf) s s' \<and> nodes s' = (nodes s)(p := r1, n := r2)"
proof -
  obtain s1 where s1: "net_step conf s s1" "nodes s1 = nodes s" "(n, p, args) \<in> appends s1"
    by (rule that [OF net_step.Replicate [OF assms(1,2,4)]]) auto
  obtain s2 where s2: "net_step conf s1 s2" "nodes s2 = (nodes s)(p := r1)" "(n, p, args, reply) \<in> replies s2"
    by (rule that [OF net_step.Append [OF s1(3), of r1 reply]]) (use assms(5) s1(2) in auto)
  obtain s3 where s3: "net_step conf s2 s3" "nodes s3 = (nodes s)(p := r1, n := r2)"
    by (rule that [OF net_step.AppendReply [OF s2(3), of r2]]) (use assms(3,6) s2(2) in auto)
  have "rtranclp (net_step conf) s s3" using s1(1) s2(1) s3(1) by (meson converse_rtranclp_into_rtranclp rtranclp.rtrancl_refl)
  then show ?thesis using s3(2) by blast
qed

lemma run_proposal:
  assumes "n \<in> members conf" "length data < 2 ^ 32" "unat (LastIndex (r_log (nodes s n))) + 2 < 2 ^ 64"
    and "Propose raft_ok (nodes s n) cmd data (g_ids s) = (r', res)"
  shows "\<exists>s'. net_step conf s s' \<and> nodes s' = (nodes s)(n := r') \<and> g_ids s' = Suc (g_ids s)"
  by (rule exI, rule conjI [OF net_step.Propose [OF assms]]) auto

subsection \<open>A cluster of two\<close>

definition pair_conf :: conf where
  "pair_conf = [([1], [11]), ([2], [12])]"

definition pair_leader :: Raft where
  "pair_leader = (fresh_node pair_conf [1])\<lparr>r_state := Leader, currentTerm := 1, votedFor := [11], leaderID := [1],
     nextIndex := (\<lambda>p. if p = [2] then 1 else 0), matchIndex := (\<lambda>_. 0), stateFile := Some (vote_bytes 1 [11])\<rparr>"

definition pair_voter :: Raft where
  "pair_voter = (fresh_node pair_conf [2])\<lparr>currentTerm := 1, votedFor := [11], stateFile := Some (vote_bytes 1 [11])\<rparr>"

lemma pair_members: "members pair_conf = {[1], [2]}" "conf_ok pair_conf"
  by (simp_all add: members_def pair_conf_def conf_ok_def)

lemma pair_elected: "\<exists>s. net_reach pair_conf s \<and> nodes s [1] = pair_leader \<and> nodes s [2] = pair_voter"
proof -
  let ?s = "fresh_net pair_conf"
  note fr = fresh_net_def fresh_node_def others_def idof_def pair_conf_def
  obtain r1 args where e: "startElection raft_ok (nodes ?s [1]) = (r1, args)" by force
  note so = startElection_ok [OF e]
  obtain r2 reply where v: "handleRequestVote raft_ok (nodes ?s [2]) args = (r2, reply)" by force
  have r2: "r2 = pair_voter" "reply = \<lparr>rvr_Term = 1, rvr_VoteGranted = True\<rparr>"
    using v so(2) by (auto simp: handleRequestVote_def persistState_ok follower_ok pair_voter_def fr LastIndex_def LastTerm_def Let_def)
  have run: "\<exists>s'. rtranclp (net_step pair_conf) ?s s' \<and> nodes s' = (nodes ?s)([2] := r2, [1] := electionWon r1 (rv_Term args))"
    by (rule run_election [OF _ _ _ _ _ e v])
      (use so(1) r2(2) in \<open>simp_all add: pair_members voteReply_def countVote_def majority_def\<close>, simp_all add: fr)
  have "electionWon r1 (rv_Term args) = pair_leader"
    by (simp add: so electionWon_def becomeLeaderLocked_def pair_leader_def fr LastIndex_def Let_def fun_eq_iff)
  then obtain s' where s': "rtranclp (net_step pair_conf) ?s s'" "nodes s' = (nodes ?s)([2] := pair_voter, [1] := pair_leader)" using run r2(1) by auto
  then show ?thesis using reach_star [OF s'(1) fresh_reach [OF pair_members(2)]] by (intro exI [of _ s']) simp
qed

theorem raft_election_safety_witness:
  "\<exists>s. net_reach pair_conf s \<and> r_state (nodes s [1]) = Leader \<and> currentTerm (nodes s [1]) = 1 \<and>
     (\<forall>b\<in>members pair_conf. r_state (nodes s b) = Leader \<and> currentTerm (nodes s b) = 1 \<longrightarrow> b = [1])"
proof -
  obtain s where s: "net_reach pair_conf s" "nodes s [1] = pair_leader" using pair_elected by blast
  have m: "[1] \<in> members pair_conf" and l: "r_state (nodes s [1]) = Leader" "currentTerm (nodes s [1]) = 1"
    by (simp_all add: s(2) pair_members pair_leader_def)
  have "b = [1]" if "b \<in> members pair_conf" "r_state (nodes s b) = Leader" "currentTerm (nodes s b) = 1" for b
    using raft_election_safety [OF s(1) that(1) m that(2) l(1)] that(3) l(2) by simp
  then show ?thesis using s(1) l by blast
qed

end
