(* ===== verification/Raft_Matching.thy ===== *)
theory Raft_Matching
  imports Raft_Run
begin

text \<open>
  The logs of a cluster. Every log is made of prefixes of the logs of leaders: the entry of term \<open>t\<close> at
  an index, and everything before it, is what the leader of \<open>t\<close> has there (\<open>good\<close>). From this follow the
  log matching property and that no handler panics in a reachable state.
\<close>

subsection \<open>Appending to a log\<close>

text \<open>\<open>appendNew\<close> on lists; \<open>p\<close> is the number of entries before the first new one.\<close>

fun merge_log :: "LogEntry list \<Rightarrow> nat \<Rightarrow> LogEntry list \<Rightarrow> LogEntry list" where
  "merge_log L p [] = L"
| "merge_log L p (e # es) =
     (if p < length L then if le_Term (L ! p) = le_Term e then merge_log L (Suc p) es else take p L @ e # es else L @ e # es)"

lemma appendNew_merge:
  assumes "log_is l" "indexed (l_entries l)" "list_all lentry_ok es" "p \<le> length (l_entries l)" "\<forall>i<length es. unat (le_Index (es ! i)) = Suc (p + i)"
  shows "\<exists>l'. appendNew raft_ok l es = Ok l' \<and> log_is l' \<and> l_entries l' = merge_log (l_entries l) p es"
  using assms
proof (induction es arbitrary: p)
  case (Cons e es)
  have i: "unat (le_Index e) = Suc p" using Cons.prems(5) by force
  then have i0: "le_Index e \<noteq> 0" by auto
  have ge: "GetEntry l (le_Index e) = Ok (if length (l_entries l) \<le> p then None else Some (l_entries l ! p))"
    using GetEntry_indexed [OF Cons.prems(2), of "le_Index e"] i i0 by auto
  show ?case
  proof (cases "p < length (l_entries l)")
    case False
    obtain l' where "Log_Append log_ok l (e # es) = (l', None)" "log_is l'" "l_entries l' = l_entries l @ e # es"
      using Log_Append_ok [OF Cons.prems(1,3)] by blast
    then show ?thesis using False ge by (simp add: raft_ok_def)
  next
    case True
    show ?thesis
    proof (cases "le_Term (l_entries l ! p) = le_Term e")
      case same: True
      have ix: "\<forall>i<length es. unat (le_Index (es ! i)) = Suc (Suc p + i)"
      proof (intro allI impI)
        fix i assume "i < length es"
        then show "unat (le_Index (es ! i)) = Suc (Suc p + i)" using Cons.prems(5) [rule_format, of "Suc i"] by simp
      qed
      have "list_all lentry_ok es" "Suc p \<le> length (l_entries l)" using Cons.prems(3) True by simp_all
      from Cons.IH [OF Cons.prems(1,2) this ix] show ?thesis using True same ge by simp
    next
      case False
      obtain l1 where l1: "TruncateFrom log_ok l (le_Index e) = Ok (l1, None)" "log_is l1" "l_entries l1 = take p (l_entries l)"
        using TruncateFrom_ok [OF Cons.prems(1,2), of "le_Index e"] i i0 by auto
      obtain l' where "Log_Append log_ok l1 (e # es) = (l', None)" "log_is l'" "l_entries l' = l_entries l1 @ e # es"
        using Log_Append_ok [OF l1(2) Cons.prems(3)] by blast
      then show ?thesis using True False ge l1 by (simp add: raft_ok_def)
    qed
  qed
qed simp

text \<open>A segment of a list \<open>G\<close> that agrees with the log where the terms do.\<close>

definition agree :: "LogEntry list \<Rightarrow> LogEntry list \<Rightarrow> bool" where
  "agree L G \<longleftrightarrow> (\<forall>i. i < length L \<and> i < length G \<and> le_Term (L ! i) = le_Term (G ! i) \<longrightarrow> take (Suc i) L = take (Suc i) G)"

lemma segment_Cons: "k > 0 \<Longrightarrow> p < length G \<Longrightarrow> take k (drop p G) = G ! p # take (k - 1) (drop (Suc p) G)"
  by (cases k) (simp_all add: Cons_nth_drop_Suc [symmetric])

lemma take_join: "take p L = take p G \<Longrightarrow> take p L @ take k (drop p G) = take (p + k) G"
  by (simp add: take_add)

lemma merge_agree:
  assumes "p + k \<le> length G" "p \<le> length L" "take p L = take p G" "agree L G"
  shows "let L' = merge_log L p (take k (drop p G)) in take (p + k) L' = take (p + k) G \<and> p + k \<le> length L' \<and> (L' = L \<or> L' = take (p + k) G)"
  using assms
proof (induction k arbitrary: p)
  case (Suc k)
  have seg: "take (Suc k) (drop p G) = G ! p # take k (drop (Suc p) G)" using segment_Cons [of "Suc k" p G] Suc.prems(1) by simp
  show ?case
  proof (cases "p < length L \<and> le_Term (L ! p) = le_Term (G ! p)")
    case True
    then have "take (Suc p) L = take (Suc p) G" using Suc.prems(1,4) by (simp add: agree_def)
    then have "let L' = merge_log L (Suc p) (take k (drop (Suc p) G)) in take (Suc p + k) L' = take (Suc p + k) G \<and> Suc p + k \<le> length L' \<and> (L' = L \<or> L' = take (Suc p + k) G)"
      using Suc.prems True by (intro Suc.IH) simp_all
    then show ?thesis using True by (simp add: seg Let_def)
  next
    case False
    have "merge_log L p (G ! p # take k (drop (Suc p) G)) = take p L @ G ! p # take k (drop (Suc p) G)"
      using False Suc.prems(2) by auto
    then have "merge_log L p (take (Suc k) (drop p G)) = take (p + Suc k) G" using take_join [OF Suc.prems(3), of "Suc k"] seg by simp
    then show ?thesis using Suc.prems(1) by (simp add: Let_def)
  qed
qed (simp add: Let_def)

lemma merge_keeps:
  assumes "p + k \<le> length G" "p \<le> length L" "m \<le> length L" "m \<le> length G" "take m L = take m G"
  shows "take m (merge_log L p (take k (drop p G))) = take m L"
  using assms
proof (induction k arbitrary: p)
  case (Suc k)
  have seg: "take (Suc k) (drop p G) = G ! p # take k (drop (Suc p) G)" using segment_Cons [of "Suc k" p G] Suc.prems(1) by simp
  show ?case
  proof (cases "p < length L \<and> le_Term (L ! p) = le_Term (G ! p)")
    case True
    then have "take m (merge_log L (Suc p) (take k (drop (Suc p) G))) = take m L" using Suc.prems by (intro Suc.IH) simp_all
    then show ?thesis using True by (simp add: seg)
  next
    case False
    have "m \<le> p"
    proof (rule ccontr)
      assume "\<not> m \<le> p"
      then have "L ! p = G ! p" "p < length L" using Suc.prems(3,5) by (metis not_le nth_take, simp)
      then show False using False by simp
    qed
    then show ?thesis using False Suc.prems(2) by (auto simp: seg)
  qed
qed simp

text \<open>An append request on a well-formed log. \<open>missing\<close>: the entry before the new ones is not there.\<close>

definition missing :: "LogEntry list \<Rightarrow> AppendEntriesArgs \<Rightarrow> bool" where
  "missing L args \<longleftrightarrow> ae_PrevLogIndex args \<noteq> 0 \<and>
     (length L < unat (ae_PrevLogIndex args) \<or> le_Term (L ! (unat (ae_PrevLogIndex args) - 1)) \<noteq> ae_PrevLogTerm args)"

lemma heard_log [simp]: "r_log (heard r args) = r_log r" "commitIndex (heard r args) = commitIndex r"
  by (simp_all add: heard_def follower_ok)

lemma handleAppendEntries_spec:
  assumes lg: "log_is (r_log r)" "indexed (ents r)"
    and es: "list_all lentry_ok (ae_Entries args)" "\<forall>i<length (ae_Entries args). unat (le_Index (ae_Entries args ! i)) = Suc (unat (ae_PrevLogIndex args) + i)"
    and t: "\<not> ae_Term args < currentTerm r"
  obtains r' reply where "handleAppendEntries raft_ok r args = Ok (r', reply)" "log_is (r_log r')"
    "missing (ents r) args \<Longrightarrow> \<not> aer_Success reply \<and> commitIndex r' = commitIndex r \<and>
       ents r' = (if length (ents r) < unat (ae_PrevLogIndex args) then ents r else take (unat (ae_PrevLogIndex args) - 1) (ents r))"
    "\<not> missing (ents r) args \<Longrightarrow> aer_Success reply \<and> ents r' = merge_log (ents r) (unat (ae_PrevLogIndex args)) (ae_Entries args) \<and>
       commitIndex r' = (if ae_LeaderCommit args > commitIndex r
          then if ae_LeaderCommit args < LastIndex (r_log r') then ae_LeaderCommit args else LastIndex (r_log r') else commitIndex r)"
proof -
  let ?p = "ae_PrevLogIndex args" and ?L = "ents r" and ?r1 = "heard r args"
  have L: "l_entries (r_log r) = ?L" by (simp add: ents_def)
  have ge: "GetEntry (r_log r) ?p = Ok (if ?p = 0 \<or> length ?L < unat ?p then None else Some (?L ! (unat ?p - 1)))"
    using GetEntry_indexed [of "r_log r" ?p] lg(2) by (simp add: L)
  note H = handleAppendEntries_def [of raft_ok r args, unfolded Let_def, folded heard_def]
  show ?thesis
  proof (cases "missing ?L args")
    case True
    then have p: "?p > 0" by (simp add: missing_def word_gt_0)
    show ?thesis
    proof (cases "length ?L < unat ?p")
      case short: True
      then have "handleAppendEntries raft_ok r args = Ok (?r1, \<lparr>aer_Term = currentTerm ?r1, aer_Success = False\<rparr>)" using H t p ge by simp
      then show ?thesis by (rule that) (use lg True short in \<open>simp_all add: ents_def\<close>)
    next
      case False
      have lg2: "indexed (l_entries (r_log r))" using lg(2) by (simp add: ents_def)
      obtain l where l: "TruncateFrom log_ok (r_log r) ?p = Ok (l, None)" "log_is l"
        "l_entries l = (if ?p = 0 then l_entries (r_log r) else take (unat ?p - 1) (l_entries (r_log r)))"
        using TruncateFrom_ok [OF lg(1) lg2] by blast
      then have run: "handleAppendEntries raft_ok r args = Ok (?r1\<lparr>r_log := l\<rparr>, \<lparr>aer_Term = currentTerm ?r1, aer_Success = False\<rparr>)"
        using H t p ge True False by (auto simp: raft_ok_def missing_def)
      have "?p \<noteq> 0" using p by auto
      then show ?thesis by (intro that [OF run]) (use l True False in \<open>simp_all add: ents_def\<close>)
    qed
  next
    case False
    have pl: "unat ?p \<le> length ?L" using False by (auto simp: missing_def not_less)
    obtain l where l: "appendNew raft_ok (r_log r) (ae_Entries args) = Ok l" "log_is l" "l_entries l = merge_log ?L (unat ?p) (ae_Entries args)"
      using appendNew_merge [OF lg(1) _ es(1) _ es(2)] lg(2) pl by (auto simp: L)
    define r' where "r' = (if ae_LeaderCommit args > commitIndex r
       then ?r1\<lparr>r_log := l, commitIndex := (if ae_LeaderCommit args < LastIndex l then ae_LeaderCommit args else LastIndex l), commitCh := True\<rparr> else ?r1\<lparr>r_log := l\<rparr>)"
    have "handleAppendEntries raft_ok r args = Ok (r', \<lparr>aer_Term = currentTerm ?r1, aer_Success = True\<rparr>)"
      using H t ge False l(1) by (auto simp: missing_def word_gt_0 r'_def)
    then show ?thesis by (rule that) (use l False in \<open>auto simp: ents_def r'_def\<close>)
  qed
qed

subsection \<open>Good logs\<close>

definition led :: "net \<Rightarrow> 64 word \<Rightarrow> bool" where
  "led s t \<longleftrightarrow> g_led s t \<noteq> {}"

definition good :: "net \<Rightarrow> LogEntry list \<Rightarrow> bool" where
  "good s L \<longleftrightarrow> indexed L \<and> list_all lentry_ok L \<and>
     (\<forall>i<length L. led s (le_Term (L ! i)) \<and> i < length (g_log s (le_Term (L ! i))) \<and> take (Suc i) L = take (Suc i) (g_log s (le_Term (L ! i))))"

text \<open>What a step may do to the logs of leaders.\<close>

definition grows :: "net \<Rightarrow> net \<Rightarrow> bool" where
  "grows s s' \<longleftrightarrow> (\<forall>t. led s t \<longrightarrow> led s' t \<and> g_base s' t = g_base s t \<and> (\<exists>xs. g_log s' t = g_log s t @ xs))"

lemma growsD:
  assumes "grows s s'" "led s t"
  shows "led s' t" "g_base s' t = g_base s t" "m \<le> length (g_log s t) \<Longrightarrow> take m (g_log s' t) = take m (g_log s t)" "length (g_log s t) \<le> length (g_log s' t)"
proof -
  obtain xs where "led s' t" "g_base s' t = g_base s t" "g_log s' t = g_log s t @ xs" using assms unfolding grows_def by blast
  then show "led s' t" "g_base s' t = g_base s t" "m \<le> length (g_log s t) \<Longrightarrow> take m (g_log s' t) = take m (g_log s t)" "length (g_log s t) \<le> length (g_log s' t)"
    by simp_all
qed

lemma grows_refl: "g_led s' = g_led s \<Longrightarrow> g_log s' = g_log s \<Longrightarrow> g_base s' = g_base s \<Longrightarrow> grows s s'"
  by (simp add: grows_def led_def)

lemma goodD:
  assumes "good s L"
  shows "indexed L" "list_all lentry_ok L"
    "i < length L \<Longrightarrow> led s (le_Term (L ! i)) \<and> i < length (g_log s (le_Term (L ! i))) \<and> take (Suc i) L = take (Suc i) (g_log s (le_Term (L ! i)))"
  using assms unfolding good_def by blast+

lemma good_Nil [simp]: "good s []"
  by (simp add: good_def indexed_def)

lemma good_mono:
  assumes "grows s s'" "good s L" shows "good s' L"
  unfolding good_def
proof (intro conjI allI impI)
  fix i assume "i < length L"
  note g = goodD(3) [OF assms(2) this]
  then show "led s' (le_Term (L ! i))" "i < length (g_log s' (le_Term (L ! i)))" "take (Suc i) L = take (Suc i) (g_log s' (le_Term (L ! i)))"
    using growsD [OF assms(1), of "le_Term (L ! i)"] by (auto simp: Suc_le_eq)
qed (use goodD [OF assms(2)] in simp_all)

lemma good_take:
  assumes "good s L" shows "good s (take n L)"
  unfolding good_def
proof (intro conjI allI impI)
  fix i assume "i < length (take n L)"
  then have i: "i < length L" "i < n" by simp_all
  then show "led s (le_Term (take n L ! i))" "i < length (g_log s (le_Term (take n L ! i)))"
    "take (Suc i) (take n L) = take (Suc i) (g_log s (le_Term (take n L ! i)))" using goodD(3) [OF assms i(1)] by (simp_all add: min_absorb1)
next
  show "indexed (take n L)" by (rule indexed_take [OF goodD(1) [OF assms]])
  show "list_all lentry_ok (take n L)" using goodD(2) [OF assms] by (auto simp: list_all_iff dest: in_set_takeD)
qed

lemma good_agree: assumes "good s L" "good s G" shows "agree L G"
  unfolding agree_def using goodD(3) [OF assms(1)] goodD(3) [OF assms(2)] by metis

lemma take_agree:
  assumes "agree L G" "0 < p" "p \<le> length L" "p \<le> length G" "le_Term (L ! (p - 1)) = le_Term (G ! (p - 1))"
  shows "take p L = take p G"
proof -
  have "p - 1 < length L" "p - 1 < length G" using assms(2-4) by linarith+
  then have "take (Suc (p - 1)) L = take (Suc (p - 1)) G" using assms(1,5) unfolding agree_def by blast
  then show ?thesis using assms(2) by simp
qed

text \<open>Where a leader's log has an entry of its own, and the entries before it.\<close>

definition leader_log_ok :: "net \<Rightarrow> 64 word \<Rightarrow> bool" where
  "leader_log_ok s t \<longleftrightarrow> good s (g_log s t) \<and> g_base s t \<le> length (g_log s t) \<and> Suc (length (g_log s t)) < 2 ^ 64 \<and>
     (\<forall>i<length (g_log s t). if i < g_base s t then le_Term (g_log s t ! i) < t else le_Term (g_log s t ! i) = t)"

definition seg_ok :: "net \<Rightarrow> AppendEntriesArgs \<Rightarrow> bool" where
  "seg_ok s args \<longleftrightarrow> (let G = g_log s (ae_Term args); p = unat (ae_PrevLogIndex args); k = length (ae_Entries args) in
     p + k \<le> length G \<and> ae_Entries args = take k (drop p G) \<and> (p \<noteq> 0 \<longrightarrow> ae_PrevLogTerm args = le_Term (G ! (p - 1))))"

lemma seg_mono:
  assumes "grows s s'" "led s (ae_Term args)" "seg_ok s args" shows "seg_ok s' args"
proof -
  let ?G = "g_log s (ae_Term args)" and ?p = "unat (ae_PrevLogIndex args)" and ?k = "length (ae_Entries args)"
  obtain xs where x: "g_log s' (ae_Term args) = ?G @ xs" using assms(1,2) unfolding grows_def by blast
  have o: "?p + ?k \<le> length ?G" "ae_Entries args = take ?k (drop ?p ?G)" "?p \<noteq> 0 \<longrightarrow> ae_PrevLogTerm args = le_Term (?G ! (?p - 1))"
    using assms(3) unfolding seg_ok_def Let_def by blast+
  have "ae_Entries args = take ?k (drop ?p (?G @ xs))" using o(1,2) by simp
  moreover have "?p \<noteq> 0 \<Longrightarrow> (?G @ xs) ! (?p - 1) = ?G ! (?p - 1)" using o(1) by (simp add: nth_append)
  ultimately show ?thesis using o(1,3) unfolding seg_ok_def Let_def x by simp
qed

lemma seg_last:
  assumes "seg_ok s args" "good s (g_log s (ae_Term args))" "ae_Entries args \<noteq> []"
  shows "unat (le_Index (last (ae_Entries args))) = unat (ae_PrevLogIndex args) + length (ae_Entries args)"
proof -
  let ?G = "g_log s (ae_Term args)" and ?p = "unat (ae_PrevLogIndex args)" and ?k = "length (ae_Entries args)"
  have o: "?p + ?k \<le> length ?G" "ae_Entries args = take ?k (drop ?p ?G)" using assms(1) unfolding seg_ok_def Let_def by blast+
  have k: "0 < ?k" using assms(3) by simp
  have "last (ae_Entries args) = take ?k (drop ?p ?G) ! (?k - 1)" using o(2) assms(3) by (metis last_conv_nth)
  also have "\<dots> = ?G ! (?p + (?k - 1))" using o(1) k by simp
  finally have l: "last (ae_Entries args) = ?G ! (?p + (?k - 1))" .
  have "?p + (?k - 1) < length ?G" using o(1) k by linarith
  then have "unat (le_Index (?G ! (?p + (?k - 1)))) = Suc (?p + (?k - 1))" using goodD(1) [OF assms(2)] unfolding indexed_def by blast
  then show ?thesis using l k by simp
qed

definition last_term :: "LogEntry list \<Rightarrow> 64 word" where
  "last_term L = (if L = [] then 0 else le_Term (last L))"

definition not_newer :: "LogEntry list \<Rightarrow> LogEntry list \<Rightarrow> bool" where
  "not_newer L C \<longleftrightarrow> last_term L < last_term C \<or> last_term L = last_term C \<and> length L \<le> length C"

definition node_log_ok :: "net \<Rightarrow> gostring \<Rightarrow> Raft \<Rightarrow> bool" where
  "node_log_ok s n r \<longleftrightarrow> log_is (r_log r) \<and> good s (ents r) \<and> (\<forall>e\<in>set (ents r). le_Term e \<le> currentTerm r) \<and>
     (r_state r = Leader \<longrightarrow> ents r = g_log s (currentTerm r) \<and> (\<forall>p\<in>set (peers r). 0 < unat (nextIndex r p) \<and> unat (nextIndex r p) \<le> Suc (length (ents r)))) \<and>
     (r_state r = Candidate \<longrightarrow> ents r = g_clog s n (currentTerm r) \<and> n \<notin> g_led s (currentTerm r))"

definition match_inv :: "conf \<Rightarrow> net \<Rightarrow> bool" where
  "match_inv conf s \<longleftrightarrow> (\<forall>n\<in>members conf. node_log_ok s n (nodes s n)) \<and> (\<forall>t. led s t \<longrightarrow> leader_log_ok s t) \<and>
     (\<forall>a b args. (a, b, args) \<in> appends s \<longrightarrow> seg_ok s args) \<and>
     (\<forall>c t p args. calls s c t p = Sent args \<longrightarrow> rv_LastLogTerm args = last_term (g_clog s c t) \<and> unat (rv_LastLogIndex args) = length (g_clog s c t)) \<and>
     (\<forall>v t c. (v, t, c) \<in> g_votes s \<longrightarrow> good s (g_vlog s v t) \<and> not_newer (g_vlog s v t) (g_clog s c t) \<and> t \<le> currentTerm (nodes s c))"

lemma match_invD:
  assumes "match_inv conf s"
  shows "n \<in> members conf \<Longrightarrow> node_log_ok s n (nodes s n)" "led s t \<Longrightarrow> leader_log_ok s t" "(a, b, args) \<in> appends s \<Longrightarrow> seg_ok s args"
    "calls s c t p = Sent rargs \<Longrightarrow> rv_LastLogTerm rargs = last_term (g_clog s c t) \<and> unat (rv_LastLogIndex rargs) = length (g_clog s c t)"
    "(v, t, c) \<in> g_votes s \<Longrightarrow> good s (g_vlog s v t) \<and> not_newer (g_vlog s v t) (g_clog s c t) \<and> t \<le> currentTerm (nodes s c)"
  using assms unfolding match_inv_def by blast+

lemma match_invI:
  assumes "\<And>n. n \<in> members conf \<Longrightarrow> node_log_ok s n (nodes s n)" "\<And>t. led s t \<Longrightarrow> leader_log_ok s t" "\<And>a b args. (a, b, args) \<in> appends s \<Longrightarrow> seg_ok s args"
    "\<And>c t p rargs. calls s c t p = Sent rargs \<Longrightarrow> rv_LastLogTerm rargs = last_term (g_clog s c t) \<and> unat (rv_LastLogIndex rargs) = length (g_clog s c t)"
    "\<And>v t c. (v, t, c) \<in> g_votes s \<Longrightarrow> good s (g_vlog s v t) \<and> not_newer (g_vlog s v t) (g_clog s c t) \<and> t \<le> currentTerm (nodes s c)"
  shows "match_inv conf s"
  using assms unfolding match_inv_def by blast

lemma match_cong:
  assumes "nodes s' = nodes s" "appends s' = appends s" "calls s' = calls s" "g_votes s' = g_votes s" "g_vlog s' = g_vlog s" "g_clog s' = g_clog s"
    "g_led s' = g_led s" "g_log s' = g_log s" "g_base s' = g_base s"
  shows "match_inv conf s' \<longleftrightarrow> match_inv conf s"
  unfolding match_inv_def node_log_ok_def leader_log_ok_def seg_ok_def good_def led_def assms by (rule refl)

text \<open>The log of a node that is not touched, when the logs of leaders grow.\<close>

lemma node_log_mono:
  assumes "grows s s'" "node_log_ok s n r" "g_clog s' = g_clog s"
    and "r_state r = Leader \<Longrightarrow> g_log s' (currentTerm r) = g_log s (currentTerm r)" "r_state r = Candidate \<Longrightarrow> n \<notin> g_led s' (currentTerm r)"
  shows "node_log_ok s' n r"
proof -
  have "good s' (ents r)" using good_mono [OF assms(1)] assms(2) by (simp add: node_log_ok_def)
  then show ?thesis using assms by (auto simp: node_log_ok_def)
qed

subsection \<open>Steps that leave the logs alone\<close>

lemma node_log_cong:
  assumes "g_led s' = g_led s" "g_log s' = g_log s" "g_clog s' = g_clog s" shows "node_log_ok s' n r \<longleftrightarrow> node_log_ok s n r"
  using assms by (simp add: node_log_ok_def good_def led_def)

lemma match_set_node:
  assumes "match_inv conf s" "currentTerm (nodes s n) \<le> currentTerm r'" "node_log_ok s n r'"
  shows "match_inv conf (set_node s n r')"
proof -
  have c: "node_log_ok (set_node s n r') = node_log_ok s" "leader_log_ok (set_node s n r') = leader_log_ok s" "seg_ok (set_node s n r') = seg_ok s"
    "led (set_node s n r') = led s" "good (set_node s n r') = good s"
    by (simp_all add: fun_eq_iff node_log_cong leader_log_ok_def seg_ok_def led_def good_def)
  have "t \<le> currentTerm (nodes (set_node s n r') c)" if "(v, t, c) \<in> g_votes s" for v t c
    using match_invD(5) [OF assms(1) that] assms(2) by (cases "c = n") auto
  then show ?thesis using assms(1,3) unfolding match_inv_def c by simp
qed

definition calm_change :: "Raft \<Rightarrow> Raft \<Rightarrow> bool" where
  "calm_change r r' \<longleftrightarrow> log_is (r_log r') \<and> ents r' = ents r \<and> currentTerm r \<le> currentTerm r' \<and>
     (r_state r' = Leader \<longrightarrow> r_state r = Leader \<and> currentTerm r' = currentTerm r \<and> peers r' = peers r \<and>
       (\<forall>p\<in>set (peers r). nextIndex r' p = nextIndex r p \<or> 0 < unat (nextIndex r' p) \<and> (unat (nextIndex r' p) \<le> Suc (length (ents r)) \<or> unat (nextIndex r' p) \<le> unat (nextIndex r p)))) \<and>
     (r_state r' = Candidate \<longrightarrow> r_state r = Candidate \<and> currentTerm r' = currentTerm r)"

lemma calm_node:
  assumes "node_log_ok s n r" "calm_change r r'" shows "node_log_ok s n r'"
proof -
  have "\<forall>e\<in>set (ents r'). le_Term e \<le> currentTerm r'" using assms by (auto simp: node_log_ok_def calm_change_def)
  moreover have "0 < unat (nextIndex r' p) \<and> unat (nextIndex r' p) \<le> Suc (length (ents r'))" if "r_state r' = Leader" "p \<in> set (peers r')" for p
  proof -
    have "0 < unat (nextIndex r p) \<and> unat (nextIndex r p) \<le> Suc (length (ents r))" "ents r' = ents r"
      "nextIndex r' p = nextIndex r p \<or> 0 < unat (nextIndex r' p) \<and> (unat (nextIndex r' p) \<le> Suc (length (ents r)) \<or> unat (nextIndex r' p) \<le> unat (nextIndex r p))"
      using assms that unfolding node_log_ok_def calm_change_def by metis+
    then show ?thesis by auto
  qed
  ultimately show ?thesis using assms unfolding node_log_ok_def calm_change_def by auto
qed

lemma calm_keeps:
  assumes "match_inv conf s" "n \<in> members conf" "calm_change (nodes s n) r'" shows "match_inv conf (set_node s n r')"
  using match_set_node [OF assms(1) _ calm_node [OF match_invD(1) [OF assms(1,2)] assms(3)]] assms(3) by (simp add: calm_change_def)

lemma calm_same:
  assumes "log_is (r_log r)" "r_log r' = r_log r" "currentTerm r' = currentTerm r" "r_state r' = r_state r" "peers r' = peers r" "nextIndex r' = nextIndex r"
  shows "calm_change r r'"
  using assms by (simp add: calm_change_def ents_def)

lemma calm_follower: "log_is (r_log r) \<Longrightarrow> currentTerm r \<le> t \<Longrightarrow> calm_change r (becomeFollowerLocked raft_ok r t ld)"
  by (simp add: calm_change_def follower_ok ents_def)

lemma calm_vote:
  assumes "log_is (r_log r)" "handleRequestVote raft_ok r args = (r', reply)" shows "calm_change r r'"
  using assms by (auto simp: handleRequestVote_def persistState_ok follower_ok Let_def calm_change_def ents_def split: if_splits)

lemma calm_voteReply:
  assumes "log_is (r_log r)" "voteReply raft_ok r reply = (r', go)" shows "calm_change r r'"
  using assms calm_same [of r r] calm_follower [of r] by (auto simp: voteReply_def split: if_splits)

lemma calm_restart:
  assumes "saved r" "log_is (r_log r)" "NewRaftWithConfig new_ok i ps ad (l_file (r_log r)) (stateFile r) = Ok r'"
  shows "calm_change r r'" "r_log r' = r_log r"
proof -
  note q = node_restart_ok [OF assms(1,3)]
  have "OpenLog log_ok (l_file (r_log r)) = Ok (r_log r)" by (rule OpenLog_is [OF assms(2)])
  then show l: "r_log r' = r_log r" using q(6) by simp
  show "calm_change r r'" using q(2,4) l assms(2) by (simp add: calm_change_def ents_def)
qed

lemma calm_apply:
  assumes "log_is (r_log r)" "applyNext r idx commit = Ok (r', go)" shows "calm_change r r'"
  using calm_same [OF assms(1), of r'] applyNext_frame [OF assms(2)] by (simp add: ident_def)

lemma advanceFrom_total: "indexed (l_entries (r_log r)) \<Longrightarrow> \<exists>r'. advanceFrom r n = Ok r'"
proof (induction r n rule: advanceFrom.induct)
  case (1 r n)
  obtain en where e: "GetEntry (r_log r) n = Ok en" using GetEntry_indexed [OF 1(4)] by blast
  show ?case
  proof (cases "n > commitIndex r")
    case True
    show ?thesis
    proof (cases en)
      case None
      then show ?thesis using 1(1) [OF True] e 1(4) True by (subst advanceFrom.simps) simp
    next
      case (Some x)
      then have "le_Term x \<noteq> currentTerm r \<Longrightarrow> \<exists>r'. advanceFrom r (n - 1) = Ok r'" "le_Term x = currentTerm r \<Longrightarrow> \<not> matched r n \<Longrightarrow> \<exists>r'. advanceFrom r (n - 1) = Ok r'"
        using 1(2,3) [OF True] e 1(4) by simp_all
      then show ?thesis using e Some True by (subst advanceFrom.simps) simp
    qed
  qed (subst advanceFrom.simps, simp)
qed

lemma node_restart_total:
  assumes "saved r" "OpenLog log_ok content = Ok l" shows "\<exists>r'. NewRaftWithConfig new_ok i ps ad content (stateFile r) = Ok r'"
proof -
  let ?r0 = "\<lparr>currentTerm = 0, votedFor = [], r_log = l, r_state = Follower, commitIndex = 0, lastApplied = 0, leaderID = [],
                   nextIndex = (\<lambda>_. 0), matchIndex = (\<lambda>_. 0), nodeID = i, peers = ps, r_addr = ad, applyCh = [], commitCh = False,
                   proposals = [], doneCh = (\<lambda>_. None), stateFile = stateFile r\<rparr>"
  have "loadState True ?r0 = Ok (?r0\<lparr>currentTerm := currentTerm r, votedFor := votedFor r\<rparr>)" by (rule loadState_saved) (use assms(1) in simp_all)
  then show ?thesis using assms(2) by (simp add: NewRaftWithConfig_def new_ok_def)
qed

text \<open>A reply to an append request: \<open>nextIndex\<close> stays within the log.\<close>

lemma calm_reply:
  assumes lg: "log_is (r_log r)" "indexed (ents r)" "Suc (length (ents r)) < 2 ^ 64"
    and sg: "r_state r = Leader \<Longrightarrow> ae_Term args = currentTerm r \<Longrightarrow> ae_Entries args \<noteq> [] \<Longrightarrow> unat (le_Index (last (ae_Entries args))) \<le> length (ents r)"
    and run: "replicateReply raft_ok r p args reply = Ok r'"
  shows "calm_change r r'"
proof -
  consider (newer) "aer_Term reply > currentTerm r"
    | (stale) "\<not> aer_Term reply > currentTerm r" "r_state r \<noteq> Leader \<or> currentTerm r \<noteq> ae_Term args"
    | (yes) "\<not> aer_Term reply > currentTerm r" "r_state r = Leader" "ae_Term args = currentTerm r" "aer_Success reply"
    | (no) "\<not> aer_Term reply > currentTerm r" "r_state r = Leader" "ae_Term args = currentTerm r" "\<not> aer_Success reply" by metis
  then show ?thesis
  proof cases
    case newer
    then show ?thesis using run calm_follower [OF lg(1)] by (auto simp: replicateReply_def)
  next
    case stale
    then show ?thesis using run calm_same [OF lg(1), of r] by (auto simp: replicateReply_def)
  next
    case yes
    let ?x = "le_Index (last (ae_Entries args))"
    define r1 where "r1 = (if ae_Entries args \<noteq> [] then r\<lparr>nextIndex := (nextIndex r)(p := ?x + 1), matchIndex := (matchIndex r)(p := ?x)\<rparr> else r)"
    have f: "ident r' = ident r1" "currentTerm r' = currentTerm r1" "r_state r' = r_state r1" "r_log r' = r_log r1" "nextIndex r' = nextIndex r1"
      using run yes advanceFrom_frame [of r1 "LastIndex (r_log r1)" r'] unfolding replicateReply_def advanceCommitIndexLocked_def r1_def [symmetric] by auto
    have "ident r1 = ident r" "currentTerm r1 = currentTerm r" "r_state r1 = r_state r" "r_log r1 = r_log r" by (simp_all add: r1_def ident_def)
    moreover have "nextIndex r1 q = nextIndex r q \<or> 0 < unat (nextIndex r1 q) \<and> unat (nextIndex r1 q) \<le> Suc (length (ents r))" for q
    proof (cases "ae_Entries args = [] \<or> q \<noteq> p")
      case False
      then have "unat ?x \<le> length (ents r)" using sg yes by blast
      then have "unat (?x + 1) = Suc (unat ?x)" using lg(3) by (simp add: unat_word_ariths)
      then show ?thesis using False \<open>unat ?x \<le> length (ents r)\<close> by (simp add: r1_def)
    qed (auto simp: r1_def)
    ultimately show ?thesis using f lg(1) by (simp add: calm_change_def ents_def ident_def) blast
  next
    case no
    have "unat (nextIndex r p - 1) = unat (nextIndex r p) - 1 \<and> 1 < unat (nextIndex r p)" if "nextIndex r p > 1"
    proof -
      have "nextIndex r p \<noteq> 0" using that by auto
      then show ?thesis using that unat_minus_1 [of "nextIndex r p"] by (simp add: word_less_nat_alt)
    qed
    moreover have "r' = (if nextIndex r p > 1 then r\<lparr>nextIndex := (nextIndex r)(p := nextIndex r p - 1)\<rparr> else r)"
      using run no by (auto simp: replicateReply_def)
    ultimately show ?thesis using no lg(1) by (simp add: calm_change_def ents_def)
  qed
qed

subsection \<open>Elections and proposals\<close>

lemma last_entry: "unat (LastIndex l) = length (l_entries l)" "LastTerm l = last_term (l_entries l)" if "indexed (l_entries l)" for l
  using LastIndex_indexed [OF that] by (simp_all add: LastTerm_def last_term_def)

lemma match_start:
  assumes inv: "elec_inv conf s" "match_inv conf s" and n: "n \<in> members conf" "currentTerm (nodes s n) + 1 \<noteq> 0" and st: "startElection raft_ok (nodes s n) = (r', args)"
  shows "match_inv conf ((set_node s n r')\<lparr>
      calls := (calls s)(n := (calls s n)(rv_Term args := (\<lambda>p. if p \<in> set (peers r') then Sent args else NoCall))),
      votes := vs, g_clog := (g_clog s)(n := (g_clog s n)(rv_Term args := ents r'))\<rparr>)" (is "match_inv conf ?s")
proof -
  note so = startElection_ok [OF st] and nl = match_invD(1) [OF inv(2) n(1)]
  let ?t = "currentTerm (nodes s n) + 1"
  have tm: "currentTerm (nodes s n) < ?t" using unat_Suc_word [OF n(2)] by (simp add: word_less_nat_alt)
  have t: "rv_Term args = ?t" "currentTerm r' = ?t" "ents r' = ents (nodes s n)" "r_log r' = r_log (nodes s n)" "r_state r' = Candidate"
    using so by (simp_all add: ents_def)
  have cs: "g_led ?s = g_led s" "g_log ?s = g_log s" "g_base ?s = g_base s" "appends ?s = appends s" "g_votes ?s = g_votes s" "g_vlog ?s = g_vlog s" by simp_all
  have eq: "led ?s = led s" "good ?s = good s" "leader_log_ok ?s = leader_log_ok s" "seg_ok ?s = seg_ok s"
    by (simp_all add: fun_eq_iff led_def good_def leader_log_ok_def seg_ok_def)
  have cl: "g_clog ?s c t' = g_clog s c t'" if "c = n \<Longrightarrow> t' \<le> currentTerm (nodes s n)" for c t' using that tm t(1) by auto
  have nled: "n \<notin> g_led s ?t" using elec_invD(5) [OF inv(1)] tm unfolding led_ok_def by (metis leD)
  have "node_log_ok ?s m (nodes ?s m)" if m: "m \<in> members conf" for m
  proof (cases "m = n")
    case True
    have "le_Term e \<le> ?t" if "e \<in> set (ents (nodes s n))" for e using nl that tm unfolding node_log_ok_def by fastforce
    then show ?thesis using nl nled unfolding node_log_ok_def eq cs True by (simp add: t)
  next
    case False
    then show ?thesis using match_invD(1) [OF inv(2) m] unfolding node_log_ok_def eq cs by auto
  qed
  moreover have "rv_LastLogTerm a = last_term (g_clog ?s c t') \<and> unat (rv_LastLogIndex a) = length (g_clog ?s c t')" if ca: "calls ?s c t' p = Sent a" for c t' p a
  proof (cases "c = n \<and> t' = rv_Term args")
    case True
    then have "a = args" using ca by (auto split: if_splits)
    moreover have "indexed (l_entries (r_log (nodes s n)))" using nl goodD(1) by (auto simp: node_log_ok_def ents_def)
    ultimately show ?thesis using True so(2) last_entry [of "r_log (nodes s n)"] t(4) by (simp add: ents_def)
  next
    case False
    then have "calls s c t' p = Sent a" using ca by (auto split: if_splits)
    moreover have "g_clog ?s c t' = g_clog s c t'" using False by auto
    ultimately show ?thesis using match_invD(4) [OF inv(2)] by simp
  qed
  moreover have "good s (g_vlog s v t') \<and> not_newer (g_vlog s v t') (g_clog ?s c t') \<and> t' \<le> currentTerm (nodes ?s c)" if v: "(v, t', c) \<in> g_votes s" for v t' c
  proof -
    note o = match_invD(5) [OF inv(2) v]
    have "t' \<le> currentTerm (nodes ?s c)" using o tm t(2) by (cases "c = n") auto
    moreover have "g_clog ?s c t' = g_clog s c t'" using o by (intro cl) simp
    ultimately show ?thesis using o by (simp only: simp_thms)
  qed
  ultimately show ?thesis using inv(2) unfolding match_inv_def eq cs by blast
qed

lemma match_vote:
  assumes inv: "elec_inv conf s" "match_inv conf s" and p: "p \<in> members conf" "calls s c t p = Sent args"
    and run: "handleRequestVote raft_ok (nodes s p) args = (r', reply)" and g: "rvr_VoteGranted reply"
  shows "match_inv conf (set_call ((set_node s p r')\<lparr>g_votes := insert (p, t, c) (g_votes s), g_vlog := (g_vlog s)(p := (g_vlog s p)(t := ents r'))\<rparr>) c t p (Replied reply))"
    (is "match_inv conf ?s")
proof -
  note nl = match_invD(1) [OF inv(2) p(1)]
  have lg: "log_is (r_log (nodes s p))" "good s (ents (nodes s p))" using nl by (simp_all add: node_log_ok_def)
  have m1: "match_inv conf (set_node s p r')" by (rule calm_keeps [OF inv(2) p(1) calm_vote [OF lg(1) run]])
  note cf = call_facts [OF inv(1) p(2)]
  have e: "ents r' = ents (nodes s p)" using handleRequestVote_ok(4) [OF run] by (simp add: ents_def)
  have "indexed (l_entries (r_log (nodes s p)))" using goodD(1) [OF lg(2)] by (simp add: ents_def)
  note li = last_entry [OF this, folded ents_def]
  have up: "not_newer (ents (nodes s p)) (g_clog s c t)"
  proof -
    have "\<not> rv_LastLogTerm args < LastTerm (r_log (nodes s p))"
      "rv_LastLogTerm args = LastTerm (r_log (nodes s p)) \<longrightarrow> \<not> unat (rv_LastLogIndex args) < unat (LastIndex (r_log (nodes s p)))"
      using handleRequestVote_ok(1) [OF run g] by (simp_all add: word_less_nat_alt [of "rv_LastLogIndex args"])
    then show ?thesis using match_invD(4) [OF inv(2) p(2)] li unfolding not_newer_def by (auto simp: not_less)
  qed
  have ct: "t \<le> currentTerm (nodes (set_node s p r') c)" using cf by simp
  have eq: "led ?s = led s" "good ?s = good s" "leader_log_ok ?s = leader_log_ok s" "seg_ok ?s = seg_ok s" "node_log_ok ?s = node_log_ok s"
    "nodes ?s = nodes (set_node s p r')" "appends ?s = appends s" "g_clog ?s = g_clog s"
    by (simp_all add: fun_eq_iff led_def good_def leader_log_ok_def seg_ok_def node_log_ok_def)
  have eq1: "led (set_node s p r') = led s" "good (set_node s p r') = good s" "leader_log_ok (set_node s p r') = leader_log_ok s"
    "seg_ok (set_node s p r') = seg_ok s" "node_log_ok (set_node s p r') = node_log_ok s"
    by (simp_all add: fun_eq_iff led_def good_def leader_log_ok_def seg_ok_def node_log_ok_def)
  have "good s (g_vlog ?s v t') \<and> not_newer (g_vlog ?s v t') (g_clog s c' t') \<and> t' \<le> currentTerm (nodes (set_node s p r') c')" if v: "(v, t', c') \<in> g_votes ?s" for v t' c'
  proof (cases "v = p \<and> t' = t")
    case True
    have "c' = c"
    proof (rule ccontr)
      assume "c' \<noteq> c"
      then have "(p, t, c') \<in> g_votes s" "(p, t, c) \<in> g_votes ?s" "(p, t, c') \<in> g_votes ?s" using v True by auto
      moreover have "votes_ok conf ?s" using elec_inv_step [OF net_step.Vote [OF p run] inv(1)] g
        by (simp add: elec_inv_def votes_ok_def)
      ultimately show False using \<open>c' \<noteq> c\<close> unfolding votes_ok_def by blast
    qed
    then show ?thesis using True lg(2) up ct e by simp
  next
    case False
    then have "(v, t', c') \<in> g_votes (set_node s p r')" using v by auto
    from match_invD(5) [OF m1 this] show ?thesis using False unfolding eq1 by auto
  qed
  moreover have "\<forall>c1 t1 p1 a. calls ?s c1 t1 p1 = Sent a \<longrightarrow> calls s c1 t1 p1 = Sent a" by (simp add: calls_set_call)
  ultimately show ?thesis using m1 unfolding match_inv_def eq eq1 set_node_simps by blast
qed

lemma good_bound:
  assumes "good s L" "\<And>t. led s t \<Longrightarrow> leader_log_ok s t" shows "Suc (length L) < 2 ^ 64"
proof (cases L rule: rev_cases)
  case (snoc ys y)
  then have "length ys < length L" by simp
  note g = goodD(3) [OF assms(1) this]
  then have "Suc (length (g_log s (le_Term (L ! length ys)))) < 2 ^ 64" using assms(2) unfolding leader_log_ok_def by blast
  moreover have "length L \<le> length (g_log s (le_Term (L ! length ys)))" using g snoc by (metis Suc_leI length_append_singleton)
  ultimately show ?thesis by linarith
qed simp

lemma leader_log_mono:
  assumes "grows s s'" "leader_log_ok s t" "g_log s' t = g_log s t" "g_base s' t = g_base s t" shows "leader_log_ok s' t"
  using assms good_mono [OF assms(1)] by (simp add: leader_log_ok_def)

lemma match_win:
  assumes inv: "elec_inv conf s" "match_inv conf s" and w: "calls s c t p = Winning" "r_state (nodes s c) = Candidate" "currentTerm (nodes s c) = t"
  shows "match_inv conf (set_call ((set_node s c (becomeLeaderLocked (nodes s c)))\<lparr>g_led := (g_led s)(t := insert c (g_led s t)),
      g_log := (g_log s)(t := ents (nodes s c)), g_base := (g_base s)(t := length (ents (nodes s c)))\<rparr>) c t p Counted)" (is "match_inv conf ?s")
    "g_led s t = {}" "c \<in> members conf"
proof -
  have "calls s c t p \<noteq> NoCall" using w(1) by simp
  then show c: "c \<in> members conf" using call_facts [OF inv(1) refl] by blast
  let ?r = "nodes s c" and ?r' = "becomeLeaderLocked (nodes s c)"
  note nl = match_invD(1) [OF inv(2) c]
  have nled: "c \<notin> g_led s t" and lg: "log_is (r_log ?r)" "good s (ents ?r)" "\<forall>e\<in>set (ents ?r). le_Term e \<le> t" using nl w(2,3) by (auto simp: node_log_ok_def)
  have r': "r_log ?r' = r_log ?r" "ents ?r' = ents ?r" "currentTerm ?r' = t" "r_state ?r' = Leader" "peers ?r' = peers ?r"
    "\<forall>p\<in>set (peers ?r). nextIndex ?r' p = LastIndex (r_log ?r) + 1" using w(3) by (simp_all add: becomeLeaderLocked_def ents_def Let_def)
  have "elec_inv conf ((set_node s c ?r')\<lparr>g_led := (g_led s)(t := insert c (g_led s t)),
      g_log := (g_log s)(t := ents ?r), g_base := (g_base s)(t := length (ents ?r))\<rparr>)" (is "elec_inv conf ?e")
    using win_keeps [OF inv(1) w(1)] w(2,3) r'(2) by simp
  from elec_invD(5) [OF this] have "\<forall>d\<in>g_led ?e t. \<forall>d'\<in>g_led ?e t. d' = d" unfolding led_ok_def by blast
  then have "d = c" if "d \<in> g_led s t" for d using that by simp
  then show fresh: "g_led s t = {}" using nled by blast
  have gr: "grows s ?s" using fresh by (auto simp: grows_def led_def)
  have other: "g_log ?s t' = g_log s t'" "g_base ?s t' = g_base s t'" "g_led ?s t' = g_led s t'" if "t' \<noteq> t" for t' using that by simp_all
  have own: "g_led ?s t = {c}" "g_log ?s t = ents ?r" "g_base ?s t = length (ents ?r)" using fresh by simp_all
  have bd: "Suc (length (ents ?r)) < 2 ^ 64" by (rule good_bound [OF lg(2)]) (rule match_invD(2) [OF inv(2)])
  have less: "le_Term (ents ?r ! i) < t" if "i < length (ents ?r)" for i
  proof -
    have "led s (le_Term (ents ?r ! i))" using goodD(3) [OF lg(2) that] by blast
    then have "le_Term (ents ?r ! i) \<noteq> t" using fresh by (auto simp: led_def)
    then show ?thesis using lg(3) that by (simp add: order_less_le)
  qed
  have ll: "leader_log_ok ?s t'" if "led ?s t'" for t'
  proof (cases "t' = t")
    case True
    then show ?thesis using good_mono [OF gr lg(2)] bd less own by (simp add: leader_log_ok_def)
  next
    case False
    then have "led s t'" using that other by (simp add: led_def)
    then show ?thesis using leader_log_mono [OF gr match_invD(2) [OF inv(2)]] other False by blast
  qed
  have nd: "node_log_ok ?s m (nodes ?s m)" if m: "m \<in> members conf" for m
  proof (cases "m = c")
    case True
    have "indexed (l_entries (r_log ?r))" using goodD(1) [OF lg(2)] by (simp add: ents_def)
    then have "unat (LastIndex (r_log ?r) + 1) = Suc (length (ents ?r))" using LastIndex_indexed bd unat_Suc_word [of "LastIndex (r_log ?r)"]
      by (simp add: ents_def unat_word_ariths)
    then show ?thesis using True own(2) r' lg good_mono [OF gr lg(2)] by (simp add: node_log_ok_def)
  next
    case False
    have nm: "node_log_ok s m (nodes s m)" by (rule match_invD(1) [OF inv(2) m])
    have "currentTerm (nodes s m) \<noteq> t" if "r_state (nodes s m) = Leader" using elec_invD(5) [OF inv(1)] m that fresh unfolding led_ok_def by blast
    then have "node_log_ok ?s m (nodes s m)" using False nm by (intro node_log_mono [OF gr nm]) (auto simp: node_log_ok_def)
    then show ?thesis using False by simp
  qed
  have sg: "seg_ok ?s args" if "(a, b, args) \<in> appends ?s" for a b args
  proof -
    have m: "(a, b, args) \<in> appends s" using that by simp
    then have "led s (ae_Term args)" using elec_invD(6) [OF inv(1)] unfolding msgs_ok_def led_def by blast
    then show ?thesis using seg_mono [OF gr] match_invD(3) [OF inv(2) m] by blast
  qed
  have cl: "rv_LastLogTerm a = last_term (g_clog ?s c1 t1) \<and> unat (rv_LastLogIndex a) = length (g_clog ?s c1 t1)" if "calls ?s c1 t1 p1 = Sent a" for c1 t1 p1 a
  proof -
    have "calls s c1 t1 p1 = Sent a" using that by (simp add: calls_set_call split: if_splits)
    from match_invD(4) [OF inv(2) this] show ?thesis by simp
  qed
  have vt: "good ?s (g_vlog ?s v t') \<and> not_newer (g_vlog ?s v t') (g_clog ?s c' t') \<and> t' \<le> currentTerm (nodes ?s c')" if "(v, t', c') \<in> g_votes ?s" for v t' c'
  proof -
    have "(v, t', c') \<in> g_votes s" using that by simp
    from match_invD(5) [OF inv(2) this] show ?thesis using good_mono [OF gr] r'(3) w(3) by auto
  qed
  show "match_inv conf ?s" by (rule match_invI [OF nd ll sg cl vt])
qed

lemma Propose_ok:
  assumes run: "Propose raft_ok r cmd data i = (r', res)" and lg: "log_is (r_log r)" "indexed (ents r)" and d: "length data < 2 ^ 32" "unat (LastIndex (r_log r)) + 2 < 2 ^ 64"
  obtains (no) "r_state r \<noteq> Leader" "r' = r" "res \<noteq> Ok ()"
  | (yes) e l ps where "r_state r = Leader" "res = Ok ()" "le_Term e = currentTerm r" "unat (le_Index e) = Suc (length (ents r))" "lentry_ok e"
      "log_is l" "l_entries l = ents r @ [e]" "r' = r\<lparr>r_log := l, proposals := ps, matchIndex := (matchIndex r)(r_addr r := le_Index e)\<rparr>"
proof (cases "r_state r = Leader")
  case False
  then show ?thesis using no run by (auto simp: Propose_def)
next
  case True
  let ?e = "\<lparr>le_Term = currentTerm r, le_Index = LastIndex (r_log r) + 1, le_CmdType = cmd, le_Data = data\<rparr>"
  have ok: "list_all lentry_ok [?e]" using d(1) by (simp add: lentry_ok_def)
  obtain l where l: "Log_Append log_ok (r_log r) [?e] = (l, None)" "log_is l" "l_entries l = ents r @ [?e]"
    using Log_Append_ok [OF lg(1) ok] unfolding ents_def by blast
  have "unat (LastIndex (r_log r) + 1) = Suc (length (ents r))" using LastIndex_indexed [of "r_log r"] lg(2) d(2)
    by (simp add: ents_def unat_word_ariths)
  then show ?thesis using yes [of ?e l "proposals r @ [\<lparr>p_index = LastIndex (r_log r) + 1, p_id = i\<rparr>]"] l True run d(1) by (auto simp: Propose_def Let_def raft_ok_def lentry_ok_def)
qed

lemma match_propose:
  assumes inv: "elec_inv conf s" "match_inv conf s" and n: "n \<in> members conf" "length data < 2 ^ 32" "unat (LastIndex (r_log (nodes s n))) + 2 < 2 ^ 64"
    and run: "Propose raft_ok (nodes s n) cmd data i = (r', res)"
    and s': "s' = (set_node s n r')\<lparr>g_log := (if res = Ok () then (g_log s)(currentTerm r' := ents r') else g_log s), g_acks := ga, g_ids := gi\<rparr>" (is "_ = ?s")
  shows "match_inv conf s'" "grows s s'"
proof -
  let ?r = "nodes s n"
  note nl = match_invD(1) [OF inv(2) n(1)]
  have lg: "log_is (r_log ?r)" "good s (ents ?r)" using nl by (simp_all add: node_log_ok_def)
  have "match_inv conf ?s \<and> grows s ?s"
    using run lg(1) goodD(1) [OF lg(2)] n(2,3)
  proof (cases rule: Propose_ok)
    case no
    then have "?s = s\<lparr>g_acks := ga, g_ids := gi\<rparr>" by (simp add: set_node_def)
    then show ?thesis using inv(2) match_cong [of ?s s conf] grows_refl [of ?s s] by simp
  next
    case (yes e l ps)
    let ?t = "currentTerm ?r"
    have nt: "n \<in> g_led s ?t" using elec_invD(5) [OF inv(1)] n(1) yes(1) unfolding led_ok_def by blast
    have G: "ents ?r = g_log s ?t" and nx: "\<forall>p\<in>set (peers ?r). 0 < unat (nextIndex ?r p) \<and> unat (nextIndex ?r p) \<le> Suc (length (ents ?r))"
      using nl yes(1) unfolding node_log_ok_def by blast+
    note ll = match_invD(2) [OF inv(2), of ?t]
    have r': "ents r' = ents ?r @ [e]" "currentTerm r' = ?t" "r_log r' = l" "r_state r' = Leader" "peers r' = peers ?r" "nextIndex r' = nextIndex ?r"
      using yes by (simp_all add: ents_def)
    have own: "g_log ?s ?t = ents ?r @ [e]" and other: "t' \<noteq> ?t \<Longrightarrow> g_log ?s t' = g_log s t'" for t' using yes(2) r' by simp_all
    have same: "g_led ?s = g_led s" "g_base ?s = g_base s" "appends ?s = appends s" "calls ?s = calls s" "g_votes ?s = g_votes s" "g_vlog ?s = g_vlog s" "g_clog ?s = g_clog s"
      by simp_all
    have leds: "led ?s = led s" by (simp add: led_def fun_eq_iff)
    have gr: "grows s ?s"
      unfolding grows_def leds same
    proof (intro allI impI conjI refl)
      fix t' show "\<exists>xs. g_log ?s t' = g_log s t' @ xs" using own other [of t'] G by (cases "t' = ?t") auto
    qed simp
    have gd: "good ?s (ents ?r @ [e])"
      unfolding good_def
    proof (intro conjI allI impI)
      have "indexed (ents ?r)" by (rule goodD(1) [OF lg(2)])
      then show "indexed (ents ?r @ [e])" using yes(4) by (simp add: indexed_append)
      show "list_all lentry_ok (ents ?r @ [e])" using goodD(2) [OF lg(2)] yes(5) by simp
      fix j assume "j < length (ents ?r @ [e])"
      then have "led ?s (le_Term ((ents ?r @ [e]) ! j)) \<and> j < length (g_log ?s (le_Term ((ents ?r @ [e]) ! j))) \<and>
        take (Suc j) (ents ?r @ [e]) = take (Suc j) (g_log ?s (le_Term ((ents ?r @ [e]) ! j)))"
      proof (cases "j < length (ents ?r)")
        case True
        then show ?thesis using goodD(3) [OF good_mono [OF gr lg(2)] True] by (simp add: nth_append)
      next
        case False
        then have "j = length (ents ?r)" using \<open>j < length (ents ?r @ [e])\<close> by simp
        moreover have "led ?s ?t" using nt unfolding leds by (auto simp: led_def)
        ultimately show ?thesis using yes(3) own by simp
      qed
      then show "led ?s (le_Term ((ents ?r @ [e]) ! j))" "j < length (g_log ?s (le_Term ((ents ?r @ [e]) ! j)))"
        "take (Suc j) (ents ?r @ [e]) = take (Suc j) (g_log ?s (le_Term ((ents ?r @ [e]) ! j)))" by simp_all
    qed
    have ln: "unat (LastIndex (r_log ?r)) = length (ents ?r)" using LastIndex_indexed [of "r_log ?r"] goodD(1) [OF lg(2)] by (simp add: ents_def)
    have "leader_log_ok ?s t'" if "led s t'" for t'
    proof (cases "t' = ?t")
      case True
      have "g_base s ?t \<le> length (ents ?r)" "\<forall>i<length (ents ?r). if i < g_base s ?t then le_Term (ents ?r ! i) < ?t else le_Term (ents ?r ! i) = ?t"
        using ll that True G by (simp_all add: leader_log_ok_def)
      then show ?thesis unfolding leader_log_ok_def True own same using gd n(3) ln yes(3) by (auto simp: nth_append less_Suc_eq)
    next
      case False
      then show ?thesis using leader_log_mono [OF gr match_invD(2) [OF inv(2) that]] other same by simp
    qed
    moreover have "node_log_ok ?s m (nodes ?s m)" if m: "m \<in> members conf" for m
    proof (cases "m = n")
      case True
      have "unat (nextIndex ?r p) \<le> Suc (Suc (length (ents ?r)))" if "p \<in> set (peers ?r)" for p using nx that by (simp add: le_SucI)
      then show ?thesis using True r' gd own nl yes(3,6) nx by (auto simp: node_log_ok_def)
    next
      case False
      have nm: "node_log_ok s m (nodes s m)" by (rule match_invD(1) [OF inv(2) m])
      have "currentTerm (nodes s m) \<noteq> ?t" if "r_state (nodes s m) = Leader"
        using elec_invD(5) [OF inv(1)] m n(1) that nt False unfolding led_ok_def by metis
      then have "node_log_ok ?s m (nodes s m)" using nm other by (intro node_log_mono [OF gr nm]) (auto simp: node_log_ok_def)
      then show ?thesis using False by simp
    qed
    moreover have "seg_ok ?s args" if m: "(a, b, args) \<in> appends s" for a b args
    proof -
      have "led s (ae_Term args)" using elec_invD(6) [OF inv(1)] m unfolding msgs_ok_def led_def by blast
      then show ?thesis using seg_mono [OF gr] match_invD(3) [OF inv(2) m] by blast
    qed
    moreover have "currentTerm (nodes ?s c) = currentTerm (nodes s c)" for c using r'(2) by simp
    moreover have "good ?s (g_vlog s v t') \<and> not_newer (g_vlog s v t') (g_clog s c t') \<and> t' \<le> currentTerm (nodes s c)" if "(v, t', c) \<in> g_votes s" for v t' c
      using match_invD(5) [OF inv(2) that] good_mono [OF gr] by blast
    ultimately have "match_inv conf ?s" using match_invD(4) [OF inv(2)] by (intro match_invI; simp only: same leds)
    then show ?thesis using gr by simp
  qed
  then show "match_inv conf s'" "grows s s'" unfolding s' by simp_all
qed

subsection \<open>Replication\<close>

lemma replicateTo_ok:
  assumes nl: "node_log_ok s n r" and p: "r_state r = Leader" "p \<in> set (peers r)"
  obtains args where "replicateTo r p = Ok (Some args)" "ae_Term args = currentTerm r" "ae_LeaderCommit args = commitIndex r"
    "unat (ae_PrevLogIndex args) + length (ae_Entries args) = length (ents r)" "ae_Entries args = drop (unat (ae_PrevLogIndex args)) (ents r)"
    "unat (ae_PrevLogIndex args) \<noteq> 0 \<Longrightarrow> ae_PrevLogTerm args = le_Term (ents r ! (unat (ae_PrevLogIndex args) - 1))"
proof -
  let ?i = "nextIndex r p" and ?L = "ents r"
  have b: "0 < unat ?i" "unat ?i \<le> Suc (length ?L)" using nl p unfolding node_log_ok_def by blast+
  have ix: "indexed (l_entries (r_log r))" using nl goodD(1) by (auto simp: node_log_ok_def ents_def)
  have i0: "?i \<noteq> 0" using b(1) by auto
  have u: "unat (?i - 1) = unat ?i - 1" by (rule unat_minus_1 [OF i0])
  have es: "GetEntriesFrom (r_log r) ?i = Ok (drop (unat ?i - 1) ?L)" using GetEntriesFrom_indexed [OF ix] i0 by (simp add: ents_def)
  show ?thesis
  proof (cases "?i > 1")
    case True
    then have "1 < unat ?i" by (simp add: word_less_nat_alt)
    then have n0: "?i - 1 \<noteq> 0" "unat ?i - 1 \<noteq> 0" "unat ?i - 1 \<le> length ?L" using u b(2) by auto
    have "GetEntry (r_log r) (?i - 1) = Ok (Some (?L ! (unat ?i - 1 - 1)))" using GetEntry_indexed [OF ix, of "?i - 1"] n0 u by (simp add: ents_def)
    then show ?thesis using that [of "\<lparr>ae_Term = currentTerm r, ae_LeaderID = r_addr r, ae_PrevLogIndex = ?i - 1, ae_PrevLogTerm = le_Term (?L ! (unat ?i - 1 - 1)),
       ae_Entries = drop (unat ?i - 1) ?L, ae_LeaderCommit = commitIndex r\<rparr>"] True es u n0 p(1) by (simp add: replicateTo_def Let_def)
  next
    case False
    then have "unat ?i = 1" using b(1) by (simp add: word_less_nat_alt)
    then show ?thesis using that [of "\<lparr>ae_Term = currentTerm r, ae_LeaderID = r_addr r, ae_PrevLogIndex = 0, ae_PrevLogTerm = 0,
       ae_Entries = ?L, ae_LeaderCommit = commitIndex r\<rparr>"] False es p(1) by (simp add: replicateTo_def Let_def)
  qed
qed

text \<open>What a handled append request does to the log, beside the log \<open>G\<close> of the leader it came from.\<close>

definition follows :: "LogEntry list \<Rightarrow> LogEntry list \<Rightarrow> nat \<Rightarrow> bool \<Rightarrow> LogEntry list \<Rightarrow> bool" where
  "follows G L q ok L' \<longleftrightarrow> ((\<exists>j. L' = take j L) \<or> L' = take q G) \<and> (ok \<longrightarrow> q \<le> length L' \<and> take q L' = take q G) \<and>
     (\<forall>m. m \<le> length L \<and> m \<le> length G \<and> take m L = take m G \<longrightarrow> m \<le> length L' \<and> take m L' = take m L)"

lemma follows_id: "follows G L q False L"
  unfolding follows_def using take_all [of L "length L"] by (metis order_refl)

lemma follows_cut:
  assumes "j < length L" "j < length G" "le_Term (L ! j) \<noteq> le_Term (G ! j)" shows "follows G L q False (take j L)"
  unfolding follows_def
proof (intro conjI allI impI)
  fix m assume m: "m \<le> length L \<and> m \<le> length G \<and> take m L = take m G"
  have "m \<le> j"
  proof (rule ccontr)
    assume "\<not> m \<le> j"
    then have "L ! j = G ! j" using m nth_take [of j m L] nth_take [of j m G] by simp
    then show False using assms(3) by simp
  qed
  then show "m \<le> length (take j L)" "take m (take j L) = take m L" using assms(1) by (simp_all add: min_absorb1)
qed auto

lemma follows_merge:
  assumes "p + k \<le> length G" "p \<le> length L" "take p L = take p G" "agree L G"
  shows "follows G L (p + k) True (merge_log L p (take k (drop p G)))" (is "follows G L _ _ ?L")
proof -
  have a: "take (p + k) ?L = take (p + k) G" "p + k \<le> length ?L" "?L = L \<or> ?L = take (p + k) G" using merge_agree [OF assms] by (simp_all add: Let_def)
  have "m \<le> length ?L \<and> take m ?L = take m L" if m: "m \<le> length L" "m \<le> length G" "take m L = take m G" for m
  proof -
    have t: "take m ?L = take m L" by (rule merge_keeps [OF assms(1,2) m])
    then have "length (take m ?L) = m" using m(1) by simp
    then show ?thesis using t by (metis length_take min.cobounded1)
  qed
  then show ?thesis using a unfolding follows_def using take_all [of L "length L"] by (metis order_refl)
qed

lemma append_spec:
  assumes nl: "node_log_ok s n r" and G: "good s (g_log s (ae_Term args))" and sg: "seg_ok s args" and t: "\<not> ae_Term args < currentTerm r"
  obtains r' reply where "handleAppendEntries raft_ok r args = Ok (r', reply)" "log_is (r_log r')"
    "follows (g_log s (ae_Term args)) (ents r) (unat (ae_PrevLogIndex args) + length (ae_Entries args)) (aer_Success reply) (ents r')"
    "commitIndex r' = (if aer_Success reply \<and> ae_LeaderCommit args > commitIndex r
       then if ae_LeaderCommit args < LastIndex (r_log r') then ae_LeaderCommit args else LastIndex (r_log r') else commitIndex r)"
proof -
  let ?G = "g_log s (ae_Term args)" and ?p = "unat (ae_PrevLogIndex args)" and ?k = "length (ae_Entries args)" and ?L = "ents r"
  have lg: "log_is (r_log r)" "good s ?L" using nl by (simp_all add: node_log_ok_def)
  have o: "?p + ?k \<le> length ?G" "ae_Entries args = take ?k (drop ?p ?G)" "?p \<noteq> 0 \<longrightarrow> ae_PrevLogTerm args = le_Term (?G ! (?p - 1))"
    using sg unfolding seg_ok_def Let_def by blast+
  have "list_all lentry_ok (take ?k (drop ?p ?G))" using goodD(2) [OF G] by (auto simp: list_all_iff dest!: in_set_takeD in_set_dropD)
  then have es: "list_all lentry_ok (ae_Entries args)" using o(2) by simp
  have ix: "\<forall>i<?k. unat (le_Index (ae_Entries args ! i)) = Suc (?p + i)"
  proof (intro allI impI)
    fix i assume "i < ?k"
    then have "ae_Entries args ! i = ?G ! (?p + i)" using o(1) by (subst o(2)) simp
    then show "unat (le_Index (ae_Entries args ! i)) = Suc (?p + i)" using goodD(1) [OF G] o(1) \<open>i < ?k\<close> by (simp add: indexed_def)
  qed
  obtain r' reply where h: "handleAppendEntries raft_ok r args = Ok (r', reply)" "log_is (r_log r')"
    and no: "missing ?L args \<Longrightarrow> \<not> aer_Success reply \<and> commitIndex r' = commitIndex r \<and> ents r' = (if length ?L < ?p then ?L else take (?p - 1) ?L)"
    and yes: "\<not> missing ?L args \<Longrightarrow> aer_Success reply \<and> ents r' = merge_log ?L ?p (ae_Entries args) \<and>
       commitIndex r' = (if ae_LeaderCommit args > commitIndex r
          then if ae_LeaderCommit args < LastIndex (r_log r') then ae_LeaderCommit args else LastIndex (r_log r') else commitIndex r)"
    using handleAppendEntries_spec [OF lg(1) goodD(1) [OF lg(2)] es ix t] by blast
  have "follows ?G ?L (?p + ?k) (aer_Success reply) (ents r')"
  proof (cases "missing ?L args")
    case True
    show ?thesis
    proof (cases "length ?L < ?p")
      case short: True
      then show ?thesis using no [OF True] follows_id by simp
    next
      case False
      have p0: "0 < ?p" using True by (simp add: missing_def unat_gt_0)
      have "?p - 1 < length ?L" "?p - 1 < length ?G" "le_Term (?L ! (?p - 1)) \<noteq> le_Term (?G ! (?p - 1))"
        using False True o(1,3) p0 by (auto simp: missing_def)
      from follows_cut [OF this] show ?thesis using no [OF True] False by simp
    qed
  next
    case False
    have pl: "?p \<le> length ?L" using False by (auto simp: missing_def not_less)
    have "take ?p ?L = take ?p ?G"
    proof (cases "?p = 0")
      case nz: False
      then have "le_Term (?L ! (?p - 1)) = le_Term (?G ! (?p - 1))" using False o(3) by (auto simp: missing_def)
      then show ?thesis using nz pl o(1) by (intro take_agree [OF good_agree [OF lg(2) G]]) simp_all
    qed simp
    then have "follows ?G ?L (?p + ?k) True (merge_log ?L ?p (take ?k (drop ?p ?G)))" by (intro follows_merge o(1) pl good_agree [OF lg(2) G])
    then show ?thesis using yes [OF False] o(2) by simp
  qed
  then show ?thesis using that [OF h] yes no by (cases "missing ?L args") auto
qed

lemma follows_good:
  assumes "follows G L q ok L'" "good s L" "good s G" shows "good s L'" "set L' \<subseteq> set L \<union> set G"
  using assms good_take unfolding follows_def by (metis, metis le_supI1 le_supI2 set_take_subset)

lemma match_append:
  assumes inv: "elec_inv conf s" "match_inv conf s" and m: "(a, n, args) \<in> appends s" and run: "handleAppendEntries raft_ok (nodes s n) args = Ok (r', reply)"
  shows "match_inv conf (set_node s n r')"
proof -
  have n: "n \<in> members conf" "led s (ae_Term args)" using elec_invD(6) [OF inv(1)] m unfolding msgs_ok_def led_def by blast+
  note nl = match_invD(1) [OF inv(2) n(1)] and ll = match_invD(2) [OF inv(2) n(2)] and role = handleAppendEntries_role(1) [OF run]
  have G: "good s (g_log s (ae_Term args))" using ll by (simp add: leader_log_ok_def)
  have L: "good s (ents (nodes s n))" "\<forall>e\<in>set (ents (nodes s n)). le_Term e \<le> currentTerm (nodes s n)" using nl by (simp_all add: node_log_ok_def)
  show ?thesis
  proof (cases "ae_Term args < currentTerm (nodes s n)")
    case True
    then have "set_node s n r' = s" using role by (simp add: set_node_def)
    then show ?thesis using inv(2) by simp
  next
    case False
    obtain r1 rep1 where a1: "handleAppendEntries raft_ok (nodes s n) args = Ok (r1, rep1)" "log_is (r_log r1)"
      "follows (g_log s (ae_Term args)) (ents (nodes s n)) (unat (ae_PrevLogIndex args) + length (ae_Entries args)) (aer_Success rep1) (ents r1)"
      using append_spec [OF nl G match_invD(3) [OF inv(2) m] False] by metis
    have same: "r1 = r'" using a1(1) run by simp
    have ro: "currentTerm r' = ae_Term args" "r_state r' = Follower" using role False by simp_all
    have "le_Term e \<le> ae_Term args" if "e \<in> set (ents r')" for e
    proof -
      have "\<forall>e\<in>set (g_log s (ae_Term args)). le_Term e \<le> ae_Term args"
        using ll unfolding leader_log_ok_def by (metis in_set_conv_nth order_less_imp_le order_refl)
      moreover have "\<forall>e\<in>set (ents (nodes s n)). le_Term e \<le> ae_Term args" using L(2) False by (meson not_less order_trans)
      ultimately show ?thesis using follows_good(2) [OF a1(3) L(1) G] that same by blast
    qed
    then have "node_log_ok s n r'" using follows_good(1) [OF a1(3) L(1) G] a1(2) ro same by (simp add: node_log_ok_def)
    then show ?thesis using match_set_node [OF inv(2)] False ro(1) by (simp add: not_less)
  qed
qed

lemma match_call:
  assumes "match_inv conf s" "\<forall>args. x \<noteq> Sent args" shows "match_inv conf (set_call s c t p x)"
proof -
  let ?s = "set_call s c t p x"
  have eq: "node_log_ok ?s = node_log_ok s" "leader_log_ok ?s = leader_log_ok s" "seg_ok ?s = seg_ok s" "led ?s = led s" "good ?s = good s"
    by (simp_all add: fun_eq_iff node_log_ok_def leader_log_ok_def seg_ok_def led_def good_def)
  show ?thesis using assms unfolding match_inv_def eq calls_set_call by simp
qed

lemma match_reply:
  assumes inv: "elec_inv conf s" "match_inv conf s" and m: "(n, p, args) \<in> appends s" and run: "replicateReply raft_ok (nodes s n) p args reply = Ok r'"
  shows "calm_change (nodes s n) r'"
proof -
  let ?r = "nodes s n"
  have n: "n \<in> members conf" using elec_invD(6) [OF inv(1)] m unfolding msgs_ok_def by blast
  note nl = match_invD(1) [OF inv(2) n]
  have lg: "log_is (r_log ?r)" "good s (ents ?r)" using nl by (simp_all add: node_log_ok_def)
  show ?thesis
  proof (rule calm_reply [OF lg(1) goodD(1) [OF lg(2)] good_bound [OF lg(2) match_invD(2) [OF inv(2)]] _ run])
    assume a: "r_state ?r = Leader" "ae_Term args = currentTerm ?r" "ae_Entries args \<noteq> []"
    have "ents ?r = g_log s (ae_Term args)" using nl a(1,2) by (simp add: node_log_ok_def)
    then show "unat (le_Index (last (ae_Entries args))) \<le> length (ents ?r)" using seg_last [OF match_invD(3) [OF inv(2) m]] lg(2) a(3)
      match_invD(3) [OF inv(2) m] by (simp add: seg_ok_def Let_def)
  qed
qed

lemma match_inv_step: assumes "net_step conf s s'" "elec_inv conf s" "match_inv conf s" shows "match_inv conf s'"
  using assms
proof (induction rule: net_step.induct)
  case (Start n s r' args)
  then show ?case using match_start by blast
next
  case (Vote p s c t args r' reply)
  show ?case
  proof (cases "rvr_VoteGranted reply")
    case True
    have "match_inv conf (set_call ((set_node s p r')\<lparr>g_votes := insert (p, t, c) (g_votes s), g_vlog := (g_vlog s)(p := (g_vlog s p)(t := ents r'))\<rparr>) c t p (Replied reply))"
      by (rule match_vote [OF Vote.prems Vote.hyps True])
    then show ?thesis by (rule match_cong [THEN iffD2, rotated -1]) (use True in \<open>simp_all add: set_call_def\<close>)
  next
    case False
    have lg: "log_is (r_log (nodes s p))" using match_invD(1) [OF Vote.prems(2) Vote.hyps(1)] by (simp add: node_log_ok_def)
    have "match_inv conf (set_node s p r')" by (rule calm_keeps [OF Vote.prems(2) Vote.hyps(1) calm_vote [OF lg Vote.hyps(3)]])
    then have "match_inv conf (set_call (set_node s p r') c t p (Replied reply))" by (rule match_call) simp
    then show ?thesis by (rule match_cong [THEN iffD2, rotated -1]) (use False in simp_all)
  qed
next
  case (VoteReply s c t p reply r' go)
  have c: "c \<in> members conf" using call_facts [OF VoteReply.prems(1) VoteReply.hyps(1)] by simp
  have lg: "log_is (r_log (nodes s c))" using match_invD(1) [OF VoteReply.prems(2) c] by (simp add: node_log_ok_def)
  have "match_inv conf (set_node s c r')" by (rule calm_keeps [OF VoteReply.prems(2) c calm_voteReply [OF lg VoteReply.hyps(2)]])
  then show ?case by (rule match_call) simp
next
  case (CountVote s c t p v' won)
  have "match_inv conf (set_call s c t p (if won then Winning else Counted))" by (rule match_call [OF CountVote.prems(2)]) simp
  then show ?case by (rule match_cong [THEN iffD2, rotated -1]) simp_all
next
  case (Win s c t p r')
  show ?case
  proof (cases "r_state (nodes s c) = Candidate \<and> currentTerm (nodes s c) = t")
    case True
    then have "r' = becomeLeaderLocked (nodes s c)" "r_state r' = Leader" "r_state (nodes s c) \<noteq> Leader" "ents r' = ents (nodes s c)"
      using Win.hyps(2) by (auto simp: electionWon_def becomeLeaderLocked_def Let_def ents_def)
    then show ?thesis using match_win(1) [OF Win.prems Win.hyps(1)] True by simp
  next
    case False
    then have "r' = nodes s c" using Win.hyps(2) by (auto simp: electionWon_def)
    then show ?thesis using match_call [OF Win.prems(2), of Counted c t p] by (simp add: set_node_def)
  qed
next
  case (Replicate n p s args)
  have l: "r_state (nodes s n) = Leader" using Replicate.hyps(3) by (auto simp: replicateTo_def split: if_splits)
  note nl = match_invD(1) [OF Replicate.prems(2) Replicate.hyps(1)]
  obtain args' where a: "replicateTo (nodes s n) p = Ok (Some args')" "ae_Term args' = currentTerm (nodes s n)"
    "unat (ae_PrevLogIndex args') + length (ae_Entries args') = length (ents (nodes s n))" "ae_Entries args' = drop (unat (ae_PrevLogIndex args')) (ents (nodes s n))"
    "unat (ae_PrevLogIndex args') \<noteq> 0 \<Longrightarrow> ae_PrevLogTerm args' = le_Term (ents (nodes s n) ! (unat (ae_PrevLogIndex args') - 1))"
    using replicateTo_ok [OF nl l Replicate.hyps(2)] by metis
  have same: "args' = args" using a(1) Replicate.hyps(3) by simp
  have "ents (nodes s n) = g_log s (currentTerm (nodes s n))" using nl l by (simp add: node_log_ok_def)
  then have sg: "seg_ok s args" using a(2-5) unfolding same seg_ok_def Let_def by simp
  let ?s = "s\<lparr>appends := insert (n, p, args) (appends s)\<rparr>"
  have eq: "node_log_ok ?s = node_log_ok s" "leader_log_ok ?s = leader_log_ok s" "seg_ok ?s = seg_ok s" "led ?s = led s" "good ?s = good s"
    by (simp_all add: fun_eq_iff node_log_ok_def leader_log_ok_def seg_ok_def led_def good_def)
  show ?case using Replicate.prems(2) sg unfolding match_inv_def eq by auto
next
  case (Append n p args s r' reply)
  have "match_inv conf (set_node s p r')" by (rule match_append [OF Append.prems Append.hyps])
  then show ?case by (rule match_cong [THEN iffD2, rotated -1]) simp_all
next
  case (AppendReply n p args reply s r')
  have m: "(n, p, args) \<in> appends s" and n: "n \<in> members conf" using elec_invD(6) [OF AppendReply.prems(1)] AppendReply.hyps(1) unfolding msgs_ok_def by blast+
  have "calm_change (nodes s n) r'" by (rule match_reply [OF AppendReply.prems m AppendReply.hyps(2)])
  then show ?case by (rule calm_keeps [OF AppendReply.prems(2) n])
next
  case (Propose n data s cmd r' res)
  then show ?case using match_propose(1) [OF _ _ _ _ _ _ refl] by blast
next
  case (ApplyTake n s r' idx commit)
  have "log_is (r_log (nodes s n))" using match_invD(1) [OF ApplyTake.prems(2) ApplyTake.hyps(1)] by (simp add: node_log_ok_def)
  then have "calm_change (nodes s n) r'" using calm_same [of "nodes s n" r'] applyTake_frame [OF ApplyTake.hyps(3)] by simp
  from calm_keeps [OF ApplyTake.prems(2) ApplyTake.hyps(1) this] show ?case by (rule match_cong [THEN iffD2, rotated -1]) simp_all
next
  case (ApplyNext n s idx commit r' go)
  have "log_is (r_log (nodes s n))" using match_invD(1) [OF ApplyNext.prems(2) ApplyNext.hyps(1)] by (simp add: node_log_ok_def)
  from calm_keeps [OF ApplyNext.prems(2) ApplyNext.hyps(1) calm_apply [OF this ApplyNext.hyps(3)]]
  show ?case by (rule match_cong [THEN iffD2, rotated -1]) simp_all
next
  case (Restart n s r')
  have lg: "log_is (r_log (nodes s n))" using match_invD(1) [OF Restart.prems(2) Restart.hyps(1)] by (simp add: node_log_ok_def)
  from calm_keeps [OF Restart.prems(2) Restart.hyps(1) calm_restart(1) [OF node_facts(1) [OF Restart.prems(1) Restart.hyps(1)] lg Restart.hyps(2)]]
  show ?case by (rule match_cong [THEN iffD2, rotated -1]) simp_all
qed

lemma match_inv_init: assumes "net_init conf s" shows "match_inv conf s"
proof -
  have "node_log_ok s n (nodes s n)" if n: "n \<in> members conf" for n
  proof -
    let ?r0 = "undefined\<lparr>currentTerm := 0, votedFor := [], stateFile := None\<rparr>"
    have sv: "saved ?r0" by (simp add: saved_def)
    have "NewRaftWithConfig new_ok (idof conf n) (others conf n) n [] (stateFile ?r0) = Ok (nodes s n)" using assms n by (simp add: net_init_def)
    note q = node_restart_ok [OF sv this]
    have "r_log (nodes s n) = \<lparr>l_entries = [], l_file = [], l_pos = 0, l_open = True\<rparr>" using q(6) fresh_log by (auto simp: OpenLog_def log_ok_def)
    then have "log_is (r_log (nodes s n))" "ents (nodes s n) = []" by (simp_all add: log_is_def ents_def)
    then show ?thesis using q(4) by (simp add: node_log_ok_def)
  qed
  then show ?thesis using assms by (intro match_invI) (simp_all add: net_init_def led_def)
qed

lemma match_inv_reach: "net_reach conf s \<Longrightarrow> match_inv conf s"
  by (induction rule: net_reach.induct) (auto intro: match_inv_init match_inv_step elec_inv_reach)

subsection \<open>Properties\<close>

text \<open>C8. Log matching. In every reachable state of a cluster, when the logs of two nodes have entries of the
  same term at an index, they are the same up to and including that index: the checks of
  \<open>handleAppendEntries\<close> on the entry before the new ones and its truncations suffice.\<close>

theorem raft_log_matching:
  assumes "net_reach conf s" "a \<in> members conf" "b \<in> members conf"
    and "i < length (l_entries (r_log (nodes s a)))" "i < length (l_entries (r_log (nodes s b)))"
    and "le_Term (l_entries (r_log (nodes s a)) ! i) = le_Term (l_entries (r_log (nodes s b)) ! i)"
  shows "take (Suc i) (l_entries (r_log (nodes s a))) = take (Suc i) (l_entries (r_log (nodes s b)))"
proof -
  have "good s (ents (nodes s a))" "good s (ents (nodes s b))"
    using match_invD(1) [OF match_inv_reach [OF assms(1)]] assms(2,3) unfolding node_log_ok_def by blast+
  then show ?thesis using good_agree assms(4-6) unfolding agree_def ents_def by blast
qed

text \<open>C10. No method of a node panics or fails in a reachable state: replication to a peer builds a request,
  a sent request is handled, a reply is handled and a restart reads the files back, with the log and
  the term unchanged.\<close>

theorem raft_no_panic:
  assumes "net_reach conf s" "n \<in> members conf"
  shows "(\<forall>p\<in>set (peers (nodes s n)). \<exists>a. replicateTo (nodes s n) p = Ok a) \<and>
    (\<forall>a args. (a, n, args) \<in> appends s \<longrightarrow> (\<exists>x. handleAppendEntries raft_ok (nodes s n) args = Ok x)) \<and>
    (\<forall>p args reply. (n, p, args, reply) \<in> replies s \<longrightarrow> (\<exists>r'. replicateReply raft_ok (nodes s n) p args reply = Ok r')) \<and>
    (\<forall>idx commit. \<exists>x. applyNext (nodes s n) idx commit = Ok x) \<and>
    (\<exists>r'. NewRaftWithConfig new_ok (idof conf n) (others conf n) n (l_file (r_log (nodes s n))) (stateFile (nodes s n)) = Ok r' \<and>
       r_log r' = r_log (nodes s n) \<and> currentTerm r' = currentTerm (nodes s n) \<and> votedFor r' = votedFor (nodes s n))"
proof -
  have inv: "elec_inv conf s" "match_inv conf s" using assms(1) elec_inv_reach match_inv_reach by blast+
  let ?r = "nodes s n"
  note nl = match_invD(1) [OF inv(2) assms(2)] and sv = node_facts(1) [OF inv(1) assms(2)]
  have lg: "log_is (r_log ?r)" "good s (ents ?r)" using nl by (simp_all add: node_log_ok_def)
  have ix: "indexed (l_entries (r_log ?r))" using goodD(1) [OF lg(2)] by (simp add: ents_def)
  have "\<exists>a. replicateTo ?r p = Ok a" if "p \<in> set (peers ?r)" for p
  proof (cases "r_state ?r = Leader")
    case True
    from replicateTo_ok [OF nl True that] show ?thesis by metis
  qed (simp add: replicateTo_def)
  moreover have "\<exists>x. handleAppendEntries raft_ok ?r args = Ok x" if m: "(a, n, args) \<in> appends s" for a args
  proof (cases "ae_Term args < currentTerm ?r")
    case False
    have "led s (ae_Term args)" using elec_invD(6) [OF inv(1)] m unfolding msgs_ok_def led_def by blast
    then have "good s (g_log s (ae_Term args))" using match_invD(2) [OF inv(2)] by (simp add: leader_log_ok_def)
    from append_spec [OF nl this match_invD(3) [OF inv(2) m] False] show ?thesis by metis
  qed (simp add: handleAppendEntries_def)
  moreover have "\<exists>r'. replicateReply raft_ok ?r p args reply = Ok r'" for p args reply
    using advanceFrom_total ix by (simp add: replicateReply_def advanceCommitIndexLocked_def)
  moreover have "\<exists>x. applyNext ?r idx commit = Ok x" for idx commit
    using GetEntry_indexed [OF ix] by (auto simp: applyNext_def)
  moreover have "\<exists>r'. NewRaftWithConfig new_ok (idof conf n) (others conf n) n (l_file (r_log ?r)) (stateFile ?r) = Ok r' \<and>
      r_log r' = r_log ?r \<and> currentTerm r' = currentTerm ?r \<and> votedFor r' = votedFor ?r"
  proof -
    obtain r' where r': "NewRaftWithConfig new_ok (idof conf n) (others conf n) n (l_file (r_log ?r)) (stateFile ?r) = Ok r'"
      using node_restart_total [OF sv OpenLog_is [OF lg(1)]] by blast
    show ?thesis using r' calm_restart(2) [OF sv lg(1) r'] node_restart_ok(2,3) [OF sv r'] by blast
  qed
  ultimately show ?thesis by (intro conjI ballI allI impI) assumption+
qed

end
