(* ===== verification/Raft_Safety.thy ===== *)
theory Raft_Safety
  imports Raft_Matching
begin

text \<open>
  The safety of a cluster. \<open>safe_step\<close> is an abstract account of what a step may do to logs, terms,
  votes and acknowledgements; every step of \<open>net_step\<close> is one (\<open>step_safe\<close>). An entry is chosen when a
  majority has acknowledged it to the leader that made it; every later leader has the chosen entries
  (\<open>complete\<close>), a commit index covers chosen entries only, and so two nodes never apply different
  entries at an index.
\<close>

subsection \<open>Chosen entries\<close>

text \<open>The leader of \<open>T\<close> started with the first \<open>m\<close> entries of the leader of \<open>t\<close>.\<close>

definition holds :: "net \<Rightarrow> 64 word \<Rightarrow> nat \<Rightarrow> 64 word \<Rightarrow> bool" where
  "holds s T m t \<longleftrightarrow> m \<le> g_base s T \<and> take m (g_log s T) = take m (g_log s t)"

definition kept :: "net \<Rightarrow> 64 word \<Rightarrow> nat \<Rightarrow> 64 word set \<Rightarrow> bool" where
  "kept s t m X \<longleftrightarrow> (\<forall>T\<in>X. t < T \<and> led s T \<longrightarrow> holds s T m t)"

text \<open>The first \<open>m\<close> entries of \<open>L\<close> are those of the leader of \<open>t\<close>.\<close>

definition has :: "net \<Rightarrow> LogEntry list \<Rightarrow> nat \<Rightarrow> 64 word \<Rightarrow> bool" where
  "has s L m t \<longleftrightarrow> m \<le> length L \<and> take m L = take m (g_log s t)"

definition ack_ok :: "conf \<Rightarrow> net \<Rightarrow> gostring \<Rightarrow> 64 word \<Rightarrow> nat \<Rightarrow> bool" where
  "ack_ok conf s v t k \<longleftrightarrow> v \<in> members conf \<and> t \<le> currentTerm (nodes s v) \<and> led s t \<and> k \<le> length (g_log s t) \<and>
     (\<forall>m. g_base s t < m \<and> m \<le> k \<and> kept s t m {..currentTerm (nodes s v)} \<longrightarrow> has s (ents (nodes s v)) m t)"

definition vote_keeps :: "net \<Rightarrow> gostring \<Rightarrow> 64 word \<Rightarrow> bool" where
  "vote_keeps s v T \<longleftrightarrow> (\<forall>t k m. (v, t, k) \<in> g_acks s \<and> t < T \<and> g_base s t < m \<and> m \<le> k \<and> kept s t m {..<T} \<longrightarrow> has s (g_vlog s v T) m t)"

definition lead_keeps :: "net \<Rightarrow> gostring \<Rightarrow> 64 word \<Rightarrow> bool" where
  "lead_keeps s v T \<longleftrightarrow> T \<le> currentTerm (nodes s v) \<and>
     (\<forall>t k m. (v, t, k) \<in> g_acks s \<and> t < T \<and> g_base s t < m \<and> m \<le> k \<and> kept s t m {..<T} \<longrightarrow> holds s T m t)"

definition safe_inv :: "conf \<Rightarrow> net \<Rightarrow> bool" where
  "safe_inv conf s \<longleftrightarrow> (\<forall>v t k. (v, t, k) \<in> g_acks s \<longrightarrow> ack_ok conf s v t k) \<and>
     (\<forall>v T c. (v, T, c) \<in> g_votes s \<and> \<not> led s T \<longrightarrow> vote_keeps s v T) \<and>
     (\<forall>T. led s T \<longrightarrow> (\<exists>Q. Q \<subseteq> members conf \<and> card (members conf) < 2 * card Q \<and> (\<forall>v\<in>Q. lead_keeps s v T)))"

lemma safe_invD:
  assumes "safe_inv conf s"
  shows "(v, t, k) \<in> g_acks s \<Longrightarrow> ack_ok conf s v t k" "(v, T, c) \<in> g_votes s \<Longrightarrow> \<not> led s T \<Longrightarrow> vote_keeps s v T"
    "led s T \<Longrightarrow> \<exists>Q. Q \<subseteq> members conf \<and> card (members conf) < 2 * card Q \<and> (\<forall>v\<in>Q. lead_keeps s v T)"
  using assms unfolding safe_inv_def by blast+

definition chosen :: "conf \<Rightarrow> net \<Rightarrow> 64 word \<Rightarrow> nat \<Rightarrow> bool" where
  "chosen conf s t m \<longleftrightarrow> led s t \<and> g_base s t < m \<and> m \<le> length (g_log s t) \<and>
     card (members conf) < 2 * card {v \<in> members conf. \<exists>k\<ge>m. (v, t, k) \<in> g_acks s}"

text \<open>Leader completeness: by induction on the term, from a node that both acknowledged and voted.\<close>

lemma complete:
  assumes inv: "safe_inv conf s" and ch: "chosen conf s t m"
  shows "t < T \<Longrightarrow> led s T \<Longrightarrow> holds s T m t"
proof (induction T rule: measure_induct_rule [where f = unat])
  case (less T)
  obtain Q where Q: "Q \<subseteq> members conf" "card (members conf) < 2 * card Q" "\<forall>v\<in>Q. lead_keeps s v T" using safe_invD(3) [OF inv less.prems(2)] by blast
  let ?A = "{v \<in> members conf. \<exists>k\<ge>m. (v, t, k) \<in> g_acks s}"
  have "Q \<inter> ?A \<noteq> {}" using ch Q(1,2) by (intro majorities_meet [of "members conf"]) (auto simp: chosen_def)
  then obtain v k where v: "v \<in> Q" "m \<le> k" "(v, t, k) \<in> g_acks s" by blast
  have "kept s t m {..<T}" using less.IH by (simp add: kept_def word_less_nat_alt)
  moreover have "g_base s t < m" using ch by (simp add: chosen_def)
  ultimately show ?case using Q(3) v less.prems(1) unfolding lead_keeps_def by blast
qed

subsection \<open>Abstract steps\<close>

definition keeps_log :: "net \<Rightarrow> net \<Rightarrow> gostring \<Rightarrow> bool" where
  "keeps_log s s' v \<longleftrightarrow> (\<forall>t m. led s t \<and> t \<le> currentTerm (nodes s v) \<and> m \<le> length (g_log s t) \<and> kept s t m {..currentTerm (nodes s' v)} \<and>
     has s (ents (nodes s v)) m t \<longrightarrow> m \<le> length (ents (nodes s' v)) \<and> take m (ents (nodes s' v)) = take m (ents (nodes s v)))"

definition safe_step :: "conf \<Rightarrow> net \<Rightarrow> net \<Rightarrow> bool" where
  "safe_step conf s s' \<longleftrightarrow> grows s s' \<and>
     (\<forall>v\<in>members conf. currentTerm (nodes s v) \<le> currentTerm (nodes s' v) \<and> keeps_log s s' v) \<and>
     g_acks s \<subseteq> g_acks s' \<and>
     (\<forall>v t k. (v, t, k) \<in> g_acks s' - g_acks s \<longrightarrow>
        v \<in> members conf \<and> t = currentTerm (nodes s' v) \<and> led s' t \<and> k \<le> length (g_log s' t) \<and> has s' (ents (nodes s' v)) k t) \<and>
     (\<forall>v T c. (v, T, c) \<in> g_votes s' \<longrightarrow> (v, T, c) \<in> g_votes s \<and> g_vlog s' v T = g_vlog s v T \<or>
        v \<in> members conf \<and> currentTerm (nodes s v) \<le> T \<and> g_vlog s' v T = ents (nodes s v) \<and> g_acks s' = g_acks s) \<and>
     (\<forall>T. led s' T \<and> \<not> led s T \<longrightarrow> (\<exists>Q. Q \<subseteq> members conf \<and> card (members conf) < 2 * card Q \<and> (\<forall>v\<in>Q. lead_keeps s' v T)))"

text \<open>How these notions change when the logs of leaders grow.\<close>

lemma holds_grows:
  assumes g: "grows s s'" and T: "leader_log_ok s T" "led s T" and t: "led s t" "m \<le> length (g_log s t)"
  shows "holds s' T m t \<longleftrightarrow> holds s T m t"
proof (cases "m \<le> g_base s T")
  case True
  then have "m \<le> length (g_log s T)" using T(1) by (simp add: leader_log_ok_def)
  then show ?thesis using growsD(2,3) [OF g T(2)] growsD(3) [OF g t] by (simp add: holds_def)
next
  case False
  then show ?thesis using growsD(2) [OF g T(2)] by (simp add: holds_def)
qed

lemma kept_grows:
  assumes g: "grows s s'" and m: "match_inv conf s" and t: "led s t" "m \<le> length (g_log s t)" and k: "kept s' t m X" and sub: "X' \<inter> {T. led s T} \<subseteq> X"
  shows "kept s t m X'"
  unfolding kept_def
proof (intro ballI impI)
  fix T assume T: "T \<in> X'" "t < T \<and> led s T"
  then have "T \<in> X" "led s' T" using sub growsD(1) [OF g] by blast+
  then have "holds s' T m t" using k T(2) unfolding kept_def by blast
  then show "holds s T m t" using holds_grows [OF g match_invD(2) [OF m] _ t] T(2) by blast
qed

lemma has_grows: "grows s s' \<Longrightarrow> led s t \<Longrightarrow> m \<le> length (g_log s t) \<Longrightarrow> has s' L m t \<longleftrightarrow> has s L m t"
  using growsD(3) [of s s' t m] by (simp add: has_def)

lemma safe_stepD:
  assumes "safe_step conf s s'"
  shows "grows s s'" "v \<in> members conf \<Longrightarrow> currentTerm (nodes s v) \<le> currentTerm (nodes s' v)" "v \<in> members conf \<Longrightarrow> keeps_log s s' v" "g_acks s \<subseteq> g_acks s'"
    "(v, t, k) \<in> g_acks s' \<Longrightarrow> (v, t, k) \<notin> g_acks s \<Longrightarrow> v \<in> members conf \<and> t = currentTerm (nodes s' v) \<and> led s' t \<and> k \<le> length (g_log s' t) \<and> has s' (ents (nodes s' v)) k t"
    "(v, T, c) \<in> g_votes s' \<Longrightarrow> (v, T, c) \<in> g_votes s \<and> g_vlog s' v T = g_vlog s v T \<or>
        v \<in> members conf \<and> currentTerm (nodes s v) \<le> T \<and> g_vlog s' v T = ents (nodes s v) \<and> g_acks s' = g_acks s"
    "led s' T \<Longrightarrow> \<not> led s T \<Longrightarrow> \<exists>Q. Q \<subseteq> members conf \<and> card (members conf) < 2 * card Q \<and> (\<forall>v\<in>Q. lead_keeps s' v T)"
  using assms unfolding safe_step_def by blast+

text \<open>A step that casts no vote.\<close>

lemma safe_stepI:
  assumes "grows s s'" "\<And>v. v \<in> members conf \<Longrightarrow> currentTerm (nodes s v) \<le> currentTerm (nodes s' v)" "\<And>v. v \<in> members conf \<Longrightarrow> keeps_log s s' v" "g_acks s \<subseteq> g_acks s'"
    "\<And>v t k. (v, t, k) \<in> g_acks s' \<Longrightarrow> (v, t, k) \<notin> g_acks s \<Longrightarrow> v \<in> members conf \<and> t = currentTerm (nodes s' v) \<and> led s' t \<and> k \<le> length (g_log s' t) \<and> has s' (ents (nodes s' v)) k t"
    "g_votes s' = g_votes s" "g_vlog s' = g_vlog s"
    "\<And>T. led s' T \<Longrightarrow> \<not> led s T \<Longrightarrow> \<exists>Q. Q \<subseteq> members conf \<and> card (members conf) < 2 * card Q \<and> (\<forall>v\<in>Q. lead_keeps s' v T)"
  shows "safe_step conf s s'"
  unfolding safe_step_def
proof (intro conjI ballI allI impI)
  show "\<exists>Q. Q \<subseteq> members conf \<and> card (members conf) < 2 * card Q \<and> (\<forall>v\<in>Q. lead_keeps s' v T)" if "led s' T \<and> \<not> led s T" for T
    using assms(8) that by blast
  fix v t k assume "(v, t, k) \<in> g_acks s' - g_acks s"
  then have "v \<in> members conf \<and> t = currentTerm (nodes s' v) \<and> led s' t \<and> k \<le> length (g_log s' t) \<and> has s' (ents (nodes s' v)) k t" using assms(5) by blast
  then show "v \<in> members conf" "t = currentTerm (nodes s' v)" "led s' t" "k \<le> length (g_log s' t)" "has s' (ents (nodes s' v)) k t" by blast+
qed (use assms(1-4,6,7) in simp_all)

lemma ack_step:
  assumes st: "safe_step conf s s'" and mi: "match_inv conf s" and a: "ack_ok conf s v t k"
  shows "ack_ok conf s' v t k"
proof -
  note d = safe_stepD [OF st]
  have v: "v \<in> members conf" "t \<le> currentTerm (nodes s v)" "led s t" "k \<le> length (g_log s t)" using a by (simp_all add: ack_ok_def)
  have "has s' (ents (nodes s' v)) m t" if m: "g_base s' t < m" "m \<le> k" "kept s' t m {..currentTerm (nodes s' v)}" for m
  proof -
    have mk: "m \<le> length (g_log s t)" using m(2) v(4) by simp
    have k1: "kept s t m {..currentTerm (nodes s' v)}" by (rule kept_grows [OF d(1) mi v(3) mk m(3)]) auto
    have "kept s t m {..currentTerm (nodes s v)}" using d(2) [OF v(1)] by (intro kept_grows [OF d(1) mi v(3) mk m(3)]) auto
    then have h: "has s (ents (nodes s v)) m t" using a m(1,2) growsD(2) [OF d(1) v(3)] by (simp add: ack_ok_def)
    then have "m \<le> length (ents (nodes s' v)) \<and> take m (ents (nodes s' v)) = take m (ents (nodes s v))"
      using d(3) [OF v(1)] v(2,3) mk k1 unfolding keeps_log_def by blast
    then have "has s (ents (nodes s' v)) m t" using h by (simp add: has_def)
    then show ?thesis using has_grows [OF d(1) v(3) mk] by simp
  qed
  then show ?thesis using v d(2) [OF v(1)] growsD(1,4) [OF d(1) v(3)] unfolding ack_ok_def by (meson order_trans)
qed

lemma lead_step:
  assumes st: "safe_step conf s s'" and mi: "match_inv conf s" and sf: "safe_inv conf s" and T: "led s T" "v \<in> members conf" and l: "lead_keeps s v T"
  shows "lead_keeps s' v T"
  unfolding lead_keeps_def
proof (intro conjI allI impI)
  note d = safe_stepD [OF st]
  show tm: "T \<le> currentTerm (nodes s' v)" using l d(2) [OF T(2)] unfolding lead_keeps_def by (meson order_trans)
  fix t k m assume a: "(v, t, k) \<in> g_acks s' \<and> t < T \<and> g_base s' t < m \<and> m \<le> k \<and> kept s' t m {..<T}"
  have "(v, t, k) \<in> g_acks s"
  proof (rule ccontr)
    assume "(v, t, k) \<notin> g_acks s"
    then have "t = currentTerm (nodes s' v)" using d(5) a by blast
    then show False using a tm by (meson leD)
  qed
  moreover from safe_invD(1) [OF sf this] have t: "led s t" "k \<le> length (g_log s t)" by (simp_all add: ack_ok_def)
  moreover have mk: "m \<le> length (g_log s t)" using t(2) a by simp
  moreover have "kept s t m {..<T}" by (rule kept_grows [OF d(1) mi t(1) mk, of "{..<T}"]) (use a in auto)
  ultimately have "holds s T m t" using l a growsD(2) [OF d(1) t(1)] unfolding lead_keeps_def by metis
  then show "holds s' T m t" using holds_grows [OF d(1) match_invD(2) [OF mi T(1)] T(1) t(1) mk] by simp
qed

lemma vote_step:
  assumes st: "safe_step conf s s'" and mi: "match_inv conf s" and sf: "safe_inv conf s" and el: "elec_inv conf s" and T: "\<not> led s' T" and v: "(v, T, c) \<in> g_votes s'"
  shows "vote_keeps s' v T"
  unfolding vote_keeps_def
proof (intro allI impI)
  note d = safe_stepD [OF st]
  fix t k m assume a: "(v, t, k) \<in> g_acks s' \<and> t < T \<and> g_base s' t < m \<and> m \<le> k \<and> kept s' t m {..<T}"
  have nl: "\<not> led s T" using T growsD(1) [OF d(1)] by blast
  show "has s' (g_vlog s' v T) m t"
  proof (cases "(v, T, c) \<in> g_votes s \<and> g_vlog s' v T = g_vlog s v T")
    case True
    have vm: "v \<in> members conf" "T \<le> currentTerm (nodes s v)" using elec_invD(3) [OF el] True unfolding votes_ok_def by blast+
    have ack: "(v, t, k) \<in> g_acks s"
    proof (rule ccontr)
      assume "(v, t, k) \<notin> g_acks s"
      then have "t = currentTerm (nodes s' v)" using d(5) a by blast
      then show False using a vm(2) d(2) [OF vm(1)] by (meson leD order_trans)
    qed
    from safe_invD(1) [OF sf this] have t: "led s t" "m \<le> length (g_log s t)" using a by (auto simp: ack_ok_def)
    have "kept s t m {..<T}" by (rule kept_grows [OF d(1) mi t, of "{..<T}"]) (use a in auto)
    then have "has s (g_vlog s v T) m t" using safe_invD(2) [OF sf _ nl] True ack a growsD(2) [OF d(1) t(1)] unfolding vote_keeps_def by metis
    then show ?thesis using True has_grows [OF d(1) t] by simp
  next
    case False
    then have n: "v \<in> members conf" "currentTerm (nodes s v) \<le> T" "g_vlog s' v T = ents (nodes s v)" "g_acks s' = g_acks s" using d(6) [OF v] by blast+
    have ack: "ack_ok conf s v t k" using safe_invD(1) [OF sf] a n(4) by blast
    then have t: "led s t" "m \<le> length (g_log s t)" using a by (auto simp: ack_ok_def)
    have "kept s t m {..currentTerm (nodes s v)}" by (rule kept_grows [OF d(1) mi t, of "{..<T}"]) (use a n(2) nl in \<open>auto simp: order_less_le\<close>)
    then have "has s (ents (nodes s v)) m t" using ack a growsD(2) [OF d(1) t(1)] by (simp add: ack_ok_def)
    then show ?thesis using n(3) has_grows [OF d(1) t] by simp
  qed
qed

lemma safe_inv_keeps:
  assumes st: "safe_step conf s s'" and mi: "match_inv conf s" and sf: "safe_inv conf s" and el: "elec_inv conf s"
  shows "safe_inv conf s'"
  unfolding safe_inv_def
proof (intro conjI allI impI)
  note d = safe_stepD [OF st]
  fix v t k assume a: "(v, t, k) \<in> g_acks s'"
  show "ack_ok conf s' v t k"
  proof (cases "(v, t, k) \<in> g_acks s")
    case True
    then show ?thesis using ack_step [OF st mi safe_invD(1) [OF sf]] by blast
  next
    case False
    note n = d(5) [OF a False]
    have "has s' (ents (nodes s' v)) m t" if "m \<le> k" for m
    proof -
      have "k \<le> length (ents (nodes s' v))" "take m (take k (ents (nodes s' v))) = take m (take k (g_log s' t))" using n by (simp_all add: has_def)
      then show ?thesis using that by (simp add: has_def min_absorb1)
    qed
    then show ?thesis using n by (auto simp: ack_ok_def)
  qed
next
  fix v T c assume "(v, T, c) \<in> g_votes s' \<and> \<not> led s' T"
  then show "vote_keeps s' v T" using vote_step [OF st mi sf el] by blast
next
  fix T assume T: "led s' T"
  show "\<exists>Q. Q \<subseteq> members conf \<and> card (members conf) < 2 * card Q \<and> (\<forall>v\<in>Q. lead_keeps s' v T)"
  proof (cases "led s T")
    case True
    then show ?thesis using safe_invD(3) [OF sf True] lead_step [OF st mi sf True] by (meson subsetD)
  next
    case False
    then show ?thesis using safe_stepD(7) [OF st T] by blast
  qed
qed

subsection \<open>The steps of a cluster\<close>

lemma keeps_log_same: "ents (nodes s' v) = ents (nodes s v) \<Longrightarrow> keeps_log s s' v"
  by (simp add: keeps_log_def has_def)

lemma safe_same:
  assumes "g_led s' = g_led s" "g_log s' = g_log s" "g_base s' = g_base s" "g_acks s' = g_acks s" "g_votes s' = g_votes s" "g_vlog s' = g_vlog s"
    and "\<And>v. v \<in> members conf \<Longrightarrow> currentTerm (nodes s v) \<le> currentTerm (nodes s' v) \<and> ents (nodes s' v) = ents (nodes s v)"
  shows "safe_step conf s s'"
  unfolding safe_step_def using assms keeps_log_same grows_refl by (auto simp: led_def)

lemma good_last:
  assumes "good s L" "L \<noteq> []"
  shows "led s (last_term L)" "L = take (length L) (g_log s (last_term L))" "length L \<le> length (g_log s (last_term L))"
    "g_log s (last_term L) ! (length L - 1) = last L"
proof -
  have i: "length L - 1 < length L" "Suc (length L - 1) = length L" using assms(2) by simp_all
  have t: "last_term L = le_Term (L ! (length L - 1))" using assms(2) by (simp add: last_term_def last_conv_nth)
  note g = goodD(3) [OF assms(1) i(1), folded t, unfolded i(2)]
  show "led s (last_term L)" "L = take (length L) (g_log s (last_term L))" "length L \<le> length (g_log s (last_term L))" using g i by simp_all
  then have "L ! (length L - 1) = g_log s (last_term L) ! (length L - 1)" using i(1) by (metis nth_take)
  then show "g_log s (last_term L) ! (length L - 1) = last L" using assms(2) by (simp add: last_conv_nth)
qed

lemma newer_has:
  assumes gd: "good s L" "good s C" and ml: "\<And>t. led s t \<Longrightarrow> leader_log_ok s t" and nn: "not_newer L C"
    and m: "has s L m t" "led s t" "g_base s t < m" "m \<le> length (g_log s t)" and C: "\<And>e. e \<in> set C \<Longrightarrow> le_Term e < T" and k: "kept s t m {..<T}"
  shows "has s C m t"
proof -
  let ?tl = "last_term L" and ?tc = "last_term C"
  have L: "L \<noteq> []" "m \<le> length L" "0 < m" using m(1,3) by (auto simp: has_def)
  note gl = good_last [OF gd(1) L(1)]
  have "L ! (m - 1) = g_log s t ! (m - 1)" using m(1) L(3) unfolding has_def by (metis diff_less nth_take zero_less_one)
  moreover have "le_Term (g_log s t ! (m - 1)) = t" using ml [OF m(2)] m(3,4) L(3) by (simp add: leader_log_ok_def)
  moreover have "L ! (m - 1) = g_log s ?tl ! (m - 1)" using gl(2) L(2,3) by (metis One_nat_def Suc_pred less_eq_Suc_le nth_take)
  moreover have "le_Term (g_log s ?tl ! (m - 1)) \<le> ?tl"
  proof -
    have "m - 1 < length (g_log s ?tl)" using gl(3) L(2,3) by linarith
    then show ?thesis using ml [OF gl(1)] unfolding leader_log_ok_def by (metis order_less_imp_le order_refl)
  qed
  ultimately have tl: "t \<le> ?tl" by simp
  have C0: "C \<noteq> []"
  proof
    assume "C = []"
    then show False using nn L(1) by (simp add: not_newer_def last_term_def)
  qed
  note gc = good_last [OF gd(2) C0]
  have tc: "?tc < T" using C [of "last C"] C0 by (simp add: last_term_def)
  show ?thesis
  proof (cases "t < ?tc")
    case True
    then have h: "m \<le> g_base s ?tc" "take m (g_log s ?tc) = take m (g_log s t)" using k gc(1) tc unfolding kept_def holds_def by blast+
    have "\<not> length C - 1 < g_base s ?tc"
    proof
      assume "length C - 1 < g_base s ?tc"
      moreover have "length C - 1 < length (g_log s ?tc)" using gc(3) C0 by (cases C) simp_all
      ultimately have "le_Term (g_log s ?tc ! (length C - 1)) < ?tc" using ml [OF gc(1)] unfolding leader_log_ok_def by meson
      then show False using gc(4) C0 by (simp add: last_term_def)
    qed
    then have "m \<le> length C" using h(1) by linarith
    then show ?thesis using gc(2) h(2) unfolding has_def by (metis min_absorb1 take_take)
  next
    case False
    then have "?tl = ?tc" "?tc = t" "length L \<le> length C" using nn tl unfolding not_newer_def by auto
    then have "m \<le> length C" "C = take (length C) (g_log s t)" using L(2) gc(2) by simp_all
    then show ?thesis unfolding has_def by (metis min_absorb1 take_take)
  qed
qed

lemma vote_safe:
  assumes inv: "elec_inv conf s" "match_inv conf s" and p: "p \<in> members conf" "calls s c t p = Sent args"
    and run: "handleRequestVote raft_ok (nodes s p) args = (r', reply)"
  shows "safe_step conf s ((set_call (set_node s p r') c t p (Replied reply))\<lparr>
      g_votes := (if rvr_VoteGranted reply then insert (p, t, c) (g_votes s) else g_votes s),
      g_vlog := (if rvr_VoteGranted reply then (g_vlog s)(p := (g_vlog s p)(t := ents r')) else g_vlog s)\<rparr>)" (is "safe_step conf s ?s")
proof -
  have lg: "log_is (r_log (nodes s p))" using match_invD(1) [OF inv(2) p(1)] by (simp add: node_log_ok_def)
  have cc: "currentTerm (nodes s p) \<le> currentTerm r'" "ents r' = ents (nodes s p)" using calm_vote [OF lg run] by (simp_all add: calm_change_def)
  show ?thesis
  proof (cases "rvr_VoteGranted reply")
    case True
    have "rv_Term args = t" using call_facts [OF inv(1) p(2)] by simp
    then have t: "currentTerm (nodes s p) \<le> t" using handleRequestVote_ok(1) [OF run True] cc(1) by simp
    have "(v, T, c') \<in> g_votes s \<and> g_vlog ?s v T = g_vlog s v T \<or>
        v \<in> members conf \<and> currentTerm (nodes s v) \<le> T \<and> g_vlog ?s v T = ents (nodes s v) \<and> g_acks ?s = g_acks s" if "(v, T, c') \<in> g_votes ?s" for v T c'
      using that True p(1) t cc(2) by (cases "v = p \<and> T = t") auto
    moreover have "keeps_log s ?s v" for v using cc(2) by (intro keeps_log_same) simp
    moreover have "grows s ?s" by (rule grows_refl) simp_all
    ultimately show ?thesis unfolding safe_step_def using cc(1) by (simp add: led_def)
  next
    case False
    then show ?thesis using cc by (intro safe_same) simp_all
  qed
qed

lemma win_safe:
  assumes inv: "elec_inv conf s" "match_inv conf s" "safe_inv conf s"
    and w: "calls s c t p = Winning" "r_state (nodes s c) = Candidate" "currentTerm (nodes s c) = t"
  shows "safe_step conf s (set_call ((set_node s c (becomeLeaderLocked (nodes s c)))\<lparr>g_led := (g_led s)(t := insert c (g_led s t)),
      g_log := (g_log s)(t := ents (nodes s c)), g_base := (g_base s)(t := length (ents (nodes s c)))\<rparr>) c t p Counted)" (is "safe_step conf s ?s")
proof -
  let ?C = "ents (nodes s c)"
  note mw = match_win [OF inv(1,2) w]
  note nl = match_invD(1) [OF inv(2) mw(3)]
  have C: "good s ?C" "?C = g_clog s c t" "\<And>e. e \<in> set ?C \<Longrightarrow> le_Term e \<le> t" using nl w(2,3) by (auto simp: node_log_ok_def)
  have nled: "\<not> led s t" using mw(2) by (simp add: led_def)
  have lt: "le_Term e < t" if e: "e \<in> set ?C" for e
  proof -
    obtain i where "i < length ?C" "e = ?C ! i" using e by (metis in_set_conv_nth)
    then have "led s (le_Term e)" using goodD(3) [OF C(1)] by blast
    then show ?thesis using nled C(3) [OF e] by (metis order_less_le)
  qed
  have r': "currentTerm (becomeLeaderLocked (nodes s c)) = t" "ents (becomeLeaderLocked (nodes s c)) = ?C"
    using w(3) by (simp_all add: becomeLeaderLocked_def ents_def Let_def)
  have gr: "grows s ?s" using mw(2) by (auto simp: grows_def led_def)
  have new: "holds ?s t m t0" if a: "has s ?C m t0" "led s t0" "m \<le> length (g_log s t0)" for m t0
  proof -
    have "take m (g_log ?s t0) = take m (g_log s t0)" by (rule growsD(3) [OF gr a(2,3)])
    then show ?thesis using a(1) by (simp add: holds_def has_def)
  qed
  let ?V = "{q. (q, t, c) \<in> g_votes s}"
  have el: "elec_inv conf ?s" using elec_inv_step [OF net_step.Win [OF w(1) refl] inv(1)] w(2,3) r'(2) by (simp add: electionWon_def becomeLeaderLocked_def Let_def)
  have "c \<in> g_led ?s t" by simp
  then have q: "\<forall>c'. (c, t, c') \<notin> g_votes s" "card (members conf) < 2 * (1 + card ?V)" using elec_invD(5) [OF el] unfolding led_ok_def by auto
  have V: "?V \<subseteq> members conf" "finite ?V" using voters_finite [OF inv(1)] by auto
  have acks: "g_acks ?s = g_acks s" by simp
  have lk: "lead_keeps ?s v t" if v: "v \<in> insert c ?V" for v
    unfolding lead_keeps_def acks
  proof (intro conjI allI impI)
    show "t \<le> currentTerm (nodes ?s v)" using v elec_invD(3) [OF inv(1)] r'(1) unfolding votes_ok_def by auto
    fix t0 k m assume a: "(v, t0, k) \<in> g_acks s \<and> t0 < t \<and> g_base ?s t0 < m \<and> m \<le> k \<and> kept ?s t0 m {..<t}"
    have ack: "ack_ok conf s v t0 k" using safe_invD(1) [OF inv(3)] a by blast
    then have t0: "led s t0" "m \<le> length (g_log s t0)" using a by (auto simp: ack_ok_def)
    have b: "g_base s t0 < m" using a growsD(2) [OF gr t0(1)] by simp
    have kt: "kept s t0 m {..<t}" by (rule kept_grows [OF gr inv(2) t0, of "{..<t}"]) (use a in auto)
    have "has s ?C m t0"
    proof (cases "v = c")
      case True
      have "kept s t0 m {..currentTerm (nodes s c)}" by (rule kept_grows [OF gr inv(2) t0, of "{..<t}"]) (use a nled w(3) in \<open>auto simp: order_less_le\<close>)
      then show ?thesis using ack b a True by (simp add: ack_ok_def)
    next
      case False
      then have vt: "(v, t, c) \<in> g_votes s" using v by simp
      have "has s (g_vlog s v t) m t0" using safe_invD(2) [OF inv(3) vt nled] a b kt unfolding vote_keeps_def by blast
      then show ?thesis using newer_has [OF _ C(1) match_invD(2) [OF inv(2)] _ _ t0(1) b t0(2) lt kt] match_invD(5) [OF inv(2) vt] C(2) by metis
    qed
    then show "holds ?s t m t0" using new t0 by blast
  qed
  have "card (insert c ?V) = 1 + card ?V" using V(2) q(1) by simp
  then have "\<exists>Q. Q \<subseteq> members conf \<and> card (members conf) < 2 * card Q \<and> (\<forall>v\<in>Q. lead_keeps ?s v t)"
    using q(2) V(1) mw(3) lk by (intro exI [of _ "insert c ?V"]) auto
  moreover have "T = t" if "led ?s T" "\<not> led s T" for T using that by (auto simp: led_def split: if_splits)
  ultimately have nw: "\<And>T. led ?s T \<Longrightarrow> \<not> led s T \<Longrightarrow> \<exists>Q. Q \<subseteq> members conf \<and> card (members conf) < 2 * card Q \<and> (\<forall>v\<in>Q. lead_keeps ?s v T)" by blast
  have "keeps_log s ?s v" for v using r'(2) by (intro keeps_log_same) simp
  moreover have "currentTerm (nodes s v) \<le> currentTerm (nodes ?s v)" for v using r'(1) w(3) by simp
  ultimately show ?thesis by (intro safe_stepI [OF gr _ _ _ _ _ _ nw]) simp_all
qed

lemma append_safe:
  assumes inv: "elec_inv conf s" "match_inv conf s" and m: "(a, n, args) \<in> appends s" and run: "handleAppendEntries raft_ok (nodes s n) args = Ok (r', reply)"
  shows "safe_step conf s ((set_node s n r')\<lparr>replies := rs,
      g_acks := (if aer_Success reply then insert (n, ae_Term args, unat (ae_PrevLogIndex args) + length (ae_Entries args)) (g_acks s) else g_acks s)\<rparr>)"
    (is "safe_step conf s ?s")
proof -
  let ?T = "ae_Term args" and ?r = "nodes s n"
  let ?G = "g_log s ?T" and ?q = "unat (ae_PrevLogIndex args) + length (ae_Entries args)"
  have n: "n \<in> members conf" "led s ?T" using elec_invD(6) [OF inv(1)] m unfolding msgs_ok_def led_def by blast+
  note nl = match_invD(1) [OF inv(2) n(1)] and ll = match_invD(2) [OF inv(2) n(2)] and role = handleAppendEntries_role(1) [OF run]
  have G: "good s ?G" "g_base s ?T \<le> length ?G" using ll by (simp_all add: leader_log_ok_def)
  have q: "?q \<le> length ?G" using match_invD(3) [OF inv(2) m] by (simp add: seg_ok_def Let_def)
  have gr: "grows s ?s" by (rule grows_refl) simp_all
  show ?thesis
  proof (cases "?T < currentTerm ?r")
    case True
    then have "r' = ?r" "\<not> aer_Success reply" using role by simp_all
    then show ?thesis by (intro safe_same) simp_all
  next
    case False
    obtain r1 rep1 where "handleAppendEntries raft_ok ?r args = Ok (r1, rep1)" and f: "follows ?G (ents ?r) ?q (aer_Success rep1) (ents r1)"
      using append_spec [OF nl G(1) match_invD(3) [OF inv(2) m] False] by metis
    then have same: "r1 = r'" "rep1 = reply" using run by simp_all
    have tm: "currentTerm r' = ?T" using role False by simp
    have "keeps_log s ?s n"
      unfolding keeps_log_def
    proof (intro allI impI)
      fix t j assume a: "led s t \<and> t \<le> currentTerm ?r \<and> j \<le> length (g_log s t) \<and> kept s t j {..currentTerm (nodes ?s n)} \<and> has s (ents ?r) j t"
      have "j \<le> length ?G \<and> take j ?G = take j (g_log s t)"
      proof (cases "t = ?T")
        case True
        then show ?thesis using a by simp
      next
        case nt: False
        then have "t < ?T" using a False by (meson not_less order_le_less order_trans)
        then have "holds s ?T j t" using a n(2) tm unfolding kept_def by simp
        then show ?thesis using G(2) by (simp add: holds_def)
      qed
      moreover have "j \<le> length (ents ?r)" "take j (ents ?r) = take j (g_log s t)" using a by (simp_all add: has_def)
      ultimately have "j \<le> length (ents r')" "take j (ents r') = take j (ents ?r)" using f unfolding follows_def same by metis+
      then show "j \<le> length (ents (nodes ?s n)) \<and> take j (ents (nodes ?s n)) = take j (ents ?r)" by simp
    qed
    then have "keeps_log s ?s v" for v by (cases "v = n") (simp_all add: keeps_log_same)
    moreover have "has ?s (ents r') ?q ?T" if "aer_Success reply" using f that by (simp add: follows_def has_def same)
    moreover have "currentTerm (nodes s v) \<le> currentTerm (nodes ?s v)" for v using tm False by (simp add: not_less)
    ultimately show ?thesis using n q tm by (intro safe_stepI [OF gr]) (auto simp: led_def split: if_splits)
  qed
qed

lemma propose_safe:
  assumes inv: "elec_inv conf s" "match_inv conf s" and n: "n \<in> members conf" "length data < 2 ^ 32" "unat (LastIndex (r_log (nodes s n))) + 2 < 2 ^ 64"
    and run: "Propose raft_ok (nodes s n) cmd data i = (r', res)"
  shows "safe_step conf s ((set_node s n r')\<lparr>
      g_log := (if res = Ok () then (g_log s)(currentTerm r' := ents r') else g_log s),
      g_acks := (if res = Ok () then insert (n, currentTerm r', length (ents r')) (g_acks s) else g_acks s), g_ids := gi\<rparr>)" (is "safe_step conf s ?s")
proof -
  let ?r = "nodes s n"
  have gr: "grows s ?s" by (rule match_propose(2) [OF inv n run refl])
  have lg: "log_is (r_log ?r)" "good s (ents ?r)" using match_invD(1) [OF inv(2) n(1)] by (simp_all add: node_log_ok_def)
  show ?thesis
    using run lg(1) goodD(1) [OF lg(2)] n(2,3)
  proof (cases rule: Propose_ok)
    case no
    then show ?thesis by (intro safe_same) simp_all
  next
    case (yes e l ps)
    have r': "ents r' = ents ?r @ [e]" "currentTerm r' = currentTerm ?r" using yes by (simp_all add: ents_def)
    have nt: "led s (currentTerm ?r)" using elec_invD(5) [OF inv(1)] n(1) yes(1) unfolding led_ok_def led_def by blast
    have "keeps_log s ?s v" for v using r'(1) by (cases "v = n") (simp_all add: keeps_log_same, auto simp: keeps_log_def has_def)
    moreover have "led ?s = led s" by (simp add: led_def fun_eq_iff)
    ultimately show ?thesis using n(1) r' nt yes(2) by (intro safe_stepI [OF gr]) (auto simp: has_def)
  qed
qed

lemma step_safe:
  assumes "net_step conf s s'" "elec_inv conf s" "match_inv conf s" "safe_inv conf s" shows "safe_step conf s s'"
  using assms
proof (induction rule: net_step.induct)
  case (Start n s r' args)
  note so = startElection_ok(1) [OF Start.hyps(3)]
  have "currentTerm (nodes s n) < currentTerm (nodes s n) + 1" using unat_Suc_word [OF Start.hyps(2)] by (simp add: word_less_nat_alt)
  then have "currentTerm (nodes s n) \<le> currentTerm (nodes s n) + 1" by simp
  then show ?case using so by (intro safe_same) (simp_all add: ents_def)
next
  case (Vote p s c t args r' reply)
  then show ?case using vote_safe by blast
next
  case (VoteReply s c t p reply r' go)
  have c: "c \<in> members conf" using call_facts [OF VoteReply.prems(1) VoteReply.hyps(1)] by simp
  have lg: "log_is (r_log (nodes s c))" using match_invD(1) [OF VoteReply.prems(2) c] by (simp add: node_log_ok_def)
  from calm_voteReply [OF lg VoteReply.hyps(2)] show ?case by (intro safe_same) (simp_all add: calm_change_def)
next
  case (CountVote s c t p v' won)
  show ?case by (intro safe_same) simp_all
next
  case (Win s c t p r')
  show ?case
  proof (cases "r_state (nodes s c) = Candidate \<and> currentTerm (nodes s c) = t")
    case True
    then have "r' = becomeLeaderLocked (nodes s c)" "r_state r' = Leader" "r_state (nodes s c) \<noteq> Leader" "ents r' = ents (nodes s c)"
      using Win.hyps(2) by (auto simp: electionWon_def becomeLeaderLocked_def Let_def ents_def)
    then show ?thesis using win_safe [OF Win.prems Win.hyps(1)] True by simp
  next
    case False
    then have "r' = nodes s c" using Win.hyps(2) by (auto simp: electionWon_def)
    then show ?thesis by (intro safe_same) simp_all
  qed
next
  case (Replicate n p s args)
  show ?case by (intro safe_same) simp_all
next
  case (Append n p args s r' reply)
  show ?case by (rule append_safe [OF Append.prems(1,2) Append.hyps])
next
  case (AppendReply n p args reply s r')
  have m: "(n, p, args) \<in> appends s" using elec_invD(6) [OF AppendReply.prems(1)] AppendReply.hyps(1) unfolding msgs_ok_def by blast
  from match_reply [OF AppendReply.prems(1,2) m AppendReply.hyps(2)] show ?case by (intro safe_same) (simp_all add: calm_change_def)
next
  case (Propose n data s cmd r' res)
  show ?case by (rule propose_safe [OF Propose.prems(1,2) Propose.hyps])
next
  case (ApplyTake n s r' idx commit)
  then show ?case using applyTake_frame [OF ApplyTake.hyps(3)] by (intro safe_same) (simp_all add: ents_def)
next
  case (ApplyNext n s idx commit r' go)
  then show ?case using applyNext_frame [OF ApplyNext.hyps(3)] by (intro safe_same) (simp_all add: ents_def)
next
  case (Restart n s r')
  have lg: "log_is (r_log (nodes s n))" using match_invD(1) [OF Restart.prems(2) Restart.hyps(1)] by (simp add: node_log_ok_def)
  from calm_restart(1) [OF node_facts(1) [OF Restart.prems(1) Restart.hyps(1)] lg Restart.hyps(2)] show ?case
    by (intro safe_same) (simp_all add: calm_change_def)
qed

lemma safe_inv_reach: "net_reach conf s \<Longrightarrow> safe_inv conf s"
proof (induction rule: net_reach.induct)
  case (Init s)
  then show ?case by (simp add: safe_inv_def net_init_def led_def)
next
  case (Step s s')
  have inv: "elec_inv conf s" "match_inv conf s" using Step.hyps(1) elec_inv_reach match_inv_reach by blast+
  show ?case by (rule safe_inv_keeps [OF step_safe [OF Step.hyps(2) inv Step.IH] inv(2) Step.IH inv(1)])
qed


end
