(* ===== verification/Raft_Commit.thy ===== *)
theory Raft_Commit
  imports Raft_Safety "HOL-Library.Sublist"
begin

text \<open>
  Commit indices and applying. A commit index covers chosen entries only, also in a message, because a
  leader counts acknowledgements of entries of its own term and sends its whole log from \<open>nextIndex\<close> on.
  Together with leader completeness this gives the safety of the state machines, and every committed
  entry is delivered in the end.
\<close>

subsection \<open>Committed prefixes\<close>

definition committed :: "conf \<Rightarrow> net \<Rightarrow> 64 word \<Rightarrow> LogEntry list \<Rightarrow> nat \<Rightarrow> bool" where
  "committed conf s t0 L c \<longleftrightarrow> c = 0 \<or> (\<exists>t m. chosen conf s t m \<and> t \<le> t0 \<and> c \<le> m \<and> has s L c t)"

lemma committed_length: "committed conf s t0 L c \<Longrightarrow> c \<le> length L"
  by (auto simp: committed_def has_def)

lemma chosen_step:
  assumes "safe_step conf s s'" "chosen conf s t m" shows "chosen conf s' t m"
proof -
  note d = safe_stepD [OF assms(1)]
  have l: "led s t" "g_base s t < m" "m \<le> length (g_log s t)" "card (members conf) < 2 * card {v \<in> members conf. \<exists>k\<ge>m. (v, t, k) \<in> g_acks s}"
    using assms(2) by (simp_all add: chosen_def)
  have "{v \<in> members conf. \<exists>k\<ge>m. (v, t, k) \<in> g_acks s} \<subseteq> {v \<in> members conf. \<exists>k\<ge>m. (v, t, k) \<in> g_acks s'}" using d(4) by blast
  then have "card {v \<in> members conf. \<exists>k\<ge>m. (v, t, k) \<in> g_acks s} \<le> card {v \<in> members conf. \<exists>k\<ge>m. (v, t, k) \<in> g_acks s'}"
    by (rule card_mono [rotated]) simp
  then show ?thesis using l growsD [OF d(1) l(1)] by (simp add: chosen_def)
qed

lemma chosen_kept:
  assumes "safe_inv conf s" "chosen conf s t m" "c \<le> m" shows "kept s t c X"
  unfolding kept_def
proof (intro ballI impI)
  fix T assume "t < T \<and> led s T"
  then have h: "m \<le> g_base s T" "take m (g_log s T) = take m (g_log s t)" using complete [OF assms(1,2)] by (simp_all add: holds_def)
  then have "take c (take m (g_log s T)) = take c (take m (g_log s t))" by simp
  then show "holds s T c t" using h(1) assms(3) by (simp add: holds_def min_absorb1)
qed

lemma committed_mono:
  assumes "safe_step conf s s'" "committed conf s t0 L c" "t0 \<le> t1" "c \<le> length L'" "take c L' = take c L" shows "committed conf s' t1 L' c"
proof (cases "c = 0")
  case False
  then obtain t m where c: "chosen conf s t m" "t \<le> t0" "c \<le> m" "has s L c t" using assms(2) by (auto simp: committed_def)
  have l: "led s t" "c \<le> length (g_log s t)" using c(1,3) by (simp_all add: chosen_def)
  have "has s L' c t" using c(4) assms(4,5) by (simp add: has_def)
  then have "has s' L' c t" using has_grows [OF safe_stepD(1) [OF assms(1)] l] by simp
  then show ?thesis using chosen_step [OF assms(1) c(1)] c(2,3) assms(3) unfolding committed_def by (meson order_trans)
qed (simp add: committed_def)

text \<open>The committed prefix of a node stays in its log.\<close>

lemma committed_stays:
  assumes st: "safe_step conf s s'" and sf: "safe_inv conf s" and v: "v \<in> members conf"
    and c: "committed conf s (currentTerm (nodes s v)) (ents (nodes s v)) c"
  shows "committed conf s' (currentTerm (nodes s' v)) (ents (nodes s' v)) c" "c \<le> length (ents (nodes s' v))" "take c (ents (nodes s' v)) = take c (ents (nodes s v))"
proof -
  note d = safe_stepD [OF st]
  have k: "c \<le> length (ents (nodes s' v)) \<and> take c (ents (nodes s' v)) = take c (ents (nodes s v))"
  proof (cases "c = 0")
    case False
    then obtain t m where o: "chosen conf s t m" "t \<le> currentTerm (nodes s v)" "c \<le> m" "has s (ents (nodes s v)) c t" using c by (auto simp: committed_def)
    have "led s t" "c \<le> length (g_log s t)" using o(1,3) by (simp_all add: chosen_def)
    then show ?thesis using d(3) [OF v] chosen_kept [OF sf o(1,3)] o(2,4) unfolding keeps_log_def by blast
  qed simp
  then show "c \<le> length (ents (nodes s' v))" "take c (ents (nodes s' v)) = take c (ents (nodes s v))" by simp_all
  show "committed conf s' (currentTerm (nodes s' v)) (ents (nodes s' v)) c" using committed_mono [OF st c d(2) [OF v]] k by simp
qed

text \<open>Any two committed prefixes agree.\<close>

lemma committed_agree:
  assumes sf: "safe_inv conf s" and a: "committed conf s ta La c" and b: "committed conf s tb Lb c"
  shows "take c La = take c Lb"
proof (cases "c = 0")
  case False
  obtain t m where A: "chosen conf s t m" "c \<le> m" "take c La = take c (g_log s t)" using a False by (auto simp: committed_def has_def)
  obtain u k where B: "chosen conf s u k" "c \<le> k" "take c Lb = take c (g_log s u)" using b False by (auto simp: committed_def has_def)
  have *: "take c (g_log s y) = take c (g_log s x)" if "chosen conf s x i" "chosen conf s y j" "c \<le> i" "x < y" for x y i j
    using chosen_kept [OF sf that(1,3), of UNIV] that(2,4) by (simp add: kept_def holds_def chosen_def)
  show ?thesis using A B * [OF A(1) B(1) A(2)] * [OF B(1) A(1) B(2)] by (cases t u rule: linorder_cases) simp_all
qed simp

subsection \<open>The invariant\<close>

definition acked_ok :: "net \<Rightarrow> gostring \<Rightarrow> Raft \<Rightarrow> bool" where
  "acked_ok s n r \<longleftrightarrow> (r_state r = Leader \<longrightarrow> (g_base s (currentTerm r) < length (ents r) \<longrightarrow> (n, currentTerm r, length (ents r)) \<in> g_acks s) \<and>
     (\<forall>p\<in>set (peers r). matchIndex r p \<noteq> 0 \<longrightarrow> (p, currentTerm r, unat (matchIndex r p)) \<in> g_acks s))"

definition applied_ok :: "Raft \<Rightarrow> (64 word \<times> 64 word) option \<Rightarrow> bool" where
  "applied_ok r a \<longleftrightarrow> lastApplied r \<le> commitIndex r \<and> applyCh r = take (unat (lastApplied r)) (ents r) \<and>
     (case a of None \<Rightarrow> lastApplied r = commitIndex r \<or> commitCh r
      | Some (i, c) \<Rightarrow> i = lastApplied r + 1 \<and> c \<le> commitIndex r \<and> (c = commitIndex r \<or> commitCh r))"

definition sent_ok :: "conf \<Rightarrow> net \<Rightarrow> AppendEntriesArgs \<Rightarrow> bool" where
  "sent_ok conf s args \<longleftrightarrow> committed conf s (ae_Term args) (g_log s (ae_Term args)) (unat (ae_LeaderCommit args)) \<and>
     unat (ae_LeaderCommit args) \<le> unat (ae_PrevLogIndex args) + length (ae_Entries args)"

definition commit_inv :: "conf \<Rightarrow> net \<Rightarrow> bool" where
  "commit_inv conf s \<longleftrightarrow> (\<forall>n\<in>members conf. committed conf s (currentTerm (nodes s n)) (ents (nodes s n)) (unat (commitIndex (nodes s n))) \<and>
       acked_ok s n (nodes s n) \<and> applied_ok (nodes s n) (applying s n)) \<and>
     (\<forall>a b args. (a, b, args) \<in> appends s \<longrightarrow> sent_ok conf s args) \<and>
     (\<forall>a b args reply. (a, b, args, reply) \<in> replies s \<and> aer_Success reply \<longrightarrow>
        (b, ae_Term args, unat (ae_PrevLogIndex args) + length (ae_Entries args)) \<in> g_acks s)"

lemma commit_invD:
  assumes "commit_inv conf s"
  shows "n \<in> members conf \<Longrightarrow> committed conf s (currentTerm (nodes s n)) (ents (nodes s n)) (unat (commitIndex (nodes s n)))"
    "n \<in> members conf \<Longrightarrow> acked_ok s n (nodes s n)" "n \<in> members conf \<Longrightarrow> applied_ok (nodes s n) (applying s n)"
    "(a, b, args) \<in> appends s \<Longrightarrow> sent_ok conf s args"
    "(a, b, args, reply) \<in> replies s \<Longrightarrow> aer_Success reply \<Longrightarrow> (b, ae_Term args, unat (ae_PrevLogIndex args) + length (ae_Entries args)) \<in> g_acks s"
  using assms unfolding commit_inv_def by blast+

text \<open>A step that leaves the commit index of a node and its applying alone.\<close>

lemma sent_step:
  assumes "safe_step conf s s'" "led s (ae_Term args)" "sent_ok conf s args" shows "sent_ok conf s' args"
proof -
  have c: "committed conf s (ae_Term args) (g_log s (ae_Term args)) (unat (ae_LeaderCommit args))" using assms(3) by (simp add: sent_ok_def)
  note gr = growsD [OF safe_stepD(1) [OF assms(1)] assms(2)]
  have "committed conf s' (ae_Term args) (g_log s' (ae_Term args)) (unat (ae_LeaderCommit args))"
    using committed_length [OF c] gr(3,4) by (intro committed_mono [OF assms(1) c]) simp_all
  then show ?thesis using assms(3) by (simp add: sent_ok_def)
qed

lemma applied_step:
  assumes "applied_ok r a" "unat (commitIndex r) \<le> length (ents r')" "take (unat (commitIndex r)) (ents r') = take (unat (commitIndex r)) (ents r)"
    and "lastApplied r' = lastApplied r" "applyCh r' = applyCh r" "commitCh r \<Longrightarrow> commitCh r'" "commitIndex r \<le> commitIndex r'"
    "commitIndex r' = commitIndex r \<or> commitCh r'"
  shows "applied_ok r' a"
proof -
  have l: "unat (lastApplied r) \<le> unat (commitIndex r)" "applyCh r = take (unat (lastApplied r)) (ents r)" using assms(1) by (simp_all add: applied_ok_def word_le_nat_alt)
  have "take (unat (lastApplied r)) (take (unat (commitIndex r)) (ents r')) = take (unat (lastApplied r)) (take (unat (commitIndex r)) (ents r))" using assms(3) by simp
  then have "applyCh r' = take (unat (lastApplied r')) (ents r')" using l assms(4,5) by (simp add: min_absorb1)
  moreover have "lastApplied r' \<le> commitIndex r'" using assms(1,4,7) unfolding applied_ok_def by (metis order_trans)
  moreover have "case a of None \<Rightarrow> lastApplied r' = commitIndex r' \<or> commitCh r' | Some (i, c) \<Rightarrow> i = lastApplied r' + 1 \<and> c \<le> commitIndex r' \<and> (c = commitIndex r' \<or> commitCh r')"
    using assms(1,4,6-8) unfolding applied_ok_def by (auto split: option.splits)
  ultimately show ?thesis by (simp add: applied_ok_def)
qed

lemma acked_step:
  assumes "safe_step conf s s'" "r_state r = Leader \<Longrightarrow> led s (currentTerm r)" "acked_ok s n r" shows "acked_ok s' n r"
  using assms(2,3) safe_stepD(4) [OF assms(1)] growsD(2) [OF safe_stepD(1) [OF assms(1)]] unfolding acked_ok_def by auto

text \<open>A step of the node \<open>n\<close>.\<close>

lemma commit_step:
  assumes st: "safe_step conf s s'" and inv: "elec_inv conf s" "safe_inv conf s" "commit_inv conf s"
    and ot: "\<And>v. v \<in> members conf \<Longrightarrow> v \<noteq> n \<Longrightarrow> nodes s' v = nodes s v \<and> applying s' v = applying s v"
    and own: "n \<in> members conf \<Longrightarrow> committed conf s' (currentTerm (nodes s' n)) (ents (nodes s' n)) (unat (commitIndex (nodes s' n))) \<and>
      acked_ok s' n (nodes s' n) \<and> applied_ok (nodes s' n) (applying s' n)"
    and ap: "\<And>a b args. (a, b, args) \<in> appends s' \<Longrightarrow> (a, b, args) \<notin> appends s \<Longrightarrow> sent_ok conf s' args"
    and rp: "\<And>a b args reply. (a, b, args, reply) \<in> replies s' \<Longrightarrow> (a, b, args, reply) \<notin> replies s \<Longrightarrow> aer_Success reply \<Longrightarrow>
      (b, ae_Term args, unat (ae_PrevLogIndex args) + length (ae_Entries args)) \<in> g_acks s'"
  shows "commit_inv conf s'"
  unfolding commit_inv_def
proof (intro conjI ballI allI impI)
  note ci = commit_invD [OF inv(3)]
  fix v assume v: "v \<in> members conf"
  show "committed conf s' (currentTerm (nodes s' v)) (ents (nodes s' v)) (unat (commitIndex (nodes s' v)))"
    using committed_stays(1) [OF st inv(2) v ci(1) [OF v]] own ot [OF v] v by (cases "v = n") auto
  have "r_state (nodes s v) = Leader \<Longrightarrow> led s (currentTerm (nodes s v))" using elec_invD(5) [OF inv(1)] v unfolding led_ok_def led_def by blast
  then have "acked_ok s' v (nodes s v)" using acked_step [OF st _ ci(2) [OF v]] by blast
  then show "acked_ok s' v (nodes s' v)" using own ot [OF v] v by (cases "v = n") auto
  show "applied_ok (nodes s' v) (applying s' v)" using own ot [OF v] v ci(3) [OF v] by (cases "v = n") auto
next
  fix a b args assume a: "(a, b, args) \<in> appends s'"
  show "sent_ok conf s' args"
  proof (cases "(a, b, args) \<in> appends s")
    case True
    then have "led s (ae_Term args)" using elec_invD(6) [OF inv(1)] unfolding msgs_ok_def led_def by blast
    then show ?thesis using sent_step [OF st _ commit_invD(4) [OF inv(3) True]] by blast
  next
    case False
    then show ?thesis using ap a by blast
  qed
next
  fix a b args reply assume "(a, b, args, reply) \<in> replies s' \<and> aer_Success reply"
  then show "(b, ae_Term args, unat (ae_PrevLogIndex args) + length (ae_Entries args)) \<in> g_acks s'"
    using rp commit_invD(5) [OF inv(3)] safe_stepD(4) [OF st] by blast
qed

text \<open>The node keeps its commit index; a leader keeps its counts.\<close>

definition idle_change :: "Raft \<Rightarrow> Raft \<Rightarrow> bool" where
  "idle_change r r' \<longleftrightarrow> commitIndex r' = commitIndex r \<and> lastApplied r' = lastApplied r \<and> applyCh r' = applyCh r \<and> commitCh r' = commitCh r \<and>
     (r_state r' = Leader \<longrightarrow> r_state r = Leader \<and> currentTerm r' = currentTerm r \<and> ents r' = ents r \<and> peers r' = peers r \<and> matchIndex r' = matchIndex r)"

lemma commit_idle:
  assumes st: "safe_step conf s s'" and inv: "elec_inv conf s" "safe_inv conf s" "commit_inv conf s"
    and ot: "\<And>v. v \<in> members conf \<Longrightarrow> applying s' v = applying s v \<and> (v \<noteq> n \<longrightarrow> nodes s' v = nodes s v)"
    and own: "n \<in> members conf \<Longrightarrow> idle_change (nodes s n) (nodes s' n)" and ms: "appends s' = appends s" "replies s' = replies s"
  shows "commit_inv conf s'"
proof (rule commit_step [OF st inv, of n])
  note ci = commit_invD [OF inv(3)]
  assume n: "n \<in> members conf"
  note i = own [OF n] and k = committed_stays [OF st inv(2) n ci(1) [OF n]]
  have "applied_ok (nodes s' n) (applying s n)" using i k(2,3) by (intro applied_step [OF ci(3) [OF n]]) (simp_all add: idle_change_def)
  moreover have "acked_ok s' n (nodes s' n)"
  proof -
    have "r_state (nodes s n) = Leader \<Longrightarrow> led s (currentTerm (nodes s n))" using elec_invD(5) [OF inv(1)] n unfolding led_ok_def led_def by blast
    then have "acked_ok s' n (nodes s n)" using acked_step [OF st _ ci(2) [OF n]] by blast
    then show ?thesis using i by (simp add: acked_ok_def idle_change_def)
  qed
  ultimately show "committed conf s' (currentTerm (nodes s' n)) (ents (nodes s' n)) (unat (commitIndex (nodes s' n))) \<and>
      acked_ok s' n (nodes s' n) \<and> applied_ok (nodes s' n) (applying s' n)" using k(1) i ot [OF n] by (simp add: idle_change_def)
qed (use ot ms in simp_all)

lemma idle_vote: "handleRequestVote raft_ok r args = (r', reply) \<Longrightarrow> idle_change r r'"
  by (auto simp: handleRequestVote_def persistState_ok follower_ok Let_def idle_change_def ents_def split: if_splits)

lemma idle_voteReply: "voteReply raft_ok r reply = (r', go) \<Longrightarrow> idle_change r r'"
  by (auto simp: voteReply_def follower_ok idle_change_def split: if_splits)

lemma idle_start: "startElection raft_ok r = (r', args) \<Longrightarrow> idle_change r r'"
  by (drule startElection_ok(1)) (simp add: idle_change_def)

subsection \<open>Advancing the commit index\<close>

lemma advanceFrom_commit:
  assumes "advanceFrom r n = Ok r'"
  shows "r' = r \<or> (\<exists>x N. r' = resolveProposalsLocked (r\<lparr>commitIndex := N, commitCh := True\<rparr>) \<and> commitIndex r < N \<and> matched r N \<and>
     GetEntry (r_log r) N = Ok (Some x) \<and> le_Term x = currentTerm r)"
  using assms
proof (induction r n rule: advanceFrom.induct)
  case (1 r n)
  show ?case using 1(4) by (subst (asm) advanceFrom.simps) (auto split: if_splits res.splits option.splits dest: 1(1-3))
qed

lemma half_less: "(a :: nat) div 2 < 1 + b \<Longrightarrow> a = c \<Longrightarrow> x = Suc b \<Longrightarrow> x \<le> d \<Longrightarrow> c < 2 * d"
  by presburger

lemma matched_chosen:
  assumes inv: "elec_inv conf s" "match_inv conf s" and n: "n \<in> members conf" "r_state r = Leader" "ident r = ident (nodes s n)" "ents r = g_log s (currentTerm r)"
    and ld: "led s (currentTerm r)" and ak: "acked_ok s n r" and m: "matched r N" "0 < unat N" "unat N \<le> length (ents r)" "le_Term (ents r ! (unat N - 1)) = currentTerm r"
  shows "chosen conf s (currentTerm r) (unat N)"
proof -
  let ?t = "currentTerm r" and ?P = "filter (\<lambda>p. matchIndex r p \<ge> N) (peers r)"
  let ?A = "{v \<in> members conf. \<exists>k\<ge>unat N. (v, ?t, k) \<in> g_acks s}"
  have cf: "conf_ok conf" by (rule elec_invD(7) [OF inv(1)])
  have ps: "peers r = others conf n" using n(3) node_facts(5) [OF inv(1) n(1)] by (simp add: ident_def)
  have b: "g_base s ?t < unat N"
  proof (rule ccontr)
    assume "\<not> g_base s ?t < unat N"
    then have "unat N - 1 < g_base s ?t" "unat N - 1 < length (g_log s ?t)" using m(2,3) unfolding n(4) by linarith+
    then have "le_Term (g_log s ?t ! (unat N - 1)) < ?t" using match_invD(2) [OF inv(2) ld] unfolding leader_log_ok_def by meson
    then show False using m(4) n(4) by simp
  qed
  then have own: "n \<in> ?A" using ak n(1,2) m(3) unfolding acked_ok_def by auto
  have "p \<in> ?A" if p: "p \<in> set ?P" for p
  proof -
    have "p \<in> members conf" "p \<in> set (peers r)" using p ps set_others [OF n(1)] by auto
    moreover have "unat N \<le> unat (matchIndex r p)" using p by (simp add: word_le_nat_alt)
    moreover have "matchIndex r p \<noteq> 0" using calculation(3) m(2) by auto
    ultimately show ?thesis using ak n(2) unfolding acked_ok_def by blast
  qed
  then have sub: "insert n (set ?P) \<subseteq> ?A" using own by blast
  have "n \<notin> set ?P" using ps set_others [OF n(1)] by simp
  moreover have "distinct ?P" using cf by (simp add: ps others_def conf_ok_def)
  moreover from this have "card (set ?P) = length ?P" by (rule distinct_card)
  ultimately have cn: "card (insert n (set ?P)) = Suc (length ?P)" by (metis List.finite_set card_insert_disjoint)
  have "card (insert n (set ?P)) \<le> card ?A" using sub by (rule card_mono [rotated]) simp
  moreover have "(length (peers r) + 1) div 2 < 1 + length ?P" using m(1) by (simp add: matched_def)
  moreover have "length (peers r) + 1 = card (members conf)" using length_others [OF cf n(1)] ps by simp
  ultimately have "card (members conf) < 2 * card ?A" using half_less cn by blast
  then show ?thesis using ld b m(3) n(4) by (simp add: chosen_def)
qed

lemma reply_commit:
  assumes inv: "elec_inv conf s" "match_inv conf s" "safe_inv conf s" "commit_inv conf s"
    and m: "(n, p, args, reply) \<in> replies s" and run: "replicateReply raft_ok (nodes s n) p args reply = Ok r'"
    and st: "safe_step conf s (set_node s n r')"
  shows "commit_inv conf (set_node s n r')"
proof -
  let ?r = "nodes s n"
  have ms: "(n, p, args) \<in> appends s" and n: "n \<in> members conf" using elec_invD(6) [OF inv(1)] m unfolding msgs_ok_def by blast+
  note ci = commit_invD [OF inv(4)] and nl = match_invD(1) [OF inv(2) n]
  have G: "good s (g_log s (ae_Term args))"
  proof -
    have "led s (ae_Term args)" using elec_invD(6) [OF inv(1)] ms unfolding msgs_ok_def led_def by blast
    then show ?thesis using match_invD(2) [OF inv(2)] by (simp add: leader_log_ok_def)
  qed
  show ?thesis
  proof (cases "\<not> aer_Term reply > currentTerm ?r \<and> r_state ?r = Leader \<and> ae_Term args = currentTerm ?r \<and> aer_Success reply")
    case False
    then have "idle_change ?r r'" using run by (auto simp: replicateReply_def follower_ok idle_change_def ents_def split: if_splits)
    then show ?thesis by (intro commit_idle [OF st inv(1,3,4), of n]) simp_all
  next
    case True
    let ?x = "le_Index (last (ae_Entries args))"
    define r1 where "r1 = (if ae_Entries args \<noteq> [] then ?r\<lparr>nextIndex := (nextIndex ?r)(p := ?x + 1), matchIndex := (matchIndex ?r)(p := ?x)\<rparr> else ?r)"
    have adv: "advanceFrom r1 (LastIndex (r_log r1)) = Ok r'"
      using run True unfolding replicateReply_def advanceCommitIndexLocked_def r1_def [symmetric] by auto
    have r1: "currentTerm r1 = currentTerm ?r" "ents r1 = ents ?r" "r_state r1 = Leader" "ident r1 = ident ?r" "peers r1 = peers ?r" "commitIndex r1 = commitIndex ?r"
      "lastApplied r1 = lastApplied ?r" "applyCh r1 = applyCh ?r" "commitCh r1 = commitCh ?r" "r_log r1 = r_log ?r"
      using True by (simp_all add: r1_def ents_def ident_def)
    have ak: "acked_ok s n r1"
    proof (cases "ae_Entries args = []")
      case False
      have "unat ?x = unat (ae_PrevLogIndex args) + length (ae_Entries args)" by (rule seg_last [OF match_invD(3) [OF inv(2) ms] G False])
      then have "(p, currentTerm ?r, unat ?x) \<in> g_acks s" using ci(5) [OF m] True by simp
      then show ?thesis using ci(2) [OF n] True False by (simp add: acked_ok_def r1_def ents_def)
    qed (use ci(2) [OF n] in \<open>simp add: r1_def\<close>)
    have ld: "led s (currentTerm ?r)" using elec_invD(5) [OF inv(1)] n True unfolding led_ok_def led_def by blast
    have fr: "currentTerm r' = currentTerm ?r" "ents r' = ents ?r" "r_state r' = Leader" "peers r' = peers ?r" "matchIndex r' = matchIndex r1"
      "lastApplied r' = lastApplied ?r" "applyCh r' = applyCh ?r"
      using advanceFrom_frame [OF adv] r1 by (auto simp: ents_def ident_def)
    have ak': "acked_ok (set_node s n r') n r'" using ak fr r1 by (simp add: acked_ok_def)
    have k: "committed conf s (currentTerm ?r) (ents ?r) (unat (commitIndex r')) \<and> commitIndex ?r \<le> commitIndex r' \<and>
        (commitCh ?r \<longrightarrow> commitCh r') \<and> (commitIndex r' = commitIndex ?r \<or> commitCh r')"
      using advanceFrom_commit [OF adv]
    proof (elim disjE exE conjE)
      assume "r' = r1"
      then show ?thesis using ci(1) [OF n] r1 by simp
    next
      fix x N assume a: "r' = resolveProposalsLocked (r1\<lparr>commitIndex := N, commitCh := True\<rparr>)" "commitIndex r1 < N" "matched r1 N"
        "GetEntry (r_log r1) N = Ok (Some x)" "le_Term x = currentTerm r1"
      have e: "ents r1 = g_log s (currentTerm r1)" using nl True r1 by (simp add: node_log_ok_def)
      have "indexed (l_entries (r_log r1))" using goodD(1) [of s "ents ?r"] nl r1(2) by (simp add: node_log_ok_def ents_def)
      from GetEntry_indexed [OF this, of N] have g: "N \<noteq> 0" "unat N \<le> length (ents r1)" "ents r1 ! (unat N - 1) = x" using a(4) by (auto simp: ents_def split: if_splits)
      have "chosen conf s (currentTerm r1) (unat N)"
        using g a(5) ld r1(1) by (intro matched_chosen [OF inv(1,2) n r1(3,4) e _ ak a(3)]) (simp_all add: unat_gt_0)
      then have "committed conf s (currentTerm ?r) (ents ?r) (unat N)" using g(2) e r1(1,2) unfolding committed_def has_def by auto
      then show ?thesis using a(1,2) r1(6) by (simp add: resolveProposalsLocked_def)
    qed
    have c: "unat (commitIndex ?r) \<le> length (ents r')" using committed_length [OF ci(1) [OF n]] fr(2) by simp
    have "applied_ok r' (applying s n)" using k c fr by (intro applied_step [OF ci(3) [OF n]]) simp_all
    moreover have "committed conf (set_node s n r') (currentTerm r') (ents r') (unat (commitIndex r'))"
      using k fr committed_length by (intro committed_mono [OF st]) auto
    ultimately show ?thesis using ak' by (intro commit_step [OF st inv(1,3,4), of n]) simp_all
  qed
qed

lemma heard_commitCh [simp]: "commitCh (heard r args) = commitCh r"
  by (simp add: heard_def follower_ok)

lemma handleAppendEntries_commit:
  assumes "handleAppendEntries raft_ok r args = Ok (r', reply)"
  shows "commitIndex r' = commitIndex r \<and> commitCh r' = commitCh r \<or> commitCh r' \<and> commitIndex r < ae_LeaderCommit args"
proof (cases "ae_Term args < currentTerm r")
  case True
  then show ?thesis using handleAppendEntries_role(1) [OF assms] by simp
next
  case False
  then show ?thesis using handleAppendEntries_effect [OF assms] by auto
qed

lemma append_commit:
  assumes inv: "elec_inv conf s" "match_inv conf s" "safe_inv conf s" "commit_inv conf s"
    and m: "(a, n, args) \<in> appends s" and run: "handleAppendEntries raft_ok (nodes s n) args = Ok (r', reply)"
  shows "commit_inv conf ((set_node s n r')\<lparr>replies := insert (a, n, args, reply) (replies s),
      g_acks := (if aer_Success reply then insert (n, ae_Term args, unat (ae_PrevLogIndex args) + length (ae_Entries args)) (g_acks s) else g_acks s)\<rparr>)"
    (is "commit_inv conf ?s")
proof -
  let ?r = "nodes s n" and ?T = "ae_Term args" and ?q = "unat (ae_PrevLogIndex args) + length (ae_Entries args)"
  have st: "safe_step conf s ?s" by (rule append_safe [OF inv(1,2) m run])
  have n: "n \<in> members conf" "led s ?T" using elec_invD(6) [OF inv(1)] m unfolding msgs_ok_def led_def by blast+
  note ci = commit_invD [OF inv(4)] and nl = match_invD(1) [OF inv(2) n(1)] and role = handleAppendEntries_role [OF run]
  note k = committed_stays [OF st inv(3) n(1) ci(1) [OF n(1)]]
  have G: "good s (g_log s ?T)" using match_invD(2) [OF inv(2) n(2)] by (simp add: leader_log_ok_def)
  have "committed conf ?s (currentTerm r') (ents r') (unat (commitIndex r')) \<and> commitIndex ?r \<le> commitIndex r'"
  proof (cases "commitIndex r' = commitIndex ?r")
    case True
    then show ?thesis using k(1) by simp
  next
    case False
    have nt: "\<not> ?T < currentTerm ?r" using role(1) False by auto
    obtain r1 rep1 where s1: "handleAppendEntries raft_ok ?r args = Ok (r1, rep1)" and f: "follows (g_log s ?T) (ents ?r) ?q (aer_Success rep1) (ents r1)"
      and c: "commitIndex r1 = (if aer_Success rep1 \<and> ae_LeaderCommit args > commitIndex ?r
       then if ae_LeaderCommit args < LastIndex (r_log r1) then ae_LeaderCommit args else LastIndex (r_log r1) else commitIndex ?r)"
      using append_spec [OF nl G match_invD(3) [OF inv(2) m] nt] by metis
    have same: "r1 = r'" "rep1 = reply" using s1 run by simp_all
    have ok: "aer_Success reply" "commitIndex ?r < ae_LeaderCommit args" using c False same by (auto split: if_splits)
    have q: "?q \<le> length (ents r')" "take ?q (ents r') = take ?q (g_log s ?T)" using f ok(1) by (simp_all add: follows_def same)
    have so: "committed conf s ?T (g_log s ?T) (unat (ae_LeaderCommit args))" "unat (ae_LeaderCommit args) \<le> ?q" using ci(4) [OF m] by (simp_all add: sent_ok_def)
    have "good s (ents r')" using follows_good(1) [OF f _ G] nl by (simp add: node_log_ok_def same)
    then have "unat (LastIndex (r_log r')) = length (ents r')" using LastIndex_indexed [of "r_log r'"] goodD(1) [of s "ents r'"] by (simp add: ents_def)
    then have "\<not> LastIndex (r_log r') < ae_LeaderCommit args" using so(2) q(1) by (simp add: word_less_nat_alt)
    then have ce: "commitIndex r' = ae_LeaderCommit args" using c ok same by (auto split: if_splits)
    have "take (unat (ae_LeaderCommit args)) (take ?q (ents r')) = take (unat (ae_LeaderCommit args)) (take ?q (g_log s ?T))" using q(2) by simp
    then have "take (unat (ae_LeaderCommit args)) (ents r') = take (unat (ae_LeaderCommit args)) (g_log s ?T)" using so(2) by (simp add: min_absorb1)
    then have "committed conf ?s ?T (ents r') (unat (ae_LeaderCommit args))" using so(2) q(1) by (intro committed_mono [OF st so(1)]) simp_all
    moreover have "currentTerm r' = ?T" using role(1) nt by simp
    ultimately show ?thesis using ce ok(2) by simp
  qed
  note cm = this
  have "applied_ok r' (applying s n)"
    using k(2,3) role(3,4) handleAppendEntries_commit [OF run] cm by (intro applied_step [OF ci(3) [OF n(1)]]) auto
  moreover have "acked_ok ?s n r'"
  proof (cases "?T < currentTerm ?r")
    case True
    then have "r' = ?r" "\<not> aer_Success reply" using role(1) by simp_all
    then show ?thesis using ci(2) [OF n(1)] by (simp add: acked_ok_def)
  next
    case False
    then show ?thesis using role(1) by (simp add: acked_ok_def)
  qed
  ultimately show ?thesis using cm by (intro commit_step [OF st inv(1,3,4), of n]) auto
qed

subsection \<open>The other steps\<close>

lemma win_commit:
  assumes inv: "elec_inv conf s" "match_inv conf s" "safe_inv conf s" "commit_inv conf s"
    and w: "calls s c t p = Winning" "r_state (nodes s c) = Candidate" "currentTerm (nodes s c) = t"
  shows "commit_inv conf (set_call ((set_node s c (becomeLeaderLocked (nodes s c)))\<lparr>g_led := (g_led s)(t := insert c (g_led s t)),
      g_log := (g_log s)(t := ents (nodes s c)), g_base := (g_base s)(t := length (ents (nodes s c)))\<rparr>) c t p Counted)" (is "commit_inv conf ?s")
proof -
  let ?r = "nodes s c" and ?r' = "becomeLeaderLocked (nodes s c)"
  have st: "safe_step conf s ?s" by (rule win_safe [OF inv(1-3) w])
  have c: "c \<in> members conf" by (rule match_win(3) [OF inv(1,2) w])
  note k = committed_stays [OF st inv(3) c commit_invD(1) [OF inv(4) c]] and nf = node_facts [OF inv(1) c]
  have r': "ents ?r' = ents ?r" "currentTerm ?r' = t" "commitIndex ?r' = commitIndex ?r" "lastApplied ?r' = lastApplied ?r" "applyCh ?r' = applyCh ?r" "commitCh ?r' = commitCh ?r"
    "peers ?r' = peers ?r" "matchIndex ?r' = (\<lambda>_. 0)(r_addr ?r := LastIndex (r_log ?r))" using w(3) by (simp_all add: becomeLeaderLocked_def ents_def Let_def)
  have "applied_ok ?r' (applying s c)" using k(2,3) r' by (intro applied_step [OF commit_invD(3) [OF inv(4) c]]) simp_all
  moreover have "acked_ok ?s c ?r'" using r' nf(4,5) set_others [OF c] by (auto simp: acked_ok_def)
  ultimately show ?thesis using k(1) r' by (intro commit_step [OF st inv(1,3,4), of c]) simp_all
qed

lemma propose_commit:
  assumes inv: "elec_inv conf s" "match_inv conf s" "safe_inv conf s" "commit_inv conf s"
    and n: "n \<in> members conf" "length data < 2 ^ 32" "unat (LastIndex (r_log (nodes s n))) + 2 < 2 ^ 64"
    and run: "Propose raft_ok (nodes s n) cmd data i = (r', res)"
  shows "commit_inv conf ((set_node s n r')\<lparr>
      g_log := (if res = Ok () then (g_log s)(currentTerm r' := ents r') else g_log s),
      g_acks := (if res = Ok () then insert (n, currentTerm r', length (ents r')) (g_acks s) else g_acks s), g_ids := gi\<rparr>)" (is "commit_inv conf ?s")
proof -
  let ?r = "nodes s n"
  have st: "safe_step conf s ?s" by (rule propose_safe [OF inv(1,2) n run])
  note ci = commit_invD [OF inv(4)] and nf = node_facts [OF inv(1) n(1)]
  note k = committed_stays [OF st inv(3) n(1) ci(1) [OF n(1)]]
  have lg: "log_is (r_log ?r)" "good s (ents ?r)" using match_invD(1) [OF inv(2) n(1)] by (simp_all add: node_log_ok_def)
  show ?thesis
    using run lg(1) goodD(1) [OF lg(2)] n(2,3)
  proof (cases rule: Propose_ok)
    case no
    then show ?thesis by (intro commit_idle [OF st inv(1,3,4), of n]) (simp_all add: idle_change_def)
  next
    case (yes e l ps)
    have r': "ents r' = ents ?r @ [e]" "currentTerm r' = currentTerm ?r" "commitIndex r' = commitIndex ?r" "lastApplied r' = lastApplied ?r" "applyCh r' = applyCh ?r"
      "commitCh r' = commitCh ?r" "peers r' = peers ?r" "matchIndex r' = (matchIndex ?r)(r_addr ?r := le_Index e)" "r_state r' = Leader" using yes by (simp_all add: ents_def)
    have "applied_ok r' (applying s n)" using k(2,3) r' by (intro applied_step [OF ci(3) [OF n(1)]]) simp_all
    moreover have "acked_ok ?s n r'" using ci(2) [OF n(1)] r' yes(1,2) nf(4,5) set_others [OF n(1)] by (auto simp: acked_ok_def)
    ultimately show ?thesis using k(1) r' by (intro commit_step [OF st inv(1,3,4), of n]) simp_all
  qed
qed

lemma replicate_commit:
  assumes inv: "elec_inv conf s" "match_inv conf s" "safe_inv conf s" "commit_inv conf s"
    and n: "n \<in> members conf" "p \<in> set (peers (nodes s n))" and run: "replicateTo (nodes s n) p = Ok (Some args)"
  shows "commit_inv conf (s\<lparr>appends := insert (n, p, args) (appends s)\<rparr>)" (is "commit_inv conf ?s")
proof -
  let ?r = "nodes s n"
  have st: "safe_step conf s ?s" by (rule safe_same) simp_all
  have l: "r_state ?r = Leader" using run by (auto simp: replicateTo_def split: if_splits)
  note nl = match_invD(1) [OF inv(2) n(1)] and ci = commit_invD [OF inv(4)]
  obtain args' where a: "replicateTo ?r p = Ok (Some args')" "ae_Term args' = currentTerm ?r" "ae_LeaderCommit args' = commitIndex ?r"
    "unat (ae_PrevLogIndex args') + length (ae_Entries args') = length (ents ?r)" using replicateTo_ok [OF nl l n(2)] by metis
  have same: "args' = args" using a(1) run by simp
  have "ents ?r = g_log s (currentTerm ?r)" using nl l by (simp add: node_log_ok_def)
  then have "committed conf s (ae_Term args) (g_log s (ae_Term args)) (unat (ae_LeaderCommit args))" using ci(1) [OF n(1)] a same by simp
  then have "committed conf ?s (ae_Term args) (g_log s (ae_Term args)) (unat (ae_LeaderCommit args))" using committed_length by (intro committed_mono [OF st]) auto
  moreover have "unat (ae_LeaderCommit args) \<le> unat (ae_PrevLogIndex args) + length (ae_Entries args)" using committed_length [OF ci(1) [OF n(1)]] a same by simp
  ultimately have "sent_ok conf ?s args" by (simp add: sent_ok_def)
  moreover have "committed conf ?s (currentTerm ?r) (ents ?r) (unat (commitIndex ?r)) \<and> acked_ok ?s n ?r"
    using committed_stays(1) [OF st inv(3) n(1) ci(1) [OF n(1)]] ci(2) [OF n(1)] by (simp add: acked_ok_def)
  ultimately show ?thesis using ci(3) [OF n(1)] by (intro commit_step [OF st inv(1,3,4), of n]) auto
qed

lemma apply_next_ok:
  assumes "applied_ok r (Some (idx, commit))" "indexed (ents r)" "Suc (length (ents r)) < 2 ^ 64" "unat (commitIndex r) \<le> length (ents r)"
    and run: "applyNext r idx commit = Ok (r', go)"
  shows "applied_ok r' (if go then Some (idx + 1, commit) else None)" "go \<longleftrightarrow> idx \<le> commit"
    "go \<Longrightarrow> unat (lastApplied r') = Suc (unat (lastApplied r)) \<and> lastApplied r' = idx"
proof -
  have o: "idx = lastApplied r + 1" "commit \<le> commitIndex r" "commit = commitIndex r \<or> commitCh r" "lastApplied r \<le> commitIndex r" "applyCh r = take (unat (lastApplied r)) (ents r)"
    using assms(1) by (simp_all add: applied_ok_def)
  have u: "unat idx = Suc (unat (lastApplied r))" using o(1,4) assms(3,4) by (simp add: word_le_nat_alt unat_word_ariths)
  have "applied_ok r' (if go then Some (idx + 1, commit) else None) \<and> (go \<longleftrightarrow> idx \<le> commit) \<and>
    (go \<longrightarrow> unat (lastApplied r') = Suc (unat (lastApplied r)) \<and> lastApplied r' = idx)"
  proof (cases "idx \<le> commit")
    case True
    have i: "idx \<noteq> 0" "unat idx \<le> length (ents r)" using u True o(2) assms(4) by (auto simp: word_le_nat_alt)
    have "GetEntry (r_log r) idx = Ok (Some (ents r ! (unat idx - 1)))" using GetEntry_indexed [of "r_log r" idx] assms(2) i by (simp add: ents_def)
    then have r': "r' = r\<lparr>applyCh := applyCh r @ [ents r ! (unat idx - 1)], lastApplied := idx\<rparr>" "go" using run True by (auto simp: applyNext_def)
    have "applyCh r' = take (unat idx) (ents r)" using r'(1) o(5) u i(2) by (simp add: take_Suc_conv_app_nth)
    moreover have "idx \<le> commitIndex r" using True o(2) by simp
    ultimately have "applied_ok r' (Some (idx + 1, commit))" using r'(1) o(2,3) by (simp add: applied_ok_def ents_def)
    then show ?thesis using True r' u by simp
  next
    case False
    then have r': "r' = r" "\<not> go" using run by (auto simp: applyNext_def)
    have "lastApplied r = commitIndex r \<or> commitCh r"
    proof (cases "commit = commitIndex r")
      case True
      then have "unat (lastApplied r) = unat (commitIndex r)" using False u o(4) by (simp add: word_le_nat_alt)
      then show ?thesis by (simp add: word_unat_eq_iff)
    qed (use o(3) in simp)
    then show ?thesis using False r' o(4,5) by (simp add: applied_ok_def)
  qed
  then show "applied_ok r' (if go then Some (idx + 1, commit) else None)" "go \<longleftrightarrow> idx \<le> commit"
    "go \<Longrightarrow> unat (lastApplied r') = Suc (unat (lastApplied r)) \<and> lastApplied r' = idx" by blast+
qed

lemma commit_inv_step:
  assumes "net_step conf s s'" "elec_inv conf s" "match_inv conf s" "safe_inv conf s" "commit_inv conf s" shows "commit_inv conf s'"
  using assms
proof (induction rule: net_step.induct)
  case (Start n s r' args)
  show ?case by (rule commit_idle [OF step_safe [OF net_step.Start [OF Start.hyps] Start.prems(1-3)] Start.prems(1,3,4), of n])
    (use idle_start [OF Start.hyps(3)] in simp_all)
next
  case (Vote p s c t args r' reply)
  show ?case by (rule commit_idle [OF vote_safe [OF Vote.prems(1,2) Vote.hyps] Vote.prems(1,3,4), of p]) (use idle_vote [OF Vote.hyps(3)] in simp_all)
next
  case (VoteReply s c t p reply r' go)
  show ?case by (rule commit_idle [OF step_safe [OF net_step.VoteReply [OF VoteReply.hyps] VoteReply.prems(1-3)] VoteReply.prems(1,3,4), of c])
    (use idle_voteReply [OF VoteReply.hyps(2)] in simp_all)
next
  case (CountVote s c t p v' won)
  show ?case by (rule commit_idle [OF step_safe [OF net_step.CountVote [OF CountVote.hyps] CountVote.prems(1-3)] CountVote.prems(1,3,4), of c])
    (simp_all add: idle_change_def)
next
  case (Win s c t p r')
  show ?case
  proof (cases "r_state (nodes s c) = Candidate \<and> currentTerm (nodes s c) = t")
    case True
    then have "r' = becomeLeaderLocked (nodes s c)" "r_state r' = Leader" "r_state (nodes s c) \<noteq> Leader" "ents r' = ents (nodes s c)"
      using Win.hyps(2) by (auto simp: electionWon_def becomeLeaderLocked_def Let_def ents_def)
    then show ?thesis using win_commit [OF Win.prems Win.hyps(1)] True by simp
  next
    case False
    then have r': "r' = nodes s c" using Win.hyps(2) by (auto simp: electionWon_def)
    show ?thesis by (rule commit_idle [OF step_safe [OF net_step.Win [OF Win.hyps] Win.prems(1-3)] Win.prems(1,3,4), of c])
      (use r' in \<open>simp_all add: idle_change_def\<close>)
  qed
next
  case (Replicate n p s args)
  show ?case by (rule replicate_commit [OF Replicate.prems Replicate.hyps])
next
  case (Append n p args s r' reply)
  show ?case by (rule append_commit [OF Append.prems Append.hyps])
next
  case (AppendReply n p args reply s r')
  show ?case by (rule reply_commit [OF AppendReply.prems AppendReply.hyps step_safe [OF net_step.AppendReply [OF AppendReply.hyps] AppendReply.prems(1-3)]])
next
  case (Propose n data s cmd r' res)
  show ?case by (rule propose_commit [OF Propose.prems Propose.hyps])
next
  case (ApplyTake n s r' idx commit)
  note st = step_safe [OF net_step.ApplyTake [OF ApplyTake.hyps] ApplyTake.prems(1-3)] and ci = commit_invD [OF ApplyTake.prems(4)]
  note k = committed_stays [OF st ApplyTake.prems(3) ApplyTake.hyps(1) ci(1) [OF ApplyTake.hyps(1)]] and f = applyTake_frame [OF ApplyTake.hyps(3)]
  have "applied_ok r' (Some (idx, commit))" using ci(3) [OF ApplyTake.hyps(1)] f by (simp add: applied_ok_def ents_def)
  moreover have "acked_ok s n r'" using ci(2) [OF ApplyTake.hyps(1)] f by (simp add: acked_ok_def ents_def)
  moreover have "committed conf s (currentTerm r') (ents r') (unat (commitIndex r'))" using ci(1) [OF ApplyTake.hyps(1)] f by (simp add: ents_def)
  ultimately show ?case using k(1) f by (intro commit_step [OF st ApplyTake.prems(1,3,4), of n]) (simp_all add: acked_ok_def)
next
  case (ApplyNext n s idx commit r' go)
  note st = step_safe [OF net_step.ApplyNext [OF ApplyNext.hyps] ApplyNext.prems(1-3)] and ci = commit_invD [OF ApplyNext.prems(4)]
  note k = committed_stays [OF st ApplyNext.prems(3) ApplyNext.hyps(1) ci(1) [OF ApplyNext.hyps(1)]] and f = applyNext_frame [OF ApplyNext.hyps(3)]
  have g: "good s (ents (nodes s n))" using match_invD(1) [OF ApplyNext.prems(2) ApplyNext.hyps(1)] by (simp add: node_log_ok_def)
  have "applied_ok r' (if go then Some (idx + 1, commit) else None)"
    using apply_next_ok(1) [OF _ goodD(1) [OF g] good_bound [OF g match_invD(2) [OF ApplyNext.prems(2)]] committed_length [OF ci(1) [OF ApplyNext.hyps(1)]] ApplyNext.hyps(3)]
      ci(3) [OF ApplyNext.hyps(1)] ApplyNext.hyps(2) by simp
  moreover have "acked_ok s n r'" using ci(2) [OF ApplyNext.hyps(1)] f by (simp add: acked_ok_def ents_def ident_def)
  ultimately show ?case using k(1) f by (intro commit_step [OF st ApplyNext.prems(1,3,4), of n]) (simp_all add: acked_ok_def)
next
  case (Restart n s r')
  note st = step_safe [OF net_step.Restart [OF Restart.hyps] Restart.prems(1-3)]
  note r = node_restart_ok [OF node_facts(1) [OF Restart.prems(1) Restart.hyps(1)] Restart.hyps(2)]
  show ?case using r(4,7-9) by (intro commit_step [OF st Restart.prems(1,3,4), of n]) (simp_all add: committed_def acked_ok_def applied_ok_def)
qed

lemma commit_inv_reach: "net_reach conf s \<Longrightarrow> commit_inv conf s"
proof (induction rule: net_reach.induct)
  case (Init s)
  have "commitIndex (nodes s n) = 0 \<and> lastApplied (nodes s n) = 0 \<and> applyCh (nodes s n) = [] \<and> r_state (nodes s n) = Follower" if "n \<in> members conf" for n
  proof -
    let ?r0 = "undefined\<lparr>currentTerm := 0, votedFor := [], stateFile := None\<rparr>"
    have sv: "saved ?r0" by (simp add: saved_def)
    have "NewRaftWithConfig new_ok (idof conf n) (others conf n) n [] (stateFile ?r0) = Ok (nodes s n)" using Init that by (simp add: net_init_def)
    from node_restart_ok [OF sv this] show ?thesis by simp
  qed
  then show ?case using Init by (simp add: commit_inv_def net_init_def committed_def acked_ok_def applied_ok_def)
next
  case (Step s s')
  then show ?case using commit_inv_step [OF Step.hyps(2) elec_inv_reach match_inv_reach safe_inv_reach] by blast
qed

subsection \<open>Delivery\<close>

lemma committed_less:
  assumes "committed conf s t0 L c" "d \<le> c" shows "committed conf s t0 L d"
proof (cases "d = 0")
  case False
  then obtain t m where o: "chosen conf s t m" "t \<le> t0" "c \<le> m" "c \<le> length L" "take c L = take c (g_log s t)" using assms by (auto simp: committed_def has_def)
  have "take d (take c L) = take d (take c (g_log s t))" using o(5) by simp
  then have "has s L d t" using assms(2) o(4) by (simp add: has_def min_absorb1)
  then show ?thesis using o(1-3) assms(2) unfolding committed_def by (meson order_trans)
qed (simp add: committed_def)

text \<open>What the apply goroutine of \<open>n\<close> reaches.\<close>

definition only_applies :: "gostring \<Rightarrow> net \<Rightarrow> net \<Rightarrow> bool" where
  "only_applies n s s' \<longleftrightarrow> (\<forall>v. v \<noteq> n \<longrightarrow> nodes s' v = nodes s v) \<and> commitIndex (nodes s' n) = commitIndex (nodes s n) \<and> r_log (nodes s' n) = r_log (nodes s n) \<and>
     (commitCh (nodes s' n) \<longrightarrow> commitCh (nodes s n))"

lemma reach_node:
  assumes "net_reach conf s" "n \<in> members conf"
  shows "indexed (ents (nodes s n))" "Suc (length (ents (nodes s n))) < 2 ^ 64" "unat (commitIndex (nodes s n)) \<le> length (ents (nodes s n))"
    "applied_ok (nodes s n) (applying s n)"
proof -
  have mi: "match_inv conf s" by (rule match_inv_reach [OF assms(1)])
  have g: "good s (ents (nodes s n))" using match_invD(1) [OF mi assms(2)] by (simp add: node_log_ok_def)
  show "indexed (ents (nodes s n))" "Suc (length (ents (nodes s n))) < 2 ^ 64" using goodD(1) [OF g] good_bound [OF g match_invD(2) [OF mi]] by blast+
  show "unat (commitIndex (nodes s n)) \<le> length (ents (nodes s n))" "applied_ok (nodes s n) (applying s n)"
    using committed_length commit_invD(1,3) [OF commit_inv_reach [OF assms(1)] assms(2)] by blast+
qed

text \<open>The loop of the goroutine ends.\<close>

lemma apply_loop:
  assumes "net_reach conf s" "n \<in> members conf" "applying s n = Some (idx, commit)"
  shows "\<exists>s'. rtranclp (net_step conf) s s' \<and> only_applies n s s' \<and> applying s' n = None"
  using assms
proof (induction "Suc (unat commit) - unat idx" arbitrary: s idx rule: less_induct)
  case less
  let ?r = "nodes s n"
  note rn = reach_node [OF less.prems(1,2), unfolded less.prems(3)]
  have "\<exists>x. applyNext ?r idx commit = Ok x" using GetEntry_indexed [of "r_log ?r" idx] rn(1) by (auto simp: applyNext_def ents_def)
  then obtain r' go where run: "applyNext ?r idx commit = Ok (r', go)" by auto
  let ?s = "(set_node s n r')\<lparr>applying := (applying s)(n := (if go then Some (idx + 1, commit) else None))\<rparr>"
  have st: "net_step conf s ?s" by (rule net_step.ApplyNext [OF less.prems(2,3) run])
  have only: "only_applies n s ?s" using applyNext_frame [OF run] by (simp add: only_applies_def)
  note an = apply_next_ok [OF rn(4,1,2,3) run]
  show ?case
  proof (cases go)
    case False
    then show ?thesis using st only by (intro exI [of _ ?s]) auto
  next
    case True
    have c: "commit \<le> commitIndex ?r" using rn(4) by (simp add: applied_ok_def)
    have le: "unat idx \<le> unat commit" using an(2) True by (simp add: word_le_nat_alt)
    then have "unat (idx + 1) = Suc (unat idx)" using c rn(2,3) by (simp add: word_le_nat_alt unat_word_ariths)
    then have "Suc (unat commit) - unat (idx + 1) < Suc (unat commit) - unat idx" using le by simp
    moreover have "applying ?s n = Some (idx + 1, commit)" using True by simp
    ultimately obtain s' where "rtranclp (net_step conf) ?s s'" "only_applies n ?s s'" "applying s' n = None"
      using less.hyps [OF _ net_reach.Step [OF less.prems(1) st] less.prems(2)] by blast
    then show ?thesis using st only converse_rtranclp_into_rtranclp [of "net_step conf" s ?s s'] by (auto simp: only_applies_def)
  qed
qed

lemma deliver_idle:
  assumes "net_reach conf s" "n \<in> members conf" "applying s n = None"
  shows "\<exists>s'. rtranclp (net_step conf) s s' \<and> only_applies n s s' \<and> lastApplied (nodes s' n) = commitIndex (nodes s' n)"
proof (cases "commitCh (nodes s n)")
  case False
  then have "lastApplied (nodes s n) = commitIndex (nodes s n)" using reach_node(4) [OF assms(1,2)] assms(3) by (simp add: applied_ok_def)
  then show ?thesis by (intro exI [of _ s]) (simp add: only_applies_def)
next
  case True
  let ?r = "nodes s n"
  have "applyTake ?r = Some (?r\<lparr>commitCh := False\<rparr>, lastApplied ?r + 1, commitIndex ?r)" using True by (simp add: applyTake_def)
  note st = net_step.ApplyTake [OF assms(2,3) this]
  let ?s = "(set_node s n (?r\<lparr>commitCh := False\<rparr>))\<lparr>applying := (applying s)(n := Some (lastApplied ?r + 1, commitIndex ?r))\<rparr>"
  have ap: "applying ?s n = Some (lastApplied ?r + 1, commitIndex ?r)" by simp
  obtain s' where s': "rtranclp (net_step conf) ?s s'" "only_applies n ?s s'" "applying s' n = None"
    using apply_loop [OF net_reach.Step [OF assms(1) st] assms(2) ap] by blast
  have run: "rtranclp (net_step conf) s s'" using st s'(1) by (meson converse_rtranclp_into_rtranclp)
  have "\<not> commitCh (nodes s' n)" using s'(2) by (simp add: only_applies_def)
  then have "lastApplied (nodes s' n) = commitIndex (nodes s' n)" using reach_node(4) [OF reach_star [OF run assms(1)] assms(2)] s'(3) by (simp add: applied_ok_def)
  then show ?thesis using run s'(2) True by (auto simp: only_applies_def)
qed

lemma delivered:
  assumes "net_reach conf s" "n \<in> members conf"
  shows "\<exists>s'. rtranclp (net_step conf) s s' \<and> only_applies n s s' \<and> applyCh (nodes s' n) = take (unat (commitIndex (nodes s n))) (ents (nodes s n))"
proof -
  obtain s1 where s1: "rtranclp (net_step conf) s s1" "only_applies n s s1" "applying s1 n = None"
  proof (cases "applying s n")
    case None
    then show ?thesis using that [of s] by (simp add: only_applies_def)
  next
    case (Some a)
    then show ?thesis using that apply_loop [OF assms] by (cases a) blast
  qed
  obtain s2 where s2: "rtranclp (net_step conf) s1 s2" "only_applies n s1 s2" "lastApplied (nodes s2 n) = commitIndex (nodes s2 n)"
    using deliver_idle [OF reach_star [OF s1(1) assms(1)] assms(2) s1(3)] by blast
  have run: "rtranclp (net_step conf) s s2" using s1(1) s2(1) by (rule rtranclp_trans)
  have "applyCh (nodes s2 n) = take (unat (commitIndex (nodes s2 n))) (ents (nodes s2 n))"
    using reach_node(4) [OF reach_star [OF run assms(1)] assms(2)] s2(3) by (simp add: applied_ok_def)
  then show ?thesis using run s1(2) s2(2) by (intro exI [of _ s2]) (simp add: only_applies_def ents_def)
qed

lemma delivered_prefix:
  assumes "net_reach conf s" "a \<in> members conf" "b \<in> members conf"
  shows "prefix (applyCh (nodes s a)) (applyCh (nodes s b)) \<or> prefix (applyCh (nodes s b)) (applyCh (nodes s a))"
proof -
  note ci = commit_invD [OF commit_inv_reach [OF assms(1)]]
  have ap: "unat (lastApplied (nodes s n)) \<le> unat (commitIndex (nodes s n))" "applyCh (nodes s n) = take (unat (lastApplied (nodes s n))) (ents (nodes s n))"
    if "n \<in> members conf" for n using ci(3) [OF that] by (simp_all add: applied_ok_def word_le_nat_alt)
  have *: "prefix (applyCh (nodes s x)) (applyCh (nodes s y))"
    if m: "x \<in> members conf" "y \<in> members conf" and le: "unat (lastApplied (nodes s x)) \<le> unat (lastApplied (nodes s y))" for x y
  proof -
    let ?c = "unat (lastApplied (nodes s x))"
    have "?c \<le> unat (commitIndex (nodes s x))" "?c \<le> unat (commitIndex (nodes s y))" using ap(1) [OF m(1)] ap(1) [OF m(2)] le by linarith+
    then have "take ?c (ents (nodes s x)) = take ?c (ents (nodes s y))"
      using committed_agree [OF safe_inv_reach [OF assms(1)] committed_less [OF ci(1) [OF m(1)]] committed_less [OF ci(1) [OF m(2)]]] by blast
    then have "applyCh (nodes s x) = take ?c (applyCh (nodes s y))" using ap(2) [OF m(1)] ap(2) [OF m(2)] le by (simp add: min_absorb1)
    then show ?thesis by (metis take_is_prefix)
  qed
  then show ?thesis using assms(2,3) by (meson nat_le_linear)
qed

subsection \<open>Properties\<close>

text \<open>C5. State machine safety. In every reachable state of a cluster, of the sequences of entries that two
  nodes have delivered to their state machines since they started, one is a prefix of the other: no two
  nodes ever apply different entries at the same place.\<close>

theorem raft_state_machine_safety:
  assumes "net_reach conf s" "a \<in> members conf" "b \<in> members conf"
  shows "prefix (applyCh (nodes s a)) (applyCh (nodes s b)) \<or> prefix (applyCh (nodes s b)) (applyCh (nodes s a))"
  using assms by (rule delivered_prefix)

text \<open>C7. Leader completeness. In every reachable state, a leader has in its log everything that a node of
  the same or an earlier term counts as committed.\<close>

theorem raft_leader_completeness:
  assumes "net_reach conf s" "n \<in> members conf" "l \<in> members conf" "r_state (nodes s l) = Leader" "currentTerm (nodes s n) \<le> currentTerm (nodes s l)"
  shows "let c = unat (commitIndex (nodes s n)) in c \<le> length (l_entries (r_log (nodes s n))) \<and> c \<le> length (l_entries (r_log (nodes s l))) \<and>
    take c (l_entries (r_log (nodes s l))) = take c (l_entries (r_log (nodes s n)))"
proof -
  let ?c = "unat (commitIndex (nodes s n))"
  have inv: "match_inv conf s" "safe_inv conf s" "elec_inv conf s" using assms(1) match_inv_reach safe_inv_reach elec_inv_reach by blast+
  note c = commit_invD(1) [OF commit_inv_reach [OF assms(1)] assms(2)]
  have G: "ents (nodes s l) = g_log s (currentTerm (nodes s l))" using match_invD(1) [OF inv(1) assms(3)] assms(4) by (simp add: node_log_ok_def)
  have ld: "led s (currentTerm (nodes s l))" using elec_invD(5) [OF inv(3)] assms(3,4) unfolding led_ok_def led_def by blast
  have "?c \<le> length (ents (nodes s l)) \<and> take ?c (ents (nodes s l)) = take ?c (ents (nodes s n))"
  proof (cases "?c = 0")
    case False
    then obtain t m where o: "chosen conf s t m" "t \<le> currentTerm (nodes s n)" "?c \<le> m" "has s (ents (nodes s n)) ?c t" using c by (auto simp: committed_def)
    show ?thesis
    proof (cases "t = currentTerm (nodes s l)")
      case True
      then show ?thesis using o G by (simp add: has_def chosen_def)
    next
      case False
      then have "t < currentTerm (nodes s l)" using o(2) assms(5) by (meson order_le_less order_trans)
      then have "holds s (currentTerm (nodes s l)) ?c t" using chosen_kept [OF inv(2) o(1,3), of UNIV] ld by (simp add: kept_def)
      moreover have "g_base s (currentTerm (nodes s l)) \<le> length (ents (nodes s l))" using match_invD(2) [OF inv(1) ld] G by (simp add: leader_log_ok_def)
      ultimately show ?thesis using o(4) G by (simp add: holds_def has_def)
    qed
  qed simp
  then show ?thesis using committed_length [OF c] by (simp add: Let_def ents_def)
qed

subsection \<open>The apply goroutine and its consumer\<close>

text \<open>The channel between the apply goroutine and the loop that applies entries to the engine holds
  \<open>applyCap\<close> entries. A configuration is a node's record, where its apply goroutine is (as in
  \<open>applying\<close>) and how many of the sent entries the consumer has taken: the channel holds the rest of
  \<open>applyCh\<close>. \<open>Wake\<close> takes the signal, \<open>Send\<close> is one turn of the loop, which blocks
  while the channel is full, and \<open>Take\<close> is a receive of the consumer. The node is not being stopped.\<close>

type_synonym deliver_conf = "Raft \<times> (64 word \<times> 64 word) option \<times> nat"

inductive deliver_step :: "deliver_conf \<Rightarrow> deliver_conf \<Rightarrow> bool" where
  Wake: "applyTake r = Some (r', idx, commit) \<Longrightarrow> deliver_step (r, None, k) (r', Some (idx, commit), k)"
| Send: "applyNext r idx commit = Ok (r', go) \<Longrightarrow> go \<longrightarrow> length (applyCh r) - k < applyCap \<Longrightarrow>
    deliver_step (r, Some (idx, commit), k) (r', if go then Some (idx + 1, commit) else None, k)"
| Take: "k < length (applyCh r) \<Longrightarrow> deliver_step (r, a, k) (r, a, Suc k)"

inductive_cases deliver_stepE: "deliver_step (r, a, k) c'"

definition deliver_inv :: "Raft \<Rightarrow> deliver_conf \<Rightarrow> bool" where
  "deliver_inv r0 c = (case c of (r, a, k) \<Rightarrow> applied_ok r a \<and> r_log r = r_log r0 \<and> commitIndex r = commitIndex r0 \<and> k \<le> length (applyCh r) \<and>
     indexed (ents r) \<and> Suc (length (ents r)) < 2 ^ 64 \<and> unat (commitIndex r) \<le> length (ents r))"

definition deliver_left :: "deliver_conf \<Rightarrow> nat" where
  "deliver_left c = (case c of (r, a, k) \<Rightarrow>
     (unat (commitIndex r) - k) + (unat (commitIndex r) - length (applyCh r)) + (if commitCh r then 2 else 0) + (if a = None then 0 else 1))"

lemma deliver_length:
  "deliver_inv r0 (r, a, k) \<Longrightarrow> length (applyCh r) = unat (lastApplied r) \<and> unat (lastApplied r) \<le> unat (commitIndex r)"
  by (auto simp: deliver_inv_def applied_ok_def word_le_nat_alt)

lemma deliver_inv_step:
  assumes "deliver_step c c'" "deliver_inv r0 c" shows "deliver_inv r0 c' \<and> deliver_left c' < deliver_left c"
  using assms
proof (induction rule: deliver_step.induct)
  case (Wake r r' idx commit k)
  note f = applyTake_frame [OF Wake.hyps]
  have "applied_ok r None" "commitIndex r = commitIndex r0" using Wake.prems by (simp_all add: deliver_inv_def)
  then have "applied_ok r' (Some (idx, commit))" using f by (simp add: applied_ok_def ents_def)
  then show ?case using f Wake.prems by (auto simp: deliver_inv_def deliver_left_def ents_def)
next
  case (Send r idx commit r' go k)
  have i: "applied_ok r (Some (idx, commit))" "indexed (ents r)" "Suc (length (ents r)) < 2 ^ 64" "unat (commitIndex r) \<le> length (ents r)"
    using Send.prems by (auto simp: deliver_inv_def)
  note n = apply_next_ok [OF i Send.hyps(1)] and f = applyNext_frame [OF Send.hyps(1)] and l = deliver_length [OF Send.prems]
  have e: "ents r' = ents r" using f by (simp add: ents_def)
  have l': "length (applyCh r') = unat (lastApplied r')" "unat (lastApplied r') \<le> unat (commitIndex r)"
    using n(1) e f i(4) by (auto simp: applied_ok_def word_le_nat_alt)
  have "go \<or> r' = r" using Send.hyps(1) by (auto simp: applyNext_def split: if_splits res.splits option.splits)
  then have "if go then length (applyCh r') = Suc (length (applyCh r)) else r' = r" using n(3) l l'(1) by auto
  then show ?case using n(1) e f l' Send.prems by (auto simp: deliver_inv_def deliver_left_def split: if_splits)
next
  case (Take k r a)
  then show ?case using deliver_length [OF Take.prems] by (auto simp: deliver_inv_def deliver_left_def)
qed

lemma deliver_inv_star: "rtranclp deliver_step c c' \<Longrightarrow> deliver_inv r0 c \<Longrightarrow> deliver_inv r0 c'"
  by (induction rule: rtranclp_induct) (use deliver_inv_step in blast)+

lemma deliver_ends:
  assumes "deliver_inv r0 (f 0)" shows "\<exists>i. \<not> deliver_step (f i) (f (Suc i))"
proof (rule ccontr)
  assume "\<not> ?thesis"
  then have st: "deliver_step (f i) (f (Suc i))" for i by simp
  have "deliver_inv r0 (f i)" for i by (induction i) (use assms deliver_inv_step [OF st] in auto)
  then have "deliver_left (f (Suc i)) < deliver_left (f i)" for i using deliver_inv_step [OF st] by blast
  then have "\<forall>i. (f (Suc i), f i) \<in> measure deliver_left" by simp
  then show False using wf_measure [of deliver_left] unfolding wf_iff_no_infinite_down_chain by blast
qed

lemma deliver_stops:
  assumes "deliver_inv r0 c" shows "\<exists>c'. rtranclp deliver_step c c' \<and> (\<forall>c''. \<not> deliver_step c' c'')"
  using assms
proof (induction "deliver_left c" arbitrary: c rule: less_induct)
  case less
  show ?case
  proof (cases "\<exists>c'. deliver_step c c'")
    case True
    then obtain c' where st: "deliver_step c c'" by blast
    from less.hyps [of c'] deliver_inv_step [OF st less.prems] obtain d where "rtranclp deliver_step c' d" "\<forall>c''. \<not> deliver_step d c''" by blast
    then show ?thesis using st by (meson converse_rtranclp_into_rtranclp)
  qed blast
qed

text \<open>A configuration in which nothing can move has delivered everything: with the channel full the
  consumer can take.\<close>

lemma deliver_stuck:
  assumes "deliver_inv r0 (r, a, k)" "\<forall>c. \<not> deliver_step (r, a, k) c"
  shows "applyCh r = take (unat (commitIndex r)) (ents r)" "k = length (applyCh r)" "a = None"
proof -
  note st = assms(2) [rule_format]
  have i: "applied_ok r a" "k \<le> length (applyCh r)" "indexed (ents r)" using assms(1) by (simp_all add: deliver_inv_def)
  have "\<not> k < length (applyCh r)" using st deliver_step.Take by blast
  then show k: "k = length (applyCh r)" using i(2) by simp
  show a: "a = None"
  proof (rule ccontr)
    assume "a \<noteq> None"
    then obtain idx commit where a: "a = Some (idx, commit)" by auto
    have "\<exists>x. applyNext r idx commit = Ok x" using GetEntry_indexed [of "r_log r" idx] i(3) by (auto simp: applyNext_def ents_def)
    then obtain r' go where "applyNext r idx commit = Ok (r', go)" by auto
    then show False using st deliver_step.Send [of r idx commit r' go k] k unfolding a by (simp add: applyCap_def)
  qed
  have "\<not> commitCh r" using st deliver_step.Wake [of r _ _ _ k] unfolding a by (auto simp: applyTake_def)
  then show "applyCh r = take (unat (commitIndex r)) (ents r)" using i(1) a by (simp add: applied_ok_def)
qed

lemma deliver_room:
  "rtranclp deliver_step c c' \<Longrightarrow> length (applyCh (fst c)) - snd (snd c) \<le> applyCap \<Longrightarrow> length (applyCh (fst c')) - snd (snd c') \<le> applyCap"
proof (induction rule: rtranclp_induct)
  case (step c' c'')
  from step.hyps(2) step.IH [OF step.prems] show ?case
    by cases (auto simp: applyTake_def applyNext_def split: if_splits res.splits option.splits)
qed

lemma deliver_start:
  "net_reach conf s \<Longrightarrow> n \<in> members conf \<Longrightarrow> k \<le> length (applyCh (nodes s n)) \<Longrightarrow> deliver_inv (nodes s n) (nodes s n, applying s n, k)"
  using reach_node [of conf s n] by (simp add: deliver_inv_def)

text \<open>C9. Delivery. From every reachable state, and however many of the sent entries the consumer has taken, every
  run of a node's apply goroutine and of the consumer of its channel is finite, keeps the channel within
  its capacity of 256 entries and leaves the log and the commit index alone; where neither of the two can
  move, exactly the committed entries have been sent, all of them have been taken, and the goroutine waits
  for the next signal. A full channel only makes the goroutine wait for the consumer: there is no
  deadlock between them.\<close>

theorem raft_delivers:
  assumes "net_reach conf s" "n \<in> members conf" "k \<le> length (applyCh (nodes s n))"
  shows "(\<nexists>f. f 0 = (nodes s n, applying s n, k) \<and> (\<forall>i. deliver_step (f i) (f (Suc i)))) \<and>
    (\<forall>r' a' k'. rtranclp deliver_step (nodes s n, applying s n, k) (r', a', k') \<longrightarrow>
      r_log r' = r_log (nodes s n) \<and> commitIndex r' = commitIndex (nodes s n) \<and>
      (length (applyCh (nodes s n)) - k \<le> applyCap \<longrightarrow> length (applyCh r') - k' \<le> applyCap) \<and>
      ((\<forall>c. \<not> deliver_step (r', a', k') c) \<longrightarrow>
        applyCh r' = take (unat (commitIndex (nodes s n))) (l_entries (r_log (nodes s n))) \<and> k' = length (applyCh r') \<and> a' = None))"
proof (intro conjI allI impI)
  note inv = deliver_start [OF assms]
  show "\<nexists>f. f 0 = (nodes s n, applying s n, k) \<and> (\<forall>i. deliver_step (f i) (f (Suc i)))" using deliver_ends inv by metis
  fix r' a' k'
  assume run: "rtranclp deliver_step (nodes s n, applying s n, k) (r', a', k')"
  note i = deliver_inv_star [OF run inv]
  show same: "r_log r' = r_log (nodes s n)" "commitIndex r' = commitIndex (nodes s n)" using i by (simp_all add: deliver_inv_def)
  show "length (applyCh r') - k' \<le> applyCap" if "length (applyCh (nodes s n)) - k \<le> applyCap" using deliver_room [OF run] that by simp
  assume "\<forall>c. \<not> deliver_step (r', a', k') c"
  from deliver_stuck [OF i this] same show
    "applyCh r' = take (unat (commitIndex (nodes s n))) (l_entries (r_log (nodes s n)))" "k' = length (applyCh r')" "a' = None" by (simp_all add: ents_def)
qed

end
