(* ===== verification/Raft_Faults.thy ===== *)
theory Raft_Faults
  imports Raft_Commit
begin

text \<open>
  Runs of a cluster of three: elections, proposals and replication, followed on the fields that matter.
  They are the instances of the theorems on reachable states, and one of them shows a proposal that is
  reported as committed although a later leader has overwritten it.
\<close>

definition trio :: conf where
  "trio = [([1], [11]), ([2], [12]), ([3], [13])]"

definition sits :: "net \<Rightarrow> gostring \<Rightarrow> 64 word \<Rightarrow> State \<Rightarrow> LogEntry list \<Rightarrow> bool" where
  "sits s n t st es \<longleftrightarrow> currentTerm (nodes s n) = t \<and> r_state (nodes s n) = st \<and> r_log (nodes s n) = log_of es \<and>
     nodeID (nodes s n) = idof trio n \<and> r_addr (nodes s n) = n \<and> peers (nodes s n) = others trio n"

lemma trio_ok: "conf_ok trio" "members trio = {[1], [2], [3]}" "n \<in> members trio \<Longrightarrow> length (others trio n) = 2"
  by (auto simp: conf_ok_def members_def trio_def others_def)

text \<open>What a client of the node waits for.\<close>

definition pending :: "Raft \<Rightarrow> proposal list \<times> (nat \<Rightarrow> string option option) \<times> 64 word" where
  "pending r = (proposals r, doneCh r, commitIndex r)"

lemma elected:
  assumes c: "sits s c t st es" "c \<in> members trio" "t + 1 \<noteq> 0" and p: "sits s p t' st' es'" "p \<in> members trio" "p \<noteq> c" "t' < t + 1"
    and up: "LastTerm (log_of es') < LastTerm (log_of es) \<or> LastTerm (log_of es') = LastTerm (log_of es) \<and> LastIndex (log_of es') \<le> LastIndex (log_of es)"
  shows "\<exists>s'. rtranclp (net_step trio) s s' \<and> sits s' c (t + 1) Leader es \<and> sits s' p (t + 1) Follower es' \<and> (\<forall>q. q \<noteq> c \<and> q \<noteq> p \<longrightarrow> nodes s' q = nodes s q) \<and>
    (\<forall>q\<in>set (others trio c). nextIndex (nodes s' c) q = LastIndex (log_of es) + 1) \<and> (\<forall>q. pending (nodes s' q) = pending (nodes s q))"
proof -
  obtain r1 args where e: "startElection raft_ok (nodes s c) = (r1, args)" by force
  note so = startElection_ok [OF e]
  obtain r2 reply where v: "handleRequestVote raft_ok (nodes s p) args = (r2, reply)" by force
  have no: "\<not> LastTerm (log_of es) < LastTerm (log_of es')" "LastTerm (log_of es) = LastTerm (log_of es') \<longrightarrow> \<not> LastIndex (log_of es) < LastIndex (log_of es')"
    using up by auto
  have a: "args = \<lparr>rv_Term = t + 1, rv_CandidateID = idof trio c, rv_LastLogIndex = LastIndex (log_of es), rv_LastLogTerm = LastTerm (log_of es)\<rparr>"
    using so(2) c(1) by (simp add: sits_def)
  have lt: "\<not> t + 1 < t'" "t' < t + 1" using p(4) by auto
  have "r2 = (nodes s p)\<lparr>r_state := Follower, currentTerm := t + 1, votedFor := idof trio c, stateFile := Some (vote_bytes (t + 1) (idof trio c))\<rparr>"
    "reply = \<lparr>rvr_Term = t + 1, rvr_VoteGranted = True\<rparr>"
    using v p(1) lt no unfolding a by (auto simp: handleRequestVote_def persistState_ok follower_ok sits_def Let_def)
  note r2 = this
  have pc: "p \<in> set (others trio c)" using set_others [OF c(2)] p(2,3) by simp
  have run: "\<exists>s'. rtranclp (net_step trio) s s' \<and> nodes s' = (nodes s)(p := r2, c := electionWon r1 (rv_Term args))"
    by (rule run_election [OF c(2) p(2) _ p(3) _ e v])
      (use so(1) r2(2) c pc trio_ok(3) [OF c(2)] in \<open>simp_all add: sits_def voteReply_def countVote_def majority_def\<close>)
  have w: "electionWon r1 (rv_Term args) = becomeLeaderLocked r1" using so c(1) by (simp add: electionWon_def sits_def)
  have r1: "currentTerm r1 = t + 1" "r_log r1 = log_of es" "nodeID r1 = idof trio c" "r_addr r1 = c" "peers r1 = others trio c"
    "pending r1 = pending (nodes s c)" using so(1) c(1) by (simp_all add: sits_def pending_def)
  obtain s' where s': "rtranclp (net_step trio) s s'" "nodes s' = (nodes s)(p := r2, c := becomeLeaderLocked r1)" using run w by auto
  have "sits s' c (t + 1) Leader es" using s'(2) r1 by (simp add: sits_def becomeLeaderLocked_def Let_def)
  moreover have "sits s' p (t + 1) Follower es'" using s'(2) r2(1) p(1,3) by (simp add: sits_def)
  moreover have "\<forall>q\<in>set (others trio c). nextIndex (nodes s' c) q = LastIndex (log_of es) + 1" using s'(2) r1 by (simp add: becomeLeaderLocked_def Let_def)
  moreover have "pending (nodes s' q) = pending (nodes s q)" for q using s'(2) r1(6) r2(1) by (simp add: pending_def becomeLeaderLocked_def Let_def)
  ultimately show ?thesis using s' by (intro exI [of _ s']) simp
qed

lemma proposed:
  assumes n: "sits s n t Leader es" "n \<in> members trio" and e: "lentry_ok e" "le_Term e = t" "le_Index e = LastIndex (log_of es) + 1"
    and ok: "list_all lentry_ok es" "unat (LastIndex (log_of es)) + 2 < 2 ^ 64"
  shows "\<exists>s'. net_step trio s s' \<and> sits s' n t Leader (es @ [e]) \<and> (\<forall>q. q \<noteq> n \<longrightarrow> nodes s' q = nodes s q) \<and>
    pending (nodes s' n) = (proposals (nodes s n) @ [\<lparr>p_index = le_Index e, p_id = g_ids s\<rparr>], doneCh (nodes s n), commitIndex (nodes s n)) \<and>
    nextIndex (nodes s' n) = nextIndex (nodes s n) \<and> Propose raft_ok (nodes s n) (le_CmdType e) (le_Data e) (g_ids s) = (nodes s' n, Ok ()) \<and> g_ids s' = Suc (g_ids s)"
proof -
  let ?r = "nodes s n"
  have e': "e = \<lparr>le_Term = currentTerm ?r, le_Index = LastIndex (r_log ?r) + 1, le_CmdType = le_CmdType e, le_Data = le_Data e\<rparr>"
    using e(2,3) n(1) by (simp add: sits_def)
  have "Log_Append log_ok (r_log ?r) [e] = (log_of (es @ [e]), None)" using log_of_append [of es "[e]"] ok(1) e(1) n(1) by (simp add: sits_def)
  then have run: "Propose raft_ok ?r (le_CmdType e) (le_Data e) (g_ids s) =
      (?r\<lparr>r_log := log_of (es @ [e]), proposals := proposals ?r @ [\<lparr>p_index = le_Index e, p_id = g_ids s\<rparr>], matchIndex := (matchIndex ?r)(r_addr ?r := le_Index e)\<rparr>, Ok ())" (is "_ = (?r', _)")
    using n(1) e' by (simp add: Propose_def raft_ok_def sits_def Let_def)
  obtain s' where s': "net_step trio s s'" "nodes s' = (nodes s)(n := ?r')" "g_ids s' = Suc (g_ids s)" using run_proposal [OF n(2) _ _ run] e(1) ok(2) n(1) by (auto simp: lentry_ok_def sits_def)
  then show ?thesis using n(1) run by (intro exI [of _ s']) (simp add: sits_def pending_def)
qed

text \<open>The leader commits its whole log when a peer has acknowledged it.\<close>

definition resolved :: "proposal list \<times> (nat \<Rightarrow> string option option) \<times> 64 word \<Rightarrow> 64 word \<Rightarrow> proposal list \<times> (nat \<Rightarrow> string option option) \<times> 64 word" where
  "resolved x c = (filter (\<lambda>p. \<not> p_index p \<le> c) (fst x), fold (\<lambda>p ch. if p_index p \<le> c then send_done ch (p_id p) None else ch) (fst x) (fst (snd x)), c)"

lemma sent_request:
  assumes n: "sits s n t Leader es" and es: "indexed es" and i: "0 < unat (nextIndex (nodes s n) p)" "unat (nextIndex (nodes s n) p) \<le> length es"
  shows "\<exists>args. replicateTo (nodes s n) p = Ok (Some args) \<and> ae_Term args = t \<and> unat (ae_PrevLogIndex args) = unat (nextIndex (nodes s n) p) - 1 \<and>
    ae_Entries args = drop (unat (nextIndex (nodes s n) p) - 1) es \<and>
    (unat (nextIndex (nodes s n) p) - 1 \<noteq> 0 \<longrightarrow> ae_PrevLogTerm args = le_Term (es ! (unat (nextIndex (nodes s n) p) - 2))) \<and> ae_LeaderCommit args = commitIndex (nodes s n)"
proof -
  let ?r = "nodes s n" and ?i = "nextIndex (nodes s n) p"
  have r: "r_state ?r = Leader" "r_log ?r = log_of es" "currentTerm ?r = t" using n by (simp_all add: sits_def)
  have i0: "?i \<noteq> 0" using i(1) by auto
  have u: "unat (?i - 1) = unat ?i - 1" by (rule unat_minus_1 [OF i0])
  have ge: "GetEntriesFrom (r_log ?r) ?i = Ok (drop (unat ?i - 1) es)" using GetEntriesFrom_indexed [of "r_log ?r" ?i] es i0 r by simp
  show ?thesis
  proof (cases "?i > 1")
    case True
    then have "1 < unat ?i" by (simp add: word_less_nat_alt)
    then have n0: "?i - 1 \<noteq> 0" "unat ?i - 1 \<le> length es" using u i(2) by auto
    have "GetEntry (r_log ?r) (?i - 1) = Ok (Some (es ! (unat ?i - 2)))" using GetEntry_indexed [of "r_log ?r" "?i - 1"] es n0 u r by (simp add: eval_nat_numeral)
    then show ?thesis using True ge u r by (simp add: replicateTo_def Let_def)
  next
    case False
    then have "unat ?i = 1" using i(1) by (simp add: word_less_nat_alt)
    then show ?thesis using False ge r by (simp add: replicateTo_def Let_def)
  qed
qed

lemma reply_term:
  assumes "handleAppendEntries raft_ok r args = Ok (r', reply)" "\<not> ae_Term args < currentTerm r" shows "aer_Term reply = ae_Term args"
proof -
  note h = assms(1) [unfolded handleAppendEntries_def Let_def, folded heard_def]
  have "aer_Term reply = currentTerm (heard r args)"
  proof (cases "ae_PrevLogIndex args > 0")
    case False
    then show ?thesis using h assms(2) by (auto simp: res_bind_Ok_iff)
  next
    case True
    then obtain en where en: "GetEntry (r_log (heard r args)) (ae_PrevLogIndex args) = Ok en" using h assms(2) by (auto simp: res_bind_Ok_iff)
    then show ?thesis using h True assms(2) by (cases en; cases "le_Term (the en) = ae_PrevLogTerm args") (auto simp: res_bind_Ok_iff)
  qed
  then show ?thesis using assms(2) by (auto simp: heard_def follower_ok)
qed

lemma reply_commits:
  assumes n: "sits s n t Leader es" "n \<in> members trio" and es: "indexed es" "es \<noteq> []" "le_Term (last es) = t"
    and c: "commitIndex (nodes s n) < LastIndex (log_of es)" and p: "p \<in> set (peers (nodes s n))"
    and rp: "\<not> currentTerm (nodes s n) < aer_Term reply" "ae_Term args = t" "aer_Success reply" "ae_Entries args \<noteq> []" "last (ae_Entries args) = last es"
  shows "\<exists>r2. replicateReply raft_ok (nodes s n) p args reply = Ok r2 \<and> sits (set_node s n r2) n t Leader es \<and> pending r2 = resolved (pending (nodes s n)) (LastIndex (log_of es))"
proof -
  let ?r = "nodes s n" and ?x = "le_Index (last es)"
  define r1 where "r1 = ?r\<lparr>nextIndex := (nextIndex ?r)(p := ?x + 1), matchIndex := (matchIndex ?r)(p := ?x)\<rparr>"
  have l: "LastIndex (log_of es) = ?x" using es(2) by (simp add: LastIndex_def)
  have "unat ?x = length es" using indexed_ends(2) [OF es(1,2)] .
  then have "GetEntry (log_of es) ?x = Ok (Some (last es))" using GetEntry_indexed [of "log_of es" ?x] es(1,2) by (auto simp: last_conv_nth)
  moreover have "matched r1 ?x"
  proof -
    have "p \<in> set (filter (\<lambda>q. matchIndex r1 q \<ge> ?x) (peers r1))" using p by (simp add: r1_def)
    then have "0 < length (filter (\<lambda>q. matchIndex r1 q \<ge> ?x) (peers r1))" by (metis length_pos_if_in_set)
    moreover have "length (peers r1) = 2" using n trio_ok(3) by (simp add: r1_def sits_def)
    ultimately show ?thesis by (simp add: matched_def)
  qed
  ultimately have "advanceFrom r1 ?x = Ok (resolveProposalsLocked (r1\<lparr>commitIndex := ?x, commitCh := True\<rparr>))"
    using c l n(1) es(3) by (subst advanceFrom.simps) (simp add: r1_def sits_def)
  then have "replicateReply raft_ok ?r p args reply = Ok (resolveProposalsLocked (r1\<lparr>commitIndex := ?x, commitCh := True\<rparr>))"
    using rp n(1) l by (simp add: replicateReply_def advanceCommitIndexLocked_def sits_def r1_def)
  then show ?thesis using n(1) l by (intro exI [of _ "resolveProposalsLocked (r1\<lparr>commitIndex := ?x, commitCh := True\<rparr>)"])
      (simp add: resolveProposalsLocked_def sits_def pending_def resolved_def r1_def)
qed

lemma replicated:
  assumes n: "sits s n t Leader es" "n \<in> members trio" and p: "sits s p t' st' es'" "p \<in> members trio" "p \<noteq> n" "t' < t"
    and es: "list_all lentry_ok es" "indexed es" "es \<noteq> []" "le_Term (last es) = t" and es': "list_all lentry_ok es'" "indexed es'"
    and c: "commitIndex (nodes s n) < LastIndex (log_of es)" "commitIndex (nodes s n) \<le> commitIndex (nodes s p)"
    and i: "0 < unat (nextIndex (nodes s n) p)" "unat (nextIndex (nodes s n) p) \<le> length es" "unat (nextIndex (nodes s n) p) - 1 \<le> length es'"
      "1 < unat (nextIndex (nodes s n) p) \<Longrightarrow> le_Term (es' ! (unat (nextIndex (nodes s n) p) - 2)) = le_Term (es ! (unat (nextIndex (nodes s n) p) - 2))"
  shows "\<exists>s'. rtranclp (net_step trio) s s' \<and> sits s' n t Leader es \<and>
    sits s' p t Follower (merge_log es' (unat (nextIndex (nodes s n) p) - 1) (drop (unat (nextIndex (nodes s n) p) - 1) es)) \<and>
    (\<forall>q. q \<noteq> n \<and> q \<noteq> p \<longrightarrow> nodes s' q = nodes s q) \<and> pending (nodes s' p) = pending (nodes s p) \<and> pending (nodes s' n) = resolved (pending (nodes s n)) (LastIndex (log_of es))"
proof -
  let ?r = "nodes s n" and ?k = "unat (nextIndex (nodes s n) p)"
  have pn: "p \<in> set (peers ?r)" "peers ?r = others trio n" using n p(2,3) set_others [OF n(2)] by (auto simp: sits_def)
  obtain args where a: "replicateTo ?r p = Ok (Some args)" "ae_Term args = t" "unat (ae_PrevLogIndex args) = ?k - 1" "ae_Entries args = drop (?k - 1) es"
    "?k - 1 \<noteq> 0 \<Longrightarrow> ae_PrevLogTerm args = le_Term (es ! (?k - 2))" "ae_LeaderCommit args = commitIndex ?r"
    using sent_request [OF n(1) es(2) i(1,2)] by blast
  have k: "?k - 1 < length es" using i(1,2) by linarith
  have ents: "ae_Entries args \<noteq> []" "last (ae_Entries args) = last es" using a(4) k by simp_all
  have le: "list_all lentry_ok (ae_Entries args)" "\<forall>j<length (ae_Entries args). unat (le_Index (ae_Entries args ! j)) = Suc (unat (ae_PrevLogIndex args) + j)"
    using es(1,2) a(3,4) k by (auto simp: list_all_iff indexed_def dest: in_set_dropD)
  have lg: "log_is (r_log (nodes s p))" "indexed (ents (nodes s p))" "ents (nodes s p) = es'" using p(1) es' log_of_is(1) by (simp_all add: sits_def ents_def)
  have nm: "\<not> missing (ents (nodes s p)) args"
  proof (cases "?k \<le> 1")
    case True
    then show ?thesis using a(3) by (simp add: missing_def unat_eq_zero)
  next
    case False
    then show ?thesis using i(3,4) a(3,5) lg(3) by (auto simp: missing_def eval_nat_numeral)
  qed
  obtain r1 reply where h: "handleAppendEntries raft_ok (nodes s p) args = Ok (r1, reply)" "log_is (r_log r1)" "aer_Success reply"
    "ents r1 = merge_log es' (?k - 1) (drop (?k - 1) es)"
    using handleAppendEntries_spec [OF lg(1,2) le] nm p(1,4) a(2,3,4) lg(3) by (metis order.asym sits_def)
  note role = handleAppendEntries_role [OF h(1)]
  have r1: "currentTerm r1 = t" "r_state r1 = Follower" "r_log r1 = log_of (merge_log es' (?k - 1) (drop (?k - 1) es))" "ident r1 = ident (nodes s p)"
    using role(1,2) p(1,4) a(2) log_of_is(2) [OF h(2)] h(4) by (auto simp: sits_def ents_def)
  have rt: "\<not> currentTerm ?r < aer_Term reply" using reply_term [OF h(1)] p(1,4) n(1) a(2) by (simp add: sits_def)
  obtain r2 where r2: "replicateReply raft_ok ?r p args reply = Ok r2" "sits (set_node s n r2) n t Leader es" "pending r2 = resolved (pending ?r) (LastIndex (log_of es))"
    using reply_commits [OF n es(2-4) c(1) pn(1) rt a(2) h(3) ents] by blast
  have "\<not> ae_Term args < currentTerm (nodes s p)" using p(1,4) a(2) by (simp add: sits_def)
  from handleAppendEntries_effect [OF h(1) this] have "proposals r1 = proposals (nodes s p)" "doneCh r1 = doneCh (nodes s p)" by (auto simp: heard_def follower_ok)
  moreover have "commitIndex r1 = commitIndex (nodes s p)" using handleAppendEntries_commit [OF h(1)] a(6) c(2) by auto
  ultimately have pd: "pending r1 = pending (nodes s p)" by (simp add: pending_def)
  obtain s' where "rtranclp (net_step trio) s s'" "nodes s' = (nodes s)(p := r1, n := r2)" using run_replication [OF n(2) pn(1) p(3) a(1) h(1) r2(1)] by blast
  then show ?thesis using r1 r2(2,3) p(1,3) pd by (intro exI [of _ s']) (simp add: sits_def ident_def)
qed

subsection \<open>A run with three leaders\<close>

definition cmd :: "64 word \<Rightarrow> 64 word \<Rightarrow> byte \<Rightarrow> LogEntry" where
  "cmd t i x = \<lparr>le_Term = t, le_Index = i, le_CmdType = CmdRaftPut, le_Data = EncodePutCommand [1] [x]\<rparr>"

lemma cmd_simps [simp]: "le_Term (cmd t i x) = t" "le_Index (cmd t i x) = i" "le_Data (cmd t i x) = EncodePutCommand [1] [x]" "le_CmdType (cmd t i x) = CmdRaftPut" "lentry_ok (cmd t i x)"
  by (simp_all add: cmd_def lentry_ok_def EncodePutCommand_def)

lemma cmd_inj [simp]: "EncodePutCommand [1] [x] = EncodePutCommand [1] [y] \<longleftrightarrow> x = y"
  by (simp add: EncodePutCommand_def)

lemma cmd_logs [simp]: "LastIndex (log_of [])= 0" "LastTerm (log_of []) = 0" "LastIndex (log_of (es @ [cmd t i x])) = i" "LastTerm (log_of (es @ [cmd t i x])) = t"
  "LastIndex (log_of [cmd t i x]) = i" "LastTerm (log_of [cmd t i x]) = t" "LastIndex (log_of [e, cmd t i x]) = i"
  by (simp_all add: LastIndex_def LastTerm_def)

lemma one_indexed: "indexed []" "indexed [cmd t 1 x]" "indexed [cmd t 1 x, cmd t' 2 y]"
  by (simp_all add: indexed_def less_Suc_eq)

lemma trio_start: "sits (fresh_net trio) n 0 Follower []" "pending (nodes (fresh_net trio) n) = ([], (\<lambda>_. None), 0)"
  by (simp_all add: sits_def fresh_net_def fresh_node_def pending_def)

text \<open>Node 1 leads term 1 and takes a proposal that it does not replicate.\<close>

lemma trio_first:
  "\<exists>s0 s1. net_reach trio s0 \<and> net_step trio s0 s1 \<and> Propose raft_ok (nodes s0 [1]) CmdRaftPut (EncodePutCommand [1] [100]) (g_ids s0) = (nodes s1 [1], Ok ()) \<and>
     sits s1 [1] 1 Leader [cmd 1 1 100] \<and> sits s1 [2] 1 Follower [] \<and> sits s1 [3] 0 Follower [] \<and>
     pending (nodes s1 [1]) = ([\<lparr>p_index = 1, p_id = g_ids s0\<rparr>], (\<lambda>_. None), 0) \<and> pending (nodes s1 [2]) = ([], (\<lambda>_. None), 0) \<and> g_ids s1 = Suc (g_ids s0)"
proof -
  obtain s0 where s0: "rtranclp (net_step trio) (fresh_net trio) s0" "sits s0 [1] 1 Leader []" "sits s0 [2] 1 Follower []"
    "\<forall>q. q \<noteq> [1] \<and> q \<noteq> [2] \<longrightarrow> nodes s0 q = nodes (fresh_net trio) q" "\<forall>q. pending (nodes s0 q) = pending (nodes (fresh_net trio) q)"
    using elected [OF trio_start(1) [of "[1]"] _ _ trio_start(1) [of "[2]"]] by (auto simp: trio_ok)
  have pd: "pending (nodes s0 q) = ([], (\<lambda>_. None), 0)" for q using s0(5) trio_start(2) by simp
  obtain s1 where s1: "net_step trio s0 s1" "sits s1 [1] 1 Leader [cmd 1 1 100]" "\<forall>q. q \<noteq> [1] \<longrightarrow> nodes s1 q = nodes s0 q"
    "pending (nodes s1 [1]) = (proposals (nodes s0 [1]) @ [\<lparr>p_index = 1, p_id = g_ids s0\<rparr>], doneCh (nodes s0 [1]), commitIndex (nodes s0 [1]))"
    "Propose raft_ok (nodes s0 [1]) CmdRaftPut (EncodePutCommand [1] [100]) (g_ids s0) = (nodes s1 [1], Ok ())" "g_ids s1 = Suc (g_ids s0)"
    using proposed [OF s0(2), of "cmd 1 1 100"] by (auto simp: trio_ok)
  have "net_reach trio s0" by (rule reach_star [OF s0(1) fresh_reach [OF trio_ok(1)]])
  moreover have "sits s1 [2] 1 Follower []" "sits s1 [3] 0 Follower []" using s0(3,4) s1(3) trio_start(1) [of "[3]"] by (simp_all add: sits_def)
  moreover have "pending (nodes s1 [2]) = ([], (\<lambda>_. None), 0)" using s1(3) pd by simp
  moreover have "pending (nodes s1 [1]) = ([\<lparr>p_index = 1, p_id = g_ids s0\<rparr>], (\<lambda>_. None), 0)" using s1(4) pd [of "[1]"] by (simp add: pending_def)
  ultimately show ?thesis using s1(1,2,5,6) by blast
qed

text \<open>Node 2 leads term 2, overwrites the entry on node 1 and commits its own.\<close>

lemma trio_second:
  assumes s: "sits s [1] 1 Leader [cmd 1 1 100]" "sits s [2] 1 Follower []" "sits s [3] 0 Follower []"
    "pending (nodes s [1]) = ([\<lparr>p_index = 1, p_id = i\<rparr>], (\<lambda>_. None), 0)" "pending (nodes s [2]) = ([], (\<lambda>_. None), 0)"
  shows "\<exists>s'. rtranclp (net_step trio) s s' \<and> sits s' [1] 2 Follower [cmd 2 1 101] \<and> sits s' [2] 2 Leader [cmd 2 1 101] \<and> sits s' [3] 2 Follower [] \<and>
    pending (nodes s' [1]) = ([\<lparr>p_index = 1, p_id = i\<rparr>], (\<lambda>_. None), 0) \<and> commitIndex (nodes s' [2]) = 1"
proof -
  obtain s1 where s1: "rtranclp (net_step trio) s s1" "sits s1 [2] 2 Leader []" "sits s1 [3] 2 Follower []"
    "\<forall>q. q \<noteq> [2] \<and> q \<noteq> [3] \<longrightarrow> nodes s1 q = nodes s q" "\<forall>q\<in>set (others trio [2]). nextIndex (nodes s1 [2]) q = 1" "\<forall>q. pending (nodes s1 q) = pending (nodes s q)"
    using elected [OF s(2) _ _ s(3)] by (auto simp: trio_ok)
  obtain s2 where s2: "net_step trio s1 s2" "sits s2 [2] 2 Leader [cmd 2 1 101]" "\<forall>q. q \<noteq> [2] \<longrightarrow> nodes s2 q = nodes s1 q"
    "pending (nodes s2 [2]) = (proposals (nodes s1 [2]) @ [\<lparr>p_index = 1, p_id = g_ids s1\<rparr>], doneCh (nodes s1 [2]), commitIndex (nodes s1 [2]))"
    "nextIndex (nodes s2 [2]) = nextIndex (nodes s1 [2])"
    using proposed [OF s1(2), of "cmd 2 1 101"] by (auto simp: trio_ok)
  have n: "nextIndex (nodes s2 [2]) [1] = 1" using s1(5) s2(5) by (simp add: others_def trio_def)
  have c: "commitIndex (nodes s2 [2]) = 0" using s2(4) s1(6) s(5) by (simp add: pending_def)
  have a: "sits s2 [1] 1 Leader [cmd 1 1 100]" using s(1) s1(4) s2(3) by (simp add: sits_def)
  have p1: "pending (nodes s2 [1]) = ([\<lparr>p_index = 1, p_id = i\<rparr>], (\<lambda>_. None), 0)" using s(4) s1(6) s2(3) by simp
  obtain s3 where s3: "rtranclp (net_step trio) s2 s3" "sits s3 [2] 2 Leader [cmd 2 1 101]" "sits s3 [1] 2 Follower [cmd 2 1 101]"
    "\<forall>q. q \<noteq> [2] \<and> q \<noteq> [1] \<longrightarrow> nodes s3 q = nodes s2 q" "pending (nodes s3 [1]) = pending (nodes s2 [1])" "pending (nodes s3 [2]) = resolved (pending (nodes s2 [2])) 1"
    using replicated [OF s2(2) _ a] n c p1 one_indexed by (auto simp: trio_ok)
  have "rtranclp (net_step trio) s s3" using s1(1) s2(1) s3(1) by (meson rtranclp.rtrancl_into_rtrancl rtranclp_trans)
  moreover have "sits s3 [3] 2 Follower []" using s1(3) s2(3) s3(4) by (simp add: sits_def)
  moreover have "commitIndex (nodes s3 [2]) = 1" using s3(6) by (simp add: pending_def resolved_def)
  ultimately show ?thesis using s3(2,3,5) p1 by (intro exI [of _ s3]) simp
qed

text \<open>Node 1 leads term 3 and commits an entry of its own behind the one of node 2.\<close>

lemma trio_third:
  assumes s: "sits s [1] 2 Follower [cmd 2 1 101]" "sits s [2] 2 Leader [cmd 2 1 101]" "sits s [3] 2 Follower []"
    "pending (nodes s [1]) = ([\<lparr>p_index = 1, p_id = i\<rparr>], (\<lambda>_. None), 0)" "commitIndex (nodes s [2]) = 1"
  shows "\<exists>s'. rtranclp (net_step trio) s s' \<and> sits s' [1] 3 Leader [cmd 2 1 101, cmd 3 2 102] \<and> sits s' [2] 3 Follower [cmd 2 1 101, cmd 3 2 102] \<and>
    sits s' [3] 3 Follower [] \<and> commitIndex (nodes s' [1]) = 2 \<and> commitIndex (nodes s' [2]) = 1 \<and> doneCh (nodes s' [1]) i = Some None"
proof -
  obtain s1 where s1: "rtranclp (net_step trio) s s1" "sits s1 [1] 3 Leader [cmd 2 1 101]" "sits s1 [3] 3 Follower []"
    "\<forall>q. q \<noteq> [1] \<and> q \<noteq> [3] \<longrightarrow> nodes s1 q = nodes s q" "\<forall>q\<in>set (others trio [1]). nextIndex (nodes s1 [1]) q = 2" "\<forall>q. pending (nodes s1 q) = pending (nodes s q)"
    using elected [OF s(1) _ _ s(3)] by (auto simp: trio_ok)
  obtain s2 where s2: "net_step trio s1 s2" "sits s2 [1] 3 Leader [cmd 2 1 101, cmd 3 2 102]" "\<forall>q. q \<noteq> [1] \<longrightarrow> nodes s2 q = nodes s1 q"
    "pending (nodes s2 [1]) = (proposals (nodes s1 [1]) @ [\<lparr>p_index = 2, p_id = g_ids s1\<rparr>], doneCh (nodes s1 [1]), commitIndex (nodes s1 [1]))"
    "nextIndex (nodes s2 [1]) = nextIndex (nodes s1 [1])"
    using proposed [OF s1(2), of "cmd 3 2 102"] by (auto simp: trio_ok)
  have n: "nextIndex (nodes s2 [1]) [2] = 2" using s1(5) s2(5) by (simp add: others_def trio_def)
  have p1: "pending (nodes s2 [1]) = ([\<lparr>p_index = 1, p_id = i\<rparr>, \<lparr>p_index = 2, p_id = g_ids s1\<rparr>], (\<lambda>_. None), 0)" using s2(4) s1(6) s(4) by (simp add: pending_def)
  have c: "commitIndex (nodes s2 [1]) = 0" using p1 by (simp add: pending_def)
  have b: "sits s2 [2] 2 Leader [cmd 2 1 101]" "commitIndex (nodes s2 [2]) = 1" using s(2,5) s1(4) s2(3) by (simp_all add: sits_def)
  obtain s3 where s3: "rtranclp (net_step trio) s2 s3" "sits s3 [1] 3 Leader [cmd 2 1 101, cmd 3 2 102]" "sits s3 [2] 3 Follower [cmd 2 1 101, cmd 3 2 102]"
    "\<forall>q. q \<noteq> [1] \<and> q \<noteq> [2] \<longrightarrow> nodes s3 q = nodes s2 q" "pending (nodes s3 [2]) = pending (nodes s2 [2])" "pending (nodes s3 [1]) = resolved (pending (nodes s2 [1])) 2"
    using replicated [OF s2(2) _ b(1)] n c b(2) one_indexed by (auto simp: trio_ok)
  have "rtranclp (net_step trio) s s3" using s1(1) s2(1) s3(1) by (meson rtranclp.rtrancl_into_rtrancl rtranclp_trans)
  moreover have "sits s3 [3] 3 Follower []" using s1(3) s2(3) s3(4) by (simp add: sits_def)
  moreover have "commitIndex (nodes s3 [1]) = 2" "doneCh (nodes s3 [1]) i = Some None" using s3(6) p1 by (simp_all add: pending_def resolved_def send_done_def)
  moreover have "commitIndex (nodes s3 [2]) = 1" using s3(5) b(2) by (simp add: pending_def)
  ultimately show ?thesis using s3(2,3) by (intro exI [of _ s3]) simp
qed

subsection \<open>Properties\<close>

text \<open>C11. A proposal is reported as committed although its command is lost. A node that loses the leadership
  keeps its pending proposals. When it leads again, the commit of any entry at or behind their index
  resolves them with success, also when another leader has replaced the entry. Proposals are numbered, so that no other
  has the channel of this one: in this run the client
  that proposed the value 100 for a key is told that it was committed, and no log holds it.\<close>

theorem raft_lost_proposal_acknowledged:
  "\<exists>s0 s1 s2 i. net_reach trio s0 \<and> i = g_ids s0 \<and> net_step trio s0 s1 \<and> g_ids s1 = Suc i \<and>
     Propose raft_ok (nodes s0 [1]) CmdRaftPut (EncodePutCommand [1] [100]) i = (nodes s1 [1], Ok ()) \<and>
     rtranclp (net_step trio) s1 s2 \<and> awaitProposal (nodes s2 [1]) i Done = Some (Ok ()) \<and>
     EncodePutCommand [1] [100] \<notin> le_Data ` \<Union> ((\<lambda>n. set (l_entries (r_log (nodes s2 n)))) ` members trio) \<and>
     commitIndex (nodes s2 [1]) = 2 \<and> length (l_entries (r_log (nodes s2 [1]))) = 2"
proof -
  obtain s0 s1 where a: "net_reach trio s0" "net_step trio s0 s1" "Propose raft_ok (nodes s0 [1]) CmdRaftPut (EncodePutCommand [1] [100]) (g_ids s0) = (nodes s1 [1], Ok ())"
    "sits s1 [1] 1 Leader [cmd 1 1 100]" "sits s1 [2] 1 Follower []" "sits s1 [3] 0 Follower []"
    "pending (nodes s1 [1]) = ([\<lparr>p_index = 1, p_id = g_ids s0\<rparr>], (\<lambda>_. None), 0)" "pending (nodes s1 [2]) = ([], (\<lambda>_. None), 0)" "g_ids s1 = Suc (g_ids s0)" using trio_first by blast
  obtain s' where b: "rtranclp (net_step trio) s1 s'" "sits s' [1] 2 Follower [cmd 2 1 101]" "sits s' [2] 2 Leader [cmd 2 1 101]" "sits s' [3] 2 Follower []"
    "pending (nodes s' [1]) = ([\<lparr>p_index = 1, p_id = g_ids s0\<rparr>], (\<lambda>_. None), 0)" "commitIndex (nodes s' [2]) = 1" using trio_second [OF a(4-8)] by blast
  obtain s2 where c: "rtranclp (net_step trio) s' s2" "sits s2 [1] 3 Leader [cmd 2 1 101, cmd 3 2 102]" "sits s2 [2] 3 Follower [cmd 2 1 101, cmd 3 2 102]"
    "sits s2 [3] 3 Follower []" "commitIndex (nodes s2 [1]) = 2" "doneCh (nodes s2 [1]) (g_ids s0) = Some None" using trio_third [OF b(2-6)] by blast
  have "rtranclp (net_step trio) s1 s2" using b(1) c(1) by (rule rtranclp_trans)
  moreover have "EncodePutCommand [1] [100] \<notin> le_Data ` \<Union> ((\<lambda>n. set (l_entries (r_log (nodes s2 n)))) ` members trio)" using c(2-4) by (auto simp: trio_ok sits_def)
  moreover have "awaitProposal (nodes s2 [1]) (g_ids s0) Done = Some (Ok ())" using c(6) by (simp add: awaitProposal_def)
  moreover have "length (l_entries (r_log (nodes s2 [1]))) = 2" using c(2) by (simp add: sits_def)
  ultimately show ?thesis using a(1-3,9) c(5) by (intro exI [of _ s0] exI [of _ s1] exI [of _ s2] exI [of _ "g_ids s0"]) simp
qed

subsection \<open>Instances\<close>

lemma trio_final:
  "\<exists>s. net_reach trio s \<and> sits s [1] 3 Leader [cmd 2 1 101, cmd 3 2 102] \<and> sits s [2] 3 Follower [cmd 2 1 101, cmd 3 2 102] \<and>
     commitIndex (nodes s [1]) = 2 \<and> commitIndex (nodes s [2]) = 1"
proof -
  obtain s0 s1 where a: "net_reach trio s0" "net_step trio s0 s1" "sits s1 [1] 1 Leader [cmd 1 1 100]" "sits s1 [2] 1 Follower []" "sits s1 [3] 0 Follower []"
    "pending (nodes s1 [1]) = ([\<lparr>p_index = 1, p_id = g_ids s0\<rparr>], (\<lambda>_. None), 0)" "pending (nodes s1 [2]) = ([], (\<lambda>_. None), 0)" using trio_first by blast
  obtain s' where b: "rtranclp (net_step trio) s1 s'" "sits s' [1] 2 Follower [cmd 2 1 101]" "sits s' [2] 2 Leader [cmd 2 1 101]" "sits s' [3] 2 Follower []"
    "pending (nodes s' [1]) = ([\<lparr>p_index = 1, p_id = g_ids s0\<rparr>], (\<lambda>_. None), 0)" "commitIndex (nodes s' [2]) = 1" using trio_second [OF a(3-7)] by blast
  obtain s2 where c: "rtranclp (net_step trio) s' s2" "sits s2 [1] 3 Leader [cmd 2 1 101, cmd 3 2 102]" "sits s2 [2] 3 Follower [cmd 2 1 101, cmd 3 2 102]"
    "commitIndex (nodes s2 [1]) = 2" "commitIndex (nodes s2 [2]) = 1" using trio_third [OF b(2-6)] by blast
  have "net_reach trio s2" using net_reach.Step [OF a(1,2)] b(1) c(1) reach_star by blast
  then show ?thesis using c(2-5) by blast
qed

theorem raft_log_matching_witness:
  "\<exists>s. net_reach trio s \<and> le_Term (l_entries (r_log (nodes s [1])) ! 1) = le_Term (l_entries (r_log (nodes s [2])) ! 1) \<and>
     take 2 (l_entries (r_log (nodes s [1]))) = take 2 (l_entries (r_log (nodes s [2]))) \<and> length (l_entries (r_log (nodes s [1]))) = 2"
proof -
  obtain s where s: "net_reach trio s" "sits s [1] 3 Leader [cmd 2 1 101, cmd 3 2 102]" "sits s [2] 3 Follower [cmd 2 1 101, cmd 3 2 102]" using trio_final by blast
  have l: "length (l_entries (r_log (nodes s [1]))) = 2" "length (l_entries (r_log (nodes s [2]))) = 2" "le_Term (l_entries (r_log (nodes s [1])) ! 1) = le_Term (l_entries (r_log (nodes s [2])) ! 1)"
    using s(2,3) by (simp_all add: sits_def)
  have "take (Suc 1) (l_entries (r_log (nodes s [1]))) = take (Suc 1) (l_entries (r_log (nodes s [2])))"
    by (rule raft_log_matching [OF s(1)]) (use l in \<open>simp_all add: trio_ok\<close>)
  then show ?thesis using s(1) l by (intro exI [of _ s]) (simp add: eval_nat_numeral)
qed

theorem raft_no_panic_witness:
  "\<exists>s. net_reach trio s \<and> r_state (nodes s [1]) = Leader \<and> (\<forall>p\<in>set (peers (nodes s [1])). \<exists>a. replicateTo (nodes s [1]) p = Ok a)"
proof -
  obtain s where s: "net_reach trio s" "sits s [1] 3 Leader [cmd 2 1 101, cmd 3 2 102]" using trio_final by blast
  have "[1] \<in> members trio" by (simp add: trio_ok)
  from raft_no_panic [OF s(1) this] have "\<forall>p\<in>set (peers (nodes s [1])). \<exists>a. replicateTo (nodes s [1]) p = Ok a" by (rule conjunct1)
  then show ?thesis using s by (auto simp: sits_def)
qed

theorem raft_leader_completeness_witness:
  "\<exists>s. net_reach trio s \<and> r_state (nodes s [1]) = Leader \<and> commitIndex (nodes s [2]) = 1 \<and>
     take 1 (l_entries (r_log (nodes s [1]))) = take 1 (l_entries (r_log (nodes s [2])))"
proof -
  obtain s where s: "net_reach trio s" "sits s [1] 3 Leader [cmd 2 1 101, cmd 3 2 102]" "sits s [2] 3 Follower [cmd 2 1 101, cmd 3 2 102]" "commitIndex (nodes s [2]) = 1"
    using trio_final by blast
  have m: "[1] \<in> members trio" "[2] \<in> members trio" by (simp_all add: trio_ok)
  have l: "r_state (nodes s [1]) = Leader" "currentTerm (nodes s [2]) \<le> currentTerm (nodes s [1])" using s(2,3) by (simp_all add: sits_def)
  from raft_leader_completeness [OF s(1) m(2,1) l] have "take 1 (l_entries (r_log (nodes s [1]))) = take 1 (l_entries (r_log (nodes s [2])))"
    using s(4) by (simp add: Let_def)
  then show ?thesis using s(1,4) l(1) by blast
qed

theorem raft_delivers_witness:
  "\<exists>s r'. net_reach trio s \<and> commitIndex (nodes s [1]) = 2 \<and>
     rtranclp deliver_step (nodes s [1], applying s [1], 0) (r', None, 2) \<and> applyCh r' = [cmd 2 1 101, cmd 3 2 102]"
proof -
  obtain s where s: "net_reach trio s" "sits s [1] 3 Leader [cmd 2 1 101, cmd 3 2 102]" "commitIndex (nodes s [1]) = 2" using trio_final by blast
  have m: "[1] \<in> members trio" by (simp add: trio_ok)
  have "take 2 (l_entries (r_log (nodes s [1]))) = [cmd 2 1 101, cmd 3 2 102]" using s(2) by (simp add: sits_def)
  moreover obtain r' a' k' where run: "rtranclp deliver_step (nodes s [1], applying s [1], 0) (r', a', k')" "\<forall>c. \<not> deliver_step (r', a', k') c"
    using deliver_stops [OF deliver_start [OF s(1) m le0]] by (metis prod_cases3)
  moreover have "applyCh r' = take (unat (commitIndex (nodes s [1]))) (l_entries (r_log (nodes s [1]))) \<and> k' = length (applyCh r') \<and> a' = None"
    using raft_delivers [OF s(1) m le0] run by blast
  ultimately have "applyCh r' = [cmd 2 1 101, cmd 3 2 102]" "k' = 2" "a' = None" using s(3) by simp_all
  then show ?thesis using run(1) s(1,3) by (intro exI [of _ s] exI [of _ r']) simp
qed

lemma trio_delivered:
  obtains s where "net_reach trio s" "applyCh (nodes s [1]) = [cmd 2 1 101, cmd 3 2 102]" "applyCh (nodes s [2]) = [cmd 2 1 101]"
proof -
  obtain s where s: "net_reach trio s" "sits s [1] 3 Leader [cmd 2 1 101, cmd 3 2 102]" "sits s [2] 3 Follower [cmd 2 1 101, cmd 3 2 102]"
    "commitIndex (nodes s [1]) = 2" "commitIndex (nodes s [2]) = 1" using trio_final by blast
  have m: "[1] \<in> members trio" "[2] \<in> members trio" by (simp_all add: trio_ok)
  obtain s1 where s1: "rtranclp (net_step trio) s s1" "only_applies [1] s s1" "applyCh (nodes s1 [1]) = [cmd 2 1 101, cmd 3 2 102]"
    using delivered [OF s(1) m(1)] s(2,4) by (auto simp: sits_def ents_def)
  have r1: "net_reach trio s1" by (rule reach_star [OF s1(1) s(1)])
  have "nodes s1 [2] = nodes s [2]" using s1(2) by (simp add: only_applies_def)
  then obtain s2 where s2: "rtranclp (net_step trio) s1 s2" "only_applies [2] s1 s2" "applyCh (nodes s2 [2]) = [cmd 2 1 101]"
    using delivered [OF r1 m(2)] s(3,5) by (auto simp: sits_def ents_def)
  have "applyCh (nodes s2 [1]) = [cmd 2 1 101, cmd 3 2 102]" using s1(3) s2(2) by (simp add: only_applies_def)
  then show thesis using that reach_star [OF s2(1) r1] s2(3) by blast
qed

theorem raft_state_machine_safety_witness:
  "\<exists>s. net_reach trio s \<and> applyCh (nodes s [1]) = [cmd 2 1 101, cmd 3 2 102] \<and> applyCh (nodes s [2]) = [cmd 2 1 101] \<and> prefix (applyCh (nodes s [2])) (applyCh (nodes s [1]))"
proof -
  obtain s where s: "net_reach trio s" "applyCh (nodes s [1]) = [cmd 2 1 101, cmd 3 2 102]" "applyCh (nodes s [2]) = [cmd 2 1 101]" by (rule trio_delivered)
  have m: "[1] \<in> members trio" "[2] \<in> members trio" by (simp_all add: trio_ok)
  from raft_state_machine_safety [OF s(1) m] have "prefix (applyCh (nodes s [2])) (applyCh (nodes s [1]))" using s(2,3) by simp
  then show ?thesis using s by blast
qed

end
