(* ===== verification/Node.thy ===== *)
theory Node
  imports Engine_Steps Raft_Faults
begin

text \<open>
  A replicated node (\<open>raft/node.go\<close>): a Raft instance and the engine its committed entries are applied to. The
  apply loop of the node takes the entries from the channel \<open>applyCh\<close> in order; an engine error is
  dropped there, and so is an entry of an unknown type. The theory composes the theorems on the
  cluster with those on the engine: replicas that have applied the same number of entries read the
  same, also when a node has been restarted, its log was delivered to it from the start again and it has caught
  up with what it had applied before.
\<close>

subsection \<open>Operations\<close>

record Node =
  nd_raft :: Raft
  nd_eng :: "Engine option"
  nd_closed :: bool

definition NewNodeWithConfig :: "new_env \<Rightarrow> gostring \<Rightarrow> gostring list \<Rightarrow> gostring \<Rightarrow> bytes \<Rightarrow> bytes option \<Rightarrow> Node res" where
  "NewNodeWithConfig io i ps ad logContent state =
     (case NewRaftWithConfig io i ps ad logContent state of
        Panic \<Rightarrow> Panic
      | Err e \<Rightarrow> Err (''node: create raft: '' @ e)
      | Ok r \<Rightarrow> Ok \<lparr>nd_raft = r, nd_eng = None, nd_closed = False\<rparr>)"

text \<open>\<open>Raft.Start\<close>: \<open>registered\<close> is whether the transport accepted the service. \<open>time.NewTicker\<close> panics unless the interval
  is positive.\<close>

definition Raft_Start :: "bool \<Rightarrow> Config \<Rightarrow> 64 word \<Rightarrow> unit res" where
  "Raft_Start registered cfg rnd =
     (if \<not> registered then Err ''transport: register: ''
      else res_bind (randomElectionTimeout cfg rnd) (\<lambda>_. if sint (HeartbeatInterval cfg) \<le> 0 then Panic else Ok ()))"

record start_env =
  se_open :: open_env
  se_registered :: bool
  se_config :: Config
  se_rnd :: "64 word"

text \<open>\<open>engine.Options\<close> with the directory only: the zero values become the defaults. The files of the directory are
  the arguments, as for \<open>Engine_Open\<close>. \<open>eng.Close\<close> after a failed start is left out, the node is dropped then.\<close>

definition zero_options :: Options where
  "zero_options = \<lparr>MemtableSize = 0, L0CompactTrigger = 0, MaxLevels = 0, BlockSize = 0\<rparr>"

definition Node_Start :: "start_env \<Rightarrow> dir \<Rightarrow> (string \<Rightarrow> bytes option) \<Rightarrow> bytes \<Rightarrow> Node \<Rightarrow> Node res" where
  "Node_Start io d files mf n =
     (case snd (Engine_Open (se_open io) zero_options d files mf) of
        Panic \<Rightarrow> Panic
      | Err e \<Rightarrow> Err (''node: open engine: '' @ e)
      | Ok e \<Rightarrow>
          (case Raft_Start (se_registered io) (se_config io) (se_rnd io) of
             Panic \<Rightarrow> Panic
           | Err m \<Rightarrow> Err (''node: start raft: '' @ m)
           | Ok _ \<Rightarrow> Ok (n\<lparr>nd_eng := Some e\<rparr>)))"

text \<open>One entry. The decoders panic on malformed data; the results of the engine are dropped.\<close>

definition applyEntry :: "write_env \<Rightarrow> Engine \<Rightarrow> LogEntry \<Rightarrow> Engine res" where
  "applyEntry io e entry =
     (let ignore = (\<lambda>x. case x of (e', Panic) \<Rightarrow> Panic | (e', Err _) \<Rightarrow> Ok e' | (e', Ok _) \<Rightarrow> Ok e') in
      if le_CmdType entry = CmdRaftPut
      then res_bind (DecodePutCommand (le_Data entry)) (\<lambda>(k, v). ignore (Engine_Put io e k (Some v)))
      else if le_CmdType entry = CmdRaftDelete
      then res_bind (DecodeDeleteCommand (le_Data entry)) (\<lambda>k. ignore (Engine_Delete io e k))
      else if le_CmdType entry = CmdRaftBatchPut
      then res_bind (DecodeBatchPutCommand (le_Data entry)) (\<lambda>(keys, vs). ignore (Engine_BatchPut io e keys (map Some vs)))
      else Ok e)"

text \<open>The apply loop over the entries it receives before \<open>closeCh\<close> is closed.\<close>

fun engineApplyLoop :: "(nat \<Rightarrow> write_env) \<Rightarrow> Engine \<Rightarrow> LogEntry list \<Rightarrow> Engine res" where
  "engineApplyLoop io e [] = Ok e"
| "engineApplyLoop io e (entry # es) = res_bind (applyEntry (io 0) e entry) (\<lambda>e'. engineApplyLoop (\<lambda>i. io (Suc i)) e' es)"

text \<open>\<open>Stop\<close> closes \<open>closeCh\<close> and therefore panics when called again; \<open>None\<close> is a close of the engine that does not return.\<close>

definition Node_Stop :: "bool \<Rightarrow> close_env \<Rightarrow> Node \<Rightarrow> (Node \<times> string option) res option" where
  "Node_Stop logClosed io n =
     (if nd_closed n then Some Panic
      else let n1 = n\<lparr>nd_closed := True, nd_raft := Raft_Stop logClosed (nd_raft n)\<rparr>
           in case nd_eng n1 of
                None \<Rightarrow> Some (Ok (n1, None))
              | Some e \<Rightarrow>
                  (case Engine_Close io e of
                     None \<Rightarrow> None
                   | Some (e', err) \<Rightarrow> Some (Ok (n1\<lparr>nd_eng := Some e'\<rparr>, err))))"

lemma Node_Stop_twice:
  assumes "Node_Stop l io n = Some (Ok (n', err))" shows "Node_Stop l' io' n' = Some Panic"
  using assms by (auto simp: Node_Stop_def Let_def split: if_splits option.splits)

subsection \<open>The writes of an entry\<close>

definition entry_writes :: "LogEntry \<Rightarrow> (bytes \<times> bytes option) list res" where
  "entry_writes entry =
     (if le_CmdType entry = CmdRaftPut then res_bind (DecodePutCommand (le_Data entry)) (\<lambda>(k, v). Ok [(k, Some v)])
      else if le_CmdType entry = CmdRaftDelete then res_bind (DecodeDeleteCommand (le_Data entry)) (\<lambda>k. Ok [(k, None)])
      else if le_CmdType entry = CmdRaftBatchPut then res_bind (DecodeBatchPutCommand (le_Data entry)) (\<lambda>(keys, vs). Ok (zip keys (map Some vs)))
      else Ok [])"

definition writes_of :: "LogEntry \<Rightarrow> (bytes \<times> bytes option) list" where
  "writes_of entry = (case entry_writes entry of Ok kvs \<Rightarrow> kvs | _ \<Rightarrow> [])"

definition log_map :: "LogEntry list \<Rightarrow> bytes \<Rightarrow> bytes option" where
  "log_map es = abs_write (\<lambda>_. None) (concat (map writes_of es))"

text \<open>An entry that the code proposes decodes, and its writes fit.\<close>

definition entry_fits :: "(nat \<Rightarrow> coins) \<Rightarrow> Engine \<Rightarrow> LogEntry \<Rightarrow> bool" where
  "entry_fits c e entry \<longleftrightarrow> is_Ok (entry_writes entry) \<and> write_fits c e (writes_of entry)"

lemma abs_write_append: "abs_write a (kvs @ kvs') = abs_write (abs_write a kvs) kvs'"
  by (auto simp: abs_write_def fun_eq_iff map_add_def split: option.splits)

lemma decodeBatch_length: "decodeBatch n data off = Ok (ks, vs) \<Longrightarrow> length ks = length vs"
  by (induction n arbitrary: off ks vs) (auto simp: Let_def res_bind_Ok_iff split: prod.splits)

lemma applyEntry_step:
  assumes "eng_reach s" "entry_fits c (s_eng s) entry" "applyEntry (write_ok c) (s_eng s) entry = Ok e'"
  shows "eng_reach (s\<lparr>s_eng := e', s_abs := abs_write (s_abs s) (writes_of entry)\<rparr>)"
proof -
  have fits: "write_fits c (s_eng s) (writes_of entry)" "is_Ok (entry_writes entry)" using assms(2) by (auto simp: entry_fits_def)
  consider (Put) "le_CmdType entry = CmdRaftPut" | (Delete) "le_CmdType entry = CmdRaftDelete" | (Batch) "le_CmdType entry = CmdRaftBatchPut"
    | (Other) "le_CmdType entry \<notin> {CmdRaftPut, CmdRaftDelete, CmdRaftBatchPut}" by blast
  then show ?thesis
  proof cases
    case Put
    then obtain k v where d: "DecodePutCommand (le_Data entry) = Ok (k, v)" using assms(3) by (auto simp: applyEntry_def res_bind_Ok_iff)
    then have w: "writes_of entry = [(k, Some v)]" using Put by (simp add: writes_of_def entry_writes_def)
    obtain r where "Engine_Put (write_ok c) (s_eng s) k (Some v) = (e', r)"
      using assms(3) Put d by (auto simp: applyEntry_def split: prod.splits res.splits)
    then show ?thesis using eng_reach.Step [OF assms(1) eng_step.Put] fits(1) w by simp
  next
    case Delete
    then obtain k where d: "DecodeDeleteCommand (le_Data entry) = Ok k" using assms(3)
      by (auto simp: applyEntry_def res_bind_Ok_iff CmdRaftPut_def CmdRaftDelete_def)
    then have w: "writes_of entry = [(k, None)]" using Delete by (simp add: writes_of_def entry_writes_def CmdRaftPut_def CmdRaftDelete_def)
    obtain r where "Engine_Delete (write_ok c) (s_eng s) k = (e', r)"
      using assms(3) Delete d by (auto simp: applyEntry_def CmdRaftPut_def CmdRaftDelete_def split: prod.splits res.splits)
    then show ?thesis using eng_reach.Step [OF assms(1) eng_step.Delete] fits(1) w by simp
  next
    case Batch
    then obtain ks vs where d: "DecodeBatchPutCommand (le_Data entry) = Ok (ks, vs)" using assms(3)
      by (auto simp: applyEntry_def res_bind_Ok_iff CmdRaftPut_def CmdRaftDelete_def CmdRaftBatchPut_def)
    then have w: "writes_of entry = zip ks (map Some vs)" "length ks = length (map Some vs)" using Batch decodeBatch_length
      by (auto simp: writes_of_def entry_writes_def CmdRaftPut_def CmdRaftDelete_def CmdRaftBatchPut_def DecodeBatchPutCommand_def res_bind_Ok_iff)
    obtain r where "Engine_BatchPut (write_ok c) (s_eng s) ks (map Some vs) = (e', r)"
      using assms(3) Batch d by (auto simp: applyEntry_def CmdRaftPut_def CmdRaftDelete_def CmdRaftBatchPut_def split: prod.splits res.splits)
    then show ?thesis using eng_reach.Step [OF assms(1) eng_step.BatchPut [OF w(2)]] fits(1) w(1) by simp
  next
    case Other
    then have "e' = s_eng s" "writes_of entry = []" using assms(3) by (auto simp: applyEntry_def writes_of_def entry_writes_def)
    moreover have "abs_write (s_abs s) [] = s_abs s" by (simp add: abs_write_def fun_eq_iff)
    ultimately show ?thesis using assms(1) by simp
  qed
qed

lemma put_not_Panic:
  assumes "eng_inv e" shows "snd (Engine_Put io e k (Some v)) \<noteq> Panic"
proof -
  have "mem_inv (snd (e_memtable e))" "\<not> Memtable_IsFrozen (snd (e_memtable e))" using assms by (auto simp: eng_inv_def Memtable_IsFrozen_def)
  then obtain m where "Memtable_Put (we_coins io 0) (snd (e_memtable e)) k (Some v) = Ok m" using mem.put_ok by blast
  then show ?thesis by (auto simp: Engine_Put_def Let_def split: prod.splits)
qed

subsection \<open>The life of a replica\<close>

text \<open>\<open>node_run old es s\<close>: the engine has applied the entries \<open>es\<close> since the node started, and the entries \<open>old\<close> in its
  earlier lives, with flushes, compactions and crashes of the engine in between. Raft does not store how far it has applied: after a restart
  the entries are delivered from the first on again.\<close>

inductive node_run :: "LogEntry list \<Rightarrow> LogEntry list \<Rightarrow> sys \<Rightarrow> bool" where
  Fresh: "Engine_Open (open_ok c) opts [] (\<lambda>_. None) [] = (d, Ok e) \<Longrightarrow> node_run [] [] \<lparr>s_eng = e, s_pc = FlIdle, s_abs = (\<lambda>_. None)\<rparr>"
| Apply: "node_run old es s \<Longrightarrow> entry_fits c (s_eng s) entry \<Longrightarrow> applyEntry (write_ok c) (s_eng s) entry = Ok e' \<Longrightarrow>
    node_run old (es @ [entry]) (s\<lparr>s_eng := e', s_abs := abs_write (s_abs s) (writes_of entry)\<rparr>)"
| Background: "node_run old es s \<Longrightarrow> eng_step s s' \<Longrightarrow> s_abs s' = s_abs s \<Longrightarrow> node_run old es s'"
| Reboot: "node_run old es s \<Longrightarrow>
    Engine_Open (open_ok c) (e_opts (s_eng s)) (e_waldir (s_eng s)) (e_files (s_eng s)) (mf_file (e_manifest (s_eng s))) = (d, Ok e') \<Longrightarrow>
    mem_fits (snd (e_memtable e')) \<Longrightarrow> node_run (old @ es) [] (s\<lparr>s_eng := e', s_pc := FlIdle\<rparr>)"

lemma node_run_inv: "node_run old es s \<Longrightarrow> eng_reach s \<and> s_abs s = log_map (old @ es)"
proof (induction rule: node_run.induct)
  case (Fresh c opts d e)
  then show ?case using eng_reach.Fresh by (auto simp: log_map_def abs_write_def fun_eq_iff)
next
  case (Apply old es s c entry e')
  then show ?case using applyEntry_step [of s c entry e'] by (simp add: log_map_def flip: abs_write_append append_assoc)
next
  case (Background old es s s')
  then show ?case using eng_reach.Step by metis
next
  case (Reboot old es s c d e')
  then show ?case using eng_reach.Step [OF _ eng_step.Restart] by simp
qed

lemma log_map_again:
  assumes "set old \<subseteq> set es" shows "log_map (old @ es) = log_map es"
proof
  fix k
  let ?w = "\<lambda>l. concat (map writes_of l)"
  have "map_of (rev (?w old)) k = None" if "map_of (rev (?w es)) k = None"
    using that assms by (auto simp: map_of_eq_None_iff)
  then show "log_map (old @ es) k = log_map es k" by (auto simp: log_map_def abs_write_def map_add_def split: option.splits)
qed

lemma delivered_same:
  assumes "net_reach conf s" "a \<in> members conf" "b \<in> members conf" "n \<le> length (applyCh (nodes s a))" "n \<le> length (applyCh (nodes s b))"
  shows "take n (applyCh (nodes s a)) = take n (applyCh (nodes s b))"
  using delivered_prefix [OF assms(1-3)] assms(4,5) by (auto elim!: prefixE)

text \<open>A first life of an engine: one put into a fresh engine, and the engine that reopens after it.\<close>

lemma map_of_single: "map_of xs = [k \<mapsto> v] \<Longrightarrow> distinct (map fst xs) \<Longrightarrow> xs = [(k, v)]"
proof (cases xs)
  case (Cons x ys)
  assume m: "map_of xs = [k \<mapsto> v]" "distinct (map fst xs)"
  have "fst x = k" using m(1) Cons by (cases x) (metis fun_upd_apply map_of_Cons_code(2) option.distinct(1) fst_conv)
  moreover have "map fst ys = []"
  proof (rule ccontr)
    assume "map fst ys \<noteq> []"
    then obtain y where y: "y \<in> set ys" by (metis list.set_intros(1) list.map(1) neq_Nil_conv)
    then have "map_of xs (fst y) \<noteq> None" unfolding map_of_eq_None_iff using Cons by simp
    then have "fst y = k" using m(1) by (simp split: if_splits)
    then show False using m(2) y Cons \<open>fst x = k\<close> by auto
  qed
  ultimately show ?thesis using m(1) Cons by (cases x) (auto simp: fun_eq_iff dest: spec [of _ k])
qed (auto simp: fun_eq_iff split: if_splits)

lemma put_segments:
  assumes mi: "mem_inv (snd (e_memtable e))" "\<not> frozen (snd (e_memtable e))"
    and rep: "log_rep (e_waldir e) (e_wal e) [(1, [])]" and put: "Engine_Put (write_ok c) e [1] (Some [b]) = (e', r)"
  shows "\<exists>segs. dir_rep (e_waldir e') segs \<and> concat (map snd segs) = [batchRecord ([1], Some [b])] \<and> segs \<noteq> [] \<and> fst (last segs) \<in> {1, 2}"
proof -
  let ?rec = "batchRecord ([1], Some [b])"
  have ok: "list_all rec_ok [?rec]" by (simp add: batchRecord_def rec_ok_def val_bytes_def)
  obtain d w err where app: "WAL_AppendBatch io_ok (e_waldir e) (e_wal e) [?rec] = (d, w, err)" by (metis prod_cases3)
  have "log_rep (e_waldir e) (e_wal e) ([] @ [(1, [])])" using rep by simp
  note ap = WAL_AppendBatch_rep [OF this ok app]
  have err: "err = None" and rep': "log_rep d w [(1, [?rec])]" using ap(2,3) by (simp_all add: io_ok_def)
  have fid: "fileID w = 1" and dr: "dir_rep d [(1, [?rec])]" using rep' by (simp_all add: log_rep_def)
  obtain m where m: "batchApply c (snd (e_memtable e)) [([1], Some [b])] = (m, Ok ())" using batchApply_spec [OF mi] by blast
  let ?e1 = "e\<lparr>e_waldir := d, e_wal := w, e_memtable := (fst (e_memtable e), m)\<rparr>"
  have "e' = maybeScheduleFlush io_ok ?e1"
    using Engine_Put_batch(2) [OF mi, of "write_ok c" "[1]" "[b]"] put app err m by (simp add: Engine_BatchPut_def write_ok_def Let_def)
  moreover obtain d2 w2 r2 where rot: "WAL_Rotate io_ok d w = (d2, w2, r2)" by (metis prod_cases3)
  ultimately have "e_waldir e' = d \<or> e_waldir e' = d2" by (auto simp: maybeScheduleFlush_def Let_def)
  moreover have "dir_rep d2 [(1, [?rec])] \<or> dir_rep d2 [(1, [?rec]), (2, [])]" using WAL_Rotate_rep(2) [OF rep' _ rot] fid by simp
  ultimately show ?thesis using dr by (elim disjE) fastforce+
qed

lemma reopen_put:
  assumes ei: "eng_inv e" and rep: "log_rep (e_waldir e) (e_wal e) [(1, [])]" and put: "Engine_Put (write_ok c) e [1] (Some [b]) = (e', r)"
    and dk: "disk_ok e' []" "eng_inv e'"
  shows "\<exists>d e2. Engine_Open (open_ok c') (e_opts e') (e_waldir e') (e_files e') (mf_file (e_manifest e')) = (d, Ok e2) \<and> flushCh e2 = [] \<and>
    fileID (e_wal e2) \<in> {1, 2} \<and> mem_entries (snd (e_memtable e2)) = [([1], Some [b])]"
proof -
  have mi: "mem_inv (snd (e_memtable e))" "\<not> frozen (snd (e_memtable e))" using ei by (auto simp: eng_inv_def)
  obtain segs where sg: "dir_rep (e_waldir e') segs" "concat (map snd segs) = [batchRecord ([1], Some [b])]" "segs \<noteq> []" "fst (last segs) \<in> {1, 2}"
    using put_segments [OF mi rep put] by blast
  obtain rs where mf: "manifest_is (e_manifest e') (length (e_levels e')) rs" using dk(1) by (auto simp: disk_ok_def)
  have om: "OpenManifest mf_ok (mf_file (e_manifest e')) (nat (MaxLevels (applyDefaults (e_opts e')))) = Ok (e_manifest e')"
    using OpenManifest_is [OF mf] dk(1) by (simp add: disk_ok_def)
  have dl: "disk_levels (e_files e') (mf_levels (e_manifest e')) (disk_tables e' [])" using dk(1) by (simp add: disk_ok_def)
  obtain d w e2 where o: "Engine_Open (open_ok c') (e_opts e') (e_waldir e') (e_files e') (mf_file (e_manifest e')) = (d, Ok e2)"
    "WAL_Open io_ok (e_waldir e') 0 = (d, Ok w)" "e_wal e2 = w" "flushCh e2 = []" "mem_inv (snd (e_memtable e2))"
    "map_of (mem_entries (snd (e_memtable e2))) = recs_map (concat (map snd segs))"
    using Engine_Open_ok [OF sg(1) om dl, of c'] by blast
  have "fileID w \<in> {1, 2}" using WAL_Open_rep(2) [OF sg(1) o(2)] sg(3,4) by simp
  moreover have "recs_map (concat (map snd segs)) = [[1] \<mapsto> Some [b]]"
    unfolding sg(2) by (simp add: recs_map_def batchRecord_def rec_writes_def norm_rec_def val_bytes_def)
  then have "mem_entries (snd (e_memtable e2)) = [([1], Some [b])]"
    using o(6) ksorted_distinct [OF mem.ents_sorted [OF o(5)]] by (intro map_of_single) simp_all
  ultimately show ?thesis using o(1,3,4) by blast
qed

lemma again_put:
  assumes "eng_inv e" "mem_entries (snd (e_memtable e)) = [([1], v)]"
  shows "mem_fits (fst (batchApply (\<lambda>_ _. False) (snd (e_memtable e)) [([1], Some [b])]))"
proof -
  have mi: "mem_inv (snd (e_memtable e))" "\<not> Memtable_IsFrozen (snd (e_memtable e))" using assms(1) by (auto simp: eng_inv_def Memtable_IsFrozen_def)
  obtain m where "Memtable_Put (\<lambda>_. False) (snd (e_memtable e)) [1] (Some [b]) = Ok m" "mem_entries m = [([1], Some [b])]"
    using mem.put_ok [OF mi, of "\<lambda>_. False" "[1]" "Some [b]"] assms(2) by (auto simp: assoc_put_def)
  then show ?thesis by (simp add: mem_fits_def sst_bound_def entry_size_def mem_ient_def val_bytes_def)
qed

lemma apply_cmd:
  assumes "node_run old es s" "length (flushCh (s_eng s)) < flushCap" "fileID (e_wal (s_eng s)) \<in> {1, 2}"
    and "mem_entries (snd (e_memtable (s_eng s))) \<in> {[], [([1], v)]}"
  shows "\<exists>e' r. Engine_Put (write_ok (\<lambda>_ _. False)) (s_eng s) [1] (Some [b]) = (e', r) \<and>
    node_run old (es @ [cmd t i b]) (s\<lparr>s_eng := e', s_abs := abs_write (s_abs s) [([1], Some [b])]\<rparr>)"
proof -
  let ?e = "s_eng s"
  have ei: "eng_inv ?e" using node_run_inv [OF assms(1)] sys_inv_eng [OF sys_inv_reach] by blast
  have w: "entry_writes (cmd t i b) = Ok [([1], Some [b])]" using DecodePut_Encode [of "[1]" "[b]"] by (simp add: entry_writes_def)
  have "mem_fits (fst (batchApply (\<lambda>_ _. False) (snd (e_memtable ?e)) [([1], Some [b])]))" using sample_put [OF ei] again_put [OF ei] assms(4) by auto
  then have "write_fits (\<lambda>_ _. False) ?e [([1], Some [b])]"
    using assms(2,3) by (auto simp: write_fits_def batchRecord_def rec_ok_def val_bytes_def)
  then have f: "entry_fits (\<lambda>_ _. False) ?e (cmd t i b)" "writes_of (cmd t i b) = [([1], Some [b])]" using w by (simp_all add: entry_fits_def writes_of_def)
  obtain e' q where p: "Engine_Put (write_ok (\<lambda>_ _. False)) ?e [1] (Some [b]) = (e', q)" by (metis prod.exhaust)
  have "q \<noteq> Panic" using put_not_Panic [OF ei] p by (metis snd_conv)
  then have "applyEntry (write_ok (\<lambda>_ _. False)) ?e (cmd t i b) = Ok e'"
    using p DecodePut_Encode [of "[1]" "[b]"] by (cases q) (simp_all add: applyEntry_def)
  from node_run.Apply [OF assms(1) f(1) this] show ?thesis using p f(2) by auto
qed

text \<open>Two lives of a node that applies the first entry in each of them.\<close>

lemma two_lives:
  obtains s s' where "node_run [] [cmd t i b] s" "node_run [cmd t i b] [cmd t i b] s'"
proof -
  obtain x e where x: "sample_sys x e" "s_eng x = e" "fileID (e_wal e) = 1" "flushCh e = []" "log_rep (e_waldir e) (e_wal e) [(1, [])]"
    "mem_entries (snd (e_memtable e)) = []" "eng_inv e" using sample_reach by metis
  have "node_run [] [] x" using x(1) node_run.Fresh by (auto simp: sample_sys_def)
  moreover have pc: "s_pc x = FlIdle" using x(1) by (auto simp: sample_sys_def)
  ultimately obtain e1 r1 where p: "Engine_Put (write_ok (\<lambda>_ _. False)) e [1] (Some [b]) = (e1, r1)"
    "node_run [] ([] @ [cmd t i b]) (x\<lparr>s_eng := e1, s_abs := abs_write (s_abs x) [([1], Some [b])]\<rparr>)" (is "node_run _ _ ?y")
    using apply_cmd [of "[]" "[]" x undefined b t i] x(2-4,6) by (auto simp: flushCap_def)
  have iy: "sys_inv ?y" using node_run_inv [OF p(2)] sys_inv_reach by blast
  then have dk: "disk_ok e1 []" "eng_inv e1" using pc by (simp_all add: sys_inv_def)
  obtain d e2 where o: "Engine_Open (open_ok (\<lambda>_ _. False)) (e_opts e1) (e_waldir e1) (e_files e1) (mf_file (e_manifest e1)) = (d, Ok e2)"
    "flushCh e2 = []" "fileID (e_wal e2) \<in> {1, 2}" "mem_entries (snd (e_memtable e2)) = [([1], Some [b])]"
    using reopen_put [OF x(7,5) p(1) dk] by blast
  have "mem_fits (snd (e_memtable e2))" using o(4) by (simp add: mem_fits_def sst_bound_def entry_size_def mem_ient_def val_bytes_def)
  then have "node_run [cmd t i b] [] (?y\<lparr>s_eng := e2, s_pc := FlIdle\<rparr>)" using node_run.Reboot [OF p(2)] o(1) by fastforce
  from apply_cmd [OF this, of "Some [b]" b t i] o(2-4) obtain s' where "node_run [cmd t i b] [cmd t i b] s'" by (auto simp: flushCap_def)
  then show thesis using that p(2) by fastforce
qed

subsection \<open>Properties\<close>

text \<open>C12. Replicas agree. Take two nodes of a cluster in a reachable state whose engines have applied the first \<open>n\<close>
  entries \<open>es\<close> delivered to them since they started, and the entries \<open>old\<close> in earlier lives. Each engine
  reads as the map that \<open>old\<close> followed by \<open>es\<close> describes, so a restarted node that is still being
  redelivered its log may read an older value than before. Once both have caught up, that is once \<open>es\<close>
  holds every entry of their earlier lives, both read as the one map of \<open>es\<close>. The engines run under the
  conditions of \<open>eng_step\<close>: no failing call, every write fits, and a compaction of level 0 runs only while no key is in two of its
  tables and no flushed table waits for its installation.\<close>

theorem node_replicas_agree:
  assumes "net_reach conf s" "a \<in> members conf" "b \<in> members conf" "n \<le> length (applyCh (nodes s a))" "n \<le> length (applyCh (nodes s b))"
    and "es = take n (applyCh (nodes s a))" "node_run olda es sa" "node_run oldb (take n (applyCh (nodes s b))) sb"
  shows "reads_as (s_eng sa) (log_map (olda @ es)) \<and> reads_as (s_eng sb) (log_map (oldb @ es)) \<and>
    (set olda \<union> set oldb \<subseteq> set es \<longrightarrow> reads_as (s_eng sa) (log_map es) \<and> reads_as (s_eng sb) (log_map es))"
proof -
  have run: "reads_as (s_eng x) (log_map (old @ es)) \<and> (set old \<subseteq> set es \<longrightarrow> reads_as (s_eng x) (log_map es))" if "node_run old es x" for old x
    using node_run_inv [OF that] reach_reads_as [of x] log_map_again [of old es] by metis
  have "node_run oldb es sb" using assms(6,8) delivered_same [OF assms(1-5)] by simp
  then show ?thesis using run assms(7) by simp
qed

theorem node_replicas_agree_witness:
  "\<exists>s sa sb. net_reach trio s \<and> take 1 (applyCh (nodes s [1])) = [cmd 2 1 101] \<and> take 1 (applyCh (nodes s [2])) = [cmd 2 1 101] \<and>
     node_run [cmd 2 1 101] [cmd 2 1 101] sa \<and> node_run [] [cmd 2 1 101] sb \<and>
     Engine_Get (s_eng sa) [1] = Ok (Some [101]) \<and> Engine_Get (s_eng sb) [1] = Ok (Some [101]) \<and> Engine_Get (s_eng sb) [2] = Err ErrNotFound"
proof -
  obtain s where s: "net_reach trio s" "applyCh (nodes s [1]) = [cmd 2 1 101, cmd 3 2 102]" "applyCh (nodes s [2]) = [cmd 2 1 101]" by (rule trio_delivered)
  have m: "[1] \<in> members trio" "[2] \<in> members trio" by (simp_all add: trio_ok)
  obtain sb sa where r: "node_run [] [cmd 2 1 101] sb" "node_run [cmd 2 1 101] [cmd 2 1 101] sa" by (rule two_lives)
  have "writes_of (cmd 2 1 101) = [([1], Some [101])]" using DecodePut_Encode [of "[1]" "[101]"] by (simp add: writes_of_def entry_writes_def)
  then have l: "log_map [cmd 2 1 101] = [[1] \<mapsto> [101]]" by (simp add: log_map_def abs_write_def fun_eq_iff)
  have t: "1 \<le> length (applyCh (nodes s [1]))" "1 \<le> length (applyCh (nodes s [2]))" "[cmd 2 1 101] = take 1 (applyCh (nodes s [1]))"
    "take 1 (applyCh (nodes s [2])) = [cmd 2 1 101]" using s(2,3) by simp_all
  have "reads_as (s_eng sa) [[1] \<mapsto> [101]] \<and> reads_as (s_eng sb) [[1] \<mapsto> [101]]"
    using node_replicas_agree [OF s(1) m t(1-3) r(2), of "[]" sb] r(1) unfolding t(4) l by simp
  then have "Engine_Get (s_eng sa) [1] = Ok (Some [101])" "Engine_Get (s_eng sb) [1] = Ok (Some [101])" "Engine_Get (s_eng sb) [2] = Err ErrNotFound"
    using reads_as_key(2) [of _ "[[1] \<mapsto> [101]]" "[1]" "[101]"] reads_as_key(3) [of _ "[[1] \<mapsto> [101]]" "[2]"] by simp_all
  then show ?thesis using s(1) t(3,4) r by (intro exI [of _ s] exI [of _ sa] exI [of _ sb]) simp
qed

text \<open>While a restarted node catches up it reads backwards: an engine that has applied two writes of a key and then
  gets the first of them again reads the first.\<close>

lemma node_rereads:
  assumes "node_run [cmd 1 1 10, cmd 1 2 20] [cmd 1 1 10] s"
  shows "log_map [cmd 1 1 10, cmd 1 2 20] [1] = Some [20]" "Engine_Get (s_eng s) [1] = Ok (Some [10])"
proof -
  have w: "writes_of (cmd t i y) = [([1], Some [y])]" for t i y using DecodePut_Encode [of "[1]" "[y]"] by (simp add: writes_of_def entry_writes_def)
  show "log_map [cmd 1 1 10, cmd 1 2 20] [1] = Some [20]" by (simp add: log_map_def abs_write_def w)
  have "s_abs s [1] = Some [10]" "eng_reach s" using node_run_inv [OF assms] by (simp_all add: log_map_def abs_write_def w)
  then show "Engine_Get (s_eng s) [1] = Ok (Some [10])" using reads_as_key(2) [OF reach_reads_as] by blast
qed

end
