(* ===== verification/Events.thy ===== *)
theory Events
  imports KV_Prelude
begin

text \<open>
  The event bus of the dashboard (\<open>server/events.go\<close>): subscribers are channels with a buffer of 64 events. A
  channel is a number; the bus has its queue and whether it is closed. The invariant \<open>eb_ok\<close> says that
  the channels of the subscribers are open, which is why \<open>Publish\<close> never sends on a closed channel.
\<close>

record 'd Event =
  ev_Type :: string
  ev_Data :: 'd

record 'd EventBus =
  eb_clients :: "nat set"
  eb_queue :: "nat \<Rightarrow> 'd Event list"
  eb_closed :: "nat set"
  eb_next :: nat

definition NewEventBus :: "'d EventBus" where
  "NewEventBus = \<lparr>eb_clients = {}, eb_queue = (\<lambda>_. []), eb_closed = {}, eb_next = 0\<rparr>"

definition ev_cap :: nat where "ev_cap = 64"

definition Subscribe :: "'d EventBus \<Rightarrow> 'd EventBus \<times> nat" where
  "Subscribe eb =
     (let ch = eb_next eb
      in (eb\<lparr>eb_next := Suc ch, eb_queue := (eb_queue eb)(ch := []), eb_clients := insert ch (eb_clients eb)\<rparr>, ch))"

text \<open>\<open>close\<close> panics on a closed channel.\<close>

definition Unsubscribe :: "'d EventBus \<Rightarrow> nat \<Rightarrow> 'd EventBus res" where
  "Unsubscribe eb ch =
     (if ch \<in> eb_closed eb then Panic
      else Ok (eb\<lparr>eb_clients := eb_clients eb - {ch}, eb_closed := insert ch (eb_closed eb)\<rparr>))"

text \<open>A send on a closed channel panics, on a full one the event is dropped.\<close>

definition Publish :: "'d EventBus \<Rightarrow> 'd Event \<Rightarrow> 'd EventBus res" where
  "Publish eb evt =
     (if eb_clients eb \<inter> eb_closed eb \<noteq> {} then Panic
      else Ok (eb\<lparr>eb_queue := (\<lambda>ch. if ch \<in> eb_clients eb \<and> length (eb_queue eb ch) < ev_cap
                                   then eb_queue eb ch @ [evt] else eb_queue eb ch)\<rparr>))"

text \<open>A subscriber takes the next event.\<close>

definition eb_receive :: "'d EventBus \<Rightarrow> nat \<Rightarrow> ('d EventBus \<times> 'd Event) option" where
  "eb_receive eb ch = (case eb_queue eb ch of [] \<Rightarrow> None | evt # es \<Rightarrow> Some (eb\<lparr>eb_queue := (eb_queue eb)(ch := es)\<rparr>, evt))"

subsection \<open>Invariant\<close>

definition eb_ok :: "'d EventBus \<Rightarrow> bool" where
  "eb_ok eb \<longleftrightarrow> eb_clients eb \<inter> eb_closed eb = {} \<and> (\<forall>ch\<in>eb_clients eb \<union> eb_closed eb. ch < eb_next eb) \<and>
     (\<forall>ch. length (eb_queue eb ch) \<le> ev_cap)"

lemma NewEventBus_ok: "eb_ok NewEventBus"
  by (simp add: eb_ok_def NewEventBus_def)

lemma Subscribe_ok: "eb_ok eb \<Longrightarrow> Subscribe eb = (eb', ch) \<Longrightarrow> eb_ok eb' \<and> ch \<in> eb_clients eb' \<and> ch \<notin> eb_clients eb"
  by (auto simp: eb_ok_def Subscribe_def Let_def less_Suc_eq)

lemma Unsubscribe_ok:
  assumes "eb_ok eb" "ch \<in> eb_clients eb" shows "\<exists>eb'. Unsubscribe eb ch = Ok eb' \<and> eb_ok eb' \<and> Unsubscribe eb' ch = Panic"
  using assms by (auto simp: eb_ok_def Unsubscribe_def)

lemma Publish_ok:
  assumes "eb_ok eb"
  shows "\<exists>eb'. Publish eb evt = Ok eb' \<and> eb_ok eb' \<and> (\<forall>ch\<in>eb_clients eb. length (eb_queue eb ch) < ev_cap \<longrightarrow> eb_queue eb' ch = eb_queue eb ch @ [evt])"
  using assms by (auto simp: eb_ok_def Publish_def)

lemma receive_ok:
  assumes "eb_ok eb" "eb_receive eb ch = Some (eb', evt)" shows "eb_ok eb'"
proof -
  obtain es where q: "eb_queue eb ch = evt # es" "eb' = eb\<lparr>eb_queue := (eb_queue eb)(ch := es)\<rparr>" using assms(2) by (auto simp: eb_receive_def split: list.splits)
  have l: "length (eb_queue eb c) \<le> ev_cap" for c using assms(1) by (simp add: eb_ok_def)
  then show ?thesis using assms(1) q l [of ch] by (simp add: eb_ok_def)
qed

end
