(* ===== verification/Cluster.thy ===== *)
theory Cluster
  imports Node Events
begin

text \<open>
  The cluster manager (\<open>server/cluster.go\<close>): it starts nodes on a fresh temporary directory, routes reads and
  writes to the leader, stops single nodes and stops the cluster. Strings are bytes. Every operation
  that holds the lock throughout is one function; reads and writes release it before they use the
  leader, so the state of the leader they find then is an argument. A result \<open>None\<close> is an operation that
  does not return.

  The lock itself is modelled at the end: \<open>Stop\<close> waits for the status goroutine while it holds
  the lock that this goroutine needs.
\<close>

subsection \<open>State\<close>

definition obind :: "'a res option \<Rightarrow> ('a \<Rightarrow> 'b res option) \<Rightarrow> 'b res option" where
  "obind m f = (case m of None \<Rightarrow> None | Some Panic \<Rightarrow> Some Panic | Some (Err e) \<Rightarrow> Some (Err e) | Some (Ok x) \<Rightarrow> f x)"

text \<open>The counters are \<open>int64\<close>; the rates are \<open>float64\<close> in the code, twice an integer.\<close>

record NodeMetrics =
  WritesTotal :: "64 word"
  ReadsTotal :: "64 word"
  lastWrites :: "64 word"
  lastReads :: "64 word"
  WritesPerSec :: int
  ReadsPerSec :: int

definition zero_metrics :: NodeMetrics where
  "zero_metrics = \<lparr>WritesTotal = 0, ReadsTotal = 0, lastWrites = 0, lastReads = 0, WritesPerSec = 0, ReadsPerSec = 0\<rparr>"

record NodeInfo =
  ni_ID :: gostring
  ni_State :: string
  ni_Term :: "64 word"
  ni_CommitIndex :: "64 word"
  ni_LogLength :: "64 word"
  ni_LeaderID :: gostring
  ni_KeyCount :: "64 word"
  ni_Addr :: gostring
  ni_WritesPerSec :: int
  ni_ReadsPerSec :: int
  ni_MemtableBytes :: int
  ni_SSTables :: nat

record ClusterStatus =
  cs_Running :: bool
  cs_Nodes :: "NodeInfo list"
  cs_NodeCount :: nat

datatype cluster_data = NoData | CountData nat | IdData gostring | StatusData ClusterStatus | BenchData

text \<open>\<open>cm_closed\<close> is whether \<open>closeCh\<close> is closed and \<open>cm_loop\<close> whether the status goroutine runs.\<close>

record ClusterManager =
  cm_nodes :: "Node option list"
  cm_stopped :: "gostring set"
  cm_running :: bool
  cm_baseDir :: bool
  cm_events :: "cluster_data EventBus"
  cm_keyCount :: "64 word"
  cm_closed :: bool
  cm_loop :: bool
  cm_metrics :: "gostring \<Rightarrow> NodeMetrics option"
  cm_nodeCount :: nat

definition NewClusterManager :: "cluster_data EventBus \<Rightarrow> ClusterManager" where
  "NewClusterManager events =
     \<lparr>cm_nodes = [], cm_stopped = {}, cm_running = False, cm_baseDir = False, cm_events = events, cm_keyCount = 0,
      cm_closed = False, cm_loop = False, cm_metrics = (\<lambda>_. None), cm_nodeCount = 0\<rparr>"

definition IsRunning :: "ClusterManager \<Rightarrow> bool" where
  "IsRunning cm = cm_running cm"

subsection \<open>Starting and stopping\<close>

text \<open>What the system does for each node; \<open>cl_port\<close> is the random offset of the base port.\<close>

record cluster_env =
  cl_mkdir :: bool
  cl_port :: nat
  cl_new :: "nat \<Rightarrow> new_env"
  cl_open :: "nat \<Rightarrow> open_env"
  cl_registered :: "nat \<Rightarrow> bool"
  cl_rnd :: "nat \<Rightarrow> 64 word"
  cl_close :: "nat \<Rightarrow> bool \<times> close_env"

definition node_addr :: "nat \<Rightarrow> gostring" where
  "node_addr port = str_bytes (''127.0.0.1:'' @ dec_digits port)"

definition node_name :: "nat \<Rightarrow> gostring" where
  "node_name i = str_bytes (''node-'' @ dec_digits i)"

definition cluster_config :: Config where
  "cluster_config = \<lparr>ElectionTimeoutMin = 150 * 1000000, ElectionTimeoutMax = 300 * 1000000, HeartbeatInterval = 50 * 1000000,
     ProposalTimeout = 5 * 1000000000\<rparr>"

fun createNodes :: "cluster_env \<Rightarrow> gostring list \<Rightarrow> nat list \<Rightarrow> Node list \<times> unit res" where
  "createNodes io addrs [] = ([], Ok ())"
| "createNodes io addrs (i # is) =
     (let ps = map (\<lambda>j. addrs ! j) (filter (\<lambda>j. j \<noteq> i) [0..<length addrs]) in
      case NewNodeWithConfig (cl_new io i) (node_name i) ps (addrs ! i) [] None of
        Panic \<Rightarrow> ([], Panic)
      | Err e \<Rightarrow> ([], Err (''cluster: create node '' @ dec_digits i @ '': '' @ e))
      | Ok n \<Rightarrow> (case createNodes io addrs is of (ns, r) \<Rightarrow> (n # ns, r)))"

fun startNodes :: "cluster_env \<Rightarrow> nat \<Rightarrow> Node list \<Rightarrow> Node list \<times> unit res" where
  "startNodes io i [] = ([], Ok ())"
| "startNodes io i (n # ns) =
     (case Node_Start \<lparr>se_open = cl_open io i, se_registered = cl_registered io i, se_config = cluster_config, se_rnd = cl_rnd io i\<rparr> [] (\<lambda>_. None) [] n of
        Panic \<Rightarrow> ([], Panic)
      | Err e \<Rightarrow> ([], Err (''cluster: start node '' @ dec_digits i @ '': '' @ e))
      | Ok n' \<Rightarrow> (case startNodes io (Suc i) ns of (ns', r) \<Rightarrow> (n' # ns', r)))"

fun stopNodes :: "(nat \<Rightarrow> bool \<times> close_env) \<Rightarrow> nat \<Rightarrow> Node option list \<Rightarrow> (Node option list \<times> string option) res option" where
  "stopNodes io i [] = Some (Ok ([], None))"
| "stopNodes io i (None # ns) = obind (stopNodes io (Suc i) ns) (\<lambda>(ns', err). Some (Ok (None # ns', err)))"
| "stopNodes io i (Some n # ns) =
     obind (Node_Stop (fst (io i)) (snd (io i)) n) (\<lambda>(n', err).
     obind (stopNodes io (Suc i) ns) (\<lambda>(ns', err').
       Some (Ok (Some n' # ns', if err \<noteq> None then err else err'))))"

definition StartWithNodes :: "cluster_env \<Rightarrow> int \<Rightarrow> ClusterManager \<Rightarrow> (ClusterManager \<times> string option) res option" where
  "StartWithNodes io cnt cm =
     (let count1 = (if cnt < 1 then 1 else cnt);
          count2 = (if count1 > 7 then 7 else count1);
          n = nat count2 in
      if cm_running cm then Some (Ok (cm, None))
      else if \<not> cl_mkdir io then Some (Ok (cm, Some ''cluster: create temp dir: ''))
      else let basePort = 17000 + cl_port io;
               addrs = map (\<lambda>i. node_addr (basePort + i)) [0..<n] in
      case createNodes io addrs [0..<n] of (ns, r) \<Rightarrow>
      let cm1 = cm\<lparr>cm_baseDir := True, cm_metrics := (\<lambda>i. if i \<in> node_name ` {..<length ns} then Some zero_metrics else None)\<rparr> in
      case r of
        Panic \<Rightarrow> Some Panic
      | Err e \<Rightarrow>
          obind (stopNodes (cl_close io) 0 (map Some ns)) (\<lambda>(ns', _).
            Some (Ok (cm1\<lparr>cm_nodes := ns' @ replicate (n - length ns) None\<rparr>, Some e)))
      | Ok _ \<Rightarrow>
          (case startNodes io 0 ns of (started, r') \<Rightarrow>
           case r' of
             Panic \<Rightarrow> Some Panic
           | Err e \<Rightarrow>
               obind (stopNodes (cl_close io) 0 (map Some started)) (\<lambda>(ns', _).
                 Some (Ok (cm1\<lparr>cm_nodes := ns' @ map Some (drop (length started) ns)\<rparr>, Some e)))
           | Ok _ \<Rightarrow>
               (case Publish (cm_events cm) \<lparr>ev_Type = ''cluster_started'', ev_Data = CountData n\<rparr> of
                  Ok events \<Rightarrow>
                    Some (Ok (cm1\<lparr>cm_nodes := map Some started, cm_running := True, cm_nodeCount := n, cm_stopped := {}, cm_keyCount := 0,
                                 cm_closed := False, cm_loop := True, cm_events := events\<rparr>, None))
                | _ \<Rightarrow> Some Panic)))"

definition Cluster_Start :: "cluster_env \<Rightarrow> ClusterManager \<Rightarrow> (ClusterManager \<times> string option) res option" where
  "Cluster_Start io cm = StartWithNodes io 3 cm"

text \<open>\<open>Stop\<close>, once \<open>wg.Wait\<close> has returned. A node that \<open>StopNode\<close> has stopped is stopped again.\<close>

definition Cluster_Stop :: "(nat \<Rightarrow> bool \<times> close_env) \<Rightarrow> ClusterManager \<Rightarrow> (ClusterManager \<times> string option) res option" where
  "Cluster_Stop io cm =
     (if \<not> cm_running cm then Some (Ok (cm, Some ''cluster not running''))
      else if cm_closed cm then Some Panic
      else obind (stopNodes io 0 (cm_nodes cm)) (\<lambda>(ns, err).
        case Publish (cm_events cm) \<lparr>ev_Type = ''cluster_stopped'', ev_Data = NoData\<rparr> of
          Ok events \<Rightarrow>
            Some (Ok (cm\<lparr>cm_closed := True, cm_loop := False, cm_baseDir := False, cm_nodes := [], cm_running := False, cm_stopped := {}, cm_events := events\<rparr>, err))
        | _ \<Rightarrow> Some Panic))"

text \<open>The index of the node with an id.\<close>

definition node_index :: "ClusterManager \<Rightarrow> gostring \<Rightarrow> nat option" where
  "node_index cm i = find (\<lambda>j. case cm_nodes cm ! j of None \<Rightarrow> False | Some n \<Rightarrow> nodeID (nd_raft n) = i) [0..<length (cm_nodes cm)]"

definition StopNode :: "bool \<Rightarrow> close_env \<Rightarrow> ClusterManager \<Rightarrow> gostring \<Rightarrow> (ClusterManager \<times> string option) res option" where
  "StopNode logClosed io cm i =
     (if \<not> cm_running cm then Some (Ok (cm, Some ''cluster not running''))
      else case node_index cm i of
        None \<Rightarrow> Some (Ok (cm, Some (''node '' @ bytes_str i @ '' not found'')))
      | Some j \<Rightarrow>
          if i \<in> cm_stopped cm then Some (Ok (cm, Some (''node '' @ bytes_str i @ '' already stopped'')))
          else obind (Node_Stop logClosed io (the (cm_nodes cm ! j))) (\<lambda>(n, err).
            let cm1 = cm\<lparr>cm_nodes := (cm_nodes cm)[j := Some n]\<rparr> in
            if err \<noteq> None then Some (Ok (cm1, err))
            else case Publish (cm_events cm) \<lparr>ev_Type = ''node_stopped'', ev_Data = IdData i\<rparr> of
                   Ok events \<Rightarrow> Some (Ok (cm1\<lparr>cm_stopped := insert i (cm_stopped cm), cm_events := events\<rparr>, None))
                 | _ \<Rightarrow> Some Panic))"

subsection \<open>Reads and writes\<close>

text \<open>The nodes that may lead: present, not stopped, in the role of a leader.\<close>

definition leads :: "gostring set \<Rightarrow> Raft \<Rightarrow> bool" where
  "leads stopped r \<longleftrightarrow> nodeID r \<notin> stopped \<and> IsLeader r"

definition scanLeader :: "gostring set \<Rightarrow> Raft option list \<Rightarrow> nat option" where
  "scanLeader stopped rs = find (\<lambda>j. case rs ! j of None \<Rightarrow> False | Some r \<Rightarrow> leads stopped r) [0..<length rs]"

text \<open>The polls of the waiting loop see the nodes as they are then: one list of Raft states per poll.\<close>

fun pollLeader :: "gostring set \<Rightarrow> Raft option list list \<Rightarrow> nat option" where
  "pollLeader stopped [] = None"
| "pollLeader stopped (rs # polls) = (case scanLeader stopped rs of Some j \<Rightarrow> Some j | None \<Rightarrow> pollLeader stopped polls)"

definition findLeader :: "Raft option list list \<Rightarrow> ClusterManager \<Rightarrow> nat res" where
  "findLeader polls cm =
     (case scanLeader (cm_stopped cm) (map (map_option nd_raft) (cm_nodes cm)) of
        Some j \<Rightarrow> Ok j
      | None \<Rightarrow>
          (case pollLeader (cm_stopped cm) polls of
             Some j \<Rightarrow> Ok j
           | None \<Rightarrow> Err ''no leader elected within 2s''))"

text \<open>A proposal to the leader, whose Raft instance is \<open>pe_at\<close> when the call reaches it; \<open>pe_then\<close> is what becomes of
  it until the wait ends, by \<open>pe_wakeup\<close>.\<close>

record propose_env =
  pe_polls :: "Raft option list list"
  pe_at :: Raft
  pe_raft :: raft_env
  pe_id :: nat
  pe_then :: "Raft \<Rightarrow> Raft"
  pe_wakeup :: wakeup

definition propose :: "propose_env \<Rightarrow> byte \<Rightarrow> bytes \<Rightarrow> (Raft \<times> unit res) option" where
  "propose pe ct data =
     (case Propose (pe_raft pe) (pe_at pe) ct data (pe_id pe) of
        (r, Ok _) \<Rightarrow> (let r' = pe_then pe r in map_option (\<lambda>res. (r', res)) (awaitProposal r' (pe_id pe) (pe_wakeup pe)))
      | (r, res) \<Rightarrow> Some (r, res))"

definition set_raft :: "ClusterManager \<Rightarrow> nat \<Rightarrow> Raft \<Rightarrow> ClusterManager" where
  "set_raft cm j r = cm\<lparr>cm_nodes := (cm_nodes cm)[j := map_option (\<lambda>n. n\<lparr>nd_raft := r\<rparr>) (cm_nodes cm ! j)]\<rparr>"

definition count_writes :: "ClusterManager \<Rightarrow> gostring \<Rightarrow> 64 word \<Rightarrow> ClusterManager" where
  "count_writes cm i d = cm\<lparr>cm_metrics := (cm_metrics cm)(i := map_option (\<lambda>m. m\<lparr>WritesTotal := WritesTotal m + d\<rparr>) (cm_metrics cm i))\<rparr>"

definition count_read :: "ClusterManager \<Rightarrow> gostring \<Rightarrow> ClusterManager" where
  "count_read cm i = cm\<lparr>cm_metrics := (cm_metrics cm)(i := map_option (\<lambda>m. m\<lparr>ReadsTotal := ReadsTotal m + 1\<rparr>) (cm_metrics cm i))\<rparr>"

definition Cluster_Put :: "propose_env \<Rightarrow> ClusterManager \<Rightarrow> gostring \<Rightarrow> gostring \<Rightarrow> (ClusterManager \<times> unit res) option" where
  "Cluster_Put pe cm k v =
     (if \<not> cm_running cm then Some (cm, Err ''cluster not running'')
      else case findLeader (pe_polls pe) cm of
        Panic \<Rightarrow> Some (cm, Panic)
      | Err e \<Rightarrow> Some (cm, Err e)
      | Ok j \<Rightarrow>
          (case propose pe CmdRaftPut (EncodePutCommand k v) of
             None \<Rightarrow> None
           | Some (r, Ok _) \<Rightarrow>
               (let cm1 = count_writes (set_raft cm j r) (nodeID r) 1 in Some (cm1\<lparr>cm_keyCount := cm_keyCount cm1 + 1\<rparr>, Ok ()))
           | Some (r, res) \<Rightarrow> Some (set_raft cm j r, res)))"

definition Cluster_Delete :: "propose_env \<Rightarrow> ClusterManager \<Rightarrow> gostring \<Rightarrow> (ClusterManager \<times> unit res) option" where
  "Cluster_Delete pe cm k =
     (if \<not> cm_running cm then Some (cm, Err ''cluster not running'')
      else case findLeader (pe_polls pe) cm of
        Panic \<Rightarrow> Some (cm, Panic)
      | Err e \<Rightarrow> Some (cm, Err e)
      | Ok j \<Rightarrow>
          (case propose pe CmdRaftDelete (EncodeDeleteCommand k) of
             None \<Rightarrow> None
           | Some (r, Ok _) \<Rightarrow>
               (let cm1 = count_writes (set_raft cm j r) (nodeID r) 1 in Some (cm1\<lparr>cm_keyCount := cm_keyCount cm1 - 1\<rparr>, Ok ()))
           | Some (r, res) \<Rightarrow> Some (set_raft cm j r, res)))"

definition Cluster_BatchPut :: "propose_env \<Rightarrow> ClusterManager \<Rightarrow> gostring list \<Rightarrow> gostring list \<Rightarrow> (ClusterManager \<times> unit res) option" where
  "Cluster_BatchPut pe cm ks vs =
     (if \<not> cm_running cm then Some (cm, Err ''cluster not running'')
      else case findLeader (pe_polls pe) cm of
        Panic \<Rightarrow> Some (cm, Panic)
      | Err e \<Rightarrow> Some (cm, Err e)
      | Ok j \<Rightarrow>
          if length ks \<noteq> length vs then Some (cm, Err ''keys and values length mismatch'')
          else (case EncodeBatchPutCommand ks vs of
             Panic \<Rightarrow> Some (cm, Panic)
           | Err e \<Rightarrow> Some (cm, Err e)
           | Ok data \<Rightarrow>
               (case propose pe CmdRaftBatchPut data of
                  None \<Rightarrow> None
                | Some (r, Ok _) \<Rightarrow>
                    (let cm1 = count_writes (set_raft cm j r) (nodeID r) (of_nat (length ks))
                     in Some (cm1\<lparr>cm_keyCount := cm_keyCount cm1 + of_nat (length ks)\<rparr>, Ok ()))
                | Some (r, res) \<Rightarrow> Some (set_raft cm j r, res))))"

text \<open>Reads go to the engine of the leader, as it is when they reach it. The result of \<open>Get\<close> is the value and whether it was found.\<close>

definition Cluster_Get :: "Raft option list list \<Rightarrow> Engine \<Rightarrow> ClusterManager \<Rightarrow> gostring \<Rightarrow> ClusterManager \<times> (gostring \<times> bool) res" where
  "Cluster_Get polls e cm k =
     (if \<not> cm_running cm then (cm, Err ''cluster not running'')
      else case findLeader polls cm of
        Panic \<Rightarrow> (cm, Panic)
      | Err m \<Rightarrow> (cm, Err m)
      | Ok j \<Rightarrow>
          (let cm1 = count_read cm (nodeID (nd_raft (the (cm_nodes cm ! j)))) in
           case Engine_Get e k of
             Panic \<Rightarrow> (cm, Panic)
           | Err m \<Rightarrow> (cm1, if m = ErrNotFound then Ok ([], False) else Err m)
           | Ok v \<Rightarrow> (cm1, Ok (val_bytes v, True))))"

definition Cluster_GetRange :: "Raft option list list \<Rightarrow> Engine \<Rightarrow> ClusterManager \<Rightarrow> gostring \<Rightarrow> gostring \<Rightarrow> (ClusterManager \<times> KVPair list res) option" where
  "Cluster_GetRange polls e cm lo hi =
     (if \<not> cm_running cm then Some (cm, Err ''cluster not running'')
      else case findLeader polls cm of
        Panic \<Rightarrow> Some (cm, Panic)
      | Err m \<Rightarrow> Some (cm, Err m)
      | Ok j \<Rightarrow>
          (case ReadRange e lo hi of
             None \<Rightarrow> None
           | Some ps \<Rightarrow> Some (count_read cm (nodeID (nd_raft (the (cm_nodes cm ! j)))), Ok ps)))"

subsection \<open>Status\<close>

text \<open>\<open>Status\<close> panics on a node whose engine was never opened.\<close>

definition nodeInfo :: "ClusterManager \<Rightarrow> Node \<Rightarrow> NodeInfo res" where
  "nodeInfo cm n =
     (case nd_eng n of
        None \<Rightarrow> Panic
      | Some e \<Rightarrow>
          (let rs = Raft_Status (nd_raft n); eStats = Engine_Stats e;
               m = (case cm_metrics cm (rs_NodeID rs) of None \<Rightarrow> zero_metrics | Some m \<Rightarrow> m)
           in Ok \<lparr>ni_ID = rs_NodeID rs, ni_State = (if rs_NodeID rs \<in> cm_stopped cm then ''Stopped'' else rs_State rs), ni_Term = rs_Term rs,
                  ni_CommitIndex = rs_CommitIndex rs, ni_LogLength = rs_LogLength rs, ni_LeaderID = rs_LeaderID rs, ni_KeyCount = cm_keyCount cm,
                  ni_Addr = r_addr (nd_raft n), ni_WritesPerSec = WritesPerSec m, ni_ReadsPerSec = ReadsPerSec m,
                  ni_MemtableBytes = st_MemoryBytes eStats, ni_SSTables = st_TotalSSTables eStats\<rparr>))"

definition Cluster_Status :: "ClusterManager \<Rightarrow> ClusterStatus res" where
  "Cluster_Status cm =
     (if \<not> cm_running cm then Ok \<lparr>cs_Running = False, cs_Nodes = [], cs_NodeCount = cm_nodeCount cm\<rparr>
      else res_bind (fold_res (\<lambda>infos n. case n of None \<Rightarrow> Ok infos | Some nd \<Rightarrow> res_bind (nodeInfo cm nd) (\<lambda>i. Ok (infos @ [i]))) [] (cm_nodes cm))
             (\<lambda>infos. Ok \<lparr>cs_Running = True, cs_Nodes = infos, cs_NodeCount = cm_nodeCount cm\<rparr>))"

definition tick_metrics :: "NodeMetrics \<Rightarrow> NodeMetrics" where
  "tick_metrics m =
     m\<lparr>WritesPerSec := sint (WritesTotal m - lastWrites m) * 2, ReadsPerSec := sint (ReadsTotal m - lastReads m) * 2,
       lastWrites := WritesTotal m, lastReads := ReadsTotal m\<rparr>"

text \<open>One tick of the status goroutine.\<close>

definition statusTick :: "ClusterManager \<Rightarrow> ClusterManager res" where
  "statusTick cm =
     (let cm1 = cm\<lparr>cm_metrics := (\<lambda>i. map_option tick_metrics (cm_metrics cm i))\<rparr> in
      res_bind (Cluster_Status cm1) (\<lambda>status.
      res_bind (Publish (cm_events cm1) \<lparr>ev_Type = ''status'', ev_Data = StatusData status\<rparr>) (\<lambda>events.
        Ok (cm1\<lparr>cm_events := events\<rparr>))))"

subsection \<open>The configuration of a started cluster\<close>

definition cluster_conf :: "nat \<Rightarrow> nat \<Rightarrow> conf" where
  "cluster_conf n port = map (\<lambda>i. (node_addr (port + i), node_name i)) [0..<n]"

lemma of_char_word_inject: "(of_char c :: byte) = of_char d \<longleftrightarrow> c = d"
proof
  assume "(of_char c :: byte) = of_char d"
  moreover have "unat (of_char x :: byte) = of_char x" for x
    using nat_of_char_less_256 [of x] unat_of_nat [where ?'a = 8, of "of_char x"] by (simp add: of_nat_of_char take_bit_eq_mod)
  ultimately have "(of_char c :: nat) = of_char d" by metis
  then show "c = d" by simp
qed simp

lemma str_bytes_inject: "str_bytes s = str_bytes t \<longleftrightarrow> s = t"
  unfolding str_bytes_def by (intro inj_map_eq_map injI) (simp add: of_char_word_inject)

lemma dec_digits_inject: "dec_digits m = dec_digits n \<longleftrightarrow> m = n"
  by (metis parse_digits_dec_digits)

lemma names_inject [simp]: "node_addr p = node_addr q \<longleftrightarrow> p = q" "node_name i = node_name j \<longleftrightarrow> i = j" "node_name i \<noteq> []"
  by (simp_all add: node_addr_def node_name_def str_bytes_inject dec_digits_inject) (simp add: str_bytes_def)

lemma length_node_name: "i < 10 \<Longrightarrow> length (node_name i) = 6"
  by (simp add: node_name_def str_bytes_def dec_digits.simps [of i])

lemma cluster_conf_ok: "n \<le> 7 \<Longrightarrow> conf_ok (cluster_conf n port)"
  by (auto simp: conf_ok_def cluster_conf_def distinct_map inj_on_def length_node_name)

lemma cluster_idof: "i < n \<Longrightarrow> idof (cluster_conf n port) (node_addr (port + i)) = node_name i"
proof -
  assume i: "i < n"
  have "map_of (cluster_conf n port) (node_addr (port + i)) = Some (node_name i)"
    using i by (intro map_of_is_SomeI) (auto simp: cluster_conf_def distinct_map inj_on_def)
  then show ?thesis by (simp add: idof_def)
qed

lemma cluster_others:
  "others (cluster_conf n port) (node_addr (port + i)) = map (\<lambda>j. map (\<lambda>i. node_addr (port + i)) [0..<n] ! j) (filter (\<lambda>j. j \<noteq> i) [0..<length (map (\<lambda>i. node_addr (port + i)) [0..<n])])"
proof -
  have "map (\<lambda>j. map (\<lambda>i. node_addr (port + i)) [0..<n] ! j) (filter (\<lambda>j. j \<noteq> i) [0..<n]) = map (\<lambda>j. node_addr (port + j)) (filter (\<lambda>j. j \<noteq> i) [0..<n])"
    by (intro map_cong) auto
  then show ?thesis by (simp add: others_def cluster_conf_def filter_map comp_def)
qed

lemma fresh_created:
  assumes "i < n" "cl_new io i = new_ok"
  shows "NewNodeWithConfig (cl_new io i) (node_name i) (others (cluster_conf n port) (node_addr (port + i))) (node_addr (port + i)) [] None =
    Ok \<lparr>nd_raft = fresh_node (cluster_conf n port) (node_addr (port + i)), nd_eng = None, nd_closed = False\<rparr>"
  using assms by (simp add: NewNodeWithConfig_def NewRaftWithConfig_def new_ok_def OpenLog_def log_ok_def loadState_def fresh_log log_of_def fresh_node_def cluster_idof)

lemma createNodes_ok:
  assumes "\<forall>i. cl_new io i = new_ok" "\<forall>i\<in>set is. i < n"
  shows "createNodes io (map (\<lambda>i. node_addr (port + i)) [0..<n]) is =
    (map (\<lambda>i. \<lparr>nd_raft = fresh_node (cluster_conf n port) (node_addr (port + i)), nd_eng = None, nd_closed = False\<rparr>) is, Ok ())"
  using assms(2)
proof (induction "is")
  case (Cons i "is")
  then show ?case using fresh_created [of i n io port] assms(1) by (simp add: cluster_others Let_def)
qed simp

definition started_as :: "Node \<Rightarrow> Node \<Rightarrow> bool" where
  "started_as n n' \<longleftrightarrow> nd_raft n' = nd_raft n \<and> nd_closed n' = nd_closed n \<and> (\<exists>e. nd_eng n' = Some e \<and> reads_as e (\<lambda>_. None))"

lemma Node_Start_ok:
  "\<exists>n'. Node_Start \<lparr>se_open = open_ok c, se_registered = True, se_config = cluster_config, se_rnd = rnd\<rparr> [] (\<lambda>_. None) [] n = Ok n' \<and> started_as n n'"
proof -
  obtain d e where e: "Engine_Open (open_ok c) zero_options [] (\<lambda>_. None) [] = (d, Ok e)" "eng_inv e" "\<forall>k. engine_view e k = None"
    using Engine_Open_fresh by blast
  have "reads_as e (\<lambda>_. None)" using reads_as_view [OF e(2), of "\<lambda>_. None"] e(3) by (simp add: kv_view_def fun_eq_iff)
  moreover have "Raft_Start True cluster_config rnd = Ok ()" by (simp add: Raft_Start_def randomElectionTimeout_def cluster_config_def)
  ultimately show ?thesis using e(1) by (simp add: Node_Start_def started_as_def)
qed

lemma startNodes_ok:
  assumes "\<forall>i. \<exists>c. cl_open io i = open_ok c" "\<forall>i. cl_registered io i"
  shows "\<exists>ns'. startNodes io i ns = (ns', Ok ()) \<and> list_all2 started_as ns ns'"
proof (induction ns arbitrary: i)
  case (Cons n ns)
  obtain c where c: "cl_open io i = open_ok c" using assms(1) by blast
  obtain n' where "Node_Start \<lparr>se_open = cl_open io i, se_registered = cl_registered io i, se_config = cluster_config, se_rnd = cl_rnd io i\<rparr> [] (\<lambda>_. None) [] n = Ok n'" "started_as n n'"
    using Node_Start_ok [of c "cl_rnd io i" n] assms(2) c by auto
  moreover obtain ns' where "startNodes io (Suc i) ns = (ns', Ok ())" "list_all2 started_as ns ns'" using Cons by blast
  ultimately show ?case by simp
qed simp

subsection \<open>The lock, \<open>Stop\<close> and the status goroutine\<close>

text \<open>Where the status goroutine is: in its \<open>select\<close>, before and inside the section that updates the metrics, before
  and inside \<open>Status\<close>, publishing, or returned. And where a call of \<open>Stop\<close> is: before the lock, with the lock, in \<open>wg.Wait\<close>, behind it, or returned. \<open>lk_readers\<close> counts
  the read locks, of the status goroutine and of other calls.\<close>

datatype loop_pc = LSelect | LWantMetrics | LMetrics | LWantStatus | LStatus | LPublish | LGone

datatype stop_pc = SWant | SLocked | SWait | SBusy | SDone

record locks =
  lk_writer :: bool
  lk_readers :: nat
  lk_closed :: bool
  lk_loop :: loop_pc
  lk_stop :: stop_pc

inductive loop_step :: "locks \<Rightarrow> locks \<Rightarrow> bool" where
  LoopClose: "lk_loop s = LSelect \<Longrightarrow> lk_closed s \<Longrightarrow> loop_step s (s\<lparr>lk_loop := LGone\<rparr>)"
| LoopTick: "lk_loop s = LSelect \<Longrightarrow> loop_step s (s\<lparr>lk_loop := LWantMetrics\<rparr>)"
| LoopMetrics: "lk_loop s = LWantMetrics \<Longrightarrow> \<not> lk_writer s \<Longrightarrow> loop_step s (s\<lparr>lk_loop := LMetrics, lk_readers := Suc (lk_readers s)\<rparr>)"
| LoopUnlock: "lk_loop s = LMetrics \<Longrightarrow> loop_step s (s\<lparr>lk_loop := LWantStatus, lk_readers := lk_readers s - 1\<rparr>)"
| LoopStatus: "lk_loop s = LWantStatus \<Longrightarrow> \<not> lk_writer s \<Longrightarrow> loop_step s (s\<lparr>lk_loop := LStatus, lk_readers := Suc (lk_readers s)\<rparr>)"
| LoopUnlock2: "lk_loop s = LStatus \<Longrightarrow> loop_step s (s\<lparr>lk_loop := LPublish, lk_readers := lk_readers s - 1\<rparr>)"
| LoopPublish: "lk_loop s = LPublish \<Longrightarrow> loop_step s (s\<lparr>lk_loop := LSelect\<rparr>)"

inductive stop_step :: "locks \<Rightarrow> locks \<Rightarrow> bool" where
  StopLock: "lk_stop s = SWant \<Longrightarrow> \<not> lk_writer s \<Longrightarrow> lk_readers s = 0 \<Longrightarrow> stop_step s (s\<lparr>lk_stop := SLocked, lk_writer := True\<rparr>)"
| StopClose: "lk_stop s = SLocked \<Longrightarrow> stop_step s (s\<lparr>lk_stop := SWait, lk_closed := True\<rparr>)"
| StopWait: "lk_stop s = SWait \<Longrightarrow> lk_loop s = LGone \<Longrightarrow> stop_step s (s\<lparr>lk_stop := SBusy\<rparr>)"
| StopReturn: "lk_stop s = SBusy \<Longrightarrow> stop_step s (s\<lparr>lk_stop := SDone, lk_writer := False\<rparr>)"

text \<open>The two goroutines, and the read locks of other calls.\<close>

inductive lock_step :: "locks \<Rightarrow> locks \<Rightarrow> bool" where
  Loop: "loop_step s s' \<Longrightarrow> lock_step s s'"
| Stop: "stop_step s s' \<Longrightarrow> lock_step s s'"
| ReadLock: "\<not> lk_writer s \<Longrightarrow> lock_step s (s\<lparr>lk_readers := Suc (lk_readers s)\<rparr>)"
| ReadUnlock: "1 < lk_readers s \<or> lk_readers s = 1 \<and> lk_loop s \<notin> {LMetrics, LStatus} \<Longrightarrow> lock_step s (s\<lparr>lk_readers := lk_readers s - 1\<rparr>)"

inductive_cases loop_stepE: "loop_step s s'"
inductive_cases stop_stepE: "stop_step s s'"
inductive_cases lock_stepE: "lock_step s s'"

definition lock_init :: locks where
  "lock_init = \<lparr>lk_writer = False, lk_readers = 0, lk_closed = False, lk_loop = LSelect, lk_stop = SWant\<rparr>"

definition lock_stuck :: "locks \<Rightarrow> bool" where
  "lock_stuck s \<longleftrightarrow> lk_writer s \<and> lk_readers s = 0 \<and> lk_loop s \<in> {LWantMetrics, LWantStatus} \<and> lk_stop s = SWait"

lemma stuck_stays: "lock_stuck s \<Longrightarrow> \<not> lock_step s s'"
  by (auto simp: lock_stuck_def elim!: lock_stepE loop_stepE stop_stepE)

lemma stuck_reach: "\<exists>s. rtranclp lock_step lock_init s \<and> lock_stuck s"
proof -
  let ?s1 = "lock_init\<lparr>lk_loop := LWantMetrics\<rparr>"
  let ?s2 = "?s1\<lparr>lk_stop := SLocked, lk_writer := True\<rparr>"
  let ?s3 = "?s2\<lparr>lk_stop := SWait, lk_closed := True\<rparr>"
  have "lock_step lock_init ?s1" by (rule lock_step.Loop [OF LoopTick]) (simp add: lock_init_def)
  moreover have "lock_step ?s1 ?s2" by (rule lock_step.Stop [OF StopLock]) (simp_all add: lock_init_def)
  moreover have "lock_step ?s2 ?s3" by (rule lock_step.Stop [OF StopClose]) simp
  ultimately have "rtranclp lock_step lock_init ?s3" by (meson rtranclp.rtrancl_into_rtrancl rtranclp.rtrancl_refl)
  then show ?thesis by (intro exI [of _ ?s3]) (simp add: lock_stuck_def lock_init_def)
qed

subsection \<open>Properties\<close>

text \<open>C13. What \<open>StartWithNodes\<close> starts is a cluster in the sense of the theorems on Raft: for every requested
  size it comes to between one and seven nodes, with distinct addresses and ids, each other's peers, whose
  Raft instances are the nodes of a reachable state of the step system and whose engines are empty.\<close>

theorem cluster_starts_raft:
  assumes "\<not> cm_running cm" "eb_ok (cm_events cm)" "cl_mkdir io" "\<forall>i. cl_new io i = new_ok" "\<forall>i. \<exists>c. cl_open io i = open_ok c" "\<forall>i. cl_registered io i"
  shows "\<exists>n cm' s. StartWithNodes io cnt cm = Some (Ok (cm', None)) \<and> n = nat (min 7 (max 1 cnt)) \<and> cm_running cm' \<and> length (cm_nodes cm') = n \<and>
    net_reach (cluster_conf n (17000 + cl_port io)) s \<and>
    (\<forall>i<n. \<exists>nd e. cm_nodes cm' ! i = Some nd \<and> nd_raft nd = nodes s (node_addr (17000 + cl_port io + i)) \<and> \<not> nd_closed nd \<and>
       nd_eng nd = Some e \<and> reads_as e (\<lambda>_. None))"
proof -
  define n where "n = nat (min 7 (max 1 cnt))"
  let ?port = "17000 + cl_port io"
  let ?ns = "map (\<lambda>i. \<lparr>nd_raft = fresh_node (cluster_conf n ?port) (node_addr (?port + i)), nd_eng = None, nd_closed = False\<rparr>) [0..<n]"
  have n: "nat (let c1 = if cnt < 1 then 1 else cnt in if c1 > 7 then 7 else c1) = n" by (auto simp: n_def Let_def min_def max_def)
  have c: "createNodes io (map (\<lambda>i. node_addr (?port + i)) [0..<n]) [0..<n] = (?ns, Ok ())" using createNodes_ok [OF assms(4)] by simp
  obtain ns' where st: "startNodes io 0 ?ns = (ns', Ok ())" "list_all2 started_as ?ns ns'" using startNodes_ok [OF assms(5,6)] by blast
  obtain ev where ev: "Publish (cm_events cm) \<lparr>ev_Type = ''cluster_started'', ev_Data = CountData n\<rparr> = Ok ev" using Publish_ok [OF assms(2)] by blast
  obtain cm' where run: "StartWithNodes io cnt cm = Some (Ok (cm', None))" "cm_running cm'" "cm_nodes cm' = map Some ns'"
    using assms(1,3) c st(1) ev n by (simp add: StartWithNodes_def Let_def)
  have l: "length ns' = n" using list_all2_lengthD [OF st(2)] by simp
  have "net_reach (cluster_conf n ?port) (fresh_net (cluster_conf n ?port))" by (rule fresh_reach [OF cluster_conf_ok]) (simp add: n_def)
  moreover have "\<exists>nd e. cm_nodes cm' ! i = Some nd \<and> nd_raft nd = nodes (fresh_net (cluster_conf n ?port)) (node_addr (?port + i)) \<and> \<not> nd_closed nd \<and>
      nd_eng nd = Some e \<and> reads_as e (\<lambda>_. None)" if "i < n" for i
    using list_all2_nthD [OF st(2), of i] that run(3) l by (auto simp: started_as_def fresh_net_def)
  ultimately show ?thesis using run l by (intro exI [of _ n] exI [of _ cm'] exI [of _ "fresh_net (cluster_conf n ?port)"]) (simp add: n_def)
qed

lemma stopNodes_stopped:
  assumes "j < length ns" "ns ! j = Some n" "nd_closed n" "stopNodes io i ns = Some (Ok x)" shows False
  using assms
proof (induction ns arbitrary: i j x)
  case (Cons m ns)
  show ?case
  proof (cases j)
    case 0
    then show ?thesis using Cons.prems by (simp add: obind_def Node_Stop_def)
  next
    case (Suc j')
    obtain y where "stopNodes io (Suc i) ns = Some (Ok y)"
      using Cons.prems(4) by (cases m) (auto simp: obind_def split: option.splits res.splits prod.splits)
    then show ?thesis using Cons.IH [of j' "Suc i"] Cons.prems Suc by simp
  qed
qed simp

lemma stopNodes_no_Err: "stopNodes io i ns \<noteq> Some (Err e)"
proof (induction ns arbitrary: i)
  case (Cons m ns)
  then show ?case by (cases m) (auto simp: obind_def Node_Stop_def Let_def split: option.splits res.splits prod.splits if_splits)
qed simp

text \<open>Stopping a node makes the cluster unstoppable: after \<open>StopNode\<close> has succeeded, \<open>Stop\<close> panics, because
  it closes the channel of the stopped node again, unless the engine of an earlier node does not come back from closing.\<close>

theorem cluster_stop_after_stop_node:
  assumes "StopNode logClosed io cm i = Some (Ok (cm', None))"
  shows "Cluster_Stop io' cm' = Some Panic \<or> Cluster_Stop io' cm' = None"
proof -
  obtain j n err where j: "cm_running cm" "node_index cm i = Some j" "Node_Stop logClosed io (the (cm_nodes cm ! j)) = Some (Ok (n, err))"
    "cm_nodes cm' = (cm_nodes cm)[j := Some n]" "cm_running cm'"
    using assms by (auto simp: StopNode_def obind_def Let_def split: if_splits option.splits res.splits prod.splits)
  have l: "j < length (cm_nodes cm)" using j(2) by (auto simp: node_index_def find_Some_iff)
  have "nd_closed n" using j(3) by (auto simp: Node_Stop_def Let_def split: if_splits option.splits)
  then have "stopNodes io' 0 (cm_nodes cm') \<noteq> Some (Ok y)" for y using stopNodes_stopped [of j "cm_nodes cm'" n io' 0] l j(4) by (cases y) auto
  moreover have "stopNodes io' 0 (cm_nodes cm') \<noteq> Some (Err e)" for e by (rule stopNodes_no_Err)
  ultimately have "stopNodes io' 0 (cm_nodes cm') = Some Panic \<or> stopNodes io' 0 (cm_nodes cm') = None" by (metis option.exhaust res.exhaust)
  then show ?thesis using j(5) by (auto simp: Cluster_Stop_def obind_def)
qed

theorem cluster_starts_raft_witness:
  "\<forall>close. \<exists>cm' s. StartWithNodes \<lparr>cl_mkdir = True, cl_port = 5, cl_new = \<lambda>_. new_ok, cl_open = \<lambda>_. open_ok (\<lambda>_ _. False), cl_registered = \<lambda>_. True, cl_rnd = \<lambda>_. 0, cl_close = close\<rparr> 3
      (NewClusterManager NewEventBus) = Some (Ok (cm', None)) \<and> length (cm_nodes cm') = 3 \<and> net_reach (cluster_conf 3 17005) s"
proof
  fix close
  let ?io = "\<lparr>cl_mkdir = True, cl_port = 5, cl_new = \<lambda>_. new_ok, cl_open = \<lambda>_. open_ok (\<lambda>_ _. False), cl_registered = \<lambda>_. True, cl_rnd = \<lambda>_. 0, cl_close = close\<rparr>"
  show "\<exists>cm' s. StartWithNodes ?io 3 (NewClusterManager NewEventBus) = Some (Ok (cm', None)) \<and> length (cm_nodes cm') = 3 \<and> net_reach (cluster_conf 3 17005) s"
    using cluster_starts_raft [of "NewClusterManager NewEventBus" ?io 3] NewEventBus_ok by (force simp: NewClusterManager_def)
qed

theorem cluster_stop_after_stop_node_witness:
  "\<forall>io. \<exists>cm'. StopNode True io ((NewClusterManager NewEventBus)\<lparr>cm_running := True, cm_nodes := [Some \<lparr>nd_raft = fresh_node trio [1], nd_eng = None, nd_closed = False\<rparr>]\<rparr>) [11] = Some (Ok (cm', None)) \<and>
     (Cluster_Stop (\<lambda>_. (True, io)) cm' = Some Panic \<or> Cluster_Stop (\<lambda>_. (True, io)) cm' = None)"
proof
  fix io
  let ?cm = "(NewClusterManager NewEventBus)\<lparr>cm_running := True, cm_nodes := [Some \<lparr>nd_raft = fresh_node trio [1], nd_eng = None, nd_closed = False\<rparr>]\<rparr>"
  have "\<exists>cm'. StopNode True io ?cm [11] = Some (Ok (cm', None))"
    by (simp add: StopNode_def NewClusterManager_def NewEventBus_def node_index_def fresh_node_def idof_def trio_def obind_def Node_Stop_def Publish_def Let_def)
  then show "\<exists>cm'. StopNode True io ?cm [11] = Some (Ok (cm', None)) \<and> (Cluster_Stop (\<lambda>_. (True, io)) cm' = Some Panic \<or> Cluster_Stop (\<lambda>_. (True, io)) cm' = None)"
    using cluster_stop_after_stop_node by blast
qed

text \<open>C38. \<open>Stop\<close> can deadlock: it waits for the status goroutine while it holds the lock, and that goroutine
  waits for the lock when its ticker has fired just before. Such a state is reachable, nothing moves in
  it, and \<open>Stop\<close> has not returned.\<close>

theorem cluster_stop_deadlock:
  "\<exists>s. rtranclp lock_step lock_init s \<and> lk_stop s = SWait \<and> lk_writer s \<and> (\<nexists>s'. lock_step s s')"
  using stuck_reach stuck_stays unfolding lock_stuck_def by blast

end
