(* ===== verification/Api.thy ===== *)
theory Api
  imports Client Cluster "HOL-Library.Sublist"
begin

text \<open>
  The HTTP API (\<open>server/api.go\<close>, \<open>server/http.go\<close>): the handlers as functions of the engine of the server and of its cluster
  manager. A request is its method, its query parameters and what \<open>encoding/json\<close> made of its
  body: the decoded struct, zero where nothing was decoded, and an error. A response is a status
  code and what a reader of its JSON object gets: \<open>encoding/json\<close> writes text, so every byte that is not part of valid UTF-8 arrives as
  U+FFFD. Times and rates measured by the benchmarks are left out.

  The lemmas show that the routes of the store answer as the abstract map does, that a subscriber of the event stream is sent a
  subsequence of what was published, and, in the last part, what a benchmark does to a cluster: it
  writes to the engine of the leader without a proposal.
\<close>

subsection \<open>Requests and responses\<close>

datatype http_method = GET | POST | DELETE | OPTIONS | OtherMethod

datatype api_body = ANone | AOk | AErr string | AValue gostring | ANotFound | ACount nat | APairs "(gostring \<times> gostring) list"
  | AStarted int | AStatus ClusterStatus | ABench nat | ACrash nat nat | AHealth | ARunning

type_synonym resp = "nat \<times> api_body"

definition jsonOK :: "api_body \<Rightarrow> resp" where "jsonOK b = (200, b)"

definition jsonErr :: "nat \<Rightarrow> string \<Rightarrow> resp" where "jsonErr status msg = (status, AErr msg)"

record 'a json =
  js_val :: 'a
  js_err :: "string option"

text \<open>\<open>utf8.DecodeRuneInString\<close>: the number of bytes of the rune a string starts with, 0 where they are not valid UTF-8. The
  second byte of a rune has a range of its own after some first bytes.\<close>

definition utf8_cont :: "byte \<Rightarrow> bool" where
  "utf8_cont b \<longleftrightarrow> 0x80 \<le> b \<and> b \<le> 0xBF"

definition utf8_second :: "byte \<Rightarrow> byte \<Rightarrow> bool" where
  "utf8_second b0 b1 \<longleftrightarrow> (if b0 = 0xE0 then 0xA0 else if b0 = 0xF0 then 0x90 else 0x80) \<le> b1 \<and>
     b1 \<le> (if b0 = 0xED then 0x9F else if b0 = 0xF4 then 0x8F else 0xBF)"

fun rune_size :: "bytes \<Rightarrow> nat" where
  "rune_size [] = 0"
| "rune_size (b # bs) =
     (if b < 0x80 then 1
      else if 0xC2 \<le> b \<and> b \<le> 0xDF then (case bs of b1 # _ \<Rightarrow> if utf8_second b b1 then 2 else 0 | _ \<Rightarrow> 0)
      else if 0xE0 \<le> b \<and> b \<le> 0xEF then (case bs of b1 # b2 # _ \<Rightarrow> if utf8_second b b1 \<and> utf8_cont b2 then 3 else 0 | _ \<Rightarrow> 0)
      else if 0xF0 \<le> b \<and> b \<le> 0xF4 then (case bs of b1 # b2 # b3 # _ \<Rightarrow> if utf8_second b b1 \<and> utf8_cont b2 \<and> utf8_cont b3 then 4 else 0 | _ \<Rightarrow> 0)
      else 0)"

declare rune_size.simps [simp del]

text \<open>What a reader gets for a Go string in a JSON object: U+FFFD, in UTF-8, for each byte that is not part of a rune.\<close>

fun json_string :: "bytes \<Rightarrow> bytes" where
  "json_string [] = []"
| "json_string (b # bs) =
     (let n = rune_size (b # bs) in
      if n = 0 then [0xEF, 0xBF, 0xBD] @ json_string bs else take n (b # bs) @ json_string (drop (n - 1) bs))"

fun valid_utf8 :: "bytes \<Rightarrow> bool" where
  "valid_utf8 [] = True"
| "valid_utf8 (b # bs) = (let n = rune_size (b # bs) in n \<noteq> 0 \<and> valid_utf8 (drop (n - 1) bs))"

definition cors :: "http_method \<Rightarrow> 's \<Rightarrow> ('s \<Rightarrow> ('s \<times> resp) res) \<Rightarrow> ('s \<times> resp) res" where
  "cors m s nxt = (if m = OPTIONS then Ok (s, 204, ANone) else nxt s)"

subsection \<open>Operations on the engine\<close>

definition api_write :: "Engine \<times> unit res \<Rightarrow> api_body \<Rightarrow> (Engine \<times> resp) res" where
  "api_write x ok = (case x of (e', Panic) \<Rightarrow> Panic | (e', Err err) \<Rightarrow> Ok (e', jsonErr 500 err) | (e', Ok _) \<Rightarrow> Ok (e', jsonOK ok))"

definition api_handlePut :: "write_env \<Rightarrow> (gostring \<times> gostring) json \<Rightarrow> Engine \<Rightarrow> (Engine \<times> resp) res" where
  "api_handlePut io body e =
     (case js_err body of
        Some err \<Rightarrow> Ok (e, jsonErr 400 err)
      | None \<Rightarrow>
          (case js_val body of (k, v) \<Rightarrow>
           if k = [] then Ok (e, jsonErr 400 ''key is required'')
           else api_write (Engine_Put io e k (Some v)) AOk))"

definition api_handleGet :: "http_method \<Rightarrow> gostring \<Rightarrow> gostring json \<Rightarrow> Engine \<Rightarrow> (Engine \<times> resp) res" where
  "api_handleGet m query body e =
     (let k = (if m = GET then query else js_val body) in
      if k = [] then Ok (e, jsonErr 400 ''key is required'')
      else case Engine_Get e k of
             Panic \<Rightarrow> Panic
           | Err err \<Rightarrow> Ok (e, if err = ErrNotFound then (404, ANotFound) else jsonErr 500 err)
           | Ok v \<Rightarrow> Ok (e, jsonOK (AValue (json_string (val_bytes v)))))"

definition api_handleDelete :: "write_env \<Rightarrow> http_method \<Rightarrow> gostring \<Rightarrow> gostring json \<Rightarrow> Engine \<Rightarrow> (Engine \<times> resp) res" where
  "api_handleDelete io m query body e =
     (let k = (if m = GET \<or> m = DELETE then query else js_val body) in
      if k = [] then Ok (e, jsonErr 400 ''key is required'')
      else api_write (Engine_Delete io e k) AOk)"

record batch_req =
  br_keys :: "gostring list"
  br_values :: "gostring list"
  br_pairs :: "(gostring \<times> gostring) list"

definition api_handleBatch :: "write_env \<Rightarrow> batch_req json \<Rightarrow> Engine \<Rightarrow> (Engine \<times> resp) res" where
  "api_handleBatch io body e =
     (case js_err body of
        Some err \<Rightarrow> Ok (e, jsonErr 400 err)
      | None \<Rightarrow>
          (let req = js_val body in
           if length (br_keys req) > 0
           then if length (br_keys req) \<noteq> length (br_values req) then Ok (e, jsonErr 400 ''keys and values must have equal length'')
                else api_write (Engine_BatchPut io e (br_keys req) (map Some (br_values req))) (ACount (length (br_keys req)))
           else if length (br_pairs req) > 0
           then api_write (Engine_BatchPut io e (map fst (br_pairs req)) (map (\<lambda>p. Some (snd p)) (br_pairs req))) (ACount (length (br_pairs req)))
           else Ok (e, jsonErr 400 ''keys/values or pairs required'')))"

definition api_pairs :: "KVPair list \<Rightarrow> api_body" where
  "api_pairs ps = APairs (map (\<lambda>p. (json_string (kv_Key p), json_string (val_bytes (kv_Value p)))) ps)"

text \<open>A scan that does not come back is a panic here, as in the TCP server.\<close>

definition api_handleRange :: "http_method \<Rightarrow> gostring \<times> gostring \<Rightarrow> (gostring \<times> gostring) json \<Rightarrow> Engine \<Rightarrow> (Engine \<times> resp) res" where
  "api_handleRange m query body e =
     (case (if m = GET then query else js_val body) of (start, stop) \<Rightarrow>
      if start = [] \<or> stop = [] then Ok (e, jsonErr 400 ''start and end are required'')
      else case ReadRange e start stop of
             None \<Rightarrow> Panic
           | Some ps \<Rightarrow> Ok (e, jsonOK (api_pairs ps)))"

text \<open>The routes of the store (\<open>/api/put\<close>, \<open>/api/get\<close>, \<open>/api/delete\<close>, \<open>/api/batch\<close> with \<open>/api/batch-put\<close>, \<open>/api/range\<close>), each behind
  \<open>cors\<close>: the query parameters, where the handler reads them, and the body.\<close>

datatype api_req =
    ReqPut "(gostring \<times> gostring) json"
  | ReqGet gostring "gostring json"
  | ReqDelete gostring "gostring json"
  | ReqBatch "batch_req json"
  | ReqRange "gostring \<times> gostring" "(gostring \<times> gostring) json"

fun api_serve :: "write_env \<Rightarrow> http_method \<Rightarrow> api_req \<Rightarrow> Engine \<Rightarrow> (Engine \<times> resp) res" where
  "api_serve io m (ReqPut body) e = cors m e (api_handlePut io body)"
| "api_serve io m (ReqGet query body) e = cors m e (api_handleGet m query body)"
| "api_serve io m (ReqDelete query body) e = cors m e (api_handleDelete io m query body)"
| "api_serve io m (ReqBatch body) e = cors m e (api_handleBatch io body)"
| "api_serve io m (ReqRange query body) e = cors m e (api_handleRange m query body)"

definition handleHealth :: resp where "handleHealth = (200, AHealth)"

definition handleStats :: resp where "handleStats = (200, ARunning)"

subsection \<open>Operations on the cluster\<close>

definition api_cluster_write :: "ClusterManager \<Rightarrow> (ClusterManager \<times> unit res) option \<Rightarrow> api_body \<Rightarrow> (ClusterManager \<times> resp) res option" where
  "api_cluster_write cm x ok =
     (case x of
        None \<Rightarrow> None
      | Some (cm', Panic) \<Rightarrow> Some Panic
      | Some (cm', Err err) \<Rightarrow> Some (Ok (cm', jsonErr 500 err))
      | Some (cm', Ok _) \<Rightarrow> Some (Ok (cm', jsonOK ok)))"

definition api_lifecycle :: "(ClusterManager \<times> string option) res option \<Rightarrow> api_body \<Rightarrow> (ClusterManager \<times> resp) res option" where
  "api_lifecycle x ok = obind x (\<lambda>(cm', err). Some (Ok (cm', case err of Some m \<Rightarrow> jsonErr 500 m | None \<Rightarrow> jsonOK ok)))"

text \<open>The answer repeats the requested number of nodes, not the number started.\<close>

definition handleClusterStart :: "cluster_env \<Rightarrow> int json \<Rightarrow> ClusterManager \<Rightarrow> (ClusterManager \<times> resp) res option" where
  "handleClusterStart io body cm =
     (let n = (if js_val body \<le> 0 then 3 else js_val body) in api_lifecycle (StartWithNodes io n cm) (AStarted n))"

definition handleClusterStop :: "(nat \<Rightarrow> bool \<times> close_env) \<Rightarrow> ClusterManager \<Rightarrow> (ClusterManager \<times> resp) res option" where
  "handleClusterStop io cm = api_lifecycle (Cluster_Stop io cm) AOk"

definition handleClusterStatus :: "ClusterManager \<Rightarrow> resp res" where
  "handleClusterStatus cm = res_bind (Cluster_Status cm) (\<lambda>st. Ok (jsonOK (AStatus st)))"

definition handleClusterPut :: "propose_env \<Rightarrow> (gostring \<times> gostring) json \<Rightarrow> ClusterManager \<Rightarrow> (ClusterManager \<times> resp) res option" where
  "handleClusterPut pe body cm =
     (case js_err body of
        Some err \<Rightarrow> Some (Ok (cm, jsonErr 400 err))
      | None \<Rightarrow>
          (case js_val body of (k, v) \<Rightarrow>
           if k = [] then Some (Ok (cm, jsonErr 400 ''key is required'')) else api_cluster_write cm (Cluster_Put pe cm k v) AOk))"

definition handleClusterGet :: "Raft option list list \<Rightarrow> Engine \<Rightarrow> gostring json \<Rightarrow> ClusterManager \<Rightarrow> (ClusterManager \<times> resp) res" where
  "handleClusterGet polls e body cm =
     (case js_err body of
        Some err \<Rightarrow> Ok (cm, jsonErr 400 err)
      | None \<Rightarrow>
          if js_val body = [] then Ok (cm, jsonErr 400 ''key is required'')
          else (case Cluster_Get polls e cm (js_val body) of
                  (cm', Panic) \<Rightarrow> Panic
                | (cm', Err err) \<Rightarrow> Ok (cm', jsonErr 500 err)
                | (cm', Ok (v, found)) \<Rightarrow> Ok (cm', if found then jsonOK (AValue (json_string v)) else (404, ANotFound))))"

definition handleClusterDelete :: "propose_env \<Rightarrow> gostring json \<Rightarrow> ClusterManager \<Rightarrow> (ClusterManager \<times> resp) res option" where
  "handleClusterDelete pe body cm =
     (case js_err body of
        Some err \<Rightarrow> Some (Ok (cm, jsonErr 400 err))
      | None \<Rightarrow>
          if js_val body = [] then Some (Ok (cm, jsonErr 400 ''key is required''))
          else api_cluster_write cm (Cluster_Delete pe cm (js_val body)) AOk)"

definition handleClusterBatch :: "propose_env \<Rightarrow> (gostring list \<times> gostring list) json \<Rightarrow> ClusterManager \<Rightarrow> (ClusterManager \<times> resp) res option" where
  "handleClusterBatch pe body cm =
     (case js_err body of
        Some err \<Rightarrow> Some (Ok (cm, jsonErr 400 err))
      | None \<Rightarrow>
          (case js_val body of (ks, vs) \<Rightarrow>
           if ks = [] then Some (Ok (cm, jsonErr 400 ''keys are required''))
           else if length ks \<noteq> length vs then Some (Ok (cm, jsonErr 400 ''keys and values must have equal length''))
           else api_cluster_write cm (Cluster_BatchPut pe cm ks vs) (ACount (length ks))))"

definition handleClusterRange :: "Raft option list list \<Rightarrow> Engine \<Rightarrow> (gostring \<times> gostring) json \<Rightarrow> ClusterManager \<Rightarrow> (ClusterManager \<times> resp) res option" where
  "handleClusterRange polls e body cm =
     (case js_err body of
        Some err \<Rightarrow> Some (Ok (cm, jsonErr 400 err))
      | None \<Rightarrow>
          (case js_val body of (start, stop) \<Rightarrow>
           if start = [] \<or> stop = [] then Some (Ok (cm, jsonErr 400 ''start and end are required''))
           else (case Cluster_GetRange polls e cm start stop of
                   None \<Rightarrow> None
                 | Some (cm', Panic) \<Rightarrow> Some Panic
                 | Some (cm', Err err) \<Rightarrow> Some (Ok (cm', jsonErr 500 err))
                 | Some (cm', Ok ps) \<Rightarrow> Some (Ok (cm', jsonOK (api_pairs ps))))))"

definition handleClusterStopNode :: "bool \<Rightarrow> close_env \<Rightarrow> gostring json \<Rightarrow> ClusterManager \<Rightarrow> (ClusterManager \<times> resp) res option" where
  "handleClusterStopNode logClosed io body cm =
     (case js_err body of
        Some err \<Rightarrow> Some (Ok (cm, jsonErr 400 err))
      | None \<Rightarrow>
          if js_val body = [] then Some (Ok (cm, jsonErr 400 ''id is required''))
          else api_lifecycle (StopNode logClosed io cm (js_val body)) AOk)"

text \<open>The stream of events: what happens while the handler runs, in order. Others publish, the handler takes an event
  from its channel and writes it, and at last the request is cancelled and the channel unsubscribed.\<close>

datatype 'd stream_turn = Others "'d Event" | Take | Cancelled

fun streamEvents :: "nat \<Rightarrow> 'd stream_turn list \<Rightarrow> 'd EventBus \<Rightarrow> ('d EventBus \<times> 'd Event list) res" where
  "streamEvents ch [] eb = Ok (eb, [])"
| "streamEvents ch (Others evt # ts) eb = res_bind (Publish eb evt) (streamEvents ch ts)"
| "streamEvents ch (Take # ts) eb =
     (case eb_receive eb ch of
        None \<Rightarrow> streamEvents ch ts eb
      | Some (eb1, evt) \<Rightarrow> res_bind (streamEvents ch ts eb1) (\<lambda>(eb2, out). Ok (eb2, evt # out)))"
| "streamEvents ch (Cancelled # ts) eb = res_bind (Unsubscribe eb ch) (\<lambda>eb1. Ok (eb1, []))"

definition handleClusterEvents :: "bool \<Rightarrow> 'd stream_turn list \<Rightarrow> 'd EventBus \<Rightarrow> ('d EventBus \<times> nat \<times> 'd Event list) res" where
  "handleClusterEvents flusher ts eb =
     (if \<not> flusher then Ok (eb, 500, [])
      else case Subscribe eb of (eb1, ch) \<Rightarrow> res_bind (streamEvents ch ts eb1) (\<lambda>(eb2, out). Ok (eb2, 200, out)))"

subsection \<open>Benchmarks\<close>

record APIServer =
  ap_engine :: Engine
  ap_cluster :: ClusterManager

text \<open>The bus of events is shared with the cluster manager. The text of a message is left out.\<close>

definition publish_bench :: "APIServer \<Rightarrow> APIServer res" where
  "publish_bench ap =
     res_bind (Publish (cm_events (ap_cluster ap)) \<lparr>ev_Type = ''benchmark'', ev_Data = BenchData\<rparr>)
       (\<lambda>events. Ok (ap\<lparr>ap_cluster := (ap_cluster ap)\<lparr>cm_events := events\<rparr>\<rparr>))"

text \<open>Zero-padded to eight digits.\<close>

definition bkey :: "gostring \<Rightarrow> nat \<Rightarrow> gostring" where
  "bkey pfx i = (let s = dec_digits i in pfx @ str_bytes (''-'' @ replicate (8 - length s) CHR ''0'' @ s))"

text \<open>The engine to use: \<open>None\<close> for the one of the server, \<open>Some j\<close> for the one of node \<open>j\<close>.\<close>

definition benchEngine :: "Raft option list list \<Rightarrow> APIServer \<Rightarrow> nat option" where
  "benchEngine polls ap =
     (if IsRunning (ap_cluster ap)
      then (case findLeader polls (ap_cluster ap) of Ok j \<Rightarrow> Some j | _ \<Rightarrow> None)
      else None)"

definition engine_at :: "APIServer \<Rightarrow> nat option \<Rightarrow> Engine option" where
  "engine_at ap w =
     (case w of
        None \<Rightarrow> Some (ap_engine ap)
      | Some j \<Rightarrow> (case cm_nodes (ap_cluster ap) ! j of None \<Rightarrow> None | Some n \<Rightarrow> nd_eng n))"

definition set_engine :: "APIServer \<Rightarrow> nat option \<Rightarrow> Engine \<Rightarrow> APIServer" where
  "set_engine ap w e =
     (case w of
        None \<Rightarrow> ap\<lparr>ap_engine := e\<rparr>
      | Some j \<Rightarrow> ap\<lparr>ap_cluster := (ap_cluster ap)\<lparr>cm_nodes := (cm_nodes (ap_cluster ap))[j := map_option (\<lambda>n. n\<lparr>nd_eng := Some e\<rparr>) (cm_nodes (ap_cluster ap) ! j)]\<rparr>\<rparr>)"

record bench_env =
  be_polls :: "Raft option list list"
  be_write :: write_env

definition benchPut :: "bench_env \<Rightarrow> APIServer \<Rightarrow> gostring \<Rightarrow> gostring \<Rightarrow> APIServer \<times> unit res" where
  "benchPut io ap k v =
     (let w = benchEngine (be_polls io) ap in
      case engine_at ap w of
        None \<Rightarrow> (ap, Panic)
      | Some e \<Rightarrow> (case Engine_Put (be_write io) e k (Some v) of (e', r) \<Rightarrow> (set_engine ap w e', r)))"

definition benchGet :: "bench_env \<Rightarrow> APIServer \<Rightarrow> gostring \<Rightarrow> unit res" where
  "benchGet io ap k =
     (case engine_at ap (benchEngine (be_polls io) ap) of
        None \<Rightarrow> Panic
      | Some e \<Rightarrow> res_bind (Engine_Get e k) (\<lambda>_. Ok ()))"

definition benchBatchPut :: "bench_env \<Rightarrow> APIServer \<Rightarrow> gostring list \<Rightarrow> gostring list \<Rightarrow> APIServer \<times> unit res" where
  "benchBatchPut io ap ks vs =
     (let w = benchEngine (be_polls io) ap in
      if length vs < length ks then (ap, Panic)
      else case engine_at ap w of
             None \<Rightarrow> (ap, Panic)
           | Some e \<Rightarrow> (case Engine_BatchPut (be_write io) e ks (map Some (take (length ks) vs) @ replicate (length vs - length ks) None) of
                          (e', r) \<Rightarrow> (set_engine ap w e', r)))"

definition benchRange :: "bench_env \<Rightarrow> APIServer \<Rightarrow> gostring \<Rightarrow> gostring \<Rightarrow> unit res" where
  "benchRange io ap lo hi =
     (case engine_at ap (benchEngine (be_polls io) ap) of
        None \<Rightarrow> Panic
      | Some e \<Rightarrow> (case ReadRange e lo hi of None \<Rightarrow> Panic | Some _ \<Rightarrow> Ok ()))"

text \<open>The loops that write \<open>cnt\<close> keys in batches, from the \<open>i\<close>-th key on; \<open>strict\<close> says whether an error ends the loop.
  The environment of a batch is that of its first key.\<close>

function writeBatches :: "(nat \<Rightarrow> bench_env) \<Rightarrow> bool \<Rightarrow> gostring \<Rightarrow> gostring \<Rightarrow> nat \<Rightarrow> nat \<Rightarrow> nat \<Rightarrow> APIServer \<Rightarrow> APIServer \<times> unit res" where
  "writeBatches io strict pfx v batchSize cnt i ap =
     (if i < cnt \<and> 0 < batchSize
      then let sz = (if i + batchSize > cnt then cnt - i else batchSize) in
           case benchBatchPut (io i) ap (map (\<lambda>j. bkey pfx (i + j)) [0..<sz]) (replicate sz v) of
             (ap', Panic) \<Rightarrow> (ap', Panic)
           | (ap', Err e) \<Rightarrow> if strict then (ap', Err e) else writeBatches io strict pfx v batchSize cnt (i + batchSize) ap'
           | (ap', Ok _) \<Rightarrow> writeBatches io strict pfx v batchSize cnt (i + batchSize) ap'
      else (ap, Ok ()))"
  by pat_completeness auto
termination
  by (relation "measure (\<lambda>(io, strict, pfx, v, batchSize, cnt, i, ap). cnt - i)") auto

declare writeBatches.simps [simp del]

definition bench_writes :: "(nat \<Rightarrow> bench_env) \<Rightarrow> gostring \<Rightarrow> gostring \<Rightarrow> nat \<Rightarrow> APIServer \<Rightarrow> (APIServer \<times> resp) res" where
  "bench_writes io pfx v batchSize ap =
     res_bind (publish_bench ap) (\<lambda>ap1.
       case writeBatches io True pfx v batchSize 10000 0 ap1 of
         (ap2, Panic) \<Rightarrow> Panic
       | (ap2, Err e) \<Rightarrow> Ok (ap2, jsonErr 500 e)
       | (ap2, Ok _) \<Rightarrow> res_bind (publish_bench ap2) (\<lambda>ap3. Ok (ap3, jsonOK (ABench 10000))))"

definition handleBenchWrites :: "(nat \<Rightarrow> bench_env) \<Rightarrow> gostring \<Rightarrow> gostring \<Rightarrow> APIServer \<Rightarrow> (APIServer \<times> resp) res" where
  "handleBenchWrites io pfx v ap = bench_writes io pfx v 100 ap"

definition handleBenchBatch :: "(nat \<Rightarrow> bench_env) \<Rightarrow> gostring \<Rightarrow> gostring \<Rightarrow> APIServer \<Rightarrow> (APIServer \<times> resp) res" where
  "handleBenchBatch io pfx v ap = bench_writes io pfx v 200 ap"

text \<open>Errors of the reads are ignored, panics are not. \<open>rnd\<close> are the random numbers.\<close>

definition no_panic :: "unit res \<Rightarrow> unit res" where
  "no_panic r = (if r = Panic then Panic else Ok ())"

definition bench_reads :: "(nat \<Rightarrow> bench_env) \<Rightarrow> (APIServer \<Rightarrow> nat \<Rightarrow> unit res) \<Rightarrow> gostring \<Rightarrow> gostring \<Rightarrow> nat \<Rightarrow> APIServer \<Rightarrow> (APIServer \<times> resp) res" where
  "bench_reads io read pfx v cnt ap =
     res_bind (publish_bench ap) (\<lambda>ap1.
       case writeBatches io False pfx v 50 10000 0 ap1 of
         (ap2, Panic) \<Rightarrow> Panic
       | (ap2, _) \<Rightarrow>
           res_bind (publish_bench ap2) (\<lambda>ap3.
           res_bind (fold_res (\<lambda>_ i. no_panic (read ap3 i)) () [0..<cnt]) (\<lambda>_.
           res_bind (publish_bench ap3) (\<lambda>ap4. Ok (ap4, jsonOK (ABench cnt))))))"

definition handleBenchReads :: "(nat \<Rightarrow> bench_env) \<Rightarrow> (nat \<Rightarrow> bench_env) \<Rightarrow> (nat \<Rightarrow> nat) \<Rightarrow> gostring \<Rightarrow> gostring \<Rightarrow> APIServer \<Rightarrow> (APIServer \<times> resp) res" where
  "handleBenchReads io io' rnd pfx v ap = bench_reads io (\<lambda>ap i. benchGet (io' i) ap (bkey pfx (rnd i))) pfx v 10000 ap"

definition handleBenchRange :: "(nat \<Rightarrow> bench_env) \<Rightarrow> (nat \<Rightarrow> bench_env) \<Rightarrow> (nat \<Rightarrow> nat) \<Rightarrow> gostring \<Rightarrow> gostring \<Rightarrow> APIServer \<Rightarrow> (APIServer \<times> resp) res" where
  "handleBenchRange io io' rnd pfx v ap = bench_reads io (\<lambda>ap i. benchRange (io' i) ap (bkey pfx (rnd i)) (bkey pfx (rnd i + 100))) pfx v 500 ap"

text \<open>The mixed benchmark: \<open>rnd i\<close> says whether turn \<open>i\<close> is a read, and of which key. Pending writes are flushed before a read and
  at twenty.\<close>

definition bench_flush :: "bench_env \<Rightarrow> gostring \<Rightarrow> APIServer \<Rightarrow> gostring list \<Rightarrow> APIServer res" where
  "bench_flush io v ap ks =
     (if ks = [] then Ok ap
      else case benchBatchPut io ap ks (replicate (length ks) v) of (ap', Panic) \<Rightarrow> Panic | (ap', _) \<Rightarrow> Ok ap')"

fun mixedLoop :: "(nat \<Rightarrow> bench_env) \<Rightarrow> (nat \<Rightarrow> bool \<times> nat) \<Rightarrow> gostring \<Rightarrow> gostring \<Rightarrow> nat list \<Rightarrow> gostring list \<Rightarrow> nat \<Rightarrow> APIServer \<Rightarrow> (APIServer \<times> gostring list) res" where
  "mixedLoop io rnd pfx v [] ks writeIdx ap = Ok (ap, ks)"
| "mixedLoop io rnd pfx v (i # is) ks writeIdx ap =
     (if fst (rnd i)
      then res_bind (bench_flush (io i) v ap ks) (\<lambda>ap1.
           res_bind (no_panic (benchGet (io i) ap1 (bkey pfx (snd (rnd i))))) (\<lambda>_.
             mixedLoop io rnd pfx v is [] writeIdx ap1))
      else let ks1 = ks @ [bkey pfx writeIdx] in
           if length ks1 \<ge> 20
           then res_bind (bench_flush (io i) v ap ks1) (\<lambda>ap1. mixedLoop io rnd pfx v is [] (Suc writeIdx) ap1)
           else mixedLoop io rnd pfx v is ks1 (Suc writeIdx) ap)"

definition handleBenchMixed :: "(nat \<Rightarrow> bench_env) \<Rightarrow> (nat \<Rightarrow> bench_env) \<Rightarrow> (nat \<Rightarrow> bool \<times> nat) \<Rightarrow> gostring \<Rightarrow> gostring \<Rightarrow> APIServer \<Rightarrow> (APIServer \<times> resp) res" where
  "handleBenchMixed io io' rnd pfx v ap =
     res_bind (publish_bench ap) (\<lambda>ap1.
       case writeBatches io False pfx v 50 2500 0 ap1 of
         (ap2, Panic) \<Rightarrow> Panic
       | (ap2, _) \<Rightarrow>
           res_bind (publish_bench ap2) (\<lambda>ap3.
           res_bind (mixedLoop io' rnd pfx v [0..<5000] [] 2500 ap3) (\<lambda>(ap4, ks).
           res_bind (bench_flush (io' 5000) v ap4 ks) (\<lambda>ap5.
           res_bind (publish_bench ap5) (\<lambda>ap6. Ok (ap6, jsonOK (ABench 5000)))))))"

text \<open>The crash demonstration on an engine of its own, in a fresh directory. It closes the engine, gracefully.\<close>

record crash_env =
  ck_mkdir :: bool
  ck_open :: open_env
  ck_write :: "nat \<Rightarrow> write_env"
  ck_value :: "nat \<Rightarrow> bytes"
  ck_close :: close_env
  ck_reopen :: open_env

definition crash_options :: Options where
  "crash_options = \<lparr>MemtableSize = 4 * 1024 * 1024, L0CompactTrigger = 0, MaxLevels = 0, BlockSize = 0\<rparr>"

definition handleCrashRecovery :: "crash_env \<Rightarrow> gostring \<Rightarrow> resp res option" where
  "handleCrashRecovery io pfx =
     (if \<not> ck_mkdir io then Some (Ok (jsonErr 500 ''mkdir''))
      else case snd (Engine_Open (ck_open io) crash_options [] (\<lambda>_. None) []) of
        Panic \<Rightarrow> Some Panic
      | Err err \<Rightarrow> Some (Ok (jsonErr 500 err))
      | Ok e \<Rightarrow>
          obind (Some (fold_res (\<lambda>e i. case Engine_Put (ck_write io i) e (bkey pfx i) (Some (ck_value io i)) of (e', Panic) \<Rightarrow> Panic | (e', _) \<Rightarrow> Ok e') e [0..<100])) (\<lambda>e1.
          case Engine_Close (ck_close io) e1 of
            None \<Rightarrow> None
          | Some (e2, _) \<Rightarrow>
              (case snd (Engine_Open (ck_reopen io) crash_options (e_waldir e2) (e_files e2) (mf_file (e_manifest e2))) of
                 Panic \<Rightarrow> Some Panic
               | Err err \<Rightarrow> Some (Ok (jsonErr 500 err))
               | Ok e3 \<Rightarrow>
                   obind (Some (fold_res (\<lambda>n i. case Engine_Get e3 (bkey pfx i) of Panic \<Rightarrow> Panic | Err _ \<Rightarrow> Ok n | Ok _ \<Rightarrow> Ok (Suc n)) 0 [0..<100])) (\<lambda>recovered.
                     Some (Ok (jsonOK (ACrash 100 recovered)))))))"

subsection \<open>The stream of events\<close>

fun published :: "'d stream_turn list \<Rightarrow> 'd Event list" where
  "published (Others evt # ts) = evt # published ts"
| "published (Take # ts) = published ts"
| "published _ = []"

lemma Publish_queue:
  assumes "Publish eb evt = Ok eb1" shows "subseq (eb_queue eb1 ch) (eb_queue eb ch @ [evt])" "eb_clients eb1 = eb_clients eb"
  using assms by (auto simp: Publish_def split: if_splits)

lemma receive_queue: "eb_receive eb ch = Some (eb1, evt) \<Longrightarrow> eb_queue eb ch = evt # eb_queue eb1 ch \<and> eb_clients eb1 = eb_clients eb"
  by (auto simp: eb_receive_def split: list.splits)

text \<open>A subscriber is sent a subsequence of what was published since it subscribed, and its handler never panics.\<close>

lemma streamEvents_ok:
  assumes "eb_ok eb" "ch \<in> eb_clients eb"
  shows "\<exists>eb' out. streamEvents ch ts eb = Ok (eb', out) \<and> eb_ok eb' \<and> subseq out (eb_queue eb ch @ published ts)"
  using assms
proof (induction ts arbitrary: eb)
  case (Cons t ts)
  show ?case
  proof (cases t)
    case (Others evt)
    obtain eb1 where p: "Publish eb evt = Ok eb1" "eb_ok eb1" using Publish_ok [OF Cons.prems(1)] by blast
    note q = Publish_queue [OF p(1)]
    obtain eb' out where r: "streamEvents ch ts eb1 = Ok (eb', out)" "eb_ok eb'" "subseq out (eb_queue eb1 ch @ published ts)"
      using Cons.IH [of eb1] p(2) Cons.prems(2) q(2) by auto
    have "subseq (eb_queue eb1 ch @ published ts) ((eb_queue eb ch @ [evt]) @ published ts)" by (intro list_emb_append_mono q(1)) simp
    then have "subseq out ((eb_queue eb ch @ [evt]) @ published ts)" using r(3) subseq_order.order_trans by blast
    then show ?thesis using p(1) r(1,2) Others by simp
  next
    case Take
    show ?thesis
    proof (cases "eb_receive eb ch")
      case None
      then show ?thesis using Cons Take by simp
    next
      case (Some x)
      then obtain eb1 evt where x: "eb_receive eb ch = Some (eb1, evt)" by (cases x) auto
      note q = receive_queue [OF x]
      obtain eb' out where "streamEvents ch ts eb1 = Ok (eb', out)" "eb_ok eb'" "subseq out (eb_queue eb1 ch @ published ts)"
        using Cons.IH [of eb1] receive_ok [OF Cons.prems(1) x] Cons.prems(2) q by auto
      then show ?thesis using x q Take by simp
    qed
  next
    case Cancelled
    then show ?thesis using Unsubscribe_ok [OF Cons.prems] by auto
  qed
qed simp

lemma handleClusterEvents_ok:
  assumes "eb_ok eb"
  shows "\<exists>eb' code out. handleClusterEvents flusher ts eb = Ok (eb', code, out) \<and> eb_ok eb' \<and> subseq out (published ts)"
proof (cases flusher)
  case True
  obtain eb1 ch where s: "Subscribe eb = (eb1, ch)" by fastforce
  then have "eb_queue eb1 ch = []" by (auto simp: Subscribe_def Let_def)
  then show ?thesis using True s streamEvents_ok [of eb1 ch ts] Subscribe_ok [OF assms s] by (auto simp: handleClusterEvents_def)
qed (use assms in \<open>simp add: handleClusterEvents_def\<close>)

subsection \<open>Text and bytes\<close>

lemma rune_size_le: "rune_size bs \<le> length bs"
  by (cases bs) (auto simp: rune_size.simps split: list.splits)

lemma json_string_length: "length bs \<le> length (json_string bs)"
proof (induction bs rule: json_string.induct)
  case (2 b bs)
  then show ?case using rune_size_le [of "b # bs"] by (auto simp: Let_def)
qed simp

text \<open>A string comes through unchanged exactly if it is valid UTF-8; so does every string of ASCII bytes.\<close>

lemma json_string_same: "json_string bs = bs \<longleftrightarrow> valid_utf8 bs"
proof (induction bs rule: json_string.induct)
  case (2 b bs)
  let ?n = "rune_size (b # bs)"
  show ?case
  proof (cases "?n = 0")
    case True
    have "json_string (b # bs) \<noteq> b # bs" using json_string_length [of bs] True
      by (auto simp: Let_def dest: arg_cong [of _ _ length])
    then show ?thesis using True by (simp add: Let_def)
  next
    case False
    then have t: "take ?n (b # bs) @ drop (?n - 1) bs = b # bs" by (cases ?n) simp_all
    have j: "json_string (b # bs) = take ?n (b # bs) @ json_string (drop (?n - 1) bs)" using False by (simp add: Let_def)
    have "json_string (b # bs) = b # bs \<longleftrightarrow> json_string (drop (?n - 1) bs) = drop (?n - 1) bs"
      using same_append_eq [of "take ?n (b # bs)" "json_string (drop (?n - 1) bs)" "drop (?n - 1) bs"] unfolding t by (simp only: j)
    then show ?thesis using 2(2) False by (simp add: Let_def)
  qed
qed simp

lemma json_string_ascii: "\<forall>b\<in>set bs. b < 0x80 \<Longrightarrow> json_string bs = bs"
  by (induction bs) (simp_all add: Let_def rune_size.simps)

subsection \<open>The handlers and the map\<close>

text \<open>What a request that is not an \<open>OPTIONS\<close> request asks for: an operation of the store, or nothing because it is malformed.\<close>

fun api_asks :: "http_method \<Rightarrow> api_req \<Rightarrow> string + client_op" where
  "api_asks m (ReqPut body) = (case (js_err body, js_val body) of
     (Some err, _) \<Rightarrow> Inl err | (None, k, v) \<Rightarrow> if k = [] then Inl ''key is required'' else Inr (CPut k v))"
| "api_asks m (ReqGet query body) = (let k = (if m = GET then query else js_val body) in
     if k = [] then Inl ''key is required'' else Inr (CGet k))"
| "api_asks m (ReqDelete query body) = (let k = (if m = GET \<or> m = DELETE then query else js_val body) in
     if k = [] then Inl ''key is required'' else Inr (CDelete k))"
| "api_asks m (ReqBatch body) = (case (js_err body, br_keys (js_val body), br_pairs (js_val body)) of
     (Some err, _) \<Rightarrow> Inl err
   | (None, [], []) \<Rightarrow> Inl ''keys/values or pairs required''
   | (None, [], ps) \<Rightarrow> Inr (CBatch (map fst ps) (map snd ps))
   | (None, ks, _) \<Rightarrow> if length ks = length (br_values (js_val body)) then Inr (CBatch ks (br_values (js_val body)))
       else Inl ''keys and values must have equal length'')"
| "api_asks m (ReqRange query body) = (case (if m = GET then query else js_val body) of (lo, hi) \<Rightarrow>
     if lo = [] \<or> hi = [] then Inl ''start and end are required'' else Inr (CRange lo hi))"

definition api_answer :: "(bytes \<Rightarrow> bytes option) \<Rightarrow> client_op \<Rightarrow> resp \<Rightarrow> bool" where
  "api_answer a op r = (case op of
     CGet k \<Rightarrow> (case a k of None \<Rightarrow> r = (404, ANotFound) | Some v \<Rightarrow> r = (200, AValue (json_string v)) \<or> v = [] \<and> r = (404, ANotFound))
   | CRange lo hi \<Rightarrow> \<exists>ps. r = (200, APairs (map (\<lambda>(k, v). (json_string k, json_string v)) ps)) \<and> pairs_as a lo hi ps
   | CBatch ks vs \<Rightarrow> r = (200, ACount (length ks))
   | _ \<Rightarrow> r = (200, AOk))"

definition api_correct :: "(nat \<Rightarrow> coins) \<Rightarrow> sys \<Rightarrow> client_op \<Rightarrow> (Engine \<times> resp) res \<Rightarrow> bool" where
  "api_correct co s op x \<longleftrightarrow> (write_fits co (s_eng s) (op_writes op) \<or> op_writes op = [] \<longrightarrow>
     (\<exists>e' r. x = Ok (e', r) \<and> (op_writes op = [] \<longrightarrow> e' = s_eng s) \<and> eng_reach (s\<lparr>s_eng := e', s_abs := abs_write (s_abs s) (op_writes op)\<rparr>) \<and> api_answer (s_abs s) op r))"

lemma api_correct_write:
  assumes "op_writes op \<noteq> []" "write_fits co (s_eng s) (op_writes op) \<Longrightarrow> r = Ok () \<and> eng_reach (s\<lparr>s_eng := e', s_abs := abs_write (s_abs s) (op_writes op)\<rparr>)"
    and "api_answer (s_abs s) op (200, ok)"
  shows "api_correct co s op (api_write (e', r) ok)"
  using assms by (auto simp: api_correct_def api_write_def jsonOK_def)

lemma api_put_correct:
  assumes "eng_reach s" shows "api_correct co s (CPut k v) (api_write (Engine_Put (write_ok co) (s_eng s) k (Some v)) AOk)"
proof -
  obtain e' r where p: "Engine_Put (write_ok co) (s_eng s) k (Some v) = (e', r)" by (metis prod.exhaust)
  show ?thesis unfolding p using put_runs [OF assms _ p] by (intro api_correct_write) (auto simp: api_answer_def)
qed

lemma api_delete_correct:
  assumes "eng_reach s" shows "api_correct co s (CDelete k) (api_write (Engine_Delete (write_ok co) (s_eng s) k) AOk)"
proof -
  obtain e' r where p: "Engine_Delete (write_ok co) (s_eng s) k = (e', r)" by (metis prod.exhaust)
  show ?thesis unfolding p using delete_runs [OF assms _ p] by (intro api_correct_write) (auto simp: api_answer_def)
qed

lemma api_batch_correct:
  assumes "eng_reach s" "ks \<noteq> []" "length ks = length vs"
  shows "api_correct co s (CBatch ks vs) (api_write (Engine_BatchPut (write_ok co) (s_eng s) ks (map Some vs)) (ACount (length ks)))"
proof -
  obtain e' r where p: "Engine_BatchPut (write_ok co) (s_eng s) ks (map Some vs) = (e', r)" by (metis prod.exhaust)
  have "zip ks (map Some vs) \<noteq> []" using assms(2,3) by (cases ks; cases vs) simp_all
  then show ?thesis unfolding p using batch_runs [OF assms(1) _ _ p] assms(3) by (intro api_correct_write) (auto simp: api_answer_def)
qed

lemma api_get_reads:
  assumes "reads_as e a" "(if m = GET then query else js_val body) = k" "k \<noteq> []"
  shows "\<exists>r. api_handleGet m query body e = Ok (e, r) \<and> api_answer a (CGet k) r"
  using reads_as_key(1) [OF assms(1), of k] assms(2,3)
  by (auto simp: api_handleGet_def api_answer_def jsonOK_def val_bytes_def split: option.splits)

lemma api_range_reads:
  assumes "eng_inv e" "view_as a (kv_view e)" "(if m = GET then query else js_val body) = (lo, hi)" "lo \<noteq> []" "hi \<noteq> []"
  shows "\<exists>r. api_handleRange m query body e = Ok (e, r) \<and> api_answer a (CRange lo hi) r"
proof -
  obtain ps where r: "ReadRange e lo hi = Some ps" "pairs_as a lo hi (map kv_pair ps)" using ReadRange_reads [OF assms(1,2)] by blast
  have "api_pairs ps = APairs (map (\<lambda>(k, v). (json_string k, json_string v)) (map kv_pair ps))" by (simp add: api_pairs_def kv_pair_def comp_def)
  then have "\<exists>ps'. api_pairs ps = APairs (map (\<lambda>(k, v). (json_string k, json_string v)) ps') \<and> pairs_as a lo hi ps'" using r(2) by blast
  then have "api_answer a (CRange lo hi) (200, api_pairs ps)" by (simp add: api_answer_def)
  then show ?thesis using r(1) assms(3-5) by (simp add: api_handleRange_def jsonOK_def)
qed

lemma api_read_correct:
  assumes "eng_reach s" "\<exists>r. x = Ok (s_eng s, r) \<and> api_answer (s_abs s) op r" "op_writes op = []"
  shows "api_correct co s op x"
  using assms by (auto simp: api_correct_def)

text \<open>The reads, over any engine that holds the map.\<close>

lemma api_reads:
  assumes "eng_inv e" "view_as a (kv_view e)" "m \<noteq> OPTIONS" "api_asks m req = Inr op" "op_writes op = []"
  shows "\<exists>r. api_serve io m req e = Ok (e, r) \<and> api_answer a op r"
proof (cases req)
  case (ReqGet query body)
  let ?k = "if m = GET then query else js_val body"
  have k: "?k \<noteq> []" "op = CGet ?k" using assms(4) ReqGet by (auto simp: Let_def split: if_splits)
  show ?thesis using api_get_reads [OF reads_as_view [OF assms(1,2)] refl k(1)] ReqGet assms(3) k(2) by (simp add: cors_def)
next
  case (ReqRange query body)
  obtain lo hi where b: "(if m = GET then query else js_val body) = (lo, hi)" by fastforce
  then have "lo \<noteq> []" "hi \<noteq> []" "op = CRange lo hi" using assms(4) ReqRange by (auto split: if_splits)
  then show ?thesis using api_range_reads [OF assms(1,2) b] ReqRange assms(3) by (simp add: cors_def)
qed (use assms(4,5) in \<open>auto simp: Let_def split: option.splits prod.splits list.splits if_splits\<close>)

text \<open>C19. The routes of the store are the map as well. Take any request to one of them in a state the engine reaches by \<open>eng_step\<close>. An
  \<open>OPTIONS\<close> request is answered with 204 and changes nothing. A request without the parameters its handler insists on, or with a
  body that cannot be decoded where the handler looks at that, is answered with 400 and the
  message, and changes nothing. Any other request, by query parameters or by a body, with both forms of a batch, is answered with what the
  abstract map answers and takes the engine to a reachable state of the updated map, provided that its
  write fits. A get of an absent or deleted key is answered with 404 (one whose value is empty may be),
  a range with exactly the pairs between its bounds; values and keys are answered as text, with U+FFFD for what is
  not valid UTF-8.\<close>

theorem api_refines_map:
  assumes "eng_reach s"
  shows "if m = OPTIONS then api_serve (write_ok co) m req (s_eng s) = Ok (s_eng s, 204, ANone)
    else case api_asks m req of
        Inl msg \<Rightarrow> api_serve (write_ok co) m req (s_eng s) = Ok (s_eng s, 400, AErr msg)
      | Inr op \<Rightarrow> write_fits co (s_eng s) (op_writes op) \<or> op_writes op = [] \<longrightarrow>
          (\<exists>e' r. api_serve (write_ok co) m req (s_eng s) = Ok (e', r) \<and> (op_writes op = [] \<longrightarrow> e' = s_eng s) \<and>
            eng_reach (s\<lparr>s_eng := e', s_abs := abs_write (s_abs s) (op_writes op)\<rparr>) \<and> api_answer (s_abs s) op r)"
proof (cases "m = OPTIONS")
  case True
  then show ?thesis by (cases req) (simp_all add: cors_def)
next
  case False
  have inv: "eng_inv (s_eng s)" "view_as (s_abs s) (kv_view (s_eng s))" using sys_inv_reach [OF assms] by (simp_all add: sys_inv_def)
  have "case api_asks m req of
        Inl msg \<Rightarrow> api_serve (write_ok co) m req (s_eng s) = Ok (s_eng s, 400, AErr msg)
      | Inr op \<Rightarrow> api_correct co s op (api_serve (write_ok co) m req (s_eng s))"
  proof (cases req)
    case (ReqPut body)
    then show ?thesis using False api_put_correct [OF assms]
      by (auto simp: cors_def api_handlePut_def jsonErr_def split: option.splits prod.splits)
  next
    case (ReqGet query body)
    then show ?thesis using False api_read_correct [OF assms api_get_reads [OF reach_reads_as [OF assms] refl]]
      by (auto simp: cors_def api_handleGet_def jsonErr_def Let_def)
  next
    case (ReqDelete query body)
    then show ?thesis using False api_delete_correct [OF assms] by (auto simp: cors_def api_handleDelete_def jsonErr_def Let_def)
  next
    case (ReqBatch body)
    let ?ps = "br_pairs (js_val body)"
    show ?thesis using ReqBatch False api_batch_correct [OF assms] api_batch_correct [OF assms, of "map fst ?ps" "map snd ?ps" co]
      by (auto simp: cors_def api_handleBatch_def jsonErr_def Let_def comp_def split: option.splits list.splits)
  next
    case (ReqRange query body)
    obtain lo hi where b: "(if m = GET then query else js_val body) = (lo, hi)" by fastforce
    have serve: "api_serve (write_ok co) m req (s_eng s) = api_handleRange m query body (s_eng s)" using ReqRange False by (simp add: cors_def)
    show ?thesis
    proof (cases "lo = [] \<or> hi = []")
      case True
      then show ?thesis unfolding serve using ReqRange b by (auto simp: api_handleRange_def jsonErr_def)
    next
      case False
      then have "api_correct co s (CRange lo hi) (api_handleRange m query body (s_eng s))" using api_read_correct [OF assms api_range_reads [OF inv b]] by simp
      moreover have "api_asks m req = Inr (CRange lo hi)" using ReqRange b False by simp
      ultimately show ?thesis unfolding serve by simp
    qed
  qed
  then show ?thesis using False by (cases "api_asks m req") (simp_all add: api_correct_def)
qed

theorem api_refines_map_witness:
  "\<exists>s e e'. sample_sys s e \<and>
     api_serve (write_ok (\<lambda>_ _. False)) OPTIONS (ReqPut \<lparr>js_val = ([1], [10]), js_err = None\<rparr>) e = Ok (e, 204, ANone) \<and>
     api_serve (write_ok (\<lambda>_ _. False)) POST (ReqPut \<lparr>js_val = ([], [10]), js_err = None\<rparr>) e = Ok (e, 400, AErr ''key is required'') \<and>
     api_serve (write_ok (\<lambda>_ _. False)) POST (ReqBatch \<lparr>js_val = \<lparr>br_keys = [], br_values = [], br_pairs = [([1], [10])]\<rparr>, js_err = None\<rparr>) e = Ok (e', 200, ACount 1) \<and>
     api_serve (write_ok (\<lambda>_ _. False)) GET (ReqGet [1] \<lparr>js_val = [], js_err = Some ''EOF''\<rparr>) e' = Ok (e', 200, AValue [10]) \<and>
     api_serve (write_ok (\<lambda>_ _. False)) GET (ReqGet [7] \<lparr>js_val = [], js_err = Some ''EOF''\<rparr>) e' = Ok (e', 404, ANotFound)"
proof -
  let ?co = "\<lambda>_ _. False" and ?b = "ReqBatch \<lparr>js_val = \<lparr>br_keys = [], br_values = [], br_pairs = [([1], [10])]\<rparr>, js_err = None\<rparr>"
  obtain s e where s: "sample_sys s e" "eng_reach s" "s_eng s = e" "fileID (e_wal e) = 1" "flushCh e = []" "mem_entries (snd (e_memtable e)) = []" "eng_inv e"
    "s_abs s = (\<lambda>_. None)" using sample_reach by metis
  have f: "write_fits ?co e [([1], Some [10])]"
    using sample_put [OF s(7,6)] s(4,5) by (simp add: write_fits_def flushCap_def batchRecord_def rec_ok_def val_bytes_def)
  have a: "abs_write (s_abs s) [([1], Some [10])] = [[1] \<mapsto> [10]]" by (simp add: abs_write_def s(8) fun_eq_iff)
  have o: "api_serve (write_ok ?co) OPTIONS (ReqPut \<lparr>js_val = ([1], [10]), js_err = None\<rparr>) e = Ok (e, 204, ANone)"
    using api_refines_map [OF s(2), of OPTIONS ?co "ReqPut \<lparr>js_val = ([1], [10]), js_err = None\<rparr>"] s(3) by (simp del: api_serve.simps)
  have m: "api_serve (write_ok ?co) POST (ReqPut \<lparr>js_val = ([], [10]), js_err = None\<rparr>) e = Ok (e, 400, AErr ''key is required'')"
    using api_refines_map [OF s(2), of POST ?co "ReqPut \<lparr>js_val = ([], [10]), js_err = None\<rparr>"] s(3) by (simp del: api_serve.simps)
  obtain e' where b: "api_serve (write_ok ?co) POST ?b e = Ok (e', 200, ACount 1)" "eng_reach (s\<lparr>s_eng := e', s_abs := [[1] \<mapsto> [10]]\<rparr>)"
    using api_refines_map [OF s(2), of POST ?co ?b] s(3) f a by (auto simp: api_answer_def simp del: api_serve.simps)
  have g: "api_serve (write_ok ?co) GET (ReqGet [1] \<lparr>js_val = [], js_err = Some ''EOF''\<rparr>) e' = Ok (e', 200, AValue [10])"
    using api_refines_map [OF b(2), of GET ?co "ReqGet [1] \<lparr>js_val = [], js_err = Some ''EOF''\<rparr>"] json_string_ascii [of "[10]"]
    by (auto simp: api_answer_def simp del: api_serve.simps)
  have n: "api_serve (write_ok ?co) GET (ReqGet [7] \<lparr>js_val = [], js_err = Some ''EOF''\<rparr>) e' = Ok (e', 404, ANotFound)"
    using api_refines_map [OF b(2), of GET ?co "ReqGet [7] \<lparr>js_val = [], js_err = Some ''EOF''\<rparr>"]
    by (auto simp: api_answer_def simp del: api_serve.simps)
  show ?thesis using s(1) o m b(1) g n by blast
qed

subsection \<open>The benchmarks and the replicas\<close>

lemma batch_stores:
  assumes "eng_reach s" "write_fits c (s_eng s) (zip ks vs)" "length ks = length vs" "Engine_BatchPut (write_ok c) (s_eng s) ks vs = (e', r)"
  shows "r = Ok ()" "reads_as e' (abs_write (s_abs s) (zip ks vs))"
  using batch_runs [OF assms] reach_reads_as [of "s\<lparr>s_eng := e', s_abs := abs_write (s_abs s) (zip ks vs)\<rparr>"] by simp_all

text \<open>C39. A benchmark makes the replicas differ. With a running cluster it writes to the engine of the leader and not
  to the log: the leader then has the key, and no replica that has applied the same entries does, although nothing
  failed.\<close>

theorem api_bench_diverges:
  assumes "IsRunning (ap_cluster ap)" "findLeader (be_polls io) (ap_cluster ap) = Ok j" "j < length (cm_nodes (ap_cluster ap))"
    and "cm_nodes (ap_cluster ap) ! j = Some nd" "nd_eng nd = Some (s_eng s)" "node_run old es s" "set old \<subseteq> set es"
    and "be_write io = write_ok c" "write_fits c (s_eng s) [(k, Some v)]" "v \<noteq> []" "log_map es k = None"
    and "node_run old' es s'" "set old' \<subseteq> set es"
  shows "\<exists>ap' nd' e'. benchBatchPut io ap [k] [v] = (ap', Ok ()) \<and> cm_nodes (ap_cluster ap') ! j = Some nd' \<and> nd_raft nd' = nd_raft nd \<and>
    nd_eng nd' = Some e' \<and> Engine_Get e' k = Ok (Some v) \<and> Engine_Get (s_eng s') k \<noteq> Ok (Some v)"
proof -
  have s: "eng_reach s" "s_abs s = log_map es" and s': "eng_reach s'" "s_abs s' = log_map es"
    using node_run_inv [OF assms(6)] node_run_inv [OF assms(12)] log_map_again [OF assms(7)] log_map_again [OF assms(13)] by simp_all
  obtain e' r where b: "Engine_BatchPut (write_ok c) (s_eng s) [k] [Some v] = (e', r)" by (metis prod.exhaust)
  have r: "r = Ok ()" "reads_as e' (abs_write (log_map es) [(k, Some v)])" using batch_stores [OF s(1) _ _ b] assms(9) s(2) by simp_all
  have "abs_write (log_map es) [(k, Some v)] k = Some v" using assms(10) by (cases v) (simp_all add: abs_write_def)
  then have g: "Engine_Get e' k = Ok (Some v)" using assms(10) by (rule reads_as_key(2) [OF r(2)])
  have "reads_as (s_eng s') (log_map es)" using reach_reads_as [OF s'(1)] s'(2) by simp
  then have n: "Engine_Get (s_eng s') k \<noteq> Ok (Some v)" using reads_as_key(3) assms(11) by fastforce
  have w: "benchEngine (be_polls io) ap = Some j" using assms(1,2) by (simp add: benchEngine_def)
  then have "benchBatchPut io ap [k] [v] = (set_engine ap (Some j) e', Ok ())"
    using assms(4,5,8) b r(1) by (simp add: benchBatchPut_def engine_at_def)
  then show ?thesis using assms(3,4) g n by (simp add: set_engine_def)
qed

theorem api_bench_diverges_witness:
  "\<exists>x e ap'. sample_sys x e \<and> benchBatchPut \<lparr>be_polls = [], be_write = write_ok (\<lambda>_ _. False)\<rparr>
      \<lparr>ap_engine = e, ap_cluster = (NewClusterManager NewEventBus)\<lparr>cm_running := True,
         cm_nodes := [Some \<lparr>nd_raft = (fresh_node trio [1])\<lparr>r_state := Leader\<rparr>, nd_eng = Some e, nd_closed = False\<rparr>]\<rparr>\<rparr> [[1]] [[7]] = (ap', Ok ()) \<and>
      Engine_Get e [1] \<noteq> Ok (Some [7])"
proof -
  obtain x e where x: "sample_sys x e" "s_eng x = e" "fileID (e_wal e) = 1" "flushCh e = []" "mem_entries (snd (e_memtable e)) = []" "eng_inv e"
    using sample_reach by metis
  let ?cm = "(NewClusterManager NewEventBus)\<lparr>cm_running := True,
         cm_nodes := [Some \<lparr>nd_raft = (fresh_node trio [1])\<lparr>r_state := Leader\<rparr>, nd_eng = Some e, nd_closed = False\<rparr>]\<rparr>"
  have f: "write_fits (\<lambda>_ _. False) (s_eng x) [([1], Some [7])]"
    using sample_put [OF x(6,5)] x(2,3,4) by (simp add: write_fits_def flushCap_def batchRecord_def rec_ok_def val_bytes_def)
  have run: "node_run [] [] x" using x(1) node_run.Fresh by (auto simp: sample_sys_def)
  have l: "findLeader [] ?cm = Ok 0" by (simp add: findLeader_def scanLeader_def leads_def IsLeader_def NewClusterManager_def)
  have m: "log_map [] [1] = None" by (simp add: log_map_def abs_write_def)
  have "\<exists>ap'. benchBatchPut \<lparr>be_polls = [], be_write = write_ok (\<lambda>_ _. False)\<rparr> \<lparr>ap_engine = e, ap_cluster = ?cm\<rparr> [[1]] [[7]] = (ap', Ok ()) \<and> Engine_Get (s_eng x) [1] \<noteq> Ok (Some [7])"
    using api_bench_diverges [of "\<lparr>ap_engine = e, ap_cluster = ?cm\<rparr>" "\<lparr>be_polls = [], be_write = write_ok (\<lambda>_ _. False)\<rparr>" 0
        "\<lparr>nd_raft = (fresh_node trio [1])\<lparr>r_state := Leader\<rparr>, nd_eng = Some e, nd_closed = False\<rparr>" x "[]" "[]" "\<lambda>_ _. False" "[1]" "[7]" "[]" x]
      l run f m x(2) by (auto simp: IsRunning_def)
  then show ?thesis using x(1,2) by blast
qed

end
